(* ===== verification/Prelude.thy ===== *)
theory Prelude
  imports "HOL-Library.Word"
begin

text \<open>
  Shared vocabulary of the development: the fixed-width integer types of the C sources, the
  unsigned \<open>size_t\<close> arithmetic they rely on, big-endian byte strings with their numeric value,
  in-place updates of byte arrays, and the outcome type of a function that consumes a \<open>CBS\<close>.
  The theory also declares the fact collections the component theories fill.
\<close>

unbundle bit_operations_syntax

named_theorems size_arith \<open>arithmetic of size_t\<close>
named_theorems be_simps \<open>big-endian byte strings\<close>
named_theorems parse_simps \<open>composition of parsers\<close>

section \<open>Integer types\<close>

type_synonym u8 = "8 word"
type_synonym u16 = "16 word"
type_synonym u32 = "32 word"
type_synonym u64 = "64 word"
type_synonym i64 = "64 word"

text \<open>The iOS targets of the pods are 64-bit: \<open>size_t\<close> counts modulo \<open>2 ^ 64\<close>. A \<open>size_t\<close> is a
  natural number below \<open>size_mod\<close>, and every sum or product that the code tests for overflow is
  written with the wrap-around.\<close>

definition size_mod :: nat where
  "size_mod = 18446744073709551616"

definition size_add :: "nat \<Rightarrow> nat \<Rightarrow> nat" where
  "size_add a b = (a + b) mod size_mod"

definition size_mul :: "nat \<Rightarrow> nat \<Rightarrow> nat" where
  "size_mul a b = (a * b) mod size_mod"

definition INT_MAX :: nat where
  "INT_MAX = 2147483647"

lemma size_mod_pow: "size_mod = 2 ^ 64"
  by (simp add: size_mod_def)

lemma size_add_exact [size_arith]: "a + b < size_mod \<Longrightarrow> size_add a b = a + b"
  by (simp add: size_add_def)

lemma size_mul_exact [size_arith]: "a * b < size_mod \<Longrightarrow> size_mul a b = a * b"
  by (simp add: size_mul_def)

text \<open>The idiom \<open>if (a + b < a)\<close> detects exactly the sums that do not fit.\<close>

text \<open>The overflow test of the code for a product: divide it again and compare.\<close>

lemma size_mul_div_exact: "size_mul a k div k = a \<Longrightarrow> a * k < size_mod"
proof -
  assume "size_mul a k div k = a"
  then have "a * k \<le> size_mul a k" using div_times_less_eq_dividend [of "size_mul a k" k] by simp
  also have "\<dots> < size_mod" by (simp add: size_mul_def size_mod_def)
  finally show ?thesis .
qed

lemma size_add_wraps [size_arith]:
  assumes "a < size_mod" "b < size_mod"
  shows "size_add a b < a \<longleftrightarrow> size_mod \<le> a + b"
proof (cases "a + b < size_mod")
  case False
  then have "size_add a b = a + b - size_mod"
    using assms by (simp add: size_add_def mod_if)
  then show ?thesis using assms False by auto
qed (simp add: size_add_def)

section \<open>Big-endian byte strings\<close>

definition be_nat :: "u8 list \<Rightarrow> nat" where
  "be_nat bs = foldl (\<lambda>n b. n * 256 + unat b) 0 bs"

fun be_bytes :: "nat \<Rightarrow> nat \<Rightarrow> u8 list" where
  "be_bytes 0 v = []"
| "be_bytes (Suc k) v = be_bytes k (v div 256) @ [word_of_nat v]"

lemma be_nat_Nil [simp, be_simps]: "be_nat [] = 0"
  by (simp add: be_nat_def)

lemma be_nat_snoc [be_simps]: "be_nat (bs @ [b]) = be_nat bs * 256 + unat b"
  by (simp add: be_nat_def)

lemma unat_u8_less [simp]: "unat (b :: u8) < 256"
  using unsigned_less [of b] by simp

lemma be_nat_append [be_simps]: "be_nat (bs @ cs) = be_nat bs * 256 ^ length cs + be_nat cs"
proof (induction cs rule: rev_induct)
  case (snoc c cs)
  have "be_nat (bs @ cs @ [c]) = be_nat (bs @ cs) * 256 + unat c"
    by (metis append_assoc be_nat_snoc)
  with snoc show ?case by (simp add: be_nat_snoc algebra_simps)
qed simp

lemma be_nat_single [be_simps]: "be_nat [b] = unat b"
  by (simp add: be_nat_def)

lemma be_nat_Cons [be_simps]: "be_nat (b # bs) = unat b * 256 ^ length bs + be_nat bs"
  using be_nat_append [of "[b]" bs] by (simp add: be_nat_single)

lemma be_nat_bound: "be_nat bs < 256 ^ length bs"
proof (induction bs rule: rev_induct)
  case (snoc b bs)
  have "be_nat bs * 256 + unat b < be_nat bs * 256 + 256" by simp
  also have "\<dots> \<le> 256 ^ length bs * 256"
    using snoc by (metis Suc_leI add.commute mult.commute mult_Suc_right mult_le_mono2)
  finally show ?case by (simp add: be_nat_snoc)
qed simp

lemma length_be_bytes [simp]: "length (be_bytes k v) = k"
  by (induction k arbitrary: v) auto

lemma unat_word_of_nat_u8: "unat (word_of_nat v :: u8) = v mod 256"
  by (simp add: unat_of_nat)

lemma be_nat_be_bytes [be_simps]: "be_nat (be_bytes k v) = v mod 256 ^ k"
proof (induction k arbitrary: v)
  case (Suc k)
  have "(v div 256) mod 256 ^ k * 256 + v mod 256 = v mod (256 * 256 ^ k)"
    by (simp add: mod_mult2_eq algebra_simps)
  with Suc show ?case by (simp add: be_nat_snoc unat_word_of_nat_u8)
qed simp

lemma be_bytes_be_nat: "be_bytes (length bs) (be_nat bs) = bs"
proof (induction bs rule: rev_induct)
  case (snoc b bs)
  have "(be_nat bs * 256 + unat b) div 256 = be_nat bs" by simp
  moreover have "(word_of_nat (be_nat bs * 256 + unat b) :: u8) = b"
    by (simp add: word_unat_eq_iff [of _ b] unat_word_of_nat_u8 del: of_nat_add of_nat_mult)
  ultimately show ?case using snoc by (simp add: be_nat_snoc)
qed simp

lemma be_nat_inject: "length bs = length cs \<Longrightarrow> be_nat bs = be_nat cs \<Longrightarrow> bs = cs"
  by (metis be_bytes_be_nat)

lemma be_nat_replicate_0 [be_simps]: "be_nat (replicate n 0) = 0"
  by (induction n) (simp_all add: be_nat_Cons)

section \<open>Assertions\<close>

text \<open>In the option monad: an assertion of the code, \<open>None\<close> when it fails.\<close>

definition c_assert :: "bool \<Rightarrow> unit option" where
  "c_assert b = (if b then Some () else None)"

section \<open>Writing into an array\<close>

text \<open>\<open>write_at off bs buf\<close> is the array after \<open>memcpy(buf + off, bs, len)\<close>. The callers guarantee
  that the destination lies inside the array.\<close>

definition write_at :: "nat \<Rightarrow> 'a list \<Rightarrow> 'a list \<Rightarrow> 'a list" where
  "write_at off bs buf = take off buf @ bs @ drop (off + length bs) buf"

lemma length_write_at [simp]:
  "off + length bs \<le> length buf \<Longrightarrow> length (write_at off bs buf) = length buf"
  by (simp add: write_at_def)

lemma take_write_at:
  assumes "off + length bs \<le> length buf"
  shows "take (off + length bs) (write_at off bs buf) = take off buf @ bs"
proof -
  from assms have "off \<le> length buf" by simp
  then show ?thesis by (simp add: write_at_def)
qed

lemma write_at_Nil [simp]: "write_at off [] buf = buf"
  by (simp add: write_at_def)

lemma take_write_at_before:
  "n \<le> off \<Longrightarrow> off \<le> length buf \<Longrightarrow> take n (write_at off bs buf) = take n buf"
  by (simp add: write_at_def min_def)

lemma write_at_append:
  assumes "off + length bs + length cs \<le> length buf"
  shows "write_at (off + length bs) cs (write_at off bs buf) = write_at off (bs @ cs) buf"
proof -
  from assms have "off \<le> length buf" by simp
  then show ?thesis by (simp add: write_at_def ac_simps)
qed

section \<open>Parsers over a CBS\<close>

text \<open>A \<open>CBS\<close> denotes the bytes it still has to deliver. A function \<open>int f(CBS *cbs, T *out)\<close>
  returns the value written to \<open>*out\<close> (\<open>None\<close> for the return value 0) and the \<open>CBS\<close> it leaves
  behind: a failed call may have consumed input too. \<open>cbs_bind\<close> is the idiom
  \<open>if (!f(cbs, &v)) return 0; ...\<close>.\<close>

type_synonym CBS = "u8 list"
type_synonym 'a cbs_result = "'a option \<times> CBS"

definition cbs_bind :: "'a cbs_result \<Rightarrow> ('a \<Rightarrow> CBS \<Rightarrow> 'b cbs_result) \<Rightarrow> 'b cbs_result" where
  "cbs_bind r f = (case r of (None, cbs) \<Rightarrow> (None, cbs) | (Some v, cbs) \<Rightarrow> f v cbs)"

lemma cbs_bind_simps [simp, parse_simps]:
  "cbs_bind (None, cbs) f = (None, cbs)"
  "cbs_bind (Some v, cbs) f = f v cbs"
  by (simp_all add: cbs_bind_def)

lemma cbs_bind_Some_iff [parse_simps]:
  "cbs_bind r f = (Some w, rest) \<longleftrightarrow> (\<exists>v cbs. r = (Some v, cbs) \<and> f v cbs = (Some w, rest))"
  by (auto simp: cbs_bind_def split: prod.splits option.splits)

text \<open>Two contracts that the codecs of the library satisfy. A prefix codec reads back what it wrote
  whatever follows; a canonical codec, in addition, accepts nothing but its own encodings.\<close>

locale prefix_codec =
  fixes enc :: "'a \<Rightarrow> u8 list"
    and dec :: "CBS \<Rightarrow> 'a cbs_result"
    and valid :: "'a \<Rightarrow> bool"
  assumes dec_enc: "valid x \<Longrightarrow> dec (enc x @ rest) = (Some x, rest)"
    and enc_nonempty: "valid x \<Longrightarrow> enc x \<noteq> []"
begin

lemma enc_prefix_free: "valid x \<Longrightarrow> valid y \<Longrightarrow> enc x @ r = enc y @ s \<Longrightarrow> x = y \<and> r = s"
  by (metis dec_enc option.inject prod.inject)

lemma enc_inj: "valid x \<Longrightarrow> valid y \<Longrightarrow> enc x = enc y \<Longrightarrow> x = y"
  using enc_prefix_free [of x y "[]" "[]"] by simp

lemma enc_seq_inj:
  "list_all valid xs \<Longrightarrow> list_all valid ys \<Longrightarrow> concat (map enc xs) = concat (map enc ys) \<Longrightarrow> xs = ys"
proof (induction xs arbitrary: ys)
  case Nil
  then show ?case using enc_nonempty by (cases ys) auto
next
  case (Cons x xs)
  then obtain y ys' where "ys = y # ys'" using enc_nonempty by (cases ys) auto
  with Cons show ?case using enc_prefix_free [of x y] by auto
qed

end

locale canonical_codec = prefix_codec +
  assumes enc_dec: "dec cbs = (Some x, rest) \<Longrightarrow> valid x \<and> cbs = enc x @ rest"
begin

lemma dec_iff: "dec cbs = (Some x, rest) \<longleftrightarrow> valid x \<and> cbs = enc x @ rest"
  using dec_enc enc_dec by blast

lemma dec_consumes: "dec cbs = (Some x, rest) \<Longrightarrow> length rest < length cbs"
  using dec_iff enc_nonempty by (metis length_append length_greater_0_conv less_add_same_cancel2)

end

end
