(* ===== verification/Mem.thy ===== *)
theory Mem
  imports Prelude
begin

text \<open>
  \<open>crypto/mem.c\<close>: the allocation wrappers over the platform's \<open>malloc\<close>, constant-time comparison,
  the FNV hash, locale-independent character classification and the bounded string functions.

  The platform allocator is an argument: \<open>malloc_ok\<close> says whether a request of so many bytes is
  granted, \<open>fresh\<close> what an uninitialised byte holds. An allocated array is the list of its bytes,
  \<open>None\<close> is \<open>NULL\<close>. The weak hooks \<open>OPENSSL_memory_alloc\<close>, \<open>OPENSSL_memory_free\<close> and
  \<open>OPENSSL_memory_get_size\<close> are \<open>NULL\<close> in this build, and \<open>should_fail_allocation\<close> returns 0.
  A C string is the array that holds it; its text is what precedes the first zero byte.
\<close>

section \<open>Allocation\<close>

record allocator =
  malloc_ok :: "nat \<Rightarrow> bool"
  fresh :: "nat \<Rightarrow> u8"

definition OPENSSL_MALLOC_PREFIX :: nat where
  "OPENSSL_MALLOC_PREFIX = 8"

definition OPENSSL_malloc :: "allocator \<Rightarrow> nat \<Rightarrow> u8 list option" where
  "OPENSSL_malloc A sz =
     (if size_add sz OPENSSL_MALLOC_PREFIX < sz then None
      else if malloc_ok A (size_add sz OPENSSL_MALLOC_PREFIX) then Some (map (fresh A) [0..<sz])
      else None)"

definition OPENSSL_zalloc :: "allocator \<Rightarrow> nat \<Rightarrow> u8 list option" where
  "OPENSSL_zalloc A sz =
     (case OPENSSL_malloc A sz of None \<Rightarrow> None | Some ret \<Rightarrow> Some (replicate (length ret) 0))"

definition OPENSSL_calloc :: "allocator \<Rightarrow> nat \<Rightarrow> nat \<Rightarrow> u8 list option" where
  "OPENSSL_calloc A num sz =
     (if sz \<noteq> 0 \<and> (size_mod - 1) div sz < num then None
      else OPENSSL_zalloc A (size_mul num sz))"

text \<open>The old block is \<open>orig\<close>, whose length is the size recorded in front of it.\<close>

definition OPENSSL_realloc :: "allocator \<Rightarrow> u8 list option \<Rightarrow> nat \<Rightarrow> u8 list option" where
  "OPENSSL_realloc A orig new_size =
     (case orig of
        None \<Rightarrow> OPENSSL_malloc A new_size
      | Some old \<Rightarrow>
          (case OPENSSL_malloc A new_size of
             None \<Rightarrow> None
           | Some ret \<Rightarrow>
               (let to_copy = (if length old < new_size then length old else new_size)
                in Some (write_at 0 (take to_copy old) ret))))"

definition OPENSSL_memdup :: "allocator \<Rightarrow> u8 list \<Rightarrow> u8 list option" where
  "OPENSSL_memdup A data =
     (if length data = 0 then None
      else case OPENSSL_malloc A (length data) of
             None \<Rightarrow> None
           | Some ret \<Rightarrow> Some (write_at 0 data ret))"

section \<open>Comparison and hashing\<close>

fun memcmp_loop :: "u8 \<Rightarrow> u8 list \<Rightarrow> u8 list \<Rightarrow> nat \<Rightarrow> u8" where
  "memcmp_loop x (a # as) (b # bs) (Suc len) = memcmp_loop (x OR (a XOR b)) as bs len"
| "memcmp_loop x _ _ _ = x"

definition CRYPTO_memcmp :: "u8 list \<Rightarrow> u8 list \<Rightarrow> nat \<Rightarrow> u8" where
  "CRYPTO_memcmp in_a in_b len = memcmp_loop 0 in_a in_b len"

fun hash32_loop :: "u32 \<Rightarrow> u8 list \<Rightarrow> u32" where
  "hash32_loop h [] = h"
| "hash32_loop h (b # bs) = hash32_loop ((h XOR ucast b) * 16777619) bs"

definition OPENSSL_hash32 :: "u8 list \<Rightarrow> u32" where
  "OPENSSL_hash32 ptr = hash32_loop 2166136261 ptr"

section \<open>Strings\<close>

definition strlen :: "u8 list \<Rightarrow> nat" where
  "strlen s = length (takeWhile (\<lambda>c. c \<noteq> 0) s)"

definition OPENSSL_strhash :: "u8 list \<Rightarrow> u32" where
  "OPENSSL_strhash s = OPENSSL_hash32 (take (strlen s) s)"

fun OPENSSL_strnlen :: "u8 list \<Rightarrow> nat \<Rightarrow> nat" where
  "OPENSSL_strnlen s 0 = 0"
| "OPENSSL_strnlen [] (Suc len) = 0"
| "OPENSSL_strnlen (c # s) (Suc len) = (if c = 0 then 0 else Suc (OPENSSL_strnlen s len))"

definition OPENSSL_strdup :: "allocator \<Rightarrow> u8 list option \<Rightarrow> u8 list option" where
  "OPENSSL_strdup A s =
     (case s of None \<Rightarrow> None | Some s \<Rightarrow> OPENSSL_memdup A (take (strlen s + 1) s))"

definition OPENSSL_strndup :: "allocator \<Rightarrow> u8 list \<Rightarrow> nat \<Rightarrow> u8 list option" where
  "OPENSSL_strndup A str sz =
     (let sz = OPENSSL_strnlen str sz;
          alloc_size = size_add sz 1
      in if alloc_size < sz then None
         else case OPENSSL_malloc A alloc_size of
                None \<Rightarrow> None
              | Some ret \<Rightarrow> Some ((write_at 0 (take sz str) ret)[sz := 0]))"

section \<open>Character classification\<close>

definition OPENSSL_isalpha :: "int \<Rightarrow> bool" where
  "OPENSSL_isalpha c \<longleftrightarrow> (97 \<le> c \<and> c \<le> 122) \<or> (65 \<le> c \<and> c \<le> 90)"

definition OPENSSL_isdigit :: "int \<Rightarrow> bool" where
  "OPENSSL_isdigit c \<longleftrightarrow> 48 \<le> c \<and> c \<le> 57"

definition OPENSSL_isxdigit :: "int \<Rightarrow> bool" where
  "OPENSSL_isxdigit c \<longleftrightarrow> OPENSSL_isdigit c \<or> (97 \<le> c \<and> c \<le> 102) \<or> (65 \<le> c \<and> c \<le> 70)"

definition OPENSSL_fromxdigit :: "int \<Rightarrow> u8 option" where
  "OPENSSL_fromxdigit c =
     (if OPENSSL_isdigit c then Some (word_of_int (c - 48))
      else if 97 \<le> c \<and> c \<le> 102 then Some (word_of_int (c - 97 + 10))
      else if 65 \<le> c \<and> c \<le> 70 then Some (word_of_int (c - 65 + 10))
      else None)"

definition OPENSSL_isalnum :: "int \<Rightarrow> bool" where
  "OPENSSL_isalnum c \<longleftrightarrow> OPENSSL_isalpha c \<or> OPENSSL_isdigit c"

definition OPENSSL_tolower :: "int \<Rightarrow> int" where
  "OPENSSL_tolower c = (if 65 \<le> c \<and> c \<le> 90 then c + (97 - 65) else c)"

definition OPENSSL_isspace :: "int \<Rightarrow> bool" where
  "OPENSSL_isspace c \<longleftrightarrow> c = 9 \<or> c = 10 \<or> c = 11 \<or> c = 12 \<or> c = 13 \<or> c = 32"

text \<open>\<open>char\<close> is signed on the target, so \<open>a[i]\<close> is promoted with its sign. Both loops read the two
  arrays in step; the arrays are consumed up to their zero byte, and an exhausted array reads as
  that byte.\<close>

fun cur_char :: "u8 list \<Rightarrow> int" where
  "cur_char [] = 0"
| "cur_char (c # s) = sint c"

fun OPENSSL_strncasecmp :: "u8 list \<Rightarrow> u8 list \<Rightarrow> nat \<Rightarrow> int" where
  "OPENSSL_strncasecmp a b 0 = 0"
| "OPENSSL_strncasecmp a b (Suc n) =
     (let aa = OPENSSL_tolower (cur_char a); bb = OPENSSL_tolower (cur_char b)
      in if aa < bb then -1
         else if aa > bb then 1
         else if aa = 0 then 0
         else OPENSSL_strncasecmp (tl a) (tl b) n)"

function OPENSSL_strcasecmp :: "u8 list \<Rightarrow> u8 list \<Rightarrow> int" where
  "OPENSSL_strcasecmp a b =
     (let aa = OPENSSL_tolower (cur_char a); bb = OPENSSL_tolower (cur_char b)
      in if aa < bb then -1
         else if aa > bb then 1
         else if aa = 0 then 0
         else OPENSSL_strcasecmp (tl a) (tl b))"
  by pat_completeness auto
termination
proof (relation "measure (\<lambda>(a, b). length a)", goal_cases)
  case (2 a b aa bb)
  then show ?case by (cases a) (auto simp: OPENSSL_tolower_def)
qed simp

declare OPENSSL_strcasecmp.simps [simp del]

section \<open>Bounded copies\<close>

text \<open>\<open>dst\<close> is the destination array, which has at least \<open>dst_size\<close> bytes. The result is the array
  after the call and the returned length.\<close>

fun OPENSSL_strlcpy :: "u8 list \<Rightarrow> u8 list \<Rightarrow> nat \<Rightarrow> u8 list \<times> nat" where
  "OPENSSL_strlcpy dst src dst_size =
     (if 1 < dst_size \<and> src \<noteq> [] \<and> hd src \<noteq> 0
      then (let (dst', l) = OPENSSL_strlcpy (tl dst) (tl src) (dst_size - 1)
            in (hd src # dst', Suc l))
      else (if dst_size \<noteq> 0 then dst[0 := 0] else dst, strlen src))"

fun OPENSSL_strlcat :: "u8 list \<Rightarrow> u8 list \<Rightarrow> nat \<Rightarrow> u8 list \<times> nat" where
  "OPENSSL_strlcat dst src dst_size =
     (if 0 < dst_size \<and> dst \<noteq> [] \<and> hd dst \<noteq> 0
      then (let (dst', l) = OPENSSL_strlcat (tl dst) src (dst_size - 1)
            in (hd dst # dst', Suc l))
      else OPENSSL_strlcpy dst src dst_size)"

declare OPENSSL_strlcpy.simps [simp del] OPENSSL_strlcat.simps [simp del]

section \<open>Facts about allocation\<close>

lemma OPENSSL_malloc_length: "OPENSSL_malloc A n = Some p \<Longrightarrow> length p = n"
  by (auto simp: OPENSSL_malloc_def split: if_splits)

lemma OPENSSL_zalloc_Some: "OPENSSL_zalloc A n = Some p \<Longrightarrow> p = replicate n 0"
  by (auto simp: OPENSSL_zalloc_def dest: OPENSSL_malloc_length split: option.splits)

lemma OPENSSL_memdup_Some: "OPENSSL_memdup A d = Some p \<Longrightarrow> p = d \<and> d \<noteq> []"
  by (auto simp: OPENSSL_memdup_def write_at_def dest: OPENSSL_malloc_length
      split: option.splits if_splits)

lemma OPENSSL_realloc_Some:
  assumes "OPENSSL_realloc A (Some old) n = Some p"
  shows "length p = n \<and> take (min (length old) n) p = take n old"
  using assms
  by (auto simp: OPENSSL_realloc_def write_at_def Let_def min_def
      dest!: OPENSSL_malloc_length split: option.splits if_splits)

lemma OPENSSL_strnlen_takeWhile:
  "OPENSSL_strnlen s n = length (takeWhile (\<lambda>c. c \<noteq> 0) (take n s))"
  by (induction s n rule: OPENSSL_strnlen.induct) auto

lemma OPENSSL_strnlen_le: "OPENSSL_strnlen s n \<le> length s"
  by (induction s n rule: OPENSSL_strnlen.induct) auto

lemma take_strnlen: "take (OPENSSL_strnlen s n) s = takeWhile (\<lambda>c. c \<noteq> 0) (take n s)"
  by (induction s n rule: OPENSSL_strnlen.induct) auto

lemma OPENSSL_strndup_Some:
  assumes "OPENSSL_strndup A s n = Some p"
  shows "p = takeWhile (\<lambda>c. c \<noteq> 0) (take n s) @ [0]"
proof -
  let ?k = "OPENSSL_strnlen s n"
  from assms obtain ret where ov: "\<not> size_add ?k 1 < ?k"
    and ret: "OPENSSL_malloc A (size_add ?k 1) = Some ret"
    and p: "p = (write_at 0 (take ?k s) ret)[?k := 0]"
    by (auto simp: OPENSSL_strndup_def Let_def split: option.splits if_splits)
  have "size_add ?k 1 = ?k + 1"
    using ov by (auto simp: size_add_def mod_Suc not_less size_mod_def split: if_splits)
  with OPENSSL_malloc_length [OF ret] have "length ret = ?k + 1" by simp
  then have "write_at 0 (take ?k s) ret = take ?k s @ [last ret]"
    using OPENSSL_strnlen_le [of s n]
    by (simp add: write_at_def min_def) (metis Suc_eq_plus1 append_butlast_last_id append_eq_conv_conj
        length_0_conv length_butlast diff_Suc_1 nat.distinct(1))
  with p show ?thesis using OPENSSL_strnlen_le [of s n]
    by (simp add: list_update_append take_strnlen [symmetric] min_def)
qed

section \<open>Facts about comparison\<close>

lemma xor_zero_iff: "a XOR b = 0 \<longleftrightarrow> a = (b :: 'a::len word)"
  by (auto simp: bit_eq_iff bit_simps)

lemma memcmp_loop_zero:
  "length a = n \<Longrightarrow> length b = n \<Longrightarrow> memcmp_loop x a b n = 0 \<longleftrightarrow> x = 0 \<and> a = b"
proof (induction x a b n rule: memcmp_loop.induct)
  case (1 x a as b bs len)
  then show ?case by (auto simp: or_eq_0_iff xor_zero_iff)
qed auto

lemma CRYPTO_memcmp_zero:
  "length a = n \<Longrightarrow> length b = n \<Longrightarrow> CRYPTO_memcmp a b n = 0 \<longleftrightarrow> a = b"
  by (simp add: CRYPTO_memcmp_def memcmp_loop_zero)

section \<open>Facts about the bounded copies\<close>

definition c_text :: "u8 list \<Rightarrow> u8 list" where
  "c_text s = takeWhile (\<lambda>c. c \<noteq> 0) s"

lemma c_text_simps [simp]:
  "c_text [] = []" "c_text (c # s) = (if c = 0 then [] else c # c_text s)"
  by (simp_all add: c_text_def)

lemma strlen_c_text: "strlen s = length (c_text s)"
  by (simp add: strlen_def c_text_def)

lemma OPENSSL_strlcpy_spec:
  assumes "n \<le> length dst"
  shows "OPENSSL_strlcpy dst src n =
     (if n = 0 then dst
      else take (n - 1) (c_text src) @ [0] @ drop (length (take (n - 1) (c_text src)) + 1) dst,
      strlen src)"
  using assms
proof (induction dst src n rule: OPENSSL_strlcpy.induct)
  case (1 dst src n)
  show ?case
  proof (cases "1 < n \<and> src \<noteq> [] \<and> hd src \<noteq> 0")
    case True
    then obtain c s where src: "src = c # s" by (cases src) auto
    from True 1 obtain d ds where dst: "dst = d # ds" by (cases dst) auto
    from True obtain m where n: "n = Suc m" "m \<noteq> 0" by (cases n) auto
    from 1 True src dst n have IH: "OPENSSL_strlcpy ds s m =
       (take (m - 1) (c_text s) @ [0] @ drop (length (take (m - 1) (c_text s)) + 1) ds, strlen s)"
      by auto
    from n obtain k where "m = Suc k" by (cases m) auto
    with IH True src dst n show ?thesis
      by (subst OPENSSL_strlcpy.simps) (simp add: strlen_c_text)
  next
    case False
    then consider "n = 0" | "n = 1" | "src = []" "n \<noteq> 0" | s where "src = 0 # s" "n \<noteq> 0"
      by (cases src) (auto simp: not_less le_Suc_eq)
    then show ?thesis
      using False 1(2) by cases (subst OPENSSL_strlcpy.simps; cases dst; auto simp: strlen_c_text)+
  qed
qed

end
