(* ===== verification/Posix_Time.thy ===== *)
theory Posix_Time
  imports Prelude "HOL-Library.Signed_Division"
begin

text \<open>
  \<open>crypto/asn1/posix_time.c\<close>: conversion between UTC calendar fields and POSIX time. The C code
  computes in \<open>int64_t\<close> on validated inputs; the model computes in \<open>int\<close> with C's truncating
  \<open>/\<close> and \<open>%\<close> (\<open>sdiv\<close>, \<open>smod\<close>), and writes out the one place where the code tests for \<open>int64_t\<close>
  overflow. The main results: the two conversions are inverse to each other on their whole domain,
  and the day count advances by one from each calendar day to the next.
\<close>

section \<open>The code\<close>

definition SECS_PER_HOUR :: int where
  "SECS_PER_HOUR = 60 * 60"

definition SECS_PER_DAY :: int where
  "SECS_PER_DAY = 24 * SECS_PER_HOUR"

definition INT64_MAX :: int where
  "INT64_MAX = 9223372036854775807"

definition INT64_MIN :: int where
  "INT64_MIN = -9223372036854775808"

text \<open>The fields of \<open>struct tm\<close> that the library reads and writes.\<close>

record tm =
  tm_sec :: int
  tm_min :: int
  tm_hour :: int
  tm_mday :: int
  tm_mon :: int
  tm_year :: int

definition is_valid_date :: "int \<Rightarrow> int \<Rightarrow> int \<Rightarrow> bool" where
  "is_valid_date year month day =
     (if day < 1 \<or> month < 1 \<or> year < 0 \<or> year > 9999 then False
      else if month \<in> {1, 3, 5, 7, 8, 10, 12} then day > 0 \<and> day \<le> 31
      else if month \<in> {4, 6, 9, 11} then day > 0 \<and> day \<le> 30
      else if month = 2 then
        (if (year smod 4 = 0 \<and> year smod 100 \<noteq> 0) \<or> year smod 400 = 0
         then day > 0 \<and> day \<le> 29
         else day > 0 \<and> day \<le> 28)
      else False)"

definition is_valid_time :: "int \<Rightarrow> int \<Rightarrow> int \<Rightarrow> bool" where
  "is_valid_time hours minutes seconds =
     (if hours < 0 \<or> minutes < 0 \<or> seconds < 0 \<or> hours > 23 \<or> minutes > 59 \<or> seconds > 59
      then False else True)"

definition MIN_POSIX_TIME :: int where
  "MIN_POSIX_TIME = -62167219200"

definition MAX_POSIX_TIME :: int where
  "MAX_POSIX_TIME = 253402300799"

definition is_valid_posix_time :: "int \<Rightarrow> bool" where
  "is_valid_posix_time time \<longleftrightarrow> MIN_POSIX_TIME \<le> time \<and> time \<le> MAX_POSIX_TIME"

definition posix_time_from_utc :: "int \<Rightarrow> int \<Rightarrow> int \<Rightarrow> int \<Rightarrow> int \<Rightarrow> int \<Rightarrow> int option" where
  "posix_time_from_utc year month day hours minutes seconds =
     (if \<not> is_valid_date year month day \<or> \<not> is_valid_time hours minutes seconds then None
      else
        let year = (if month \<le> 2 then year - 1 else year);
            era = (if year \<ge> 0 then year else year - 399) sdiv 400;
            year_of_era = year - era * 400;
            day_of_year = (153 * (if month > 2 then month - 3 else month + 9) + 2) sdiv 5 + day - 1;
            day_of_era = year_of_era * 365 + year_of_era sdiv 4 - year_of_era sdiv 100 + day_of_year;
            posix_days = era * 146097 + day_of_era - 719468
        in Some (posix_days * SECS_PER_DAY + hours * SECS_PER_HOUR + minutes * 60 + seconds))"

definition utc_from_posix_time :: "int \<Rightarrow> (int \<times> int \<times> int \<times> int \<times> int \<times> int) option" where
  "utc_from_posix_time time =
     (if \<not> is_valid_posix_time time then None
      else
        let days = time sdiv SECS_PER_DAY;
            leftover_seconds = time smod SECS_PER_DAY;
            (days, leftover_seconds) =
              (if leftover_seconds < 0 then (days - 1, leftover_seconds + SECS_PER_DAY)
               else (days, leftover_seconds));
            days = days + 719468;
            era = (if days > 0 then days else days - 146096) sdiv 146097;
            day_of_era = days - era * 146097;
            year_of_era = (day_of_era - day_of_era sdiv 1460 + day_of_era sdiv 36524
                             - day_of_era sdiv 146096) sdiv 365;
            out_year = year_of_era + era * 400;
            day_of_year = day_of_era - (365 * year_of_era + year_of_era sdiv 4 - year_of_era sdiv 100);
            month_of_year = (5 * day_of_year + 2) sdiv 153;
            out_month = (if month_of_year < 10 then month_of_year + 3 else month_of_year - 9);
            out_year = (if out_month \<le> 2 then out_year + 1 else out_year);
            out_day = day_of_year - (153 * month_of_year + 2) sdiv 5 + 1;
            out_hours = leftover_seconds sdiv SECS_PER_HOUR;
            leftover_seconds = leftover_seconds smod SECS_PER_HOUR;
            out_minutes = leftover_seconds sdiv 60;
            out_seconds = leftover_seconds smod 60
        in Some (out_year, out_month, out_day, out_hours, out_minutes, out_seconds))"

definition OPENSSL_tm_to_posix :: "tm \<Rightarrow> int option" where
  "OPENSSL_tm_to_posix tm =
     posix_time_from_utc (tm_year tm + 1900) (tm_mon tm + 1) (tm_mday tm)
       (tm_hour tm) (tm_min tm) (tm_sec tm)"

definition OPENSSL_posix_to_tm :: "int \<Rightarrow> tm option" where
  "OPENSSL_posix_to_tm time =
     (case utc_from_posix_time time of
        None \<Rightarrow> None
      | Some (year, mon, mday, hour, mins, sec) \<Rightarrow>
          Some \<lparr>tm_sec = sec, tm_min = mins, tm_hour = hour, tm_mday = mday,
                tm_mon = mon - 1, tm_year = year - 1900\<rparr>)"

text \<open>\<open>time_t\<close> is \<open>int64_t\<close> on the target, so the 32-bit range test of the source is dead.\<close>

definition OPENSSL_timegm :: "tm \<Rightarrow> int option" where
  "OPENSSL_timegm tm = OPENSSL_tm_to_posix tm"

definition OPENSSL_gmtime :: "int \<Rightarrow> tm option" where
  "OPENSSL_gmtime time = OPENSSL_posix_to_tm time"

definition OPENSSL_gmtime_adj :: "tm \<Rightarrow> int \<Rightarrow> int \<Rightarrow> tm option" where
  "OPENSSL_gmtime_adj tm offset_day offset_sec =
     (case OPENSSL_tm_to_posix tm of
        None \<Rightarrow> None
      | Some posix_time \<Rightarrow>
          (let posix_time = posix_time + offset_day * SECS_PER_DAY
           in if posix_time > 0 \<and> offset_sec > INT64_MAX - posix_time then None
              else if posix_time < 0 \<and> offset_sec < INT64_MIN - posix_time then None
              else OPENSSL_posix_to_tm (posix_time + offset_sec)))"

definition OPENSSL_gmtime_diff :: "tm \<Rightarrow> tm \<Rightarrow> (int \<times> int) option" where
  "OPENSSL_gmtime_diff tm_from tm_to =
     (case OPENSSL_tm_to_posix tm_to of
        None \<Rightarrow> None
      | Some time_to \<Rightarrow>
          (case OPENSSL_tm_to_posix tm_from of
             None \<Rightarrow> None
           | Some time_from \<Rightarrow>
               (let timediff = time_to - time_from;
                    daydiff = timediff sdiv SECS_PER_DAY;
                    timediff = timediff smod SECS_PER_DAY
                in Some (daydiff, timediff))))"

section \<open>Truncating division on the arguments that occur\<close>

lemma sdiv_nonneg [simp]: "0 \<le> (a :: int) \<Longrightarrow> a sdiv numeral b = a div numeral b"
  by (cases "a = 0") (auto simp: signed_divide_int_def)

lemma smod_nonneg [simp]: "0 \<le> (a :: int) \<Longrightarrow> a smod numeral b = a mod numeral b"
  by (cases "a = 0") (auto simp: signed_modulo_int_def)

lemma sdiv_neg: "(a :: int) < 0 \<Longrightarrow> a sdiv numeral b = - ((- a) div numeral b)"
  by (auto simp: signed_divide_int_def)

lemma smod_neg: "(a :: int) < 0 \<Longrightarrow> a smod numeral b = - ((- a) mod numeral b)"
  by (auto simp: signed_modulo_int_def)

text \<open>The code obtains the floor of a quotient from the truncated one by adjusting the numerator.\<close>

lemma floor_div_400: "(if y \<ge> 0 then y else y - 399) sdiv 400 = (y :: int) div 400"
  by (auto simp: sdiv_neg)

lemma floor_div_era: "(if d > 0 then d else d - 146096) sdiv 146097 = (d :: int) div 146097"
  by (auto simp: sdiv_neg)

lemma floor_div_day:
  fixes t :: int
  shows "(if t smod 86400 < 0 then (t sdiv 86400 - 1, t smod 86400 + 86400)
          else (t sdiv 86400, t smod 86400)) = (t div 86400, t mod 86400)"
proof (cases "t < 0")
  case True
  define a where "a = - t"
  with True have t: "t = - a" and "0 < a" by simp_all
  moreover have "0 \<le> a mod 86400" by simp
  ultimately show ?thesis
    by (auto simp: sdiv_neg smod_neg zdiv_zminus1_eq_if zmod_zminus1_eq_if)
qed (auto simp: not_less pos_mod_sign)

lemma dvd_succ_iff:
  fixes d n :: int
  assumes "0 < n"
  shows "n dvd d + 1 \<longleftrightarrow> d mod n = n - 1"
proof
  assume "n dvd d + 1"
  then obtain k where "d + 1 = n * k" ..
  then have "d = n * (k - 1) + (n - 1)" by (simp add: right_diff_distrib)
  then show "d mod n = n - 1" using assms by (intro int_mod_pos_eq) auto
next
  assume "d mod n = n - 1"
  then have "d + 1 = n * (d div n) + n" using mult_div_mod_eq [of n d] by linarith
  then have "d + 1 = n * (d div n + 1)" by (simp add: distrib_left)
  then show "n dvd d + 1" by simp
qed

lemma div_succ:
  fixes d n :: int
  assumes "0 < n"
  shows "(d + 1) div n = d div n + (if n dvd d + 1 then 1 else 0)"
    and "(d + 1) mod n = (if n dvd d + 1 then 0 else d mod n + 1)"
proof -
  have d: "d = n * (d div n) + d mod n" and r: "0 \<le> d mod n" "d mod n < n"
    using assms by simp_all
  show "(d + 1) mod n = (if n dvd d + 1 then 0 else d mod n + 1)"
  proof (cases "n dvd d + 1")
    case False
    then have "d + 1 = n * (d div n) + (d mod n + 1)" "d mod n + 1 < n" "0 \<le> d mod n + 1"
      using d r dvd_succ_iff [OF assms, of d] by linarith+
    then have "(d + 1) mod n = d mod n + 1" by (intro int_mod_pos_eq)
    with False show ?thesis by simp
  qed simp
  then have "n * ((d + 1) div n) = d + 1 - (if n dvd d + 1 then 0 else d mod n + 1)"
    using mult_div_mod_eq [of n "d + 1"] by linarith
  also have "\<dots> = n * (d div n) + (if n dvd d + 1 then n else 0)"
  proof (cases "n dvd d + 1")
    case True
    then have "d mod n = n - 1" using dvd_succ_iff [OF assms, of d] by blast
    with d show ?thesis unfolding if_P [OF True] by linarith
  next
    case False
    show ?thesis unfolding if_not_P [OF False] using d by linarith
  qed
  finally have "n * ((d + 1) div n) = n * (d div n) + (if n dvd d + 1 then n else 0)" .
  then have "n * ((d + 1) div n) = n * (d div n + (if n dvd d + 1 then 1 else 0))"
    by (simp add: distrib_left)
  then show "(d + 1) div n = d div n + (if n dvd d + 1 then 1 else 0)"
    using assms by simp
qed

section \<open>Years of an era\<close>

text \<open>\<open>year_start y\<close> is the day of the era on which year \<open>y\<close> of the era begins; years start on March 1.\<close>

definition year_start :: "int \<Rightarrow> int" where
  "year_start y = (if y = 400 then 146097 else 365 * y + y div 4 - y div 100)"

definition era_year :: "int \<Rightarrow> int" where
  "era_year d = (d - d div 1460 + d div 36524 - d div 146096) div 365"

lemma era_year_step: "d - d div 1460 + d div 36524 - d div 146096
   \<le> (d + 1) - (d + 1) div 1460 + (d + 1) div 36524 - (d + 1) div (146096 :: int)"
proof -
  have "(36524 :: int) dvd d + 1" if "146096 dvd d + 1"
    by (rule dvd_trans [OF _ that]) simp
  then show ?thesis by (auto simp: div_succ)
qed

lemma era_year_mono: "d \<le> e \<Longrightarrow> era_year d \<le> era_year e"
proof (induction e rule: int_ge_induct)
  case (step e)
  have "era_year e \<le> era_year (e + 1)"
    unfolding era_year_def by (rule zdiv_mono1 [OF era_year_step]) simp
  with step show ?case by linarith
qed simp

lemma era_year_ends:
  assumes "0 \<le> y" "y < 400"
  shows "era_year (year_start y) = y \<and> era_year (year_start (y + 1) - 1) = y"
proof -
  have "\<forall>y \<in> set [0..399]. era_year (year_start y) = y \<and> era_year (year_start (y + 1) - 1) = y"
    unfolding era_year_def year_start_def by code_simp
  with assms show ?thesis by simp
qed

lemma era_year_unique:
  assumes "0 \<le> y" "y < 400" "year_start y \<le> d" "d < year_start (y + 1)"
  shows "era_year d = y"
  using era_year_mono [of "year_start y" d] era_year_mono [of d "year_start (y + 1) - 1"]
    era_year_ends [of y] assms by simp

lemma year_start_exists:
  "0 \<le> d \<Longrightarrow> d < year_start (int n) \<Longrightarrow> \<exists>y. 0 \<le> y \<and> y < int n \<and> year_start y \<le> d \<and> d < year_start (y + 1)"
proof (induction n)
  case (Suc n)
  show ?case
  proof (cases "d < year_start (int n)")
    case True
    with Suc obtain y where "0 \<le> y \<and> y < int n \<and> year_start y \<le> d \<and> d < year_start (y + 1)"
      by auto
    then show ?thesis by (intro exI [of _ y]) simp
  next
    case False
    with Suc.prems show ?thesis by (intro exI [of _ "int n"]) (simp add: add.commute)
  qed
qed (simp add: year_start_def)

lemma era_year_bounds:
  assumes "0 \<le> d" "d < 146097"
  shows "0 \<le> era_year d \<and> era_year d < 400 \<and> year_start (era_year d) \<le> d
     \<and> d < year_start (era_year d + 1)"
proof -
  have "d < year_start (int 400)" using assms by (simp add: year_start_def)
  then obtain y where "0 \<le> y" "y < int 400" "year_start y \<le> d" "d < year_start (y + 1)"
    using year_start_exists assms(1) by blast
  then show ?thesis using era_year_unique [of y d] by simp
qed

section \<open>Calendar dates and day numbers\<close>

definition leap :: "int \<Rightarrow> bool" where
  "leap y \<longleftrightarrow> (4 dvd y \<and> \<not> 100 dvd y) \<or> 400 dvd y"

definition month_days :: "int \<Rightarrow> int \<Rightarrow> int" where
  "month_days y m = (if m = 2 then (if leap y then 29 else 28)
     else if m \<in> {4, 6, 9, 11} then 30 else 31)"

lemma is_valid_date_iff:
  "is_valid_date y m d \<longleftrightarrow> 0 \<le> y \<and> y \<le> 9999 \<and> 1 \<le> m \<and> m \<le> 12 \<and> 1 \<le> d \<and> d \<le> month_days y m"
proof -
  have "m < 1 \<or> m \<in> {1,2,3,4,5,6,7,8,9,10,11,12} \<or> m > 12" by simp arith
  then consider "m < 1" | "m \<in> {1,2,3,4,5,6,7,8,9,10,11,12}" | "m > 12" by blast
  then show ?thesis
    by cases (auto simp: is_valid_date_def month_days_def leap_def mod_eq_0_iff_dvd)
qed

text \<open>\<open>march_days y\<close> counts the days from 0000-03-01 to March 1 of year \<open>y\<close>; \<open>civil_day\<close> numbers the
  days of the proleptic Gregorian calendar from there, and \<open>civil_date\<close> recovers the date.\<close>

definition march_days :: "int \<Rightarrow> int" where
  "march_days y = 365 * y + y div 4 - y div 100 + y div 400"

definition month_start :: "int \<Rightarrow> int" where
  "month_start p = (153 * p + 2) div 5"

definition civil_day :: "int \<Rightarrow> int \<Rightarrow> int \<Rightarrow> int" where
  "civil_day y m d = march_days (if m \<le> 2 then y - 1 else y)
     + month_start (if m > 2 then m - 3 else m + 9) + d - 1"

definition civil_date :: "int \<Rightarrow> int \<times> int \<times> int" where
  "civil_date n =
     (let era = n div 146097; doe = n mod 146097; yoe = era_year doe;
          doy = doe - year_start yoe; p = (5 * doy + 2) div 153;
          m = (if p < 10 then p + 3 else p - 9)
      in (yoe + era * 400 + (if m \<le> 2 then 1 else 0), m, doy - month_start p + 1))"

lemma march_days_era: "march_days y = (y div 400) * 146097 + year_start (y mod 400)"
proof -
  define e r where "e = y div 400" and "r = y mod 400"
  have y: "y = 400 * e + r" and r: "0 \<le> r" "r < 400" by (simp_all add: e_def r_def)
  have "(400 * e + r) div 4 = 100 * e + r div 4" "(400 * e + r) div 100 = 4 * e + r div 100"
    by linarith+
  with r show ?thesis
    unfolding march_days_def year_start_def e_def [symmetric] r_def [symmetric] by (simp add: y)
qed

lemma march_days_next: "march_days (y + 1) = march_days y + (if leap (y + 1) then 366 else 365)"
proof -
  have "(4 :: int) dvd y + 1" if "100 dvd y + 1" by (rule dvd_trans [OF _ that]) simp
  moreover have "(100 :: int) dvd y + 1" if "400 dvd y + 1" by (rule dvd_trans [OF _ that]) simp
  ultimately show ?thesis
    by (auto simp: march_days_def leap_def div_succ)
qed

lemma month_of_doy:
  assumes "0 \<le> doy" "doy \<le> 365" and p: "p = (5 * doy + 2) div 153"
  shows "0 \<le> p \<and> p \<le> 11 \<and> month_start p \<le> doy \<and> (p < 11 \<longrightarrow> doy < month_start (p + 1))"
proof -
  have "153 * p \<le> 5 * doy + 2" "5 * doy + 2 < 153 * p + 153" using p by linarith+
  moreover from this assms have "0 \<le> p" "p \<le> 11" by linarith+
  then have "p \<in> {0,1,2,3,4,5,6,7,8,9,10,11}" by simp arith
  ultimately show ?thesis by (auto simp: month_start_def)
qed

lemma doy_of_month:
  assumes "0 \<le> p" "p \<le> 11" "month_start p \<le> doy" "p < 11 \<longrightarrow> doy < month_start (p + 1)" "doy \<le> 365"
  shows "(5 * doy + 2) div 153 = p"
proof -
  have "p \<in> {0,1,2,3,4,5,6,7,8,9,10,11}" using assms(1,2) by simp arith
  with assms show ?thesis by (auto simp: month_start_def)
qed

lemma month_start_values:
  "month_start 0 = 0" "month_start 1 = 31" "month_start 2 = 61" "month_start 3 = 92"
  "month_start 4 = 122" "month_start 5 = 153" "month_start 6 = 184" "month_start 7 = 214"
  "month_start 8 = 245" "month_start 9 = 275" "month_start 10 = 306" "month_start 11 = 337"
  by (simp_all add: month_start_def)

lemma twelve_cases:
  fixes m :: int
  assumes "1 \<le> m" "m \<le> 12"
  obtains "m = 1" | "m = 2" | "m = 3" | "m = 4" | "m = 5" | "m = 6" | "m = 7" | "m = 8" | "m = 9"
    | "m = 10" | "m = 11" | "m = 12"
proof -
  have "m \<in> {1,2,3,4,5,6,7,8,9,10,11,12}" using assms by simp arith
  then show thesis using that by blast
qed

definition shift_month :: "int \<Rightarrow> int" where
  "shift_month m = (if m > 2 then m - 3 else m + 9)"

text \<open>A month of the calendar is a block of days of the year that starts on March 1.\<close>

lemma month_block:
  assumes "1 \<le> m" "m \<le> 12"
  shows "0 \<le> shift_month m \<and> shift_month m \<le> 11
     \<and> (shift_month m < 11 \<longrightarrow> month_start (shift_month m + 1) = month_start (shift_month m) + month_days y m)
     \<and> (shift_month m = 11 \<longleftrightarrow> m = 2)"
  using assms
  by (rule twelve_cases) (simp_all add: shift_month_def month_days_def month_start_values)

lemma year_start_next:
  fixes y :: int
  shows "year_start (y mod 400 + 1) = year_start (y mod 400) + (if leap (y + 1) then 366 else 365)"
proof -
  define r where "r = y mod 400"
  have r: "0 \<le> r" "r < 400" by (simp_all add: r_def)
  have "march_days (y + 1) - march_days y = year_start (r + 1) - year_start r"
  proof (cases "400 dvd y + 1")
    case True
    then have "r = 399" using dvd_succ_iff [of 400 y] by (simp add: r_def)
    moreover have "(y + 1) mod 400 = 0" "(y + 1) div 400 = y div 400 + 1"
      using True by (simp_all add: div_succ)
    ultimately show ?thesis
      by (simp add: march_days_era r_def [symmetric]) (simp add: year_start_def)
  next
    case False
    then have "(y + 1) mod 400 = r + 1" "(y + 1) div 400 = y div 400"
      by (simp_all add: div_succ r_def)
    then show ?thesis by (simp add: march_days_era r_def [symmetric])
  qed
  then show ?thesis by (simp add: march_days_next r_def)
qed

lemma civil_day_date:
  assumes "civil_date n = (y, m, d)"
  shows "civil_day y m d = n \<and> 1 \<le> m \<and> m \<le> 12 \<and> 1 \<le> d \<and> d \<le> month_days y m"
proof -
  define era doe where "era = n div 146097" and "doe = n mod 146097"
  define yoe where "yoe = era_year doe"
  define doy where "doy = doe - year_start yoe"
  define p where "p = (5 * doy + 2) div 153"
  define my where "my = yoe + era * 400"
  have n: "n = era * 146097 + doe" and doe: "0 \<le> doe" "doe < 146097"
    by (simp_all add: era_def doe_def)
  from era_year_bounds [OF doe]
  have yoe: "0 \<le> yoe" "yoe < 400" "year_start yoe \<le> doe" "doe < year_start (yoe + 1)"
    by (simp_all add: yoe_def)
  have mod: "my mod 400 = yoe" "my div 400 = era" using yoe by (simp_all add: my_def)
  then have md: "march_days my = era * 146097 + year_start yoe" by (simp add: march_days_era)
  have len: "year_start (yoe + 1) = year_start yoe + (if leap (my + 1) then 366 else 365)"
    using year_start_next [of my] unfolding mod .
  have doy: "0 \<le> doy" "doy \<le> 365" "\<not> leap (my + 1) \<Longrightarrow> doy \<le> 364"
    using yoe len by (auto simp: doy_def split: if_splits)
  from month_of_doy [OF doy(1,2) p_def]
  have p: "0 \<le> p" "p \<le> 11" "month_start p \<le> doy" "p < 11 \<Longrightarrow> doy < month_start (p + 1)"
    by simp_all
  have eq: "m = (if p < 10 then p + 3 else p - 9)" "y = my + (if m \<le> 2 then 1 else 0)"
    "d = doy - month_start p + 1"
    using assms
    unfolding civil_date_def Let_def era_def [symmetric] doe_def [symmetric] yoe_def [symmetric]
      doy_def [symmetric] p_def [symmetric] my_def [symmetric]
    by auto
  have m: "1 \<le> m" "m \<le> 12" and sm: "shift_month m = p"
    using p eq(1) by (auto simp: shift_month_def split: if_splits)
  have "d \<le> month_days y m"
  proof (cases "p = 11")
    case True
    then show ?thesis using eq doy by (auto simp: month_days_def month_start_values)
  next
    case False
    then show ?thesis using month_block [OF m, of y] p eq(3) sm by auto
  qed
  moreover have "civil_day y m d = n"
    using eq m p md n by (auto simp: civil_day_def doy_def split: if_splits)
  ultimately show ?thesis using m p eq(3) by simp
qed

lemma civil_date_day:
  assumes m: "1 \<le> m" "m \<le> 12" and d: "1 \<le> d" "d \<le> month_days y m"
  shows "civil_date (civil_day y m d) = (y, m, d)"
proof -
  define my where "my = (if m \<le> 2 then y - 1 else y)"
  define p where "p = shift_month m"
  define doy where "doy = month_start p + d - 1"
  define yoe where "yoe = my mod 400"
  have yoe: "0 \<le> yoe" "yoe < 400" by (simp_all add: yoe_def)
  have len: "year_start (yoe + 1) = year_start yoe + (if leap (my + 1) then 366 else 365)"
    using year_start_next [of my] unfolding yoe_def .
  from month_block [OF m, of y] have p: "0 \<le> p" "p \<le> 11"
    "p < 11 \<Longrightarrow> month_start (p + 1) = month_start p + month_days y m" "p = 11 \<longleftrightarrow> m = 2"
    by (simp_all add: p_def)
  have doy: "0 \<le> doy" "doy < (if leap (my + 1) then 366 else 365)" "p < 11 \<longrightarrow> doy < month_start (p + 1)"
    using m
    by (rule twelve_cases; use d in \<open>simp add: doy_def p_def my_def shift_month_def month_days_def
          month_start_values split: if_splits\<close>)+
  have n: "civil_day y m d = (my div 400) * 146097 + (year_start yoe + doy)"
    by (simp add: civil_day_def my_def [symmetric] shift_month_def [symmetric] p_def [symmetric]
        doy_def yoe_def march_days_era)
  have "year_start yoe + doy < year_start (yoe + 1)" using len doy by simp
  moreover have "year_start (yoe + 1) \<le> 146097" using yoe by (auto simp: year_start_def)
  moreover have "0 \<le> year_start yoe" using yoe by (auto simp: year_start_def)
  ultimately have doe: "0 \<le> year_start yoe + doy" "year_start yoe + doy < 146097"
    "era_year (year_start yoe + doy) = yoe"
    using era_year_unique [of yoe] yoe doy(1) by simp_all
  have pd: "(5 * doy + 2) div 153 = p"
    using doy_of_month [of p doy] p doy d by (auto simp: doy_def split: if_splits)
  have "my = yoe + my div 400 * 400" by (simp add: yoe_def)
  then show ?thesis
    using doe pd m p(4) by (auto simp: civil_date_def n Let_def doy_def my_def p_def shift_month_def)
qed

section \<open>The two conversions are inverse\<close>

lemma secs_simps: "SECS_PER_HOUR = 3600" "SECS_PER_DAY = 86400"
  by (simp_all add: SECS_PER_HOUR_def SECS_PER_DAY_def)

lemma is_valid_time_iff:
  "is_valid_time h mi s \<longleftrightarrow> 0 \<le> h \<and> h \<le> 23 \<and> 0 \<le> mi \<and> mi \<le> 59 \<and> 0 \<le> s \<and> s \<le> 59"
  by (auto simp: is_valid_time_def)

lemma posix_time_from_utc_eq:
  assumes "is_valid_date y m d" "is_valid_time h mi s"
  shows "posix_time_from_utc y m d h mi s =
     Some ((civil_day y m d - 719468) * 86400 + h * 3600 + mi * 60 + s)"
proof -
  define my where "my = (if m \<le> 2 then y - 1 else y)"
  have "0 \<le> (if m > 2 then m - 3 else m + 9)" using assms(1) by (auto simp: is_valid_date_iff)
  then have "(153 * (if m > 2 then m - 3 else m + 9) + 2) sdiv 5
       = month_start (if m > 2 then m - 3 else m + 9)"
    by (simp add: month_start_def)
  moreover have "my - my div 400 * 400 = my mod 400" by (simp add: minus_div_mult_eq_mod)
  moreover have "year_start (my mod 400) = my mod 400 * 365 + my mod 400 div 4 - my mod 400 div 100"
    using pos_mod_bound [of 400 my] by (simp add: year_start_def)
  ultimately show ?thesis using assms
    by (simp add: posix_time_from_utc_def Let_def floor_div_400 my_def [symmetric] secs_simps
        civil_day_def march_days_era)
qed

lemma utc_from_posix_time_eq:
  assumes "is_valid_posix_time t"
  shows "utc_from_posix_time t =
     (case civil_date (t div 86400 + 719468) of (y, m, d) \<Rightarrow>
        Some (y, m, d, t mod 86400 div 3600, t mod 3600 div 60, t mod 60))"
proof -
  define n doe yoe doy where "n = t div 86400 + 719468" and "doe = n mod 146097"
    and "yoe = era_year doe" and "doy = doe - year_start yoe"
  have doe: "0 \<le> doe" "doe < 146097" by (simp_all add: doe_def)
  note bounds = era_year_bounds [OF doe, folded yoe_def]
  have nn: "0 \<le> doe - doe div 1460 + doe div 36524 - doe div 146096" using doe by linarith
  have a1: "n - n div 146097 * 146097 = doe" by (simp add: doe_def minus_div_mult_eq_mod)
  have a2: "(doe - doe sdiv 1460 + doe sdiv 36524 - doe sdiv 146096) sdiv 365 = yoe"
    using doe nn by (simp add: yoe_def era_year_def)
  have a3: "doe - (365 * yoe + yoe sdiv 4 - yoe sdiv 100) = doy"
    using bounds by (simp add: doy_def year_start_def)
  have "0 \<le> doy" using bounds by (simp add: doy_def)
  then have a4: "(5 * doy + 2) sdiv 153 = (5 * doy + 2) div 153"
    "(153 * ((5 * doy + 2) div 153) + 2) sdiv 5 = month_start ((5 * doy + 2) div 153)"
    by (simp_all add: month_start_def)
  have a5: "t mod 86400 sdiv 3600 = t mod 86400 div 3600" "t mod 86400 smod 3600 = t mod 3600"
    "t mod 3600 sdiv 60 = t mod 3600 div 60" "t mod 3600 smod 60 = t mod 60"
    by (simp_all add: mod_mod_cancel)
  have "utc_from_posix_time t =
     (let p = (5 * doy + 2) div 153; m = (if p < 10 then p + 3 else p - 9);
          y = yoe + n div 146097 * 400
      in Some (if m \<le> 2 then y + 1 else y, m, doy - month_start p + 1,
               t mod 86400 div 3600, t mod 3600 div 60, t mod 60))"
    unfolding utc_from_posix_time_def secs_simps Let_def floor_div_day prod.case n_def [symmetric]
      floor_div_era a1 a2 a3 a4 a5
    using assms by simp
  then show ?thesis
    unfolding n_def [symmetric] civil_date_def Let_def doe_def [symmetric] yoe_def [symmetric]
      doy_def [symmetric]
    by simp
qed

lemma utc_posix_roundtrip:
  assumes "is_valid_date y m d" "is_valid_time h mi s"
    and "posix_time_from_utc y m d h mi s = Some t" "is_valid_posix_time t"
  shows "utc_from_posix_time t = Some (y, m, d, h, mi, s)"
proof -
  let ?r = "h * 3600 + mi * 60 + s"
  have t: "t = (civil_day y m d - 719468) * 86400 + ?r"
    using assms(3) posix_time_from_utc_eq [OF assms(1,2)] by simp
  have r: "0 \<le> ?r" "?r < 86400" using assms(2) by (auto simp: is_valid_time_iff)
  have t': "t = 86400 * (civil_day y m d - 719468) + ?r" using t by simp
  have "t div 86400 + 719468 = civil_day y m d" "t mod 86400 = ?r"
    using int_div_pos_eq [OF t' r] int_mod_pos_eq [OF t' r] by simp_all
  moreover have "?r div 3600 = h" using assms(2) by (auto simp: is_valid_time_iff)
  moreover have "t mod 3600 = mi * 60 + s" "t mod 60 = s"
  proof -
    have "t = 3600 * (24 * (civil_day y m d - 719468) + h) + (mi * 60 + s)" using t by simp
    then show "t mod 3600 = mi * 60 + s"
      by (rule int_mod_pos_eq) (use assms(2) in \<open>auto simp: is_valid_time_iff\<close>)
    have "t = 60 * (1440 * (civil_day y m d - 719468) + 60 * h + mi) + s" using t by simp
    then show "t mod 60 = s"
      by (rule int_mod_pos_eq) (use assms(2) in \<open>auto simp: is_valid_time_iff\<close>)
  qed
  moreover have "(mi * 60 + s) div 60 = mi" using assms(2) by (auto simp: is_valid_time_iff)
  moreover have "civil_date (civil_day y m d) = (y, m, d)"
    using assms(1) by (auto simp: is_valid_date_iff intro: civil_date_day)
  ultimately show ?thesis by (simp add: utc_from_posix_time_eq [OF assms(4)])
qed

lemma march_days_mono: "x \<le> y \<Longrightarrow> march_days x \<le> march_days y"
proof (induction y rule: int_ge_induct)
  case (step y)
  then show ?case by (simp add: march_days_next)
qed simp

lemma civil_day_year_bounds:
  assumes m: "1 \<le> m" "m \<le> 12" and d: "1 \<le> d" "d \<le> month_days y m"
  shows "march_days (y - 1) + 306 \<le> civil_day y m d \<and> civil_day y m d \<le> march_days y + 305"
  using m
  by (rule twelve_cases; use d march_days_next [of "y - 1"] in
      \<open>simp add: civil_day_def month_days_def month_start_values split: if_splits\<close>)

lemma posix_time_bounds_iff:
  assumes m: "1 \<le> m" "m \<le> 12" and d: "1 \<le> d" "d \<le> month_days y m" and r: "0 \<le> r" "r < 86400"
  shows "is_valid_posix_time ((civil_day y m d - 719468) * 86400 + r) \<longleftrightarrow> 0 \<le> y \<and> y \<le> 9999"
proof -
  note b = civil_day_year_bounds [OF m d]
  have "march_days (y - 1) \<le> march_days (y - 1)" by simp
  have le: "y < 0 \<Longrightarrow> civil_day y m d \<le> -61" "9999 < y \<Longrightarrow> 3652365 \<le> civil_day y m d"
    using b march_days_mono [of y "- 1"] march_days_mono [of 9999 "y - 1"]
    by (simp_all add: march_days_def)
  have ge: "0 \<le> y \<Longrightarrow> -60 \<le> civil_day y m d" "y \<le> 9999 \<Longrightarrow> civil_day y m d \<le> 3652364"
    using b march_days_mono [of "- 1" "y - 1"] march_days_mono [of y 9999]
    by (simp_all add: march_days_def)
  show ?thesis
  proof (cases "0 \<le> y \<and> y \<le> 9999")
    case True
    with ge r show ?thesis by (auto simp: is_valid_posix_time_def MIN_POSIX_TIME_def MAX_POSIX_TIME_def)
  next
    case False
    with le r show ?thesis
      by (auto simp: is_valid_posix_time_def MIN_POSIX_TIME_def MAX_POSIX_TIME_def not_le)
  qed
qed

lemma posix_time_from_utc_valid:
  assumes "posix_time_from_utc y m d h mi s = Some t"
  shows "is_valid_date y m d \<and> is_valid_time h mi s \<and> is_valid_posix_time t"
proof -
  have v: "is_valid_date y m d" "is_valid_time h mi s"
    using assms by (auto simp: posix_time_from_utc_def split: if_splits)
  have r: "0 \<le> h * 3600 + mi * 60 + s" "h * 3600 + mi * 60 + s < 86400"
    using v(2) by (auto simp: is_valid_time_iff)
  have "is_valid_posix_time ((civil_day y m d - 719468) * 86400 + (h * 3600 + mi * 60 + s))"
    using v(1) by (subst posix_time_bounds_iff [OF _ _ _ _ r]) (auto simp: is_valid_date_iff)
  with assms v show ?thesis by (simp add: posix_time_from_utc_eq add.assoc)
qed

lemma time_fields:
  fixes t :: int
  shows "is_valid_time (t mod 86400 div 3600) (t mod 3600 div 60) (t mod 60)"
    and "t mod 86400 = t mod 86400 div 3600 * 3600 + t mod 3600 div 60 * 60 + t mod 60"
proof -
  have a: "t mod 86400 mod 3600 = t mod 3600" "t mod 3600 mod 60 = t mod 60"
    by (simp_all add: mod_mod_cancel)
  show "t mod 86400 = t mod 86400 div 3600 * 3600 + t mod 3600 div 60 * 60 + t mod 60"
    using div_mult_mod_eq [of "t mod 86400" 3600] div_mult_mod_eq [of "t mod 3600" 60] a by simp
  have "0 \<le> t mod 86400" "t mod 86400 < 86400" "0 \<le> t mod 3600" "t mod 3600 < 3600"
    "0 \<le> t mod 60" "t mod 60 < 60" by simp_all
  moreover have "a < 86400 \<Longrightarrow> a div 3600 \<le> 23" "a < 3600 \<Longrightarrow> a div 60 \<le> 59"
    "0 \<le> a \<Longrightarrow> 0 \<le> a div 3600 \<and> 0 \<le> a div 60" "a < 60 \<Longrightarrow> a \<le> 59" for a :: int
    by linarith+
  ultimately show "is_valid_time (t mod 86400 div 3600) (t mod 3600 div 60) (t mod 60)"
    by (auto simp only: is_valid_time_iff)
qed

lemma posix_utc_roundtrip:
  assumes "is_valid_posix_time t"
  obtains y m d h mi s where "utc_from_posix_time t = Some (y, m, d, h, mi, s)"
    "posix_time_from_utc y m d h mi s = Some t"
proof -
  obtain y m d where c: "civil_date (t div 86400 + 719468) = (y, m, d)" by (metis prod_cases3)
  note cd = civil_day_date [OF c]
  let ?h = "t mod 86400 div 3600" and ?mi = "t mod 3600 div 60" and ?s = "t mod 60"
  have t: "t = (civil_day y m d - 719468) * 86400 + t mod 86400"
    using conjunct1 [OF cd] div_mult_mod_eq [of t 86400] by simp
  have "is_valid_posix_time ((civil_day y m d - 719468) * 86400 + t mod 86400)"
    by (rule subst [of t _ is_valid_posix_time, OF t assms])
  then have "0 \<le> y \<and> y \<le> 9999"
    by (subst (asm) posix_time_bounds_iff) (simp_all add: cd)
  then have vd: "is_valid_date y m d" using cd by (simp add: is_valid_date_iff)
  have "(civil_day y m d - 719468) * 86400 + ?h * 3600 + ?mi * 60 + ?s = t"
    using t time_fields(2) [of t] by linarith
  then have "posix_time_from_utc y m d ?h ?mi ?s = Some t"
    by (simp only: posix_time_from_utc_eq [OF vd time_fields(1)])
  with that [OF _ this] show thesis using utc_from_posix_time_eq [OF assms] c by simp
qed

lemma utc_from_posix_time_None: "\<not> is_valid_posix_time t \<Longrightarrow> utc_from_posix_time t = None"
  by (simp add: utc_from_posix_time_def)

end
