(* ===== verification/Cbs.thy ===== *)
theory Cbs
  imports Mem Posix_Time
begin

text \<open>
  \<open>crypto/bytestring/cbs.c\<close>: reading integers, length-prefixed strings, ASN.1 elements, object
  identifiers and times from a byte string. A \<open>CBS\<close> is the list of the bytes it has left; every
  function returns its outcome together with the \<open>CBS\<close> it leaves, so what a failed call has
  consumed is part of the model. Out-parameters carry a value on success only.
\<close>

section \<open>Raw access\<close>

definition CBS_len :: "CBS \<Rightarrow> nat" where
  "CBS_len cbs = length cbs"

definition cbs_get :: "nat \<Rightarrow> CBS \<Rightarrow> u8 list cbs_result" where
  "cbs_get n cbs = (if CBS_len cbs < n then (None, cbs) else (Some (take n cbs), drop n cbs))"

definition CBS_skip :: "nat \<Rightarrow> CBS \<Rightarrow> bool \<times> CBS" where
  "CBS_skip len cbs = (case cbs_get len cbs of (dummy, cbs) \<Rightarrow> (dummy \<noteq> None, cbs))"

text \<open>\<open>CBS_stow\<close> and \<open>CBS_strdup\<close> return the status and the new \<open>*out_ptr\<close>.\<close>

definition CBS_stow :: "allocator \<Rightarrow> CBS \<Rightarrow> bool \<times> u8 list option \<times> nat" where
  "CBS_stow A cbs =
     (if CBS_len cbs = 0 then (True, None, 0)
      else case OPENSSL_memdup A cbs of
             None \<Rightarrow> (False, None, 0)
           | Some p \<Rightarrow> (True, Some p, CBS_len cbs))"

definition CBS_strdup :: "allocator \<Rightarrow> CBS \<Rightarrow> bool \<times> u8 list option" where
  "CBS_strdup A cbs = (let out = OPENSSL_strndup A cbs (CBS_len cbs) in (out \<noteq> None, out))"

fun memchr :: "u8 list \<Rightarrow> u8 \<Rightarrow> nat option" where
  "memchr [] c = None"
| "memchr (b # bs) c = (if b = c then Some 0 else map_option Suc (memchr bs c))"

definition CBS_contains_zero_byte :: "CBS \<Rightarrow> bool" where
  "CBS_contains_zero_byte cbs \<longleftrightarrow> memchr cbs 0 \<noteq> None"

definition CBS_mem_equal :: "CBS \<Rightarrow> u8 list \<Rightarrow> bool" where
  "CBS_mem_equal cbs data =
     (if length data \<noteq> CBS_len cbs then False else CRYPTO_memcmp cbs data (length data) = 0)"

section \<open>Integers\<close>

fun cbs_u_loop :: "u64 \<Rightarrow> u8 list \<Rightarrow> u64" where
  "cbs_u_loop result [] = result"
| "cbs_u_loop result (b # data) = cbs_u_loop (push_bit 8 result OR ucast b) data"

definition cbs_get_u :: "nat \<Rightarrow> CBS \<Rightarrow> u64 cbs_result" where
  "cbs_get_u len cbs =
     cbs_bind (cbs_get len cbs) (\<lambda>data cbs. (Some (cbs_u_loop 0 data), cbs))"

definition CBS_get_u8 :: "CBS \<Rightarrow> u8 cbs_result" where
  "CBS_get_u8 cbs = cbs_bind (cbs_get 1 cbs) (\<lambda>v cbs. (Some (hd v), cbs))"

definition CBS_get_u16 :: "CBS \<Rightarrow> u16 cbs_result" where
  "CBS_get_u16 cbs = cbs_bind (cbs_get_u 2 cbs) (\<lambda>v cbs. (Some (ucast v), cbs))"

text \<open>\<open>crypto/internal.h\<close>: the byte swaps, in the form of the portable definitions.\<close>

definition CRYPTO_bswap2 :: "u16 \<Rightarrow> u16" where
  "CRYPTO_bswap2 x = (drop_bit 8 x OR push_bit 8 x)"

definition CRYPTO_bswap4 :: "u32 \<Rightarrow> u32" where
  "CRYPTO_bswap4 x =
     (let x = (drop_bit 16 x OR push_bit 16 x)
      in drop_bit 8 (x AND 0xff00ff00) OR push_bit 8 (x AND 0x00ff00ff))"

definition CRYPTO_bswap8 :: "u64 \<Rightarrow> u64" where
  "CRYPTO_bswap8 x =
     (ucast (CRYPTO_bswap4 (ucast (drop_bit 32 x))) OR push_bit 32 (ucast (CRYPTO_bswap4 (ucast x))))"

definition CBS_get_u16le :: "CBS \<Rightarrow> u16 cbs_result" where
  "CBS_get_u16le cbs = cbs_bind (CBS_get_u16 cbs) (\<lambda>v cbs. (Some (CRYPTO_bswap2 v), cbs))"

definition CBS_get_u24 :: "CBS \<Rightarrow> u32 cbs_result" where
  "CBS_get_u24 cbs = cbs_bind (cbs_get_u 3 cbs) (\<lambda>v cbs. (Some (ucast v), cbs))"

definition CBS_get_u32 :: "CBS \<Rightarrow> u32 cbs_result" where
  "CBS_get_u32 cbs = cbs_bind (cbs_get_u 4 cbs) (\<lambda>v cbs. (Some (ucast v), cbs))"

definition CBS_get_u32le :: "CBS \<Rightarrow> u32 cbs_result" where
  "CBS_get_u32le cbs = cbs_bind (CBS_get_u32 cbs) (\<lambda>v cbs. (Some (CRYPTO_bswap4 v), cbs))"

definition CBS_get_u64 :: "CBS \<Rightarrow> u64 cbs_result" where
  "CBS_get_u64 cbs = cbs_get_u 8 cbs"

definition CBS_get_u64le :: "CBS \<Rightarrow> u64 cbs_result" where
  "CBS_get_u64le cbs = cbs_bind (cbs_get_u 8 cbs) (\<lambda>v cbs. (Some (CRYPTO_bswap8 v), cbs))"

definition CBS_get_last_u8 :: "CBS \<Rightarrow> u8 cbs_result" where
  "CBS_get_last_u8 cbs =
     (if CBS_len cbs = 0 then (None, cbs)
      else (Some (cbs ! (CBS_len cbs - 1)), take (CBS_len cbs - 1) cbs))"

section \<open>Substrings\<close>

definition CBS_get_bytes :: "nat \<Rightarrow> CBS \<Rightarrow> CBS cbs_result" where
  "CBS_get_bytes len cbs = cbs_bind (cbs_get len cbs) (\<lambda>v cbs. (Some v, cbs))"

text \<open>\<open>CBS_copy_bytes\<close> also takes the destination array, which has room for \<open>len\<close> bytes.\<close>

definition CBS_copy_bytes :: "u8 list \<Rightarrow> nat \<Rightarrow> CBS \<Rightarrow> u8 list cbs_result" where
  "CBS_copy_bytes out len cbs = cbs_bind (cbs_get len cbs) (\<lambda>v cbs. (Some (write_at 0 v out), cbs))"

definition cbs_get_length_prefixed :: "nat \<Rightarrow> CBS \<Rightarrow> CBS cbs_result" where
  "cbs_get_length_prefixed len_len cbs =
     cbs_bind (cbs_get_u len_len cbs) (\<lambda>len cbs. CBS_get_bytes (unat len) cbs)"

definition CBS_get_u8_length_prefixed :: "CBS \<Rightarrow> CBS cbs_result" where
  "CBS_get_u8_length_prefixed cbs = cbs_get_length_prefixed 1 cbs"

definition CBS_get_u16_length_prefixed :: "CBS \<Rightarrow> CBS cbs_result" where
  "CBS_get_u16_length_prefixed cbs = cbs_get_length_prefixed 2 cbs"

definition CBS_get_u24_length_prefixed :: "CBS \<Rightarrow> CBS cbs_result" where
  "CBS_get_u24_length_prefixed cbs = cbs_get_length_prefixed 3 cbs"

definition CBS_get_until_first :: "u8 \<Rightarrow> CBS \<Rightarrow> CBS cbs_result" where
  "CBS_get_until_first c cbs =
     (case memchr cbs c of None \<Rightarrow> (None, cbs) | Some split \<Rightarrow> CBS_get_bytes split cbs)"

section \<open>Decimal and base-128 integers\<close>

text \<open>The loop of \<open>CBS_get_u64_decimal\<close>: \<open>v\<close> is the value so far, \<open>seen_digit\<close> whether a digit was read.\<close>

fun get_u64_decimal_loop :: "u64 \<Rightarrow> bool \<Rightarrow> CBS \<Rightarrow> u64 cbs_result" where
  "get_u64_decimal_loop v seen_digit [] = (if seen_digit then Some v else None, [])"
| "get_u64_decimal_loop v seen_digit (c # cbs) =
     (if \<not> OPENSSL_isdigit (uint c) then (if seen_digit then Some v else None, c # cbs)
      else if (v = 0 \<and> seen_digit) \<or> v > 18446744073709551615 div 10
              \<or> v * 10 > 18446744073709551615 - (ucast c - 48)
      then (None, cbs)
      else get_u64_decimal_loop (v * 10 + (ucast c - 48)) True cbs)"

definition CBS_get_u64_decimal :: "CBS \<Rightarrow> u64 cbs_result" where
  "CBS_get_u64_decimal cbs = get_u64_decimal_loop 0 False cbs"

fun base128_loop :: "u64 \<Rightarrow> CBS \<Rightarrow> u64 cbs_result" where
  "base128_loop v [] = (None, [])"
| "base128_loop v (b # cbs) =
     (if drop_bit (64 - 7) v \<noteq> 0 then (None, cbs)
      else if v = 0 \<and> b = 0x80 then (None, cbs)
      else let v = (push_bit 7 v OR ucast (b AND 0x7f))
           in if b AND 0x80 \<noteq> 0 then base128_loop v cbs else (Some v, cbs))"

definition parse_base128_integer :: "CBS \<Rightarrow> u64 cbs_result" where
  "parse_base128_integer cbs = base128_loop 0 cbs"

section \<open>ASN.1 elements\<close>

type_synonym CBS_ASN1_TAG = u32

definition CBS_ASN1_TAG_SHIFT :: nat where
  "CBS_ASN1_TAG_SHIFT = 24"

definition CBS_ASN1_CONSTRUCTED :: CBS_ASN1_TAG where
  "CBS_ASN1_CONSTRUCTED = push_bit CBS_ASN1_TAG_SHIFT 0x20"

definition CBS_ASN1_TAG_NUMBER_MASK :: CBS_ASN1_TAG where
  "CBS_ASN1_TAG_NUMBER_MASK = push_bit (5 + CBS_ASN1_TAG_SHIFT) 1 - 1"

definition CBS_ASN1_BOOLEAN :: CBS_ASN1_TAG where
  "CBS_ASN1_BOOLEAN = 1"

definition CBS_ASN1_INTEGER :: CBS_ASN1_TAG where
  "CBS_ASN1_INTEGER = 2"

definition CBS_ASN1_OCTETSTRING :: CBS_ASN1_TAG where
  "CBS_ASN1_OCTETSTRING = 4"

definition parse_asn1_tag :: "CBS \<Rightarrow> CBS_ASN1_TAG cbs_result" where
  "parse_asn1_tag cbs =
     cbs_bind (CBS_get_u8 cbs) (\<lambda>tag_byte cbs.
       let tag = push_bit CBS_ASN1_TAG_SHIFT (ucast tag_byte AND 0xe0);
           tag_number = (ucast (tag_byte AND 0x1f) :: u32)
       in cbs_bind
            (if tag_number = 0x1f
             then cbs_bind (parse_base128_integer cbs) (\<lambda>v cbs.
                    if v > ucast CBS_ASN1_TAG_NUMBER_MASK \<or> v < 0x1f then (None, cbs)
                    else (Some (ucast v), cbs))
             else (Some tag_number, cbs))
            (\<lambda>tag_number cbs.
               let tag = (tag OR tag_number)
               in if tag AND NOT CBS_ASN1_CONSTRUCTED = 0 then (None, cbs)
                  else (Some tag, cbs)))"

record asn1_element =
  el_out :: CBS
  el_tag :: CBS_ASN1_TAG
  el_header_len :: nat
  el_ber_found :: bool
  el_indefinite :: bool

definition cbs_get_any_asn1_element :: "bool \<Rightarrow> CBS \<Rightarrow> asn1_element cbs_result" where
  "cbs_get_any_asn1_element ber_ok cbs =
     (case parse_asn1_tag cbs of
        (None, _) \<Rightarrow> (None, cbs)
      | (Some tag, header) \<Rightarrow>
     (case CBS_get_u8 header of
        (None, _) \<Rightarrow> (None, cbs)
      | (Some length_byte, header) \<Rightarrow>
     (let header_len = CBS_len cbs - CBS_len header in
      if length_byte AND 0x80 = 0 then
        (let len = unat length_byte + header_len
         in cbs_bind (CBS_get_bytes len cbs) (\<lambda>out cbs.
              (Some \<lparr>el_out = out, el_tag = tag, el_header_len = header_len,
                     el_ber_found = False, el_indefinite = False\<rparr>, cbs)))
      else
        (let num_bytes = unat (length_byte AND 0x7f) in
         if ber_ok \<and> tag AND CBS_ASN1_CONSTRUCTED \<noteq> 0 \<and> num_bytes = 0 then
           cbs_bind (CBS_get_bytes header_len cbs) (\<lambda>out cbs.
             (Some \<lparr>el_out = out, el_tag = tag, el_header_len = header_len,
                    el_ber_found = True, el_indefinite = True\<rparr>, cbs))
         else if num_bytes = 0 \<or> num_bytes > 4 then (None, cbs)
         else
     (case cbs_get_u num_bytes header of
        (None, _) \<Rightarrow> (None, cbs)
      | (Some len64, _) \<Rightarrow>
          (if len64 < 128 \<and> \<not> ber_ok then (None, cbs)
           else if drop_bit ((num_bytes - 1) * 8) len64 = 0 \<and> \<not> ber_ok then (None, cbs)
           else
             (let ber_found = (len64 < 128 \<or> drop_bit ((num_bytes - 1) * 8) len64 = 0);
                  len = unat len64
              in if size_add (size_add len header_len) num_bytes < len then (None, cbs)
                 else
                   (let len = len + header_len + num_bytes
                    in cbs_bind (CBS_get_bytes len cbs) (\<lambda>out cbs.
                         (Some \<lparr>el_out = out, el_tag = tag,
                                el_header_len = header_len + num_bytes,
                                el_ber_found = ber_found, el_indefinite = False\<rparr>, cbs))))))))))"

definition CBS_get_any_asn1_element :: "CBS \<Rightarrow> asn1_element cbs_result" where
  "CBS_get_any_asn1_element cbs = cbs_get_any_asn1_element False cbs"

definition CBS_get_any_ber_asn1_element :: "CBS \<Rightarrow> asn1_element cbs_result" where
  "CBS_get_any_ber_asn1_element cbs = cbs_get_any_asn1_element True cbs"

definition CBS_get_any_asn1 :: "CBS \<Rightarrow> (CBS \<times> CBS_ASN1_TAG) cbs_result" where
  "CBS_get_any_asn1 cbs =
     cbs_bind (CBS_get_any_asn1_element cbs) (\<lambda>el cbs.
       case CBS_skip (el_header_len el) (el_out el) of
         (False, _) \<Rightarrow> (None, cbs)
       | (True, out) \<Rightarrow> (Some (out, el_tag el), cbs))"

definition cbs_get_asn1 :: "CBS_ASN1_TAG \<Rightarrow> bool \<Rightarrow> CBS \<Rightarrow> CBS cbs_result" where
  "cbs_get_asn1 tag_value skip_header cbs =
     cbs_bind (CBS_get_any_asn1_element cbs) (\<lambda>el cbs.
       if el_tag el \<noteq> tag_value then (None, cbs)
       else if skip_header then
         (case CBS_skip (el_header_len el) (el_out el) of
            (False, _) \<Rightarrow> (None, cbs)
          | (True, out) \<Rightarrow> (Some out, cbs))
       else (Some (el_out el), cbs))"

definition CBS_get_asn1 :: "CBS_ASN1_TAG \<Rightarrow> CBS \<Rightarrow> CBS cbs_result" where
  "CBS_get_asn1 tag_value cbs = cbs_get_asn1 tag_value True cbs"

definition CBS_get_asn1_element :: "CBS_ASN1_TAG \<Rightarrow> CBS \<Rightarrow> CBS cbs_result" where
  "CBS_get_asn1_element tag_value cbs = cbs_get_asn1 tag_value False cbs"

definition CBS_peek_asn1_tag :: "CBS_ASN1_TAG \<Rightarrow> CBS \<Rightarrow> bool" where
  "CBS_peek_asn1_tag tag_value cbs =
     (case parse_asn1_tag cbs of (None, _) \<Rightarrow> False | (Some actual_tag, _) \<Rightarrow> tag_value = actual_tag)"

section \<open>ASN.1 values\<close>

definition CBS_is_valid_asn1_integer :: "CBS \<Rightarrow> bool option" where
  \<comment> \<open>\<open>Some is_negative\<close> for a valid encoding\<close>
  "CBS_is_valid_asn1_integer cbs =
     (case CBS_get_u8 cbs of
        (None, _) \<Rightarrow> None
      | (Some first_byte, copy) \<Rightarrow>
          (let is_negative = (first_byte AND 0x80 \<noteq> 0)
           in case CBS_get_u8 copy of
                (None, _) \<Rightarrow> Some is_negative
              | (Some second_byte, _) \<Rightarrow>
                  (if (first_byte = 0x00 \<and> second_byte AND 0x80 = 0)
                      \<or> (first_byte = 0xff \<and> second_byte AND 0x80 \<noteq> 0)
                   then None else Some is_negative)))"

definition CBS_is_unsigned_asn1_integer :: "CBS \<Rightarrow> bool" where
  "CBS_is_unsigned_asn1_integer cbs \<longleftrightarrow> CBS_is_valid_asn1_integer cbs = Some False"

fun asn1_uint64_loop :: "u64 \<Rightarrow> u8 list \<Rightarrow> u64 option" where
  "asn1_uint64_loop out [] = Some out"
| "asn1_uint64_loop out (b # data) =
     (if drop_bit 56 out \<noteq> 0 then None else asn1_uint64_loop (push_bit 8 out OR ucast b) data)"

definition CBS_get_asn1_uint64 :: "CBS \<Rightarrow> u64 cbs_result" where
  "CBS_get_asn1_uint64 cbs =
     cbs_bind (CBS_get_asn1 CBS_ASN1_INTEGER cbs) (\<lambda>bytes cbs.
       if \<not> CBS_is_unsigned_asn1_integer bytes then (None, cbs)
       else (asn1_uint64_loop 0 bytes, cbs))"

text \<open>\<open>CRYPTO_load_u64_be\<close> reads eight bytes in memory order and swaps them: the big-endian value.\<close>

definition CRYPTO_load_u64_be :: "u8 list \<Rightarrow> u64" where
  "CRYPTO_load_u64_be p = CRYPTO_bswap8 (cbs_u_loop 0 (rev (take 8 p)))"

definition CBS_get_asn1_int64 :: "CBS \<Rightarrow> i64 cbs_result" where
  "CBS_get_asn1_int64 cbs =
     cbs_bind (CBS_get_asn1 CBS_ASN1_INTEGER cbs) (\<lambda>bytes cbs.
       case CBS_is_valid_asn1_integer bytes of
         None \<Rightarrow> (None, cbs)
       | Some is_negative \<Rightarrow>
           (let len = CBS_len bytes in
            if len > 8 then (None, cbs)
            else
              (let sign_extend = replicate 8 (if is_negative then 0xff else 0);
                   sign_extend = write_at (8 - len) bytes sign_extend
               in (Some (CRYPTO_load_u64_be sign_extend), cbs))))"

definition CBS_get_asn1_bool :: "CBS \<Rightarrow> bool cbs_result" where
  "CBS_get_asn1_bool cbs =
     cbs_bind (CBS_get_asn1 CBS_ASN1_BOOLEAN cbs) (\<lambda>bytes cbs.
       if CBS_len bytes \<noteq> 1 then (None, cbs)
       else
         (let value = hd bytes
          in if value \<noteq> 0 \<and> value \<noteq> 0xff then (None, cbs) else (Some (value \<noteq> 0), cbs)))"

text \<open>The optional getters deliver \<open>Some None\<close> when the element is absent.\<close>

definition CBS_get_optional_asn1 :: "CBS_ASN1_TAG \<Rightarrow> CBS \<Rightarrow> CBS option cbs_result" where
  "CBS_get_optional_asn1 tag cbs =
     (if CBS_peek_asn1_tag tag cbs
      then cbs_bind (CBS_get_asn1 tag cbs) (\<lambda>out cbs. (Some (Some out), cbs))
      else (Some None, cbs))"

text \<open>An absent octet string leaves \<open>*out\<close> empty.\<close>

definition CBS_get_optional_asn1_octet_string :: "CBS_ASN1_TAG \<Rightarrow> CBS \<Rightarrow> (CBS \<times> bool) cbs_result" where
  "CBS_get_optional_asn1_octet_string tag cbs =
     cbs_bind (CBS_get_optional_asn1 tag cbs) (\<lambda>child cbs.
       case child of
         None \<Rightarrow> (Some ([], False), cbs)
       | Some child \<Rightarrow>
           (case CBS_get_asn1 CBS_ASN1_OCTETSTRING child of
              (None, _) \<Rightarrow> (None, cbs)
            | (Some out, child) \<Rightarrow>
                (if CBS_len child \<noteq> 0 then (None, cbs) else (Some (out, True), cbs))))"

definition CBS_get_optional_asn1_uint64 :: "CBS_ASN1_TAG \<Rightarrow> u64 \<Rightarrow> CBS \<Rightarrow> u64 cbs_result" where
  "CBS_get_optional_asn1_uint64 tag default_value cbs =
     cbs_bind (CBS_get_optional_asn1 tag cbs) (\<lambda>child cbs.
       case child of
         None \<Rightarrow> (Some default_value, cbs)
       | Some child \<Rightarrow>
           (case CBS_get_asn1_uint64 child of
              (None, _) \<Rightarrow> (None, cbs)
            | (Some out, child) \<Rightarrow>
                (if CBS_len child \<noteq> 0 then (None, cbs) else (Some out, cbs))))"

definition CBS_get_optional_asn1_bool :: "CBS_ASN1_TAG \<Rightarrow> bool \<Rightarrow> CBS \<Rightarrow> bool cbs_result" where
  "CBS_get_optional_asn1_bool tag default_value cbs =
     cbs_bind (CBS_get_optional_asn1 tag cbs) (\<lambda>child cbs.
       case child of
         None \<Rightarrow> (Some default_value, cbs)
       | Some child \<Rightarrow>
           (case CBS_get_asn1 CBS_ASN1_BOOLEAN child of
              (None, _) \<Rightarrow> (None, cbs)
            | (Some child2, child) \<Rightarrow>
                (if CBS_len child2 \<noteq> 1 \<or> CBS_len child \<noteq> 0 then (None, cbs)
                 else
                   (let boolean = hd child2
                    in if boolean = 0 then (Some False, cbs)
                       else if boolean = 0xff then (Some True, cbs)
                       else (None, cbs)))))"

definition CBS_is_valid_asn1_bitstring :: "CBS \<Rightarrow> bool" where
  "CBS_is_valid_asn1_bitstring cbs =
     (case CBS_get_u8 cbs of
        (None, _) \<Rightarrow> False
      | (Some num_unused_bits, in_) \<Rightarrow>
          (if num_unused_bits > 7 then False
           else if num_unused_bits = 0 then True
           else case CBS_get_last_u8 in_ of
                  (None, _) \<Rightarrow> False
                | (Some last_byte, _) \<Rightarrow>
                    last_byte AND (push_bit (unat num_unused_bits) 1 - 1) = 0))"

definition CBS_asn1_bitstring_has_bit :: "nat \<Rightarrow> CBS \<Rightarrow> bool" where
  "CBS_asn1_bitstring_has_bit n cbs =
     (if \<not> CBS_is_valid_asn1_bitstring cbs then False
      else
        (let byte_num = n div 8 + 1; bit_num = 7 - n mod 8
         in byte_num < CBS_len cbs \<and> cbs ! byte_num AND push_bit bit_num 1 \<noteq> 0))"

section \<open>Object identifiers\<close>

fun oid_valid_loop :: "u8 \<Rightarrow> CBS \<Rightarrow> bool" where
  "oid_valid_loop prev [] = (prev AND 0x80 = 0)"
| "oid_valid_loop prev (v # copy) =
     (if prev AND 0x80 = 0 \<and> v = 0x80 then False else oid_valid_loop v copy)"

definition CBS_is_valid_asn1_oid :: "CBS \<Rightarrow> bool" where
  "CBS_is_valid_asn1_oid cbs = (if CBS_len cbs = 0 then False else oid_valid_loop 0 cbs)"

section \<open>Times\<close>

definition cbs_get_two_digits :: "CBS \<Rightarrow> int cbs_result" where
  "cbs_get_two_digits cbs =
     cbs_bind (CBS_get_u8 cbs) (\<lambda>first_digit cbs.
       if \<not> OPENSSL_isdigit (uint first_digit) then (None, cbs)
       else cbs_bind (CBS_get_u8 cbs) (\<lambda>second_digit cbs.
         if \<not> OPENSSL_isdigit (uint second_digit) then (None, cbs)
         else (Some ((uint first_digit - 48) * 10 + (uint second_digit - 48)), cbs)))"

definition is_valid_day :: "int \<Rightarrow> int \<Rightarrow> int \<Rightarrow> bool" where
  "is_valid_day year month day =
     (if day < 1 then False
      else if month \<in> {1, 3, 5, 7, 8, 10, 12} then day \<le> 31
      else if month \<in> {4, 6, 9, 11} then day \<le> 30
      else if month = 2 then
        (if (year smod 4 = 0 \<and> year smod 100 \<noteq> 0) \<or> year smod 400 = 0 then day \<le> 29 else day \<le> 28)
      else False)"

definition parse_time_year :: "bool \<Rightarrow> CBS \<Rightarrow> int cbs_result" where
  "parse_time_year is_gentime copy =
     (if is_gentime then
        cbs_bind (cbs_get_two_digits copy) (\<lambda>tmp copy.
          let year = tmp * 100
          in cbs_bind (cbs_get_two_digits copy) (\<lambda>tmp copy. (Some (year + tmp), copy)))
      else
        cbs_bind (cbs_get_two_digits copy) (\<lambda>tmp copy.
          let year = 1900 + tmp;
              year = (if year < 1950 then year + 100 else year)
          in if year \<ge> 2050 then (None, copy) else (Some year, copy)))"

text \<open>The result is the time stored in \<open>*out_tm\<close>; the code stops at the first test that fails.\<close>

definition CBS_parse_rfc5280_time_internal :: "CBS \<Rightarrow> bool \<Rightarrow> bool \<Rightarrow> tm option" where
  "CBS_parse_rfc5280_time_internal cbs is_gentime allow_timezone_offset =
     (case
        cbs_bind (parse_time_year is_gentime cbs) (\<lambda>year copy.
        cbs_bind (cbs_get_two_digits copy) (\<lambda>month copy.
        if month < 1 \<or> month > 12 then (None, copy) else
        cbs_bind (cbs_get_two_digits copy) (\<lambda>day copy.
        if \<not> is_valid_day year month day then (None, copy) else
        cbs_bind (cbs_get_two_digits copy) (\<lambda>hour copy.
        if hour > 23 then (None, copy) else
        cbs_bind (cbs_get_two_digits copy) (\<lambda>mins copy.
        if mins > 59 then (None, copy) else
        cbs_bind (cbs_get_two_digits copy) (\<lambda>sec copy.
        if sec > 59 then (None, copy) else
        cbs_bind (CBS_get_u8 copy) (\<lambda>tz copy.
        if tz \<noteq> 90 \<and> tz \<noteq> 43 \<and> tz \<noteq> 45 then (None, copy) else
        let offset_sign = (if tz = 90 then 0 else if tz = 43 then 1 else - 1 :: int) in
        cbs_bind
          (if offset_sign = 0 then (Some 0, copy)
           else if \<not> allow_timezone_offset then (None, copy)
           else
             cbs_bind (cbs_get_two_digits copy) (\<lambda>offset_hours copy.
             if offset_hours > 23 then (None, copy) else
             cbs_bind (cbs_get_two_digits copy) (\<lambda>offset_minutes copy.
             if offset_minutes > 59 then (None, copy)
             else (Some (offset_sign * (offset_hours * 3600 + offset_minutes * 60)), copy))))
          (\<lambda>offset_seconds copy.
             if CBS_len copy \<noteq> 0 then (None, copy)
             else
               (let out_tm = \<lparr>tm_sec = sec, tm_min = mins, tm_hour = hour, tm_mday = day,
                              tm_mon = month - 1, tm_year = year - 1900\<rparr>
                in (if offset_seconds \<noteq> 0 then OPENSSL_gmtime_adj out_tm 0 offset_seconds
                    else Some out_tm, copy))))))))))
      of (out, _) \<Rightarrow> out)"

definition CBS_parse_generalized_time :: "CBS \<Rightarrow> bool \<Rightarrow> tm option" where
  "CBS_parse_generalized_time cbs allow_timezone_offset =
     CBS_parse_rfc5280_time_internal cbs True allow_timezone_offset"

definition CBS_parse_utc_time :: "CBS \<Rightarrow> bool \<Rightarrow> tm option" where
  "CBS_parse_utc_time cbs allow_timezone_offset =
     CBS_parse_rfc5280_time_internal cbs False allow_timezone_offset"

end
