(* ===== verification/Word_Facts.thy ===== *)
theory Word_Facts
  imports Prelude
begin

text \<open>
  Arithmetic readings of the bit manipulations that the C sources use: shifting a digit into an
  accumulator, masking low bits, testing and splitting off high bits. Every fact relates a word
  expression to the natural number it denotes.
\<close>

lemma unat_lt: "unat (w :: 'a::len word) < 2 ^ LENGTH('a)"
  by (rule unsigned_less)

lemma unat_push_bit:
  assumes "unat (w :: 'a::len word) * 2 ^ k < 2 ^ LENGTH('a)"
  shows "unat (push_bit k w) = unat w * 2 ^ k"
proof -
  have "unat (push_bit k w) = take_bit LENGTH('a) (push_bit k (unat w))"
    by (simp add: unsigned_push_bit_eq)
  also have "\<dots> = unat w * 2 ^ k"
    using assms by (simp add: push_bit_eq_mult take_bit_nat_eq_self_iff)
  finally show ?thesis .
qed

lemma unat_drop_bit: "unat (drop_bit k (w :: 'a::len word)) = unat w div 2 ^ k"
proof -
  have "take_bit LENGTH('a) (unat w) = unat w"
    by (simp add: take_bit_nat_eq_self_iff unsigned_less)
  then show ?thesis by (simp only: unsigned_drop_bit_eq) (simp add: drop_bit_eq_div)
qed

lemma unat_take_bit: "unat (take_bit k (w :: 'a::len word)) = unat w mod 2 ^ k"
  by (simp only: unsigned_take_bit_eq) (simp add: take_bit_eq_mod)

lemma unat_and_mask: "unat (w AND mask k :: 'a::len word) = unat w mod 2 ^ k"
  by (simp add: take_bit_eq_mask [symmetric] unat_take_bit)

lemma push_and_low:
  assumes "unat (b :: 'a::len word) < 2 ^ k"
  shows "push_bit k w AND b = 0"
proof -
  have b: "take_bit k b = b"
    using assms by (simp add: word_unat_eq_iff unat_take_bit)
  have "push_bit k w AND take_bit k b = 0"
    by (auto simp: bit_eq_iff bit_simps)
  then show ?thesis unfolding b .
qed

text \<open>\<open>x = (x << k) | b\<close> appends the digit \<open>b\<close> to \<open>x\<close> in base \<open>2 ^ k\<close>.\<close>

lemma unat_shift_in:
  assumes "unat (w :: 'a::len word) * 2 ^ k + unat b < 2 ^ LENGTH('a)" "unat b < 2 ^ k"
  shows "unat (push_bit k w OR b) = unat w * 2 ^ k + unat b"
proof -
  have "push_bit k w OR b = push_bit k w + b"
    by (rule disjunctive_add_eq_or [symmetric, OF push_and_low [OF assms(2)]])
  moreover have "unat (push_bit k w) = unat w * 2 ^ k"
    using assms(1) by (intro unat_push_bit) simp
  ultimately show ?thesis using assms(1) by (simp add: unat_word_ariths)
qed

lemma unat_ucast_up:
  assumes "LENGTH('a::len) \<le> LENGTH('b::len)"
  shows "unat (ucast (w :: 'a word) :: 'b word) = unat w"
proof -
  have "unat w < 2 ^ LENGTH('b)"
    by (rule less_le_trans [OF unsigned_less]) (simp add: assms)
  then show ?thesis by (simp add: unsigned_ucast_eq take_bit_nat_eq_self_iff)
qed

lemma unat_ucast_mod: "unat (ucast (w :: 'a::len word) :: 'b::len word) = unat w mod 2 ^ LENGTH('b)"
  by (simp add: unsigned_ucast_eq take_bit_eq_mod)

lemma u8_masks:
  fixes b :: u8
  shows "unat (b AND 0x7f) = unat b mod 128" "unat (b AND 0x1f) = unat b mod 32"
    "unat (b AND 0x3f) = unat b mod 64"
  using unat_and_mask [of b 7] unat_and_mask [of b 5] unat_and_mask [of b 6]
  by (simp_all add: mask_eq_exp_minus_1)

lemma unat_u8_div_128: "unat (b :: u8) div 128 = (if 128 \<le> unat b then 1 else 0)"
  using unat_u8_less [of b] by (auto simp del: unat_u8_less)

lemma u8_top_bit: "(b :: u8) AND 0x80 = 0 \<longleftrightarrow> unat b < 128"
proof -
  have "b AND 0x80 = 0 \<longleftrightarrow> \<not> bit b 7"
    using and_exp_eq_0_iff_not_bit [of b 7] by simp
  also have "\<dots> \<longleftrightarrow> \<not> bit (unat b) 7"
    by (simp add: bit_unsigned_iff)
  also have "\<dots> \<longleftrightarrow> unat b < 128"
    by (simp add: bit_iff_odd unat_u8_div_128)
  finally show ?thesis .
qed

lemma u8_eq_iff: "(b :: u8) = word_of_nat n \<longleftrightarrow> unat b = n mod 256"
  by (simp add: word_unat_eq_iff unat_word_of_nat_u8)

lemma word_of_nat_unat_u8: "n < 256 \<Longrightarrow> unat (word_of_nat n :: u8) = n"
  by (simp add: unat_word_of_nat_u8)

lemma and_not_bit_0_iff:
  fixes w :: "'a::len word"
  assumes "k < LENGTH('a)"
  shows "w AND NOT (2 ^ k) = 0 \<longleftrightarrow> w = 0 \<or> w = 2 ^ k"
proof
  assume a: "w AND NOT (2 ^ k) = 0"
  have b: "bit w n \<Longrightarrow> n = k" if "n < LENGTH('a)" for n
    using a that by (auto simp: bit_eq_iff bit_simps)
  show "w = 0 \<or> w = 2 ^ k"
  proof (cases "bit w k")
    case True
    then have "w = 2 ^ k" using b by (intro bit_word_eqI) (auto simp: bit_simps)
    then show ?thesis ..
  next
    case False
    then have "w = 0" using b by (intro bit_word_eqI) (auto simp: bit_simps)
    then show ?thesis ..
  qed
next
  assume "w = 0 \<or> w = 2 ^ k"
  then show "w AND NOT (2 ^ k) = 0" by auto
qed

end
