(* ===== verification/Der.thy ===== *)
theory Der
  imports Cbs Word_Facts
begin

text \<open>
  The DER encoding as an abstract specification (base-128 integers, identifier octets, length octets,
  whole elements), and the proof that the parser of \<open>cbs.c\<close> accepts exactly these encodings: each
  layer is an interpretation of the canonical codec contract.
\<close>

section \<open>Reading integers\<close>

lemma CBS_get_u8_simps [simp]:
  "CBS_get_u8 [] = (None, [])" "CBS_get_u8 (b # cbs) = (Some b, cbs)"
  by (simp_all add: CBS_get_u8_def cbs_get_def CBS_len_def)

lemma cbs_get_append: "length bs = n \<Longrightarrow> cbs_get n (bs @ rest) = (Some bs, rest)"
  by (simp add: cbs_get_def CBS_len_def)

lemma cbs_get_Some_iff:
  "cbs_get n cbs = (Some bs, rest) \<longleftrightarrow> cbs = bs @ rest \<and> length bs = n"
  by (auto simp: cbs_get_def CBS_len_def min_def split: if_splits)

lemma cbs_get_None_iff: "cbs_get n cbs = (None, rest) \<longleftrightarrow> rest = cbs \<and> length cbs < n"
  by (auto simp: cbs_get_def CBS_len_def split: if_splits)

lemma CBS_get_bytes_eq: "CBS_get_bytes n cbs = cbs_get n cbs"
  by (simp add: CBS_get_bytes_def cbs_bind_def split: prod.splits option.splits)

lemma CBS_skip_append [simp]: "length bs = n \<Longrightarrow> CBS_skip n (bs @ rest) = (True, rest)"
  by (simp add: CBS_skip_def cbs_get_append)

lemma unat_cbs_u_loop:
  "unat r * 256 ^ length bs + be_nat bs < 2 ^ 64 \<Longrightarrow>
   unat (cbs_u_loop r bs) = unat r * 256 ^ length bs + be_nat bs"
proof (induction bs arbitrary: r)
  case (Cons b bs)
  have pos: "1 \<le> (256 :: nat) ^ length bs" by simp
  have b: "unat (ucast b :: u64) = unat b" by (simp add: unat_ucast_up)
  have "(unat r * 256 + unat b) * 256 ^ length bs + be_nat bs < 2 ^ 64"
    using Cons.prems by (simp add: be_nat_Cons algebra_simps)
  moreover have "unat r * 256 + unat b \<le> (unat r * 256 + unat b) * 256 ^ length bs"
    using pos by simp
  ultimately have "unat r * 256 + unat b < 2 ^ 64" by linarith
  then have "unat (push_bit 8 r OR ucast b) = unat r * 256 + unat b"
    using unat_shift_in [of r 8 "ucast b"] b by simp
  then show ?case using Cons by (simp add: be_nat_Cons algebra_simps)
qed (simp add: be_nat_def)

lemma unat_cbs_u_loop_0: "length bs \<le> 8 \<Longrightarrow> unat (cbs_u_loop 0 bs) = be_nat bs"
proof -
  assume "length bs \<le> 8"
  then have "(256 :: nat) ^ length bs \<le> 256 ^ 8" by (rule power_increasing) simp
  then show ?thesis using unat_cbs_u_loop [of 0 bs] be_nat_bound [of bs] by simp
qed

lemma cbs_get_u_Some_iff:
  assumes "n \<le> 8"
  shows "cbs_get_u n cbs = (Some v, rest) \<longleftrightarrow> unat v < 256 ^ n \<and> cbs = be_bytes n (unat v) @ rest"
proof
  assume "cbs_get_u n cbs = (Some v, rest)"
  then obtain bs where "cbs = bs @ rest" "length bs = n" "v = cbs_u_loop 0 bs"
    by (auto simp: cbs_get_u_def cbs_bind_Some_iff cbs_get_Some_iff)
  then show "unat v < 256 ^ n \<and> cbs = be_bytes n (unat v) @ rest"
    using assms be_nat_bound [of bs] by (auto simp: unat_cbs_u_loop_0 be_bytes_be_nat)
next
  assume r: "unat v < 256 ^ n \<and> cbs = be_bytes n (unat v) @ rest"
  then have "unat (cbs_u_loop 0 (be_bytes n (unat v))) = unat v"
    using assms by (simp add: unat_cbs_u_loop_0 be_nat_be_bytes)
  with r show "cbs_get_u n cbs = (Some v, rest)"
    by (simp add: cbs_get_u_def cbs_get_append word_unat_eq_iff)
qed

section \<open>Base-128 integers\<close>

fun base128_high :: "nat \<Rightarrow> u8 list" where
  "base128_high n = (if n = 0 then [] else base128_high (n div 128) @ [word_of_nat (128 + n mod 128)])"

declare base128_high.simps [simp del]

definition base128 :: "nat \<Rightarrow> u8 list" where
  "base128 n = base128_high (n div 128) @ [word_of_nat (n mod 128)]"

lemma base128_high_0 [simp]: "base128_high 0 = []"
  by (simp add: base128_high.simps)

lemma base128_high_snoc:
  "n \<noteq> 0 \<or> d \<noteq> 0 \<Longrightarrow> d < 128 \<Longrightarrow>
   base128_high (n * 128 + d) = base128_high n @ [word_of_nat (128 + d)]"
  by (subst base128_high.simps) auto

lemma base128_snoc: "d < 128 \<Longrightarrow> base128 (n * 128 + d) = base128_high n @ [word_of_nat d]"
  by (simp add: base128_def)

lemma base128_step:
  fixes v :: u64 and b :: u8
  assumes "drop_bit 57 v = 0"
  shows "unat (push_bit 7 v OR ucast (b AND 0x7f)) = unat v * 128 + unat b mod 128"
proof -
  have "unat v div 2 ^ 57 = 0" using assms unat_drop_bit [of 57 v] by simp
  then have v: "unat v < 2 ^ 57" by (simp add: div_eq_0_iff)
  have b: "unat (ucast (b AND 0x7f) :: u64) = unat b mod 128"
    by (simp add: unat_ucast_up u8_masks)
  have "unat v * 2 ^ 7 + unat b mod 128 < 2 ^ LENGTH(64)"
    using v mod_less_divisor [of 128 "unat b"] by simp
  with unat_shift_in [of v 7 "ucast (b AND 0x7f)"] show ?thesis by (simp add: b)
qed

lemma base128_loop_high:
  "n < 2 ^ 64 \<Longrightarrow> n \<noteq> 0 \<Longrightarrow>
   base128_loop 0 (base128_high n @ cbs) = base128_loop (word_of_nat n) cbs"
proof (induction n arbitrary: cbs rule: base128_high.induct)
  case (1 n)
  define v where "v = (word_of_nat (n div 128) :: u64)"
  have uv: "unat v = n div 128" using 1(2) by (simp add: v_def unat_of_nat)
  define b where "b = (word_of_nat (128 + n mod 128) :: u8)"
  have ub: "unat b = 128 + n mod 128" by (simp add: b_def unat_word_of_nat_u8 del: of_nat_add)
  have hi: "base128_loop 0 (base128_high n @ cbs) = base128_loop v (b # cbs)"
  proof (cases "n div 128 = 0")
    case True
    then show ?thesis using 1(3) by (simp add: base128_high.simps [of n] v_def b_def)
  next
    case False
    then show ?thesis using 1 by (simp add: base128_high.simps [of n] v_def b_def)
  qed
  have d: "drop_bit 57 v = 0"
    using 1(2) uv by (simp add: word_unat_eq_iff unat_drop_bit div_mult2_eq [symmetric] div_eq_0_iff)
  have "\<not> (v = 0 \<and> b = 0x80)"
    using 1(3) uv ub by (auto simp: word_unat_eq_iff)
  moreover have "b AND 0x80 \<noteq> 0" by (simp add: u8_top_bit ub)
  moreover have "push_bit 7 v OR ucast (b AND 0x7f) = word_of_nat n"
    using 1(2) by (simp add: word_unat_eq_iff base128_step [OF d] uv ub unat_of_nat)
  ultimately show ?case using d unfolding hi by auto
qed

lemma base128_loop_last:
  assumes "unat v < 2 ^ 57" "d < 128"
  shows "base128_loop v (word_of_nat d # cbs) = (Some (word_of_nat (unat v * 128 + d)), cbs)"
proof -
  define b where "b = (word_of_nat d :: u8)"
  have ub: "unat b = d" using assms(2) by (simp add: b_def unat_word_of_nat_u8)
  have d: "drop_bit 57 v = 0"
    using assms(1) by (simp add: word_unat_eq_iff unat_drop_bit div_eq_0_iff)
  have "b \<noteq> 0x80" using ub assms(2) by (auto simp: word_unat_eq_iff)
  moreover have "b AND 0x80 = 0" using assms(2) by (simp add: u8_top_bit ub)
  moreover have "unat v * 128 + d < 2 ^ 64" using assms by simp
  then have "push_bit 7 v OR ucast (b AND 0x7f) = word_of_nat (unat v * 128 + d)"
    using assms(2) by (simp add: word_unat_eq_iff base128_step [OF d] ub unat_of_nat del: of_nat_add of_nat_mult)
  ultimately show ?thesis unfolding b_def [symmetric] using d by simp
qed

lemma parse_base128_enc: "parse_base128_integer (base128 (unat v) @ cbs) = (Some v, cbs)"
proof -
  have n: "unat v < 2 ^ 64" using unsigned_less [of v] by simp
  then have h: "unat v div 128 < 2 ^ 57" by simp
  have "parse_base128_integer (base128 (unat v) @ cbs)
      = base128_loop (word_of_nat (unat v div 128)) (word_of_nat (unat v mod 128) # cbs)"
    using base128_loop_high [of "unat v div 128"] n
    by (cases "unat v div 128 = 0") (auto simp: parse_base128_integer_def base128_def)
  also have "\<dots> = (Some (word_of_nat (unat v)), cbs)"
  proof -
    have "unat (word_of_nat (unat v div 128) :: u64) = unat v div 128"
      using n by (simp add: unat_of_nat)
    then show ?thesis
      using base128_loop_last [of "word_of_nat (unat v div 128)" "unat v mod 128" cbs] h
      by (simp only: div_mult_mod_eq)
  qed
  finally show ?thesis by simp
qed

lemma base128_loop_dec:
  "base128_loop v cbs = (Some w, rest) \<Longrightarrow>
   \<exists>bs. cbs = bs @ rest \<and> base128 (unat w) = base128_high (unat v) @ bs"
proof (induction v cbs rule: base128_loop.induct)
  case (2 v b cbs)
  let ?v = "push_bit 7 v OR ucast (b AND 0x7f) :: u64"
  from 2(2) have d: "drop_bit 57 v = 0" and nz: "\<not> (v = 0 \<and> b = 0x80)" by (auto split: if_splits)
  note uv = base128_step [OF d, of b]
  show ?case
  proof (cases "b AND 0x80 = 0")
    case True
    then have "unat b < 128" by (simp add: u8_top_bit)
    then have "base128 (unat ?v) = base128_high (unat v) @ [b]"
      by (simp add: uv base128_snoc)
    with 2(2) d nz True show ?thesis by auto
  next
    case False
    then have ub: "128 \<le> unat b" by (simp add: u8_top_bit)
    then have m: "128 + unat b mod 128 = unat b" using unat_u8_div_128 [of b]
      by (metis mult_div_mod_eq mult.right_neutral)
    have "unat v \<noteq> 0 \<or> unat b mod 128 \<noteq> 0" using nz m by (auto simp: word_unat_eq_iff)
    then have hi: "base128_high (unat ?v) = base128_high (unat v) @ [b]"
      by (simp add: uv base128_high_snoc m)
    from 2(2) d nz False have "base128_loop ?v cbs = (Some w, rest)" by (auto simp: Let_def)
    from 2(1) [OF _ _ refl False this] d nz
    obtain bs where "cbs = bs @ rest" "base128 (unat w) = base128_high (unat ?v) @ bs" by auto
    then show ?thesis by (simp add: hi)
  qed
qed simp

interpretation b128: canonical_codec "\<lambda>v. base128 (unat v)" parse_base128_integer "\<lambda>_. True"
proof unfold_locales
  fix v :: u64 and rest cbs
  show "parse_base128_integer (base128 (unat v) @ rest) = (Some v, rest)" by (rule parse_base128_enc)
  show "base128 (unat v) \<noteq> []" by (simp add: base128_def)
  show "True \<and> cbs = base128 (unat v) @ rest" if "parse_base128_integer cbs = (Some v, rest)"
    using base128_loop_dec [of 0 cbs v rest] that by (auto simp: parse_base128_integer_def)
qed

section \<open>Identifier octets\<close>

text \<open>The in-memory form of a tag holds the class and the constructed bit in its top three bits and
  the tag number below them.\<close>

definition tag_class :: "CBS_ASN1_TAG \<Rightarrow> nat" where
  "tag_class tag = unat tag div 2 ^ 29"

definition tag_num :: "CBS_ASN1_TAG \<Rightarrow> nat" where
  "tag_num tag = unat tag mod 2 ^ 29"

definition valid_tag :: "CBS_ASN1_TAG \<Rightarrow> bool" where
  "valid_tag tag \<longleftrightarrow> tag \<noteq> 0 \<and> tag \<noteq> CBS_ASN1_CONSTRUCTED"

definition der_tag :: "CBS_ASN1_TAG \<Rightarrow> u8 list" where
  "der_tag tag =
     (if tag_num tag < 31 then [word_of_nat (tag_class tag * 32 + tag_num tag)]
      else word_of_nat (tag_class tag * 32 + 31) # base128 (tag_num tag))"

lemma constructed_val: "CBS_ASN1_CONSTRUCTED = 0x20000000"
  by (simp add: CBS_ASN1_CONSTRUCTED_def CBS_ASN1_TAG_SHIFT_def)

lemma number_mask_val: "CBS_ASN1_TAG_NUMBER_MASK = 0x1fffffff"
  by (simp add: CBS_ASN1_TAG_NUMBER_MASK_def CBS_ASN1_TAG_SHIFT_def)

lemma valid_tag_iff: "tag AND NOT CBS_ASN1_CONSTRUCTED = 0 \<longleftrightarrow> \<not> valid_tag tag"
  using and_not_bit_0_iff [of 29 tag] by (auto simp: valid_tag_def constructed_val)

lemma tag_class_bound: "tag_class tag < 8"
  using unat_lt [of tag] by (simp add: tag_class_def less_mult_imp_div_less)

lemma tag_split: "unat tag = tag_class tag * 2 ^ 29 + tag_num tag"
  by (simp add: tag_class_def tag_num_def)

text \<open>The two halves of the tag as the parser assembles them.\<close>

lemma unat_tag_or:
  assumes "unat (n :: u32) < 2 ^ 29"
  shows "unat (push_bit CBS_ASN1_TAG_SHIFT (ucast (b :: u8) AND 0xe0) OR n) = unat b div 32 * 2 ^ 29 + unat n"
proof -
  have e0: "(0xe0 :: u32) = push_bit 5 (mask 3)" by (simp add: mask_eq_exp_minus_1)
  have "(ucast b AND 0xe0 :: u32) = push_bit 5 (drop_bit 5 (ucast b))"
    unfolding e0 by (rule bit_word_eqI) (auto simp: bit_simps dest: bit_imp_le_length)
  then have "push_bit CBS_ASN1_TAG_SHIFT (ucast b AND 0xe0 :: u32) = push_bit 29 (drop_bit 5 (ucast b))"
    by (simp add: CBS_ASN1_TAG_SHIFT_def)
  moreover have u: "unat (drop_bit 5 (ucast b :: u32)) = unat b div 32"
    by (simp add: unat_drop_bit unat_ucast_up)
  moreover have "unat b div 32 < 8" using unat_u8_less [of b] by (simp del: unat_u8_less)
  ultimately show ?thesis
    using unat_shift_in [of "drop_bit 5 (ucast b :: u32)" 29 n] assms by simp
qed

lemma tag_parts:
  assumes "unat tag = c * 2 ^ 29 + n" "n < 2 ^ 29"
  shows "tag_class tag = c" "tag_num tag = n"
  using assms by (simp_all add: tag_class_def tag_num_def)

lemma unat_low_number: "unat (ucast (b AND 0x1f) :: u32) = unat (b :: u8) mod 32"
  by (simp add: unat_ucast_up u8_masks)

lemma ucast_tag_number:
  assumes "unat (v :: u64) < 2 ^ 29"
  shows "unat (ucast v :: u32) = unat v"
  using assms by (simp add: unat_ucast_mod)

lemma tag_number_in_range:
  "v > ucast CBS_ASN1_TAG_NUMBER_MASK \<or> v < (0x1f :: u64) \<longleftrightarrow> \<not> (31 \<le> unat v \<and> unat v < 2 ^ 29)"
  by (auto simp: number_mask_val word_less_nat_alt)

text \<open>What the parser does after the first identifier octet.\<close>

lemma parse_asn1_tag_Cons:
  "parse_asn1_tag (b # cbs) = (Some tag, rest) \<longleftrightarrow>
   valid_tag tag \<and> tag_class tag = unat b div 32
   \<and> (if unat b mod 32 = 31
      then 31 \<le> tag_num tag \<and> parse_base128_integer cbs = (Some (word_of_nat (tag_num tag)), rest)
      else tag_num tag = unat b mod 32 \<and> cbs = rest)"
proof -
  define c where "c = (push_bit CBS_ASN1_TAG_SHIFT (ucast b AND 0xe0) :: u32)"
  have small: "unat b mod 32 < 2 ^ 29"
    by (rule less_trans [of _ 32]) simp_all
  have num: "(ucast (b AND 0x1f) :: u32) = 0x1f \<longleftrightarrow> unat b mod 32 = 31"
    by (simp add: word_unat_eq_iff unat_low_number)
  have or_eq: "c OR n = tag \<longleftrightarrow> tag_class tag = unat b div 32 \<and> tag_num tag = unat n"
    if "unat n < 2 ^ 29" for n
  proof
    assume "c OR n = tag"
    then have "unat tag = unat b div 32 * 2 ^ 29 + unat n" using unat_tag_or [OF that, of b, folded c_def] by metis
    then show "tag_class tag = unat b div 32 \<and> tag_num tag = unat n" using tag_parts that by metis
  next
    assume "tag_class tag = unat b div 32 \<and> tag_num tag = unat n"
    then have "unat (c OR n) = unat tag" using unat_tag_or [OF that, of b, folded c_def] tag_split [of tag] by metis
    then show "c OR n = tag" by (rule word_unat_eq_iff [THEN iffD2])
  qed
  show ?thesis
  proof (cases "unat b mod 32 = 31")
    case False
    then show ?thesis
      using or_eq [of "ucast (b AND 0x1f)"] small num
      unfolding parse_asn1_tag_def CBS_get_u8_simps cbs_bind_simps Let_def valid_tag_iff c_def [symmetric]
      by (auto simp: unat_low_number)
  next
    case True
    have "parse_asn1_tag (b # cbs) = (Some tag, rest) \<longleftrightarrow>
       (\<exists>v. parse_base128_integer cbs = (Some v, rest) \<and> 31 \<le> unat v \<and> unat v < 2 ^ 29
            \<and> c OR ucast v = tag \<and> valid_tag tag)"
      using True num
      unfolding parse_asn1_tag_def CBS_get_u8_simps cbs_bind_simps Let_def valid_tag_iff tag_number_in_range c_def [symmetric]
      by (auto simp: cbs_bind_Some_iff split: if_splits)
    also have "\<dots> \<longleftrightarrow> (\<exists>v. parse_base128_integer cbs = (Some v, rest) \<and> 31 \<le> unat v
       \<and> tag_class tag = unat b div 32 \<and> tag_num tag = unat v \<and> valid_tag tag)"
    proof -
      have "tag_num tag < 2 ^ 29" by (simp add: tag_num_def)
      then have "unat v < 2 ^ 29 \<and> c OR ucast v = tag
          \<longleftrightarrow> tag_class tag = unat b div 32 \<and> tag_num tag = unat v" for v :: u64
        using or_eq [of "ucast v"] ucast_tag_number [of v] by auto
      then show ?thesis by blast
    qed
    also have "\<dots> \<longleftrightarrow> valid_tag tag \<and> tag_class tag = unat b div 32 \<and> 31 \<le> tag_num tag
       \<and> parse_base128_integer cbs = (Some (word_of_nat (tag_num tag)), rest)"
    proof -
      have "unat (word_of_nat (tag_num tag) :: u64) = tag_num tag"
        by (simp add: unat_of_nat tag_num_def)
      then show ?thesis by (metis word_unat_eq_iff)
    qed
    finally show ?thesis using True by simp
  qed
qed

lemma parse_asn1_tag_iff:
  "parse_asn1_tag cbs = (Some tag, rest) \<longleftrightarrow> valid_tag tag \<and> cbs = der_tag tag @ rest"
proof (cases cbs)
  case Nil
  then show ?thesis by (simp add: parse_asn1_tag_def der_tag_def)
next
  case (Cons b cs)
  have n64: "unat (word_of_nat (tag_num tag) :: u64) = tag_num tag"
    by (simp add: unat_of_nat tag_num_def)
  have b: "b = word_of_nat (tag_class tag * 32 + k) \<longleftrightarrow> tag_class tag = unat b div 32 \<and> k = unat b mod 32"
    if "k < 32" for k
  proof -
    have "tag_class tag * 32 + k < 256" using tag_class_bound [of tag] that by simp
    then have "b = word_of_nat (tag_class tag * 32 + k) \<longleftrightarrow> unat b = tag_class tag * 32 + k"
      by (simp add: u8_eq_iff del: of_nat_add of_nat_mult)
    then show ?thesis using that by auto
  qed
  show ?thesis
    using b [of 31] b [of "tag_num tag"] b128.dec_iff [of cs "word_of_nat (tag_num tag)" rest] n64
    unfolding Cons parse_asn1_tag_Cons der_tag_def
    by (auto simp del: of_nat_add of_nat_mult)
qed

interpretation tagc: canonical_codec der_tag parse_asn1_tag valid_tag
  by unfold_locales (auto simp: parse_asn1_tag_iff der_tag_def)

section \<open>Length octets\<close>

text \<open>\<open>be_min n\<close> is the shortest big-endian representation of \<open>n\<close>.\<close>

fun be_min :: "nat \<Rightarrow> u8 list" where
  "be_min n = (if n = 0 then [] else be_min (n div 256) @ [word_of_nat n])"

declare be_min.simps [simp del]

lemma be_min_0 [simp]: "be_min 0 = []"
  by (simp add: be_min.simps)

lemma be_nat_be_min [simp, be_simps]: "be_nat (be_min n) = n"
proof (induction n rule: be_min.induct)
  case (1 n)
  then show ?case by (subst be_min.simps) (simp add: be_nat_snoc unat_word_of_nat_u8)
qed

lemma be_min_hd: "n \<noteq> 0 \<Longrightarrow> hd (be_min n) \<noteq> 0"
proof (induction n rule: be_min.induct)
  case (1 n)
  show ?case
  proof (cases "n div 256 = 0")
    case True
    then have "be_min n = [word_of_nat n]" "n < 256" using 1(2) by (auto simp: be_min.simps [of n])
    then show ?thesis using 1(2) by (simp add: word_unat_eq_iff unat_word_of_nat_u8)
  next
    case False
    then have "be_min (n div 256) \<noteq> []" by (simp add: be_min.simps [of "n div 256"])
    with 1 False show ?thesis by (simp add: be_min.simps [of n])
  qed
qed

lemma be_nat_lead:
  assumes "bs \<noteq> []"
  shows "be_nat bs div 256 ^ (length bs - 1) = unat (hd bs)"
proof -
  from assms obtain b cs where bs: "bs = b # cs" by (cases bs) auto
  show ?thesis using be_nat_bound [of cs] by (simp add: bs be_nat_Cons)
qed

lemma be_min_be_nat: "bs = [] \<or> hd bs \<noteq> 0 \<Longrightarrow> be_min (be_nat bs) = bs"
proof (induction bs rule: rev_induct)
  case (snoc b bs)
  have "be_nat (bs @ [b]) \<noteq> 0"
    using be_nat_lead [of "bs @ [b]"] snoc.prems by (metis append_is_Nil_conv div_0 list.discI unat_eq_zero)
  moreover have "be_nat (bs @ [b]) div 256 = be_nat bs"
    by (simp add: be_nat_snoc)
  moreover have "bs = [] \<or> hd bs \<noteq> 0" using snoc.prems by (cases bs) auto
  moreover have "(word_of_nat (be_nat (bs @ [b])) :: u8) = b"
    by (simp add: word_unat_eq_iff [of _ b] unat_word_of_nat_u8 be_nat_snoc del: of_nat_add of_nat_mult)
  ultimately show ?case using snoc.IH by (subst be_min.simps) simp
qed simp

lemma length_be_min_le: "n < 256 ^ k \<Longrightarrow> length (be_min n) \<le> k"
proof (rule ccontr)
  assume n: "n < 256 ^ k" and "\<not> length (be_min n) \<le> k"
  then have k: "k \<le> length (be_min n) - 1" and ne: "be_min n \<noteq> []" by auto
  then have "n \<noteq> 0" by (metis be_min_0)
  have "n div 256 ^ (length (be_min n) - 1) = unat (hd (be_min n))"
    using be_nat_lead [OF ne] by simp
  moreover have "n < 256 ^ (length (be_min n) - 1)"
    using n k by (meson less_le_trans one_le_numeral power_increasing)
  ultimately show False using be_min_hd [OF \<open>n \<noteq> 0\<close>] by (simp add: word_unat_eq_iff)
qed

lemma be_min_pos: "n \<noteq> 0 \<Longrightarrow> 0 < length (be_min n)"
  by (simp add: be_min.simps)

definition der_length :: "nat \<Rightarrow> u8 list" where
  "der_length n =
     (if n < 128 then [word_of_nat n] else word_of_nat (128 + length (be_min n)) # be_min n)"

lemma der_length_long:
  assumes "0 < k" "k < 128" "length bs = k" "unat lb = 128 + k"
  shows "der_length (be_nat bs) = lb # bs \<longleftrightarrow> 128 \<le> be_nat bs \<and> be_nat bs div 256 ^ (k - 1) \<noteq> 0"
proof -
  have ne: "bs \<noteq> []" using assms by auto
  have lead: "be_nat bs div 256 ^ (k - 1) \<noteq> 0 \<longleftrightarrow> hd bs \<noteq> 0"
    using be_nat_lead [OF ne] assms(3) by (simp add: word_unat_eq_iff)
  have lb: "lb = word_of_nat (128 + k)" using assms by (simp add: u8_eq_iff del: of_nat_add)
  have "der_length (be_nat bs) = lb # bs \<longleftrightarrow> 128 \<le> be_nat bs \<and> be_min (be_nat bs) = bs"
    using ne lb assms(3) by (auto simp: der_length_def simp del: of_nat_add)
  moreover have "be_min (be_nat bs) = bs \<longleftrightarrow> hd bs \<noteq> 0" if "128 \<le> be_nat bs"
    using be_min_be_nat [of bs] be_min_hd [of "be_nat bs"] that ne by auto
  ultimately show ?thesis using lead by auto
qed

section \<open>Elements\<close>

definition der_tlv :: "CBS_ASN1_TAG \<Rightarrow> u8 list \<Rightarrow> u8 list" where
  "der_tlv tag body = der_tag tag @ der_length (length body) @ body"

definition der_element :: "CBS_ASN1_TAG \<Rightarrow> u8 list \<Rightarrow> asn1_element" where
  "der_element tag body =
     \<lparr>el_out = der_tlv tag body, el_tag = tag,
      el_header_len = length (der_tag tag) + length (der_length (length body)),
      el_ber_found = False, el_indefinite = False\<rparr>"

lemma length_base128_high: "n < 128 ^ k \<Longrightarrow> length (base128_high n) \<le> k"
proof (induction k arbitrary: n)
  case (Suc k)
  show ?case
  proof (cases "n = 0")
    case False
    have "n div 128 < 128 ^ k" using Suc.prems by (simp add: less_mult_imp_div_less mult.commute)
    with Suc.IH [of "n div 128"] show ?thesis by (simp add: base128_high.simps [of n])
  qed simp
qed simp

lemma length_der_tag: "length (der_tag tag) \<le> 6"
proof -
  have "tag_num tag div 128 < 128 ^ 4"
    by (rule less_mult_imp_div_less) (simp add: tag_num_def less_le_trans [OF mod_less_divisor])
  from length_base128_high [OF this] show ?thesis by (simp add: der_tag_def base128_def)
qed

text \<open>Elements parsed without the BER liberties, one case of the length octet at a time.\<close>

lemma any_asn1_element_tag:
  "fst (parse_asn1_tag cbs) = None \<Longrightarrow> cbs_get_any_asn1_element ber_ok cbs = (None, cbs)"
  by (auto simp: cbs_get_any_asn1_element_def split: prod.splits)

lemma any_asn1_element_short:
  assumes "valid_tag tag" "unat lb < 128"
  shows "cbs_get_any_asn1_element False (der_tag tag @ lb # hs) =
     (if length hs < unat lb then (None, der_tag tag @ lb # hs)
      else (Some (der_element tag (take (unat lb) hs)), drop (unat lb) hs))"
proof -
  have lb: "lb AND 0x80 = 0" using assms(2) by (simp add: u8_top_bit)
  have dl: "unat lb \<le> length hs \<Longrightarrow> der_length (length (take (unat lb) hs)) = [lb]"
    using assms(2) by (simp add: der_length_def min_def)
  show ?thesis
    using dl lb assms(1)
    by (auto simp: cbs_get_any_asn1_element_def tagc.dec_enc CBS_len_def CBS_get_bytes_eq cbs_get_def
        der_element_def der_tlv_def min_def)
qed

lemma any_asn1_element_long:
  assumes "valid_tag tag" "unat lb = 128 + k"
  shows "cbs_get_any_asn1_element False (der_tag tag @ lb # hs) =
     (let n = be_nat (take k hs); body = drop k hs in
      if 0 < k \<and> k \<le> 4 \<and> k \<le> length hs \<and> der_length n = lb # take k hs \<and> n \<le> length body
      then (Some (der_element tag (take n body)), drop n body)
      else (None, der_tag tag @ lb # hs))"
proof -
  have lb: "lb AND 0x80 \<noteq> 0" using assms(2) by (simp add: u8_top_bit)
  have k: "k < 128" using unat_u8_less [of lb] assms(2) by linarith
  then have nb: "unat (lb AND 0x7f) = k" using assms(2) by (simp add: u8_masks)
  define cbs where "cbs = der_tag tag @ lb # hs"
  have p: "parse_asn1_tag cbs = (Some tag, lb # hs)" unfolding cbs_def using assms(1) by (rule tagc.dec_enc)
  have hl: "CBS_len cbs - CBS_len hs = length (der_tag tag) + 1" by (simp add: cbs_def CBS_len_def)
  show ?thesis
  proof (cases "0 < k \<and> k \<le> 4 \<and> k \<le> length hs")
    case False
    then show ?thesis
      unfolding cbs_def [symmetric]
      by (auto simp: cbs_get_any_asn1_element_def p Let_def lb nb cbs_get_u_def cbs_get_def CBS_len_def)
  next
    case True
    define n where "n = be_nat (take k hs)"
    define v where "v = cbs_u_loop 0 (take k hs)"
    have uv: "unat v = n" using True by (simp add: v_def n_def unat_cbs_u_loop_0)
    have n32: "n < 2 ^ 32"
    proof -
      have "n < 256 ^ k" using be_nat_bound [of "take k hs"] True by (simp add: n_def)
      also have "\<dots> \<le> 256 ^ 4" using True by (intro power_increasing) auto
      finally show ?thesis by simp
    qed
    have gu: "cbs_get_u k hs = (Some v, drop k hs)"
      using True by (simp add: cbs_get_u_def cbs_get_def CBS_len_def v_def)
    have ovf: "\<not> size_add (size_add n (length (der_tag tag) + 1)) k < n"
      using n32 length_der_tag [of tag] True by (simp add: size_add_exact size_mod_def)
    have canon: "(v < 128 \<or> drop_bit ((k - 1) * 8) v = 0) \<longleftrightarrow> der_length n \<noteq> lb # take k hs"
    proof -
      have "(2 :: nat) ^ ((k - 1) * 8) = 256 ^ (k - 1)" by (subst mult.commute) (simp add: power_mult)
      then have "drop_bit ((k - 1) * 8) v = 0 \<longleftrightarrow> n div 256 ^ (k - 1) = 0"
        by (simp only: word_unat_eq_iff unat_drop_bit uv unat_0)
      moreover have "v < 128 \<longleftrightarrow> n < 128" by (simp add: word_less_nat_alt uv)
      ultimately show ?thesis
        using der_length_long [of k "take k hs" lb] True k assms(2) by (auto simp: n_def)
    qed
    have el: "n \<le> length hs - k \<Longrightarrow> der_length n = lb # take k hs \<Longrightarrow>
        der_element tag (take n (drop k hs)) =
          \<lparr>el_out = take (n + (length (der_tag tag) + 1) + k) cbs, el_tag = tag,
           el_header_len = length (der_tag tag) + 1 + k, el_ber_found = False, el_indefinite = False\<rparr>"
      using True by (simp add: der_element_def der_tlv_def cbs_def min_def add.commute take_add)
    have dr: "drop (n + (length (der_tag tag) + 1) + k) cbs = drop n (drop k hs)"
      by (simp add: cbs_def)
    have le: "CBS_len cbs < n + (length (der_tag tag) + 1) + k \<longleftrightarrow> length hs - k < n"
      using True by (auto simp: cbs_def CBS_len_def)
    have "cbs_get_any_asn1_element False cbs =
      (if v < 128 \<or> drop_bit ((k - 1) * 8) v = 0 then (None, cbs)
       else if length hs - k < n then (None, cbs)
       else (Some \<lparr>el_out = take (n + (length (der_tag tag) + 1) + k) cbs, el_tag = tag,
           el_header_len = length (der_tag tag) + 1 + k, el_ber_found = False, el_indefinite = False\<rparr>,
           drop (n + (length (der_tag tag) + 1) + k) cbs))"
      unfolding cbs_get_any_asn1_element_def p Let_def hl nb gu uv CBS_get_bytes_eq cbs_get_def
        CBS_get_u8_simps prod.case option.case
      using True lb ovf le hl nb gu uv by auto
    then show ?thesis unfolding canon dr
      using True el by (auto simp: cbs_def n_def [symmetric] Let_def)
  qed
qed

lemma der_length_bytes:
  assumes "n < 2 ^ 32"
  obtains lb bs where "der_length n = lb # bs" "unat lb < 128" "bs = []" "unat lb = n"
  | lb bs k where "der_length n = lb # bs" "unat lb = 128 + k" "0 < k" "k \<le> 4" "length bs = k" "be_nat bs = n"
proof (cases "n < 128")
  case True
  then show ?thesis using that(1) by (simp add: der_length_def unat_word_of_nat_u8)
next
  case False
  have k: "length (be_min n) \<le> 4" using assms by (intro length_be_min_le) simp
  then have "unat (word_of_nat (128 + length (be_min n)) :: u8) = 128 + length (be_min n)"
    by (simp add: unat_word_of_nat_u8 del: of_nat_add)
  then show ?thesis using that(2) False k be_min_pos [of n] by (simp add: der_length_def del: of_nat_add)
qed

lemma any_asn1_element_enc:
  assumes "valid_tag tag" "length body < 2 ^ 32"
  shows "cbs_get_any_asn1_element False (der_tlv tag body @ rest) = (Some (der_element tag body), rest)"
  using assms(2)
proof (cases rule: der_length_bytes)
  case (1 lb bs)
  then show ?thesis using any_asn1_element_short [OF assms(1), of lb "body @ rest"]
    by (simp add: der_tlv_def)
next
  case (2 lb bs k)
  then show ?thesis using any_asn1_element_long [OF assms(1), of lb k "bs @ body @ rest"]
    by (simp add: der_tlv_def)
qed

lemma any_asn1_element_cases:
  obtains (fail) "cbs_get_any_asn1_element False cbs = (None, cbs)"
  | (ok) tag body rest where "valid_tag tag" "length body < 2 ^ 32" "cbs = der_tlv tag body @ rest"
      "cbs_get_any_asn1_element False cbs = (Some (der_element tag body), rest)"
proof (cases "fst (parse_asn1_tag cbs)")
  case None
  then show ?thesis using any_asn1_element_tag fail by blast
next
  case (Some tag)
  then obtain hd where p: "parse_asn1_tag cbs = (Some tag, hd)" by (cases "parse_asn1_tag cbs") auto
  then have v: "valid_tag tag" and cbs: "cbs = der_tag tag @ hd" by (auto simp: parse_asn1_tag_iff)
  show ?thesis
  proof (cases hd)
    case Nil
    then show ?thesis using fail p by (simp add: cbs_get_any_asn1_element_def)
  next
    case (Cons lb hs)
    show ?thesis
    proof (cases "unat lb < 128")
      case True
      have e: "der_length (length (take (unat lb) hs)) = [lb]" if "unat lb \<le> length hs"
        using True that by (simp add: der_length_def min_def)
      have "cbs = der_tlv tag (take (unat lb) hs) @ drop (unat lb) hs" if "unat lb \<le> length hs"
        using e [OF that] by (simp add: cbs Cons der_tlv_def)
      then show ?thesis
        using any_asn1_element_short [OF v True, of hs] True fail ok [OF v, of "take (unat lb) hs"]
        by (cases "length hs < unat lb") (auto simp: cbs Cons)
    next
      case False
      then obtain k where lb: "unat lb = 128 + k" using le_Suc_ex by (metis not_less)
      define n body where "n = be_nat (take k hs)" and "body = drop k hs"
      note long = any_asn1_element_long [OF v lb, of hs, unfolded Let_def, folded n_def body_def]
      show ?thesis
      proof (cases "0 < k \<and> k \<le> 4 \<and> k \<le> length hs \<and> der_length n = lb # take k hs \<and> n \<le> length body")
        case True
        then have "n < 256 ^ k" using be_nat_bound [of "take k hs"] by (simp add: n_def)
        also have "\<dots> \<le> 256 ^ 4" using True by (intro power_increasing) auto
        finally have "n < 2 ^ 32" by simp
        moreover have "hs = take k hs @ body" by (simp add: body_def)
        then have "cbs = der_tlv tag (take n body) @ drop n body"
          using True by (simp add: cbs Cons der_tlv_def)
        ultimately show ?thesis
          using long True ok [OF v, of "take n body" "drop n body"] by (simp add: cbs Cons)
      next
        case False
        then show ?thesis using long fail by (simp add: cbs Cons)
      qed
    qed
  qed
qed

lemma el_simps [simp]:
  "el_tag (der_element tag body) = tag" "el_out (der_element tag body) = der_tlv tag body"
  by (simp_all add: der_element_def)

lemma skip_der_header [simp]:
  "CBS_skip (el_header_len (der_element tag body)) (der_tlv tag body) = (True, body)"
  using CBS_skip_append [of "der_tag tag @ der_length (length body)"]
  by (simp add: der_element_def der_tlv_def)

lemma der_tlv_append_eq:
  assumes "valid_tag tag" "length body < 2 ^ 32" "valid_tag tag'" "length body' < 2 ^ 32"
  shows "der_tlv tag body @ r = der_tlv tag' body' @ r' \<longleftrightarrow> tag = tag' \<and> body = body' \<and> r = r'"
proof
  assume eq: "der_tlv tag body @ r = der_tlv tag' body' @ r'"
  from any_asn1_element_enc [OF assms(1,2), of r] any_asn1_element_enc [OF assms(3,4), of r']
  have el: "der_element tag body = der_element tag' body'" and "r = r'" by (simp_all add: eq)
  moreover from el have "tag = tag'" "body = body'"
    by (metis el_simps(1)) (metis el el_simps(2) prod.inject skip_der_header)
  ultimately show "tag = tag' \<and> body = body' \<and> r = r'" by simp
qed simp

lemma any_asn1_element_iff:
  "CBS_get_any_asn1_element cbs = (Some el, rest) \<longleftrightarrow>
   (\<exists>tag body. valid_tag tag \<and> length body < 2 ^ 32 \<and> el = der_element tag body
      \<and> cbs = der_tlv tag body @ rest)"
  unfolding CBS_get_any_asn1_element_def
  by (cases cbs rule: any_asn1_element_cases) (auto simp: any_asn1_element_enc der_tlv_append_eq)

lemma any_asn1_element_fail: "CBS_get_any_asn1_element cbs = (None, rest) \<Longrightarrow> rest = cbs"
  unfolding CBS_get_any_asn1_element_def by (cases cbs rule: any_asn1_element_cases) auto

lemma get_any_asn1_iff:
  "CBS_get_any_asn1 cbs = (Some (body, tag), rest) \<longleftrightarrow>
   valid_tag tag \<and> length body < 2 ^ 32 \<and> cbs = der_tlv tag body @ rest"
  unfolding CBS_get_any_asn1_def CBS_get_any_asn1_element_def
  by (cases cbs rule: any_asn1_element_cases) (auto simp: any_asn1_element_enc der_tlv_append_eq)

interpretation tlv: canonical_codec "\<lambda>(body, tag). der_tlv tag body" CBS_get_any_asn1
  "\<lambda>(body, tag). valid_tag tag \<and> length body < 2 ^ 32"
  by unfold_locales (auto simp: get_any_asn1_iff der_tlv_def der_length_def)

lemma get_asn1_iff:
  "CBS_get_asn1 tag cbs = (Some body, rest) \<longleftrightarrow>
   valid_tag tag \<and> length body < 2 ^ 32 \<and> cbs = der_tlv tag body @ rest"
  unfolding CBS_get_asn1_def cbs_get_asn1_def CBS_get_any_asn1_element_def
  by (cases cbs rule: any_asn1_element_cases) (auto simp: any_asn1_element_enc der_tlv_append_eq)

lemma get_asn1_element_iff:
  "CBS_get_asn1_element tag cbs = (Some el, rest) \<longleftrightarrow>
   (\<exists>body. valid_tag tag \<and> length body < 2 ^ 32 \<and> el = der_tlv tag body \<and> cbs = el @ rest)"
  unfolding CBS_get_asn1_element_def cbs_get_asn1_def CBS_get_any_asn1_element_def
  by (cases cbs rule: any_asn1_element_cases) (auto simp: any_asn1_element_enc der_tlv_append_eq)

text \<open>A mismatching tag is reported after the element has been consumed.\<close>

lemma get_asn1_mismatch:
  assumes "valid_tag tag" "length body < 2 ^ 32" "tag \<noteq> tag'"
  shows "CBS_get_asn1 tag' (der_tlv tag body @ rest) = (None, rest)"
  using assms by (simp add: CBS_get_asn1_def cbs_get_asn1_def CBS_get_any_asn1_element_def any_asn1_element_enc)

end
