(* ===== verification/Der_Values.thy ===== *)
theory Der_Values
  imports Der
begin

text \<open>
  The values inside DER elements: integers (minimal two's complement), booleans, object identifiers,
  bit strings and decimal numbers. Each section gives the abstract encoding first and then shows that
  the parser of \<open>cbs.c\<close> accepts exactly it.
\<close>

section \<open>Unsigned integers\<close>

definition der_uint :: "nat \<Rightarrow> u8 list" where
  "der_uint n = (let bs = be_min n in if bs = [] \<or> 128 \<le> unat (hd bs) then 0 # bs else bs)"

lemma be_nat_der_uint [simp]: "be_nat (der_uint n) = n"
  by (simp add: der_uint_def Let_def be_nat_Cons)

lemma der_uint_hd: "unat (hd (der_uint n)) < 128"
  by (auto simp: der_uint_def Let_def not_le)

lemma der_uint_nonempty [simp]: "der_uint n \<noteq> []"
  by (simp add: der_uint_def Let_def)

lemma is_unsigned_iff: "CBS_is_unsigned_asn1_integer bs \<longleftrightarrow> der_uint (be_nat bs) = bs"
proof (cases bs)
  case Nil
  then show ?thesis by (simp add: CBS_is_unsigned_asn1_integer_def CBS_is_valid_asn1_integer_def)
next
  case b: (Cons b cs)
  have b0: "b = 0 \<longleftrightarrow> unat b = 0" by (simp add: word_unat_eq_iff)
  show ?thesis
  proof (cases "b = 0")
    case True
    have n: "be_nat bs = be_nat cs" by (simp add: b True be_nat_Cons)
    show ?thesis
    proof (cases cs)
      case Nil
      then show ?thesis unfolding n
        by (simp add: b True CBS_is_unsigned_asn1_integer_def CBS_is_valid_asn1_integer_def der_uint_def)
    next
      case (Cons c ds)
      have "CBS_is_unsigned_asn1_integer bs \<longleftrightarrow> 128 \<le> unat c"
        by (auto simp: b True Cons CBS_is_unsigned_asn1_integer_def CBS_is_valid_asn1_integer_def u8_top_bit)
      also have "\<dots> \<longleftrightarrow> der_uint (be_nat cs) = 0 # cs"
      proof
        assume "128 \<le> unat c"
        then have "be_min (be_nat cs) = cs" by (intro be_min_be_nat) (auto simp: Cons)
        with \<open>128 \<le> unat c\<close> show "der_uint (be_nat cs) = 0 # cs" by (simp add: der_uint_def Cons)
      next
        assume d: "der_uint (be_nat cs) = 0 # cs"
        have "be_min (be_nat cs) = cs"
        proof (cases "be_min (be_nat cs) = [] \<or> 128 \<le> unat (hd (be_min (be_nat cs)))")
          case True
          then show ?thesis using d by (simp add: der_uint_def)
        next
          case False
          then have "be_min (be_nat cs) = 0 # cs" using d by (simp add: der_uint_def)
          then show ?thesis using be_min_hd [of "be_nat cs"] False by (metis be_min_0 list.sel(1))
        qed
        then show "128 \<le> unat c"
          using d by (auto simp: der_uint_def Cons Let_def split: if_splits)
      qed
      finally show ?thesis unfolding n by (simp add: b True)
    qed
  next
    case False
    then have m: "be_min (be_nat bs) = bs" by (intro be_min_be_nat) (simp add: b)
    have "CBS_is_unsigned_asn1_integer bs \<longleftrightarrow> unat b < 128"
      using False
      by (cases cs) (auto simp: b CBS_is_unsigned_asn1_integer_def CBS_is_valid_asn1_integer_def u8_top_bit)
    then show ?thesis using m by (auto simp: der_uint_def b)
  qed
qed

lemma asn1_uint64_loop_eq:
  "asn1_uint64_loop out bs =
     (let n = unat out * 256 ^ length bs + be_nat bs
      in if n < 2 ^ 64 then Some (word_of_nat n) else None)"
proof (induction bs arbitrary: out)
  case Nil
  have "unat out < 2 ^ 64" using unat_lt [of out] by simp
  then show ?case by (simp add: Let_def)
next
  case (Cons b bs)
  have b: "unat (ucast b :: u64) = unat b" by (simp add: unat_ucast_up)
  define n where "n = (unat out * 256 + unat b) * 256 ^ length bs + be_nat bs"
  have n: "n = unat out * 256 ^ length (b # bs) + be_nat (b # bs)"
    by (simp add: n_def be_nat_Cons algebra_simps)
  show ?case
  proof (cases "unat out < 2 ^ 56")
    case True
    then have "unat (push_bit 8 out OR ucast b) = unat out * 256 + unat b"
      using unat_shift_in [of out 8 "ucast b"] b unat_u8_less [of b] by simp
    moreover have "drop_bit 56 out = 0"
      using True by (simp add: word_unat_eq_iff unat_drop_bit div_eq_0_iff)
    ultimately show ?thesis using Cons.IH n by (simp add: Let_def n_def)
  next
    case False
    then have "drop_bit 56 out \<noteq> 0"
      by (simp add: word_unat_eq_iff unat_drop_bit div_eq_0_iff)
    moreover have "2 ^ 64 \<le> n"
    proof -
      have "2 ^ 64 \<le> (unat out * 256 + unat b) * 1" using False by simp
      also have "\<dots> \<le> (unat out * 256 + unat b) * 256 ^ length bs" by (intro mult_le_mono2) simp
      finally show ?thesis by (simp add: n_def)
    qed
    ultimately show ?thesis using n by (simp add: Let_def)
  qed
qed

lemma valid_tags [simp]:
  "valid_tag CBS_ASN1_INTEGER" "valid_tag CBS_ASN1_BOOLEAN" "valid_tag CBS_ASN1_OCTETSTRING"
  by (simp_all add: valid_tag_def constructed_val CBS_ASN1_INTEGER_def CBS_ASN1_BOOLEAN_def
      CBS_ASN1_OCTETSTRING_def)

lemma length_der_uint: "n < 256 ^ k \<Longrightarrow> length (der_uint n) \<le> Suc k"
  using length_be_min_le [of n k] by (simp add: der_uint_def Let_def)

lemma get_asn1_uint64_iff:
  "CBS_get_asn1_uint64 cbs = (Some v, rest) \<longleftrightarrow>
   cbs = der_tlv CBS_ASN1_INTEGER (der_uint (unat v)) @ rest"
proof
  assume "CBS_get_asn1_uint64 cbs = (Some v, rest)"
  then obtain bs where bs: "cbs = der_tlv CBS_ASN1_INTEGER bs @ rest"
    and u: "der_uint (be_nat bs) = bs" and l: "asn1_uint64_loop 0 bs = Some v"
    by (auto simp: CBS_get_asn1_uint64_def cbs_bind_Some_iff get_asn1_iff is_unsigned_iff split: if_splits)
  from l have "unat v = be_nat bs"
    by (auto simp: asn1_uint64_loop_eq Let_def unat_of_nat split: if_splits)
  with bs u show "cbs = der_tlv CBS_ASN1_INTEGER (der_uint (unat v)) @ rest" by simp
next
  assume cbs: "cbs = der_tlv CBS_ASN1_INTEGER (der_uint (unat v)) @ rest"
  have v: "unat v < 2 ^ 64" using unat_lt [of v] by simp
  have "CBS_get_asn1 CBS_ASN1_INTEGER cbs = (Some (der_uint (unat v)), rest)"
    using length_der_uint [of "unat v" 8] v by (simp add: get_asn1_iff cbs)
  then show "CBS_get_asn1_uint64 cbs = (Some v, rest)"
    using v by (simp add: CBS_get_asn1_uint64_def is_unsigned_iff asn1_uint64_loop_eq)
qed

section \<open>Signed integers\<close>

text \<open>A negative number is the complement of the non-negative number \<open>- i - 1\<close>.\<close>

definition der_int :: "int \<Rightarrow> u8 list" where
  "der_int i = (if 0 \<le> i then der_uint (nat i) else map NOT (der_uint (nat (- i - 1))))"

lemma unat_not: "unat (NOT (b :: 'a::len word)) = 2 ^ LENGTH('a) - 1 - unat b"
proof -
  have le: "unat b \<le> 2 ^ LENGTH('a) - 1" using unat_lt [of b] by linarith
  have "NOT b = - 1 - b" by (simp add: not_eq_complement)
  moreover have "unat (- 1 - b) = unat (- 1 :: 'a word) - unat b"
    by (rule unat_sub) (use le in \<open>simp add: word_le_nat_alt unsigned_minus_1_eq_mask mask_eq_exp_minus_1\<close>)
  ultimately show ?thesis by (simp add: unsigned_minus_1_eq_mask mask_eq_exp_minus_1)
qed

lemma be_nat_map_not: "be_nat (map NOT bs) + be_nat bs + 1 = 256 ^ length bs"
proof (induction bs rule: rev_induct)
  case (snoc b bs)
  have "unat (NOT b) + unat b = 255" using unat_u8_less [of b] by (simp add: unat_not del: unat_u8_less)
  with snoc show ?case by (simp add: be_nat_snoc)
qed simp

lemma map_not_not [simp]: "map NOT (map NOT (bs :: u8 list)) = bs"
  by (simp add: comp_def)


lemma bit_bswap4:
  assumes "n < 32"
  shows "bit (CRYPTO_bswap4 x) n = bit x (24 - 8 * (n div 8) + n mod 8)"
proof -
  have l: "[0..<32] = [0, 1, 2, 3, 4, 5, 6, 7, 8, 9, 10, 11, 12, 13, 14, 15,
      16, 17, 18, 19, 20, 21, 22, 23, 24, 25, 26, 27, 28, 29, 30, 31 :: nat]" by code_simp
  have hi: "\<not> bit x (numeral k)" if "32 \<le> (numeral k :: nat)" for k
    using that by (auto dest: bit_imp_le_length)
  have "list_all (\<lambda>n. bit (CRYPTO_bswap4 x) n = bit x (24 - 8 * (n div 8) + n mod 8)) [0..<32]"
    unfolding CRYPTO_bswap4_def Let_def l by (simp add: bit_simps hi numeral_2_eq_2 [symmetric])
  then show ?thesis using assms by (simp add: list_all_iff)
qed

lemma bit_bswap8:
  assumes "n < 64"
  shows "bit (CRYPTO_bswap8 x) n = bit x (56 - 8 * (n div 8) + n mod 8)"
proof (cases "n < 32")
  case True
  then have "n div 8 < 4" by simp
  then have e: "32 + (24 - 8 * (n div 8) + n mod 8) = 56 - 8 * (n div 8) + n mod 8"
    and l: "24 - 8 * (n div 8) + n mod 8 < 32" using mod_less_divisor [of 8 n] by linarith+
  from True have "bit (CRYPTO_bswap8 x) n = bit (ucast (drop_bit 32 x) :: u32) (24 - 8 * (n div 8) + n mod 8)"
    by (simp add: CRYPTO_bswap8_def bit_simps bit_bswap4)
  also have "\<dots> = bit x (56 - 8 * (n div 8) + n mod 8)"
    unfolding e [symmetric] using l by (simp only: bit_simps) simp
  finally show ?thesis .
next
  case False
  define m where "m = n - 32"
  have n: "n = m + 32" "m < 32" using False assms by (simp_all add: m_def)
  then have "m div 8 < 4" by simp
  then have "24 - 8 * (m div 8) + m mod 8 < 32" using mod_less_divisor [of 8 m] by linarith
  moreover have "(m + 32) div 8 = m div 8 + 4" "(m + 32) mod 8 = m mod 8" by simp presburger
  moreover have "\<not> bit y (m + 32)" for y :: u32 by (auto dest: bit_imp_le_length)
  ultimately show ?thesis using n by (simp add: CRYPTO_bswap8_def bit_simps bit_bswap4)
qed

lemma bit_cbs_u_loop:
  "n < 64 \<Longrightarrow> bit (cbs_u_loop r bs) n =
     (if n < 8 * length bs then bit (rev bs ! (n div 8)) (n mod 8) else bit r (n - 8 * length bs))"
proof (induction bs arbitrary: r)
  case (Cons b bs)
  have "n < 8 * length (b # bs) \<longleftrightarrow> n div 8 < length (b # bs)" by auto
  show ?case
  proof (cases "n < 8 * length bs")
    case True
    then have "n div 8 < length bs" by auto
    with True Cons show ?thesis by (simp add: nth_append)
  next
    case False
    show ?thesis
    proof (cases "n < 8 * length (b # bs)")
      case True
      with False have d: "n div 8 = length bs" by auto
      then have m: "n - 8 * length bs = n mod 8" by (metis minus_mult_div_eq_mod)
      have "\<not> 8 \<le> n mod 8" "n mod 8 < 64" using mod_less_divisor [of 8 n] by linarith+
      with True False d Cons m show ?thesis by (simp add: bit_simps nth_append)
    next
      case F: False
      then have "\<not> bit b (n - 8 * length bs)" by (auto dest: bit_imp_le_length)
      moreover have "8 \<le> n - 8 * length bs" "n - (8 * length bs + 8) = n - 8 * length (b # bs)"
        "n - 8 * length bs < 64" using F Cons.prems by simp_all
      ultimately show ?thesis using F False Cons by (simp add: bit_simps)
    qed
  qed
qed simp

lemma bswap8_rev:
  assumes "length p = 8"
  shows "CRYPTO_bswap8 (cbs_u_loop 0 (rev p)) = cbs_u_loop 0 p"
proof (rule bit_word_eqI)
  fix n assume "n < LENGTH(64)"
  then have n: "n < 64" and d: "n div 8 < 8" by simp_all
  define m where "m = 56 - 8 * (n div 8) + n mod 8"
  have m: "m = 8 * (7 - n div 8) + n mod 8" using d by (simp add: m_def diff_mult_distrib2)
  then have dm: "m div 8 = 7 - n div 8" "m mod 8 = n mod 8" by simp_all
  have "m < 64" using m mod_less_divisor [of 8 n] by linarith
  then show "bit (CRYPTO_bswap8 (cbs_u_loop 0 (rev p))) n = bit (cbs_u_loop 0 p) n"
    using n d assms by (simp add: bit_bswap8 m_def [symmetric] bit_cbs_u_loop dm rev_nth)
qed

lemma unat_load_u64_be: "length p = 8 \<Longrightarrow> unat (CRYPTO_load_u64_be p) = be_nat p"
  by (simp add: CRYPTO_load_u64_be_def bswap8_rev unat_cbs_u_loop_0)

text \<open>The encodings of negative numbers are the complements of the encodings of unsigned ones.\<close>

lemma is_valid_integer_not:
  "CBS_is_valid_asn1_integer (map NOT bs) = map_option Not (CBS_is_valid_asn1_integer bs)"
proof -
  have top: "NOT b AND 0x80 = 0 \<longleftrightarrow> b AND 0x80 \<noteq> 0" for b :: u8
    using unat_u8_less [of b] by (simp add: u8_top_bit unat_not del: unat_u8_less) linarith
  have eq: "NOT b = 0 \<longleftrightarrow> b = 0xff" "NOT b = 0xff \<longleftrightarrow> b = 0" for b :: u8
    using unat_u8_less [of b] by (simp_all add: word_unat_eq_iff unat_not del: unat_u8_less) linarith+
  show ?thesis
  proof (cases bs)
    case (Cons b cs)
    then show ?thesis
      by (cases cs) (auto simp: CBS_is_valid_asn1_integer_def Let_def top eq)
  qed (simp add: CBS_is_valid_asn1_integer_def)
qed

lemma is_valid_integer_iff:
  "CBS_is_valid_asn1_integer bs = Some neg \<longleftrightarrow>
   (if neg then bs = map NOT (der_uint (be_nat (map NOT bs))) else bs = der_uint (be_nat bs))"
proof -
  have u: "CBS_is_valid_asn1_integer cs = Some False \<longleftrightarrow> cs = der_uint (be_nat cs)" for cs
    using is_unsigned_iff [of cs] by (auto simp: CBS_is_unsigned_asn1_integer_def)
  have "CBS_is_valid_asn1_integer bs = Some True \<longleftrightarrow> CBS_is_valid_asn1_integer (map NOT bs) = Some False"
    unfolding is_valid_integer_not by auto
  also have "\<dots> \<longleftrightarrow> map NOT bs = der_uint (be_nat (map NOT bs))" by (rule u)
  also have "\<dots> \<longleftrightarrow> bs = map NOT (der_uint (be_nat (map NOT bs)))" by (metis map_not_not)
  finally show ?thesis using u by (cases neg) auto
qed

lemma der_int_nonneg: "der_int (int n) = der_uint n"
  by (simp add: der_int_def)

lemma der_int_neg: "der_int (- int n - 1) = map NOT (der_uint n)"
  by (simp add: der_int_def)

lemma sint_nonneg: "unat (w :: 64 word) < 2 ^ 63 \<Longrightarrow> sint w = int (unat w)"
proof -
  assume "unat w < 2 ^ 63"
  then have "int (unat w) < int (2 ^ 63)" by (simp only: of_nat_less_iff)
  then have "uint w < 2 ^ 63" unfolding uint_nat by simp
  moreover have "- (2 ^ 63) \<le> uint w" by (rule order_trans [of _ 0]) simp_all
  ultimately have "signed_take_bit 63 (uint w) = uint w" by (intro signed_take_bit_int_eq_self) auto
  moreover have "sint w = signed_take_bit 63 (uint w)" using sint_uint [of w] by simp
  ultimately show ?thesis by simp
qed

lemma sint_not: "sint (NOT (w :: 64 word)) = - sint w - 1"
proof -
  have "sint (NOT w) = NOT (sint w)" by (rule bit_eqI) (auto simp: bit_simps min_def)
  then show ?thesis by (simp add: not_int_def)
qed

text \<open>Sign extension to eight bytes.\<close>

lemma sint_extend:
  assumes len: "length bs \<le> 8" and v: "CBS_is_valid_asn1_integer bs = Some neg"
  defines "w \<equiv> CRYPTO_load_u64_be (replicate (8 - length bs) (if neg then 0xff else 0) @ bs)"
  shows "sint w = (if neg then - int (be_nat (map NOT bs)) - 1 else int (be_nat bs))"
proof -
  let ?p = "replicate (8 - length bs) (if neg then 0xff else 0) @ bs"
  have l8: "length ?p = 8" using len by simp
  have small: "be_nat (replicate k 0 @ cs) < 2 ^ 63"
    if "cs = der_uint (be_nat cs)" "length cs = 8 - k" "k \<le> 8" for k cs
  proof -
    have "cs \<noteq> []" using that(1) der_uint_nonempty [of "be_nat cs"] by metis
    then obtain c ds where cs: "cs = c # ds" by (cases cs) auto
    have "unat c < 128" using der_uint_hd [of "be_nat cs"] that(1) cs by simp
    then have "Suc (unat c) * 256 ^ length ds \<le> 128 * 256 ^ length ds" by (intro mult_le_mono1) simp
    then have "unat c * 256 ^ length ds + be_nat ds < 128 * 256 ^ length ds"
      unfolding mult_Suc using be_nat_bound [of ds] by linarith
    moreover have "length ds \<le> 7" using that cs by simp
    then have "(256 :: nat) ^ length ds \<le> 256 ^ 7" by (intro power_increasing) auto
    ultimately have "be_nat cs < 2 ^ 63" by (simp add: cs be_nat_Cons)
    then show ?thesis by (simp add: be_nat_append be_nat_replicate_0)
  qed
  show ?thesis
  proof (cases neg)
    case False
    then have "be_nat ?p < 2 ^ 63" using small [of bs "8 - length bs"] v len by (simp add: is_valid_integer_iff)
    then show ?thesis using False l8 unfolding w_def
      by (simp add: sint_nonneg unat_load_u64_be be_nat_append be_nat_replicate_0)
  next
    case True
    let ?q = "replicate (8 - length bs) 0 @ map NOT bs"
    have q: "map NOT ?p = ?q" using True by simp
    have "be_nat ?q < 2 ^ 63"
      using small [of "map NOT bs" "8 - length bs"] v len True
      by (simp add: is_valid_integer_iff) (metis map_not_not)
    moreover have "unat (NOT w) = be_nat ?q"
    proof -
      have "be_nat ?q + be_nat ?p + 1 = 256 ^ 8" using be_nat_map_not [of ?p] l8 by (simp only: q)
      moreover have "unat w = be_nat ?p" unfolding w_def by (rule unat_load_u64_be [OF l8])
      ultimately show ?thesis by (simp add: unat_not)
    qed
    ultimately have "sint (NOT w) = int (be_nat ?q)" by (simp add: sint_nonneg)
    then show ?thesis using True by (simp add: sint_not be_nat_append be_nat_replicate_0)
  qed
qed

lemma write_at_extend:
  "length bs \<le> 8 \<Longrightarrow> write_at (8 - length bs) bs (replicate 8 x) = replicate (8 - length bs) x @ bs"
  by (simp add: write_at_def)

lemma cbs_int64_tail:
  "(case CBS_is_valid_asn1_integer bs of None \<Rightarrow> (None, r)
    | Some neg \<Rightarrow> if 8 < length bs then (None, r)
        else (Some (CRYPTO_load_u64_be (write_at (8 - length bs) bs (replicate 8 (if neg then 0xff else 0)))), r))
   = (Some v, rest) \<longleftrightarrow>
   (\<exists>neg. CBS_is_valid_asn1_integer bs = Some neg \<and> length bs \<le> 8 \<and> r = rest
      \<and> v = CRYPTO_load_u64_be (replicate (8 - length bs) (if neg then 0xff else 0) @ bs))"
  by (cases "CBS_is_valid_asn1_integer bs"; cases "length bs \<le> 8") (auto simp only: option.case
      write_at_extend option.inject prod.inject if_False not_less [symmetric] if_True simp_thms option.distinct)

lemma get_asn1_int64_body:
  "CBS_get_asn1_int64 cbs = (Some v, rest) \<longleftrightarrow>
   (\<exists>bs neg. CBS_get_asn1 CBS_ASN1_INTEGER cbs = (Some bs, rest) \<and> CBS_is_valid_asn1_integer bs = Some neg
      \<and> length bs \<le> 8
      \<and> v = CRYPTO_load_u64_be (replicate (8 - length bs) (if neg then 0xff else 0) @ bs))"
  unfolding CBS_get_asn1_int64_def cbs_bind_Some_iff CBS_len_def Let_def cbs_int64_tail by blast

lemma length_der_int64: "length (der_int (sint (v :: i64))) \<le> 8"
proof -
  have *: "length (der_uint n) \<le> 8" if "n < 2 ^ 63" for n
  proof -
    have n: "n < 256 ^ 8" using that by simp
    show ?thesis
    proof (cases "length (be_min n) = 8")
      case True
      then have "n div 256 ^ 7 = unat (hd (be_min n))" using be_nat_lead [of "be_min n"] by force
      moreover have "n div 256 ^ 7 < 128" using that by (intro less_mult_imp_div_less) simp
      ultimately show ?thesis using True by (auto simp: der_uint_def Let_def)
    next
      case False
      then show ?thesis using length_be_min_le [OF n] by (simp add: der_uint_def Let_def)
    qed
  qed
  have r: "- (2 ^ 63) \<le> sint v" "sint v < 2 ^ 63" using sint_range_size [of v] by (simp_all add: word_size)
  show ?thesis using * [of "nat (sint v)"] * [of "nat (- sint v - 1)"] r by (simp add: der_int_def nat_less_iff)
qed

lemma get_asn1_int64_iff:
  "CBS_get_asn1_int64 cbs = (Some v, rest) \<longleftrightarrow>
   cbs = der_tlv CBS_ASN1_INTEGER (der_int (sint v)) @ rest"
proof
  assume "CBS_get_asn1_int64 cbs = (Some v, rest)"
  then obtain bs neg where bs: "cbs = der_tlv CBS_ASN1_INTEGER bs @ rest" "length bs \<le> 8"
    and val: "CBS_is_valid_asn1_integer bs = Some neg"
    and v: "v = CRYPTO_load_u64_be (replicate (8 - length bs) (if neg then 0xff else 0) @ bs)"
    by (auto simp: get_asn1_int64_body get_asn1_iff)
  have "der_int (sint v) = bs"
    using sint_extend [OF bs(2) val] val
    by (cases neg) (simp_all add: v is_valid_integer_iff der_int_neg der_int_nonneg)
  with bs show "cbs = der_tlv CBS_ASN1_INTEGER (der_int (sint v)) @ rest" by simp
next
  assume cbs: "cbs = der_tlv CBS_ASN1_INTEGER (der_int (sint v)) @ rest"
  define bs neg where "bs = der_int (sint v)" and "neg = (sint v < 0)"
  have len: "length bs \<le> 8" unfolding bs_def by (rule length_der_int64)
  have val: "CBS_is_valid_asn1_integer bs = Some neg"
    by (auto simp: is_valid_integer_iff bs_def neg_def der_int_def simp del: map_map)
  then have "sint (CRYPTO_load_u64_be (replicate (8 - length bs) (if neg then 0xff else 0) @ bs)) = sint v"
    using sint_extend [OF len val] by (auto simp: bs_def neg_def der_int_def simp del: map_map)
  then have "v = CRYPTO_load_u64_be (replicate (8 - length bs) (if neg then 0xff else 0) @ bs)"
    by (simp only: word_uint_eq_iff uint_sint)
  moreover have "CBS_get_asn1 CBS_ASN1_INTEGER cbs = (Some bs, rest)"
    using len by (simp add: get_asn1_iff cbs bs_def)
  ultimately show "CBS_get_asn1_int64 cbs = (Some v, rest)"
    unfolding get_asn1_int64_body using len val by blast
qed

section \<open>Booleans\<close>

lemma get_asn1_bool_iff:
  "CBS_get_asn1_bool cbs = (Some v, rest) \<longleftrightarrow>
   cbs = der_tlv CBS_ASN1_BOOLEAN [if v then 0xff else 0] @ rest"
proof
  assume "CBS_get_asn1_bool cbs = (Some v, rest)"
  then obtain bs where "cbs = der_tlv CBS_ASN1_BOOLEAN bs @ rest" "length bs = 1"
    "hd bs = 0 \<or> hd bs = 0xff" "v \<longleftrightarrow> hd bs \<noteq> 0"
    by (auto simp: CBS_get_asn1_bool_def cbs_bind_Some_iff get_asn1_iff CBS_len_def Let_def split: if_splits)
  then show "cbs = der_tlv CBS_ASN1_BOOLEAN [if v then 0xff else 0] @ rest"
    by (cases bs) auto
next
  assume cbs: "cbs = der_tlv CBS_ASN1_BOOLEAN [if v then 0xff else 0] @ rest"
  then have "CBS_get_asn1 CBS_ASN1_BOOLEAN cbs = (Some [if v then 0xff else 0], rest)"
    by (simp add: get_asn1_iff)
  then show "CBS_get_asn1_bool cbs = (Some v, rest)"
    by (simp add: CBS_get_asn1_bool_def CBS_len_def)
qed

section \<open>Object identifiers\<close>

text \<open>The contents of an object identifier are a non-empty sequence of base-128 integers, of any size.\<close>

definition der_oid :: "nat list \<Rightarrow> u8 list" where
  "der_oid arcs = concat (map base128 arcs)"

lemma oid_valid_loop_high:
  "n \<noteq> 0 \<Longrightarrow> unat p < 128 \<Longrightarrow>
   oid_valid_loop p (base128_high n @ cs) = oid_valid_loop (word_of_nat (128 + n mod 128)) cs"
proof (induction n arbitrary: cs rule: base128_high.induct)
  case (1 n)
  define b where "b = (word_of_nat (128 + n mod 128) :: u8)"
  have ub: "unat b = 128 + n mod 128" by (simp add: b_def unat_word_of_nat_u8 del: of_nat_add)
  show ?case
  proof (cases "n div 128 = 0")
    case True
    have "b \<noteq> 0x80" using ub 1(2) True by (auto simp: word_unat_eq_iff)
    then show ?thesis using True 1(2) by (simp add: base128_high.simps [of n] b_def del: of_nat_add)
  next
    case False
    have top: "(word_of_nat (128 + n div 128 mod 128) :: u8) AND 0x80 \<noteq> 0"
      by (simp add: u8_top_bit unat_word_of_nat_u8 del: of_nat_add)
    have "oid_valid_loop p (base128_high n @ cs) =
        oid_valid_loop (word_of_nat (128 + n div 128 mod 128)) (b # cs)"
      using 1 False by (simp add: base128_high.simps [of n] b_def del: of_nat_add)
    then show ?thesis using top by (simp add: b_def del: of_nat_add)
  qed
qed

lemma oid_valid_loop_base128:
  assumes "unat p < 128"
  shows "oid_valid_loop p (base128 n @ cs) = oid_valid_loop (word_of_nat (n mod 128)) cs"
proof -
  have ne: "(word_of_nat (n mod 128) :: u8) \<noteq> 0x80"
    by (simp add: word_unat_eq_iff unat_word_of_nat_u8 less_imp_neq)
  show ?thesis
    using oid_valid_loop_high [of "n div 128" p "word_of_nat (n mod 128) # cs"] assms ne
    by (cases "n div 128 = 0") (auto simp: base128_def u8_top_bit unat_word_of_nat_u8)
qed

lemma oid_valid_loop_der_oid: "unat p < 128 \<Longrightarrow> oid_valid_loop p (der_oid arcs)"
proof (induction arcs arbitrary: p)
  case Nil
  then show ?case by (simp add: der_oid_def u8_top_bit)
next
  case (Cons n arcs)
  have "unat (word_of_nat (n mod 128) :: u8) < 128" by (simp add: unat_word_of_nat_u8)
  with Cons show ?case by (simp add: der_oid_def oid_valid_loop_base128)
qed

text \<open>Conversely, the bytes read since the last complete component are its leading digits.\<close>

lemma oid_valid_loop_split:
  "oid_valid_loop p cs \<Longrightarrow> n \<noteq> 0 \<longleftrightarrow> 128 \<le> unat p \<Longrightarrow>
   cs = [] \<and> n = 0 \<or> (\<exists>arcs. arcs \<noteq> [] \<and> base128_high n @ cs = der_oid arcs)"
proof (induction cs arbitrary: p n)
  case Nil
  then show ?case by (simp add: u8_top_bit)
next
  case (Cons c cs)
  have nz: "\<not> (n = 0 \<and> c = 0x80)" and v: "oid_valid_loop c cs"
    using Cons.prems by (auto simp: u8_top_bit split: if_splits)
  show ?case
  proof (cases "unat c < 128")
    case True
    then have e: "base128_high n @ [c] = base128 (n * 128 + unat c)" by (simp add: base128_snoc)
    from Cons.IH [OF v, of 0] True consider "cs = []" | arcs where "cs = der_oid arcs" by auto
    then show ?thesis
    proof cases
      case 1
      then have "base128_high n @ c # cs = der_oid [n * 128 + unat c]" by (simp add: der_oid_def e)
      then show ?thesis by blast
    next
      case 2
      then have "base128_high n @ c # cs = der_oid ((n * 128 + unat c) # arcs)"
        using e by (simp add: der_oid_def)
      then show ?thesis by blast
    qed
  next
    case False
    define d where "d = unat c - 128"
    have d: "d < 128" "128 + d = unat c" using False unat_u8_less [of c] by (auto simp: d_def simp del: unat_u8_less)
    have "n \<noteq> 0 \<or> d \<noteq> 0" using nz d by (auto simp: word_unat_eq_iff)
    then have e: "base128_high (n * 128 + d) = base128_high n @ [c]"
      using base128_high_snoc [of n d] d by (simp del: of_nat_add)
    have "n * 128 + d \<noteq> 0" using \<open>n \<noteq> 0 \<or> d \<noteq> 0\<close> by auto
    with Cons.IH [OF v, of "n * 128 + d"] False e show ?thesis by auto
  qed
qed

lemma is_valid_oid_iff: "CBS_is_valid_asn1_oid cbs \<longleftrightarrow> (\<exists>arcs. arcs \<noteq> [] \<and> cbs = der_oid arcs)"
proof
  assume v: "CBS_is_valid_asn1_oid cbs"
  then have "cbs \<noteq> []" "oid_valid_loop 0 cbs"
    by (auto simp: CBS_is_valid_asn1_oid_def CBS_len_def split: if_splits)
  with oid_valid_loop_split [of 0 cbs 0] show "\<exists>arcs. arcs \<noteq> [] \<and> cbs = der_oid arcs" by auto
next
  assume "\<exists>arcs. arcs \<noteq> [] \<and> cbs = der_oid arcs"
  then obtain n arcs where cbs: "cbs = der_oid (n # arcs)" by (metis neq_Nil_conv)
  then have "cbs \<noteq> []" by (simp add: der_oid_def base128_def)
  with cbs show "CBS_is_valid_asn1_oid cbs"
    using oid_valid_loop_der_oid [of 0 "n # arcs"] by (simp add: CBS_is_valid_asn1_oid_def CBS_len_def)
qed

section \<open>Decimal numbers\<close>

fun decimal :: "nat \<Rightarrow> u8 list" where
  "decimal n = (if n < 10 then [word_of_nat (48 + n)] else decimal (n div 10) @ [word_of_nat (48 + n mod 10)])"

declare decimal.simps [simp del]

lemma isdigit_iff: "OPENSSL_isdigit (uint (c :: u8)) \<longleftrightarrow> (\<exists>d < 10. c = word_of_nat (48 + d))"
proof -
  have "OPENSSL_isdigit (uint c) \<longleftrightarrow> 48 \<le> unat c \<and> unat c < 58"
    unfolding OPENSSL_isdigit_def uint_nat by linarith
  also have "\<dots> \<longleftrightarrow> (\<exists>d < 10. unat c = 48 + d)" by presburger
  also have "\<dots> \<longleftrightarrow> (\<exists>d < 10. c = word_of_nat (48 + d))"
    by (auto simp: u8_eq_iff simp del: of_nat_add)
  finally show ?thesis .
qed

lemma digit_value:
  assumes "d < 10"
  shows "unat (ucast (word_of_nat (48 + d) :: u8) - 48 :: u64) = d"
proof -
  have "ucast (word_of_nat (48 + d) :: u8) = (word_of_nat (48 + d) :: u64)"
    using assms by (simp add: word_unat_eq_iff unat_ucast_up unat_of_nat del: of_nat_add)
  then show ?thesis using assms by (simp add: unat_of_nat)
qed

text \<open>One round of the loop: the digit is appended unless the value would not fit in 64 bits.\<close>

lemma u64_decimal_step:
  assumes "d < 10"
  shows "(v > 18446744073709551615 div 10 \<or> v * 10 > 18446744073709551615 - (ucast (word_of_nat (48 + d) :: u8) - 48 :: u64))
       \<longleftrightarrow> 2 ^ 64 \<le> unat v * 10 + d"
    and "unat v * 10 + d < 2 ^ 64 \<Longrightarrow>
       v * 10 + (ucast (word_of_nat (48 + d) :: u8) - 48) = (word_of_nat (unat v * 10 + d) :: u64)"
proof -
  define x where "x = (ucast (word_of_nat (48 + d) :: u8) - 48 :: u64)"
  have x: "unat x = d" unfolding x_def using assms by (rule digit_value)
  have m: "unat (18446744073709551615 - x) = 18446744073709551615 - d"
    using assms x by (subst unat_sub) (auto simp: word_le_nat_alt)
  have q: "unat (18446744073709551615 div 10 :: u64) = 1844674407370955161"
    by (simp add: unat_div_distrib)
  show "(v > 18446744073709551615 div 10 \<or> v * 10 > 18446744073709551615 - x) \<longleftrightarrow> 2 ^ 64 \<le> unat v * 10 + d"
  proof (cases "unat v \<le> 1844674407370955161")
    case True
    then have "unat (v * 10) = unat v * 10" by (simp add: unat_word_ariths)
    then show ?thesis using True assms q m by (auto simp: word_less_nat_alt)
  next
    case False
    then show ?thesis using q by (auto simp: word_less_nat_alt)
  qed
  show "v * 10 + x = word_of_nat (unat v * 10 + d)"
    using x [symmetric] by simp
qed

text \<open>The digits of \<open>n\<close>, read after those of \<open>v\<close>, in front of \<open>rest\<close>.\<close>

definition no_digit_next :: "u8 list \<Rightarrow> bool" where
  "no_digit_next rest \<longleftrightarrow> rest = [] \<or> \<not> OPENSSL_isdigit (uint (hd rest))"

lemma u64_decimal_digit:
  assumes "d < 10"
  shows "get_u64_decimal_loop v seen (word_of_nat (48 + d) # cbs) =
    (if v = 0 \<and> seen \<or> 2 ^ 64 \<le> unat v * 10 + d then (None, cbs)
     else get_u64_decimal_loop (word_of_nat (unat v * 10 + d)) True cbs)"
proof -
  have dig: "OPENSSL_isdigit (uint (word_of_nat (48 + d) :: u8))" using assms isdigit_iff by blast
  show ?thesis
    unfolding get_u64_decimal_loop.simps using dig u64_decimal_step [OF assms, of v]
    by (auto simp only: not_not if_False if_True simp_thms not_less [symmetric] split: if_splits)
qed

lemma u64_decimal_stop:
  "no_digit_next rest \<Longrightarrow> get_u64_decimal_loop v True rest = (Some v, rest)"
  by (cases rest) (auto simp: no_digit_next_def)

lemma u64_decimal_enc:
  "n < 2 ^ 64 \<Longrightarrow> (n \<noteq> 0 \<or> no_digit_next cbs) \<Longrightarrow>
   get_u64_decimal_loop 0 False (decimal n @ cbs) = get_u64_decimal_loop (word_of_nat n) True cbs"
proof (induction n arbitrary: cbs rule: decimal.induct)
  case (1 n)
  show ?case
  proof (cases "n < 10")
    case True
    then show ?thesis using u64_decimal_digit [of n 0 False cbs] by (simp add: decimal.simps [of n] del: of_nat_add)
  next
    case False
    have u: "unat (word_of_nat (n div 10) :: u64) = n div 10" using 1(2) by (simp add: unat_of_nat)
    have nz: "(word_of_nat (n div 10) :: u64) \<noteq> 0" using u False by (auto simp: word_unat_eq_iff)
    have "get_u64_decimal_loop 0 False (decimal n @ cbs) =
        get_u64_decimal_loop (word_of_nat (n div 10)) True (word_of_nat (48 + n mod 10) # cbs)"
      using 1(1) [OF False, of "word_of_nat (48 + n mod 10) # cbs"] 1(2) False
      by (simp add: decimal.simps [of n] div_greater_zero_iff del: of_nat_add get_u64_decimal_loop.simps)
    also have "\<dots> = get_u64_decimal_loop (word_of_nat (n div 10 * 10 + n mod 10)) True cbs"
      using 1(2) nz by (subst u64_decimal_digit) (simp_all add: u del: of_nat_add get_u64_decimal_loop.simps)
    finally show ?thesis by simp
  qed
qed

lemma u64_decimal_dec:
  "get_u64_decimal_loop v True cbs = (Some w, rest) \<Longrightarrow>
   no_digit_next rest \<and> (\<exists>ds. cbs = ds @ rest \<and> decimal (unat w) = decimal (unat v) @ ds)"
proof (induction cbs arbitrary: v)
  case Nil
  then show ?case by (simp add: no_digit_next_def)
next
  case (Cons c cbs)
  show ?case
  proof (cases "OPENSSL_isdigit (uint c)")
    case False
    with Cons.prems show ?thesis by (auto simp: no_digit_next_def)
  next
    case True
    then obtain d where d: "d < 10" "c = word_of_nat (48 + d)" unfolding isdigit_iff by blast
    from Cons.prems have nz: "v \<noteq> 0" and fit: "unat v * 10 + d < 2 ^ 64"
      and rec: "get_u64_decimal_loop (word_of_nat (unat v * 10 + d)) True cbs = (Some w, rest)"
      unfolding d(2) u64_decimal_digit [OF d(1)] by (auto simp del: of_nat_add split: if_splits)
    have u: "unat (word_of_nat (unat v * 10 + d) :: u64) = unat v * 10 + d"
      using fit by (simp add: unat_of_nat del: of_nat_add of_nat_mult)
    have "0 < unat v" using nz by (simp add: word_unat_eq_iff)
    then have "decimal (unat v * 10 + d) = decimal (unat v) @ [c]"
      using d by (subst decimal.simps) (simp del: of_nat_add)
    with Cons.IH [OF rec] show ?thesis unfolding u by auto
  qed
qed

lemma get_u64_decimal_iff:
  "CBS_get_u64_decimal cbs = (Some v, rest) \<longleftrightarrow> cbs = decimal (unat v) @ rest \<and> no_digit_next rest"
proof
  assume l: "CBS_get_u64_decimal cbs = (Some v, rest)"
  then obtain c cs where cbs: "cbs = c # cs" by (cases cbs) (auto simp: CBS_get_u64_decimal_def)
  with l have "OPENSSL_isdigit (uint c)" by (auto simp: CBS_get_u64_decimal_def split: if_splits)
  then obtain d where d: "d < 10" "c = word_of_nat (48 + d)" unfolding isdigit_iff by blast
  have u: "unat (word_of_nat d :: u64) = d" using d(1) by (simp add: unat_of_nat)
  from l have "get_u64_decimal_loop (word_of_nat d) True cs = (Some v, rest)"
    unfolding CBS_get_u64_decimal_def cbs d(2) u64_decimal_digit [OF d(1)] using d(1) by (simp split: if_splits)
  from u64_decimal_dec [OF this] show "cbs = decimal (unat v) @ rest \<and> no_digit_next rest"
    unfolding u using d by (auto simp: cbs decimal.simps [of d] simp del: of_nat_add)
next
  assume "cbs = decimal (unat v) @ rest \<and> no_digit_next rest"
  then show "CBS_get_u64_decimal cbs = (Some v, rest)"
    using u64_decimal_enc [of "unat v" rest] unat_lt [of v] u64_decimal_stop [of rest]
    by (simp add: CBS_get_u64_decimal_def)
qed

end
