(* ===== verification/Times.thy ===== *)
theory Times
  imports Der_Values
begin

text \<open>
  Times: the two conversions of \<open>posix_time.c\<close> at the level of \<open>struct tm\<close>, time arithmetic, the
  calendar they implement, and the textual forms of RFC 5280 that \<open>cbs.c\<close> parses.
\<close>

section \<open>Broken-down time and POSIX time\<close>

definition valid_tm :: "tm \<Rightarrow> bool" where
  "valid_tm t \<longleftrightarrow> is_valid_date (tm_year t + 1900) (tm_mon t + 1) (tm_mday t)
     \<and> is_valid_time (tm_hour t) (tm_min t) (tm_sec t)"

lemma tm_to_posix_valid: "(\<exists>p. OPENSSL_tm_to_posix t = Some p) \<longleftrightarrow> valid_tm t"
  by (auto simp: OPENSSL_tm_to_posix_def valid_tm_def posix_time_from_utc_eq dest!: posix_time_from_utc_valid)

lemma posix_to_tm_iff: "OPENSSL_posix_to_tm p = Some t \<longleftrightarrow> OPENSSL_tm_to_posix t = Some p"
proof
  assume "OPENSSL_posix_to_tm p = Some t"
  then obtain y m d h mi s where u: "utc_from_posix_time p = Some (y, m, d, h, mi, s)"
    and t: "t = \<lparr>tm_sec = s, tm_min = mi, tm_hour = h, tm_mday = d, tm_mon = m - 1, tm_year = y - 1900\<rparr>"
    by (auto simp: OPENSSL_posix_to_tm_def split: option.splits)
  have "is_valid_posix_time p" using u utc_from_posix_time_None [of p] by auto
  then obtain "posix_time_from_utc y m d h mi s = Some p"
    by (rule posix_utc_roundtrip) (use u in auto)
  then show "OPENSSL_tm_to_posix t = Some p" by (simp add: OPENSSL_tm_to_posix_def t)
next
  assume p: "OPENSSL_tm_to_posix t = Some p"
  note v = posix_time_from_utc_valid [OF p [unfolded OPENSSL_tm_to_posix_def]]
  have "utc_from_posix_time p =
      Some (tm_year t + 1900, tm_mon t + 1, tm_mday t, tm_hour t, tm_min t, tm_sec t)"
    using v p [unfolded OPENSSL_tm_to_posix_def] by (intro utc_posix_roundtrip) auto
  then show "OPENSSL_posix_to_tm p = Some t" by (simp add: OPENSSL_posix_to_tm_def)
qed

lemma tm_posix_range: "OPENSSL_tm_to_posix t = Some p \<Longrightarrow> is_valid_posix_time p"
  using posix_time_from_utc_valid by (auto simp: OPENSSL_tm_to_posix_def)

text \<open>Time arithmetic: within the calendar, adding an offset adds its seconds to the POSIX time. The
  arguments are machine integers: \<open>offset_day\<close> an \<open>int\<close>, \<open>offset_sec\<close> an \<open>int64_t\<close>.\<close>

lemma gmtime_adj_iff:
  assumes "OPENSSL_tm_to_posix t = Some p" "\<bar>offset_day\<bar> \<le> 2147483648" "INT64_MIN \<le> offset_sec" "offset_sec \<le> INT64_MAX"
  shows "OPENSSL_gmtime_adj t offset_day offset_sec = Some t' \<longleftrightarrow>
    OPENSSL_tm_to_posix t' = Some (p + offset_day * 86400 + offset_sec)"
proof -
  have r: "MIN_POSIX_TIME \<le> p" "p \<le> MAX_POSIX_TIME"
    using tm_posix_range [OF assms(1)] by (auto simp: is_valid_posix_time_def)
  have out: "OPENSSL_tm_to_posix t' \<noteq> Some x" if "MAX_POSIX_TIME < x \<or> x < MIN_POSIX_TIME" for x
    using tm_posix_range [of t' x] that by (auto simp: is_valid_posix_time_def)
  show ?thesis
    using assms r out [of "p + offset_day * 86400 + offset_sec"]
    by (auto simp: OPENSSL_gmtime_adj_def posix_to_tm_iff Let_def SECS_PER_DAY_def SECS_PER_HOUR_def
        INT64_MAX_def INT64_MIN_def MAX_POSIX_TIME_def MIN_POSIX_TIME_def)
qed

lemma gmtime_diff_eq:
  assumes "OPENSSL_tm_to_posix a = Some p" "OPENSSL_tm_to_posix b = Some q"
  shows "OPENSSL_gmtime_diff a b = Some ((q - p) sdiv 86400, (q - p) smod 86400)"
  using assms by (simp add: OPENSSL_gmtime_diff_def Let_def SECS_PER_DAY_def SECS_PER_HOUR_def)

lemma sdiv_smod_day:
  fixes x :: int
  shows "x sdiv 86400 * 86400 + x smod 86400 = x" "\<bar>x smod 86400\<bar> < 86400"
    "0 \<le> x \<Longrightarrow> 0 \<le> x sdiv 86400 \<and> 0 \<le> x smod 86400" "x \<le> 0 \<Longrightarrow> x sdiv 86400 \<le> 0 \<and> x smod 86400 \<le> 0"
proof -
  show "x sdiv 86400 * 86400 + x smod 86400 = x"
  proof (cases "0 \<le> x")
    case False
    then show ?thesis using div_mult_mod_eq [of "- x" 86400] by (simp only: sdiv_neg smod_neg not_le)
  qed simp
  show "\<bar>x smod 86400\<bar> < 86400"
    using pos_mod_bound [of 86400 x] pos_mod_bound [of 86400 "- x"] pos_mod_sign [of 86400 x] pos_mod_sign [of 86400 "- x"]
    by (cases "0 \<le> x") (simp_all add: smod_neg del: pos_mod_bound pos_mod_sign)
  show "0 \<le> x \<Longrightarrow> 0 \<le> x sdiv 86400 \<and> 0 \<le> x smod 86400" by (simp add: pos_imp_zdiv_nonneg_iff)
  show "x \<le> 0 \<Longrightarrow> x sdiv 86400 \<le> 0 \<and> x smod 86400 \<le> 0"
    by (cases "x = 0") (simp_all add: sdiv_neg smod_neg pos_imp_zdiv_nonneg_iff)
qed

section \<open>The calendar\<close>

definition next_date :: "int \<Rightarrow> int \<Rightarrow> int \<Rightarrow> int \<times> int \<times> int" where
  "next_date y m d =
     (if d < month_days y m then (y, m, d + 1) else if m < 12 then (y, m + 1, 1) else (y + 1, 1, 1))"

lemma civil_day_next:
  assumes "1 \<le> m" "m \<le> 12" "1 \<le> d" "d \<le> month_days y m" "next_date y m d = (y', m', d')"
  shows "civil_day y' m' d' = civil_day y m d + 1"
  using assms(1,2)
  by (rule twelve_cases; use assms(3-5) march_days_next [of "y - 1"] in
    \<open>auto simp: next_date_def civil_day_def month_days_def month_start_values split: if_splits\<close>)

section \<open>Textual times\<close>

definition two_digits :: "int \<Rightarrow> u8 list" where
  "two_digits v = [word_of_int (48 + v div 10), word_of_int (48 + v mod 10)]"

text \<open>The part of a GeneralizedTime or UTCTime before the time zone.\<close>

definition time_text :: "bool \<Rightarrow> tm \<Rightarrow> u8 list" where
  "time_text is_gentime t =
     (if is_gentime then two_digits ((tm_year t + 1900) div 100) else []) @ two_digits ((tm_year t + 1900) mod 100)
     @ two_digits (tm_mon t + 1) @ two_digits (tm_mday t) @ two_digits (tm_hour t)
     @ two_digits (tm_min t) @ two_digits (tm_sec t)"

lemma digit_char: "0 \<le> k \<Longrightarrow> k < 10 \<Longrightarrow> uint (word_of_int (48 + k) :: u8) = 48 + k"
  by (simp add: uint_word_of_int del: of_int_add)

lemma two_digits_iff:
  "cbs_get_two_digits cbs = (Some v, rest) \<longleftrightarrow> 0 \<le> v \<and> v < 100 \<and> cbs = two_digits v @ rest"
proof
  assume "cbs_get_two_digits cbs = (Some v, rest)"
  then obtain a b where cbs: "cbs = a # b # rest" and a: "48 \<le> uint a" "uint a \<le> 57"
    and b: "48 \<le> uint b" "uint b \<le> 57" and v: "v = (uint a - 48) * 10 + (uint b - 48)"
    by (cases cbs; cases "tl cbs") (auto simp: cbs_get_two_digits_def OPENSSL_isdigit_def split: if_splits)
  have v': "v = 10 * (uint a - 48) + (uint b - 48)" using v by simp
  have "v div 10 = uint a - 48" "v mod 10 = uint b - 48"
    using b int_div_pos_eq [OF v'] int_mod_pos_eq [OF v'] by simp_all
  then show "0 \<le> v \<and> v < 100 \<and> cbs = two_digits v @ rest" using a b v by (simp add: two_digits_def cbs)
next
  assume r: "0 \<le> v \<and> v < 100 \<and> cbs = two_digits v @ rest"
  then have "0 \<le> v div 10" "v div 10 < 10" "0 \<le> v mod 10" "v mod 10 < 10" by auto
  then show "cbs_get_two_digits cbs = (Some v, rest)"
    using r by (simp add: cbs_get_two_digits_def two_digits_def OPENSSL_isdigit_def digit_char del: of_int_add)
qed

interpretation digits2: canonical_codec two_digits cbs_get_two_digits "\<lambda>v. 0 \<le> v \<and> v < 100"
  by unfold_locales (auto simp: two_digits_iff two_digits_def simp del: of_int_add)

text \<open>A UTCTime has a two-digit year between 1950 and 2049.\<close>

definition year_ok :: "bool \<Rightarrow> int \<Rightarrow> bool" where
  "year_ok is_gentime year \<longleftrightarrow> (if is_gentime then 0 \<le> year \<and> year \<le> 9999 else 1950 \<le> year \<and> year < 2050)"

lemma parse_time_year_iff:
  "parse_time_year is_gentime cbs = (Some year, rest) \<longleftrightarrow>
   year_ok is_gentime year
   \<and> cbs = (if is_gentime then two_digits (year div 100) else []) @ two_digits (year mod 100) @ rest"
proof (cases is_gentime)
  case True
  have "parse_time_year True cbs = (Some year, rest) \<longleftrightarrow>
     (\<exists>a b. 0 \<le> a \<and> a < 100 \<and> 0 \<le> b \<and> b < 100 \<and> year = a * 100 + b
        \<and> cbs = two_digits a @ two_digits b @ rest)"
    by (auto simp: parse_time_year_def cbs_bind_Some_iff two_digits_iff Let_def)
  also have "\<dots> \<longleftrightarrow> 0 \<le> year \<and> year \<le> 9999 \<and> cbs = two_digits (year div 100) @ two_digits (year mod 100) @ rest"
  proof
    assume r: "0 \<le> year \<and> year \<le> 9999 \<and> cbs = two_digits (year div 100) @ two_digits (year mod 100) @ rest"
    then have "year div 100 < 100" "0 \<le> year div 100" "year = year div 100 * 100 + year mod 100" by auto
    with r show "\<exists>a b. 0 \<le> a \<and> a < 100 \<and> 0 \<le> b \<and> b < 100 \<and> year = a * 100 + b
        \<and> cbs = two_digits a @ two_digits b @ rest"
      by (metis pos_mod_bound pos_mod_sign zero_less_numeral)
  qed auto
  finally show ?thesis using True by (simp add: year_ok_def)
next
  case False
  have "parse_time_year False cbs = (Some year, rest) \<longleftrightarrow>
     (\<exists>a. 0 \<le> a \<and> a < 100 \<and> year = (if a < 50 then 2000 + a else 1900 + a) \<and> cbs = two_digits a @ rest)"
  proof -
    have y: "(if 1900 + a < (1950 :: int) then 1900 + a + 100 else 1900 + a) = (if a < 50 then 2000 + a else 1900 + a)"
      and "a < 100 \<Longrightarrow> \<not> 2050 \<le> (if a < 50 then 2000 + a else 1900 + a)" for a :: int by auto
    then show ?thesis
      unfolding parse_time_year_def cbs_bind_Some_iff two_digits_iff Let_def y if_False
      by (smt (verit, best) option.inject option.distinct prod.inject)
  qed
  also have "\<dots> \<longleftrightarrow> 1950 \<le> year \<and> year < 2050 \<and> cbs = two_digits (year mod 100) @ rest"
  proof
    assume r: "1950 \<le> year \<and> year < 2050 \<and> cbs = two_digits (year mod 100) @ rest"
    have "year mod 100 = (if year < 2000 then year - 1900 else year - 2000)"
      using r by (auto intro: int_mod_pos_eq)
    with r show "\<exists>a. 0 \<le> a \<and> a < 100 \<and> year = (if a < 50 then 2000 + a else 1900 + a) \<and> cbs = two_digits a @ rest"
      by (intro exI [of _ "year mod 100"]) auto
  next
    have "(2000 + a) mod 100 = a" "(1900 + a) mod 100 = a" if "0 \<le> a" "a < 100" for a :: int
      by (rule int_mod_pos_eq [where q = 20], use that in auto) (rule int_mod_pos_eq [where q = 19], use that in auto)
    then show "1950 \<le> year \<and> year < 2050 \<and> cbs = two_digits (year mod 100) @ rest"
      if "\<exists>a. 0 \<le> a \<and> a < 100 \<and> year = (if a < 50 then 2000 + a else 1900 + a) \<and> cbs = two_digits a @ rest"
      using that by (auto split: if_splits)
  qed
  finally show ?thesis using False by (simp add: year_ok_def)
qed

text \<open>What may follow the time: \<open>Z\<close>, or where offsets are allowed a sign and four digits.\<close>

definition zone_text :: "int \<Rightarrow> int \<Rightarrow> int \<Rightarrow> u8 list" where
  "zone_text sg h m = (if sg = 0 then [90] else (if sg = 1 then 43 else 45) # two_digits h @ two_digits m)"

definition zone_ok :: "bool \<Rightarrow> int \<Rightarrow> int \<Rightarrow> int \<Rightarrow> bool" where
  "zone_ok allow sg h m \<longleftrightarrow>
     (if sg = 0 then h = 0 \<and> m = 0 else allow \<and> \<bar>sg\<bar> = 1 \<and> 0 \<le> h \<and> h \<le> 23 \<and> 0 \<le> m \<and> m \<le> 59)"

lemma is_valid_day_iff:
  "0 \<le> y \<Longrightarrow> y \<le> 9999 \<Longrightarrow> (\<not> (m < 1 \<or> m > 12) \<and> is_valid_day y m d) = is_valid_date y m d"
  by (auto simp: is_valid_day_def is_valid_date_def)

text \<open>The fields in front of the time zone.\<close>

definition time_fields_ok :: "bool \<Rightarrow> tm \<Rightarrow> bool" where
  "time_fields_ok g t \<longleftrightarrow> year_ok g (tm_year t + 1900) \<and> valid_tm t"

lemma month_days_le: "month_days y m \<le> 31"
  by (simp add: month_days_def)

definition zone_adj :: "tm \<Rightarrow> int \<Rightarrow> tm option" where
  "zone_adj t off = (if off \<noteq> 0 then OPENSSL_gmtime_adj t 0 off else Some t)"

definition zone_tail :: "bool \<Rightarrow> tm \<Rightarrow> CBS \<Rightarrow> tm option" where
  "zone_tail allow t copy =
    fst (cbs_bind (CBS_get_u8 copy) (\<lambda>tz copy.
        if tz \<noteq> 90 \<and> tz \<noteq> 43 \<and> tz \<noteq> 45 then (None, copy) else
        let offset_sign = (if tz = 90 then 0 else if tz = 43 then 1 else - 1 :: int) in
        cbs_bind
          (if offset_sign = 0 then (Some 0, copy)
           else if \<not> allow then (None, copy)
           else
             cbs_bind (cbs_get_two_digits copy) (\<lambda>offset_hours copy.
             if offset_hours > 23 then (None, copy) else
             cbs_bind (cbs_get_two_digits copy) (\<lambda>offset_minutes copy.
             if offset_minutes > 59 then (None, copy)
             else (Some (offset_sign * (offset_hours * 3600 + offset_minutes * 60)), copy))))
          (\<lambda>offset_seconds copy.
             if CBS_len copy \<noteq> 0 then (None, copy)
             else (zone_adj t offset_seconds, copy))))"

lemma fst_bind_Some:
  "fst (cbs_bind r f) = Some x \<longleftrightarrow> (\<exists>v cbs. r = (Some v, cbs) \<and> fst (f v cbs) = Some x)"
  by (cases r; cases "fst r") (auto simp: cbs_bind_def)

lemma fst_if_None: "fst (if b then (None, c) else r) = Some x \<longleftrightarrow> \<not> b \<and> fst r = Some x"
  by simp

lemma if_None_Some: "(if b then (None, c) else r) = (Some x, d) \<longleftrightarrow> \<not> b \<and> r = (Some x, d)"
  by simp

lemma zone_tail_Z: "zone_tail allow t (90 # cs) = Some t' \<longleftrightarrow> cs = [] \<and> t' = t"
  by (auto simp: zone_tail_def CBS_len_def zone_adj_def)

definition zone_sign :: "u8 \<Rightarrow> int" where
  "zone_sign tz = (if tz = 90 then 0 else if tz = 43 then 1 else - 1)"

lemma zone_tail_offset:
  assumes "tz = 43 \<or> tz = 45"
  shows "zone_tail allow t (tz # cs) = Some t' \<longleftrightarrow>
    (\<exists>h m. allow \<and> 0 \<le> h \<and> h \<le> 23 \<and> 0 \<le> m \<and> m \<le> 59 \<and> cs = two_digits h @ two_digits m
       \<and> zone_adj t (zone_sign tz * (h * 3600 + m * 60)) = Some t')"
proof -
  have tz: "\<not> (tz \<noteq> 90 \<and> tz \<noteq> 43 \<and> tz \<noteq> 45)" "zone_sign tz \<noteq> 0"
    using assms by (auto simp: zone_sign_def)
  have off: "(if zone_sign tz = 0 then (Some 0, cs) else if \<not> allow then (None, cs) else
      cbs_bind (cbs_get_two_digits cs) (\<lambda>h copy. if h > 23 then (None, copy) else
      cbs_bind (cbs_get_two_digits copy) (\<lambda>m copy. if m > 59 then (None, copy)
        else (Some (zone_sign tz * (h * 3600 + m * 60)), copy)))) = (Some v, rest) \<longleftrightarrow>
    (\<exists>h m. allow \<and> 0 \<le> h \<and> h \<le> 23 \<and> 0 \<le> m \<and> m \<le> 59 \<and> cs = two_digits h @ two_digits m @ rest
        \<and> v = zone_sign tz * (h * 3600 + m * 60))" for v rest
    using tz(2) by (auto simp: if_None_Some cbs_bind_Some_iff two_digits_iff not_less)
  have "zone_tail allow t (tz # cs) = Some t' \<longleftrightarrow>
     (\<exists>v rest. (\<exists>h m. allow \<and> 0 \<le> h \<and> h \<le> 23 \<and> 0 \<le> m \<and> m \<le> 59 \<and> cs = two_digits h @ two_digits m @ rest
        \<and> v = zone_sign tz * (h * 3600 + m * 60)) \<and> rest = [] \<and> zone_adj t v = Some t')"
    unfolding zone_tail_def CBS_get_u8_simps cbs_bind_simps Let_def zone_sign_def [symmetric]
      fst_if_None fst_bind_Some off CBS_len_def fst_conv
    using tz(1) by simp
  then show ?thesis by auto
qed

lemma zone_text_Cons:
  "zone_ok allow sg h m \<and> tz # cs = zone_text sg h m \<longleftrightarrow>
   (if tz = 90 then cs = [] \<and> sg = 0 \<and> h = 0 \<and> m = 0
    else (tz = 43 \<or> tz = 45) \<and> sg = zone_sign tz \<and> allow \<and> 0 \<le> h \<and> h \<le> 23 \<and> 0 \<le> m \<and> m \<le> 59
      \<and> cs = two_digits h @ two_digits m)"
  by (auto simp: zone_ok_def zone_text_def zone_sign_def)

lemma zone_tail_iff:
  "zone_tail allow t copy = Some t' \<longleftrightarrow>
   (\<exists>sg h m. (zone_ok allow sg h m \<and> copy = zone_text sg h m)
      \<and> zone_adj t (sg * (h * 3600 + m * 60)) = Some t')"
proof (cases copy)
  case Nil
  then show ?thesis by (simp add: zone_tail_def zone_text_def)
next
  case (Cons tz cs)
  consider "tz = 90" | "tz = 43 \<or> tz = 45" | "tz \<noteq> 90" "tz \<noteq> 43" "tz \<noteq> 45" by blast
  then show ?thesis
  proof cases
    case 1
    then show ?thesis unfolding Cons zone_text_Cons by (auto simp: zone_tail_Z zone_adj_def)
  next
    case 2
    then have "tz \<noteq> 90" by auto
    then show ?thesis unfolding Cons zone_text_Cons zone_tail_offset [OF 2] using 2 by auto
  next
    case 3
    then show ?thesis unfolding Cons zone_text_Cons by (auto simp: zone_tail_def)
  qed
qed

lemma rfc5280_time_fields:
  "CBS_parse_rfc5280_time_internal cbs g allow = Some t' \<longleftrightarrow>
   (\<exists>year copy. parse_time_year g cbs = (Some year, copy) \<and>
   (\<exists>month copy'. cbs_get_two_digits copy = (Some month, copy') \<and> \<not> (month < 1 \<or> month > 12) \<and>
   (\<exists>day copy. cbs_get_two_digits copy' = (Some day, copy) \<and> \<not> \<not> is_valid_day year month day \<and>
   (\<exists>hour copy'. cbs_get_two_digits copy = (Some hour, copy') \<and> \<not> hour > 23 \<and>
   (\<exists>mins copy. cbs_get_two_digits copy' = (Some mins, copy) \<and> \<not> mins > 59 \<and>
   (\<exists>sec copy'. cbs_get_two_digits copy = (Some sec, copy') \<and> \<not> sec > 59 \<and>
     zone_tail allow \<lparr>tm_sec = sec, tm_min = mins, tm_hour = hour, tm_mday = day,
             tm_mon = month - 1, tm_year = year - 1900\<rparr> copy' = Some t'))))))"
  unfolding CBS_parse_rfc5280_time_internal_def fst_def [symmetric] Let_def fst_bind_Some fst_if_None
    zone_tail_def zone_adj_def by (rule refl)

lemma time_fields_text:
  "time_fields_ok g \<lparr>tm_sec = sec, tm_min = mins, tm_hour = hour, tm_mday = day,
       tm_mon = month - 1, tm_year = year - 1900\<rparr> \<longleftrightarrow>
   year_ok g year \<and> (0 \<le> month \<and> month < 100) \<and> \<not> (month < 1 \<or> month > 12)
   \<and> (0 \<le> day \<and> day < 100) \<and> \<not> \<not> is_valid_day year month day
   \<and> (0 \<le> hour \<and> hour < 100) \<and> \<not> hour > 23 \<and> (0 \<le> mins \<and> mins < 100) \<and> \<not> mins > 59
   \<and> (0 \<le> sec \<and> sec < 100) \<and> \<not> sec > 59"
proof -
  have "year_ok g year \<Longrightarrow> 0 \<le> year \<and> year \<le> 9999" by (auto simp: year_ok_def split: if_splits)
  then show ?thesis
    using is_valid_day_iff [of year month day] month_days_le [of year month]
    by (auto simp: time_fields_ok_def valid_tm_def is_valid_time_iff is_valid_date_iff)
qed

lemma rfc5280_time_split:
  "CBS_parse_rfc5280_time_internal cbs g allow = Some t' \<longleftrightarrow>
   (\<exists>t copy. time_fields_ok g t \<and> cbs = time_text g t @ copy \<and> zone_tail allow t copy = Some t')"
  (is "_ \<longleftrightarrow> ?R")
proof
  assume "CBS_parse_rfc5280_time_internal cbs g allow = Some t'"
  then obtain year month day hour mins sec copy where f: "year_ok g year" "0 \<le> month" "month < 100" "\<not> (month < 1 \<or> month > 12)"
    "0 \<le> day" "day < 100" "\<not> \<not> is_valid_day year month day"
    "0 \<le> hour" "hour < 100" "\<not> hour > 23" "0 \<le> mins" "mins < 100" "\<not> mins > 59" "0 \<le> sec" "sec < 100" "\<not> sec > 59"
    and c: "cbs = (if g then two_digits (year div 100) else []) @ two_digits (year mod 100)
       @ two_digits month @ two_digits day @ two_digits hour @ two_digits mins @ two_digits sec @ copy"
    and z: "zone_tail allow \<lparr>tm_sec = sec, tm_min = mins, tm_hour = hour, tm_mday = day,
             tm_mon = month - 1, tm_year = year - 1900\<rparr> copy = Some t'"
    unfolding rfc5280_time_fields parse_time_year_iff two_digits_iff by auto
  let ?t = "\<lparr>tm_sec = sec, tm_min = mins, tm_hour = hour, tm_mday = day, tm_mon = month - 1, tm_year = year - 1900\<rparr>"
  have "time_fields_ok g ?t" unfolding time_fields_text using f by blast
  moreover have "cbs = time_text g ?t @ copy" by (simp add: c time_text_def)
  ultimately show ?R using z by blast
next
  assume ?R
  then obtain t copy where t: "time_fields_ok g t" "cbs = time_text g t @ copy" "zone_tail allow t copy = Some t'" by blast
  define year month where "year = tm_year t + 1900" and "month = tm_mon t + 1"
  have teq: "t = \<lparr>tm_sec = tm_sec t, tm_min = tm_min t, tm_hour = tm_hour t, tm_mday = tm_mday t,
      tm_mon = month - 1, tm_year = year - 1900\<rparr>" by (simp add: year_def month_def)
  from t(1) have f: "time_fields_ok g \<lparr>tm_sec = tm_sec t, tm_min = tm_min t, tm_hour = tm_hour t, tm_mday = tm_mday t,
      tm_mon = month - 1, tm_year = year - 1900\<rparr>" by (subst (asm) teq)
  from t(3) have z: "zone_tail allow \<lparr>tm_sec = tm_sec t, tm_min = tm_min t, tm_hour = tm_hour t, tm_mday = tm_mday t,
      tm_mon = month - 1, tm_year = year - 1900\<rparr> copy = Some t'" by (subst (asm) teq)
  note ok = f [unfolded time_fields_text]
  have py: "parse_time_year g cbs = (Some year, two_digits month @ two_digits (tm_mday t) @ two_digits (tm_hour t)
      @ two_digits (tm_min t) @ two_digits (tm_sec t) @ copy)"
    using ok t(2) by (simp add: parse_time_year_iff time_text_def year_def month_def)
  show "CBS_parse_rfc5280_time_internal cbs g allow = Some t'"
    unfolding rfc5280_time_fields py using ok z by (simp add: digits2.dec_enc)
qed

lemma parse_time_iff:
  "CBS_parse_rfc5280_time_internal cbs g allow = Some t' \<longleftrightarrow>
   (\<exists>t sg h m. time_fields_ok g t \<and> zone_ok allow sg h m \<and> cbs = time_text g t @ zone_text sg h m
      \<and> zone_adj t (sg * (h * 3600 + m * 60)) = Some t')"
  unfolding rfc5280_time_split zone_tail_iff by blast

end
