(* ===== verification/Cbb.thy ===== *)
theory Cbb
  imports Der_Values
begin

text \<open>
  \<open>crypto/bytestring/cbb.c\<close>: building byte strings with pending length prefixes, and the two
  conversions between the text and the DER form of an object identifier (the printing one is in
  \<open>cbs.c\<close>).

  All \<open>CBB\<close>s that write to one buffer form a chain: the top-level \<open>CBB\<close>, its child, the child of
  its child, and so on. The state holds the shared buffer and the records of the children, outermost
  first; a \<open>CBB *\<close> is the position \<open>d\<close> of the \<open>CBB\<close> in the chain, 0 for the top-level one. A
  position beyond the end of the chain is a child that has been flushed: its \<open>base\<close> is \<open>NULL\<close>.
  Every operation returns its status with the new state. Pointers into the buffer are offsets.
\<close>

section \<open>The buffer\<close>

record cbb_buffer =
  cb_buf :: "u8 list"
  cb_len :: nat
  cb_cap :: nat
  cb_can_resize :: bool
  cb_error :: bool

record cbb_child =
  ch_offset :: nat
  ch_pending_len_len :: nat
  ch_pending_is_asn1 :: bool

record CBB =
  cbb_base :: cbb_buffer
  cbb_kids :: "cbb_child list"

definition cbb_init :: "u8 list \<Rightarrow> nat \<Rightarrow> bool \<Rightarrow> CBB" where
  "cbb_init buf cap can_resize =
     \<lparr>cbb_base = \<lparr>cb_buf = buf, cb_len = 0, cb_cap = cap, cb_can_resize = can_resize, cb_error = False\<rparr>,
      cbb_kids = []\<rparr>"

definition CBB_init :: "allocator \<Rightarrow> nat \<Rightarrow> CBB option" where
  "CBB_init A initial_capacity =
     (case OPENSSL_malloc A initial_capacity of
        None \<Rightarrow> if initial_capacity > 0 then None else Some (cbb_init [] initial_capacity True)
      | Some buf \<Rightarrow> Some (cbb_init buf initial_capacity True))"

definition CBB_init_fixed :: "u8 list \<Rightarrow> CBB" where
  "CBB_init_fixed buf = cbb_init buf (length buf) False"

definition buffer_error :: "cbb_buffer \<Rightarrow> cbb_buffer" where
  "buffer_error base = base\<lparr>cb_error := True\<rparr>"

definition cbb_buffer_reserve :: "allocator \<Rightarrow> cbb_buffer \<Rightarrow> nat \<Rightarrow> nat option \<times> cbb_buffer" where
  "cbb_buffer_reserve A base len =
     (let newlen = size_add (cb_len base) len in
      if newlen < cb_len base then (None, buffer_error base)
      else if newlen > cb_cap base then
        (if \<not> cb_can_resize base then (None, buffer_error base)
         else
           (let newcap = size_mul (cb_cap base) 2;
                newcap = (if newcap < cb_cap base \<or> newcap < newlen then newlen else newcap)
            in case OPENSSL_realloc A (Some (cb_buf base)) newcap of
                 None \<Rightarrow> (None, buffer_error base)
               | Some newbuf \<Rightarrow> (Some (cb_len base), base\<lparr>cb_buf := newbuf, cb_cap := newcap\<rparr>)))
      else (Some (cb_len base), base))"

definition cbb_buffer_add :: "allocator \<Rightarrow> cbb_buffer \<Rightarrow> nat \<Rightarrow> nat option \<times> cbb_buffer" where
  "cbb_buffer_add A base len =
     (case cbb_buffer_reserve A base len of
        (None, base) \<Rightarrow> (None, base)
      | (Some out, base) \<Rightarrow> (Some out, base\<lparr>cb_len := cb_len base + len\<rparr>))"

text \<open>\<open>for (i = n - 1; i < n; i--) { p[i] = (uint8_t)v; v >>= 8; }\<close> with \<open>p\<close> at \<open>off\<close>.\<close>

fun store_be_loop :: "nat \<Rightarrow> nat \<Rightarrow> nat \<Rightarrow> u8 list \<Rightarrow> u8 list \<times> nat" where
  "store_be_loop 0 off v buf = (buf, v)"
| "store_be_loop (Suc i) off v buf = store_be_loop i off (v div 256) (buf[off + i := word_of_nat v])"

section \<open>Flushing\<close>

text \<open>The part of \<open>CBB_flush\<close> after the recursive call: write the length prefix of \<open>child\<close>.\<close>

definition flush_child :: "allocator \<Rightarrow> cbb_child \<Rightarrow> cbb_buffer \<Rightarrow> bool \<times> cbb_buffer" where
  "flush_child A child base =
     (let child_start = size_add (ch_offset child) (ch_pending_len_len child) in
      if child_start < ch_offset child \<or> cb_len base < child_start then (False, buffer_error base)
      else
     (let len = cb_len base - child_start;
          finish = (\<lambda>offset pending_len_len len base.
            (case store_be_loop pending_len_len offset len (cb_buf base) of (buf, len) \<Rightarrow>
               (let base = base\<lparr>cb_buf := buf\<rparr>
                in if len \<noteq> 0 then (False, buffer_error base) else (True, base))))
      in
      if ch_pending_is_asn1 child then
        (if len > 0xfffffffe then (False, buffer_error base)
         else
           (let (len_len, initial_length_byte, len') =
                  (if len > 0xffffff then (5, 0x80 OR 4, len)
                   else if len > 0xffff then (4, 0x80 OR 3, len)
                   else if len > 0xff then (3, 0x80 OR 2, len)
                   else if len > 0x7f then (2, 0x80 OR 1, len)
                   else (1, word_of_nat len :: u8, 0));
                moved =
                  (if len_len \<noteq> 1 then
                     (let extra_bytes = len_len - 1
                      in case cbb_buffer_add A base extra_bytes of
                           (None, base) \<Rightarrow> (None, base)
                         | (Some _, base) \<Rightarrow>
                             (Some (), base\<lparr>cb_buf := write_at (child_start + extra_bytes)
                                (take len (drop child_start (cb_buf base))) (cb_buf base)\<rparr>))
                   else (Some (), base))
            in case moved of
                 (None, base) \<Rightarrow> (False, buffer_error base)
               | (Some _, base) \<Rightarrow>
                   finish (ch_offset child + 1) (len_len - 1) len'
                     (base\<lparr>cb_buf := (cb_buf base)[ch_offset child := initial_length_byte]\<rparr>)))
      else finish (ch_offset child) (ch_pending_len_len child) len base))"

fun flush_chain :: "allocator \<Rightarrow> cbb_child list \<Rightarrow> cbb_buffer \<Rightarrow> bool \<times> cbb_buffer" where
  "flush_chain A [] base = (\<not> cb_error base, base)"
| "flush_chain A (child # kids) base =
     (if cb_error base then (False, base)
      else case flush_chain A kids base of
             (False, base) \<Rightarrow> (False, buffer_error base)
           | (True, base) \<Rightarrow> flush_child A child base)"

definition cbb_on_error :: "nat \<Rightarrow> CBB \<Rightarrow> CBB" where
  "cbb_on_error d cbb =
     cbb\<lparr>cbb_base := buffer_error (cbb_base cbb), cbb_kids := take d (cbb_kids cbb)\<rparr>"

definition CBB_flush :: "allocator \<Rightarrow> nat \<Rightarrow> CBB \<Rightarrow> bool \<times> CBB" where
  "CBB_flush A d cbb =
     (if d > length (cbb_kids cbb) \<or> cb_error (cbb_base cbb) then (False, cbb)
      else case flush_chain A (drop d (cbb_kids cbb)) (cbb_base cbb) of
             (ok, base) \<Rightarrow> (ok, \<lparr>cbb_base = base, cbb_kids = take d (cbb_kids cbb)\<rparr>))"

text \<open>\<open>CBB_finish\<close> delivers the buffer with the number of valid bytes in it; \<open>want\<close> says that
  \<open>out_data\<close> and \<open>out_len\<close> are given.\<close>

definition CBB_finish :: "allocator \<Rightarrow> nat \<Rightarrow> bool \<Rightarrow> CBB \<Rightarrow> (u8 list \<times> nat) option \<times> CBB" where
  "CBB_finish A d want cbb =
     (if d > 0 then (None, cbb)
      else case CBB_flush A d cbb of
             (False, cbb) \<Rightarrow> (None, cbb)
           | (True, cbb) \<Rightarrow>
               (if cb_can_resize (cbb_base cbb) \<and> \<not> want then (None, cbb)
                else (Some (cb_buf (cbb_base cbb), cb_len (cbb_base cbb)),
                      cbb\<lparr>cbb_base := (cbb_base cbb)\<lparr>cb_buf := []\<rparr>\<rparr>)))"

text \<open>\<open>CBB_data\<close> as an offset and \<open>CBB_len\<close>; both are for a \<open>CBB\<close> without a pending child.\<close>

definition CBB_data :: "nat \<Rightarrow> CBB \<Rightarrow> nat" where
  "CBB_data d cbb =
     (if d > 0 then (let child = cbb_kids cbb ! (d - 1) in ch_offset child + ch_pending_len_len child)
      else 0)"

definition CBB_len :: "nat \<Rightarrow> CBB \<Rightarrow> nat" where
  "CBB_len d cbb =
     (if d > 0
      then (let child = cbb_kids cbb ! (d - 1)
            in cb_len (cbb_base cbb) - ch_offset child - ch_pending_len_len child)
      else cb_len (cbb_base cbb))"

section \<open>Appending\<close>

text \<open>\<open>if (!f(cbb)) return 0; ...\<close>\<close>

definition cbb_then :: "bool \<times> CBB \<Rightarrow> (CBB \<Rightarrow> bool \<times> CBB) \<Rightarrow> bool \<times> CBB" where
  "cbb_then r f = (case r of (False, cbb) \<Rightarrow> (False, cbb) | (True, cbb) \<Rightarrow> f cbb)"

definition cbb_write :: "nat \<Rightarrow> u8 list \<Rightarrow> CBB \<Rightarrow> CBB" where
  "cbb_write off bs cbb =
     cbb\<lparr>cbb_base := (cbb_base cbb)\<lparr>cb_buf := write_at off bs (cb_buf (cbb_base cbb))\<rparr>\<rparr>"

definition cbb_add_child :: "allocator \<Rightarrow> nat \<Rightarrow> nat \<Rightarrow> bool \<Rightarrow> CBB \<Rightarrow> bool \<times> CBB" where
  "cbb_add_child A d len_len is_asn1 cbb =
     (let offset = cb_len (cbb_base cbb) in
      case cbb_buffer_add A (cbb_base cbb) len_len of
        (None, base) \<Rightarrow> (False, cbb\<lparr>cbb_base := base\<rparr>)
      | (Some prefix_bytes, base) \<Rightarrow>
          (True, (cbb_write prefix_bytes (replicate len_len 0) (cbb\<lparr>cbb_base := base\<rparr>))
             \<lparr>cbb_kids := take d (cbb_kids cbb) @
                [\<lparr>ch_offset = offset, ch_pending_len_len = len_len, ch_pending_is_asn1 = is_asn1\<rparr>]\<rparr>))"

definition cbb_add_length_prefixed :: "allocator \<Rightarrow> nat \<Rightarrow> nat \<Rightarrow> CBB \<Rightarrow> bool \<times> CBB" where
  "cbb_add_length_prefixed A d len_len cbb =
     cbb_then (CBB_flush A d cbb) (cbb_add_child A d len_len False)"

definition CBB_add_u8_length_prefixed :: "allocator \<Rightarrow> nat \<Rightarrow> CBB \<Rightarrow> bool \<times> CBB" where
  "CBB_add_u8_length_prefixed A d cbb = cbb_add_length_prefixed A d 1 cbb"

definition CBB_add_u16_length_prefixed :: "allocator \<Rightarrow> nat \<Rightarrow> CBB \<Rightarrow> bool \<times> CBB" where
  "CBB_add_u16_length_prefixed A d cbb = cbb_add_length_prefixed A d 2 cbb"

definition CBB_add_u24_length_prefixed :: "allocator \<Rightarrow> nat \<Rightarrow> CBB \<Rightarrow> bool \<times> CBB" where
  "CBB_add_u24_length_prefixed A d cbb = cbb_add_length_prefixed A d 3 cbb"

definition CBB_add_space :: "allocator \<Rightarrow> nat \<Rightarrow> nat \<Rightarrow> CBB \<Rightarrow> nat option \<times> CBB" where
  "CBB_add_space A d len cbb =
     (case CBB_flush A d cbb of
        (False, cbb) \<Rightarrow> (None, cbb)
      | (True, cbb) \<Rightarrow>
          (case cbb_buffer_add A (cbb_base cbb) len of (out, base) \<Rightarrow> (out, cbb\<lparr>cbb_base := base\<rparr>)))"

definition CBB_reserve :: "allocator \<Rightarrow> nat \<Rightarrow> nat \<Rightarrow> CBB \<Rightarrow> nat option \<times> CBB" where
  "CBB_reserve A d len cbb =
     (case CBB_flush A d cbb of
        (False, cbb) \<Rightarrow> (None, cbb)
      | (True, cbb) \<Rightarrow>
          (case cbb_buffer_reserve A (cbb_base cbb) len of (out, base) \<Rightarrow> (out, cbb\<lparr>cbb_base := base\<rparr>)))"

definition CBB_did_write :: "nat \<Rightarrow> nat \<Rightarrow> CBB \<Rightarrow> bool \<times> CBB" where
  "CBB_did_write d len cbb =
     (let base = cbb_base cbb; newlen = size_add (cb_len base) len in
      if d < length (cbb_kids cbb) \<or> newlen < cb_len base \<or> newlen > cb_cap base then (False, cbb)
      else (True, cbb\<lparr>cbb_base := base\<lparr>cb_len := newlen\<rparr>\<rparr>))"

definition CBB_add_bytes :: "allocator \<Rightarrow> nat \<Rightarrow> u8 list \<Rightarrow> CBB \<Rightarrow> bool \<times> CBB" where
  "CBB_add_bytes A d data cbb =
     (case CBB_add_space A d (length data) cbb of
        (None, cbb) \<Rightarrow> (False, cbb)
      | (Some out, cbb) \<Rightarrow> (True, cbb_write out data cbb))"

definition CBB_add_zeros :: "allocator \<Rightarrow> nat \<Rightarrow> nat \<Rightarrow> CBB \<Rightarrow> bool \<times> CBB" where
  "CBB_add_zeros A d len cbb =
     (case CBB_add_space A d len cbb of
        (None, cbb) \<Rightarrow> (False, cbb)
      | (Some out, cbb) \<Rightarrow> (True, cbb_write out (replicate len 0) cbb))"

definition cbb_add_u :: "allocator \<Rightarrow> nat \<Rightarrow> u64 \<Rightarrow> nat \<Rightarrow> CBB \<Rightarrow> bool \<times> CBB" where
  "cbb_add_u A d v len_len cbb =
     (case CBB_add_space A d len_len cbb of
        (None, cbb) \<Rightarrow> (False, cbb)
      | (Some out, cbb) \<Rightarrow>
          (case store_be_loop len_len out (unat v) (cb_buf (cbb_base cbb)) of
             (buf, v) \<Rightarrow>
               (let cbb = cbb\<lparr>cbb_base := (cbb_base cbb)\<lparr>cb_buf := buf\<rparr>\<rparr>
                in if v \<noteq> 0 then (False, cbb_on_error d cbb) else (True, cbb))))"

definition CBB_add_u8 :: "allocator \<Rightarrow> nat \<Rightarrow> u8 \<Rightarrow> CBB \<Rightarrow> bool \<times> CBB" where
  "CBB_add_u8 A d value cbb = cbb_add_u A d (ucast value) 1 cbb"

definition CBB_add_u16 :: "allocator \<Rightarrow> nat \<Rightarrow> u16 \<Rightarrow> CBB \<Rightarrow> bool \<times> CBB" where
  "CBB_add_u16 A d value cbb = cbb_add_u A d (ucast value) 2 cbb"

definition CBB_add_u16le :: "allocator \<Rightarrow> nat \<Rightarrow> u16 \<Rightarrow> CBB \<Rightarrow> bool \<times> CBB" where
  "CBB_add_u16le A d value cbb = CBB_add_u16 A d (CRYPTO_bswap2 value) cbb"

definition CBB_add_u24 :: "allocator \<Rightarrow> nat \<Rightarrow> u32 \<Rightarrow> CBB \<Rightarrow> bool \<times> CBB" where
  "CBB_add_u24 A d value cbb = cbb_add_u A d (ucast value) 3 cbb"

definition CBB_add_u32 :: "allocator \<Rightarrow> nat \<Rightarrow> u32 \<Rightarrow> CBB \<Rightarrow> bool \<times> CBB" where
  "CBB_add_u32 A d value cbb = cbb_add_u A d (ucast value) 4 cbb"

definition CBB_add_u32le :: "allocator \<Rightarrow> nat \<Rightarrow> u32 \<Rightarrow> CBB \<Rightarrow> bool \<times> CBB" where
  "CBB_add_u32le A d value cbb = CBB_add_u32 A d (CRYPTO_bswap4 value) cbb"

definition CBB_add_u64 :: "allocator \<Rightarrow> nat \<Rightarrow> u64 \<Rightarrow> CBB \<Rightarrow> bool \<times> CBB" where
  "CBB_add_u64 A d value cbb = cbb_add_u A d value 8 cbb"

definition CBB_add_u64le :: "allocator \<Rightarrow> nat \<Rightarrow> u64 \<Rightarrow> CBB \<Rightarrow> bool \<times> CBB" where
  "CBB_add_u64le A d value cbb = CBB_add_u64 A d (CRYPTO_bswap8 value) cbb"

definition CBB_discard_child :: "nat \<Rightarrow> CBB \<Rightarrow> CBB" where
  "CBB_discard_child d cbb =
     (if d \<ge> length (cbb_kids cbb) then cbb
      else cbb\<lparr>cbb_base := (cbb_base cbb)\<lparr>cb_len := ch_offset (cbb_kids cbb ! d)\<rparr>,
               cbb_kids := take d (cbb_kids cbb)\<rparr>)"

section \<open>ASN.1\<close>

fun base128_len_loop :: "nat \<Rightarrow> nat \<Rightarrow> nat" where
  "base128_len_loop copy len_len =
     (if copy > 0 then base128_len_loop (copy div 128) (len_len + 1) else len_len)"

declare base128_len_loop.simps [simp del]

fun add_base128_loop :: "allocator \<Rightarrow> nat \<Rightarrow> u64 \<Rightarrow> nat \<Rightarrow> CBB \<Rightarrow> bool \<times> CBB" where
  "add_base128_loop A d v 0 cbb = (True, cbb)"
| "add_base128_loop A d v (Suc i) cbb =
     (let byte = ucast (drop_bit (7 * i) v AND 0x7f);
          byte = (if i \<noteq> 0 then byte OR 0x80 else byte)
      in cbb_then (CBB_add_u8 A d byte cbb) (add_base128_loop A d v i))"

definition add_base128_integer :: "allocator \<Rightarrow> nat \<Rightarrow> u64 \<Rightarrow> CBB \<Rightarrow> bool \<times> CBB" where
  "add_base128_integer A d v cbb =
     (let len_len = base128_len_loop (unat v) 0;
          len_len = (if len_len = 0 then 1 else len_len)
      in add_base128_loop A d v len_len cbb)"

definition CBB_add_asn1 :: "allocator \<Rightarrow> nat \<Rightarrow> CBS_ASN1_TAG \<Rightarrow> CBB \<Rightarrow> bool \<times> CBB" where
  "CBB_add_asn1 A d tag cbb =
     cbb_then (CBB_flush A d cbb) (\<lambda>cbb.
       let tag_bits = (ucast (drop_bit CBS_ASN1_TAG_SHIFT tag AND 0xe0) :: u8);
           tag_number = tag AND CBS_ASN1_TAG_NUMBER_MASK
       in cbb_then
            (if tag_number \<ge> 0x1f
             then cbb_then (CBB_add_u8 A d (tag_bits OR 0x1f) cbb) (add_base128_integer A d (ucast tag_number))
             else CBB_add_u8 A d (tag_bits OR ucast tag_number) cbb)
            (cbb_add_child A d 1 True))"

text \<open>\<open>goto err\<close>: a failure anywhere locks the \<open>CBB\<close>.\<close>

definition cbb_or_err :: "nat \<Rightarrow> bool \<times> CBB \<Rightarrow> bool \<times> CBB" where
  "cbb_or_err d r = (case r of (ok, cbb) \<Rightarrow> if ok then (True, cbb) else (False, cbb_on_error d cbb))"

text \<open>The loop over the bytes of the value; it returns \<open>started\<close> too.\<close>

fun add_uint64_loop :: "allocator \<Rightarrow> nat \<Rightarrow> u64 \<Rightarrow> nat \<Rightarrow> bool \<Rightarrow> CBB \<Rightarrow> bool option \<times> CBB" where
  "add_uint64_loop A d value 0 started cbb = (Some started, cbb)"
| "add_uint64_loop A d value (Suc k) started cbb =
     (let byte = ucast (drop_bit (8 * k) value AND 0xff) :: u8 in
      if \<not> started \<and> byte = 0 then add_uint64_loop A d value k started cbb
      else
        (case (if \<not> started \<and> byte AND 0x80 \<noteq> 0 then CBB_add_u8 A d 0 cbb else (True, cbb)) of
           (False, cbb) \<Rightarrow> (None, cbb)
         | (True, cbb) \<Rightarrow>
             (case CBB_add_u8 A d byte cbb of
                (False, cbb) \<Rightarrow> (None, cbb)
              | (True, cbb) \<Rightarrow> add_uint64_loop A d value k True cbb)))"

definition CBB_add_asn1_uint64_with_tag :: "allocator \<Rightarrow> nat \<Rightarrow> u64 \<Rightarrow> CBS_ASN1_TAG \<Rightarrow> CBB \<Rightarrow> bool \<times> CBB" where
  "CBB_add_asn1_uint64_with_tag A d value tag cbb =
     (case cbb_or_err d
             (cbb_then (CBB_add_asn1 A d tag cbb) (\<lambda>cbb.
                case add_uint64_loop A (d + 1) value 8 False cbb of
                  (None, cbb) \<Rightarrow> (False, cbb)
                | (Some started, cbb) \<Rightarrow>
                    (if \<not> started then CBB_add_u8 A (d + 1) 0 cbb else (True, cbb))))
      of (False, cbb) \<Rightarrow> (False, cbb) | (True, cbb) \<Rightarrow> CBB_flush A d cbb)"

definition CBB_add_asn1_uint64 :: "allocator \<Rightarrow> nat \<Rightarrow> u64 \<Rightarrow> CBB \<Rightarrow> bool \<times> CBB" where
  "CBB_add_asn1_uint64 A d value cbb = CBB_add_asn1_uint64_with_tag A d value CBS_ASN1_INTEGER cbb"

text \<open>The bytes of the value in memory order, the search for the first significant one, and the loop
  that appends them from there down.\<close>

definition int64_bytes :: "i64 \<Rightarrow> u8 list" where
  "int64_bytes value = rev (be_bytes 8 (unat value))"

fun int64_start :: "u8 list \<Rightarrow> nat \<Rightarrow> nat" where
  "int64_start bytes 0 = 0"
| "int64_start bytes (Suc s) =
     (if bytes ! Suc s = 0xff \<and> bytes ! s AND 0x80 \<noteq> 0 then int64_start bytes s else Suc s)"

fun add_bytes_down :: "allocator \<Rightarrow> nat \<Rightarrow> u8 list \<Rightarrow> nat \<Rightarrow> CBB \<Rightarrow> bool \<times> CBB" where
  "add_bytes_down A d bytes 0 cbb = (True, cbb)"
| "add_bytes_down A d bytes (Suc i) cbb =
     cbb_then (CBB_add_u8 A d (bytes ! i) cbb) (add_bytes_down A d bytes i)"

definition CBB_add_asn1_int64_with_tag :: "allocator \<Rightarrow> nat \<Rightarrow> i64 \<Rightarrow> CBS_ASN1_TAG \<Rightarrow> CBB \<Rightarrow> bool \<times> CBB" where
  "CBB_add_asn1_int64_with_tag A d value tag cbb =
     (if 0 \<le> sint value then CBB_add_asn1_uint64_with_tag A d value tag cbb
      else
        (let bytes = int64_bytes value; start = int64_start bytes 7
         in case cbb_or_err d
                   (cbb_then (CBB_add_asn1 A d tag cbb) (add_bytes_down A (d + 1) bytes (start + 1)))
            of (False, cbb) \<Rightarrow> (False, cbb) | (True, cbb) \<Rightarrow> CBB_flush A d cbb))"

definition CBB_add_asn1_int64 :: "allocator \<Rightarrow> nat \<Rightarrow> i64 \<Rightarrow> CBB \<Rightarrow> bool \<times> CBB" where
  "CBB_add_asn1_int64 A d value cbb = CBB_add_asn1_int64_with_tag A d value CBS_ASN1_INTEGER cbb"

definition CBB_add_asn1_octet_string :: "allocator \<Rightarrow> nat \<Rightarrow> u8 list \<Rightarrow> CBB \<Rightarrow> bool \<times> CBB" where
  "CBB_add_asn1_octet_string A d data cbb =
     cbb_or_err d
       (cbb_then (CBB_add_asn1 A d CBS_ASN1_OCTETSTRING cbb) (\<lambda>cbb.
        cbb_then (CBB_add_bytes A (d + 1) data cbb) (CBB_flush A d)))"

definition CBB_add_asn1_bool :: "allocator \<Rightarrow> nat \<Rightarrow> bool \<Rightarrow> CBB \<Rightarrow> bool \<times> CBB" where
  "CBB_add_asn1_bool A d value cbb =
     cbb_or_err d
       (cbb_then (CBB_add_asn1 A d CBS_ASN1_BOOLEAN cbb) (\<lambda>cbb.
        cbb_then (CBB_add_u8 A (d + 1) (if value then 0xff else 0) cbb) (CBB_flush A d)))"

section \<open>Object identifiers as text\<close>

definition parse_dotted_decimal :: "CBS \<Rightarrow> u64 cbs_result" where
  "parse_dotted_decimal cbs =
     cbs_bind (CBS_get_u64_decimal cbs) (\<lambda>out cbs.
       case CBS_get_u8 cbs of
         (None, cbs) \<Rightarrow> (Some out, cbs)
       | (Some dot, cbs) \<Rightarrow> (if dot = 46 \<and> CBS_len cbs > 0 then Some out else None, cbs))"

lemma decimal_nonempty [simp]: "decimal n \<noteq> []"
  by (subst decimal.simps) simp

lemma parse_dotted_decimal_consumes:
  "parse_dotted_decimal cbs = (Some a, rest) \<Longrightarrow> length rest < length cbs"
proof -
  assume "parse_dotted_decimal cbs = (Some a, rest)"
  then obtain out r where r: "CBS_get_u64_decimal cbs = (Some out, r)"
    and "length rest \<le> length r"
    by (cases "snd (CBS_get_u64_decimal cbs)")
       (auto simp: parse_dotted_decimal_def cbs_bind_Some_iff split: if_splits)
  moreover have "length r < length cbs"
    using r by (auto simp: get_u64_decimal_iff)
  ultimately show ?thesis by simp
qed

function oid_from_text_loop :: "allocator \<Rightarrow> nat \<Rightarrow> CBS \<Rightarrow> CBB \<Rightarrow> bool \<times> CBB" where
  "oid_from_text_loop A d cbs cbb =
     (if CBS_len cbs > 0 then
        (case parse_dotted_decimal cbs of
           (None, _) \<Rightarrow> (False, cbb)
         | (Some a, cbs) \<Rightarrow> cbb_then (add_base128_integer A d a cbb) (oid_from_text_loop A d cbs))
      else (True, cbb))"
  by pat_completeness auto
termination
  by (relation "measure (\<lambda>(A, d, cbs, cbb). length cbs)")
     (auto dest: parse_dotted_decimal_consumes [OF sym])

declare oid_from_text_loop.simps [simp del]

definition CBB_add_asn1_oid_from_text :: "allocator \<Rightarrow> nat \<Rightarrow> u8 list \<Rightarrow> CBB \<Rightarrow> bool \<times> CBB" where
  "CBB_add_asn1_oid_from_text A d text cbb =
     cbb_then (CBB_flush A d cbb) (\<lambda>cbb.
       case parse_dotted_decimal text of
         (None, _) \<Rightarrow> (False, cbb)
       | (Some a, cbs) \<Rightarrow>
       (case parse_dotted_decimal cbs of
         (None, _) \<Rightarrow> (False, cbb)
       | (Some b, cbs) \<Rightarrow>
           (if a > 2 \<or> (a < 2 \<and> b > 39) \<or> b > 18446744073709551615 - 80 then (False, cbb)
            else cbb_then (add_base128_integer A d (40 * a + b) cbb) (oid_from_text_loop A d cbs))))"

text \<open>\<open>snprintf\<close> with \<open>PRIu64\<close> prints the decimal digits.\<close>

definition add_decimal :: "allocator \<Rightarrow> nat \<Rightarrow> u64 \<Rightarrow> CBB \<Rightarrow> bool \<times> CBB" where
  "add_decimal A d v cbb = CBB_add_bytes A d (decimal (unat v)) cbb"

function oid_to_text_loop :: "allocator \<Rightarrow> CBS \<Rightarrow> CBB \<Rightarrow> bool \<times> CBB" where
  "oid_to_text_loop A copy cbb =
     (if CBS_len copy \<noteq> 0 then
        (case parse_base128_integer copy of
           (None, _) \<Rightarrow> (False, cbb)
         | (Some v, copy) \<Rightarrow>
             cbb_then (CBB_add_u8 A 0 46 cbb) (\<lambda>cbb.
             cbb_then (add_decimal A 0 v cbb) (oid_to_text_loop A copy)))
      else (True, cbb))"
  by pat_completeness auto
termination
  by (relation "measure (\<lambda>(A, copy, cbb). length copy)")
     (auto dest: b128.dec_consumes [OF sym])

declare oid_to_text_loop.simps [simp del]

definition CBS_asn1_oid_to_text :: "allocator \<Rightarrow> CBS \<Rightarrow> u8 list option" where
  "CBS_asn1_oid_to_text A cbs =
     (case CBB_init A 32 of
        None \<Rightarrow> None
      | Some cbb \<Rightarrow>
     (case parse_base128_integer cbs of
        (None, _) \<Rightarrow> None
      | (Some v, copy) \<Rightarrow>
     (case cbb_then
             (if v \<ge> 80
              then cbb_then (CBB_add_bytes A 0 [50, 46] cbb) (add_decimal A 0 (v - 80))
              else cbb_then (add_decimal A 0 (v div 40) cbb) (\<lambda>cbb.
                   cbb_then (CBB_add_u8 A 0 46 cbb) (add_decimal A 0 (v mod 40))))
             (\<lambda>cbb. cbb_then (oid_to_text_loop A copy cbb) (CBB_add_u8 A 0 0))
      of (False, _) \<Rightarrow> None
       | (True, cbb) \<Rightarrow> map_option fst (fst (CBB_finish A 0 True cbb)))))"

section \<open>SET OF\<close>

text \<open>\<open>OPENSSL_memcmp\<close>: the difference at the first byte that differs.\<close>

fun OPENSSL_memcmp :: "u8 list \<Rightarrow> u8 list \<Rightarrow> nat \<Rightarrow> int" where
  "OPENSSL_memcmp (a # as) (b # bs) (Suc n) =
     (if a \<noteq> b then int (unat a) - int (unat b) else OPENSSL_memcmp as bs n)"
| "OPENSSL_memcmp _ _ _ = 0"

definition compare_set_of_element :: "CBS \<Rightarrow> CBS \<Rightarrow> int" where
  "compare_set_of_element a b =
     (let a_len = CBS_len a; b_len = CBS_len b;
          min_len = (if a_len < b_len then a_len else b_len);
          ret = OPENSSL_memcmp a b min_len
      in if ret \<noteq> 0 then ret
         else if a_len = b_len then 0
         else if a_len < b_len then - 1 else 1)"

text \<open>\<open>qsort\<close> of the C library: it puts the array in ascending order of the comparison function.\<close>

fun qsort_insert :: "('a \<Rightarrow> 'a \<Rightarrow> int) \<Rightarrow> 'a \<Rightarrow> 'a list \<Rightarrow> 'a list" where
  "qsort_insert cmp x [] = [x]"
| "qsort_insert cmp x (y # ys) = (if cmp x y \<le> 0 then x # y # ys else y # qsort_insert cmp x ys)"

definition qsort :: "('a \<Rightarrow> 'a \<Rightarrow> int) \<Rightarrow> 'a list \<Rightarrow> 'a list" where
  "qsort cmp xs = foldr (qsort_insert cmp) xs []"

lemma any_asn1_element_consumes:
  "CBS_get_any_asn1_element cbs = (Some el, rest) \<Longrightarrow> length rest < length cbs"
  by (auto simp: any_asn1_element_iff der_tlv_def der_length_def)

text \<open>The children of the contents, \<open>None\<close> when they do not parse.\<close>

function set_of_children :: "CBS \<Rightarrow> CBS list option" where
  "set_of_children cbs =
     (if CBS_len cbs = 0 then Some []
      else case CBS_get_any_asn1_element cbs of
             (None, _) \<Rightarrow> None
           | (Some el, cbs) \<Rightarrow>
               (case set_of_children cbs of None \<Rightarrow> None | Some els \<Rightarrow> Some (el_out el # els)))"
  by pat_completeness auto
termination
  by (relation "measure length") (auto dest: any_asn1_element_consumes [OF sym])

declare set_of_children.simps [simp del]

definition sizeof_CBS :: nat where
  "sizeof_CBS = 16"

definition CBB_flush_asn1_set_of :: "allocator \<Rightarrow> nat \<Rightarrow> CBB \<Rightarrow> bool \<times> CBB" where
  "CBB_flush_asn1_set_of A d cbb =
     cbb_then (CBB_flush A d cbb) (\<lambda>cbb.
       let data = take (CBB_len d cbb) (drop (CBB_data d cbb) (cb_buf (cbb_base cbb)))
       in case set_of_children data of
            None \<Rightarrow> (False, cbb)
          | Some children \<Rightarrow>
              (let num_children = length children in
               if num_children < 2 then (True, cbb)
               else if OPENSSL_memdup A data = None \<or> OPENSSL_calloc A num_children sizeof_CBS = None
               then (False, cbb)
               else
                 (let children = qsort compare_set_of_element children
                  in (True, cbb_write (CBB_data d cbb) (concat children) cbb))))"

end
