(* ===== verification/Cbb_Correct.thy ===== *)
theory Cbb_Correct
  imports Cbb
begin

text \<open>
  Correctness of \<open>cbb.c\<close>. The abstract state of a \<open>CBB\<close> is the byte string that flushing yields:
  every pending child is replaced by its length prefix and contents. The invariant describes the
  buffer and the chain of children; each operation preserves it and appends, to the abstract state,
  the encoding it stands for. With a granting allocator and room in \<open>size_t\<close> the operations succeed.
\<close>

section \<open>The buffer\<close>

definition buf_inv :: "cbb_buffer \<Rightarrow> bool" where
  "buf_inv base \<longleftrightarrow> length (cb_buf base) = cb_cap base \<and> cb_len base \<le> cb_cap base \<and> cb_cap base < size_mod"

definition cb_bytes :: "cbb_buffer \<Rightarrow> u8 list" where
  "cb_bytes base = take (cb_len base) (cb_buf base)"

lemma length_cb_bytes [simp]: "buf_inv base \<Longrightarrow> length (cb_bytes base) = cb_len base"
  by (simp add: buf_inv_def cb_bytes_def)

text \<open>\<open>room A base n\<close>: the buffer holds \<open>n\<close> bytes already, or may grow to that size.\<close>

definition room :: "allocator \<Rightarrow> cbb_buffer \<Rightarrow> nat \<Rightarrow> bool" where
  "room A base n \<longleftrightarrow> n \<le> cb_cap base \<or> (cb_can_resize base \<and> (\<forall>k. malloc_ok A k) \<and> n < 2 ^ 62)"

lemma room_mono: "room A base n \<Longrightarrow> k \<le> n \<Longrightarrow> room A base k"
  by (auto simp: room_def)

definition grown :: "allocator \<Rightarrow> cbb_buffer \<Rightarrow> cbb_buffer \<Rightarrow> bool" where
  "grown A base base' \<longleftrightarrow> (\<forall>n. room A base n \<longrightarrow> room A base' n)"

lemma grown_refl [simp]: "grown A base base"
  by (simp add: grown_def)

lemma grown_trans: "grown A a b \<Longrightarrow> grown A b c \<Longrightarrow> grown A a c"
  by (simp add: grown_def)

lemma room_update [simp]:
  "room A (base\<lparr>cb_buf := x\<rparr>) n = room A base n" "room A (base\<lparr>cb_len := l\<rparr>) n = room A base n"
  by (simp_all add: room_def)

lemma grown_update [simp]:
  "grown A base (base'\<lparr>cb_buf := x\<rparr>) = grown A base base'" "grown A base (base'\<lparr>cb_len := l\<rparr>) = grown A base base'"
  by (simp_all add: grown_def)

lemma grown_eq: "cb_cap a = cb_cap b \<Longrightarrow> cb_can_resize a = cb_can_resize b \<Longrightarrow> grown A a b"
  by (simp add: grown_def room_def)

lemma reserve_ok:
  assumes inv: "buf_inv base" and n: "n < size_mod"
    and r: "cbb_buffer_reserve A base n = (Some off, base')"
  shows "off = cb_len base \<and> buf_inv base' \<and> cb_bytes base' = cb_bytes base \<and> cb_len base' = cb_len base
    \<and> cb_len base + n \<le> cb_cap base' \<and> cb_error base' = cb_error base \<and> grown A base base'"
proof -
  have len: "cb_len base < size_mod" using inv by (simp add: buf_inv_def)
  have nowrap: "cb_len base + n < size_mod"
    using r size_add_wraps [OF len n] by (auto simp: cbb_buffer_reserve_def Let_def split: if_splits)
  define newlen where "newlen = cb_len base + n"
  have nl: "size_add (cb_len base) n = newlen" using nowrap by (simp add: size_add_exact newlen_def)
  show ?thesis
  proof (cases "newlen > cb_cap base")
    case False
    then show ?thesis using r inv nl by (auto simp: cbb_buffer_reserve_def Let_def newlen_def split: if_splits)
  next
    case True
    define newcap where "newcap = (if size_mul (cb_cap base) 2 < cb_cap base \<or> size_mul (cb_cap base) 2 < newlen
        then newlen else size_mul (cb_cap base) 2)"
    have cap: "newlen \<le> newcap" "newcap < size_mod"
      using nowrap by (auto simp: newcap_def newlen_def size_mul_def size_mod_def)
    obtain newbuf where nb: "OPENSSL_realloc A (Some (cb_buf base)) newcap = Some newbuf"
      and b': "base' = base\<lparr>cb_buf := newbuf, cb_cap := newcap\<rparr>" and off: "off = cb_len base"
      and res: "cb_can_resize base"
      using r True nl
      by (auto simp: cbb_buffer_reserve_def Let_def newcap_def split: if_splits option.splits)
    have "length newbuf = newcap" "take (cb_cap base) newbuf = cb_buf base"
      using nb inv True cap by (auto simp: buf_inv_def dest!: OPENSSL_realloc_Some)
    then have "take (cb_len base) newbuf = take (cb_len base) (cb_buf base)"
      using inv by (metis buf_inv_def min.absorb1 take_take)
    then show ?thesis
      using inv b' off cap True \<open>length newbuf = newcap\<close> res
      by (auto simp: buf_inv_def cb_bytes_def newlen_def grown_def room_def)
  qed
qed

lemma reserve_succeeds:
  assumes inv: "buf_inv base" and rm: "room A base (cb_len base + n)"
  shows "\<exists>off base'. cbb_buffer_reserve A base n = (Some off, base')"
proof -
  have nowrap: "cb_len base + n < size_mod" using inv rm by (auto simp: room_def buf_inv_def size_mod_def)
  then have nl: "size_add (cb_len base) n = cb_len base + n" by (simp add: size_add_exact)
  show ?thesis
  proof (cases "cb_len base + n > cb_cap base")
    case False
    then show ?thesis by (simp add: cbb_buffer_reserve_def nl)
  next
    case True
    then have g: "cb_can_resize base" "\<forall>k. malloc_ok A k" "cb_len base + n < 2 ^ 62" using rm by (auto simp: room_def)
    have "size_mul (cb_cap base) 2 < 2 ^ 63" using True g(3) by (subst size_mul_exact) (auto simp: size_mod_def)
    then have "\<exists>b. OPENSSL_realloc A (Some (cb_buf base)) c = Some b"
      if "c = size_mul (cb_cap base) 2 \<or> c = cb_len base + n" for c
      using that g by (auto simp: OPENSSL_realloc_def OPENSSL_malloc_def OPENSSL_MALLOC_PREFIX_def
          size_add_exact size_mod_def Let_def)
    then show ?thesis using True g(1)
      by (auto simp: cbb_buffer_reserve_def nl Let_def split: option.splits) (metis option.distinct(1))+
  qed
qed

text \<open>Reserving and then writing extends the valid bytes.\<close>

lemma buffer_add_ok:
  assumes inv: "buf_inv base" and n: "n < size_mod"
    and r: "cbb_buffer_add A base n = (Some off, base')"
  shows "off = cb_len base \<and> buf_inv base' \<and> cb_len base' = cb_len base + n
    \<and> take (cb_len base) (cb_buf base') = cb_bytes base \<and> cb_error base' = cb_error base \<and> grown A base base'"
proof -
  obtain b where b: "cbb_buffer_reserve A base n = (Some off, b)" and b': "base' = b\<lparr>cb_len := cb_len b + n\<rparr>"
    using r by (auto simp: cbb_buffer_add_def split: prod.splits option.splits)
  note ok = reserve_ok [OF inv n b]
  have "grown A b base'" by (rule grown_eq) (simp_all add: b')
  then have "grown A base base'" using ok grown_trans by blast
  then show ?thesis using ok by (auto simp: b' buf_inv_def cb_bytes_def)
qed

lemma buffer_add_succeeds:
  "buf_inv base \<Longrightarrow> room A base (cb_len base + n) \<Longrightarrow> \<exists>off base'. cbb_buffer_add A base n = (Some off, base')"
  using reserve_succeeds [of base A n] by (auto simp: cbb_buffer_add_def)

lemma list_update_write_at: "i < length xs \<Longrightarrow> xs[i := x] = write_at i [x] xs"
  by (simp add: write_at_def upd_conv_take_nth_drop)

lemma store_be_loop_eq:
  "off + n \<le> length buf \<Longrightarrow> store_be_loop n off v buf = (write_at off (be_bytes n v) buf, v div 256 ^ n)"
proof (induction n arbitrary: v buf)
  case (Suc n)
  then have "store_be_loop (Suc n) off v buf =
      (write_at off (be_bytes n (v div 256)) (write_at (off + n) [word_of_nat v] buf), v div 256 div 256 ^ n)"
    by (simp add: list_update_write_at)
  also have "write_at off (be_bytes n (v div 256)) (write_at (off + n) [word_of_nat v] buf)
      = write_at off (be_bytes (Suc n) v) buf"
    using Suc.prems by (simp add: write_at_def)
  finally show ?case by (simp add: div_mult2_eq)
qed simp

section \<open>Length prefixes\<close>

definition child_enc :: "cbb_child \<Rightarrow> u8 list \<Rightarrow> u8 list" where
  "child_enc c body =
     (if ch_pending_is_asn1 c then der_length (length body) else be_bytes (ch_pending_len_len c) (length body)) @ body"

definition child_fits :: "cbb_child \<Rightarrow> nat \<Rightarrow> bool" where
  "child_fits c n \<longleftrightarrow> (if ch_pending_is_asn1 c then n \<le> 0xfffffffe else n < 256 ^ ch_pending_len_len c)"

lemma be_min_be_bytes:
  assumes "256 ^ k \<le> n" "n < 256 ^ Suc k"
  shows "be_min n = be_bytes (Suc k) n"
proof -
  have n: "be_nat (be_bytes (Suc k) n) = n" using assms(2) by (simp add: be_nat_be_bytes del: be_bytes.simps)
  have ne: "be_bytes (Suc k) n \<noteq> []" by simp
  have "n div 256 ^ k \<noteq> 0" using assms(1) by (simp add: div_eq_0_iff)
  then have "hd (be_bytes (Suc k) n) \<noteq> 0"
    using be_nat_lead [OF ne] n by (auto simp del: be_bytes.simps simp: word_unat_eq_iff)
  then show ?thesis using be_min_be_nat [of "be_bytes (Suc k) n"] by (simp only: n simp_thms)
qed

text \<open>The choice of the length form in \<open>CBB_flush\<close>.\<close>

definition asn1_len_form :: "nat \<Rightarrow> nat \<times> u8 \<times> nat" where
  "asn1_len_form len =
     (if len > 0xffffff then (5, 0x80 OR 4, len) else if len > 0xffff then (4, 0x80 OR 3, len)
      else if len > 0xff then (3, 0x80 OR 2, len) else if len > 0x7f then (2, 0x80 OR 1, len)
      else (1, word_of_nat len, 0))"

lemma asn1_len_form:
  assumes "len \<le> 0xfffffffe" "asn1_len_form len = (l, b, v)"
  shows "1 \<le> l \<and> l \<le> 5 \<and> der_length len = b # be_bytes (l - 1) v \<and> v div 256 ^ (l - 1) = 0
     \<and> length (der_length len) = l \<and> (l \<noteq> 1 \<longrightarrow> v = len)"
proof -
  have long: "der_length len = b # be_bytes (l - 1) v \<and> v div 256 ^ (l - 1) = 0
       \<and> length (der_length len) = l \<and> v = len"
    if "l = Suc (Suc k)" "b = word_of_nat (128 + Suc k)" "v = len" "256 ^ k \<le> len" "len < 256 ^ Suc k" "127 < len" for k
    using that be_min_be_bytes [OF that(4,5)]
    by (simp add: der_length_def div_eq_0_iff del: be_bytes.simps of_nat_add of_nat_Suc power_Suc)
  consider "len > 0xffffff" | "0xffff < len" "len \<le> 0xffffff" | "0xff < len" "len \<le> 0xffff"
    | "0x7f < len" "len \<le> 0xff" | "len \<le> 0x7f" by linarith
  then show ?thesis
  proof cases
    case 1 then show ?thesis using assms long [of 3] by (auto simp: asn1_len_form_def)
  next
    case 2 then show ?thesis using assms long [of 2] by (auto simp: asn1_len_form_def)
  next
    case 3 then show ?thesis using assms long [of 1] by (auto simp: asn1_len_form_def)
  next
    case 4 then show ?thesis using assms long [of 0] by (auto simp: asn1_len_form_def)
  next
    case 5 then show ?thesis using assms(2) by (auto simp: asn1_len_form_def der_length_def)
  qed
qed

text \<open>The two ways of writing a prefix, over the array.\<close>

lemma take_write_prefix:
  assumes "off + length p \<le> n" "n \<le> length buf"
  shows "take n (write_at off p buf) = take off buf @ p @ drop (off + length p) (take n buf)"
proof -
  have "off \<le> length buf" using assms by simp
  then show ?thesis using assms by (simp add: write_at_def drop_take)
qed

text \<open>\<open>CBB_flush\<close> after the recursive call, with the two forms of the prefix taken apart.\<close>

definition flush_finish :: "nat \<Rightarrow> nat \<Rightarrow> nat \<Rightarrow> cbb_buffer \<Rightarrow> bool \<times> cbb_buffer" where
  "flush_finish offset pending_len_len len base =
     (case store_be_loop pending_len_len offset len (cb_buf base) of (buf, len) \<Rightarrow>
        (let base = base\<lparr>cb_buf := buf\<rparr> in if len \<noteq> 0 then (False, buffer_error base) else (True, base)))"

lemma flush_child_eq:
  assumes "buf_inv base" "ch_offset c + ch_pending_len_len c \<le> cb_len base"
  defines "start \<equiv> ch_offset c + ch_pending_len_len c"
  defines "len \<equiv> cb_len base - start"
  shows "flush_child A c base =
    (if ch_pending_is_asn1 c then
       (if len > 0xfffffffe then (False, buffer_error base)
        else case asn1_len_form len of (l, b, v) \<Rightarrow>
          (case (if l \<noteq> 1 then
                   (case cbb_buffer_add A base (l - 1) of
                      (None, base) \<Rightarrow> (None, base)
                    | (Some _, base) \<Rightarrow>
                        (Some (), base\<lparr>cb_buf := write_at (start + (l - 1))
                           (take len (drop start (cb_buf base))) (cb_buf base)\<rparr>))
                 else (Some (), base)) of
             (None, base) \<Rightarrow> (False, buffer_error base)
           | (Some _, base) \<Rightarrow>
               flush_finish (ch_offset c + 1) (l - 1) v (base\<lparr>cb_buf := (cb_buf base)[ch_offset c := b]\<rparr>)))
     else flush_finish (ch_offset c) (ch_pending_len_len c) len base)"
proof -
  have "start < size_mod" using assms(1,2) by (simp add: buf_inv_def start_def)
  then have st: "size_add (ch_offset c) (ch_pending_len_len c) = start" by (simp add: size_add_exact start_def)
  show ?thesis
    unfolding flush_child_def st Let_def len_def [symmetric] flush_finish_def asn1_len_form_def
    using assms(2) by (auto simp: start_def split: prod.splits)
qed

lemma flush_finish_ok:
  assumes "buf_inv base" "off + n \<le> cb_len base"
  shows "flush_finish off n len base =
    (if len div 256 ^ n \<noteq> 0 then (False, buffer_error (base\<lparr>cb_buf := write_at off (be_bytes n len) (cb_buf base)\<rparr>))
     else (True, base\<lparr>cb_buf := write_at off (be_bytes n len) (cb_buf base)\<rparr>))"
  using assms by (simp add: flush_finish_def store_be_loop_eq buf_inv_def)

lemma buf_inv_write:
  "buf_inv base \<Longrightarrow> off + length bs \<le> cb_len base \<Longrightarrow> buf_inv (base\<lparr>cb_buf := write_at off bs (cb_buf base)\<rparr>)"
  by (simp add: buf_inv_def)

definition flush_post :: "allocator \<Rightarrow> cbb_child \<Rightarrow> cbb_buffer \<Rightarrow> cbb_buffer \<Rightarrow> bool" where
  "flush_post A c base base' \<longleftrightarrow>
     buf_inv base' \<and> cb_error base' = cb_error base \<and> grown A base base'
     \<and> (let n = ch_offset c + ch_pending_len_len c in
        child_fits c (cb_len base - n) \<and> cb_bytes base' = take (ch_offset c) (cb_bytes base) @ child_enc c (drop n (cb_bytes base)))"

lemma flush_child_plain:
  assumes inv: "buf_inv base" and st: "ch_offset c + ch_pending_len_len c \<le> cb_len base" and plain: "\<not> ch_pending_is_asn1 c"
  defines "len \<equiv> cb_len base - (ch_offset c + ch_pending_len_len c)"
  shows "if child_fits c len then \<exists>base'. flush_child A c base = (True, base') \<and> flush_post A c base base'
         else \<not> fst (flush_child A c base)"
proof -
  let ?p = "be_bytes (ch_pending_len_len c) len"
  let ?b = "base\<lparr>cb_buf := write_at (ch_offset c) ?p (cb_buf base)\<rparr>"
  have eq: "flush_child A c base = flush_finish (ch_offset c) (ch_pending_len_len c) len base"
    unfolding flush_child_eq [OF inv st] len_def using plain by simp
  have fit: "len div 256 ^ ch_pending_len_len c = 0 \<longleftrightarrow> child_fits c len"
    using plain by (simp add: child_fits_def div_eq_0_iff)
  define body where "body = drop (ch_offset c + ch_pending_len_len c) (cb_bytes base)"
  have lb: "length body = len" using inv by (simp add: body_def len_def)
  have bytes: "cb_bytes ?b = take (ch_offset c) (cb_bytes base) @ ?p @ body"
    using inv st take_write_prefix [of "ch_offset c" ?p "cb_len base" "cb_buf base"]
    by (simp add: cb_bytes_def body_def buf_inv_def min.absorb1)
  have "flush_post A c base ?b" if "child_fits c len"
    using that inv st plain bytes lb buf_inv_write [OF inv, of "ch_offset c" ?p]
    by (auto simp: flush_post_def Let_def len_def child_enc_def body_def intro: grown_eq)
  then show ?thesis unfolding eq flush_finish_ok [OF inv st] fit by auto
qed

lemma flush_child_asn1_ok:
  assumes inv: "buf_inv base" and st: "ch_offset c + 1 \<le> cb_len base"
    and asn1: "ch_pending_is_asn1 c" "ch_pending_len_len c = 1"
  defines "len \<equiv> cb_len base - (ch_offset c + 1)"
  shows "flush_child A c base = (True, base') \<Longrightarrow> flush_post A c base base'"
    and "child_fits c len \<Longrightarrow> room A base (ch_offset c + length (der_length len) + len) \<Longrightarrow> fst (flush_child A c base)"
proof -
  have st': "ch_offset c + ch_pending_len_len c \<le> cb_len base" using st asn1 by simp
  define off start where "off = ch_offset c" and "start = ch_offset c + 1"
  obtain l b v where form: "asn1_len_form len = (l, b, v)" by (metis prod_cases3)
  define step where "step = (if l \<noteq> 1 then
                   (case cbb_buffer_add A base (l - 1) of
                      (None, base) \<Rightarrow> (None, base)
                    | (Some _, base) \<Rightarrow>
                        (Some (), base\<lparr>cb_buf := write_at (start + (l - 1))
                           (take len (drop start (cb_buf base))) (cb_buf base)\<rparr>))
                 else (Some (), base))"
  have eq: "flush_child A c base =
    (if len > 0xfffffffe then (False, buffer_error base)
     else case step of
             (None, base) \<Rightarrow> (False, buffer_error base)
           | (Some _, base) \<Rightarrow> flush_finish start (l - 1) v (base\<lparr>cb_buf := (cb_buf base)[off := b]\<rparr>))"
  proof -
    have s: "ch_offset c + ch_pending_len_len c = start" "cb_len base - start = len" "ch_offset c + 1 = start"
      using asn1 by (simp_all add: start_def len_def)
    show ?thesis
      unfolding flush_child_eq [OF inv st', unfolded s] form prod.case step_def off_def [symmetric]
      by (simp only: asn1(1) if_True)
  qed
  define body where "body = drop start (cb_bytes base)"
  have lb: "length body = len" using inv by (simp add: body_def len_def start_def)
  have len0: "cb_len base = start + len" using st by (simp add: len_def start_def)
  have final: "fst (flush_child A c base) \<and> (\<forall>base'. flush_child A c base = (True, base') \<longrightarrow> flush_post A c base base')"
    if fit: "len \<le> 0xfffffffe" and s: "step = (Some (), b1)" for b1
  proof -
    note f = asn1_len_form [OF fit form]
    have b1: "buf_inv b1 \<and> cb_len b1 = start + (l - 1) + len \<and> cb_error b1 = cb_error base \<and> grown A base b1
       \<and> take off (cb_buf b1) = take off (cb_bytes base) \<and> drop (start + (l - 1)) (take (cb_len b1) (cb_buf b1)) = body"
    proof (cases "l = 1")
      case True
      then have "b1 = base" using s by (simp add: step_def)
      then show ?thesis using True inv len0 st
        by (simp add: body_def cb_bytes_def off_def min.absorb1)
    next
      case False
      then obtain o' b0 where b0: "cbb_buffer_add A base (l - 1) = (Some o', b0)"
        and b1: "b1 = b0\<lparr>cb_buf := write_at (start + (l - 1)) (take len (drop start (cb_buf b0))) (cb_buf b0)\<rparr>"
        using s by (auto simp: step_def split: prod.splits option.splits)
      have "l - 1 < size_mod" using f unfolding size_mod_def by linarith
      note a = buffer_add_ok [OF inv this b0]
      have m: "take len (drop start (cb_buf b0)) = body"
        using a len0 by (metis add_diff_cancel_left' body_def drop_take)
      have l0: "cb_len b0 = start + (l - 1) + len" "cb_len b0 \<le> length (cb_buf b0)"
        using a len0 by (simp_all add: buf_inv_def)
      then have "start + (l - 1) + length body \<le> length (cb_buf b0)" using lb by simp
      then have w: "take (start + (l - 1) + length body) (write_at (start + (l - 1)) body (cb_buf b0))
          = take (start + (l - 1)) (cb_buf b0) @ body" by (rule take_write_at)
      have "take off (cb_buf b0) = take off (cb_bytes base)"
        using a st by (metis add_leD1 min.absorb1 off_def take_take)
      moreover have "take off (write_at (start + (l - 1)) body (cb_buf b0)) = take off (cb_buf b0)"
        using l0 by (intro take_write_at_before) (auto simp: off_def start_def)
      moreover have "drop (start + (l - 1)) (take (start + (l - 1)) (cb_buf b0) @ body) = body"
        using l0 by simp
      moreover have "grown A base b1"
        using a by (simp add: b1)
      ultimately show ?thesis
        using a l0 lb w buf_inv_write [of b0 "start + (l - 1)" body]
        by (simp add: b1 m)
    qed
    let ?b2 = "b1\<lparr>cb_buf := write_at off (der_length len) (cb_buf b1)\<rparr>"
    have ol: "off + length (der_length len) = start + (l - 1)" using f by (simp add: off_def start_def)
    have fits: "off + length (der_length len) \<le> cb_len b1" using b1 ol by simp
    have "flush_child A c base = flush_finish start (l - 1) v (b1\<lparr>cb_buf := write_at off [b] (cb_buf b1)\<rparr>)"
      using fit b1 unfolding eq s by (simp add: list_update_write_at buf_inv_def off_def start_def)
    also have "\<dots> = (True, ?b2)"
    proof -
      let ?b1 = "b1\<lparr>cb_buf := write_at off [b] (cb_buf b1)\<rparr>"
      have i: "buf_inv ?b1" using b1 by (intro buf_inv_write) (auto simp: off_def start_def)
      have "start + (l - 1) \<le> cb_len ?b1" using b1 by simp
      moreover have "write_at start (be_bytes (l - 1) v) (write_at off [b] (cb_buf b1)) = write_at off (der_length len) (cb_buf b1)"
        using f fits b1 write_at_append [of off "[b]" "be_bytes (l - 1) v" "cb_buf b1"]
        by (simp add: off_def start_def buf_inv_def)
      ultimately show ?thesis using flush_finish_ok [OF i] f by simp
    qed
    finally have res: "flush_child A c base = (True, ?b2)" .
    have "cb_bytes ?b2 = take off (cb_bytes base) @ der_length len @ body"
    proof -
      have "cb_bytes ?b2 = take off (cb_buf b1) @ der_length len @ drop (start + (l - 1)) (take (cb_len b1) (cb_buf b1))"
        using fits b1 take_write_prefix [of off "der_length len" "cb_len b1" "cb_buf b1"]
        by (simp add: cb_bytes_def buf_inv_def ol)
      then show ?thesis using b1 by metis
    qed
    then have "flush_post A c base ?b2"
      using b1 fit asn1 lb len0 buf_inv_write [OF _ fits]
      by (auto simp: flush_post_def Let_def child_fits_def child_enc_def off_def start_def body_def intro: grown_trans grown_eq)
    with res show ?thesis by simp
  qed
  show "flush_child A c base = (True, base') \<Longrightarrow> flush_post A c base base'"
    using final eq by (cases step; cases "fst step") (auto split: if_splits)
  show "fst (flush_child A c base)" if fits: "child_fits c len"
    and rm: "room A base (ch_offset c + length (der_length len) + len)"
  proof -
    have fit: "len \<le> 0xfffffffe" using fits asn1 by (simp add: child_fits_def)
    note f = asn1_len_form [OF fit form]
    have "room A base (cb_len base + (l - 1))"
      using rm f len0 by (simp add: start_def add.commute add.left_commute)
    from buffer_add_succeeds [OF inv this] have "\<exists>b1. step = (Some (), b1)" by (auto simp: step_def)
    then show ?thesis using final fit by blast
  qed
qed

section \<open>The chain of children\<close>

fun chain_ok :: "cbb_child list \<Rightarrow> nat \<Rightarrow> bool" where
  "chain_ok [] n = True"
| "chain_ok (c # cs) n \<longleftrightarrow>
     ch_offset c + ch_pending_len_len c \<le> (case cs of [] \<Rightarrow> n | c' # _ \<Rightarrow> ch_offset c')
     \<and> (ch_pending_is_asn1 c \<longrightarrow> ch_pending_len_len c = 1) \<and> chain_ok cs n"

fun flush_bytes :: "cbb_child list \<Rightarrow> u8 list \<Rightarrow> u8 list" where
  "flush_bytes [] bs = bs"
| "flush_bytes (c # cs) bs =
     (let bs = flush_bytes cs bs
      in take (ch_offset c) bs @ child_enc c (drop (ch_offset c + ch_pending_len_len c) bs))"

text \<open>What lies before the first child of a chain stays as it is.\<close>

definition chain_start :: "cbb_child list \<Rightarrow> nat \<Rightarrow> nat" where
  "chain_start cs n = (case cs of [] \<Rightarrow> n | c # _ \<Rightarrow> ch_offset c)"

lemma chain_start_le: "chain_ok cs n \<Longrightarrow> chain_start cs n \<le> n"
proof (induction cs)
  case (Cons c cs)
  then show ?case by (cases cs) (auto simp: chain_start_def)
qed (simp add: chain_start_def)

lemma flush_bytes_start:
  "chain_ok cs (length bs) \<Longrightarrow>
   chain_start cs (length bs) \<le> length (flush_bytes cs bs)
   \<and> take (chain_start cs (length bs)) (flush_bytes cs bs) = take (chain_start cs (length bs)) bs"
proof (induction cs)
  case (Cons c cs)
  define n where "n = chain_start cs (length bs)"
  have le: "ch_offset c \<le> n" using Cons.prems by (auto simp: n_def chain_start_def)
  have ih: "n \<le> length (flush_bytes cs bs)" "take n (flush_bytes cs bs) = take n bs"
    using Cons by (auto simp: n_def)
  then have "take (ch_offset c) (flush_bytes cs bs) = take (ch_offset c) bs"
    using le by (metis min.absorb1 take_take)
  moreover have "ch_offset c \<le> length bs"
    using le chain_start_le [of cs "length bs"] Cons.prems by (simp add: n_def)
  ultimately show ?case using ih le by (simp add: chain_start_def Let_def)
qed (simp add: chain_start_def)

lemma flush_chain_ok:
  assumes "buf_inv base" "chain_ok cs (cb_len base)" "flush_chain A cs base = (True, base')"
  shows "buf_inv base' \<and> \<not> cb_error base' \<and> \<not> cb_error base \<and> grown A base base'
    \<and> cb_bytes base' = flush_bytes cs (cb_bytes base)"
  using assms
proof (induction cs arbitrary: base')
  case (Cons c cs)
  have ne: "\<not> cb_error base" using Cons.prems(3) by (auto split: if_splits)
  then obtain b1 where f1: "flush_chain A cs base = (True, b1)" and f2: "flush_child A c b1 = (True, base')"
    using Cons.prems(3) by (auto split: prod.splits bool.splits)
  note ih = Cons.IH [OF Cons.prems(1) _ f1]
  have ok: "chain_ok cs (cb_len base)" using Cons.prems(2) by simp
  have len1: "cb_len b1 = length (flush_bytes cs (cb_bytes base))" using ih [OF ok] by (metis length_cb_bytes)
  have "ch_offset c + ch_pending_len_len c \<le> chain_start cs (cb_len base)"
    using Cons.prems(2) by (simp add: chain_start_def)
  also have "\<dots> \<le> cb_len b1"
    using flush_bytes_start [of cs "cb_bytes base"] ok Cons.prems(1) len1 by simp
  finally have st: "ch_offset c + ch_pending_len_len c \<le> cb_len b1" .
  have "flush_post A c b1 base'"
  proof (cases "ch_pending_is_asn1 c")
    case True
    then have "ch_pending_len_len c = 1" using Cons.prems(2) by simp
    with True st f2 ih [OF ok] show ?thesis using flush_child_asn1_ok(1) [of b1 c A base'] by simp
  next
    case False
    with st f2 ih [OF ok] show ?thesis using flush_child_plain [of b1 c A] by (auto split: if_splits)
  qed
  then show ?case using ih [OF ok] ne by (auto simp: flush_post_def Let_def intro: grown_trans)
qed (auto simp: buf_inv_def)

section \<open>Appending\<close>

definition cbb_inv :: "CBB \<Rightarrow> bool" where
  "cbb_inv cbb \<longleftrightarrow> buf_inv (cbb_base cbb) \<and> chain_ok (cbb_kids cbb) (cb_len (cbb_base cbb))"

text \<open>The contents once everything below position \<open>d\<close> is flushed.\<close>

definition cbb_view :: "nat \<Rightarrow> CBB \<Rightarrow> u8 list" where
  "cbb_view d cbb = flush_bytes (drop d (cbb_kids cbb)) (cb_bytes (cbb_base cbb))"

lemma chain_ok_drop: "chain_ok cs n \<Longrightarrow> chain_ok (drop d cs) n"
  by (induction cs arbitrary: d) (auto simp: drop_Cons split: nat.splits)

lemma chain_ok_take:
  "chain_ok cs n \<Longrightarrow> chain_start (drop d cs) n \<le> m \<Longrightarrow> chain_ok (take d cs) m"
proof (induction cs arbitrary: d)
  case (Cons c cs)
  show ?case
  proof (cases d)
    case (Suc k)
    with Cons have "chain_ok (take k cs) m" by simp
    moreover have "ch_offset c + ch_pending_len_len c \<le> (case take k cs of [] \<Rightarrow> m | c' # _ \<Rightarrow> ch_offset c')"
      using Cons.prems Suc by (cases cs; cases k) (auto simp: chain_start_def)
    ultimately show ?thesis using Cons.prems Suc by simp
  qed simp
qed simp

lemma chain_ok_mono: "chain_ok cs n \<Longrightarrow> n \<le> m \<Longrightarrow> chain_ok cs m"
  by (induction cs) (auto split: list.splits)

lemma flush_ok:
  assumes "cbb_inv cbb" "CBB_flush A d cbb = (True, cbb')"
  shows "d \<le> length (cbb_kids cbb) \<and> cbb_inv cbb' \<and> cbb_kids cbb' = take d (cbb_kids cbb)
    \<and> cb_bytes (cbb_base cbb') = cbb_view d cbb \<and> \<not> cb_error (cbb_base cbb)
    \<and> \<not> cb_error (cbb_base cbb') \<and> grown A (cbb_base cbb) (cbb_base cbb')"
proof -
  let ?cs = "drop d (cbb_kids cbb)"
  from assms(2) have d: "d \<le> length (cbb_kids cbb)"
    and f: "flush_chain A ?cs (cbb_base cbb) = (True, cbb_base cbb')" and k: "cbb_kids cbb' = take d (cbb_kids cbb)"
    by (auto simp: CBB_flush_def split: if_splits prod.splits)
  have inv: "buf_inv (cbb_base cbb)" "chain_ok ?cs (cb_len (cbb_base cbb))"
    using assms(1) by (auto simp: cbb_inv_def chain_ok_drop)
  note r = flush_chain_ok [OF inv f]
  have "chain_start ?cs (cb_len (cbb_base cbb)) \<le> cb_len (cbb_base cbb')"
    using flush_bytes_start [of ?cs "cb_bytes (cbb_base cbb)"] inv r by (metis length_cb_bytes)
  then have "chain_ok (take d (cbb_kids cbb)) (cb_len (cbb_base cbb'))"
    using assms(1) by (auto simp: cbb_inv_def intro: chain_ok_take)
  then show ?thesis using r d k by (simp add: cbb_inv_def cbb_view_def)
qed

text \<open>\<open>appends A d f bs\<close>: a successful \<open>f\<close> flushes \<open>d\<close> and appends \<open>bs\<close>; with no child pending and room
  for \<open>bs\<close> it does succeed.\<close>

definition append_post :: "allocator \<Rightarrow> nat \<Rightarrow> u8 list \<Rightarrow> CBB \<Rightarrow> CBB \<Rightarrow> bool" where
  "append_post A d bs cbb cbb' \<longleftrightarrow>
     d \<le> length (cbb_kids cbb) \<and> cbb_inv cbb' \<and> cbb_kids cbb' = take d (cbb_kids cbb)
     \<and> cb_bytes (cbb_base cbb') = cbb_view d cbb @ bs
     \<and> \<not> cb_error (cbb_base cbb') \<and> grown A (cbb_base cbb) (cbb_base cbb')"

definition ready :: "allocator \<Rightarrow> nat \<Rightarrow> nat \<Rightarrow> CBB \<Rightarrow> bool" where
  "ready A d n cbb \<longleftrightarrow> cbb_inv cbb \<and> \<not> cb_error (cbb_base cbb) \<and> d = length (cbb_kids cbb)
     \<and> room A (cbb_base cbb) (cb_len (cbb_base cbb) + n)"

definition appends :: "allocator \<Rightarrow> nat \<Rightarrow> (CBB \<Rightarrow> bool \<times> CBB) \<Rightarrow> u8 list \<Rightarrow> bool" where
  "appends A d f bs \<longleftrightarrow>
     (\<forall>cbb cbb'. cbb_inv cbb \<longrightarrow> f cbb = (True, cbb') \<longrightarrow> append_post A d bs cbb cbb')
     \<and> (\<forall>cbb. ready A d (length bs) cbb \<longrightarrow> fst (f cbb))"

lemma appendsD: "appends A d f bs \<Longrightarrow> cbb_inv cbb \<Longrightarrow> f cbb = (True, cbb') \<Longrightarrow> append_post A d bs cbb cbb'"
  by (simp add: appends_def)

lemma appendsD': "appends A d f bs \<Longrightarrow> ready A d (length bs) cbb \<Longrightarrow> \<exists>cbb'. f cbb = (True, cbb') \<and> append_post A d bs cbb cbb'"
proof -
  assume a: "appends A d f bs" "ready A d (length bs) cbb"
  then have "fst (f cbb)" "cbb_inv cbb" by (simp_all add: appends_def ready_def)
  then obtain cbb' where "f cbb = (True, cbb')" by (cases "f cbb") simp
  then show ?thesis using a appendsD \<open>cbb_inv cbb\<close> by blast
qed

lemma cbb_view_end [simp]: "d = length (cbb_kids cbb) \<Longrightarrow> cbb_view d cbb = cb_bytes (cbb_base cbb)"
  by (simp add: cbb_view_def)

lemma cbb_then_True: "cbb_then r f = (True, cbb') \<longleftrightarrow> (\<exists>cbb. r = (True, cbb) \<and> f cbb = (True, cbb'))"
  by (cases r; cases "fst r") (auto simp: cbb_then_def)

lemma append_post_trans:
  assumes "append_post A d bs c1 c2" "append_post A d cs c2 c3"
  shows "append_post A d (bs @ cs) c1 c3"
  using assms by (auto simp: append_post_def min_def cbb_view_def intro: grown_trans)

lemma append_post_ready:
  assumes "append_post A d bs c1 c2" "ready A d (length bs + n) c1"
  shows "ready A d n c2"
proof -
  have "cb_len (cbb_base c2) = cb_len (cbb_base c1) + length bs"
  proof -
    have v: "cb_bytes (cbb_base c2) = cb_bytes (cbb_base c1) @ bs" "buf_inv (cbb_base c1)" "buf_inv (cbb_base c2)"
      using assms by (simp_all add: append_post_def ready_def cbb_inv_def)
    show ?thesis using arg_cong [OF v(1), of length] v(2,3) by simp
  qed
  then show ?thesis using assms by (auto simp: append_post_def ready_def grown_def add.assoc)
qed

lemma ready_mono: "ready A d n cbb \<Longrightarrow> k \<le> n \<Longrightarrow> ready A d k cbb"
  by (auto simp: ready_def intro: room_mono)

lemma appends_then:
  assumes "appends A d f bs" "appends A d g cs"
  shows "appends A d (\<lambda>cbb. cbb_then (f cbb) g) (bs @ cs)"
  unfolding appends_def
proof (intro conjI allI impI)
  fix cbb cbb' assume "cbb_inv cbb" "cbb_then (f cbb) g = (True, cbb')"
  then obtain c1 where f: "append_post A d bs cbb c1" and g: "g c1 = (True, cbb')"
    using appendsD [OF assms(1)] by (auto simp: cbb_then_True)
  then have "cbb_inv c1" by (simp add: append_post_def)
  then show "append_post A d (bs @ cs) cbb cbb'"
    using append_post_trans [OF f appendsD [OF assms(2) _ g]] by simp
next
  fix cbb assume r: "ready A d (length (bs @ cs)) cbb"
  then have "ready A d (length bs) cbb" by (rule ready_mono) simp
  from appendsD' [OF assms(1) this] obtain c1 where c1: "f cbb = (True, c1)" "append_post A d bs cbb c1" by blast
  then have "ready A d (length cs) c1" using r append_post_ready by simp
  from appendsD' [OF assms(2) this] obtain c2 where "g c1 = (True, c2)" by blast
  with c1 show "fst (cbb_then (f cbb) g)" by (simp add: cbb_then_def)
qed

lemma flush_ready:
  assumes "ready A d n cbb"
  shows "CBB_flush A d cbb = (True, cbb)"
  using assms by (simp add: CBB_flush_def ready_def)

lemma appends_flush: "appends A d (CBB_flush A d) []"
  unfolding appends_def append_post_def using flush_ok by (auto simp: flush_ready)

lemma appends_flush_then: "appends A d (\<lambda>cbb. cbb_then (CBB_flush A d cbb) f) bs" if "appends A d f bs"
  using appends_then [OF appends_flush that] by simp

text \<open>The common part of all operations that write: make space, then fill it.\<close>

lemma add_space_ok:
  assumes "cbb_inv cbb" "n < size_mod" "CBB_add_space A d n cbb = (Some out, c1)" "length bs = n"
  shows "append_post A d bs cbb (cbb_write out bs c1)"
proof -
  obtain c0 where f: "CBB_flush A d cbb = (True, c0)" and a: "cbb_buffer_add A (cbb_base c0) n = (Some out, cbb_base c1)"
    and k: "cbb_kids c1 = cbb_kids c0"
    using assms(3) by (auto simp: CBB_add_space_def split: prod.splits bool.splits)
  note fo = flush_ok [OF assms(1) f]
  then have inv0: "buf_inv (cbb_base c0)" by (simp add: cbb_inv_def)
  note ad = buffer_add_ok [OF inv0 assms(2) a]
  have out: "out + length bs = cb_len (cbb_base c1)" "out = length (cb_bytes (cbb_base c0))" using ad assms(4) inv0 by simp_all
  have "cb_bytes (cbb_base (cbb_write out bs c1)) = cb_bytes (cbb_base c0) @ bs"
  proof -
    have "cb_len (cbb_base c1) \<le> length (cb_buf (cbb_base c1))" using ad by (simp add: buf_inv_def)
    then show ?thesis
      using take_write_at [of out bs "cb_buf (cbb_base c1)"] out ad by (simp add: cbb_write_def cb_bytes_def)
  qed
  moreover have "buf_inv (cbb_base (cbb_write out bs c1))"
    using ad out by (simp add: cbb_write_def buf_inv_write)
  moreover have "chain_ok (cbb_kids c0) (cb_len (cbb_base c1))"
    using conjunct1 [OF conjunct2 [OF fo]] ad chain_ok_mono [of "cbb_kids c0" "cb_len (cbb_base c0)" "cb_len (cbb_base c1)"]
    by (simp add: cbb_inv_def)
  moreover have "grown A (cbb_base cbb) (cbb_base c1)" using fo ad grown_trans by blast
  ultimately show ?thesis using fo ad k
    by (simp add: append_post_def cbb_inv_def) (simp add: cbb_write_def)
qed

lemma add_space_succeeds:
  assumes "ready A d n cbb"
  shows "\<exists>out c1. CBB_add_space A d n cbb = (Some out, c1)"
  using assms buffer_add_succeeds [of "cbb_base cbb" A n]
  by (auto simp: CBB_add_space_def flush_ready ready_def cbb_inv_def)

lemma appends_add_bytes: "length bs < size_mod \<Longrightarrow> appends A d (CBB_add_bytes A d bs) bs"
  unfolding appends_def CBB_add_bytes_def
  using add_space_ok [of _ "length bs" A d] add_space_succeeds [of A d "length bs"]
  by (fastforce split: prod.splits option.splits)

lemma appends_add_zeros: "n < size_mod \<Longrightarrow> appends A d (CBB_add_zeros A d n) (replicate n 0)"
  unfolding appends_def CBB_add_zeros_def
  using add_space_ok [of _ n A d _ _ "replicate n 0"] add_space_succeeds [of A d n]
  by (fastforce split: prod.splits option.splits)

lemma appends_add_u:
  assumes "unat v < 256 ^ n" "n \<le> 8"
  shows "appends A d (\<lambda>cbb. cbb_add_u A d v n cbb) (be_bytes n (unat v))"
proof -
  have n: "n < size_mod" using assms(2) by (simp add: size_mod_def)
  have eq: "cbb_add_u A d v n cbb =
      (case CBB_add_space A d n cbb of (None, cbb) \<Rightarrow> (False, cbb)
       | (Some out, cbb) \<Rightarrow> (True, cbb_write out (be_bytes n (unat v)) cbb))" if inv: "cbb_inv cbb" for cbb
  proof (cases "CBB_add_space A d n cbb")
    case (Pair r c1)
    show ?thesis
    proof (cases r)
      case None
      then show ?thesis by (simp add: cbb_add_u_def Pair)
    next
      case (Some out)
      have "out + n \<le> length (cb_buf (cbb_base c1))"
      proof -
        obtain c0 where f: "CBB_flush A d cbb = (True, c0)" and a: "cbb_buffer_add A (cbb_base c0) n = (Some out, cbb_base c1)"
          using Pair Some by (auto simp: CBB_add_space_def split: prod.splits bool.splits)
        have "buf_inv (cbb_base c0)" using flush_ok [OF inv f] by (simp add: cbb_inv_def)
        from buffer_add_ok [OF this n a] show ?thesis by (auto simp: buf_inv_def)
      qed
      then show ?thesis using assms(1)
        by (simp add: cbb_add_u_def Pair Some store_be_loop_eq cbb_write_def Let_def)
    qed
  qed
  show ?thesis
    unfolding appends_def
    using eq add_space_ok [OF _ n, of _ A d _ _ "be_bytes n (unat v)"] add_space_succeeds [of A d n]
    by (fastforce simp: ready_def split: prod.splits option.splits)
qed

lemma appends_add_u8: "appends A d (CBB_add_u8 A d b) [b]"
  using appends_add_u [of "ucast b" 1 A d]
  by (simp add: CBB_add_u8_def [abs_def] unat_ucast_up)

lemma appends_add_u16: "appends A d (CBB_add_u16 A d w) (be_bytes 2 (unat w))"
  using appends_add_u [of "ucast w" 2 A d] unat_lt [of w]
  by (simp add: CBB_add_u16_def [abs_def] unat_ucast_up)

lemma appends_add_u24: "unat w < 2 ^ 24 \<Longrightarrow> appends A d (CBB_add_u24 A d w) (be_bytes 3 (unat w))"
  using appends_add_u [of "ucast w" 3 A d]
  by (simp add: CBB_add_u24_def [abs_def] unat_ucast_up)

lemma appends_add_u32: "appends A d (CBB_add_u32 A d w) (be_bytes 4 (unat w))"
  using appends_add_u [of "ucast w" 4 A d] unat_lt [of w]
  by (simp add: CBB_add_u32_def [abs_def] unat_ucast_up)

lemma appends_add_u64: "appends A d (CBB_add_u64 A d w) (be_bytes 8 (unat w))"
  using appends_add_u [of w 8 A d] unat_lt [of w]
  by (simp add: CBB_add_u64_def [abs_def])

section \<open>Base-128 integers and identifier octets\<close>

lemma base128_len_loop_eq: "base128_len_loop n k = k + length (base128_high n)"
proof (induction n arbitrary: k rule: base128_high.induct)
  case (1 n)
  then show ?case by (simp add: base128_len_loop.simps [of n] base128_high.simps [of n])
qed

definition base128_byte :: "nat \<Rightarrow> nat \<Rightarrow> u8" where
  "base128_byte n i = word_of_nat (if i \<noteq> 0 then 128 + n div 128 ^ i mod 128 else n mod 128)"

lemma rev_upt_Suc: "rev [0..<Suc k] = map Suc (rev [0..<k]) @ [0]"
  by (simp add: upt_conv_Cons rev_map map_Suc_upt [symmetric] del: upt_Suc)

lemma base128_high_digits:
  "base128_high m = map (\<lambda>i. word_of_nat (128 + m div 128 ^ i mod 128)) (rev [0..<length (base128_high m)])"
proof (induction m rule: base128_high.induct)
  case (1 m)
  show ?case
  proof (cases "m = 0")
    case False
    define k where "k = length (base128_high (m div 128))"
    have h: "base128_high m = base128_high (m div 128) @ [word_of_nat (128 + m mod 128)]"
      using False by (simp add: base128_high.simps [of m] del: of_nat_add)
    then have "length (base128_high m) = Suc k" by (simp add: k_def)
    with 1 [OF False] show ?thesis
      by (simp add: h rev_upt_Suc comp_def div_mult2_eq k_def [symmetric] del: upt_Suc of_nat_add)
  qed simp
qed

lemma base128_digits:
  "base128 n = map (base128_byte n) (rev [0..<Suc (length (base128_high (n div 128)))])"
proof -
  define k where "k = length (base128_high (n div 128))"
  have "base128 n = map (\<lambda>i. base128_byte n (Suc i)) (rev [0..<k]) @ [base128_byte n 0]"
    using base128_high_digits [of "n div 128"]
    by (simp add: base128_def base128_byte_def k_def div_mult2_eq del: of_nat_add)
  then show ?thesis by (simp add: k_def [symmetric] rev_upt_Suc comp_def del: upt_Suc)
qed

lemma unat_or_80:
  assumes "unat (b :: u8) < 128"
  shows "unat (b OR 0x80) = 128 + unat b"
  using unat_shift_in [of 1 7 b] assms by (simp add: or.commute)

lemma base128_byte_word:
  fixes v :: u64
  shows "(let byte = ucast (drop_bit (7 * i) v AND 0x7f) in if i \<noteq> 0 then byte OR 0x80 else byte) = base128_byte (unat v) i"
proof -
  define b where "b = (ucast (drop_bit (7 * i) v AND 0x7f) :: u8)"
  have "unat (drop_bit (7 * i) v AND 0x7f) = unat v div 128 ^ i mod 128"
    using unat_and_mask [of "drop_bit (7 * i) v" 7]
    by (simp add: mask_eq_exp_minus_1 unat_drop_bit power_mult)
  then have ub: "unat b = unat v div 128 ^ i mod 128"
    by (simp add: b_def unat_ucast_mod mod_less less_trans [OF mod_less_divisor])
  have "unat (b OR 0x80) = 128 + unat b" by (rule unat_or_80) (simp add: ub)
  then show ?thesis
    unfolding b_def [symmetric] Let_def base128_byte_def word_unat_eq_iff
    by (auto simp: ub unat_word_of_nat_u8 simp del: of_nat_add)
qed

lemma cbb_then_done [simp]: "cbb_then r (\<lambda>cbb. (True, cbb)) = r"
  by (cases r; cases "fst r") (auto simp: cbb_then_def)

lemma add_base128_loop_Suc:
  "add_base128_loop A d v (Suc k) = (\<lambda>cbb. cbb_then (CBB_add_u8 A d (base128_byte (unat v) k) cbb) (add_base128_loop A d v k))"
  using base128_byte_word [of k v] by (auto simp: Let_def)

lemma appends_base128_loop:
  "appends A d (add_base128_loop A d v (Suc k)) (map (base128_byte (unat v)) (rev [0..<Suc k]))"
proof (induction k)
  case 0
  have "add_base128_loop A d v 0 = (\<lambda>cbb. (True, cbb))" by auto
  then show ?case using appends_add_u8 [of A d "base128_byte (unat v) 0"]
    by (simp only: add_base128_loop_Suc cbb_then_done) simp
next
  case (Suc k)
  have "rev [0..<Suc (Suc k)] = Suc k # rev [0..<Suc k]" by simp
  with appends_then [OF appends_add_u8 [of A d "base128_byte (unat v) (Suc k)"] Suc] show ?case
    by (simp add: add_base128_loop_Suc [of A d v "Suc k"] del: add_base128_loop.simps upt_Suc)
qed

lemma appends_base128: "appends A d (add_base128_integer A d v) (base128 (unat v))"
proof -
  have "(let l = base128_len_loop (unat v) 0 in if l = 0 then 1 else l) = Suc (length (base128_high (unat v div 128)))"
    by (simp add: base128_len_loop_eq base128_high.simps [of "unat v"])
  then have "add_base128_integer A d v = add_base128_loop A d v (Suc (length (base128_high (unat v div 128))))"
    by (auto simp only: add_base128_integer_def [abs_def] Let_def)
  then show ?thesis using appends_base128_loop [of A d v] by (simp only: base128_digits)
qed

text \<open>The identifier octets as \<open>CBB_add_asn1\<close> writes them.\<close>

definition add_tag :: "allocator \<Rightarrow> nat \<Rightarrow> CBS_ASN1_TAG \<Rightarrow> CBB \<Rightarrow> bool \<times> CBB" where
  "add_tag A d tag cbb =
     (let tag_bits = (ucast (drop_bit CBS_ASN1_TAG_SHIFT tag AND 0xe0) :: u8);
          tag_number = tag AND CBS_ASN1_TAG_NUMBER_MASK
      in if tag_number \<ge> 0x1f
         then cbb_then (CBB_add_u8 A d (tag_bits OR 0x1f) cbb) (add_base128_integer A d (ucast tag_number))
         else CBB_add_u8 A d (tag_bits OR ucast tag_number) cbb)"

lemma unat_tag_number: "unat (tag AND CBS_ASN1_TAG_NUMBER_MASK) = tag_num tag"
  using unat_and_mask [of tag 29] by (simp add: number_mask_val mask_eq_exp_minus_1 tag_num_def)

lemma tag_bits_or:
  assumes "unat (n :: u8) < 32"
  shows "(ucast (drop_bit CBS_ASN1_TAG_SHIFT tag AND 0xe0) :: u8) OR n = word_of_nat (tag_class tag * 32 + unat n)"
proof -
  have e0: "(0xe0 :: u32) = push_bit 5 (mask 3)" by (simp add: mask_eq_exp_minus_1)
  have "(ucast (drop_bit 24 tag AND 0xe0) :: u8) = push_bit 5 (ucast (drop_bit 29 tag))"
    unfolding e0 by (rule bit_word_eqI) (auto simp: bit_simps)
  moreover have u: "unat (ucast (drop_bit 29 tag) :: u8) = tag_class tag"
    using tag_class_bound [of tag] by (simp add: unat_ucast_mod unat_drop_bit tag_class_def)
  ultimately have "unat ((ucast (drop_bit CBS_ASN1_TAG_SHIFT tag AND 0xe0) :: u8) OR n) = tag_class tag * 32 + unat n"
    using unat_shift_in [of "ucast (drop_bit 29 tag) :: u8" 5 n] assms tag_class_bound [of tag]
    by (simp add: CBS_ASN1_TAG_SHIFT_def)
  then show ?thesis
    using assms tag_class_bound [of tag] by (simp add: u8_eq_iff del: of_nat_add of_nat_mult)
qed

lemma appends_tag: "appends A d (add_tag A d tag) (der_tag tag)"
proof -
  have n: "unat (ucast (tag AND CBS_ASN1_TAG_NUMBER_MASK) :: u64) = tag_num tag"
    by (simp add: unat_ucast_up unat_tag_number)
  have ge: "tag AND CBS_ASN1_TAG_NUMBER_MASK \<ge> 0x1f \<longleftrightarrow> \<not> tag_num tag < 31"
    by (simp add: word_le_nat_alt unat_tag_number not_less)
  show ?thesis
  proof (cases "tag_num tag < 31")
    case True
    have "unat (ucast (tag AND CBS_ASN1_TAG_NUMBER_MASK) :: u8) = tag_num tag"
      using True by (simp add: unat_ucast_mod unat_tag_number)
    then have "add_tag A d tag = CBB_add_u8 A d (word_of_nat (tag_class tag * 32 + tag_num tag))"
      using True tag_bits_or [of "ucast (tag AND CBS_ASN1_TAG_NUMBER_MASK)" tag]
      by (simp only: add_tag_def [abs_def] Let_def ge) simp
    then show ?thesis using True appends_add_u8 by (simp add: der_tag_def del: of_nat_add of_nat_mult)
  next
    case False
    have "add_tag A d tag = (\<lambda>cbb. cbb_then (CBB_add_u8 A d (word_of_nat (tag_class tag * 32 + 31)) cbb)
        (add_base128_integer A d (ucast (tag AND CBS_ASN1_TAG_NUMBER_MASK))))"
      using False tag_bits_or [of "0x1f" tag] by (simp only: add_tag_def [abs_def] Let_def ge) simp
    moreover have "appends A d (\<lambda>cbb. cbb_then (CBB_add_u8 A d (word_of_nat (tag_class tag * 32 + 31)) cbb)
        (add_base128_integer A d (ucast (tag AND CBS_ASN1_TAG_NUMBER_MASK))))
        ([word_of_nat (tag_class tag * 32 + 31)] @ base128 (unat (ucast (tag AND CBS_ASN1_TAG_NUMBER_MASK) :: u64)))"
      by (intro appends_then appends_add_u8 appends_base128)
    ultimately show ?thesis using False n by (simp add: der_tag_def del: of_nat_add of_nat_mult)
  qed
qed

section \<open>Children\<close>

lemma chain_ok_snoc:
  "chain_ok cs (ch_offset c) \<Longrightarrow> ch_offset c + ch_pending_len_len c \<le> n \<Longrightarrow>
   (ch_pending_is_asn1 c \<longrightarrow> ch_pending_len_len c = 1) \<Longrightarrow> chain_ok (cs @ [c]) n"
proof (induction cs)
  case (Cons b cs)
  then show ?case by (cases cs) auto
qed simp

text \<open>Opening a child: a zeroed prefix at the end of the buffer.\<close>

definition opened :: "allocator \<Rightarrow> nat \<Rightarrow> nat \<Rightarrow> bool \<Rightarrow> CBB \<Rightarrow> CBB \<Rightarrow> bool" where
  "opened A d n is_asn1 c0 c1 \<longleftrightarrow>
     cbb_inv c1 \<and> \<not> cb_error (cbb_base c1) \<and> grown A (cbb_base c0) (cbb_base c1)
     \<and> cb_bytes (cbb_base c1) = cb_bytes (cbb_base c0) @ replicate n 0
     \<and> cbb_kids c1 = cbb_kids c0 @
          [\<lparr>ch_offset = cb_len (cbb_base c0), ch_pending_len_len = n, ch_pending_is_asn1 = is_asn1\<rparr>]"

lemma add_child_ok:
  assumes inv: "cbb_inv c0" "\<not> cb_error (cbb_base c0)" "d = length (cbb_kids c0)" "n < size_mod" "is_asn1 \<longrightarrow> n = 1"
    and r: "cbb_add_child A d n is_asn1 c0 = (True, c1)"
  shows "opened A d n is_asn1 c0 c1"
proof -
  obtain out base where a: "cbb_buffer_add A (cbb_base c0) n = (Some out, base)"
    and c1: "c1 = (cbb_write out (replicate n 0) (c0\<lparr>cbb_base := base\<rparr>))
             \<lparr>cbb_kids := take d (cbb_kids c0) @
                [\<lparr>ch_offset = cb_len (cbb_base c0), ch_pending_len_len = n, ch_pending_is_asn1 = is_asn1\<rparr>]\<rparr>"
    using r by (auto simp: cbb_add_child_def Let_def split: prod.splits option.splits)
  have i0: "buf_inv (cbb_base c0)" using inv by (simp add: cbb_inv_def)
  note ad = buffer_add_ok [OF i0 inv(4) a]
  let ?b = "base\<lparr>cb_buf := write_at out (replicate n 0) (cb_buf base)\<rparr>"
  have b: "cbb_base c1 = ?b" by (simp add: c1 cbb_write_def)
  have bi: "buf_inv ?b" using ad by (intro buf_inv_write) auto
  have bytes: "cb_bytes ?b = cb_bytes (cbb_base c0) @ replicate n 0"
    using ad take_write_at [of out "replicate n (0::u8)" "cb_buf base"] by (simp add: cb_bytes_def buf_inv_def)
  have "chain_ok (cbb_kids c1) (cb_len ?b)"
    using inv ad by (simp add: c1 cbb_inv_def chain_ok_snoc)
  then show ?thesis using inv ad bi bytes b by (simp add: opened_def cbb_inv_def) (simp add: c1)
qed

lemma opened_ready:
  assumes o: "opened A d n is_asn1 c0 c1" and r: "ready A d (n + k) c0"
  shows "ready A (d + 1) k c1"
proof -
  have "buf_inv (cbb_base c0)" "buf_inv (cbb_base c1)" using assms by (simp_all add: opened_def ready_def cbb_inv_def)
  then have "cb_len (cbb_base c1) = cb_len (cbb_base c0) + n"
    using o length_cb_bytes [of "cbb_base c1"] by (simp add: opened_def)
  then show ?thesis using assms by (auto simp: opened_def ready_def grown_def add.assoc)
qed

lemma add_child_succeeds: "ready A d n c0 \<Longrightarrow> \<exists>c1. cbb_add_child A d n is_asn1 c0 = (True, c1)"
  using buffer_add_succeeds [of "cbb_base c0" A n]
  by (auto simp: cbb_add_child_def Let_def ready_def cbb_inv_def)

definition prefix_bytes :: "nat \<Rightarrow> bool \<Rightarrow> nat \<Rightarrow> u8 list" where
  "prefix_bytes n is_asn1 len = (if is_asn1 then der_length len else be_bytes n len)"

definition prefix_fits :: "nat \<Rightarrow> bool \<Rightarrow> nat \<Rightarrow> bool" where
  "prefix_fits n is_asn1 len \<longleftrightarrow> (if is_asn1 then n = 1 \<and> len \<le> 0xfffffffe else n < size_mod \<and> len < 256 ^ n)"

lemma prefix_fits_size: "prefix_fits n is_asn1 len \<Longrightarrow> n < size_mod \<and> (is_asn1 \<longrightarrow> n = 1)"
  by (auto simp: prefix_fits_def size_mod_def split: if_splits)

lemma length_prefix_bytes: "prefix_fits n is_asn1 len \<Longrightarrow> n \<le> length (prefix_bytes n is_asn1 len)"
  by (auto simp: prefix_fits_def prefix_bytes_def der_length_def split: if_splits)

text \<open>Closing it: the prefix is written and the contents move behind it.\<close>

lemma closed_view:
  assumes o: "opened A d n is_asn1 c0 c1" and inv: "cbb_inv c0" "d = length (cbb_kids c0)"
    and p: "append_post A (d + 1) body c1 c2"
  shows "cbb_view d c2 = cb_bytes (cbb_base c0) @ prefix_bytes n is_asn1 (length body) @ body"
    and "cbb_kids c2 = cbb_kids c1" "cb_len (cbb_base c2) = cb_len (cbb_base c0) + n + length body"
proof -
  have len: "length (cb_bytes (cbb_base c0)) = cb_len (cbb_base c0)" using inv by (simp add: cbb_inv_def)
  have d1: "d + 1 = length (cbb_kids c1)" using o inv by (simp add: opened_def)
  have b2: "cb_bytes (cbb_base c2) = cb_bytes (cbb_base c0) @ replicate n 0 @ body"
    using p o d1 by (simp add: append_post_def opened_def)
  show k2: "cbb_kids c2 = cbb_kids c1" using p d1 by (simp add: append_post_def)
  have "buf_inv (cbb_base c2)" using p by (simp add: append_post_def cbb_inv_def)
  then show "cb_len (cbb_base c2) = cb_len (cbb_base c0) + n + length body"
    using arg_cong [OF b2, of length] len by simp
  show "cbb_view d c2 = cb_bytes (cbb_base c0) @ prefix_bytes n is_asn1 (length body) @ body"
    using o inv k2 len
    by (simp add: cbb_view_def opened_def b2 child_enc_def prefix_bytes_def Let_def)
qed

lemma close_succeeds:
  assumes o: "opened A d n is_asn1 c0 c1" and inv: "cbb_inv c0" "d = length (cbb_kids c0)"
    and p: "append_post A (d + 1) body c1 c2" and fits: "prefix_fits n is_asn1 (length body)"
    and rm: "room A (cbb_base c2) (cb_len (cbb_base c0) + length (prefix_bytes n is_asn1 (length body)) + length body)"
  shows "fst (CBB_flush A d c2)"
proof -
  let ?c = "\<lparr>ch_offset = cb_len (cbb_base c0), ch_pending_len_len = n, ch_pending_is_asn1 = is_asn1\<rparr>"
  note v = closed_view [OF o inv p]
  have k: "drop d (cbb_kids c2) = [?c]" "d < length (cbb_kids c2)" using v o inv by (simp_all add: opened_def)
  have b2: "buf_inv (cbb_base c2)" "\<not> cb_error (cbb_base c2)" using p by (simp_all add: append_post_def cbb_inv_def)
  have "fst (flush_child A ?c (cbb_base c2))"
  proof (cases is_asn1)
    case True
    then have "n = 1" using fits by (simp add: prefix_fits_def)
    with True fits rm v b2 show ?thesis
      using flush_child_asn1_ok(2) [of "cbb_base c2" ?c A]
      by (simp add: prefix_fits_def child_fits_def prefix_bytes_def)
  next
    case False
    with fits v b2 have "child_fits ?c (length body)" by (simp add: prefix_fits_def child_fits_def)
    with False v b2 show ?thesis using flush_child_plain [of "cbb_base c2" ?c A] by auto
  qed
  then show ?thesis using k b2
    by (cases "flush_child A ?c (cbb_base c2)") (simp add: CBB_flush_def)
qed

text \<open>A child opened after \<open>h\<close>, filled by \<open>f\<close> and flushed appends the prefixed contents.\<close>

lemma appends_child:
  assumes h: "appends A d h pre" and f: "appends A (d + 1) f body"
    and fits: "prefix_fits n is_asn1 (length body)"
  shows "appends A d (\<lambda>cbb. cbb_then (cbb_then (h cbb) (cbb_add_child A d n is_asn1)) (\<lambda>cbb. cbb_then (f cbb) (CBB_flush A d)))
           (pre @ prefix_bytes n is_asn1 (length body) @ body)"
  unfolding appends_def
proof (intro conjI allI impI)
  fix cbb c3 assume inv: "cbb_inv cbb"
    and r: "cbb_then (cbb_then (h cbb) (cbb_add_child A d n is_asn1)) (\<lambda>cbb. cbb_then (f cbb) (CBB_flush A d)) = (True, c3)"
  then obtain c0 c1 c2 where s: "h cbb = (True, c0)" "cbb_add_child A d n is_asn1 c0 = (True, c1)"
    "f c1 = (True, c2)" "CBB_flush A d c2 = (True, c3)"
    by (auto simp: cbb_then_True)
  note p0 = appendsD [OF h inv s(1)]
  then have c0: "cbb_inv c0" "\<not> cb_error (cbb_base c0)" "d = length (cbb_kids c0)" "n < size_mod" "is_asn1 \<longrightarrow> n = 1"
    using prefix_fits_size [OF fits] by (simp_all add: append_post_def)
  note o = add_child_ok [OF c0 s(2)]
  then have i1: "cbb_inv c1" by (simp add: opened_def)
  note p2 = appendsD [OF f i1 s(3)]
  then have i2: "cbb_inv c2" by (simp add: append_post_def)
  note v = closed_view [OF o c0(1,3) p2]
  note p3 = flush_ok [OF i2 s(4)]
  have "grown A (cbb_base cbb) (cbb_base c3)"
    using p0 o p2 p3 unfolding append_post_def opened_def by (blast intro: grown_trans)
  moreover have "cbb_kids c3 = take d (cbb_kids cbb)"
    using p3 v o p0 c0 by (simp add: opened_def append_post_def)
  moreover have "cb_bytes (cbb_base c3) = cbb_view d cbb @ pre @ prefix_bytes n is_asn1 (length body) @ body"
    using p3 v p0 by (simp add: append_post_def)
  ultimately show "append_post A d (pre @ prefix_bytes n is_asn1 (length body) @ body) cbb c3"
    using p3 p0 by (simp add: append_post_def)
next
  let ?bs = "pre @ prefix_bytes n is_asn1 (length body) @ body"
  fix cbb assume rd: "ready A d (length ?bs) cbb"
  have n: "n \<le> length (prefix_bytes n is_asn1 (length body))" using length_prefix_bytes [OF fits] .
  have "ready A d (length pre) cbb" using rd by (rule ready_mono) simp
  from appendsD' [OF h this] obtain c0 where c0: "h cbb = (True, c0)" "append_post A d pre cbb c0" by blast
  then have r0: "ready A d (length (prefix_bytes n is_asn1 (length body)) + length body) c0"
    using rd append_post_ready by simp
  then have "ready A d n c0" by (rule ready_mono) (use n in simp)
  from add_child_succeeds [OF this] obtain c1 where c1: "cbb_add_child A d n is_asn1 c0 = (True, c1)" by blast
  have i0: "cbb_inv c0" "\<not> cb_error (cbb_base c0)" "d = length (cbb_kids c0)" "n < size_mod" "is_asn1 \<longrightarrow> n = 1"
    using r0 prefix_fits_size [OF fits] by (simp_all add: ready_def)
  note o = add_child_ok [OF i0 c1]
  have "ready A d (n + length body) c0" using r0 by (rule ready_mono) (use n in simp)
  from opened_ready [OF o this] appendsD' [OF f] obtain c2
    where c2: "f c1 = (True, c2)" "append_post A (d + 1) body c1 c2" by blast
  have "room A (cbb_base c2) (cb_len (cbb_base c0) + length (prefix_bytes n is_asn1 (length body)) + length body)"
    using r0 o c2(2) by (auto simp: ready_def opened_def append_post_def grown_def add.assoc)
  from close_succeeds [OF o i0(1,3) c2(2) fits this] c0 c1 c2
  show "fst (cbb_then (cbb_then (h cbb) (cbb_add_child A d n is_asn1)) (\<lambda>cbb. cbb_then (f cbb) (CBB_flush A d)))"
    by (simp add: cbb_then_def)
qed

lemma cbb_then_assoc: "cbb_then (cbb_then r f) g = cbb_then r (\<lambda>c. cbb_then (f c) g)"
  by (cases r; cases "fst r") (auto simp: cbb_then_def)

lemma add_asn1_eq:
  "CBB_add_asn1 A d tag cbb =
   cbb_then (cbb_then (CBB_flush A d cbb) (add_tag A d tag)) (cbb_add_child A d 1 True)"
  by (simp add: CBB_add_asn1_def add_tag_def cbb_then_assoc Let_def)

lemma appends_asn1:
  assumes "appends A (d + 1) f body" "length body \<le> 0xfffffffe"
  shows "appends A d (\<lambda>cbb. cbb_then (CBB_add_asn1 A d tag cbb) (\<lambda>cbb. cbb_then (f cbb) (CBB_flush A d))) (der_tlv tag body)"
  unfolding add_asn1_eq
  using appends_child [OF appends_flush_then [OF appends_tag [of A d tag]] assms(1), of 1 True] assms(2)
  by (simp add: prefix_fits_def prefix_bytes_def der_tlv_def)

lemma appends_length_prefixed:
  assumes "appends A (d + 1) f body" "length body < 256 ^ n" "n < size_mod"
  shows "appends A d (\<lambda>cbb. cbb_then (cbb_add_length_prefixed A d n cbb) (\<lambda>cbb. cbb_then (f cbb) (CBB_flush A d)))
           (be_bytes n (length body) @ body)"
  using appends_child [OF appends_flush assms(1), of n False] assms(2,3)
  by (simp add: cbb_add_length_prefixed_def prefix_fits_def prefix_bytes_def)

text \<open>\<open>goto err\<close> does not change what a success means.\<close>

lemma appends_or_err: "appends A d f bs \<Longrightarrow> appends A d (\<lambda>cbb. cbb_or_err d (f cbb)) bs"
  by (fastforce simp: appends_def cbb_or_err_def split: prod.splits if_splits)

end
