(* ===== verification/Cbb_Asn1.thy ===== *)
theory Cbb_Asn1
  imports Cbb_Correct "HOL-Library.Multiset"
begin

text \<open>
  The ASN.1 writers of \<open>cbb.c\<close> append the abstract encodings that the parser of \<open>cbs.c\<close> accepts;
  object identifiers are converted between text and DER in both directions; \<open>SET OF\<close> contents are
  sorted.
\<close>

section \<open>Strings and booleans\<close>

lemma appends_octet_string:
  assumes "length data \<le> 0xfffffffe"
  shows "appends A d (CBB_add_asn1_octet_string A d data) (der_tlv CBS_ASN1_OCTETSTRING data)"
  unfolding CBB_add_asn1_octet_string_def [abs_def]
  using assms by (intro appends_or_err appends_asn1 appends_add_bytes) (simp_all add: size_mod_def)

lemma appends_bool: "appends A d (CBB_add_asn1_bool A d v) (der_tlv CBS_ASN1_BOOLEAN [if v then 0xff else 0])"
  unfolding CBB_add_asn1_bool_def [abs_def]
  by (intro appends_or_err appends_asn1 appends_add_u8) simp

section \<open>Unsigned integers\<close>

lemma be_bytes_Cons: "be_bytes (Suc k) v = word_of_nat (v div 256 ^ k) # be_bytes k v"
proof (induction k arbitrary: v)
  case (Suc k)
  have "be_bytes (Suc (Suc k)) v = be_bytes (Suc k) (v div 256) @ [word_of_nat v]" by (rule be_bytes.simps(2))
  also have "\<dots> = word_of_nat (v div 256 div 256 ^ k) # be_bytes (Suc k) v" unfolding Suc [of "v div 256"] by simp
  finally show ?case by (simp add: div_mult2_eq)
qed simp

definition value_byte :: "u64 \<Rightarrow> nat \<Rightarrow> u8" where
  "value_byte v k = ucast (drop_bit (8 * k) v AND 0xff)"

lemma value_byte_eq: "value_byte v k = word_of_nat (unat v div 256 ^ k)"
proof -
  have "unat (drop_bit (8 * k) v AND 0xff) = unat v div 256 ^ k mod 256"
    using unat_and_mask [of "drop_bit (8 * k) v" 8]
    by (simp add: mask_eq_exp_minus_1 unat_drop_bit power_mult)
  then show ?thesis by (simp add: value_byte_def u8_eq_iff unat_ucast_mod)
qed

text \<open>The loop and the final zero byte, from the \<open>k\<close> least significant bytes down.\<close>

definition uint64_body :: "allocator \<Rightarrow> nat \<Rightarrow> u64 \<Rightarrow> nat \<Rightarrow> bool \<Rightarrow> CBB \<Rightarrow> bool \<times> CBB" where
  "uint64_body A d v k started cbb =
     (case add_uint64_loop A d v k started cbb of
        (None, cbb) \<Rightarrow> (False, cbb)
      | (Some started, cbb) \<Rightarrow> (if \<not> started then CBB_add_u8 A d 0 cbb else (True, cbb)))"

lemma uint64_body_started:
  "uint64_body A d v 0 True = (\<lambda>cbb. (True, cbb))"
  "uint64_body A d v (Suc k) True = (\<lambda>cbb. cbb_then (CBB_add_u8 A d (value_byte v k) cbb) (uint64_body A d v k True))"
  by (auto simp: uint64_body_def value_byte_def cbb_then_def Let_def split: prod.splits bool.splits)

lemma uint64_body_not_started:
  "uint64_body A d v 0 False = CBB_add_u8 A d 0"
  "uint64_body A d v (Suc k) False =
    (if value_byte v k = 0 then uint64_body A d v k False
     else if value_byte v k AND 0x80 \<noteq> 0
     then (\<lambda>cbb. cbb_then (CBB_add_u8 A d 0 cbb) (\<lambda>cbb. cbb_then (CBB_add_u8 A d (value_byte v k) cbb) (uint64_body A d v k True)))
     else (\<lambda>cbb. cbb_then (CBB_add_u8 A d (value_byte v k) cbb) (uint64_body A d v k True)))"
  by (auto simp: uint64_body_def value_byte_def cbb_then_def Let_def fun_eq_iff split: prod.splits bool.splits)

lemma appends_uint64_started:
  "appends A d (\<lambda>cbb. cbb_then (CBB_add_u8 A d b cbb) (uint64_body A d v k True)) (b # be_bytes k (unat v))"
proof (induction k arbitrary: b)
  case 0
  then show ?case using appends_add_u8 [of A d b] by (simp add: uint64_body_started)
next
  case (Suc k)
  have "appends A d (\<lambda>cbb. cbb_then (CBB_add_u8 A d b cbb) (uint64_body A d v (Suc k) True))
      ([b] @ value_byte v k # be_bytes k (unat v))"
    unfolding uint64_body_started by (intro appends_then appends_add_u8 Suc)
  then show ?case by (simp add: be_bytes_Cons value_byte_eq del: be_bytes.simps)
qed

lemma der_uint_lead:
  assumes "256 ^ k \<le> n" "n < 256 ^ Suc k"
  shows "der_uint n = (if 128 \<le> n div 256 ^ k then [0] else []) @ word_of_nat (n div 256 ^ k) # be_bytes k n"
proof -
  have "n div 256 ^ k < 256" using assms(2) by (simp add: less_mult_imp_div_less)
  then show ?thesis
    using be_min_be_bytes [OF assms]
    by (simp add: der_uint_def Let_def be_bytes_Cons unat_word_of_nat_u8 del: be_bytes.simps)
qed

lemma be_bytes_mod: "be_bytes k (v mod 256 ^ k) = be_bytes k v"
  by (metis be_bytes_be_nat be_nat_be_bytes length_be_bytes)

lemma appends_uint64_body: "appends A d (uint64_body A d v k False) (der_uint (unat v mod 256 ^ k))"
proof (induction k)
  case 0
  then show ?case using appends_add_u8 [of A d 0] by (simp add: uint64_body_not_started der_uint_def)
next
  case (Suc k)
  define n where "n = unat v mod 256 ^ Suc k"
  have n: "n = 256 ^ k * (unat v div 256 ^ k mod 256) + unat v mod 256 ^ k"
    using mod_mult2_eq [of "unat v" "256 ^ k" 256] by (simp add: n_def mult.commute)
  then have q: "n div 256 ^ k = unat v div 256 ^ k mod 256" and m: "n mod 256 ^ k = unat v mod 256 ^ k" by simp_all
  define b where "b = value_byte v k"
  have ub: "unat b = n div 256 ^ k" by (simp add: b_def value_byte_eq unat_word_of_nat_u8 q)
  have b: "b = word_of_nat (n div 256 ^ k)" using ub unat_u8_less [of b] by (simp add: u8_eq_iff)
  show ?case
  proof (cases "b = 0")
    case True
    then have "n div 256 ^ k = 0" using ub by simp
    then have "n = unat v mod 256 ^ k" using n q by simp
    with Suc True show ?thesis by (simp add: uint64_body_not_started b_def n_def)
  next
    case False
    then have "0 < n div 256 ^ k" using ub by (simp add: word_unat_eq_iff)
    then have "256 ^ k \<le> n" by (simp add: div_greater_zero_iff)
    moreover have "n < 256 ^ Suc k" unfolding n_def by (rule mod_less_divisor) simp
    ultimately have d: "der_uint n = (if 128 \<le> unat b then [0] else []) @ b # be_bytes k (unat v)"
      using der_uint_lead [of k n] be_bytes_mod [of k n] be_bytes_mod [of k "unat v"] by (simp add: b [symmetric] ub [symmetric] m)
    have top: "b AND 0x80 \<noteq> 0 \<longleftrightarrow> 128 \<le> unat b" by (simp add: u8_top_bit not_less)
    have "appends A d (uint64_body A d v (Suc k) False) ((if 128 \<le> unat b then [0] else []) @ b # be_bytes k (unat v))"
      using appends_uint64_started [of A d b v k] appends_then [OF appends_add_u8 appends_uint64_started, of A d 0 b v k] False top
      by (simp add: uint64_body_not_started b_def [symmetric])
    then show ?thesis using d by (simp add: n_def)
  qed
qed

lemma add_uint64_eq:
  "CBB_add_asn1_uint64_with_tag A d v tag cbb =
   (case cbb_or_err d (cbb_then (CBB_add_asn1 A d tag cbb) (uint64_body A (d + 1) v 8 False))
    of (False, cbb) \<Rightarrow> (False, cbb) | (True, cbb) \<Rightarrow> CBB_flush A d cbb)"
  unfolding CBB_add_asn1_uint64_with_tag_def uint64_body_def [abs_def] by (rule refl)

text \<open>Locking on error before the final flush.\<close>

lemma appends_err_flush:
  assumes "appends A d (\<lambda>cbb. cbb_then (g cbb) (\<lambda>cbb. cbb_then (f cbb) (CBB_flush A d))) bs"
  shows "appends A d (\<lambda>cbb. case cbb_or_err d (cbb_then (g cbb) f)
     of (False, cbb) \<Rightarrow> (False, cbb) | (True, cbb) \<Rightarrow> CBB_flush A d cbb) bs"
proof -
  have e: "(case cbb_or_err d r of (False, cbb) \<Rightarrow> (False, cbb) | (True, cbb) \<Rightarrow> CBB_flush A d cbb) =
     (if fst r then cbb_then r (CBB_flush A d) else (False, cbb_on_error d (snd r)))" for r
    by (cases r; cases "fst r") (simp_all add: cbb_or_err_def cbb_then_def)
  have "fst (cbb_then r (CBB_flush A d)) \<Longrightarrow> fst r" for r
    by (cases r; cases "fst r") (simp_all add: cbb_then_def)
  then show ?thesis
    using assms unfolding appends_def e cbb_then_assoc [symmetric] by (auto split: if_splits)
qed

lemma appends_uint64: "appends A d (CBB_add_asn1_uint64_with_tag A d v tag) (der_tlv tag (der_uint (unat v)))"
proof -
  have v: "unat v mod 256 ^ 8 = unat v" using unat_lt [of v] by simp
  have "appends A (d + 1) (uint64_body A (d + 1) v 8 False) (der_uint (unat v))"
    using appends_uint64_body [of A "d + 1" v 8] v by simp
  moreover have "length (der_uint (unat v)) \<le> 0xfffffffe"
    using length_der_uint [of "unat v" 8] unat_lt [of v] by simp
  ultimately show ?thesis unfolding add_uint64_eq [abs_def] by (intro appends_err_flush appends_asn1)
qed

section \<open>Signed integers\<close>

lemma int64_start:
  "bytes ! n AND 0x80 \<noteq> 0 \<Longrightarrow>
   int64_start bytes n \<le> n \<and> bytes ! int64_start bytes n AND 0x80 \<noteq> 0
   \<and> (\<forall>j. int64_start bytes n < j \<and> j \<le> n \<longrightarrow> bytes ! j = 0xff)
   \<and> (\<forall>i. int64_start bytes n = Suc i \<longrightarrow> \<not> (bytes ! Suc i = 0xff \<and> bytes ! i AND 0x80 \<noteq> 0))"
proof (induction n)
  case (Suc n)
  show ?case
  proof (cases "bytes ! Suc n = 0xff \<and> bytes ! n AND 0x80 \<noteq> 0")
    case True
    with Suc.IH show ?thesis by (auto simp: le_Suc_eq)
  next
    case False
    with Suc.prems show ?thesis by auto
  qed
qed simp

lemma appends_bytes_down:
  "appends A d (add_bytes_down A d bytes (Suc k)) (map ((!) bytes) (rev [0..<Suc k]))"
proof (induction k)
  case 0
  have "add_bytes_down A d bytes 0 = (\<lambda>cbb. (True, cbb))" by auto
  then have "add_bytes_down A d bytes (Suc 0) = CBB_add_u8 A d (bytes ! 0)" by auto
  then show ?case using appends_add_u8 [of A d "bytes ! 0"] by simp
next
  case (Suc k)
  have "rev [0..<Suc (Suc k)] = Suc k # rev [0..<Suc k]" by simp
  moreover have "add_bytes_down A d bytes (Suc (Suc k)) =
      (\<lambda>cbb. cbb_then (CBB_add_u8 A d (bytes ! Suc k) cbb) (add_bytes_down A d bytes (Suc k)))" by auto
  ultimately show ?case
    using appends_then [OF appends_add_u8 [of A d "bytes ! Suc k"] Suc]
    by (simp del: add_bytes_down.simps upt_Suc)
qed

lemma negative_unat: "sint (v :: i64) < 0 \<Longrightarrow> 2 ^ 63 \<le> unat v"
  using sint_nonneg [of v] by (cases "unat v < 2 ^ 63") (simp_all add: not_less)

lemma negative_top_byte:
  assumes "sint (v :: i64) < 0"
  shows "int64_bytes v ! 7 AND 0x80 \<noteq> 0"
proof -
  have "2 ^ 63 \<le> unat v" using assms by (rule negative_unat)
  moreover have "int64_bytes v ! 7 = word_of_nat (unat v div 256 ^ 7)"
  proof -
    have "be_bytes 8 (unat v) = word_of_nat (unat v div 256 ^ 7) # be_bytes 7 (unat v)"
      using be_bytes_Cons [of 7 "unat v"] by simp
    then show ?thesis by (simp add: int64_bytes_def nth_append)
  qed
  moreover have "unat v div 256 ^ 7 < 256" using unat_lt [of v] by (simp add: less_mult_imp_div_less)
  ultimately show ?thesis by (simp add: u8_top_bit unat_word_of_nat_u8)
qed

text \<open>Dropping the redundant sign bytes leaves the minimal encoding.\<close>

lemma int64_encoding:
  assumes neg: "sint (v :: i64) < 0"
  defines "s \<equiv> int64_start (int64_bytes v) 7"
  shows "map ((!) (int64_bytes v)) (rev [0..<Suc s]) = der_int (sint v)"
proof -
  let ?b = "int64_bytes v"
  define bs where "bs = map ((!) ?b) (rev [0..<Suc s])"
  note st = int64_start [OF negative_top_byte [OF neg], folded s_def]
  have l8: "length ?b = 8" by (simp add: int64_bytes_def)
  have ext: "rev ?b = replicate (7 - s) 0xff @ bs"
  proof (rule nth_equalityI)
    show "length (rev ?b) = length (replicate (7 - s) 0xff @ bs)" using l8 st by (simp add: bs_def)
    fix i assume "i < length (rev ?b)"
    then have i: "i < 8" using l8 by simp
    then show "rev ?b ! i = (replicate (7 - s) 0xff @ bs) ! i"
      using st l8 by (auto simp: rev_nth nth_append bs_def simp del: upt_Suc) 
  qed
  have valid: "CBS_is_valid_asn1_integer bs = Some True"
  proof (cases s)
    case 0
    then show ?thesis using st by (simp add: bs_def CBS_is_valid_asn1_integer_def)
  next
    case (Suc i)
    then have "bs = ?b ! s # ?b ! i # map ((!) ?b) (rev [0..<i])" by (simp add: bs_def)
    moreover have "?b ! s \<noteq> 0" using st by auto
    ultimately show ?thesis using st Suc by (auto simp: CBS_is_valid_asn1_integer_def Let_def)
  qed
  have "be_nat (map NOT bs) = be_nat (map NOT (rev ?b))"
  proof -
    have "NOT (0xff :: u8) = 0" by (simp add: word_unat_eq_iff unat_not)
    then show ?thesis by (simp only: ext map_append map_replicate be_nat_append be_nat_replicate_0 mult_0 add_0)
  qed
  also have "\<dots> = unat (NOT v)"
    using be_nat_map_not [of "rev ?b"] l8 unat_lt [of v]
    by (simp add: int64_bytes_def be_nat_be_bytes unat_not)
  also have "int \<dots> = - sint v - 1"
  proof -
    have "2 ^ 63 \<le> unat v" using neg by (rule negative_unat)
    then have "unat (NOT v) < 2 ^ 63" by (simp add: unat_not)
    then show ?thesis using sint_nonneg [of "NOT v"] sint_not [of v] by simp
  qed
  finally have "nat (- sint v - 1) = be_nat (map NOT bs)" by simp
  then show ?thesis using valid neg
    unfolding bs_def [symmetric] by (simp add: is_valid_integer_iff der_int_def del: map_map)
qed

lemma appends_int64: "appends A d (CBB_add_asn1_int64_with_tag A d v tag) (der_tlv tag (der_int (sint v)))"
proof (cases "0 \<le> sint v")
  case True
  have "unat v < 2 ^ 63"
  proof (rule ccontr)
    assume "\<not> unat v < 2 ^ 63"
    then have "unat (NOT v) < 2 ^ 63" by (simp add: unat_not)
    then have "0 \<le> sint (NOT v)" using sint_nonneg [of "NOT v"] by simp
    then show False using True sint_not [of v] by simp
  qed
  then have "der_int (sint v) = der_uint (unat v)" using sint_nonneg [of v] der_int_nonneg [of "unat v"] by simp
  then show ?thesis using True appends_uint64 [of A d v tag] by (simp add: CBB_add_asn1_int64_with_tag_def [abs_def])
next
  case False
  define s where "s = int64_start (int64_bytes v) 7"
  have "appends A (d + 1) (add_bytes_down A (d + 1) (int64_bytes v) (Suc s)) (der_int (sint v))"
    using appends_bytes_down [of A "d + 1" "int64_bytes v" s] int64_encoding [of v] False by (simp add: s_def)
  moreover have "length (der_int (sint v)) \<le> 0xfffffffe" using length_der_int64 [of v] by simp
  moreover have "CBB_add_asn1_int64_with_tag A d v tag = (\<lambda>cbb. case cbb_or_err d
      (cbb_then (CBB_add_asn1 A d tag cbb) (add_bytes_down A (d + 1) (int64_bytes v) (Suc s)))
     of (False, cbb) \<Rightarrow> (False, cbb) | (True, cbb) \<Rightarrow> CBB_flush A d cbb)"
    using False by (simp add: CBB_add_asn1_int64_with_tag_def [abs_def] Let_def s_def del: add_bytes_down.simps)
  ultimately show ?thesis by (simp only:) (intro appends_err_flush appends_asn1)
qed

section \<open>Object identifiers\<close>

fun dotted :: "nat list \<Rightarrow> u8 list" where
  "dotted [] = []"
| "dotted [a] = decimal a"
| "dotted (a # b # arcs) = decimal a @ 46 # dotted (b # arcs)"

definition oid_ok :: "nat list \<Rightarrow> bool" where
  "oid_ok arcs \<longleftrightarrow>
     (case arcs of
        a # b # rest \<Rightarrow> a \<le> 2 \<and> (a < 2 \<longrightarrow> b \<le> 39) \<and> b \<le> 18446744073709551535 \<and> (\<forall>x \<in> set rest. x < 2 ^ 64)
      | _ \<Rightarrow> False)"

definition oid_der :: "nat list \<Rightarrow> u8 list" where
  "oid_der arcs = (case arcs of a # b # rest \<Rightarrow> der_oid ((40 * a + b) # rest) | _ \<Rightarrow> [])"

lemma dotted_Cons: "arcs \<noteq> [] \<Longrightarrow> dotted (a # arcs) = decimal a @ 46 # dotted arcs"
  by (cases arcs) auto

lemma dotted_nonempty [simp]: "arcs \<noteq> [] \<Longrightarrow> dotted arcs \<noteq> []"
  by (cases arcs rule: dotted.cases) auto

lemma dot_no_digit [simp]: "no_digit_next []" "no_digit_next (46 # cs)"
  by (simp_all add: no_digit_next_def OPENSSL_isdigit_def)

lemma parse_dotted_iff:
  "parse_dotted_decimal cbs = (Some a, rest) \<longleftrightarrow>
   cbs = decimal (unat a) @ (if rest = [] then [] else 46 # rest)"
proof
  assume "parse_dotted_decimal cbs = (Some a, rest)"
  then obtain b r where r: "CBS_get_u64_decimal cbs = (Some b, r)"
    "(case CBS_get_u8 r of (None, cbs) \<Rightarrow> (Some b, cbs)
       | (Some dot, cbs) \<Rightarrow> (if dot = 46 \<and> CBS_len cbs > 0 then Some b else None, cbs)) = (Some a, rest)"
    unfolding parse_dotted_decimal_def cbs_bind_Some_iff by blast
  then show "cbs = decimal (unat a) @ (if rest = [] then [] else 46 # rest)"
    by (cases r) (auto simp: get_u64_decimal_iff CBS_len_def split: if_splits)
next
  assume c: "cbs = decimal (unat a) @ (if rest = [] then [] else 46 # rest)"
  then have "CBS_get_u64_decimal cbs = (Some a, if rest = [] then [] else 46 # rest)"
    by (simp add: get_u64_decimal_iff)
  then show "parse_dotted_decimal cbs = (Some a, rest)"
    by (simp add: parse_dotted_decimal_def CBS_len_def)
qed

lemma parse_dotted_head:
  assumes "a < 2 ^ 64"
  shows "parse_dotted_decimal (dotted (a # arcs)) = (Some (word_of_nat a), dotted arcs)"
proof -
  have u: "unat (word_of_nat a :: u64) = a" using assms by (simp add: unat_of_nat)
  show ?thesis
    by (cases arcs) (simp_all add: parse_dotted_iff u)
qed

lemma parse_dotted_decimal_dotted:
  "parse_dotted_decimal cbs = (Some a, dotted arcs) \<Longrightarrow> cbs = dotted (unat a # arcs)"
  by (cases arcs) (simp_all add: parse_dotted_iff)

text \<open>The loop accepts a dotted tail and nothing else.\<close>

lemma appends_oid_loop:
  "\<forall>x \<in> set arcs. x < 2 ^ 64 \<Longrightarrow>
   appends A d (\<lambda>cbb. cbb_then (add_base128_integer A d v cbb) (oid_from_text_loop A d (dotted arcs)))
     (base128 (unat v) @ der_oid arcs)"
proof (induction arcs arbitrary: v)
  case Nil
  have "oid_from_text_loop A d [] = (\<lambda>cbb. (True, cbb))" by (auto simp: oid_from_text_loop.simps CBS_len_def)
  then show ?case using appends_base128 [of A d v] by (simp add: der_oid_def)
next
  case (Cons a arcs)
  have u: "unat (word_of_nat a :: u64) = a" using Cons.prems by (simp add: unat_of_nat)
  have "oid_from_text_loop A d (dotted (a # arcs)) =
      (\<lambda>cbb. cbb_then (add_base128_integer A d (word_of_nat a) cbb) (oid_from_text_loop A d (dotted arcs)))"
    using parse_dotted_head [of a arcs] Cons.prems
    by (subst oid_from_text_loop.simps [abs_def]) (auto simp: CBS_len_def)
  then show ?case
    using appends_then [OF appends_base128 [of A d v] Cons.IH [of "word_of_nat a"]] Cons.prems
    by (simp add: der_oid_def u)
qed

lemma oid_loop_dotted:
  "oid_from_text_loop A d cbs cbb = (True, cbb') \<Longrightarrow> \<exists>arcs. cbs = dotted arcs \<and> (\<forall>x \<in> set arcs. x < 2 ^ 64)"
proof (induction A d cbs cbb rule: oid_from_text_loop.induct)
  case (1 A d cbs cbb)
  show ?case
  proof (cases "cbs = []")
    case True
    then show ?thesis by (metis dotted.simps(1) empty_iff list.set(1))
  next
    case False
    with 1(2) obtain a rest c1 where p: "parse_dotted_decimal cbs = (Some a, rest)"
      and r: "oid_from_text_loop A d rest c1 = (True, cbb')"
      by (subst (asm) oid_from_text_loop.simps) (auto simp: CBS_len_def cbb_then_True split: prod.splits option.splits)
    from 1(1) [OF _ p [symmetric] refl r] False obtain arcs where "rest = dotted arcs" "\<forall>x \<in> set arcs. x < 2 ^ 64"
      by (auto simp: CBS_len_def)
    moreover have "unat a < 2 ^ 64" using unat_lt [of a] by simp
    ultimately show ?thesis using parse_dotted_decimal_dotted [of cbs a arcs] p by (intro exI [of _ "unat a # arcs"]) auto
  qed
qed

lemma u64_first_arc:
  fixes a b :: u64
  shows "(a > 2 \<or> (a < 2 \<and> b > 39) \<or> b > 18446744073709551615 - 80) \<longleftrightarrow>
    \<not> (unat a \<le> 2 \<and> (unat a < 2 \<longrightarrow> unat b \<le> 39) \<and> unat b \<le> 18446744073709551535)"
    and "unat a \<le> 2 \<Longrightarrow> unat b \<le> 18446744073709551535 \<Longrightarrow> unat (40 * a + b) = 40 * unat a + unat b"
proof -
  show "(a > 2 \<or> (a < 2 \<and> b > 39) \<or> b > 18446744073709551615 - 80) \<longleftrightarrow>
    \<not> (unat a \<le> 2 \<and> (unat a < 2 \<longrightarrow> unat b \<le> 39) \<and> unat b \<le> 18446744073709551535)"
    by (auto simp: word_less_nat_alt)
  show "unat (40 * a + b) = 40 * unat a + unat b" if "unat a \<le> 2" "unat b \<le> 18446744073709551535"
    using that by (simp add: unat_word_ariths)
qed

lemma appends_oid_from_text:
  assumes "oid_ok arcs"
  shows "appends A d (CBB_add_asn1_oid_from_text A d (dotted arcs)) (oid_der arcs)"
proof -
  obtain a b rest where arcs: "arcs = a # b # rest" using assms by (auto simp: oid_ok_def split: list.splits)
  have r: "a \<le> 2" "a < 2 \<longrightarrow> b \<le> 39" "b \<le> 18446744073709551535" "\<forall>x \<in> set rest. x < 2 ^ 64"
    using assms by (auto simp: oid_ok_def arcs)
  have u: "unat (word_of_nat a :: u64) = a" "unat (word_of_nat b :: u64) = b" using r by (simp_all add: unat_of_nat)
  let ?v = "40 * word_of_nat a + word_of_nat b :: u64"
  have v: "unat ?v = 40 * a + b" using u64_first_arc(2) [of "word_of_nat a" "word_of_nat b"] r u by simp
  have ok: "\<not> (word_of_nat a > (2 :: u64) \<or> (word_of_nat a < (2 :: u64) \<and> word_of_nat b > (39 :: u64))
      \<or> word_of_nat b > (18446744073709551615 - 80 :: u64))"
    unfolding u64_first_arc(1) u using r by simp
  have p: "parse_dotted_decimal (dotted (a # b # rest)) = (Some (word_of_nat a), dotted (b # rest))"
    "parse_dotted_decimal (dotted (b # rest)) = (Some (word_of_nat b), dotted rest)"
    using r by (intro parse_dotted_head; simp)+
  have eq: "CBB_add_asn1_oid_from_text A d (dotted arcs) = (\<lambda>cbb. cbb_then (CBB_flush A d cbb)
     (\<lambda>cbb. cbb_then (add_base128_integer A d ?v cbb) (oid_from_text_loop A d (dotted rest))))"
    unfolding CBB_add_asn1_oid_from_text_def [abs_def] arcs p prod.case option.case using ok by (simp only: if_False)
  show ?thesis
    unfolding eq using appends_flush_then [OF appends_oid_loop [OF r(4), of A d ?v]]
    by (simp add: oid_der_def arcs der_oid_def v)
qed

lemma oid_from_text_dotted:
  assumes "CBB_add_asn1_oid_from_text A d text cbb = (True, cbb')"
  shows "\<exists>arcs. oid_ok arcs \<and> text = dotted arcs"
proof -
  obtain oa r1 where e1: "parse_dotted_decimal text = (oa, r1)" by (cases "parse_dotted_decimal text") auto
  obtain ob r2 where e2: "parse_dotted_decimal r1 = (ob, r2)" by (cases "parse_dotted_decimal r1") auto
  note r = assms [unfolded CBB_add_asn1_oid_from_text_def cbb_then_True e1 prod.case]
  from r obtain a where a: "oa = Some a" by (cases oa) auto
  from r obtain b where b: "ob = Some b" by (cases ob) (auto simp: a e2)
  have p: "parse_dotted_decimal text = (Some a, r1)" "parse_dotted_decimal r1 = (Some b, r2)"
    using e1 e2 a b by simp_all
  from r obtain c1 where ok: "\<not> (a > 2 \<or> (a < 2 \<and> b > 39) \<or> b > 18446744073709551615 - 80)"
    and l: "oid_from_text_loop A d r2 c1 = (True, cbb')"
    unfolding a e2 b prod.case option.case by (auto simp: cbb_then_True split: if_splits)
  from oid_loop_dotted [OF l] obtain arcs where arcs: "r2 = dotted arcs" "\<forall>x \<in> set arcs. x < 2 ^ 64" by blast
  then have "r1 = dotted (unat b # arcs)" using p(2) by (intro parse_dotted_decimal_dotted) simp
  then have "text = dotted (unat a # unat b # arcs)" using p(1) by (intro parse_dotted_decimal_dotted) simp
  moreover have "oid_ok (unat a # unat b # arcs)"
    using ok arcs(2) unfolding u64_first_arc(1) by (simp add: oid_ok_def)
  ultimately show ?thesis by blast
qed

text \<open>Printing: every arc after a dot, then a terminating zero.\<close>

lemma length_decimal: "n < 10 ^ Suc k \<Longrightarrow> length (decimal n) \<le> Suc k"
proof (induction k arbitrary: n)
  case (Suc k)
  have "n div 10 < 10 ^ Suc k" using Suc.prems by (simp add: less_mult_imp_div_less)
  with Suc.IH [of "n div 10"] show ?case by (simp add: decimal.simps [of n])
qed (simp add: decimal.simps)

lemma appends_decimal: "appends A d (add_decimal A d v) (decimal (unat v))"
proof -
  have "unat v < 10 ^ Suc 19" using unat_lt [of v] by simp
  then have "length (decimal (unat v)) \<le> Suc 19" by (rule length_decimal)
  then have "length (decimal (unat v)) < size_mod" unfolding size_mod_def by linarith
  then show ?thesis unfolding add_decimal_def [abs_def] by (rule appends_add_bytes)
qed

definition dotted_tail :: "nat list \<Rightarrow> u8 list" where
  "dotted_tail arcs = concat (map (\<lambda>a. 46 # decimal a) arcs)"

lemma dotted_tail: "dotted (a # arcs) = decimal a @ dotted_tail arcs"
  by (induction arcs arbitrary: a) (auto simp: dotted_tail_def dotted_Cons)

lemma appends_oid_to_text_loop:
  assumes "appends A 0 f bs"
  shows "\<forall>x \<in> set arcs. x < 2 ^ 64 \<Longrightarrow>
    appends A 0 (\<lambda>cbb. cbb_then (f cbb) (oid_to_text_loop A (der_oid arcs))) (bs @ dotted_tail arcs)"
  using assms
proof (induction arcs arbitrary: f bs)
  case Nil
  have "oid_to_text_loop A [] = (\<lambda>cbb. (True, cbb))" by (auto simp: oid_to_text_loop.simps CBS_len_def)
  with Nil show ?case by (simp add: der_oid_def dotted_tail_def)
next
  case (Cons a arcs)
  have u: "unat (word_of_nat a :: u64) = a" using Cons.prems by (simp add: unat_of_nat)
  have p: "parse_base128_integer (der_oid (a # arcs)) = (Some (word_of_nat a), der_oid arcs)"
    using b128.dec_enc [of "word_of_nat a" "der_oid arcs"] by (simp add: u der_oid_def)
  have ne: "der_oid (a # arcs) \<noteq> []" by (simp add: der_oid_def base128_def)
  have step: "oid_to_text_loop A (der_oid (a # arcs)) = (\<lambda>cbb. cbb_then (CBB_add_u8 A 0 46 cbb)
      (\<lambda>cbb. cbb_then (add_decimal A 0 (word_of_nat a) cbb) (oid_to_text_loop A (der_oid arcs))))"
    using p ne by (subst oid_to_text_loop.simps [abs_def]) (auto simp: CBS_len_def)
  let ?f = "\<lambda>cbb. cbb_then (f cbb) (\<lambda>cbb. cbb_then (CBB_add_u8 A 0 46 cbb) (add_decimal A 0 (word_of_nat a)))"
  have "appends A 0 ?f (bs @ [46] @ decimal (unat (word_of_nat a :: u64)))"
    by (intro appends_then Cons.prems appends_add_u8 appends_decimal)
  from Cons.IH [OF _ this] Cons.prems show ?case
    by (simp add: step cbb_then_assoc u dotted_tail_def)
qed

lemma c_text_append_zero: "\<forall>c \<in> set bs. c \<noteq> 0 \<Longrightarrow> c_text (bs @ 0 # rest) = bs"
  by (induction bs) auto

lemma decimal_nonzero: "c \<in> set (decimal n) \<Longrightarrow> c \<noteq> 0"
proof (induction n rule: decimal.induct)
  case (1 n)
  have "(word_of_nat (48 + k) :: u8) \<noteq> 0" if "k < 10" for k
    using that by (simp add: word_unat_eq_iff unat_word_of_nat_u8 del: of_nat_add)
  with 1 show ?case by (subst (asm) (2) decimal.simps) (auto split: if_splits simp del: of_nat_add)
qed

lemma dotted_nonzero: "c \<in> set (dotted arcs) \<Longrightarrow> c \<noteq> 0"
  by (induction arcs rule: dotted.induct) (auto dest: decimal_nonzero)

text \<open>The whole of \<open>CBS_asn1_oid_to_text\<close> after the first component has been read.\<close>

definition oid_text_writer :: "allocator \<Rightarrow> u64 \<Rightarrow> CBS \<Rightarrow> CBB \<Rightarrow> bool \<times> CBB" where
  "oid_text_writer A v copy cbb =
     cbb_then
       (if v \<ge> 80
        then cbb_then (CBB_add_bytes A 0 [50, 46] cbb) (add_decimal A 0 (v - 80))
        else cbb_then (add_decimal A 0 (v div 40) cbb) (\<lambda>cbb.
             cbb_then (CBB_add_u8 A 0 46 cbb) (add_decimal A 0 (v mod 40))))
       (\<lambda>cbb. cbb_then (oid_to_text_loop A copy cbb) (CBB_add_u8 A 0 0))"

lemma oid_to_text_eq:
  "CBS_asn1_oid_to_text A cbs =
   (case CBB_init A 32 of None \<Rightarrow> None | Some cbb \<Rightarrow>
     (case parse_base128_integer cbs of (None, _) \<Rightarrow> None | (Some v, copy) \<Rightarrow>
       (case oid_text_writer A v copy cbb of (False, _) \<Rightarrow> None
        | (True, cbb) \<Rightarrow> map_option fst (fst (CBB_finish A 0 True cbb)))))"
  unfolding CBS_asn1_oid_to_text_def oid_text_writer_def by (rule refl)

definition first_arcs :: "nat \<Rightarrow> nat list" where
  "first_arcs v = (if v \<ge> 80 then [2, v - 80] else [v div 40, v mod 40])"

lemma decimal_digit: "n < 10 \<Longrightarrow> decimal n = [word_of_nat (48 + n)]"
  by (simp add: decimal.simps)

lemma appends_oid_text_writer:
  assumes "\<forall>x \<in> set arcs. x < 2 ^ 64"
  shows "appends A 0 (oid_text_writer A v (der_oid arcs)) (dotted (first_arcs (unat v) @ arcs) @ [0])"
proof -
  let ?f = "\<lambda>cbb. if v \<ge> 80
        then cbb_then (CBB_add_bytes A 0 [50, 46] cbb) (add_decimal A 0 (v - 80))
        else cbb_then (add_decimal A 0 (v div 40) cbb) (\<lambda>cbb. cbb_then (CBB_add_u8 A 0 46 cbb) (add_decimal A 0 (v mod 40)))"
  have f: "appends A 0 ?f (dotted (first_arcs (unat v)))"
  proof (cases "v \<ge> 80")
    case True
    then have u: "unat (v - 80) = unat v - 80" "unat v \<ge> 80" by (simp_all add: unat_sub word_le_nat_alt)
    have "appends A 0 (\<lambda>cbb. cbb_then (CBB_add_bytes A 0 [50, 46] cbb) (add_decimal A 0 (v - 80))) ([50, 46] @ decimal (unat (v - 80)))"
      by (intro appends_then appends_add_bytes appends_decimal) (simp add: size_mod_def)
    then show ?thesis using True u by (simp add: first_arcs_def decimal_digit)
  next
    case False
    then have u: "\<not> unat v \<ge> 80" by (simp add: word_le_nat_alt)
    have "appends A 0 (\<lambda>cbb. cbb_then (add_decimal A 0 (v div 40) cbb) (\<lambda>cbb. cbb_then (CBB_add_u8 A 0 46 cbb) (add_decimal A 0 (v mod 40))))
       (decimal (unat (v div 40)) @ [46] @ decimal (unat (v mod 40)))"
      by (intro appends_then appends_add_u8 appends_decimal)
    then show ?thesis using False u by (simp add: first_arcs_def unat_div_distrib unat_mod_distrib)
  qed
  have d: "dotted (first_arcs (unat v)) @ dotted_tail arcs = dotted (first_arcs (unat v) @ arcs)"
    by (auto simp: first_arcs_def dotted_tail dotted_tail_def)
  from appends_then [OF appends_oid_to_text_loop [OF f assms] appends_add_u8 [of A 0 0]]
  show ?thesis by (simp add: oid_text_writer_def [abs_def] cbb_then_assoc d)
qed

lemma oid_to_text_loop_valid:
  "oid_to_text_loop A copy cbb = (True, cbb') \<Longrightarrow> \<exists>arcs. copy = der_oid arcs \<and> (\<forall>x \<in> set arcs. x < 2 ^ 64)"
proof (induction A copy cbb rule: oid_to_text_loop.induct)
  case (1 A copy cbb)
  show ?case
  proof (cases "copy = []")
    case True
    then show ?thesis by (intro exI [of _ "[]"]) (simp add: der_oid_def)
  next
    case False
    with 1(2) obtain v rest c1 c2 where p: "parse_base128_integer copy = (Some v, rest)"
      and s: "CBB_add_u8 A 0 46 cbb = (True, c1)" "add_decimal A 0 v c1 = (True, c2)"
      and r: "oid_to_text_loop A rest c2 = (True, cbb')"
      by (subst (asm) oid_to_text_loop.simps) (auto simp: CBS_len_def cbb_then_True split: prod.splits option.splits)
    from 1(1) [OF _ p [symmetric] refl r] False obtain arcs where "rest = der_oid arcs" "\<forall>x \<in> set arcs. x < 2 ^ 64"
      by (auto simp: CBS_len_def)
    moreover have "unat v < 2 ^ 64" using unat_lt [of v] by simp
    ultimately show ?thesis
      using b128.enc_dec [OF p] by (intro exI [of _ "unat v # arcs"]) (auto simp: der_oid_def)
  qed
qed

lemma first_arcs_ok:
  assumes "unat (v :: u64) = n" "\<forall>x \<in> set arcs. x < 2 ^ 64"
  shows "oid_ok (first_arcs n @ arcs)" "oid_der (first_arcs n @ arcs) = der_oid (n # arcs)"
  using assms unat_lt [of v] by (auto simp: oid_ok_def oid_der_def first_arcs_def)

lemma oid_der_first:
  assumes "oid_ok arcs"
  obtains v rest where "arcs = first_arcs (unat (v :: u64)) @ rest" "\<forall>x \<in> set rest. x < 2 ^ 64"
    "oid_der arcs = base128 (unat v) @ der_oid rest"
proof -
  obtain a b rest where arcs: "arcs = a # b # rest" using assms by (auto simp: oid_ok_def split: list.splits)
  have r: "a \<le> 2" "a < 2 \<longrightarrow> b \<le> 39" "b \<le> 18446744073709551535" "\<forall>x \<in> set rest. x < 2 ^ 64"
    using assms by (auto simp: oid_ok_def arcs)
  define v :: u64 where "v = word_of_nat (40 * a + b)"
  have v: "unat v = 40 * a + b" using r by (simp add: v_def unat_of_nat del: of_nat_add of_nat_mult)
  have "a = 0 \<or> a = 1 \<or> a = 2" using r(1) by linarith
  then have "first_arcs (unat v) = [a, b]" using r by (auto simp: v first_arcs_def)
  then show ?thesis using that [of v rest] r by (simp add: arcs oid_der_def der_oid_def v)
qed

lemma cbb_init_ok:
  assumes "CBB_init A n = Some cbb" "n < size_mod"
  shows "cbb_inv cbb" "cbb_kids cbb = []" "cb_bytes (cbb_base cbb) = []" "\<not> cb_error (cbb_base cbb)"
    "cb_can_resize (cbb_base cbb)"
  using assms
  by (auto simp: CBB_init_def cbb_init_def cbb_inv_def buf_inv_def cb_bytes_def dest: OPENSSL_malloc_length split: option.splits if_splits)

lemma finish_ok:
  assumes "cbb_inv cbb" "CBB_finish A 0 want cbb = (Some (buf, len), cbb')"
  shows "take len buf = cbb_view 0 cbb \<and> len \<le> length buf"
proof -
  obtain c1 where f: "CBB_flush A 0 cbb = (True, c1)" and b: "buf = cb_buf (cbb_base c1)" "len = cb_len (cbb_base c1)"
    using assms(2) by (auto simp: CBB_finish_def split: prod.splits bool.splits if_splits)
  have "buf_inv (cbb_base c1)" "cb_bytes (cbb_base c1) = cbb_view 0 cbb"
    using flush_ok [OF assms(1) f] by (simp_all add: cbb_inv_def)
  then show ?thesis using b by (simp add: cb_bytes_def buf_inv_def)
qed

lemma oid_to_text_valid:
  assumes "CBS_asn1_oid_to_text A cbs = Some p"
  shows "\<exists>arcs. oid_ok arcs \<and> cbs = oid_der arcs \<and> c_text p = dotted arcs"
proof -
  from assms obtain c0 v copy c1 buf len c2 where i: "CBB_init A 32 = Some c0" and pb: "parse_base128_integer cbs = (Some v, copy)"
    and w: "oid_text_writer A v copy c0 = (True, c1)" and f: "CBB_finish A 0 True c1 = (Some (p, len), c2)"
    by (auto simp: oid_to_text_eq split: option.splits prod.splits bool.splits) (metis fst_conv prod.collapse)
  obtain arcs where arcs: "copy = der_oid arcs" "\<forall>x \<in> set arcs. x < 2 ^ 64"
    using w oid_to_text_loop_valid by (auto simp: oid_text_writer_def cbb_then_True) blast
  note i' = cbb_init_ok [OF i, unfolded size_mod_def, simplified]
  note post = appendsD [OF appends_oid_text_writer [OF arcs(2), of A v] i'(1) w [unfolded arcs(1)]]
  then have "cbb_inv c1" "cbb_view 0 c1 = dotted (first_arcs (unat v) @ arcs) @ [0]"
    using i' by (simp_all add: append_post_def)
  then have "p = dotted (first_arcs (unat v) @ arcs) @ 0 # drop len p"
    using finish_ok [OF _ f] by (metis append.assoc append_Cons append_Nil append_take_drop_id)
  then have "c_text p = dotted (first_arcs (unat v) @ arcs)"
    using c_text_append_zero dotted_nonzero by metis
  moreover have "cbs = oid_der (first_arcs (unat v) @ arcs)"
    using b128.enc_dec [OF pb] first_arcs_ok(2) [OF refl arcs(2)] by (simp add: der_oid_def arcs(1))
  ultimately show ?thesis using first_arcs_ok(1) [OF refl arcs(2)] by blast
qed

lemma oid_to_text_succeeds:
  assumes "oid_ok arcs" "\<forall>k. malloc_ok A k" "length (dotted arcs) < 2 ^ 61"
  shows "\<exists>p. CBS_asn1_oid_to_text A (oid_der arcs) = Some p"
proof -
  obtain v rest where v: "arcs = first_arcs (unat (v :: u64)) @ rest" "\<forall>x \<in> set rest. x < 2 ^ 64"
    "oid_der arcs = base128 (unat v) @ der_oid rest"
    using oid_der_first [OF assms(1)] by blast
  obtain c0 where i: "CBB_init A 32 = Some c0"
    using assms(2) by (auto simp: CBB_init_def OPENSSL_malloc_def OPENSSL_MALLOC_PREFIX_def size_add_exact size_mod_def)
  note i' = cbb_init_ok [OF i, unfolded size_mod_def, simplified]
  have "cb_len (cbb_base c0) = 0" using i' length_cb_bytes [of "cbb_base c0"] by (simp add: cbb_inv_def)
  then have "ready A 0 (length (dotted (first_arcs (unat v) @ rest) @ [0])) c0"
    using i' assms(2,3) v(1) by (simp add: ready_def room_def)
  from appendsD' [OF appends_oid_text_writer [OF v(2)] this] obtain c1
    where w: "oid_text_writer A v (der_oid rest) c0 = (True, c1)"
      and post: "append_post A 0 (dotted (first_arcs (unat v) @ rest) @ [0]) c0 c1" by blast
  then have "CBB_flush A 0 c1 = (True, c1)" by (simp add: append_post_def CBB_flush_def)
  then show ?thesis
    using i w b128.dec_enc [of v "der_oid rest"] by (simp add: oid_to_text_eq v(3) CBB_finish_def)
qed

section \<open>SET OF\<close>

definition set_order :: "CBS \<Rightarrow> CBS \<Rightarrow> bool" where
  "set_order a b \<longleftrightarrow> compare_set_of_element a b \<le> 0"

lemma compare_Cons:
  "compare_set_of_element (a # as) (b # bs) =
   (if a = b then compare_set_of_element as bs else int (unat a) - int (unat b))"
  by (auto simp: compare_set_of_element_def CBS_len_def Let_def word_uint_eq_iff)

lemma compare_Nil:
  "compare_set_of_element [] bs = (if bs = [] then 0 else - 1)"
  "compare_set_of_element (a # as) [] = 1"
  by (auto simp: compare_set_of_element_def CBS_len_def Let_def)

lemma compare_eq_0: "compare_set_of_element a b = 0 \<longleftrightarrow> a = b"
  by (induction a b rule: list_induct2') (auto simp: compare_Cons compare_Nil word_uint_eq_iff)

lemma compare_swap: "compare_set_of_element a b \<le> 0 \<longleftrightarrow> 0 \<le> compare_set_of_element b a"
  by (induction a b rule: list_induct2') (auto simp: compare_Cons compare_Nil word_uint_eq_iff)

lemma compare_less_trans:
  "compare_set_of_element a b \<le> 0 \<Longrightarrow> compare_set_of_element b c \<le> 0 \<Longrightarrow> compare_set_of_element a c \<le> 0"
proof (induction a arbitrary: b c)
  case (Cons x a)
  then obtain y b' where b: "b = y # b'" by (cases b) (auto simp: compare_Nil)
  with Cons.prems obtain z c' where c: "c = z # c'" by (cases c) (auto simp: compare_Nil)
  from Cons.prems Cons.IH [of b' c'] show ?case
    by (auto simp: b c compare_Cons word_uint_eq_iff split: if_splits)
qed (simp add: compare_Nil)

text \<open>Sorting by any total preorder given as a comparison function.\<close>

locale comparison =
  fixes cmp :: "'a \<Rightarrow> 'a \<Rightarrow> int"
  assumes cmp_total: "cmp x y \<le> 0 \<or> cmp y x \<le> 0"
    and cmp_trans: "cmp x y \<le> 0 \<Longrightarrow> cmp y z \<le> 0 \<Longrightarrow> cmp x z \<le> 0"
begin

lemma set_insert: "set (qsort_insert cmp x ys) = insert x (set ys)"
  by (induction ys) auto

lemma mset_insert: "mset (qsort_insert cmp x ys) = add_mset x (mset ys)"
  by (induction ys) auto

lemma sorted_insert:
  "sorted_wrt (\<lambda>a b. cmp a b \<le> 0) ys \<Longrightarrow> sorted_wrt (\<lambda>a b. cmp a b \<le> 0) (qsort_insert cmp x ys)"
proof (induction ys)
  case (Cons y ys)
  then show ?case using cmp_total cmp_trans by (auto simp: set_insert)
qed simp

lemma mset_qsort: "mset (qsort cmp xs) = mset xs"
  by (induction xs) (auto simp: qsort_def mset_insert)

lemma sorted_qsort: "sorted_wrt (\<lambda>a b. cmp a b \<le> 0) (qsort cmp xs)"
  by (induction xs) (auto simp: qsort_def sorted_insert)

end

interpretation set_of: comparison compare_set_of_element
proof
  fix x y z
  show "compare_set_of_element x y \<le> 0 \<or> compare_set_of_element y x \<le> 0"
    using compare_swap [of x y] by linarith
  show "compare_set_of_element x z \<le> 0" if "compare_set_of_element x y \<le> 0" "compare_set_of_element y z \<le> 0"
    using that by (rule compare_less_trans)
qed

lemma set_of_children_Some:
  "set_of_children cbs = Some els \<Longrightarrow>
   concat els = cbs \<and> (\<forall>e \<in> set els. \<exists>tag body. valid_tag tag \<and> length body < 2 ^ 32 \<and> e = der_tlv tag body)"
proof (induction cbs arbitrary: els rule: set_of_children.induct)
  case (1 cbs)
  show ?case
  proof (cases "cbs = []")
    case True
    with 1(2) show ?thesis by (subst (asm) set_of_children.simps) (simp add: CBS_len_def)
  next
    case False
    with 1(2) obtain el rest els' where e: "CBS_get_any_asn1_element cbs = (Some el, rest)"
      and r: "set_of_children rest = Some els'" and els: "els = el_out el # els'"
      by (subst (asm) set_of_children.simps) (auto simp: CBS_len_def split: prod.splits option.splits)
    from e obtain tag body where "valid_tag tag" "length body < 2 ^ 32" "el = der_element tag body" "cbs = der_tlv tag body @ rest"
      by (auto simp: any_asn1_element_iff)
    with 1(1) [OF _ e [symmetric] refl r] False els show ?thesis by (auto simp: CBS_len_def)
  qed
qed

lemma set_of_children_der:
  "\<forall>(tag, body) \<in> set els. valid_tag tag \<and> length body < 2 ^ 32 \<Longrightarrow>
   set_of_children (concat (map (\<lambda>(tag, body). der_tlv tag body) els)) = Some (map (\<lambda>(tag, body). der_tlv tag body) els)"
proof (induction els)
  case Nil
  then show ?case by (subst set_of_children.simps) (simp add: CBS_len_def)
next
  case (Cons e els)
  obtain tag body where e: "e = (tag, body)" by (cases e)
  have "CBS_get_any_asn1_element (der_tlv tag body @ r) = (Some (der_element tag body), r)" for r
    using Cons.prems e by (auto simp: CBS_get_any_asn1_element_def intro!: any_asn1_element_enc)
  moreover have "der_tlv tag body \<noteq> []" by (simp add: der_tlv_def der_length_def)
  ultimately show ?case using Cons
    by (subst set_of_children.simps) (simp add: e CBS_len_def)
qed

lemma chain_ok_last: "chain_ok cs n \<Longrightarrow> cs \<noteq> [] \<Longrightarrow> ch_offset (last cs) + ch_pending_len_len (last cs) \<le> n"
proof (induction cs)
  case (Cons c cs)
  then show ?case by (cases cs) auto
qed simp

definition cbb_contents :: "nat \<Rightarrow> CBB \<Rightarrow> u8 list" where
  "cbb_contents d cbb = take (CBB_len d cbb) (drop (CBB_data d cbb) (cb_buf (cbb_base cbb)))"

lemma cbb_contents_split:
  assumes "cbb_inv cbb" "d = length (cbb_kids cbb)"
  shows "CBB_data d cbb + CBB_len d cbb = cb_len (cbb_base cbb)"
    and "cb_bytes (cbb_base cbb) = take (CBB_data d cbb) (cb_bytes (cbb_base cbb)) @ cbb_contents d cbb"
proof -
  show l: "CBB_data d cbb + CBB_len d cbb = cb_len (cbb_base cbb)"
    using assms chain_ok_last [of "cbb_kids cbb" "cb_len (cbb_base cbb)"]
    by (auto simp: CBB_data_def CBB_len_def Let_def cbb_inv_def last_conv_nth)
  then have "CBB_data d cbb \<le> cb_len (cbb_base cbb)" by linarith
  then show "cb_bytes (cbb_base cbb) = take (CBB_data d cbb) (cb_bytes (cbb_base cbb)) @ cbb_contents d cbb"
    using l by (simp add: cb_bytes_def cbb_contents_def min.absorb1 take_add [symmetric])
qed

lemma flush_set_of_ok:
  assumes inv: "cbb_inv cbb" and f: "CBB_flush A d cbb = (True, c1)"
    and r: "CBB_flush_asn1_set_of A d cbb = (True, c2)"
  shows "\<exists>els els'. cbb_contents d c1 = concat els \<and> cbb_contents d c2 = concat els'
     \<and> set_of_children (concat els) = Some els \<and> mset els' = mset els \<and> sorted_wrt set_order els'
     \<and> cbb_inv c2 \<and> cbb_kids c2 = cbb_kids c1
     \<and> cb_bytes (cbb_base c2) = take (CBB_data d c1) (cb_bytes (cbb_base c1)) @ concat els'"
proof -
  note fo = flush_ok [OF inv f]
  have i1: "cbb_inv c1" and d: "d = length (cbb_kids c1)" using fo by simp_all
  note sp = cbb_contents_split [OF i1 d]
  obtain els where els: "set_of_children (cbb_contents d c1) = Some els"
    and c2: "c2 = (if length els < 2 then c1 else cbb_write (CBB_data d c1) (concat (qsort compare_set_of_element els)) c1)"
    using r f by (auto simp: CBB_flush_asn1_set_of_def cbb_then_def Let_def cbb_contents_def split: option.splits if_splits)
  note ch = set_of_children_Some [OF els]
  show ?thesis
  proof (cases "length els < 2")
    case True
    then have "sorted_wrt set_order els" by (cases els; cases "tl els") auto
    with True c2 ch els i1 sp(2) show ?thesis by (intro exI [of _ els]) simp
  next
    case False
    define els' where "els' = qsort compare_set_of_element els"
    have ms: "mset els' = mset els" unfolding els'_def by (rule set_of.mset_qsort)
    have srt: "sorted_wrt set_order els'" unfolding els'_def set_order_def [abs_def] by (rule set_of.sorted_qsort)
    have len: "length (concat els') = CBB_len d c1"
    proof -
      have "sum_mset (image_mset length (mset els')) = sum_mset (image_mset length (mset els))" by (simp add: ms)
      then have "length (concat els') = length (concat els)" by (simp add: length_concat sum_mset_sum_list flip: mset_map)
      also have "\<dots> = CBB_len d c1" using ch sp(1) i1 by (auto simp: cbb_contents_def cbb_inv_def buf_inv_def min_def)
      finally show ?thesis .
    qed
    have c2: "c2 = cbb_write (CBB_data d c1) (concat els') c1" using False c2 by (simp add: els'_def)
    have fits: "CBB_data d c1 + length (concat els') = cb_len (cbb_base c1)" using len sp(1) by simp
    then have i2: "cbb_inv c2" using i1 by (simp add: c2 cbb_write_def cbb_inv_def buf_inv_write)
    have b: "cb_bytes (cbb_base c2) = take (CBB_data d c1) (cb_bytes (cbb_base c1)) @ concat els'"
      using take_write_at [of "CBB_data d c1" "concat els'" "cb_buf (cbb_base c1)"] fits i1
      by (simp add: c2 cbb_write_def cb_bytes_def cbb_inv_def buf_inv_def min.absorb1)
    have "cbb_contents d c2 = concat els'"
    proof -
      have "CBB_data d c2 = CBB_data d c1" "CBB_len d c2 = CBB_len d c1"
        by (simp_all add: c2 cbb_write_def CBB_data_def CBB_len_def)
      then show ?thesis using i1 sp(1) len
        by (simp add: cbb_contents_def c2 cbb_write_def write_at_def cbb_inv_def buf_inv_def)
    qed
    then show ?thesis using ch els ms srt i2 b by (intro exI [of _ els] exI [of _ els']) (simp add: c2 cbb_write_def)
  qed
qed

section \<open>Errors\<close>

text \<open>Once the error bit is set every operation fails and nothing is written.\<close>

lemma flush_locked: "cb_error (cbb_base cbb) \<Longrightarrow> CBB_flush A d cbb = (False, cbb)"
  by (simp add: CBB_flush_def)

lemma flush_chain_error: "flush_chain A cs base = (False, base') \<Longrightarrow> cs \<noteq> [] \<or> cb_error base \<Longrightarrow> cb_error base'"
proof (cases cs)
  case (Cons c kids)
  have fc: "flush_child A c b = (False, b') \<Longrightarrow> cb_error b'" for b b'
    by (auto simp: flush_child_def Let_def buffer_error_def split: if_splits prod.splits option.splits)
  assume "flush_chain A cs base = (False, base')"
  then show ?thesis using Cons fc
    by (auto simp: buffer_error_def split: if_splits prod.splits bool.splits)
qed simp

lemma flush_fails_locks:
  assumes "CBB_flush A d cbb = (False, cbb')" "d \<le> length (cbb_kids cbb)"
  shows "cb_error (cbb_base cbb')"
  using assms flush_chain_error [of A "drop d (cbb_kids cbb)" "cbb_base cbb"]
  by (cases "d = length (cbb_kids cbb)") (auto simp: CBB_flush_def split: if_splits prod.splits)

lemma add_space_fails_locks:
  assumes "CBB_add_space A d n cbb = (None, cbb')" "d \<le> length (cbb_kids cbb)"
  shows "cb_error (cbb_base cbb')"
proof (cases "CBB_flush A d cbb")
  case (Pair ok c1)
  show ?thesis
  proof (cases ok)
    case False
    then show ?thesis using Pair assms flush_fails_locks [of A d cbb c1] by (simp add: CBB_add_space_def)
  next
    case True
    then show ?thesis using Pair assms(1)
      by (auto simp: CBB_add_space_def cbb_buffer_add_def cbb_buffer_reserve_def buffer_error_def Let_def
          split: prod.splits option.splits if_splits)
  qed
qed

end
