(* ===== verification/Bytestring_Props.thy ===== *)
theory Bytestring_Props
  imports Times Cbb_Asn1
begin

text \<open>
  The properties of the byte string library and of the time functions, stated over the definitions
  that model the code, each with a witness on a concrete input where it has hypotheses.
\<close>

definition demo_alloc :: allocator where
  "demo_alloc = \<lparr>malloc_ok = (\<lambda>_. True), fresh = (\<lambda>_. 0)\<rparr>"

lemma ready_fixed: "n \<le> length buf \<Longrightarrow> length buf < size_mod \<Longrightarrow> ready A 0 n (CBB_init_fixed buf)"
  by (simp add: ready_def CBB_init_fixed_def cbb_init_def cbb_inv_def buf_inv_def room_def)

lemma inv_fixed: "length buf < size_mod \<Longrightarrow> cbb_inv (CBB_init_fixed buf)"
  by (simp add: CBB_init_fixed_def cbb_init_def cbb_inv_def buf_inv_def)

section \<open>Parsing DER\<close>

text \<open>C1: \<open>CBS_get_any_asn1\<close> accepts exactly the DER encodings. It delivers contents, tag and remaining
  input if and only if the input is the canonical encoding (minimal tag form, minimal definite length)
  of an element with that tag and those contents, below 4 GiB, followed by that remainder.\<close>

theorem any_asn1_is_der:
  "CBS_get_any_asn1 cbs = (Some (body, tag), rest) \<longleftrightarrow>
   valid_tag tag \<and> length body < 2 ^ 32 \<and> cbs = der_tlv tag body @ rest"
  by (rule get_any_asn1_iff)

text \<open>C26: every outcome of \<open>CBS_get_asn1\<close> in terms of the untyped getter: input that is not DER is
  rejected and left in place, an element with another tag is rejected and consumed, and an element
  with the expected tag is delivered.\<close>

theorem get_asn1_outcomes:
  "CBS_get_asn1 tag cbs =
     (case CBS_get_any_asn1 cbs of
        (None, _) \<Rightarrow> (None, cbs)
      | (Some (body, tag'), rest) \<Rightarrow> (if tag' = tag then Some body else None, rest))"
  unfolding CBS_get_asn1_def cbs_get_asn1_def CBS_get_any_asn1_def CBS_get_any_asn1_element_def
  by (cases cbs rule: any_asn1_element_cases) auto

text \<open>\<open>CBS_get_asn1_uint64\<close> and \<open>CBS_get_asn1_int64\<close> accept exactly the minimal two's complement
  encodings of the values of their types: a successful read determines the bytes consumed, and the
  encoding of each value is read back whatever follows it.\<close>

theorem asn1_integers_are_minimal:
  "(CBS_get_asn1_uint64 cbs = (Some v, rest) \<longleftrightarrow> cbs = der_tlv CBS_ASN1_INTEGER (der_uint (unat v)) @ rest)
   \<and> (CBS_get_asn1_int64 cbs = (Some v, rest) \<longleftrightarrow> cbs = der_tlv CBS_ASN1_INTEGER (der_int (sint v)) @ rest)"
  by (simp only: get_asn1_uint64_iff get_asn1_int64_iff simp_thms)

text \<open>the optional getters. When the tag of the next element is not the given one the default is
  delivered and nothing is consumed; otherwise the element must be an explicit wrapper around exactly
  one unsigned INTEGER, whose value is delivered.\<close>

theorem optional_uint64_outcomes:
  "CBS_get_optional_asn1_uint64 tag dflt cbs = (Some v, rest) \<longleftrightarrow>
   (if CBS_peek_asn1_tag tag cbs
    then valid_tag tag \<and> cbs = der_tlv tag (der_tlv CBS_ASN1_INTEGER (der_uint (unat v))) @ rest
    else v = dflt \<and> rest = cbs)"
proof (cases "CBS_peek_asn1_tag tag cbs")
  case True
  have "CBS_get_optional_asn1_uint64 tag dflt cbs = (Some v, rest) \<longleftrightarrow>
     (\<exists>body. CBS_get_asn1 tag cbs = (Some body, rest) \<and> CBS_get_asn1_uint64 body = (Some v, []))"
  proof -
    obtain ob r where g: "CBS_get_asn1 tag cbs = (ob, r)" by (cases "CBS_get_asn1 tag cbs") auto
    obtain ov r' where u: "CBS_get_asn1_uint64 (the ob) = (ov, r')" by (cases "CBS_get_asn1_uint64 (the ob)") auto
    show ?thesis using True u
      by (cases ob; cases ov) (auto simp: CBS_get_optional_asn1_uint64_def CBS_get_optional_asn1_def g CBS_len_def)
  qed
  also have "\<dots> \<longleftrightarrow> valid_tag tag \<and> cbs = der_tlv tag (der_tlv CBS_ASN1_INTEGER (der_uint (unat v))) @ rest"
  proof -
    have "length (der_tlv CBS_ASN1_INTEGER (der_uint (unat v))) < 2 ^ 32"
      using length_der_uint [of "unat v" 8] unat_lt [of v] length_der_tag [of CBS_ASN1_INTEGER]
      by (simp add: der_tlv_def der_length_def)
    then show ?thesis by (auto simp: get_asn1_iff get_asn1_uint64_iff)
  qed
  finally show ?thesis using True by simp
next
  case False
  then show ?thesis by (auto simp: CBS_get_optional_asn1_uint64_def CBS_get_optional_asn1_def)
qed

text \<open>\<open>CBS_is_valid_asn1_oid\<close> accepts exactly the non-empty sequences of minimal base-128 integers, of
  any magnitude.\<close>

theorem valid_oid_is_base128_sequence:
  "CBS_is_valid_asn1_oid cbs \<longleftrightarrow> (\<exists>arcs. arcs \<noteq> [] \<and> cbs = concat (map base128 arcs))"
  unfolding is_valid_oid_iff der_oid_def by (rule refl)

text \<open>\<open>CBS_get_u64_decimal\<close> reads the canonical decimal representation of a 64-bit number: no leading
  zero, no overflow, and it stops only where no digit follows.\<close>

theorem u64_decimal_canonical:
  "CBS_get_u64_decimal cbs = (Some v, rest) \<longleftrightarrow>
   cbs = decimal (unat v) @ rest \<and> (rest = [] \<or> hd rest < 48 \<or> hd rest > 57)"
proof -
  have "no_digit_next rest \<longleftrightarrow> rest = [] \<or> hd rest < 48 \<or> hd rest > 57"
    by (auto simp: no_digit_next_def OPENSSL_isdigit_def word_less_def not_le)
  then show ?thesis unfolding get_u64_decimal_iff by simp
qed

section \<open>Building byte strings\<close>

text \<open>C3: \<open>CBB_flush\<close> refines its abstract specification. On any well-formed chain of children, a
  successful flush leaves a well-formed chain cut at the flushed \<open>CBB\<close>, and the buffer holds what was
  there with every pending child replaced by its length prefix and contents, innermost first.\<close>

theorem flush_refines:
  assumes "cbb_inv cbb" "CBB_flush A d cbb = (True, cbb')"
  shows "cbb_inv cbb' \<and> cbb_kids cbb' = take d (cbb_kids cbb)
    \<and> cb_bytes (cbb_base cbb') = flush_bytes (drop d (cbb_kids cbb)) (cb_bytes (cbb_base cbb))"
  using flush_ok [OF assms] by (simp add: cbb_view_def)

definition demo_open :: CBB where
  "demo_open = \<lparr>cbb_base = \<lparr>cb_buf = [7, 0, 0, 9, 8, 0], cb_len = 5, cb_cap = 6, cb_can_resize = False, cb_error = False\<rparr>,
     cbb_kids = [\<lparr>ch_offset = 1, ch_pending_len_len = 2, ch_pending_is_asn1 = False\<rparr>]\<rparr>"

definition demo_flushed :: CBB where
  "demo_flushed = \<lparr>cbb_base = \<lparr>cb_buf = [7, 0, 2, 9, 8, 0], cb_len = 5, cb_cap = 6, cb_can_resize = False, cb_error = False\<rparr>,
     cbb_kids = []\<rparr>"

lemma demo_flush: "CBB_flush demo_alloc 0 demo_open = (True, demo_flushed)"
  by (simp add: CBB_flush_def demo_open_def demo_flushed_def flush_child_def Let_def size_add_exact size_mod_def numeral_2_eq_2)

theorem flush_refines_witness:
  "cbb_inv demo_open \<and> CBB_flush demo_alloc 0 demo_open = (True, demo_flushed)
   \<and> cb_bytes (cbb_base demo_flushed) = flush_bytes (drop 0 (cbb_kids demo_open)) (cb_bytes (cbb_base demo_open))"
proof -
  have "cbb_inv demo_open" by (simp add: cbb_inv_def buf_inv_def demo_open_def size_mod_def)
  with flush_refines [OF this demo_flush] demo_flush show ?thesis by blast
qed

text \<open>C4: \<open>CBB_add_asn1\<close>, any writer of the contents, and \<open>CBB_flush\<close> together append the DER element
  with these contents: whatever a successful call sequence wrote into the child ends up behind the
  identifier octets and a minimal length, and with enough room the sequence does succeed.\<close>

theorem add_asn1_nests:
  assumes "appends A (d + 1) f body" "length body \<le> 0xfffffffe"
  shows "appends A d (\<lambda>cbb. cbb_then (CBB_add_asn1 A d tag cbb) (\<lambda>cbb. cbb_then (f cbb) (CBB_flush A d)))
    (der_tlv tag body)"
  using assms by (rule appends_asn1)

theorem add_asn1_nests_witness:
  "appends demo_alloc 0 (\<lambda>cbb. cbb_then (CBB_add_asn1 demo_alloc 0 0x20000010 cbb)
     (\<lambda>cbb. cbb_then (CBB_add_asn1_bool demo_alloc 1 True cbb) (CBB_flush demo_alloc 0)))
     (der_tlv 0x20000010 (der_tlv CBS_ASN1_BOOLEAN [0xff]))"
proof (rule add_asn1_nests)
  show "appends demo_alloc (0 + 1) (CBB_add_asn1_bool demo_alloc 1 True) (der_tlv CBS_ASN1_BOOLEAN [0xff])"
    using appends_bool [of demo_alloc 1 True] by simp
  have "length (der_tag CBS_ASN1_BOOLEAN) \<le> 6" by (rule length_der_tag)
  then show "length (der_tlv CBS_ASN1_BOOLEAN [0xff]) \<le> 0xfffffffe" by (simp add: der_tlv_def der_length_def)
qed

text \<open>C2: integers written by \<open>CBB_add_asn1_uint64\<close> and \<open>CBB_add_asn1_int64\<close> are read back by the matching
  getters. With room for the element the writers succeed, append exactly one element, and the getter
  applied to what was appended delivers the value and the rest of the input.\<close>

theorem asn1_integer_roundtrip:
  assumes "ready A d 16 cbb"
  shows "(\<exists>c. CBB_add_asn1_uint64 A d v cbb = (True, c) \<and> cbb_inv c
            \<and> CBS_get_asn1_uint64 (drop (cb_len (cbb_base cbb)) (cb_bytes (cbb_base c)) @ rest) = (Some v, rest))
       \<and> (\<exists>c. CBB_add_asn1_int64 A d v cbb = (True, c) \<and> cbb_inv c
            \<and> CBS_get_asn1_int64 (drop (cb_len (cbb_base cbb)) (cb_bytes (cbb_base c)) @ rest) = (Some v, rest))"
proof -
  have d: "d = length (cbb_kids cbb)" "length (cb_bytes (cbb_base cbb)) = cb_len (cbb_base cbb)"
    using assms by (simp_all add: ready_def cbb_inv_def)
  have l: "length (der_tlv CBS_ASN1_INTEGER b) \<le> 16" if "length b \<le> 9" for b
    using that length_der_tag [of CBS_ASN1_INTEGER] by (simp add: der_tlv_def der_length_def)
  have u: "length (der_uint (unat v)) \<le> 9" using length_der_uint [of "unat v" 8] unat_lt [of v] by simp
  have s: "length (der_int (sint v)) \<le> 9" using length_der_int64 [of v] by simp
  from appendsD' [OF appends_uint64 ready_mono [OF assms l [OF u]]]
  obtain c where "CBB_add_asn1_uint64_with_tag A d v CBS_ASN1_INTEGER cbb = (True, c)"
    "append_post A d (der_tlv CBS_ASN1_INTEGER (der_uint (unat v))) cbb c" by blast
  then have U: "CBB_add_asn1_uint64 A d v cbb = (True, c) \<and> cbb_inv c
      \<and> drop (cb_len (cbb_base cbb)) (cb_bytes (cbb_base c)) = der_tlv CBS_ASN1_INTEGER (der_uint (unat v))"
    using d by (simp add: CBB_add_asn1_uint64_def append_post_def)
  from appendsD' [OF appends_int64 ready_mono [OF assms l [OF s]]]
  obtain c' where "CBB_add_asn1_int64_with_tag A d v CBS_ASN1_INTEGER cbb = (True, c')"
    "append_post A d (der_tlv CBS_ASN1_INTEGER (der_int (sint v))) cbb c'" by blast
  then have S: "CBB_add_asn1_int64 A d v cbb = (True, c') \<and> cbb_inv c'
      \<and> drop (cb_len (cbb_base cbb)) (cb_bytes (cbb_base c')) = der_tlv CBS_ASN1_INTEGER (der_int (sint v))"
    using d by (simp add: CBB_add_asn1_int64_def append_post_def)
  show ?thesis using U S get_asn1_uint64_iff get_asn1_int64_iff by metis
qed

theorem asn1_integer_roundtrip_witness:
  "ready demo_alloc 0 16 (CBB_init_fixed (replicate 20 0))
   \<and> (\<exists>c. CBB_add_asn1_int64 demo_alloc 0 (- 129) (CBB_init_fixed (replicate 20 0)) = (True, c) \<and> cbb_inv c
        \<and> CBS_get_asn1_int64 (drop (cb_len (cbb_base (CBB_init_fixed (replicate 20 0)))) (cb_bytes (cbb_base c)) @ [5])
          = (Some (- 129), [5]))"
proof -
  have "ready demo_alloc 0 16 (CBB_init_fixed (replicate 20 0))" by (rule ready_fixed) (simp_all add: size_mod_def)
  with asn1_integer_roundtrip [OF this, of "- 129" "[5]"] show ?thesis by blast
qed

text \<open>length-prefixed strings. Opening a child with an \<open>n\<close>-byte prefix, adding \<open>body\<close> to it and flushing
  succeeds when the length fits the prefix and there is room, and \<open>cbs_get_length_prefixed\<close> reads
  \<open>body\<close> back from what was appended.\<close>

theorem length_prefixed_roundtrip:
  assumes "n \<le> 8" "length body < 256 ^ n" "ready A d (n + length body) cbb"
  shows "\<exists>c. cbb_then (cbb_add_length_prefixed A d n cbb) (\<lambda>cbb. cbb_then (CBB_add_bytes A (d + 1) body cbb) (CBB_flush A d)) = (True, c)
    \<and> cbb_inv c \<and> cbb_kids c = cbb_kids cbb
    \<and> cbs_get_length_prefixed n (drop (cb_len (cbb_base cbb)) (cb_bytes (cbb_base c)) @ rest) = (Some body, rest)"
proof -
  have n: "n < size_mod" using assms(1) by (simp add: size_mod_def)
  have p: "(256 :: nat) ^ n \<le> 256 ^ 8" using assms(1) by (intro power_increasing) auto
  then have b: "length body < 2 ^ 64" using assms(2) by simp
  have "appends A (d + 1) (CBB_add_bytes A (d + 1) body) body"
    using b by (intro appends_add_bytes) (simp add: size_mod_def)
  from appendsD' [OF appends_length_prefixed [OF this assms(2) n]] assms(3)
  obtain c where c: "cbb_then (cbb_add_length_prefixed A d n cbb) (\<lambda>cbb. cbb_then (CBB_add_bytes A (d + 1) body cbb) (CBB_flush A d)) = (True, c)"
    and post: "append_post A d (be_bytes n (length body) @ body) cbb c" by auto
  have d: "d = length (cbb_kids cbb)" "length (cb_bytes (cbb_base cbb)) = cb_len (cbb_base cbb)"
    using assms(3) by (simp_all add: ready_def cbb_inv_def)
  define w :: u64 where "w = word_of_nat (length body)"
  have w: "unat w = length body" using b by (simp add: w_def unat_of_nat)
  have "cbs_get_u n (be_bytes n (unat w) @ body @ rest) = (Some w, body @ rest)"
    using assms(1,2) w by (simp add: cbs_get_u_Some_iff)
  then have "cbs_get_length_prefixed n (be_bytes n (length body) @ body @ rest) = (Some body, rest)"
    by (simp add: cbs_get_length_prefixed_def w CBS_get_bytes_eq cbs_get_append)
  then show ?thesis using c post d by (auto simp: append_post_def)
qed

theorem length_prefixed_roundtrip_witness:
  "ready demo_alloc 0 (2 + length [9, 8, 7 :: u8]) (CBB_init_fixed (replicate 5 0)) \<and>
   (\<exists>c. cbb_then (cbb_add_length_prefixed demo_alloc 0 2 (CBB_init_fixed (replicate 5 0)))
        (\<lambda>cbb. cbb_then (CBB_add_bytes demo_alloc (0 + 1) [9, 8, 7] cbb) (CBB_flush demo_alloc 0)) = (True, c))"
proof -
  have "ready demo_alloc 0 (2 + length [9, 8, 7 :: u8]) (CBB_init_fixed (replicate 5 0))"
    by (rule ready_fixed) (simp_all add: size_mod_def)
  with length_prefixed_roundtrip [of 2 "[9, 8, 7]" demo_alloc 0 "CBB_init_fixed (replicate 5 0)" "[]"] show ?thesis by auto
qed

text \<open>The routines of \<open>cbb.c\<close> through which everything that is appended goes, on a \<open>CBB\<close> that they fail to change.\<close>

definition cbb_locked :: "CBB \<Rightarrow> bool" where
  "cbb_locked cbb \<longleftrightarrow> (\<forall>A d data n v tag.
     CBB_flush A d cbb = (False, cbb) \<and> CBB_add_space A d n cbb = (None, cbb) \<and> CBB_reserve A d n cbb = (None, cbb) \<and>
     CBB_add_bytes A d data cbb = (False, cbb) \<and> CBB_add_zeros A d n cbb = (False, cbb) \<and> cbb_add_u A d v n cbb = (False, cbb) \<and>
     cbb_add_length_prefixed A d n cbb = (False, cbb) \<and> CBB_add_asn1 A d tag cbb = (False, cbb) \<and>
     CBB_finish A d True cbb = (None, cbb) \<and> CBB_finish A d False cbb = (None, cbb))"

lemma length_prefixed_fails_locks:
  assumes "cbb_add_length_prefixed A d n cbb = (False, cbb')" "d \<le> length (cbb_kids cbb)"
  shows "cb_error (cbb_base cbb')"
proof (cases "CBB_flush A d cbb")
  case (Pair ok c1)
  show ?thesis
  proof (cases ok)
    case False
    then show ?thesis using Pair assms flush_fails_locks [of A d cbb c1] by (simp add: cbb_add_length_prefixed_def cbb_then_def)
  next
    case True
    then show ?thesis using Pair assms(1)
      by (auto simp: cbb_add_length_prefixed_def cbb_then_def cbb_add_child_def cbb_buffer_add_def cbb_buffer_reserve_def
          buffer_error_def Let_def split: prod.splits option.splits if_splits)
  qed
qed

lemma error_is_locked: "cb_error (cbb_base cbb) \<Longrightarrow> cbb_locked cbb"
  by (simp add: cbb_locked_def flush_locked CBB_add_space_def CBB_reserve_def CBB_add_bytes_def CBB_add_zeros_def cbb_add_u_def
      cbb_add_length_prefixed_def CBB_add_asn1_def cbb_then_def CBB_finish_def)

text \<open>C25: an error locks the buffer. When \<open>CBB_flush\<close>, \<open>CBB_add_bytes\<close>, \<open>CBB_add_zeros\<close>, the common routine
  \<open>cbb_add_u\<close> of the integer writers or that of the openers of length-prefixed children fails on a live \<open>CBB\<close>, the error bit is set,
  and from then on \<open>CBB_flush\<close>, \<open>CBB_add_space\<close>, \<open>CBB_reserve\<close>, \<open>CBB_add_bytes\<close>, \<open>CBB_add_zeros\<close>, the
  writers of integers of every width, the openers of length-prefixed and ASN.1 children and \<open>CBB_finish\<close> fail, whatever their
  arguments, at every position, and change nothing. \<open>CBB_did_write\<close> and \<open>CBB_discard_child\<close>, which do not test the bit, leave it
  set.\<close>

theorem error_locks:
  assumes "CBB_flush A d cbb = (False, cbb') \<or> CBB_add_bytes A d data cbb = (False, cbb') \<or>
      CBB_add_zeros A d k cbb = (False, cbb') \<or> cbb_add_u A d v k cbb = (False, cbb') \<or>
      cbb_add_length_prefixed A d k cbb = (False, cbb')" "d \<le> length (cbb_kids cbb)"
  shows "cb_error (cbb_base cbb') \<and> cbb_locked cbb' \<and>
    CBB_add_u8 A' d' b cbb' = (False, cbb') \<and> CBB_add_u16 A' d' w16 cbb' = (False, cbb') \<and> CBB_add_u16le A' d' w16 cbb' = (False, cbb') \<and>
    CBB_add_u24 A' d' w cbb' = (False, cbb') \<and> CBB_add_u32 A' d' w cbb' = (False, cbb') \<and> CBB_add_u32le A' d' w cbb' = (False, cbb') \<and>
    CBB_add_u64 A' d' w64 cbb' = (False, cbb') \<and> CBB_add_u64le A' d' w64 cbb' = (False, cbb') \<and>
    CBB_add_u8_length_prefixed A' d' cbb' = (False, cbb') \<and> CBB_add_u16_length_prefixed A' d' cbb' = (False, cbb') \<and>
    CBB_add_u24_length_prefixed A' d' cbb' = (False, cbb') \<and>
    cb_error (cbb_base (snd (CBB_did_write d' n cbb'))) \<and> cb_error (cbb_base (CBB_discard_child d' cbb'))"
proof -
  have zeros: "CBB_add_space A d (length data) cbb = (None, cbb')" if "CBB_add_bytes A d data cbb = (False, cbb')"
    using that by (auto simp: CBB_add_bytes_def split: prod.splits option.splits)
  have bytes: "CBB_add_space A d k cbb = (None, cbb')" if "CBB_add_zeros A d k cbb = (False, cbb')"
    using that by (auto simp: CBB_add_zeros_def split: prod.splits option.splits)
  have u: "CBB_add_space A d k cbb = (None, cbb') \<or> cb_error (cbb_base cbb')" if "cbb_add_u A d v k cbb = (False, cbb')"
    using that by (auto simp: cbb_add_u_def cbb_on_error_def buffer_error_def Let_def split: prod.splits option.splits if_splits)
  have e: "cb_error (cbb_base cbb')"
    using assms(1) zeros bytes u flush_fails_locks [OF _ assms(2)] add_space_fails_locks [OF _ assms(2)]
      length_prefixed_fails_locks [OF _ assms(2)] by blast
  note l = error_is_locked [OF e]
  show ?thesis using e l
    by (simp add: cbb_locked_def CBB_add_u8_def CBB_add_u16_def CBB_add_u16le_def CBB_add_u24_def CBB_add_u32_def CBB_add_u32le_def
        CBB_add_u64_def CBB_add_u64le_def CBB_add_u8_length_prefixed_def CBB_add_u16_length_prefixed_def
        CBB_add_u24_length_prefixed_def CBB_did_write_def CBB_discard_child_def Let_def)
qed

theorem error_locks_witness:
  "\<exists>cbb'. CBB_add_bytes demo_alloc 0 [1, 2] (CBB_init_fixed [0]) = (False, cbb')
     \<and> cb_error (cbb_base cbb') \<and> CBB_add_bytes demo_alloc 0 [] cbb' = (False, cbb')"
proof -
  have "\<exists>cbb'. CBB_add_bytes demo_alloc 0 [1, 2] (CBB_init_fixed [0]) = (False, cbb')"
    by (simp add: CBB_add_bytes_def CBB_add_space_def CBB_flush_def CBB_init_fixed_def cbb_init_def
        cbb_buffer_add_def cbb_buffer_reserve_def size_add_exact size_mod_def)
  then obtain cbb' where c: "CBB_add_bytes demo_alloc 0 [1, 2] (CBB_init_fixed [0]) = (False, cbb')" by blast
  from error_locks [OF disjI2 [OF disjI1 [OF c]]] c show ?thesis by (auto simp: cbb_locked_def)
qed

section \<open>Object identifiers\<close>

text \<open>C19: \<open>CBB_add_asn1_oid_from_text\<close> accepts exactly the dotted texts of object identifiers whose components
  fit 64 bits, and for these appends the DER contents.\<close>

theorem oid_from_text_exact:
  "(\<forall>arcs. oid_ok arcs \<longrightarrow> appends A d (CBB_add_asn1_oid_from_text A d (dotted arcs)) (oid_der arcs))
   \<and> (\<forall>text cbb. fst (CBB_add_asn1_oid_from_text A d text cbb) \<longrightarrow> (\<exists>arcs. oid_ok arcs \<and> text = dotted arcs))"
proof (intro conjI allI impI)
  show "appends A d (CBB_add_asn1_oid_from_text A d (dotted arcs)) (oid_der arcs)" if "oid_ok arcs" for arcs
    using that by (rule appends_oid_from_text)
  show "\<exists>arcs. oid_ok arcs \<and> s = dotted arcs" if "fst (CBB_add_asn1_oid_from_text A d s cbb)" for s cbb
    using that oid_from_text_dotted by (metis (full_types) prod.collapse)
qed

theorem oid_from_text_exact_witness:
  "oid_ok [1, 2, 840, 113554] \<and>
   appends demo_alloc 0 (CBB_add_asn1_oid_from_text demo_alloc 0 (dotted [1, 2, 840, 113554])) (oid_der [1, 2, 840, 113554])"
proof -
  have "oid_ok [1, 2, 840, 113554]" by (simp add: oid_ok_def)
  with oid_from_text_exact [of demo_alloc 0] show ?thesis by blast
qed

text \<open>C20: \<open>CBS_asn1_oid_to_text\<close> prints exactly the identifiers that have such a text. A result is the dotted
  text of the components the contents encode; with memory available every encoding of
  components that fit 64 bits has a result.\<close>

theorem oid_to_text_exact:
  "(CBS_asn1_oid_to_text A cbs = Some p \<longrightarrow> (\<exists>arcs. oid_ok arcs \<and> cbs = oid_der arcs \<and> c_text p = dotted arcs))
   \<and> (oid_ok arcs \<and> All (malloc_ok A) \<and> length (dotted arcs) < 2 ^ 61 \<longrightarrow>
      (\<exists>p. CBS_asn1_oid_to_text A (oid_der arcs) = Some p))"
  using oid_to_text_valid [of A cbs p] oid_to_text_succeeds [of arcs A] by auto

theorem oid_to_text_exact_witness:
  "oid_ok [2, 5] \<and> All (malloc_ok demo_alloc) \<and> (\<exists>p. CBS_asn1_oid_to_text demo_alloc (oid_der [2, 5]) = Some p)"
proof -
  have "oid_ok [2, 5]" "All (malloc_ok demo_alloc)" by (simp_all add: oid_ok_def demo_alloc_def)
  moreover have "length (dotted [2, 5]) < 2 ^ 61" by (simp add: decimal_digit)
  ultimately show ?thesis using oid_to_text_exact [of demo_alloc "[]" "[]" "[2, 5]"] by blast
qed

section \<open>SET OF\<close>






section \<open>Time\<close>

lemma posix_to_tm_defined: "(\<exists>u. OPENSSL_posix_to_tm p = Some u) \<longleftrightarrow> is_valid_posix_time p"
proof
  assume "\<exists>u. OPENSSL_posix_to_tm p = Some u"
  then show "is_valid_posix_time p" using tm_posix_range by (auto simp: posix_to_tm_iff)
next
  assume "is_valid_posix_time p"
  then show "\<exists>u. OPENSSL_posix_to_tm p = Some u"
    by (rule posix_utc_roundtrip) (simp add: OPENSSL_posix_to_tm_def)
qed

text \<open>C10: \<open>OPENSSL_posix_to_tm\<close> and \<open>OPENSSL_tm_to_posix\<close> are inverse to each other, between the valid
  broken-down times of the years 0000 to 9999 and exactly the POSIX times in the supported range.\<close>

theorem posix_tm_bijection:
  "(OPENSSL_posix_to_tm p = Some t \<longleftrightarrow> OPENSSL_tm_to_posix t = Some p)
   \<and> ((\<exists>q. OPENSSL_tm_to_posix t = Some q) \<longleftrightarrow> valid_tm t)
   \<and> ((\<exists>u. OPENSSL_posix_to_tm p = Some u) \<longleftrightarrow> MIN_POSIX_TIME \<le> p \<and> p \<le> MAX_POSIX_TIME)"
  using posix_to_tm_defined [of p] tm_to_posix_valid [of t] posix_to_tm_iff [of p t]
  by (simp only: is_valid_posix_time_def simp_thms)

text \<open>\<open>OPENSSL_gmtime_adj\<close> adds the offset in seconds exactly when the sum stays in the supported years,
  and \<open>OPENSSL_gmtime_diff\<close> recovers the offset as days and seconds of one sign.\<close>

theorem gmtime_adj_diff:
  assumes "OPENSSL_tm_to_posix t = Some p" "\<bar>offset_day\<bar> \<le> 2147483648" "INT64_MIN \<le> offset_sec" "offset_sec \<le> INT64_MAX"
  shows "(case OPENSSL_gmtime_adj t offset_day offset_sec of
      None \<Rightarrow> \<not> is_valid_posix_time (p + offset_day * 86400 + offset_sec)
    | Some t' \<Rightarrow> \<exists>days secs. OPENSSL_gmtime_diff t t' = Some (days, secs)
        \<and> days * 86400 + secs = offset_day * 86400 + offset_sec \<and> \<bar>secs\<bar> < 86400
        \<and> (0 \<le> days \<and> 0 \<le> secs \<or> days \<le> 0 \<and> secs \<le> 0))"
proof (cases "OPENSSL_gmtime_adj t offset_day offset_sec")
  case None
  let ?q = "p + offset_day * 86400 + offset_sec"
  have "\<not> is_valid_posix_time ?q"
  proof
    assume "is_valid_posix_time ?q"
    then obtain t' where "OPENSSL_posix_to_tm ?q = Some t'"
      using posix_to_tm_defined by blast
    then show False using gmtime_adj_iff [OF assms] None by (simp add: posix_to_tm_iff)
  qed
  then show ?thesis by (simp add: None)
next
  case (Some t')
  then have "OPENSSL_tm_to_posix t' = Some (p + offset_day * 86400 + offset_sec)" using gmtime_adj_iff [OF assms] by simp
  from gmtime_diff_eq [OF assms(1) this] Some show ?thesis
    using sdiv_smod_day [of "offset_day * 86400 + offset_sec"]
    by (cases "0 \<le> offset_day * 86400 + offset_sec") (simp_all add: add.assoc)
qed

theorem gmtime_adj_diff_witness:
  "case OPENSSL_gmtime_adj \<lparr>tm_sec = 0, tm_min = 0, tm_hour = 0, tm_mday = 1, tm_mon = 0, tm_year = 70\<rparr> (- 1) 30 of
      None \<Rightarrow> \<not> is_valid_posix_time (0 + (- 1) * 86400 + 30)
    | Some t' \<Rightarrow> \<exists>days secs. OPENSSL_gmtime_diff \<lparr>tm_sec = 0, tm_min = 0, tm_hour = 0, tm_mday = 1, tm_mon = 0, tm_year = 70\<rparr> t'
          = Some (days, secs)
        \<and> days * 86400 + secs = (- 1) * 86400 + 30 \<and> \<bar>secs\<bar> < 86400
        \<and> (0 \<le> days \<and> 0 \<le> secs \<or> days \<le> 0 \<and> secs \<le> 0)"
  by (rule gmtime_adj_diff)
     (simp_all add: OPENSSL_tm_to_posix_def posix_time_from_utc_eq is_valid_date_def is_valid_time_def
       civil_day_def march_days_def month_start_def INT64_MIN_def INT64_MAX_def)

text \<open>the conversion implements the Gregorian calendar: the day after a valid date, in the sense of month
  lengths and leap years, starts 86400 seconds later.\<close>

theorem next_day_is_86400_seconds:
  assumes "is_valid_date y m d" "next_date y m d = (y', m', d')" "is_valid_date y' m' d'"
  shows "\<exists>p. posix_time_from_utc y m d 0 0 0 = Some p \<and> posix_time_from_utc y' m' d' 0 0 0 = Some (p + 86400)"
proof -
  have "civil_day y' m' d' = civil_day y m d + 1"
    using assms(1,2) by (intro civil_day_next) (auto simp: is_valid_date_iff)
  then show ?thesis using assms by (simp add: posix_time_from_utc_eq is_valid_time_def)
qed

theorem next_day_is_86400_seconds_witness:
  "\<exists>p. posix_time_from_utc 2000 2 28 0 0 0 = Some p \<and> posix_time_from_utc 2000 2 29 0 0 0 = Some (p + 86400)"
  by (rule next_day_is_86400_seconds) (simp_all add: is_valid_date_iff next_date_def month_days_def leap_def)

text \<open>The parser with an offset: it accepts the text of a valid time followed by \<open>Z\<close> or an offset, and adds the offset
  with its sign to the time written.\<close>

lemma parse_time_with_offset:
  "CBS_parse_rfc5280_time_internal cbs is_gentime allow_timezone_offset = Some out \<longleftrightarrow>
   (\<exists>t sg h m. year_ok is_gentime (tm_year t + 1900) \<and> valid_tm t
      \<and> zone_ok allow_timezone_offset sg h m \<and> cbs = time_text is_gentime t @ zone_text sg h m
      \<and> (if sg * (h * 3600 + m * 60) = 0 then Some t
         else OPENSSL_gmtime_adj t 0 (sg * (h * 3600 + m * 60))) = Some out)"
  unfolding parse_time_iff time_fields_ok_def zone_adj_def by auto

lemma zone_text_ends_in_Z:
  assumes "zone_ok allow sg h m" "zone_text sg h m = copy @ [90]"
  shows "sg = 0"
proof (rule ccontr)
  assume "sg \<noteq> 0"
  then have "0 \<le> m mod 10 \<and> m mod 10 < 10" "last (zone_text sg h m) = word_of_int (48 + m mod 10)"
    by (simp_all add: zone_text_def two_digits_def)
  then have "uint (90 :: u8) = 48 + m mod 10" using digit_char [of "m mod 10"] assms(2) by simp
  then show False using \<open>0 \<le> m mod 10 \<and> m mod 10 < 10\<close> by simp
qed

lemma parse_time_utc:
  assumes "allow \<longrightarrow> (\<exists>front. cbs = front @ [90])"
  shows "CBS_parse_rfc5280_time_internal cbs g allow = Some out \<longleftrightarrow>
    year_ok g (tm_year out + 1900) \<and> valid_tm out \<and> cbs = time_text g out @ [90]"
proof
  assume "CBS_parse_rfc5280_time_internal cbs g allow = Some out"
  then obtain t sg h m where t: "time_fields_ok g t" "zone_ok allow sg h m" "cbs = time_text g t @ zone_text sg h m"
    "zone_adj t (sg * (h * 3600 + m * 60)) = Some out"
    unfolding parse_time_iff by blast
  have "sg = 0"
  proof (cases allow)
    case True
    then obtain front where "front @ [90] = time_text g t @ zone_text sg h m" using assms t(3) by metis
    moreover have "zone_text sg h m \<noteq> []" by (simp add: zone_text_def)
    ultimately have "zone_text sg h m = butlast (zone_text sg h m) @ [90]"
      by (metis append_butlast_last_id last_appendR last_snoc)
    then show ?thesis by (rule zone_text_ends_in_Z [OF t(2)])
  qed (use t(2) in \<open>auto simp: zone_ok_def split: if_splits\<close>)
  then show "year_ok g (tm_year out + 1900) \<and> valid_tm out \<and> cbs = time_text g out @ [90]"
    using t by (simp add: zone_adj_def time_fields_ok_def zone_text_def)
next
  assume t: "year_ok g (tm_year out + 1900) \<and> valid_tm out \<and> cbs = time_text g out @ [90]"
  then show "CBS_parse_rfc5280_time_internal cbs g allow = Some out"
    unfolding parse_time_iff
    by (intro exI [of _ out] exI [of _ 0]) (simp add: time_fields_ok_def zone_ok_def zone_text_def zone_adj_def)
qed

text \<open>C24: the textual times of RFC 5280, in UTC. Without offsets \<open>CBS_parse_rfc5280_time_internal\<close> accepts exactly the
  fixed-width texts of valid times (with the two-digit year window 1950 to 2049 for UTCTime) followed by \<open>Z\<close>, and the result is
  the time written. Allowing offsets does not change what a text that ends in \<open>Z\<close> means, and \<open>CBS_parse_generalized_time\<close>
  and \<open>CBS_parse_utc_time\<close> are the two cases of it.\<close>

theorem rfc5280_time_exact:
  "(CBS_parse_rfc5280_time_internal cbs is_gentime False = Some out \<longleftrightarrow>
      year_ok is_gentime (tm_year out + 1900) \<and> valid_tm out \<and> cbs = time_text is_gentime out @ [90]) \<and>
   CBS_parse_rfc5280_time_internal (front @ [90]) is_gentime allow_timezone_offset =
      CBS_parse_rfc5280_time_internal (front @ [90]) is_gentime False \<and>
   (CBS_parse_generalized_time cbs False = Some out \<longleftrightarrow>
      (0 \<le> tm_year out + 1900 \<and> tm_year out + 1900 \<le> 9999) \<and> valid_tm out \<and> cbs = time_text True out @ [90]) \<and>
   (CBS_parse_utc_time cbs False = Some out \<longleftrightarrow>
      (1950 \<le> tm_year out + 1900 \<and> tm_year out + 1900 \<le> 2049) \<and> valid_tm out \<and> cbs = time_text False out @ [90])"
proof -
  have "CBS_parse_rfc5280_time_internal (front @ [90]) is_gentime allow_timezone_offset = Some t \<longleftrightarrow>
      CBS_parse_rfc5280_time_internal (front @ [90]) is_gentime False = Some t" for t
    by (simp add: parse_time_utc)
  then have "CBS_parse_rfc5280_time_internal (front @ [90]) is_gentime allow_timezone_offset =
      CBS_parse_rfc5280_time_internal (front @ [90]) is_gentime False"
    by (metis option.exhaust)
  then show ?thesis
    by (auto simp: parse_time_utc CBS_parse_generalized_time_def CBS_parse_utc_time_def year_ok_def)
qed

text \<open>the direction of the offset. For a text with a positive offset the parsed time, read as a POSIX time, lies
  the offset after the time written in front of it (the sign \<open>+\<close> adds, \<open>-\<close> subtracts).\<close>

theorem positive_offset_is_added:
  assumes "valid_tm t" "0 \<le> h" "h \<le> 23" "0 \<le> m" "m \<le> 59" "0 < h * 3600 + m * 60"
    and "OPENSSL_tm_to_posix t = Some p" "p + h * 3600 + m * 60 \<le> MAX_POSIX_TIME"
  shows "\<exists>out. CBS_parse_generalized_time (time_text True t @ 43 # two_digits h @ two_digits m) True = Some out
     \<and> OPENSSL_tm_to_posix out = Some (p + h * 3600 + m * 60)"
proof -
  let ?off = "h * 3600 + m * 60"
  have "0 \<le> tm_year t + 1900 \<and> tm_year t + 1900 \<le> 9999"
    using assms(1) by (auto simp: valid_tm_def is_valid_date_def split: if_splits)
  then have y: "year_ok True (tm_year t + 1900)" by (simp add: year_ok_def)
  have "MIN_POSIX_TIME \<le> p" using tm_posix_range [OF assms(7)] by (simp add: is_valid_posix_time_def)
  then have "is_valid_posix_time (p + ?off)" using assms by (simp add: is_valid_posix_time_def)
  then obtain out where o: "OPENSSL_posix_to_tm (p + ?off) = Some out"
    using posix_to_tm_defined by blast
  then have q: "OPENSSL_tm_to_posix out = Some (p + 0 * 86400 + ?off)" by (simp add: posix_to_tm_iff)
  have "OPENSSL_gmtime_adj t 0 ?off = Some out"
    using assms q by (subst gmtime_adj_iff [OF assms(7)]) (simp_all add: INT64_MIN_def INT64_MAX_def)
  then have "CBS_parse_rfc5280_time_internal (time_text True t @ zone_text 1 h m) True True = Some out"
    unfolding parse_time_iff using assms y
    by (intro exI [of _ t] exI [of _ 1] exI [of _ h] exI [of _ m]) (auto simp: time_fields_ok_def zone_ok_def zone_adj_def)
  then show ?thesis using q by (auto simp: CBS_parse_generalized_time_def zone_text_def add.assoc)
qed

theorem positive_offset_is_added_witness:
  "\<exists>out. CBS_parse_generalized_time
       (time_text True \<lparr>tm_sec = 0, tm_min = 0, tm_hour = 0, tm_mday = 1, tm_mon = 0, tm_year = 70\<rparr> @ 43 # two_digits 1 @ two_digits 0) True = Some out
     \<and> OPENSSL_tm_to_posix out = Some (0 + 1 * 3600 + 0 * 60)"
  by (rule positive_offset_is_added)
     (simp_all add: valid_tm_def OPENSSL_tm_to_posix_def posix_time_from_utc_eq is_valid_date_def is_valid_time_def
       civil_day_def march_days_def month_start_def MAX_POSIX_TIME_def)

end
