(* ===== verification/Ber.thy ===== *)
theory Ber
  imports Cbb_Asn1
begin

text \<open>
  \<open>crypto/bytestring/ber.c\<close> and \<open>asn1_compat.c\<close>: detecting and converting BER, reading implicitly tagged
  constructed strings, and handing a finished \<open>CBB\<close> to the \<open>i2d\<close> calling convention.

  \<open>cbs_convert_ber\<close> takes the number of nested calls and loop rounds it may use as its first argument;
  \<open>None\<close> says that this was not enough. Every call consumes input, so the length of the input plus one
  is always enough.
\<close>

section \<open>The code\<close>

definition kMaxDepth :: nat where
  "kMaxDepth = 128"

definition is_string_type :: "CBS_ASN1_TAG \<Rightarrow> bool" where
  "is_string_type tag \<longleftrightarrow>
     tag AND NOT CBS_ASN1_CONSTRUCTED
       \<in> {0x4, 0xc, 0x12, 0x13, 0x14, 0x15, 0x16, 0x19, 0x1a, 0x1b, 0x1c, 0x1e}"

lemma ber_element_split:
  assumes "cbs_get_any_asn1_element ber_ok cbs = (Some el, rest)"
  shows "cbs = el_out el @ rest \<and> 0 < el_header_len el \<and> el_header_len el \<le> length (el_out el) \<and> valid_tag (el_tag el)"
proof -
  obtain ot header where p: "parse_asn1_tag cbs = (ot, header)" by (cases "parse_asn1_tag cbs") auto
  with assms obtain tag where t: "ot = Some tag" by (cases ot) (auto simp: cbs_get_any_asn1_element_def)
  have p: "parse_asn1_tag cbs = (Some tag, header)" using p t by simp
  have hl: "length header < length cbs" using tagc.dec_consumes [OF p] .
  have v: "valid_tag tag" using tagc.enc_dec [OF p] by simp
  show ?thesis
  proof (cases header)
    case Nil
    then show ?thesis using assms p by (simp add: cbs_get_any_asn1_element_def)
  next
    case (Cons lb hs)
    define h where "h = CBS_len cbs - CBS_len hs"
    have h: "0 < h" using hl Cons by (simp add: h_def CBS_len_def)
    define nb where "nb = unat (lb AND 0x7f)"
    obtain ov r where u: "cbs_get_u nb hs = (ov, r)" by (cases "cbs_get_u nb hs") auto
    note eq = assms [unfolded cbs_get_any_asn1_element_def p Cons prod.case option.case CBS_get_u8_simps Let_def
        h_def [symmetric] nb_def [symmetric] u CBS_get_bytes_eq]
    show ?thesis
    proof (cases "lb AND 0x80 = 0")
      case True
      then show ?thesis using eq h v by (auto simp: cbs_bind_Some_iff cbs_get_Some_iff)
    next
      case False
      show ?thesis
      proof (cases "ber_ok \<and> tag AND CBS_ASN1_CONSTRUCTED \<noteq> 0 \<and> nb = 0")
        case True
        then show ?thesis using eq False h v by (auto simp: cbs_bind_Some_iff cbs_get_Some_iff)
      next
        case definite: False
        show ?thesis
        proof (cases ov)
          case None
          then show ?thesis using eq False definite by (auto split: if_splits)
        next
          case (Some len64)
          then show ?thesis using eq False definite h v
            by (auto simp: cbs_bind_Some_iff cbs_get_Some_iff split: if_splits)
        qed
      qed
    qed
  qed
qed

lemma ber_element_consumes:
  "CBS_get_any_ber_asn1_element cbs = (Some el, rest) \<Longrightarrow> length rest < length cbs"
  using ber_element_split [of True cbs el rest]
  by (auto simp: CBS_get_any_ber_asn1_element_def)

lemma ber_contents_shorter:
  "CBS_get_any_ber_asn1_element cbs = (Some el, rest) \<Longrightarrow> CBS_skip (el_header_len el) (el_out el) = (True, contents) \<Longrightarrow>
   length contents < length cbs"
  using ber_element_split [of True cbs el rest]
  by (auto simp: CBS_get_any_ber_asn1_element_def CBS_skip_def cbs_get_def CBS_len_def split: if_splits)

text \<open>The loop of \<open>cbs_find_ber\<close> continues with the rest of the input at the same depth.\<close>

function cbs_find_ber :: "nat \<Rightarrow> CBS \<Rightarrow> bool option" where
  "cbs_find_ber depth cbs =
     (if depth > kMaxDepth then None
      else if CBS_len cbs = 0 then Some False
      else case CBS_get_any_ber_asn1_element cbs of
        (None, _) \<Rightarrow> None
      | (Some el, rest) \<Rightarrow>
          (if el_ber_found el then Some True
           else if el_tag el AND CBS_ASN1_CONSTRUCTED \<noteq> 0 then
             (if is_string_type (el_tag el) then Some True
              else case CBS_skip (el_header_len el) (el_out el) of
                (False, _) \<Rightarrow> None
              | (True, contents) \<Rightarrow>
                  (case cbs_find_ber (depth + 1) contents of
                     None \<Rightarrow> None
                   | Some True \<Rightarrow> Some True
                   | Some False \<Rightarrow> cbs_find_ber depth rest))
           else cbs_find_ber depth rest))"
  by pat_completeness auto
termination
  by (relation "measure (\<lambda>(depth, cbs). length cbs)")
     (auto dest: ber_element_consumes [OF sym] ber_contents_shorter [OF sym sym])

declare cbs_find_ber.simps [simp del]

definition cbs_get_eoc :: "CBS \<Rightarrow> bool \<times> CBS" where
  "cbs_get_eoc cbs = (if CBS_len cbs \<ge> 2 \<and> cbs ! 0 = 0 \<and> cbs ! 1 = 0 then CBS_skip 2 cbs else (False, cbs))"

text \<open>Where the contents of an element go: \<open>out_contents\<close> and \<open>child_string_tag\<close>.\<close>

definition convert_target ::
  "allocator \<Rightarrow> nat \<Rightarrow> CBS_ASN1_TAG \<Rightarrow> CBS_ASN1_TAG \<Rightarrow> CBB \<Rightarrow> (nat \<times> CBS_ASN1_TAG) option \<times> CBB" where
  "convert_target A d string_tag tag out =
     (if string_tag \<noteq> 0 then
        (if tag AND NOT CBS_ASN1_CONSTRUCTED \<noteq> string_tag then (None, out) else (Some (d, string_tag), out))
      else
        (let is_constructed_string = (tag AND CBS_ASN1_CONSTRUCTED \<noteq> 0 \<and> is_string_type tag);
             out_tag = (if is_constructed_string then tag AND NOT CBS_ASN1_CONSTRUCTED else tag);
             child_string_tag = (if is_constructed_string then out_tag else string_tag)
         in case CBB_add_asn1 A d out_tag out of
              (False, out) \<Rightarrow> (None, out)
            | (True, out) \<Rightarrow> (Some (d + 1, child_string_tag), out)))"

fun cbs_convert_ber ::
  "nat \<Rightarrow> allocator \<Rightarrow> nat \<Rightarrow> CBS_ASN1_TAG \<Rightarrow> bool \<Rightarrow> nat \<Rightarrow> CBS \<Rightarrow> CBB \<Rightarrow> (bool \<times> CBS \<times> CBB) option" where
  "cbs_convert_ber 0 A d string_tag looking_for_eoc depth cbs out = None"
| "cbs_convert_ber (Suc fuel) A d string_tag looking_for_eoc depth cbs out =
     (if depth > kMaxDepth then Some (False, cbs, out)
      else if CBS_len cbs = 0 then Some (\<not> looking_for_eoc, cbs, out)
      else case (if looking_for_eoc then cbs_get_eoc cbs else (False, cbs)) of
        (True, cbs) \<Rightarrow> Some (True, cbs, out)
      | (False, cbs) \<Rightarrow>
     (case CBS_get_any_ber_asn1_element cbs of
        (None, cbs) \<Rightarrow> Some (False, cbs, out)
      | (Some el, cbs) \<Rightarrow>
     (case convert_target A d string_tag (el_tag el) out of
        (None, out) \<Rightarrow> Some (False, cbs, out)
      | (Some (d', child_string_tag), out) \<Rightarrow>
     (case (if el_indefinite el then
              cbs_convert_ber fuel A d' child_string_tag True (depth + 1) cbs out
            else case CBS_skip (el_header_len el) (el_out el) of
              (False, _) \<Rightarrow> Some (False, cbs, out)
            | (True, contents) \<Rightarrow>
                (if el_tag el AND CBS_ASN1_CONSTRUCTED \<noteq> 0 then
                   map_option (\<lambda>(ok, _, out). (ok, cbs, out))
                     (cbs_convert_ber fuel A d' child_string_tag False (depth + 1) contents out)
                 else (case CBB_add_bytes A d' contents out of (ok, out) \<Rightarrow> Some (ok, cbs, out)))) of
        None \<Rightarrow> None
      | Some (False, cbs, out) \<Rightarrow> Some (False, cbs, out)
      | Some (True, cbs, out) \<Rightarrow>
          (case CBB_flush A d out of
             (False, out) \<Rightarrow> Some (False, cbs, out)
           | (True, out) \<Rightarrow> cbs_convert_ber fuel A d string_tag looking_for_eoc depth cbs out)))))"

text \<open>\<open>CBS_asn1_ber_to_der\<close> delivers \<open>*out\<close>, the storage it may have allocated and the remaining input.\<close>

definition CBS_asn1_ber_to_der :: "allocator \<Rightarrow> CBS \<Rightarrow> (CBS \<times> u8 list option) cbs_result" where
  "CBS_asn1_ber_to_der A cbs =
     (case cbs_find_ber 0 cbs of
        None \<Rightarrow> (None, cbs)
      | Some False \<Rightarrow>
          (case CBS_get_any_asn1_element cbs of
             (None, cbs) \<Rightarrow> (None, cbs)
           | (Some el, cbs) \<Rightarrow> (Some (el_out el, None), cbs))
      | Some True \<Rightarrow>
          (case CBB_init A (CBS_len cbs) of
             None \<Rightarrow> (None, cbs)
           | Some cbb \<Rightarrow>
               (case cbs_convert_ber (Suc (CBS_len cbs)) A 0 0 False 0 cbs cbb of
                  None \<Rightarrow> (None, cbs)
                | Some (False, cbs, _) \<Rightarrow> (None, cbs)
                | Some (True, cbs, cbb) \<Rightarrow>
                    (case CBB_finish A 0 True cbb of
                       (None, _) \<Rightarrow> (None, cbs)
                     | (Some (buf, len), _) \<Rightarrow> (Some (take len buf, Some buf), cbs)))))"

function implicit_string_loop :: "allocator \<Rightarrow> CBS_ASN1_TAG \<Rightarrow> CBS \<Rightarrow> CBB \<Rightarrow> bool \<times> CBB" where
  "implicit_string_loop A inner_tag child result =
     (if CBS_len child > 0 then
        (case CBS_get_asn1 inner_tag child of
           (None, _) \<Rightarrow> (False, result)
         | (Some chunk, child) \<Rightarrow>
             cbb_then (CBB_add_bytes A 0 chunk result) (implicit_string_loop A inner_tag child))
      else (True, result))"
  by pat_completeness auto
termination
  by (relation "measure (\<lambda>(A, tag, child, result). length child)")
     (auto dest!: get_asn1_iff [THEN iffD1, OF sym] simp: der_tlv_def der_length_def)

declare implicit_string_loop.simps [simp del]

definition CBS_get_asn1_implicit_string ::
  "allocator \<Rightarrow> CBS_ASN1_TAG \<Rightarrow> CBS_ASN1_TAG \<Rightarrow> CBS \<Rightarrow> (CBS \<times> u8 list option) cbs_result" where
  "CBS_get_asn1_implicit_string A outer_tag inner_tag cbs =
     (if CBS_peek_asn1_tag outer_tag cbs then
        cbs_bind (CBS_get_asn1 outer_tag cbs) (\<lambda>out cbs. (Some (out, None), cbs))
      else
        case CBB_init A (CBS_len cbs) of
          None \<Rightarrow> (None, cbs)
        | Some result \<Rightarrow>
            cbs_bind (CBS_get_asn1 (outer_tag OR CBS_ASN1_CONSTRUCTED) cbs) (\<lambda>child cbs.
              case implicit_string_loop A inner_tag child result of
                (False, _) \<Rightarrow> (None, cbs)
              | (True, result) \<Rightarrow>
                  (case CBB_finish A 0 True result of
                     (None, _) \<Rightarrow> (None, cbs)
                   | (Some (data, len), _) \<Rightarrow> (Some (take len data, Some data), cbs))))"

text \<open>The three uses of \<open>outp\<close> in the \<open>i2d\<close> convention: no output, allocate, or write at \<open>*outp\<close>.\<close>

datatype i2d_out = I2d_null | I2d_alloc | I2d_write "u8 list"

text \<open>The return value, and the new buffer or the array after the write with the bytes written.\<close>

definition CBB_finish_i2d :: "allocator \<Rightarrow> i2d_out \<Rightarrow> CBB \<Rightarrow> int \<times> (u8 list \<times> nat) option" where
  "CBB_finish_i2d A outp cbb =
     (case CBB_finish A 0 True cbb of
        (None, _) \<Rightarrow> (- 1, None)
      | (Some (der, der_len), _) \<Rightarrow>
          (if der_len > INT_MAX then (- 1, None)
           else
             (int der_len,
              case outp of
                I2d_null \<Rightarrow> None
              | I2d_alloc \<Rightarrow> Some (der, der_len)
              | I2d_write dst \<Rightarrow> Some (write_at 0 (take der_len der) dst, der_len))))"

end
