(* ===== verification/Ber_Correct.thy ===== *)
theory Ber_Correct
  imports Ber
begin

text \<open>
  Correctness of \<open>Ber\<close>: the conversion always has enough fuel, what \<open>cbs_find_ber\<close> clears is DER at every
  level, and what the conversion writes is DER at every level.
\<close>

section \<open>Termination\<close>

lemma get_eoc_length: "cbs_get_eoc cbs = (b, cbs') \<Longrightarrow> length cbs' \<le> length cbs \<and> (\<not> b \<longrightarrow> cbs' = cbs)"
  by (auto simp: cbs_get_eoc_def CBS_skip_def cbs_get_def CBS_len_def split: if_splits)

lemma ber_element_fail: "CBS_get_any_ber_asn1_element cbs = (None, rest) \<Longrightarrow> length rest \<le> length cbs"
  unfolding CBS_get_any_ber_asn1_element_def cbs_get_any_asn1_element_def
  by (auto simp: Let_def cbs_bind_def CBS_get_bytes_def cbs_get_def split: prod.splits option.splits if_splits)

lemma convert_returns:
  "length cbs < fuel \<Longrightarrow>
   \<exists>ok cbs' out'. cbs_convert_ber fuel A d st eoc depth cbs out = Some (ok, cbs', out') \<and> length cbs' \<le> length cbs"
proof (induction fuel arbitrary: d st eoc depth cbs out)
  case (Suc fuel)
  obtain b c0 where e: "(if eoc then cbs_get_eoc cbs else (False, cbs)) = (b, c0)" by fastforce
  have c0: "length c0 \<le> length cbs" "\<not> b \<longrightarrow> c0 = cbs" using e get_eoc_length by (auto split: if_splits)
  obtain oel c1 where el: "CBS_get_any_ber_asn1_element cbs = (oel, c1)" by fastforce
  show ?case
  proof (cases "depth > kMaxDepth \<or> CBS_len cbs = 0 \<or> b \<or> oel = None")
    case True
    then show ?thesis using e c0 el ber_element_fail [of cbs c1] by (cases b; cases oel) auto
  next
    case False
    then obtain el1 where el: "CBS_get_any_ber_asn1_element cbs = (Some el1, c1)" using el by auto
    have c1: "length c1 < length cbs" using ber_element_consumes [OF el] .
    obtain ot o1 where t: "convert_target A d st (el_tag el1) out = (ot, o1)" by fastforce
    show ?thesis
    proof (cases ot)
      case None
      then show ?thesis using False e c0 el t c1 by auto
    next
      case (Some p)
      obtain d' cst where p: "p = (d', cst)" by fastforce
      define res where "res = (if el_indefinite el1 then
              cbs_convert_ber fuel A d' cst True (depth + 1) c1 o1
            else case CBS_skip (el_header_len el1) (el_out el1) of
              (False, _) \<Rightarrow> Some (False, c1, o1)
            | (True, contents) \<Rightarrow>
                (if el_tag el1 AND CBS_ASN1_CONSTRUCTED \<noteq> 0 then
                   map_option (\<lambda>(ok, _, out). (ok, c1, out))
                     (cbs_convert_ber fuel A d' cst False (depth + 1) contents o1)
                 else (case CBB_add_bytes A d' contents o1 of (ok, out) \<Rightarrow> Some (ok, c1, out))))"
      have "\<exists>ok c2 o2. res = Some (ok, c2, o2) \<and> length c2 \<le> length c1"
      proof (cases "el_indefinite el1")
        case True
        then show ?thesis using Suc.IH [of c1 d' cst True "depth + 1" o1] c1 Suc.prems by (auto simp: res_def)
      next
        case definite: False
        obtain sk contents where s: "CBS_skip (el_header_len el1) (el_out el1) = (sk, contents)" by fastforce
        show ?thesis
        proof (cases "sk \<and> el_tag el1 AND CBS_ASN1_CONSTRUCTED \<noteq> 0")
          case True
          then have "length contents < fuel" using ber_contents_shorter [OF el] s Suc.prems by fastforce
          from Suc.IH [OF this, of d' cst False "depth + 1" o1] show ?thesis using definite s True by (auto simp: res_def)
        next
          case False
          then show ?thesis using definite s by (cases sk) (auto simp: res_def split: prod.splits)
        qed
      qed
      then obtain ok c2 o2 where res: "res = Some (ok, c2, o2)" and c2: "length c2 \<le> length c1" by blast
      obtain fl o3 where f: "CBB_flush A d o2 = (fl, o3)" by fastforce
      have "length c2 < fuel" using c2 c1 Suc.prems by simp
      from Suc.IH [OF this, of d st eoc depth o3] show ?thesis
        using False e c0 el t Some p c1 c2 f res [unfolded res_def]
        by (cases ok; cases fl) auto
    qed
  qed
qed simp

section \<open>DER at every level\<close>

text \<open>\<open>der_forest n bs\<close>: \<open>bs\<close> is a sequence of DER elements in which every constructed element is not a
  string and holds such a sequence again, at most \<open>n\<close> levels deep. This is what is left when indefinite
  lengths, non-minimal lengths and constructed strings are gone.\<close>

inductive der_forest :: "nat \<Rightarrow> u8 list \<Rightarrow> bool" where
  der_nil: "der_forest n []"
| der_prim: "valid_tag tag \<Longrightarrow> length body < 2 ^ 32 \<Longrightarrow> tag AND CBS_ASN1_CONSTRUCTED = 0 \<Longrightarrow> der_forest n rest \<Longrightarrow>
    der_forest n (der_tlv tag body @ rest)"
| der_cons: "valid_tag tag \<Longrightarrow> length body < 2 ^ 32 \<Longrightarrow> tag AND CBS_ASN1_CONSTRUCTED \<noteq> 0 \<Longrightarrow> \<not> is_string_type tag \<Longrightarrow>
    der_forest n body \<Longrightarrow> der_forest (Suc n) rest \<Longrightarrow> der_forest (Suc n) (der_tlv tag body @ rest)"

lemmas der_forest_rules = der_nil der_prim der_cons

lemma der_forest_append: "der_forest n xs \<Longrightarrow> der_forest n ys \<Longrightarrow> der_forest n (xs @ ys)"
  by (induction rule: der_forest.induct) (auto intro: der_forest_rules)

text \<open>A BER element in which nothing was found to be BER is the DER element.\<close>

lemma ber_element_der:
  "CBS_get_any_ber_asn1_element cbs = (Some el, rest) \<and> \<not> el_ber_found el \<longleftrightarrow>
   CBS_get_any_asn1_element cbs = (Some el, rest)"
  unfolding CBS_get_any_ber_asn1_element_def CBS_get_any_asn1_element_def cbs_get_any_asn1_element_def
  by (auto simp: Let_def cbs_bind_Some_iff split: prod.splits option.splits if_splits)

lemma ber_element_der_iff:
  "CBS_get_any_ber_asn1_element cbs = (Some el, rest) \<and> \<not> el_ber_found el \<longleftrightarrow>
   (\<exists>tag body. valid_tag tag \<and> length body < 2 ^ 32 \<and> el = der_element tag body \<and> cbs = der_tlv tag body @ rest)"
  by (simp only: ber_element_der any_asn1_element_iff)

lemma ber_element_enc:
  "valid_tag tag \<Longrightarrow> length body < 2 ^ 32 \<Longrightarrow>
   CBS_get_any_ber_asn1_element (der_tlv tag body @ rest) = (Some (der_element tag body), rest)"
  using ber_element_der_iff [of "der_tlv tag body @ rest" "der_element tag body" rest] by blast

lemma der_tlv_ne [simp]: "der_tlv tag body \<noteq> []"
  by (simp add: der_tlv_def der_tag_def)

lemma der_element_flags [simp]: "\<not> el_ber_found (der_element tag body)" "\<not> el_indefinite (der_element tag body)"
  by (simp_all add: der_element_def)

lemma find_ber_step:
  assumes "valid_tag tag" "length body < 2 ^ 32" "depth \<le> kMaxDepth"
  shows "cbs_find_ber depth (der_tlv tag body @ rest) =
    (if tag AND CBS_ASN1_CONSTRUCTED \<noteq> 0 then
       (if is_string_type tag then Some True
        else case cbs_find_ber (depth + 1) body of
          None \<Rightarrow> None | Some True \<Rightarrow> Some True | Some False \<Rightarrow> cbs_find_ber depth rest)
     else cbs_find_ber depth rest)"
  using assms by (subst cbs_find_ber.simps) (simp add: CBS_len_def ber_element_enc)

lemma find_ber_forest:
  "cbs_find_ber depth cbs = Some False \<Longrightarrow> depth \<le> kMaxDepth \<and> der_forest (kMaxDepth - depth) cbs"
proof (induction depth cbs rule: cbs_find_ber.induct)
  case (1 depth cbs)
  show ?case
  proof (cases "CBS_len cbs = 0")
    case True
    then show ?thesis using "1.prems" by (auto simp: CBS_len_def cbs_find_ber.simps [of depth "[]"] intro: der_nil split: if_splits)
  next
    case False
    then have d: "depth \<le> kMaxDepth" using "1.prems" by (auto simp: cbs_find_ber.simps [of depth cbs] split: if_splits)
    obtain el rest where e: "CBS_get_any_ber_asn1_element cbs = (Some el, rest)" "\<not> el_ber_found el"
      using "1.prems" d False by (auto simp: cbs_find_ber.simps [of depth cbs] split: prod.splits option.splits if_splits)
    then obtain tag body where t: "valid_tag tag" "length body < 2 ^ 32" "el = der_element tag body" "cbs = der_tlv tag body @ rest"
      using ber_element_der_iff [of cbs el rest] by blast
    note eq = "1.prems" [unfolded t(4) find_ber_step [OF t(1,2) d]]
    show ?thesis
    proof (cases "tag AND CBS_ASN1_CONSTRUCTED \<noteq> 0")
      case True
      with eq d False e(2) t(3) have s: "\<not> is_string_type tag" "cbs_find_ber (depth + 1) body = Some False" "cbs_find_ber depth rest = Some False"
        by (auto split: if_splits option.splits bool.splits)
      have "depth + 1 \<le> kMaxDepth \<and> der_forest (kMaxDepth - (depth + 1)) body"
        using "1.IH"(1) d False e True t(3) s by auto
      moreover have "der_forest (kMaxDepth - depth) rest" using "1.IH"(2) d False e True t(3) s by auto
      moreover from calculation have "kMaxDepth - depth = Suc (kMaxDepth - (depth + 1))" by linarith
      ultimately show ?thesis using d t s(1) True der_cons by (metis (no_types))
    next
      case prim: False
      with eq d False e(2) t(3) have s: "cbs_find_ber depth rest = Some False" by auto
      have "der_forest (kMaxDepth - depth) rest" using "1.IH"(3) d False e prim t(3) s by auto
      then show ?thesis using d t prim der_prim by simp
    qed
  qed
qed

lemma forest_find_ber:
  "der_forest n cbs \<Longrightarrow> depth + n = kMaxDepth \<Longrightarrow> cbs_find_ber depth cbs = Some False"
proof (induction arbitrary: depth rule: der_forest.induct)
  case (der_nil n)
  then show ?case by (subst cbs_find_ber.simps) (simp add: CBS_len_def)
qed (simp_all add: find_ber_step)

lemma find_ber_iff: "cbs_find_ber 0 cbs = Some False \<longleftrightarrow> der_forest kMaxDepth cbs"
  using find_ber_forest [of 0 cbs] forest_find_ber [of kMaxDepth cbs 0] by auto

section \<open>What a BER element is\<close>

text \<open>The definite length octets BER allows here: the short form, or one to four octets that need not be minimal.\<close>

definition ber_length :: "nat \<Rightarrow> u8 list \<Rightarrow> bool" where
  "ber_length n lo \<longleftrightarrow>
     (n < 128 \<and> lo = [word_of_nat n])
     \<or> (\<exists>bs. length bs \<in> {1..4} \<and> be_nat bs = n \<and> lo = word_of_nat (128 + length bs) # bs)"

definition ber_encodes :: "CBS_ASN1_TAG \<Rightarrow> u8 list \<Rightarrow> u8 list \<Rightarrow> bool" where
  "ber_encodes tag contents enc \<longleftrightarrow>
     (\<exists>lo. ber_length (length contents) lo \<and> enc = der_tag tag @ lo @ contents)
     \<or> (tag AND CBS_ASN1_CONSTRUCTED \<noteq> 0 \<and> enc = der_tag tag @ [0x80] @ contents @ [0, 0])"

lemma split_out: "xs @ ys = out @ rest \<Longrightarrow> length out = length xs + n \<Longrightarrow> \<exists>c. length c = n \<and> out = xs @ c"
  by (auto simp: append_eq_append_conv2)

lemma ber_element_form:
  assumes "CBS_get_any_ber_asn1_element cbs = (Some el, rest)"
  shows "if el_indefinite el then el_tag el AND CBS_ASN1_CONSTRUCTED \<noteq> 0 \<and> el_out el = der_tag (el_tag el) @ [0x80]
    else \<exists>lo contents. ber_length (length contents) lo \<and> el_out el = der_tag (el_tag el) @ lo @ contents
           \<and> el_header_len el = length (der_tag (el_tag el) @ lo)"
proof -
  obtain tag lb hs where p: "parse_asn1_tag cbs = (Some tag, lb # hs)"
    using assms unfolding CBS_get_any_ber_asn1_element_def cbs_get_any_asn1_element_def
    by (auto split: prod.splits option.splits) (metis CBS_get_u8_simps(1) list.exhaust option.discI prod.inject)
  have cbs: "cbs = der_tag tag @ lb # hs" using tagc.enc_dec [OF p] by simp
  have hl: "CBS_len cbs - CBS_len hs = length (der_tag tag) + 1" by (simp add: cbs CBS_len_def)
  define k where "k = unat (lb AND 0x7f)"
  note eq = assms [unfolded CBS_get_any_ber_asn1_element_def cbs_get_any_asn1_element_def p prod.case option.case
      CBS_get_u8_simps Let_def hl k_def [symmetric] CBS_get_bytes_eq]
  show ?thesis
  proof (cases "lb AND 0x80 = 0")
    case True
    then have short: "ber_length (unat lb) [lb]" by (simp add: ber_length_def u8_top_bit)
    have el: "el_tag el = tag" "\<not> el_indefinite el" "el_header_len el = length (der_tag tag) + 1" "cbs = el_out el @ rest"
      "length (el_out el) = length (der_tag tag @ [lb]) + unat lb"
      using eq True by (auto simp: cbs_bind_Some_iff cbs_get_Some_iff)
    from split_out [of "der_tag tag @ [lb]" hs, OF _ el(5)] el(4) cbs
    obtain c where "length c = unat lb" "el_out el = (der_tag tag @ [lb]) @ c" by auto
    then show ?thesis using el short by simp (rule exI [of _ "[lb]"], rule exI [of _ c], simp)
  next
    case long: False
    then have ge: "128 \<le> unat lb" by (simp add: u8_top_bit)
    have lb: "unat lb = 128 + k"
      using ge unat_u8_div_128 [of lb] mult_div_mod_eq [of 128 "unat lb"] by (simp add: k_def u8_masks)
    show ?thesis
    proof (cases "tag AND CBS_ASN1_CONSTRUCTED \<noteq> 0 \<and> k = 0")
      case True
      then have el: "el_tag el = tag" "el_indefinite el" "cbs = el_out el @ rest" "length (el_out el) = length (der_tag tag @ [lb]) + 0"
        using eq long by (auto simp: cbs_bind_Some_iff cbs_get_Some_iff)
      have "lb = 0x80" using lb True by (simp add: word_unat_eq_iff)
      with split_out [of "der_tag tag @ [lb]" hs, OF _ el(4)] el cbs True show ?thesis by auto
    next
      case definite: False
      then have k: "k \<noteq> 0" "k \<le> 4" using eq long by (auto split: if_splits)
      obtain v r where u: "cbs_get_u k hs = (Some v, r)" using eq long definite k by (auto split: prod.splits option.splits)
      then obtain bs where bs: "hs = bs @ r" "length bs = k" "v = cbs_u_loop 0 bs"
        by (auto simp: cbs_get_u_def cbs_bind_Some_iff cbs_get_Some_iff)
      have v: "unat v = be_nat bs" using bs k by (simp add: unat_cbs_u_loop_0)
      have el: "el_tag el = tag" "\<not> el_indefinite el" "el_header_len el = length (der_tag tag) + 1 + k" "cbs = el_out el @ rest"
        "length (el_out el) = length (der_tag tag @ lb # bs) + be_nat bs"
        using eq long definite k u v bs(2) by (auto simp: cbs_bind_Some_iff cbs_get_Some_iff split: if_splits)
      have "lb = word_of_nat (128 + k)" by (simp flip: lb)
      then have "ber_length (be_nat bs) (lb # bs)" using bs(2) k by (auto simp: ber_length_def)
      moreover from split_out [of "der_tag tag @ lb # bs" r, OF _ el(5)] el(4) cbs bs(1)
      obtain c where "length c = be_nat bs" "el_out el = (der_tag tag @ lb # bs) @ c" by auto
      ultimately show ?thesis using el bs(2) by simp (rule exI [of _ "lb # bs"], rule exI [of _ c], simp)
    qed
  qed
qed

section \<open>The conversion writes DER\<close>

lemma open_asn1_ok:
  assumes "cbb_inv c" "CBB_add_asn1 A d tag c = (True, c1)"
  shows "\<exists>c0. append_post A d (der_tag tag) c c0 \<and> opened A d 1 True c0 c1"
proof -
  obtain c0 where c0: "cbb_then (CBB_flush A d c) (add_tag A d tag) = (True, c0)" and c1: "cbb_add_child A d 1 True c0 = (True, c1)"
    using assms(2) by (auto simp: add_asn1_eq cbb_then_True)
  have p: "append_post A d (der_tag tag) c c0" using appendsD [OF appends_flush_then [OF appends_tag] assms(1) c0] .
  then have "opened A d 1 True c0 c1" using c1
    by (intro add_child_ok) (auto simp: append_post_def size_mod_def)
  then show ?thesis using p by blast
qed

lemma open_asn1_state:
  assumes "cbb_inv c" "CBB_add_asn1 A d tag c = (True, c1)"
  shows "cbb_inv c1 \<and> d + 1 = length (cbb_kids c1) \<and> \<not> cb_error (cbb_base c1)"
  using open_asn1_ok [OF assms] by (auto simp: opened_def append_post_def)

text \<open>The flush of an ASN.1 child fails unless the length fits in four bytes.\<close>

lemma close_asn1_ok:
  assumes inv: "cbb_inv c" and op: "CBB_add_asn1 A d tag c = (True, c1)" and p: "append_post A (d + 1) body c1 c2"
    and fl: "CBB_flush A d c2 = (True, c3)"
  shows "append_post A d (der_tlv tag body) c c3 \<and> length body \<le> 0xfffffffe"
proof -
  obtain c0 where p0: "append_post A d (der_tag tag) c c0" and o: "opened A d 1 True c0 c1"
    using open_asn1_ok [OF inv op] by blast
  have i0: "cbb_inv c0" "d = length (cbb_kids c0)" using p0 by (simp_all add: append_post_def)
  note v = closed_view [OF o i0 p]
  have i2: "cbb_inv c2" using p by (simp add: append_post_def)
  let ?c = "\<lparr>ch_offset = cb_len (cbb_base c0), ch_pending_len_len = 1, ch_pending_is_asn1 = True\<rparr>"
  have "drop d (cbb_kids c2) = [?c]" using v o i0 by (simp add: opened_def)
  with fl have "flush_child A ?c (cbb_base c2) = (True, cbb_base c3)"
    by (auto simp: CBB_flush_def split: if_splits prod.splits bool.splits)
  then have "flush_post A ?c (cbb_base c2) (cbb_base c3)"
    using flush_child_asn1_ok(1) [of "cbb_base c2" ?c A] i2 v by (simp add: cbb_inv_def)
  then have len: "length body \<le> 0xfffffffe" using v by (simp add: flush_post_def child_fits_def)
  note p3 = flush_ok [OF i2 fl]
  have "grown A (cbb_base c) (cbb_base c3)"
    using p0 o p p3 unfolding append_post_def opened_def by (blast intro: grown_trans)
  moreover have "cbb_kids c3 = take d (cbb_kids c)" using p3 v o p0 i0 by (simp add: opened_def append_post_def)
  moreover have "cb_bytes (cbb_base c3) = cbb_view d c @ der_tlv tag body"
    using p3 v p0 by (simp add: append_post_def prefix_bytes_def der_tlv_def)
  ultimately show ?thesis using p3 p0 len by (simp add: append_post_def)
qed

text \<open>A string tag never is the end-of-contents tag, and clearing the constructed bit leaves it primitive.\<close>

lemma primitive_and: "(tag AND NOT CBS_ASN1_CONSTRUCTED) AND CBS_ASN1_CONSTRUCTED = 0"
  by (simp add: and.assoc)

lemma string_tag_valid: "is_string_type tag \<Longrightarrow> valid_tag (tag AND NOT CBS_ASN1_CONSTRUCTED) \<and> tag AND NOT CBS_ASN1_CONSTRUCTED \<noteq> 0"
  by (auto simp: is_string_type_def valid_tag_def constructed_val)

text \<open>The DER value of a sequence of BER elements, nested at most as deep as the first argument says. Inside
  a constructed string, whose tag the second argument is, the pieces are concatenated; otherwise it is 0 and every
  element gets its definite, minimal form.\<close>

definition constructed_string :: "CBS_ASN1_TAG \<Rightarrow> bool" where
  "constructed_string tag \<longleftrightarrow> tag AND CBS_ASN1_CONSTRUCTED \<noteq> 0 \<and> is_string_type tag"

definition primitive_tag :: "CBS_ASN1_TAG \<Rightarrow> CBS_ASN1_TAG" where
  "primitive_tag tag = (if constructed_string tag then tag AND NOT CBS_ASN1_CONSTRUCTED else tag)"

inductive ber_der :: "nat \<Rightarrow> CBS_ASN1_TAG \<Rightarrow> u8 list \<Rightarrow> u8 list \<Rightarrow> bool"
  and ber_value :: "nat \<Rightarrow> CBS_ASN1_TAG \<Rightarrow> CBS_ASN1_TAG \<Rightarrow> u8 list \<Rightarrow> u8 list \<Rightarrow> bool" where
  ber_nil: "ber_der n st [] []"
| ber_piece: "st \<noteq> 0 \<Longrightarrow> tag AND NOT CBS_ASN1_CONSTRUCTED = st \<Longrightarrow> ber_encodes tag contents enc \<Longrightarrow>
    ber_value n st tag contents val \<Longrightarrow> ber_der n st rest out \<Longrightarrow> ber_der n st (enc @ rest) (val @ out)"
| ber_elem: "valid_tag tag \<Longrightarrow> ber_encodes tag contents enc \<Longrightarrow>
    ber_value n (if constructed_string tag then primitive_tag tag else 0) tag contents val \<Longrightarrow> length val \<le> 0xfffffffe \<Longrightarrow>
    ber_der n 0 rest out \<Longrightarrow> ber_der n 0 (enc @ rest) (der_tlv (primitive_tag tag) val @ out)"
| value_prim: "tag AND CBS_ASN1_CONSTRUCTED = 0 \<Longrightarrow> ber_value n st tag contents contents"
| value_cons: "tag AND CBS_ASN1_CONSTRUCTED \<noteq> 0 \<Longrightarrow> ber_der n st contents val \<Longrightarrow> ber_value (Suc n) st tag contents val"

lemma ber_der_append:
  "ber_der n st xs a \<Longrightarrow> ber_der n st ys b \<Longrightarrow> ber_der n st (xs @ ys) (a @ b)"
proof (induction n st xs a rule: ber_der_ber_value.inducts(1) [where ?P2.0 = "\<lambda>_ _ _ _ _. True"])
  case (ber_piece st tag contents enc n val rest out)
  then show ?case using ber_der_ber_value.ber_piece [of st tag contents enc n val "rest @ ys" "out @ b"] by simp
next
  case (ber_elem tag contents enc n val rest out)
  then show ?case using ber_der_ber_value.ber_elem [of tag contents enc n val "rest @ ys" "out @ b"] by simp
qed simp_all

definition converted :: "allocator \<Rightarrow> nat \<Rightarrow> CBS_ASN1_TAG \<Rightarrow> nat \<Rightarrow> u8 list \<Rightarrow> CBB \<Rightarrow> CBB \<Rightarrow> bool" where
  "converted A d string_tag depth input out out' \<longleftrightarrow>
     (\<exists>body. append_post A d body out out' \<and> ber_der (kMaxDepth - depth) string_tag input body
        \<and> (string_tag = 0 \<longrightarrow> der_forest (kMaxDepth - depth) body))"

abbreviation cbb_at :: "nat \<Rightarrow> CBB \<Rightarrow> bool" where
  "cbb_at d cbb \<equiv> cbb_inv cbb \<and> d = length (cbb_kids cbb) \<and> \<not> cb_error (cbb_base cbb)"

lemma append_post_at: "append_post A d bs c c' \<Longrightarrow> cbb_at d c'"
  by (auto simp: append_post_def min_def)

lemma append_post_refl: "cbb_at d c \<Longrightarrow> append_post A d [] c c"
  by (simp add: append_post_def grown_refl)

lemma converted_refl: "cbb_at d c \<Longrightarrow> converted A d st depth [] c c"
  unfolding converted_def using append_post_refl der_nil ber_nil by blast

lemma converted_trans: 
  "converted A d st depth xs c1 c2 \<Longrightarrow> converted A d st depth ys c2 c3 \<Longrightarrow> converted A d st depth (xs @ ys) c1 c3"
  unfolding converted_def using append_post_trans der_forest_append ber_der_append by blast

lemma converted_at: "converted A d st depth xs c c' \<Longrightarrow> cbb_at d c'"
  unfolding converted_def using append_post_at by blast

lemma target_at:
  "convert_target A d st tag out = (Some (d', cst), o1) \<Longrightarrow> cbb_at d out \<Longrightarrow> cbb_at d' o1"
  using open_asn1_state [of out A d _ o1]
  by (auto simp: convert_target_def Let_def split: if_splits prod.splits bool.splits)

lemma element_converted:
  assumes t: "convert_target A d st tag out = (Some (d', cst), o1)" and out: "cbb_at d out" and v: "valid_tag tag"
    and body: "append_post A d' body o1 o2" and enc: "ber_encodes tag contents enc" and val: "ber_value (kMaxDepth - depth) cst tag contents body"
    and forest: "tag AND CBS_ASN1_CONSTRUCTED \<noteq> 0 \<longrightarrow> cst = 0 \<longrightarrow> depth < kMaxDepth \<and> der_forest (kMaxDepth - (depth + 1)) body"
    and fl: "CBB_flush A d o2 = (True, o3)"
  shows "converted A d st depth enc out o3"
proof (cases "st = 0")
  case False
  then have t: "d' = d" "o1 = out" "cst = st" "tag AND NOT CBS_ASN1_CONSTRUCTED = st"
    using t by (auto simp: convert_target_def split: if_splits)
  have "append_post A d [] o2 o3"
    using appendsD [OF appends_flush _ fl] append_post_at [OF body] by blast
  then have "append_post A d (body @ []) out o3" using append_post_trans body t by blast
  moreover have "ber_der (kMaxDepth - depth) st (enc @ []) (body @ [])" using False t(4) enc val [unfolded t(3)] ber_nil by (rule ber_piece)
  ultimately show ?thesis using False unfolding converted_def by auto
next
  case True
  let ?tag = "primitive_tag tag"
  have a: "CBB_add_asn1 A d ?tag out = (True, o1)" "d' = d + 1" "cst = (if constructed_string tag then ?tag else 0)"
    using t True unfolding convert_target_def Let_def constructed_string_def [symmetric] primitive_tag_def [symmetric]
    by (auto split: prod.splits bool.splits)
  have c: "append_post A d (der_tlv ?tag body) out o3" "length body \<le> 0xfffffffe"
    using close_asn1_ok [OF _ a(1) body [unfolded a(2)] fl] out by simp_all
  have vt: "valid_tag ?tag" using v string_tag_valid by (simp add: primitive_tag_def constructed_string_def)
  have "der_forest (kMaxDepth - depth) (der_tlv ?tag body @ [])"
  proof (cases "?tag AND CBS_ASN1_CONSTRUCTED = 0")
    case True
    then show ?thesis using vt c(2) by (intro der_prim der_nil) simp_all
  next
    case False
    then have k: "\<not> constructed_string tag" "?tag = tag" using primitive_and [of tag] by (auto simp: primitive_tag_def split: if_splits)
    then have f: "depth < kMaxDepth" "der_forest (kMaxDepth - (depth + 1)) body" using False a(3) forest by auto
    then have "der_forest (Suc (kMaxDepth - (depth + 1))) (der_tlv ?tag body @ [])"
      using vt c(2) False k by (intro der_cons der_nil) (auto simp: constructed_string_def)
    then show ?thesis using f(1) by (simp add: Suc_diff_Suc)
  qed
  moreover have "ber_der (kMaxDepth - depth) 0 (enc @ []) (der_tlv ?tag body @ [])"
    using v enc val [unfolded a(3)] c(2) ber_nil by (rule ber_elem)
  ultimately show ?thesis using c(1) True unfolding converted_def by auto
qed

lemma convert_end:
  "depth \<le> kMaxDepth \<Longrightarrow> CBS_len cbs = 0 \<Longrightarrow>
   cbs_convert_ber (Suc fuel) A d st eoc depth cbs out = Some (\<not> eoc, [], out)"
  by (simp add: CBS_len_def)

lemma get_eoc_ne: "cbs_get_eoc cbs = (True, c0) \<Longrightarrow> 0 < CBS_len cbs"
  by (auto simp: cbs_get_eoc_def split: if_splits)

lemma convert_eoc:
  "depth \<le> kMaxDepth \<Longrightarrow> cbs_get_eoc cbs = (True, c0) \<Longrightarrow>
   cbs_convert_ber (Suc fuel) A d st True depth cbs out = Some (True, c0, out)"
  by (simp add: get_eoc_ne)

text \<open>One call or loop round, given that nested calls with less fuel are correct.\<close>

definition convert_good :: "nat \<Rightarrow> allocator \<Rightarrow> bool" where
  "convert_good fuel A \<longleftrightarrow>
     (\<forall>d st eoc depth cbs out cbs' out'.
        cbs_convert_ber fuel A d st eoc depth cbs out = Some (True, cbs', out') \<longrightarrow> cbb_at d out \<longrightarrow> length cbs < size_mod \<longrightarrow>
        depth \<le> kMaxDepth \<and> (\<not> eoc \<longrightarrow> cbs' = [])
        \<and> (\<exists>input. cbs = input @ (if eoc then [0, 0] else []) @ cbs' \<and> converted A d st depth input out out'))"

lemma convert_goodD:
  "convert_good fuel A \<Longrightarrow> cbs_convert_ber fuel A d st eoc depth cbs out = Some (True, cbs', out') \<Longrightarrow> cbb_at d out \<Longrightarrow>
   length cbs < size_mod \<Longrightarrow> depth \<le> kMaxDepth \<and> (\<not> eoc \<longrightarrow> cbs' = [])
     \<and> (\<exists>input. cbs = input @ (if eoc then [0, 0] else []) @ cbs' \<and> converted A d st depth input out out')"
  unfolding convert_good_def by blast

definition convert_contents ::
  "nat \<Rightarrow> allocator \<Rightarrow> nat \<Rightarrow> CBS_ASN1_TAG \<Rightarrow> nat \<Rightarrow> asn1_element \<Rightarrow> CBS \<Rightarrow> CBB \<Rightarrow> (bool \<times> CBS \<times> CBB) option" where
  "convert_contents fuel A d' cst depth el cbs out =
     (if el_indefinite el then
        cbs_convert_ber fuel A d' cst True (depth + 1) cbs out
      else case CBS_skip (el_header_len el) (el_out el) of
        (False, _) \<Rightarrow> Some (False, cbs, out)
      | (True, contents) \<Rightarrow>
          (if el_tag el AND CBS_ASN1_CONSTRUCTED \<noteq> 0 then
             map_option (\<lambda>(ok, _, out). (ok, cbs, out))
               (cbs_convert_ber fuel A d' cst False (depth + 1) contents out)
           else (case CBB_add_bytes A d' contents out of (ok, out) \<Rightarrow> Some (ok, cbs, out))))"

lemma convert_step:
  assumes "depth \<le> kMaxDepth" "CBS_len cbs \<noteq> 0" "eoc \<longrightarrow> \<not> fst (cbs_get_eoc cbs)"
    and el: "CBS_get_any_ber_asn1_element cbs = (Some el, c1)"
    and t: "convert_target A d st (el_tag el) out = (Some (d', cst), o1)"
  shows "cbs_convert_ber (Suc fuel) A d st eoc depth cbs out =
    (case convert_contents fuel A d' cst depth el c1 o1 of
        None \<Rightarrow> None
      | Some (False, cbs, out) \<Rightarrow> Some (False, cbs, out)
      | Some (True, cbs, out) \<Rightarrow>
          (case CBB_flush A d out of
             (False, out) \<Rightarrow> Some (False, cbs, out)
           | (True, out) \<Rightarrow> cbs_convert_ber fuel A d st eoc depth cbs out))"
proof -
  have "(if eoc then cbs_get_eoc cbs else (False, cbs)) = (False, cbs)"
    using assms(3) get_eoc_length [of cbs] by (cases "cbs_get_eoc cbs") auto
  then show ?thesis using assms(1,2) by (simp add: el t convert_contents_def)
qed

lemma convert_fail:
  assumes "depth \<le> kMaxDepth" "CBS_len cbs \<noteq> 0" "eoc \<longrightarrow> \<not> fst (cbs_get_eoc cbs)"
    and "cbs_convert_ber (Suc fuel) A d st eoc depth cbs out = Some (True, cbs', out')"
  shows "\<exists>el c1 d' cst o1. CBS_get_any_ber_asn1_element cbs = (Some el, c1)
    \<and> convert_target A d st (el_tag el) out = (Some (d', cst), o1)"
proof -
  have "(if eoc then cbs_get_eoc cbs else (False, cbs)) = (False, cbs)"
    using assms(3) get_eoc_length [of cbs] by (cases "cbs_get_eoc cbs") auto
  note eq = assms(4) [unfolded cbs_convert_ber.simps this prod.case bool.case]
  obtain el c1 where el: "CBS_get_any_ber_asn1_element cbs = (Some el, c1)"
    using eq assms(1,2) by (auto split: prod.splits option.splits)
  show ?thesis using eq assms(1,2) el by (auto split: prod.splits option.splits)
qed

lemma value_deeper:
  "tag AND CBS_ASN1_CONSTRUCTED \<noteq> 0 \<Longrightarrow> depth < kMaxDepth \<Longrightarrow> ber_der (kMaxDepth - (depth + 1)) st contents val \<Longrightarrow>
   ber_value (kMaxDepth - depth) st tag contents val"
  using value_cons [of tag "kMaxDepth - (depth + 1)"] by (simp add: Suc_diff_Suc)

lemma contents_converted:
  assumes ih: "convert_good fuel A" and el: "CBS_get_any_ber_asn1_element cbs = (Some el, c1)" "length cbs < size_mod"
    and o1: "cbb_at d' o1" and r: "convert_contents fuel A d' cst depth el c1 o1 = Some (True, c2, o2)"
  shows "\<exists>contents enc body. cbs = enc @ c2 \<and> ber_encodes (el_tag el) contents enc \<and> append_post A d' body o1 o2
    \<and> ber_value (kMaxDepth - depth) cst (el_tag el) contents body
    \<and> (el_tag el AND CBS_ASN1_CONSTRUCTED \<noteq> 0 \<longrightarrow> cst = 0 \<longrightarrow> depth < kMaxDepth \<and> der_forest (kMaxDepth - (depth + 1)) body)"
proof -
  have cbs: "cbs = el_out el @ c1" using el ber_element_split by (auto simp: CBS_get_any_ber_asn1_element_def)
  note form = ber_element_form [OF el(1)]
  show ?thesis
  proof (cases "el_indefinite el")
    case True
    then have "cbs_convert_ber fuel A d' cst True (depth + 1) c1 o1 = Some (True, c2, o2)" using r by (simp add: convert_contents_def)
    from convert_goodD [OF ih this o1] cbs el(2)
    obtain input where i: "depth < kMaxDepth" "c1 = input @ [0, 0] @ c2" "converted A d' cst (depth + 1) input o1 o2" by auto
    have f: "el_tag el AND CBS_ASN1_CONSTRUCTED \<noteq> 0" "el_out el = der_tag (el_tag el) @ [0x80]" using form True by auto
    then have "ber_encodes (el_tag el) input (el_out el @ input @ [0, 0])" by (simp add: ber_encodes_def)
    moreover have "cbs = (el_out el @ input @ [0, 0]) @ c2" using cbs i(2) by simp
    ultimately show ?thesis using i(1,3) f(1) value_deeper unfolding converted_def by blast
  next
    case definite: False
    then obtain lo contents where f: "ber_length (length contents) lo" "el_out el = (der_tag (el_tag el) @ lo) @ contents"
      "el_header_len el = length (der_tag (el_tag el) @ lo)" using form by auto
    then have s: "CBS_skip (el_header_len el) (el_out el) = (True, contents)" by (simp only: CBS_skip_append)
    have len: "length contents < size_mod" using f(2) cbs el(2) by simp
    have enc: "ber_encodes (el_tag el) contents (el_out el)" using f by (auto simp: ber_encodes_def)
    show ?thesis
    proof (cases "el_tag el AND CBS_ASN1_CONSTRUCTED \<noteq> 0")
      case True
      then obtain c' where "cbs_convert_ber fuel A d' cst False (depth + 1) contents o1 = Some (True, c', o2)" "c2 = c1"
        using r definite s by (auto simp: convert_contents_def)
      with convert_goodD [OF ih _ o1 len, of cst False "depth + 1" c' o2]
      have "depth < kMaxDepth" "converted A d' cst (depth + 1) contents o1 o2" "c2 = c1" by auto
      then show ?thesis using cbs enc True value_deeper unfolding converted_def by blast
    next
      case False
      then have "CBB_add_bytes A d' contents o1 = (True, o2)" "c2 = c1"
        using r definite s by (auto simp: convert_contents_def split: prod.splits)
      with appendsD [OF appends_add_bytes [OF len]] o1 False cbs enc value_prim show ?thesis by blast
    qed
  qed
qed

lemma convert_correct: "convert_good fuel A"
proof (induction fuel)
  case (Suc fuel)
  show ?case unfolding convert_good_def
  proof (intro allI impI)
    fix d st eoc depth cbs out cbs' out'
    assume r: "cbs_convert_ber (Suc fuel) A d st eoc depth cbs out = Some (True, cbs', out')"
      and out: "cbb_at d out" and len: "length cbs < size_mod"
    have depth: "depth \<le> kMaxDepth" using r by (auto split: if_splits)
    consider (fin) "CBS_len cbs = 0" | (eoc) "eoc" "fst (cbs_get_eoc cbs)"
      | (elem) "CBS_len cbs \<noteq> 0" "eoc \<longrightarrow> \<not> fst (cbs_get_eoc cbs)" by blast
    then have "(\<not> eoc \<longrightarrow> cbs' = []) \<and> (\<exists>input. cbs = input @ (if eoc then [0, 0] else []) @ cbs' \<and> converted A d st depth input out out')"
    proof cases
      case fin
      then show ?thesis using r convert_end [OF depth fin, of fuel A d st eoc out] converted_refl [OF out]
        by (auto simp: CBS_len_def simp del: cbs_convert_ber.simps)
    next
      case eoc
      then obtain c0 where c0: "cbs_get_eoc cbs = (True, c0)" by (cases "cbs_get_eoc cbs") simp
      then have "cbs = [0, 0] @ c0"
        by (cases cbs; cases "tl cbs") (auto simp: cbs_get_eoc_def CBS_skip_def cbs_get_def CBS_len_def split: if_splits)
      then show ?thesis using r eoc convert_eoc [OF depth c0, of fuel A d st out] converted_refl [OF out]
        by (auto simp del: cbs_convert_ber.simps)
    next
      case elem
      then obtain el c1 d' cst o1 where el: "CBS_get_any_ber_asn1_element cbs = (Some el, c1)"
        and t: "convert_target A d st (el_tag el) out = (Some (d', cst), o1)"
        using convert_fail [OF depth elem r] by blast
      obtain c2 o2 o3 where s: "convert_contents fuel A d' cst depth el c1 o1 = Some (True, c2, o2)" "CBB_flush A d o2 = (True, o3)"
        "cbs_convert_ber fuel A d st eoc depth c2 o3 = Some (True, cbs', out')"
        using r [unfolded convert_step [OF depth elem el t]] by (auto split: prod.splits option.splits bool.splits)
      obtain contents enc body where b: "cbs = enc @ c2" "ber_encodes (el_tag el) contents enc" "append_post A d' body o1 o2"
        "ber_value (kMaxDepth - depth) cst (el_tag el) contents body"
        "el_tag el AND CBS_ASN1_CONSTRUCTED \<noteq> 0 \<longrightarrow> cst = 0 \<longrightarrow> depth < kMaxDepth \<and> der_forest (kMaxDepth - (depth + 1)) body"
        using contents_converted [OF Suc.IH el len target_at [OF t out] s(1)] by blast
      have "valid_tag (el_tag el)" using el ber_element_split by (auto simp: CBS_get_any_ber_asn1_element_def)
      from element_converted [OF t out this b(3,2,4,5) s(2)] have o3: "converted A d st depth enc out o3" .
      from convert_goodD [OF Suc.IH s(3) converted_at [OF o3]] b(1) len
      obtain input where "\<not> eoc \<longrightarrow> cbs' = []" "c2 = input @ (if eoc then [0, 0] else []) @ cbs'"
        "converted A d st depth input o3 out'" by auto
      then show ?thesis using b(1) converted_trans [OF o3] by (metis append.assoc)
    qed
    then show "depth \<le> kMaxDepth \<and> (\<not> eoc \<longrightarrow> cbs' = [])
        \<and> (\<exists>input. cbs = input @ (if eoc then [0, 0] else []) @ cbs' \<and> converted A d st depth input out out')"
      using depth by blast
  qed
qed (simp add: convert_good_def)

end
