(* ===== verification/Ber_Complete.thy ===== *)
theory Ber_Complete
  imports Ber_Correct
begin

text \<open>
  Completeness of the BER conversion: every sequence of BER elements within the depth limit is converted, given
  room for the result.
\<close>

section \<open>Parsing BER elements\<close>

lemma der_tag_hd: "valid_tag tag \<Longrightarrow> \<exists>b bs. der_tag tag = b # bs \<and> b \<noteq> 0"
proof -
  assume v: "valid_tag tag"
  have c: "tag_class tag < 8" by (rule tag_class_bound)
  have nz: "(word_of_nat n :: u8) \<noteq> 0" if "n \<noteq> 0" "n < 256" for n
    using that by (simp add: word_unat_eq_iff unat_word_of_nat_u8)
  have "tag_class tag * 32 + tag_num tag \<noteq> 0"
    using v tag_split [of tag] by (auto simp: valid_tag_def word_unat_eq_iff)
  then show ?thesis using nz [of "tag_class tag * 32 + tag_num tag"] nz [of "tag_class tag * 32 + 31"] c
    by (simp add: der_tag_def del: of_nat_add of_nat_mult)
qed

lemma ber_parse_definite:
  assumes "valid_tag tag" "ber_length (length contents) lo"
  shows "\<exists>found. CBS_get_any_ber_asn1_element ((der_tag tag @ lo @ contents) @ rest) =
    (Some \<lparr>el_out = der_tag tag @ lo @ contents, el_tag = tag, el_header_len = length (der_tag tag @ lo),
           el_ber_found = found, el_indefinite = False\<rparr>, rest)"
proof -
  obtain lb bs where lo: "lo = lb # bs" using assms(2) by (auto simp: ber_length_def)
  define cbs where "cbs = (der_tag tag @ lo @ contents) @ rest"
  have p: "parse_asn1_tag cbs = (Some tag, lb # bs @ contents @ rest)"
    using tagc.dec_enc [OF assms(1), of "lb # bs @ contents @ rest"] by (simp add: cbs_def lo)
  have hl: "CBS_len cbs - CBS_len (bs @ contents @ rest) = length (der_tag tag) + 1" by (simp add: cbs_def CBS_len_def lo)
  have split: "cbs_get (length (der_tag tag @ lo @ contents)) cbs = (Some (der_tag tag @ lo @ contents), rest)"
    unfolding cbs_def by (rule cbs_get_append) simp
  note eq = CBS_get_any_ber_asn1_element_def cbs_get_any_asn1_element_def p prod.case option.case CBS_get_u8_simps Let_def hl
    CBS_get_bytes_eq
  show ?thesis
  proof (cases "bs = []")
    case True
    then have lb: "unat lb = length contents" "lb AND 0x80 = 0"
      using assms(2) lo by (auto simp: ber_length_def u8_top_bit unat_word_of_nat_u8)
    then have "cbs_get (unat lb + (length (der_tag tag) + 1)) cbs = (Some (der_tag tag @ lo @ contents), rest)"
      using split lo True by (simp add: add.commute)
    then show ?thesis unfolding cbs_def [symmetric] eq using lb lo True by auto
  next
    case False
    then have k: "length bs \<in> {1..4}" "be_nat bs = length contents" "lb = word_of_nat (128 + length bs)"
      using assms(2) lo by (auto simp: ber_length_def)
    have ub: "unat lb = 128 + length bs" using k by (simp add: unat_word_of_nat_u8 del: of_nat_add)
    then have lb: "lb AND 0x80 \<noteq> 0" "unat (lb AND 0x7f) = length bs" using k(1) by (simp_all add: u8_top_bit u8_masks)
    have u: "cbs_get_u (length bs) (bs @ contents @ rest) = (Some (cbs_u_loop 0 bs), contents @ rest)"
      by (simp add: cbs_get_u_def cbs_get_append)
    have v: "unat (cbs_u_loop 0 bs) = length contents" using k by (simp add: unat_cbs_u_loop_0)
    have "length contents < 256 ^ length bs" using be_nat_bound [of bs] k by simp
    also have "\<dots> \<le> 256 ^ 4" using k by (intro power_increasing) auto
    finally have ovf: "\<not> size_add (size_add (length contents) (length (der_tag tag) + 1)) (length bs) < length contents"
      using length_der_tag [of tag] k by (simp add: size_add_exact size_mod_def)
    have "cbs_get (length contents + (length (der_tag tag) + 1) + length bs) cbs = (Some (der_tag tag @ lo @ contents), rest)"
      using split lo by (simp add: ac_simps)
    then show ?thesis unfolding cbs_def [symmetric] eq using lb u v ovf k(1) lo by auto
  qed
qed

lemma ber_parse_indefinite:
  assumes "valid_tag tag" "tag AND CBS_ASN1_CONSTRUCTED \<noteq> 0"
  shows "CBS_get_any_ber_asn1_element (der_tag tag @ 0x80 # rest) =
    (Some \<lparr>el_out = der_tag tag @ [0x80], el_tag = tag, el_header_len = length (der_tag tag) + 1,
           el_ber_found = True, el_indefinite = True\<rparr>, rest)"
proof -
  define cbs where "cbs = der_tag tag @ 0x80 # rest"
  have p: "parse_asn1_tag cbs = (Some tag, 0x80 # rest)" using tagc.dec_enc [OF assms(1)] by (simp add: cbs_def)
  have hl: "CBS_len cbs - CBS_len rest = length (der_tag tag) + 1" by (simp add: cbs_def CBS_len_def)
  have "cbs_get (length (der_tag tag @ [0x80])) ((der_tag tag @ [0x80]) @ rest) = (Some (der_tag tag @ [0x80]), rest)"
    by (rule cbs_get_append) simp
  then show ?thesis
    unfolding cbs_def [symmetric] CBS_get_any_ber_asn1_element_def cbs_get_any_asn1_element_def p prod.case option.case
      CBS_get_u8_simps Let_def hl CBS_get_bytes_eq
    using assms(2) by (simp add: cbs_def)
qed

section \<open>Converting them\<close>

lemma ready_size: "ready A d n cbb \<Longrightarrow> n < size_mod"
  by (auto simp: ready_def room_def cbb_inv_def buf_inv_def size_mod_def)

text \<open>What the conversion of a sequence and of the contents of one element achieve, given room.\<close>

definition eoc_tail :: "bool \<Rightarrow> u8 list \<Rightarrow> u8 list" where
  "eoc_tail eoc tail = (if eoc then [0, 0] @ tail else [])"

definition converts :: "nat \<Rightarrow> CBS_ASN1_TAG \<Rightarrow> u8 list \<Rightarrow> u8 list \<Rightarrow> bool" where
  "converts n st input out \<longleftrightarrow>
     (\<forall>A d eoc depth fuel tail cbb. depth + n = kMaxDepth \<longrightarrow> ready A d (length out) cbb \<longrightarrow>
        length (input @ eoc_tail eoc tail) < fuel \<longrightarrow>
        (\<exists>cbb'. cbs_convert_ber fuel A d st eoc depth (input @ eoc_tail eoc tail) cbb =
                  Some (True, if eoc then tail else [], cbb') \<and> append_post A d out cbb cbb'))"

definition converts_value :: "nat \<Rightarrow> CBS_ASN1_TAG \<Rightarrow> CBS_ASN1_TAG \<Rightarrow> u8 list \<Rightarrow> u8 list \<Rightarrow> bool" where
  "converts_value n st tag contents val \<longleftrightarrow>
     (\<forall>enc rest. valid_tag tag \<longrightarrow> ber_encodes tag contents enc \<longrightarrow>
        (\<exists>el c1. CBS_get_any_ber_asn1_element (enc @ rest) = (Some el, c1) \<and> el_tag el = tag \<and>
           (\<forall>A d depth fuel cbb. depth + n = kMaxDepth \<longrightarrow> ready A d (length val) cbb \<longrightarrow> length (enc @ rest) \<le> fuel \<longrightarrow>
              (\<exists>cbb'. convert_contents fuel A d st depth el c1 cbb = Some (True, rest, cbb') \<and> append_post A d val cbb cbb'))))"

lemma convertsD:
  "converts n st input out \<Longrightarrow> depth + n = kMaxDepth \<Longrightarrow> ready A d (length out) cbb \<Longrightarrow> length (input @ eoc_tail eoc tail) < fuel \<Longrightarrow>
   \<exists>cbb'. cbs_convert_ber fuel A d st eoc depth (input @ eoc_tail eoc tail) cbb =
            Some (True, if eoc then tail else [], cbb') \<and> append_post A d out cbb cbb'"
  unfolding converts_def by blast

lemma converts_nil: "converts n st [] []"
  unfolding converts_def
proof (intro allI impI)
  fix A d eoc depth fuel tail cbb
  assume a: "depth + n = kMaxDepth" "ready A d (length []) cbb" "length ([] @ eoc_tail eoc tail) < fuel"
  then have depth: "depth \<le> kMaxDepth" and p: "append_post A d [] cbb cbb"
    by (auto simp: ready_def intro: append_post_refl)
  obtain f where f: "fuel = Suc f" using a(3) by (cases fuel) auto
  have "cbs_get_eoc (0 # 0 # tail) = (True, tail)" by (simp add: cbs_get_eoc_def CBS_skip_def cbs_get_def CBS_len_def)
  then show "\<exists>cbb'. cbs_convert_ber fuel A d st eoc depth ([] @ eoc_tail eoc tail) cbb =
      Some (True, if eoc then tail else [], cbb') \<and> append_post A d [] cbb cbb'"
    using convert_end [OF depth, of "[]" f A d st False cbb] convert_eoc [OF depth, of "0 # 0 # tail" tail f A d st cbb] p f
    by (cases eoc) (auto simp: eoc_tail_def CBS_len_def simp del: cbs_convert_ber.simps)
qed

lemma converts_prim:
  assumes "tag AND CBS_ASN1_CONSTRUCTED = 0"
  shows "converts_value n st tag contents contents"
  unfolding converts_value_def
proof (intro allI impI)
  fix enc rest assume v: "valid_tag tag" and "ber_encodes tag contents enc"
  then obtain lo where lo: "ber_length (length contents) lo" "enc = der_tag tag @ lo @ contents" using assms by (auto simp: ber_encodes_def)
  then obtain found where e: "CBS_get_any_ber_asn1_element (enc @ rest) =
    (Some \<lparr>el_out = enc, el_tag = tag, el_header_len = length (der_tag tag @ lo),
           el_ber_found = found, el_indefinite = False\<rparr>, rest)" (is "_ = (Some ?el, _)")
    using ber_parse_definite [OF v lo(1), of rest] by blast
  have sk: "CBS_skip (length (der_tag tag @ lo)) enc = (True, contents)"
    using CBS_skip_append [of "der_tag tag @ lo" _ contents] lo(2) by simp
  have "\<exists>cbb'. convert_contents fuel A d st depth ?el rest cbb = Some (True, rest, cbb') \<and> append_post A d contents cbb cbb'"
    if r: "ready A d (length contents) cbb" for A d depth fuel cbb
  proof -
    from appendsD' [OF appends_add_bytes [OF ready_size [OF r]] r]
    obtain cbb' where "CBB_add_bytes A d contents cbb = (True, cbb')" "append_post A d contents cbb cbb'" by blast
    then show ?thesis using sk assms by (simp add: convert_contents_def)
  qed
  then show "\<exists>el c1. CBS_get_any_ber_asn1_element (enc @ rest) = (Some el, c1) \<and> el_tag el = tag \<and>
      (\<forall>A d depth fuel cbb. depth + n = kMaxDepth \<longrightarrow> ready A d (length contents) cbb \<longrightarrow> length (enc @ rest) \<le> fuel \<longrightarrow>
         (\<exists>cbb'. convert_contents fuel A d st depth el c1 cbb = Some (True, rest, cbb') \<and> append_post A d contents cbb cbb'))"
    using e by auto
qed

lemma converts_cons:
  assumes c: "tag AND CBS_ASN1_CONSTRUCTED \<noteq> 0" and ih: "converts n st contents val"
  shows "converts_value (Suc n) st tag contents val"
  unfolding converts_value_def
proof (intro allI impI)
  fix enc rest assume v: "valid_tag tag" and b: "ber_encodes tag contents enc"
  show "\<exists>el c1. CBS_get_any_ber_asn1_element (enc @ rest) = (Some el, c1) \<and> el_tag el = tag \<and>
      (\<forall>A d depth fuel cbb. depth + Suc n = kMaxDepth \<longrightarrow> ready A d (length val) cbb \<longrightarrow> length (enc @ rest) \<le> fuel \<longrightarrow>
         (\<exists>cbb'. convert_contents fuel A d st depth el c1 cbb = Some (True, rest, cbb') \<and> append_post A d val cbb cbb'))"
  proof (cases "\<exists>lo. ber_length (length contents) lo \<and> enc = der_tag tag @ lo @ contents")
    case True
    then obtain lo where lo: "ber_length (length contents) lo" "enc = der_tag tag @ lo @ contents" by blast
    then obtain found where e: "CBS_get_any_ber_asn1_element (enc @ rest) =
      (Some \<lparr>el_out = enc, el_tag = tag, el_header_len = length (der_tag tag @ lo),
             el_ber_found = found, el_indefinite = False\<rparr>, rest)" (is "_ = (Some ?el, _)")
      using ber_parse_definite [OF v lo(1), of rest] by blast
    have sk: "CBS_skip (length (der_tag tag @ lo)) enc = (True, contents)"
      using CBS_skip_append [of "der_tag tag @ lo" _ contents] lo(2) by simp
    have "\<exists>cbb'. convert_contents fuel A d st depth ?el rest cbb = Some (True, rest, cbb') \<and> append_post A d val cbb cbb'"
      if a: "depth + Suc n = kMaxDepth" "ready A d (length val) cbb" "length (enc @ rest) \<le> fuel" for A d depth fuel cbb
    proof -
      have "length (contents @ eoc_tail False []) < fuel"
        using a(3) lo der_tag_hd [OF v] by (auto simp: eoc_tail_def)
      with convertsD [OF ih, of "depth + 1" A d cbb False "[]" fuel] a
      show ?thesis using sk c by (auto simp: convert_contents_def eoc_tail_def)
    qed
    then show ?thesis using e by auto
  next
    case False
    then have enc: "enc @ rest = der_tag tag @ 0x80 # contents @ [0, 0] @ rest" using b by (auto simp: ber_encodes_def)
    note e = ber_parse_indefinite [OF v c, of "contents @ [0, 0] @ rest", folded enc]
    let ?el = "\<lparr>el_out = der_tag tag @ [0x80], el_tag = tag, el_header_len = length (der_tag tag) + 1,
           el_ber_found = True, el_indefinite = True\<rparr>"
    have "\<exists>cbb'. convert_contents fuel A d st depth ?el (contents @ [0, 0] @ rest) cbb = Some (True, rest, cbb') \<and> append_post A d val cbb cbb'"
      if a: "depth + Suc n = kMaxDepth" "ready A d (length val) cbb" "length (enc @ rest) \<le> fuel" for A d depth fuel cbb
    proof -
      have "length (contents @ eoc_tail True rest) < fuel" using a(3) unfolding enc by (simp add: eoc_tail_def)
      with convertsD [OF ih, of "depth + 1" A d cbb True rest fuel] a
      show ?thesis by (auto simp: convert_contents_def eoc_tail_def)
    qed
    then show ?thesis using e by auto
  qed
qed

lemma encodes_hd: "valid_tag tag \<Longrightarrow> ber_encodes tag contents enc \<Longrightarrow> \<exists>b c bs. enc = b # c # bs \<and> b \<noteq> 0"
proof -
  assume a: "valid_tag tag" "ber_encodes tag contents enc"
  obtain b bs where t: "der_tag tag = b # bs" "b \<noteq> 0" using der_tag_hd [OF a(1)] by blast
  obtain y ys where "enc = der_tag tag @ y # ys" using a(2) by (auto simp: ber_encodes_def ber_length_def)
  then show ?thesis using t by (cases bs) auto
qed

text \<open>The loop round for one element, given where its contents go and that they arrive there.\<close>

lemma convert_round:
  assumes depth: "depth \<le> kMaxDepth" and enc: "valid_tag tag" "ber_encodes tag contents enc"
    and el: "CBS_get_any_ber_asn1_element (enc @ rest) = (Some el, c1)" "el_tag el = tag"
    and t: "convert_target A d st tag cbb = (Some (d', cst), o1)"
    and c: "convert_contents fuel A d' cst depth el c1 o1 = Some (True, rest, o2)" and fl: "CBB_flush A d o2 = (True, o3)"
  shows "cbs_convert_ber (Suc fuel) A d st eoc depth (enc @ rest) cbb = cbs_convert_ber fuel A d st eoc depth rest o3"
proof -
  obtain b c' bs where "enc = b # c' # bs" "b \<noteq> 0" using encodes_hd [OF enc] by blast
  then have ne: "CBS_len (enc @ rest) \<noteq> 0" "eoc \<longrightarrow> \<not> fst (cbs_get_eoc (enc @ rest))"
    by (simp_all add: CBS_len_def cbs_get_eoc_def)
  show ?thesis unfolding convert_step [OF depth ne el(1) t [folded el(2)]] c using fl by simp
qed

lemma converts_valueD:
  assumes "converts_value n st tag contents val" "valid_tag tag" "ber_encodes tag contents enc"
  shows "\<exists>el c1. CBS_get_any_ber_asn1_element (enc @ rest) = (Some el, c1) \<and> el_tag el = tag \<and>
           (\<forall>A d depth fuel cbb. depth + n = kMaxDepth \<longrightarrow> ready A d (length val) cbb \<longrightarrow> length (enc @ rest) \<le> fuel \<longrightarrow>
              (\<exists>cbb'. convert_contents fuel A d st depth el c1 cbb = Some (True, rest, cbb') \<and> append_post A d val cbb cbb'))"
  using assms unfolding converts_value_def by blast

text \<open>Writing an element whose contents a conversion writes.\<close>

lemma element_written:
  assumes w: "\<And>c. ready A (d + 1) (length val) c \<Longrightarrow> \<exists>c'. g c = Some (True, rest, c') \<and> append_post A (d + 1) val c c'"
    and len: "length val \<le> 0xfffffffe" and r: "ready A d (length (der_tlv tag val)) cbb"
  shows "\<exists>o1 o2 o3. CBB_add_asn1 A d tag cbb = (True, o1) \<and> g o1 = Some (True, rest, o2) \<and> CBB_flush A d o2 = (True, o3)
    \<and> append_post A d (der_tlv tag val) cbb o3"
proof -
  define f where "f = (\<lambda>c. if ready A (d + 1) (length val) c then (True, snd (snd (the (g c)))) else (False, c))"
  have "appends A (d + 1) f val" unfolding appends_def f_def using w by (fastforce split: if_splits)
  from appendsD' [OF appends_asn1 [OF this len, of tag] r]
  obtain o1 o2 o3 where o: "CBB_add_asn1 A d tag cbb = (True, o1)" "f o1 = (True, o2)" "CBB_flush A d o2 = (True, o3)"
    "append_post A d (der_tlv tag val) cbb o3" by (auto simp: cbb_then_True)
  have "g o1 = Some (True, rest, o2)" using o(2) w [of o1] by (auto simp: f_def split: if_splits)
  then show ?thesis using o by blast
qed

lemma converts_piece:
  assumes st: "st \<noteq> 0" "tag AND NOT CBS_ASN1_CONSTRUCTED = st" and enc: "ber_encodes tag contents enc"
    and val: "converts_value n st tag contents val" and rest: "converts n st rest out"
  shows "converts n st (enc @ rest) (val @ out)"
  unfolding converts_def
proof (intro allI impI)
  fix A d eoc depth fuel tail cbb
  let ?t = "eoc_tail eoc tail"
  assume a: "depth + n = kMaxDepth" "ready A d (length (val @ out)) cbb" "length ((enc @ rest) @ ?t) < fuel"
  then obtain f where f: "fuel = Suc f" by (cases fuel) auto
  have v: "valid_tag tag" using st valid_tag_iff by blast
  obtain el c1 where el: "CBS_get_any_ber_asn1_element (enc @ rest @ ?t) = (Some el, c1)" "el_tag el = tag"
    and c: "\<And>A d depth fuel cbb. depth + n = kMaxDepth \<Longrightarrow> ready A d (length val) cbb \<Longrightarrow> length (enc @ rest @ ?t) \<le> fuel \<Longrightarrow>
      \<exists>cbb'. convert_contents fuel A d st depth el c1 cbb = Some (True, rest @ ?t, cbb') \<and> append_post A d val cbb cbb'"
    using converts_valueD [OF val v enc, of "rest @ ?t"] by blast
  have "ready A d (length val) cbb" using a(2) by (rule ready_mono) simp
  moreover have "length (enc @ rest @ ?t) \<le> f" using a(3) f by simp
  ultimately obtain o2 where o2: "convert_contents f A d st depth el c1 cbb = Some (True, rest @ ?t, o2)"
    "append_post A d val cbb o2" using c [OF a(1)] by blast
  have r2: "ready A d (length out) o2" using append_post_ready [OF o2(2)] a(2) by simp
  have t: "convert_target A d st tag cbb = (Some (d, st), cbb)" using st by (simp add: convert_target_def)
  have "length (rest @ ?t) < f" using a(3) f encodes_hd [OF v enc] by auto
  from convertsD [OF rest a(1) r2 this] obtain o3 where "cbs_convert_ber f A d st eoc depth (rest @ ?t) o2 =
    Some (True, if eoc then tail else [], o3)" "append_post A d out o2 o3" by blast
  then show "\<exists>cbb'. cbs_convert_ber fuel A d st eoc depth ((enc @ rest) @ ?t) cbb = Some (True, if eoc then tail else [], cbb')
      \<and> append_post A d (val @ out) cbb cbb'"
    using convert_round [OF _ v enc el t o2(1) flush_ready [OF r2], of eoc] append_post_trans [OF o2(2)] a(1) f by auto
qed

lemma converts_elem:
  assumes v: "valid_tag tag" and enc: "ber_encodes tag contents enc" and len: "length val \<le> 0xfffffffe"
    and val: "converts_value n (if constructed_string tag then primitive_tag tag else 0) tag contents val"
    and rest: "converts n 0 rest out"
  shows "converts n 0 (enc @ rest) (der_tlv (primitive_tag tag) val @ out)"
  unfolding converts_def
proof (intro allI impI)
  fix A d eoc depth fuel tail cbb
  let ?t = "eoc_tail eoc tail" and ?tag = "primitive_tag tag" and ?cst = "if constructed_string tag then primitive_tag tag else 0"
  assume a: "depth + n = kMaxDepth" "ready A d (length (der_tlv ?tag val @ out)) cbb" "length ((enc @ rest) @ ?t) < fuel"
  then obtain f where f: "fuel = Suc f" by (cases fuel) auto
  obtain el c1 where el: "CBS_get_any_ber_asn1_element (enc @ rest @ ?t) = (Some el, c1)" "el_tag el = tag"
    and c: "\<And>A d depth fuel cbb. depth + n = kMaxDepth \<Longrightarrow> ready A d (length val) cbb \<Longrightarrow> length (enc @ rest @ ?t) \<le> fuel \<Longrightarrow>
      \<exists>cbb'. convert_contents fuel A d ?cst depth el c1 cbb = Some (True, rest @ ?t, cbb') \<and> append_post A d val cbb cbb'"
    using converts_valueD [OF val v enc, of "rest @ ?t"] by blast
  have le: "length (enc @ rest @ ?t) \<le> f" using a(3) f by simp
  have "ready A d (length (der_tlv ?tag val)) cbb" using a(2) by (rule ready_mono) simp
  from element_written [OF c [OF a(1) _ le] len this] obtain o1 o2 o3 where
    o: "CBB_add_asn1 A d ?tag cbb = (True, o1)" "convert_contents f A (d + 1) ?cst depth el c1 o1 = Some (True, rest @ ?t, o2)"
      "CBB_flush A d o2 = (True, o3)" "append_post A d (der_tlv ?tag val) cbb o3" by blast
  have t: "convert_target A d 0 tag cbb = (Some (d + 1, ?cst), o1)"
    using o(1) unfolding convert_target_def Let_def constructed_string_def [symmetric] primitive_tag_def [symmetric] by simp
  have r3: "ready A d (length out) o3" using append_post_ready [OF o(4)] a(2) by simp
  have "length (rest @ ?t) < f" using a(3) f encodes_hd [OF v enc] by auto
  from convertsD [OF rest a(1) r3 this] obtain o4 where "cbs_convert_ber f A d 0 eoc depth (rest @ ?t) o3 =
    Some (True, if eoc then tail else [], o4)" "append_post A d out o3 o4" by blast
  then show "\<exists>cbb'. cbs_convert_ber fuel A d 0 eoc depth ((enc @ rest) @ ?t) cbb = Some (True, if eoc then tail else [], cbb')
      \<and> append_post A d (der_tlv ?tag val @ out) cbb cbb'"
    using convert_round [OF _ v enc el t o(2,3), of eoc] append_post_trans [OF o(4)] a(1) f by auto
qed

lemma ber_der_converts: "ber_der n st input out \<Longrightarrow> converts n st input out"
proof (induction n st input out rule: ber_der_ber_value.inducts(1) [where ?P2.0 = converts_value])
  case (ber_piece st tag contents enc n val rest out)
  then show ?case using converts_piece by blast
next
  case (ber_elem tag contents enc n val rest out)
  then show ?case using converts_elem by blast
qed (use converts_nil converts_prim converts_cons in blast)+

text \<open>The whole call: what a conversion delivers, and that it succeeds with memory granted.\<close>

lemma ber_to_der_sound:
  assumes "CBS_asn1_ber_to_der A cbs = (Some (out, Some buf), rest)" "CBS_len cbs < size_mod"
  shows "rest = [] \<and> ber_der kMaxDepth 0 cbs out \<and> der_forest kMaxDepth out \<and> cbs_find_ber 0 out = Some False
    \<and> (\<exists>n \<le> length buf. out = take n buf)"
proof -
  from assms(1) obtain c0 c1 c2 n where i: "CBB_init A (CBS_len cbs) = Some c0"
    and c: "cbs_convert_ber (Suc (CBS_len cbs)) A 0 0 False 0 cbs c0 = Some (True, rest, c1)"
    and f: "CBB_finish A 0 True c1 = (Some (buf, n), c2)" "out = take n buf"
    by (auto simp: CBS_asn1_ber_to_der_def split: option.splits prod.splits bool.splits simp del: cbs_convert_ber.simps)
  note i0 = cbb_init_ok [OF i assms(2)]
  from convert_goodD [OF convert_correct c] i0 assms(2)
  have "rest = []" "converted A 0 0 0 cbs c0 c1" by (auto simp: CBS_len_def)
  then obtain body where p: "append_post A 0 body c0 c1" "ber_der kMaxDepth 0 cbs body" "der_forest kMaxDepth body"
    by (auto simp: converted_def)
  have "cbb_inv c1" "cbb_view 0 c1 = body" using p(1) i0 by (simp_all add: append_post_def)
  then have "out = body" "n \<le> length buf" using finish_ok [OF _ f(1)] f(2) by simp_all
  then show ?thesis using \<open>rest = []\<close> p f(2) find_ber_iff by blast
qed

lemma ber_to_der_converts:
  assumes ber: "cbs_find_ber 0 cbs = Some True" "ber_der kMaxDepth 0 cbs out"
    and mem: "\<forall>k. malloc_ok A k" "CBS_len cbs + OPENSSL_MALLOC_PREFIX < size_mod" "length out < 2 ^ 62"
  shows "\<exists>buf. CBS_asn1_ber_to_der A cbs = (Some (out, Some buf), [])"
proof -
  obtain c where i: "CBB_init A (CBS_len cbs) = Some c"
    using mem(1,2) by (auto simp: CBB_init_def OPENSSL_malloc_def size_add_exact)
  note i0 = cbb_init_ok [OF i]
  have r: "ready A 0 (length out) c"
    using i0 mem length_cb_bytes [of "cbb_base c"] by (auto simp: ready_def room_def cbb_inv_def)
  from convertsD [OF ber_der_converts [OF ber(2)], of 0 A 0 c False "[]" "Suc (CBS_len cbs)"] r
  obtain c1 where c1: "cbs_convert_ber (Suc (CBS_len cbs)) A 0 0 False 0 cbs c = Some (True, [], c1)" "append_post A 0 out c c1"
    by (auto simp: eoc_tail_def CBS_len_def simp del: cbs_convert_ber.simps)
  have "CBB_flush A 0 c1 = (True, c1)" using append_post_ready [OF c1(2), of 0] r flush_ready by simp
  moreover have "take (cb_len (cbb_base c1)) (cb_buf (cbb_base c1)) = out"
    using c1(2) i0 mem(2) by (simp add: append_post_def flip: cb_bytes_def)
  ultimately show ?thesis using i c1(1) ber(1)
    by (simp add: CBS_asn1_ber_to_der_def CBB_finish_def del: cbs_convert_ber.simps)
qed

end
