(* ===== verification/Unicode.thy ===== *)
theory Unicode
  imports Cbb_Asn1
begin

text \<open>
  \<open>crypto/bytestring/unicode.c\<close>: reading and writing single code points as UTF-8, Latin-1, UCS-2 and
  UTF-32. Each encoding is given as an abstract function from code points to bytes; the reader and the
  writer are shown to implement it, and the readers are interpretations of the canonical codec contract.
\<close>

section \<open>The code\<close>

definition is_valid_code_point :: "u32 \<Rightarrow> bool" where
  "is_valid_code_point v =
     (if v > 0x10ffff \<or> v AND 0xfffe = 0xfffe \<or> (v \<ge> 0xfdd0 \<and> v \<le> 0xfdef) \<or> (v \<ge> 0xd800 \<and> v \<le> 0xdfff)
      then False else True)"

definition BOTTOM_BITS :: "nat \<Rightarrow> u8" where
  "BOTTOM_BITS n = ucast (push_bit n 1 - 1 :: u32)"

definition TOP_BITS :: "nat \<Rightarrow> u8" where
  "TOP_BITS n = NOT (BOTTOM_BITS (8 - n))"

fun utf8_loop :: "nat \<Rightarrow> u32 \<Rightarrow> CBS \<Rightarrow> u32 cbs_result" where
  "utf8_loop 0 v cbs = (Some v, cbs)"
| "utf8_loop (Suc len) v cbs =
     cbs_bind (CBS_get_u8 cbs) (\<lambda>c cbs.
       if c AND TOP_BITS 2 \<noteq> TOP_BITS 1 then (None, cbs)
       else utf8_loop len (push_bit 6 v OR ucast (c AND BOTTOM_BITS 6)) cbs)"

definition CBS_get_utf8 :: "CBS \<Rightarrow> u32 cbs_result" where
  "CBS_get_utf8 cbs =
     cbs_bind (CBS_get_u8 cbs) (\<lambda>c cbs.
       if c \<le> 0x7f then (Some (ucast c), cbs)
       else
         (case (if c AND TOP_BITS 3 = TOP_BITS 2 then Some (ucast (c AND BOTTOM_BITS 5), 1, 0x80)
                else if c AND TOP_BITS 4 = TOP_BITS 3 then Some (ucast (c AND BOTTOM_BITS 4), 2, 0x800)
                else if c AND TOP_BITS 5 = TOP_BITS 4 then Some (ucast (c AND BOTTOM_BITS 3), 3, 0x10000)
                else None) of
            None \<Rightarrow> (None, cbs)
          | Some (v, len, lower_bound) \<Rightarrow>
              cbs_bind (utf8_loop len v cbs) (\<lambda>v cbs.
                if \<not> is_valid_code_point v \<or> v < lower_bound then (None, cbs) else (Some v, cbs))))"

definition CBS_get_latin1 :: "CBS \<Rightarrow> u32 cbs_result" where
  "CBS_get_latin1 cbs = cbs_bind (CBS_get_u8 cbs) (\<lambda>c cbs. (Some (ucast c), cbs))"

definition CBS_get_ucs2_be :: "CBS \<Rightarrow> u32 cbs_result" where
  "CBS_get_ucs2_be cbs =
     cbs_bind (CBS_get_u16 cbs) (\<lambda>c cbs.
       if \<not> is_valid_code_point (ucast c) then (None, cbs) else (Some (ucast c), cbs))"

definition CBS_get_utf32_be :: "CBS \<Rightarrow> u32 cbs_result" where
  "CBS_get_utf32_be cbs =
     cbs_bind (CBS_get_u32 cbs) (\<lambda>v cbs. if is_valid_code_point v then (Some v, cbs) else (None, cbs))"

definition CBB_get_utf8_len :: "u32 \<Rightarrow> nat" where
  "CBB_get_utf8_len u = (if u \<le> 0x7f then 1 else if u \<le> 0x7ff then 2 else if u \<le> 0xffff then 3 else 4)"

definition CBB_add_utf8 :: "allocator \<Rightarrow> nat \<Rightarrow> u32 \<Rightarrow> CBB \<Rightarrow> bool \<times> CBB" where
  "CBB_add_utf8 A d u cbb =
     (let top = (\<lambda>n x. ucast (ucast (TOP_BITS n) OR x :: u32) :: u8);
          low = ucast (BOTTOM_BITS 6)
      in
      if \<not> is_valid_code_point u then (False, cbb)
      else if u \<le> 0x7f then CBB_add_u8 A d (ucast u) cbb
      else if u \<le> 0x7ff then
        cbb_then (CBB_add_u8 A d (top 2 (drop_bit 6 u)) cbb)
                 (CBB_add_u8 A d (top 1 (u AND low)))
      else if u \<le> 0xffff then
        cbb_then (CBB_add_u8 A d (top 3 (drop_bit 12 u)) cbb) (\<lambda>cbb.
        cbb_then (CBB_add_u8 A d (top 1 (drop_bit 6 u AND low)) cbb)
                 (CBB_add_u8 A d (top 1 (u AND low))))
      else if u \<le> 0x10ffff then
        cbb_then (CBB_add_u8 A d (top 4 (drop_bit 18 u)) cbb) (\<lambda>cbb.
        cbb_then (CBB_add_u8 A d (top 1 (drop_bit 12 u AND low)) cbb) (\<lambda>cbb.
        cbb_then (CBB_add_u8 A d (top 1 (drop_bit 6 u AND low)) cbb)
                 (CBB_add_u8 A d (top 1 (u AND low)))))
      else (False, cbb))"

definition CBB_add_latin1 :: "allocator \<Rightarrow> nat \<Rightarrow> u32 \<Rightarrow> CBB \<Rightarrow> bool \<times> CBB" where
  "CBB_add_latin1 A d u cbb = (if u \<le> 0xff then CBB_add_u8 A d (ucast u) cbb else (False, cbb))"

definition CBB_add_ucs2_be :: "allocator \<Rightarrow> nat \<Rightarrow> u32 \<Rightarrow> CBB \<Rightarrow> bool \<times> CBB" where
  "CBB_add_ucs2_be A d u cbb =
     (if u \<le> 0xffff \<and> is_valid_code_point u then CBB_add_u16 A d (ucast u) cbb else (False, cbb))"

definition CBB_add_utf32_be :: "allocator \<Rightarrow> nat \<Rightarrow> u32 \<Rightarrow> CBB \<Rightarrow> bool \<times> CBB" where
  "CBB_add_utf32_be A d u cbb =
     (if is_valid_code_point u then CBB_add_u32 A d u cbb else (False, cbb))"

section \<open>Bytes of the encoding\<close>

lemma BOTTOM_BITS_eq: "n \<le> 8 \<Longrightarrow> BOTTOM_BITS n = mask n"
proof -
  assume "n \<le> 8"
  have "(push_bit n 1 - 1 :: u32) = mask n" by (simp add: mask_eq_exp_minus_1 push_bit_eq_mult)
  then show ?thesis
    unfolding BOTTOM_BITS_def by (auto simp: bit_eq_iff bit_simps)
qed

lemma unat_and_not_mask: "unat (c AND NOT (mask k) :: 'a::len word) = unat c div 2 ^ k * 2 ^ k"
proof -
  have "c = (c AND NOT (mask k)) OR (c AND mask k)" by (simp add: bit_eq_iff bit_simps) blast
  moreover have "(c AND NOT (mask k)) AND (c AND mask k) = 0" by (simp add: bit_eq_iff bit_simps)
  ultimately have "c = (c AND NOT (mask k)) + (c AND mask k)"
    by (metis disjunctive_add_eq_or)
  moreover have "c AND NOT (mask k) \<le> c" by (rule word_and_le2)
  ultimately have "unat (c AND NOT (mask k)) = unat c - unat (c AND mask k)"
    by (metis add_diff_cancel_right' unat_sub word_and_le2)
  then show ?thesis by (simp add: unat_and_mask minus_mod_eq_div_mult)
qed

lemma unat_BOTTOM: "n \<le> 8 \<Longrightarrow> unat (c AND BOTTOM_BITS n) = unat c mod 2 ^ n"
  by (simp add: BOTTOM_BITS_eq unat_and_mask)

lemma unat_TOP: "n \<le> 8 \<Longrightarrow> unat (c AND TOP_BITS n) = unat c div 2 ^ (8 - n) * 2 ^ (8 - n)"
  by (simp add: TOP_BITS_def BOTTOM_BITS_eq unat_and_not_mask)

lemma TOP_BITS_values: "TOP_BITS 1 = 0x80" "TOP_BITS 2 = 0xc0" "TOP_BITS 3 = 0xe0" "TOP_BITS 4 = 0xf0"
  by (simp_all add: TOP_BITS_def BOTTOM_BITS_def)

text \<open>The tests of the lead byte and of a continuation byte.\<close>

lemma byte_tests:
  fixes c :: u8
  shows "c AND TOP_BITS 2 = TOP_BITS 1 \<longleftrightarrow> unat c div 64 = 2"
    "c AND TOP_BITS 3 = TOP_BITS 2 \<longleftrightarrow> unat c div 32 = 6"
    "c AND TOP_BITS 4 = TOP_BITS 3 \<longleftrightarrow> unat c div 16 = 14"
    "c AND TOP_BITS 5 = TOP_BITS 4 \<longleftrightarrow> unat c div 8 = 30"
proof -
  have eq: "c AND TOP_BITS n = w \<longleftrightarrow> unat c div 2 ^ (8 - n) = m" if "n \<le> 8" "unat w = m * 2 ^ (8 - n)" for n m and w :: u8
    using that by (simp add: word_unat_eq_iff unat_TOP)
  show "c AND TOP_BITS 2 = TOP_BITS 1 \<longleftrightarrow> unat c div 64 = 2"
    using eq [of 2 "TOP_BITS 1" 2] TOP_BITS_values(1) by simp
  show "c AND TOP_BITS 3 = TOP_BITS 2 \<longleftrightarrow> unat c div 32 = 6"
    using eq [of 3 "TOP_BITS 2" 6] by (simp add: TOP_BITS_values)
  show "c AND TOP_BITS 4 = TOP_BITS 3 \<longleftrightarrow> unat c div 16 = 14"
    using eq [of 4 "TOP_BITS 3" 14] by (simp add: TOP_BITS_values)
  show "c AND TOP_BITS 5 = TOP_BITS 4 \<longleftrightarrow> unat c div 8 = 30"
    using eq [of 5 "TOP_BITS 4" 30] by (simp add: TOP_BITS_values)
qed

section \<open>UTF-8\<close>

definition utf8 :: "nat \<Rightarrow> u8 list" where
  "utf8 n = map word_of_nat
     (if n \<le> 0x7f then [n]
      else if n \<le> 0x7ff then [192 + n div 64, 128 + n mod 64]
      else if n \<le> 0xffff then [224 + n div 4096, 128 + n div 64 mod 64, 128 + n mod 64]
      else [240 + n div 262144, 128 + n div 4096 mod 64, 128 + n div 64 mod 64, 128 + n mod 64])"

text \<open>The continuation bytes of a number, most significant first.\<close>

fun utf8_tail :: "nat \<Rightarrow> nat \<Rightarrow> u8 list" where
  "utf8_tail 0 n = []"
| "utf8_tail (Suc k) n = word_of_nat (128 + n div 64 ^ k mod 64) # utf8_tail k n"

lemma cont_arith:
  fixes u x :: nat
  assumes "x < 64"
  shows "u = 128 + x \<longleftrightarrow> u div 64 = 2 \<and> x = u mod 64"
proof
  assume u: "u = 128 + x"
  then have "u div 64 = 2" using assms by (intro div_nat_eqI) simp_all
  then show "u div 64 = 2 \<and> x = u mod 64" using u div_mult_mod_eq [of u 64] by linarith
next
  assume "u div 64 = 2 \<and> x = u mod 64"
  then show "u = 128 + x" using div_mult_mod_eq [of u 64] by linarith
qed

lemma utf8_loop_iff:
  "(unat v + 1) * 64 ^ len \<le> 2 ^ 32 \<Longrightarrow>
   utf8_loop len v cbs = (Some w, rest) \<longleftrightarrow>
     unat w div 64 ^ len = unat v \<and> cbs = utf8_tail len (unat w) @ rest"
proof (induction len arbitrary: v cbs)
  case (Suc len)
  show ?case
  proof (cases cbs)
    case (Cons c cs)
    define d where "d = unat c mod 64"
    have d: "unat (ucast (c AND BOTTOM_BITS 6) :: u32) = d" by (simp add: d_def unat_ucast_up unat_BOTTOM)
    let ?v = "push_bit 6 v OR ucast (c AND BOTTOM_BITS 6) :: u32"
    have "(unat v + 1) * 64 \<le> (unat v + 1) * 64 ^ Suc len" by (intro mult_le_mono2) simp
    then have v64: "(unat v + 1) * 64 \<le> 2 ^ 32" using Suc.prems by linarith
    have d64: "d < 64" by (simp add: d_def)
    have uv: "unat ?v = unat v * 64 + d"
      using unat_shift_in [of v 6 "ucast (c AND BOTTOM_BITS 6)"] v64 d d64 by simp
    have fit: "(unat ?v + 1) * 64 ^ len \<le> 2 ^ 32"
    proof -
      have "(unat ?v + 1) * 64 ^ len \<le> ((unat v + 1) * 64) * 64 ^ len"
        using uv d64 by (intro mult_le_mono1) simp
      also have "\<dots> = (unat v + 1) * 64 ^ Suc len" by (simp add: algebra_simps)
      finally show ?thesis using Suc.prems by linarith
    qed
    have q: "unat w div 64 ^ Suc len = unat v \<and> unat w div 64 ^ len mod 64 = d \<longleftrightarrow> unat w div 64 ^ len = unat v * 64 + d"
    proof -
      have "unat w div 64 ^ Suc len = unat w div 64 ^ len div 64" by (simp add: div_mult2_eq [symmetric] mult.commute)
      moreover have "x div 64 = y \<and> x mod 64 = d \<longleftrightarrow> x = y * 64 + d" for x y using d64 by auto
      ultimately show ?thesis by metis
    qed
    have "utf8_loop (Suc len) v cbs = (Some w, rest) \<longleftrightarrow>
        unat c div 64 = 2 \<and> unat w div 64 ^ len = unat v * 64 + d \<and> cs = utf8_tail len (unat w) @ rest"
      using Suc.IH [OF fit] by (simp add: Cons byte_tests [unfolded One_nat_def] uv)
    also have "\<dots> \<longleftrightarrow> unat w div 64 ^ Suc len = unat v \<and> cbs = utf8_tail (Suc len) (unat w) @ rest"
    proof -
      have "c = word_of_nat (128 + unat w div 64 ^ len mod 64) \<longleftrightarrow> unat c div 64 = 2 \<and> unat w div 64 ^ len mod 64 = d"
      proof -
        have "unat w div 64 ^ len mod 64 < 64" by simp
        then have "c = word_of_nat (128 + unat w div 64 ^ len mod 64) \<longleftrightarrow> unat c = 128 + unat w div 64 ^ len mod 64"
          by (simp add: u8_eq_iff del: of_nat_add)
        moreover note cont_arith
        ultimately show ?thesis unfolding d_def using \<open>unat w div 64 ^ len mod 64 < 64\<close> by metis
      qed
      then show ?thesis using q by (auto simp: Cons simp del: of_nat_add)
    qed
    finally show ?thesis .
  qed simp
qed (auto simp: word_unat_eq_iff)

text \<open>The four forms of the encoding, by the lead byte.\<close>

lemma utf8_Cons:
  assumes "n \<le> 0x10ffff"
  shows "c # cs = utf8 n @ rest \<longleftrightarrow>
     n \<le> 0x7f \<and> unat c = n \<and> cs = rest
     \<or> 0x80 \<le> n \<and> n \<le> 0x7ff \<and> unat c = 192 + n div 64 ^ 1 \<and> cs = utf8_tail 1 n @ rest
     \<or> 0x800 \<le> n \<and> n \<le> 0xffff \<and> unat c = 224 + n div 64 ^ 2 \<and> cs = utf8_tail 2 n @ rest
     \<or> 0x10000 \<le> n \<and> unat c = 240 + n div 64 ^ 3 \<and> cs = utf8_tail 3 n @ rest"
proof -
  have t: "utf8_tail 1 n = [word_of_nat (128 + n mod 64)]"
    "utf8_tail 2 n = [word_of_nat (128 + n div 64 mod 64), word_of_nat (128 + n mod 64)]"
    "utf8_tail 3 n = [word_of_nat (128 + n div 4096 mod 64), word_of_nat (128 + n div 64 mod 64), word_of_nat (128 + n mod 64)]"
    by (simp_all add: numeral_2_eq_2 numeral_3_eq_3)
  consider "n \<le> 0x7f" | "0x80 \<le> n" "n \<le> 0x7ff" | "0x800 \<le> n" "n \<le> 0xffff" | "0x10000 \<le> n" by linarith
  then show ?thesis
  proof cases
    case 1
    then show ?thesis by (auto simp: utf8_def u8_eq_iff)
  next
    case 2
    then have "n div 64 < 32" by (simp add: less_mult_imp_div_less)
    with 2 show ?thesis by (auto simp: utf8_def u8_eq_iff t simp del: of_nat_add)
  next
    case 3
    then have "n div 4096 < 16" by (simp add: less_mult_imp_div_less)
    with 3 show ?thesis by (auto simp: utf8_def u8_eq_iff t simp del: of_nat_add)
  next
    case 4
    then have "n div 262144 < 5" using assms by (simp add: less_mult_imp_div_less)
    with 4 show ?thesis by (auto simp: utf8_def u8_eq_iff t simp del: of_nat_add)
  qed
qed

lemma valid_range: "is_valid_code_point v \<Longrightarrow> unat v \<le> 0x10ffff"
  by (auto simp: is_valid_code_point_def word_less_nat_alt not_less split: if_splits)

lemma valid_ascii:
  assumes "unat v \<le> 0x7f"
  shows "is_valid_code_point v"
proof -
  have "unat (v AND 0xfffe) \<le> unat v" by (simp add: word_and_le2 word_le_nat_alt [symmetric])
  then have "v AND 0xfffe \<noteq> 0xfffe" using assms by auto
  then show ?thesis using assms by (simp add: is_valid_code_point_def word_less_nat_alt word_le_nat_alt)
qed

lemma utf8_nonempty [simp]: "utf8 n \<noteq> []"
  by (simp add: utf8_def)

lemma get_utf8_multi:
  assumes k: "k \<le> 3" "(unat v + 1) * 64 ^ k \<le> 2 ^ 32"
  shows "cbs_bind (utf8_loop k v cs) (\<lambda>v cbs. if \<not> is_valid_code_point v \<or> v < lb then (None, cbs) else (Some v, cbs)) = (Some w, rest)
    \<longleftrightarrow> is_valid_code_point w \<and> unat lb \<le> unat w \<and> unat w div 64 ^ k = unat v \<and> cs = utf8_tail k (unat w) @ rest"
  using utf8_loop_iff [OF k(2)]
  by (auto simp: cbs_bind_Some_iff word_less_nat_alt not_less split: if_splits)

lemma lead_byte_2:
  fixes c n :: nat
  assumes "c div 32 = 6"
  shows "n \<le> 0x7ff \<and> c = 192 + n div 64 ^ 1 \<longleftrightarrow> n div 64 ^ 1 = c mod 32" "n \<le> 0x7f \<Longrightarrow> c \<noteq> n" "c \<noteq> 224 + k" "c \<noteq> 240 + k"
  using assms div_mult_mod_eq [of c 32] by auto

lemma lead_byte_3:
  fixes c n :: nat
  assumes "c div 16 = 14"
  shows "n \<le> 0xffff \<and> c = 224 + n div 64 ^ 2 \<longleftrightarrow> n div 64 ^ 2 = c mod 16" "n \<le> 0x7f \<Longrightarrow> c \<noteq> n"
    "n \<le> 0x7ff \<Longrightarrow> c \<noteq> 192 + n div 64 ^ 1" "c \<noteq> 240 + k"
  using assms div_mult_mod_eq [of c 16] by auto

lemma lead_byte_4:
  fixes c n :: nat
  assumes "c div 8 = 30"
  shows "n \<le> 0x10ffff \<Longrightarrow> c = 240 + n div 64 ^ 3 \<longleftrightarrow> n div 64 ^ 3 = c mod 8" "n \<le> 0x7f \<Longrightarrow> c \<noteq> n"
    "n \<le> 0x7ff \<Longrightarrow> c \<noteq> 192 + n div 64 ^ 1" "n \<le> 0xffff \<Longrightarrow> c \<noteq> 224 + n div 64 ^ 2"
  using assms div_mult_mod_eq [of c 8] by auto

lemma lead_byte_other:
  fixes c n :: nat
  assumes "0x7f < c" "c div 32 \<noteq> 6" "c div 16 \<noteq> 14" "c div 8 \<noteq> 30" "n \<le> 0x10ffff"
  shows "n \<le> 0x7f \<Longrightarrow> c \<noteq> n" "n \<le> 0x7ff \<Longrightarrow> c \<noteq> 192 + n div 64 ^ 1" "n \<le> 0xffff \<Longrightarrow> c \<noteq> 224 + n div 64 ^ 2"
    "c \<noteq> 240 + n div 64 ^ 3"
  using assms by auto

lemma get_utf8_iff:
  "CBS_get_utf8 cbs = (Some w, rest) \<longleftrightarrow> is_valid_code_point w \<and> cbs = utf8 (unat w) @ rest"
proof (cases cbs)
  case Nil
  then show ?thesis by (simp add: CBS_get_utf8_def)
next
  case (Cons c cs)
  have low: "unat (ucast (c AND BOTTOM_BITS n) :: u32) = unat c mod 2 ^ n" if "n \<le> 8" for n
    using that by (simp add: unat_ucast_up unat_BOTTOM)
  have mx: "unat (ucast (c AND BOTTOM_BITS n) :: u32) + 1 \<le> 2 ^ n" if "n \<le> 8" for n
    using low [OF that] by (simp add: Suc_leI)
  have c256: "unat c < 256" by simp
  have main: "is_valid_code_point w \<and> cbs = utf8 (unat w) @ rest \<longleftrightarrow>
     is_valid_code_point w \<and> (unat w \<le> 0x7f \<and> unat c = unat w \<and> cs = rest
     \<or> 0x80 \<le> unat w \<and> unat w \<le> 0x7ff \<and> unat c = 192 + unat w div 64 ^ 1 \<and> cs = utf8_tail 1 (unat w) @ rest
     \<or> 0x800 \<le> unat w \<and> unat w \<le> 0xffff \<and> unat c = 224 + unat w div 64 ^ 2 \<and> cs = utf8_tail 2 (unat w) @ rest
     \<or> 0x10000 \<le> unat w \<and> unat c = 240 + unat w div 64 ^ 3 \<and> cs = utf8_tail 3 (unat w) @ rest)"
    using utf8_Cons [of "unat w" c cs rest] valid_range [of w] unfolding Cons by blast
  consider (1) "unat c \<le> 0x7f" | (2) "unat c div 32 = 6" | (3) "unat c div 16 = 14" | (4) "unat c div 8 = 30"
    | (5) "0x7f < unat c" "unat c div 32 \<noteq> 6" "unat c div 16 \<noteq> 14" "unat c div 8 \<noteq> 30" by linarith
  then show ?thesis
  proof cases
    case 1
    then have "CBS_get_utf8 cbs = (Some (ucast c), cs)" by (simp add: CBS_get_utf8_def Cons word_le_nat_alt)
    then have "CBS_get_utf8 cbs = (Some w, rest) \<longleftrightarrow> unat c = unat w \<and> cs = rest"
      by (auto simp: word_unat_eq_iff [of _ w] unat_ucast_up)
    then show ?thesis unfolding main using 1 valid_ascii [of w] by auto
  next
    case 2
    then have "\<not> unat c \<le> 0x7f" by auto
    with 2 have "CBS_get_utf8 cbs = (Some w, rest) \<longleftrightarrow>
        is_valid_code_point w \<and> 0x80 \<le> unat w \<and> unat w div 64 ^ 1 = unat c mod 32 \<and> cs = utf8_tail 1 (unat w) @ rest"
      using get_utf8_multi [of 1 "ucast (c AND BOTTOM_BITS 5)" cs "0x80" w rest] low [of 5] mx [of 5]
      by (simp add: CBS_get_utf8_def Cons word_le_nat_alt byte_tests)
    then show ?thesis unfolding main using lead_byte_2 [OF 2] by blast
  next
    case 3
    then have "\<not> unat c \<le> 0x7f" "unat c div 32 \<noteq> 6" by auto
    with 3 have "CBS_get_utf8 cbs = (Some w, rest) \<longleftrightarrow>
        is_valid_code_point w \<and> 0x800 \<le> unat w \<and> unat w div 64 ^ 2 = unat c mod 16 \<and> cs = utf8_tail 2 (unat w) @ rest"
      using get_utf8_multi [of 2 "ucast (c AND BOTTOM_BITS 4)" cs "0x800" w rest] low [of 4] mx [of 4]
      by (simp add: CBS_get_utf8_def Cons word_le_nat_alt byte_tests)
    then show ?thesis unfolding main using lead_byte_3 [OF 3] by blast
  next
    case 4
    then have "\<not> unat c \<le> 0x7f" "unat c div 32 \<noteq> 6" "unat c div 16 \<noteq> 14" by auto
    with 4 have "CBS_get_utf8 cbs = (Some w, rest) \<longleftrightarrow>
        is_valid_code_point w \<and> 0x10000 \<le> unat w \<and> unat w div 64 ^ 3 = unat c mod 8 \<and> cs = utf8_tail 3 (unat w) @ rest"
      using get_utf8_multi [of 3 "ucast (c AND BOTTOM_BITS 3)" cs "0x10000" w rest] low [of 3] mx [of 3]
      by (simp add: CBS_get_utf8_def Cons word_le_nat_alt byte_tests)
    then show ?thesis unfolding main using lead_byte_4 [OF 4] valid_range [of w] by blast
  next
    case 5
    then have "CBS_get_utf8 cbs = (None, cs)" by (simp add: CBS_get_utf8_def Cons word_le_nat_alt byte_tests)
    then show ?thesis unfolding main using lead_byte_other [OF 5] valid_range [of w] by auto
  qed
qed

interpretation utf8_codec: canonical_codec "\<lambda>u. utf8 (unat u)" CBS_get_utf8 is_valid_code_point
  by unfold_locales (auto simp: get_utf8_iff)

text \<open>Writing: the bytes that \<open>CBB_add_utf8\<close> assembles.\<close>

lemma top_or:
  fixes x :: u32
  assumes "1 \<le> n" "n \<le> 4" "unat x < 2 ^ (8 - n)"
  shows "(ucast (ucast (TOP_BITS n) OR x :: u32) :: u8) = word_of_nat (256 - 2 ^ (8 - n) + unat x)"
proof -
  define t :: u32 where "t = 2 ^ n - 1"
  have n: "n = 1 \<or> n = 2 \<or> n = 3 \<or> n = 4" using assms by linarith
  have top: "(ucast (TOP_BITS n) :: u32) = push_bit (8 - n) t" "unat t * 2 ^ (8 - n) = 256 - 2 ^ (8 - n)"
    using n TOP_BITS_values by (auto simp: t_def)
  have le: "256 - 2 ^ (8 - n) + unat x < 256" using n assms(3) by auto
  then have "unat (push_bit (8 - n) t OR x) = 256 - 2 ^ (8 - n) + unat x"
    using unat_shift_in [of t "8 - n" x] assms(3) top(2) by simp
  then show ?thesis using le unfolding top(1) by (simp add: u8_eq_iff unat_ucast_mod del: of_nat_add)
qed

lemma unat_low6: "unat ((u :: u32) AND ucast (BOTTOM_BITS 6)) = unat u mod 64"
proof -
  have "(ucast (BOTTOM_BITS 6) :: u32) = mask 6" by (simp add: BOTTOM_BITS_def mask_eq_exp_minus_1)
  then show ?thesis by (simp add: unat_and_mask)
qed

lemma appends_utf8:
  assumes "is_valid_code_point u"
  shows "appends A d (CBB_add_utf8 A d u) (utf8 (unat u))"
proof -
  note r = valid_range [OF assms]
  have c: "(ucast (ucast (TOP_BITS 1) OR x AND ucast (BOTTOM_BITS 6) :: u32) :: u8) = word_of_nat (128 + unat x mod 64)" for x
    using top_or [of 1 "x AND ucast (BOTTOM_BITS 6)"] by (simp add: unat_low6 del: of_nat_add)
  consider "unat u \<le> 0x7f" | "0x80 \<le> unat u" "unat u \<le> 0x7ff" | "0x800 \<le> unat u" "unat u \<le> 0xffff" | "0x10000 \<le> unat u" by linarith
  then show ?thesis
  proof cases
    case 1
    then have "utf8 (unat u) = [ucast u]" by (simp add: utf8_def word_unat_eq_iff unat_word_of_nat_u8 unat_ucast_mod)
    then show ?thesis using 1 assms appends_add_u8 [of A d "ucast u"]
      by (simp add: CBB_add_utf8_def [abs_def] word_le_nat_alt)
  next
    case 2
    have "(ucast (ucast (TOP_BITS 2) OR drop_bit 6 u :: u32) :: u8) = word_of_nat (192 + unat u div 64)"
      using 2 top_or [of 2 "drop_bit 6 u"] by (simp add: unat_drop_bit less_mult_imp_div_less del: of_nat_add)
    then have "CBB_add_utf8 A d u = (\<lambda>cbb. cbb_then (CBB_add_u8 A d (word_of_nat (192 + unat u div 64)) cbb)
         (CBB_add_u8 A d (word_of_nat (128 + unat u mod 64))))"
      using 2 assms c by (simp add: CBB_add_utf8_def [abs_def] word_le_nat_alt Let_def del: of_nat_add)
    moreover have "utf8 (unat u) = [word_of_nat (192 + unat u div 64)] @ [word_of_nat (128 + unat u mod 64)]"
      using 2 by (simp add: utf8_def del: of_nat_add)
    ultimately show ?thesis by (simp only:) (intro appends_then appends_add_u8)
  next
    case 3
    have "(ucast (ucast (TOP_BITS 3) OR drop_bit 12 u :: u32) :: u8) = word_of_nat (224 + unat u div 4096)"
      using 3 top_or [of 3 "drop_bit 12 u"] by (simp add: unat_drop_bit less_mult_imp_div_less del: of_nat_add)
    then have "CBB_add_utf8 A d u = (\<lambda>cbb. cbb_then (CBB_add_u8 A d (word_of_nat (224 + unat u div 4096)) cbb)
         (\<lambda>cbb. cbb_then (CBB_add_u8 A d (word_of_nat (128 + unat u div 64 mod 64)) cbb)
         (CBB_add_u8 A d (word_of_nat (128 + unat u mod 64)))))"
      using 3 assms c by (simp add: CBB_add_utf8_def [abs_def] word_le_nat_alt Let_def unat_drop_bit del: of_nat_add)
    moreover have "utf8 (unat u) = [word_of_nat (224 + unat u div 4096)] @ [word_of_nat (128 + unat u div 64 mod 64)]
        @ [word_of_nat (128 + unat u mod 64)]"
      using 3 by (simp add: utf8_def del: of_nat_add)
    ultimately show ?thesis by (simp only:) (intro appends_then appends_add_u8)
  next
    case 4
    have "(ucast (ucast (TOP_BITS 4) OR drop_bit 18 u :: u32) :: u8) = word_of_nat (240 + unat u div 262144)"
      using r top_or [of 4 "drop_bit 18 u"] by (simp add: unat_drop_bit less_mult_imp_div_less del: of_nat_add)
    then have "CBB_add_utf8 A d u = (\<lambda>cbb. cbb_then (CBB_add_u8 A d (word_of_nat (240 + unat u div 262144)) cbb)
         (\<lambda>cbb. cbb_then (CBB_add_u8 A d (word_of_nat (128 + unat u div 4096 mod 64)) cbb)
         (\<lambda>cbb. cbb_then (CBB_add_u8 A d (word_of_nat (128 + unat u div 64 mod 64)) cbb)
         (CBB_add_u8 A d (word_of_nat (128 + unat u mod 64))))))"
      using 4 r assms c by (simp add: CBB_add_utf8_def [abs_def] word_le_nat_alt Let_def unat_drop_bit del: of_nat_add)
    moreover have "utf8 (unat u) = [word_of_nat (240 + unat u div 262144)] @ [word_of_nat (128 + unat u div 4096 mod 64)]
        @ [word_of_nat (128 + unat u div 64 mod 64)] @ [word_of_nat (128 + unat u mod 64)]"
      using 4 by (simp add: utf8_def del: of_nat_add)
    ultimately show ?thesis by (simp only:) (intro appends_then appends_add_u8)
  qed
qed

lemma length_utf8: "unat u \<le> 0x10ffff \<Longrightarrow> length (utf8 (unat u)) = CBB_get_utf8_len u"
  by (simp add: utf8_def CBB_get_utf8_len_def word_le_nat_alt)

section \<open>Fixed-width encodings\<close>

lemma be_bytes_nonempty [simp]: "n \<noteq> 0 \<Longrightarrow> be_bytes n x \<noteq> []"
  by (cases n) auto

lemma get_u_ucast_iff:
  assumes "LENGTH('a::len) = 8 * n" "n \<le> 8"
  shows "cbs_bind (cbs_get_u n cbs) (\<lambda>v cbs. (Some (ucast v :: 'a word), cbs)) = (Some w, rest) \<longleftrightarrow>
     cbs = be_bytes n (unat w) @ rest"
proof -
  have p: "(256 :: nat) ^ n = 2 ^ LENGTH('a)" by (simp add: assms(1) power_mult)
  have le: "LENGTH('a) \<le> 64" using assms by simp
  show ?thesis
  proof
    assume "cbs_bind (cbs_get_u n cbs) (\<lambda>v cbs. (Some (ucast v :: 'a word), cbs)) = (Some w, rest)"
    then obtain v :: u64 where "unat v < 256 ^ n" "cbs = be_bytes n (unat v) @ rest" "w = ucast v"
      unfolding cbs_bind_Some_iff cbs_get_u_Some_iff [OF assms(2)] prod.inject option.inject by blast
    then show "cbs = be_bytes n (unat w) @ rest" by (simp add: unat_ucast_mod p)
  next
    assume cbs: "cbs = be_bytes n (unat w) @ rest"
    have u: "unat (ucast w :: u64) = unat w" using le by (simp add: unat_ucast_up)
    moreover have "unat w < 256 ^ n" using unat_lt [of w] by (simp add: p)
    ultimately have "cbs_get_u n cbs = (Some (ucast w), rest)" using assms(2) by (simp add: cbs_get_u_Some_iff cbs)
    moreover have "ucast (ucast w :: u64) = w" using unat_lt [of w]
      by (simp only: word_unat_eq_iff unat_ucast_mod [of "ucast w :: u64"] u mod_less)
    ultimately show "cbs_bind (cbs_get_u n cbs) (\<lambda>v cbs. (Some (ucast v :: 'a word), cbs)) = (Some w, rest)" by simp
  qed
qed

lemma get_u16_iff: "CBS_get_u16 cbs = (Some w, rest) \<longleftrightarrow> cbs = be_bytes 2 (unat w) @ rest"
  unfolding CBS_get_u16_def by (rule get_u_ucast_iff) simp_all

lemma get_u32_iff: "CBS_get_u32 cbs = (Some w, rest) \<longleftrightarrow> cbs = be_bytes 4 (unat w) @ rest"
  unfolding CBS_get_u32_def by (rule get_u_ucast_iff) simp_all

lemma get_utf32_iff:
  "CBS_get_utf32_be cbs = (Some w, rest) \<longleftrightarrow> is_valid_code_point w \<and> cbs = be_bytes 4 (unat w) @ rest"
  unfolding CBS_get_utf32_be_def cbs_bind_Some_iff get_u32_iff by (auto split: if_splits)

lemma get_ucs2_iff:
  "CBS_get_ucs2_be cbs = (Some w, rest) \<longleftrightarrow>
   (unat w < 2 ^ 16 \<and> is_valid_code_point w) \<and> cbs = be_bytes 2 (unat w) @ rest"
proof -
  have "CBS_get_ucs2_be cbs = (Some w, rest) \<longleftrightarrow>
     (\<exists>c :: u16. cbs = be_bytes 2 (unat c) @ rest \<and> is_valid_code_point (ucast c) \<and> w = ucast c)"
    unfolding CBS_get_ucs2_be_def cbs_bind_Some_iff get_u16_iff by (auto split: if_splits)
  also have "\<dots> \<longleftrightarrow> (unat w < 2 ^ 16 \<and> is_valid_code_point w) \<and> cbs = be_bytes 2 (unat w) @ rest"
  proof
    assume w: "(unat w < 2 ^ 16 \<and> is_valid_code_point w) \<and> cbs = be_bytes 2 (unat w) @ rest"
    then have "w = ucast (ucast w :: u16)" "unat (ucast w :: u16) = unat w"
      by (simp_all add: word_unat_eq_iff unat_ucast_mod)
    with w show "\<exists>c :: u16. cbs = be_bytes 2 (unat c) @ rest \<and> is_valid_code_point (ucast c) \<and> w = ucast c" by metis
  next
    assume "\<exists>c :: u16. cbs = be_bytes 2 (unat c) @ rest \<and> is_valid_code_point (ucast c) \<and> w = ucast c"
    then obtain c :: u16 where "cbs = be_bytes 2 (unat c) @ rest" "is_valid_code_point (ucast c)" "w = ucast c" by blast
    then show "(unat w < 2 ^ 16 \<and> is_valid_code_point w) \<and> cbs = be_bytes 2 (unat w) @ rest"
      using unat_lt [of c] by (simp add: unat_ucast_up)
  qed
  finally show ?thesis .
qed

interpretation utf32: canonical_codec "\<lambda>u. be_bytes 4 (unat u)" CBS_get_utf32_be is_valid_code_point
  by unfold_locales (auto simp: get_utf32_iff)

interpretation ucs2: canonical_codec "\<lambda>u. be_bytes 2 (unat u)" CBS_get_ucs2_be "\<lambda>u. unat u < 2 ^ 16 \<and> is_valid_code_point u"
  by unfold_locales (simp_all add: get_ucs2_iff)

end
