(* ===== verification/Ber_Props.thy ===== *)
theory Ber_Props
  imports Ber_Complete Unicode Bytestring_Props
begin

text \<open>
  The properties of the BER conversion and of the Unicode encodings, each with a witness on a concrete input
  where it has hypotheses.
\<close>

section \<open>BER\<close>

text \<open>C22: the BER conversion terminates: with one unit of fuel more than there are bytes of input it always returns,
  whatever the input, the depth and the outcome of the allocations, and it never moves the input backwards.\<close>

theorem ber_conversion_terminates:
  "\<exists>ok cbs' out'. cbs_convert_ber (Suc (CBS_len cbs)) A d string_tag eoc depth cbs out = Some (ok, cbs', out')
     \<and> CBS_len cbs' \<le> CBS_len cbs"
  using convert_returns [of cbs "Suc (CBS_len cbs)"] by (simp only: CBS_len_def)













section \<open>Unicode\<close>

text \<open>C27: the Unicode readers accept exactly the canonical encodings of valid code points (UTF-8 without overlong
  forms, surrogates or noncharacters; UCS-2 and UTF-32 big-endian), and what \<open>CBB_add_utf8\<close> appends, given
  room for \<open>CBB_get_utf8_len\<close> bytes, is read back by \<open>CBS_get_utf8\<close>.\<close>

theorem utf8_roundtrip:
  "(CBS_get_utf8 cbs = (Some w, rest) \<longleftrightarrow> is_valid_code_point w \<and> cbs = utf8 (unat w) @ rest) \<and>
   (CBS_get_utf32_be cbs = (Some w, rest) \<longleftrightarrow> is_valid_code_point w \<and> cbs = be_bytes 4 (unat w) @ rest) \<and>
   (CBS_get_ucs2_be cbs = (Some w, rest) \<longleftrightarrow> (unat w < 2 ^ 16 \<and> is_valid_code_point w) \<and> cbs = be_bytes 2 (unat w) @ rest) \<and>
   (is_valid_code_point u \<longrightarrow> ready A d (CBB_get_utf8_len u) cbb \<longrightarrow>
     (\<exists>cbb'. CBB_add_utf8 A d u cbb = (True, cbb') \<and>
        CBS_get_utf8 (drop (cb_len (cbb_base cbb)) (cb_bytes (cbb_base cbb')) @ rest) = (Some u, rest)))"
proof (intro conjI impI)
  assume u: "is_valid_code_point u" and r: "ready A d (CBB_get_utf8_len u) cbb"
  have "length (utf8 (unat u)) = CBB_get_utf8_len u" using valid_range [OF u] by (rule length_utf8)
  with appendsD' [OF appends_utf8 [OF u]] r
  obtain cbb' where c: "CBB_add_utf8 A d u cbb = (True, cbb')" "append_post A d (utf8 (unat u)) cbb cbb'" by metis
  then have "drop (cb_len (cbb_base cbb)) (cb_bytes (cbb_base cbb')) = utf8 (unat u)"
    using r by (simp add: append_post_def ready_def cbb_inv_def)
  with c u show "\<exists>cbb'. CBB_add_utf8 A d u cbb = (True, cbb') \<and>
      CBS_get_utf8 (drop (cb_len (cbb_base cbb)) (cb_bytes (cbb_base cbb')) @ rest) = (Some u, rest)"
    by (auto simp: get_utf8_iff)
qed (rule get_utf8_iff get_utf32_iff get_ucs2_iff)+

theorem utf8_roundtrip_witness:
  "is_valid_code_point 0x20ac \<and> ready demo_alloc 0 (CBB_get_utf8_len 0x20ac) (CBB_init_fixed (replicate 3 0)) \<and>
   (\<exists>c. CBB_add_utf8 demo_alloc 0 0x20ac (CBB_init_fixed (replicate 3 0)) = (True, c) \<and>
        CBS_get_utf8 (drop 0 (cb_bytes (cbb_base c)) @ [7]) = (Some 0x20ac, [7]))"
proof -
  have u: "is_valid_code_point 0x20ac" by (simp add: is_valid_code_point_def)
  have r: "ready demo_alloc 0 (CBB_get_utf8_len 0x20ac) (CBB_init_fixed (replicate 3 0))"
    by (rule ready_fixed) (simp_all add: size_mod_def CBB_get_utf8_len_def)
  have z: "cb_len (cbb_base (CBB_init_fixed (replicate 3 0))) = 0" by (simp add: CBB_init_fixed_def cbb_init_def)
  from utf8_roundtrip [of "[]" 0 "[7]" "0x20ac" demo_alloc 0 "CBB_init_fixed (replicate 3 0)"] u r
  show ?thesis unfolding z by blast
qed

end
