(* ===== verification/Stack.thy ===== *)
theory Stack
  imports Cbb_Asn1
begin

text \<open>
  \<open>crypto/stack/stack.c\<close>: the growable array of pointers behind every \<open>STACK_OF\<close>, with its in-place heap
  sort and its search.

  A pointer is an option, \<open>None\<close> being \<open>NULL\<close>; a stack argument that the code compares with \<open>NULL\<close> is an
  option as well, and an operation returns the stack it leaves behind. \<open>st_data\<close> is the whole allocated
  array, of which only the first \<open>st_num\<close> entries are live. The callbacks are arguments: the
  comparison with its trampoline \<open>call_cmp_func\<close>, the deletion predicate, and the copy and release
  functions, the last three acting on a state of the caller. \<open>junk\<close> is what uninitialised slots hold.
\<close>

section \<open>State\<close>

type_synonym 'a ptr = "'a option"

record ('a, 'c) OPENSSL_STACK =
  st_num :: nat
  st_data :: "'a ptr list"
  st_sorted :: bool
  st_num_alloc :: nat
  st_comp :: "'c option"

type_synonym ('a, 'c) cmp_caller = "'c \<Rightarrow> 'a ptr \<Rightarrow> 'a ptr \<Rightarrow> int"

definition sizeof_ptr :: nat where
  "sizeof_ptr = 8"

definition sizeof_stack :: nat where
  "sizeof_stack = 40"

definition kMinSize :: nat where
  "kMinSize = 4"

section \<open>The code\<close>

definition OPENSSL_sk_new :: "allocator \<Rightarrow> 'c option \<Rightarrow> ('a, 'c) OPENSSL_STACK option" where
  "OPENSSL_sk_new A compf =
     (case OPENSSL_zalloc A sizeof_stack of
        None \<Rightarrow> None
      | Some _ \<Rightarrow>
          (case OPENSSL_calloc A kMinSize sizeof_ptr of
             None \<Rightarrow> None
           | Some _ \<Rightarrow>
               Some \<lparr>st_num = 0, st_data = replicate kMinSize None, st_sorted = False,
                     st_num_alloc = kMinSize, st_comp = compf\<rparr>))"

definition OPENSSL_sk_new_null :: "allocator \<Rightarrow> ('a, 'c) OPENSSL_STACK option" where
  "OPENSSL_sk_new_null A = OPENSSL_sk_new A None"

definition OPENSSL_sk_num :: "('a, 'c) OPENSSL_STACK option \<Rightarrow> nat" where
  "OPENSSL_sk_num sk = (case sk of None \<Rightarrow> 0 | Some sk \<Rightarrow> st_num sk)"

definition OPENSSL_sk_zero :: "('a, 'c) OPENSSL_STACK option \<Rightarrow> ('a, 'c) OPENSSL_STACK option" where
  "OPENSSL_sk_zero sk =
     (case sk of
        None \<Rightarrow> None
      | Some sk \<Rightarrow>
          (if st_num sk = 0 then Some sk
           else Some (sk\<lparr>st_data := write_at 0 (replicate (st_num sk) None) (st_data sk),
                         st_num := 0, st_sorted := False\<rparr>)))"

definition OPENSSL_sk_value :: "('a, 'c) OPENSSL_STACK option \<Rightarrow> nat \<Rightarrow> 'a ptr" where
  "OPENSSL_sk_value sk i =
     (case sk of None \<Rightarrow> None | Some sk \<Rightarrow> if i \<ge> st_num sk then None else st_data sk ! i)"

definition OPENSSL_sk_set ::
  "('a, 'c) OPENSSL_STACK option \<Rightarrow> nat \<Rightarrow> 'a ptr \<Rightarrow> 'a ptr \<times> ('a, 'c) OPENSSL_STACK option" where
  "OPENSSL_sk_set sk i value =
     (case sk of
        None \<Rightarrow> (None, None)
      | Some sk \<Rightarrow>
          (if i \<ge> st_num sk then (None, Some sk)
           else (value, Some (sk\<lparr>st_data := (st_data sk)[i := value]\<rparr>))))"

text \<open>\<open>OPENSSL_sk_pop_free_ex\<close> is the sequence of calls of the release function.\<close>

fun pop_free_loop :: "('a ptr \<Rightarrow> 's \<Rightarrow> 's) \<Rightarrow> 'a ptr list \<Rightarrow> 's \<Rightarrow> 's" where
  "pop_free_loop free_func [] s = s"
| "pop_free_loop free_func (p # ps) s =
     pop_free_loop free_func ps (if p \<noteq> None then free_func p s else s)"

definition OPENSSL_sk_pop_free_ex ::
  "('a ptr \<Rightarrow> 's \<Rightarrow> 's) \<Rightarrow> ('a, 'c) OPENSSL_STACK option \<Rightarrow> 's \<Rightarrow> 's" where
  "OPENSSL_sk_pop_free_ex free_func sk s =
     (case sk of None \<Rightarrow> s | Some sk \<Rightarrow> pop_free_loop free_func (take (st_num sk) (st_data sk)) s)"

text \<open>The new capacity: twice the old one, else one more, else none, as \<open>size_t\<close> arithmetic allows.\<close>

definition sk_grown_size :: "nat \<Rightarrow> nat option" where
  "sk_grown_size num_alloc =
     (let new_alloc = size_mul num_alloc 2;
          alloc_size = size_mul new_alloc sizeof_ptr;
          new_alloc = (if new_alloc < num_alloc \<or> alloc_size div sizeof_ptr \<noteq> new_alloc
                       then size_add num_alloc 1 else new_alloc);
          alloc_size = size_mul new_alloc sizeof_ptr
      in if new_alloc < num_alloc \<or> alloc_size div sizeof_ptr \<noteq> new_alloc then None else Some new_alloc)"

definition realloc_ptrs :: "allocator \<Rightarrow> (nat \<Rightarrow> 'a ptr) \<Rightarrow> 'a ptr list \<Rightarrow> nat \<Rightarrow> 'a ptr list option" where
  "realloc_ptrs A junk data new_alloc =
     (case OPENSSL_malloc A (size_mul new_alloc sizeof_ptr) of
        None \<Rightarrow> None
      | Some _ \<Rightarrow> Some (write_at 0 (take new_alloc data) (map junk [0..<new_alloc])))"

definition sk_grow ::
  "allocator \<Rightarrow> (nat \<Rightarrow> 'a ptr) \<Rightarrow> ('a, 'c) OPENSSL_STACK \<Rightarrow> ('a, 'c) OPENSSL_STACK option" where
  "sk_grow A junk sk =
     (if st_num_alloc sk \<le> st_num sk + 1 then
        (case sk_grown_size (st_num_alloc sk) of
           None \<Rightarrow> None
         | Some new_alloc \<Rightarrow>
             (case realloc_ptrs A junk (st_data sk) new_alloc of
                None \<Rightarrow> None
              | Some data \<Rightarrow> Some (sk\<lparr>st_data := data, st_num_alloc := new_alloc\<rparr>)))
      else Some sk)"

definition OPENSSL_sk_insert ::
  "allocator \<Rightarrow> (nat \<Rightarrow> 'a ptr) \<Rightarrow> ('a, 'c) OPENSSL_STACK option \<Rightarrow> 'a ptr \<Rightarrow> nat \<Rightarrow>
   nat \<times> ('a, 'c) OPENSSL_STACK option" where
  "OPENSSL_sk_insert A junk sk p pos =
     (case sk of
        None \<Rightarrow> (0, None)
      | Some sk \<Rightarrow>
          (if st_num sk \<ge> INT_MAX then (0, Some sk)
           else case sk_grow A junk sk of
             None \<Rightarrow> (0, Some sk)
           | Some sk \<Rightarrow>
               (let data = (if pos \<ge> st_num sk then (st_data sk)[st_num sk := p]
                            else (write_at (pos + 1) (take (st_num sk - pos) (drop pos (st_data sk)))
                                    (st_data sk))[pos := p])
                in (st_num sk + 1,
                    Some (sk\<lparr>st_data := data, st_num := st_num sk + 1, st_sorted := False\<rparr>)))))"

definition OPENSSL_sk_delete ::
  "('a, 'c) OPENSSL_STACK option \<Rightarrow> nat \<Rightarrow> 'a ptr \<times> ('a, 'c) OPENSSL_STACK option" where
  "OPENSSL_sk_delete sk pos =
     (case sk of
        None \<Rightarrow> (None, None)
      | Some sk \<Rightarrow>
          (if pos \<ge> st_num sk then (None, Some sk)
           else
             (let ret = st_data sk ! pos;
                  data = (if pos \<noteq> st_num sk - 1
                          then write_at pos (take (st_num sk - pos - 1) (drop (pos + 1) (st_data sk))) (st_data sk)
                          else st_data sk)
              in (ret, Some (sk\<lparr>st_data := data, st_num := st_num sk - 1\<rparr>)))))"

text \<open>The position of the first live element with a given property.\<close>

fun first_index :: "('a \<Rightarrow> bool) \<Rightarrow> nat \<Rightarrow> 'a list \<Rightarrow> nat option" where
  "first_index P i [] = None"
| "first_index P i (x # xs) = (if P x then Some i else first_index P (i + 1) xs)"

definition OPENSSL_sk_delete_ptr ::
  "('a, 'c) OPENSSL_STACK option \<Rightarrow> 'a ptr \<Rightarrow> 'a ptr \<times> ('a, 'c) OPENSSL_STACK option" where
  "OPENSSL_sk_delete_ptr sk p =
     (case sk of
        None \<Rightarrow> (None, None)
      | Some sk' \<Rightarrow>
          (case first_index (\<lambda>x. x = p) 0 (take (st_num sk') (st_data sk')) of
             Some i \<Rightarrow> OPENSSL_sk_delete sk i
           | None \<Rightarrow> (None, sk)))"

function delete_if_loop ::
  "('a ptr \<Rightarrow> 's \<Rightarrow> bool \<times> 's) \<Rightarrow> nat \<Rightarrow> nat \<Rightarrow> nat \<Rightarrow> 'a ptr list \<Rightarrow> 's \<Rightarrow> nat \<times> 'a ptr list \<times> 's" where
  "delete_if_loop func n i new_num data s =
     (if i < n then
        (case func (data ! i) s of
           (True, s) \<Rightarrow> delete_if_loop func n (i + 1) new_num data s
         | (False, s) \<Rightarrow> delete_if_loop func n (i + 1) (new_num + 1) (data[new_num := data ! i]) s)
      else (new_num, data, s))"
  by pat_completeness auto
termination
  by (relation "measure (\<lambda>(func, n, i, new_num, data, s). n - i)") auto

declare delete_if_loop.simps [simp del]

definition OPENSSL_sk_delete_if ::
  "('a ptr \<Rightarrow> 's \<Rightarrow> bool \<times> 's) \<Rightarrow> ('a, 'c) OPENSSL_STACK option \<Rightarrow> 's \<Rightarrow> ('a, 'c) OPENSSL_STACK option \<times> 's" where
  "OPENSSL_sk_delete_if func sk s =
     (case sk of
        None \<Rightarrow> (None, s)
      | Some sk \<Rightarrow>
          (case delete_if_loop func (st_num sk) 0 0 (st_data sk) s of
             (new_num, data, s) \<Rightarrow> (Some (sk\<lparr>st_data := data, st_num := new_num\<rparr>), s)))"

definition OPENSSL_sk_is_sorted :: "('a, 'c) OPENSSL_STACK option \<Rightarrow> bool" where
  "OPENSSL_sk_is_sorted sk =
     (case sk of None \<Rightarrow> True | Some sk \<Rightarrow> st_sorted sk \<or> (st_comp sk \<noteq> None \<and> st_num sk < 2))"

function find_loop :: "('a \<Rightarrow> 'a \<Rightarrow> int) \<Rightarrow> 'a \<Rightarrow> 'a list \<Rightarrow> nat \<Rightarrow> nat \<Rightarrow> nat option" where
  "find_loop cmp p data lo hi =
     (if lo < hi then
        (let mid = lo + (hi - lo - 1) div 2;
             r = cmp p (data ! mid)
         in if r > 0 then find_loop cmp p data (mid + 1) hi
            else if r < 0 then find_loop cmp p data lo mid
            else if hi - lo = 1 then Some mid
            else find_loop cmp p data lo (mid + 1))
      else None)"
  by pat_completeness auto
termination
  by (relation "measure (\<lambda>(cmp, p, data, lo, hi). hi - lo)") (auto simp: Let_def)

declare find_loop.simps [simp del]

definition OPENSSL_sk_find ::
  "('a, 'c) cmp_caller \<Rightarrow> ('a, 'c) OPENSSL_STACK option \<Rightarrow> 'a ptr \<Rightarrow> nat option" where
  "OPENSSL_sk_find call_cmp_func sk p =
     (case sk of
        None \<Rightarrow> None
      | Some sk' \<Rightarrow>
          (case st_comp sk' of
             None \<Rightarrow> first_index (\<lambda>x. x = p) 0 (take (st_num sk') (st_data sk'))
           | Some compf \<Rightarrow>
               (if p = None then None
                else if \<not> OPENSSL_sk_is_sorted sk then
                  first_index (\<lambda>x. call_cmp_func compf p x = 0) 0 (take (st_num sk') (st_data sk'))
                else find_loop (call_cmp_func compf) p (st_data sk') 0 (st_num sk'))))"

definition OPENSSL_sk_shift ::
  "('a, 'c) OPENSSL_STACK option \<Rightarrow> 'a ptr \<times> ('a, 'c) OPENSSL_STACK option" where
  "OPENSSL_sk_shift sk =
     (case sk of
        None \<Rightarrow> (None, None)
      | Some sk' \<Rightarrow> (if st_num sk' = 0 then (None, sk) else OPENSSL_sk_delete sk 0))"

text \<open>\<open>OPENSSL_sk_push\<close> reads \<open>sk->num\<close> before the call, so its stack is never \<open>NULL\<close>.\<close>

definition OPENSSL_sk_push ::
  "allocator \<Rightarrow> (nat \<Rightarrow> 'a ptr) \<Rightarrow> ('a, 'c) OPENSSL_STACK \<Rightarrow> 'a ptr \<Rightarrow>
   nat \<times> ('a, 'c) OPENSSL_STACK option" where
  "OPENSSL_sk_push A junk sk p = OPENSSL_sk_insert A junk (Some sk) p (st_num sk)"

definition OPENSSL_sk_pop ::
  "('a, 'c) OPENSSL_STACK option \<Rightarrow> 'a ptr \<times> ('a, 'c) OPENSSL_STACK option" where
  "OPENSSL_sk_pop sk =
     (case sk of
        None \<Rightarrow> (None, None)
      | Some sk' \<Rightarrow> (if st_num sk' = 0 then (None, sk) else OPENSSL_sk_delete sk (st_num sk' - 1)))"

definition OPENSSL_sk_dup ::
  "allocator \<Rightarrow> ('a, 'c) OPENSSL_STACK option \<Rightarrow> ('a, 'c) OPENSSL_STACK option" where
  "OPENSSL_sk_dup A sk =
     (case sk of
        None \<Rightarrow> None
      | Some sk \<Rightarrow>
          (case OPENSSL_zalloc A sizeof_stack of
             None \<Rightarrow> None
           | Some _ \<Rightarrow>
               (if size_mul sizeof_ptr (st_num_alloc sk) = 0 then None
                else case OPENSSL_malloc A (size_mul sizeof_ptr (st_num_alloc sk)) of
                       None \<Rightarrow> None
                     | Some _ \<Rightarrow>
                         Some \<lparr>st_num = st_num sk, st_data = take (st_num_alloc sk) (st_data sk),
                               st_sorted = st_sorted sk, st_num_alloc = st_num_alloc sk,
                               st_comp = st_comp sk\<rparr>)))"

definition parent_idx :: "nat \<Rightarrow> nat" where
  "parent_idx idx = (idx - 1) div 2"

definition left_idx :: "nat \<Rightarrow> nat" where
  "left_idx idx = 2 * idx + 1"

definition largest_child :: "('a \<Rightarrow> 'a \<Rightarrow> int) \<Rightarrow> nat \<Rightarrow> nat \<Rightarrow> 'a list \<Rightarrow> nat" where
  "largest_child cmp i n data =
     (let left = left_idx i;
          nxt = (if cmp (data ! i) (data ! left) < 0 then left else i);
          right = left + 1
      in if right < n \<and> cmp (data ! nxt) (data ! right) < 0 then right else nxt)"

lemma largest_child_cases: "largest_child cmp i n data \<in> {i, left_idx i, left_idx i + 1}"
  by (auto simp: largest_child_def Let_def)

function down_heap :: "('a \<Rightarrow> 'a \<Rightarrow> int) \<Rightarrow> nat \<Rightarrow> nat \<Rightarrow> 'a list \<Rightarrow> 'a list" where
  "down_heap cmp i n data =
     (if left_idx i \<ge> n then data
      else
        (let nxt = largest_child cmp i n data
         in if i = nxt then data
            else down_heap cmp nxt n (data[i := data ! nxt, nxt := data ! i])))"
  by pat_completeness auto
termination
proof (relation "measure (\<lambda>(cmp, i, n, data). n - i)")
  fix cmp :: "'a \<Rightarrow> 'a \<Rightarrow> int" and i n data x
  assume "\<not> n \<le> left_idx i" "x = largest_child cmp i n data" "i \<noteq> x"
  then show "((cmp, x, n, data[i := data ! x, x := data ! i]), cmp, i, n, data)
      \<in> measure (\<lambda>(cmp, i, n, data). n - i)"
    using largest_child_cases [of cmp i n data] by (auto simp: left_idx_def)
qed simp

declare down_heap.simps [simp del]

text \<open>The two loops of the sort; the first runs its index from \<open>i\<close> down past 0.\<close>

fun build_heap_loop :: "('a \<Rightarrow> 'a \<Rightarrow> int) \<Rightarrow> nat \<Rightarrow> nat \<Rightarrow> 'a list \<Rightarrow> 'a list" where
  "build_heap_loop cmp n 0 data = down_heap cmp 0 n data"
| "build_heap_loop cmp n (Suc i) data = build_heap_loop cmp n i (down_heap cmp (Suc i) n data)"

fun extract_loop :: "('a \<Rightarrow> 'a \<Rightarrow> int) \<Rightarrow> nat \<Rightarrow> 'a list \<Rightarrow> 'a list" where
  "extract_loop cmp 0 data = data"
| "extract_loop cmp (Suc i) data =
     extract_loop cmp i (down_heap cmp 0 (Suc i) (data[0 := data ! Suc i, Suc i := data ! 0]))"

definition OPENSSL_sk_sort ::
  "('a, 'c) cmp_caller \<Rightarrow> ('a, 'c) OPENSSL_STACK option \<Rightarrow> ('a, 'c) OPENSSL_STACK option" where
  "OPENSSL_sk_sort call_cmp_func sk =
     (case sk of
        None \<Rightarrow> None
      | Some sk \<Rightarrow>
          (case st_comp sk of
             None \<Rightarrow> Some sk
           | Some compf \<Rightarrow>
               (if st_sorted sk then Some sk
                else
                  (let cmp = call_cmp_func compf; n = st_num sk;
                       data = (if n \<ge> 2
                               then extract_loop cmp (n - 1) (build_heap_loop cmp n (parent_idx (n - 1)) (st_data sk))
                               else st_data sk)
                   in Some (sk\<lparr>st_data := data, st_sorted := True\<rparr>)))))"

definition OPENSSL_sk_set_cmp_func ::
  "('a, 'c) OPENSSL_STACK \<Rightarrow> 'c option \<Rightarrow> 'c option \<times> ('a, 'c) OPENSSL_STACK" where
  "OPENSSL_sk_set_cmp_func sk compf =
     (st_comp sk,
      sk\<lparr>st_sorted := (if st_comp sk \<noteq> compf then False else st_sorted sk), st_comp := compf\<rparr>)"

text \<open>The copying loop; when a copy fails, the copies made before it are released.\<close>

fun deep_copy_loop ::
  "('a ptr \<Rightarrow> 's \<Rightarrow> 'a ptr \<times> 's) \<Rightarrow> ('a ptr \<Rightarrow> 's \<Rightarrow> 's) \<Rightarrow> 'a ptr list \<Rightarrow> 'a ptr list \<Rightarrow> 's \<Rightarrow>
   'a ptr list option \<times> 's" where
  "deep_copy_loop copy_func free_func copied [] s = (Some copied, s)"
| "deep_copy_loop copy_func free_func copied (p # ps) s =
     (if p = None then deep_copy_loop copy_func free_func (copied @ [None]) ps s
      else case copy_func p s of
        (None, s) \<Rightarrow> (None, pop_free_loop free_func copied s)
      | (Some q, s) \<Rightarrow> deep_copy_loop copy_func free_func (copied @ [Some q]) ps s)"

definition OPENSSL_sk_deep_copy ::
  "allocator \<Rightarrow> ('a ptr \<Rightarrow> 's \<Rightarrow> 'a ptr \<times> 's) \<Rightarrow> ('a ptr \<Rightarrow> 's \<Rightarrow> 's) \<Rightarrow> ('a, 'c) OPENSSL_STACK option \<Rightarrow> 's \<Rightarrow>
   ('a, 'c) OPENSSL_STACK option \<times> 's" where
  "OPENSSL_sk_deep_copy A copy_func free_func sk s =
     (case OPENSSL_sk_dup A sk of
        None \<Rightarrow> (None, s)
      | Some ret \<Rightarrow>
          (case deep_copy_loop copy_func free_func [] (take (st_num ret) (st_data ret)) s of
             (None, s) \<Rightarrow> (None, s)
           | (Some copies, s) \<Rightarrow> (Some (ret\<lparr>st_data := write_at 0 copies (st_data ret)\<rparr>), s)))"

end
