(* ===== verification/Stack_Correct.thy ===== *)
theory Stack_Correct
  imports Stack
begin

text \<open>
  Correctness of \<open>Stack\<close>: the live elements as a list, what every operation does to that list, the
  heap sort and the binary search over a comparison that is a total preorder with antisymmetric
  signs, and the invariant that ties the \<open>sorted\<close> flag to the order of the elements.
\<close>

section \<open>Comparisons with a sign\<close>

locale sign_comparison = comparison +
  assumes cmp_flip: "cmp x y \<le> 0 \<longleftrightarrow> 0 \<le> cmp y x"
begin

lemma cmp_refl: "cmp x x \<le> 0"
  using cmp_total [of x x] by simp

lemma not_less_ge: "\<not> cmp x y < 0 \<Longrightarrow> cmp y x \<le> 0"
  using cmp_flip [of y x] by simp

lemma less_trans: "cmp x y < 0 \<Longrightarrow> cmp y z \<le> 0 \<Longrightarrow> cmp x z < 0"
  using cmp_flip [of z x] cmp_flip [of y x] cmp_trans [of y z x] by linarith

lemma greater_trans: "0 < cmp x y \<Longrightarrow> cmp z y \<le> 0 \<Longrightarrow> 0 < cmp x z"
  using cmp_trans [of x z y] by linarith

end

interpretation set_of_sign: sign_comparison compare_set_of_element
  by unfold_locales (rule compare_swap)

section \<open>Searching\<close>

text \<open>The result of a search for the first match in a range of positions.\<close>

definition first_match :: "('a \<Rightarrow> bool) \<Rightarrow> 'a list \<Rightarrow> nat \<Rightarrow> nat \<Rightarrow> nat option \<Rightarrow> bool" where
  "first_match P xs lo hi r \<longleftrightarrow>
     (case r of
        None \<Rightarrow> \<forall>j. lo \<le> j \<and> j < hi \<longrightarrow> \<not> P (xs ! j)
      | Some i \<Rightarrow> lo \<le> i \<and> i < hi \<and> P (xs ! i) \<and> (\<forall>j. lo \<le> j \<and> j < i \<longrightarrow> \<not> P (xs ! j)))"

lemma first_match_skip:
  "first_match P xs m hi r \<Longrightarrow> lo \<le> m \<Longrightarrow> (\<And>j. lo \<le> j \<Longrightarrow> j < m \<Longrightarrow> \<not> P (xs ! j)) \<Longrightarrow> first_match P xs lo hi r"
  unfolding first_match_def by (auto split: option.splits) (meson not_le)+

lemma first_match_cut:
  "first_match P xs lo m r \<Longrightarrow> m \<le> hi \<Longrightarrow> (\<And>j. m \<le> j \<Longrightarrow> j < hi \<Longrightarrow> \<not> P (xs ! j)) \<Longrightarrow> first_match P xs lo hi r"
  unfolding first_match_def by (auto split: option.splits) (meson not_le)+

lemma first_match_hit:
  "first_match P xs lo (m + 1) r \<Longrightarrow> P (xs ! m) \<Longrightarrow> lo \<le> m \<Longrightarrow> m < hi \<Longrightarrow> first_match P xs lo hi r"
  unfolding first_match_def by (auto split: option.splits)

lemma first_match_unique: "first_match P xs lo hi r \<Longrightarrow> first_match P xs lo hi r' \<Longrightarrow> r = r'"
  unfolding first_match_def by (auto split: option.splits) (meson linorder_neqE_nat)+

lemma first_index_match: "first_match P xs 0 (length xs) (first_index P 0 xs)"
proof -
  have "first_match P (ys @ xs) (length ys) (length (ys @ xs)) (first_index P (length ys) xs)" for ys
  proof (induction xs arbitrary: ys)
    case (Cons x xs)
    show ?case
    proof (cases "P x")
      case False
      have "first_match P (ys @ x # xs) (Suc (length ys)) (length (ys @ x # xs)) (first_index P (Suc (length ys)) xs)"
        using Cons.IH [of "ys @ [x]"] by simp
      moreover have "j = length ys" if "length ys \<le> j" "j < Suc (length ys)" for j using that by simp
      ultimately have "first_match P (ys @ x # xs) (length ys) (length (ys @ x # xs)) (first_index P (Suc (length ys)) xs)"
        using False by (metis first_match_skip le_SucI nth_append_length order_refl)
      then show ?thesis using False by simp
    qed (auto simp: first_match_def)
  qed (auto simp: first_match_def)
  from this [of "[]"] show ?thesis by simp
qed

lemma first_match_take: "hi \<le> n \<Longrightarrow> first_match P (take n xs) lo hi r = first_match P xs lo hi r"
  unfolding first_match_def by (auto split: option.splits)

section \<open>Heaps in arrays\<close>

definition heap_from :: "('a \<Rightarrow> 'a \<Rightarrow> int) \<Rightarrow> nat \<Rightarrow> 'a list \<Rightarrow> bool" where
  "heap_from cmp lo xs \<longleftrightarrow>
     (\<forall>j. 0 < j \<and> j < length xs \<and> lo \<le> parent_idx j \<longrightarrow> cmp (xs ! j) (xs ! parent_idx j) \<le> 0)"

text \<open>Position \<open>i\<close> may be smaller than its children, but these fit below the parent of \<open>i\<close>.\<close>

definition heap_except :: "('a \<Rightarrow> 'a \<Rightarrow> int) \<Rightarrow> nat \<Rightarrow> nat \<Rightarrow> 'a list \<Rightarrow> bool" where
  "heap_except cmp lo i xs \<longleftrightarrow>
     (\<forall>j. 0 < j \<and> j < length xs \<and> lo \<le> parent_idx j \<and> parent_idx j \<noteq> i \<longrightarrow>
          cmp (xs ! j) (xs ! parent_idx j) \<le> 0) \<and>
     (\<forall>j. 0 < j \<and> j < length xs \<and> parent_idx j = i \<and> 0 < i \<and> lo \<le> parent_idx i \<longrightarrow>
          cmp (xs ! j) (xs ! parent_idx i) \<le> 0)"

lemma parent_of_child: "0 < j \<Longrightarrow> parent_idx j = i \<longleftrightarrow> j = left_idx i \<or> j = left_idx i + 1"
  unfolding parent_idx_def left_idx_def by linarith

lemma parent_less: "0 < j \<Longrightarrow> parent_idx j < j"
  unfolding parent_idx_def by linarith

lemma mset_swap_list:
  "i < length xs \<Longrightarrow> j < length xs \<Longrightarrow> mset (xs[i := xs ! j, j := xs ! i]) = mset xs"
  by (cases "i = j") (simp_all add: mset_swap)

lemma largest_child_less: "left_idx i < n \<Longrightarrow> i < n \<Longrightarrow> largest_child cmp i n data < n"
  by (auto simp: largest_child_def Let_def)

lemma down_heap_stop: "n \<le> left_idx i \<Longrightarrow> down_heap cmp i n xs = xs"
  by (simp add: down_heap.simps)

lemma down_heap_stay: "largest_child cmp i n xs = i \<Longrightarrow> down_heap cmp i n xs = xs"
  by (simp add: down_heap.simps Let_def)

lemma down_heap_step:
  "left_idx i < n \<Longrightarrow> k = largest_child cmp i n xs \<Longrightarrow> k \<noteq> i \<Longrightarrow>
   down_heap cmp i n xs = down_heap cmp k n (xs[i := xs ! k, k := xs ! i])"
  by (subst down_heap.simps) (simp add: Let_def)

lemma mset_down_heap:
  "i < n \<Longrightarrow> n \<le> length xs \<Longrightarrow> mset (down_heap cmp i n xs) = mset xs"
proof (induction cmp i n xs rule: down_heap.induct)
  case (1 cmp i n xs)
  let ?k = "largest_child cmp i n xs"
  show ?case
  proof (cases "left_idx i < n \<and> ?k \<noteq> i")
    case True
    then have "?k < n" using largest_child_less 1(2) by blast
    then have "mset (down_heap cmp ?k n (xs[i := xs ! ?k, ?k := xs ! i])) = mset xs"
      using 1(1) [OF _ refl] 1(2,3) True by (simp add: mset_swap_list not_le)
    then show ?thesis using True down_heap_step [of i n ?k cmp xs] by simp
  qed (auto simp: down_heap_stop down_heap_stay not_less)
qed

lemma length_down_heap [simp]: "length (down_heap cmp i n xs) = length xs"
proof (induction cmp i n xs rule: down_heap.induct)
  case (1 cmp i n xs)
  show ?case
  proof (cases "left_idx i < n \<and> largest_child cmp i n xs \<noteq> i")
    case True
    then show ?thesis using 1 down_heap_step [of i n _ cmp xs] by (simp add: not_le)
  qed (auto simp: down_heap_stop down_heap_stay not_less)
qed

lemma largest_child_append:
  "left_idx i < n \<Longrightarrow> n \<le> length xs \<Longrightarrow> largest_child cmp i n (xs @ ys) = largest_child cmp i n xs"
  by (simp add: largest_child_def Let_def nth_append left_idx_def)

lemma down_heap_append:
  "i < n \<Longrightarrow> n \<le> length xs \<Longrightarrow> down_heap cmp i n (xs @ ys) = down_heap cmp i n xs @ ys"
proof (induction cmp i n xs rule: down_heap.induct)
  case (1 cmp i n xs)
  let ?k = "largest_child cmp i n xs"
  show ?case
  proof (cases "left_idx i < n")
    case left: True
    note lc = largest_child_append [OF left 1(3), of cmp ys]
    show ?thesis
    proof (cases "?k = i")
      case False
      have k: "?k < n" using largest_child_less left 1(2) by blast
      have "(xs @ ys)[i := (xs @ ys) ! ?k, ?k := (xs @ ys) ! i] = xs[i := xs ! ?k, ?k := xs ! i] @ ys"
        using k 1(2,3) by (simp add: nth_append list_update_append)
      then show ?thesis
        using 1(1) [OF _ refl] left False k 1(3) lc
          down_heap_step [of i n ?k cmp xs] down_heap_step [of i n ?k cmp "xs @ ys"] by (simp add: not_le)
    qed (simp add: lc down_heap_stay)
  qed (simp add: down_heap_stop)
qed

context sign_comparison
begin

lemma largest_child_max:
  assumes "left_idx i < length xs" "k = largest_child cmp i (length xs) xs"
  shows "cmp (xs ! i) (xs ! k) \<le> 0" "cmp (xs ! left_idx i) (xs ! k) \<le> 0"
    and "left_idx i + 1 < length xs \<Longrightarrow> cmp (xs ! (left_idx i + 1)) (xs ! k) \<le> 0"
  unfolding assms(2) largest_child_def Let_def
  using cmp_refl not_less_ge cmp_trans by (auto split: if_splits) (meson less_le_not_le linorder_le_cases order_less_imp_le)+

lemma heap_except_step:
  assumes he: "heap_except cmp lo i xs" and l: "left_idx i < length xs" and "lo \<le> i"
    and k: "k = largest_child cmp i (length xs) xs" "k \<noteq> i"
  shows "heap_except cmp lo k (xs[i := xs ! k, k := xs ! i])"
proof -
  let ?ys = "xs[i := xs ! k, k := xs ! i]"
  have kc: "k = left_idx i \<or> k = left_idx i + 1" using largest_child_cases [of cmp i "length xs" xs] k by auto
  have il: "i < length xs" using l by (simp add: left_idx_def)
  have kl: "k < length xs" using largest_child_less [OF l il] k by simp
  have ik: "i < k" using kc by (auto simp: left_idx_def)
  have pk: "parent_idx k = i" using parent_of_child [of k i] kc ik by auto
  note mx = largest_child_max [OF l k(1)]
  have ysk: "?ys ! k = xs ! i" and ysi: "?ys ! i = xs ! k" using il kl ik by simp_all
  have ys: "?ys ! j = xs ! j" if "j \<noteq> i" "j \<noteq> k" for j using that by simp
  have sib: "cmp (xs ! j) (xs ! k) \<le> 0" if "0 < j" "j < length xs" "parent_idx j = i" for j
    using parent_of_child [OF that(1), of i] that(2,3) mx(2,3) by auto
  show ?thesis
    unfolding heap_except_def length_list_update
  proof (intro conjI allI impI; elim conjE)
    fix j assume j: "0 < j" "j < length xs" "lo \<le> parent_idx j" "parent_idx j \<noteq> k"
    show "cmp (?ys ! j) (?ys ! parent_idx j) \<le> 0"
    proof (cases "parent_idx j = i")
      case True
      then have "j \<noteq> i" using parent_less [OF j(1)] by simp
      then show ?thesis using True sib [OF j(1,2) True] mx(1) ysk ysi ys by (cases "j = k") auto
    next
      case False
      then have jk: "j \<noteq> k" using pk by auto
      show ?thesis
      proof (cases "j = i")
        case True
        then have "cmp (xs ! k) (xs ! parent_idx i) \<le> 0"
          using he j kl ik pk unfolding heap_except_def by auto
        then show ?thesis using True ysi ys False j(4) by simp
      next
        case ji: False
        then show ?thesis using he j False jk ys unfolding heap_except_def by simp
      qed
    qed
  next
    fix j assume j: "0 < j" "j < length xs" "parent_idx j = k" "0 < k" "lo \<le> parent_idx k"
    have "cmp (xs ! j) (xs ! k) \<le> 0" using he j ik \<open>lo \<le> i\<close> unfolding heap_except_def by auto
    then show "cmp (?ys ! j) (?ys ! parent_idx k) \<le> 0"
      using ys [of j] parent_less [OF j(1)] j ik pk ysi by auto
  qed
qed

lemma heap_from_down_heap:
  "heap_except cmp lo i xs \<Longrightarrow> lo \<le> i \<Longrightarrow> i < length xs \<Longrightarrow> heap_from cmp lo (down_heap cmp i (length xs) xs)"
proof (induction "length xs - i" arbitrary: i xs rule: less_induct)
  case less
  let ?k = "largest_child cmp i (length xs) xs"
  show ?case
  proof (cases "left_idx i < length xs")
    case left: True
    show ?thesis
    proof (cases "?k = i")
      case True
      then have "heap_from cmp lo xs"
        using less.prems(1) largest_child_max [OF left refl] parent_of_child
        unfolding heap_from_def heap_except_def by metis
      then show ?thesis using True by (simp add: down_heap_stay)
    next
      case False
      have k: "?k < length xs" using largest_child_less [OF left less.prems(3)] .
      have ik: "i < ?k" using largest_child_cases [of cmp i "length xs" xs] False by (auto simp: left_idx_def)
      show ?thesis
        using less.hyps [of "xs[i := xs ! ?k, ?k := xs ! i]" ?k] heap_except_step [OF less.prems(1) left less.prems(2) refl False]
          down_heap_step [OF left refl False] k ik less.prems(2) by simp
    qed
  next
    case False
    then have "parent_idx j \<noteq> i" if "0 < j" "j < length xs" for j
      using parent_of_child [of j i] that by auto
    then show ?thesis
      using less.prems(1) False unfolding heap_from_def heap_except_def by (simp add: down_heap_stop)
  qed
qed

lemma heap_build: "heap_from cmp (Suc i) xs \<Longrightarrow> i < length xs \<Longrightarrow> heap_from cmp 0 (build_heap_loop cmp (length xs) i xs)"
proof (induction i arbitrary: xs)
  case 0
  then have "heap_except cmp 0 0 xs"
    unfolding heap_from_def heap_except_def by (simp add: Suc_le_eq)
  then show ?case using heap_from_down_heap [of 0 0 xs] 0 by simp
next
  case (Suc i)
  have "heap_except cmp (Suc i) (Suc i) xs"
    using Suc.prems(1) unfolding heap_from_def heap_except_def parent_idx_def by auto
  then have "heap_from cmp (Suc i) (down_heap cmp (Suc i) (length xs) xs)"
    using heap_from_down_heap Suc.prems(2) by blast
  then show ?case using Suc.IH [of "down_heap cmp (Suc i) (length xs) xs"] Suc.prems(2) by simp
qed

lemma heap_root: "heap_from cmp 0 xs \<Longrightarrow> j < length xs \<Longrightarrow> cmp (xs ! j) (xs ! 0) \<le> 0"
proof (induction j rule: less_induct)
  case (less j)
  show ?case
  proof (cases "j = 0")
    case False
    then have "cmp (xs ! j) (xs ! parent_idx j) \<le> 0" "cmp (xs ! parent_idx j) (xs ! 0) \<le> 0"
      using less parent_less [of j] unfolding heap_from_def by auto
    then show ?thesis by (rule cmp_trans)
  qed (simp add: cmp_refl)
qed

lemma heap_except_root:
  "heap_from cmp 0 (x # xs) \<Longrightarrow> length ys = length xs \<Longrightarrow> \<forall>j. 0 < j \<and> j < length ys \<longrightarrow> ys ! j = (x # xs) ! j \<Longrightarrow>
   heap_except cmp 0 0 ys"
  unfolding heap_from_def heap_except_def by (auto simp: parent_idx_def)

lemma extract_sorts:
  "length hs = Suc i \<Longrightarrow> heap_from cmp 0 hs \<Longrightarrow> sorted_wrt (\<lambda>a b. cmp a b \<le> 0) ss \<Longrightarrow>
   \<forall>x\<in>set hs. \<forall>y\<in>set ss. cmp x y \<le> 0 \<Longrightarrow>
   sorted_wrt (\<lambda>a b. cmp a b \<le> 0) (extract_loop cmp i (hs @ ss)) \<and> mset (extract_loop cmp i (hs @ ss)) = mset (hs @ ss)"
proof (induction i arbitrary: hs ss)
  case 0
  then obtain x where "hs = [x]" by (auto simp: length_Suc_conv)
  then show ?case using 0 by simp
next
  case (Suc i)
  then obtain hs' z where "hs = hs' @ [z]" "length hs' = Suc i" by (cases hs rule: rev_cases) auto
  then obtain x us where hs: "hs = (x # us) @ [z]" and us: "length us = i" by (cases hs') auto
  let ?ts = "down_heap cmp 0 (Suc i) (z # us)"
  have swap: "(hs @ ss)[0 := (hs @ ss) ! Suc i, Suc i := (hs @ ss) ! 0] = (z # us) @ x # ss"
    using us by (simp add: hs nth_append list_update_append)
  have loop: "extract_loop cmp (Suc i) (hs @ ss) = extract_loop cmp i (?ts @ x # ss)"
    using us by (simp only: extract_loop.simps swap) (simp add: down_heap_append [of 0 "Suc i" "z # us", simplified])
  have mts: "mset ?ts = add_mset z (mset us)" using mset_down_heap [of 0 "Suc i" "z # us" cmp] us by simp
  then have sts: "set ?ts = insert z (set us)" by (metis set_mset_mset set_mset_add_mset_insert)
  have "heap_except cmp 0 0 (z # us)"
    using Suc.prems(2) by (intro heap_except_root [of x "us @ [z]"]) (auto simp: hs nth_append nth_Cons')
  then have heap: "heap_from cmp 0 ?ts" using heap_from_down_heap [of 0 0 "z # us"] us by simp
  have root: "cmp y x \<le> 0" if "y \<in> set hs" for y
  proof -
    obtain j where "j < length hs" "hs ! j = y" using \<open>y \<in> set hs\<close> by (auto simp: in_set_conv_nth)
    then show ?thesis using heap_root [OF Suc.prems(2), of j] by (simp add: hs)
  qed
  have "sorted_wrt (\<lambda>a b. cmp a b \<le> 0) (x # ss)" "\<forall>a\<in>set ?ts. \<forall>b\<in>set (x # ss). cmp a b \<le> 0"
    using Suc.prems(3,4) root unfolding sts by (auto simp: hs)
  then show ?case
    using Suc.IH [of ?ts "x # ss"] heap us mts loop by (simp add: hs)
qed

lemma mset_build: "i < length xs \<Longrightarrow> mset (build_heap_loop cmp (length xs) i xs) = mset xs"
proof (induction i arbitrary: xs)
  case (Suc i)
  then show ?case using Suc.IH [of "down_heap cmp (Suc i) (length xs) xs"] by (simp add: mset_down_heap)
qed (simp add: mset_down_heap)

text \<open>The heap sort as the code runs it, on the live part of the array.\<close>

lemma heap_sort_correct:
  assumes "2 \<le> length xs"
  defines "ys \<equiv> extract_loop cmp (length xs - 1) (build_heap_loop cmp (length xs) (parent_idx (length xs - 1)) xs)"
  shows "sorted_wrt (\<lambda>a b. cmp a b \<le> 0) ys" "mset ys = mset xs"
proof -
  let ?p = "parent_idx (length xs - 1)"
  have p: "?p < length xs" using assms(1) by (simp add: parent_idx_def)
  have "heap_from cmp (Suc ?p) xs" unfolding heap_from_def parent_idx_def by (auto simp: Suc_le_eq)
  then have h: "heap_from cmp 0 (build_heap_loop cmp (length xs) ?p xs)" using heap_build p by blast
  have m: "mset (build_heap_loop cmp (length xs) ?p xs) = mset xs" using mset_build [OF p] .
  then have "length (build_heap_loop cmp (length xs) ?p xs) = Suc (length xs - 1)"
    using assms(1) mset_eq_length by fastforce
  from extract_sorts [OF this h, of "[]"] m
  show "sorted_wrt (\<lambda>a b. cmp a b \<le> 0) ys" "mset ys = mset xs" by (simp_all add: ys_def)
qed

lemma find_loop_first:
  assumes sorted: "sorted_wrt (\<lambda>a b. cmp a b \<le> 0) xs"
  shows "hi \<le> length xs \<Longrightarrow> first_match (\<lambda>x. cmp p x = 0) xs lo hi (find_loop cmp p xs lo hi)"
proof (induction "hi - lo" arbitrary: lo hi rule: less_induct)
  case less
  show ?case
  proof (cases "lo < hi")
    case True
    define mid where "mid = lo + (hi - lo - 1) div 2"
    have mid: "lo \<le> mid" "mid < hi" "mid < length xs" using True less.prems by (auto simp: mid_def)
    have ord: "cmp (xs ! i) (xs ! j) \<le> 0" if "i \<le> j" "j < length xs" for i j
      using that sorted_wrt_nth_less [OF sorted, of i j] cmp_refl by (cases "i = j") auto
    consider "0 < cmp p (xs ! mid)" | "cmp p (xs ! mid) < 0" | "cmp p (xs ! mid) = 0" "hi - lo = 1"
      | "cmp p (xs ! mid) = 0" "hi - lo \<noteq> 1" by linarith
    then show ?thesis
    proof cases
      case 1
      have "cmp p (xs ! j) \<noteq> 0" if "j \<le> mid" for j
        using greater_trans [OF 1 ord [OF that mid(3)]] by simp
      moreover have "find_loop cmp p xs lo hi = find_loop cmp p xs (mid + 1) hi"
        using True 1 by (subst find_loop.simps) (simp add: mid_def Let_def)
      moreover have "first_match (\<lambda>x. cmp p x = 0) xs (mid + 1) hi (find_loop cmp p xs (mid + 1) hi)"
        using less.hyps [of hi "mid + 1"] less.prems mid True by simp
      ultimately show ?thesis using mid first_match_skip [of _ xs "mid + 1"] by simp
    next
      case 2
      have "cmp p (xs ! j) \<noteq> 0" if "mid \<le> j" "j < hi" for j
        using less_trans [OF 2 ord [of mid j]] that less.prems by simp
      moreover have "find_loop cmp p xs lo hi = find_loop cmp p xs lo mid"
        using True 2 by (subst find_loop.simps) (simp add: mid_def Let_def)
      moreover have "first_match (\<lambda>x. cmp p x = 0) xs lo mid (find_loop cmp p xs lo mid)"
        using less.hyps [of mid lo] less.prems mid True by simp
      ultimately show ?thesis using mid first_match_cut [of _ xs lo mid] by simp
    next
      case 3
      then have "find_loop cmp p xs lo hi = Some mid" "mid = lo"
        using True by (subst find_loop.simps, simp_all add: mid_def Let_def)
      then show ?thesis using 3 True unfolding first_match_def by simp
    next
      case 4
      have "find_loop cmp p xs lo hi = find_loop cmp p xs lo (mid + 1)"
        using True 4 by (subst find_loop.simps) (simp add: mid_def Let_def)
      moreover have "mid + 1 < hi" using 4 True by (simp add: mid_def)
      moreover have "first_match (\<lambda>x. cmp p x = 0) xs lo (mid + 1) (find_loop cmp p xs lo (mid + 1))"
        using less.hyps [of "mid + 1" lo] less.prems mid \<open>mid + 1 < hi\<close> by simp
      ultimately show ?thesis using mid 4 first_match_hit [of _ xs lo mid] by simp
    qed
  next
    case False
    then show ?thesis by (subst find_loop.simps) (simp add: first_match_def)
  qed
qed

end

section \<open>The live elements\<close>

definition sk_list :: "('a, 'c) OPENSSL_STACK \<Rightarrow> 'a ptr list" where
  "sk_list sk = take (st_num sk) (st_data sk)"

definition sk_wf :: "('a, 'c) OPENSSL_STACK \<Rightarrow> bool" where
  "sk_wf sk \<longleftrightarrow>
     length (st_data sk) = st_num_alloc sk \<and> st_num sk \<le> st_num_alloc sk \<and> st_num sk \<le> INT_MAX \<and>
     0 < st_num_alloc sk \<and> st_num_alloc sk * sizeof_ptr < size_mod"

lemma length_sk_list [simp]: "sk_wf sk \<Longrightarrow> length (sk_list sk) = st_num sk"
  by (simp add: sk_wf_def sk_list_def)

text \<open>What an operation leaves: the array may have grown, the elements are \<open>xs\<close>.\<close>

definition sk_becomes :: "('a, 'c) OPENSSL_STACK \<Rightarrow> 'a ptr list \<Rightarrow> bool \<Rightarrow> ('a, 'c) OPENSSL_STACK option \<Rightarrow> bool" where
  "sk_becomes sk xs s r \<longleftrightarrow>
     (\<exists>sk'. r = Some sk' \<and> sk_wf sk' \<and> sk_list sk' = xs \<and> st_sorted sk' = s \<and> st_comp sk' = st_comp sk)"

lemma sk_becomesI:
  "r = Some sk' \<Longrightarrow> sk_wf sk' \<Longrightarrow> sk_list sk' = xs \<Longrightarrow> st_sorted sk' = s \<Longrightarrow> st_comp sk' = st_comp sk \<Longrightarrow>
   sk_becomes sk xs s r"
  unfolding sk_becomes_def by blast

lemma new_becomes:
  "OPENSSL_sk_new A c = Some sk \<Longrightarrow> sk_wf sk \<and> sk_list sk = [] \<and> \<not> st_sorted sk \<and> st_comp sk = c"
  by (auto simp: OPENSSL_sk_new_def sk_wf_def sk_list_def kMinSize_def sizeof_ptr_def size_mod_def split: option.splits)

lemma zero_becomes: "sk_wf sk \<Longrightarrow> sk_becomes sk [] (st_sorted sk \<and> st_num sk = 0) (OPENSSL_sk_zero (Some sk))"
  by (auto simp: OPENSSL_sk_zero_def sk_becomes_def sk_wf_def sk_list_def)

lemma value_spec: "OPENSSL_sk_value (Some sk) i = (if i < st_num sk then sk_list sk ! i else None)"
  by (simp add: OPENSSL_sk_value_def sk_list_def)

lemma set_becomes:
  "sk_wf sk \<Longrightarrow> i < st_num sk \<Longrightarrow>
   fst (OPENSSL_sk_set (Some sk) i p) = p \<and> sk_becomes sk ((sk_list sk)[i := p]) (st_sorted sk) (snd (OPENSSL_sk_set (Some sk) i p))"
  by (auto simp: OPENSSL_sk_set_def sk_becomes_def sk_wf_def sk_list_def take_update_swap)

lemma grown_size:
  assumes "sk_grown_size n = Some m" "0 < n" "n < size_mod"
  shows "n + 1 \<le> m \<and> m * sizeof_ptr < size_mod"
proof -
  show ?thesis
  proof (cases "size_mul n 2 < n \<or> size_mul (size_mul n 2) sizeof_ptr div sizeof_ptr \<noteq> size_mul n 2")
    case True
    then have m: "m = size_add n 1" "n \<le> size_add n 1" "size_mul m sizeof_ptr div sizeof_ptr = m"
      using assms(1) by (auto simp: sk_grown_size_def Let_def split: if_splits)
    then have "m = n + 1" using assms(2,3) by (cases "n + 1 = size_mod") (auto simp: size_add_def)
    then show ?thesis using size_mul_div_exact [OF m(3)] by simp
  next
    case False
    then have m: "m = size_mul n 2" "n \<le> size_mul n 2" "size_mul m sizeof_ptr div sizeof_ptr = m"
      using assms(1) by (auto simp: sk_grown_size_def Let_def split: if_splits)
    have "n * 2 < size_mod"
    proof (rule ccontr)
      assume "\<not> n * 2 < size_mod"
      then have "n * 2 mod size_mod = (n * 2 - size_mod) mod size_mod" by (simp add: le_mod_geq)
      also have "\<dots> \<le> n * 2 - size_mod" by simp
      finally show False using m(2) assms(3) \<open>\<not> n * 2 < size_mod\<close> by (simp add: size_mul_def)
    qed
    then have "m = n * 2" using m(1) by (simp add: size_mul_def)
    then show ?thesis using size_mul_div_exact [OF m(3)] assms(2) by simp
  qed
qed

text \<open>The growth step of an insertion keeps the elements and makes room for one more.\<close>

lemma sk_grow_ok:
  assumes "sk_grow A junk sk = Some sk'" "sk_wf sk"
  shows "sk_wf sk' \<and> sk_list sk' = sk_list sk \<and> st_num sk' = st_num sk \<and> st_num sk < st_num_alloc sk' \<and>
         st_comp sk' = st_comp sk"
proof (cases "st_num_alloc sk \<le> st_num sk + 1")
  case True
  then obtain m data where m: "sk_grown_size (st_num_alloc sk) = Some m"
    and d: "realloc_ptrs A junk (st_data sk) m = Some data" and sk': "sk' = sk\<lparr>st_data := data, st_num_alloc := m\<rparr>"
    using assms(1) by (auto simp: sk_grow_def split: option.splits)
  have b: "st_num_alloc sk + 1 \<le> m" "m * sizeof_ptr < size_mod"
    using grown_size [OF m] assms(2) by (auto simp: sk_wf_def sizeof_ptr_def)
  have "data = st_data sk @ drop (st_num_alloc sk) (map junk [0..<m])"
    using d b assms(2) by (auto simp: realloc_ptrs_def write_at_def sk_wf_def split: option.splits)
  then show ?thesis using sk' b assms(2) by (auto simp: sk_wf_def sk_list_def)
next
  case False
  then show ?thesis using assms by (auto simp: sk_grow_def)
qed

definition list_insert :: "nat \<Rightarrow> 'a \<Rightarrow> 'a list \<Rightarrow> 'a list" where
  "list_insert i x xs = take i xs @ x # drop i xs"

lemma insert_array:
  assumes "n < length d"
  shows "take (n + 1) (if n \<le> i then d[n := p] else (write_at (i + 1) (take (n - i) (drop i d)) d)[i := p])
         = list_insert i p (take n d)"
proof (cases "n \<le> i")
  case True
  then show ?thesis using assms by (simp add: list_insert_def take_Suc_conv_app_nth list_update_append)
next
  case False
  have "(write_at (i + 1) (take (n - i) (drop i d)) d)[i := p] = take i d @ p # take (n - i) (drop i d) @ drop (n + 1) d"
    using False assms by (simp add: write_at_def take_Suc_conv_app_nth list_update_append)
  moreover have "Suc n - i = Suc (n - i)" using False by simp
  ultimately show ?thesis using False assms by (simp add: list_insert_def drop_take)
qed

text \<open>An insertion either fails and changes nothing or inserts at the position, at the end when the position is beyond it.\<close>

lemma insert_becomes:
  assumes "sk_wf sk"
  shows "OPENSSL_sk_insert A junk (Some sk) p pos = (0, Some sk) \<or>
         (\<exists>r. OPENSSL_sk_insert A junk (Some sk) p pos = (st_num sk + 1, r) \<and>
              sk_becomes sk (list_insert pos p (sk_list sk)) False r)"
proof (cases "INT_MAX \<le> st_num sk \<or> sk_grow A junk sk = None")
  case False
  then obtain sk' where g: "sk_grow A junk sk = Some sk'" by auto
  note ok = sk_grow_ok [OF g assms]
  have n: "st_num sk < length (st_data sk')" using ok by (simp add: sk_wf_def)
  show ?thesis
    using False g ok insert_array [OF n, of pos p] n
    by (intro disjI2) (auto simp: OPENSSL_sk_insert_def Let_def sk_becomes_def sk_wf_def sk_list_def write_at_def)
qed (auto simp: OPENSSL_sk_insert_def Let_def)

lemma grown_size_small: "0 < n \<Longrightarrow> n \<le> INT_MAX + 1 \<Longrightarrow> sk_grown_size n = Some (n * 2)"
  by (simp add: sk_grown_size_def Let_def size_mul_exact INT_MAX_def size_mod_def sizeof_ptr_def)

lemma insert_granted_sk:
  assumes wf: "sk_wf sk" and n: "st_num sk < INT_MAX" and m: "\<forall>k. malloc_ok A k"
  shows "OPENSSL_sk_insert A junk (Some sk) p pos \<noteq> (0, Some sk)"
proof -
  have "sk_grow A junk sk \<noteq> None"
  proof (cases "st_num_alloc sk \<le> st_num sk + 1")
    case True
    then have "sk_grown_size (st_num_alloc sk) = Some (st_num_alloc sk * 2)"
      using wf n by (intro grown_size_small) (auto simp: sk_wf_def)
    moreover have "OPENSSL_malloc A (size_mul (st_num_alloc sk * 2) sizeof_ptr) \<noteq> None"
      using m True n by (simp add: OPENSSL_malloc_def OPENSSL_MALLOC_PREFIX_def size_mul_exact size_add_exact sizeof_ptr_def INT_MAX_def size_mod_def)
    ultimately show ?thesis using True by (auto simp: sk_grow_def realloc_ptrs_def)
  qed (simp add: sk_grow_def)
  then show ?thesis using n by (auto simp: OPENSSL_sk_insert_def Let_def)
qed

lemma delete_array:
  assumes "i < n" "n \<le> length d"
  shows "take (n - 1) (if i \<noteq> n - 1 then write_at i (take (n - i - 1) (drop (i + 1) d)) d else d)
         = take i (take n d) @ drop (i + 1) (take n d)"
proof -
  have "take (n - i - 1) (drop (i + 1) d) = drop (i + 1) (take n d)" by (simp add: drop_take)
  then show ?thesis using assms by (auto simp: write_at_def min_def)
qed

lemma delete_becomes:
  assumes "sk_wf sk" "pos < st_num sk"
  shows "fst (OPENSSL_sk_delete (Some sk) pos) = sk_list sk ! pos \<and>
         sk_becomes sk (take pos (sk_list sk) @ drop (pos + 1) (sk_list sk)) (st_sorted sk) (snd (OPENSSL_sk_delete (Some sk) pos))"
proof -
  have n: "st_num sk \<le> length (st_data sk)" using assms by (simp add: sk_wf_def)
  show ?thesis
    using assms delete_array [OF assms(2) n]
    by (auto simp: OPENSSL_sk_delete_def sk_becomes_def sk_wf_def sk_list_def Let_def write_at_def)
qed

lemma delete_out_of_range: "st_num sk \<le> pos \<Longrightarrow> OPENSSL_sk_delete (Some sk) pos = (None, Some sk)"
  by (simp add: OPENSSL_sk_delete_def)

text \<open>\<open>OPENSSL_sk_delete_if\<close> for a predicate without effects keeps the elements that do not satisfy it.\<close>

lemma delete_if_loop_filter:
  assumes "\<And>x s. func x s = (P x, g s x)"
  shows "n \<le> length data \<Longrightarrow> k \<le> i \<Longrightarrow> i \<le> n \<Longrightarrow>
   \<exists>data'. delete_if_loop func n i k data s = (k + length (filter (\<lambda>x. \<not> P x) (drop i (take n data))), data', foldl g s (drop i (take n data))) \<and>
     length data' = length data \<and>
     take (k + length (filter (\<lambda>x. \<not> P x) (drop i (take n data)))) data' = take k data @ filter (\<lambda>x. \<not> P x) (drop i (take n data))"
proof (induction "n - i" arbitrary: i k data s)
  case 0
  then show ?case by (subst delete_if_loop.simps) simp
next
  case (Suc m)
  then have i: "i < n" "i < length data" by auto
  have d: "drop i (take n data) = data ! i # drop (Suc i) (take n data)"
    using i Cons_nth_drop_Suc [of i "take n data"] by simp
  show ?case
  proof (cases "P (data ! i)")
    case True
    then show ?thesis
      using Suc.hyps(1) [of "Suc i" data k "g s (data ! i)"] Suc.hyps(2) Suc.prems i assms d by (subst delete_if_loop.simps) simp
  next
    case False
    let ?data = "data[k := data ! i]"
    have k: "k < length data" using Suc.prems i by simp
    have "drop (Suc i) (take n ?data) = drop (Suc i) (take n data)" "take (Suc k) ?data = take k data @ [data ! i]"
      using Suc.prems k by (auto simp: take_Suc_conv_app_nth list_update_append take_update_swap drop_update_cancel)
    then show ?thesis
      using Suc.hyps(1) [of "Suc i" ?data "Suc k" "g s (data ! i)"] Suc.hyps(2) Suc.prems i assms d False
      by (subst delete_if_loop.simps) simp
  qed
qed

lemma delete_if_folds:
  assumes "sk_wf sk" "\<And>x s. func x s = (P x, g s x)"
  shows "\<exists>r. OPENSSL_sk_delete_if func (Some sk) s = (r, foldl g s (sk_list sk)) \<and>
    sk_becomes sk (filter (\<lambda>x. \<not> P x) (sk_list sk)) (st_sorted sk) r"
proof -
  have n: "st_num sk \<le> length (st_data sk)" using assms by (simp add: sk_wf_def)
  obtain data where d: "delete_if_loop func (st_num sk) 0 0 (st_data sk) s =
      (length (filter (\<lambda>x. \<not> P x) (sk_list sk)), data, foldl g s (sk_list sk))" "length data = length (st_data sk)"
      "take (length (filter (\<lambda>x. \<not> P x) (sk_list sk))) data = filter (\<lambda>x. \<not> P x) (sk_list sk)"
    using delete_if_loop_filter [of func P g, OF assms(2) n, of 0 0 s] by (auto simp: sk_list_def)
  let ?sk = "sk\<lparr>st_data := data, st_num := length (filter (\<lambda>x. \<not> P x) (sk_list sk))\<rparr>"
  have "length (filter (\<lambda>x. \<not> P x) (sk_list sk)) \<le> st_num sk"
    using length_filter_le [of _ "sk_list sk"] assms(1) by simp
  then have "sk_becomes sk (filter (\<lambda>x. \<not> P x) (sk_list sk)) (st_sorted sk) (Some ?sk)"
    using d assms(1) by (intro sk_becomesI [OF _ _ _ _, of _ ?sk]) (auto simp: sk_wf_def sk_list_def)
  then show ?thesis using d(1) by (simp add: OPENSSL_sk_delete_if_def)
qed

lemma delete_if_becomes:
  assumes "sk_wf sk" "\<And>x s. func x s = (P x, s)"
  shows "sk_becomes sk (filter (\<lambda>x. \<not> P x) (sk_list sk)) (st_sorted sk) (fst (OPENSSL_sk_delete_if func (Some sk) s))"
  using delete_if_folds [of sk func P "\<lambda>s x. s" s] assms by auto

lemma delete_if_traces:
  assumes "sk_wf sk"
  shows "\<exists>r. OPENSSL_sk_delete_if (\<lambda>x seen. (P x, seen @ [x])) (Some sk) seen = (r, seen @ sk_list sk) \<and>
    sk_becomes sk (filter (\<lambda>x. \<not> P x) (sk_list sk)) (st_sorted sk) r"
proof -
  have "foldl (\<lambda>seen x. seen @ [x]) ys xs = ys @ xs" for ys xs :: "'a ptr list"
    by (induction xs arbitrary: ys) simp_all
  then show ?thesis using delete_if_folds [of sk _ P "\<lambda>seen x. seen @ [x]" seen, OF assms] by simp
qed

section \<open>Sorting and searching a stack\<close>

lemma build_append: "i < n \<Longrightarrow> n \<le> length xs \<Longrightarrow> build_heap_loop cmp n i (xs @ ys) = build_heap_loop cmp n i xs @ ys"
  by (induction i arbitrary: xs) (simp_all add: down_heap_append)

lemma extract_append: "i < length xs \<Longrightarrow> extract_loop cmp i (xs @ ys) = extract_loop cmp i xs @ ys"
proof (induction i arbitrary: xs)
  case (Suc i)
  let ?xs = "xs[0 := xs ! Suc i, Suc i := xs ! 0]"
  have "(xs @ ys)[0 := (xs @ ys) ! Suc i, Suc i := (xs @ ys) ! 0] = ?xs @ ys"
    using Suc.prems by (cases xs) (simp_all add: nth_append list_update_append)
  then show ?case using Suc by (simp add: down_heap_append)
qed simp

lemma length_build [simp]: "length (build_heap_loop cmp n i xs) = length xs"
  by (induction i arbitrary: xs) simp_all

lemma length_extract [simp]: "length (extract_loop cmp i xs) = length xs"
  by (induction i arbitrary: xs) simp_all

definition sk_ordered :: "('a, 'c) cmp_caller \<Rightarrow> ('a, 'c) OPENSSL_STACK \<Rightarrow> bool" where
  "sk_ordered call sk \<longleftrightarrow> (\<exists>c. st_comp sk = Some c \<and> sorted_wrt (\<lambda>a b. call c a b \<le> 0) (sk_list sk))"

lemma sort_becomes:
  assumes wf: "sk_wf sk" and c: "st_comp sk = Some c" "\<not> st_sorted sk" and cmp: "sign_comparison (call c)"
  shows "\<exists>xs. sk_becomes sk xs True (OPENSSL_sk_sort call (Some sk)) \<and> mset xs = mset (sk_list sk) \<and>
              sorted_wrt (\<lambda>a b. call c a b \<le> 0) xs"
proof (cases "2 \<le> st_num sk")
  case True
  let ?xs = "sk_list sk" and ?n = "st_num sk"
  let ?ys = "extract_loop (call c) (?n - 1) (build_heap_loop (call c) ?n (parent_idx (?n - 1)) ?xs)"
  have len: "length ?xs = ?n" using wf by simp
  have d: "st_data sk = ?xs @ drop ?n (st_data sk)" by (simp add: sk_list_def)
  have p: "parent_idx (?n - 1) < ?n" using True by (simp add: parent_idx_def)
  have "extract_loop (call c) (?n - 1) (build_heap_loop (call c) ?n (parent_idx (?n - 1)) (st_data sk)) = ?ys @ drop ?n (st_data sk)"
    using True len p by (subst d) (simp add: build_append extract_append)
  then have "sk_becomes sk ?ys True (OPENSSL_sk_sort call (Some sk))"
    using c True wf len by (auto simp: OPENSSL_sk_sort_def sk_becomes_def sk_wf_def sk_list_def Let_def)
  then show ?thesis using sign_comparison.heap_sort_correct [OF cmp, of ?xs] True len by auto
next
  case False
  then have "sorted_wrt (\<lambda>a b. call c a b \<le> 0) (sk_list sk)"
    using length_sk_list [OF wf] by (cases "sk_list sk" rule: list.exhaust; cases "tl (sk_list sk)") auto
  then show ?thesis
    using False c wf by (intro exI [of _ "sk_list sk"]) (auto simp: OPENSSL_sk_sort_def sk_becomes_def sk_wf_def sk_list_def Let_def)
qed

text \<open>The predicate a search looks for.\<close>

definition sk_matches :: "('a, 'c) cmp_caller \<Rightarrow> ('a, 'c) OPENSSL_STACK \<Rightarrow> 'a ptr \<Rightarrow> 'a ptr \<Rightarrow> bool" where
  "sk_matches call sk p x \<longleftrightarrow> (case st_comp sk of None \<Rightarrow> x = p | Some c \<Rightarrow> p \<noteq> None \<and> call c p x = 0)"

definition sk_inv :: "('a, 'c) cmp_caller \<Rightarrow> ('a, 'c) OPENSSL_STACK \<Rightarrow> bool" where
  "sk_inv call sk \<longleftrightarrow> sk_wf sk \<and> (st_sorted sk \<longrightarrow> sk_ordered call sk)"

lemma find_loop_take: "hi \<le> n \<Longrightarrow> find_loop cmp p (take n xs) lo hi = find_loop cmp p xs lo hi"
proof (induction "hi - lo" arbitrary: lo hi rule: less_induct)
  case less
  have mid: "lo + (hi - lo - 1) div 2 < n" if "lo < hi" using that less.prems by linarith
  show ?case
    using less mid by (subst (1 2) find_loop.simps) (simp add: Let_def)
qed

lemma first_index_False: "\<forall>x\<in>set xs. \<not> P x \<Longrightarrow> first_index P i xs = None"
  by (induction xs arbitrary: i) auto

lemma find_is_first:
  assumes inv: "sk_inv call sk" and cmp: "\<And>c. st_comp sk = Some c \<Longrightarrow> sign_comparison (call c)"
  shows "OPENSSL_sk_find call (Some sk) p = first_index (sk_matches call sk p) 0 (sk_list sk)"
proof (cases "st_comp sk")
  case None
  then have "sk_matches call sk p = (\<lambda>x. x = p)" by (auto simp: sk_matches_def)
  then show ?thesis using None by (simp add: OPENSSL_sk_find_def sk_list_def)
next
  case (Some c)
  have mt: "sk_matches call sk p = (\<lambda>x. p \<noteq> None \<and> call c p x = 0)" using Some by (auto simp: sk_matches_def)
  have wf: "sk_wf sk" using inv by (simp add: sk_inv_def)
  show ?thesis
  proof (cases "p = None \<or> \<not> OPENSSL_sk_is_sorted (Some sk)")
    case True
    then show ?thesis using Some by (auto simp: OPENSSL_sk_find_def mt sk_list_def first_index_False)
  next
    case False
    have "sorted_wrt (\<lambda>a b. call c a b \<le> 0) (sk_list sk)"
    proof (cases "st_sorted sk")
      case True
      then show ?thesis using inv Some by (auto simp: sk_inv_def sk_ordered_def)
    next
      case unsorted: False
      then have "length (sk_list sk) < 2" using False wf by (simp add: OPENSSL_sk_is_sorted_def)
      then show ?thesis by (cases "sk_list sk" rule: list.exhaust; cases "tl (sk_list sk)") auto
    qed
    note fl = sign_comparison.find_loop_first [OF cmp [OF Some] this, of "st_num sk" p 0]
    have eq: "find_loop (call c) p (st_data sk) 0 (st_num sk) = find_loop (call c) p (sk_list sk) 0 (st_num sk)"
      by (simp add: sk_list_def find_loop_take)
    show ?thesis
      using fl wf False Some first_match_unique [OF fl, of "first_index (\<lambda>x. call c p x = 0) 0 (sk_list sk)"]
        first_index_match [of "\<lambda>x. call c p x = 0" "sk_list sk"]
      by (auto simp: OPENSSL_sk_find_def eq mt)
  qed
qed

section \<open>The invariant along every sequence of operations\<close>

text \<open>
  One step of a client: any operation that changes a stack. The label says whether the step overwrote an element
  in place, which only \<open>OPENSSL_sk_set\<close> does; it leaves the \<open>sorted\<close> flag alone.
\<close>

inductive sk_step ::
  "allocator \<Rightarrow> (nat \<Rightarrow> 'a ptr) \<Rightarrow> ('a, 'c) cmp_caller \<Rightarrow> bool \<Rightarrow> ('a, 'c) OPENSSL_STACK \<Rightarrow> ('a, 'c) OPENSSL_STACK \<Rightarrow> bool"
  for A junk call where
  step_zero: "OPENSSL_sk_zero (Some sk) = Some sk' \<Longrightarrow> sk_step A junk call False sk sk'"
| step_insert: "OPENSSL_sk_insert A junk (Some sk) p pos = (r, Some sk') \<Longrightarrow> sk_step A junk call False sk sk'"
| step_push: "OPENSSL_sk_push A junk sk p = (r, Some sk') \<Longrightarrow> sk_step A junk call False sk sk'"
| step_delete: "OPENSSL_sk_delete (Some sk) pos = (q, Some sk') \<Longrightarrow> sk_step A junk call False sk sk'"
| step_delete_ptr: "OPENSSL_sk_delete_ptr (Some sk) p = (q, Some sk') \<Longrightarrow> sk_step A junk call False sk sk'"
| step_delete_if: "OPENSSL_sk_delete_if func (Some sk) () = (Some sk', ()) \<Longrightarrow> sk_step A junk call False sk sk'"
| step_shift: "OPENSSL_sk_shift (Some sk) = (q, Some sk') \<Longrightarrow> sk_step A junk call False sk sk'"
| step_pop: "OPENSSL_sk_pop (Some sk) = (q, Some sk') \<Longrightarrow> sk_step A junk call False sk sk'"
| step_dup: "OPENSSL_sk_dup A (Some sk) = Some sk' \<Longrightarrow> sk_step A junk call False sk sk'"
| step_sort: "OPENSSL_sk_sort call (Some sk) = Some sk' \<Longrightarrow> sk_step A junk call False sk sk'"
| step_set_cmp_func: "OPENSSL_sk_set_cmp_func sk c = (old, sk') \<Longrightarrow> sk_step A junk call False sk sk'"
| step_set: "OPENSSL_sk_set (Some sk) i p = (q, Some sk') \<Longrightarrow> sk_step A junk call (i < st_num sk) sk sk'"

text \<open>
  The stacks a client can reach from \<open>OPENSSL_sk_new\<close>, with the history that matters for the flag: whether an
  element has been overwritten since the flag was last clear.
\<close>

inductive sk_reach ::
  "allocator \<Rightarrow> (nat \<Rightarrow> 'a ptr) \<Rightarrow> ('a, 'c) cmp_caller \<Rightarrow> bool \<Rightarrow> ('a, 'c) OPENSSL_STACK \<Rightarrow> bool"
  for A junk call where
  reach_new: "OPENSSL_sk_new A c = Some sk \<Longrightarrow> sk_reach A junk call False sk"
| reach_step: "sk_reach A junk call stale sk \<Longrightarrow> sk_step A junk call w sk sk' \<Longrightarrow>
    sk_reach A junk call ((stale \<or> w) \<and> st_sorted sk') sk'"

lemma inv_becomes:
  assumes "sk_becomes sk xs s (Some sk')"
    and "\<And>c. s \<Longrightarrow> st_comp sk = Some c \<Longrightarrow> sorted_wrt (\<lambda>a b. call c a b \<le> 0) xs" "s \<Longrightarrow> st_comp sk \<noteq> None"
  shows "sk_inv call sk'"
  using assms unfolding sk_becomes_def sk_inv_def sk_ordered_def by auto

lemma sorted_wrt_delete: "sorted_wrt P xs \<Longrightarrow> sorted_wrt P (take i xs @ drop (i + 1) xs)"
proof (cases "i < length xs")
  case True
  assume "sorted_wrt P xs"
  then have "sorted_wrt P (take i xs @ xs ! i # drop (Suc i) xs)" using id_take_nth_drop [OF True] by metis
  then show ?thesis by (simp add: sorted_wrt_append)
qed simp

lemma inv_delete: "sk_inv call sk \<Longrightarrow> OPENSSL_sk_delete (Some sk) pos = (q, Some sk') \<Longrightarrow> sk_inv call sk'"
proof (cases "pos < st_num sk")
  case True
  assume inv: "sk_inv call sk" and eq: "OPENSSL_sk_delete (Some sk) pos = (q, Some sk')"
  have "sk_becomes sk (take pos (sk_list sk) @ drop (pos + 1) (sk_list sk)) (st_sorted sk) (Some sk')"
    using delete_becomes [OF _ True] inv eq by (simp add: sk_inv_def)
  then show "sk_inv call sk'"
    by (rule inv_becomes) (use inv sorted_wrt_delete in \<open>auto simp: sk_inv_def sk_ordered_def simp del: One_nat_def\<close>)
qed (simp add: delete_out_of_range)

lemma inv_insert: "sk_inv call sk \<Longrightarrow> OPENSSL_sk_insert A junk (Some sk) p pos = (r, Some sk') \<Longrightarrow> sk_inv call sk'"
  using insert_becomes [of sk A junk p pos] by (auto simp: sk_inv_def sk_becomes_def)

lemma first_index_less: "first_index P i xs = Some k \<Longrightarrow> k < i + length xs"
proof (induction xs arbitrary: i)
  case (Cons x xs)
  then show ?case using Cons.IH [of "i + 1"] by (auto split: if_splits)
qed simp

lemma inv_delete_if:
  assumes "sk_inv call sk" "OPENSSL_sk_delete_if func (Some sk) () = (Some sk', ())"
  shows "sk_inv call sk'"
proof -
  have "func x s = (fst (func x ()), s)" for x s by (cases "func x ()") simp
  then have "sk_becomes sk (filter (\<lambda>x. \<not> fst (func x ())) (sk_list sk)) (st_sorted sk) (Some sk')"
    using delete_if_becomes [of sk func "\<lambda>x. fst (func x ())" "()"] assms by (simp add: sk_inv_def)
  then show ?thesis
    using assms(1) by (elim inv_becomes) (auto simp: sk_inv_def sk_ordered_def sorted_wrt_filter)
qed

lemma inv_sort:
  assumes "sk_inv call sk" "\<And>c. sign_comparison (call c)" "OPENSSL_sk_sort call (Some sk) = Some sk'"
  shows "sk_inv call sk'"
proof (cases "st_comp sk = None \<or> st_sorted sk")
  case True
  then show ?thesis using assms by (auto simp: OPENSSL_sk_sort_def split: option.splits)
next
  case False
  then obtain c where c: "st_comp sk = Some c" "\<not> st_sorted sk" by auto
  obtain xs where "sk_becomes sk xs True (Some sk')" "sorted_wrt (\<lambda>a b. call c a b \<le> 0) xs"
    using sort_becomes [of sk c call, OF _ c assms(2)] assms(1,3) by (auto simp: sk_inv_def)
  then show ?thesis using c by (intro inv_becomes [of sk xs True sk']) auto
qed

lemma sk_inv_step:
  assumes "sk_step A junk call w sk sk'" "\<not> w" "sk_inv call sk" "\<And>c. sign_comparison (call c)"
  shows "sk_inv call sk'"
  using assms(1)
proof cases
  case step_zero
  then show ?thesis using assms(3) zero_becomes [of sk]
    by (auto simp: sk_inv_def sk_ordered_def sk_becomes_def sk_wf_def)
next
  case (step_insert p pos r)
  then show ?thesis using inv_insert assms(3) by blast
next
  case (step_push p r)
  then show ?thesis using inv_insert assms(3) by (auto simp: OPENSSL_sk_push_def)
next
  case (step_delete pos q)
  then show ?thesis using inv_delete assms(3) by blast
next
  case (step_delete_ptr p q)
  then show ?thesis using inv_delete assms(3) by (auto simp: OPENSSL_sk_delete_ptr_def split: option.splits)
next
  case (step_delete_if func)
  then show ?thesis using inv_delete_if assms(3) by blast
next
  case (step_shift q)
  then show ?thesis using inv_delete assms(3) by (auto simp: OPENSSL_sk_shift_def split: if_splits)
next
  case (step_pop q)
  then show ?thesis using inv_delete assms(3) by (auto simp: OPENSSL_sk_pop_def split: if_splits)
next
  case step_dup
  then have "sk' = sk" using assms(3) by (auto simp: OPENSSL_sk_dup_def sk_inv_def sk_wf_def split: option.splits if_splits)
  then show ?thesis using assms(3) by simp
next
  case step_sort
  then show ?thesis using inv_sort assms(3,4) by blast
next
  case (step_set_cmp_func c old)
  then show ?thesis using assms(3)
    by (auto simp: OPENSSL_sk_set_cmp_func_def sk_inv_def sk_ordered_def sk_wf_def sk_list_def split: if_splits)
next
  case (step_set i p q)
  then have "sk' = sk" using assms(2) by (simp add: OPENSSL_sk_set_def)
  then show ?thesis using assms(3) by simp
qed

text \<open>Without the order: what remains true of a stack whose elements are overwritten.\<close>

definition sk_sound :: "('a, 'c) OPENSSL_STACK \<Rightarrow> bool" where
  "sk_sound sk \<longleftrightarrow> sk_wf sk \<and> (st_sorted sk \<longrightarrow> st_comp sk \<noteq> None)"

lemma sk_inv_sound: "sk_inv call sk \<Longrightarrow> sk_sound sk"
  by (auto simp: sk_inv_def sk_sound_def sk_ordered_def)

lemma sk_sound_trivial: "sk_sound sk \<Longrightarrow> sk_inv (\<lambda>_ _ _. 0) sk"
  by (auto simp: sk_inv_def sk_sound_def sk_ordered_def sorted_wrt_iff_nth_less)

lemma trivial_sign: "sign_comparison (\<lambda>_ _. 0)"
  by unfold_locales auto

text \<open>On a stack whose flag is set no operation calls the comparison.\<close>

lemma sk_step_sorted:
  "sk_step A junk call w sk sk' \<Longrightarrow> st_sorted sk \<Longrightarrow> sk_step A junk call' w sk sk'"
proof (induction rule: sk_step.induct)
  case (step_sort sk sk')
  then have "OPENSSL_sk_sort call' (Some sk) = Some sk'" by (auto simp: OPENSSL_sk_sort_def split: option.splits)
  then show ?case by (rule sk_step.step_sort)
qed (auto intro: sk_step.intros)

lemma sk_sound_step:
  assumes "sk_step A junk call w sk sk'" "sk_sound sk" "\<And>c. sign_comparison (call c)"
  shows "sk_sound sk'"
proof (cases w)
  case True
  with assms(1) obtain i p q where "OPENSSL_sk_set (Some sk) i p = (q, Some sk')" "i < st_num sk"
    by cases auto
  then show ?thesis using assms(2) set_becomes [of sk i p]
    by (auto simp: sk_sound_def sk_becomes_def)
next
  case False
  show ?thesis
  proof (cases "st_sorted sk")
    case True
    from sk_step_sorted [OF assms(1) this] have "sk_step A junk (\<lambda>_ _ _. 0) w sk sk'" .
    from sk_inv_step [OF this False sk_sound_trivial [OF assms(2)] trivial_sign] show ?thesis by (rule sk_inv_sound)
  next
    case unsorted: False
    then have "sk_inv call sk" using assms(2) by (simp add: sk_inv_def sk_sound_def)
    from sk_inv_step [OF assms(1) False this assms(3)] show ?thesis by (rule sk_inv_sound)
  qed
qed

lemma sk_reach_inv:
  assumes "sk_reach A junk call stale sk" "\<And>c. sign_comparison (call c)"
  shows "sk_sound sk \<and> (\<not> stale \<longrightarrow> sk_inv call sk)"
  using assms(1)
proof induction
  case (reach_new c sk)
  then show ?case using new_becomes [of A c sk] by (simp add: sk_inv_def sk_sound_def)
next
  case (reach_step stale sk w sk')
  then have s: "sk_sound sk'" using sk_sound_step assms(2) by blast
  have "sk_inv call sk'" if "\<not> ((stale \<or> w) \<and> st_sorted sk')"
  proof (cases "stale \<or> w")
    case True
    with that s show ?thesis by (simp add: sk_inv_def sk_sound_def)
  next
    case False
    with reach_step show ?thesis using sk_inv_step assms(2) by blast
  qed
  with s show ?case by blast
qed

section \<open>Deep copies\<close>

text \<open>
  A copy function that may fail and a release function, acting on the multiset of live objects.
\<close>

fun non_null :: "'a ptr list \<Rightarrow> 'a list" where
  "non_null [] = []"
| "non_null (None # ps) = non_null ps"
| "non_null (Some x # ps) = x # non_null ps"

lemma non_null_append [simp]: "non_null (ps @ qs) = non_null ps @ non_null qs"
  by (induction ps rule: non_null.induct) simp_all

locale copier =
  fixes copy_func :: "'a ptr \<Rightarrow> 'a multiset \<Rightarrow> 'a ptr \<times> 'a multiset"
    and free_func :: "'a ptr \<Rightarrow> 'a multiset \<Rightarrow> 'a multiset"
  assumes copy_fails: "copy_func p live = (None, live') \<Longrightarrow> live' = live"
    and copy_makes: "copy_func p live = (Some q, live') \<Longrightarrow> live' = add_mset q live"
    and free_drops: "free_func (Some q) live = live - {#q#}"
begin

lemma free_copies: "pop_free_loop free_func ps (live + mset (non_null ps)) = live"
proof (induction ps)
  case (Cons p ps)
  then show ?case by (cases p) (simp_all add: free_drops)
qed simp

lemma deep_copy_live:
  "deep_copy_loop copy_func free_func acc ps (live + mset (non_null acc)) = (r, live') \<Longrightarrow>
   (case r of None \<Rightarrow> live' = live
    | Some qs \<Rightarrow> live' = live + mset (non_null qs) \<and>
        map (\<lambda>q. q = None) qs = map (\<lambda>q. q = None) (acc @ ps))"
proof (induction ps arbitrary: acc)
  case Nil
  then show ?case by auto
next
  case (Cons p ps)
  show ?case
  proof (cases p)
    case None
    then show ?thesis using Cons.IH [of "acc @ [None]"] Cons.prems by (cases r) simp_all
  next
    case (Some a)
    obtain oq l where c: "copy_func p (live + mset (non_null acc)) = (oq, l)" by fastforce
    show ?thesis
    proof (cases oq)
      case None
      then show ?thesis using Cons.prems Some c copy_fails [of p _ l] free_copies by auto
    next
      case q: (Some q)
      then show ?thesis
        using Cons.prems Some c copy_makes [of p _ q l] Cons.IH [of "acc @ [Some q]"] by (cases r) simp_all
    qed
  qed
qed

end

lemma dup_same: "sk_wf sk \<Longrightarrow> OPENSSL_sk_dup A (Some sk) = Some sk' \<Longrightarrow> sk' = sk"
  by (auto simp: OPENSSL_sk_dup_def sk_wf_def split: option.splits if_splits)

lemma deep_copy_balanced:
  assumes cp: "copier copy_func free_func" and wf: "sk_wf sk"
    and dc: "OPENSSL_sk_deep_copy A copy_func free_func (Some sk) live = (r, live')"
  shows "case r of None \<Rightarrow> live' = live
    | Some sk' \<Rightarrow> live' = live + mset (non_null (sk_list sk')) \<and>
        map (\<lambda>q. q = None) (sk_list sk') = map (\<lambda>q. q = None) (sk_list sk)"
proof (cases "OPENSSL_sk_dup A (Some sk)")
  case None
  then show ?thesis using dc by (auto simp: OPENSSL_sk_deep_copy_def)
next
  case (Some sk1)
  have sk1: "sk1 = sk" using dup_same [OF wf Some] .
  obtain res l where l: "deep_copy_loop copy_func free_func [] (sk_list sk) live = (res, l)" by fastforce
  note d = copier.deep_copy_live [OF cp, of "[]" "sk_list sk" live res l]
  show ?thesis
  proof (cases res)
    case None
    then show ?thesis using dc Some l d by (auto simp: OPENSSL_sk_deep_copy_def sk1 sk_list_def)
  next
    case (Some qs)
    have eq: "l = live + mset (non_null qs)" "map (\<lambda>q. q = None) qs = map (\<lambda>q. q = None) (sk_list sk)" using d l Some by auto
    then have "length qs = st_num sk" using map_eq_imp_length_eq [OF eq(2)] wf by simp
    then have "sk_list (sk\<lparr>st_data := write_at 0 qs (st_data sk)\<rparr>) = qs" by (simp add: sk_list_def write_at_def)
    then show ?thesis
      using dc \<open>OPENSSL_sk_dup A (Some sk) = Some sk1\<close> l Some eq by (auto simp: OPENSSL_sk_deep_copy_def sk1 sk_list_def)
  qed
qed

text \<open>Stacks of C strings are copied with \<open>OPENSSL_strdup\<close> and released with \<open>OPENSSL_free\<close>.\<close>

definition strdup_copy :: "allocator \<Rightarrow> u8 list ptr \<Rightarrow> u8 list multiset \<Rightarrow> u8 list ptr \<times> u8 list multiset" where
  "strdup_copy A p live =
     (case OPENSSL_strdup A p of None \<Rightarrow> (None, live) | Some q \<Rightarrow> (Some q, add_mset q live))"

definition string_free :: "u8 list ptr \<Rightarrow> u8 list multiset \<Rightarrow> u8 list multiset" where
  "string_free p live = (case p of None \<Rightarrow> live | Some q \<Rightarrow> live - {#q#})"

interpretation strings: copier "strdup_copy A" string_free for A
  by unfold_locales (auto simp: strdup_copy_def string_free_def split: option.splits)

end
