(* ===== verification/Lhash.thy ===== *)
theory Lhash
  imports Mem "HOL-Library.Multiset"
begin

text \<open>
  \<open>crypto/lhash/lhash.c\<close>: the chained hash table with cached hashes and resizing.

  A chain is the list of its items, so a link \<open>LHASH_ITEM **\<close> is a bucket index with a position in the
  chain; the position after the last item is the link that holds \<open>NULL\<close>. Stored data are
  pointers other than \<open>NULL\<close>, and \<open>None\<close> is the \<open>NULL\<close> an operation returns. The hash and the comparison are
  arguments with their trampolines. The callback of \<open>OPENSSL_lh_doall_arg\<close> acts on a state of its own:
  a callback that modifies the table while it is traversed is not modelled.
\<close>

section \<open>State\<close>

record 'a LHASH_ITEM =
  it_data :: 'a
  it_hash :: u32

record ('a, 'h, 'c) LHASH =
  lh_num_items :: nat
  lh_buckets :: "'a LHASH_ITEM list list"
  lh_num_buckets :: nat
  lh_callback_depth :: nat
  lh_comp :: 'c
  lh_hash :: 'h

type_synonym ('a, 'h) lhash_hash_caller = "'h \<Rightarrow> 'a \<Rightarrow> u32"
type_synonym ('a, 'c) lhash_cmp_caller = "'c \<Rightarrow> 'a \<Rightarrow> 'a \<Rightarrow> int"

definition kMinNumBuckets :: nat where
  "kMinNumBuckets = 16"

definition kMaxAverageChainLength :: nat where
  "kMaxAverageChainLength = 2"

definition kMinAverageChainLength :: nat where
  "kMinAverageChainLength = 1"

definition UINT_MAX :: nat where
  "UINT_MAX = 4294967295"

definition sizeof_lhash :: nat where
  "sizeof_lhash = 48"

definition sizeof_item :: nat where
  "sizeof_item = 24"

definition sizeof_item_ptr :: nat where
  "sizeof_item_ptr = 8"

section \<open>The code\<close>

definition OPENSSL_lh_new :: "allocator \<Rightarrow> 'h \<Rightarrow> 'c \<Rightarrow> ('a, 'h, 'c) LHASH option" where
  "OPENSSL_lh_new A hash compf =
     (case OPENSSL_zalloc A sizeof_lhash of
        None \<Rightarrow> None
      | Some _ \<Rightarrow>
          (case OPENSSL_calloc A kMinNumBuckets sizeof_item_ptr of
             None \<Rightarrow> None
           | Some _ \<Rightarrow>
               Some \<lparr>lh_num_items = 0, lh_buckets = replicate kMinNumBuckets [], lh_num_buckets = kMinNumBuckets,
                     lh_callback_depth = 0, lh_comp = compf, lh_hash = hash\<rparr>))"

definition OPENSSL_lh_num_items :: "('a, 'h, 'c) LHASH \<Rightarrow> nat" where
  "OPENSSL_lh_num_items lh = lh_num_items lh"

fun chain_position :: "('a \<Rightarrow> bool) \<Rightarrow> 'a LHASH_ITEM list \<Rightarrow> nat" where
  "chain_position P [] = 0"
| "chain_position P (cur # nxt) = (if P (it_data cur) then 0 else Suc (chain_position P nxt))"

text \<open>The hash, the bucket and the position of the link.\<close>

definition get_next_ptr_and_hash ::
  "('a, 'h) lhash_hash_caller \<Rightarrow> ('a, 'c) lhash_cmp_caller \<Rightarrow> ('a, 'h, 'c) LHASH \<Rightarrow> 'a \<Rightarrow> u32 \<times> nat \<times> nat" where
  "get_next_ptr_and_hash call_hash call_cmp lh data =
     (let hash = call_hash (lh_hash lh) data;
          i = unat hash mod lh_num_buckets lh
      in (hash, i, chain_position (\<lambda>cur. call_cmp (lh_comp lh) cur data = 0) (lh_buckets lh ! i)))"

definition get_next_ptr_by_key ::
  "('a, 'h, 'c) LHASH \<Rightarrow> 'k \<Rightarrow> u32 \<Rightarrow> ('k \<Rightarrow> 'a \<Rightarrow> int) \<Rightarrow> nat \<times> nat" where
  "get_next_ptr_by_key lh key key_hash cmp_key =
     (let i = unat key_hash mod lh_num_buckets lh
      in (i, chain_position (\<lambda>cur. cmp_key key cur = 0) (lh_buckets lh ! i)))"

text \<open>What a link points to.\<close>

definition deref :: "'a LHASH_ITEM list \<Rightarrow> nat \<Rightarrow> 'a LHASH_ITEM option" where
  "deref chain j = (if j < length chain then Some (chain ! j) else None)"

definition OPENSSL_lh_retrieve ::
  "('a, 'h) lhash_hash_caller \<Rightarrow> ('a, 'c) lhash_cmp_caller \<Rightarrow> ('a, 'h, 'c) LHASH \<Rightarrow> 'a \<Rightarrow> 'a option" where
  "OPENSSL_lh_retrieve call_hash call_cmp lh data =
     (case get_next_ptr_and_hash call_hash call_cmp lh data of
        (_, i, j) \<Rightarrow> map_option it_data (deref (lh_buckets lh ! i) j))"

definition OPENSSL_lh_retrieve_key ::
  "('a, 'h, 'c) LHASH \<Rightarrow> 'k \<Rightarrow> u32 \<Rightarrow> ('k \<Rightarrow> 'a \<Rightarrow> int) \<Rightarrow> 'a option" where
  "OPENSSL_lh_retrieve_key lh key key_hash cmp_key =
     (case get_next_ptr_by_key lh key key_hash cmp_key of
        (i, j) \<Rightarrow> map_option it_data (deref (lh_buckets lh ! i) j))"

text \<open>Every item is put in front of its new chain, in the order of the old buckets.\<close>

fun rebucket_loop :: "nat \<Rightarrow> 'a LHASH_ITEM list \<Rightarrow> 'a LHASH_ITEM list list \<Rightarrow> 'a LHASH_ITEM list list" where
  "rebucket_loop new_num_buckets [] new_buckets = new_buckets"
| "rebucket_loop new_num_buckets (cur # nxt) new_buckets =
     (let new_bucket = unat (it_hash cur) mod new_num_buckets
      in rebucket_loop new_num_buckets nxt (new_buckets[new_bucket := cur # new_buckets ! new_bucket]))"

definition lh_rebucket :: "allocator \<Rightarrow> ('a, 'h, 'c) LHASH \<Rightarrow> nat \<Rightarrow> ('a, 'h, 'c) LHASH" where
  "lh_rebucket A lh new_num_buckets =
     (let alloc_size = size_mul sizeof_item_ptr new_num_buckets
      in if alloc_size div sizeof_item_ptr \<noteq> new_num_buckets then lh
         else case OPENSSL_zalloc A alloc_size of
           None \<Rightarrow> lh
         | Some _ \<Rightarrow>
             lh\<lparr>lh_num_buckets := new_num_buckets,
                lh_buckets := rebucket_loop new_num_buckets (concat (lh_buckets lh)) (replicate new_num_buckets [])\<rparr>)"

definition lh_maybe_resize :: "allocator \<Rightarrow> ('a, 'h, 'c) LHASH \<Rightarrow> ('a, 'h, 'c) LHASH" where
  "lh_maybe_resize A lh =
     (if lh_callback_depth lh > 0 then lh
      else
        (let avg_chain_length = lh_num_items lh div lh_num_buckets lh
         in if avg_chain_length > kMaxAverageChainLength then
              (let new_num_buckets = size_mul (lh_num_buckets lh) 2
               in if new_num_buckets > lh_num_buckets lh then lh_rebucket A lh new_num_buckets else lh)
            else if avg_chain_length < kMinAverageChainLength \<and> lh_num_buckets lh > kMinNumBuckets then
              (let new_num_buckets = lh_num_buckets lh div 2;
                   new_num_buckets = (if new_num_buckets < kMinNumBuckets then kMinNumBuckets else new_num_buckets)
               in lh_rebucket A lh new_num_buckets)
            else lh))"

text \<open>The result, \<open>*old_data\<close> and the table.\<close>

definition OPENSSL_lh_insert ::
  "allocator \<Rightarrow> ('a, 'h) lhash_hash_caller \<Rightarrow> ('a, 'c) lhash_cmp_caller \<Rightarrow> ('a, 'h, 'c) LHASH \<Rightarrow> 'a \<Rightarrow>
   bool \<times> 'a option \<times> ('a, 'h, 'c) LHASH" where
  "OPENSSL_lh_insert A call_hash call_cmp lh data =
     (case get_next_ptr_and_hash call_hash call_cmp lh data of
        (hash, i, j) \<Rightarrow>
          (case deref (lh_buckets lh ! i) j of
             Some item \<Rightarrow>
               (True, Some (it_data item),
                lh\<lparr>lh_buckets := (lh_buckets lh)[i := (lh_buckets lh ! i)[j := item\<lparr>it_data := data\<rparr>]]\<rparr>)
           | None \<Rightarrow>
               (case OPENSSL_malloc A sizeof_item of
                  None \<Rightarrow> (False, None, lh)
                | Some _ \<Rightarrow>
                    (True, None,
                     lh_maybe_resize A
                       (lh\<lparr>lh_buckets := (lh_buckets lh)[i := lh_buckets lh ! i @ [\<lparr>it_data = data, it_hash = hash\<rparr>]],
                          lh_num_items := size_add (lh_num_items lh) 1\<rparr>)))))"

definition OPENSSL_lh_delete ::
  "allocator \<Rightarrow> ('a, 'h) lhash_hash_caller \<Rightarrow> ('a, 'c) lhash_cmp_caller \<Rightarrow> ('a, 'h, 'c) LHASH \<Rightarrow> 'a \<Rightarrow>
   'a option \<times> ('a, 'h, 'c) LHASH" where
  "OPENSSL_lh_delete A call_hash call_cmp lh data =
     (case get_next_ptr_and_hash call_hash call_cmp lh data of
        (hash, i, j) \<Rightarrow>
          (case deref (lh_buckets lh ! i) j of
             None \<Rightarrow> (None, lh)
           | Some item \<Rightarrow>
               (Some (it_data item),
                lh_maybe_resize A
                  (lh\<lparr>lh_buckets := (lh_buckets lh)[i := take j (lh_buckets lh ! i) @ drop (j + 1) (lh_buckets lh ! i)],
                     lh_num_items := size_add (lh_num_items lh) (size_mod - 1)\<rparr>))))"

definition OPENSSL_lh_doall_arg ::
  "allocator \<Rightarrow> ('a, 'h, 'c) LHASH option \<Rightarrow> ('a \<Rightarrow> 's \<Rightarrow> 's) \<Rightarrow> 's \<Rightarrow> ('a, 'h, 'c) LHASH option \<times> 's" where
  "OPENSSL_lh_doall_arg A lh func s =
     (case lh of
        None \<Rightarrow> (None, s)
      | Some lh \<Rightarrow>
          (let lh = (if lh_callback_depth lh < UINT_MAX then lh\<lparr>lh_callback_depth := lh_callback_depth lh + 1\<rparr> else lh);
               s = fold func (map it_data (concat (lh_buckets lh))) s;
               lh = (if lh_callback_depth lh < UINT_MAX then lh\<lparr>lh_callback_depth := lh_callback_depth lh - 1\<rparr> else lh)
           in (Some (lh_maybe_resize A lh), s)))"

end
