(* ===== verification/Lhash_Correct.thy ===== *)
theory Lhash_Correct
  imports Lhash
begin

text \<open>
  Correctness of \<open>Lhash\<close> for a comparison whose zeros are an equivalence that the hash respects: the
  table's contents as a set with at most one element per class, the invariant every operation
  keeps, and the laws of a map.
\<close>

section \<open>Lists without two related elements\<close>

lemma sorted_wrt_perm:
  assumes sym: "\<And>x y. R x y \<Longrightarrow> R y x"
  shows "sorted_wrt R xs \<Longrightarrow> mset xs = mset ys \<Longrightarrow> sorted_wrt R ys"
proof (induction xs arbitrary: ys)
  case (Cons x xs)
  then have "x \<in> set ys" by (metis list.set_intros(1) set_mset_mset)
  then obtain us vs where ys: "ys = us @ x # vs" by (auto simp: in_set_conv_decomp)
  then have m: "mset xs = mset (us @ vs)" using Cons.prems(2) by simp
  have "sorted_wrt R (us @ vs)" using Cons.IH [OF _ m] Cons.prems(1) by simp
  moreover have "\<forall>y\<in>set (us @ vs). R x y" using Cons.prems(1) m by (metis set_mset_mset sorted_wrt.simps(2))
  ultimately show ?case using ys sym by (auto simp: sorted_wrt_append)
qed simp

lemma mset_concat_update:
  "i < length bs \<Longrightarrow> mset (concat (bs[i := c])) + mset (bs ! i) = mset (concat bs) + mset c"
proof (induction bs arbitrary: i)
  case (Cons b bs)
  then show ?case by (cases i) (simp_all add: ac_simps)
qed simp

lemma set_concat_update:
  "i < length bs \<Longrightarrow> set (concat (bs[i := c])) \<union> set (bs ! i) = set (concat bs) \<union> set c"
  using mset_concat_update [of i bs c] by (metis set_mset_mset set_mset_union)

lemma size_dec: "k < size_mod \<Longrightarrow> size_add (Suc k) (size_mod - 1) = k"
proof -
  assume "k < size_mod"
  moreover have "Suc k + (size_mod - 1) = k + size_mod" by (simp add: size_mod_def)
  ultimately show ?thesis by (simp add: size_add_def)
qed

section \<open>Contents and invariant\<close>

definition lh_items :: "('a, 'h, 'c) LHASH \<Rightarrow> 'a LHASH_ITEM list" where
  "lh_items lh = concat (lh_buckets lh)"

definition lh_set :: "('a, 'h, 'c) LHASH \<Rightarrow> 'a set" where
  "lh_set lh = it_data ` set (lh_items lh)"

text \<open>Every item sits in the bucket of its hash.\<close>

definition placed :: "nat \<Rightarrow> 'a LHASH_ITEM list list \<Rightarrow> bool" where
  "placed n bs \<longleftrightarrow> length bs = n \<and> (\<forall>i<n. \<forall>it\<in>set (bs ! i). unat (it_hash it) mod n = i)"

definition distinct_classes :: "('a \<Rightarrow> 'a \<Rightarrow> int) \<Rightarrow> 'a LHASH_ITEM list \<Rightarrow> bool" where
  "distinct_classes cmp its \<longleftrightarrow> sorted_wrt (\<lambda>x y. cmp (it_data x) (it_data y) \<noteq> 0) its"

definition lh_wf :: "('a \<Rightarrow> u32) \<Rightarrow> ('a \<Rightarrow> 'a \<Rightarrow> int) \<Rightarrow> ('a, 'h, 'c) LHASH \<Rightarrow> bool" where
  "lh_wf hash cmp lh \<longleftrightarrow>
     kMinNumBuckets \<le> lh_num_buckets lh \<and> lh_num_buckets lh < size_mod \<and>
     placed (lh_num_buckets lh) (lh_buckets lh) \<and>
     lh_num_items lh = length (lh_items lh) \<and>
     (\<forall>it\<in>set (lh_items lh). it_hash it = hash (it_data it)) \<and>
     distinct_classes cmp (lh_items lh)"

lemma placed_item:
  assumes "placed n bs" "it \<in> set (concat bs)" "0 < n"
  shows "it \<in> set (bs ! (unat (it_hash it) mod n))"
proof -
  obtain b where "b \<in> set bs" "it \<in> set b" using assms(2) by auto
  then obtain i where "i < n" "it \<in> set (bs ! i)" using assms(1) by (auto simp: placed_def in_set_conv_nth [of b])
  then show ?thesis using assms(1) by (auto simp: placed_def)
qed

lemma placed_update:
  "placed n bs \<Longrightarrow> i < n \<Longrightarrow> (\<And>it. it \<in> set c \<Longrightarrow> unat (it_hash it) mod n = i) \<Longrightarrow> placed n (bs[i := c])"
  by (auto simp: placed_def nth_list_update)

section \<open>Resizing\<close>

lemma mset_rebucket:
  "0 < n \<Longrightarrow> length nb = n \<Longrightarrow> mset (concat (rebucket_loop n its nb)) = mset its + mset (concat nb)"
proof (induction its arbitrary: nb)
  case (Cons it its)
  let ?i = "unat (it_hash it) mod n"
  have "?i < length nb" using Cons.prems by simp
  then show ?case
    using Cons mset_concat_update [of ?i nb "it # nb ! ?i"] by (simp add: Let_def)
qed simp

lemma placed_rebucket: "0 < n \<Longrightarrow> placed n nb \<Longrightarrow> placed n (rebucket_loop n its nb)"
proof (induction its arbitrary: nb)
  case (Cons it its)
  let ?i = "unat (it_hash it) mod n"
  have "placed n (nb[?i := it # nb ! ?i])"
    using Cons.prems by (intro placed_update) (auto simp: placed_def)
  then show ?case using Cons by (simp add: Let_def)
qed simp

text \<open>What resizing keeps: the items up to their order, and every other field.\<close>

definition same_table :: "('a, 'h, 'c) LHASH \<Rightarrow> ('a, 'h, 'c) LHASH \<Rightarrow> bool" where
  "same_table lh lh' \<longleftrightarrow>
     mset (lh_items lh') = mset (lh_items lh) \<and> lh_num_items lh' = lh_num_items lh \<and>
     lh_comp lh' = lh_comp lh \<and> lh_hash lh' = lh_hash lh \<and> lh_callback_depth lh' = lh_callback_depth lh"

lemma same_table_set: "same_table lh lh' \<Longrightarrow> lh_set lh' = lh_set lh"
  by (simp add: same_table_def lh_set_def) (metis set_mset_mset)

locale hashed_key =
  fixes hash :: "'a \<Rightarrow> u32" and cmp :: "'a \<Rightarrow> 'a \<Rightarrow> int"
  assumes eq_refl: "cmp x x = 0"
    and eq_sym: "cmp x y = 0 \<Longrightarrow> cmp y x = 0"
    and eq_trans: "cmp x y = 0 \<Longrightarrow> cmp y z = 0 \<Longrightarrow> cmp x z = 0"
    and hash_eq: "cmp x y = 0 \<Longrightarrow> hash x = hash y"
begin

lemma distinct_classes_perm: "distinct_classes cmp xs \<Longrightarrow> mset xs = mset ys \<Longrightarrow> distinct_classes cmp ys"
  unfolding distinct_classes_def
  by (rule sorted_wrt_perm [of "\<lambda>x y. cmp (it_data x) (it_data y) \<noteq> 0"]) (use eq_sym in blast)

lemma rebucket_keeps:
  assumes wf: "lh_wf hash cmp lh" and n: "kMinNumBuckets \<le> n"
  shows "lh_wf hash cmp (lh_rebucket A lh n) \<and> same_table lh (lh_rebucket A lh n)"
proof (cases "lh_rebucket A lh n = lh")
  case False
  let ?bs = "rebucket_loop n (concat (lh_buckets lh)) (replicate n [])"
  have eq: "lh_rebucket A lh n = lh\<lparr>lh_num_buckets := n, lh_buckets := ?bs\<rparr>" and sz: "n = size_mul sizeof_item_ptr n div sizeof_item_ptr"
    using False by (auto simp: lh_rebucket_def Let_def split: option.splits if_splits)
  have "n < size_mod"
    using sz by (metis div_le_dividend le_less_trans mod_less_divisor size_mod_pow size_mul_def zero_less_numeral zero_less_power)
  have n0: "0 < n" using n by (simp add: kMinNumBuckets_def)
  have m: "mset (concat ?bs) = mset (concat (lh_buckets lh))" using mset_rebucket [OF n0, of "replicate n []"] by simp
  have p: "placed n ?bs" by (rule placed_rebucket [OF n0]) (simp add: placed_def)
  have "length (concat ?bs) = length (concat (lh_buckets lh))" "set (concat ?bs) = set (concat (lh_buckets lh))"
    using m mset_eq_length mset_eq_setD by blast+
  then show ?thesis
    using wf n p m \<open>n < size_mod\<close> distinct_classes_perm [of "concat (lh_buckets lh)" "concat ?bs"]
    by (simp add: eq lh_wf_def same_table_def lh_items_def)
qed (use wf in \<open>simp add: same_table_def\<close>)

lemma resize_keeps:
  assumes "lh_wf hash cmp lh"
  shows "lh_wf hash cmp (lh_maybe_resize A lh) \<and> same_table lh (lh_maybe_resize A lh)"
proof -
  have "same_table lh lh" by (simp add: same_table_def)
  moreover have "kMinNumBuckets \<le> lh_num_buckets lh" using assms by (simp add: lh_wf_def)
  ultimately show ?thesis
    using assms rebucket_keeps [OF assms] unfolding lh_maybe_resize_def Let_def by (auto simp del: One_nat_def)
qed

text \<open>The search of a chain.\<close>

lemma chain_position_le: "chain_position P c \<le> length c"
  by (induction c) auto

lemma chain_position_hit: "chain_position P c < length c \<Longrightarrow> P (it_data (c ! chain_position P c))"
  by (induction c) auto

lemma chain_position_miss: "\<not> chain_position P c < length c \<Longrightarrow> it \<in> set c \<Longrightarrow> \<not> P (it_data it)"
  by (induction c) (auto split: if_splits)

lemma distinct_classes_unique:
  "distinct_classes cmp its \<Longrightarrow> x \<in> set its \<Longrightarrow> y \<in> set its \<Longrightarrow> cmp (it_data x) (it_data y) = 0 \<Longrightarrow> x = y"
  unfolding distinct_classes_def
proof (induction its)
  case (Cons a its)
  then show ?case using eq_sym by auto
qed simp

lemma bucket_index: "lh_wf hash cmp lh \<Longrightarrow> unat h mod lh_num_buckets lh < length (lh_buckets lh)"
  by (auto simp: lh_wf_def placed_def kMinNumBuckets_def)

lemma item_in_bucket:
  assumes "lh_wf hash cmp lh" "x \<in> lh_set lh" "cmp x d = 0"
  shows "\<exists>it\<in>set (lh_buckets lh ! (unat (hash d) mod lh_num_buckets lh)). it_data it = x"
proof -
  obtain it where it: "it \<in> set (concat (lh_buckets lh))" "it_data it = x"
    using assms(2) by (auto simp: lh_set_def lh_items_def)
  have "it_hash it = hash d" using assms(1,3) it hash_eq by (auto simp: lh_wf_def lh_items_def)
  then show ?thesis using placed_item [OF _ it(1), of "lh_num_buckets lh"] assms(1) it(2)
    by (auto simp: lh_wf_def kMinNumBuckets_def)
qed

lemma bucket_subset:
  "lh_wf hash cmp lh \<Longrightarrow> it \<in> set (lh_buckets lh ! (unat h mod lh_num_buckets lh)) \<Longrightarrow> it \<in> set (lh_items lh)"
  using bucket_index [of lh h] by (auto simp: lh_items_def intro!: bexI [of _ "lh_buckets lh ! (unat h mod lh_num_buckets lh)"])

lemma retrieve_iff:
  assumes wf: "lh_wf hash cmp lh" and "call_hash (lh_hash lh) = hash" "call_cmp (lh_comp lh) = cmp"
  shows "OPENSSL_lh_retrieve call_hash call_cmp lh d = Some x \<longleftrightarrow> x \<in> lh_set lh \<and> cmp x d = 0"
proof -
  define i where "i = unat (hash d) mod lh_num_buckets lh"
  define j where "j = chain_position (\<lambda>cur. cmp cur d = 0) (lh_buckets lh ! i)"
  have r: "OPENSSL_lh_retrieve call_hash call_cmp lh d = map_option it_data (deref (lh_buckets lh ! i) j)"
    using assms(2,3) by (simp add: OPENSSL_lh_retrieve_def get_next_ptr_and_hash_def Let_def i_def j_def)
  note hit = chain_position_hit [of "\<lambda>cur. cmp cur d = 0" "lh_buckets lh ! i", folded j_def]
  note miss = chain_position_miss [of "\<lambda>cur. cmp cur d = 0" "lh_buckets lh ! i", folded j_def]
  show ?thesis
  proof (cases "j < length (lh_buckets lh ! i)")
    case True
    let ?it = "lh_buckets lh ! i ! j"
    have it: "?it \<in> set (lh_items lh)" using bucket_subset [OF wf, of ?it "hash d"] True by (simp add: i_def)
    have "x = it_data ?it" if x: "x \<in> lh_set lh" "cmp x d = 0"
    proof -
      obtain it' where "it' \<in> set (lh_items lh)" "it_data it' = x" using x(1) by (auto simp: lh_set_def)
      then show ?thesis
        using distinct_classes_unique [of "lh_items lh" it' ?it] it hit [OF True] x(2) eq_sym eq_trans wf
        by (metis lh_wf_def)
    qed
    then show ?thesis using True it hit by (auto simp: r deref_def lh_set_def)
  next
    case False
    then show ?thesis using item_in_bucket [OF wf, of x d] miss by (auto simp: r deref_def i_def)
  qed
qed

text \<open>Replacing the chain of one bucket.\<close>

definition in_place :: "nat \<Rightarrow> nat \<Rightarrow> 'a LHASH_ITEM \<Rightarrow> bool" where
  "in_place n i it \<longleftrightarrow> it_hash it = hash (it_data it) \<and> unat (it_hash it) mod n = i"

lemma wf_update:
  assumes wf: "lh_wf hash cmp lh" and i: "i < length (lh_buckets lh)"
    and c: "\<And>it. it \<in> set c \<Longrightarrow> in_place (lh_num_buckets lh) i it"
    and m: "distinct_classes cmp (concat ((lh_buckets lh)[i := c]))"
    and n: "n = length (concat ((lh_buckets lh)[i := c]))"
  shows "lh_wf hash cmp (lh\<lparr>lh_buckets := (lh_buckets lh)[i := c], lh_num_items := n\<rparr>)"
proof -
  have "placed (lh_num_buckets lh) ((lh_buckets lh)[i := c])"
  proof (rule placed_update)
    show "placed (lh_num_buckets lh) (lh_buckets lh)" "i < lh_num_buckets lh" using wf i by (auto simp: lh_wf_def placed_def)
    show "unat (it_hash it) mod lh_num_buckets lh = i" if "it \<in> set c" for it using c [OF that] unfolding in_place_def by blast
  qed
  moreover have "it_hash it = hash (it_data it)" if "it \<in> set (concat ((lh_buckets lh)[i := c]))" for it
    using that wf c set_concat_update [OF i, of c] by (auto simp: lh_wf_def lh_items_def in_place_def)
  ultimately show ?thesis using wf m n by (simp add: lh_wf_def lh_items_def)
qed

lemma distinct_classes_add:
  "distinct_classes cmp its \<Longrightarrow> (\<And>y. y \<in> set its \<Longrightarrow> cmp (it_data y) (it_data it) \<noteq> 0) \<Longrightarrow> mset its' = add_mset it (mset its) \<Longrightarrow>
   distinct_classes cmp its'"
  by (rule distinct_classes_perm [of "it # its"]) (auto simp: distinct_classes_def dest: eq_sym)

lemma distinct_classes_remove:
  "distinct_classes cmp its' \<Longrightarrow> mset its' = add_mset it (mset its) \<Longrightarrow>
   distinct_classes cmp its \<and> (\<forall>y\<in>set its. cmp (it_data y) (it_data it) \<noteq> 0)"
  using distinct_classes_perm [of its' "it # its"] eq_sym by (auto simp: distinct_classes_def)

lemma mset_exchange:
  "M + C = L + C' \<Longrightarrow> C' = add_mset y D \<Longrightarrow> C = add_mset x D \<Longrightarrow> L = add_mset x (mset R) \<Longrightarrow> M = mset (y # R)"
  by (metis (no_types) add_mset_commute add_right_cancel mset.simps(2) union_mset_add_mset_left union_mset_add_mset_right)

text \<open>A matching item and the other items of the table.\<close>

lemma split_hit:
  assumes wf: "lh_wf hash cmp lh" and it: "it \<in> set (lh_items lh)" and hit: "cmp (it_data it) d = 0"
  shows "\<exists>R. mset (lh_items lh) = add_mset it (mset R) \<and> distinct_classes cmp R \<and>
    (\<forall>y\<in>set R. cmp (it_data y) d \<noteq> 0) \<and> {x \<in> lh_set lh. cmp x d \<noteq> 0} = it_data ` set R"
proof -
  obtain us vs where uv: "lh_items lh = us @ it # vs" using it by (auto simp: in_set_conv_decomp)
  have m: "mset (lh_items lh) = add_mset it (mset (us @ vs))" by (simp add: uv)
  have d: "distinct_classes cmp (us @ vs)" "\<forall>y\<in>set (us @ vs). cmp (it_data y) (it_data it) \<noteq> 0"
    using distinct_classes_remove [OF _ m] wf by (auto simp: lh_wf_def)
  then have n: "cmp (it_data y) d \<noteq> 0" if "y \<in> set (us @ vs)" for y using that hit eq_sym eq_trans by blast
  moreover have "{x \<in> lh_set lh. cmp x d \<noteq> 0} = it_data ` set (us @ vs)"
    using hit n by (auto simp: lh_set_def uv)
  ultimately show ?thesis using m d(1) by blast
qed

definition lh_post :: "('a, 'h, 'c) LHASH \<Rightarrow> 'a set \<Rightarrow> ('a, 'h, 'c) LHASH \<Rightarrow> bool" where
  "lh_post lh S lh' \<longleftrightarrow>
     lh_wf hash cmp lh' \<and> lh_set lh' = S \<and> lh_comp lh' = lh_comp lh \<and> lh_hash lh' = lh_hash lh \<and>
     lh_callback_depth lh' = lh_callback_depth lh"

lemma lh_post_resize: "lh_post lh S lh' \<Longrightarrow> lh_post lh S (lh_maybe_resize A lh')"
  using resize_keeps [of lh' A] same_table_set [of lh' "lh_maybe_resize A lh'"] by (simp add: lh_post_def same_table_def)

text \<open>The new chains of the three changes, each as a change of the multiset of items.\<close>

lemma update_post:
  assumes wf: "lh_wf hash cmp lh" and i: "i < length (lh_buckets lh)"
    and c: "\<And>it. it \<in> set c \<Longrightarrow> in_place (lh_num_buckets lh) i it"
    and m: "mset (concat ((lh_buckets lh)[i := c])) = mset its" and d: "distinct_classes cmp its"
    and n: "n = length its" and S: "S = it_data ` set its"
  shows "lh_post lh S (lh\<lparr>lh_buckets := (lh_buckets lh)[i := c], lh_num_items := n\<rparr>)"
proof -
  have "lh_wf hash cmp (lh\<lparr>lh_buckets := (lh_buckets lh)[i := c], lh_num_items := n\<rparr>)"
    using wf i c distinct_classes_perm [OF d m [symmetric]] n mset_eq_length [OF m] by (intro wf_update) auto
  then show ?thesis using mset_eq_setD [OF m] S by (simp add: lh_post_def lh_set_def lh_items_def)
qed

lemma bucket_items:
  assumes wf: "lh_wf hash cmp lh" and "i = unat h mod lh_num_buckets lh" and it: "it \<in> set (lh_buckets lh ! i)"
  shows "in_place (lh_num_buckets lh) i it"
proof -
  have "it \<in> set (lh_items lh)" using bucket_subset [OF wf, of it h] assms by simp
  then have "it_hash it = hash (it_data it)" using wf by (simp add: lh_wf_def)
  moreover have "i < lh_num_buckets lh" using bucket_index [OF wf, of h] wf assms(2) by (simp add: lh_wf_def placed_def)
  then have "unat (it_hash it) mod lh_num_buckets lh = i" using wf it unfolding lh_wf_def placed_def by blast
  ultimately show ?thesis by (simp add: in_place_def)
qed

lemma insert_new:
  assumes wf: "lh_wf hash cmp lh" and i: "i = unat (hash d) mod lh_num_buckets lh"
    and none: "\<And>it. it \<in> set (lh_buckets lh ! i) \<Longrightarrow> cmp (it_data it) d \<noteq> 0"
    and len: "length (lh_items lh) + 1 < size_mod"
  shows "lh_post lh (insert d {x \<in> lh_set lh. cmp x d \<noteq> 0})
           (lh\<lparr>lh_buckets := (lh_buckets lh)[i := lh_buckets lh ! i @ [\<lparr>it_data = d, it_hash = hash d\<rparr>]],
              lh_num_items := size_add (lh_num_items lh) 1\<rparr>)"
proof (rule update_post [OF wf, where its = "\<lparr>it_data = d, it_hash = hash d\<rparr> # lh_items lh"])
  let ?it = "\<lparr>it_data = d, it_hash = hash d\<rparr>"
  show il: "i < length (lh_buckets lh)" using bucket_index [OF wf] i by simp
  have all: "cmp x d \<noteq> 0" if "x \<in> lh_set lh" for x using item_in_bucket [OF wf that] none i by auto
  show "in_place (lh_num_buckets lh) i it"
    if "it \<in> set (lh_buckets lh ! i @ [?it])" for it
    using that bucket_items [OF wf i, of it] i by (auto simp: in_place_def)
  show "mset (concat ((lh_buckets lh)[i := lh_buckets lh ! i @ [?it]])) = mset (?it # lh_items lh)"
    using mset_concat_update [OF il, of "lh_buckets lh ! i @ [?it]"] by (simp add: lh_items_def)
  show "distinct_classes cmp (?it # lh_items lh)"
  proof (rule distinct_classes_add)
    show "distinct_classes cmp (lh_items lh)" using wf by (simp add: lh_wf_def)
    show "cmp (it_data y) (it_data ?it) \<noteq> 0" if "y \<in> set (lh_items lh)" for y using all that by (auto simp: lh_set_def)
  qed simp
  show "size_add (lh_num_items lh) 1 = length (?it # lh_items lh)"
    using wf len by (simp add: lh_wf_def size_add_exact)
  show "insert d {x \<in> lh_set lh. cmp x d \<noteq> 0} = it_data ` set (?it # lh_items lh)"
    using all by (auto simp: lh_set_def)
qed

lemma insert_replace:
  assumes wf: "lh_wf hash cmp lh" and i: "i = unat (hash d) mod lh_num_buckets lh"
    and j: "j < length (lh_buckets lh ! i)" and hit: "cmp (it_data (lh_buckets lh ! i ! j)) d = 0"
  shows "lh_post lh (insert d {x \<in> lh_set lh. cmp x d \<noteq> 0})
           (lh\<lparr>lh_buckets := (lh_buckets lh)[i := (lh_buckets lh ! i)[j := (lh_buckets lh ! i ! j)\<lparr>it_data := d\<rparr>]]\<rparr>)"
proof -
  let ?c = "lh_buckets lh ! i"
  let ?it = "?c ! j"
  let ?it' = "?it\<lparr>it_data := d\<rparr>"
  have il: "i < length (lh_buckets lh)" using bucket_index [OF wf] i by simp
  have itc: "?it \<in> set ?c" using j by simp
  have iti: "?it \<in> set (lh_items lh)" using bucket_subset [OF wf, of ?it "hash d"] itc i by simp
  have h: "it_hash ?it = hash d" using bucket_items [OF wf i itc] hash_eq [OF hit] by (simp add: in_place_def)
  obtain R where R: "mset (lh_items lh) = add_mset ?it (mset R)" "distinct_classes cmp R"
    "\<And>y. y \<in> set R \<Longrightarrow> cmp (it_data y) d \<noteq> 0" "{x \<in> lh_set lh. cmp x d \<noteq> 0} = it_data ` set R"
    using split_hit [OF wf iti hit] by blast
  have "mset (concat ((lh_buckets lh)[i := ?c[j := ?it']])) + mset ?c = mset (lh_items lh) + mset (?c[j := ?it'])"
    using mset_concat_update [OF il] by (simp add: lh_items_def)
  moreover have "mset (?c[j := ?it']) = add_mset ?it' (mset ?c - {#?it#})" "mset ?c = add_mset ?it (mset ?c - {#?it#})"
    using j itc by (auto simp: mset_update)
  ultimately have m: "mset (concat ((lh_buckets lh)[i := ?c[j := ?it']])) = mset (?it' # R)"
    using R(1) mset_exchange by metis
  have "lh_post lh (insert d {x \<in> lh_set lh. cmp x d \<noteq> 0})
           (lh\<lparr>lh_buckets := (lh_buckets lh)[i := ?c[j := ?it']], lh_num_items := lh_num_items lh\<rparr>)"
  proof (rule update_post [OF wf il _ m])
    show "in_place (lh_num_buckets lh) i it"
      if "it \<in> set (?c[j := ?it'])" for it
    proof (cases "it = ?it'")
      case True
      then show ?thesis using h i by (simp add: in_place_def)
    next
      case False
      then show ?thesis using that bucket_items [OF wf i, of it] set_update_subset_insert [of ?c j ?it'] by auto
    qed
    show "distinct_classes cmp (?it' # R)"
    proof (rule distinct_classes_add [OF R(2)])
      show "cmp (it_data y) (it_data ?it') \<noteq> 0" if "y \<in> set R" for y using R(3) [OF that] by simp
    qed simp
    show "lh_num_items lh = length (?it' # R)" using wf mset_eq_length [of "lh_items lh" "?it # R"] R(1) by (simp add: lh_wf_def)
    show "insert d {x \<in> lh_set lh. cmp x d \<noteq> 0} = it_data ` set (?it' # R)" using R(4) by simp
  qed
  then show ?thesis by simp
qed

lemma delete_hit:
  assumes wf: "lh_wf hash cmp lh" and i: "i = unat (hash d) mod lh_num_buckets lh"
    and j: "j < length (lh_buckets lh ! i)" and hit: "cmp (it_data (lh_buckets lh ! i ! j)) d = 0"
    and len: "length (lh_items lh) < size_mod"
  shows "lh_post lh {x \<in> lh_set lh. cmp x d \<noteq> 0}
           (lh\<lparr>lh_buckets := (lh_buckets lh)[i := take j (lh_buckets lh ! i) @ drop (j + 1) (lh_buckets lh ! i)],
              lh_num_items := size_add (lh_num_items lh) (size_mod - 1)\<rparr>)"
proof -
  let ?c = "lh_buckets lh ! i"
  let ?it = "?c ! j" and ?c' = "take j ?c @ drop (j + 1) ?c"
  have il: "i < length (lh_buckets lh)" using bucket_index [OF wf] i by simp
  have itc: "?it \<in> set ?c" using j by simp
  have iti: "?it \<in> set (lh_items lh)" using bucket_subset [OF wf, of ?it "hash d"] itc i by simp
  obtain R where R: "mset (lh_items lh) = add_mset ?it (mset R)" "distinct_classes cmp R"
    "{x \<in> lh_set lh. cmp x d \<noteq> 0} = it_data ` set R"
    using split_hit [OF wf iti hit] by blast
  have "mset ?c = add_mset ?it (mset ?c')"
    by (subst id_take_nth_drop [OF j]) simp
  then have m: "mset (concat ((lh_buckets lh)[i := ?c'])) = mset R"
    using mset_concat_update [OF il, of ?c'] R(1) by (simp add: lh_items_def)
  have n: "lh_num_items lh = Suc (length R)" using wf mset_eq_length [of "lh_items lh" "?it # R"] R(1) by (simp add: lh_wf_def)
  show ?thesis
  proof (rule update_post [OF wf il _ m R(2) _ R(3)])
    show "in_place (lh_num_buckets lh) i it" if "it \<in> set ?c'" for it
      using that bucket_items [OF wf i, of it] by (auto dest: in_set_takeD in_set_dropD)
    show "size_add (lh_num_items lh) (size_mod - 1) = length R"
      using n len wf size_dec [of "length R"] by (simp add: lh_wf_def)
  qed
qed

text \<open>The position a search ends at.\<close>

lemma link_cases:
  assumes "call_hash (lh_hash lh) = hash" "call_cmp (lh_comp lh) = cmp"
  shows "\<exists>i j. get_next_ptr_and_hash call_hash call_cmp lh d = (hash d, i, j) \<and>
    i = unat (hash d) mod lh_num_buckets lh \<and>
    (j < length (lh_buckets lh ! i) \<longrightarrow> cmp (it_data (lh_buckets lh ! i ! j)) d = 0) \<and>
    (\<not> j < length (lh_buckets lh ! i) \<longrightarrow> (\<forall>it\<in>set (lh_buckets lh ! i). cmp (it_data it) d \<noteq> 0))"
  using assms chain_position_hit [of "\<lambda>cur. cmp cur d = 0"] chain_position_miss [of "\<lambda>cur. cmp cur d = 0"]
  by (simp add: get_next_ptr_and_hash_def Let_def)

lemma insert_correct:
  assumes wf: "lh_wf hash cmp lh" and call: "call_hash (lh_hash lh) = hash" "call_cmp (lh_comp lh) = cmp"
    and len: "length (lh_items lh) + 1 < size_mod"
  shows "(\<exists>lh'. OPENSSL_lh_insert A call_hash call_cmp lh d = (True, OPENSSL_lh_retrieve call_hash call_cmp lh d, lh') \<and>
            lh_post lh (insert d {x \<in> lh_set lh. cmp x d \<noteq> 0}) lh') \<or>
         OPENSSL_lh_insert A call_hash call_cmp lh d = (False, None, lh) \<and> OPENSSL_malloc A sizeof_item = None \<and>
         OPENSSL_lh_retrieve call_hash call_cmp lh d = None"
proof -
  obtain i j where l: "get_next_ptr_and_hash call_hash call_cmp lh d = (hash d, i, j)"
    "i = unat (hash d) mod lh_num_buckets lh"
    and hit: "j < length (lh_buckets lh ! i) \<Longrightarrow> cmp (it_data (lh_buckets lh ! i ! j)) d = 0"
    and miss: "\<not> j < length (lh_buckets lh ! i) \<Longrightarrow> \<forall>it\<in>set (lh_buckets lh ! i). cmp (it_data it) d \<noteq> 0"
    using link_cases [where lh = lh and call_hash = call_hash and call_cmp = call_cmp and d = d, OF call] by blast
  show ?thesis
  proof (cases "j < length (lh_buckets lh ! i)")
    case True
    then show ?thesis
      using insert_replace [OF wf l(2) True hit [OF True]]
      by (simp add: OPENSSL_lh_insert_def OPENSSL_lh_retrieve_def l(1) deref_def)
  next
    case False
    have "lh_post lh (insert d {x \<in> lh_set lh. cmp x d \<noteq> 0}) (lh_maybe_resize A
           (lh\<lparr>lh_buckets := (lh_buckets lh)[i := lh_buckets lh ! i @ [\<lparr>it_data = d, it_hash = hash d\<rparr>]],
              lh_num_items := size_add (lh_num_items lh) 1\<rparr>))"
      using insert_new [OF wf l(2) _ len] miss [OF False] by (intro lh_post_resize) blast
    then show ?thesis
      using False by (auto simp: OPENSSL_lh_insert_def OPENSSL_lh_retrieve_def l(1) deref_def split: option.splits)
  qed
qed

lemma delete_correct:
  assumes wf: "lh_wf hash cmp lh" and call: "call_hash (lh_hash lh) = hash" "call_cmp (lh_comp lh) = cmp"
    and len: "length (lh_items lh) < size_mod"
  shows "\<exists>lh'. OPENSSL_lh_delete A call_hash call_cmp lh d = (OPENSSL_lh_retrieve call_hash call_cmp lh d, lh') \<and>
           lh_post lh {x \<in> lh_set lh. cmp x d \<noteq> 0} lh'"
proof -
  obtain i j where l: "get_next_ptr_and_hash call_hash call_cmp lh d = (hash d, i, j)"
    "i = unat (hash d) mod lh_num_buckets lh"
    and hit: "j < length (lh_buckets lh ! i) \<Longrightarrow> cmp (it_data (lh_buckets lh ! i ! j)) d = 0"
    and miss: "\<not> j < length (lh_buckets lh ! i) \<Longrightarrow> \<forall>it\<in>set (lh_buckets lh ! i). cmp (it_data it) d \<noteq> 0"
    using link_cases [where lh = lh and call_hash = call_hash and call_cmp = call_cmp and d = d, OF call] by blast
  show ?thesis
  proof (cases "j < length (lh_buckets lh ! i)")
    case True
    then show ?thesis
      using lh_post_resize [OF delete_hit [OF wf l(2) True hit [OF True] len]]
      by (simp add: OPENSSL_lh_delete_def OPENSSL_lh_retrieve_def l(1) deref_def)
  next
    case False
    have "cmp x d \<noteq> 0" if "x \<in> lh_set lh" for x using item_in_bucket [OF wf that, of d] miss [OF False] l(2) by auto
    then have "lh_post lh {x \<in> lh_set lh. cmp x d \<noteq> 0} lh" using wf by (auto simp: lh_post_def)
    then show ?thesis using False by (simp add: OPENSSL_lh_delete_def OPENSSL_lh_retrieve_def l(1) deref_def)
  qed
qed

text \<open>The laws of a map, for the table after an insertion or a deletion.\<close>

lemma retrieve_None_iff:
  assumes "lh_wf hash cmp lh" "call_hash (lh_hash lh) = hash" "call_cmp (lh_comp lh) = cmp"
  shows "OPENSSL_lh_retrieve call_hash call_cmp lh d = None \<longleftrightarrow> (\<forall>x\<in>lh_set lh. cmp x d \<noteq> 0)"
  using retrieve_iff [of lh call_hash call_cmp d, OF assms] by (metis not_None_eq)

lemma retrieve_post:
  assumes wf: "lh_wf hash cmp lh" and call: "call_hash (lh_hash lh) = hash" "call_cmp (lh_comp lh) = cmp"
    and post: "lh_post lh (S \<union> {x \<in> lh_set lh. cmp x d \<noteq> 0}) lh'" and S: "S \<subseteq> {d}"
  shows "OPENSSL_lh_retrieve call_hash call_cmp lh' k =
         (if cmp d k = 0 then (if S = {} then None else Some d) else OPENSSL_lh_retrieve call_hash call_cmp lh k)"
proof -
  have wf': "lh_wf hash cmp lh'" "call_hash (lh_hash lh') = hash" "call_cmp (lh_comp lh') = cmp"
    and s: "lh_set lh' = S \<union> {x \<in> lh_set lh. cmp x d \<noteq> 0}" using post call by (auto simp: lh_post_def)
  note iff = retrieve_iff [of lh' call_hash call_cmp k, OF wf'] retrieve_iff [of lh call_hash call_cmp k, OF wf call]
  have "OPENSSL_lh_retrieve call_hash call_cmp lh' k = Some x \<longleftrightarrow>
        (if cmp d k = 0 then (if S = {} then None else Some d) else OPENSSL_lh_retrieve call_hash call_cmp lh k) = Some x" for x
  proof (cases "cmp d k = 0")
    case True
    then have "cmp x d = 0" if "cmp x k = 0" using that eq_sym eq_trans by blast
    then show ?thesis using True S by (auto simp: iff s)
  next
    case False
    then have "cmp x d \<noteq> 0" if "cmp x k = 0" using that eq_sym eq_trans by blast
    then show ?thesis using False S by (auto simp: iff s)
  qed
  then show ?thesis by (metis not_None_eq)
qed

end

end
