(* ===== verification/Obj.thy ===== *)
theory Obj
  imports Cbb_Asn1 Lhash_Correct
begin

text \<open>
  \<open>crypto/obj/obj.c\<close> (with \<open>ASN1_OBJECT_new\<close> and \<open>ASN1_OBJECT_create\<close> of \<open>crypto/asn1/a_object.c\<close>): the
  registry of object identifiers, built from the hash tables of \<open>Lhash\<close>, the OID text functions of
  \<open>Cbb\<close> and the bounded strings of \<open>Mem\<close>.

  An object is its value; \<open>obj->length\<close> is the length of \<open>o_data\<close>, which is \<open>NULL\<close> when there are no
  bytes. The global tables and the next NID are the registry record; the locks around them are not
  modelled. The generated tables of \<open>obj_dat.h\<close> are the argument \<open>B\<close>. NIDs are integers.
\<close>

section \<open>State\<close>

record ASN1_OBJECT =
  o_sn :: "u8 list option"
  o_ln :: "u8 list option"
  o_nid :: int
  o_data :: "u8 list"
  o_flags :: u32

record obj_builtins =
  kObjects :: "ASN1_OBJECT list"
  kNIDsInOIDOrder :: "nat list"
  kNIDsInShortNameOrder :: "nat list"
  kNIDsInLongNameOrder :: "nat list"

type_synonym obj_table = "(ASN1_OBJECT, ASN1_OBJECT \<Rightarrow> u32, ASN1_OBJECT \<Rightarrow> ASN1_OBJECT \<Rightarrow> int) LHASH"

record obj_globals =
  global_added_by_data :: "obj_table option"
  global_added_by_nid :: "obj_table option"
  global_added_by_short_name :: "obj_table option"
  global_added_by_long_name :: "obj_table option"
  global_next_nid :: u32

definition NUM_NID :: int where
  "NUM_NID = 965"

definition NID_undef :: int where
  "NID_undef = 0"

definition CBS_ASN1_OBJECT :: CBS_ASN1_TAG where
  "CBS_ASN1_OBJECT = 0x6"

definition ASN1_OBJECT_FLAG_DYNAMIC :: u32 where
  "ASN1_OBJECT_FLAG_DYNAMIC = 1"

definition ASN1_OBJECT_FLAG_DYNAMIC_STRINGS :: u32 where
  "ASN1_OBJECT_FLAG_DYNAMIC_STRINGS = 4"

definition ASN1_OBJECT_FLAG_DYNAMIC_DATA :: u32 where
  "ASN1_OBJECT_FLAG_DYNAMIC_DATA = 8"

definition sizeof_ASN1_OBJECT :: nat where
  "sizeof_ASN1_OBJECT = 40"

section \<open>Objects\<close>

definition obj_next_nid :: "obj_globals \<Rightarrow> int \<times> obj_globals" where
  "obj_next_nid g = (sint (global_next_nid g), g\<lparr>global_next_nid := global_next_nid g + 1\<rparr>)"

definition ASN1_OBJECT_new :: "allocator \<Rightarrow> ASN1_OBJECT option" where
  "ASN1_OBJECT_new A =
     (case OPENSSL_malloc A sizeof_ASN1_OBJECT of
        None \<Rightarrow> None
      | Some _ \<Rightarrow> Some \<lparr>o_sn = None, o_ln = None, o_nid = 0, o_data = [], o_flags = ASN1_OBJECT_FLAG_DYNAMIC\<rparr>)"

text \<open>A copy of an optional string; \<open>None\<close> when the copy fails.\<close>

definition dup_name :: "allocator \<Rightarrow> u8 list option \<Rightarrow> u8 list option option" where
  "dup_name A name =
     (case name of
        None \<Rightarrow> Some None
      | Some s \<Rightarrow> (case OPENSSL_strdup A (Some s) of None \<Rightarrow> None | Some s' \<Rightarrow> Some (Some s')))"

definition OBJ_dup :: "allocator \<Rightarrow> ASN1_OBJECT option \<Rightarrow> ASN1_OBJECT option" where
  "OBJ_dup A o_opt =
     (case o_opt of
        None \<Rightarrow> None
      | Some ob \<Rightarrow>
          (if o_flags ob AND ASN1_OBJECT_FLAG_DYNAMIC = 0 then Some ob
           else case ASN1_OBJECT_new A of
             None \<Rightarrow> None
           | Some r \<Rightarrow>
          (case (if o_data ob = [] then Some [] else OPENSSL_memdup A (o_data ob)) of
             None \<Rightarrow> None
           | Some data \<Rightarrow>
          (case dup_name A (o_ln ob) of
             None \<Rightarrow> None
           | Some ln \<Rightarrow>
          (case dup_name A (o_sn ob) of
             None \<Rightarrow> None
           | Some sn \<Rightarrow>
               Some (r\<lparr>o_data := data, o_nid := o_nid ob, o_sn := sn, o_ln := ln,
                       o_flags := o_flags ob OR (ASN1_OBJECT_FLAG_DYNAMIC OR ASN1_OBJECT_FLAG_DYNAMIC_STRINGS OR
                                                 ASN1_OBJECT_FLAG_DYNAMIC_DATA)\<rparr>))))))"

definition ASN1_OBJECT_create ::
  "allocator \<Rightarrow> int \<Rightarrow> u8 list \<Rightarrow> u8 list option \<Rightarrow> u8 list option \<Rightarrow> ASN1_OBJECT option" where
  "ASN1_OBJECT_create A nid data sn ln =
     (if length data > INT_MAX then None
      else OBJ_dup A (Some \<lparr>o_sn = sn, o_ln = ln, o_nid = nid, o_data = data,
                            o_flags = ASN1_OBJECT_FLAG_DYNAMIC OR ASN1_OBJECT_FLAG_DYNAMIC_STRINGS OR
                                      ASN1_OBJECT_FLAG_DYNAMIC_DATA\<rparr>))"

definition OBJ_cmp :: "ASN1_OBJECT \<Rightarrow> ASN1_OBJECT \<Rightarrow> int" where
  "OBJ_cmp a b =
     (if length (o_data a) < length (o_data b) then - 1
      else if length (o_data a) > length (o_data b) then 1
      else OPENSSL_memcmp (o_data a) (o_data b) (length (o_data a)))"

definition OBJ_length :: "ASN1_OBJECT option \<Rightarrow> nat" where
  "OBJ_length ob = (case ob of None \<Rightarrow> 0 | Some ob \<Rightarrow> length (o_data ob))"

section \<open>Hashes and comparisons\<close>

text \<open>\<open>strcmp\<close> on the texts of two C strings.\<close>

fun text_cmp :: "u8 list \<Rightarrow> u8 list \<Rightarrow> int" where
  "text_cmp [] [] = 0"
| "text_cmp [] (b # bs) = - int (unat b)"
| "text_cmp (a # as) [] = int (unat a)"
| "text_cmp (a # as) (b # bs) = (if a = b then text_cmp as bs else int (unat a) - int (unat b))"

definition strcmp :: "u8 list \<Rightarrow> u8 list \<Rightarrow> int" where
  "strcmp a b = text_cmp (c_text a) (c_text b)"

text \<open>The string a name field points to; the code only reads names that are not \<open>NULL\<close>.\<close>

definition name_of :: "u8 list option \<Rightarrow> u8 list" where
  "name_of p = (case p of None \<Rightarrow> [] | Some s \<Rightarrow> s)"

definition hash_nid :: "ASN1_OBJECT \<Rightarrow> u32" where
  "hash_nid ob = word_of_int (o_nid ob)"

definition cmp_nid :: "ASN1_OBJECT \<Rightarrow> ASN1_OBJECT \<Rightarrow> int" where
  "cmp_nid a b = o_nid a - o_nid b"

definition hash_data :: "ASN1_OBJECT \<Rightarrow> u32" where
  "hash_data ob = OPENSSL_hash32 (o_data ob)"

definition hash_short_name :: "ASN1_OBJECT \<Rightarrow> u32" where
  "hash_short_name ob = OPENSSL_strhash (name_of (o_sn ob))"

definition cmp_short_name :: "ASN1_OBJECT \<Rightarrow> ASN1_OBJECT \<Rightarrow> int" where
  "cmp_short_name a b = strcmp (name_of (o_sn a)) (name_of (o_sn b))"

definition hash_long_name :: "ASN1_OBJECT \<Rightarrow> u32" where
  "hash_long_name ob = OPENSSL_strhash (name_of (o_ln ob))"

definition cmp_long_name :: "ASN1_OBJECT \<Rightarrow> ASN1_OBJECT \<Rightarrow> int" where
  "cmp_long_name a b = strcmp (name_of (o_ln a)) (name_of (o_ln b))"

text \<open>The typed trampolines of the tables of objects.\<close>

definition lh_ASN1_OBJECT_retrieve :: "obj_table \<Rightarrow> ASN1_OBJECT \<Rightarrow> ASN1_OBJECT option" where
  "lh_ASN1_OBJECT_retrieve lh ob = OPENSSL_lh_retrieve (\<lambda>f. f) (\<lambda>f. f) lh ob"

definition lh_ASN1_OBJECT_insert :: "allocator \<Rightarrow> obj_table \<Rightarrow> ASN1_OBJECT \<Rightarrow> bool \<times> obj_table" where
  "lh_ASN1_OBJECT_insert A lh ob =
     (case OPENSSL_lh_insert A (\<lambda>f. f) (\<lambda>f. f) lh ob of (ok, old_object, lh) \<Rightarrow> (ok, lh))"

section \<open>Lookups\<close>

definition get_builtin_object :: "obj_builtins \<Rightarrow> nat \<Rightarrow> ASN1_OBJECT" where
  "get_builtin_object B nid = kObjects B ! (nid - 1)"

text \<open>\<open>bsearch\<close> of the C library.\<close>

function bsearch :: "('e \<Rightarrow> int) \<Rightarrow> 'e list \<Rightarrow> nat \<Rightarrow> nat \<Rightarrow> 'e option" where
  "bsearch cmp arr lo hi =
     (if lo < hi then
        (let mid = (lo + hi) div 2; r = cmp (arr ! mid)
         in if r = 0 then Some (arr ! mid)
            else if r < 0 then bsearch cmp arr lo mid
            else bsearch cmp arr (mid + 1) hi)
      else None)"
  by pat_completeness auto
termination by (relation "measure (\<lambda>(cmp, arr, lo, hi). hi - lo)") auto

declare bsearch.simps [simp del]

definition obj_cmp :: "obj_builtins \<Rightarrow> ASN1_OBJECT \<Rightarrow> nat \<Rightarrow> int" where
  "obj_cmp B key nid = OBJ_cmp key (get_builtin_object B nid)"

definition short_name_cmp :: "obj_builtins \<Rightarrow> u8 list \<Rightarrow> nat \<Rightarrow> int" where
  "short_name_cmp B name nid = strcmp name (name_of (o_sn (get_builtin_object B nid)))"

definition long_name_cmp :: "obj_builtins \<Rightarrow> u8 list \<Rightarrow> nat \<Rightarrow> int" where
  "long_name_cmp B name nid = strcmp name (name_of (o_ln (get_builtin_object B nid)))"

text \<open>The two steps every lookup shares: the table of added objects, then the sorted built-in table.\<close>

definition added_match :: "obj_table option \<Rightarrow> ASN1_OBJECT \<Rightarrow> ASN1_OBJECT option" where
  "added_match tbl template = (case tbl of None \<Rightarrow> None | Some lh \<Rightarrow> lh_ASN1_OBJECT_retrieve lh template)"

definition builtin_nid :: "obj_builtins \<Rightarrow> (nat \<Rightarrow> int) \<Rightarrow> nat list \<Rightarrow> int" where
  "builtin_nid B cmp order =
     (case bsearch cmp order 0 (length order) of
        None \<Rightarrow> NID_undef
      | Some nid \<Rightarrow> o_nid (get_builtin_object B nid))"

definition empty_object :: ASN1_OBJECT where
  "empty_object = \<lparr>o_sn = None, o_ln = None, o_nid = 0, o_data = [], o_flags = 0\<rparr>"

definition OBJ_obj2nid :: "obj_builtins \<Rightarrow> obj_globals \<Rightarrow> ASN1_OBJECT option \<Rightarrow> int" where
  "OBJ_obj2nid B g ob =
     (case ob of
        None \<Rightarrow> NID_undef
      | Some ob \<Rightarrow>
          (if o_nid ob \<noteq> 0 then o_nid ob
           else case added_match (global_added_by_data g) ob of
             Some mat \<Rightarrow> o_nid mat
           | None \<Rightarrow> builtin_nid B (obj_cmp B ob) (kNIDsInOIDOrder B)))"

definition OBJ_cbs2nid :: "obj_builtins \<Rightarrow> obj_globals \<Rightarrow> CBS \<Rightarrow> int" where
  "OBJ_cbs2nid B g cbs =
     (if CBS_len cbs > INT_MAX then NID_undef else OBJ_obj2nid B g (Some (empty_object\<lparr>o_data := cbs\<rparr>)))"

definition OBJ_sn2nid :: "obj_builtins \<Rightarrow> obj_globals \<Rightarrow> u8 list \<Rightarrow> int" where
  "OBJ_sn2nid B g short_name =
     (case added_match (global_added_by_short_name g) (empty_object\<lparr>o_sn := Some short_name\<rparr>) of
        Some mat \<Rightarrow> o_nid mat
      | None \<Rightarrow> builtin_nid B (short_name_cmp B short_name) (kNIDsInShortNameOrder B))"

definition OBJ_ln2nid :: "obj_builtins \<Rightarrow> obj_globals \<Rightarrow> u8 list \<Rightarrow> int" where
  "OBJ_ln2nid B g long_name =
     (case added_match (global_added_by_long_name g) (empty_object\<lparr>o_ln := Some long_name\<rparr>) of
        Some mat \<Rightarrow> o_nid mat
      | None \<Rightarrow> builtin_nid B (long_name_cmp B long_name) (kNIDsInLongNameOrder B))"

text \<open>\<open>SN_undef\<close> and \<open>LN_undef\<close> are \<open>UNDEF\<close> and \<open>undefined\<close>.\<close>

definition OBJ_get_undef :: ASN1_OBJECT where
  "OBJ_get_undef =
     \<lparr>o_sn = Some [85, 78, 68, 69, 70, 0], o_ln = Some [117, 110, 100, 101, 102, 105, 110, 101, 100, 0],
      o_nid = NID_undef, o_data = [], o_flags = 0\<rparr>"

definition OBJ_nid2obj :: "obj_builtins \<Rightarrow> obj_globals \<Rightarrow> int \<Rightarrow> ASN1_OBJECT option" where
  "OBJ_nid2obj B g nid =
     (if nid = NID_undef then Some OBJ_get_undef
      else if nid > 0 \<and> nid < NUM_NID then
        (let ob = get_builtin_object B (nat nid)
         in if nid \<noteq> NID_undef \<and> o_nid ob = NID_undef then None else Some ob)
      else added_match (global_added_by_nid g) (empty_object\<lparr>o_nid := nid\<rparr>))"

definition OBJ_nid2sn :: "obj_builtins \<Rightarrow> obj_globals \<Rightarrow> int \<Rightarrow> u8 list option" where
  "OBJ_nid2sn B g nid = (case OBJ_nid2obj B g nid of None \<Rightarrow> None | Some ob \<Rightarrow> o_sn ob)"

definition OBJ_nid2ln :: "obj_builtins \<Rightarrow> obj_globals \<Rightarrow> int \<Rightarrow> u8 list option" where
  "OBJ_nid2ln B g nid = (case OBJ_nid2obj B g nid of None \<Rightarrow> None | Some ob \<Rightarrow> o_ln ob)"

definition OBJ_nid2cbb :: "allocator \<Rightarrow> obj_builtins \<Rightarrow> obj_globals \<Rightarrow> nat \<Rightarrow> int \<Rightarrow> CBB \<Rightarrow> bool \<times> CBB" where
  "OBJ_nid2cbb A B g d nid out =
     (case OBJ_nid2obj B g nid of
        None \<Rightarrow> (False, out)
      | Some ob \<Rightarrow>
          cbb_then (CBB_add_asn1 A d CBS_ASN1_OBJECT out) (\<lambda>out.
            cbb_then (CBB_add_bytes A (d + 1) (o_data ob) out) (CBB_flush A d)))"

section \<open>Creating objects\<close>

text \<open>\<open>use_nid\<close> says whether \<open>get_nid\<close> is \<open>obj_next_nid\<close> or \<open>NULL\<close>.\<close>

definition create_object_with_text_oid ::
  "allocator \<Rightarrow> bool \<Rightarrow> u8 list \<Rightarrow> u8 list option \<Rightarrow> u8 list option \<Rightarrow> obj_globals \<Rightarrow> ASN1_OBJECT option \<times> obj_globals" where
  "create_object_with_text_oid A use_nid oid short_name long_name g =
     (case CBB_init A 32 of
        None \<Rightarrow> (None, g)
      | Some cbb \<Rightarrow>
     (case CBB_add_asn1_oid_from_text A 0 (take (strlen oid) oid) cbb of
        (False, _) \<Rightarrow> (None, g)
      | (True, cbb) \<Rightarrow>
     (case CBB_finish A 0 True cbb of
        (None, _) \<Rightarrow> (None, g)
      | (Some (buf, len), _) \<Rightarrow>
     (case (if use_nid then obj_next_nid g else (NID_undef, g)) of
        (nid, g) \<Rightarrow> (ASN1_OBJECT_create A nid (take len buf) short_name long_name, g)))))"

definition OBJ_txt2obj :: "allocator \<Rightarrow> obj_builtins \<Rightarrow> obj_globals \<Rightarrow> u8 list \<Rightarrow> bool \<Rightarrow> ASN1_OBJECT option" where
  "OBJ_txt2obj A B g s dont_search_names =
     (let nid = (if dont_search_names then NID_undef
                 else if OBJ_sn2nid B g s = NID_undef then OBJ_ln2nid B g s else OBJ_sn2nid B g s)
      in if nid \<noteq> NID_undef then OBJ_nid2obj B g nid
         else fst (create_object_with_text_oid A False s None None g))"

definition OBJ_txt2nid :: "allocator \<Rightarrow> obj_builtins \<Rightarrow> obj_globals \<Rightarrow> u8 list \<Rightarrow> int" where
  "OBJ_txt2nid A B g s = OBJ_obj2nid B g (OBJ_txt2obj A B g s False)"

text \<open>A table is created on first use.\<close>

definition ensure_table ::
  "allocator \<Rightarrow> (ASN1_OBJECT \<Rightarrow> u32) \<Rightarrow> (ASN1_OBJECT \<Rightarrow> ASN1_OBJECT \<Rightarrow> int) \<Rightarrow> obj_table option \<Rightarrow> obj_table option" where
  "ensure_table A hash cmp tbl = (case tbl of None \<Rightarrow> OPENSSL_lh_new A hash cmp | Some lh \<Rightarrow> Some lh)"

definition insert_if :: "allocator \<Rightarrow> bool \<Rightarrow> obj_table \<Rightarrow> ASN1_OBJECT \<Rightarrow> bool \<times> obj_table" where
  "insert_if A guard tbl ob = (if guard then lh_ASN1_OBJECT_insert A tbl ob else (True, tbl))"

definition obj_add_object :: "allocator \<Rightarrow> ASN1_OBJECT \<Rightarrow> obj_globals \<Rightarrow> bool \<times> obj_globals" where
  "obj_add_object A ob g =
     (let ob = ob\<lparr>o_flags := o_flags ob AND NOT (ASN1_OBJECT_FLAG_DYNAMIC OR ASN1_OBJECT_FLAG_DYNAMIC_STRINGS OR
                                                ASN1_OBJECT_FLAG_DYNAMIC_DATA)\<rparr>;
          g = g\<lparr>global_added_by_nid := ensure_table A hash_nid cmp_nid (global_added_by_nid g),
                global_added_by_data := ensure_table A hash_data OBJ_cmp (global_added_by_data g),
                global_added_by_short_name := ensure_table A hash_short_name cmp_short_name (global_added_by_short_name g),
                global_added_by_long_name := ensure_table A hash_long_name cmp_long_name (global_added_by_long_name g)\<rparr>
      in case (global_added_by_nid g, global_added_by_data g, global_added_by_short_name g, global_added_by_long_name g) of
           (Some by_nid, Some by_data, Some by_sn, Some by_ln) \<Rightarrow>
             (let (ok1, by_nid) = lh_ASN1_OBJECT_insert A by_nid ob;
                  (ok2, by_data) = insert_if A (o_data ob \<noteq> []) by_data ob;
                  (ok3, by_sn) = insert_if A (o_sn ob \<noteq> None) by_sn ob;
                  (ok4, by_ln) = insert_if A (o_ln ob \<noteq> None) by_ln ob
              in (ok1 \<and> ok2 \<and> ok3 \<and> ok4,
                  g\<lparr>global_added_by_nid := Some by_nid, global_added_by_data := Some by_data,
                    global_added_by_short_name := Some by_sn, global_added_by_long_name := Some by_ln\<rparr>))
         | _ \<Rightarrow> (False, g))"

definition OBJ_create ::
  "allocator \<Rightarrow> u8 list \<Rightarrow> u8 list option \<Rightarrow> u8 list option \<Rightarrow> obj_globals \<Rightarrow> int \<times> obj_globals" where
  "OBJ_create A oid short_name long_name g =
     (case create_object_with_text_oid A True oid short_name long_name g of
        (None, g) \<Rightarrow> (NID_undef, g)
      | (Some ob, g) \<Rightarrow>
          (case obj_add_object A ob g of
             (False, g) \<Rightarrow> (NID_undef, g)
           | (True, g) \<Rightarrow> (o_nid ob, g)))"

section \<open>Text\<close>

text \<open>The result and the destination array.\<close>

definition strlcpy_int :: "u8 list \<Rightarrow> u8 list \<Rightarrow> int \<Rightarrow> int \<times> u8 list" where
  "strlcpy_int dst src dst_size =
     (case OPENSSL_strlcpy dst src (if dst_size < 0 then 0 else nat dst_size) of
        (dst, ret) \<Rightarrow> (if ret > INT_MAX then (- 1, dst) else (int ret, dst)))"

definition OBJ_obj2txt ::
  "allocator \<Rightarrow> obj_builtins \<Rightarrow> obj_globals \<Rightarrow> u8 list \<Rightarrow> int \<Rightarrow> ASN1_OBJECT option \<Rightarrow> bool \<Rightarrow> int \<times> u8 list" where
  "OBJ_obj2txt A B g out out_len ob always_return_oid =
     (case ob of
        None \<Rightarrow> strlcpy_int out [0] out_len
      | Some ob' \<Rightarrow>
          (if o_data ob' = [] then strlcpy_int out [0] out_len
           else
             (let nid = (if always_return_oid then NID_undef else OBJ_obj2nid B g ob);
                  name = (if nid = NID_undef then None
                          else case OBJ_nid2ln B g nid of None \<Rightarrow> OBJ_nid2sn B g nid | Some ln \<Rightarrow> Some ln)
              in case name of
                   Some nm \<Rightarrow> strlcpy_int out nm out_len
                 | None \<Rightarrow>
                     (case CBS_asn1_oid_to_text A (o_data ob') of
                        None \<Rightarrow> (- 1, if out_len > 0 then out[0 := 0] else out)
                      | Some txt' \<Rightarrow> strlcpy_int out txt' out_len))))"

end
