(* ===== verification/Obj_Correct.thy ===== *)
theory Obj_Correct
  imports Obj
begin

text \<open>
  Correctness of \<open>Obj\<close>: the four keys satisfy the contract of the hash table, an object that was
  created is found by its number, its identifier and its names, and creation succeeds when memory is
  granted.
\<close>

section \<open>The keys of the tables\<close>

lemma text_cmp_0: "text_cmp a b = 0 \<longleftrightarrow> a = b" if "\<forall>c\<in>set a. c \<noteq> 0" "\<forall>c\<in>set b. c \<noteq> 0"
  using that
proof (induction a b rule: text_cmp.induct)
  case (4 a as b bs)
  then show ?case by (auto simp: word_uint_eq_iff)
qed (auto simp: uint_0_iff)

lemma c_text_no_zero: "c \<in> set (c_text s) \<Longrightarrow> c \<noteq> 0"
  by (auto simp: c_text_def dest: set_takeWhileD)

lemma strcmp_0: "strcmp a b = 0 \<longleftrightarrow> c_text a = c_text b"
  unfolding strcmp_def by (rule text_cmp_0) (auto dest: c_text_no_zero)

lemma strhash_text: "OPENSSL_strhash s = OPENSSL_hash32 (c_text s)"
  by (simp add: OPENSSL_strhash_def strlen_def c_text_def flip: takeWhile_eq_take)

lemma memcmp_0: "length a = length b \<Longrightarrow> OPENSSL_memcmp a b (length a) = 0 \<longleftrightarrow> a = b"
  by (induction a b rule: list_induct2) (auto simp: word_uint_eq_iff)

lemma OBJ_cmp_0: "OBJ_cmp a b = 0 \<longleftrightarrow> o_data a = o_data b"
  using memcmp_0 [of "o_data a" "o_data b"] by (auto simp: OBJ_cmp_def)

lemma cmp_name_0:
  "cmp_nid a b = 0 \<longleftrightarrow> o_nid a = o_nid b"
  "cmp_short_name a b = 0 \<longleftrightarrow> c_text (name_of (o_sn a)) = c_text (name_of (o_sn b))"
  "cmp_long_name a b = 0 \<longleftrightarrow> c_text (name_of (o_ln a)) = c_text (name_of (o_ln b))"
  by (auto simp: cmp_nid_def cmp_short_name_def cmp_long_name_def strcmp_0)

interpretation nid_key: hashed_key hash_nid cmp_nid
  by unfold_locales (auto simp: cmp_name_0 hash_nid_def)

interpretation data_key: hashed_key hash_data OBJ_cmp
  by unfold_locales (auto simp: OBJ_cmp_0 hash_data_def)

interpretation sn_key: hashed_key hash_short_name cmp_short_name
  by unfold_locales (auto simp: cmp_name_0 hash_short_name_def strhash_text)

interpretation ln_key: hashed_key hash_long_name cmp_long_name
  by unfold_locales (auto simp: cmp_name_0 hash_long_name_def strhash_text)

section \<open>The registry\<close>

text \<open>A table of the registry, with room for one more object.\<close>

definition table_ok :: "(ASN1_OBJECT \<Rightarrow> u32) \<Rightarrow> (ASN1_OBJECT \<Rightarrow> ASN1_OBJECT \<Rightarrow> int) \<Rightarrow> nat \<Rightarrow> obj_table \<Rightarrow> bool" where
  "table_ok hash cmp n lh \<longleftrightarrow> lh_wf hash cmp lh \<and> lh_hash lh = hash \<and> lh_comp lh = cmp \<and> length (lh_items lh) \<le> n"

definition registry_ok :: "nat \<Rightarrow> obj_globals \<Rightarrow> bool" where
  "registry_ok n g \<longleftrightarrow>
     (\<forall>lh. global_added_by_nid g = Some lh \<longrightarrow> table_ok hash_nid cmp_nid n lh) \<and>
     (\<forall>lh. global_added_by_data g = Some lh \<longrightarrow> table_ok hash_data OBJ_cmp n lh) \<and>
     (\<forall>lh. global_added_by_short_name g = Some lh \<longrightarrow> table_ok hash_short_name cmp_short_name n lh) \<and>
     (\<forall>lh. global_added_by_long_name g = Some lh \<longrightarrow> table_ok hash_long_name cmp_long_name n lh)"

lemma new_table: "OPENSSL_lh_new A hash cmp = Some lh \<Longrightarrow> table_ok hash cmp n lh"
  by (auto simp: OPENSSL_lh_new_def table_ok_def lh_wf_def lh_items_def placed_def distinct_classes_def
      kMinNumBuckets_def size_mod_def split: option.splits)

lemma ensure_table_ok:
  "ensure_table A hash cmp tbl = Some lh \<Longrightarrow> (\<And>lh. tbl = Some lh \<Longrightarrow> table_ok hash cmp n lh) \<Longrightarrow> table_ok hash cmp n lh"
  by (auto simp: ensure_table_def new_table split: option.splits)

context hashed_key
begin

lemma distinct_items: "distinct_classes cmp its \<Longrightarrow> distinct its"
  using eq_refl by (induction its) (auto simp: distinct_classes_def)

lemma card_lh_set: "lh_wf hash cmp lh \<Longrightarrow> card (lh_set lh) = length (lh_items lh)"
proof -
  assume wf: "lh_wf hash cmp lh"
  have inj: "inj_on it_data (set (lh_items lh))"
    using distinct_classes_unique wf eq_refl unfolding inj_on_def lh_wf_def by metis
  have "distinct (lh_items lh)" using wf distinct_items by (simp add: lh_wf_def)
  then show ?thesis using card_image [OF inj] by (simp add: lh_set_def distinct_card)
qed

lemma table_insert:
  fixes lh :: "('a, 'a \<Rightarrow> u32, 'a \<Rightarrow> 'a \<Rightarrow> int) LHASH"
  assumes wf: "lh_wf hash cmp lh" "lh_hash lh = hash" "lh_comp lh = cmp" and n: "length (lh_items lh) \<le> n" "n + 1 < size_mod"
    and ins: "OPENSSL_lh_insert A (\<lambda>f. f) (\<lambda>f. f) lh ob = (True, old, lh')"
  shows "lh_wf hash cmp lh' \<and> lh_hash lh' = hash \<and> lh_comp lh' = cmp \<and> length (lh_items lh') \<le> n + 1 \<and>
    (\<forall>k. OPENSSL_lh_retrieve (\<lambda>f. f) (\<lambda>f. f) lh' k =
         (if cmp ob k = 0 then Some ob else OPENSSL_lh_retrieve (\<lambda>f. f) (\<lambda>f. f) lh k))"
proof -
  have post: "lh_post lh (insert ob {x \<in> lh_set lh. cmp x ob \<noteq> 0}) lh'"
    using insert_correct [where call_hash = "\<lambda>f. f" and call_cmp = "\<lambda>f. f" and A = A and d = ob, OF wf] n ins by auto
  then have k: "lh_wf hash cmp lh'" "lh_hash lh' = hash" "lh_comp lh' = cmp" "lh_set lh' = insert ob {x \<in> lh_set lh. cmp x ob \<noteq> 0}"
    using wf by (auto simp: lh_post_def)
  have fin: "finite (lh_set lh)" by (simp add: lh_set_def)
  have "card (lh_set lh') \<le> Suc (card {x \<in> lh_set lh. cmp x ob \<noteq> 0})" using k(4) fin by (simp add: card_insert_if)
  also have "card {x \<in> lh_set lh. cmp x ob \<noteq> 0} \<le> card (lh_set lh)" by (rule card_mono [OF fin]) auto
  finally have "length (lh_items lh') \<le> n + 1" using card_lh_set [OF k(1)] card_lh_set [OF wf(1)] n(1) by simp
  moreover have "lh_post lh ({ob} \<union> {x \<in> lh_set lh. cmp x ob \<noteq> 0}) lh'" using post by simp
  then have "OPENSSL_lh_retrieve (\<lambda>f. f) (\<lambda>f. f) lh' k =
      (if cmp ob k = 0 then Some ob else OPENSSL_lh_retrieve (\<lambda>f. f) (\<lambda>f. f) lh k)" for k
    using retrieve_post [where call_hash = "\<lambda>f. f" and call_cmp = "\<lambda>f. f" and d = ob and S = "{ob}", OF wf] by simp
  ultimately show ?thesis using k by blast
qed

end

text \<open>The same for the guarded insertions of \<open>obj_add_object\<close>.\<close>

lemma insert_if_ok:
  assumes key: "hashed_key hash cmp" and tbl: "table_ok hash cmp n lh" and n: "n + 1 < size_mod"
    and ins: "insert_if A guard lh ob = (True, lh')"
  shows "table_ok hash cmp (n + 1) lh' \<and> (guard \<longrightarrow> (\<forall>k. cmp ob k = 0 \<longrightarrow> lh_ASN1_OBJECT_retrieve lh' k = Some ob))"
proof (cases guard)
  case True
  then obtain old where "OPENSSL_lh_insert A (\<lambda>f. f) (\<lambda>f. f) lh ob = (True, old, lh')"
    using ins by (auto simp: insert_if_def lh_ASN1_OBJECT_insert_def split: prod.splits)
  then show ?thesis
    using hashed_key.table_insert [OF key, of lh n A ob old lh'] tbl n True
    by (auto simp: table_ok_def lh_ASN1_OBJECT_retrieve_def)
next
  case False
  then show ?thesis using ins tbl by (auto simp: insert_if_def table_ok_def)
qed

text \<open>What a successful \<open>obj_add_object\<close> leaves in the registry.\<close>

definition registered :: "ASN1_OBJECT \<Rightarrow> obj_globals \<Rightarrow> bool" where
  "registered ob g \<longleftrightarrow>
     (\<forall>k. cmp_nid ob k = 0 \<longrightarrow> added_match (global_added_by_nid g) k = Some ob) \<and>
     (o_data ob \<noteq> [] \<longrightarrow> (\<forall>k. OBJ_cmp ob k = 0 \<longrightarrow> added_match (global_added_by_data g) k = Some ob)) \<and>
     (o_sn ob \<noteq> None \<longrightarrow> (\<forall>k. cmp_short_name ob k = 0 \<longrightarrow> added_match (global_added_by_short_name g) k = Some ob)) \<and>
     (o_ln ob \<noteq> None \<longrightarrow> (\<forall>k. cmp_long_name ob k = 0 \<longrightarrow> added_match (global_added_by_long_name g) k = Some ob))"

definition static_object :: "ASN1_OBJECT \<Rightarrow> ASN1_OBJECT" where
  "static_object ob = ob\<lparr>o_flags := o_flags ob AND NOT (ASN1_OBJECT_FLAG_DYNAMIC OR ASN1_OBJECT_FLAG_DYNAMIC_STRINGS OR
     ASN1_OBJECT_FLAG_DYNAMIC_DATA)\<rparr>"

lemma add_object_registers:
  assumes reg: "registry_ok n g" and n: "n + 1 < size_mod" and add: "obj_add_object A ob g = (True, g')"
  shows "registry_ok (n + 1) g' \<and> registered (static_object ob) g' \<and> global_next_nid g' = global_next_nid g"
proof -
  let ?ob = "static_object ob"
  obtain t1 t2 t3 t4 where t: "ensure_table A hash_nid cmp_nid (global_added_by_nid g) = Some t1"
    "ensure_table A hash_data OBJ_cmp (global_added_by_data g) = Some t2"
    "ensure_table A hash_short_name cmp_short_name (global_added_by_short_name g) = Some t3"
    "ensure_table A hash_long_name cmp_long_name (global_added_by_long_name g) = Some t4"
    using add by (auto simp: obj_add_object_def Let_def split: option.splits)
  obtain u1 u2 u3 u4 where u: "insert_if A True t1 ?ob = (True, u1)" "insert_if A (o_data ?ob \<noteq> []) t2 ?ob = (True, u2)"
    "insert_if A (o_sn ?ob \<noteq> None) t3 ?ob = (True, u3)" "insert_if A (o_ln ?ob \<noteq> None) t4 ?ob = (True, u4)"
    and g': "global_added_by_nid g' = Some u1" "global_added_by_data g' = Some u2" "global_added_by_short_name g' = Some u3"
    "global_added_by_long_name g' = Some u4" "global_next_nid g' = global_next_nid g"
    using add t by (auto simp: obj_add_object_def Let_def insert_if_def [of A True] static_object_def split: prod.splits)
  have ok: "table_ok hash_nid cmp_nid n t1" "table_ok hash_data OBJ_cmp n t2"
    "table_ok hash_short_name cmp_short_name n t3" "table_ok hash_long_name cmp_long_name n t4"
    using reg t ensure_table_ok by (auto simp: registry_ok_def)
  note r1 = insert_if_ok [OF nid_key.hashed_key_axioms ok(1) n u(1)]
  note r2 = insert_if_ok [OF data_key.hashed_key_axioms ok(2) n u(2)]
  note r3 = insert_if_ok [OF sn_key.hashed_key_axioms ok(3) n u(3)]
  note r4 = insert_if_ok [OF ln_key.hashed_key_axioms ok(4) n u(4)]
  have "registry_ok (n + 1) g'" using r1 r2 r3 r4 g' by (simp add: registry_ok_def)
  moreover have "registered ?ob g'" using r1 r2 r3 r4 g' unfolding registered_def added_match_def by simp
  ultimately show ?thesis using g'(5) by simp
qed

section \<open>Creating and finding\<close>

lemma c_text_take: "c_text (take (strlen s + 1) s) = c_text s"
proof (induction s)
  case (Cons c s)
  then show ?case by (simp add: strlen_def)
qed simp

lemma dup_name_Some:
  "dup_name A p = Some q \<Longrightarrow> (q = None \<longleftrightarrow> p = None) \<and> c_text (name_of q) = c_text (name_of p)"
proof (cases p)
  case (Some t)
  assume "dup_name A p = Some q"
  then obtain t' where "OPENSSL_memdup A (take (strlen t + 1) t) = Some t'" "q = Some t'"
    using Some by (auto simp: dup_name_def OPENSSL_strdup_def split: option.splits)
  then show ?thesis using OPENSSL_memdup_Some c_text_take [of t] Some by (auto simp: name_of_def)
qed (simp add: dup_name_def)

lemma create_Some:
  assumes "ASN1_OBJECT_create A nid data sn ln = Some ob"
  shows "o_nid ob = nid" "o_data ob = data" "o_sn ob = None \<longleftrightarrow> sn = None" "o_ln ob = None \<longleftrightarrow> ln = None"
    "c_text (name_of (o_sn ob)) = c_text (name_of sn)" "c_text (name_of (o_ln ob)) = c_text (name_of ln)" "length data \<le> INT_MAX"
  using assms unfolding ASN1_OBJECT_create_def OBJ_dup_def ASN1_OBJECT_new_def
  by (auto simp: ASN1_OBJECT_FLAG_DYNAMIC_def ASN1_OBJECT_FLAG_DYNAMIC_STRINGS_def ASN1_OBJECT_FLAG_DYNAMIC_DATA_def
      dest!: dup_name_Some OPENSSL_memdup_Some split: option.splits if_splits)

lemma text_oid_Some:
  assumes "create_object_with_text_oid A use_nid oid sn ln g = (Some ob, g')"
  shows "\<exists>arcs. oid_ok arcs \<and> c_text oid = dotted arcs \<and>
    ASN1_OBJECT_create A (if use_nid then sint (global_next_nid g) else NID_undef) (oid_der arcs) sn ln = Some ob \<and>
    g' = (if use_nid then snd (obj_next_nid g) else g)"
proof -
  obtain c0 c1 buf len c2 where i: "CBB_init A 32 = Some c0"
    and w: "CBB_add_asn1_oid_from_text A 0 (c_text oid) c0 = (True, c1)"
    and f: "CBB_finish A 0 True c1 = (Some (buf, len), c2)"
    and c: "ASN1_OBJECT_create A (if use_nid then sint (global_next_nid g) else NID_undef) (take len buf) sn ln = Some ob"
    and g': "g' = (if use_nid then snd (obj_next_nid g) else g)"
    using assms unfolding create_object_with_text_oid_def
    by (auto simp: strlen_def c_text_def obj_next_nid_def simp flip: takeWhile_eq_take split: option.splits prod.splits bool.splits if_splits)
  obtain arcs where arcs: "oid_ok arcs" "c_text oid = dotted arcs" using oid_from_text_dotted [OF w] by blast
  note i' = cbb_init_ok [OF i, unfolded size_mod_def, simplified]
  have p: "append_post A 0 (oid_der arcs) c0 c1"
    using appendsD [OF appends_oid_from_text [OF arcs(1)] i'(1)] w arcs(2) by simp
  then have "take len buf = oid_der arcs"
    using finish_ok [of c1 A True buf len c2] f i' by (simp add: append_post_def)
  then show ?thesis using arcs c g' by auto
qed

lemma oid_der_nonempty: "oid_ok arcs \<Longrightarrow> oid_der arcs \<noteq> []"
  by (auto simp: oid_ok_def oid_der_def der_oid_def base128_def split: list.splits)

text \<open>The object a creation registers and how it is found.\<close>

lemma create_finds:
  assumes reg: "registry_ok n g" "n + 1 < size_mod" and cr: "OBJ_create A oid sn ln g = (nid, g')" "nid \<noteq> NID_undef"
  shows "nid = sint (global_next_nid g) \<and> registry_ok (n + 1) g' \<and> global_next_nid g' = global_next_nid g + 1 \<and>
    (\<exists>arcs. oid_ok arcs \<and> c_text oid = dotted arcs \<and> OBJ_cbs2nid B g' (oid_der arcs) = nid \<and>
       (\<exists>ob. added_match (global_added_by_nid g') (empty_object\<lparr>o_nid := nid\<rparr>) = Some ob \<and> o_data ob = oid_der arcs \<and> o_nid ob = nid \<and>
          c_text (name_of (o_sn ob)) = c_text (name_of sn) \<and> c_text (name_of (o_ln ob)) = c_text (name_of ln))) \<and>
    (\<forall>s. sn = Some s \<longrightarrow> OBJ_sn2nid B g' s = nid) \<and> (\<forall>s. ln = Some s \<longrightarrow> OBJ_ln2nid B g' s = nid)"
proof -
  obtain ob g1 where t: "create_object_with_text_oid A True oid sn ln g = (Some ob, g1)"
    and a: "obj_add_object A ob g1 = (True, g')" and nid: "nid = o_nid ob"
    using cr by (auto simp: OBJ_create_def split: prod.splits option.splits bool.splits)
  obtain arcs where arcs: "oid_ok arcs" "c_text oid = dotted arcs"
    and c: "ASN1_OBJECT_create A (sint (global_next_nid g)) (oid_der arcs) sn ln = Some ob" and g1: "g1 = snd (obj_next_nid g)"
    using text_oid_Some [OF t] by auto
  note cs = create_Some [OF c]
  have "registry_ok n g1" using reg(1) by (simp add: g1 obj_next_nid_def registry_ok_def)
  note add = add_object_registers [OF this reg(2) a]
  let ?ob = "static_object ob"
  have fs: "o_nid ?ob = o_nid ob" "o_data ?ob = o_data ob" "o_sn ?ob = o_sn ob" "o_ln ?ob = o_ln ob" by (simp_all add: static_object_def)
  have "o_data ?ob \<noteq> []" using cs(2) fs oid_der_nonempty [OF arcs(1)] by simp
  then have m: "\<And>k. o_nid k = nid \<Longrightarrow> added_match (global_added_by_nid g') k = Some ?ob"
    "\<And>k. o_data k = oid_der arcs \<Longrightarrow> added_match (global_added_by_data g') k = Some ?ob"
    "\<And>s k. sn = Some s \<Longrightarrow> c_text (name_of (o_sn k)) = c_text s \<Longrightarrow> added_match (global_added_by_short_name g') k = Some ?ob"
    "\<And>s k. ln = Some s \<Longrightarrow> c_text (name_of (o_ln k)) = c_text s \<Longrightarrow> added_match (global_added_by_long_name g') k = Some ?ob"
    using add cs fs nid unfolding registered_def cmp_name_0 OBJ_cmp_0 by (auto simp: name_of_def)
  have "OBJ_cbs2nid B g' (oid_der arcs) = nid"
    using m(2) cs(7) nid fs by (simp add: OBJ_cbs2nid_def OBJ_obj2nid_def CBS_len_def empty_object_def)
  moreover have "OBJ_sn2nid B g' s = nid" if "sn = Some s" for s
    using m(3) [OF that] nid fs by (simp add: OBJ_sn2nid_def name_of_def)
  moreover have "OBJ_ln2nid B g' s = nid" if "ln = Some s" for s
    using m(4) [OF that] nid fs by (simp add: OBJ_ln2nid_def name_of_def)
  moreover have "added_match (global_added_by_nid g') (empty_object\<lparr>o_nid := nid\<rparr>) = Some ?ob" using m(1) by simp
  ultimately show ?thesis using add arcs cs fs nid by (auto simp: g1 obj_next_nid_def)
qed

text \<open>Creation succeeds when memory is granted and nothing is too long.\<close>

lemma malloc_granted: "\<forall>k. malloc_ok A k \<Longrightarrow> n + 8 < size_mod \<Longrightarrow> OPENSSL_malloc A n \<noteq> None"
  by (simp add: OPENSSL_malloc_def OPENSSL_MALLOC_PREFIX_def size_add_exact)

lemma memdup_granted: "\<forall>k. malloc_ok A k \<Longrightarrow> length d + 8 < size_mod \<Longrightarrow> d \<noteq> [] \<Longrightarrow> OPENSSL_memdup A d \<noteq> None"
  using malloc_granted [of A "length d"] by (auto simp: OPENSSL_memdup_def)

lemma dup_name_granted:
  assumes "\<forall>k. malloc_ok A k" "length (name_of p) + 8 < size_mod" "p \<noteq> Some []"
  shows "dup_name A p \<noteq> None"
proof (cases p)
  case (Some s)
  then have "take (strlen s + 1) s \<noteq> []" "length (take (strlen s + 1) s) + 8 < size_mod"
    using assms(2,3) by (auto simp: name_of_def)
  then show ?thesis using memdup_granted [OF assms(1), of "take (strlen s + 1) s"] Some
    by (auto simp: dup_name_def OPENSSL_strdup_def split: option.splits)
qed (simp add: dup_name_def)

lemma create_granted:
  assumes "\<forall>k. malloc_ok A k" "length data \<le> INT_MAX" "data \<noteq> []"
    and "length (name_of sn) + 8 < size_mod" "sn \<noteq> Some []" "length (name_of ln) + 8 < size_mod" "ln \<noteq> Some []"
  shows "\<exists>ob. ASN1_OBJECT_create A nid data sn ln = Some ob"
proof -
  have "OPENSSL_malloc A sizeof_ASN1_OBJECT \<noteq> None" "OPENSSL_memdup A data \<noteq> None"
    using malloc_granted [OF assms(1)] memdup_granted [OF assms(1)] assms(2,3)
    by (auto simp: sizeof_ASN1_OBJECT_def size_mod_def INT_MAX_def)
  then show ?thesis
    using dup_name_granted [OF assms(1,4,5)] dup_name_granted [OF assms(1,6,7)] assms(2,3)
    by (auto simp: ASN1_OBJECT_create_def OBJ_dup_def ASN1_OBJECT_new_def)
qed

lemma insert_granted:
  assumes key: "hashed_key hash cmp" and tbl: "table_ok hash cmp n lh" and n: "n + 1 < size_mod" and m: "\<forall>k. malloc_ok A k"
  shows "fst (insert_if A guard lh ob)"
proof -
  have "OPENSSL_malloc A sizeof_item \<noteq> None" using malloc_granted [OF m] by (simp add: sizeof_item_def size_mod_def)
  then show ?thesis
    using hashed_key.insert_correct [OF key, where lh = lh and call_hash = "\<lambda>f. f" and call_cmp = "\<lambda>f. f" and A = A and d = ob]
      tbl n by (auto simp: table_ok_def insert_if_def lh_ASN1_OBJECT_insert_def split: prod.splits)
qed

lemma ensure_granted: "\<forall>k. malloc_ok A k \<Longrightarrow> \<exists>lh. ensure_table A hash cmp tbl = Some lh"
  using malloc_granted [of A sizeof_lhash] malloc_granted [of A 128]
  by (auto simp: ensure_table_def OPENSSL_lh_new_def OPENSSL_zalloc_def OPENSSL_calloc_def kMinNumBuckets_def
      sizeof_item_ptr_def sizeof_lhash_def size_mul_def size_mod_def split: option.splits)

lemma add_granted:
  assumes reg: "registry_ok n g" and n: "n + 1 < size_mod" and m: "\<forall>k. malloc_ok A k"
  shows "fst (obj_add_object A ob g)"
proof -
  let ?ob = "static_object ob"
  obtain t1 t2 t3 t4 where t: "ensure_table A hash_nid cmp_nid (global_added_by_nid g) = Some t1"
    "ensure_table A hash_data OBJ_cmp (global_added_by_data g) = Some t2"
    "ensure_table A hash_short_name cmp_short_name (global_added_by_short_name g) = Some t3"
    "ensure_table A hash_long_name cmp_long_name (global_added_by_long_name g) = Some t4"
    using ensure_granted [OF m] by metis
  have ok: "table_ok hash_nid cmp_nid n t1" "table_ok hash_data OBJ_cmp n t2"
    "table_ok hash_short_name cmp_short_name n t3" "table_ok hash_long_name cmp_long_name n t4"
    using reg t ensure_table_ok by (auto simp: registry_ok_def)
  have "fst (insert_if A True t1 ?ob)" "fst (insert_if A (o_data ?ob \<noteq> []) t2 ?ob)"
    "fst (insert_if A (o_sn ?ob \<noteq> None) t3 ?ob)" "fst (insert_if A (o_ln ?ob \<noteq> None) t4 ?ob)"
    using insert_granted [OF nid_key.hashed_key_axioms ok(1) n m] insert_granted [OF data_key.hashed_key_axioms ok(2) n m]
      insert_granted [OF sn_key.hashed_key_axioms ok(3) n m] insert_granted [OF ln_key.hashed_key_axioms ok(4) n m] by blast+
  then show ?thesis
    using t by (auto simp: obj_add_object_def Let_def insert_if_def [of A True] static_object_def split: prod.splits)
qed

lemma OBJ_create_granted:
  assumes reg: "registry_ok n g" "n + 1 < size_mod" and m: "\<forall>k. malloc_ok A k"
    and oid: "oid_ok arcs" "c_text oid = dotted arcs" "length (oid_der arcs) \<le> INT_MAX"
    and names: "length (name_of sn) + 8 < size_mod" "sn \<noteq> Some []" "length (name_of ln) + 8 < size_mod" "ln \<noteq> Some []"
  shows "fst (OBJ_create A oid sn ln g) = sint (global_next_nid g)"
proof -
  obtain c0 where i: "CBB_init A 32 = Some c0"
    using m by (auto simp: CBB_init_def OPENSSL_malloc_def OPENSSL_MALLOC_PREFIX_def size_add_exact size_mod_def)
  note i' = cbb_init_ok [OF i, unfolded size_mod_def, simplified]
  have "cb_len (cbb_base c0) = 0" using i' length_cb_bytes [of "cbb_base c0"] by (simp add: cbb_inv_def)
  then have "ready A 0 (length (oid_der arcs)) c0"
    using i' m oid(3) by (simp add: ready_def room_def INT_MAX_def)
  from appendsD' [OF appends_oid_from_text [OF oid(1)] this] obtain c1
    where w: "CBB_add_asn1_oid_from_text A 0 (dotted arcs) c0 = (True, c1)" and p: "append_post A 0 (oid_der arcs) c0 c1" by blast
  have fl: "CBB_flush A 0 c1 = (True, c1)" using p by (simp add: append_post_def CBB_flush_def)
  obtain buf len c2 where f: "CBB_finish A 0 True c1 = (Some (buf, len), c2)" by (simp add: CBB_finish_def fl)
  have d: "take len buf = oid_der arcs" using finish_ok [of c1 A True buf len c2] f p i' by (simp add: append_post_def)
  obtain ob where ob: "ASN1_OBJECT_create A (sint (global_next_nid g)) (oid_der arcs) sn ln = Some ob"
    using create_granted [OF m oid(3) oid_der_nonempty [OF oid(1)] names] by blast
  have txt': "take (strlen oid) oid = dotted arcs" using oid(2) takeWhile_eq_take [of "\<lambda>c. c \<noteq> 0" oid] by (metis c_text_def strlen_def)
  have "create_object_with_text_oid A True oid sn ln g = (Some ob, snd (obj_next_nid g))"
    using i w f d ob by (simp add: create_object_with_text_oid_def txt' obj_next_nid_def)
  moreover have "registry_ok n (snd (obj_next_nid g))" using reg(1) by (simp add: obj_next_nid_def registry_ok_def)
  then have "fst (obj_add_object A ob (snd (obj_next_nid g)))" using add_granted reg(2) m by blast
  ultimately show ?thesis using create_Some(1) [OF ob] by (auto simp: OBJ_create_def split: prod.splits bool.splits)
qed

end
