(* ===== verification/Buf.thy ===== *)
theory Buf
  imports Mem
begin

text \<open>
  \<open>crypto/buf/buf.c\<close>: the growable byte buffer \<open>BUF_MEM\<close>. \<open>bm_data\<close> is the whole allocation (\<open>None\<close>
  before the first one), of which the first \<open>bm_length\<close> bytes are in use. An operation returns its
  result and the buffer it leaves.
\<close>

section \<open>The code\<close>

record BUF_MEM =
  bm_length :: nat
  bm_data :: "u8 list option"
  bm_max :: nat

definition sizeof_BUF_MEM :: nat where
  "sizeof_BUF_MEM = 24"

definition BUF_MEM_new :: "allocator \<Rightarrow> BUF_MEM option" where
  "BUF_MEM_new A =
     (case OPENSSL_zalloc A sizeof_BUF_MEM of
        None \<Rightarrow> None
      | Some _ \<Rightarrow> Some \<lparr>bm_length = 0, bm_data = None, bm_max = 0\<rparr>)"

definition BUF_MEM_reserve :: "allocator \<Rightarrow> BUF_MEM \<Rightarrow> nat \<Rightarrow> bool \<times> BUF_MEM" where
  "BUF_MEM_reserve A buf cap =
     (if bm_max buf \<ge> cap then (True, buf)
      else
        (let n = size_add cap 3
         in if n < cap then (False, buf)
            else
              (let n = n div 3;
                   alloc_size = size_mul n 4
               in if alloc_size div 4 \<noteq> n then (False, buf)
                  else case OPENSSL_realloc A (bm_data buf) alloc_size of
                    None \<Rightarrow> (False, buf)
                  | Some new_buf \<Rightarrow> (True, buf\<lparr>bm_data := Some new_buf, bm_max := alloc_size\<rparr>))))"

definition buf_write :: "nat \<Rightarrow> u8 list \<Rightarrow> BUF_MEM \<Rightarrow> BUF_MEM" where
  "buf_write off bs buf = buf\<lparr>bm_data := map_option (write_at off bs) (bm_data buf)\<rparr>"

definition BUF_MEM_grow :: "allocator \<Rightarrow> BUF_MEM \<Rightarrow> nat \<Rightarrow> nat \<times> BUF_MEM" where
  "BUF_MEM_grow A buf len =
     (case BUF_MEM_reserve A buf len of
        (False, buf) \<Rightarrow> (0, buf)
      | (True, buf) \<Rightarrow>
          (let buf = (if bm_length buf < len
                      then buf_write (bm_length buf) (replicate (len - bm_length buf) 0) buf else buf)
           in (len, buf\<lparr>bm_length := len\<rparr>)))"

definition BUF_MEM_grow_clean :: "allocator \<Rightarrow> BUF_MEM \<Rightarrow> nat \<Rightarrow> nat \<times> BUF_MEM" where
  "BUF_MEM_grow_clean A buf len = BUF_MEM_grow A buf len"

definition BUF_MEM_append :: "allocator \<Rightarrow> BUF_MEM \<Rightarrow> u8 list \<Rightarrow> bool \<times> BUF_MEM" where
  "BUF_MEM_append A buf inp =
     (let len = length inp
      in if len = 0 then (True, buf)
         else
           (let new_len = size_add (bm_length buf) len
            in if new_len < len then (False, buf)
               else case BUF_MEM_reserve A buf new_len of
                 (False, buf) \<Rightarrow> (False, buf)
               | (True, buf) \<Rightarrow> (True, (buf_write (bm_length buf) inp buf)\<lparr>bm_length := new_len\<rparr>)))"

definition BUF_strdup :: "allocator \<Rightarrow> u8 list option \<Rightarrow> u8 list option" where
  "BUF_strdup A str = OPENSSL_strdup A str"

definition BUF_strnlen :: "u8 list \<Rightarrow> nat \<Rightarrow> nat" where
  "BUF_strnlen str max_len = OPENSSL_strnlen str max_len"

definition BUF_strndup :: "allocator \<Rightarrow> u8 list \<Rightarrow> nat \<Rightarrow> u8 list option" where
  "BUF_strndup A str sz = OPENSSL_strndup A str sz"

definition BUF_strlcpy :: "u8 list \<Rightarrow> u8 list \<Rightarrow> nat \<Rightarrow> u8 list \<times> nat" where
  "BUF_strlcpy dst src dst_size = OPENSSL_strlcpy dst src dst_size"

definition BUF_strlcat :: "u8 list \<Rightarrow> u8 list \<Rightarrow> nat \<Rightarrow> u8 list \<times> nat" where
  "BUF_strlcat dst src dst_size = OPENSSL_strlcat dst src dst_size"

definition BUF_memdup :: "allocator \<Rightarrow> u8 list \<Rightarrow> u8 list option" where
  "BUF_memdup A data = OPENSSL_memdup A data"

section \<open>Correctness\<close>

text \<open>The bytes in use, and the invariant.\<close>

definition bm_bytes :: "BUF_MEM \<Rightarrow> u8 list" where
  "bm_bytes buf = (case bm_data buf of None \<Rightarrow> [] | Some d \<Rightarrow> take (bm_length buf) d)"

definition bm_inv :: "BUF_MEM \<Rightarrow> bool" where
  "bm_inv buf \<longleftrightarrow>
     bm_length buf \<le> bm_max buf \<and> bm_max buf < size_mod \<and>
     bm_max buf = (case bm_data buf of None \<Rightarrow> 0 | Some d \<Rightarrow> length d)"

lemma length_bm_bytes: "bm_inv buf \<Longrightarrow> length (bm_bytes buf) = bm_length buf"
  by (auto simp: bm_inv_def bm_bytes_def split: option.splits)

lemma BUF_MEM_new_inv: "BUF_MEM_new A = Some buf \<Longrightarrow> bm_inv buf \<and> bm_bytes buf = []"
  by (auto simp: BUF_MEM_new_def bm_inv_def bm_bytes_def size_mod_def split: option.splits)

text \<open>The capacity after a reservation is at least what was asked for.\<close>

lemma reserve_size:
  assumes "\<not> size_add cap 3 < cap" "cap < size_mod" "size_mul (size_add cap 3 div 3) 4 div 4 = size_add cap 3 div 3"
  shows "cap \<le> size_mul (size_add cap 3 div 3) 4 \<and> size_mul (size_add cap 3 div 3) 4 < size_mod"
proof -
  have "size_add cap 3 = cap + 3"
    using assms(1,2) size_add_wraps [of cap 3] by (cases "cap + 3 < size_mod") (auto simp: size_add_exact size_mod_def)
  moreover have "(cap + 3) div 3 * 4 < size_mod" using size_mul_div_exact [OF assms(3)] calculation by simp
  moreover have "cap \<le> (cap + 3) div 3 * 4" by linarith
  ultimately show ?thesis by (simp add: size_mul_exact)
qed

lemma reserve_correct:
  assumes "bm_inv buf" "cap < size_mod" "BUF_MEM_reserve A buf cap = (ok, buf')"
  shows "bm_inv buf' \<and> bm_bytes buf' = bm_bytes buf \<and> bm_length buf' = bm_length buf \<and> (ok \<longrightarrow> cap \<le> bm_max buf')"
proof (cases "cap \<le> bm_max buf \<or> \<not> ok")
  case True
  then show ?thesis using assms by (auto simp: BUF_MEM_reserve_def Let_def split: if_splits option.splits)
next
  case False
  let ?n = "size_mul (size_add cap 3 div 3) 4"
  have c: "\<not> cap \<le> bm_max buf" "\<not> size_add cap 3 < cap" "?n div 4 = size_add cap 3 div 3"
    and r: "ok" "\<exists>d. OPENSSL_realloc A (bm_data buf) ?n = Some d \<and> buf' = buf\<lparr>bm_data := Some d, bm_max := ?n\<rparr>"
    using assms(3) False by (auto simp: BUF_MEM_reserve_def Let_def split: if_splits option.splits)
  then obtain d where d: "OPENSSL_realloc A (bm_data buf) ?n = Some d" "buf' = buf\<lparr>bm_data := Some d, bm_max := ?n\<rparr>" by blast
  note s = reserve_size [OF c(2) assms(2) c(3)]
  have m: "bm_max buf \<le> ?n" using s c(1) by simp
  have l: "length d = ?n" using d(1) m assms(1)
    by (auto simp: OPENSSL_realloc_def OPENSSL_malloc_def Let_def bm_inv_def split: option.splits if_splits)
  have "take (bm_length buf) d = bm_bytes buf"
  proof (cases "bm_data buf")
    case None
    then show ?thesis using assms(1) by (simp add: bm_bytes_def bm_inv_def)
  next
    case (Some old)
    then have "length old \<le> ?n" "bm_length buf \<le> length old" using m assms(1) by (auto simp: bm_inv_def)
    then show ?thesis using d(1) Some
      by (auto simp: OPENSSL_realloc_def bm_bytes_def Let_def write_at_def split: option.splits if_splits)
  qed
  then show ?thesis using d(2) s l m r(1) assms(1) by (simp add: bm_inv_def bm_bytes_def)
qed

lemma write_correct:
  assumes "bm_inv buf" "off \<le> bm_length buf" "off + length bs \<le> bm_max buf" "new = off + length bs"
  shows "bm_inv ((buf_write off bs buf)\<lparr>bm_length := new\<rparr>) \<and>
         bm_bytes ((buf_write off bs buf)\<lparr>bm_length := new\<rparr>) = take off (bm_bytes buf) @ bs"
  using assms by (cases bs) (auto simp: bm_inv_def buf_write_def bm_bytes_def write_at_def min_def split: option.splits)

lemma shrink_correct:
  "bm_inv buf \<Longrightarrow> len \<le> bm_length buf \<Longrightarrow>
   bm_inv (buf\<lparr>bm_length := len\<rparr>) \<and> bm_bytes (buf\<lparr>bm_length := len\<rparr>) = take len (bm_bytes buf)"
  by (auto simp: bm_inv_def bm_bytes_def min_def split: option.splits)

lemma append_correct:
  assumes "bm_inv buf" "length inp < size_mod" "BUF_MEM_append A buf inp = (ok, buf')"
  shows "bm_inv buf' \<and> bm_bytes buf' = (if ok then bm_bytes buf @ inp else bm_bytes buf)"
proof (cases "inp = [] \<or> size_add (bm_length buf) (length inp) < length inp")
  case True
  then show ?thesis using assms by (auto simp: BUF_MEM_append_def Let_def split: if_splits)
next
  case False
  have bl: "bm_length buf < size_mod" using assms(1) by (simp add: bm_inv_def)
  have n: "size_add (bm_length buf) (length inp) = bm_length buf + length inp" "bm_length buf + length inp < size_mod"
    using False size_add_wraps [of "length inp" "bm_length buf"] bl assms(2)
    by (cases "bm_length buf + length inp < size_mod"; auto simp: size_add_def add.commute)+
  obtain ok1 buf1 where r: "BUF_MEM_reserve A buf (bm_length buf + length inp) = (ok1, buf1)" by fastforce
  note rc = reserve_correct [OF assms(1) n(2) r]
  have buf': "ok = ok1 \<and> buf' = (if ok1 then (buf_write (bm_length buf1) inp buf1)\<lparr>bm_length := bm_length buf + length inp\<rparr> else buf1)"
    using assms(3) False n r by (auto simp: BUF_MEM_append_def Let_def split: bool.splits)
  show ?thesis
  proof (cases ok1)
    case True
    have "take (bm_length buf) (bm_bytes buf) = bm_bytes buf" using length_bm_bytes [OF assms(1)] by simp
    then show ?thesis
      using write_correct [of buf1 "bm_length buf" inp "bm_length buf + length inp"] rc buf' True by auto
  qed (use rc buf' in simp)
qed

lemma grow_correct:
  assumes "bm_inv buf" "0 < len" "len < size_mod" "BUF_MEM_grow A buf len = (r, buf')"
  shows "bm_inv buf' \<and>
    (r = len \<and> bm_bytes buf' = take len (bm_bytes buf) @ replicate (len - bm_length buf) 0 \<or>
     r = 0 \<and> bm_bytes buf' = bm_bytes buf)"
proof -
  obtain ok1 buf1 where r: "BUF_MEM_reserve A buf len = (ok1, buf1)" by fastforce
  note rc = reserve_correct [OF assms(1,3) r]
  show ?thesis
  proof (cases "ok1 \<and> bm_length buf < len")
    case True
    then show ?thesis
      using assms(4) rc r write_correct [of buf1 "bm_length buf1" "replicate (len - bm_length buf1) 0" len] length_bm_bytes [of buf1]
      by (auto simp: BUF_MEM_grow_def Let_def)
  next
    case False
    then show ?thesis using assms(4) rc r shrink_correct [of buf1 len]
      by (auto simp: BUF_MEM_grow_def Let_def split: bool.splits)
  qed
qed

end
