(* ===== verification/Container_Props.thy ===== *)
theory Container_Props
  imports Stack_Correct Obj_Correct Buf
begin

text \<open>
  The properties of the containers: the pointer stack, the hash table with the object registry built
  on it, and the byte buffer, each with a witness on a concrete input where it has hypotheses.
\<close>

definition grant_all :: allocator where
  "grant_all = \<lparr>malloc_ok = (\<lambda>_. True), fresh = (\<lambda>_. 0)\<rparr>"

lemma grant_all_ok: "\<forall>k. malloc_ok grant_all k"
  by (simp add: grant_all_def)

section \<open>The pointer stack\<close>

text \<open>Pointers to numbers, compared by value with \<open>NULL\<close> first.\<close>

definition num_cmp :: "unit \<Rightarrow> nat ptr \<Rightarrow> nat ptr \<Rightarrow> int" where
  "num_cmp c a b = (case a of None \<Rightarrow> - 1 | Some x \<Rightarrow> int x) - (case b of None \<Rightarrow> - 1 | Some x \<Rightarrow> int x)"

lemma num_cmp_sign: "sign_comparison (num_cmp c)"
  by unfold_locales (auto simp: num_cmp_def)

definition num_stack :: "nat list \<Rightarrow> bool \<Rightarrow> (nat, unit) OPENSSL_STACK" where
  "num_stack xs s = \<lparr>st_num = length xs, st_data = map Some xs @ [None], st_sorted = s, st_num_alloc = length xs + 1, st_comp = Some ()\<rparr>"






text \<open>C9: \<open>OPENSSL_sk_sort\<close>, the in-place heap sort, leaves a permutation of the live elements in ascending
  order and sets the flag, for every comparison that is a total preorder with antisymmetric signs.\<close>

theorem sk_sort_correct:
  assumes "sk_wf sk" "st_comp sk = Some c" "\<not> st_sorted sk" "sign_comparison (call c)"
  shows "\<exists>sk'. OPENSSL_sk_sort call (Some sk) = Some sk' \<and> st_sorted sk' \<and>
    mset (sk_list sk') = mset (sk_list sk) \<and> sorted_wrt (\<lambda>a b. call c a b \<le> 0) (sk_list sk')"
  using sort_becomes [OF assms(1,2,3), of call] assms(4) by (auto simp: sk_becomes_def)

theorem sk_sort_correct_witness:
  "\<exists>sk'. OPENSSL_sk_sort num_cmp (Some (num_stack [3, 1, 2] False)) = Some sk' \<and> st_sorted sk' \<and>
    mset (sk_list sk') = mset (sk_list (num_stack [3, 1, 2] False)) \<and>
    sorted_wrt (\<lambda>a b. num_cmp () a b \<le> 0) (sk_list sk')"
proof (rule sk_sort_correct)
  show "sk_wf (num_stack [3, 1, 2] False)" by (simp add: sk_wf_def num_stack_def INT_MAX_def sizeof_ptr_def size_mod_def)
  show "sign_comparison (num_cmp ())" by (rule num_cmp_sign)
qed (simp_all add: num_stack_def)

text \<open>C17: \<open>OPENSSL_sk_find\<close> returns the position of the first match, whether it compares pointers, scans
  an unsorted stack or runs its binary search: the three ways agree with a linear search.\<close>

theorem sk_find_is_linear_search:
  assumes "sk_inv call sk" "\<And>c. st_comp sk = Some c \<Longrightarrow> sign_comparison (call c)"
  shows "OPENSSL_sk_find call (Some sk) p = first_index (sk_matches call sk p) 0 (sk_list sk)"
  using assms by (rule find_is_first)

theorem sk_find_is_linear_search_witness:
  "sk_inv num_cmp (num_stack [1, 2, 2, 5] True) \<and>
   OPENSSL_sk_find num_cmp (Some (num_stack [1, 2, 2, 5] True)) (Some 2) = Some 1"
proof -
  have inv: "sk_inv num_cmp (num_stack [1, 2, 2, 5] True)"
    by (simp add: sk_inv_def sk_wf_def sk_ordered_def sk_list_def num_stack_def num_cmp_def INT_MAX_def sizeof_ptr_def size_mod_def)
  have "OPENSSL_sk_find num_cmp (Some (num_stack [1, 2, 2, 5] True)) (Some 2) =
    first_index (sk_matches num_cmp (num_stack [1, 2, 2, 5] True) (Some 2)) 0 (sk_list (num_stack [1, 2, 2, 5] True))"
    by (rule sk_find_is_linear_search [OF inv num_cmp_sign])
  then show ?thesis using inv by (simp add: num_stack_def sk_list_def sk_matches_def num_cmp_def)
qed

text \<open>C18: insertion and deletion refine those on lists. \<open>OPENSSL_sk_insert\<close> either returns 0 and leaves the
  stack as it was, or returns the new length and inserts at the position (at the end when the position is
  beyond it) and clears the flag; it succeeds below \<open>INT_MAX\<close> elements when memory is granted.
  \<open>OPENSSL_sk_delete\<close> returns and removes the element and keeps the flag. \<open>OPENSSL_sk_delete_if\<close> asks its function
  once about each live element, in order, removes those it says yes to, and keeps the flag.\<close>

theorem sk_edit_refines:
  assumes "sk_wf sk"
  shows "(OPENSSL_sk_insert A junk (Some sk) p pos = (0, Some sk) \<and> (st_num sk \<ge> INT_MAX \<or> \<not> (\<forall>k. malloc_ok A k)) \<or>
          (\<exists>r. OPENSSL_sk_insert A junk (Some sk) p pos = (st_num sk + 1, r) \<and> sk_becomes sk (list_insert pos p (sk_list sk)) False r))
    \<and> (pos < st_num sk \<longrightarrow>
         fst (OPENSSL_sk_delete (Some sk) pos) = sk_list sk ! pos \<and>
         sk_becomes sk (take pos (sk_list sk) @ drop (pos + 1) (sk_list sk)) (st_sorted sk) (snd (OPENSSL_sk_delete (Some sk) pos)))
    \<and> (\<exists>r. OPENSSL_sk_delete_if (\<lambda>x seen. (P x, seen @ [x])) (Some sk) [] = (r, sk_list sk) \<and>
         sk_becomes sk (filter (\<lambda>x. \<not> P x) (sk_list sk)) (st_sorted sk) r)"
proof -
  have "\<exists>r. OPENSSL_sk_delete_if (\<lambda>x seen. (P x, seen @ [x])) (Some sk) [] = (r, sk_list sk) \<and>
         sk_becomes sk (filter (\<lambda>x. \<not> P x) (sk_list sk)) (st_sorted sk) r"
    using delete_if_traces [OF assms, of P "[]"] by simp
  then show ?thesis
    using insert_becomes [OF assms, of A junk p pos] insert_granted_sk [OF assms, of A junk p pos] delete_becomes [OF assms]
    by (cases "st_num sk < INT_MAX") auto
qed

theorem sk_edit_refines_witness:
  "sk_wf (num_stack [4, 5] False) \<and>
   sk_becomes (num_stack [4, 5] False) [Some 4] False (snd (OPENSSL_sk_delete (Some (num_stack [4, 5] False)) 1)) \<and>
   (\<exists>r. OPENSSL_sk_delete_if (\<lambda>x seen. (x = Some 4, seen @ [x])) (Some (num_stack [4, 5] False)) [] = (r, [Some 4, Some 5]) \<and>
      sk_becomes (num_stack [4, 5] False) [Some 5] False r)"
proof -
  have wf: "sk_wf (num_stack [4, 5] False)" by (simp add: sk_wf_def num_stack_def INT_MAX_def sizeof_ptr_def size_mod_def)
  have "1 < st_num (num_stack [4, 5] False)" by (simp add: num_stack_def)
  with sk_edit_refines [OF wf, of grant_all "\<lambda>_. None" None 1 "\<lambda>x. x = Some 4"] wf show ?thesis
    by (simp add: num_stack_def sk_list_def)
qed

text \<open>\<open>OPENSSL_sk_deep_copy\<close> neither leaks nor frees what it did not allocate. With a copy function that
  adds its result to the live objects and a release function that removes its argument, a failed copy
  leaves the live objects as they were, and a successful one adds exactly the new elements, with
  \<open>NULL\<close> entries where the original has them.\<close>

theorem sk_deep_copy_balanced:
  assumes "copier copy_func free_func" "sk_wf sk" "OPENSSL_sk_deep_copy A copy_func free_func (Some sk) live = (r, live')"
  shows "case r of None \<Rightarrow> live' = live
    | Some sk' \<Rightarrow> live' = live + mset (non_null (sk_list sk')) \<and>
        map (\<lambda>q. q = None) (sk_list sk') = map (\<lambda>q. q = None) (sk_list sk)"
  by (rule deep_copy_balanced [OF assms])

definition string_stack :: "(u8 list, unit) OPENSSL_STACK" where
  "string_stack = \<lparr>st_num = 1, st_data = [Some [97, 0], None], st_sorted = False, st_num_alloc = 2, st_comp = None\<rparr>"

theorem sk_deep_copy_balanced_witness:
  "sk_wf string_stack \<and>
   OPENSSL_sk_deep_copy grant_all (strdup_copy grant_all) string_free (Some string_stack) {#} = (Some string_stack, {#[97, 0]#}) \<and>
   {#[97, 0]#} = {#} + mset (non_null (sk_list string_stack))"
proof -
  have wf: "sk_wf string_stack" by (simp add: sk_wf_def string_stack_def INT_MAX_def sizeof_ptr_def size_mod_def)
  have "OPENSSL_sk_deep_copy grant_all (strdup_copy grant_all) string_free (Some string_stack) {#} = (Some string_stack, {#[97, 0]#})"
    by (simp add: OPENSSL_sk_deep_copy_def OPENSSL_sk_dup_def string_stack_def OPENSSL_zalloc_def OPENSSL_malloc_def grant_all_def
        OPENSSL_MALLOC_PREFIX_def sizeof_stack_def sizeof_ptr_def size_mul_def size_add_def size_mod_def strdup_copy_def
        OPENSSL_strdup_def OPENSSL_memdup_def strlen_def write_at_def)
  then show ?thesis using sk_deep_copy_balanced [OF strings.copier_axioms wf] wf by fastforce
qed

text \<open>\<open>OPENSSL_sk_set\<close> overwrites an element without clearing the flag, after which the binary
  search can miss an element that is there: after setting the first element of the sorted stack
  1, 2, 3 to 9, the search for 9 fails.\<close>

theorem sk_set_keeps_stale_flag:
  "(case OPENSSL_sk_set (Some (num_stack [1, 2, 3] True)) 0 (Some 9) of
      (_, sk) \<Rightarrow> OPENSSL_sk_is_sorted sk \<and> OPENSSL_sk_value sk 0 = Some 9 \<and> OPENSSL_sk_find num_cmp sk (Some 9) = None)"
  by (simp add: OPENSSL_sk_set_def num_stack_def OPENSSL_sk_is_sorted_def OPENSSL_sk_value_def OPENSSL_sk_find_def
      find_loop.simps num_cmp_def Let_def numeral_3_eq_3)

section \<open>The hash table\<close>

text \<open>C7: the hash table refines a map from keys to data. For a comparison whose zeros are an equivalence
  that the hash respects, a successful \<open>OPENSSL_lh_insert\<close> returns what the key was bound to and binds it to
  the new data, a failed one (only for want of memory) changes nothing, and \<open>OPENSSL_lh_delete\<close> returns the
  binding and removes it; all other keys are unaffected, whether or not the buckets are resized, and the
  invariant is kept.\<close>

theorem lh_refines_map:
  fixes lh :: "('a, 'h, 'c) LHASH" and call_hash :: "('a, 'h) lhash_hash_caller" and call_cmp :: "('a, 'c) lhash_cmp_caller"
  defines "hash \<equiv> call_hash (lh_hash lh)" and "cmp \<equiv> call_cmp (lh_comp lh)"
    and "look \<equiv> OPENSSL_lh_retrieve call_hash call_cmp"
  assumes key: "hashed_key hash cmp" and wf: "lh_wf hash cmp lh" and len: "length (lh_items lh) + 1 < size_mod"
  shows "(case OPENSSL_lh_insert A call_hash call_cmp lh d of
            (False, old, lh') \<Rightarrow> lh' = lh \<and> OPENSSL_malloc A sizeof_item = None
          | (True, old, lh') \<Rightarrow> old = look lh d \<and> lh_wf hash cmp lh' \<and>
              (\<forall>k. look lh' k = (if cmp d k = 0 then Some d else look lh k)))
       \<and> (case OPENSSL_lh_delete A call_hash call_cmp lh d of
            (old, lh') \<Rightarrow> old = look lh d \<and> lh_wf hash cmp lh' \<and>
              (\<forall>k. look lh' k = (if cmp d k = 0 then None else look lh k)))"
proof
  have c: "call_hash (lh_hash lh) = hash" "call_cmp (lh_comp lh) = cmp" by (simp_all add: hash_def cmp_def)
  note post = hashed_key.retrieve_post [OF key, where lh = lh and call_hash = call_hash and call_cmp = call_cmp and d = d, OF wf c]
  note inserted = post [where S = "{d}", simplified] and deleted = post [where S = "{}", simplified]
  have wf': "lh_wf hash cmp lh'" if "hashed_key.lh_post hash cmp lh S lh'" for S lh'
    using that key by (simp add: hashed_key.lh_post_def)
  show "case OPENSSL_lh_insert A call_hash call_cmp lh d of
            (False, old, lh') \<Rightarrow> lh' = lh \<and> OPENSSL_malloc A sizeof_item = None
          | (True, old, lh') \<Rightarrow> old = look lh d \<and> lh_wf hash cmp lh' \<and>
              (\<forall>k. look lh' k = (if cmp d k = 0 then Some d else look lh k))"
    using hashed_key.insert_correct [OF key, where lh = lh and call_hash = call_hash and call_cmp = call_cmp and d = d and A = A, OF wf c len]
      inserted wf' by (auto simp: look_def)
  have "length (lh_items lh) < size_mod" using len by simp
  from hashed_key.delete_correct [OF key, where lh = lh and call_hash = call_hash and call_cmp = call_cmp and d = d and A = A, OF wf c this]
  show "case OPENSSL_lh_delete A call_hash call_cmp lh d of
            (old, lh') \<Rightarrow> old = look lh d \<and> lh_wf hash cmp lh' \<and> (\<forall>k. look lh' k = (if cmp d k = 0 then None else look lh k))"
    using deleted wf' by (auto simp: look_def)
qed

definition nid_table :: obj_table where
  "nid_table = \<lparr>lh_num_items = 0, lh_buckets = replicate kMinNumBuckets [], lh_num_buckets = kMinNumBuckets,
     lh_callback_depth = 0, lh_comp = cmp_nid, lh_hash = hash_nid\<rparr>"

lemma nid_table_wf: "lh_wf hash_nid cmp_nid nid_table" "lh_items nid_table = []"
  by (auto simp: nid_table_def lh_wf_def lh_items_def placed_def distinct_classes_def kMinNumBuckets_def size_mod_def)

theorem lh_refines_map_witness:
  "hashed_key hash_nid cmp_nid \<and> lh_wf hash_nid cmp_nid nid_table \<and>
   (case OPENSSL_lh_delete grant_all (\<lambda>f. f) (\<lambda>f. f) nid_table empty_object of
      (old, lh') \<Rightarrow> old = OPENSSL_lh_retrieve (\<lambda>f. f) (\<lambda>f. f) nid_table empty_object \<and> lh_wf hash_nid cmp_nid lh')"
proof -
  have f: "lh_hash nid_table = hash_nid" "lh_comp nid_table = cmp_nid" by (simp_all add: nid_table_def)
  show ?thesis
    using lh_refines_map [where call_hash = "\<lambda>f. f" and call_cmp = "\<lambda>f. f" and lh = nid_table and A = grant_all and d = empty_object, unfolded f, OF nid_key.hashed_key_axioms nid_table_wf(1)]
      nid_key.hashed_key_axioms nid_table_wf by (auto simp: size_mod_def)
qed

text \<open>resizing rebuilds the buckets without losing, duplicating or misplacing an item: it permutes the
  items, keeps the cached counts and callbacks, never goes below 16 buckets, and every item ends up in the
  bucket of its hash.\<close>

theorem lh_resize_preserves:
  assumes "hashed_key hash cmp" "lh_wf hash cmp lh"
  shows "lh_wf hash cmp (lh_maybe_resize A lh) \<and> mset (lh_items (lh_maybe_resize A lh)) = mset (lh_items lh) \<and>
    lh_num_items (lh_maybe_resize A lh) = lh_num_items lh \<and> kMinNumBuckets \<le> lh_num_buckets (lh_maybe_resize A lh)"
  using hashed_key.resize_keeps [OF assms, of A] by (simp add: same_table_def lh_wf_def)

theorem lh_resize_preserves_witness:
  "lh_wf hash_nid cmp_nid nid_table \<and> lh_wf hash_nid cmp_nid (lh_maybe_resize grant_all nid_table)"
  using lh_resize_preserves [OF nid_key.hashed_key_axioms nid_table_wf(1)] nid_table_wf(1) by blast

section \<open>The object registry\<close>

text \<open>C23: an object created by \<open>OBJ_create\<close> is found again. The new number is the next free one; the
  identifier text was the dotted form of an object identifier, whose encoding \<open>OBJ_cbs2nid\<close> now maps to
  the number, as \<open>OBJ_sn2nid\<close> and \<open>OBJ_ln2nid\<close> do for the names, and above the built-in range
  \<open>OBJ_nid2obj\<close> returns an object with that encoding and number. The tables stay well formed.\<close>

theorem created_object_is_found:
  assumes "registry_ok n g" "n + 1 < size_mod" "OBJ_create A oid sn ln g = (nid, g')" "nid \<noteq> NID_undef"
  shows "nid = sint (global_next_nid g) \<and> registry_ok (n + 1) g' \<and>
    (\<exists>arcs. oid_ok arcs \<and> c_text oid = dotted arcs \<and> OBJ_cbs2nid B g' (oid_der arcs) = nid \<and>
       (NUM_NID \<le> nid \<longrightarrow> (\<exists>ob. OBJ_nid2obj B g' nid = Some ob \<and> o_data ob = oid_der arcs \<and> o_nid ob = nid))) \<and>
    (\<forall>s. sn = Some s \<longrightarrow> OBJ_sn2nid B g' s = nid) \<and> (\<forall>s. ln = Some s \<longrightarrow> OBJ_ln2nid B g' s = nid)"
  using create_finds [OF assms, of B] assms(4) by (auto simp: OBJ_nid2obj_def NUM_NID_def)

text \<open>\<open>OBJ_create\<close> succeeds for every valid identifier text, with the next number, when memory is granted
  and the sizes are in range.\<close>

theorem create_succeeds:
  assumes "registry_ok n g" "n + 1 < size_mod" "\<forall>k. malloc_ok A k"
    and "oid_ok arcs" "c_text oid = dotted arcs" "length (oid_der arcs) \<le> INT_MAX"
    and "length (name_of sn) + 8 < size_mod" "sn \<noteq> Some []" "length (name_of ln) + 8 < size_mod" "ln \<noteq> Some []"
  shows "fst (OBJ_create A oid sn ln g) = sint (global_next_nid g)"
  using assms by (rule OBJ_create_granted)

definition fresh_registry :: obj_globals where
  "fresh_registry = \<lparr>global_added_by_data = None, global_added_by_nid = None, global_added_by_short_name = None,
     global_added_by_long_name = None, global_next_nid = 965\<rparr>"

definition no_builtins :: obj_builtins where
  "no_builtins = \<lparr>kObjects = [], kNIDsInOIDOrder = [], kNIDsInShortNameOrder = [], kNIDsInLongNameOrder = []\<rparr>"

lemma fresh_registry_ok: "registry_ok 0 fresh_registry"
  by (simp add: registry_ok_def fresh_registry_def)

lemma demo_oid: "oid_ok [1, 2]" "c_text [49, 46, 50, 0] = dotted [1, 2]" "length (oid_der [1, 2]) \<le> INT_MAX"
proof -
  show "oid_ok [1, 2]" by (simp add: oid_ok_def)
  show "c_text [49, 46, 50, 0] = dotted [1, 2]" by (simp add: decimal.simps)
  show "length (oid_der [1, 2]) \<le> INT_MAX" by (simp add: oid_der_def der_oid_def base128_def INT_MAX_def)
qed

theorem create_succeeds_witness:
  "oid_ok [1, 2] \<and> fst (OBJ_create grant_all [49, 46, 50, 0] (Some [97, 0]) None fresh_registry) = 965"
  using create_succeeds [OF fresh_registry_ok _ grant_all_ok demo_oid, of "Some [97, 0]" None] demo_oid(1)
  by (simp add: size_mod_def name_of_def fresh_registry_def)

theorem created_object_is_found_witness:
  "\<exists>g'. OBJ_create grant_all [49, 46, 50, 0] (Some [97, 0]) None fresh_registry = (965, g') \<and>
     OBJ_sn2nid no_builtins g' [97, 0] = 965"
proof -
  have "fst (OBJ_create grant_all [49, 46, 50, 0] (Some [97, 0]) None fresh_registry) = 965"
    using OBJ_create_granted [OF fresh_registry_ok _ grant_all_ok demo_oid, of "Some [97, 0]" None]
    by (simp add: size_mod_def name_of_def fresh_registry_def)
  then obtain g' where g': "OBJ_create grant_all [49, 46, 50, 0] (Some [97, 0]) None fresh_registry = (965, g')"
    by (metis prod.collapse)
  have n: "0 + 1 < size_mod" "(965 :: int) \<noteq> NID_undef" by (simp_all add: size_mod_def NID_undef_def)
  show ?thesis using created_object_is_found [OF fresh_registry_ok n(1) g' n(2), of no_builtins] g' by blast
qed

section \<open>The byte buffer\<close>

text \<open>\<open>BUF_MEM_append\<close> and \<open>BUF_MEM_grow\<close> keep the buffer within its allocation and have the effect of
  appending the bytes, and of cutting or extending with zeros to the given length; when they fail the
  contents are unchanged.\<close>

theorem buf_mem_operations:
  assumes "bm_inv buf" "length inp < size_mod" "0 < len" "len < size_mod"
  shows "(case BUF_MEM_append A buf inp of (ok, buf') \<Rightarrow>
            bm_inv buf' \<and> bm_bytes buf' = (if ok then bm_bytes buf @ inp else bm_bytes buf))
       \<and> (case BUF_MEM_grow A buf len of (r, buf') \<Rightarrow>
            bm_inv buf' \<and> (r = len \<and> bm_bytes buf' = take len (bm_bytes buf) @ replicate (len - bm_length buf) 0 \<or>
                           r = 0 \<and> bm_bytes buf' = bm_bytes buf))"
proof -
  obtain ok b1 r b2 where r: "BUF_MEM_append A buf inp = (ok, b1)" "BUF_MEM_grow A buf len = (r, b2)" by fastforce
  show ?thesis
    using append_correct [OF assms(1,2) r(1)] grow_correct [OF assms(1,3,4) r(2)] r by simp
qed

theorem buf_mem_operations_witness:
  "bm_inv \<lparr>bm_length = 0, bm_data = None, bm_max = 0\<rparr> \<and>
   (case BUF_MEM_append grant_all \<lparr>bm_length = 0, bm_data = None, bm_max = 0\<rparr> [1, 2] of (ok, buf') \<Rightarrow> ok \<and> bm_bytes buf' = [1, 2])"
proof -
  have inv: "bm_inv \<lparr>bm_length = 0, bm_data = None, bm_max = 0\<rparr>" by (simp add: bm_inv_def size_mod_def)
  have "fst (BUF_MEM_append grant_all \<lparr>bm_length = 0, bm_data = None, bm_max = 0\<rparr> [1, 2])"
    by (simp add: BUF_MEM_append_def BUF_MEM_reserve_def OPENSSL_realloc_def OPENSSL_malloc_def grant_all_def
        OPENSSL_MALLOC_PREFIX_def size_add_def size_mul_def size_mod_def Let_def)
  with buf_mem_operations [OF inv, of "[1, 2]" 1 grant_all] inv show ?thesis
    by (auto simp: size_mod_def bm_bytes_def split: prod.splits)
qed

end
