(* ===== verification/Constant_Time.thy ===== *)
theory Constant_Time
  imports Mem
begin

text \<open>
  The branch-free comparisons and selections of \<open>crypto/internal.h\<close>, on the 64-bit
  \<open>crypto_word_t\<close> of the supported devices, with the comparisons they compute. An \<open>int\<close> is the
  32-bit word of its two's complement. \<open>value_barrier_w\<close> returns its argument.
\<close>

type_synonym crypto_word_t = "64 word"

section \<open>The code\<close>

definition value_barrier_w :: "crypto_word_t \<Rightarrow> crypto_word_t" where
  "value_barrier_w a = a"

definition constant_time_msb_w :: "crypto_word_t \<Rightarrow> crypto_word_t" where
  "constant_time_msb_w a = 0 - drop_bit 63 a"

definition constant_time_lt_w :: "crypto_word_t \<Rightarrow> crypto_word_t \<Rightarrow> crypto_word_t" where
  "constant_time_lt_w a b = constant_time_msb_w (a XOR ((a XOR b) OR ((a - b) XOR a)))"

definition constant_time_lt_8 :: "crypto_word_t \<Rightarrow> crypto_word_t \<Rightarrow> u8" where
  "constant_time_lt_8 a b = ucast (constant_time_lt_w a b)"

definition constant_time_ge_w :: "crypto_word_t \<Rightarrow> crypto_word_t \<Rightarrow> crypto_word_t" where
  "constant_time_ge_w a b = NOT (constant_time_lt_w a b)"

definition constant_time_ge_8 :: "crypto_word_t \<Rightarrow> crypto_word_t \<Rightarrow> u8" where
  "constant_time_ge_8 a b = ucast (constant_time_ge_w a b)"

definition constant_time_is_zero_w :: "crypto_word_t \<Rightarrow> crypto_word_t" where
  "constant_time_is_zero_w a = constant_time_msb_w (NOT a AND (a - 1))"

definition constant_time_is_zero_8 :: "crypto_word_t \<Rightarrow> u8" where
  "constant_time_is_zero_8 a = ucast (constant_time_is_zero_w a)"

definition constant_time_eq_w :: "crypto_word_t \<Rightarrow> crypto_word_t \<Rightarrow> crypto_word_t" where
  "constant_time_eq_w a b = constant_time_is_zero_w (a XOR b)"

definition constant_time_eq_8 :: "crypto_word_t \<Rightarrow> crypto_word_t \<Rightarrow> u8" where
  "constant_time_eq_8 a b = ucast (constant_time_eq_w a b)"

definition constant_time_eq_int :: "32 word \<Rightarrow> 32 word \<Rightarrow> crypto_word_t" where
  "constant_time_eq_int a b = constant_time_eq_w (scast a) (scast b)"

definition constant_time_eq_int_8 :: "32 word \<Rightarrow> 32 word \<Rightarrow> u8" where
  "constant_time_eq_int_8 a b = constant_time_eq_8 (scast a) (scast b)"

definition constant_time_select_w :: "crypto_word_t \<Rightarrow> crypto_word_t \<Rightarrow> crypto_word_t \<Rightarrow> crypto_word_t" where
  "constant_time_select_w msk a b =
     (let msk = value_barrier_w msk in (msk AND a) OR (NOT msk AND b))"

definition constant_time_select_8 :: "crypto_word_t \<Rightarrow> u8 \<Rightarrow> u8 \<Rightarrow> u8" where
  "constant_time_select_8 msk a b =
     (let m = ucast (value_barrier_w msk) in (m AND a) OR (NOT m AND b))"

definition constant_time_select_int :: "crypto_word_t \<Rightarrow> 32 word \<Rightarrow> 32 word \<Rightarrow> 32 word" where
  "constant_time_select_int msk a b = ucast (constant_time_select_w msk (scast a) (scast b))"

definition constant_time_conditional_memcpy :: "u8 list \<Rightarrow> u8 list \<Rightarrow> crypto_word_t \<Rightarrow> u8 list" where
  "constant_time_conditional_memcpy dst src msk = map2 (\<lambda>o_i in_i. constant_time_select_8 msk in_i o_i) dst src"

definition constant_time_conditional_memxor :: "u8 list \<Rightarrow> u8 list \<Rightarrow> crypto_word_t \<Rightarrow> u8 list" where
  "constant_time_conditional_memxor dst src msk =
     map2 (\<lambda>o_i in_i. o_i XOR (ucast (value_barrier_w msk) AND in_i)) dst src"

section \<open>What it computes\<close>

named_theorems ct_simps \<open>values of the constant-time operations\<close>

lemma bit_63: "bit (a :: crypto_word_t) 63 \<longleftrightarrow> 2 ^ 63 \<le> unat a"
proof -
  have "unat a < 2 ^ 64" using unsigned_less [of a] by simp
  then have "unat a div 2 ^ 63 < 2" by simp
  then have "odd (unat a div 2 ^ 63) \<longleftrightarrow> 1 \<le> unat a div 2 ^ 63" by (auto simp: less_2_cases_iff)
  also have "\<dots> \<longleftrightarrow> 2 ^ 63 \<le> unat a" 
    using le_div_geq [of "2 ^ 63" "unat a"] div_less [of "unat a" "2 ^ 63"] by (cases "2 ^ 63 \<le> unat a") auto
  finally have "odd (unat a div 2 ^ 63) \<longleftrightarrow> 2 ^ 63 \<le> unat a" .
  moreover have "bit a 63 = bit (unat a) 63" by (simp add: bit_unsigned_iff)
  ultimately show ?thesis by (simp only: bit_iff_odd)
qed

lemma drop_bit_63: "drop_bit 63 (a :: crypto_word_t) = (if bit a 63 then 1 else 0)"
proof (rule bit_word_eqI)
  fix n
  have "n = 0" if "bit a (63 + n)" using bit_imp_le_length [OF that] by simp
  then show "bit (drop_bit 63 a) n \<longleftrightarrow> bit (if bit a 63 then 1 else 0 :: crypto_word_t) n"
    by (cases "n = 0") (auto simp: bit_simps bit_1_iff)
qed

lemma msb_w [ct_simps]: "constant_time_msb_w a = (if bit a 63 then - 1 else 0)"
  by (simp add: constant_time_msb_w_def drop_bit_63)

lemma lt_w [ct_simps]: "constant_time_lt_w a b = (if a < b then - 1 else 0)"
proof -
  have "unat a < 2 ^ 64" "unat b < 2 ^ 64" using unsigned_less [of a] unsigned_less [of b] by simp_all
  then have "(if bit a 63 \<noteq> bit b 63 then bit b 63 else bit (a - b) 63) \<longleftrightarrow> unat a < unat b"
    by (auto simp: bit_63 unat_sub_if')
  moreover have "bit (a XOR ((a XOR b) OR ((a - b) XOR a))) 63 \<longleftrightarrow>
      (if bit a 63 \<noteq> bit b 63 then bit b 63 else bit (a - b) 63)"
    by (auto simp: bit_xor_iff bit_or_iff)
  ultimately show ?thesis by (simp add: constant_time_lt_w_def msb_w word_less_nat_alt)
qed

lemma ge_w [ct_simps]: "constant_time_ge_w a b = (if b \<le> a then - 1 else 0)"
  by (auto simp: constant_time_ge_w_def lt_w)

lemma is_zero_w [ct_simps]: "constant_time_is_zero_w a = (if a = 0 then - 1 else 0)"
proof -
  have "bit (NOT a AND (a - 1)) 63 \<longleftrightarrow> a = 0"
  proof (cases "a = 0")
    case False
    then have "unat (a - 1) = unat a - 1" by (simp add: unat_minus_one)
    then have "bit (a - 1) 63 \<Longrightarrow> bit a 63" by (simp add: bit_63)
    then show ?thesis using False by (auto simp: bit_and_iff bit_not_iff)
  qed (simp add: bit_simps)
  then show ?thesis by (simp add: constant_time_is_zero_w_def msb_w)
qed

lemma eq_w [ct_simps]: "constant_time_eq_w a b = (if a = b then - 1 else 0)"
proof -
  have "a XOR b = 0 \<longleftrightarrow> a = b" 
  proof
    assume z: "a XOR b = 0"
    have "a = (a XOR b) XOR b" by (simp only: xor.assoc xor_self_eq xor.right_neutral)
    then show "a = b" by (simp add: z)
  qed simp
  then show ?thesis by (simp add: constant_time_eq_w_def is_zero_w)
qed

lemma ucast_minus_1_u8 [ct_simps]: "(ucast (- 1 :: crypto_word_t) :: u8) = 0xff"
proof -
  have "(ucast (- 1 :: crypto_word_t) :: u8) = - 1" by (rule bit_word_eqI) (simp add: bit_simps)
  then show ?thesis by simp
qed

lemma all_ones_u8: "(0xff :: u8) = - 1"
  by simp

lemma eight_bit [ct_simps]:
  "constant_time_lt_8 a b = (if a < b then 0xff else 0)"
  "constant_time_ge_8 a b = (if b \<le> a then 0xff else 0)"
  "constant_time_is_zero_8 a = (if a = 0 then 0xff else 0)"
  "constant_time_eq_8 a b = (if a = b then 0xff else 0)"
  by (simp_all add: constant_time_lt_8_def constant_time_ge_8_def constant_time_is_zero_8_def constant_time_eq_8_def ct_simps)

lemma scast_inject: "(scast (a :: 32 word) :: crypto_word_t) = scast b \<longleftrightarrow> a = b"
proof
  assume "(scast a :: crypto_word_t) = scast b"
  then have "sint (scast a :: crypto_word_t) = sint (scast b :: crypto_word_t)" by simp
  then show "a = b" by (auto simp: sint_up_scast is_up intro: signed_word_eqI)
qed simp

lemma eq_int [ct_simps]:
  "constant_time_eq_int i j = (if i = j then - 1 else 0)"
  "constant_time_eq_int_8 i j = (if i = j then 0xff else 0)"
  by (simp_all add: constant_time_eq_int_def constant_time_eq_int_8_def ct_simps scast_inject)

lemma select_w [ct_simps]:
  "constant_time_select_w (- 1) a b = a"
  "constant_time_select_w 0 a b = b"
  by (simp_all add: constant_time_select_w_def value_barrier_w_def)

lemma select_8 [ct_simps]:
  "constant_time_select_8 (- 1) a b = a"
  "constant_time_select_8 0xff a b = a"
  "constant_time_select_8 0 a b = b"
proof -
  have "(ucast (- 1 :: crypto_word_t) :: u8) = - 1" "(ucast (0xff :: crypto_word_t) :: u8) = - 1"
    using ucast_minus_1_u8 all_ones_u8 by simp_all
  then show "constant_time_select_8 (- 1) a b = a" "constant_time_select_8 0xff a b = a"
    by (simp_all only: constant_time_select_8_def value_barrier_w_def Let_def) simp_all
qed (simp add: constant_time_select_8_def value_barrier_w_def)

lemma select_int [ct_simps]:
  "constant_time_select_int (- 1) i j = i"
  "constant_time_select_int 0 i j = j"
proof -
  have "(ucast (scast k :: crypto_word_t) :: 32 word) = k" for k by (rule bit_word_eqI) (simp add: bit_simps)
  then show "constant_time_select_int (- 1) i j = i" "constant_time_select_int 0 i j = j"
    by (simp_all add: constant_time_select_int_def ct_simps)
qed

lemma conditional_memcpy [ct_simps]:
  "length dst = length src \<Longrightarrow> constant_time_conditional_memcpy dst src (- 1) = src"
  "length dst = length src \<Longrightarrow> constant_time_conditional_memcpy dst src 0 = dst"
  by (simp_all add: constant_time_conditional_memcpy_def ct_simps list_eq_iff_nth_eq)

lemma conditional_memxor [ct_simps]:
  "constant_time_conditional_memxor dst src (- 1) = map2 (XOR) dst src"
  "length dst = length src \<Longrightarrow> constant_time_conditional_memxor dst src 0 = dst"
proof -
  have "(ucast (- 1 :: crypto_word_t) :: u8) = - 1" using ucast_minus_1_u8 by simp
  then show "constant_time_conditional_memxor dst src (- 1) = map2 (XOR) dst src"
    by (simp only: constant_time_conditional_memxor_def value_barrier_w_def and.left_neutral)
qed (simp add: constant_time_conditional_memxor_def value_barrier_w_def list_eq_iff_nth_eq)

end
