(* ===== verification/Base64.thy ===== *)
theory Base64
  imports Constant_Time
begin

text \<open>
  \<open>crypto/base64/base64.c\<close>: the base64 encoder and decoder, in one piece and in the streaming form of
  \<open>EVP_ENCODE_CTX\<close>.

  A function that writes through an output pointer returns the bytes it writes there, in order; the
  terminating NUL the encoders leave behind is part of them. The \<open>int\<close> results are integers.
\<close>

section \<open>Characters\<close>

definition constant_time_lt_args_8 :: "u8 \<Rightarrow> u8 \<Rightarrow> u8" where
  "constant_time_lt_args_8 a b =
     (let aw = (ucast a :: crypto_word_t); bw = (ucast b :: crypto_word_t) in ucast (constant_time_msb_w (aw - bw)))"

definition constant_time_in_range_8 :: "u8 \<Rightarrow> u8 \<Rightarrow> u8 \<Rightarrow> u8" where
  "constant_time_in_range_8 a lo hi = (let a = a - lo in constant_time_lt_args_8 a (hi - lo + 1))"

definition conv_bin2ascii :: "u8 \<Rightarrow> u8" where
  "conv_bin2ascii a =
     (let a = a AND 0x3f;
          ret = constant_time_select_8 (ucast (constant_time_eq_8 (ucast a) 62)) 43 47;
          ret = constant_time_select_8 (ucast (constant_time_lt_args_8 a 62)) (a - 52 + 48) ret;
          ret = constant_time_select_8 (ucast (constant_time_lt_args_8 a 52)) (a - 26 + 97) ret
      in constant_time_select_8 (ucast (constant_time_lt_args_8 a 26)) (a + 65) ret)"

definition base64_ascii_to_bin :: "u8 \<Rightarrow> u8" where
  "base64_ascii_to_bin a =
     (let is_upper = constant_time_in_range_8 a 65 90;
          is_lower = constant_time_in_range_8 a 97 122;
          is_digit = constant_time_in_range_8 a 48 57;
          is_plus = constant_time_eq_8 (ucast a) 43;
          is_slash = constant_time_eq_8 (ucast a) 47;
          is_equals = constant_time_eq_8 (ucast a) 61;
          ret = 0;
          ret = ret OR (is_upper AND (a - 65));
          ret = ret OR (is_lower AND (a - 97 + 26));
          ret = ret OR (is_digit AND (a - 48 + 52));
          ret = ret OR (is_plus AND 62);
          ret = ret OR (is_slash AND 63);
          is_valid = is_upper OR is_lower OR is_digit OR is_plus OR is_slash OR is_equals
      in ret OR NOT is_valid)"

section \<open>Encoding\<close>

record EVP_ENCODE_CTX =
  ctx_data_used :: nat
  ctx_data :: "u8 list"
  ctx_eof_seen :: bool
  ctx_error_encountered :: bool

definition sizeof_ctx_data :: nat where
  "sizeof_ctx_data = 48"

definition EVP_EncodedLength :: "nat \<Rightarrow> nat option" where
  "EVP_EncodedLength len =
     (if size_add len 2 < len then None
      else
        (let len = size_add len 2 div 3
         in if size_mul len 4 div 4 \<noteq> len then None
            else
              (let len = size_mul len 4
               in if size_add len 1 < len then None else Some (size_add len 1))))"

definition encode_ctx_zero :: EVP_ENCODE_CTX where
  "encode_ctx_zero =
     \<lparr>ctx_data_used = 0, ctx_data = replicate sizeof_ctx_data 0, ctx_eof_seen = False, ctx_error_encountered = False\<rparr>"

definition EVP_EncodeInit :: "EVP_ENCODE_CTX \<Rightarrow> EVP_ENCODE_CTX" where
  "EVP_EncodeInit ctx = encode_ctx_zero"

text \<open>The loop of \<open>EVP_EncodeBlock\<close>: the characters written for the remaining source.\<close>

fun encode_block_loop :: "u8 list \<Rightarrow> u8 list" where
  "encode_block_loop [] = []"
| "encode_block_loop [x] =
     (let l = push_bit 16 (ucast x :: u32)
      in [conv_bin2ascii (ucast (drop_bit 18 l)), conv_bin2ascii (ucast (drop_bit 12 l)), 61, 61])"
| "encode_block_loop [x, y] =
     (let l = push_bit 16 (ucast x :: u32) OR push_bit 8 (ucast y)
      in [conv_bin2ascii (ucast (drop_bit 18 l)), conv_bin2ascii (ucast (drop_bit 12 l)),
          conv_bin2ascii (ucast (drop_bit 6 l)), 61])"
| "encode_block_loop (x # y # z # src) =
     (let l = push_bit 16 (ucast x :: u32) OR push_bit 8 (ucast y) OR ucast z
      in [conv_bin2ascii (ucast (drop_bit 18 l)), conv_bin2ascii (ucast (drop_bit 12 l)),
          conv_bin2ascii (ucast (drop_bit 6 l)), conv_bin2ascii (ucast l)] @ encode_block_loop src)"

text \<open>The bytes written and the returned length.\<close>

definition EVP_EncodeBlock :: "u8 list \<Rightarrow> u8 list \<times> nat" where
  "EVP_EncodeBlock src = (let dst = encode_block_loop src in (dst @ [0], length dst))"

text \<open>
  One full line: the encoded block without its NUL, then a newline. \<open>encode_lines\<close> is the loop over
  the full blocks of the input; \<open>None\<close> is its early return when \<open>total\<close> overflows.
\<close>

definition encode_line :: "u8 list \<Rightarrow> u8 list \<times> nat" where
  "encode_line src = (case EVP_EncodeBlock src of (dst, encoded) \<Rightarrow> (take encoded dst @ [10], encoded))"

function encode_lines :: "u8 list \<Rightarrow> u8 list \<Rightarrow> nat \<Rightarrow> u8 list \<times> (u8 list \<times> nat) option" where
  "encode_lines out inp tot =
     (if length inp \<ge> sizeof_ctx_data then
        (case encode_line (take sizeof_ctx_data inp) of
           (line, encoded) \<Rightarrow>
             (if size_add (size_add tot encoded) 1 < tot then (out @ line, None)
              else encode_lines (out @ line) (drop sizeof_ctx_data inp) (size_add tot (size_add encoded 1))))
      else (out, Some (inp, tot)))"
  by pat_completeness auto
termination
  by (relation "measure (\<lambda>(out, inp, tot). length inp)") (auto simp: sizeof_ctx_data_def)

declare encode_lines.simps [simp del]

text \<open>A NUL follows what was written, if anything was.\<close>

definition terminated :: "u8 list \<Rightarrow> u8 list" where
  "terminated out = (if out = [] then [] else out @ [0])"

text \<open>The context, the bytes written and \<open>*out_len\<close>.\<close>

definition EVP_EncodeUpdate :: "EVP_ENCODE_CTX \<Rightarrow> u8 list \<Rightarrow> EVP_ENCODE_CTX \<times> u8 list \<times> nat" where
  "EVP_EncodeUpdate ctx inp =
     (if length inp = 0 then (ctx, [], 0)
      else if sizeof_ctx_data - ctx_data_used ctx > length inp then
        (ctx\<lparr>ctx_data := write_at (ctx_data_used ctx) inp (ctx_data ctx),
             ctx_data_used := ctx_data_used ctx + length inp\<rparr>, [], 0)
      else
        (let todo = sizeof_ctx_data - ctx_data_used ctx;
             (ctx, inp, out, tot) =
               (if ctx_data_used ctx \<noteq> 0 then
                  (let data = write_at (ctx_data_used ctx) (take todo inp) (ctx_data ctx);
                       (line, encoded) = encode_line data
                   in (ctx\<lparr>ctx_data := data, ctx_data_used := 0\<rparr>, drop todo inp, line, encoded + 1))
                else (ctx, inp, [], 0))
         in case encode_lines out inp tot of
              (out, None) \<Rightarrow> (ctx, terminated out, 0)
            | (out, Some (inp, tot)) \<Rightarrow>
                (ctx\<lparr>ctx_data := write_at 0 inp (ctx_data ctx), ctx_data_used := length inp\<rparr>, terminated out,
                 if tot > INT_MAX then 0 else tot)))"

definition EVP_EncodeFinal :: "EVP_ENCODE_CTX \<Rightarrow> EVP_ENCODE_CTX \<times> u8 list \<times> nat" where
  "EVP_EncodeFinal ctx =
     (if ctx_data_used ctx = 0 then (ctx, [], 0)
      else
        (case encode_line (take (ctx_data_used ctx) (ctx_data ctx)) of
           (line, encoded) \<Rightarrow> (ctx\<lparr>ctx_data_used := 0\<rparr>, terminated line, encoded + 1)))"

section \<open>Decoding\<close>

definition EVP_DecodedLength :: "nat \<Rightarrow> nat option" where
  "EVP_DecodedLength len = (if len mod 4 \<noteq> 0 then None else Some (len div 4 * 3))"

definition EVP_DecodeInit :: "EVP_ENCODE_CTX \<Rightarrow> EVP_ENCODE_CTX" where
  "EVP_DecodeInit ctx = encode_ctx_zero"

text \<open>The bytes a quad decodes to, \<open>None\<close> on error.\<close>

definition base64_decode_quad :: "u8 \<Rightarrow> u8 \<Rightarrow> u8 \<Rightarrow> u8 \<Rightarrow> u8 list option" where
  "base64_decode_quad in0 in1 in2 in3 =
     (let a = base64_ascii_to_bin in0; b = base64_ascii_to_bin in1;
          c = base64_ascii_to_bin in2; d = base64_ascii_to_bin in3
      in if a = 0xff \<or> b = 0xff \<or> c = 0xff \<or> d = 0xff then None
         else
           (let v = push_bit 18 (ucast a :: u32) OR push_bit 12 (ucast b) OR push_bit 6 (ucast c) OR ucast d;
                padding_pattern =
                  (of_bool (in0 = 61) * 8 + of_bool (in1 = 61) * 4 + of_bool (in2 = 61) * 2 + of_bool (in3 = 61) :: nat)
            in if padding_pattern = 0 then Some [ucast (drop_bit 16 v), ucast (drop_bit 8 v), ucast v]
               else if padding_pattern = 1 then Some [ucast (drop_bit 16 v), ucast (drop_bit 8 v)]
               else if padding_pattern = 3 then Some [ucast (drop_bit 16 v)]
               else None))"

definition is_base64_space :: "u8 \<Rightarrow> bool" where
  "is_base64_space c \<longleftrightarrow> c = 32 \<or> c = 9 \<or> c = 13 \<or> c = 10"

text \<open>The character loop: the context, the bytes written so far and whether the loop ended normally.\<close>

fun decode_update_loop :: "EVP_ENCODE_CTX \<Rightarrow> u8 list \<Rightarrow> u8 list \<Rightarrow> bool \<times> EVP_ENCODE_CTX \<times> u8 list" where
  "decode_update_loop ctx out [] = (True, ctx, out)"
| "decode_update_loop ctx out (c # inp) =
     (if is_base64_space c then decode_update_loop ctx out inp
      else if ctx_eof_seen ctx then (False, ctx\<lparr>ctx_error_encountered := True\<rparr>, out)
      else
        (let ctx = ctx\<lparr>ctx_data := (ctx_data ctx)[ctx_data_used ctx := c], ctx_data_used := ctx_data_used ctx + 1\<rparr>
         in if ctx_data_used ctx = 4 then
              (case base64_decode_quad (ctx_data ctx ! 0) (ctx_data ctx ! 1) (ctx_data ctx ! 2) (ctx_data ctx ! 3) of
                 None \<Rightarrow> (False, ctx\<lparr>ctx_error_encountered := True\<rparr>, out)
               | Some bs \<Rightarrow>
                   (let ctx = ctx\<lparr>ctx_data_used := 0\<rparr>;
                        ctx = (if length bs < 3 then ctx\<lparr>ctx_eof_seen := True\<rparr> else ctx)
                    in decode_update_loop ctx (out @ bs) inp))
            else decode_update_loop ctx out inp))"

text \<open>The result, the context, the bytes written and \<open>*out_len\<close>.\<close>

definition EVP_DecodeUpdate :: "EVP_ENCODE_CTX \<Rightarrow> u8 list \<Rightarrow> int \<times> EVP_ENCODE_CTX \<times> u8 list \<times> nat" where
  "EVP_DecodeUpdate ctx inp =
     (if ctx_error_encountered ctx then (- 1, ctx, [], 0)
      else case decode_update_loop ctx [] inp of
        (False, ctx, out) \<Rightarrow> (- 1, ctx, out, 0)
      | (True, ctx, out) \<Rightarrow>
          (if length out > INT_MAX then (- 1, ctx\<lparr>ctx_error_encountered := True\<rparr>, out, 0)
           else (if ctx_eof_seen ctx then 0 else 1, ctx, out, length out)))"

definition EVP_DecodeFinal :: "EVP_ENCODE_CTX \<Rightarrow> int" where
  "EVP_DecodeFinal ctx = (if ctx_error_encountered ctx \<or> ctx_data_used ctx \<noteq> 0 then - 1 else 1)"

text \<open>The quads of an input whose length is a multiple of four; \<open>None\<close> on error.\<close>

fun decode_quads :: "u8 list \<Rightarrow> u8 list option" where
  "decode_quads (a # b # c # d # inp) =
     (case base64_decode_quad a b c d of
        None \<Rightarrow> None
      | Some bs \<Rightarrow>
          (if length bs \<noteq> 3 \<and> inp \<noteq> [] then None
           else map_option (\<lambda>rest. bs @ rest) (decode_quads inp)))"
| "decode_quads _ = Some []"

definition EVP_DecodeBase64 :: "nat \<Rightarrow> u8 list \<Rightarrow> u8 list option" where
  "EVP_DecodeBase64 max_out inp =
     (if length inp mod 4 \<noteq> 0 then None
      else case EVP_DecodedLength (length inp) of
        None \<Rightarrow> None
      | Some max_len \<Rightarrow> if max_out < max_len then None else decode_quads inp)"

definition trim_front :: "u8 list \<Rightarrow> u8 list" where
  "trim_front src = dropWhile (\<lambda>c. c = 32 \<or> c = 9) src"

definition trim_back :: "u8 list \<Rightarrow> u8 list" where
  "trim_back src = rev (dropWhile is_base64_space (rev src))"

text \<open>The result and the bytes at \<open>dst\<close>, padded with NULs to a multiple of three.\<close>

definition EVP_DecodeBlock :: "u8 list \<Rightarrow> (nat \<times> u8 list) option" where
  "EVP_DecodeBlock src =
     (let src = trim_back (trim_front src)
      in case EVP_DecodedLength (length src) of
           None \<Rightarrow> None
         | Some dst_len \<Rightarrow>
             (if dst_len > INT_MAX then None
              else case EVP_DecodeBase64 dst_len src of
                None \<Rightarrow> None
              | Some dst \<Rightarrow>
                  (let dst = dst @ replicate ((3 - length dst mod 3) mod 3) 0 in Some (length dst, dst))))"

end
