(* ===== verification/Base64_Correct.thy ===== *)
theory Base64_Correct
  imports Base64
begin

text \<open>
  Correctness of \<open>Base64\<close>: the branch-free character conversions are the tables of RFC 4648, decoding
  inverts encoding, the streaming encoder writes the lines of the whole input however it is cut into
  pieces, and the streaming decoder reads them back.
\<close>

section \<open>Characters\<close>

lemma unat_ucast_u8 [simp]: "unat (ucast (a :: u8) :: crypto_word_t) = unat a"
proof -
  have "unat a < 2 ^ 64" using unat_u8_less [of a] by (rule less_trans) simp
  then show ?thesis by (simp add: unsigned_ucast_eq take_bit_nat_eq_self)
qed

lemma ucast_u8_inject: "(ucast (a :: u8) :: crypto_word_t) = ucast b \<longleftrightarrow> a = b"
  by (metis unat_ucast_u8 word_unat_eq_iff)

lemma ucast_u8_numerals:
  "(ucast (c :: u8) :: crypto_word_t) = 43 \<longleftrightarrow> c = 43" "(ucast c :: crypto_word_t) = 47 \<longleftrightarrow> c = 47"
  "(ucast c :: crypto_word_t) = 61 \<longleftrightarrow> c = 61" "(ucast c :: crypto_word_t) = 62 \<longleftrightarrow> c = 62"
  using ucast_u8_inject [of c 43] ucast_u8_inject [of c 47] ucast_u8_inject [of c 61] ucast_u8_inject [of c 62] by simp_all

lemma lt_args_8 [ct_simps]: "constant_time_lt_args_8 a b = (if a < b then 0xff else 0)"
proof -
  have "unat a \<le> 255" "unat b \<le> 255" using unat_u8_less [of a] unat_u8_less [of b] by linarith+
  then have "bit ((ucast a :: crypto_word_t) - ucast b) 63 \<longleftrightarrow> unat a < unat b"
    by (auto simp: bit_63 unat_sub_if')
  then show ?thesis by (simp add: constant_time_lt_args_8_def Let_def msb_w word_less_nat_alt ucast_minus_1_u8)
qed

lemma in_range_8 [ct_simps]:
  "unat lo \<le> unat hi \<Longrightarrow> unat hi - unat lo < 255 \<Longrightarrow>
   constant_time_in_range_8 a lo hi = (if unat lo \<le> unat a \<and> unat a \<le> unat hi then 0xff else 0)"
proof -
  assume "unat lo \<le> unat hi" "unat hi - unat lo < 255"
  then have "unat (hi - lo + 1) = unat hi - unat lo + 1"
    by (simp add: unat_word_ariths unat_sub_if')
  moreover have "unat a \<le> 255" "unat hi \<le> 255" using unat_u8_less [of a] unat_u8_less [of hi] by linarith+
  ultimately have "a - lo < hi - lo + 1 \<longleftrightarrow> unat lo \<le> unat a \<and> unat a \<le> unat hi"
    using \<open>unat lo \<le> unat hi\<close> \<open>unat hi - unat lo < 255\<close>
    by (auto simp: word_less_nat_alt unat_sub_if')
  then show ?thesis by (simp add: constant_time_in_range_8_def Let_def lt_args_8)
qed

text \<open>The alphabet of RFC 4648, table 1.\<close>

definition base64_digit :: "u8 \<Rightarrow> u8" where
  "base64_digit a =
     (if a < 26 then a + 65 else if a < 52 then a - 26 + 97 else if a < 62 then a - 52 + 48 else if a = 62 then 43 else 47)"

lemma ucast_ff: "(ucast (0xff :: u8) :: crypto_word_t) = 0xff"
  by simp

lemma conv_bin2ascii_digit: "conv_bin2ascii a = base64_digit (a AND 0x3f)"
proof -
  have "(ucast (a AND 0x3f) :: crypto_word_t) = 62 \<longleftrightarrow> a AND 0x3f = 62" by (rule ucast_u8_numerals)
  then show ?thesis
    unfolding conv_bin2ascii_def Let_def base64_digit_def
    by (simp add: ct_simps ucast_ff)
qed

lemma u8_byte_masks: "(255 :: u8) AND x = x" "(- 256 :: u8) = 0" "unat (- 1 :: u8) = 255"
proof -
  show "(255 :: u8) AND x = x" by (simp only: all_ones_u8 and.left_neutral)
qed (simp_all flip: all_ones_u8)

lemma ascii_to_bin_cases:
  "base64_ascii_to_bin c =
     (if 65 \<le> unat c \<and> unat c \<le> 90 then c - 65
      else if 97 \<le> unat c \<and> unat c \<le> 122 then c - 97 + 26
      else if 48 \<le> unat c \<and> unat c \<le> 57 then c - 48 + 52
      else if c = 43 then 62 else if c = 47 then 63 else if c = 61 then 0 else 0xff)"
  unfolding base64_ascii_to_bin_def Let_def
  by (auto simp: ct_simps ucast_u8_numerals word_unat_eq_iff u8_byte_masks)

lemma digit_inverse:
  assumes "unat a < 64"
  shows "base64_ascii_to_bin (base64_digit a) = a" "base64_digit a \<noteq> 61" "\<not> is_base64_space (base64_digit a)"
proof -
  have u: "unat (a + 65) = unat a + 65" if "unat a < 26" using that by (simp add: unat_word_ariths)
  have l: "unat (71 + a) = unat a + 71" if "unat a < 52" using that by (simp add: unat_word_ariths)
  have d: "unat (a - 4) = unat a - 4" if "\<not> unat a < 52" using that by (simp add: unat_sub_if')
  have e: "a = 63" if "\<not> unat a < 62" "a \<noteq> 62" using that assms by (simp add: word_unat_eq_iff)
  consider "unat a < 26" | "\<not> unat a < 26" "unat a < 52" | "\<not> unat a < 52" "unat a < 62" | "a = 62" | "a = 63"
    using e by blast
  then show "base64_ascii_to_bin (base64_digit a) = a" "base64_digit a \<noteq> 61" "\<not> is_base64_space (base64_digit a)"
    by cases (auto simp: base64_digit_def word_less_nat_alt ascii_to_bin_cases is_base64_space_def word_unat_eq_iff u l d)
qed

lemma ascii_to_bin_digit:
  assumes "base64_ascii_to_bin c \<noteq> 255" "c \<noteq> 61"
  shows "base64_digit (base64_ascii_to_bin c) = c"
proof -
  have u: "unat (c - 65) = unat c - 65" if "65 \<le> unat c" using that by (simp add: unat_sub_if')
  have l: "unat (c - 71) = unat c - 71" if "97 \<le> unat c" using that by (simp add: unat_sub_if')
  have d: "unat (4 + c) = unat c + 4" if "unat c \<le> 57" using that by (simp add: unat_word_ariths)
  consider "65 \<le> unat c" "unat c \<le> 90" | "97 \<le> unat c" "unat c \<le> 122" | "48 \<le> unat c" "unat c \<le> 57" | "c = 43" | "c = 47"
    using assms by (auto simp: ascii_to_bin_cases split: if_splits)
  then show ?thesis
    by cases (auto simp: ascii_to_bin_cases base64_digit_def word_less_nat_alt word_unat_eq_iff u l d)
qed

lemma unat_and_63: "unat ((a :: u8) AND 63) < 64"
proof -
  have "a AND 63 = take_bit 6 a" by (simp add: take_bit_eq_mask mask_eq_exp_minus_1)
  then show ?thesis using take_bit_nat_less_exp [of 6 "unat a"] by (simp add: unsigned_take_bit_eq)
qed

lemma conv_inverse:
  "base64_ascii_to_bin (conv_bin2ascii a) = a AND 63" "conv_bin2ascii a \<noteq> 61" "\<not> is_base64_space (conv_bin2ascii a)"
  using digit_inverse [OF unat_and_63 [of a]] by (simp_all add: conv_bin2ascii_digit)

lemma sextet_not_ff: "(a :: u8) AND 63 \<noteq> 255"
  using unat_and_63 [of a] by (auto simp: word_unat_eq_iff)

section \<open>Quads\<close>

text \<open>Regrouping three bytes as four sextets and back.\<close>

definition sextet :: "nat \<Rightarrow> u32 \<Rightarrow> u8" where
  "sextet k l = ucast (drop_bit k l) AND 63"

lemma sextet_valid: "sextet k l \<noteq> 255"
  by (simp add: sextet_def sextet_not_ff)

lemma bit_sextet: "bit (ucast (sextet k l) :: u32) m \<longleftrightarrow> m < 6 \<and> bit l (k + m)"
proof -
  have m: "(63 :: u8) = mask 6" by (simp add: mask_eq_exp_minus_1)
  show ?thesis unfolding sextet_def m by (auto simp: bit_simps dest: bit_imp_le_length)
qed

lemma regroup:
  assumes "\<And>n. 24 \<le> n \<Longrightarrow> \<not> bit (l :: u32) n"
  shows "push_bit 18 (ucast (sextet 18 l)) OR push_bit 12 (ucast (sextet 12 l)) OR push_bit 6 (ucast (sextet 6 l))
         OR ucast (sextet 0 l) = l" (is "?v = l")
proof (rule bit_word_eqI)
  fix n assume n: "n < LENGTH(32)"
  consider "n < 6" | "6 \<le> n" "n < 12" | "12 \<le> n" "n < 18" | "18 \<le> n" "n < 24" | "24 \<le> n" by linarith
  then show "bit ?v n \<longleftrightarrow> bit l n"
    using n by cases (auto simp: bit_or_iff bit_push_bit_iff bit_sextet assms less_diff_conv2)
qed

text \<open>The 24 bits of three bytes.\<close>

definition pack :: "u8 \<Rightarrow> u8 \<Rightarrow> u8 \<Rightarrow> u32" where
  "pack x y z = push_bit 16 (ucast x) OR push_bit 8 (ucast y) OR ucast z"

lemma pack_high: "24 \<le> n \<Longrightarrow> \<not> bit (pack x y z) n"
  by (auto simp: pack_def bit_simps dest: bit_imp_le_length)

lemma unpack:
  "ucast (drop_bit 16 (pack x y z)) = x" "ucast (drop_bit 8 (pack x y z)) = y" "ucast (pack x y z) = z"
  by (rule bit_word_eqI; auto simp: pack_def bit_simps dest: bit_imp_le_length)+

lemma encode_loop_pack:
  "encode_block_loop [x] = [conv_bin2ascii (ucast (drop_bit 18 (pack x 0 0))), conv_bin2ascii (ucast (drop_bit 12 (pack x 0 0))), 61, 61]"
  "encode_block_loop [x, y] = [conv_bin2ascii (ucast (drop_bit 18 (pack x y 0))), conv_bin2ascii (ucast (drop_bit 12 (pack x y 0))),
     conv_bin2ascii (ucast (drop_bit 6 (pack x y 0))), 61]"
  "encode_block_loop (x # y # z # src) = [conv_bin2ascii (ucast (drop_bit 18 (pack x y z))), conv_bin2ascii (ucast (drop_bit 12 (pack x y z))),
     conv_bin2ascii (ucast (drop_bit 6 (pack x y z))), conv_bin2ascii (ucast (drop_bit 0 (pack x y z)))] @ encode_block_loop src"
  by (simp_all add: pack_def Let_def)

lemma sextet_0: "sextet 0 (pack x y 0) = 0" "sextet 6 (pack x 0 0) = 0"
proof -
  have m: "(63 :: u8) = mask 6" by (simp add: mask_eq_exp_minus_1)
  show "sextet 0 (pack x y 0) = 0" "sextet 6 (pack x 0 0) = 0"
    unfolding sextet_def m by (rule bit_word_eqI; auto simp: pack_def bit_simps)+
qed

lemma decode_quad_encoded:
  "base64_decode_quad (conv_bin2ascii (ucast (drop_bit 18 (pack x y z)))) (conv_bin2ascii (ucast (drop_bit 12 (pack x y z))))
     (conv_bin2ascii (ucast (drop_bit 6 (pack x y z)))) (conv_bin2ascii (ucast (drop_bit 0 (pack x y z)))) = Some [x, y, z]"
  "base64_decode_quad (conv_bin2ascii (ucast (drop_bit 18 (pack x y 0)))) (conv_bin2ascii (ucast (drop_bit 12 (pack x y 0))))
     (conv_bin2ascii (ucast (drop_bit 6 (pack x y 0)))) 61 = Some [x, y]"
  "base64_decode_quad (conv_bin2ascii (ucast (drop_bit 18 (pack x 0 0)))) (conv_bin2ascii (ucast (drop_bit 12 (pack x 0 0)))) 61 61 = Some [x]"
proof -
  have eq: "base64_ascii_to_bin 61 = 0" by (simp add: ascii_to_bin_cases)
  note r = regroup [OF pack_high]
  show "base64_decode_quad (conv_bin2ascii (ucast (drop_bit 18 (pack x y z)))) (conv_bin2ascii (ucast (drop_bit 12 (pack x y z))))
     (conv_bin2ascii (ucast (drop_bit 6 (pack x y z)))) (conv_bin2ascii (ucast (drop_bit 0 (pack x y z)))) = Some [x, y, z]"
    using r [of x y z] by (simp only: base64_decode_quad_def Let_def conv_inverse sextet_def [symmetric]) (simp add: conv_inverse unpack sextet_valid)
  show "base64_decode_quad (conv_bin2ascii (ucast (drop_bit 18 (pack x y 0)))) (conv_bin2ascii (ucast (drop_bit 12 (pack x y 0))))
     (conv_bin2ascii (ucast (drop_bit 6 (pack x y 0)))) 61 = Some [x, y]"
    using r [of x y 0] by (simp only: base64_decode_quad_def Let_def conv_inverse eq sextet_def [symmetric]) (simp add: conv_inverse unpack sextet_0 sextet_valid)
  show "base64_decode_quad (conv_bin2ascii (ucast (drop_bit 18 (pack x 0 0)))) (conv_bin2ascii (ucast (drop_bit 12 (pack x 0 0)))) 61 61 = Some [x]"
    using r [of x 0 0] by (simp only: base64_decode_quad_def Let_def conv_inverse eq sextet_def [symmetric]) (simp add: conv_inverse unpack sextet_0 sextet_valid)
qed

section \<open>Whole texts\<close>

lemma decode_quads_encoded: "decode_quads (encode_block_loop xs) = Some xs"
proof (induction xs rule: encode_block_loop.induct)
  case (4 x y z src)
  then show ?case by (simp only: encode_loop_pack append.simps decode_quads.simps decode_quad_encoded) simp
qed (simp_all only: encode_loop_pack encode_block_loop.simps(1) decode_quads.simps decode_quad_encoded option.case, simp_all)

lemma length_encoded: "length (encode_block_loop xs) = 4 * ((length xs + 2) div 3)"
proof (induction xs rule: encode_block_loop.induct)
  case (4 x y z src)
  have "(length (x # y # z # src) + 2) div 3 = Suc ((length src + 2) div 3)" by (simp add: le_div_geq)
  then show ?case using 4 by (simp add: Let_def)
qed (simp_all add: Let_def)

lemma encoded_not_space: "c \<in> set (encode_block_loop xs) \<Longrightarrow> \<not> is_base64_space c"
  by (induction xs rule: encode_block_loop.induct) (auto simp: Let_def conv_inverse(3), simp_all add: is_base64_space_def)

lemma decode_base64_encoded:
  "length xs + 2 \<le> max_out \<Longrightarrow> EVP_DecodeBase64 max_out (encode_block_loop xs) = Some xs"
  by (simp add: EVP_DecodeBase64_def EVP_DecodedLength_def length_encoded decode_quads_encoded)

text \<open>\<open>EVP_EncodedLength\<close> is the number of bytes \<open>EVP_EncodeBlock\<close> writes, with its NUL.\<close>

lemma encoded_length_exact:
  assumes "EVP_EncodedLength (length src) = Some n" "length src < size_mod"
  shows "length (fst (EVP_EncodeBlock src)) = n \<and> snd (EVP_EncodeBlock src) + 1 = n"
proof -
  let ?n = "length src"
  have a: "size_add ?n 2 = ?n + 2"
    using assms size_add_wraps [of ?n 2] by (cases "?n + 2 < size_mod") (auto simp: EVP_EncodedLength_def size_add_exact size_mod_def)
  let ?m = "(?n + 2) div 3"
  have "size_mul ?m 4 div 4 = ?m" using assms(1) a by (auto simp: EVP_EncodedLength_def Let_def split: if_splits)
  then have m: "?m * 4 < size_mod" by (rule size_mul_div_exact)
  moreover have "k * 4 + 1 < size_mod" if "k * 4 < size_mod" for k
  proof -
    have "k < 4611686018427387904" using that by (simp add: size_mod_def)
    then show ?thesis by (simp add: size_mod_def)
  qed
  ultimately have "?m * 4 + 1 < size_mod" by blast
  then have "n = ?m * 4 + 1"
    using assms(1) a m by (auto simp: EVP_EncodedLength_def Let_def size_mul_exact size_add_exact split: if_splits)
  then show ?thesis by (simp add: EVP_EncodeBlock_def Let_def length_encoded)
qed

section \<open>The streaming encoder\<close>

text \<open>The complete lines of an input and what is left over.\<close>

function b64_lines :: "u8 list \<Rightarrow> u8 list" where
  "b64_lines xs = (if 48 \<le> length xs then encode_block_loop (take 48 xs) @ [10] @ b64_lines (drop 48 xs) else [])"
  by pat_completeness auto
termination by (relation "measure length") auto

declare b64_lines.simps [simp del]

definition b64_rest :: "u8 list \<Rightarrow> u8 list" where
  "b64_rest xs = drop (length xs div 48 * 48) xs"

definition b64_text :: "u8 list \<Rightarrow> u8 list" where
  "b64_text xs = b64_lines xs @ (if b64_rest xs = [] then [] else encode_block_loop (b64_rest xs) @ [10])"

lemma b64_lines_short [simp]: "length xs < 48 \<Longrightarrow> b64_lines xs = []"
  by (simp add: b64_lines.simps)

lemma b64_rest_short [simp]: "length xs < 48 \<Longrightarrow> b64_rest xs = xs"
  by (simp add: b64_rest_def)

lemma b64_lines_step: "48 \<le> length xs \<Longrightarrow> b64_lines xs = encode_block_loop (take 48 xs) @ [10] @ b64_lines (drop 48 xs)"
  by (subst b64_lines.simps) simp

lemma b64_rest_step: "48 \<le> length xs \<Longrightarrow> b64_rest (drop 48 xs) = b64_rest xs"
proof -
  assume l: "48 \<le> length xs"
  then have "length xs div 48 = Suc ((length xs - 48) div 48)" by (simp add: le_div_geq)
  then show ?thesis using l by (simp add: b64_rest_def add.commute)
qed

lemma length_b64_rest: "length (b64_rest xs) < 48"
  by (simp add: b64_rest_def)

lemma b64_append:
  "b64_lines (xs @ ys) = b64_lines xs @ b64_lines (b64_rest xs @ ys) \<and> b64_rest (xs @ ys) = b64_rest (b64_rest xs @ ys)"
proof (induction xs rule: b64_lines.induct)
  case (1 xs)
  show ?case
  proof (cases "48 \<le> length xs")
    case True
    then have "b64_rest (xs @ ys) = b64_rest (drop 48 xs @ ys)" using b64_rest_step [of "xs @ ys"] by simp
    then show ?thesis using 1 True b64_lines_step [of "xs @ ys"] b64_lines_step [of xs] b64_rest_step [of xs] by simp
  qed simp
qed

lemma length_b64_lines: "length (b64_lines xs) = 65 * (length xs div 48)"
proof (induction xs rule: b64_lines.induct)
  case (1 xs)
  show ?case
  proof (cases "48 \<le> length xs")
    case True
    then have "length xs div 48 = Suc ((length xs - 48) div 48)" by (simp add: le_div_geq)
    then show ?thesis using 1 True by (simp add: b64_lines_step length_encoded)
  qed simp
qed

lemma encode_line_eq: "encode_line src = (encode_block_loop src @ [10], length (encode_block_loop src))"
  by (simp add: encode_line_def EVP_EncodeBlock_def Let_def)

lemma encode_lines_spec:
  "tot + length (b64_lines inp) < size_mod \<Longrightarrow>
   encode_lines out inp tot = (out @ b64_lines inp, Some (b64_rest inp, tot + length (b64_lines inp)))"
proof (induction inp arbitrary: out tot rule: b64_lines.induct)
  case (1 inp)
  show ?case
  proof (cases "48 \<le> length inp")
    case True
    have l: "length (encode_block_loop (take 48 inp)) = 64" using True by (simp add: length_encoded)
    have s: "length (b64_lines inp) = 65 + length (b64_lines (drop 48 inp))" using b64_lines_step [OF True] l by simp
    have sz: "size_add (size_add tot 64) 1 = tot + 65" "size_add tot (size_add 64 1) = tot + 65"
      using 1(2) s by (simp_all add: size_add_def)
    have "encode_lines out inp tot = encode_lines (out @ encode_block_loop (take 48 inp) @ [10]) (drop 48 inp) (tot + 65)"
      using True l sz by (subst encode_lines.simps) (simp add: sizeof_ctx_data_def encode_line_eq)
    also have "\<dots> = (out @ b64_lines inp, Some (b64_rest inp, tot + length (b64_lines inp)))"
      using 1 True s by (simp add: b64_lines_step b64_rest_step)
    finally show ?thesis .
  qed (subst encode_lines.simps, simp add: sizeof_ctx_data_def)
qed

definition enc_ctx :: "EVP_ENCODE_CTX \<Rightarrow> u8 list \<Rightarrow> bool" where
  "enc_ctx ctx pend \<longleftrightarrow>
     length (ctx_data ctx) = 48 \<and> ctx_data_used ctx = length pend \<and> length pend < 48 \<and> take (length pend) (ctx_data ctx) = pend"

lemma enc_ctx_init: "enc_ctx (EVP_EncodeInit ctx) []"
  by (simp add: enc_ctx_def EVP_EncodeInit_def encode_ctx_zero_def sizeof_ctx_data_def)

lemma encode_update_spec:
  assumes ctx: "enc_ctx ctx pend" and len: "length (b64_lines (pend @ inp)) \<le> INT_MAX"
  shows "\<exists>ctx'. EVP_EncodeUpdate ctx inp = (ctx', terminated (b64_lines (pend @ inp)), length (b64_lines (pend @ inp))) \<and>
           enc_ctx ctx' (b64_rest (pend @ inp))"
proof -
  have c: "length (ctx_data ctx) = 48" "ctx_data_used ctx = length pend" "length pend < 48" "take (length pend) (ctx_data ctx) = pend"
    using ctx by (auto simp: enc_ctx_def)
  show ?thesis
  proof (cases "length (pend @ inp) < 48")
    case True
    then show ?thesis using c by (auto simp: EVP_EncodeUpdate_def sizeof_ctx_data_def enc_ctx_def terminated_def write_at_def)
  next
    case False
    let ?todo = "48 - length pend"
    have inp: "inp \<noteq> []" "\<not> ?todo > length inp" using False c by auto
    define first where "first = (pend @ take ?todo inp)"
    have f: "take 48 (pend @ inp) = first" "drop 48 (pend @ inp) = drop ?todo inp" "length first = 48"
      using inp c by (auto simp: first_def)
    have lines: "b64_lines (pend @ inp) = encode_block_loop first @ [10] @ b64_lines (drop ?todo inp)"
      and rest: "b64_rest (drop ?todo inp) = b64_rest (pend @ inp)"
      using b64_lines_step [of "pend @ inp"] b64_rest_step [of "pend @ inp"] False f by auto
    have big: "length (b64_lines (pend @ inp)) < size_mod" using len by (simp add: INT_MAX_def size_mod_def)
    show ?thesis
    proof (cases "pend = []")
      case True
      then show ?thesis
        using inp c len big encode_lines_spec [of 0 inp "[]"] length_b64_rest [of inp]
        by (auto simp: EVP_EncodeUpdate_def sizeof_ctx_data_def enc_ctx_def write_at_def)
    next
      case pend: False
      have data: "write_at (length pend) (take ?todo inp) (ctx_data ctx) = first"
        using c inp by (simp add: write_at_def first_def)
      have el: "length (encode_block_loop first) = 64" using f by (simp add: length_encoded)
      have "encode_lines (encode_block_loop first @ [10]) (drop ?todo inp) 65
          = (b64_lines (pend @ inp), Some (b64_rest (pend @ inp), length (b64_lines (pend @ inp))))"
        using encode_lines_spec [of 65 "drop ?todo inp"] big lines rest el by simp
      then show ?thesis
        using inp c len pend data el f(3) length_b64_rest [of "pend @ inp"]
        by (auto simp: EVP_EncodeUpdate_def sizeof_ctx_data_def enc_ctx_def write_at_def encode_line_eq Let_def)
    qed
  qed
qed

lemma encode_final_spec:
  assumes "enc_ctx ctx pend"
  shows "\<exists>ctx'. EVP_EncodeFinal ctx =
    (ctx', terminated (if pend = [] then [] else encode_block_loop pend @ [10]), length (if pend = [] then [] else encode_block_loop pend @ [10]))"
  using assms by (auto simp: EVP_EncodeFinal_def enc_ctx_def encode_line_eq terminated_def)

section \<open>The streaming decoder\<close>

lemma decode_loop_append:
  "decode_update_loop ctx out (xs @ ys) =
   (case decode_update_loop ctx out xs of
      (True, ctx', out') \<Rightarrow> decode_update_loop ctx' out' ys
    | r \<Rightarrow> r)"
  by (induction ctx out xs rule: decode_update_loop.induct) (auto simp: Let_def split: option.splits)

text \<open>The bytes written only grow.\<close>

lemma decode_loop_out:
  "decode_update_loop ctx (pre @ out) xs =
   (case decode_update_loop ctx out xs of (ok, ctx', out') \<Rightarrow> (ok, ctx', pre @ out'))"
  by (induction ctx out xs rule: decode_update_loop.induct) (auto simp: Let_def split: option.splits)

definition dec_ready :: "EVP_ENCODE_CTX \<Rightarrow> bool" where
  "dec_ready ctx \<longleftrightarrow>
     ctx_data_used ctx = 0 \<and> \<not> ctx_eof_seen ctx \<and> \<not> ctx_error_encountered ctx \<and> length (ctx_data ctx) = 48"

lemma decode_loop_quad:
  assumes "dec_ready ctx" "\<not> is_base64_space a" "\<not> is_base64_space b" "\<not> is_base64_space c" "\<not> is_base64_space d"
    and q: "base64_decode_quad a b c d = Some bs"
  shows "\<exists>ctx'. (\<forall>out rest. decode_update_loop ctx out (a # b # c # d # rest) = decode_update_loop ctx' (out @ bs) rest) \<and>
           ctx_data_used ctx' = 0 \<and> \<not> ctx_error_encountered ctx' \<and> (length bs = 3 \<longrightarrow> dec_ready ctx')"
proof -
  let ?d = "(ctx_data ctx)[0 := a, Suc 0 := b, Suc (Suc 0) := c, Suc (Suc (Suc 0)) := d]"
  let ?ctx = "ctx\<lparr>ctx_data := ?d, ctx_data_used := 0\<rparr>"
  let ?ctx' = "if length bs < 3 then ?ctx\<lparr>ctx_eof_seen := True\<rparr> else ?ctx"
  have d: "?d ! 0 = a" "?d ! 1 = b" "?d ! 2 = c" "?d ! 3 = d"
    using assms(1) by (simp_all add: dec_ready_def numeral_2_eq_2 numeral_3_eq_3)
  have "decode_update_loop ctx out (a # b # c # d # rest) = decode_update_loop ?ctx' (out @ bs) rest" for out rest
    using assms d by (simp add: dec_ready_def Let_def)
  then show ?thesis using assms(1) by (intro exI [of _ ?ctx']) (simp add: dec_ready_def)
qed

lemma decode_loop_newline: "decode_update_loop ctx out (10 # rest) = decode_update_loop ctx out rest"
  by (simp add: is_base64_space_def)

declare decode_update_loop.simps(2) [simp del]

lemma decode_loop_full:
  assumes "length xs mod 3 = 0" "dec_ready ctx"
  shows "\<exists>ctx'. dec_ready ctx' \<and>
    (\<forall>out rest. decode_update_loop ctx out (encode_block_loop xs @ rest) = decode_update_loop ctx' (out @ xs) rest)"
  using assms
proof (induction xs arbitrary: ctx rule: encode_block_loop.induct)
  case (4 x y z src)
  obtain c1 where c1: "\<And>out rest. decode_update_loop ctx out
      (conv_bin2ascii (ucast (drop_bit 18 (pack x y z))) # conv_bin2ascii (ucast (drop_bit 12 (pack x y z))) #
       conv_bin2ascii (ucast (drop_bit 6 (pack x y z))) # conv_bin2ascii (ucast (drop_bit 0 (pack x y z))) # rest)
      = decode_update_loop c1 (out @ [x, y, z]) rest" "dec_ready c1"
    using decode_loop_quad [OF 4(3) conv_inverse(3) conv_inverse(3) conv_inverse(3) conv_inverse(3) decode_quad_encoded(1) [of x y z]] by auto
  have "length src mod 3 = 0" using 4(2) by (simp add: mod_Suc) presburger
  then obtain c2 where "dec_ready c2"
    "\<And>out rest. decode_update_loop c1 out (encode_block_loop src @ rest) = decode_update_loop c2 (out @ src) rest"
    using 4(1) [OF refl _ c1(2)] by auto
  then have "decode_update_loop ctx out (encode_block_loop (x # y # z # src) @ rest) = decode_update_loop c2 (out @ x # y # z # src) rest"
    for out rest using c1(1) by (simp only: encode_loop_pack(3) append.simps append_assoc)
  then show ?case using \<open>dec_ready c2\<close> by blast
qed auto

lemma decode_loop_last:
  assumes "dec_ready ctx"
  shows "\<exists>ctx'. decode_update_loop ctx out (encode_block_loop xs @ [10]) = (True, ctx', out @ xs) \<and>
           ctx_data_used ctx' = 0 \<and> \<not> ctx_error_encountered ctx'"
  using assms
proof (induction xs arbitrary: ctx out rule: encode_block_loop.induct)
  case 1
  then show ?case by (auto simp: dec_ready_def decode_loop_newline)
next
  case (2 x)
  have "\<not> is_base64_space 61" by (simp add: is_base64_space_def)
  from decode_loop_quad [OF 2 conv_inverse(3) conv_inverse(3) this this decode_quad_encoded(3) [of x]]
  obtain ctx' where "\<And>out rest. decode_update_loop ctx out (conv_bin2ascii (ucast (drop_bit 18 (pack x 0 0))) #
      conv_bin2ascii (ucast (drop_bit 12 (pack x 0 0))) # 61 # 61 # rest) = decode_update_loop ctx' (out @ [x]) rest"
    "ctx_data_used ctx' = 0" "\<not> ctx_error_encountered ctx'" by auto
  then show ?case by (simp only: encode_loop_pack(1) append.simps decode_loop_newline decode_update_loop.simps(1)) simp
next
  case (3 x y)
  have "\<not> is_base64_space 61" by (simp add: is_base64_space_def)
  from decode_loop_quad [OF 3 conv_inverse(3) conv_inverse(3) conv_inverse(3) this decode_quad_encoded(2) [of x y]]
  obtain ctx' where "\<And>out rest. decode_update_loop ctx out (conv_bin2ascii (ucast (drop_bit 18 (pack x y 0))) #
      conv_bin2ascii (ucast (drop_bit 12 (pack x y 0))) # conv_bin2ascii (ucast (drop_bit 6 (pack x y 0))) # 61 # rest)
      = decode_update_loop ctx' (out @ [x, y]) rest" "ctx_data_used ctx' = 0" "\<not> ctx_error_encountered ctx'" by auto
  then show ?case by (simp only: encode_loop_pack(2) append.simps decode_loop_newline decode_update_loop.simps(1)) simp
next
  case (4 x y z src)
  have "\<exists>ctx'. dec_ready ctx' \<and>
    (\<forall>out rest. decode_update_loop ctx out (encode_block_loop [x, y, z] @ rest) = decode_update_loop ctx' (out @ [x, y, z]) rest)"
    by (rule decode_loop_full) (use 4(2) in simp_all)
  then obtain c1 where c1: "dec_ready c1"
    "\<And>out rest. decode_update_loop ctx out (encode_block_loop [x, y, z] @ rest) = decode_update_loop c1 (out @ [x, y, z]) rest"
    by blast
  have e: "encode_block_loop (x # y # z # src) = encode_block_loop [x, y, z] @ encode_block_loop src" by (simp add: Let_def)
  show ?case using 4(1) [OF refl c1(1), of "out @ [x, y, z]"] c1(2) unfolding e by simp
qed

lemma decode_loop_lines:
  "dec_ready ctx \<Longrightarrow> \<exists>ctx'. dec_ready ctx' \<and>
    (\<forall>out rest. decode_update_loop ctx out (b64_lines xs @ rest) = decode_update_loop ctx' (out @ take (length xs div 48 * 48) xs) rest)"
proof (induction xs arbitrary: ctx rule: b64_lines.induct)
  case (1 xs)
  show ?case
  proof (cases "48 \<le> length xs")
    case True
    obtain c1 where c1: "dec_ready c1"
      "\<And>out rest. decode_update_loop ctx out (encode_block_loop (take 48 xs) @ rest) = decode_update_loop c1 (out @ take 48 xs) rest"
      using decode_loop_full [of "take 48 xs" ctx] 1(2) True by auto
    obtain c2 where c2: "dec_ready c2" "\<And>out rest. decode_update_loop c1 out (b64_lines (drop 48 xs) @ rest)
        = decode_update_loop c2 (out @ take (length (drop 48 xs) div 48 * 48) (drop 48 xs)) rest"
      using 1(1) [OF True c1(1)] by blast
    have "length xs div 48 = Suc ((length xs - 48) div 48)" using True by (simp add: le_div_geq)
    then have "take (length xs div 48 * 48) xs = take 48 xs @ take (length (drop 48 xs) div 48 * 48) (drop 48 xs)"
      by (simp add: take_add)
    then show ?thesis using c1 c2 True
      by (intro exI [of _ c2]) (simp add: b64_lines_step decode_loop_newline)
  next
    case False
    then show ?thesis using 1(2) by auto
  qed
qed

lemma decode_text:
  assumes "dec_ready ctx"
  shows "\<exists>ctx'. decode_update_loop ctx [] (b64_text xs) = (True, ctx', xs) \<and> ctx_data_used ctx' = 0 \<and> \<not> ctx_error_encountered ctx'"
proof -
  obtain c1 where c1: "dec_ready c1"
    "\<And>out rest. decode_update_loop ctx out (b64_lines xs @ rest) = decode_update_loop c1 (out @ take (length xs div 48 * 48) xs) rest"
    using decode_loop_lines [OF assms] by blast
  have x: "take (length xs div 48 * 48) xs @ b64_rest xs = xs" by (simp add: b64_rest_def)
  show ?thesis
  proof (cases "b64_rest xs = []")
    case True
    then show ?thesis using c1(1) c1(2) [of "[]" "[]"] x by (auto simp: b64_text_def dec_ready_def)
  next
    case False
    then show ?thesis using decode_loop_last [OF c1(1), of "take (length xs div 48 * 48) xs" "b64_rest xs"] c1(2) [of "[]"] x
      by (simp add: b64_text_def)
  qed
qed

section \<open>Streams cut into pieces\<close>

text \<open>A caller that encodes the pieces of an input and collects what is reported as written.\<close>

fun encode_all :: "EVP_ENCODE_CTX \<Rightarrow> u8 list list \<Rightarrow> u8 list" where
  "encode_all ctx [] = (case EVP_EncodeFinal ctx of (_, out, n) \<Rightarrow> take n out)"
| "encode_all ctx (x # xs) = (case EVP_EncodeUpdate ctx x of (ctx, out, n) \<Rightarrow> take n out @ encode_all ctx xs)"

text \<open>A caller that decodes the pieces of a text and gives up at the first error.\<close>

fun decode_all :: "EVP_ENCODE_CTX \<Rightarrow> u8 list list \<Rightarrow> u8 list option" where
  "decode_all ctx [] = (if EVP_DecodeFinal ctx = 1 then Some [] else None)"
| "decode_all ctx (x # xs) =
     (case EVP_DecodeUpdate ctx x of
        (r, ctx, out, n) \<Rightarrow> if r < 0 then None else map_option (\<lambda>rest. take n out @ rest) (decode_all ctx xs))"

lemma take_terminated: "take (length out) (terminated out) = out"
  by (simp add: terminated_def)

lemma encode_all_text:
  "enc_ctx ctx pend \<Longrightarrow> length (b64_text (pend @ concat xs)) \<le> INT_MAX \<Longrightarrow> encode_all ctx xs = b64_text (pend @ concat xs)"
proof (induction xs arbitrary: ctx pend)
  case Nil
  have l: "length pend < 48" using Nil by (simp add: enc_ctx_def)
  obtain ctx' where "EVP_EncodeFinal ctx =
    (ctx', terminated (if pend = [] then [] else encode_block_loop pend @ [10]), length (if pend = [] then [] else encode_block_loop pend @ [10]))"
    using encode_final_spec [OF Nil(1)] by blast
  then show ?case using l take_terminated [of "encode_block_loop pend @ [10]"] by (simp add: b64_text_def)
next
  case (Cons x xs)
  have app: "b64_text ((pend @ x) @ concat xs) = b64_lines (pend @ x) @ b64_text (b64_rest (pend @ x) @ concat xs)"
    using b64_append [of "pend @ x" "concat xs"] unfolding b64_text_def by simp
  then have l: "length (b64_lines (pend @ x)) \<le> INT_MAX" "length (b64_text (b64_rest (pend @ x) @ concat xs)) \<le> INT_MAX"
    using Cons.prems(2) by simp_all
  obtain ctx' where u: "EVP_EncodeUpdate ctx x = (ctx', terminated (b64_lines (pend @ x)), length (b64_lines (pend @ x)))"
    "enc_ctx ctx' (b64_rest (pend @ x))"
    using encode_update_spec [OF Cons.prems(1) l(1)] by blast
  then show ?case using Cons.IH [OF u(2) l(2)] app by (simp add: take_terminated)
qed

lemma decode_loop_error: "decode_update_loop ctx out xs = (True, ctx', out') \<Longrightarrow> ctx_error_encountered ctx' = ctx_error_encountered ctx"
  by (induction ctx out xs rule: decode_update_loop.induct)
     (auto simp: decode_update_loop.simps Let_def split: if_splits option.splits)

lemma decode_all_loop:
  "decode_update_loop ctx [] (concat ds) = (True, ctx', out) \<Longrightarrow> ctx_data_used ctx' = 0 \<Longrightarrow> \<not> ctx_error_encountered ctx \<Longrightarrow>
   length out \<le> INT_MAX \<Longrightarrow> decode_all ctx ds = Some out"
proof (induction ds arbitrary: ctx out)
  case Nil
  then show ?case by (simp add: EVP_DecodeFinal_def)
next
  case (Cons x ds)
  obtain c1 o1 where c1: "decode_update_loop ctx [] x = (True, c1, o1)" and r: "decode_update_loop c1 o1 (concat ds) = (True, ctx', out)"
    using Cons.prems(1) decode_loop_append [of ctx "[]" x "concat ds"] by (auto split: prod.splits bool.splits)
  obtain o2 where o2: "decode_update_loop c1 [] (concat ds) = (True, ctx', o2)" "out = o1 @ o2"
    using r decode_loop_out [of c1 o1 "[]" "concat ds"] by (auto split: prod.splits)
  have e: "\<not> ctx_error_encountered c1" using decode_loop_error [OF c1] Cons.prems(3) by simp
  have "decode_all c1 ds = Some o2" using Cons.IH [OF o2(1)] Cons.prems(2,4) e o2(2) by simp
  then show ?case using c1 o2(2) Cons.prems(3,4) by (simp add: EVP_DecodeUpdate_def)
qed

end
