(* ===== verification/Encoding_Props.thy ===== *)
theory Encoding_Props
  imports Base64_Correct
begin

text \<open>
  The properties of the constant-time primitives and of base64, each with a witness on a concrete input
  where it has hypotheses.
\<close>

section \<open>Constant-time primitives\<close>

text \<open>the branch-free comparisons of \<open>internal.h\<close> compute the comparisons: all ones when the relation
  holds and zero otherwise, on 64-bit words, on \<open>int\<close>s and in their 8-bit forms, and the selections
  choose by such a mask.\<close>

theorem constant_time_is_comparison:
  "constant_time_lt_w a b = (if a < b then - 1 else 0) \<and> constant_time_ge_w a b = (if b \<le> a then - 1 else 0) \<and>
   constant_time_eq_w a b = (if a = b then - 1 else 0) \<and> constant_time_is_zero_w a = (if a = 0 then - 1 else 0) \<and>
   constant_time_lt_8 a b = (if a < b then 255 else 0) \<and> constant_time_eq_8 a b = (if a = b then 255 else 0) \<and>
   constant_time_eq_int i j = (if i = j then - 1 else 0) \<and>
   constant_time_select_w (constant_time_lt_w a b) x y = (if a < b then x else y) \<and>
   constant_time_select_8 (constant_time_eq_w a b) p q = (if a = b then p else q) \<and>
   constant_time_select_int (constant_time_ge_w a b) i j = (if b \<le> a then i else j)"
  by (simp add: ct_simps)

text \<open>the arithmetic character conversions are the base64 alphabet: \<open>conv_bin2ascii\<close> maps the six low bits to
  the alphabet, and \<open>base64_ascii_to_bin\<close> maps the characters of the alphabet back, the padding character to
  zero and every other byte to \<open>0xff\<close>.\<close>

theorem base64_alphabet:
  "conv_bin2ascii a = base64_digit (a AND 63) \<and> base64_ascii_to_bin (conv_bin2ascii a) = a AND 63 \<and>
   (base64_ascii_to_bin c = 255 \<longleftrightarrow> c \<noteq> 61 \<and> c \<notin> range base64_digit)"
proof -
  have "base64_ascii_to_bin c \<noteq> 255" if "c = base64_digit s" for s
  proof -
    have "base64_digit s = 47 \<or> unat s < 64" by (auto simp: base64_digit_def word_less_nat_alt)
    then show ?thesis
    proof
      assume "unat s < 64"
      moreover have "s \<noteq> 255" using calculation by auto
      ultimately show ?thesis using digit_inverse(1) [of s] that by simp
    qed (simp add: that ascii_to_bin_cases)
  qed
  moreover have "c \<in> range base64_digit" if "base64_ascii_to_bin c \<noteq> 255" "c \<noteq> 61"
    using ascii_to_bin_digit [OF that] by (metis rangeI)
  moreover have "base64_ascii_to_bin 61 \<noteq> 255" by (simp add: ascii_to_bin_cases)
  ultimately show ?thesis 
    using conv_inverse(1) [of a] conv_bin2ascii_digit [of a] by auto
qed

section \<open>Base64\<close>

text \<open>C8: decoding inverts encoding. \<open>EVP_DecodeBase64\<close>, given room, reads back from the characters written by
  \<open>EVP_EncodeBlock\<close> exactly the bytes that were encoded, for every input.\<close>

theorem base64_roundtrip:
  assumes "length xs + 2 \<le> max_out"
  shows "(case EVP_EncodeBlock xs of (dst, n) \<Rightarrow> EVP_DecodeBase64 max_out (take n dst)) = Some xs"
  using decode_base64_encoded [OF assms] by (simp add: EVP_EncodeBlock_def Let_def)

theorem base64_roundtrip_witness:
  "(case EVP_EncodeBlock [1, 2, 3, 4] of (dst, n) \<Rightarrow> EVP_DecodeBase64 6 (take n dst)) = Some [1, 2, 3, 4]"
  using base64_roundtrip [of "[1, 2, 3, 4]" 6] by simp

text \<open>\<open>EVP_EncodedLength\<close> gives exactly the number of bytes \<open>EVP_EncodeBlock\<close> writes, the terminating NUL
  included, so a buffer of that size is neither overrun nor larger than needed.\<close>

theorem encoded_length_fits:
  assumes "length src < size_mod" "EVP_EncodedLength (length src) = Some n"
  shows "length (fst (EVP_EncodeBlock src)) = n \<and> snd (EVP_EncodeBlock src) + 1 = n"
  using encoded_length_exact [OF assms(2,1)] .

theorem encoded_length_fits_witness:
  "EVP_EncodedLength (length [1, 2, 3, 4 :: u8]) = Some 9 \<and> length (fst (EVP_EncodeBlock [1, 2, 3, 4])) = 9"
proof -
  have e: "EVP_EncodedLength (length [1, 2, 3, 4 :: u8]) = Some 9"
    by (simp add: EVP_EncodedLength_def size_add_def size_mul_def size_mod_def Let_def)
  have "length [1, 2, 3, 4 :: u8] < size_mod" by (simp add: size_mod_def)
  with encoded_length_fits [OF this e] e show ?thesis by blast
qed

text \<open>the streaming encoder does not depend on how its input is cut. Feeding the pieces to
  \<open>EVP_EncodeUpdate\<close> one after the other and finishing with \<open>EVP_EncodeFinal\<close> produces the lines of 48 input
  bytes of the whole input, each followed by a newline, provided the output fits in an \<open>int\<close>.\<close>

theorem stream_encode_pieces:
  assumes "length (b64_text (concat pieces)) \<le> INT_MAX"
  shows "encode_all (EVP_EncodeInit ctx) pieces = b64_text (concat pieces)"
  using encode_all_text [OF enc_ctx_init, of pieces] assms by simp

theorem stream_encode_pieces_witness:
  "encode_all (EVP_EncodeInit encode_ctx_zero) [[1], [2, 3]] = b64_text [1, 2, 3]"
proof -
  have "length (b64_text (concat [[1], [2, 3 :: u8]])) \<le> INT_MAX"
    by (simp add: b64_text_def length_encoded INT_MAX_def)
  from stream_encode_pieces [OF this, of encode_ctx_zero] show ?thesis by simp
qed

text \<open>C28: the streaming decoder reads back the streaming encoder's output. However the text is cut into pieces,
  \<open>EVP_DecodeUpdate\<close> accepts every piece, \<open>EVP_DecodeFinal\<close> succeeds, and the bytes written are the original
  input.\<close>

theorem stream_decode_pieces:
  assumes "concat pieces = b64_text xs" "length xs \<le> INT_MAX"
  shows "decode_all (EVP_DecodeInit ctx) pieces = Some xs"
proof -
  have "dec_ready (EVP_DecodeInit ctx)" by (simp add: dec_ready_def EVP_DecodeInit_def encode_ctx_zero_def sizeof_ctx_data_def)
  from decode_text [OF this, of xs] obtain ctx' where
    "decode_update_loop (EVP_DecodeInit ctx) [] (concat pieces) = (True, ctx', xs)" "ctx_data_used ctx' = 0"
    using assms(1) by auto
  then show ?thesis
    using decode_all_loop [of _ pieces] assms(2) by (simp add: EVP_DecodeInit_def encode_ctx_zero_def)
qed

theorem stream_decode_pieces_witness:
  "decode_all (EVP_DecodeInit encode_ctx_zero) [take 2 (b64_text [1, 2]), drop 2 (b64_text [1, 2])] = Some [1, 2]"
  by (rule stream_decode_pieces) (simp_all add: INT_MAX_def)

end
