(* ===== verification/Bio.thy ===== *)
theory Bio
  imports Der Buf "HOL-Library.Monad_Syntax"
begin

text \<open>
  \<open>crypto/bio/bio.c\<close>: the dispatch layer of the I/O streams and the readers built on it, and the contract
  of a byte source under which these readers are correct.

  A \<open>BIO *\<close> is a number, memory is the map from numbers to \<open>BIO\<close>s, so that streams can refer to each other,
  and a \<open>const BIO_METHOD *\<close> is an index of the method tables \<open>M\<close>. A call is \<open>None\<close> when the code does not
  return: a loop that does not end, or a failed assertion. A read returns its value, the bytes it stored through
  the buffer pointer, and the memory. The error queue is a component of its own: only \<open>BIO_read_asn1\<close>
  keeps the reason it reports. Storage that was freed stays in the map. Application data is not modelled.
\<close>

section \<open>State\<close>

record 'p BIO =
  bio_method :: "nat option"
  bio_init :: bool
  bio_shutdown :: int
  bio_flags :: u32
  bio_retry_reason :: int
  bio_num :: int
  bio_references :: u32
  bio_ptr :: "'p option"
  bio_next :: "nat option"
  bio_num_read :: u64
  bio_num_write :: u64

type_synonym 'p bio_heap = "nat \<Rightarrow> 'p BIO"

type_synonym 'p bio_reader = "'p bio_heap \<Rightarrow> nat \<Rightarrow> int \<Rightarrow> (int \<times> u8 list \<times> 'p bio_heap) option"

type_synonym 'p bio_writer = "'p bio_heap \<Rightarrow> nat \<Rightarrow> u8 list \<Rightarrow> (int \<times> 'p bio_heap) option"

text \<open>What the \<open>void *\<close> argument of a control operation points to, and what is stored through it.\<close>

datatype 'p ctrl_arg = Arg_null | Arg_bio nat | Arg_obj 'p | Arg_out

datatype 'p ctrl_out = Out_none | Out_data "u8 list option" | Out_obj "'p option"

type_synonym 'p bio_controller =
  "'p bio_heap \<Rightarrow> nat \<Rightarrow> int \<Rightarrow> int \<Rightarrow> 'p ctrl_arg \<Rightarrow> (int \<times> 'p ctrl_out \<times> 'p bio_heap) option"

record 'p BIO_METHOD =
  meth_type :: nat
  meth_bwrite :: "'p bio_writer option"
  meth_bread :: "'p bio_reader option"
  meth_bgets :: "'p bio_reader option"
  meth_ctrl :: "'p bio_controller option"
  meth_create :: "(allocator \<Rightarrow> 'p bio_heap \<Rightarrow> nat \<Rightarrow> bool \<times> 'p bio_heap) option"
  meth_destroy :: "('p bio_heap \<Rightarrow> nat \<Rightarrow> (bool \<times> 'p bio_heap) option) option"

type_synonym 'p bio_methods = "nat \<Rightarrow> 'p BIO_METHOD"

text \<open>An operation of the method table of a stream, \<open>None\<close> when one of the pointers to it is null.\<close>

definition bio_meth :: "'p bio_methods \<Rightarrow> 'p bio_heap \<Rightarrow> nat option \<Rightarrow> ('p BIO_METHOD \<Rightarrow> 'f option) \<Rightarrow> (nat \<times> 'f) option" where
  "bio_meth M h bio op = do {
     i \<leftarrow> bio;
     m \<leftarrow> bio_method (h i);
     f \<leftarrow> op (M m);
     Some (i, f)
   }"

text \<open>The conversion from \<open>long\<close> to \<open>int\<close>.\<close>

definition c_int :: "int \<Rightarrow> int" where
  "c_int n = sint (word_of_int n :: 32 word)"

definition bio_update :: "nat \<Rightarrow> ('p BIO \<Rightarrow> 'p BIO) \<Rightarrow> 'p bio_heap \<Rightarrow> 'p bio_heap" where
  "bio_update i f h = h(i := f (h i))"

section \<open>Creation and release\<close>

definition sizeof_BIO :: nat where
  "sizeof_BIO = 88"

definition CRYPTO_REFCOUNT_MAX :: u32 where
  "CRYPTO_REFCOUNT_MAX = 0xffffffff"

definition CRYPTO_refcount_inc :: "u32 \<Rightarrow> u32" where
  "CRYPTO_refcount_inc count = (if count \<noteq> CRYPTO_REFCOUNT_MAX then count + 1 else count)"

text \<open>The code aborts when the count is zero.\<close>

definition CRYPTO_refcount_dec_and_test_zero :: "u32 \<Rightarrow> (bool \<times> u32) option" where
  "CRYPTO_refcount_dec_and_test_zero count =
     (if count = 0 then None
      else if count = CRYPTO_REFCOUNT_MAX then Some (False, count)
      else Some (count - 1 = 0, count - 1))"

text \<open>\<open>i\<close> is the address that the allocation returns.\<close>

definition BIO_new :: "allocator \<Rightarrow> 'p bio_methods \<Rightarrow> 'p bio_heap \<Rightarrow> nat \<Rightarrow> nat \<Rightarrow> nat option \<times> 'p bio_heap" where
  "BIO_new A M h i m =
     (case OPENSSL_zalloc A sizeof_BIO of
        None \<Rightarrow> (None, h)
      | Some _ \<Rightarrow>
          (let h = h(i := \<lparr>bio_method = Some m, bio_init = False, bio_shutdown = 1, bio_flags = 0, bio_retry_reason = 0,
                           bio_num = 0, bio_references = 1, bio_ptr = None, bio_next = None,
                           bio_num_read = 0, bio_num_write = 0\<rparr>)
           in case meth_create (M m) of
                None \<Rightarrow> (Some i, h)
              | Some create \<Rightarrow>
                  (case create A h i of (False, h) \<Rightarrow> (None, h) | (True, h) \<Rightarrow> (Some i, h))))"

definition BIO_pop :: "'p bio_heap \<Rightarrow> nat option \<Rightarrow> nat option \<times> 'p bio_heap" where
  "BIO_pop h bio =
     (case bio of
        None \<Rightarrow> (None, h)
      | Some i \<Rightarrow> (bio_next (h i), bio_update i (\<lambda>b. b\<lparr>bio_next := None\<rparr>) h))"

partial_function (option) BIO_free :: "'p bio_methods \<Rightarrow> 'p bio_heap \<Rightarrow> nat option \<Rightarrow> (bool \<times> 'p bio_heap) option" where
  "BIO_free M h bio =
     (case bio of
        None \<Rightarrow> Some (True, h)
      | Some i \<Rightarrow> do {
          (zero, count) \<leftarrow> CRYPTO_refcount_dec_and_test_zero (bio_references (h i));
          let h = bio_update i (\<lambda>b. b\<lparr>bio_references := count\<rparr>) h;
          if \<not> zero then Some (False, h)
          else
            (let (next_bio, h) = BIO_pop h bio
             in case bio_meth M h bio meth_destroy of
                  None \<Rightarrow> BIO_free M h next_bio
                | Some (_, destroy) \<Rightarrow> do {
                    (_, h) \<leftarrow> destroy h i;
                    BIO_free M h next_bio
                  })
        })"

definition BIO_vfree :: "'p bio_methods \<Rightarrow> 'p bio_heap \<Rightarrow> nat option \<Rightarrow> 'p bio_heap option" where
  "BIO_vfree M h bio = map_option snd (BIO_free M h bio)"

definition BIO_free_all :: "'p bio_methods \<Rightarrow> 'p bio_heap \<Rightarrow> nat option \<Rightarrow> 'p bio_heap option" where
  "BIO_free_all M h bio = map_option snd (BIO_free M h bio)"

definition BIO_up_ref :: "nat \<Rightarrow> 'p bio_heap \<Rightarrow> 'p bio_heap" where
  "BIO_up_ref i = bio_update i (\<lambda>b. b\<lparr>bio_references := CRYPTO_refcount_inc (bio_references b)\<rparr>)"

section \<open>Control operations\<close>

definition BIO_CTRL_RESET :: int where "BIO_CTRL_RESET = 1"

definition BIO_CTRL_EOF :: int where "BIO_CTRL_EOF = 2"

definition BIO_CTRL_INFO :: int where "BIO_CTRL_INFO = 3"

definition BIO_CTRL_GET_CLOSE :: int where "BIO_CTRL_GET_CLOSE = 8"

definition BIO_CTRL_SET_CLOSE :: int where "BIO_CTRL_SET_CLOSE = 9"

definition BIO_CTRL_PENDING :: int where "BIO_CTRL_PENDING = 10"

definition BIO_CTRL_FLUSH :: int where "BIO_CTRL_FLUSH = 11"

definition BIO_CTRL_WPENDING :: int where "BIO_CTRL_WPENDING = 13"

definition BIO_ctrl ::
  "'p bio_methods \<Rightarrow> 'p bio_heap \<Rightarrow> nat option \<Rightarrow> int \<Rightarrow> int \<Rightarrow> 'p ctrl_arg \<Rightarrow> (int \<times> 'p ctrl_out \<times> 'p bio_heap) option" where
  "BIO_ctrl M h bio cmd larg parg =
     (if bio = None then Some (0, Out_none, h)
      else case bio_meth M h bio meth_ctrl of
        None \<Rightarrow> Some (- 2, Out_none, h)
      | Some (i, ctrl) \<Rightarrow> ctrl h i cmd larg parg)"

text \<open>The calls that pass no pointer and truncate the result to an \<open>int\<close>.\<close>

definition ctrl_int :: "'p bio_methods \<Rightarrow> 'p bio_heap \<Rightarrow> nat option \<Rightarrow> int \<Rightarrow> int \<Rightarrow> (int \<times> 'p bio_heap) option" where
  "ctrl_int M h bio cmd larg = do {
     (r, _, h) \<leftarrow> BIO_ctrl M h bio cmd larg Arg_null;
     Some (c_int r, h)
   }"

definition BIO_flush :: "'p bio_methods \<Rightarrow> 'p bio_heap \<Rightarrow> nat option \<Rightarrow> (int \<times> 'p bio_heap) option" where
  "BIO_flush M h bio = ctrl_int M h bio BIO_CTRL_FLUSH 0"

definition BIO_reset :: "'p bio_methods \<Rightarrow> 'p bio_heap \<Rightarrow> nat option \<Rightarrow> (int \<times> 'p bio_heap) option" where
  "BIO_reset M h bio = ctrl_int M h bio BIO_CTRL_RESET 0"

definition BIO_eof :: "'p bio_methods \<Rightarrow> 'p bio_heap \<Rightarrow> nat option \<Rightarrow> (int \<times> 'p bio_heap) option" where
  "BIO_eof M h bio = ctrl_int M h bio BIO_CTRL_EOF 0"

definition BIO_set_close :: "'p bio_methods \<Rightarrow> 'p bio_heap \<Rightarrow> nat option \<Rightarrow> int \<Rightarrow> (int \<times> 'p bio_heap) option" where
  "BIO_set_close M h bio close_flag = ctrl_int M h bio BIO_CTRL_SET_CLOSE close_flag"

definition BIO_pending :: "'p bio_methods \<Rightarrow> 'p bio_heap \<Rightarrow> nat option \<Rightarrow> (nat \<times> 'p bio_heap) option" where
  "BIO_pending M h bio = do {
     (r, _, h) \<leftarrow> BIO_ctrl M h bio BIO_CTRL_PENDING 0 Arg_null;
     c_assert (r \<ge> 0);
     Some (nat r, h)
   }"

definition BIO_ctrl_pending :: "'p bio_methods \<Rightarrow> 'p bio_heap \<Rightarrow> nat option \<Rightarrow> (nat \<times> 'p bio_heap) option" where
  "BIO_ctrl_pending M h bio = BIO_pending M h bio"

definition BIO_wpending :: "'p bio_methods \<Rightarrow> 'p bio_heap \<Rightarrow> nat option \<Rightarrow> (nat \<times> 'p bio_heap) option" where
  "BIO_wpending M h bio = do {
     (r, _, h) \<leftarrow> BIO_ctrl M h bio BIO_CTRL_WPENDING 0 Arg_null;
     c_assert (r \<ge> 0);
     Some (nat r, h)
   }"

definition BIO_number_read :: "'p bio_heap \<Rightarrow> nat \<Rightarrow> u64" where
  "BIO_number_read h i = bio_num_read (h i)"

definition BIO_number_written :: "'p bio_heap \<Rightarrow> nat \<Rightarrow> u64" where
  "BIO_number_written h i = bio_num_write (h i)"

definition BIO_method_type :: "'p bio_methods \<Rightarrow> 'p bio_heap \<Rightarrow> nat \<Rightarrow> nat" where
  "BIO_method_type M h i = meth_type (M (the (bio_method (h i))))"

definition BIO_set_data :: "nat \<Rightarrow> 'p option \<Rightarrow> 'p bio_heap \<Rightarrow> 'p bio_heap" where
  "BIO_set_data i ptr = bio_update i (\<lambda>b. b\<lparr>bio_ptr := ptr\<rparr>)"

definition BIO_get_data :: "'p bio_heap \<Rightarrow> nat \<Rightarrow> 'p option" where
  "BIO_get_data h i = bio_ptr (h i)"

definition BIO_set_init :: "nat \<Rightarrow> bool \<Rightarrow> 'p bio_heap \<Rightarrow> 'p bio_heap" where
  "BIO_set_init i v = bio_update i (\<lambda>b. b\<lparr>bio_init := v\<rparr>)"

definition BIO_get_init :: "'p bio_heap \<Rightarrow> nat \<Rightarrow> bool" where
  "BIO_get_init h i = bio_init (h i)"

definition BIO_set_shutdown :: "nat \<Rightarrow> int \<Rightarrow> 'p bio_heap \<Rightarrow> 'p bio_heap" where
  "BIO_set_shutdown i v = bio_update i (\<lambda>b. b\<lparr>bio_shutdown := v\<rparr>)"

definition BIO_get_shutdown :: "'p bio_heap \<Rightarrow> nat \<Rightarrow> int" where
  "BIO_get_shutdown h i = bio_shutdown (h i)"

text \<open>The next type number, from the global counter.\<close>

definition BIO_get_new_index :: "int \<Rightarrow> int \<times> int" where
  "BIO_get_new_index g_index = (if g_index > 255 then (- 1, g_index) else (g_index, g_index + 1))"

section \<open>Flags\<close>

definition BIO_FLAGS_READ :: u32 where
  "BIO_FLAGS_READ = 0x01"

definition BIO_FLAGS_WRITE :: u32 where
  "BIO_FLAGS_WRITE = 0x02"

definition BIO_FLAGS_IO_SPECIAL :: u32 where
  "BIO_FLAGS_IO_SPECIAL = 0x04"

definition BIO_FLAGS_RWS :: u32 where
  "BIO_FLAGS_RWS = BIO_FLAGS_READ OR BIO_FLAGS_WRITE OR BIO_FLAGS_IO_SPECIAL"

definition BIO_FLAGS_SHOULD_RETRY :: u32 where
  "BIO_FLAGS_SHOULD_RETRY = 0x08"

definition BIO_FLAGS_MEM_RDONLY :: u32 where
  "BIO_FLAGS_MEM_RDONLY = 0x200"

definition kRetryFlags :: u32 where
  "kRetryFlags = BIO_FLAGS_RWS OR BIO_FLAGS_SHOULD_RETRY"

definition BIO_set_flags :: "nat \<Rightarrow> u32 \<Rightarrow> 'p bio_heap \<Rightarrow> 'p bio_heap" where
  "BIO_set_flags i flags = bio_update i (\<lambda>b. b\<lparr>bio_flags := bio_flags b OR flags\<rparr>)"

definition BIO_test_flags :: "'p bio_heap \<Rightarrow> nat \<Rightarrow> u32 \<Rightarrow> u32" where
  "BIO_test_flags h i flags = bio_flags (h i) AND flags"

definition BIO_should_read :: "'p bio_heap \<Rightarrow> nat \<Rightarrow> u32" where
  "BIO_should_read h i = BIO_test_flags h i BIO_FLAGS_READ"

definition BIO_should_write :: "'p bio_heap \<Rightarrow> nat \<Rightarrow> u32" where
  "BIO_should_write h i = BIO_test_flags h i BIO_FLAGS_WRITE"

definition BIO_should_retry :: "'p bio_heap \<Rightarrow> nat \<Rightarrow> u32" where
  "BIO_should_retry h i = BIO_test_flags h i BIO_FLAGS_SHOULD_RETRY"

definition BIO_should_io_special :: "'p bio_heap \<Rightarrow> nat \<Rightarrow> u32" where
  "BIO_should_io_special h i = BIO_test_flags h i BIO_FLAGS_IO_SPECIAL"

definition BIO_get_retry_reason :: "'p bio_heap \<Rightarrow> nat \<Rightarrow> int" where
  "BIO_get_retry_reason h i = bio_retry_reason (h i)"

definition BIO_set_retry_reason :: "nat \<Rightarrow> int \<Rightarrow> 'p bio_heap \<Rightarrow> 'p bio_heap" where
  "BIO_set_retry_reason i reason = bio_update i (\<lambda>b. b\<lparr>bio_retry_reason := reason\<rparr>)"

definition BIO_clear_flags :: "nat \<Rightarrow> u32 \<Rightarrow> 'p bio_heap \<Rightarrow> 'p bio_heap" where
  "BIO_clear_flags i flags = bio_update i (\<lambda>b. b\<lparr>bio_flags := bio_flags b AND NOT flags\<rparr>)"

definition BIO_set_retry_read :: "nat \<Rightarrow> 'p bio_heap \<Rightarrow> 'p bio_heap" where
  "BIO_set_retry_read i = bio_update i (\<lambda>b. b\<lparr>bio_flags := bio_flags b OR (BIO_FLAGS_READ OR BIO_FLAGS_SHOULD_RETRY)\<rparr>)"

definition BIO_set_retry_write :: "nat \<Rightarrow> 'p bio_heap \<Rightarrow> 'p bio_heap" where
  "BIO_set_retry_write i = bio_update i (\<lambda>b. b\<lparr>bio_flags := bio_flags b OR (BIO_FLAGS_WRITE OR BIO_FLAGS_SHOULD_RETRY)\<rparr>)"

definition BIO_set_retry_special :: "nat \<Rightarrow> 'p bio_heap \<Rightarrow> 'p bio_heap" where
  "BIO_set_retry_special i = bio_update i (\<lambda>b. b\<lparr>bio_flags := bio_flags b OR (BIO_FLAGS_READ OR BIO_FLAGS_IO_SPECIAL)\<rparr>)"

definition BIO_get_retry_flags :: "'p bio_heap \<Rightarrow> nat \<Rightarrow> u32" where
  "BIO_get_retry_flags h i = bio_flags (h i) AND kRetryFlags"

definition BIO_clear_retry_flags :: "nat \<Rightarrow> 'p bio_heap \<Rightarrow> 'p bio_heap" where
  "BIO_clear_retry_flags i =
     bio_update i (\<lambda>b. b\<lparr>bio_flags := bio_flags b AND NOT kRetryFlags, bio_retry_reason := 0\<rparr>)"

definition BIO_copy_next_retry :: "nat \<Rightarrow> 'p bio_heap \<Rightarrow> 'p bio_heap" where
  "BIO_copy_next_retry i h =
     (let next_bio = the (bio_next (h i));
          h = BIO_clear_retry_flags i h;
          h = BIO_set_flags i (BIO_get_retry_flags h next_bio) h
      in BIO_set_retry_reason i (bio_retry_reason (h next_bio)) h)"

section \<open>Reading and writing\<close>

definition BIO_read :: "'p bio_methods \<Rightarrow> 'p bio_heap \<Rightarrow> nat option \<Rightarrow> int \<Rightarrow> (int \<times> u8 list \<times> 'p bio_heap) option" where
  "BIO_read M h bio len =
     (case bio_meth M h bio meth_bread of
        Some (i, bread) \<Rightarrow>
          (if \<not> bio_init (h i) then Some (- 2, [], h)
           else if len \<le> 0 then Some (0, [], h)
           else do {
             (ret, out, h) \<leftarrow> bread h i len;
             Some (ret, out,
                   if ret > 0 then bio_update i (\<lambda>b. b\<lparr>bio_num_read := bio_num_read b + word_of_int ret\<rparr>) h else h)
           })
      | None \<Rightarrow> Some (- 2, [], h))"

definition BIO_gets :: "'p bio_methods \<Rightarrow> 'p bio_heap \<Rightarrow> nat option \<Rightarrow> int \<Rightarrow> (int \<times> u8 list \<times> 'p bio_heap) option" where
  "BIO_gets M h bio len =
     (case bio_meth M h bio meth_bgets of
        Some (i, bgets) \<Rightarrow>
          (if \<not> bio_init (h i) then Some (- 2, [], h)
           else if len \<le> 0 then Some (0, [], h)
           else do {
             (ret, out, h) \<leftarrow> bgets h i len;
             Some (ret, out,
                   if ret > 0 then bio_update i (\<lambda>b. b\<lparr>bio_num_read := bio_num_read b + word_of_int ret\<rparr>) h else h)
           })
      | None \<Rightarrow> Some (- 2, [], h))"

text \<open>The length \<open>inl\<close> of the input is the length of the list.\<close>

definition BIO_write :: "'p bio_methods \<Rightarrow> 'p bio_heap \<Rightarrow> nat option \<Rightarrow> u8 list \<Rightarrow> (int \<times> 'p bio_heap) option" where
  "BIO_write M h bio inp =
     (case bio_meth M h bio meth_bwrite of
        Some (i, bwrite) \<Rightarrow>
          (if \<not> bio_init (h i) then Some (- 2, h)
           else if length inp = 0 then Some (0, h)
           else do {
             (ret, h) \<leftarrow> bwrite h i inp;
             Some (ret,
                   if ret > 0 then bio_update i (\<lambda>b. b\<lparr>bio_num_write := bio_num_write b + word_of_int ret\<rparr>) h else h)
           })
      | None \<Rightarrow> Some (- 2, h))"

partial_function (option) BIO_write_all ::
  "'p bio_methods \<Rightarrow> 'p bio_heap \<Rightarrow> nat option \<Rightarrow> u8 list \<Rightarrow> (bool \<times> 'p bio_heap) option" where
  "BIO_write_all M h bio data =
     (if length data > 0 then do {
        (ret, h) \<leftarrow> BIO_write M h bio (take (if length data > INT_MAX then INT_MAX else length data) data);
        if ret \<le> 0 then Some (False, h) else BIO_write_all M h bio (drop (nat ret) data)
      }
      else Some (True, h))"

text \<open>The string without its terminating zero.\<close>

definition BIO_puts :: "'p bio_methods \<Rightarrow> 'p bio_heap \<Rightarrow> nat option \<Rightarrow> u8 list \<Rightarrow> (int \<times> 'p bio_heap) option" where
  "BIO_puts M h bio str =
     (if strlen str > INT_MAX then Some (- 1, h) else BIO_write M h bio (take (strlen str) str))"

fun indent_loop :: "'p bio_methods \<Rightarrow> nat \<Rightarrow> 'p bio_heap \<Rightarrow> nat option \<Rightarrow> (bool \<times> 'p bio_heap) option" where
  "indent_loop M 0 h bio = Some (True, h)"
| "indent_loop M (Suc indent) h bio = do {
     (ret, h) \<leftarrow> BIO_puts M h bio [32, 0];
     if ret \<noteq> 1 then Some (False, h) else indent_loop M indent h bio
   }"

definition BIO_indent :: "'p bio_methods \<Rightarrow> 'p bio_heap \<Rightarrow> nat option \<Rightarrow> nat \<Rightarrow> nat \<Rightarrow> (bool \<times> 'p bio_heap) option" where
  "BIO_indent M h bio indent max_indent = indent_loop M (if indent > max_indent then max_indent else indent) h bio"

section \<open>Chains\<close>

partial_function (option) last_bio :: "'p bio_heap \<Rightarrow> nat \<Rightarrow> nat option" where
  "last_bio h i = (case bio_next (h i) of None \<Rightarrow> Some i | Some j \<Rightarrow> last_bio h j)"

definition BIO_push :: "'p bio_heap \<Rightarrow> nat option \<Rightarrow> nat option \<Rightarrow> (nat option \<times> 'p bio_heap) option" where
  "BIO_push h bio appended_bio =
     (case bio of
        None \<Rightarrow> Some (bio, h)
      | Some i \<Rightarrow> do {
          l \<leftarrow> last_bio h i;
          Some (bio, bio_update l (\<lambda>b. b\<lparr>bio_next := appended_bio\<rparr>) h)
        })"

definition BIO_next :: "'p bio_heap \<Rightarrow> nat option \<Rightarrow> nat option" where
  "BIO_next h bio = (case bio of None \<Rightarrow> None | Some i \<Rightarrow> bio_next (h i))"

partial_function (option) find_type_loop :: "'p bio_methods \<Rightarrow> 'p bio_heap \<Rightarrow> nat \<Rightarrow> nat \<Rightarrow> nat option option" where
  "find_type_loop M h i type =
     (let found = (case bio_method (h i) of
                     None \<Rightarrow> False
                   | Some m \<Rightarrow> if type AND 0xff = 0 then meth_type (M m) AND type \<noteq> 0 else meth_type (M m) = type)
      in if found then Some (Some i)
         else case bio_next (h i) of None \<Rightarrow> Some None | Some j \<Rightarrow> find_type_loop M h j type)"

definition BIO_find_type :: "'p bio_methods \<Rightarrow> 'p bio_heap \<Rightarrow> nat option \<Rightarrow> nat \<Rightarrow> nat option option" where
  "BIO_find_type M h bio type = (case bio of None \<Rightarrow> Some None | Some i \<Rightarrow> find_type_loop M h i type)"

section \<open>Whole elements\<close>

text \<open>\<open>bio_read_full\<close> delivers success, \<open>*out_eof_on_first_read\<close>, the bytes read so far and the memory.\<close>

partial_function (option) bio_read_full ::
  "'p bio_methods \<Rightarrow> 'p bio_heap \<Rightarrow> nat option \<Rightarrow> bool \<Rightarrow> u8 list \<Rightarrow> nat \<Rightarrow> (bool \<times> bool \<times> u8 list \<times> 'p bio_heap) option" where
  "bio_read_full M h bio first_read out len =
     (if len > 0 then do {
        (ret, bytes, h) \<leftarrow> BIO_read M h bio (int (if len \<le> INT_MAX then len else INT_MAX));
        if ret \<le> 0 then Some (False, first_read \<and> ret = 0, out, h)
        else bio_read_full M h bio False (out @ bytes) (len - nat ret)
      }
      else Some (True, False, out, h))"

definition size_sub :: "nat \<Rightarrow> nat \<Rightarrow> nat" where
  "size_sub a b = (a + (size_mod - b mod size_mod)) mod size_mod"

definition kChunkSize :: nat where
  "kChunkSize = 4096"

text \<open>The loop of \<open>bio_read_all\<close>: \<open>out\<close> is the buffer of length \<open>len\<close>, of which \<open>done\<close> bytes are filled.\<close>

partial_function (option) read_all_loop ::
  "allocator \<Rightarrow> 'p bio_methods \<Rightarrow> nat \<Rightarrow> 'p bio_heap \<Rightarrow> nat option \<Rightarrow> u8 list \<Rightarrow> nat \<Rightarrow> nat \<Rightarrow>
   (u8 list option \<times> 'p bio_heap) option" where
  "read_all_loop A M max_len h bio out len filled =
     (if filled = len then Some (None, h)
      else do {
        (n, bytes, h) \<leftarrow> BIO_read M h bio (int (if size_sub len filled > INT_MAX then INT_MAX else size_sub len filled));
        if n = 0 then Some (Some (take filled out), h)
        else if n = - 1 then Some (None, h)
        else
          (let out = write_at filled bytes out;
               filled = size_add filled (nat (n mod int size_mod))
           in if len < max_len \<and> size_sub len filled < kChunkSize div 2 then
                (let len' = size_add len kChunkSize;
                     len' = (if len' < kChunkSize \<or> len' > max_len then max_len else len')
                 in case OPENSSL_realloc A (Some out) len' of
                      None \<Rightarrow> Some (None, h)
                    | Some out \<Rightarrow> read_all_loop A M max_len h bio out len' filled)
              else read_all_loop A M max_len h bio out len filled)
      })"

definition bio_read_all ::
  "allocator \<Rightarrow> 'p bio_methods \<Rightarrow> 'p bio_heap \<Rightarrow> nat option \<Rightarrow> u8 list \<Rightarrow> nat \<Rightarrow> (u8 list option \<times> 'p bio_heap) option" where
  "bio_read_all A M h bio prefix max_len =
     (let len = size_add (length prefix) kChunkSize;
          len = (if len > max_len then max_len else len)
      in if len < length prefix then Some (None, h)
         else case OPENSSL_malloc A len of
           None \<Rightarrow> Some (None, h)
         | Some out \<Rightarrow> read_all_loop A M max_len h bio (write_at 0 prefix out) len (length prefix))"

text \<open>The length octets of the long form, as a 32-bit number.\<close>

fun len32_loop :: "u32 \<Rightarrow> u8 list \<Rightarrow> u32" where
  "len32_loop len32 [] = len32"
| "len32_loop len32 (b # bs) = len32_loop (push_bit 8 len32 OR ucast b) bs"

datatype read_asn1_error =
  ASN1_R_HEADER_TOO_LONG | ASN1_R_NOT_ENOUGH_DATA | ASN1_R_DECODE_ERROR | ASN1_R_TOO_LONG | Malloc_failure

text \<open>The end of \<open>BIO_read_asn1\<close>, from the test of the length on.\<close>

definition read_asn1_body ::
  "allocator \<Rightarrow> 'p bio_methods \<Rightarrow> 'p bio_heap \<Rightarrow> nat option \<Rightarrow> nat \<Rightarrow> u8 list \<Rightarrow> nat \<Rightarrow>
   ((read_asn1_error + u8 list) \<times> 'p bio_heap) option" where
  "read_asn1_body A M h bio max_len header len =
     (if size_add len (length header) < len \<or> size_add len (length header) > max_len \<or> len > INT_MAX
      then Some (Inl ASN1_R_TOO_LONG, h)
      else case OPENSSL_malloc A (len + length header) of
        None \<Rightarrow> Some (Inl Malloc_failure, h)
      | Some _ \<Rightarrow> do {
          (ok, _, out, h) \<leftarrow> bio_read_full M h bio True header len;
          Some (if ok then Inr out else Inl ASN1_R_NOT_ENOUGH_DATA, h)
        })"

text \<open>The branch of the long form, \<open>num_bytes\<close> length octets.\<close>

definition read_asn1_long ::
  "allocator \<Rightarrow> 'p bio_methods \<Rightarrow> 'p bio_heap \<Rightarrow> nat option \<Rightarrow> nat \<Rightarrow> u8 list \<Rightarrow> nat \<Rightarrow>
   ((read_asn1_error + u8 list) \<times> 'p bio_heap) option" where
  "read_asn1_long A M h bio max_len header num_bytes =
     (if (header ! 0) AND 0x20 \<noteq> 0 \<and> num_bytes = 0 then do {
        (out, h) \<leftarrow> bio_read_all A M h bio header max_len;
        Some (case out of None \<Rightarrow> Inl ASN1_R_NOT_ENOUGH_DATA | Some out \<Rightarrow> Inr out, h)
      }
      else if num_bytes = 0 \<or> num_bytes > 4 then Some (Inl ASN1_R_DECODE_ERROR, h)
      else do {
        (ok, _, octets, h) \<leftarrow> bio_read_full M h bio True [] num_bytes;
        if \<not> ok then Some (Inl ASN1_R_NOT_ENOUGH_DATA, h)
        else
          (let len32 = len32_loop 0 octets
           in if len32 < 128 then Some (Inl ASN1_R_DECODE_ERROR, h)
              else if drop_bit ((num_bytes - 1) * 8) len32 = 0 then Some (Inl ASN1_R_DECODE_ERROR, h)
              else read_asn1_body A M h bio max_len (header @ octets) (unat len32))
      })"

definition BIO_read_asn1 ::
  "allocator \<Rightarrow> 'p bio_methods \<Rightarrow> 'p bio_heap \<Rightarrow> nat option \<Rightarrow> nat \<Rightarrow>
   ((read_asn1_error + u8 list) \<times> 'p bio_heap) option" where
  "BIO_read_asn1 A M h bio max_len = do {
     (ok, eof_on_first_read, header, h) \<leftarrow> bio_read_full M h bio True [] 2;
     if \<not> ok then Some (Inl (if eof_on_first_read then ASN1_R_HEADER_TOO_LONG else ASN1_R_NOT_ENOUGH_DATA), h)
     else
       (let tag = header ! 0; length_byte = header ! 1
        in if tag AND 0x1f = 0x1f then Some (Inl ASN1_R_DECODE_ERROR, h)
           else if length_byte AND 0x80 = 0 then read_asn1_body A M h bio max_len header (unat length_byte)
           else read_asn1_long A M h bio max_len header (unat (length_byte AND 0x7f)))
   }"

end
