(* ===== verification/Bio_Source.thy ===== *)
theory Bio_Source
  imports Bio
begin

text \<open>
  The contract of a stream that is read from: a source of bytes, which \<open>BIO_read\<close> delivers in pieces of any
  size, and its extension that reports the end of the stream as end of file. The readers of \<open>bio.c\<close> are proved
  correct once, for every stream that keeps the contract.
\<close>

section \<open>Arithmetic and memory\<close>

lemma bio_update_apply [simp]: "bio_update i f h k = (if k = i then f (h i) else h k)"
  by (simp add: bio_update_def)

lemma size_sub_exact [size_arith]: "b \<le> a \<Longrightarrow> a < size_mod \<Longrightarrow> size_sub a b = a - b"
  by (simp add: size_sub_def mod_if)

lemma realloc_keeps:
  assumes "OPENSSL_realloc A (Some out) n = Some out'" "length out \<le> n"
  shows "length out' = n \<and> take (length out) out' = out"
  using assms
  by (auto simp: OPENSSL_realloc_def OPENSSL_malloc_def Let_def write_at_def split: option.splits if_splits)

lemma unat_len32_loop:
  "unat r * 256 ^ length bs + be_nat bs < 2 ^ 32 \<Longrightarrow> unat (len32_loop r bs) = unat r * 256 ^ length bs + be_nat bs"
proof (induction bs arbitrary: r)
  case (Cons b bs)
  have b: "unat (ucast b :: u32) = unat b" by (simp add: unat_ucast_up)
  have "(unat r * 256 + unat b) * 256 ^ length bs + be_nat bs < 2 ^ 32"
    using Cons.prems by (simp add: be_nat_Cons algebra_simps)
  moreover have "unat r * 256 + unat b \<le> (unat r * 256 + unat b) * 256 ^ length bs" by simp
  ultimately have "unat r * 256 + unat b < 2 ^ 32" by linarith
  then have "unat (push_bit 8 r OR ucast b) = unat r * 256 + unat b"
    using unat_shift_in [of r 8 "ucast b"] b by simp
  then show ?case using Cons by (simp add: be_nat_Cons algebra_simps)
qed (simp add: be_nat_def)

lemma unat_len32_loop_0:
  assumes "length bs \<le> 4"
  shows "unat (len32_loop 0 bs) = be_nat bs"
proof -
  have "(256 :: nat) ^ length bs \<le> 256 ^ 4" using assms by (intro power_increasing) auto
  then show ?thesis using unat_len32_loop [of 0 bs] be_nat_bound [of bs] by simp
qed

text \<open>One round of the loop of \<open>bio_read_all\<close> that reads something, with the arithmetic made exact.\<close>

lemma grown_len:
  assumes "len \<le> max_len" "max_len < size_mod"
  shows "(if size_add len kChunkSize < kChunkSize \<or> size_add len kChunkSize > max_len then max_len
          else size_add len kChunkSize) = min max_len (len + kChunkSize)"
  using assms size_add_wraps [of kChunkSize len]
  by (cases "len + kChunkSize < size_mod") (auto simp: size_add_exact kChunkSize_def size_mod_def size_add_def add.commute mod_if)

lemma read_all_step:
  assumes "filled < len" "len \<le> max_len" "max_len < size_mod" "n = (if len - filled > INT_MAX then INT_MAX else len - filled)"
    "BIO_read M h bio (int n) = Some (int k, bytes, h1)" "0 < k" "filled + k \<le> len"
  shows "read_all_loop A M max_len h bio out len filled =
     (if len < max_len \<and> len - (filled + k) < kChunkSize div 2 then
        case OPENSSL_realloc A (Some (write_at filled bytes out)) (min max_len (len + kChunkSize)) of
          None \<Rightarrow> Some (None, h1)
        | Some out' \<Rightarrow> read_all_loop A M max_len h1 bio out' (min max_len (len + kChunkSize)) (filled + k)
      else read_all_loop A M max_len h1 bio (write_at filled bytes out) len (filled + k))"
proof -
  have todo: "(if size_sub len filled > INT_MAX then INT_MAX else size_sub len filled) = n"
    using assms by (simp add: size_sub_exact)
  have add: "size_add filled (nat (int k mod int size_mod)) = filled + k"
    using assms by (simp add: size_add_exact zmod_int [symmetric])
  have sub: "size_sub len (filled + k) = len - (filled + k)" using assms by (simp add: size_sub_exact)
  show ?thesis using assms(1,5,6)
    by (subst read_all_loop.simps) (simp only: todo bind.bind_lunit prod.case Let_def add sub grown_len [OF assms(2,3)] if_False
      less_imp_neq of_nat_eq_0_iff, simp)
qed

text \<open>A reader that has taken \<open>pre\<close> from a stream, of which \<open>s\<close> is left, returns \<open>res\<close> and leaves \<open>s'\<close>: it has
  only consumed bytes from the front, and what it returns is everything from the beginning of \<open>pre\<close> on.\<close>

definition delivered :: "u8 list \<Rightarrow> u8 list \<Rightarrow> u8 list \<Rightarrow> 'e + u8 list \<Rightarrow> bool" where
  "delivered pre s s' res \<longleftrightarrow> (\<exists>c. s = c @ s') \<and> (\<forall>out. res = Inr out \<longrightarrow> pre @ s = out @ s')"

lemma delivered_Inl [simp]: "delivered pre s s' (Inl e) \<longleftrightarrow> (\<exists>c. s = c @ s')"
  by (simp add: delivered_def)

lemma delivered_Inr: "s = c @ s' \<Longrightarrow> out = pre @ c \<Longrightarrow> delivered pre s s' (Inr out)"
  by (simp add: delivered_def)

lemma delivered_after: "s = c @ s1 \<Longrightarrow> delivered (pre @ c) s1 s' res \<Longrightarrow> delivered pre s s' res"
  by (auto simp: delivered_def)

section \<open>The contract\<close>

locale byte_source =
  fixes M :: "'p bio_methods" and i :: nat
    and ok :: "'p bio_heap \<Rightarrow> bool" and src :: "'p bio_heap \<Rightarrow> u8 list"
  assumes read_some: "ok h \<Longrightarrow> src h \<noteq> [] \<Longrightarrow> 0 < n \<Longrightarrow> n \<le> INT_MAX \<Longrightarrow>
      \<exists>k h'. BIO_read M h (Some i) (int n) = Some (int k, take k (src h), h') \<and> 0 < k \<and> k \<le> n \<and> k \<le> length (src h)
        \<and> ok h' \<and> src h' = drop k (src h)"
    and read_none: "ok h \<Longrightarrow> src h = [] \<Longrightarrow> 0 < n \<Longrightarrow> n \<le> INT_MAX \<Longrightarrow>
      \<exists>r h'. BIO_read M h (Some i) (int n) = Some (r, [], h') \<and> (r = 0 \<or> r = - 1) \<and> ok h' \<and> src h' = []"
begin

text \<open>A full read delivers exactly the bytes asked for when the source has them.\<close>

lemma read_full_exact:
  "ok h \<Longrightarrow> len \<le> length (src h) \<Longrightarrow>
   \<exists>h'. bio_read_full M h (Some i) fr out len = Some (True, False, out @ take len (src h), h') \<and> ok h' \<and> src h' = drop len (src h)"
proof (induction len arbitrary: h fr out rule: less_induct)
  case (less len)
  show ?case
  proof (cases "len = 0")
    case True
    then show ?thesis using less.prems by (simp add: bio_read_full.simps)
  next
    case False
    define n where "n = (if len \<le> INT_MAX then len else INT_MAX)"
    have n: "0 < n" "n \<le> INT_MAX" "n \<le> len" using False by (auto simp: n_def INT_MAX_def)
    have "src h \<noteq> []" using False less.prems by auto
    then obtain k h1 where r: "BIO_read M h (Some i) (int n) = Some (int k, take k (src h), h1)"
        "0 < k" "k \<le> n" "ok h1" "src h1 = drop k (src h)"
      using read_some [OF less.prems(1) _ n(1,2)] by auto
    have "len - k < len" "len - k \<le> length (src h1)" using r n False less.prems by auto
    from less.IH [OF this(1) r(4) this(2), of False "out @ take k (src h)"] r n
    obtain h' where "bio_read_full M h1 (Some i) False (out @ take k (src h)) (len - k) =
        Some (True, False, (out @ take k (src h)) @ take (len - k) (drop k (src h)), h')"
        "ok h'" "src h' = drop (len - k) (drop k (src h))" by auto
    moreover have "take k (src h) @ take (len - k) (drop k (src h)) = take len (src h)"
      using r n by (metis le_add_diff_inverse le_trans take_add)
    ultimately show ?thesis using r n False
      by (subst bio_read_full.simps) (simp add: n_def [symmetric])
  qed
qed

lemma read_full_short:
  "ok h \<Longrightarrow> length (src h) < len \<Longrightarrow>
   \<exists>e out' h'. bio_read_full M h (Some i) fr out len = Some (False, e, out', h') \<and> ok h' \<and> src h' = []"
proof (induction len arbitrary: h fr out rule: less_induct)
  case (less len)
  define n where "n = (if len \<le> INT_MAX then len else INT_MAX)"
  have n: "0 < n" "n \<le> INT_MAX" "n \<le> len" "0 < len" using less.prems by (auto simp: n_def INT_MAX_def)
  show ?case
  proof (cases "src h = []")
    case True
    then obtain r h1 where "BIO_read M h (Some i) (int n) = Some (r, [], h1)" "r = 0 \<or> r = - 1" "ok h1" "src h1 = []"
      using read_none [OF less.prems(1) _ n(1,2)] by auto
    then show ?thesis using n by (subst bio_read_full.simps) (auto simp: n_def [symmetric])
  next
    case False
    then obtain k h1 where r: "BIO_read M h (Some i) (int n) = Some (int k, take k (src h), h1)"
        "0 < k" "k \<le> n" "k \<le> length (src h)" "ok h1" "src h1 = drop k (src h)"
      using read_some [OF less.prems(1) _ n(1,2)] by auto
    have "len - k < len" "length (src h1) < len - k" using r n less.prems by auto
    from less.IH [OF this(1) r(5) this(2), of False "out @ take k (src h)"]
    obtain e out' h' where "bio_read_full M h1 (Some i) False (out @ take k (src h)) (len - k) = Some (False, e, out', h')"
        "ok h'" "src h' = []" by auto
    then show ?thesis using r n by (subst bio_read_full.simps) (simp add: n_def [symmetric])
  qed
qed

lemma read_full_cases:
  assumes "ok h"
  obtains h' where "len \<le> length (src h)" "bio_read_full M h (Some i) fr out len = Some (True, False, out @ take len (src h), h')"
      "ok h'" "src h' = drop len (src h)"
  | e out' h' where "length (src h) < len" "bio_read_full M h (Some i) fr out len = Some (False, e, out', h')"
      "ok h'" "src h' = []"
  using read_full_exact [OF assms] read_full_short [OF assms] that by (meson not_le)

text \<open>What reading all of the stream returns is everything the stream had.\<close>

lemma read_all_loop_total:
  "ok h \<Longrightarrow> length out = len \<Longrightarrow> filled \<le> len \<Longrightarrow> len \<le> max_len \<Longrightarrow> max_len < size_mod \<Longrightarrow>
   \<exists>res h'. read_all_loop A M max_len h (Some i) out len filled = Some (res, h') \<and> ok h' \<and>
     (\<exists>c. src h = c @ src h') \<and> (\<forall>x. res = Some x \<longrightarrow> x = take filled out @ src h \<and> src h' = [] \<and> length x < max_len)"
proof (induction "length (src h)" arbitrary: h out len filled rule: less_induct)
  case less
  show ?case
  proof (cases "filled = len")
    case True
    then show ?thesis using less.prems by (subst read_all_loop.simps) auto
  next
    case False
    define n where "n = (if len - filled > INT_MAX then INT_MAX else len - filled)"
    have n: "0 < n" "n \<le> INT_MAX" "n \<le> len - filled" using False less.prems by (auto simp: n_def INT_MAX_def)
    have todo: "(if size_sub len filled > INT_MAX then INT_MAX else size_sub len filled) = n"
      using less.prems by (simp add: size_sub_exact n_def)
    show ?thesis
    proof (cases "src h = []")
      case True
      then obtain r h1 where "BIO_read M h (Some i) (int n) = Some (r, [], h1)" "r = 0 \<or> r = - 1" "ok h1" "src h1 = []"
        using read_none [OF less.prems(1) _ n(1,2)] by auto
      then show ?thesis using True False less.prems by (subst read_all_loop.simps) (auto simp: todo)
    next
      case ne: False
      then obtain k h1 where r: "BIO_read M h (Some i) (int n) = Some (int k, take k (src h), h1)"
          "0 < k" "k \<le> n" "k \<le> length (src h)" "ok h1" "src h1 = drop k (src h)"
        using read_some [OF less.prems(1) _ n(1,2)] by auto
      define out1 where "out1 = write_at filled (take k (src h)) out"
      have k: "filled + k \<le> len" using r n False less.prems by simp
      have out1: "length out1 = len" "take (filled + k) out1 = take filled out @ take k (src h)"
        using k r less.prems take_write_at [of filled "take k (src h)" out] by (auto simp: out1_def min.absorb2)
      have step: "\<exists>res h'. read_all_loop A M max_len h1 (Some i) out2 len2 (filled + k) = Some (res, h') \<and> ok h' \<and>
          (\<exists>c. src h = c @ src h') \<and> (\<forall>x. res = Some x \<longrightarrow> x = take filled out @ src h \<and> src h' = [] \<and> length x < max_len)"
        if "length out2 = len2" "len \<le> len2" "len2 \<le> max_len" "take len out2 = out1" for out2 len2
      proof -
        have "take (filled + k) out2 = take filled out @ take k (src h)"
          using out1(2) that(4) k by (metis min.absorb2 take_take min.commute)
        then show ?thesis
          using less.hyps [of h1 out2 len2 "filled + k"] that r k ne less.prems
          by (auto simp: append_eq_conv_conj) (metis append_assoc append_take_drop_id)
      qed
      have step1: "\<exists>res h'. read_all_loop A M max_len h1 (Some i) out2 (min max_len (len + kChunkSize)) (filled + k) = Some (res, h') \<and> ok h' \<and>
          (\<exists>c. src h = c @ src h') \<and> (\<forall>x. res = Some x \<longrightarrow> x = take filled out @ src h \<and> src h' = [] \<and> length x < max_len)"
        if "OPENSSL_realloc A (Some out1) (min max_len (len + kChunkSize)) = Some out2" for out2
        using realloc_keeps [OF that] out1(1) less.prems by (intro step) auto
      have "filled < len" using False less.prems by simp
      note eq = read_all_step [OF this less.prems(4,5) n_def r(1,2) k, of A out, folded out1_def]
      have "\<exists>c. src h = c @ src h1" using r(6) by (metis append_take_drop_id)
      then show ?thesis unfolding eq using step [of out1 len] step1 out1 less.prems r(5)
        by (cases "OPENSSL_realloc A (Some out1) (min max_len (len + kChunkSize))") auto
    qed
  qed
qed

lemma read_all_total:
  assumes "ok h" "length pre \<le> 6" "max_len < size_mod"
  shows "\<exists>res h'. bio_read_all A M h (Some i) pre max_len = Some (res, h') \<and> ok h' \<and>
     (\<exists>c. src h = c @ src h') \<and> (\<forall>x. res = Some x \<longrightarrow> x = pre @ src h \<and> src h' = [] \<and> length x < max_len)"
proof -
  define len where "len = (if size_add (length pre) kChunkSize > max_len then max_len else size_add (length pre) kChunkSize)"
  show ?thesis
  proof (cases "len < length pre \<or> OPENSSL_malloc A len = None")
    case True
    then show ?thesis using assms(1) by (auto simp: bio_read_all_def Let_def len_def [symmetric])
  next
    case False
    then obtain out where out: "OPENSSL_malloc A len = Some out" "length pre \<le> len" by auto
    then have "length out = len" by (auto simp: OPENSSL_malloc_def split: if_splits)
    then have w: "length (write_at 0 pre out) = len" "take (length pre) (write_at 0 pre out) = pre"
      using out take_write_at [of 0 pre out] by auto
    have "len \<le> max_len" by (simp add: len_def)
    from read_all_loop_total [OF assms(1) w(1) out(2) this assms(3)] w(2) out
    show ?thesis by (simp add: bio_read_all_def Let_def len_def [symmetric])
  qed
qed

text \<open>An element whose header is understood: the rest of it is read, or the reason why not is reported.\<close>

lemma read_asn1_body_total:
  assumes "ok h"
  shows "\<exists>res h'. read_asn1_body A M h (Some i) max_len header len = Some (res, h') \<and> ok h' \<and>
     delivered header (src h) (src h') res"
proof (cases rule: read_full_cases [OF assms, of len True header])
  case (1 h')
  have "src h = take len (src h) @ src h'" using 1(4) by simp
  from delivered_Inr [OF this refl] show ?thesis
    using 1 assms by (auto simp: read_asn1_body_def split: option.split)
next
  case (2 e out' h')
  then show ?thesis using assms by (auto simp: read_asn1_body_def split: option.split)
qed

lemma read_asn1_body_exact:
  assumes "ok h" "src h = body @ rest" "length body \<le> INT_MAX" "length header \<le> 6" "length body + length header \<le> max_len"
    "OPENSSL_malloc A (length body + length header) \<noteq> None"
  shows "\<exists>h'. read_asn1_body A M h (Some i) max_len header (length body) = Some (Inr (header @ body), h') \<and> ok h' \<and> src h' = rest"
proof -
  have "length body + length header < size_mod" using assms(3,4) by (simp add: INT_MAX_def size_mod_def)
  then show ?thesis using assms read_full_exact [OF assms(1), of "length body" True header]
    by (auto simp: read_asn1_body_def size_add_exact)
qed

lemma read_asn1_long_total:
  assumes "ok h" "length header = 2" "max_len < size_mod"
  shows "\<exists>res h'. read_asn1_long A M h (Some i) max_len header num_bytes = Some (res, h') \<and> ok h' \<and>
     delivered header (src h) (src h') res"
proof (cases "header ! 0 AND 0x20 \<noteq> 0 \<and> num_bytes = 0")
  case True
  then show ?thesis using read_all_total [OF assms(1) _ assms(3), of header A] assms(2)
    by (auto simp: read_asn1_long_def delivered_def split: option.split)
next
  case ind: False
  show ?thesis
  proof (cases "num_bytes = 0 \<or> num_bytes > 4")
    case True
    then show ?thesis using ind assms(1) by (auto simp: read_asn1_long_def)
  next
    case False
    show ?thesis
    proof (cases rule: read_full_cases [OF assms(1), of num_bytes True "[]"])
      case (1 h')
      define len32 where "len32 = len32_loop 0 (take num_bytes (src h))"
      have s: "src h = take num_bytes (src h) @ src h'" using 1(4) by simp
      obtain res h2 where "read_asn1_body A M h' (Some i) max_len (header @ take num_bytes (src h)) (unat len32) = Some (res, h2)"
          "ok h2" "delivered header (src h) (src h2) res"
        using read_asn1_body_total [OF 1(3)] delivered_after [OF s] by blast
      moreover have "delivered header (src h) (src h') (Inl e :: read_asn1_error + u8 list)" for e
        using s by auto
      ultimately show ?thesis using 1(2,3) ind False
        by (simp add: read_asn1_long_def len32_def [symmetric] Let_def del: delivered_Inl)
    next
      case (2 e out' h')
      then show ?thesis using ind False by (auto simp: read_asn1_long_def)
    qed
  qed
qed

text \<open>The reader always returns. What it delivers is a prefix of the stream, and the stream goes on after it.\<close>

lemma read_asn1_total:
  assumes "ok h" "max_len < size_mod"
  shows "\<exists>res h'. BIO_read_asn1 A M h (Some i) max_len = Some (res, h') \<and> ok h' \<and>
     delivered [] (src h) (src h') res"
proof (cases rule: read_full_cases [OF assms(1), of 2 True "[]"])
  case (1 h')
  define header where "header = take 2 (src h)"
  have hd: "length header = 2" "src h = header @ src h'" using 1 by (auto simp: header_def)
  have start: "bio_read_full M h (Some i) True [] 2 = Some (True, False, header, h')" using 1 by (simp add: header_def)
  have d: "\<exists>res h2. f = Some (res, h2) \<and> ok h2 \<and> delivered [] (src h) (src h2) res"
    if "\<exists>res h2. f = Some (res, h2) \<and> ok h2 \<and> delivered header (src h') (src h2) res" for f
    using that delivered_after [of "src h" header "src h'" "[]", OF hd(2)] by auto
  have e: "delivered [] (src h) (src h') (Inl e :: read_asn1_error + u8 list)" for e using hd(2) by auto
  show ?thesis
    using d [OF read_asn1_body_total [OF 1(3), of A max_len header "unat (header ! 1)"]]
      d [OF read_asn1_long_total [OF 1(3) hd(1) assms(2), of A "unat (header ! 1 AND 0x7f)"]] 1(3) e
    by (simp add: BIO_read_asn1_def start Let_def del: delivered_Inl)
qed (auto simp: BIO_read_asn1_def)

text \<open>A DER element at the front of the stream is read exactly.\<close>

lemma read_asn1_der:
  assumes "ok h" "src h = der_tlv tag body @ rest" "tag_num tag < 31" "length body \<le> INT_MAX"
    "length (der_tlv tag body) \<le> max_len" "OPENSSL_malloc A (length (der_tlv tag body)) \<noteq> None"
  shows "\<exists>h'. BIO_read_asn1 A M h (Some i) max_len = Some (Inr (der_tlv tag body), h') \<and> ok h' \<and> src h' = rest"
proof -
  define b where "b = (word_of_nat (tag_class tag * 32 + tag_num tag) :: u8)"
  have tag: "der_tag tag = [b]" using assms(3) by (simp add: der_tag_def b_def)
  have "unat b = tag_class tag * 32 + tag_num tag"
    using tag_class_bound [of tag] assms(3) by (simp add: b_def unat_word_of_nat_u8 del: of_nat_add of_nat_mult)
  then have "unat (b AND 0x1f) = tag_num tag" using assms(3) by (simp add: u8_masks)
  then have low: "b AND 0x1f \<noteq> 0x1f" using assms(3) by auto
  have len: "length body < 2 ^ 32" using assms(4) by (simp add: INT_MAX_def)
  then show ?thesis
  proof (cases rule: der_length_bytes)
    case (1 lb bs)
    have tlv: "der_tlv tag body = [b, lb] @ body" using 1 tag by (simp add: der_tlv_def)
    obtain h1 where h1: "bio_read_full M h (Some i) True [] 2 = Some (True, False, [b, lb], h1)" "ok h1" "src h1 = body @ rest"
      using read_full_exact [OF assms(1), of 2 True "[]"] assms(2) tlv by auto
    then show ?thesis
      using read_asn1_body_exact [OF h1(2,3) assms(4), of "[b, lb]" max_len A] assms(5,6) tlv 1 low
      by (auto simp: BIO_read_asn1_def u8_top_bit)
  next
    case (2 lb bs k)
    have tlv: "der_tlv tag body = [b, lb] @ bs @ body" using 2 tag by (simp add: der_tlv_def)
    obtain h1 where h1: "bio_read_full M h (Some i) True [] 2 = Some (True, False, [b, lb], h1)" "ok h1" "src h1 = bs @ body @ rest"
      using read_full_exact [OF assms(1), of 2 True "[]"] assms(2) tlv by auto
    obtain h2 where h2: "bio_read_full M h1 (Some i) True [] k = Some (True, False, bs, h2)" "ok h2" "src h2 = body @ rest"
      using read_full_exact [OF h1(2), of k True "[]"] h1(3) 2 by auto
    have k: "unat (lb AND 0x7f) = k" using 2 by (simp add: u8_masks)
    define v where "v = len32_loop 0 bs"
    have v: "unat v = length body" using 2 by (simp add: v_def unat_len32_loop_0)
    have "(2 :: nat) ^ ((k - 1) * 8) = 256 ^ (k - 1)" by (subst mult.commute) (simp add: power_mult)
    then have "drop_bit ((k - 1) * 8) v = 0 \<longleftrightarrow> length body div 256 ^ (k - 1) = 0"
      by (simp only: word_unat_eq_iff unat_drop_bit v unat_0)
    moreover have "v < 128 \<longleftrightarrow> length body < 128" by (simp add: word_less_nat_alt v)
    ultimately have canon: "\<not> v < 128" "drop_bit ((k - 1) * 8) v \<noteq> 0"
      using der_length_long [of k bs lb] 2 by auto
    show ?thesis
      using read_asn1_body_exact [OF h2(2,3) assms(4), of "[b, lb] @ bs" max_len A] assms(5,6) tlv 2 low h1 h2 k canon v
      by (auto simp: BIO_read_asn1_def read_asn1_long_def u8_top_bit Let_def v_def [symmetric] add.commute)
  qed
qed

end

section \<open>Sources that end\<close>

text \<open>The end of the stream is reported by the value 0, so that reading everything ends well.\<close>

locale eof_source = byte_source +
  assumes read_eof: "ok h \<Longrightarrow> src h = [] \<Longrightarrow> 0 < n \<Longrightarrow> n \<le> INT_MAX \<Longrightarrow> \<exists>h'. BIO_read M h (Some i) (int n) = Some (0, [], h')"
begin

lemma read_all_loop_returns:
  "ok h \<Longrightarrow> length out = len \<Longrightarrow> filled \<le> len \<Longrightarrow> len \<le> max_len \<Longrightarrow> max_len < size_mod \<Longrightarrow>
   (filled = len \<longrightarrow> len = max_len) \<Longrightarrow> filled + length (src h) < max_len \<Longrightarrow> \<forall>n \<le> max_len. OPENSSL_malloc A n \<noteq> None \<Longrightarrow>
   \<exists>x h'. read_all_loop A M max_len h (Some i) out len filled = Some (Some x, h')"
proof (induction "length (src h)" arbitrary: h out len filled rule: less_induct)
  case less
  then have lt: "filled < len" by auto
  define n where "n = (if len - filled > INT_MAX then INT_MAX else len - filled)"
  have n: "0 < n" "n \<le> INT_MAX" "n \<le> len - filled" using lt by (auto simp: n_def INT_MAX_def)
  show ?case
  proof (cases "src h = []")
    case True
    have todo: "(if size_sub len filled > INT_MAX then INT_MAX else size_sub len filled) = n"
      using less.prems by (simp add: size_sub_exact n_def)
    show ?thesis using read_eof [OF less.prems(1) True n(1,2)] lt
      by (subst read_all_loop.simps) (auto simp: todo)
  next
    case False
    then obtain k h1 where r: "BIO_read M h (Some i) (int n) = Some (int k, take k (src h), h1)"
        "0 < k" "k \<le> n" "k \<le> length (src h)" "ok h1" "src h1 = drop k (src h)"
      using read_some [OF less.prems(1) _ n(1,2)] by auto
    define out1 where "out1 = write_at filled (take k (src h)) out"
    have k: "filled + k \<le> len" using r n lt by simp
    have out1: "length out1 = len" using k r less.prems(2) by (simp add: out1_def min.absorb2)
    have IH: "\<exists>x h'. read_all_loop A M max_len h1 (Some i) out2 len2 (filled + k) = Some (Some x, h')"
      if "length out2 = len2" "len \<le> len2" "len2 \<le> max_len" "filled + k = len2 \<longrightarrow> len2 = max_len" for out2 len2
      using that r k False less.prems by (intro less.hyps) auto
    have "\<exists>out2. OPENSSL_realloc A (Some out1) (min max_len (len + kChunkSize)) = Some out2"
      using less.prems(8) [rule_format, of "min max_len (len + kChunkSize)"] by (auto simp: OPENSSL_realloc_def Let_def)
    then obtain out2 where ra: "OPENSSL_realloc A (Some out1) (min max_len (len + kChunkSize)) = Some out2" by auto
    have l2: "length out2 = min max_len (len + kChunkSize)" using realloc_keeps [OF ra] out1 less.prems(4) by simp
    note eq = read_all_step [OF lt less.prems(4,5) n_def r(1,2) k, of A out, folded out1_def]
    show ?thesis
    proof (cases "len < max_len \<and> len - (filled + k) < kChunkSize div 2")
      case True
      then show ?thesis unfolding eq ra option.case using IH [OF l2] k by (auto simp: kChunkSize_def)
    next
      case False
      then have "filled + k = len \<longrightarrow> len = max_len" using less.prems(4) by (auto simp: kChunkSize_def)
      then show ?thesis unfolding eq using IH [OF out1] False less.prems(4) by auto
    qed
  qed
qed

text \<open>An element of indefinite length: the whole stream is delivered, exactly when it is shorter than the limit.\<close>

lemma read_all_exact:
  assumes "ok h" "length pre \<le> 6" "max_len < size_mod" "\<forall>n \<le> max_len. OPENSSL_malloc A n \<noteq> None"
  shows "\<exists>h'. bio_read_all A M h (Some i) pre max_len =
       Some (if length pre + length (src h) < max_len then Some (pre @ src h) else None, h') \<and> ok h'"
proof -
  obtain res h' where r: "bio_read_all A M h (Some i) pre max_len = Some (res, h')" "ok h'"
      "\<forall>x. res = Some x \<longrightarrow> x = pre @ src h \<and> src h' = [] \<and> length x < max_len"
    using read_all_total [OF assms(1-3), of A] by blast
  have "res \<noteq> None" if lt: "length pre + length (src h) < max_len"
  proof -
    define len where "len = min max_len (length pre + kChunkSize)"
    have len: "(if size_add (length pre) kChunkSize > max_len then max_len else size_add (length pre) kChunkSize) = len"
      using assms(2) by (simp add: len_def size_add_exact size_mod_def kChunkSize_def)
    have le: "length pre \<le> len" "len \<le> max_len" "length pre = len \<longrightarrow> len = max_len"
      using lt by (auto simp: len_def kChunkSize_def)
    obtain out where out: "OPENSSL_malloc A len = Some out" using assms(4) le(2) by auto
    then have "length out = len" by (auto simp: OPENSSL_malloc_def split: if_splits)
    then have "length (write_at 0 pre out) = len" using le by simp
    from read_all_loop_returns [OF assms(1) this le(1,2) assms(3) le(3) lt assms(4)] r(1) out le
    show ?thesis by (auto simp: bio_read_all_def Let_def len)
  qed
  then show ?thesis using r by (cases res) auto
qed

lemma read_asn1_indefinite:
  assumes "ok h" "src h = tag # 0x80 # rest" "tag AND 0x1f \<noteq> 0x1f" "tag AND 0x20 \<noteq> 0" "max_len < size_mod"
    "\<forall>n \<le> max_len. OPENSSL_malloc A n \<noteq> None"
  shows "\<exists>h'. BIO_read_asn1 A M h (Some i) max_len =
       Some (if length (src h) < max_len then Inr (src h) else Inl ASN1_R_NOT_ENOUGH_DATA, h') \<and> ok h'"
proof -
  obtain h1 where h1: "bio_read_full M h (Some i) True [] 2 = Some (True, False, [tag, 0x80], h1)" "ok h1" "src h1 = rest"
    using read_full_exact [OF assms(1), of 2 True "[]"] assms(2) by auto
  show ?thesis
    using read_all_exact [OF h1(2) _ assms(5,6), of "[tag, 0x80]"] h1 assms(2-4)
    by (auto simp: BIO_read_asn1_def read_asn1_long_def)
qed

end

section \<open>Sinks\<close>

text \<open>A stream that is written to appends a prefix of what it is given, possibly nothing.\<close>

locale byte_sink =
  fixes M :: "'p bio_methods" and i :: nat
    and ok :: "'p bio_heap \<Rightarrow> bool" and snk :: "'p bio_heap \<Rightarrow> u8 list"
  assumes write_some: "ok h \<Longrightarrow> d \<noteq> [] \<Longrightarrow> length d \<le> INT_MAX \<Longrightarrow>
      \<exists>r h'. BIO_write M h (Some i) d = Some (r, h') \<and> ok h' \<and> nat r \<le> length d \<and> snk h' = snk h @ take (nat r) d"
begin

lemma write_all:
  "ok h \<Longrightarrow> \<exists>k h'. BIO_write_all M h (Some i) d = Some (k = length d, h') \<and> ok h' \<and> k \<le> length d \<and> snk h' = snk h @ take k d"
proof (induction "length d" arbitrary: h d rule: less_induct)
  case less
  show ?case
  proof (cases "d = []")
    case True
    then show ?thesis using less.prems by (simp add: BIO_write_all.simps)
  next
    case False
    define n where "n = (if length d > INT_MAX then INT_MAX else length d)"
    have n: "take n d \<noteq> []" "length (take n d) \<le> INT_MAX" "n \<le> length d" using False by (auto simp: n_def INT_MAX_def)
    from write_some [OF less.prems n(1,2)] n(3) obtain r h1 where w: "BIO_write M h (Some i) (take n d) = Some (r, h1)" "ok h1"
        "nat r \<le> n" "snk h1 = snk h @ take (nat r) d"
      by (auto simp: min.absorb1 min.absorb2)
    show ?thesis
    proof (cases "r \<le> 0")
      case True
      then show ?thesis using w False
        by (intro exI [of _ 0] exI [of _ h1], subst BIO_write_all.simps) (simp add: n_def [symmetric])
    next
      case pos: False
      then have "length (drop (nat r) d) < length d" using w n False by simp
      from less.hyps [OF this w(2)] obtain k h' where k: "BIO_write_all M h1 (Some i) (drop (nat r) d) = Some (k = length d - nat r, h')"
          "ok h'" "k \<le> length d - nat r" "snk h' = snk h1 @ take k (drop (nat r) d)" by auto
      have "BIO_write_all M h (Some i) d = BIO_write_all M h1 (Some i) (drop (nat r) d)"
        using w(1) pos False by (subst BIO_write_all.simps) (simp add: n_def [symmetric])
      moreover have "k = length d - nat r \<longleftrightarrow> nat r + k = length d" using w(3) n(3) by auto
      ultimately show ?thesis using k w
        by (intro exI [of _ "nat r + k"] exI [of _ h']) (auto simp: take_add)
    qed
  qed
qed

end

end
