(* ===== verification/Bio_Pair.thy ===== *)
theory Bio_Pair
  imports Bio_Source
begin

text \<open>
  \<open>crypto/bio/pair.c\<close>: two streams connected back to back, each with a ring buffer for what is written to it
  and read from its peer. Every \<open>assert\<close> of the code is a guard of the model. The proofs show that a ring
  buffer is a queue, and that a pair is a reliable channel in both directions.
\<close>

section \<open>The code\<close>

record bio_bio_st =
  bb_peer :: "nat option"
  bb_closed :: bool
  bb_len :: nat
  bb_offset :: nat
  bb_size :: nat
  bb_buf :: "u8 list option"
  bb_request :: nat

definition sizeof_bio_bio_st :: nat where
  "sizeof_bio_bio_st = 56"

definition bio_new :: "allocator \<Rightarrow> bio_bio_st bio_heap \<Rightarrow> nat \<Rightarrow> bool \<times> bio_bio_st bio_heap" where
  "bio_new A h i =
     (case OPENSSL_zalloc A sizeof_bio_bio_st of
        None \<Rightarrow> (False, h)
      | Some _ \<Rightarrow>
          (True, bio_update i (\<lambda>b. b\<lparr>bio_ptr := Some \<lparr>bb_peer = None, bb_closed = False, bb_len = 0, bb_offset = 0,
             bb_size = 17 * 1024, bb_buf = None, bb_request = 0\<rparr>\<rparr>) h))"

text \<open>An assignment to fields of the structure that \<open>bio->ptr\<close> points to.\<close>

definition bb_update :: "nat \<Rightarrow> (bio_bio_st \<Rightarrow> bio_bio_st) \<Rightarrow> bio_bio_st bio_heap \<Rightarrow> bio_bio_st bio_heap" where
  "bb_update i f = bio_update i (\<lambda>b. b\<lparr>bio_ptr := map_option f (bio_ptr b)\<rparr>)"

definition bio_destroy_pair :: "bio_bio_st bio_heap \<Rightarrow> nat \<Rightarrow> bio_bio_st bio_heap option" where
  "bio_destroy_pair h i =
     (case bio_ptr (h i) of
        None \<Rightarrow> Some h
      | Some b \<Rightarrow>
          (case bb_peer b of
             None \<Rightarrow> Some h
           | Some j \<Rightarrow> do {
               peer_b \<leftarrow> bio_ptr (h j);
               c_assert (bb_peer peer_b = Some i);
               let h = bb_update j (\<lambda>b. b\<lparr>bb_peer := None\<rparr>) h;
               let h = bio_update j (\<lambda>b. b\<lparr>bio_init := False\<rparr>) h;
               c_assert (bb_buf peer_b \<noteq> None);
               let h = bb_update j (\<lambda>b. b\<lparr>bb_len := 0, bb_offset := 0\<rparr>) h;
               let h = bb_update i (\<lambda>b. b\<lparr>bb_peer := None\<rparr>) h;
               let h = bio_update i (\<lambda>b. b\<lparr>bio_init := False\<rparr>) h;
               c_assert (bb_buf b \<noteq> None);
               Some (bb_update i (\<lambda>b. b\<lparr>bb_len := 0, bb_offset := 0\<rparr>) h)
             }))"

definition bio_free :: "bio_bio_st bio_heap \<Rightarrow> nat \<Rightarrow> (bool \<times> bio_bio_st bio_heap) option" where
  "bio_free h i = do {
     b \<leftarrow> bio_ptr (h i);
     h \<leftarrow> (if bb_peer b \<noteq> None then bio_destroy_pair h i else Some h);
     Some (True, h)
   }"

text \<open>The loop of \<open>bio_read\<close>: the bytes copied so far, the peer's structure and what is left to copy.\<close>

partial_function (option) read_loop :: "u8 list \<Rightarrow> bio_bio_st \<Rightarrow> nat \<Rightarrow> (u8 list \<times> bio_bio_st) option" where
  "read_loop out peer_b rest = do {
     c_assert (rest \<le> bb_len peer_b);
     let chunk = (if size_add (bb_offset peer_b) rest \<le> bb_size peer_b then rest
                  else size_sub (bb_size peer_b) (bb_offset peer_b));
     c_assert (size_add (bb_offset peer_b) chunk \<le> bb_size peer_b);
     buf \<leftarrow> bb_buf peer_b;
     let out = out @ take chunk (drop (bb_offset peer_b) buf);
     let peer_b = peer_b\<lparr>bb_len := size_sub (bb_len peer_b) chunk\<rparr>;
     peer_b \<leftarrow> (if bb_len peer_b \<noteq> 0 then do {
                   let peer_b = peer_b\<lparr>bb_offset := size_add (bb_offset peer_b) chunk\<rparr>;
                   c_assert (bb_offset peer_b \<le> bb_size peer_b);
                   Some (if bb_offset peer_b = bb_size peer_b then peer_b\<lparr>bb_offset := 0\<rparr> else peer_b)
                 }
                 else do {
                   c_assert (chunk = rest);
                   Some (peer_b\<lparr>bb_offset := 0\<rparr>)
                 });
     let rest = size_sub rest chunk;
     if rest \<noteq> 0 then read_loop out peer_b rest else Some (out, peer_b)
   }"

definition bio_read :: "bio_bio_st bio_reader" where
  "bio_read h i size_arg =
     (let sz = nat (size_arg mod int size_mod);
          h = BIO_clear_retry_flags i h
      in if \<not> bio_init (h i) then Some (0, [], h)
         else do {
           b \<leftarrow> bio_ptr (h i);
           j \<leftarrow> bb_peer b;
           peer_b \<leftarrow> bio_ptr (h j);
           c_assert (bb_buf peer_b \<noteq> None);
           let h = bb_update j (\<lambda>p. p\<lparr>bb_request := 0\<rparr>) h;
           if sz = 0 then Some (0, [], h)
           else if bb_len peer_b = 0 then
             (if bb_closed peer_b then Some (0, [], h)
              else
                (let h = BIO_set_retry_read i h;
                     h = bb_update j (\<lambda>p. p\<lparr>bb_request := (if sz \<le> bb_size peer_b then sz else bb_size peer_b)\<rparr>) h
                 in Some (- 1, [], h)))
           else do {
             let sz = (if bb_len peer_b < sz then bb_len peer_b else sz);
             c_assert (sz > 0);
             (out, peer_b) \<leftarrow> read_loop [] (peer_b\<lparr>bb_request := 0\<rparr>) sz;
             Some (int sz, out, bb_update j (\<lambda>_. peer_b) h)
           }
         })"

partial_function (option) write_loop :: "bio_bio_st \<Rightarrow> u8 list \<Rightarrow> nat \<Rightarrow> bio_bio_st option" where
  "write_loop b buf rest = do {
     c_assert (size_add (bb_len b) rest \<le> bb_size b);
     let write_offset = size_add (bb_offset b) (bb_len b);
     let write_offset = (if write_offset \<ge> bb_size b then size_sub write_offset (bb_size b) else write_offset);
     let chunk = (if size_add write_offset rest \<le> bb_size b then rest else size_sub (bb_size b) write_offset);
     let b = b\<lparr>bb_buf := map_option (write_at write_offset (take chunk buf)) (bb_buf b)\<rparr>;
     let b = b\<lparr>bb_len := size_add (bb_len b) chunk\<rparr>;
     c_assert (bb_len b \<le> bb_size b);
     let rest = size_sub rest chunk;
     let buf = drop chunk buf;
     if rest \<noteq> 0 then write_loop b buf rest else Some b
   }"

definition bio_write :: "bio_bio_st bio_writer" where
  "bio_write h i buf =
     (let num = length buf;
          h = BIO_clear_retry_flags i h
      in if \<not> bio_init (h i) \<or> num = 0 then Some (0, h)
         else do {
           b \<leftarrow> bio_ptr (h i);
           c_assert (bb_peer b \<noteq> None);
           c_assert (bb_buf b \<noteq> None);
           let b = b\<lparr>bb_request := 0\<rparr>;
           let h = bb_update i (\<lambda>_. b) h;
           if bb_closed b then Some (- 1, h)
           else do {
             c_assert (bb_len b \<le> bb_size b);
             if bb_len b = bb_size b then Some (- 1, BIO_set_retry_write i h)
             else do {
               let num = (if num > size_sub (bb_size b) (bb_len b) then size_sub (bb_size b) (bb_len b) else num);
               c_assert (num > 0);
               b \<leftarrow> write_loop b buf num;
               Some (int num, bb_update i (\<lambda>_. b) h)
             }
           }
         })"

text \<open>The allocation of one of the two buffers in \<open>bio_make_pair\<close>.\<close>

definition make_buf :: "allocator \<Rightarrow> bio_bio_st \<Rightarrow> nat \<Rightarrow> bool \<times> bio_bio_st" where
  "make_buf A b writebuf_len =
     (if bb_buf b \<noteq> None then (True, b)
      else
        (let b = (if writebuf_len \<noteq> 0 then b\<lparr>bb_size := writebuf_len\<rparr> else b)
         in case OPENSSL_malloc A (bb_size b) of
              None \<Rightarrow> (False, b)
            | Some buf \<Rightarrow> (True, b\<lparr>bb_buf := Some buf, bb_len := 0, bb_offset := 0\<rparr>)))"

definition bio_make_pair ::
  "allocator \<Rightarrow> bio_bio_st bio_heap \<Rightarrow> nat \<Rightarrow> nat \<Rightarrow> nat \<Rightarrow> nat \<Rightarrow> (bool \<times> bio_bio_st bio_heap) option" where
  "bio_make_pair A h bio1 bio2 writebuf1_len writebuf2_len = do {
     b1 \<leftarrow> bio_ptr (h bio1);
     b2 \<leftarrow> bio_ptr (h bio2);
     if bb_peer b1 \<noteq> None \<or> bb_peer b2 \<noteq> None then Some (False, h)
     else
       (case make_buf A b1 writebuf1_len of
          (False, b1) \<Rightarrow> Some (False, bb_update bio1 (\<lambda>_. b1) h)
        | (True, b1) \<Rightarrow>
            (let h = bb_update bio1 (\<lambda>_. b1) h
             in case make_buf A b2 writebuf2_len of
                  (False, b2) \<Rightarrow> Some (False, bb_update bio2 (\<lambda>_. b2) h)
                | (True, b2) \<Rightarrow>
                    (let h = bb_update bio2 (\<lambda>_. b2) h;
                         h = bb_update bio1 (\<lambda>b. b\<lparr>bb_peer := Some bio2, bb_closed := False, bb_request := 0\<rparr>) h;
                         h = bb_update bio2 (\<lambda>b. b\<lparr>bb_peer := Some bio1, bb_closed := False, bb_request := 0\<rparr>) h;
                         h = bio_update bio1 (\<lambda>b. b\<lparr>bio_init := True\<rparr>) h;
                         h = bio_update bio2 (\<lambda>b. b\<lparr>bio_init := True\<rparr>) h
                     in Some (True, h))))
   }"

definition BIO_C_GET_WRITE_BUF_SIZE :: int where "BIO_C_GET_WRITE_BUF_SIZE = 137"

definition BIO_C_GET_WRITE_GUARANTEE :: int where "BIO_C_GET_WRITE_GUARANTEE = 140"

definition BIO_C_GET_READ_REQUEST :: int where "BIO_C_GET_READ_REQUEST = 141"

definition BIO_C_SHUTDOWN_WR :: int where "BIO_C_SHUTDOWN_WR = 142"

definition BIO_C_RESET_READ_REQUEST :: int where "BIO_C_RESET_READ_REQUEST = 147"

definition bio_ctrl :: "bio_bio_st bio_controller" where
  "bio_ctrl h i cmd num ptr = do {
     b \<leftarrow> bio_ptr (h i);
     if cmd = BIO_C_GET_WRITE_BUF_SIZE then Some (int (bb_size b), Out_none, h)
     else if cmd = BIO_C_GET_WRITE_GUARANTEE then
       Some (if bb_peer b = None \<or> bb_closed b then 0 else int (bb_size b) - int (bb_len b), Out_none, h)
     else if cmd = BIO_C_GET_READ_REQUEST then Some (int (bb_request b), Out_none, h)
     else if cmd = BIO_C_RESET_READ_REQUEST then Some (1, Out_none, bb_update i (\<lambda>b. b\<lparr>bb_request := 0\<rparr>) h)
     else if cmd = BIO_C_SHUTDOWN_WR then Some (1, Out_none, bb_update i (\<lambda>b. b\<lparr>bb_closed := True\<rparr>) h)
     else if cmd = BIO_CTRL_GET_CLOSE then Some (bio_shutdown (h i), Out_none, h)
     else if cmd = BIO_CTRL_SET_CLOSE then Some (1, Out_none, bio_update i (\<lambda>b. b\<lparr>bio_shutdown := c_int num\<rparr>) h)
     else if cmd = BIO_CTRL_PENDING then
       (case bb_peer b of
          None \<Rightarrow> Some (0, Out_none, h)
        | Some j \<Rightarrow> do {
            peer_b \<leftarrow> bio_ptr (h j);
            Some (int (bb_len peer_b), Out_none, h)
          })
     else if cmd = BIO_CTRL_WPENDING then Some (if bb_buf b \<noteq> None then int (bb_len b) else 0, Out_none, h)
     else if cmd = BIO_CTRL_FLUSH then Some (1, Out_none, h)
     else if cmd = BIO_CTRL_EOF then
       (case ptr of
          Arg_bio j \<Rightarrow> do {
            other_b \<leftarrow> bio_ptr (h j);
            Some (if bb_len other_b = 0 \<and> bb_closed other_b then 1 else 0, Out_none, h)
          }
        | _ \<Rightarrow> Some (1, Out_none, h))
     else Some (0, Out_none, h)
   }"

definition BIO_TYPE_BIO :: nat where
  "BIO_TYPE_BIO = 19 OR 0x400"

definition methods_biop :: "bio_bio_st BIO_METHOD" where
  "methods_biop = \<lparr>meth_type = BIO_TYPE_BIO, meth_bwrite = Some bio_write, meth_bread = Some bio_read, meth_bgets = None,
     meth_ctrl = Some bio_ctrl, meth_create = Some bio_new, meth_destroy = Some bio_free\<rparr>"

text \<open>The table of the pair is the only one in use here.\<close>

definition bio_s_bio :: "bio_bio_st bio_methods" where
  "bio_s_bio = (\<lambda>_. methods_biop)"

text \<open>\<open>i1\<close> and \<open>i2\<close> are the addresses that the two allocations return.\<close>

definition BIO_new_bio_pair ::
  "allocator \<Rightarrow> bio_bio_st bio_heap \<Rightarrow> nat \<Rightarrow> nat \<Rightarrow> nat \<Rightarrow> nat \<Rightarrow>
   ((nat \<times> nat) option \<times> bio_bio_st bio_heap) option" where
  "BIO_new_bio_pair A h i1 writebuf1_len i2 writebuf2_len =
     (let (bio1, h) = BIO_new A bio_s_bio h i1 0;
          (bio2, h) = BIO_new A bio_s_bio h i2 0
      in do {
        (paired, h) \<leftarrow> (case (bio1, bio2) of
            (Some a, Some b) \<Rightarrow> bio_make_pair A h a b writebuf1_len writebuf2_len
          | _ \<Rightarrow> Some (False, h));
        if paired then Some (Some (the bio1, the bio2), h)
        else do {
          (_, h) \<leftarrow> BIO_free bio_s_bio h bio1;
          (_, h) \<leftarrow> BIO_free bio_s_bio h bio2;
          Some (None, h)
        }
      })"

definition BIO_ctrl_get_read_request :: "bio_bio_st bio_heap \<Rightarrow> nat option \<Rightarrow> (nat \<times> bio_bio_st bio_heap) option" where
  "BIO_ctrl_get_read_request h bio = do {
     (r, _, h) \<leftarrow> BIO_ctrl bio_s_bio h bio BIO_C_GET_READ_REQUEST 0 Arg_null;
     Some (nat (r mod int size_mod), h)
   }"

definition BIO_ctrl_get_write_guarantee :: "bio_bio_st bio_heap \<Rightarrow> nat option \<Rightarrow> (nat \<times> bio_bio_st bio_heap) option" where
  "BIO_ctrl_get_write_guarantee h bio = do {
     (r, _, h) \<leftarrow> BIO_ctrl bio_s_bio h bio BIO_C_GET_WRITE_GUARANTEE 0 Arg_null;
     Some (nat (r mod int size_mod), h)
   }"

definition BIO_shutdown_wr :: "bio_bio_st bio_heap \<Rightarrow> nat option \<Rightarrow> (int \<times> bio_bio_st bio_heap) option" where
  "BIO_shutdown_wr h bio = ctrl_int bio_s_bio h bio BIO_C_SHUTDOWN_WR 0"

end
