(* ===== verification/Bio_Pair_Correct.thy ===== *)
theory Bio_Pair_Correct
  imports Bio_Pair
begin

text \<open>
  A ring buffer of \<open>pair.c\<close> is a queue: its invariant, the queue it stands for, and what the two copy loops do to
  it. On top of this the operations on a pair: no assertion fails, every loop ends, the invariant is kept, and the
  queues change as those of a channel.
\<close>

section \<open>The ring buffer\<close>

definition ring :: "nat \<Rightarrow> nat \<Rightarrow> u8 list \<Rightarrow> u8 list" where
  "ring off len buf = take len (drop off buf @ take off buf)"

definition bb_bytes :: "bio_bio_st \<Rightarrow> u8 list" where
  "bb_bytes b = (case bb_buf b of None \<Rightarrow> [] | Some buf \<Rightarrow> ring (bb_offset b) (bb_len b) buf)"

text \<open>The comments of the structure, made precise.\<close>

definition bb_inv :: "bio_bio_st \<Rightarrow> bool" where
  "bb_inv b \<longleftrightarrow>
     map_option length (bb_buf b) = Some (bb_size b) \<and> 0 < bb_size b \<and> 2 * bb_size b < size_mod \<and>
     bb_len b \<le> bb_size b \<and> bb_offset b < bb_size b \<and> (bb_len b = 0 \<longrightarrow> bb_offset b = 0) \<and>
     bb_request b \<le> bb_size b \<and> (bb_len b \<noteq> 0 \<longrightarrow> bb_request b = 0)"

lemma length_ring: "off \<le> length buf \<Longrightarrow> len \<le> length buf \<Longrightarrow> length (ring off len buf) = len"
  by (simp add: ring_def)

lemma length_bb_bytes: "bb_inv b \<Longrightarrow> length (bb_bytes b) = bb_len b"
  by (auto simp: bb_inv_def bb_bytes_def length_ring)

lemma ring_read:
  assumes "chunk \<le> len" "len \<le> length buf" "off + chunk \<le> length buf"
  shows "take chunk (drop off buf) = take chunk (ring off len buf)"
    and "ring (off + chunk) (len - chunk) buf = drop chunk (ring off len buf)"
proof -
  show "take chunk (drop off buf) = take chunk (ring off len buf)"
    using assms by (simp add: ring_def min.absorb1 le_diff_conv2)
  have "drop chunk (ring off len buf) = take (len - chunk) (drop (off + chunk) buf @ take off buf)"
    using assms by (simp add: ring_def drop_take add.commute)
  also have "\<dots> = take (len - chunk) (drop (off + chunk) buf @ take off buf @ take chunk (drop off buf))"
    using assms by simp
  also have "take off buf @ take chunk (drop off buf) = take (off + chunk) buf" by (simp add: take_add)
  finally show "ring (off + chunk) (len - chunk) buf = drop chunk (ring off len buf)" by (simp add: ring_def)
qed

lemma ring_wrap: "ring (length buf) len buf = ring 0 len buf"
  by (simp add: ring_def)

lemma ring_write:
  assumes "off < length buf" "len + length bs \<le> length buf" "wo = (if off + len \<ge> length buf then off + len - length buf else off + len)"
    "wo + length bs \<le> length buf"
  shows "ring off (len + length bs) (write_at wo bs buf) = ring off len buf @ bs"
proof (cases "off + len \<ge> length buf")
  case True
  define m where "m = length buf - off"
  have wo: "len = m + wo" "wo + length bs \<le> off" using True assms by (auto simp: m_def)
  moreover have "min (length buf) wo = wo" using assms(4) by simp
  ultimately have "drop off (write_at wo bs buf) = drop off buf"
    by (simp add: write_at_def)
  moreover have "take (wo + length bs) (take off (write_at wo bs buf)) = take wo buf @ bs"
    using wo take_write_at [of wo bs buf] assms(4) by (simp add: min_def)
  moreover have "length (drop off buf) = m" by (simp add: m_def)
  moreover have "take wo (take off buf) = take wo buf" using wo by simp
  ultimately show ?thesis by (simp add: ring_def wo(1) add.assoc)
next
  case False
  then have "wo = off + len" using assms(3) by simp
  moreover have "drop off (take (off + len) buf) = take len (drop off buf)" by (simp add: drop_take)
  ultimately show ?thesis using False assms
    by (simp add: ring_def write_at_def)
qed

section \<open>The copy loops\<close>

text \<open>One round of \<open>bio_read\<close>.\<close>

definition after_read :: "nat \<Rightarrow> bio_bio_st \<Rightarrow> bio_bio_st" where
  "after_read chunk b =
     b\<lparr>bb_len := bb_len b - chunk,
       bb_offset := (if bb_len b = chunk \<or> bb_offset b + chunk = bb_size b then 0 else bb_offset b + chunk)\<rparr>"

lemma after_read:
  assumes "bb_inv b" "chunk \<le> bb_len b" "bb_offset b + chunk \<le> bb_size b" "bb_len b \<noteq> 0"
  shows "bb_inv (after_read chunk b)" "bb_bytes (after_read chunk b) = drop chunk (bb_bytes b)"
    "take chunk (drop (bb_offset b) (the (bb_buf b))) = take chunk (bb_bytes b)"
proof -
  obtain buf where buf: "bb_buf b = Some buf" "length buf = bb_size b" using assms(1) by (auto simp: bb_inv_def)
  have le: "bb_len b \<le> length buf" "bb_offset b + chunk \<le> length buf" using assms buf by (auto simp: bb_inv_def)
  note rr = ring_read [OF assms(2) le]
  show "bb_inv (after_read chunk b)" using assms by (auto simp: bb_inv_def after_read_def)
  show "take chunk (drop (bb_offset b) (the (bb_buf b))) = take chunk (bb_bytes b)"
    using rr(1) buf by (simp add: bb_bytes_def)
  show "bb_bytes (after_read chunk b) = drop chunk (bb_bytes b)"
  proof (cases "bb_len b = chunk")
    case True
    then have "drop chunk (bb_bytes b) = []" using length_bb_bytes [OF assms(1)] by simp
    moreover have "bb_bytes (after_read chunk b) = []" using True buf by (simp add: bb_bytes_def after_read_def ring_def)
    ultimately show ?thesis by simp
  next
    case False
    then show ?thesis using rr(2) buf ring_wrap [of buf "bb_len b - chunk"] by (auto simp: bb_bytes_def after_read_def)
  qed
qed

lemma read_loop_step:
  assumes "bb_inv b" "0 < rest" "rest \<le> bb_len b" "chunk = min rest (bb_size b - bb_offset b)"
  shows "read_loop out b rest =
     (if rest = chunk then Some (out @ take chunk (bb_bytes b), after_read chunk b)
      else read_loop (out @ take chunk (bb_bytes b)) (after_read chunk b) (rest - chunk))"
proof -
  have i: "bb_offset b + rest < size_mod" "bb_size b < size_mod" "bb_offset b < bb_size b" "rest < size_mod" "bb_len b < size_mod"
    using assms by (auto simp: bb_inv_def)
  have c: "bb_offset b + chunk \<le> bb_size b" "chunk \<le> bb_len b" "chunk \<le> rest" "bb_offset b + chunk < size_mod"
    using assms i by auto
  have chunk: "(if size_add (bb_offset b) rest \<le> bb_size b then rest else size_sub (bb_size b) (bb_offset b)) = chunk"
    using i assms(4) by (auto simp: size_add_exact size_sub_exact)
  have len: "bb_len b \<noteq> 0" using assms by simp
  note ar = after_read [OF assms(1) c(2,1) len]
  obtain buf where buf: "bb_buf b = Some buf" using assms(1) by (auto simp: bb_inv_def)
  have eqs: "size_sub (bb_len b) chunk = bb_len b - chunk" "size_add (bb_offset b) chunk = bb_offset b + chunk"
      "size_sub rest chunk = rest - chunk"
    using i c by (simp_all add: size_add_exact size_sub_exact)
  show ?thesis
    using ar(3) c buf i assms(3)
    by (subst read_loop.simps) (auto simp: Let_def chunk eqs c_assert_def after_read_def)
qed

lemma read_loop:
  assumes "bb_inv b" "0 < rest" "rest \<le> bb_len b"
  shows "\<exists>b'. read_loop out b rest = Some (out @ take rest (bb_bytes b), b') \<and> bb_inv b' \<and>
     bb_bytes b' = drop rest (bb_bytes b) \<and> bb_peer b' = bb_peer b \<and> bb_closed b' = bb_closed b \<and>
     bb_size b' = bb_size b \<and> bb_request b' = bb_request b"
proof -
  define chunk where "chunk = min rest (bb_size b - bb_offset b)"
  have c: "chunk \<le> bb_len b" "bb_offset b + chunk \<le> bb_size b" "bb_len b \<noteq> 0" "0 < chunk"
    using assms by (auto simp: chunk_def bb_inv_def)
  define b1 where "b1 = after_read chunk b"
  note ar = after_read [OF assms(1) c(1-3), folded b1_def]
  have same: "bb_peer b1 = bb_peer b" "bb_closed b1 = bb_closed b" "bb_size b1 = bb_size b" "bb_request b1 = bb_request b"
    by (simp_all add: b1_def after_read_def)
  note step = read_loop_step [OF assms chunk_def, of out, folded b1_def]
  show ?thesis
  proof (cases "rest = chunk")
    case True
    then show ?thesis using step ar same by auto
  next
    case False
    then have lt: "chunk < rest" and b1: "bb_offset b1 = 0" "bb_len b1 = bb_len b - chunk"
      using assms(3) c by (auto simp: chunk_def b1_def after_read_def)
    have r: "0 < rest - chunk" "rest - chunk \<le> bb_len b1" "rest - chunk = min (rest - chunk) (bb_size b1 - bb_offset b1)"
      using lt b1 assms same by (auto simp: bb_inv_def)
    define b2 where "b2 = after_read (rest - chunk) b1"
    have "bb_offset b1 + (rest - chunk) \<le> bb_size b1" "bb_len b1 \<noteq> 0" using r b1 by auto
    note ar2 = after_read [OF ar(1) r(2) this, folded b2_def]
    have "take chunk (bb_bytes b) @ take (rest - chunk) (drop chunk (bb_bytes b)) = take rest (bb_bytes b)"
      using lt by (metis le_add_diff_inverse less_imp_le take_add)
    moreover have "drop (rest - chunk) (drop chunk (bb_bytes b)) = drop rest (bb_bytes b)" using lt by simp
    moreover have "bb_peer b2 = bb_peer b" "bb_closed b2 = bb_closed b" "bb_size b2 = bb_size b" "bb_request b2 = bb_request b"
      using same by (simp_all add: b2_def after_read_def)
    ultimately show ?thesis
      using step read_loop_step [OF ar(1) r(1-3), of "out @ take chunk (bb_bytes b)", folded b2_def] False ar ar2 by auto
  qed
qed

text \<open>One round of \<open>bio_write\<close>.\<close>

definition write_off :: "bio_bio_st \<Rightarrow> nat" where
  "write_off b = (if bb_offset b + bb_len b \<ge> bb_size b then bb_offset b + bb_len b - bb_size b else bb_offset b + bb_len b)"

definition after_write :: "u8 list \<Rightarrow> bio_bio_st \<Rightarrow> bio_bio_st" where
  "after_write bs b =
     b\<lparr>bb_buf := map_option (write_at (write_off b) bs) (bb_buf b), bb_len := bb_len b + length bs\<rparr>"

lemma after_write:
  assumes "bb_inv b" "bb_request b = 0" "bb_len b + length bs \<le> bb_size b" "write_off b + length bs \<le> bb_size b"
  shows "bb_inv (after_write bs b)" "bb_bytes (after_write bs b) = bb_bytes b @ bs"
proof -
  obtain buf where buf: "bb_buf b = Some buf" "length buf = bb_size b" using assms(1) by (auto simp: bb_inv_def)
  have off: "bb_offset b < length buf" using assms(1) buf by (simp add: bb_inv_def)
  have wo: "write_off b = (if bb_offset b + bb_len b \<ge> length buf then bb_offset b + bb_len b - length buf else bb_offset b + bb_len b)"
    by (simp add: write_off_def buf)
  show "bb_inv (after_write bs b)" using assms buf by (auto simp: bb_inv_def after_write_def)
  show "bb_bytes (after_write bs b) = bb_bytes b @ bs"
    using ring_write [OF off, of "bb_len b" bs "write_off b"] assms(3,4) buf wo
    by (simp add: bb_bytes_def after_write_def)
qed

lemma write_loop_step:
  assumes "bb_inv b" "0 < rest" "bb_len b + rest \<le> bb_size b" "rest \<le> length buf" "chunk = min rest (bb_size b - write_off b)"
  shows "write_loop b buf rest =
     (if rest = chunk then Some (after_write (take chunk buf) b)
      else write_loop (after_write (take chunk buf) b) (drop chunk buf) (rest - chunk))"
proof -
  have i: "bb_size b < size_mod" "bb_offset b + bb_len b < size_mod" "bb_offset b < bb_size b" "bb_len b \<le> bb_size b"
      "2 * bb_size b < size_mod"
    using assms by (auto simp: bb_inv_def)
  have w: "(if size_add (bb_offset b) (bb_len b) \<ge> bb_size b then size_sub (size_add (bb_offset b) (bb_len b)) (bb_size b)
      else size_add (bb_offset b) (bb_len b)) = write_off b"
    using i by (auto simp: size_add_exact size_sub_exact write_off_def)
  have wo: "write_off b < bb_size b" "write_off b + rest < size_mod" using i assms by (auto simp: write_off_def)
  have chunk: "(if size_add (write_off b) rest \<le> bb_size b then rest else size_sub (bb_size b) (write_off b)) = chunk"
    using i wo assms(5) by (auto simp: size_add_exact size_sub_exact)
  have eqs: "size_add (bb_len b) rest = bb_len b + rest" "size_add (bb_len b) chunk = bb_len b + chunk"
      "size_sub rest chunk = rest - chunk"
    using i assms by (auto simp: size_add_exact size_sub_exact)
  have l: "length (take chunk buf) = chunk" using assms by simp
  have c: "bb_len b + chunk \<le> bb_size b" "chunk \<le> rest" using assms(3,5) by auto
  have e: "rest - chunk \<noteq> 0 \<longleftrightarrow> rest \<noteq> chunk" using c(2) by auto
  have aw: "after_write (take chunk buf) b =
      b\<lparr>bb_buf := map_option (write_at (write_off b) (take chunk buf)) (bb_buf b), bb_len := bb_len b + chunk\<rparr>"
    by (simp only: after_write_def l)
  show ?thesis
    by (subst write_loop.simps)
      (simp only: Let_def w chunk eqs c_assert_def assms(3) c(1) e aw if_True bind.bind_lunit bio_bio_st.simps if_not_P
        split: if_split, simp add: eqs c(1))
qed

lemma write_loop:
  assumes "bb_inv b" "bb_request b = 0" "0 < rest" "bb_len b + rest \<le> bb_size b" "rest \<le> length buf"
  shows "\<exists>b'. write_loop b buf rest = Some b' \<and> bb_inv b' \<and> bb_bytes b' = bb_bytes b @ take rest buf \<and>
     bb_peer b' = bb_peer b \<and> bb_closed b' = bb_closed b \<and> bb_size b' = bb_size b \<and> bb_request b' = 0"
proof -
  define chunk where "chunk = min rest (bb_size b - write_off b)"
  define bs where "bs = take chunk buf"
  define b1 where "b1 = after_write bs b"
  have wo: "write_off b < bb_size b" using assms by (auto simp: write_off_def bb_inv_def)
  have bs: "length bs = chunk" using assms(5) by (simp add: bs_def chunk_def)
  have c: "bb_len b + length bs \<le> bb_size b" "write_off b + length bs \<le> bb_size b" "0 < chunk"
    using assms wo by (auto simp: bs chunk_def)
  note aw = after_write [OF assms(1,2) c(1,2), folded b1_def]
  have same: "bb_peer b1 = bb_peer b" "bb_closed b1 = bb_closed b" "bb_size b1 = bb_size b" "bb_request b1 = 0"
      "bb_offset b1 = bb_offset b" "bb_len b1 = bb_len b + chunk"
    using assms(2) by (simp_all add: b1_def after_write_def bs)
  note step = write_loop_step [OF assms(1,3,4,5) chunk_def, folded bs_def b1_def]
  show ?thesis
  proof (cases "rest = chunk")
    case True
    then show ?thesis using step aw same by (auto simp: bs_def)
  next
    case False
    then have lt: "chunk < rest" "write_off b + chunk = bb_size b" using wo by (auto simp: chunk_def)
    have w1: "write_off b1 + rest - chunk \<le> bb_size b1"
      using lt same assms(1,4) by (auto simp: write_off_def bb_inv_def split: if_splits)
    have r: "0 < rest - chunk" "bb_len b1 + (rest - chunk) \<le> bb_size b1" "rest - chunk \<le> length (drop chunk buf)"
        "rest - chunk = min (rest - chunk) (bb_size b1 - write_off b1)"
      using lt w1 assms same by auto
    define bs2 where "bs2 = take (rest - chunk) (drop chunk buf)"
    define b2 where "b2 = after_write bs2 b1"
    have "length bs2 = rest - chunk" using r(3) by (simp add: bs2_def)
    then have "bb_len b1 + length bs2 \<le> bb_size b1" "write_off b1 + length bs2 \<le> bb_size b1" using r w1 lt by auto
    note aw2 = after_write [OF aw(1) same(4) this, folded b2_def]
    have "bs @ bs2 = take rest buf" using lt unfolding bs_def bs2_def by (metis le_add_diff_inverse less_imp_le take_add)
    then have "bb_bytes b2 = bb_bytes b @ take rest buf" using aw2 aw by simp
    moreover have "bb_peer b2 = bb_peer b" "bb_closed b2 = bb_closed b" "bb_size b2 = bb_size b" "bb_request b2 = 0"
      using same by (simp_all add: b2_def after_write_def)
    ultimately show ?thesis
      using step write_loop_step [OF aw(1) r, folded bs2_def b2_def] False aw2 by auto
  qed
qed

end
