(* ===== verification/Bio_Channel.thy ===== *)
theory Bio_Channel
  imports Bio_Pair_Correct
begin

text \<open>
  The operations on a pair of \<open>pair.c\<close> refine those of a bounded channel in each direction, and a pair keeps the
  contract of a byte source.
\<close>

section \<open>The abstract channel\<close>

record chan =
  ch_queue :: "u8 list"
  ch_cap :: nat
  ch_closed :: bool

definition chan_write :: "u8 list \<Rightarrow> chan \<Rightarrow> int \<times> chan" where
  "chan_write d c =
     (if d = [] then (0, c)
      else if ch_closed c \<or> length (ch_queue c) = ch_cap c then (- 1, c)
      else
        (let n = min (length d) (ch_cap c - length (ch_queue c))
         in (int n, c\<lparr>ch_queue := ch_queue c @ take n d\<rparr>)))"

definition chan_read :: "nat \<Rightarrow> chan \<Rightarrow> int \<times> u8 list \<times> chan" where
  "chan_read n c =
     (if n = 0 then (0, [], c)
      else if ch_queue c = [] then (if ch_closed c then 0 else - 1, [], c)
      else
        (let k = min n (length (ch_queue c))
         in (int k, take k (ch_queue c), c\<lparr>ch_queue := drop k (ch_queue c)\<rparr>)))"

definition chan_close :: "chan \<Rightarrow> chan" where
  "chan_close c = c\<lparr>ch_closed := True\<rparr>"

section \<open>The invariant of a pair\<close>

definition half :: "bio_bio_st bio_heap \<Rightarrow> nat \<Rightarrow> nat \<Rightarrow> bool" where
  "half h i j \<longleftrightarrow>
     bio_method (h i) \<noteq> None \<and> bio_init (h i) \<and>
     (case bio_ptr (h i) of None \<Rightarrow> False | Some b \<Rightarrow> bb_peer b = Some j \<and> bb_inv b)"

definition pair_inv :: "nat \<Rightarrow> nat \<Rightarrow> bio_bio_st bio_heap \<Rightarrow> bool" where
  "pair_inv i j h \<longleftrightarrow> i \<noteq> j \<and> half h i j \<and> half h j i"

text \<open>The channel for what is written at the end \<open>i\<close>.\<close>

definition chan_of :: "bio_bio_st bio_heap \<Rightarrow> nat \<Rightarrow> chan" where
  "chan_of h i =
     (let b = the (bio_ptr (h i)) in \<lparr>ch_queue = bb_bytes b, ch_cap = bb_size b, ch_closed = bb_closed b\<rparr>)"

lemma pair_inv_sym: "pair_inv i j h \<longleftrightarrow> pair_inv j i h"
  by (auto simp: pair_inv_def)

lemma pair_invE:
  assumes "pair_inv i j h"
  obtains b where "i \<noteq> j" "bio_init (h i)" "bio_method (h i) \<noteq> None" "bio_ptr (h i) = Some b" "bb_peer b = Some j" "bb_inv b"
    "half h j i"
  using assms by (auto simp: pair_inv_def half_def split: option.splits)

text \<open>What an operation on the end \<open>i\<close> may do: flags and counters of \<open>i\<close> change freely, and the structure of one end is
  replaced by one that keeps the invariant.\<close>

lemma half_cong:
  "bio_method (h' i) = bio_method (h i) \<Longrightarrow> bio_init (h' i) = bio_init (h i) \<Longrightarrow> bio_ptr (h' i) = bio_ptr (h i) \<Longrightarrow>
   half h' i j = half h i j"
  by (simp add: half_def)

lemma bb_inv_request: "bb_inv b \<Longrightarrow> bb_inv (b\<lparr>bb_request := 0\<rparr>)"
  by (auto simp: bb_inv_def)

lemma bb_bytes_request [simp]: "bb_bytes (b\<lparr>bb_request := r\<rparr>) = bb_bytes b"
  by (simp add: bb_bytes_def split: option.split)

lemma bb_bytes_Nil_iff: "bb_inv b \<Longrightarrow> bb_bytes b = [] \<longleftrightarrow> bb_len b = 0"
  using length_bb_bytes [of b] by auto

lemmas bio_heap_defs = BIO_clear_retry_flags_def BIO_set_retry_read_def BIO_set_retry_write_def bb_update_def

section \<open>Refinement\<close>

theorem bio_write_refines:
  assumes "pair_inv i j h"
  shows "\<exists>h'. bio_write h i d = Some (fst (chan_write d (chan_of h i)), h') \<and> pair_inv i j h' \<and>
     chan_of h' i = snd (chan_write d (chan_of h i)) \<and> chan_of h' j = chan_of h j"
proof -
  from assms obtain b where b: "i \<noteq> j" "bio_init (h i)" "bio_method (h i) \<noteq> None" "bio_ptr (h i) = Some b"
      "bb_peer b = Some j" "bb_inv b" "half h j i" by (rule pair_invE)
  have buf: "bb_buf b \<noteq> None" "bb_len b \<le> bb_size b" "bb_size b < size_mod" using b(6) by (auto simp: bb_inv_def)
  define b0 where "b0 = b\<lparr>bb_request := 0\<rparr>"
  have b0: "bb_inv b0" "bb_request b0 = 0" "bb_len b0 = bb_len b" "bb_size b0 = bb_size b" "bb_closed b0 = bb_closed b"
    using bb_inv_request [OF b(6)] by (auto simp: b0_def)
  show ?thesis
  proof (cases "d = [] \<or> bb_closed b \<or> bb_len b = bb_size b")
    case True
    then show ?thesis using b buf b0(1) length_bb_bytes [OF b(6)]
      by (auto simp: bio_write_def Let_def bio_heap_defs chan_write_def chan_of_def c_assert_def pair_inv_def half_def b0_def)
  next
    case False
    define n where "n = min (length d) (bb_size b - bb_len b)"
    have room: "size_sub (bb_size b0) (bb_len b0) = bb_size b - bb_len b" using buf by (simp add: b0 size_sub_exact)
    have open0: "bb_len b0 \<le> bb_size b0" "bb_len b0 \<noteq> bb_size b0" "\<not> bb_closed b0" using False buf by (auto simp: b0)
    have n: "0 < n" "bb_len b0 + n \<le> bb_size b0" "n \<le> length d" using False buf by (auto simp: n_def b0)
    from write_loop [OF b0(1,2) n] obtain b' where w: "write_loop b0 d n = Some b'" "bb_inv b'"
        "bb_bytes b' = bb_bytes b @ take n d" "bb_peer b' = Some j" "bb_closed b' = bb_closed b" "bb_size b' = bb_size b"
      by (auto simp: b0_def b(5))
    have "bio_write h i d = Some (int n, bb_update i (\<lambda>_. b') (bb_update i (\<lambda>_. b0) (BIO_clear_retry_flags i h)))"
      using False b(2,4,5) buf(1) w(1) n(1)
      by (cases "bb_size b - bb_len b < length d")
        (simp_all add: bio_write_def Let_def BIO_clear_retry_flags_def c_assert_def b0_def [symmetric] open0 room n_def min_def)
    then show ?thesis using False b w length_bb_bytes [OF b(6)]
      by (simp add: bio_heap_defs chan_write_def chan_of_def pair_inv_def half_def Let_def n_def [symmetric])
  qed
qed

theorem bio_read_refines:
  assumes "pair_inv i j h" "n \<le> INT_MAX"
  shows "\<exists>h'. bio_read h i (int n) = Some (fst (chan_read n (chan_of h j)), fst (snd (chan_read n (chan_of h j))), h') \<and>
     pair_inv i j h' \<and> chan_of h' j = snd (snd (chan_read n (chan_of h j))) \<and> chan_of h' i = chan_of h i"
proof -
  from assms(1) obtain b where b: "i \<noteq> j" "bio_init (h i)" "bio_method (h i) \<noteq> None" "bio_ptr (h i) = Some b"
      "bb_peer b = Some j" "bb_inv b" "half h j i" by (rule pair_invE)
  obtain p where p: "bio_init (h j)" "bio_method (h j) \<noteq> None" "bio_ptr (h j) = Some p" "bb_peer p = Some i" "bb_inv p"
    using b(7) by (auto simp: half_def split: option.splits)
  have buf: "bb_buf p \<noteq> None" "bb_len p \<le> bb_size p" "bb_size p < size_mod" using p(5) by (auto simp: bb_inv_def)
  have sz: "nat (int n mod int size_mod) = n" using assms(2) by (simp add: INT_MAX_def size_mod_def)
  show ?thesis
  proof (cases "n = 0 \<or> bb_len p = 0")
    case True
    have r: "bb_inv (p\<lparr>bb_request := min n (bb_size p)\<rparr>)" if "bb_len p = 0" using p(5) that by (auto simp: bb_inv_def)
    show ?thesis using True b p buf sz r bb_inv_request [OF p(5)] bb_bytes_Nil_iff [OF p(5)]
      by (auto simp: bio_read_def Let_def bio_heap_defs chan_read_def chan_of_def c_assert_def pair_inv_def half_def min_def)
  next
    case False
    define k where "k = min n (bb_len p)"
    define p0 where "p0 = p\<lparr>bb_request := 0\<rparr>"
    have k: "0 < k" "k \<le> bb_len p0" using False by (auto simp: k_def p0_def)
    have "bb_inv p0" using bb_inv_request [OF p(5)] by (simp add: p0_def)
    from read_loop [OF this k, of "[]"] obtain p' where r: "read_loop [] p0 k = Some (take k (bb_bytes p), p')" "bb_inv p'"
        "bb_bytes p' = drop k (bb_bytes p)" "bb_peer p' = Some i" "bb_closed p' = bb_closed p" "bb_size p' = bb_size p"
      by (auto simp: p0_def p(4))
    have "bio_read h i (int n) = Some (int k, take k (bb_bytes p),
        bb_update j (\<lambda>_. p') (bb_update j (\<lambda>p. p\<lparr>bb_request := 0\<rparr>) (BIO_clear_retry_flags i h)))"
      using False b(1-5) p(3) buf(1) r(1) k(1)
      by (cases "bb_len p < n")
        (simp_all add: bio_read_def Let_def BIO_clear_retry_flags_def c_assert_def p0_def [symmetric] sz k_def min_def)
    then show ?thesis using False b p r length_bb_bytes [OF p(5)] bb_bytes_Nil_iff [OF p(5)]
      by (auto simp: bio_heap_defs chan_read_def chan_of_def pair_inv_def half_def Let_def k_def [symmetric])
  qed
qed

lemma bb_inv_closed: "bb_inv b \<Longrightarrow> bb_inv (b\<lparr>bb_closed := True\<rparr>)"
  by (auto simp: bb_inv_def)

lemma bb_bytes_closed [simp]: "bb_bytes (b\<lparr>bb_closed := c\<rparr>) = bb_bytes b"
  by (simp add: bb_bytes_def split: option.split)

theorem BIO_shutdown_wr_refines:
  assumes "pair_inv i j h"
  shows "\<exists>h'. BIO_shutdown_wr h (Some i) = Some (1, h') \<and> pair_inv i j h' \<and>
     chan_of h' i = chan_close (chan_of h i) \<and> chan_of h' j = chan_of h j"
proof -
  from assms obtain b where b: "i \<noteq> j" "bio_init (h i)" "bio_method (h i) \<noteq> None" "bio_ptr (h i) = Some b"
      "bb_peer b = Some j" "bb_inv b" "half h j i" by (rule pair_invE)
  have "c_int 1 = 1" by (simp add: c_int_def)
  then show ?thesis using b bb_inv_closed [OF b(6)]
    by (auto simp: BIO_shutdown_wr_def ctrl_int_def BIO_ctrl_def bio_meth_def bio_s_bio_def methods_biop_def bio_ctrl_def
        BIO_C_GET_WRITE_BUF_SIZE_def BIO_C_GET_WRITE_GUARANTEE_def BIO_C_GET_READ_REQUEST_def BIO_C_RESET_READ_REQUEST_def
        BIO_C_SHUTDOWN_WR_def bb_update_def chan_of_def chan_close_def pair_inv_def half_def Let_def)
qed

section \<open>The dispatched operations\<close>

text \<open>The counters that \<open>BIO_read\<close> and \<open>BIO_write\<close> keep are no part of the channel.\<close>

lemma counted:
  assumes "bio_ptr \<circ> h' = bio_ptr \<circ> h" "bio_init \<circ> h' = bio_init \<circ> h" "bio_method \<circ> h' = bio_method \<circ> h"
  shows "pair_inv i j h' = pair_inv i j h" "chan_of h' k = chan_of h k"
proof -
  have "bio_ptr (h' k) = bio_ptr (h k)" "bio_init (h' k) = bio_init (h k)" "bio_method (h' k) = bio_method (h k)" for k
    using assms by (simp_all add: fun_eq_iff)
  then show "pair_inv i j h' = pair_inv i j h" "chan_of h' k = chan_of h k"
    by (simp_all add: pair_inv_def half_def chan_of_def)
qed

lemma counters [simp]:
  "pair_inv i j (bio_update k (\<lambda>b. b\<lparr>bio_num_read := f b\<rparr>) h) = pair_inv i j h"
  "chan_of (bio_update k (\<lambda>b. b\<lparr>bio_num_read := f b\<rparr>) h) l = chan_of h l"
  "pair_inv i j (bio_update k (\<lambda>b. b\<lparr>bio_num_write := f b\<rparr>) h) = pair_inv i j h"
  "chan_of (bio_update k (\<lambda>b. b\<lparr>bio_num_write := f b\<rparr>) h) l = chan_of h l"
  by (rule counted; simp add: fun_eq_iff)+

lemma BIO_write_refines:
  assumes "pair_inv i j h"
  shows "\<exists>h'. BIO_write bio_s_bio h (Some i) d = Some (fst (chan_write d (chan_of h i)), h') \<and> pair_inv i j h' \<and>
     chan_of h' i = snd (chan_write d (chan_of h i)) \<and> chan_of h' j = chan_of h j"
proof -
  from assms obtain b m where m: "bio_method (h i) = Some m" "bio_init (h i)" by (auto elim: pair_invE)
  obtain h1 where w: "bio_write h i d = Some (fst (chan_write d (chan_of h i)), h1)" "pair_inv i j h1"
      "chan_of h1 i = snd (chan_write d (chan_of h i))" "chan_of h1 j = chan_of h j"
    using bio_write_refines [OF assms] by blast
  show ?thesis
  proof (cases "d = []")
    case False
    then show ?thesis using m w by (simp add: BIO_write_def bio_meth_def bio_s_bio_def methods_biop_def)
  qed (use m assms in \<open>simp add: BIO_write_def bio_meth_def bio_s_bio_def methods_biop_def chan_write_def\<close>)
qed

lemma BIO_read_refines:
  assumes "pair_inv i j h" "n \<le> INT_MAX"
  shows "\<exists>h'. BIO_read bio_s_bio h (Some i) (int n) =
       Some (fst (chan_read n (chan_of h j)), fst (snd (chan_read n (chan_of h j))), h') \<and>
     pair_inv i j h' \<and> chan_of h' j = snd (snd (chan_read n (chan_of h j))) \<and> chan_of h' i = chan_of h i"
proof -
  from assms(1) obtain b m where m: "bio_method (h i) = Some m" "bio_init (h i)" by (auto elim: pair_invE)
  obtain h1 where w: "bio_read h i (int n) = Some (fst (chan_read n (chan_of h j)), fst (snd (chan_read n (chan_of h j))), h1)"
      "pair_inv i j h1" "chan_of h1 j = snd (snd (chan_read n (chan_of h j)))" "chan_of h1 i = chan_of h i"
    using bio_read_refines [OF assms] by blast
  show ?thesis
  proof (cases "n = 0")
    case False
    then show ?thesis using m w by (simp add: BIO_read_def bio_meth_def bio_s_bio_def methods_biop_def)
  qed (use m assms in \<open>simp add: BIO_read_def bio_meth_def bio_s_bio_def methods_biop_def chan_read_def\<close>)
qed

section \<open>Creation and release\<close>

definition fresh_half :: "bio_bio_st bio_heap \<Rightarrow> nat \<Rightarrow> bool" where
  "fresh_half h i \<longleftrightarrow>
     bio_method (h i) \<noteq> None \<and> bio_references (h i) = 1 \<and> bio_next (h i) = None \<and>
     (case bio_ptr (h i) of
        None \<Rightarrow> False
      | Some b \<Rightarrow> bb_peer b = None \<and> bb_buf b = None \<and> bb_size b = 17 * 1024 \<and> bb_len b = 0 \<and> bb_offset b = 0)"

lemma BIO_new_pair_end:
  "BIO_new A bio_s_bio h i m = (None, h') \<and> (\<forall>k. k \<noteq> i \<longrightarrow> h' k = h k) \<or>
   BIO_new A bio_s_bio h i m = (Some i, h') \<and> fresh_half h' i \<and> (\<forall>k. k \<noteq> i \<longrightarrow> h' k = h k)"
  if "h' = snd (BIO_new A bio_s_bio h i m)"
  using that
  by (auto simp: BIO_new_def bio_s_bio_def methods_biop_def bio_new_def fresh_half_def Let_def split: option.splits)

definition freeable :: "bio_bio_st bio_heap \<Rightarrow> nat \<Rightarrow> bool" where
  "freeable h i \<longleftrightarrow>
     bio_method (h i) \<noteq> None \<and> bio_references (h i) = 1 \<and> bio_next (h i) = None \<and> (\<exists>b. bio_ptr (h i) = Some b \<and> bb_peer b = None)"

lemma fresh_half_freeable: "fresh_half h i \<Longrightarrow> freeable h i"
  by (auto simp: fresh_half_def freeable_def split: option.splits)

lemma fresh_half_cong: "h' i = h i \<Longrightarrow> fresh_half h' i = fresh_half h i" "h' i = h i \<Longrightarrow> freeable h' i = freeable h i"
  by (simp_all add: fresh_half_def freeable_def)

lemma BIO_free_end:
  assumes "\<forall>k. bio = Some k \<longrightarrow> freeable h k"
  shows "\<exists>h'. BIO_free bio_s_bio h bio = Some (True, h') \<and> (\<forall>k. bio \<noteq> Some k \<longrightarrow> h' k = h k)"
proof (cases bio)
  case None
  then show ?thesis by (simp add: BIO_free.simps)
next
  case (Some k)
  have end_chain: "BIO_free bio_s_bio h'' None = Some (True, h'')" for h'' by (simp add: BIO_free.simps)
  show ?thesis using assms Some
    by (subst BIO_free.simps)
      (auto simp: freeable_def CRYPTO_refcount_dec_and_test_zero_def CRYPTO_REFCOUNT_MAX_def BIO_pop_def bio_meth_def bio_s_bio_def
        methods_biop_def bio_free_def Let_def end_chain [unfolded bio_s_bio_def methods_biop_def])
qed

lemma make_buf_fresh:
  assumes "bb_buf b = None" "bb_size b = 17 * 1024" "2 * n < size_mod" "make_buf A b n = (True, b')"
  shows "bb_inv (b'\<lparr>bb_peer := p, bb_closed := False, bb_request := 0\<rparr>) \<and> bb_len b' = 0 \<and>
     bb_size b' = (if n = 0 then 17 * 1024 else n)"
  using assms
  by (auto simp: make_buf_def Let_def bb_inv_def OPENSSL_malloc_def size_mod_def split: if_splits option.splits)

lemma make_buf_same: "bb_peer (snd (make_buf A b n)) = bb_peer b"
  by (simp add: make_buf_def Let_def split: option.split)

lemma bio_make_pair_fresh:
  assumes "fresh_half h i" "fresh_half h j" "i \<noteq> j" "2 * n < size_mod" "2 * m < size_mod"
  shows "\<exists>paired h'. bio_make_pair A h i j n m = Some (paired, h') \<and>
     (if paired then pair_inv i j h' \<and>
        chan_of h' i = \<lparr>ch_queue = [], ch_cap = (if n = 0 then 17 * 1024 else n), ch_closed = False\<rparr> \<and>
        chan_of h' j = \<lparr>ch_queue = [], ch_cap = (if m = 0 then 17 * 1024 else m), ch_closed = False\<rparr>
      else freeable h' i \<and> freeable h' j)"
proof -
  obtain b1 b2 where b: "bio_ptr (h i) = Some b1" "bio_ptr (h j) = Some b2" "bb_peer b1 = None" "bb_peer b2 = None"
      "bb_buf b1 = None" "bb_buf b2 = None" "bb_size b1 = 17 * 1024" "bb_size b2 = 17 * 1024"
    using assms(1,2) by (auto simp: fresh_half_def split: option.splits)
  have hd: "bio_method (h i) \<noteq> None" "bio_method (h j) \<noteq> None" "bio_references (h i) = 1" "bio_references (h j) = 1"
      "bio_next (h i) = None" "bio_next (h j) = None"
    using assms(1,2) by (auto simp: fresh_half_def)
  obtain ok1 c1 ok2 c2 where c: "make_buf A b1 n = (ok1, c1)" "make_buf A b2 m = (ok2, c2)" by fastforce
  have peer: "bb_peer c1 = None" "bb_peer c2 = None"
    using make_buf_same [of A b1 n] make_buf_same [of A b2 m] b c by auto
  have bytes: "bb_bytes (c\<lparr>bb_peer := p, bb_closed := False, bb_request := 0\<rparr>) = []"
    if "bb_len c = 0" for c :: bio_bio_st and p
    using that by (simp add: bb_bytes_def ring_def split: option.split)
  show ?thesis
  proof (cases "ok1 \<and> ok2")
    case True
    note m1 = make_buf_fresh [of b1 n A c1 "Some j"] and m2 = make_buf_fresh [of b2 m A c2 "Some i"]
    show ?thesis using True b hd c assms(3-5) m1 m2 bytes [of c1] bytes [of c2]
      by (auto simp: bio_make_pair_def Let_def bb_update_def pair_inv_def half_def chan_of_def)
  next
    case False
    then show ?thesis using b hd c assms(3) peer
      by (cases ok1) (auto simp: bio_make_pair_def Let_def bb_update_def freeable_def)
  qed
qed

text \<open>Whatever the allocator does, the call returns; when it delivers a pair, the pair is a channel in each direction, empty
  and of the size asked for.\<close>

theorem BIO_new_bio_pair_correct:
  assumes "i \<noteq> j" "2 * n < size_mod" "2 * m < size_mod"
  shows "\<exists>res h'. BIO_new_bio_pair A h i n j m = Some (res, h') \<and>
     (res \<noteq> None \<longrightarrow> res = Some (i, j) \<and> pair_inv i j h' \<and>
        chan_of h' i = \<lparr>ch_queue = [], ch_cap = (if n = 0 then 17 * 1024 else n), ch_closed = False\<rparr> \<and>
        chan_of h' j = \<lparr>ch_queue = [], ch_cap = (if m = 0 then 17 * 1024 else m), ch_closed = False\<rparr>)"
proof -
  define r1 where "r1 = BIO_new A bio_s_bio h i 0"
  define h1 where "h1 = snd r1"
  define r2 where "r2 = BIO_new A bio_s_bio h1 j 0"
  define h2 where "h2 = snd r2"
  have n1: "r1 = (None, h1) \<or> r1 = (Some i, h1) \<and> fresh_half h1 i"
    using BIO_new_pair_end [of h1 A h i 0] by (auto simp: h1_def r1_def)
  have n2: "r2 = (None, h2) \<or> r2 = (Some j, h2) \<and> fresh_half h2 j" "h2 i = h1 i"
    using BIO_new_pair_end [of h2 A h1 j 0] assms(1) by (auto simp: h2_def r2_def)
  note fr = fresh_half_cong [of h2 i h1, OF n2(2)]
  have release: "\<exists>h'. (do { (_, h) \<leftarrow> BIO_free bio_s_bio h3 (fst r1); (_, h) \<leftarrow> BIO_free bio_s_bio h (fst r2); Some (None, h) }) = Some (None, h')"
    if f1: "\<forall>k. fst r1 = Some k \<longrightarrow> freeable h3 k" and f2: "\<forall>k. fst r2 = Some k \<longrightarrow> freeable h3 k" for h3
  proof -
    obtain h4 where h4: "BIO_free bio_s_bio h3 (fst r1) = Some (True, h4)" "\<forall>k. fst r1 \<noteq> Some k \<longrightarrow> h4 k = h3 k"
      using BIO_free_end [OF f1] by blast
    have "\<forall>k. fst r2 = Some k \<longrightarrow> freeable h4 k"
      using f2 h4(2) n1 n2(1) assms(1) fresh_half_cong(2) [of h4 j h3] by auto
    from BIO_free_end [OF this] h4(1) show ?thesis by auto
  qed
  have unf: "BIO_new_bio_pair A h i n j m = do {
      (paired, h) \<leftarrow> (case (fst r1, fst r2) of (Some a, Some b) \<Rightarrow> bio_make_pair A h2 a b n m | _ \<Rightarrow> Some (False, h2));
      if paired then Some (Some (the (fst r1), the (fst r2)), h)
      else do { (_, h) \<leftarrow> BIO_free bio_s_bio h (fst r1); (_, h) \<leftarrow> BIO_free bio_s_bio h (fst r2); Some (None, h) } }"
  proof -
    have "BIO_new A bio_s_bio h i 0 = (fst r1, h1)" "BIO_new A bio_s_bio h1 j 0 = (fst r2, h2)"
      by (simp_all add: r1_def h1_def r2_def h2_def)
    then show ?thesis by (simp add: BIO_new_bio_pair_def)
  qed
  show ?thesis
  proof (cases "fst r1 = None \<or> fst r2 = None")
    case True
    then have c: "(case (fst r1, fst r2) of (Some a, Some b) \<Rightarrow> bio_make_pair A h2 a b n m | _ \<Rightarrow> Some (False, h2)) = Some (False, h2)"
      by (auto split: option.split)
    have "\<forall>k. fst r1 = Some k \<longrightarrow> freeable h2 k" "\<forall>k. fst r2 = Some k \<longrightarrow> freeable h2 k"
      using n1 n2(1) fr fresh_half_freeable by auto
    from release [OF this] obtain h' where "BIO_new_bio_pair A h i n j m = Some (None, h')" unfolding unf c by auto
    then show ?thesis by blast
  next
    case False
    then have s: "fst r1 = Some i" "fst r2 = Some j" "fresh_half h2 i" "fresh_half h2 j" using n1 n2 fr by auto
    obtain paired h3 where mp: "bio_make_pair A h2 i j n m = Some (paired, h3)"
        "if paired then pair_inv i j h3 \<and>
          chan_of h3 i = \<lparr>ch_queue = [], ch_cap = (if n = 0 then 17 * 1024 else n), ch_closed = False\<rparr> \<and>
          chan_of h3 j = \<lparr>ch_queue = [], ch_cap = (if m = 0 then 17 * 1024 else m), ch_closed = False\<rparr>
        else freeable h3 i \<and> freeable h3 j"
      using bio_make_pair_fresh [OF s(3,4) assms] by blast
    show ?thesis
    proof (cases paired)
      case True
      then show ?thesis unfolding unf s using mp by simp
    next
      case False
      then have "\<forall>k. fst r1 = Some k \<longrightarrow> freeable h3 k" "\<forall>k. fst r2 = Some k \<longrightarrow> freeable h3 k" using mp s by auto
      from release [OF this] mp False obtain h' where "BIO_new_bio_pair A h i n j m = Some (None, h')"
        unfolding unf s by auto
      then show ?thesis by blast
    qed
  qed
qed

section \<open>A pair as a source and a sink\<close>

lemma chan_queue_cases:
  "chan_read n c = (r, out, c') \<Longrightarrow> 0 < n \<Longrightarrow> ch_queue c = [] \<Longrightarrow> (r = 0 \<or> r = - 1) \<and> out = [] \<and> c' = c"
  "chan_read n c = (r, out, c') \<Longrightarrow> 0 < n \<Longrightarrow> ch_queue c = [] \<Longrightarrow> ch_closed c \<Longrightarrow> r = 0"
  by (auto simp: chan_read_def split: if_splits)

interpretation pair_source: byte_source bio_s_bio i "pair_inv i j" "\<lambda>h. ch_queue (chan_of h j)" for i j
proof
  fix h n
  assume a: "pair_inv i j h" "ch_queue (chan_of h j) \<noteq> []" "0 < n" "n \<le> INT_MAX"
  show "\<exists>k h'. BIO_read bio_s_bio h (Some i) (int n) = Some (int k, take k (ch_queue (chan_of h j)), h') \<and> 0 < k \<and> k \<le> n \<and>
      k \<le> length (ch_queue (chan_of h j)) \<and> pair_inv i j h' \<and> ch_queue (chan_of h' j) = drop k (ch_queue (chan_of h j))"
    using BIO_read_refines [OF a(1,4)] a(2,3)
    by (intro exI [of _ "min n (length (ch_queue (chan_of h j)))"]) (auto simp: chan_read_def Let_def)
next
  fix h n
  assume a: "pair_inv i j h" "ch_queue (chan_of h j) = []" "0 < n" "n \<le> INT_MAX"
  show "\<exists>r h'. BIO_read bio_s_bio h (Some i) (int n) = Some (r, [], h') \<and> (r = 0 \<or> r = - 1) \<and> pair_inv i j h' \<and>
      ch_queue (chan_of h' j) = []"
    using BIO_read_refines [OF a(1,4)] a(2,3) by (auto simp: chan_read_def)
qed

text \<open>Once the other end has shut down, the source reports the end of the stream.\<close>

interpretation closed_pair: eof_source bio_s_bio i "\<lambda>h. pair_inv i j h \<and> ch_closed (chan_of h j)"
  "\<lambda>h. ch_queue (chan_of h j)" for i j
proof
  fix h n
  assume a: "pair_inv i j h \<and> ch_closed (chan_of h j)" "ch_queue (chan_of h j) \<noteq> []" "0 < n" "n \<le> INT_MAX"
  show "\<exists>k h'. BIO_read bio_s_bio h (Some i) (int n) = Some (int k, take k (ch_queue (chan_of h j)), h') \<and> 0 < k \<and> k \<le> n \<and>
      k \<le> length (ch_queue (chan_of h j)) \<and> (pair_inv i j h' \<and> ch_closed (chan_of h' j)) \<and>
      ch_queue (chan_of h' j) = drop k (ch_queue (chan_of h j))"
    using BIO_read_refines [OF conjunct1 [OF a(1)] a(4)] a(1-3)
    by (intro exI [of _ "min n (length (ch_queue (chan_of h j)))"]) (auto simp: chan_read_def Let_def)
next
  fix h n
  assume a: "pair_inv i j h \<and> ch_closed (chan_of h j)" "ch_queue (chan_of h j) = []" "0 < n" "n \<le> INT_MAX"
  show "\<exists>r h'. BIO_read bio_s_bio h (Some i) (int n) = Some (r, [], h') \<and> (r = 0 \<or> r = - 1) \<and>
      (pair_inv i j h' \<and> ch_closed (chan_of h' j)) \<and> ch_queue (chan_of h' j) = []"
    using BIO_read_refines [OF conjunct1 [OF a(1)] a(4)] a by (auto simp: chan_read_def)
  show "\<exists>h'. BIO_read bio_s_bio h (Some i) (int n) = Some (0, [], h')"
    using BIO_read_refines [OF conjunct1 [OF a(1)] a(4)] a by (auto simp: chan_read_def)
qed

interpretation pair_sink: byte_sink bio_s_bio i "pair_inv i j" "\<lambda>h. ch_queue (chan_of h i)" for i j
proof
  fix h and d :: "u8 list"
  assume a: "pair_inv i j h" "d \<noteq> []" "length d \<le> INT_MAX"
  show "\<exists>r h'. BIO_write bio_s_bio h (Some i) d = Some (r, h') \<and> pair_inv i j h' \<and> nat r \<le> length d \<and>
      ch_queue (chan_of h' i) = ch_queue (chan_of h i) @ take (nat r) d"
    using BIO_write_refines [OF a(1), of d] a(2) by (auto simp: chan_write_def Let_def)
qed

section \<open>Sequences of operations\<close>

text \<open>A run interleaves writes, reads and shutdowns at the two ends (\<open>True\<close> is the first). It records the bytes that each
  end was able to send, and those it has received.\<close>

datatype pair_op = Op_write bool "u8 list" | Op_read bool nat | Op_shutdown bool

record pair_log =
  log_sent :: "bool \<Rightarrow> u8 list"
  log_recv :: "bool \<Rightarrow> u8 list"

definition pair_end :: "nat \<Rightarrow> nat \<Rightarrow> bool \<Rightarrow> nat" where
  "pair_end i j e = (if e then i else j)"

fun pair_step :: "nat \<Rightarrow> nat \<Rightarrow> pair_op \<Rightarrow> bio_bio_st bio_heap \<times> pair_log \<Rightarrow> (bio_bio_st bio_heap \<times> pair_log) option" where
  "pair_step i j (Op_write e d) (h, l) = do {
     (r, h) \<leftarrow> BIO_write bio_s_bio h (Some (pair_end i j e)) d;
     Some (h, l\<lparr>log_sent := (log_sent l)(e := log_sent l e @ take (nat r) d)\<rparr>)
   }"
| "pair_step i j (Op_read e n) (h, l) = do {
     (r, out, h) \<leftarrow> BIO_read bio_s_bio h (Some (pair_end i j e)) (int n);
     Some (h, l\<lparr>log_recv := (log_recv l)(e := log_recv l e @ out)\<rparr>)
   }"
| "pair_step i j (Op_shutdown e) (h, l) = do {
     (r, h) \<leftarrow> BIO_shutdown_wr h (Some (pair_end i j e));
     Some (h, l)
   }"

fun pair_run :: "nat \<Rightarrow> nat \<Rightarrow> pair_op list \<Rightarrow> bio_bio_st bio_heap \<times> pair_log \<Rightarrow> (bio_bio_st bio_heap \<times> pair_log) option" where
  "pair_run i j [] s = Some s"
| "pair_run i j (op # ops) s = pair_step i j op s \<bind> pair_run i j ops"

fun op_fits :: "pair_op \<Rightarrow> bool" where
  "op_fits (Op_read e n) = (n \<le> INT_MAX)"
| "op_fits _ = True"

text \<open>What one end has sent is what the other has received, followed by what is in the buffer.\<close>

definition in_transit :: "nat \<Rightarrow> nat \<Rightarrow> bio_bio_st bio_heap \<times> pair_log \<Rightarrow> bool" where
  "in_transit i j s \<longleftrightarrow>
     (\<forall>e. log_sent (snd s) e = log_recv (snd s) (\<not> e) @ ch_queue (chan_of (fst s) (pair_end i j e)))"

lemma pair_inv_end: "pair_inv i j h \<Longrightarrow> pair_inv (pair_end i j e) (pair_end i j (\<not> e)) h"
  by (simp add: pair_end_def pair_inv_sym [of j i])

lemma pair_inv_back: "pair_inv (pair_end i j e) (pair_end i j (\<not> e)) h \<Longrightarrow> pair_inv i j h"
  using pair_inv_sym [of i j h] by (auto simp: pair_end_def split: if_splits)

lemma in_transit_iff:
  "in_transit i j s \<longleftrightarrow>
     log_sent (snd s) e = log_recv (snd s) (\<not> e) @ ch_queue (chan_of (fst s) (pair_end i j e)) \<and>
     log_sent (snd s) (\<not> e) = log_recv (snd s) e @ ch_queue (chan_of (fst s) (pair_end i j (\<not> e)))"
  by (cases e) (auto simp: in_transit_def all_bool_eq)

lemma pair_step_correct:
  assumes "pair_inv i j (fst s)" "in_transit i j s" "op_fits op"
  shows "\<exists>s'. pair_step i j op s = Some s' \<and> pair_inv i j (fst s') \<and> in_transit i j s'"
proof (cases s)
  case (Pair h l)
  show ?thesis
  proof (cases op)
    case (Op_write e d)
    have "pair_inv (pair_end i j e) (pair_end i j (\<not> e)) h" using assms(1) Pair by (simp add: pair_inv_end)
    from BIO_write_refines [OF this, of d] show ?thesis using assms(2) Pair Op_write
      by (auto dest!: pair_inv_back simp: in_transit_iff [of _ _ _ e] chan_write_def Let_def)
  next
    case (Op_read e n)
    have "pair_inv (pair_end i j e) (pair_end i j (\<not> e)) h" "n \<le> INT_MAX" using assms Pair Op_read by (auto simp: pair_inv_end)
    from BIO_read_refines [OF this] show ?thesis using assms(2) Pair Op_read
      by (auto dest!: pair_inv_back simp: in_transit_iff [of _ _ _ e] chan_read_def Let_def)
  next
    case (Op_shutdown e)
    have "pair_inv (pair_end i j e) (pair_end i j (\<not> e)) h" using assms(1) Pair by (simp add: pair_inv_end)
    from BIO_shutdown_wr_refines [OF this] show ?thesis using assms(2) Pair Op_shutdown
      by (auto dest!: pair_inv_back simp: in_transit_iff [of _ _ _ e] chan_close_def)
  qed
qed

lemma pair_run_correct:
  "pair_inv i j (fst s) \<Longrightarrow> in_transit i j s \<Longrightarrow> \<forall>op \<in> set ops. op_fits op \<Longrightarrow>
   \<exists>s'. pair_run i j ops s = Some s' \<and> pair_inv i j (fst s') \<and> in_transit i j s'"
proof (induction ops arbitrary: s)
  case (Cons op ops)
  then obtain s1 where "pair_step i j op s = Some s1" "pair_inv i j (fst s1)" "in_transit i j s1"
    using pair_step_correct [of i j s op] by auto
  then show ?case using Cons by simp
qed simp

end
