(* ===== verification/Bio_Mem.thy ===== *)
theory Bio_Mem
  imports Bio_Source
begin

text \<open>
  \<open>crypto/bio/bio_mem.c\<close>: streams over a memory buffer, growing or read-only. The \<open>data\<close> pointer of a read-only
  buffer moves through the caller's array, so the model keeps the array and the offset of the pointer in it; the
  offset of a growing buffer is 0. A null pointer that the code would follow is the value \<open>None\<close>.
\<close>

section \<open>The code\<close>

record mem_buf =
  mb_buf :: BUF_MEM
  mb_off :: nat

definition mem_new :: "allocator \<Rightarrow> mem_buf bio_heap \<Rightarrow> nat \<Rightarrow> bool \<times> mem_buf bio_heap" where
  "mem_new A h i =
     (case BUF_MEM_new A of
        None \<Rightarrow> (False, h)
      | Some b \<Rightarrow>
          (True, bio_update i (\<lambda>bio. bio\<lparr>bio_shutdown := 1, bio_init := True, bio_num := - 1,
                                          bio_ptr := Some \<lparr>mb_buf = b, mb_off = 0\<rparr>\<rparr>) h))"

definition mem_free :: "mem_buf bio_heap \<Rightarrow> nat \<Rightarrow> (bool \<times> mem_buf bio_heap) option" where
  "mem_free h i =
     (if bio_shutdown (h i) = 0 \<or> \<not> bio_init (h i) \<or> bio_ptr (h i) = None then Some (True, h)
      else Some (True, bio_update i (\<lambda>bio. bio\<lparr>bio_ptr := None\<rparr>) h))"

text \<open>The bytes from \<open>b->data\<close> on.\<close>

definition mem_data :: "mem_buf \<Rightarrow> u8 list" where
  "mem_data p = (case bm_data (mb_buf p) of None \<Rightarrow> [] | Some d \<Rightarrow> drop (mb_off p) d)"

definition mem_rdonly :: "mem_buf bio_heap \<Rightarrow> nat \<Rightarrow> bool" where
  "mem_rdonly h i \<longleftrightarrow> bio_flags (h i) AND BIO_FLAGS_MEM_RDONLY \<noteq> 0"

definition mb_update :: "nat \<Rightarrow> (mem_buf \<Rightarrow> mem_buf) \<Rightarrow> mem_buf bio_heap \<Rightarrow> mem_buf bio_heap" where
  "mb_update i f = bio_update i (\<lambda>b. b\<lparr>bio_ptr := map_option f (bio_ptr b)\<rparr>)"

definition mem_read :: "mem_buf bio_reader" where
  "mem_read h i outl =
     (let h = BIO_clear_retry_flags i h
      in if outl \<le> 0 then Some (0, [], h)
         else do {
           p \<leftarrow> bio_ptr (h i);
           let b = mb_buf p;
           let ret = (if nat outl > bm_length b then int (bm_length b) else outl);
           if ret > 0 then
             (let out = take (nat ret) (mem_data p);
                  b = b\<lparr>bm_length := bm_length b - nat ret\<rparr>;
                  p = (if mem_rdonly h i then p\<lparr>mb_buf := b, mb_off := mb_off p + nat ret\<rparr>
                       else p\<lparr>mb_buf := b\<lparr>bm_data := map_option
                              (\<lambda>d. write_at (mb_off p) (take (bm_length b) (drop (mb_off p + nat ret) d)) d) (bm_data b)\<rparr>\<rparr>)
              in Some (ret, out, mb_update i (\<lambda>_. p) h))
           else if bm_length b = 0 then
             Some (bio_num (h i), [], if bio_num (h i) \<noteq> 0 then BIO_set_retry_read i h else h)
           else Some (ret, [], h)
         })"

definition mem_write :: "allocator \<Rightarrow> mem_buf bio_writer" where
  "mem_write A h i inp =
     (let h = BIO_clear_retry_flags i h
      in if length inp = 0 then Some (0, h)
         else if mem_rdonly h i then Some (- 1, h)
         else do {
           p \<leftarrow> bio_ptr (h i);
           let (ok, b) = BUF_MEM_append A (mb_buf p) inp;
           let h = mb_update i (\<lambda>p. p\<lparr>mb_buf := b\<rparr>) h;
           Some (if ok then int (length inp) else - 1, h)
         })"

text \<open>The line is followed by a zero byte.\<close>

definition mem_gets :: "mem_buf bio_reader" where
  "mem_gets h i sz =
     (let h = BIO_clear_retry_flags i h
      in if sz \<le> 0 then Some (0, [], h)
         else do {
           p \<leftarrow> bio_ptr (h i);
           let ret = (if nat (sz - 1) > bm_length (mb_buf p) then int (bm_length (mb_buf p)) else sz - 1);
           let ret = (case memchr (take (nat ret) (mem_data p)) 10 of None \<Rightarrow> ret | Some newline \<Rightarrow> int newline + 1);
           (ret, out, h) \<leftarrow> mem_read h i ret;
           Some (ret, if ret \<ge> 0 then write_at (nat ret) [0] out else out, h)
         })"

definition BIO_C_SET_BUF_MEM :: int where "BIO_C_SET_BUF_MEM = 114"

definition BIO_C_GET_BUF_MEM_PTR :: int where "BIO_C_GET_BUF_MEM_PTR = 115"

definition BIO_C_SET_BUF_MEM_EOF_RETURN :: int where "BIO_C_SET_BUF_MEM_EOF_RETURN = 130"

definition mem_reset :: "bool \<Rightarrow> mem_buf \<Rightarrow> mem_buf" where
  "mem_reset rdonly p =
     (let b = mb_buf p
      in case bm_data b of
           None \<Rightarrow> p
         | Some d \<Rightarrow>
             if rdonly then p\<lparr>mb_off := mb_off p - (bm_max b - bm_length b), mb_buf := b\<lparr>bm_length := bm_max b\<rparr>\<rparr>
             else p\<lparr>mb_buf := b\<lparr>bm_data := Some (write_at (mb_off p) (replicate (bm_max b) 0) d), bm_length := 0\<rparr>\<rparr>)"

definition mem_ctrl :: "mem_buf bio_controller" where
  "mem_ctrl h i cmd num ptr =
     (if cmd = BIO_CTRL_RESET then do {
        p \<leftarrow> bio_ptr (h i);
        Some (1, Out_none, mb_update i (\<lambda>_. mem_reset (mem_rdonly h i) p) h)
      }
      else if cmd = BIO_CTRL_EOF then do {
        p \<leftarrow> bio_ptr (h i);
        Some (if bm_length (mb_buf p) = 0 then 1 else 0, Out_none, h)
      }
      else if cmd = BIO_C_SET_BUF_MEM_EOF_RETURN then
        Some (1, Out_none, bio_update i (\<lambda>b. b\<lparr>bio_num := c_int num\<rparr>) h)
      else if cmd = BIO_CTRL_INFO then do {
        p \<leftarrow> bio_ptr (h i);
        Some (int (bm_length (mb_buf p)),
              if ptr \<noteq> Arg_null then Out_data (map_option (drop (mb_off p)) (bm_data (mb_buf p))) else Out_none, h)
      }
      else if cmd = BIO_C_SET_BUF_MEM then do {
        (_, h) \<leftarrow> mem_free h i;
        Some (1, Out_none, bio_update i (\<lambda>b. b\<lparr>bio_shutdown := c_int num,
               bio_ptr := (case ptr of Arg_obj p \<Rightarrow> Some p | _ \<Rightarrow> None)\<rparr>) h)
      }
      else if cmd = BIO_C_GET_BUF_MEM_PTR then
        Some (1, if ptr \<noteq> Arg_null then Out_obj (bio_ptr (h i)) else Out_none, h)
      else if cmd = BIO_CTRL_GET_CLOSE then Some (bio_shutdown (h i), Out_none, h)
      else if cmd = BIO_CTRL_SET_CLOSE then Some (1, Out_none, bio_update i (\<lambda>b. b\<lparr>bio_shutdown := c_int num\<rparr>) h)
      else if cmd = BIO_CTRL_WPENDING then Some (0, Out_none, h)
      else if cmd = BIO_CTRL_PENDING then do {
        p \<leftarrow> bio_ptr (h i);
        Some (int (bm_length (mb_buf p)), Out_none, h)
      }
      else if cmd = BIO_CTRL_FLUSH then Some (1, Out_none, h)
      else Some (0, Out_none, h))"

definition BIO_TYPE_MEM :: nat where
  "BIO_TYPE_MEM = 1 OR 0x400"

definition mem_method :: "allocator \<Rightarrow> mem_buf BIO_METHOD" where
  "mem_method A = \<lparr>meth_type = BIO_TYPE_MEM, meth_bwrite = Some (mem_write A), meth_bread = Some mem_read,
     meth_bgets = Some mem_gets, meth_ctrl = Some mem_ctrl, meth_create = Some mem_new, meth_destroy = Some mem_free\<rparr>"

text \<open>The table of the memory streams has the address 0; other tables are not in use here.\<close>

definition BIO_s_mem :: "allocator \<Rightarrow> mem_buf bio_methods" where
  "BIO_s_mem A = (\<lambda>_. mem_method A)"

text \<open>The conditional that computes the size reads \<open>buf\<close> before the test for a null pointer.\<close>

definition BIO_new_mem_buf ::
  "allocator \<Rightarrow> mem_buf bio_heap \<Rightarrow> nat \<Rightarrow> u8 list option \<Rightarrow> int \<Rightarrow> (nat option \<times> mem_buf bio_heap) option" where
  "BIO_new_mem_buf A h i buf len = do {
     sz \<leftarrow> (if len < 0 then map_option strlen buf else Some (nat len));
     if buf = None \<and> len \<noteq> 0 then Some (None, h)
     else
       (case BIO_new A (BIO_s_mem A) h i 0 of
          (None, h) \<Rightarrow> Some (None, h)
        | (Some ret, h) \<Rightarrow>
            (let h = mb_update ret (\<lambda>p. p\<lparr>mb_buf := (mb_buf p)\<lparr>bm_data := buf, bm_length := sz, bm_max := sz\<rparr>\<rparr>) h;
                 h = bio_update ret (\<lambda>b. b\<lparr>bio_flags := bio_flags b OR BIO_FLAGS_MEM_RDONLY\<rparr>) h;
                 h = bio_update ret (\<lambda>b. b\<lparr>bio_num := 0\<rparr>) h
             in Some (Some ret, h)))
   }"

text \<open>The contents: the bytes from \<open>b->data\<close> on, of which \<open>b->length\<close> count.\<close>

definition BIO_mem_contents :: "mem_buf bio_heap \<Rightarrow> nat \<Rightarrow> (u8 list \<times> nat) option option" where
  "BIO_mem_contents h i =
     (if bio_method (h i) \<noteq> Some 0 then Some None
      else do {
        p \<leftarrow> bio_ptr (h i);
        Some (Some (mem_data p, bm_length (mb_buf p)))
      })"

definition BIO_get_mem_data :: "allocator \<Rightarrow> mem_buf bio_heap \<Rightarrow> nat option \<Rightarrow> (int \<times> mem_buf ctrl_out \<times> mem_buf bio_heap) option" where
  "BIO_get_mem_data A h bio = BIO_ctrl (BIO_s_mem A) h bio BIO_CTRL_INFO 0 Arg_out"

definition BIO_get_mem_ptr :: "allocator \<Rightarrow> mem_buf bio_heap \<Rightarrow> nat option \<Rightarrow> (int \<times> mem_buf ctrl_out \<times> mem_buf bio_heap) option" where
  "BIO_get_mem_ptr A h bio = do {
     (r, out, h) \<leftarrow> BIO_ctrl (BIO_s_mem A) h bio BIO_C_GET_BUF_MEM_PTR 0 Arg_out;
     Some (c_int r, out, h)
   }"

definition BIO_set_mem_buf :: "allocator \<Rightarrow> mem_buf bio_heap \<Rightarrow> nat option \<Rightarrow> mem_buf \<Rightarrow> int \<Rightarrow> (int \<times> mem_buf bio_heap) option" where
  "BIO_set_mem_buf A h bio b take_ownership = do {
     (r, _, h) \<leftarrow> BIO_ctrl (BIO_s_mem A) h bio BIO_C_SET_BUF_MEM take_ownership (Arg_obj b);
     Some (c_int r, h)
   }"

definition BIO_set_mem_eof_return :: "allocator \<Rightarrow> mem_buf bio_heap \<Rightarrow> nat option \<Rightarrow> int \<Rightarrow> (int \<times> mem_buf bio_heap) option" where
  "BIO_set_mem_eof_return A h bio eof_value = ctrl_int (BIO_s_mem A) h bio BIO_C_SET_BUF_MEM_EOF_RETURN eof_value"

section \<open>The invariant\<close>

definition mem_bytes :: "mem_buf \<Rightarrow> u8 list" where
  "mem_bytes p = take (bm_length (mb_buf p)) (mem_data p)"

definition mem_inv :: "bool \<Rightarrow> mem_buf \<Rightarrow> bool" where
  "mem_inv rdonly p \<longleftrightarrow>
     (if rdonly then
        (case bm_data (mb_buf p) of None \<Rightarrow> bm_max (mb_buf p) = 0 | Some d \<Rightarrow> bm_max (mb_buf p) \<le> length d) \<and>
        mb_off p + bm_length (mb_buf p) = bm_max (mb_buf p)
      else bm_inv (mb_buf p) \<and> mb_off p = 0)"

definition mem_ok :: "mem_buf bio_heap \<Rightarrow> nat \<Rightarrow> bool" where
  "mem_ok h i \<longleftrightarrow>
     bio_method (h i) \<noteq> None \<and> bio_init (h i) \<and>
     (case bio_ptr (h i) of None \<Rightarrow> False | Some p \<Rightarrow> mem_inv (mem_rdonly h i) p)"

definition mem_content :: "mem_buf bio_heap \<Rightarrow> nat \<Rightarrow> u8 list" where
  "mem_content h i = mem_bytes (the (bio_ptr (h i)))"

end
