(* ===== verification/Bio_Mem_Correct.thy ===== *)
theory Bio_Mem_Correct
  imports Bio_Mem
begin

text \<open>
  A memory stream of \<open>bio_mem.c\<close> is a queue of bytes: reading takes from the front, writing appends, a line is
  everything up to the first newline. A memory stream keeps the contracts of a byte source and of a byte sink.
\<close>

section \<open>Flags\<close>

lemma rdonly_flags:
  "(f AND NOT kRetryFlags) AND BIO_FLAGS_MEM_RDONLY = f AND BIO_FLAGS_MEM_RDONLY"
  "(f OR (BIO_FLAGS_READ OR BIO_FLAGS_SHOULD_RETRY)) AND BIO_FLAGS_MEM_RDONLY = f AND BIO_FLAGS_MEM_RDONLY"
  by (simp_all add: kRetryFlags_def BIO_FLAGS_RWS_def BIO_FLAGS_READ_def BIO_FLAGS_WRITE_def BIO_FLAGS_IO_SPECIAL_def
      BIO_FLAGS_SHOULD_RETRY_def BIO_FLAGS_MEM_RDONLY_def and.assoc bit.conj_disj_distrib2)

lemmas mem_heap_defs = BIO_clear_retry_flags_def BIO_set_retry_read_def mb_update_def mem_rdonly_def

section \<open>Reading\<close>

lemma length_mem_bytes: "mem_inv ro p \<Longrightarrow> length (mem_bytes p) = bm_length (mb_buf p)"
  by (auto simp: mem_inv_def mem_bytes_def mem_data_def bm_inv_def split: option.splits if_splits)

text \<open>Taking \<open>k\<close> bytes from the front.\<close>

definition mem_take :: "bool \<Rightarrow> nat \<Rightarrow> mem_buf \<Rightarrow> mem_buf" where
  "mem_take rdonly k p =
     (let b = (mb_buf p)\<lparr>bm_length := bm_length (mb_buf p) - k\<rparr>
      in if rdonly then p\<lparr>mb_buf := b, mb_off := mb_off p + k\<rparr>
         else p\<lparr>mb_buf := b\<lparr>bm_data := map_option
                (\<lambda>d. write_at (mb_off p) (take (bm_length b) (drop (mb_off p + k) d)) d) (bm_data b)\<rparr>\<rparr>)"

lemma mem_take:
  assumes "mem_inv ro p" "k \<le> bm_length (mb_buf p)"
  shows "mem_inv ro (mem_take ro k p)" "mem_bytes (mem_take ro k p) = drop k (mem_bytes p)"
proof -
  show "mem_inv ro (mem_take ro k p)"
    using assms by (auto simp: mem_inv_def mem_take_def Let_def bm_inv_def split: option.splits)
  show "mem_bytes (mem_take ro k p) = drop k (mem_bytes p)"
  proof (cases ro)
    case True
    then show ?thesis using assms
      by (auto simp: mem_inv_def mem_take_def Let_def mem_bytes_def mem_data_def drop_take add.commute split: option.splits)
  next
    case False
    then show ?thesis using assms
      by (auto simp: mem_inv_def mem_take_def Let_def mem_bytes_def mem_data_def bm_inv_def write_at_def drop_take
          split: option.splits)
  qed
qed

lemma mem_ok_cases:
  assumes "mem_ok h i"
  obtains p where "bio_ptr (h i) = Some p" "mem_inv (mem_rdonly h i) p" "mem_content h i = mem_bytes p"
    "length (mem_content h i) = bm_length (mb_buf p)" "bio_init (h i)" "bio_method (h i) \<noteq> None"
  using assms length_mem_bytes by (auto simp: mem_ok_def mem_content_def split: option.splits)

lemma mem_read_some:
  assumes "mem_ok h i" "mem_content h i \<noteq> []" "0 < n" "k = min n (length (mem_content h i))"
  shows "\<exists>h'. mem_read h i (int n) = Some (int k, take k (mem_content h i), h') \<and> mem_ok h' i \<and>
     mem_content h' i = drop k (mem_content h i) \<and> mem_rdonly h' i = mem_rdonly h i \<and> bio_num (h' i) = bio_num (h i)"
proof -
  obtain p where p: "bio_ptr (h i) = Some p" "mem_inv (mem_rdonly h i) p" "mem_content h i = mem_bytes p"
      "length (mem_content h i) = bm_length (mb_buf p)" "bio_init (h i)" "bio_method (h i) \<noteq> None"
    using assms(1) by (rule mem_ok_cases)
  define ro where "ro = mem_rdonly h i"
  have k: "0 < k" "k \<le> bm_length (mb_buf p)" using assms p by (auto simp flip: length_greater_0_conv)
  have ret: "(if nat (int n) > bm_length (mb_buf p) then int (bm_length (mb_buf p)) else int n) = int k"
    using assms(4) p(4) by auto
  have ro': "mem_rdonly (BIO_clear_retry_flags i h) i = ro" by (simp add: mem_heap_defs rdonly_flags ro_def)
  have out: "take k (mem_data p) = take k (mem_content h i)" using k p(3) by (simp add: mem_bytes_def min_def)
  have "mem_read h i (int n) = Some (int k, take k (mem_content h i), mb_update i (\<lambda>_. mem_take ro k p) (BIO_clear_retry_flags i h))"
    using assms(3) p(1) k(1) ret out ro'
    by (simp add: mem_read_def Let_def BIO_clear_retry_flags_def mem_take_def)
  then show ?thesis using p mem_take [OF p(2) k(2)] unfolding ro_def [symmetric]
    by (simp add: mem_ok_def mem_content_def mem_heap_defs rdonly_flags) (simp add: ro_def mem_rdonly_def)
qed

lemma mem_read_none:
  assumes "mem_ok h i" "mem_content h i = []" "0 < n"
  shows "\<exists>h'. mem_read h i (int n) = Some (bio_num (h i), [], h') \<and> mem_ok h' i \<and>
     mem_content h' i = [] \<and> mem_rdonly h' i = mem_rdonly h i \<and> bio_num (h' i) = bio_num (h i)"
proof -
  obtain p where p: "bio_ptr (h i) = Some p" "mem_inv (mem_rdonly h i) p" "mem_content h i = mem_bytes p"
      "length (mem_content h i) = bm_length (mb_buf p)" "bio_init (h i)" "bio_method (h i) \<noteq> None"
    using assms(1) by (rule mem_ok_cases)
  then show ?thesis using assms(2,3)
    by (auto simp: mem_read_def Let_def mem_ok_def mem_content_def mem_heap_defs rdonly_flags)
qed

section \<open>Writing\<close>

lemma mem_write_append:
  assumes "mem_ok h i" "length d < size_mod"
  shows "\<exists>r h'. mem_write A h i d = Some (r, h') \<and> mem_ok h' i \<and> (r = int (length d) \<or> r = - 1) \<and>
     mem_content h' i = mem_content h i @ take (nat r) d \<and> mem_rdonly h' i = mem_rdonly h i \<and> bio_num (h' i) = bio_num (h i)"
proof -
  obtain p where p: "bio_ptr (h i) = Some p" "mem_inv (mem_rdonly h i) p" "mem_content h i = mem_bytes p"
      "length (mem_content h i) = bm_length (mb_buf p)" "bio_init (h i)" "bio_method (h i) \<noteq> None"
    using assms(1) by (rule mem_ok_cases)
  show ?thesis
  proof (cases "d = [] \<or> mem_rdonly h i")
    case True
    then show ?thesis using p
      by (auto simp: mem_write_def Let_def mem_ok_def mem_content_def mem_heap_defs rdonly_flags)
  next
    case False
    obtain ok b where b: "BUF_MEM_append A (mb_buf p) d = (ok, b)" by fastforce
    have inv: "bm_inv (mb_buf p)" "mb_off p = 0" using p(2) False by (auto simp: mem_inv_def)
    note ac = append_correct [OF inv(1) assms(2) b]
    have bytes: "mem_bytes (p\<lparr>mb_buf := b\<rparr>) = bm_bytes b" "mem_bytes p = bm_bytes (mb_buf p)"
      using inv by (auto simp: mem_bytes_def mem_data_def bm_bytes_def split: option.splits)
    show ?thesis using False p b ac inv bytes
      by (cases ok) (auto simp: mem_write_def Let_def mem_ok_def mem_content_def mem_heap_defs rdonly_flags mem_inv_def)
  qed
qed

section \<open>Lines\<close>

text \<open>The first line of a byte string: everything up to and including the first newline.\<close>

fun first_line :: "u8 list \<Rightarrow> u8 list" where
  "first_line [] = []"
| "first_line (c # cs) = (if c = 10 then [c] else c # first_line cs)"

lemma memchr_first_line:
  "length (first_line s) = (case memchr s 10 of None \<Rightarrow> length s | Some k \<Rightarrow> k + 1)"
  "first_line s = take (length (first_line s)) s"
  by (induction s rule: first_line.induct) (auto split: option.splits)

lemma memchr_line:
  "(case memchr s 10 of None \<Rightarrow> int (length s) | Some k \<Rightarrow> int k + 1) = int (length (first_line s))"
  by (simp add: memchr_first_line(1) split: option.split)

lemma mem_gets_line:
  assumes "mem_ok h i" "0 < n" "line = first_line (take (n - 1) (mem_content h i))"
  shows "\<exists>h'. mem_gets h i (int n) = Some (int (length line), line @ [0], h') \<and> mem_ok h' i \<and>
     mem_content h i = line @ mem_content h' i \<and> mem_rdonly h' i = mem_rdonly h i \<and> bio_num (h' i) = bio_num (h i)"
proof -
  obtain p where p: "bio_ptr (h i) = Some p" "mem_inv (mem_rdonly h i) p" "mem_content h i = mem_bytes p"
      "length (mem_content h i) = bm_length (mb_buf p)" "bio_init (h i)" "bio_method (h i) \<noteq> None"
    using assms(1) by (rule mem_ok_cases)
  define h1 where "h1 = BIO_clear_retry_flags i h"
  have h1: "mem_ok h1 i" "mem_content h1 i = mem_content h i" "mem_rdonly h1 i = mem_rdonly h i" "bio_num (h1 i) = bio_num (h i)"
      "bio_ptr (h1 i) = Some p"
    using p assms(1) by (auto simp: h1_def mem_ok_def mem_content_def mem_heap_defs rdonly_flags)
  define m where "m = min (n - 1) (bm_length (mb_buf p))"
  have s: "take m (mem_data p) = take (n - 1) (mem_content h i)"
    by (simp add: m_def p(3) mem_bytes_def min.commute)
  have len: "length (take (n - 1) (mem_content h i)) = m" using p(4) by (simp add: m_def min.commute)
  have ret: "(if nat (int n - 1) > bm_length (mb_buf p) then int (bm_length (mb_buf p)) else int n - 1) = int m"
    using assms(2) by (auto simp: m_def)
  have line: "(case memchr (take m (mem_data p)) 10 of None \<Rightarrow> int m | Some nl \<Rightarrow> int nl + 1) = int (length line)"
    using memchr_line [of "take (n - 1) (mem_content h i)"] unfolding s assms(3) len .
  have unf: "mem_gets h i (int n) = do {
      (ret, out, h) \<leftarrow> mem_read h1 i (int (length line));
      Some (ret, if ret \<ge> 0 then write_at (nat ret) [0] out else out, h) }"
    unfolding mem_gets_def Let_def h1_def [symmetric] h1(5) bind.bind_lunit ret nat_int line using assms(2) by simp
  have pre: "line = take (length line) (mem_content h i)" "length line \<le> length (mem_content h i)"
    using memchr_first_line(2) [of "take (n - 1) (mem_content h i)"] assms(3) len
    by (metis (no_types) length_take min.bounded_iff nle_le take_take)+
  show ?thesis
  proof (cases "line = []")
    case True
    then show ?thesis using unf h1 by (auto simp: mem_read_def write_at_def mem_ok_def mem_content_def mem_heap_defs rdonly_flags)
  next
    case False
    then have ne: "mem_content h1 i \<noteq> []" "0 < length line" using pre h1(2) by auto
    have k: "length line = min (length line) (length (mem_content h1 i))" using pre(2) h1(2) by simp
    have "mem_content h i = line @ drop (length line) (mem_content h i)" using pre(1) by (metis append_take_drop_id)
    with mem_read_some [OF h1(1) ne k] unf h1 pre(1)[symmetric] show ?thesis
      by (auto simp: write_at_def)
  qed
qed

section \<open>A memory stream as a source and a sink\<close>

text \<open>The dispatch adds to the counters only.\<close>

lemma mem_counters_rdonly [simp]:
  "mem_rdonly (bio_update k (\<lambda>b. b\<lparr>bio_num_read := f b\<rparr>) h) i = mem_rdonly h i"
  "mem_rdonly (bio_update k (\<lambda>b. b\<lparr>bio_num_write := f b\<rparr>) h) i = mem_rdonly h i"
  by (simp_all add: mem_rdonly_def)

lemma mem_counters [simp]:
  "mem_ok (bio_update k (\<lambda>b. b\<lparr>bio_num_read := f b\<rparr>) h) i = mem_ok h i"
  "mem_content (bio_update k (\<lambda>b. b\<lparr>bio_num_read := f b\<rparr>) h) i = mem_content h i"
  "mem_ok (bio_update k (\<lambda>b. b\<lparr>bio_num_write := f b\<rparr>) h) i = mem_ok h i"
  "mem_content (bio_update k (\<lambda>b. b\<lparr>bio_num_write := f b\<rparr>) h) i = mem_content h i"
  by (simp_all add: mem_ok_def mem_content_def split: option.split)

lemma mem_dispatch:
  assumes "mem_ok h i"
  shows "bio_meth (BIO_s_mem A) h (Some i) meth_bread = Some (i, mem_read)"
    "bio_meth (BIO_s_mem A) h (Some i) meth_bgets = Some (i, mem_gets)"
    "bio_meth (BIO_s_mem A) h (Some i) meth_bwrite = Some (i, mem_write A)"
    "bio_meth (BIO_s_mem A) h (Some i) meth_ctrl = Some (i, mem_ctrl)"
    "bio_init (h i)"
  using assms by (auto simp: mem_ok_def bio_meth_def BIO_s_mem_def mem_method_def)

lemma BIO_read_mem:
  assumes "mem_ok h i" "0 < n" "k = min n (length (mem_content h i))"
  shows "\<exists>h'. BIO_read (BIO_s_mem A) h (Some i) (int n) =
       Some (if mem_content h i = [] then bio_num (h i) else int k, take k (mem_content h i), h') \<and> mem_ok h' i \<and>
     mem_content h' i = drop k (mem_content h i) \<and> mem_rdonly h' i = mem_rdonly h i \<and> bio_num (h' i) = bio_num (h i)"
proof (cases "mem_content h i = []")
  case True
  then show ?thesis using mem_read_none [OF assms(1) True assms(2)] assms(2,3) mem_dispatch [OF assms(1)]
    by (auto simp: BIO_read_def)
next
  case False
  then show ?thesis using mem_read_some [OF assms(1) False assms(2,3)] assms(2) mem_dispatch [OF assms(1)]
    by (auto simp: BIO_read_def)
qed

lemma BIO_write_mem:
  assumes "mem_ok h i" "d \<noteq> []" "length d < size_mod"
  shows "\<exists>r h'. BIO_write (BIO_s_mem A) h (Some i) d = Some (r, h') \<and> mem_ok h' i \<and> (r = int (length d) \<or> r = - 1) \<and>
     mem_content h' i = mem_content h i @ take (nat r) d \<and> mem_rdonly h' i = mem_rdonly h i \<and> bio_num (h' i) = bio_num (h i)"
  using mem_write_append [OF assms(1,3), of A] assms(2) mem_dispatch [OF assms(1)]
  by (auto simp: BIO_write_def)

interpretation mem_source: byte_source "BIO_s_mem A" i "\<lambda>h. mem_ok h i \<and> (bio_num (h i) = 0 \<or> bio_num (h i) = - 1)"
  "\<lambda>h. mem_content h i" for A i
proof
  fix h n
  assume a: "mem_ok h i \<and> (bio_num (h i) = 0 \<or> bio_num (h i) = - 1)" "mem_content h i \<noteq> []" "0 < n" "n \<le> INT_MAX"
  show "\<exists>k h'. BIO_read (BIO_s_mem A) h (Some i) (int n) = Some (int k, take k (mem_content h i), h') \<and> 0 < k \<and> k \<le> n \<and>
      k \<le> length (mem_content h i) \<and> (mem_ok h' i \<and> (bio_num (h' i) = 0 \<or> bio_num (h' i) = - 1)) \<and>
      mem_content h' i = drop k (mem_content h i)"
    using BIO_read_mem [OF conjunct1 [OF a(1)] a(3) refl, of A] a
    by (intro exI [of _ "min n (length (mem_content h i))"]) auto
next
  fix h n
  assume a: "mem_ok h i \<and> (bio_num (h i) = 0 \<or> bio_num (h i) = - 1)" "mem_content h i = []" "0 < n" "n \<le> INT_MAX"
  show "\<exists>r h'. BIO_read (BIO_s_mem A) h (Some i) (int n) = Some (r, [], h') \<and> (r = 0 \<or> r = - 1) \<and>
      (mem_ok h' i \<and> (bio_num (h' i) = 0 \<or> bio_num (h' i) = - 1)) \<and> mem_content h' i = []"
    using BIO_read_mem [OF conjunct1 [OF a(1)] a(3) refl, of A] a by auto
qed

interpretation mem_eof: eof_source "BIO_s_mem A" i "\<lambda>h. mem_ok h i \<and> bio_num (h i) = 0" "\<lambda>h. mem_content h i" for A i
proof
  fix h n
  assume a: "mem_ok h i \<and> bio_num (h i) = 0" "mem_content h i \<noteq> []" "0 < n" "n \<le> INT_MAX"
  show "\<exists>k h'. BIO_read (BIO_s_mem A) h (Some i) (int n) = Some (int k, take k (mem_content h i), h') \<and> 0 < k \<and> k \<le> n \<and>
      k \<le> length (mem_content h i) \<and> (mem_ok h' i \<and> bio_num (h' i) = 0) \<and> mem_content h' i = drop k (mem_content h i)"
    using BIO_read_mem [OF conjunct1 [OF a(1)] a(3) refl, of A] a
    by (intro exI [of _ "min n (length (mem_content h i))"]) auto
next
  fix h n
  assume a: "mem_ok h i \<and> bio_num (h i) = 0" "mem_content h i = []" "0 < n" "n \<le> INT_MAX"
  show "\<exists>r h'. BIO_read (BIO_s_mem A) h (Some i) (int n) = Some (r, [], h') \<and> (r = 0 \<or> r = - 1) \<and>
      (mem_ok h' i \<and> bio_num (h' i) = 0) \<and> mem_content h' i = []"
    using BIO_read_mem [OF conjunct1 [OF a(1)] a(3) refl, of A] a by auto
  show "\<exists>h'. BIO_read (BIO_s_mem A) h (Some i) (int n) = Some (0, [], h')"
    using BIO_read_mem [OF conjunct1 [OF a(1)] a(3) refl, of A] a by auto
qed

interpretation mem_sink: byte_sink "BIO_s_mem A" i "\<lambda>h. mem_ok h i" "\<lambda>h. mem_content h i" for A i
proof
  fix h and d :: "u8 list"
  assume a: "mem_ok h i" "d \<noteq> []" "length d \<le> INT_MAX"
  then have "length d < size_mod" by (simp add: INT_MAX_def size_mod_def)
  from BIO_write_mem [OF a(1,2) this, of A]
  show "\<exists>r h'. BIO_write (BIO_s_mem A) h (Some i) d = Some (r, h') \<and> mem_ok h' i \<and> nat r \<le> length d \<and>
      mem_content h' i = mem_content h i @ take (nat r) d" by auto
qed

section \<open>Creation\<close>

text \<open>A read-only stream delivers the caller's bytes and then the end of file.\<close>

lemma BIO_new_mem_buf_ok:
  assumes "BIO_new_mem_buf A h i (Some buf) len = Some (Some k, h')" "len < 0 \<longrightarrow> 0 \<in> set buf" "nat len \<le> length buf"
  shows "k = i \<and> mem_ok h' i \<and> mem_rdonly h' i \<and> bio_num (h' i) = 0 \<and>
     mem_content h' i = (if len < 0 then takeWhile (\<lambda>c. c \<noteq> 0) buf else take (nat len) buf)"
proof -
  have sz: "strlen buf \<le> length buf" "take (strlen buf) buf = takeWhile (\<lambda>c. c \<noteq> 0) buf"
    by (simp_all add: strlen_def length_takeWhile_le takeWhile_eq_take [symmetric])
  show ?thesis using assms sz
    by (cases "len < 0")
      (auto simp: BIO_new_mem_buf_def BIO_new_def BIO_s_mem_def mem_method_def mem_new_def mb_update_def
        BIO_FLAGS_MEM_RDONLY_def mem_ok_def mem_rdonly_def mem_content_def mem_inv_def mem_bytes_def mem_data_def Let_def BUF_MEM_new_def
        split: option.splits if_splits)
qed

text \<open>A read-only stream can be read again from the start: no read changes the array, and a reset goes back to its beginning.\<close>

definition mem_whole :: "mem_buf bio_heap \<Rightarrow> nat \<Rightarrow> u8 list" where
  "mem_whole h i =
     (case bio_ptr (h i) of
        None \<Rightarrow> []
      | Some p \<Rightarrow> (case bm_data (mb_buf p) of None \<Rightarrow> [] | Some d \<Rightarrow> take (bm_max (mb_buf p)) d))"

lemma BIO_reset_rdonly:
  assumes "mem_ok h i" "mem_rdonly h i"
  shows "\<exists>h'. BIO_reset (BIO_s_mem A) h (Some i) = Some (1, h') \<and> mem_ok h' i \<and> mem_content h' i = mem_whole h i"
proof -
  obtain p where p: "bio_ptr (h i) = Some p" "mem_inv (mem_rdonly h i) p" "mem_content h i = mem_bytes p"
      "length (mem_content h i) = bm_length (mb_buf p)" "bio_init (h i)" "bio_method (h i) \<noteq> None"
    using assms(1) by (rule mem_ok_cases)
  have "mem_inv True p" "c_int 1 = 1" using p(2) assms(2) by (simp_all add: c_int_def)
  then show ?thesis using p assms(2) mem_dispatch(4) [OF assms(1), of A]
    by (auto simp: BIO_reset_def ctrl_int_def BIO_ctrl_def mem_ctrl_def BIO_CTRL_RESET_def mem_reset_def mb_update_def
        mem_ok_def mem_rdonly_def mem_content_def mem_whole_def mem_inv_def mem_bytes_def mem_data_def Let_def split: option.splits)
qed

end
