(* ===== verification/Stream_Props.thy ===== *)
theory Stream_Props
  imports Bio_Channel Bio_Mem_Correct
begin

text \<open>
  The properties of the streams: pairs as reliable channels, memory streams as queues and lines, and the readers of
  \<open>bio.c\<close> on both, each with a witness on concrete streams.
\<close>

section \<open>Concrete streams\<close>

definition stream_alloc :: allocator where
  "stream_alloc = \<lparr>malloc_ok = (\<lambda>_. True), fresh = (\<lambda>_. 0)\<rparr>"

definition blank_bio :: "'p BIO" where
  "blank_bio = \<lparr>bio_method = None, bio_init = False, bio_shutdown = 0, bio_flags = 0, bio_retry_reason = 0, bio_num = 0,
     bio_references = 0, bio_ptr = None, bio_next = None, bio_num_read = 0, bio_num_write = 0\<rparr>"

lemma stream_malloc: "n < size_mod - 8 \<Longrightarrow> OPENSSL_malloc stream_alloc n = Some (replicate n 0)"
  by (simp add: OPENSSL_malloc_def stream_alloc_def OPENSSL_MALLOC_PREFIX_def size_add_exact size_mod_def map_replicate_const)

text \<open>Two ends with buffers of three and two bytes.\<close>

definition demo_pair :: "bio_bio_st bio_heap" where
  "demo_pair = snd (the (BIO_new_bio_pair stream_alloc (\<lambda>_. blank_bio) 2 3 3 2))"

lemma demo_pair_new: "BIO_new_bio_pair stream_alloc (\<lambda>_. blank_bio) 2 3 3 2 = Some (Some (2, 3), demo_pair)"
proof -
  have "fst (the (BIO_new_bio_pair stream_alloc (\<lambda>_. blank_bio) 2 3 3 2)) = Some (2, 3)"
    by (simp add: BIO_new_bio_pair_def BIO_new_def bio_s_bio_def methods_biop_def bio_new_def OPENSSL_zalloc_def stream_malloc
        sizeof_BIO_def sizeof_bio_bio_st_def size_mod_def bio_make_pair_def make_buf_def bb_update_def Let_def)
  moreover obtain res h' where "BIO_new_bio_pair stream_alloc (\<lambda>_. blank_bio) 2 3 3 2 = Some (res, h')"
    using BIO_new_bio_pair_correct [of 2 3 3 2 stream_alloc "\<lambda>_. blank_bio"] by (auto simp: size_mod_def)
  ultimately show ?thesis by (simp add: demo_pair_def)
qed

lemma demo_pair_facts: "pair_inv 2 3 demo_pair"
  "chan_of demo_pair 2 = \<lparr>ch_queue = [], ch_cap = 3, ch_closed = False\<rparr>"
  "chan_of demo_pair 3 = \<lparr>ch_queue = [], ch_cap = 2, ch_closed = False\<rparr>"
  using BIO_new_bio_pair_correct [of 2 3 3 2 stream_alloc "\<lambda>_. blank_bio"] demo_pair_new by (auto simp: size_mod_def)

section \<open>Pairs\<close>

definition empty_log :: pair_log where
  "empty_log = \<lparr>log_sent = (\<lambda>_. []), log_recv = (\<lambda>_. [])\<rparr>"

text \<open>C11: a new pair is a reliable channel in both directions. Whatever writes, reads and shutdowns happen at its two ends
  and in whatever order, no assertion of the code fails and every loop ends; and the bytes accepted from either end are
  those received at the other, in order, followed by those still in the ring buffer.\<close>

theorem pair_is_reliable_channel:
  assumes "i \<noteq> j" "2 * n < size_mod" "2 * m < size_mod" "BIO_new_bio_pair A h i n j m = Some (Some ends, h0)"
    "\<forall>op \<in> set ops. op_fits op"
  shows "\<exists>h' log. pair_run i j ops (h0, empty_log) = Some (h', log) \<and> pair_inv i j h' \<and>
    log_sent log True = log_recv log False @ ch_queue (chan_of h' i) \<and>
    log_sent log False = log_recv log True @ ch_queue (chan_of h' j)"
proof -
  have new: "pair_inv i j h0" "ch_queue (chan_of h0 i) = []" "ch_queue (chan_of h0 j) = []"
    using BIO_new_bio_pair_correct [OF assms(1-3), of A h] assms(4) by auto
  then have "in_transit i j (h0, empty_log)" by (auto simp: in_transit_def empty_log_def pair_end_def)
  with pair_run_correct [of i j "(h0, empty_log)" ops] new(1) assms(5) obtain s' where
    s': "pair_run i j ops (h0, empty_log) = Some s'" "pair_inv i j (fst s')" "in_transit i j s'" by auto
  then show ?thesis by (cases s') (auto simp: in_transit_iff [of _ _ _ True] pair_end_def)
qed

theorem pair_is_reliable_channel_witness:
  "\<exists>h' log. pair_run 2 3 [Op_write True [1, 2, 3, 4], Op_read False 2, Op_shutdown True, Op_read False 9] (demo_pair, empty_log) =
      Some (h', log) \<and> log_sent log True = log_recv log False @ ch_queue (chan_of h' 2)"
  using pair_is_reliable_channel [OF _ _ _ demo_pair_new,
      of "[Op_write True [1, 2, 3, 4], Op_read False 2, Op_shutdown True, Op_read False 9]"]
  by (auto simp: size_mod_def INT_MAX_def)

text \<open>C29: the operations on an end of a pair are those of a bounded channel. A write appends as many bytes as fit and returns
  their number, or -1 when the buffer is full or was shut down; a read takes from the front of what the peer has written,
  returns 0 at the end of a channel that was shut down and -1 when it has to wait; and neither touches the other direction.\<close>

theorem pair_operations_refine_channel:
  assumes "pair_inv i j h" "n \<le> INT_MAX"
  shows "(\<exists>h'. BIO_write bio_s_bio h (Some i) d = Some (fst (chan_write d (chan_of h i)), h') \<and> pair_inv i j h' \<and>
      chan_of h' i = snd (chan_write d (chan_of h i)) \<and> chan_of h' j = chan_of h j) \<and>
    (\<exists>h'. BIO_read bio_s_bio h (Some i) (int n) =
      Some (fst (chan_read n (chan_of h j)), fst (snd (chan_read n (chan_of h j))), h') \<and> pair_inv i j h' \<and>
      chan_of h' j = snd (snd (chan_read n (chan_of h j))) \<and> chan_of h' i = chan_of h i) \<and>
    (\<exists>h'. BIO_shutdown_wr h (Some i) = Some (1, h') \<and> pair_inv i j h' \<and>
      chan_of h' i = chan_close (chan_of h i) \<and> chan_of h' j = chan_of h j)"
  using BIO_write_refines [OF assms(1)] BIO_read_refines [OF assms] BIO_shutdown_wr_refines [OF assms(1)] by blast

theorem pair_operations_refine_channel_witness:
  "\<exists>h'. BIO_write bio_s_bio demo_pair (Some 2) [7, 8, 9, 10] = Some (3, h') \<and> ch_queue (chan_of h' 2) = [7, 8, 9]"
  using pair_operations_refine_channel [OF demo_pair_facts(1), of 0 "[7, 8, 9, 10]"] demo_pair_facts(2)
  by (auto simp: chan_write_def Let_def)

section \<open>Reading elements\<close>

text \<open>\<open>BIO_read_asn1\<close> on an end of a pair always returns. It only takes bytes from the front of the stream, and
  what it delivers are exactly these bytes: the next reader goes on right after the element.\<close>

theorem pair_read_asn1_returns:
  assumes "pair_inv i j h" "max_len < size_mod"
  shows "\<exists>res h'. BIO_read_asn1 A bio_s_bio h (Some i) max_len = Some (res, h') \<and> pair_inv i j h' \<and>
    (\<exists>c. ch_queue (chan_of h j) = c @ ch_queue (chan_of h' j)) \<and>
    (\<forall>out. res = Inr out \<longrightarrow> ch_queue (chan_of h j) = out @ ch_queue (chan_of h' j))"
  using pair_source.read_asn1_total [OF assms, of A] by (auto simp: delivered_def)

theorem pair_read_asn1_returns_witness:
  "\<exists>res h'. BIO_read_asn1 stream_alloc bio_s_bio demo_pair (Some 2) 100 = Some (res, h') \<and> pair_inv 2 3 h'"
  using pair_read_asn1_returns [OF demo_pair_facts(1), of 100 stream_alloc] by (auto simp: size_mod_def)

text \<open>C30: on a read-only memory stream that starts with a DER element of a low tag number, \<open>BIO_read_asn1\<close> delivers this
  element and leaves the rest, provided that it is no longer than the limit and memory is granted.\<close>

theorem mem_read_asn1_exact:
  assumes "BIO_new_mem_buf A h i (Some (der_tlv tag body @ rest)) (int (length (der_tlv tag body @ rest))) = Some (Some k, h0)"
    "tag_num tag < 31" "length body \<le> INT_MAX" "length (der_tlv tag body) \<le> max_len"
    "OPENSSL_malloc A (length (der_tlv tag body)) \<noteq> None"
  shows "\<exists>h'. BIO_read_asn1 A (BIO_s_mem A) h0 (Some k) max_len = Some (Inr (der_tlv tag body), h') \<and> mem_content h' k = rest"
proof -
  have new: "k = i" "mem_ok h0 i" "bio_num (h0 i) = 0" "mem_content h0 i = der_tlv tag body @ rest"
    using BIO_new_mem_buf_ok [OF assms(1)] by auto
  with mem_eof.read_asn1_der [OF _ new(4) assms(2-5)] show ?thesis by auto
qed

lemma demo_mem_new: "BIO_new_mem_buf stream_alloc (\<lambda>_. blank_bio) 0 (Some buf) (int (length buf)) =
    Some (Some 0, snd (the (BIO_new_mem_buf stream_alloc (\<lambda>_. blank_bio) 0 (Some buf) (int (length buf)))))"
  by (simp add: BIO_new_mem_buf_def BIO_new_def BIO_s_mem_def mem_method_def mem_new_def BUF_MEM_new_def OPENSSL_zalloc_def
      stream_malloc sizeof_BIO_def sizeof_BUF_MEM_def size_mod_def Let_def)

lemma demo_tlv: "der_tlv 4 [5, 6] = [4, 2, 5, 6]" "tag_num 4 = 4"
  by (simp_all add: der_tlv_def der_tag_def der_length_def tag_class_def tag_num_def)

theorem mem_read_asn1_exact_witness:
  "\<exists>h0 h'. BIO_new_mem_buf stream_alloc (\<lambda>_. blank_bio) 0 (Some [4, 2, 5, 6, 7]) 5 = Some (Some 0, h0) \<and>
     BIO_read_asn1 stream_alloc (BIO_s_mem stream_alloc) h0 (Some 0) 100 = Some (Inr [4, 2, 5, 6], h') \<and> mem_content h' 0 = [7]"
  using mem_read_asn1_exact [of stream_alloc "\<lambda>_. blank_bio" 0 4 "[5, 6]" "[7]" 0 _ 100]
    demo_mem_new [of "[4, 2, 5, 6, 7]"]
  by (auto simp: demo_tlv stream_malloc size_mod_def INT_MAX_def)

text \<open>an element of indefinite length takes the whole of a stream whose writer has shut down. It is delivered exactly when
  it is shorter than the limit, when memory is granted.\<close>

theorem closed_pair_read_indefinite:
  assumes "pair_inv i j h" "ch_closed (chan_of h j)" "ch_queue (chan_of h j) = tag # 0x80 # rest"
    "tag AND 0x1f \<noteq> 0x1f" "tag AND 0x20 \<noteq> 0" "max_len < size_mod" "\<forall>n \<le> max_len. OPENSSL_malloc A n \<noteq> None"
  shows "\<exists>h'. BIO_read_asn1 A bio_s_bio h (Some i) max_len =
    Some (if length (tag # 0x80 # rest) < max_len then Inr (tag # 0x80 # rest) else Inl ASN1_R_NOT_ENOUGH_DATA, h') \<and> pair_inv i j h'"
  using closed_pair.read_asn1_indefinite [OF conjI [OF assms(1,2)] assms(3-7)] assms(3) by auto

theorem closed_pair_read_indefinite_witness:
  "\<exists>h h'. pair_inv 2 3 h \<and> ch_queue (chan_of h 3) = [0x30, 0x80] \<and>
     BIO_read_asn1 stream_alloc bio_s_bio h (Some 2) 100 = Some (Inr [0x30, 0x80], h')"
proof -
  have "pair_inv 3 2 demo_pair" using demo_pair_facts(1) pair_inv_sym by blast
  from BIO_write_refines [OF this, of "[0x30, 0x80]"] obtain h1 where
    h1: "pair_inv 3 2 h1" "ch_queue (chan_of h1 3) = [0x30, 0x80]"
    by (auto simp: chan_write_def demo_pair_facts(3) Let_def)
  from BIO_shutdown_wr_refines [OF h1(1)] h1(2) obtain h where
    h: "pair_inv 2 3 h" "ch_closed (chan_of h 3)" "ch_queue (chan_of h 3) = [0x30, 0x80]"
    using pair_inv_sym [of 3 2] by (auto simp: chan_close_def)
  have "\<forall>n \<le> 100. OPENSSL_malloc stream_alloc n \<noteq> None" by (simp add: stream_malloc size_mod_def)
  with closed_pair_read_indefinite [OF h(1-3) _ _ _ this] h show ?thesis by (auto simp: size_mod_def)
qed

section \<open>Memory streams\<close>

text \<open>\<open>BIO_gets\<close> on a memory stream delivers the first line, with its newline and a terminating zero, cut to the
  buffer, and the stream goes on after it.\<close>

theorem mem_gets_first_line:
  assumes "mem_ok h i" "0 < n"
  shows "\<exists>h'. BIO_gets (BIO_s_mem A) h (Some i) (int n) =
      Some (int (length (first_line (take (n - 1) (mem_content h i)))), first_line (take (n - 1) (mem_content h i)) @ [0], h') \<and>
    mem_ok h' i \<and> mem_content h i = first_line (take (n - 1) (mem_content h i)) @ mem_content h' i"
  using mem_gets_line [OF assms refl] assms(2) mem_dispatch [OF assms(1)] by (auto simp: BIO_gets_def)

theorem mem_gets_first_line_witness:
  "\<exists>h h'. mem_content h 0 = [65, 10, 66] \<and>
     BIO_gets (BIO_s_mem stream_alloc) h (Some 0) 80 = Some (2, [65, 10, 0], h') \<and> mem_content h' 0 = [66]"
proof -
  obtain h where h: "mem_ok h 0" "mem_content h 0 = [65, 10, 66]"
    using BIO_new_mem_buf_ok [OF demo_mem_new [of "[65, 10, 66]"]] by auto
  have "first_line (take 79 [65, 10, 66]) = [65, 10]" by simp
  then show ?thesis using mem_gets_first_line [OF h(1), of 80 stream_alloc] h(2) by auto
qed

text \<open>what is written to a growing memory stream is read back. \<open>BIO_write_all\<close> appends a prefix of the data, all of it
  exactly when it reports success, and a later read returns the content from the front.\<close>

theorem mem_write_then_read:
  assumes "mem_ok h i" "0 < n"
  shows "\<exists>k h' h''. BIO_write_all (BIO_s_mem A) h (Some i) d = Some (k = length d, h') \<and> k \<le> length d \<and>
    BIO_read (BIO_s_mem A) h' (Some i) (int n) =
      Some (if mem_content h i @ take k d = [] then bio_num (h' i) else int (min n (length (mem_content h i @ take k d))),
            take n (mem_content h i @ take k d), h'') \<and>
    mem_content h'' i = drop n (mem_content h i @ take k d)"
proof -
  obtain k h' where w: "BIO_write_all (BIO_s_mem A) h (Some i) d = Some (k = length d, h')" "mem_ok h' i" "k \<le> length d"
      "mem_content h' i = mem_content h i @ take k d"
    using mem_sink.write_all [OF assms(1)] by blast
  define s where "s = mem_content h i @ take k d"
  have m: "take (min n (length s)) s = take n s" "drop (min n (length s)) s = drop n s" by (simp_all add: min_def)
  obtain h'' where r: "BIO_read (BIO_s_mem A) h' (Some i) (int n) =
      Some (if s = [] then bio_num (h' i) else int (min n (length s)), take n s, h'')" "mem_content h'' i = drop n s"
    using BIO_read_mem [OF w(2) assms(2) refl, of A] unfolding w(4) s_def [symmetric] m by blast
  show ?thesis using w(1,3) r unfolding s_def by blast
qed

definition demo_growing :: "mem_buf bio_heap" where
  "demo_growing = snd (BIO_new stream_alloc (BIO_s_mem stream_alloc) (\<lambda>_. blank_bio) 2 0)"

lemma demo_growing_facts: "mem_ok demo_growing 2" "mem_content demo_growing 2 = []"
  by (simp_all add: demo_growing_def BIO_new_def BIO_s_mem_def mem_method_def mem_new_def BUF_MEM_new_def OPENSSL_zalloc_def
      stream_malloc sizeof_BIO_def sizeof_BUF_MEM_def size_mod_def Let_def mem_ok_def mem_rdonly_def mem_inv_def bm_inv_def
      mem_content_def mem_bytes_def mem_data_def)

theorem mem_write_then_read_witness:
  "\<exists>(k :: nat) r h' h''. BIO_write_all (BIO_s_mem stream_alloc) demo_growing (Some 2) [1, 2, 3] = Some (k = 3, h') \<and>
     BIO_read (BIO_s_mem stream_alloc) h' (Some 2) 2 = Some (r, take 2 (take k [1, 2, 3]), h'')"
proof -
  obtain k h' h'' where w: "BIO_write_all (BIO_s_mem stream_alloc) demo_growing (Some 2) [1, 2, 3] = Some (k = length [1, 2, 3 :: u8], h')"
      "BIO_read (BIO_s_mem stream_alloc) h' (Some 2) (int 2) =
       Some (if [] @ take k [1, 2, 3] = [] then bio_num (h' 2) else int (min 2 (length ([] @ take k [1, 2, 3 :: u8]))),
             take 2 ([] @ take k [1, 2, 3]), h'')"
    using mem_write_then_read [OF demo_growing_facts(1), of 2 stream_alloc "[1, 2, 3]"] unfolding demo_growing_facts(2) by fastforce
  have l: "length [1, 2, 3 :: u8] = 3" by simp
  show ?thesis using w unfolding l of_nat_numeral append_Nil by blast
qed

text \<open>\<open>BIO_new_mem_buf\<close> reads the length of a null string before it tests for the null pointer: with a null pointer
  and a negative length the call does not report \<open>BIO_R_NULL_PARAMETER\<close> but follows the pointer, while with a positive
  length it returns null.\<close>

theorem new_mem_buf_null:
  "BIO_new_mem_buf A h i None (- 1) = None \<and> BIO_new_mem_buf A h i None 1 = Some (None, h)"
  by (simp add: BIO_new_mem_buf_def)

end
