(* ===== verification/Err.thy ===== *)
theory Err
  imports Mem
begin

text \<open>
  \<open>crypto/err/err.c\<close>: the error queue of a thread, a ring of \<open>ERR_NUM_ERRORS\<close> entries, and the texts of errors.

  The thread-local slot holds the state of the thread, \<open>None\<close> until the first use. The system's \<open>malloc\<close>, whether the
  slot can be set, and \<open>errno\<close> are the platform \<open>E\<close>. A C string is the array that holds it, with its zero byte. The
  texts of \<open>strerror\<close> and the generated tables of reason strings are the argument \<open>T\<close>.
\<close>

section \<open>State\<close>

record err_error_st =
  err_file :: "u8 list option"
  err_data :: "u8 list option"
  err_packed :: u32
  err_line :: u16
  err_mark :: bool

record ERR_STATE =
  es_errors :: "err_error_st list"
  es_top :: nat
  es_bottom :: nat
  es_to_free :: "u8 list option"

record err_env =
  env_malloc_ok :: "nat \<Rightarrow> bool"
  env_set_ok :: bool
  env_errno :: int

definition ERR_NUM_ERRORS :: nat where
  "ERR_NUM_ERRORS = 16"

definition sizeof_ERR_STATE :: nat where
  "sizeof_ERR_STATE = 400"

definition sizeof_err_error_st :: nat where
  "sizeof_err_error_st = 24"

definition err_zero :: err_error_st where
  "err_zero = \<lparr>err_file = None, err_data = None, err_packed = 0, err_line = 0, err_mark = False\<rparr>"

definition strdup_libc_malloc :: "err_env \<Rightarrow> u8 list \<Rightarrow> u8 list option" where
  "strdup_libc_malloc E str =
     (if env_malloc_ok E (strlen str + 1) then Some (take (strlen str + 1) str) else None)"

definition err_clear :: "err_error_st \<Rightarrow> err_error_st" where
  "err_clear error = err_zero"

definition err_copy :: "err_env \<Rightarrow> err_error_st \<Rightarrow> err_error_st \<Rightarrow> err_error_st" where
  "err_copy E dst src =
     (let dst = (err_clear dst)\<lparr>err_file := err_file src\<rparr>;
          dst = (case err_data src of None \<Rightarrow> dst | Some d \<Rightarrow> dst\<lparr>err_data := strdup_libc_malloc E d\<rparr>)
      in dst\<lparr>err_packed := err_packed src, err_line := err_line src\<rparr>)"

definition err_state_zero :: ERR_STATE where
  "err_state_zero = \<lparr>es_errors = replicate ERR_NUM_ERRORS err_zero, es_top = 0, es_bottom = 0, es_to_free = None\<rparr>"

definition err_get_state :: "err_env \<Rightarrow> ERR_STATE option \<Rightarrow> ERR_STATE option" where
  "err_get_state E slot =
     (case slot of
        Some state \<Rightarrow> Some state
      | None \<Rightarrow>
          if \<not> env_malloc_ok E sizeof_ERR_STATE then None
          else if \<not> env_set_ok E then None
          else Some err_state_zero)"

definition upd_error :: "nat \<Rightarrow> (err_error_st \<Rightarrow> err_error_st) \<Rightarrow> ERR_STATE \<Rightarrow> ERR_STATE" where
  "upd_error i f state = state\<lparr>es_errors := (es_errors state)[i := f (es_errors state ! i)]\<rparr>"

section \<open>Reading the queue\<close>

text \<open>What is stored through the output pointers: file and line, data, flags.\<close>

record err_out =
  eo_line :: "(u8 list \<times> int) option"
  eo_data :: "u8 list option"
  eo_flags :: "int option"

definition err_no_out :: err_out where
  "err_no_out = \<lparr>eo_line = None, eo_data = None, eo_flags = None\<rparr>"

definition ERR_FLAG_STRING :: int where
  "ERR_FLAG_STRING = 1"

definition ERR_FLAG_MALLOCED :: int where
  "ERR_FLAG_MALLOCED = 2"

text \<open>The branch for the data of \<open>get_error_values\<close>.\<close>

definition take_error_data :: "bool \<Rightarrow> nat \<Rightarrow> bool \<Rightarrow> ERR_STATE \<Rightarrow> u8 list \<times> int option \<times> ERR_STATE" where
  "take_error_data inc i flags state =
     (case err_data (es_errors state ! i) of
        None \<Rightarrow> ([0], if flags then Some 0 else None, state)
      | Some d \<Rightarrow>
          (d, if flags then Some (ERR_FLAG_STRING + ERR_FLAG_MALLOCED) else None,
           if inc then upd_error i (\<lambda>e. e\<lparr>err_data := None\<rparr>) (state\<lparr>es_to_free := Some d\<rparr>) else state))"

text \<open>\<open>inc\<close> and \<open>newest\<close> select the entry; the other three tell which output pointers are not null.\<close>

definition get_error_values ::
  "err_env \<Rightarrow> ERR_STATE option \<Rightarrow> bool \<Rightarrow> bool \<Rightarrow> bool \<Rightarrow> bool \<Rightarrow> bool \<Rightarrow> u32 \<times> err_out \<times> ERR_STATE option" where
  "get_error_values E slot inc newest file data flags =
     (case err_get_state E slot of
        None \<Rightarrow> (0, err_no_out, slot)
      | Some state \<Rightarrow>
          if es_bottom state = es_top state then (0, err_no_out, Some state)
          else
            (let i = (if newest then es_top state else (es_bottom state + 1) mod ERR_NUM_ERRORS);
                 error = es_errors state ! i;
                 ret = err_packed error;
                 out = (if file
                        then err_no_out\<lparr>eo_line := Some (case err_file error of None \<Rightarrow> ([78, 65, 0], 0)
                                                         | Some f \<Rightarrow> (f, int (unat (err_line error))))\<rparr>
                        else err_no_out);
                 (out, state) =
                   (if data
                    then (let (d, fl, state) = take_error_data inc i flags state
                          in (out\<lparr>eo_data := Some d, eo_flags := fl\<rparr>, state))
                    else (out, state));
                 state = (if inc then (upd_error i err_clear state)\<lparr>es_bottom := i\<rparr> else state)
             in (ret, out, Some state)))"

definition ERR_get_error :: "err_env \<Rightarrow> ERR_STATE option \<Rightarrow> u32 \<times> ERR_STATE option" where
  "ERR_get_error E slot = (case get_error_values E slot True False False False False of (r, _, s) \<Rightarrow> (r, s))"

definition ERR_get_error_line :: "err_env \<Rightarrow> ERR_STATE option \<Rightarrow> u32 \<times> err_out \<times> ERR_STATE option" where
  "ERR_get_error_line E slot = get_error_values E slot True False True False False"

definition ERR_get_error_line_data :: "err_env \<Rightarrow> ERR_STATE option \<Rightarrow> u32 \<times> err_out \<times> ERR_STATE option" where
  "ERR_get_error_line_data E slot = get_error_values E slot True False True True True"

definition ERR_peek_error :: "err_env \<Rightarrow> ERR_STATE option \<Rightarrow> u32 \<times> ERR_STATE option" where
  "ERR_peek_error E slot = (case get_error_values E slot False False False False False of (r, _, s) \<Rightarrow> (r, s))"

definition ERR_peek_error_line :: "err_env \<Rightarrow> ERR_STATE option \<Rightarrow> u32 \<times> err_out \<times> ERR_STATE option" where
  "ERR_peek_error_line E slot = get_error_values E slot False False True False False"

definition ERR_peek_error_line_data :: "err_env \<Rightarrow> ERR_STATE option \<Rightarrow> u32 \<times> err_out \<times> ERR_STATE option" where
  "ERR_peek_error_line_data E slot = get_error_values E slot False False True True True"

definition ERR_peek_last_error :: "err_env \<Rightarrow> ERR_STATE option \<Rightarrow> u32 \<times> ERR_STATE option" where
  "ERR_peek_last_error E slot = (case get_error_values E slot False True False False False of (r, _, s) \<Rightarrow> (r, s))"

definition ERR_peek_last_error_line :: "err_env \<Rightarrow> ERR_STATE option \<Rightarrow> u32 \<times> err_out \<times> ERR_STATE option" where
  "ERR_peek_last_error_line E slot = get_error_values E slot False True True False False"

definition ERR_peek_last_error_line_data :: "err_env \<Rightarrow> ERR_STATE option \<Rightarrow> u32 \<times> err_out \<times> ERR_STATE option" where
  "ERR_peek_last_error_line_data E slot = get_error_values E slot False True True True True"

definition ERR_clear_error :: "err_env \<Rightarrow> ERR_STATE option \<Rightarrow> ERR_STATE option" where
  "ERR_clear_error E slot =
     (case err_get_state E slot of
        None \<Rightarrow> slot
      | Some state \<Rightarrow>
          Some (state\<lparr>es_errors := map err_clear (es_errors state), es_to_free := None, es_top := 0, es_bottom := 0\<rparr>))"

definition ERR_remove_state :: "err_env \<Rightarrow> ERR_STATE option \<Rightarrow> ERR_STATE option" where
  "ERR_remove_state E slot = ERR_clear_error E slot"

text \<open>The next free library number, a signed counter that starts at \<open>ERR_NUM_LIBS\<close>.\<close>

definition ERR_NUM_LIBS :: nat where
  "ERR_NUM_LIBS = 34"

definition ERR_get_next_error_library :: "int \<Rightarrow> int \<times> int" where
  "ERR_get_next_error_library global_next_library = (global_next_library, global_next_library + 1)"

section \<open>Adding errors\<close>

definition ERR_LIB_SYS :: int where
  "ERR_LIB_SYS = 2"

definition ERR_PACK :: "int \<Rightarrow> int \<Rightarrow> u32" where
  "ERR_PACK lib reason = push_bit 24 (word_of_int lib AND 0xff) OR (word_of_int reason AND 0xfff)"

definition ERR_GET_LIB :: "u32 \<Rightarrow> nat" where
  "ERR_GET_LIB packed_error = unat (drop_bit 24 packed_error AND 0xff)"

definition ERR_GET_REASON :: "u32 \<Rightarrow> nat" where
  "ERR_GET_REASON packed_error = unat (packed_error AND 0xfff)"

definition err_set_error_data :: "err_env \<Rightarrow> u8 list \<Rightarrow> ERR_STATE option \<Rightarrow> ERR_STATE option" where
  "err_set_error_data E data slot =
     (case err_get_state E slot of
        None \<Rightarrow> slot
      | Some state \<Rightarrow>
          if es_top state = es_bottom state then Some state
          else Some (upd_error (es_top state) (\<lambda>e. e\<lparr>err_data := Some data\<rparr>) state))"

definition ERR_put_error :: "err_env \<Rightarrow> int \<Rightarrow> int \<Rightarrow> u8 list \<Rightarrow> nat \<Rightarrow> ERR_STATE option \<Rightarrow> ERR_STATE option" where
  "ERR_put_error E library reason file line slot =
     (case err_get_state E slot of
        None \<Rightarrow> slot
      | Some state \<Rightarrow>
          (let reason = (if library = ERR_LIB_SYS \<and> reason = 0 then env_errno E else reason);
               state = state\<lparr>es_top := (es_top state + 1) mod ERR_NUM_ERRORS\<rparr>;
               state = (if es_top state = es_bottom state
                        then state\<lparr>es_bottom := (es_bottom state + 1) mod ERR_NUM_ERRORS\<rparr> else state)
           in Some (upd_error (es_top state)
                (\<lambda>e. (err_clear e)\<lparr>err_file := Some file, err_line := word_of_nat line, err_packed := ERR_PACK library reason\<rparr>)
                state)))"

text \<open>The sum of the lengths, \<open>None\<close> when it would overflow.\<close>

fun vdata_size :: "nat \<Rightarrow> u8 list option list \<Rightarrow> nat option" where
  "vdata_size total_size [] = Some total_size"
| "vdata_size total_size (None # args) = vdata_size total_size args"
| "vdata_size total_size (Some substr # args) =
     (if size_mod - 1 - total_size < strlen substr then None else vdata_size (total_size + strlen substr) args)"

text \<open>\<open>None\<close> when the assertion after \<open>OPENSSL_strlcat\<close> fails.\<close>

fun vdata_copy :: "u8 list \<Rightarrow> u8 list option list \<Rightarrow> nat \<Rightarrow> u8 list option" where
  "vdata_copy buf [] total_size = Some buf"
| "vdata_copy buf (None # args) total_size = vdata_copy buf args total_size"
| "vdata_copy buf (Some substr # args) total_size =
     (case OPENSSL_strlcat buf substr total_size of
        (buf, l) \<Rightarrow> if l \<ge> total_size then None else vdata_copy buf args total_size)"

text \<open>\<open>junk\<close> is what the block that \<open>malloc\<close> returns holds.\<close>

definition err_add_error_vdata ::
  "err_env \<Rightarrow> (nat \<Rightarrow> u8) \<Rightarrow> u8 list option list \<Rightarrow> ERR_STATE option \<Rightarrow> ERR_STATE option option" where
  "err_add_error_vdata E junk args slot =
     (case vdata_size 0 args of
        None \<Rightarrow> Some slot
      | Some total_size \<Rightarrow>
          if total_size = size_mod - 1 then Some slot
          else if \<not> env_malloc_ok E (total_size + 1) then Some slot
          else
            (let buf = (map junk [0..<total_size + 1])[0 := 0]
             in map_option (\<lambda>buf. err_set_error_data E buf slot) (vdata_copy buf args (total_size + 1))))"

definition ERR_add_error_data ::
  "err_env \<Rightarrow> (nat \<Rightarrow> u8) \<Rightarrow> u8 list option list \<Rightarrow> ERR_STATE option \<Rightarrow> ERR_STATE option option" where
  "ERR_add_error_data E junk args slot = err_add_error_vdata E junk args slot"

definition ERR_set_error_data :: "err_env \<Rightarrow> u8 list \<Rightarrow> int \<Rightarrow> ERR_STATE option \<Rightarrow> ERR_STATE option option" where
  "ERR_set_error_data E data flags slot =
     (if flags AND ERR_FLAG_STRING = 0 then None
      else case strdup_libc_malloc E data of
        None \<Rightarrow> Some slot
      | Some copy \<Rightarrow> Some (err_set_error_data E copy slot))"

section \<open>Marks\<close>

definition ERR_set_mark :: "err_env \<Rightarrow> ERR_STATE option \<Rightarrow> bool \<times> ERR_STATE option" where
  "ERR_set_mark E slot =
     (case err_get_state E slot of
        None \<Rightarrow> (False, slot)
      | Some state \<Rightarrow>
          if es_bottom state = es_top state then (False, Some state)
          else (True, Some (upd_error (es_top state) (\<lambda>e. e\<lparr>err_mark := True\<rparr>) state)))"

partial_function (option) pop_loop :: "ERR_STATE \<Rightarrow> (bool \<times> ERR_STATE) option" where
  "pop_loop state =
     (if es_bottom state \<noteq> es_top state then
        (if err_mark (es_errors state ! es_top state)
         then Some (True, upd_error (es_top state) (\<lambda>e. e\<lparr>err_mark := False\<rparr>) state)
         else
           (let state = upd_error (es_top state) err_clear state
            in pop_loop (state\<lparr>es_top := (if es_top state = 0 then ERR_NUM_ERRORS - 1 else es_top state - 1)\<rparr>)))
      else Some (False, state))"

definition ERR_pop_to_mark :: "err_env \<Rightarrow> ERR_STATE option \<Rightarrow> (bool \<times> ERR_STATE option) option" where
  "ERR_pop_to_mark E slot =
     (case err_get_state E slot of
        None \<Rightarrow> Some (False, slot)
      | Some state \<Rightarrow> map_option (\<lambda>(r, s). (r, Some s)) (pop_loop state))"

section \<open>Saving and restoring\<close>

type_synonym ERR_SAVE_STATE = "err_error_st list"

definition ERR_save_state :: "err_env \<Rightarrow> ERR_STATE option \<Rightarrow> ERR_SAVE_STATE option \<times> ERR_STATE option" where
  "ERR_save_state E slot =
     (case err_get_state E slot of
        None \<Rightarrow> (None, slot)
      | Some state \<Rightarrow>
          if es_top state = es_bottom state then (None, Some state)
          else if \<not> env_malloc_ok E 16 then (None, Some state)
          else
            (let num_errors = (if es_top state \<ge> es_bottom state then es_top state - es_bottom state
                               else ERR_NUM_ERRORS + es_top state - es_bottom state)
             in if \<not> env_malloc_ok E (num_errors * sizeof_err_error_st) then (None, Some state)
                else (Some (map (\<lambda>i. err_copy E err_zero (es_errors state ! ((es_bottom state + i + 1) mod ERR_NUM_ERRORS)))
                             [0..<num_errors]), Some state)))"

text \<open>The copies into the first entries. The code aborts when there are too many.\<close>

fun restore_loop :: "err_env \<Rightarrow> nat \<Rightarrow> err_error_st list \<Rightarrow> ERR_STATE \<Rightarrow> ERR_STATE" where
  "restore_loop E i [] dst = dst"
| "restore_loop E i (e # es) dst = restore_loop E (i + 1) es (upd_error i (\<lambda>d. err_copy E d e) dst)"

definition ERR_restore_state :: "err_env \<Rightarrow> ERR_SAVE_STATE option \<Rightarrow> ERR_STATE option \<Rightarrow> ERR_STATE option option" where
  "ERR_restore_state E saved slot =
     (case saved of
        None \<Rightarrow> Some (ERR_clear_error E slot)
      | Some errors \<Rightarrow>
          if length errors = 0 then Some (ERR_clear_error E slot)
          else if length errors \<ge> ERR_NUM_ERRORS then None
          else case err_get_state E slot of
            None \<Rightarrow> Some slot
          | Some dst \<Rightarrow>
              Some (Some ((restore_loop E 0 errors dst)\<lparr>es_top := length errors - 1, es_bottom := ERR_NUM_ERRORS - 1\<rparr>)))"

end
