(* ===== verification/Err_Text.thy ===== *)
theory Err_Text
  imports Err
begin

text \<open>
  \<open>crypto/err/err.c\<close>: the texts of errors. Library names are a table of the file; reason strings come from the generated
  table of \<open>err_data.c\<close> and, for system errors, from \<open>strerror\<close>: both are the argument \<open>T\<close>. \<open>snprintf\<close> writes its text,
  truncated to the buffer, and a zero byte, and returns the length of the whole text.
\<close>

record err_tables =
  tab_strerror :: "nat \<Rightarrow> u8 list"
  tab_values :: "u32 list"
  tab_string_data :: "u8 list"

text \<open>The characters of a literal and the string that it denotes.\<close>

definition c_lit :: "string \<Rightarrow> u8 list" where
  "c_lit s = map of_char s"

definition c_str :: "string \<Rightarrow> u8 list" where
  "c_str s = c_lit s @ [0]"

section \<open>Reason strings\<close>

definition err_string_cmp :: "u32 \<Rightarrow> u32 \<Rightarrow> int" where
  "err_string_cmp a b =
     (let a_key = drop_bit 15 a; b_key = drop_bit 15 b
      in if a_key < b_key then - 1 else if a_key > b_key then 1 else 0)"

text \<open>The library function \<open>bsearch\<close>, as a binary search of the entries from \<open>lo\<close> to before \<open>hi\<close>.\<close>

function bsearch_range :: "('a \<Rightarrow> 'a \<Rightarrow> int) \<Rightarrow> 'a \<Rightarrow> 'a list \<Rightarrow> nat \<Rightarrow> nat \<Rightarrow> 'a option" where
  "bsearch_range cmp key xs lo hi =
     (if lo \<ge> hi then None
      else
        (let mid = (lo + hi) div 2; c = cmp key (xs ! mid)
         in if c = 0 then Some (xs ! mid)
            else if c < 0 then bsearch_range cmp key xs lo mid
            else bsearch_range cmp key xs (mid + 1) hi))"
  by pat_completeness auto
termination
  by (relation "measure (\<lambda>(_, _, _, lo, hi). hi - lo)") auto

definition err_string_lookup :: "nat \<Rightarrow> nat \<Rightarrow> u32 list \<Rightarrow> u8 list \<Rightarrow> u8 list option" where
  "err_string_lookup lib key values string_data =
     (if lib \<ge> 2 ^ 6 \<or> key \<ge> 2 ^ 11 then None
      else
        (let search_key = push_bit 26 (word_of_nat lib) OR push_bit 15 (word_of_nat key)
         in case bsearch_range err_string_cmp search_key values 0 (length values) of
              None \<Rightarrow> None
            | Some result \<Rightarrow> Some (drop (unat (result AND 0x7fff)) string_data)))"

text \<open>Name, symbol and reason symbol of the libraries.\<close>

definition kLibraryNames :: "(string \<times> string option \<times> string option) list" where
  "kLibraryNames =
     [
      (''invalid library (0)'', None, None),
      (''unknown library'', Some ''NONE'', Some ''NONE_LIB''),
      (''system library'', Some ''SYS'', Some ''SYS_LIB''),
      (''bignum routines'', Some ''BN'', Some ''BN_LIB''),
      (''RSA routines'', Some ''RSA'', Some ''RSA_LIB''),
      (''Diffie-Hellman routines'', Some ''DH'', Some ''DH_LIB''),
      (''public key routines'', Some ''EVP'', Some ''EVP_LIB''),
      (''memory buffer routines'', Some ''BUF'', Some ''BUF_LIB''),
      (''object identifier routines'', Some ''OBJ'', Some ''OBJ_LIB''),
      (''PEM routines'', Some ''PEM'', Some ''PEM_LIB''),
      (''DSA routines'', Some ''DSA'', Some ''DSA_LIB''),
      (''X.509 certificate routines'', Some ''X509'', Some ''X509_LIB''),
      (''ASN.1 encoding routines'', Some ''ASN1'', Some ''ASN1_LIB''),
      (''configuration file routines'', Some ''CONF'', Some ''CONF_LIB''),
      (''common libcrypto routines'', Some ''CRYPTO'', Some ''CRYPTO_LIB''),
      (''elliptic curve routines'', Some ''EC'', Some ''EC_LIB''),
      (''SSL routines'', Some ''SSL'', Some ''SSL_LIB''),
      (''BIO routines'', Some ''BIO'', Some ''BIO_LIB''),
      (''PKCS7 routines'', Some ''PKCS7'', Some ''PKCS7_LIB''),
      (''PKCS8 routines'', Some ''PKCS8'', Some ''PKCS8_LIB''),
      (''X509 V3 routines'', Some ''X509V3'', Some ''X509V3_LIB''),
      (''random number generator'', Some ''RAND'', Some ''RAND_LIB''),
      (''ENGINE routines'', Some ''ENGINE'', Some ''ENGINE_LIB''),
      (''OCSP routines'', Some ''OCSP'', Some ''OCSP_LIB''),
      (''UI routines'', Some ''UI'', Some ''UI_LIB''),
      (''COMP routines'', Some ''COMP'', Some ''COMP_LIB''),
      (''ECDSA routines'', Some ''ECDSA'', Some ''ECDSA_LIB''),
      (''ECDH routines'', Some ''ECDH'', Some ''ECDH_LIB''),
      (''HMAC routines'', Some ''HMAC'', Some ''HMAC_LIB''),
      (''Digest functions'', Some ''DIGEST'', Some ''DIGEST_LIB''),
      (''Cipher functions'', Some ''CIPHER'', Some ''CIPHER_LIB''),
      (''HKDF functions'', Some ''HKDF'', Some ''HKDF_LIB''),
      (''Trust Token functions'', Some ''TRUST_TOKEN'', Some ''TRUST_TOKEN_LIB''),
      (''User defined functions'', Some ''USER'', Some ''USER_LIB'')
     ]"

definition err_lib_error_string :: "u32 \<Rightarrow> u8 list option" where
  "err_lib_error_string packed_error =
     (let lib = ERR_GET_LIB packed_error
      in if lib \<ge> ERR_NUM_LIBS then None else Some (c_str (fst (kLibraryNames ! lib))))"

definition ERR_lib_error_string :: "u32 \<Rightarrow> u8 list" where
  "ERR_lib_error_string packed_error =
     (case err_lib_error_string packed_error of None \<Rightarrow> c_str ''unknown library'' | Some ret \<Rightarrow> ret)"

definition ERR_lib_symbol_name :: "u32 \<Rightarrow> u8 list option" where
  "ERR_lib_symbol_name packed_error =
     (let lib = ERR_GET_LIB packed_error
      in if lib \<ge> ERR_NUM_LIBS then None else map_option c_str (fst (snd (kLibraryNames ! lib))))"

definition ERR_func_error_string :: "u32 \<Rightarrow> u8 list" where
  "ERR_func_error_string packed_error = c_str ''OPENSSL_internal''"

definition ERR_R_FATAL :: nat where
  "ERR_R_FATAL = 64"

definition global_reason :: "nat \<Rightarrow> bool \<Rightarrow> u8 list option" where
  "global_reason reason symbol =
     (if reason = 1 OR ERR_R_FATAL then Some (c_str (if symbol then ''MALLOC_FAILURE'' else ''malloc failure''))
      else if reason = 2 OR ERR_R_FATAL
        then Some (c_str (if symbol then ''SHOULD_NOT_HAVE_BEEN_CALLED'' else ''function should not have been called''))
      else if reason = 3 OR ERR_R_FATAL
        then Some (c_str (if symbol then ''PASSED_NULL_PARAMETER'' else ''passed a null parameter''))
      else if reason = 4 OR ERR_R_FATAL then Some (c_str (if symbol then ''INTERNAL_ERROR'' else ''internal error''))
      else if reason = 5 OR ERR_R_FATAL then Some (c_str (if symbol then ''OVERFLOW'' else ''overflow''))
      else None)"

definition err_reason_error_string :: "err_tables \<Rightarrow> u32 \<Rightarrow> bool \<Rightarrow> u8 list option" where
  "err_reason_error_string T packed_error symbol =
     (let lib = ERR_GET_LIB packed_error; reason = ERR_GET_REASON packed_error
      in if int lib = ERR_LIB_SYS then
           (if \<not> symbol \<and> reason < 127 then Some (tab_strerror T reason) else None)
         else if reason < ERR_NUM_LIBS then
           (if symbol then map_option c_str (snd (snd (kLibraryNames ! reason))) else Some (c_str (fst (kLibraryNames ! reason))))
         else if reason < 100 then global_reason reason symbol
         else err_string_lookup lib reason (tab_values T) (tab_string_data T))"

definition ERR_reason_error_string :: "err_tables \<Rightarrow> u32 \<Rightarrow> u8 list" where
  "ERR_reason_error_string T packed_error =
     (case err_reason_error_string T packed_error False of None \<Rightarrow> c_str ''unknown error'' | Some ret \<Rightarrow> ret)"

definition ERR_reason_symbol_name :: "err_tables \<Rightarrow> u32 \<Rightarrow> u8 list option" where
  "ERR_reason_symbol_name T packed_error = err_reason_error_string T packed_error True"

section \<open>Formatting\<close>

text \<open>The conversions \<open>%u\<close> and \<open>%08x\<close>.\<close>

fun fmt_u :: "nat \<Rightarrow> u8 list" where
  "fmt_u n = (if n < 10 then [word_of_nat (48 + n)] else fmt_u (n div 10) @ [word_of_nat (48 + n mod 10)])"

definition hex_digit :: "nat \<Rightarrow> u8" where
  "hex_digit d = (if d < 10 then word_of_nat (48 + d) else word_of_nat (87 + d))"

definition fmt_08x :: "u32 \<Rightarrow> u8 list" where
  "fmt_08x w = map (\<lambda>i. hex_digit (unat w div 16 ^ (7 - i) mod 16)) [0..<8]"

text \<open>\<open>snprintf(buf, len, ...)\<close> for a text, with \<open>len\<close> not zero: the buffer afterwards and the returned value.\<close>

definition c_snprintf :: "u8 list \<Rightarrow> nat \<Rightarrow> u8 list \<Rightarrow> u8 list \<times> nat" where
  "c_snprintf buf len s = (write_at 0 (take (len - 1) s @ [0]) buf, length s)"

definition strchr :: "u8 list \<Rightarrow> nat \<Rightarrow> u8 \<Rightarrow> nat option" where
  "strchr buf s c =
     (let k = length (takeWhile (\<lambda>x. x \<noteq> c \<and> x \<noteq> 0) (drop s buf))
      in if s + k < length buf \<and> buf ! (s + k) = c then Some (s + k) else None)"

text \<open>The loop that makes sure that four colons are left, for the colons from \<open>i\<close> on.\<close>

function colon_loop :: "u8 list \<Rightarrow> nat \<Rightarrow> nat \<Rightarrow> nat \<Rightarrow> u8 list" where
  "colon_loop buf len s i =
     (if i < 4 then
        (let last_pos = len - 1 - 4 + i
         in case strchr buf s 58 of
              None \<Rightarrow> write_at last_pos (replicate (4 - i) 58) buf
            | Some colon \<Rightarrow>
                if colon > last_pos then write_at last_pos (replicate (4 - i) 58) buf
                else colon_loop buf len (colon + 1) (i + 1))
      else buf)"
  by pat_completeness auto
termination
  by (relation "measure (\<lambda>(_, _, _, i). 4 - i)") auto

text \<open>The text of an error. The two intermediate buffers of 32 bytes hold their texts whole.\<close>

definition err_full_text :: "err_tables \<Rightarrow> u32 \<Rightarrow> u8 list" where
  "err_full_text T packed_error =
     (let lib_str = (case err_lib_error_string packed_error of
                       None \<Rightarrow> fst (c_snprintf (replicate 32 0) 32 (c_lit ''lib('' @ fmt_u (ERR_GET_LIB packed_error) @ c_lit '')''))
                     | Some s \<Rightarrow> s);
          reason_str = (case err_reason_error_string T packed_error False of
                          None \<Rightarrow> fst (c_snprintf (replicate 32 0) 32
                                    (c_lit ''reason('' @ fmt_u (ERR_GET_REASON packed_error) @ c_lit '')''))
                        | Some s \<Rightarrow> s)
      in c_lit ''error:'' @ fmt_08x packed_error @ c_lit '':'' @ c_text lib_str @ c_lit '':OPENSSL_internal:'' @ c_text reason_str)"

definition ERR_error_string_n :: "err_tables \<Rightarrow> u32 \<Rightarrow> u8 list \<Rightarrow> nat \<Rightarrow> u8 list option" where
  "ERR_error_string_n T packed_error buf len =
     (if len = 0 then None
      else
        (case c_snprintf buf len (err_full_text T packed_error) of
           (buf, ret) \<Rightarrow>
             if ret \<ge> len then (if len \<le> 4 then Some buf else Some (colon_loop buf len 0 0))
             else Some buf))"

definition ERR_ERROR_STRING_BUF_LEN :: nat where
  "ERR_ERROR_STRING_BUF_LEN = 120"

section \<open>Printing the queue\<close>

text \<open>One line of \<open>ERR_print_errors_cb\<close>, of at most 1023 characters.\<close>

definition err_print_line :: "err_tables \<Rightarrow> nat \<Rightarrow> u32 \<Rightarrow> err_out \<Rightarrow> u8 list" where
  "err_print_line T thread_hash packed_error out =
     (let buf = the (ERR_error_string_n T packed_error (replicate ERR_ERROR_STRING_BUF_LEN 0) ERR_ERROR_STRING_BUF_LEN);
          (file, line) = the (eo_line out);
          data = (if the (eo_flags out) AND ERR_FLAG_STRING \<noteq> 0 then the (eo_data out) else [0])
      in take 1023 (fmt_u thread_hash @ c_lit '':'' @ c_text buf @ c_lit '':'' @ c_text file @ c_lit '':'' @ fmt_u (nat line) @
           c_lit '':'' @ c_text data @ [10]))"

text \<open>The callback gets the line and its context, and returns a number and the new context.\<close>

partial_function (option) ERR_print_errors_cb ::
  "err_env \<Rightarrow> err_tables \<Rightarrow> nat \<Rightarrow> (u8 list \<Rightarrow> 'c \<Rightarrow> int \<times> 'c) \<Rightarrow> 'c \<Rightarrow> ERR_STATE option \<Rightarrow> ('c \<times> ERR_STATE option) option" where
  "ERR_print_errors_cb E T thread_hash callback ctx slot =
     (case ERR_get_error_line_data E slot of
        (packed_error, out, slot) \<Rightarrow>
          if packed_error = 0 then Some (ctx, slot)
          else
            (case callback (err_print_line T thread_hash packed_error out) ctx of
               (r, ctx) \<Rightarrow> if r \<le> 0 then Some (ctx, slot) else ERR_print_errors_cb E T thread_hash callback ctx slot))"

end
