(* ===== verification/Err_Correct.thy ===== *)
theory Err_Correct
  imports Err
begin

text \<open>
  The ring of \<open>err.c\<close> as a queue of at most 15 errors, oldest first: every operation keeps the ring well formed and acts on
  the queue as documented.
\<close>

section \<open>The invariant and the queue\<close>

definition err_inv :: "ERR_STATE \<Rightarrow> bool" where
  "err_inv s \<longleftrightarrow> length (es_errors s) = ERR_NUM_ERRORS \<and> es_top s < ERR_NUM_ERRORS \<and> es_bottom s < ERR_NUM_ERRORS"

definition err_count :: "ERR_STATE \<Rightarrow> nat" where
  "err_count s = (es_top s + ERR_NUM_ERRORS - es_bottom s) mod ERR_NUM_ERRORS"

definition err_slot :: "ERR_STATE \<Rightarrow> nat \<Rightarrow> nat" where
  "err_slot s i = (es_bottom s + i + 1) mod ERR_NUM_ERRORS"

definition err_queue :: "ERR_STATE \<Rightarrow> err_error_st list" where
  "err_queue s = map (\<lambda>i. es_errors s ! err_slot s i) [0..<err_count s]"

lemma mod16: "(n :: nat) < 32 \<Longrightarrow> n mod 16 = (if n < 16 then n else n - 16)"
  by (simp add: mod_if)

lemmas err_ring_defs = err_inv_def err_count_def err_slot_def ERR_NUM_ERRORS_def

lemma err_count_alt:
  "err_inv s \<Longrightarrow> err_count s = (if es_bottom s \<le> es_top s then es_top s - es_bottom s else 16 + es_top s - es_bottom s)"
  by (auto simp: err_inv_def err_count_def ERR_NUM_ERRORS_def mod16)

lemma err_slot_alt:
  "err_inv s \<Longrightarrow> i < 16 \<Longrightarrow> err_slot s i = (if es_bottom s + i < 15 then es_bottom s + i + 1 else es_bottom s + i - 15)"
  by (auto simp: err_inv_def err_slot_def ERR_NUM_ERRORS_def mod16)

lemma err_count_less: "err_inv s \<Longrightarrow> err_count s < ERR_NUM_ERRORS"
  by (simp add: err_ring_defs)

lemma err_count_0: "err_inv s \<Longrightarrow> err_count s = 0 \<longleftrightarrow> es_bottom s = es_top s"
  by (auto simp: err_count_alt err_inv_def ERR_NUM_ERRORS_def)

lemma err_queue_Nil: "err_inv s \<Longrightarrow> err_queue s = [] \<longleftrightarrow> es_bottom s = es_top s"
  using err_count_0 [of s] by (simp add: err_queue_def)

lemma err_slot_inj: "i < ERR_NUM_ERRORS \<Longrightarrow> j < ERR_NUM_ERRORS \<Longrightarrow> err_inv s \<Longrightarrow> err_slot s i = err_slot s j \<longleftrightarrow> i = j"
  by (auto simp: ERR_NUM_ERRORS_def err_slot_alt err_inv_def split: if_splits)

lemma err_slot_last: "err_inv s \<Longrightarrow> es_bottom s \<noteq> es_top s \<Longrightarrow> err_slot s (err_count s - 1) = es_top s"
  by (subst err_slot_alt) (auto simp: err_count_alt err_inv_def ERR_NUM_ERRORS_def)

lemma err_slot_less: "err_slot s i < ERR_NUM_ERRORS"
  by (simp add: err_slot_def ERR_NUM_ERRORS_def)

section \<open>Changes of the ring\<close>

lemma err_inv_upd [simp]: "err_inv (upd_error i f s) = err_inv s"
  by (simp add: err_inv_def upd_error_def)

lemma upd_error_fields [simp]:
  "es_top (upd_error i f s) = es_top s" "es_bottom (upd_error i f s) = es_bottom s" "err_count (upd_error i f s) = err_count s"
  "err_slot (upd_error i f s) j = err_slot s j" "es_to_free (upd_error i f s) = es_to_free s"
  "es_errors (upd_error i f s) = (es_errors s)[i := f (es_errors s ! i)]"
  by (simp_all add: upd_error_def err_count_def err_slot_def)

text \<open>An assignment to the entry \<open>i\<close> of the queue.\<close>

lemma queue_upd_error:
  assumes "err_inv s" "i < err_count s"
  shows "err_queue (upd_error (err_slot s i) f s) = (err_queue s)[i := f (err_queue s ! i)]"
proof (rule nth_equalityI)
  show "length (err_queue (upd_error (err_slot s i) f s)) = length ((err_queue s)[i := f (err_queue s ! i)])"
    by (simp add: err_queue_def)
  fix j
  assume "j < length (err_queue (upd_error (err_slot s i) f s))"
  then have j: "j < err_count s" by (simp add: err_queue_def)
  have "err_slot s j < length (es_errors s)" using assms(1) err_slot_less [of s j] by (simp add: err_inv_def)
  then show "err_queue (upd_error (err_slot s i) f s) ! j = (err_queue s)[i := f (err_queue s ! i)] ! j"
    using assms j err_slot_inj [of i j s] err_count_less [OF assms(1)]
    by (auto simp: err_queue_def nth_list_update)
qed

lemma list_update_last: "xs \<noteq> [] \<Longrightarrow> xs[length xs - 1 := y] = butlast xs @ [y]"
  by (cases xs rule: rev_cases) auto

lemma queue_upd_top:
  assumes "err_inv s" "es_bottom s \<noteq> es_top s"
  shows "err_queue (upd_error (es_top s) f s) = butlast (err_queue s) @ [f (last (err_queue s))]"
proof -
  have c: "err_count s - 1 < err_count s" using err_count_0 [OF assms(1)] assms(2) by simp
  have ne: "err_queue s \<noteq> []" using err_queue_Nil [OF assms(1)] assms(2) by simp
  have l: "err_count s = length (err_queue s)" by (simp add: err_queue_def)
  show ?thesis using queue_upd_error [OF assms(1) c, of f] unfolding err_slot_last [OF assms]
    unfolding l list_update_last [OF ne] by (simp add: last_conv_nth [OF ne])
qed

text \<open>An entry outside of the queue does not matter.\<close>

lemma queue_upd_outside:
  assumes "err_inv s" "\<forall>i < err_count s. err_slot s i \<noteq> k"
  shows "err_queue (upd_error k f s) = err_queue s"
  using assms by (auto simp: err_queue_def)

lemma queue_pop_front:
  assumes "err_inv s" "es_bottom s \<noteq> es_top s" "t = s\<lparr>es_bottom := err_slot s 0\<rparr>"
  shows "err_inv t" "err_queue t = tl (err_queue s)" "\<forall>i < err_count t. err_slot t i \<noteq> err_slot s 0"
proof -
  show t: "err_inv t" using assms(1,3) by (simp add: err_ring_defs)
  have b: "es_bottom t = (if es_bottom s < 15 then es_bottom s + 1 else 0)" "es_top t = es_top s" "es_errors t = es_errors s"
    using assms(1,3) err_slot_alt [of s 0] by (auto simp: err_inv_def ERR_NUM_ERRORS_def)
  have c: "err_count s = Suc (err_count t)"
    using assms(1,2) b by (auto simp: err_count_alt [OF t] err_count_alt [OF assms(1)] err_inv_def ERR_NUM_ERRORS_def)
  have sl: "err_slot t i = err_slot s (Suc i)" if "i < err_count t" for i
    using that c err_count_less [OF assms(1)] assms(1)
    by (auto simp: err_slot_alt [OF t] err_slot_alt [OF assms(1)] b err_inv_def ERR_NUM_ERRORS_def)
  show "err_queue t = tl (err_queue s)"
    using sl b(3) by (simp add: err_queue_def c upt_conv_Cons map_Suc_upt [symmetric] del: upt_Suc)
  show "\<forall>i < err_count t. err_slot t i \<noteq> err_slot s 0"
  proof (intro allI impI)
    fix i
    assume "i < err_count t"
    then show "err_slot t i \<noteq> err_slot s 0"
      using sl err_slot_inj [of "Suc i" 0 s] err_count_less [OF assms(1)] assms(1) c by (simp add: ERR_NUM_ERRORS_def)
  qed
qed

lemma queue_pop_back:
  assumes "err_inv s" "es_bottom s \<noteq> es_top s" "t = s\<lparr>es_top := (if es_top s = 0 then ERR_NUM_ERRORS - 1 else es_top s - 1)\<rparr>"
  shows "err_inv t" "err_queue t = butlast (err_queue s)" "err_count s = Suc (err_count t)"
proof -
  show t: "err_inv t" using assms by (auto simp: err_inv_def ERR_NUM_ERRORS_def)
  have "es_top t = (if es_top s = 0 then 15 else es_top s - 1)" "es_bottom t = es_bottom s"
    by (simp_all add: assms(3) ERR_NUM_ERRORS_def)
  then show c: "err_count s = Suc (err_count t)"
    using assms(1,2) by (auto simp: err_count_alt [OF t] err_count_alt [OF assms(1)] err_inv_def ERR_NUM_ERRORS_def)
  have sl: "err_slot t i = err_slot s i" for i by (simp add: assms(3) err_slot_def)
  have e: "es_errors t = es_errors s" by (simp add: assms(3))
  show "err_queue t = butlast (err_queue s)" by (simp add: err_queue_def c sl e)
qed

section \<open>The operations on the queue\<close>

definition err_ok :: "ERR_STATE option \<Rightarrow> bool" where
  "err_ok slot \<longleftrightarrow> (case slot of None \<Rightarrow> True | Some s \<Rightarrow> err_inv s)"

definition err_q :: "ERR_STATE option \<Rightarrow> err_error_st list" where
  "err_q slot = (case slot of None \<Rightarrow> [] | Some s \<Rightarrow> err_queue s)"

lemma err_state_zero: "err_inv err_state_zero" "err_queue err_state_zero = []"
  by (simp_all add: err_state_zero_def err_ring_defs err_queue_def)

text \<open>The state that an operation works on, if there is one, has the queue of the slot.\<close>

lemma get_state:
  assumes "err_ok slot" "err_get_state E slot = Some s"
  shows "err_inv s" "err_queue s = err_q slot"
  using assms err_state_zero by (auto simp: err_get_state_def err_ok_def err_q_def split: option.splits if_splits)

lemma get_state_None: "err_get_state E slot = None \<Longrightarrow> slot = None"
  by (auto simp: err_get_state_def split: option.splits)

lemma err_ok_simps [simp]: "err_ok None" "err_ok (Some s) = err_inv s" "err_q None = []" "err_q (Some s) = err_queue s"
  by (simp_all add: err_ok_def err_q_def)

lemma queue_hd:
  assumes "err_inv s" "es_bottom s \<noteq> es_top s"
  shows "err_queue s = (es_errors s ! err_slot s 0) # tl (err_queue s)" "last (err_queue s) = es_errors s ! es_top s"
proof -
  have c: "0 < err_count s" using err_count_0 [OF assms(1)] assms(2) by simp
  then show "err_queue s = (es_errors s ! err_slot s 0) # tl (err_queue s)"
    by (simp add: err_queue_def upt_conv_Cons)
  have "last (err_queue s) = es_errors s ! err_slot s (err_count s - 1)"
    using c by (simp add: err_queue_def last_conv_nth)
  then show "last (err_queue s) = es_errors s ! es_top s" by (simp only: err_slot_last [OF assms])
qed

lemma err_fields_irrelevant [simp]:
  "err_inv (s\<lparr>es_to_free := x\<rparr>) = err_inv s" "err_queue (s\<lparr>es_to_free := x\<rparr>) = err_queue s"
  "err_slot (s\<lparr>es_to_free := x\<rparr>) i = err_slot s i" "err_count (s\<lparr>es_to_free := x\<rparr>) = err_count s"
  by (simp_all add: err_inv_def err_queue_def err_slot_def err_count_def)

text \<open>Removing the oldest entry: its slot is cleared, possibly after its data was taken, and \<open>bottom\<close> moves up.\<close>

lemma remove_oldest:
  assumes "err_inv s" "es_bottom s \<noteq> es_top s" "i = err_slot s 0"
    "s' = (upd_error i err_clear s)\<lparr>es_bottom := i\<rparr> \<or>
     s' = (upd_error i err_clear (upd_error i g (s\<lparr>es_to_free := x\<rparr>)))\<lparr>es_bottom := i\<rparr>"
  shows "err_inv s'" "err_queue s' = tl (err_queue s)"
proof -
  define t where "t = s\<lparr>es_bottom := err_slot s 0\<rparr>"
  note pf = queue_pop_front [OF assms(1,2) t_def]
  have "s' = upd_error i err_clear t \<or> s' = upd_error i err_clear (upd_error i g (t\<lparr>es_to_free := x\<rparr>))"
    using assms(3,4) by (auto simp: t_def upd_error_def)
  moreover have "err_queue (upd_error i f t') = err_queue t'"
    if "err_inv t'" "err_count t' = err_count t" "\<forall>j. err_slot t' j = err_slot t j" for f t'
    using queue_upd_outside [OF that(1), of i f] pf(3) that assms(3) by simp
  ultimately show "err_inv s'" "err_queue s' = tl (err_queue s)" using pf(1,2) by auto
qed

text \<open>All readers of the queue at once.\<close>

lemma get_error_values_queue:
  assumes "err_ok slot" "\<not> (inc \<and> newest)" "get_error_values E slot inc newest file data flags = (r, out, slot')"
  shows "err_ok slot'"
    "err_q slot' = (if inc then tl (err_q slot) else err_q slot)"
    "r = (if err_q slot = [] then 0 else err_packed (if newest then last (err_q slot) else hd (err_q slot)))"
proof -
  have "err_ok slot' \<and> err_q slot' = (if inc then tl (err_q slot) else err_q slot) \<and>
    r = (if err_q slot = [] then 0 else err_packed (if newest then last (err_q slot) else hd (err_q slot)))"
  proof (cases "err_get_state E slot")
    case None
    then show ?thesis using assms(3) get_state_None [OF None] by (auto simp: get_error_values_def)
  next
    case (Some s)
    note s = get_state [OF assms(1) Some]
    show ?thesis
    proof (cases "es_bottom s = es_top s")
      case True
      then show ?thesis using assms(3) s err_queue_Nil [OF s(1)] by (auto simp: get_error_values_def Some)
    next
      case False
      define i where "i = (if newest then es_top s else (es_bottom s + 1) mod ERR_NUM_ERRORS)"
      note hq = queue_hd [OF s(1) False]
      have ne: "err_q slot \<noteq> []" using err_queue_Nil [OF s(1)] False s(2) by simp
      have r: "r = err_packed (es_errors s ! i)"
        using assms(3) Some False by (auto simp: get_error_values_def Let_def i_def split: prod.splits if_splits)
      have val: "es_errors s ! i = (if newest then last (err_q slot) else hd (err_q slot))"
        using hq(2) s(2) hq(1) [THEN arg_cong [of _ _ hd]] by (simp add: i_def err_slot_def)
      have sl: "inc \<Longrightarrow> i = err_slot s 0" using assms(2) by (simp add: i_def err_slot_def)
      obtain s' where slot': "slot' = Some s'" and c:
          "\<not> inc \<and> s' = s \<or> inc \<and> (s' = (upd_error i err_clear s)\<lparr>es_bottom := i\<rparr> \<or>
             (\<exists>x. s' = (upd_error i err_clear (upd_error i (\<lambda>e. e\<lparr>err_data := None\<rparr>) (s\<lparr>es_to_free := x\<rparr>)))\<lparr>es_bottom := i\<rparr>))"
        using assms(3) Some False
        by (auto simp: get_error_values_def Let_def i_def [symmetric] take_error_data_def split: prod.splits if_splits option.splits)
      have "err_inv s' \<and> err_queue s' = (if inc then tl (err_queue s) else err_queue s)"
      proof (cases inc)
        case True
        then show ?thesis using c remove_oldest [OF s(1) False sl [OF True], of s'] by metis
      next
        case False
        then show ?thesis using c s(1) by simp
      qed
      then show ?thesis using slot' r val ne s(2) by auto
    qed
  qed
  then show "err_ok slot'" "err_q slot' = (if inc then tl (err_q slot) else err_q slot)"
    "r = (if err_q slot = [] then 0 else err_packed (if newest then last (err_q slot) else hd (err_q slot)))" by auto
qed

text \<open>A new error goes to the end; when the ring is full the oldest one is lost.\<close>

definition err_capacity :: nat where
  "err_capacity = ERR_NUM_ERRORS - 1"

definition new_error :: "err_env \<Rightarrow> int \<Rightarrow> int \<Rightarrow> u8 list \<Rightarrow> nat \<Rightarrow> err_error_st" where
  "new_error E library reason file line =
     \<lparr>err_file = Some file, err_data = None,
      err_packed = ERR_PACK library (if library = ERR_LIB_SYS \<and> reason = 0 then env_errno E else reason),
      err_line = word_of_nat line, err_mark = False\<rparr>"

lemma queue_push_back:
  assumes "err_inv s" "t = s\<lparr>es_top := (es_top s + 1) mod ERR_NUM_ERRORS\<rparr>"
    "u = (if es_top t = es_bottom t then t\<lparr>es_bottom := (es_bottom t + 1) mod ERR_NUM_ERRORS\<rparr> else t)"
  shows "err_inv u" "es_bottom u \<noteq> es_top u"
    "butlast (err_queue u) = (if length (err_queue s) = err_capacity then tl (err_queue s) else err_queue s)"
proof -
  have top: "es_top u = (if es_top s = 15 then 0 else es_top s + 1)" "es_errors u = es_errors s"
    using assms by (auto simp: err_inv_def ERR_NUM_ERRORS_def mod16)
  have full: "es_top t = es_bottom t \<longleftrightarrow> err_count s = 15"
    using assms(1,2) by (auto simp: err_count_alt err_inv_def ERR_NUM_ERRORS_def mod16)
  have bot: "es_bottom u = (if err_count s = 15 then (if es_bottom s = 15 then 0 else es_bottom s + 1) else es_bottom s)"
    using assms full by (auto simp: err_inv_def ERR_NUM_ERRORS_def mod16)
  show u: "err_inv u" using assms by (auto simp: err_inv_def ERR_NUM_ERRORS_def)
  show ne: "es_bottom u \<noteq> es_top u"
    using top bot assms(1) by (auto simp: err_count_alt err_inv_def ERR_NUM_ERRORS_def split: if_splits)
  have c: "err_count u = (if err_count s = 15 then 15 else Suc (err_count s))"
    using top bot assms(1) by (auto simp: err_count_alt [OF u] err_count_alt [OF assms(1)] err_inv_def ERR_NUM_ERRORS_def split: if_splits)
  have sl: "err_slot u i = err_slot s (if err_count s = 15 then Suc i else i)" if "i < 15" for i
    using that bot assms(1) by (auto simp: err_slot_alt [OF u] err_slot_alt [OF assms(1)] err_inv_def ERR_NUM_ERRORS_def)
  have lt: "err_count s < 16" using err_count_less [OF assms(1)] by (simp add: ERR_NUM_ERRORS_def)
  have len: "length (err_queue s) = err_count s" by (simp add: err_queue_def)
  show "butlast (err_queue u) = (if length (err_queue s) = err_capacity then tl (err_queue s) else err_queue s)"
  proof (rule nth_equalityI)
    show "length (butlast (err_queue u)) = length (if length (err_queue s) = err_capacity then tl (err_queue s) else err_queue s)"
      using c by (simp add: err_queue_def err_capacity_def ERR_NUM_ERRORS_def)
    fix i
    assume "i < length (butlast (err_queue u))"
    then have i: "i < err_count u - 1" by (simp add: err_queue_def)
    then have "i < 15" using c lt by (auto split: if_splits)
    then show "butlast (err_queue u) ! i = (if length (err_queue s) = err_capacity then tl (err_queue s) else err_queue s) ! i"
      using i c sl len top(2)
      by (auto simp: nth_butlast nth_tl err_queue_def err_capacity_def ERR_NUM_ERRORS_def simp del: upt_Suc split: if_splits)
  qed
qed

lemma put_error_queue:
  assumes "err_ok slot" "err_get_state E slot \<noteq> None"
  shows "err_ok (ERR_put_error E library reason file line slot)"
    "err_q (ERR_put_error E library reason file line slot) =
       (if length (err_q slot) = err_capacity then tl (err_q slot) else err_q slot) @ [new_error E library reason file line]"
proof -
  obtain s where s: "err_get_state E slot = Some s" using assms(2) by auto
  note gs = get_state [OF assms(1) s]
  define t where "t = s\<lparr>es_top := (es_top s + 1) mod ERR_NUM_ERRORS\<rparr>"
  define u where "u = (if es_top t = es_bottom t then t\<lparr>es_bottom := (es_bottom t + 1) mod ERR_NUM_ERRORS\<rparr> else t)"
  note pb = queue_push_back [OF gs(1) t_def u_def]
  define f where "f = (\<lambda>e. (err_clear e)\<lparr>err_file := Some file, err_line := word_of_nat line,
      err_packed := ERR_PACK library (if library = ERR_LIB_SYS \<and> reason = 0 then env_errno E else reason)\<rparr>)"
  have put: "ERR_put_error E library reason file line slot = Some (upd_error (es_top u) f u)"
    unfolding ERR_put_error_def s option.case Let_def t_def [symmetric] u_def [symmetric] f_def ..
  have "f e = new_error E library reason file line" for e by (simp add: f_def new_error_def err_clear_def err_zero_def)
  then show "err_ok (ERR_put_error E library reason file line slot)"
    "err_q (ERR_put_error E library reason file line slot) =
       (if length (err_q slot) = err_capacity then tl (err_q slot) else err_q slot) @ [new_error E library reason file line]"
    using pb queue_upd_top [OF pb(1,2)] gs(2) by (simp_all add: put)
qed

lemma put_error_ok: "err_ok slot \<Longrightarrow> err_ok (ERR_put_error E library reason file line slot)"
  using put_error_queue(1) [of slot E] by (cases "err_get_state E slot") (auto simp: ERR_put_error_def)

section \<open>Clearing, data and marks\<close>

lemma clear_error_queue:
  "err_ok slot \<Longrightarrow> err_ok (ERR_clear_error E slot) \<and> err_q (ERR_clear_error E slot) = []"
  using get_state_None [of E slot] get_state(1) [of slot E]
  by (cases "err_get_state E slot") (auto simp: ERR_clear_error_def err_inv_def ERR_NUM_ERRORS_def err_queue_def err_count_def)

text \<open>What changes the newest entry only.\<close>

definition on_last :: "('a \<Rightarrow> 'a) \<Rightarrow> 'a list \<Rightarrow> 'a list" where
  "on_last f xs = (if xs = [] then [] else butlast xs @ [f (last xs)])"

lemma upd_top_queue:
  assumes "err_inv s" "es_bottom s \<noteq> es_top s"
  shows "err_queue (upd_error (es_top s) f s) = on_last f (err_queue s)"
  using queue_upd_top [OF assms] err_queue_Nil [OF assms(1)] assms(2) by (simp add: on_last_def)

lemma newest_cases:
  assumes "err_ok slot"
  obtains (none) "err_get_state E slot = None" "slot = None" "err_q slot = []"
  | (empty) s where "err_get_state E slot = Some s" "es_bottom s = es_top s" "err_inv s" "err_queue s = []" "err_q slot = []"
  | (some) s where "err_get_state E slot = Some s" "es_bottom s \<noteq> es_top s" "err_inv s" "err_q slot \<noteq> []"
      "\<And>f. err_queue (upd_error (es_top s) f s) = on_last f (err_q slot)"
proof (cases "err_get_state E slot")
  case None
  then show ?thesis using none get_state_None [OF None] by simp
next
  case (Some s)
  note gs = get_state [OF assms Some]
  show ?thesis
  proof (cases "es_bottom s = es_top s")
    case True
    then show ?thesis using empty [OF Some True gs(1)] err_queue_Nil [OF gs(1)] gs(2) by simp
  next
    case False
    then show ?thesis using some [OF Some False gs(1)] err_queue_Nil [OF gs(1)] upd_top_queue [OF gs(1) False] gs(2) by simp
  qed
qed

lemma set_error_data_queue:
  assumes "err_ok slot"
  shows "err_ok (err_set_error_data E d slot)"
    "err_q (err_set_error_data E d slot) = on_last (\<lambda>e. e\<lparr>err_data := Some d\<rparr>) (err_q slot)"
  using assms by (cases rule: newest_cases [of slot E]; simp add: err_set_error_data_def on_last_def)+

lemma set_mark_queue:
  assumes "err_ok slot"
  shows "err_ok (snd (ERR_set_mark E slot))" "fst (ERR_set_mark E slot) \<longleftrightarrow> err_q slot \<noteq> []"
    "err_q (snd (ERR_set_mark E slot)) = on_last (\<lambda>e. e\<lparr>err_mark := True\<rparr>) (err_q slot)"
  using assms by (cases rule: newest_cases [of slot E]; simp add: ERR_set_mark_def on_last_def)+

text \<open>Errors are removed from the newest on, up to a mark.\<close>

fun pop_spec :: "err_error_st list \<Rightarrow> bool \<times> err_error_st list" where
  "pop_spec [] = (False, [])"
| "pop_spec (e # es) = (if err_mark e then (True, e\<lparr>err_mark := False\<rparr> # es) else pop_spec es)"

lemma pop_loop_queue:
  "err_inv s \<Longrightarrow> \<exists>s'. pop_loop s = Some (fst (pop_spec (rev (err_queue s))), s') \<and> err_inv s' \<and>
     rev (err_queue s') = snd (pop_spec (rev (err_queue s)))"
proof (induction "err_count s" arbitrary: s)
  case 0
  then have "es_bottom s = es_top s" using err_count_0 [of s] by simp
  then show ?case using err_queue_Nil [OF 0(2)] 0 by (simp add: pop_loop.simps)
next
  case (Suc n)
  then have ne: "es_bottom s \<noteq> es_top s" using err_count_0 [of s] by auto
  define e where "e = es_errors s ! es_top s"
  have q: "err_queue s = butlast (err_queue s) @ [e]"
    using queue_hd(2) [OF Suc(3) ne] err_queue_Nil [OF Suc(3)] ne by (metis append_butlast_last_id e_def)
  then have rq: "rev (err_queue s) = e # rev (butlast (err_queue s))" by (metis rev_eq_Cons_iff rev_rev_ident rev.simps(2))
  show ?case
  proof (cases "err_mark e")
    case True
    have "last (err_queue s) = e" using q by (metis last_snoc)
    then have "rev (err_queue (upd_error (es_top s) (\<lambda>e. e\<lparr>err_mark := False\<rparr>) s)) =
        e\<lparr>err_mark := False\<rparr> # rev (butlast (err_queue s))"
      by (simp add: queue_upd_top [OF Suc(3) ne])
    then show ?thesis using True ne Suc(3) unfolding rq by (simp add: pop_loop.simps e_def [symmetric])
  next
    case False
    define s1 where "s1 = upd_error (es_top s) err_clear s"
    define t where "t = s1\<lparr>es_top := (if es_top s1 = 0 then ERR_NUM_ERRORS - 1 else es_top s1 - 1)\<rparr>"
    have s1: "err_inv s1" "es_bottom s1 \<noteq> es_top s1" "err_count s1 = err_count s" using Suc(3) ne by (simp_all add: s1_def)
    note pb = queue_pop_back [OF s1(1,2) t_def]
    have bq: "err_queue t = butlast (err_queue s)" using pb(2) queue_upd_top [OF Suc(3) ne] by (simp add: s1_def)
    have "n = err_count t" using Suc(2) pb(3) s1(3) by simp
    from Suc(1) [OF this pb(1)] False show ?thesis unfolding rq
      by (subst pop_loop.simps) (simp add: ne e_def [symmetric] Let_def s1_def [symmetric] t_def [symmetric] bq)
  qed
qed

lemma pop_to_mark_queue:
  assumes "err_ok slot"
  shows "\<exists>slot'. ERR_pop_to_mark E slot = Some (fst (pop_spec (rev (err_q slot))), slot') \<and> err_ok slot' \<and>
     rev (err_q slot') = snd (pop_spec (rev (err_q slot)))"
proof (cases "err_get_state E slot")
  case None
  then show ?thesis using get_state_None [OF None] by (simp add: ERR_pop_to_mark_def)
next
  case (Some s)
  note gs = get_state [OF assms Some]
  show ?thesis using pop_loop_queue [OF gs(1)] gs(2) by (auto simp: ERR_pop_to_mark_def Some)
qed

section \<open>Saving and restoring\<close>

text \<open>What a copy of an error holds: everything but the mark, and of the data the text.\<close>

definition copied :: "err_error_st \<Rightarrow> err_error_st" where
  "copied e = e\<lparr>err_data := map_option (\<lambda>d. take (strlen d + 1) d) (err_data e), err_mark := False\<rparr>"

lemma err_copy_copied: "\<forall>n. env_malloc_ok E n \<Longrightarrow> err_copy E dst e = copied e"
  by (cases e) (simp add: err_copy_def copied_def err_clear_def err_zero_def strdup_libc_malloc_def Let_def split: option.split)

lemma strlen_take: "strlen (take (Suc (strlen d)) d) = strlen d"
proof -
  have "takeWhile (\<lambda>c. c \<noteq> 0) (take (Suc (length (takeWhile (\<lambda>c. c \<noteq> 0) d))) d) = takeWhile (\<lambda>c. c \<noteq> (0 :: u8)) d"
    by (induction d) auto
  then show ?thesis by (simp add: strlen_def)
qed

lemma copied_idem: "copied (copied e) = copied e"
  by (cases e) (simp add: copied_def strlen_take option.map_comp comp_def)

lemma save_state_queue:
  assumes "err_ok slot" "\<forall>n. env_malloc_ok E n" "err_q slot \<noteq> []"
  shows "ERR_save_state E slot = (Some (map copied (err_q slot)), slot)"
proof -
  obtain s where s: "slot = Some s" using assms(3) by (cases slot) auto
  then have inv: "err_inv s" and ne: "es_top s \<noteq> es_bottom s" using assms(1,3) err_queue_Nil [of s] by auto
  have n: "(if es_top s \<ge> es_bottom s then es_top s - es_bottom s else ERR_NUM_ERRORS + es_top s - es_bottom s) = err_count s"
    using err_count_alt [OF inv] by (simp add: ERR_NUM_ERRORS_def)
  show ?thesis unfolding s ERR_save_state_def err_get_state_def option.case Let_def n
    using assms(2) ne by (simp add: err_copy_copied err_queue_def err_slot_def)
qed

lemma restore_loop_errors:
  "i + length es \<le> length (es_errors dst) \<Longrightarrow> \<forall>n. env_malloc_ok E n \<Longrightarrow>
   es_errors (restore_loop E i es dst) = take i (es_errors dst) @ map copied es @ drop (i + length es) (es_errors dst)"
proof (induction es arbitrary: i dst)
  case (Cons e es)
  have "take (i + 1) ((es_errors dst)[i := copied e]) = take i (es_errors dst) @ [copied e]"
    using Cons.prems by (simp add: take_Suc_conv_app_nth)
  then show ?case using Cons by (simp add: err_copy_copied)
qed simp

text \<open>After a restore the queue holds what the saved state holds, whatever it held before.\<close>

lemma restore_state_queue:
  assumes "err_ok slot" "\<forall>n. env_malloc_ok E n" "err_get_state E slot = Some dst" "es \<noteq> []" "length es \<le> err_capacity"
  shows "\<exists>slot'. ERR_restore_state E (Some es) slot = Some slot' \<and> err_ok slot' \<and> err_q slot' = map copied es"
proof -
  note gs = get_state [OF assms(1,3)]
  define s' where "s' = (restore_loop E 0 es dst)\<lparr>es_top := length es - 1, es_bottom := ERR_NUM_ERRORS - 1\<rparr>"
  have l: "length es < 16" "0 < length es" using assms(4,5) by (auto simp: err_capacity_def ERR_NUM_ERRORS_def)
  have er: "es_errors s' = map copied es @ drop (length es) (es_errors dst)"
    using restore_loop_errors [of 0 es dst E] assms(2) gs(1) l by (simp add: s'_def err_inv_def ERR_NUM_ERRORS_def)
  have tb: "es_top s' = length es - 1" "es_bottom s' = 15" by (simp_all add: s'_def ERR_NUM_ERRORS_def)
  have inv: "err_inv s'" using gs(1) l er tb by (simp add: err_inv_def ERR_NUM_ERRORS_def)
  have c: "err_count s' = length es" using err_count_alt [OF inv] tb l by simp
  have "err_queue s' = map copied es"
  proof (rule nth_equalityI)
    fix i
    assume "i < length (err_queue s')"
    then have "i < length es" by (simp add: err_queue_def c)
    then show "err_queue s' ! i = map copied es ! i"
      using l er tb by (simp add: err_queue_def c err_slot_alt [OF inv] nth_append)
  qed (simp add: err_queue_def c)
  then show ?thesis using inv assms(3,4) l
    by (simp add: ERR_restore_state_def s'_def ERR_NUM_ERRORS_def)
qed

section \<open>Error data\<close>

lemma strlcat_text:
  "0 \<notin> set t \<Longrightarrow> length t + length (c_text u) < n \<Longrightarrow> n \<le> length (t @ 0 # rest) \<Longrightarrow>
   OPENSSL_strlcat (t @ 0 # rest) u n =
     (t @ c_text u @ 0 # drop (length (c_text u)) rest, length t + length (c_text u))"
proof (induction t arbitrary: n)
  case Nil
  then have "take (n - 1) (c_text u) = c_text u" by simp
  then show ?case using Nil OPENSSL_strlcpy_spec [of n "0 # rest" u]
    by (subst OPENSSL_strlcat.simps) (simp add: strlen_c_text)
next
  case (Cons c t)
  then have IH: "OPENSSL_strlcat (t @ 0 # rest) u (n - 1) =
      (t @ c_text u @ 0 # drop (length (c_text u)) rest, length t + length (c_text u))" by auto
  have c: "c \<noteq> 0" "0 < n" using Cons.prems by auto
  show ?case by (subst OPENSSL_strlcat.simps) (simp add: c IH [unfolded One_nat_def])
qed

definition vdata_text :: "u8 list option list \<Rightarrow> u8 list" where
  "vdata_text args = concat (map (\<lambda>a. case a of None \<Rightarrow> [] | Some s \<Rightarrow> c_text s) args)"

lemma vdata_size_text:
  "t \<le> size_mod - 1 \<Longrightarrow> vdata_size t args =
     (if t + length (vdata_text args) \<le> size_mod - 1 then Some (t + length (vdata_text args)) else None)"
proof (induction t args rule: vdata_size.induct)
  case (3 t s args)
  then show ?case by (cases "size_mod - 1 - t < strlen s") (auto simp: vdata_text_def strlen_c_text)
qed (simp_all add: vdata_text_def)

lemma vdata_copy_text:
  "0 \<notin> set t \<Longrightarrow> length t + length (vdata_text args) < n \<Longrightarrow> length (t @ 0 # rest) = n \<Longrightarrow>
   \<exists>rest'. vdata_copy (t @ 0 # rest) args n = Some (t @ vdata_text args @ 0 # rest') \<and>
     length (t @ vdata_text args @ 0 # rest') = n"
proof (induction args arbitrary: t rest)
  case Nil
  then show ?case by (auto simp: vdata_text_def)
next
  case (Cons a args)
  show ?case
  proof (cases a)
    case None
    then show ?thesis using Cons by (simp add: vdata_text_def)
  next
    case (Some s)
    have nz: "0 \<notin> set (t @ c_text s)" using Cons.prems(1) by (auto simp: c_text_def dest: set_takeWhileD)
    have len: "length (t @ c_text s) + length (vdata_text args) < n" "length ((t @ c_text s) @ 0 # drop (length (c_text s)) rest) = n"
      using Cons.prems Some by (auto simp: vdata_text_def)
    have "OPENSSL_strlcat (t @ 0 # rest) s n =
        ((t @ c_text s) @ 0 # drop (length (c_text s)) rest, length t + length (c_text s))"
      using strlcat_text [of t s n rest] Cons.prems Some by (simp add: vdata_text_def)
    then show ?thesis using Cons.IH [OF nz len] len(1) Some by (auto simp: vdata_text_def)
  qed
qed

text \<open>The strings are joined and become the data of the newest error; the assertion in the loop never fails.\<close>

lemma add_error_data_queue:
  assumes "err_ok slot" "length (vdata_text args) < size_mod - 1" "env_malloc_ok E (length (vdata_text args) + 1)"
  shows "\<exists>slot'. ERR_add_error_data E junk args slot = Some slot' \<and> err_ok slot' \<and>
     err_q slot' = on_last (\<lambda>e. e\<lparr>err_data := Some (vdata_text args @ [0])\<rparr>) (err_q slot)"
proof -
  define n where "n = length (vdata_text args) + 1"
  define rest where "rest = map junk [1..<n]"
  have b: "(map junk [0..<length (vdata_text args) + 1])[0 := 0] = [] @ 0 # rest"
    unfolding n_def [symmetric] rest_def by (simp add: n_def upt_conv_Cons del: upt_Suc)
  have "length ([] @ 0 # rest) = n" by (simp add: rest_def n_def del: upt_Suc)
  then obtain rest' where "vdata_copy ([] @ 0 # rest) args n = Some ([] @ vdata_text args @ 0 # rest')"
      "length ([] @ vdata_text args @ 0 # rest') = n"
    using vdata_copy_text [of "[]" args n rest] by (auto simp: n_def)
  moreover from this(2) have "rest' = []" by (simp add: n_def)
  ultimately have c: "vdata_copy ([] @ 0 # rest) args n = Some (vdata_text args @ [0])" by simp
  have "ERR_add_error_data E junk args slot = Some (err_set_error_data E (vdata_text args @ [0]) slot)"
    using assms(2,3) c unfolding ERR_add_error_data_def err_add_error_vdata_def
    by (simp add: vdata_size_text b [unfolded One_nat_def add_Suc_right add_0_right] n_def Let_def del: upt_Suc)
  then show ?thesis using set_error_data_queue [OF assms(1)] by simp
qed

end
