(* ===== verification/Err_Text_Correct.thy ===== *)
theory Err_Text_Correct
  imports Err_Text Err_Correct Word_Facts
begin

text \<open>
  The reason table is searched correctly, an error text has its four colons however short the buffer, and printing the
  queue visits the errors in order and ends.
\<close>

declare bsearch_range.simps [simp del] colon_loop.simps [simp del] fmt_u.simps [simp del]

section \<open>The search\<close>

text \<open>A comparison that follows the order of the entries finds an entry that compares equal, if there is one.\<close>

definition ordered_by :: "('a \<Rightarrow> 'a \<Rightarrow> int) \<Rightarrow> 'a \<Rightarrow> 'a list \<Rightarrow> bool" where
  "ordered_by cmp key xs \<longleftrightarrow>
     (\<forall>i j. i < j \<and> j < length xs \<longrightarrow> (cmp key (xs ! i) \<le> 0 \<longrightarrow> cmp key (xs ! j) < 0) \<and> (cmp key (xs ! j) \<ge> 0 \<longrightarrow> cmp key (xs ! i) > 0))"

lemma bsearch_range_correct:
  "ordered_by cmp key xs \<Longrightarrow> hi \<le> length xs \<Longrightarrow>
   (case bsearch_range cmp key xs lo hi of
      None \<Rightarrow> \<forall>i. lo \<le> i \<and> i < hi \<longrightarrow> cmp key (xs ! i) \<noteq> 0
    | Some x \<Rightarrow> \<exists>i. lo \<le> i \<and> i < hi \<and> x = xs ! i \<and> cmp key x = 0)"
proof (induction cmp key xs lo hi rule: bsearch_range.induct)
  case (1 cmp key xs lo hi)
  show ?case
  proof (cases "lo \<ge> hi")
    case True
    then show ?thesis by (simp add: bsearch_range.simps)
  next
    case False
    define mid where "mid = (lo + hi) div 2"
    define c where "c = cmp key (xs ! mid)"
    have mid: "lo \<le> mid" "mid < hi" using False by (auto simp: mid_def)
    have above: "cmp key (xs ! i) < 0" if "c \<le> 0" "mid < i" "i < hi" for i
      using 1(3,4) that mid by (auto simp: ordered_by_def c_def)
    have "mid < length xs" using mid 1(4) by simp
    then have below: "cmp key (xs ! i) > 0" if "c \<ge> 0" "i < mid" for i
      using 1(3) that by (auto simp: ordered_by_def c_def)
    consider "c = 0" | "c < 0" | "c > 0" by linarith
    then show ?thesis
    proof cases
      case 1
      then show ?thesis using False mid by (subst bsearch_range.simps) (auto simp: Let_def mid_def [symmetric] c_def)
    next
      case 2
      have IH: "case bsearch_range cmp key xs lo mid of
            None \<Rightarrow> \<forall>i. lo \<le> i \<and> i < mid \<longrightarrow> cmp key (xs ! i) \<noteq> 0
          | Some x \<Rightarrow> \<exists>i. lo \<le> i \<and> i < mid \<and> x = xs ! i \<and> cmp key x = 0"
        using "1.IH"(1) [OF _ mid_def c_def] False 2 1(3,4) mid by simp
      have "cmp key (xs ! i) \<noteq> 0" if "mid \<le> i" "i < hi" for i
        using above [of i] that 2 by (cases "i = mid") (auto simp: c_def)
      then have all: "(\<forall>i. lo \<le> i \<and> i < mid \<longrightarrow> cmp key (xs ! i) \<noteq> 0) \<Longrightarrow> \<forall>i. lo \<le> i \<and> i < hi \<longrightarrow> cmp key (xs ! i) \<noteq> 0"
        by (meson not_le)
      have "bsearch_range cmp key xs lo hi = bsearch_range cmp key xs lo mid"
        using False 2 by (subst bsearch_range.simps) (simp add: Let_def mid_def [symmetric] c_def [symmetric])
      then show ?thesis using IH all mid(2) by (auto split: option.splits)
    next
      case 3
      have IH: "case bsearch_range cmp key xs (mid + 1) hi of
            None \<Rightarrow> \<forall>i. mid + 1 \<le> i \<and> i < hi \<longrightarrow> cmp key (xs ! i) \<noteq> 0
          | Some x \<Rightarrow> \<exists>i. mid + 1 \<le> i \<and> i < hi \<and> x = xs ! i \<and> cmp key x = 0"
        using "1.IH"(2) [OF _ mid_def c_def] False 3 1(3,4) mid by simp
      have low: "cmp key (xs ! i) \<noteq> 0" if "i < mid + 1" for i
        using below [of i] that 3 by (cases "i = mid") (auto simp: c_def)
      have "bsearch_range cmp key xs lo hi = bsearch_range cmp key xs (mid + 1) hi"
        using False 3 by (subst bsearch_range.simps) (simp add: Let_def mid_def [symmetric] c_def [symmetric])
      moreover have "(\<forall>i. mid + 1 \<le> i \<and> i < hi \<longrightarrow> cmp key (xs ! i) \<noteq> 0) \<Longrightarrow> \<forall>i. lo \<le> i \<and> i < hi \<longrightarrow> cmp key (xs ! i) \<noteq> 0"
        using low by (meson not_le)
      moreover have "mid + 1 \<le> i \<Longrightarrow> lo \<le> i" for i using mid(1) by simp
      ultimately show ?thesis using IH
        by (cases "bsearch_range cmp key xs (mid + 1) hi") (simp_all only: option.case, blast+)
    qed
  qed
qed

lemma err_string_cmp_ordered:
  assumes "sorted_wrt (<) (map (drop_bit 15) values)"
  shows "ordered_by err_string_cmp key values"
proof -
  have "drop_bit 15 (values ! i) < drop_bit 15 (values ! j)" if "i < j" "j < length values" for i j
    using sorted_wrt_nth_less [OF assms that(1)] that by simp
  then show ?thesis by (fastforce simp: ordered_by_def err_string_cmp_def Let_def)
qed

text \<open>The key of an entry: six bits of library and eleven of reason above the fifteen of the offset.\<close>

lemma search_key:
  assumes "lib < 2 ^ 6" "key < 2 ^ 11"
  shows "unat (drop_bit 15 (push_bit 26 (word_of_nat lib) OR push_bit 15 (word_of_nat key) :: u32)) = lib * 2 ^ 11 + key"
proof -
  have l: "unat (word_of_nat lib :: u32) = lib" "unat (word_of_nat key :: u32) = key" using assms by (simp_all add: unat_of_nat)
  have k: "unat (push_bit 15 (word_of_nat key) :: u32) = key * 2 ^ 15" using assms l by (simp add: unat_push_bit)
  have "unat (push_bit 26 (word_of_nat lib) OR push_bit 15 (word_of_nat key) :: u32) = lib * 2 ^ 26 + key * 2 ^ 15"
    using unat_shift_in [of "word_of_nat lib :: u32" 26 "push_bit 15 (word_of_nat key)"] k l assms by simp
  moreover have "(lib * 2 ^ 26 + key * 2 ^ 15) div 2 ^ 15 = lib * 2 ^ 11 + key" by simp
  ultimately show ?thesis by (simp only: unat_drop_bit)
qed

lemma err_string_lookup_correct:
  assumes "sorted_wrt (<) (map (drop_bit 15) values)" "lib < 2 ^ 6" "key < 2 ^ 11"
  shows "v \<in> set values \<Longrightarrow> unat (drop_bit 15 v) = lib * 2 ^ 11 + key \<Longrightarrow>
      err_string_lookup lib key values sd = Some (drop (unat (v AND 0x7fff)) sd)"
    and "\<forall>v \<in> set values. unat (drop_bit 15 v) \<noteq> lib * 2 ^ 11 + key \<Longrightarrow> err_string_lookup lib key values sd = None"
proof -
  define sk where "sk = (push_bit 26 (word_of_nat lib) OR push_bit 15 (word_of_nat key) :: u32)"
  note bs = bsearch_range_correct [OF err_string_cmp_ordered [OF assms(1)] order.refl, where key = sk and lo = 0]
  have cmp: "err_string_cmp sk x = 0 \<longleftrightarrow> unat (drop_bit 15 x) = lib * 2 ^ 11 + key" for x
    using search_key [OF assms(2,3), folded sk_def] by (auto simp: err_string_cmp_def Let_def word_less_nat_alt)
  have unf: "err_string_lookup lib key values sd =
      map_option (\<lambda>r. drop (unat (r AND 0x7fff)) sd) (bsearch_range err_string_cmp sk values 0 (length values))"
    using assms(2,3) by (simp add: err_string_lookup_def Let_def sk_def [symmetric] split: option.split)
  show "err_string_lookup lib key values sd = None" if "\<forall>v \<in> set values. unat (drop_bit 15 v) \<noteq> lib * 2 ^ 11 + key"
    using bs that cmp by (auto simp: unf split: option.splits)
  show "err_string_lookup lib key values sd = Some (drop (unat (v AND 0x7fff)) sd)"
    if v: "v \<in> set values" "unat (drop_bit 15 v) = lib * 2 ^ 11 + key"
  proof (cases "bsearch_range err_string_cmp sk values 0 (length values)")
    case None
    then show ?thesis using bs v cmp by (auto simp: in_set_conv_nth)
  next
    case (Some x)
    then obtain i where i: "i < length values" "x = values ! i" "err_string_cmp sk x = 0" using bs by auto
    obtain j where j: "j < length values" "v = values ! j" using v(1) by (auto simp: in_set_conv_nth)
    have "unat (drop_bit 15 (values ! i)) = unat (drop_bit 15 (values ! j))" using i(2,3) j(2) v(2) cmp by metis
    then have "drop_bit 15 (values ! i) = drop_bit 15 (values ! j)" by (simp only: word_unat_eq_iff)
    then have "i = j" using sorted_wrt_nth_less [OF assms(1), of i j] sorted_wrt_nth_less [OF assms(1), of j i] i j
      by (cases i j rule: linorder_cases) auto
    then show ?thesis using Some i j by (simp add: unf)
  qed
qed

section \<open>Colons\<close>

definition colons :: "u8 list \<Rightarrow> nat" where
  "colons s = count_list s 58"

lemma colons_replicate: "colons (replicate n 58) = n"
  by (induction n) (simp_all add: colons_def)

lemma colons_append: "colons (xs @ ys) = colons xs + colons ys"
  by (simp add: colons_def count_list_append)

lemma colons_take_mono: "m \<le> n \<Longrightarrow> colons (take m s) \<le> colons (take n s)"
  using take_add [of m "n - m" s] by (simp add: colons_def count_list_append)

lemma strchr_Some:
  assumes "strchr buf s c = Some k"
  shows "s \<le> k" "k < length buf" "buf ! k = c"
  using assms by (auto simp: strchr_def Let_def split: if_splits)

text \<open>A text of \<open>len - 1\<close> characters and its zero byte.\<close>

definition full_text :: "u8 list \<Rightarrow> nat \<Rightarrow> bool" where
  "full_text buf len \<longleftrightarrow> len \<le> length buf \<and> 0 < len \<and> buf ! (len - 1) = 0 \<and> (\<forall>k < len - 1. buf ! k \<noteq> 0)"

lemma full_text_chars:
  assumes "full_text buf len"
  shows "c_text buf = take (len - 1) buf" "strlen buf = len - 1"
proof -
  have l: "len - 1 < length buf" "buf ! (len - 1) = 0" "\<forall>k < len - 1. buf ! k \<noteq> 0" using assms by (auto simp: full_text_def)
  have eq: "buf = take (len - 1) buf @ 0 # drop len buf"
    using id_take_nth_drop [OF l(1)] l(2) assms by (simp add: full_text_def)
  have "\<forall>c \<in> set (take (len - 1) buf). c \<noteq> 0" using l by (auto simp: in_set_conv_nth)
  then have "c_text (take (len - 1) buf @ 0 # drop len buf) = take (len - 1) buf" by (simp add: c_text_def)
  then show c: "c_text buf = take (len - 1) buf" unfolding eq [symmetric] .
  have "strlen buf = length (c_text buf)" by (simp add: strlen_def c_text_def)
  then show "strlen buf = len - 1" using c l(1) by simp
qed

lemma colon_loop_colons:
  "full_text buf len \<Longrightarrow> 4 < len \<Longrightarrow> i \<le> 4 \<Longrightarrow> s \<le> len - 5 + i \<Longrightarrow> i \<le> colons (take s buf) \<Longrightarrow> b = colon_loop buf len s i \<Longrightarrow>
   full_text b len \<and> length b = length buf \<and> drop len b = drop len buf \<and> 4 \<le> colons (take (len - 1) b)"
proof (induction buf len s i arbitrary: b rule: colon_loop.induct)
  case (1 buf len s i)
  show ?case
  proof (cases "i < 4")
    case False
    then have "b = buf" "i = 4" using 1 by (auto simp: colon_loop.simps)
    moreover have "colons (take s buf) \<le> colons (take (len - 1) buf)" using "1.prems"(2,4) \<open>i = 4\<close> by (intro colons_take_mono) linarith
    ultimately show ?thesis using 1 by simp
  next
    case True
    define lp where "lp = len - 1 - 4 + i"
    have lp: "lp + (4 - i) = len - 1" "s \<le> lp" "lp = len - 5 + i" using 1 True by (auto simp: lp_def)
    define w where "w = write_at lp (replicate (4 - i) 58) buf"
    have lb: "len \<le> length buf" "buf ! (len - 1) = 0" "\<forall>k < len - 1. buf ! k \<noteq> 0" using "1.prems"(1) by (auto simp: full_text_def)
    have tw: "take (len - 1) w = take lp buf @ replicate (4 - i) 58"
      using take_write_at [of lp "replicate (4 - i) 58" buf] lp lb "1.prems"(2) by (simp add: w_def)
    have dw: "length w = length buf" "drop (len - 1) w = drop (len - 1) buf"
      using lp lb "1.prems"(2) by (auto simp: w_def write_at_def)
    have fw: "full_text w len"
    proof -
      have "w ! (len - 1) = 0" using arg_cong [OF dw(2), of "\<lambda>xs. xs ! 0"] dw(1) lb "1.prems"(2) by simp
      moreover have "w ! k \<noteq> 0" if "k < len - 1" for k
      proof -
        have "w ! k = (take lp buf @ replicate (4 - i) 58) ! k" using that tw nth_take [OF that, of w] by simp
        then show ?thesis using that lp lb by (auto simp: nth_append)
      qed
      ultimately show ?thesis using dw(1) lb "1.prems"(2) by (simp add: full_text_def)
    qed
    have "drop len w = drop 1 (drop (len - 1) w)" "drop len buf = drop 1 (drop (len - 1) buf)" using "1.prems"(2) by auto
    then have "drop len w = drop len buf" using dw(2) by metis
    moreover have "colons (take lp buf) \<ge> i" using colons_take_mono [OF lp(2), of buf] "1.prems"(5) by simp
    then have "4 \<le> colons (take (len - 1) w)" using True unfolding tw by (simp add: colons_append colons_replicate)
    ultimately have W: "full_text w len \<and> length w = length buf \<and> drop len w = drop len buf \<and> 4 \<le> colons (take (len - 1) w)"
      using fw dw by simp
    show ?thesis
    proof (cases "\<exists>k. strchr buf s 58 = Some k \<and> k \<le> lp")
      case False
      then have "b = w" using "1.prems"(6) True
        by (subst (asm) colon_loop.simps) (auto simp: Let_def lp_def w_def split: option.splits)
      then show ?thesis using W by simp
    next
      case found: True
      then obtain k where k: "strchr buf s 58 = Some k" "k \<le> lp" by auto
      have "b = colon_loop buf len (k + 1) (i + 1)" using "1.prems"(6) True k
        by (subst (asm) colon_loop.simps) (simp add: Let_def lp_def)
      moreover have "colons (take (k + 1) buf) = colons (take k buf) + 1"
        using strchr_Some [OF k(1)] by (simp add: take_Suc_conv_app_nth colons_def count_list_append)
      then have "i + 1 \<le> colons (take (k + 1) buf)" using colons_take_mono [OF strchr_Some(1) [OF k(1)], of buf] "1.prems"(5) by simp
      moreover have "\<not> k > len - 1 - 4 + i" using k(2) lp_def by simp
      ultimately show ?thesis using "1.IH" [OF True refl k(1), of b] "1.prems"(1,2) True k(2) lp by simp
    qed
  qed
qed

section \<open>The text of an error\<close>

lemma c_lit_facts:
  "colons (c_lit ''error:'') = 1" "colons (c_lit '':'') = 1" "colons (c_lit '':OPENSSL_internal:'') = 2"
  "0 \<notin> set (c_lit ''error:'')" "0 \<notin> set (c_lit '':'')" "0 \<notin> set (c_lit '':OPENSSL_internal:'')"
  by code_simp+

lemma hex_digit_nonzero: "d < 16 \<Longrightarrow> hex_digit d \<noteq> 0"
  by (auto simp: hex_digit_def word_unat_eq_iff unat_word_of_nat_u8 simp del: of_nat_add)

lemma err_full_text_facts: "4 \<le> colons (err_full_text T p)" "0 \<notin> set (err_full_text T p)"
proof -
  have hex: "0 \<notin> set (fmt_08x p)" using hex_digit_nonzero by (auto simp: fmt_08x_def)
  have chars: "0 \<notin> set (c_text s)" for s by (auto simp: c_text_def dest: set_takeWhileD)
  show "4 \<le> colons (err_full_text T p)" using c_lit_facts(1-3) by (simp add: err_full_text_def Let_def colons_def count_list_append)
  show "0 \<notin> set (err_full_text T p)" using c_lit_facts(4-6) hex chars by (simp add: err_full_text_def Let_def)
qed

lemma snprintf_text:
  assumes "0 \<notin> set s" "0 < len" "len \<le> length buf" "c_snprintf buf len s = (b, r)"
  shows "full_text b (min len (length s + 1))" "take (min len (length s + 1) - 1) b = take (len - 1) s"
    "length b = length buf" "drop len b = drop len buf" "r = length s"
proof -
  define n where "n = min len (length s + 1) - 1"
  have ln: "length (take (len - 1) s) = n" using assms(2) by (auto simp: n_def min_def)
  have "b = write_at 0 (take (len - 1) s @ [0]) buf" using assms(4) by (simp add: c_snprintf_def)
  then have b: "b = take (len - 1) s @ 0 # drop (Suc n) buf" "length (take (len - 1) s) = n"
    unfolding write_at_def length_append ln by (simp_all add: ln [symmetric])
  have n: "Suc n = min len (length s + 1)" "n < length buf" using assms(2,3) by (auto simp: n_def)
  have z: "b ! k \<noteq> 0" if "k < n" for k
    using that b assms(1) nth_mem [of k "take (len - 1) s"] by (auto simp: nth_append dest: in_set_takeD)
  show "length b = length buf" using b n by simp
  moreover have "b ! n = 0" using b by (simp add: nth_append)
  ultimately show "full_text b (min len (length s + 1))" using n z unfolding full_text_def n(1) [symmetric] by simp
  show "take (min len (length s + 1) - 1) b = take (len - 1) s" unfolding n_def [symmetric] b(1) b(2) [symmetric] by (rule append_eq_conv_conj [THEN iffD1, OF refl, THEN conjunct1, symmetric])
  have "drop (Suc n) b = drop (Suc n) buf" unfolding b(1) using b(2) by (simp del: length_take)
  moreover have "drop len xs = drop (len - Suc n) (drop (Suc n) xs)" for xs :: "u8 list" using n(1) by simp
  ultimately show "drop len b = drop len buf" by metis
  show "r = length s" using assms(4) by (simp add: c_snprintf_def)
qed

lemma error_string_text:
  assumes "0 < len" "len \<le> length buf"
  shows "\<exists>b. ERR_error_string_n T p buf len = Some b \<and> length b = length buf \<and> drop len b = drop len buf \<and> strlen b < len \<and>
     (length (err_full_text T p) < len \<longrightarrow> c_text b = err_full_text T p) \<and> (4 < len \<longrightarrow> 4 \<le> colons (c_text b))"
proof -
  define s where "s = err_full_text T p"
  have s: "4 \<le> colons s" "0 \<notin> set s" using err_full_text_facts by (auto simp: s_def)
  obtain b0 r where r: "c_snprintf buf len s = (b0, r)" by fastforce
  note sp = snprintf_text [OF s(2) assms r]
  show ?thesis
  proof (cases "length s < len")
    case True
    then have f: "full_text b0 (length s + 1)" using sp(1) by simp
    have "c_text b0 = s" using full_text_chars(1) [OF f] sp(2) True by simp
    then show ?thesis using True sp full_text_chars(2) [OF f] s r by (auto simp: ERR_error_string_n_def s_def [symmetric])
  next
    case False
    then have f: "full_text b0 len" using sp(1) by simp
    show ?thesis
    proof (cases "4 < len")
      case True
      define b where "b = colon_loop b0 len 0 0"
      have "full_text b len \<and> length b = length b0 \<and> drop len b = drop len b0 \<and> 4 \<le> colons (take (len - 1) b)"
        using colon_loop_colons [OF f True, of 0 0 b] by (simp add: b_def)
      then show ?thesis using False True r sp full_text_chars [of b len]
        by (auto simp: ERR_error_string_n_def s_def [symmetric] b_def [symmetric])
    next
      case short: False
      then show ?thesis using False r sp full_text_chars [OF f] assms(1) by (auto simp: ERR_error_string_n_def s_def [symmetric])
    qed
  qed
qed

section \<open>Printing the queue\<close>

text \<open>What reaches the callback: the errors from the oldest on, until the callback refuses one or an error code is zero.\<close>

lemma print_errors_ends:
  "err_ok slot \<Longrightarrow>
   \<exists>ctx' slot' n. ERR_print_errors_cb E T th callback ctx slot = Some (ctx', slot') \<and> err_ok slot' \<and> n \<le> length (err_q slot) \<and>
     err_q slot' = drop n (err_q slot)"
proof (induction "length (err_q slot)" arbitrary: slot ctx rule: less_induct)
  case less
  obtain p out slot1 where g: "ERR_get_error_line_data E slot = (p, out, slot1)" by (metis prod_cases3)
  note gv = get_error_values_queue [OF less.prems _ g [unfolded ERR_get_error_line_data_def], simplified]
  show ?case
  proof (cases "p = 0")
    case True
    have "err_q slot1 = drop (if err_q slot = [] then 0 else 1) (err_q slot)" using gv(2) by (simp add: drop_Suc)
    then show ?thesis using True g gv(1)
      by (intro exI [of _ ctx] exI [of _ slot1] exI [of _ "if err_q slot = [] then 0 else 1"], subst ERR_print_errors_cb.simps)
        (auto simp: Suc_le_eq)
  next
    case False
    then have ne: "err_q slot \<noteq> []" using gv(3) by (auto split: if_splits)
    then have d: "err_q slot1 = drop 1 (err_q slot)" "length (err_q slot1) < length (err_q slot)" using gv(2) by (auto simp: drop_Suc)
    obtain r ctx1 where cb: "callback (err_print_line T th p out) ctx = (r, ctx1)" by fastforce
    show ?thesis
    proof (cases "r \<le> 0")
      case True
      then show ?thesis using False g cb gv(1) d ne
        by (intro exI [of _ ctx1] exI [of _ slot1] exI [of _ 1], subst ERR_print_errors_cb.simps) (auto simp: Suc_le_eq)
    next
      case pos: False
      from less.hyps [OF d(2) gv(1), of ctx1] obtain ctx' slot' n where
        IH: "ERR_print_errors_cb E T th callback ctx1 slot1 = Some (ctx', slot')" "err_ok slot'" "n \<le> length (err_q slot1)"
          "err_q slot' = drop n (err_q slot1)" by auto
      moreover have "n + 1 \<le> length (err_q slot)" using IH(3) d(1) ne by (cases "err_q slot") auto
      ultimately show ?thesis using False pos g cb d(1)
        by (intro exI [of _ ctx'] exI [of _ slot'] exI [of _ "n + 1"], subst ERR_print_errors_cb.simps) auto
    qed
  qed
qed

end
