(* ===== verification/Err_Props.thy ===== *)
theory Err_Props
  imports Err_Text_Correct
begin

text \<open>
  The properties of the error queue and of the error texts, with witnesses.
\<close>

section \<open>The queue\<close>

definition calm :: err_env where
  "calm = \<lparr>env_malloc_ok = (\<lambda>_. True), env_set_ok = True, env_errno = 0\<rparr>"

lemma calm_state: "err_get_state calm slot \<noteq> None" "\<forall>n. env_malloc_ok calm n"
  by (simp_all add: err_get_state_def calm_def split: option.split)

text \<open>the state of the error queue stays well formed under every operation: the ring keeps its sixteen entries and the two
  indices stay inside it, whether or not memory is available.\<close>

theorem error_state_well_formed:
  assumes "err_ok slot"
  shows "err_ok (ERR_put_error E library reason file line slot) \<and> err_ok (snd (snd (get_error_values E slot inc (newest \<and> \<not> inc) f d fl))) \<and>
    err_ok (ERR_clear_error E slot) \<and> err_ok (err_set_error_data E data slot) \<and> err_ok (snd (ERR_set_mark E slot)) \<and>
    (\<forall>r slot'. ERR_pop_to_mark E slot = Some (r, slot') \<longrightarrow> err_ok slot') \<and> err_ok (snd (ERR_save_state E slot))"
proof -
  obtain r out slot' where g: "get_error_values E slot inc (newest \<and> \<not> inc) f d fl = (r, out, slot')" by (metis prod_cases3)
  have "err_ok slot'" using get_error_values_queue(1) [OF assms _ g] by simp
  moreover have "err_ok (snd (ERR_save_state E slot))"
    using assms get_state(1) [OF assms] by (cases "err_get_state E slot") (auto simp: ERR_save_state_def Let_def)
  ultimately show ?thesis
    using put_error_ok [OF assms] clear_error_queue [OF assms] set_error_data_queue(1) [OF assms] set_mark_queue(1) [OF assms]
      pop_to_mark_queue [OF assms, of E] g by auto
qed

theorem error_state_well_formed_witness: "err_ok (ERR_put_error calm 4 100 [0] 7 None)"
  using error_state_well_formed [of None calm] by simp

definition put_all :: "err_env \<Rightarrow> (int \<times> int \<times> u8 list \<times> nat) list \<Rightarrow> ERR_STATE option \<Rightarrow> ERR_STATE option" where
  "put_all E es slot = fold (\<lambda>(library, reason, file, line). ERR_put_error E library reason file line) es slot"

lemma put_all_queue:
  assumes "err_ok slot" "\<forall>slot. err_get_state E slot \<noteq> None"
  shows "err_ok (put_all E es slot) \<and>
    (let q = err_q slot @ map (\<lambda>(library, reason, file, line). new_error E library reason file line) es
     in err_q (put_all E es slot) = drop (length q - 15) q)"
  using assms(1)
proof (induction es rule: rev_induct)
  case Nil
  have "length (err_q slot) \<le> 15"
    using Nil err_count_less by (cases slot) (auto simp: err_queue_def ERR_NUM_ERRORS_def less_Suc_eq_le dest: err_count_less)
  then show ?case using Nil by (simp add: put_all_def)
next
  case (snoc e es)
  obtain library reason fl line where e: "e = (library, reason, fl, line)" by (cases e)
  define s where "s = put_all E es slot"
  define q where "q = err_q slot @ map (\<lambda>(library, reason, file, line). new_error E library reason file line) es"
  have s: "err_ok s" "err_q s = drop (length q - 15) q" using snoc by (simp_all add: s_def q_def Let_def)
  have "put_all E (es @ [e]) slot = ERR_put_error E library reason fl line s" by (simp add: put_all_def s_def e)
  moreover note put_error_queue [OF s(1), of E library reason fl line]
  moreover have "drop (length (q @ [x]) - 15) (q @ [x]) = (if length (err_q s) = 15 then tl (err_q s) else err_q s) @ [x]" for x
  proof (cases "15 \<le> length q")
    case True
    then have "length (q @ [x]) - 15 = Suc (length q - 15)" by simp
    then show ?thesis using True by (simp add: s(2) drop_Suc tl_drop)
  qed (auto simp: s(2))
  moreover have qq: "err_q slot @ map (\<lambda>(library, reason, file, line). new_error E library reason file line) (es @ [e]) =
      q @ [new_error E library reason fl line]" by (simp add: q_def e)
  ultimately show ?case using assms(2) unfolding Let_def qq by (simp add: err_capacity_def ERR_NUM_ERRORS_def)
qed

text \<open>C12: the queue keeps the fifteen most recent errors in order. After any number of \<open>ERR_put_error\<close> calls it holds the last
  fifteen of what it held followed by the new errors, and \<open>ERR_get_error\<close> returns and removes the oldest one.\<close>

theorem error_queue_keeps_latest:
  assumes "err_ok slot" "\<forall>slot. err_get_state E slot \<noteq> None"
    "q = err_q slot @ map (\<lambda>(library, reason, file, line). new_error E library reason file line) es" "q \<noteq> []"
  shows "err_q (put_all E es slot) = drop (length q - 15) q \<and>
    fst (ERR_get_error E (put_all E es slot)) = err_packed (q ! (length q - 15)) \<and>
    err_q (snd (ERR_get_error E (put_all E es slot))) = tl (drop (length q - 15) q)"
proof -
  note pq = put_all_queue [OF assms(1,2), of es, folded assms(3), unfolded Let_def]
  obtain r out slot' where g: "get_error_values E (put_all E es slot) True False False False False = (r, out, slot')"
    by (metis prod_cases3)
  have "ERR_get_error E (put_all E es slot) = (r, slot')" by (simp add: ERR_get_error_def g)
  moreover have "\<not> length q \<le> length q - 15" using assms(4) by (cases q) auto
  moreover have "hd (drop (length q - 15) q) = q ! (length q - 15)" using assms(4) by (simp add: hd_drop_conv_nth)
  ultimately show ?thesis using get_error_values_queue [OF conjunct1 [OF pq] _ g] pq assms(4) by simp
qed

theorem error_queue_keeps_latest_witness:
  "fst (ERR_get_error calm (put_all calm [(4, 100, [0], 7), (11, 101, [0], 8)] None)) = ERR_PACK 4 100"
  using error_queue_keeps_latest [of None calm _ "[(4, 100, [0], 7), (11, 101, [0], 8)]"] calm_state
  by (simp add: new_error_def ERR_LIB_SYS_def)

text \<open>\<open>ERR_pop_to_mark\<close> ends. It removes errors from the newest on and stops at the first one with a mark, which it
  keeps without its mark; it returns zero and leaves the queue empty when no error is marked.\<close>

theorem pop_to_mark_stops_at_mark:
  assumes "err_ok slot" "err_q slot = older @ marked # newer" "err_mark marked" "\<forall>e \<in> set newer. \<not> err_mark e"
  shows "\<exists>slot'. ERR_pop_to_mark E slot = Some (True, slot') \<and> err_q slot' = older @ [marked\<lparr>err_mark := False\<rparr>]"
proof -
  have "pop_spec (rev newer @ marked # rev older) = (True, marked\<lparr>err_mark := False\<rparr> # rev older)"
    using assms(4) by (induction newer rule: rev_induct) (auto simp: assms(3))
  then have "pop_spec (rev (err_q slot)) = (True, marked\<lparr>err_mark := False\<rparr> # rev older)" by (simp add: assms(2))
  then show ?thesis using pop_to_mark_queue [OF assms(1), of E] by (auto simp: rev_swap)
qed

lemma demo_queue: "err_q (ERR_put_error calm 4 100 [0] 7 (snd (ERR_set_mark calm (ERR_put_error calm 4 99 [0] 7 None)))) =
    [] @ (new_error calm 4 99 [0] 7)\<lparr>err_mark := True\<rparr> # [new_error calm 4 100 [0] 7]"
  "err_ok (ERR_put_error calm 4 100 [0] 7 (snd (ERR_set_mark calm (ERR_put_error calm 4 99 [0] 7 None))))"
  using put_error_queue [of None calm 4 99 "[0]" 7] put_error_queue [of _ calm 4 100 "[0]" 7] calm_state
    set_mark_queue [of "ERR_put_error calm 4 99 [0] 7 None" calm]
  by (simp_all add: on_last_def err_capacity_def ERR_NUM_ERRORS_def)

theorem pop_to_mark_stops_at_mark_witness:
  "\<exists>slot'. ERR_pop_to_mark calm (ERR_put_error calm 4 100 [0] 7 (snd (ERR_set_mark calm (ERR_put_error calm 4 99 [0] 7 None)))) =
      Some (True, slot') \<and> length (err_q slot') = 1"
  using pop_to_mark_stops_at_mark [OF demo_queue(2,1), of calm] by (auto simp: new_error_def)

text \<open>a saved error state restores the queue. Whatever happened to the queue since, after \<open>ERR_restore_state\<close> it holds
  again the errors it held at \<open>ERR_save_state\<close>, in order and with their data, and without their marks.\<close>

theorem save_restore_roundtrip:
  assumes "err_ok slot" "\<forall>n. env_malloc_ok E n" "err_q slot \<noteq> []" "err_ok later" "err_get_state E later \<noteq> None"
  shows "\<exists>saved slot'. ERR_save_state E slot = (Some saved, slot) \<and> ERR_restore_state E (Some saved) later = Some slot' \<and>
    err_ok slot' \<and> err_q slot' = map copied (err_q slot)"
proof -
  obtain s where s: "slot = Some s" using assms(3) by (cases slot) auto
  have len: "length (map copied (err_q slot)) \<le> err_capacity"
    using assms(1) err_count_less [of s] by (simp add: s err_queue_def err_capacity_def)
  obtain dst where dst: "err_get_state E later = Some dst" using assms(5) by auto
  from restore_state_queue [OF assms(4,2) dst _ len] assms(3) save_state_queue [OF assms(1-3)]
  show ?thesis by (auto simp: copied_idem)
qed

theorem save_restore_roundtrip_witness:
  "\<exists>saved slot'. ERR_save_state calm (ERR_put_error calm 4 99 [0] 7 None) = (Some saved, ERR_put_error calm 4 99 [0] 7 None) \<and>
     ERR_restore_state calm (Some saved) None = Some slot' \<and> map err_packed (err_q slot') = [ERR_PACK 4 99]"
proof -
  have q: "err_ok (ERR_put_error calm 4 99 [0] 7 None)" "err_q (ERR_put_error calm 4 99 [0] 7 None) = [new_error calm 4 99 [0] 7]"
    using put_error_queue [of None calm 4 99 "[0]" 7] calm_state by (simp_all add: err_capacity_def ERR_NUM_ERRORS_def)
  show ?thesis
    using save_restore_roundtrip [OF q(1) calm_state(2), of None] calm_state(1) [of None] q(2)
    by (fastforce simp: copied_def new_error_def ERR_LIB_SYS_def)
qed

section \<open>The texts\<close>

text \<open>\<open>ERR_error_string_n\<close> writes within the buffer it is given and leaves a terminated text shorter than \<open>len\<close>: the
  full text of the error when it fits. However short the buffer, once there is room for them the text has its four colons.\<close>

theorem error_string_is_well_formed:
  assumes "0 < len" "len \<le> length buf"
  shows "\<exists>b. ERR_error_string_n T packed_error buf len = Some b \<and> length b = length buf \<and> drop len b = drop len buf \<and> strlen b < len \<and>
    (length (err_full_text T packed_error) < len \<longrightarrow> c_text b = err_full_text T packed_error) \<and> (4 < len \<longrightarrow> 4 \<le> count_list (c_text b) 58)"
  using error_string_text [OF assms, of T packed_error] by (simp add: colons_def)

theorem error_string_is_well_formed_witness:
  "\<exists>b. ERR_error_string_n \<lparr>tab_strerror = (\<lambda>_. [0]), tab_values = [], tab_string_data = []\<rparr> (ERR_PACK 4 99) (replicate 10 0) 10 = Some b \<and>
     strlen b < 10 \<and> 4 \<le> count_list (c_text b) 58"
  using error_string_is_well_formed [of 10 "replicate 10 0" "\<lparr>tab_strerror = (\<lambda>_. [0]), tab_values = [], tab_string_data = []\<rparr>" "ERR_PACK 4 99"]
  by auto

text \<open>the binary search in the reason table finds the string of a library and reason when the table has one, and only
  then, for every table that is sorted as the generated one.\<close>

theorem reason_lookup_correct:
  assumes "sorted_wrt (<) (map (drop_bit 15) values)" "lib < 2 ^ 6" "key < 2 ^ 11"
  shows "(\<forall>v \<in> set values. unat (drop_bit 15 v) = lib * 2 ^ 11 + key \<longrightarrow>
      err_string_lookup lib key values sd = Some (drop (unat (v AND 0x7fff)) sd)) \<and>
    ((\<forall>v \<in> set values. unat (drop_bit 15 v) \<noteq> lib * 2 ^ 11 + key) \<longrightarrow> err_string_lookup lib key values sd = None)"
  using err_string_lookup_correct [OF assms] by blast

theorem reason_lookup_correct_witness:
  "err_string_lookup 4 100 [0x10320000, 0x10328002] [65, 0, 66, 0] = Some [65, 0, 66, 0]"
proof -
  have "sorted_wrt (<) (map (drop_bit 15) [0x10320000, 0x10328002 :: u32])" by simp
  from reason_lookup_correct [OF this, of 4 100 "[65, 0, 66, 0]"] show ?thesis by simp
qed

end
