(* ===== verification/Bn_Words.thy ===== *)
theory Bn_Words
  imports Constant_Time Word_Facts
begin

unbundle bit_operations_syntax

text \<open>
  The word arithmetic of \<open>crypto/fipsmodule/bn/generic.c\<close> with the carry primitives of \<open>crypto/internal.h\<close>. The memory of
  \<open>BN_ULONG\<close>s is a function from addresses, counted in words, to 64-bit words; a pointer is an address. The functions
  take the memory and return it changed, so that overlapping operands behave as in the code. A \<open>BN_ULLONG\<close> is
  the 128-bit word.
\<close>

type_synonym words = "nat \<Rightarrow> u64"
type_synonym u128 = "128 word"

section \<open>The code\<close>

text \<open>\<open>declassify_assert(carry <= 1)\<close> and its counterpart for the borrow are not branches of the model. The loops start with a carry of
  zero and pass on the one they get, and the proofs of their results show that it stays at most one (\<open>carry_chain\<close>), so
  the assertions never fail in them.\<close>

definition CRYPTO_addc_w :: "u64 \<Rightarrow> u64 \<Rightarrow> u64 \<Rightarrow> u64 \<times> u64" where
  "CRYPTO_addc_w x y carry =
     (let ret = (ucast carry :: u128);
          ret = ret + (ucast x + ucast y)
      in (ucast ret, ucast (drop_bit 64 ret)))"

definition CRYPTO_subc_w :: "u64 \<Rightarrow> u64 \<Rightarrow> u64 \<Rightarrow> u64 \<times> u64" where
  "CRYPTO_subc_w x y borrow =
     (let ret = x - y - borrow
      in (ret, (if x < y then 1 else 0) OR ((if x = y then 1 else 0) AND borrow)))"

definition Lw :: "u128 \<Rightarrow> u64" where
  "Lw t = ucast t"

definition Hw :: "u128 \<Rightarrow> u64" where
  "Hw t = ucast (drop_bit 64 t)"

text \<open>The macros return the new values of the variables they assign.\<close>

definition mul_add :: "u64 \<Rightarrow> u64 \<Rightarrow> u64 \<Rightarrow> u64 \<Rightarrow> u64 \<times> u64" where
  "mul_add r a w c = (let t = ucast w * ucast a + ucast r + ucast c in (Lw t, Hw t))"

definition mul :: "u64 \<Rightarrow> u64 \<Rightarrow> u64 \<Rightarrow> u64 \<times> u64" where
  "mul a w c = (let t = ucast w * ucast a + ucast c in (Lw t, Hw t))"

definition sqr :: "u64 \<Rightarrow> u64 \<times> u64" where
  "sqr a = (let t = ucast a * ucast a in (Lw t, Hw t))"

text \<open>The loops of the file run a step on four words at a time, then on single words. A step gets
  the index of its word and the carry.\<close>

fun words_rest :: "(words \<Rightarrow> nat \<Rightarrow> u64 \<Rightarrow> words \<times> u64) \<Rightarrow> words \<Rightarrow> nat \<Rightarrow> nat \<Rightarrow> u64 \<Rightarrow> words \<times> u64" where
  "words_rest f m i 0 c = (m, c)"
| "words_rest f m i (Suc n) c = (let (m, c) = f m i c in words_rest f m (i + 1) n c)"

function (sequential) words_loop :: "(words \<Rightarrow> nat \<Rightarrow> u64 \<Rightarrow> words \<times> u64) \<Rightarrow> words \<Rightarrow> nat \<Rightarrow> nat \<Rightarrow> u64 \<Rightarrow> words \<times> u64" where
  "words_loop f m i n c =
     (if n \<ge> 4 then
        (let (m, c) = f m i c;
             (m, c) = f m (i + 1) c;
             (m, c) = f m (i + 2) c;
             (m, c) = f m (i + 3) c
         in words_loop f m (i + 4) (n - 4) c)
      else words_rest f m i n c)"
  by pat_completeness auto
termination by (relation "measure (\<lambda>(_, _, _, n, _). n)") auto

declare words_loop.simps [simp del]

definition bn_mul_add_words :: "words \<Rightarrow> nat \<Rightarrow> nat \<Rightarrow> nat \<Rightarrow> u64 \<Rightarrow> words \<times> u64" where
  "bn_mul_add_words m rp ap num w =
     words_loop (\<lambda>m i c. let (v, c) = mul_add (m (rp + i)) (m (ap + i)) w c in (m(rp + i := v), c)) m 0 num 0"

definition bn_mul_words :: "words \<Rightarrow> nat \<Rightarrow> nat \<Rightarrow> nat \<Rightarrow> u64 \<Rightarrow> words \<times> u64" where
  "bn_mul_words m rp ap num w =
     words_loop (\<lambda>m i c. let (v, c) = mul (m (ap + i)) w c in (m(rp + i := v), c)) m 0 num 0"

definition bn_sqr_words :: "words \<Rightarrow> nat \<Rightarrow> nat \<Rightarrow> nat \<Rightarrow> words" where
  "bn_sqr_words m r a n =
     fst (words_loop (\<lambda>m i c. let (lo, hi) = sqr (m (a + i)) in (m(r + 2 * i := lo, r + 2 * i + 1 := hi), c)) m 0 n 0)"

text \<open>\<open>mul_add_c\<close> on the three-word accumulator \<open>(c0, c1, c2)\<close>, and \<open>mul_add_c2\<close>, which adds the product twice.\<close>

type_synonym acc3 = "u64 \<times> u64 \<times> u64"

definition mul_add_c :: "u64 \<Rightarrow> u64 \<Rightarrow> acc3 \<Rightarrow> acc3" where
  "mul_add_c a b = (\<lambda>(c0, c1, c2).
     let t = ucast a * ucast b;
         t = t + ucast c0;
         c0 = Lw t;
         hi = Hw t;
         c1 = c1 + hi;
         c2 = c2 + (if c1 < hi then 1 else 0)
     in (c0, c1, c2))"

definition mul_add_c2 :: "u64 \<Rightarrow> u64 \<Rightarrow> acc3 \<Rightarrow> acc3" where
  "mul_add_c2 a b = (\<lambda>(c0, c1, c2).
     let t = ucast a * ucast b;
         tt = t + ucast c0;
         c0 = Lw tt;
         hi = Hw tt;
         c1 = c1 + hi;
         c2 = c2 + (if c1 < hi then 1 else 0);
         t = t + ucast c0;
         c0 = Lw t;
         hi = Hw t;
         c1 = c1 + hi;
         c2 = c2 + (if c1 < hi then 1 else 0)
     in (c0, c1, c2))"

definition sqr_add_c :: "words \<Rightarrow> nat \<Rightarrow> nat \<Rightarrow> acc3 \<Rightarrow> acc3" where
  "sqr_add_c m a i = (\<lambda>(c0, c1, c2).
     let t = ucast (m (a + i)) * ucast (m (a + i));
         t = t + ucast c0;
         c0 = Lw t;
         hi = Hw t;
         c1 = c1 + hi;
         c2 = c2 + (if c1 < hi then 1 else 0)
     in (c0, c1, c2))"

definition sqr_add_c2 :: "words \<Rightarrow> nat \<Rightarrow> nat \<Rightarrow> nat \<Rightarrow> acc3 \<Rightarrow> acc3" where
  "sqr_add_c2 m a i j = mul_add_c2 (m (a + i)) (m (a + j))"

text \<open>The Comba functions: for each word of the result, the products \<open>a[i] * b[j]\<close> added to the accumulator, in the
  order of the code; then the lowest word of the accumulator is stored and the other two move down.
  The last word stored is what is left in the accumulator.\<close>

fun comba_columns :: "(words \<Rightarrow> nat \<times> nat \<Rightarrow> acc3 \<Rightarrow> acc3) \<Rightarrow> words \<Rightarrow> nat \<Rightarrow> (nat \<times> nat) list list \<Rightarrow> acc3 \<Rightarrow> words" where
  "comba_columns f m r [] (c0, c1, c2) = m(r := c0)"
| "comba_columns f m r (col # cols) acc =
     (let (c0, c1, c2) = fold (f m) col acc in comba_columns f (m(r := c0)) (r + 1) cols (c1, c2, 0))"

definition mul_term :: "nat \<Rightarrow> nat \<Rightarrow> words \<Rightarrow> nat \<times> nat \<Rightarrow> acc3 \<Rightarrow> acc3" where
  "mul_term a b m = (\<lambda>(i, j). mul_add_c (m (a + i)) (m (b + j)))"

definition sqr_term :: "nat \<Rightarrow> words \<Rightarrow> nat \<times> nat \<Rightarrow> acc3 \<Rightarrow> acc3" where
  "sqr_term a m = (\<lambda>(i, j). if i = j then sqr_add_c m a i else sqr_add_c2 m a i j)"

definition mul_table8 :: "(nat \<times> nat) list list" where
  "mul_table8 =
     [[(0, 0)],
      [(0, 1), (1, 0)],
      [(2, 0), (1, 1), (0, 2)],
      [(0, 3), (1, 2), (2, 1), (3, 0)],
      [(4, 0), (3, 1), (2, 2), (1, 3), (0, 4)],
      [(0, 5), (1, 4), (2, 3), (3, 2), (4, 1), (5, 0)],
      [(6, 0), (5, 1), (4, 2), (3, 3), (2, 4), (1, 5), (0, 6)],
      [(0, 7), (1, 6), (2, 5), (3, 4), (4, 3), (5, 2), (6, 1), (7, 0)],
      [(7, 1), (6, 2), (5, 3), (4, 4), (3, 5), (2, 6), (1, 7)],
      [(2, 7), (3, 6), (4, 5), (5, 4), (6, 3), (7, 2)],
      [(7, 3), (6, 4), (5, 5), (4, 6), (3, 7)],
      [(4, 7), (5, 6), (6, 5), (7, 4)],
      [(7, 5), (6, 6), (5, 7)],
      [(6, 7), (7, 6)],
      [(7, 7)]]"

definition bn_mul_comba8 :: "words \<Rightarrow> nat \<Rightarrow> nat \<Rightarrow> nat \<Rightarrow> words" where
  "bn_mul_comba8 m r a b = comba_columns (mul_term a b) m r mul_table8 (0, 0, 0)"

definition mul_table4 :: "(nat \<times> nat) list list" where
  "mul_table4 =
     [[(0, 0)],
      [(0, 1), (1, 0)],
      [(2, 0), (1, 1), (0, 2)],
      [(0, 3), (1, 2), (2, 1), (3, 0)],
      [(3, 1), (2, 2), (1, 3)],
      [(2, 3), (3, 2)],
      [(3, 3)]]"

definition bn_mul_comba4 :: "words \<Rightarrow> nat \<Rightarrow> nat \<Rightarrow> nat \<Rightarrow> words" where
  "bn_mul_comba4 m r a b = comba_columns (mul_term a b) m r mul_table4 (0, 0, 0)"

definition sqr_table8 :: "(nat \<times> nat) list list" where
  "sqr_table8 =
     [[(0, 0)],
      [(1, 0)],
      [(1, 1), (2, 0)],
      [(3, 0), (2, 1)],
      [(2, 2), (3, 1), (4, 0)],
      [(5, 0), (4, 1), (3, 2)],
      [(3, 3), (4, 2), (5, 1), (6, 0)],
      [(7, 0), (6, 1), (5, 2), (4, 3)],
      [(4, 4), (5, 3), (6, 2), (7, 1)],
      [(7, 2), (6, 3), (5, 4)],
      [(5, 5), (6, 4), (7, 3)],
      [(7, 4), (6, 5)],
      [(6, 6), (7, 5)],
      [(7, 6)],
      [(7, 7)]]"

definition bn_sqr_comba8 :: "words \<Rightarrow> nat \<Rightarrow> nat \<Rightarrow> words" where
  "bn_sqr_comba8 m r a = comba_columns (sqr_term a) m r sqr_table8 (0, 0, 0)"

definition sqr_table4 :: "(nat \<times> nat) list list" where
  "sqr_table4 =
     [[(0, 0)],
      [(1, 0)],
      [(1, 1), (2, 0)],
      [(3, 0), (2, 1)],
      [(2, 2), (3, 1)],
      [(3, 2)],
      [(3, 3)]]"

definition bn_sqr_comba4 :: "words \<Rightarrow> nat \<Rightarrow> nat \<Rightarrow> words" where
  "bn_sqr_comba4 m r a = comba_columns (sqr_term a) m r sqr_table4 (0, 0, 0)"

definition bn_add_words :: "words \<Rightarrow> nat \<Rightarrow> nat \<Rightarrow> nat \<Rightarrow> nat \<Rightarrow> words \<times> u64" where
  "bn_add_words m r a b n =
     words_loop (\<lambda>m i carry. let (v, carry) = CRYPTO_addc_w (m (a + i)) (m (b + i)) carry in (m(r + i := v), carry)) m 0 n 0"

definition bn_sub_words :: "words \<Rightarrow> nat \<Rightarrow> nat \<Rightarrow> nat \<Rightarrow> nat \<Rightarrow> words \<times> u64" where
  "bn_sub_words m r a b n =
     words_loop (\<lambda>m i borrow. let (v, borrow) = CRYPTO_subc_w (m (a + i)) (m (b + i)) borrow in (m(r + i := v), borrow)) m 0 n 0"

text \<open>\<open>bn_select_words\<close> of \<open>bn.c\<close>.\<close>

definition bn_select_words :: "words \<Rightarrow> nat \<Rightarrow> u64 \<Rightarrow> nat \<Rightarrow> nat \<Rightarrow> nat \<Rightarrow> words" where
  "bn_select_words m r msk a b num =
     fst (words_rest (\<lambda>m i c. (m(r + i := constant_time_select_w msk (m (a + i)) (m (b + i))), c)) m 0 num 0)"

section \<open>Numbers in memory\<close>

text \<open>The number held in \<open>n\<close> words from \<open>p\<close>, lowest first.\<close>

definition num_at :: "words \<Rightarrow> nat \<Rightarrow> nat \<Rightarrow> nat" where
  "num_at m p n = (\<Sum>i<n. unat (m (p + i)) * 2 ^ (64 * i))"

named_theorems num_simps \<open>the value of words in memory\<close>

lemma num_at_0 [simp, num_simps]: "num_at m p 0 = 0"
  by (simp add: num_at_def)

lemma num_at_snoc [num_simps]: "num_at m p (Suc n) = num_at m p n + unat (m (p + n)) * 2 ^ (64 * n)"
  by (simp add: num_at_def)

lemma num_at_append: "num_at m p (n + k) = num_at m p n + 2 ^ (64 * n) * num_at m (p + n) k"
  by (induction k) (simp_all add: num_simps algebra_simps power_add)

lemma num_at_Cons: "num_at m p (Suc n) = unat (m p) + 2 ^ 64 * num_at m (p + 1) n"
  using num_at_append [of m p 1 n] by (simp add: num_at_def)

lemma unat_u64_less: "unat (w :: u64) < 2 ^ 64"
  using unsigned_less [of w] by simp

lemma num_at_bound: "num_at m p n < 2 ^ (64 * n)"
proof (induction n)
  case (Suc n)
  have "num_at m p (Suc n) < 2 ^ (64 * n) + unat (m (p + n)) * 2 ^ (64 * n)" using Suc by (simp add: num_simps)
  also have "\<dots> = (1 + unat (m (p + n))) * 2 ^ (64 * n)" by (simp add: algebra_simps)
  also have "\<dots> \<le> 2 ^ 64 * 2 ^ (64 * n)" using unat_u64_less [of "m (p + n)"] by (intro mult_right_mono) simp_all
  finally show ?case by (simp add: power_add)
qed simp

lemma num_at_cong: "(\<And>i. i < n \<Longrightarrow> m (p + i) = m' (p' + i)) \<Longrightarrow> num_at m p n = num_at m' p' n"
  by (simp add: num_at_def)

text \<open>Memory that agrees outside \<open>n\<close> words from \<open>r\<close>.\<close>

definition same_but :: "nat \<Rightarrow> nat \<Rightarrow> words \<Rightarrow> words \<Rightarrow> bool" where
  "same_but r n m m' \<longleftrightarrow> (\<forall>x. x < r \<or> r + n \<le> x \<longrightarrow> m' x = m x)"

lemma same_but_refl [simp]: "same_but r n m m"
  by (simp add: same_but_def)

lemma same_but_mono: "same_but r n m m' \<Longrightarrow> r' \<le> r \<Longrightarrow> r + n \<le> r' + n' \<Longrightarrow> same_but r' n' m m'"
  by (auto simp: same_but_def)

lemma same_but_trans: "same_but r n m m' \<Longrightarrow> same_but r n m' m'' \<Longrightarrow> same_but r n m m''"
  by (simp add: same_but_def)

lemma same_but_num: "same_but r n m m' \<Longrightarrow> p + k \<le> r \<or> r + n \<le> p \<Longrightarrow> num_at m' p k = num_at m p k"
  by (rule num_at_cong) (auto simp: same_but_def)

text \<open>A result at \<open>r\<close> may overlap an operand at \<open>p\<close> when it starts no later, because the loops go upwards.\<close>

definition may_read :: "nat \<Rightarrow> nat \<Rightarrow> nat \<Rightarrow> bool" where
  "may_read r p n \<longleftrightarrow> r \<le> p \<or> p + n \<le> r"

lemma may_read_refl [simp]: "may_read r r n"
  by (simp add: may_read_def)

lemma may_readD: "may_read r p n \<Longrightarrow> i < n \<Longrightarrow> same_but r i m m' \<Longrightarrow> m' (p + i) = m (p + i)"
  by (auto simp: may_read_def same_but_def)

section \<open>Loops\<close>

lemma words_rest_add:
  "words_rest f m i (n + k) c = (let (m, c) = words_rest f m i n c in words_rest f m (i + n) k c)"
  by (induction n arbitrary: m i c) (simp_all add: Let_def case_prod_beta)

lemma words_loop_rest: "words_loop f m i n c = words_rest f m i n c"
proof (induction n arbitrary: m i c rule: less_induct)
  case (less n)
  show ?case
  proof (cases "n \<ge> 4")
    case True
    then obtain k where k: "n = 4 + k" by (metis le_Suc_ex)
    then have "words_loop f m i k c = words_rest f m i k c" for m i c using less by simp
    then show ?thesis using k words_loop.simps [of f m i n c]
      by (simp add: Let_def case_prod_beta eval_nat_numeral)
  qed (simp add: words_loop.simps)
qed

lemma words_rest_invar:
  assumes "P 0 m c" "\<And>k m c. k < n \<Longrightarrow> P k m c \<Longrightarrow> P (Suc k) (fst (f m (i + k) c)) (snd (f m (i + k) c))"
    "words_rest f m i n c = (m', c')"
  shows "P n m' c'"
proof -
  have "P n (fst (words_rest f m i n c)) (snd (words_rest f m i n c))"
    using assms(2)
  proof (induction n)
    case 0 then show ?case using assms(1) by simp
  next
    case (Suc n)
    have "words_rest f m i (Suc n) c = (let (m, c) = words_rest f m i n c in f m (i + n) c)"
      using words_rest_add [of f m i n 1 c] by (simp add: Let_def case_prod_beta)
    then show ?case using Suc by (simp add: Let_def case_prod_beta)
  qed
  then show ?thesis using assms(3) by simp
qed

end
