(* ===== verification/Bn.thy ===== *)
theory Bn
  imports Bn_Words
begin

unbundle bit_operations_syntax

text \<open>
  Big numbers, \<open>crypto/fipsmodule/bn/bn.c\<close>, \<open>cmp.c\<close> and \<open>add.c\<close>. The store holds the memory of words and the \<open>BIGNUM\<close> structures by
  address, so that the arguments of a function may be the same object. Fresh memory is taken above \<open>st_brk\<close>; address 0 is
  the null pointer. The sign is a Boolean; \<open>width\<close> and \<open>dmax\<close> are natural numbers, limited by \<open>BN_MAX_WORDS\<close>.
  The results of comparisons are 32-bit words in two's complement. Errors are not pushed to the error queue.
\<close>

record BIGNUM =
  bn_d :: nat
  bn_width :: nat
  bn_dmax :: nat
  bn_neg :: bool
  bn_flags :: u32

record bn_store =
  st_words :: words
  st_bn :: "nat \<Rightarrow> BIGNUM"
  st_brk :: nat
  st_bn_brk :: nat

definition BN_FLG_MALLOCED :: u32 where
  "BN_FLG_MALLOCED = 1"

definition BN_FLG_STATIC_DATA :: u32 where
  "BN_FLG_STATIC_DATA = 2"

definition BN_MAX_WORDS :: nat where
  "BN_MAX_WORDS = INT_MAX div (4 * 64)"

definition sizeof_BIGNUM :: nat where
  "sizeof_BIGNUM = 24"

definition zero_BIGNUM :: BIGNUM where
  "zero_BIGNUM = \<lparr>bn_d = 0, bn_width = 0, bn_dmax = 0, bn_neg = False, bn_flags = 0\<rparr>"

definition bn_upd :: "nat \<Rightarrow> (BIGNUM \<Rightarrow> BIGNUM) \<Rightarrow> bn_store \<Rightarrow> bn_store" where
  "bn_upd i f S = S\<lparr>st_bn := (st_bn S)(i := f (st_bn S i))\<rparr>"

text \<open>The \<open>k\<close>-th word of a number.\<close>

definition limb :: "bn_store \<Rightarrow> nat \<Rightarrow> nat \<Rightarrow> u64" where
  "limb S i k = st_words S (bn_d (st_bn S i) + k)"

definition set_limb :: "nat \<Rightarrow> nat \<Rightarrow> u64 \<Rightarrow> bn_store \<Rightarrow> bn_store" where
  "set_limb i k w S = S\<lparr>st_words := (st_words S)(bn_d (st_bn S i) + k := w)\<rparr>"

text \<open>\<open>memmove\<close> and \<open>memset\<close> on words, and the disjunction of words.\<close>

definition words_move :: "words \<Rightarrow> nat \<Rightarrow> nat \<Rightarrow> nat \<Rightarrow> words" where
  "words_move m p q n = (\<lambda>x. if p \<le> x \<and> x < p + n then m (q + (x - p)) else m x)"

definition words_zero :: "words \<Rightarrow> nat \<Rightarrow> nat \<Rightarrow> words" where
  "words_zero m p n = (\<lambda>x. if p \<le> x \<and> x < p + n then 0 else m x)"

fun words_or :: "words \<Rightarrow> nat \<Rightarrow> nat \<Rightarrow> u64 \<Rightarrow> u64" where
  "words_or m p 0 msk = msk"
| "words_or m p (Suc n) msk = words_or m (p + 1) n (msk OR m p)"

section \<open>bn.c\<close>

definition BN_new :: "allocator \<Rightarrow> bn_store \<Rightarrow> nat option \<times> bn_store" where
  "BN_new A S =
     (if OPENSSL_malloc A sizeof_BIGNUM = None then (None, S)
      else (let bn = st_bn_brk S
            in (Some bn, bn_upd bn (\<lambda>_. zero_BIGNUM\<lparr>bn_flags := BN_FLG_MALLOCED\<rparr>) (S\<lparr>st_bn_brk := bn + 1\<rparr>))))"

definition BN_init :: "nat \<Rightarrow> bn_store \<Rightarrow> bn_store" where
  "BN_init bn S = bn_upd bn (\<lambda>_. zero_BIGNUM) S"

text \<open>The memory freed is not used again.\<close>

definition BN_free :: "nat option \<Rightarrow> bn_store \<Rightarrow> bn_store" where
  "BN_free bn S =
     (case bn of
        None \<Rightarrow> S
      | Some bn \<Rightarrow> if bn_flags (st_bn S bn) AND BN_FLG_MALLOCED \<noteq> 0 then S else bn_upd bn (\<lambda>b. b\<lparr>bn_d := 0\<rparr>) S)"

definition bn_wexpand :: "allocator \<Rightarrow> nat \<Rightarrow> nat \<Rightarrow> bn_store \<Rightarrow> bool \<times> bn_store" where
  "bn_wexpand A bn n S =
     (let b = st_bn S bn
      in if n \<le> bn_dmax b then (True, S)
         else if n > BN_MAX_WORDS then (False, S)
         else if bn_flags b AND BN_FLG_STATIC_DATA \<noteq> 0 then (False, S)
         else if OPENSSL_calloc A n 8 = None then (False, S)
         else
           (let a = st_brk S;
                m = words_zero (st_words S) a n;
                m = words_move m a (bn_d b) (bn_width b)
            in (True, bn_upd bn (\<lambda>b. b\<lparr>bn_d := a, bn_dmax := n\<rparr>) (S\<lparr>st_words := m, st_brk := a + n\<rparr>))))"

definition bn_expand :: "allocator \<Rightarrow> nat \<Rightarrow> nat \<Rightarrow> bn_store \<Rightarrow> bool \<times> bn_store" where
  "bn_expand A bn bits S =
     (if size_add bits 63 < bits then (False, S) else bn_wexpand A bn (size_add bits 63 div 64) S)"

definition BN_copy :: "allocator \<Rightarrow> nat \<Rightarrow> nat \<Rightarrow> bn_store \<Rightarrow> bool \<times> bn_store" where
  "BN_copy A dest src S =
     (if src = dest then (True, S)
      else
        (let (ok, S) = bn_wexpand A dest (bn_width (st_bn S src)) S
         in if \<not> ok then (False, S)
            else
              (let s = st_bn S src;
                   S = S\<lparr>st_words := words_move (st_words S) (bn_d (st_bn S dest)) (bn_d s) (bn_width s)\<rparr>
               in (True, bn_upd dest (\<lambda>b. b\<lparr>bn_width := bn_width s, bn_neg := bn_neg s\<rparr>) S))))"

definition BN_dup :: "allocator \<Rightarrow> nat option \<Rightarrow> bn_store \<Rightarrow> nat option \<times> bn_store" where
  "BN_dup A src S =
     (case src of
        None \<Rightarrow> (None, S)
      | Some src \<Rightarrow>
          (case BN_new A S of
             (None, S) \<Rightarrow> (None, S)
           | (Some copy, S) \<Rightarrow>
               (let (ok, S) = BN_copy A copy src S
                in if ok then (Some copy, S) else (None, BN_free (Some copy) S))))"

definition BN_clear :: "nat \<Rightarrow> bn_store \<Rightarrow> bn_store" where
  "BN_clear bn S =
     (let b = st_bn S bn;
          S = (if bn_d b \<noteq> 0 then S\<lparr>st_words := words_zero (st_words S) (bn_d b) (bn_dmax b)\<rparr> else S)
      in bn_upd bn (\<lambda>b. b\<lparr>bn_width := 0, bn_neg := False\<rparr>) S)"

text \<open>One halving step of \<open>BN_num_bits_word\<close>: when the bits from \<open>k\<close> up are not all zero, count \<open>k\<close> and keep them.\<close>

definition num_bits_step :: "nat \<Rightarrow> u64 \<times> u32 \<Rightarrow> u64 \<times> u32" where
  "num_bits_step k = (\<lambda>(l, bits).
     let x = drop_bit k l;
         msk = 0 - x;
         msk = 0 - drop_bit 63 msk;
         bits = bits + ucast (word_of_nat k AND msk);
         l = l XOR ((x XOR l) AND msk)
     in (l, bits))"

definition BN_num_bits_word :: "u64 \<Rightarrow> u32" where
  "BN_num_bits_word l =
     (let bits = (if l \<noteq> 0 then 1 else 0);
          (l, bits) = num_bits_step 32 (l, bits);
          (l, bits) = num_bits_step 16 (l, bits);
          (l, bits) = num_bits_step 8 (l, bits);
          (l, bits) = num_bits_step 4 (l, bits);
          (l, bits) = num_bits_step 2 (l, bits);
          x = drop_bit 1 l;
          msk = 0 - x;
          msk = 0 - drop_bit 63 msk
      in bits + ucast (1 AND msk))"

fun min_width :: "words \<Rightarrow> nat \<Rightarrow> nat \<Rightarrow> nat" where
  "min_width m d 0 = 0"
| "min_width m d (Suc ret) = (if m (d + ret) = 0 then min_width m d ret else Suc ret)"

definition bn_minimal_width :: "bn_store \<Rightarrow> nat \<Rightarrow> nat" where
  "bn_minimal_width S bn = min_width (st_words S) (bn_d (st_bn S bn)) (bn_width (st_bn S bn))"

definition bn_set_minimal_width :: "nat \<Rightarrow> bn_store \<Rightarrow> bn_store" where
  "bn_set_minimal_width bn S =
     (let S = bn_upd bn (\<lambda>b. b\<lparr>bn_width := bn_minimal_width S bn\<rparr>) S
      in if bn_width (st_bn S bn) = 0 then bn_upd bn (\<lambda>b. b\<lparr>bn_neg := False\<rparr>) S else S)"

definition BN_num_bits :: "bn_store \<Rightarrow> nat \<Rightarrow> nat" where
  "BN_num_bits S bn =
     (let width = bn_minimal_width S bn
      in if width = 0 then 0 else (width - 1) * 64 + unat (BN_num_bits_word (limb S bn (width - 1))))"

definition BN_num_bytes :: "bn_store \<Rightarrow> nat \<Rightarrow> nat" where
  "BN_num_bytes S bn = (BN_num_bits S bn + 7) div 8"

definition BN_zero :: "nat \<Rightarrow> bn_store \<Rightarrow> bn_store" where
  "BN_zero bn S = bn_upd bn (\<lambda>b. b\<lparr>bn_width := 0, bn_neg := False\<rparr>) S"

definition BN_set_word :: "allocator \<Rightarrow> nat \<Rightarrow> u64 \<Rightarrow> bn_store \<Rightarrow> bool \<times> bn_store" where
  "BN_set_word A bn val S =
     (if val = 0 then (True, BN_zero bn S)
      else
        (let (ok, S) = bn_wexpand A bn 1 S
         in if \<not> ok then (False, S)
            else
              (let S = bn_upd bn (\<lambda>b. b\<lparr>bn_neg := False\<rparr>) S;
                   S = set_limb bn 0 val S
               in (True, bn_upd bn (\<lambda>b. b\<lparr>bn_width := 1\<rparr>) S))))"

definition BN_one :: "allocator \<Rightarrow> nat \<Rightarrow> bn_store \<Rightarrow> bool \<times> bn_store" where
  "BN_one A bn S = BN_set_word A bn 1 S"

definition BN_set_u64 :: "allocator \<Rightarrow> nat \<Rightarrow> u64 \<Rightarrow> bn_store \<Rightarrow> bool \<times> bn_store" where
  "BN_set_u64 A bn val S = BN_set_word A bn val S"

definition bn_set_words :: "allocator \<Rightarrow> nat \<Rightarrow> nat \<Rightarrow> nat \<Rightarrow> bn_store \<Rightarrow> bool \<times> bn_store" where
  "bn_set_words A bn p num S =
     (let (ok, S) = bn_wexpand A bn num S
      in if \<not> ok then (False, S)
         else
           (let S = S\<lparr>st_words := words_move (st_words S) (bn_d (st_bn S bn)) p num\<rparr>
            in (True, bn_upd bn (\<lambda>b. b\<lparr>bn_width := num, bn_neg := False\<rparr>) S)))"

definition bn_set_static_words :: "nat \<Rightarrow> nat \<Rightarrow> nat \<Rightarrow> bn_store \<Rightarrow> bn_store option" where
  "bn_set_static_words bn p num S =
     (if num > BN_MAX_WORDS then None
      else Some (bn_upd bn (\<lambda>b. b\<lparr>bn_d := p, bn_width := num, bn_dmax := num, bn_neg := False,
                                   bn_flags := bn_flags b OR BN_FLG_STATIC_DATA\<rparr>) S))"

definition bn_fits_in_words :: "bn_store \<Rightarrow> nat \<Rightarrow> nat \<Rightarrow> bool" where
  "bn_fits_in_words S bn num =
     (let b = st_bn S bn in words_or (st_words S) (bn_d b + num) (bn_width b - num) 0 = 0)"

definition BN_is_zero :: "bn_store \<Rightarrow> nat \<Rightarrow> bool" where
  "BN_is_zero S bn = bn_fits_in_words S bn 0"

definition bn_copy_words :: "nat \<Rightarrow> nat \<Rightarrow> nat \<Rightarrow> bn_store \<Rightarrow> bool \<times> bn_store" where
  "bn_copy_words out num bn S =
     (let b = st_bn S bn
      in if bn_neg b then (False, S)
         else if bn_width b > num \<and> \<not> bn_fits_in_words S bn num then (False, S)
         else
           (let width = (if bn_width b > num then num else bn_width b);
                m = words_zero (st_words S) out num
            in (True, S\<lparr>st_words := words_move m out (bn_d b) width\<rparr>)))"

definition BN_is_negative :: "bn_store \<Rightarrow> nat \<Rightarrow> bool" where
  "BN_is_negative S bn = bn_neg (st_bn S bn)"

definition BN_set_negative :: "nat \<Rightarrow> bool \<Rightarrow> bn_store \<Rightarrow> bn_store" where
  "BN_set_negative bn sign S =
     (if sign \<and> \<not> BN_is_zero S bn then bn_upd bn (\<lambda>b. b\<lparr>bn_neg := True\<rparr>) S else bn_upd bn (\<lambda>b. b\<lparr>bn_neg := False\<rparr>) S)"

definition bn_resize_words :: "allocator \<Rightarrow> nat \<Rightarrow> nat \<Rightarrow> bn_store \<Rightarrow> bool \<times> bn_store" where
  "bn_resize_words A bn n S =
     (if bn_width (st_bn S bn) \<le> n then
        (let (ok, S) = bn_wexpand A bn n S
         in if \<not> ok then (False, S)
            else
              (let b = st_bn S bn;
                   S = S\<lparr>st_words := words_zero (st_words S) (bn_d b + bn_width b) (n - bn_width b)\<rparr>
               in (True, bn_upd bn (\<lambda>b. b\<lparr>bn_width := n\<rparr>) S)))
      else if \<not> bn_fits_in_words S bn n then (False, S)
      else (True, bn_upd bn (\<lambda>b. b\<lparr>bn_width := n\<rparr>) S))"

section \<open>cmp.c\<close>

text \<open>The loop over the common words: \<open>ret\<close> is the comparison of the words before \<open>i\<close>.\<close>

fun cmp_words_loop :: "words \<Rightarrow> nat \<Rightarrow> nat \<Rightarrow> nat \<Rightarrow> u32 \<Rightarrow> u32" where
  "cmp_words_loop m a b 0 ret = ret"
| "cmp_words_loop m a b (Suc n) ret =
     (let eq = constant_time_eq_w (m a) (m b);
          lt = constant_time_lt_w (m a) (m b)
      in cmp_words_loop m (a + 1) (b + 1) n (constant_time_select_int eq ret (constant_time_select_int lt (- 1) 1)))"

definition bn_cmp_words_consttime :: "words \<Rightarrow> nat \<Rightarrow> nat \<Rightarrow> nat \<Rightarrow> nat \<Rightarrow> u32" where
  "bn_cmp_words_consttime m a a_len b b_len =
     (let minimum = (if a_len < b_len then a_len else b_len);
          ret = cmp_words_loop m a b minimum 0
      in if a_len < b_len then
           (let msk = words_or m (b + a_len) (b_len - a_len) 0
            in constant_time_select_int (constant_time_is_zero_w msk) ret (- 1))
         else if b_len < a_len then
           (let msk = words_or m (a + b_len) (a_len - b_len) 0
            in constant_time_select_int (constant_time_is_zero_w msk) ret 1)
         else ret)"

definition BN_ucmp :: "bn_store \<Rightarrow> nat \<Rightarrow> nat \<Rightarrow> u32" where
  "BN_ucmp S a b =
     bn_cmp_words_consttime (st_words S) (bn_d (st_bn S a)) (bn_width (st_bn S a)) (bn_d (st_bn S b)) (bn_width (st_bn S b))"

definition BN_cmp :: "bn_store \<Rightarrow> nat option \<Rightarrow> nat option \<Rightarrow> u32" where
  "BN_cmp S a b =
     (case (a, b) of
        (Some _, None) \<Rightarrow> - 1
      | (None, Some _) \<Rightarrow> 1
      | (None, None) \<Rightarrow> 0
      | (Some a, Some b) \<Rightarrow>
          if bn_neg (st_bn S a) \<noteq> bn_neg (st_bn S b) then (if bn_neg (st_bn S a) then - 1 else 1)
          else (let ret = BN_ucmp S a b in if bn_neg (st_bn S a) then - ret else ret))"

definition bn_less_than_words :: "words \<Rightarrow> nat \<Rightarrow> nat \<Rightarrow> nat \<Rightarrow> bool" where
  "bn_less_than_words m a b len \<longleftrightarrow> bn_cmp_words_consttime m a len b len <s 0"

definition BN_abs_is_word :: "bn_store \<Rightarrow> nat \<Rightarrow> u64 \<Rightarrow> bool" where
  "BN_abs_is_word S bn w =
     (let b = st_bn S bn
      in if bn_width b = 0 then w = 0
         else words_or (st_words S) (bn_d b + 1) (bn_width b - 1) (st_words S (bn_d b) XOR w) = 0)"

text \<open>The structure on the stack is the address \<open>b_bn\<close>, its single word the address \<open>b_p\<close>.\<close>

definition BN_cmp_word :: "bn_store \<Rightarrow> nat \<Rightarrow> nat \<Rightarrow> nat option \<Rightarrow> u64 \<Rightarrow> u32" where
  "BN_cmp_word S b_bn b_p a b =
     (let S = BN_init b_bn (S\<lparr>st_words := (st_words S)(b_p := b)\<rparr>);
          S = bn_upd b_bn (\<lambda>x. x\<lparr>bn_d := b_p, bn_width := (if b > 0 then 1 else 0), bn_dmax := 1, bn_flags := BN_FLG_STATIC_DATA\<rparr>) S
      in BN_cmp S a (Some b_bn))"

definition BN_is_one :: "bn_store \<Rightarrow> nat \<Rightarrow> bool" where
  "BN_is_one S bn \<longleftrightarrow> \<not> bn_neg (st_bn S bn) \<and> BN_abs_is_word S bn 1"

definition BN_is_word :: "bn_store \<Rightarrow> nat \<Rightarrow> u64 \<Rightarrow> bool" where
  "BN_is_word S bn w \<longleftrightarrow> BN_abs_is_word S bn w \<and> (w = 0 \<or> \<not> bn_neg (st_bn S bn))"

definition BN_is_odd :: "bn_store \<Rightarrow> nat \<Rightarrow> bool" where
  "BN_is_odd S bn \<longleftrightarrow> bn_width (st_bn S bn) > 0 \<and> limb S bn 0 AND 1 = 1"

fun all_zero_words :: "words \<Rightarrow> nat \<Rightarrow> nat \<Rightarrow> bool" where
  "all_zero_words m d 0 \<longleftrightarrow> True"
| "all_zero_words m d (Suc n) \<longleftrightarrow> (if m d \<noteq> 0 then False else all_zero_words m (d + 1) n)"

definition BN_is_pow2 :: "bn_store \<Rightarrow> nat \<Rightarrow> bool" where
  "BN_is_pow2 S bn =
     (let width = bn_minimal_width S bn
      in if width = 0 \<or> bn_neg (st_bn S bn) then False
         else if \<not> all_zero_words (st_words S) (bn_d (st_bn S bn)) (width - 1) then False
         else 0 = limb S bn (width - 1) AND (limb S bn (width - 1) - 1))"

fun xor_words_or :: "words \<Rightarrow> nat \<Rightarrow> nat \<Rightarrow> nat \<Rightarrow> u64 \<Rightarrow> u64" where
  "xor_words_or m a b 0 msk = msk"
| "xor_words_or m a b (Suc n) msk = xor_words_or m (a + 1) (b + 1) n (msk OR (m a XOR m b))"

definition BN_equal_consttime :: "bn_store \<Rightarrow> nat \<Rightarrow> nat \<Rightarrow> bool" where
  "BN_equal_consttime S a b =
     (let x = st_bn S a; y = st_bn S b; m = st_words S;
          msk = words_or m (bn_d y + bn_width x) (bn_width y - bn_width x) 0;
          msk = words_or m (bn_d x + bn_width y) (bn_width x - bn_width y) msk;
          minimum = (if bn_width x < bn_width y then bn_width x else bn_width y);
          msk = xor_words_or m (bn_d x) (bn_d y) minimum msk;
          msk = msk OR (if bn_neg x \<noteq> bn_neg y then 1 else 0)
      in msk = 0)"

section \<open>add.c\<close>

text \<open>The loops that pass the carry or borrow on through the longer operand.\<close>

definition addc_rest :: "words \<Rightarrow> nat \<Rightarrow> nat \<Rightarrow> nat \<Rightarrow> u64 \<Rightarrow> words \<times> u64" where
  "addc_rest m r a n carry =
     words_rest (\<lambda>m i carry. let (v, carry) = CRYPTO_addc_w (m (a + i)) 0 carry in (m(r + i := v), carry)) m 0 n carry"

definition subc_rest :: "words \<Rightarrow> nat \<Rightarrow> nat \<Rightarrow> nat \<Rightarrow> u64 \<Rightarrow> words \<times> u64" where
  "subc_rest m r a n borrow =
     words_rest (\<lambda>m i borrow. let (v, borrow) = CRYPTO_subc_w (m (a + i)) 0 borrow in (m(r + i := v), borrow)) m 0 n borrow"

definition bn_uadd_consttime :: "allocator \<Rightarrow> nat \<Rightarrow> nat \<Rightarrow> nat \<Rightarrow> bn_store \<Rightarrow> bool \<times> bn_store" where
  "bn_uadd_consttime A r a b S =
     (let (a, b) = (if bn_width (st_bn S a) < bn_width (st_bn S b) then (b, a) else (a, b));
          maximum = bn_width (st_bn S a);
          minimum = bn_width (st_bn S b);
          (ok, S) = bn_wexpand A r (maximum + 1) S
      in if \<not> ok then (False, S)
         else
           (let S = bn_upd r (\<lambda>x. x\<lparr>bn_width := maximum + 1\<rparr>) S;
                rd = bn_d (st_bn S r); ad = bn_d (st_bn S a); bd = bn_d (st_bn S b);
                (m, carry) = bn_add_words (st_words S) rd ad bd minimum;
                (m, carry) = addc_rest m (rd + minimum) (ad + minimum) (maximum - minimum) carry;
                m = m(rd + maximum := carry)
            in (True, S\<lparr>st_words := m\<rparr>)))"

definition BN_uadd :: "allocator \<Rightarrow> nat \<Rightarrow> nat \<Rightarrow> nat \<Rightarrow> bn_store \<Rightarrow> bool \<times> bn_store" where
  "BN_uadd A r a b S =
     (let (ok, S) = bn_uadd_consttime A r a b S
      in if \<not> ok then (False, S) else (True, bn_set_minimal_width r S))"

definition bn_usub_consttime :: "allocator \<Rightarrow> nat \<Rightarrow> nat \<Rightarrow> nat \<Rightarrow> bn_store \<Rightarrow> bool \<times> bn_store" where
  "bn_usub_consttime A r a b S =
     (let b_width = bn_width (st_bn S b)
      in if b_width > bn_width (st_bn S a) \<and> \<not> bn_fits_in_words S b (bn_width (st_bn S a)) then (False, S)
         else
           (let b_width = (if b_width > bn_width (st_bn S a) then bn_width (st_bn S a) else b_width);
                (ok, S) = bn_wexpand A r (bn_width (st_bn S a)) S
            in if \<not> ok then (False, S)
               else
                 (let rd = bn_d (st_bn S r); ad = bn_d (st_bn S a); bd = bn_d (st_bn S b);
                      (m, borrow) = bn_sub_words (st_words S) rd ad bd b_width;
                      (m, borrow) = subc_rest m (rd + b_width) (ad + b_width) (bn_width (st_bn S a) - b_width) borrow;
                      S = S\<lparr>st_words := m\<rparr>
                  in if borrow \<noteq> 0 then (False, S)
                     else
                       (let S = bn_upd r (\<lambda>x. x\<lparr>bn_width := bn_width (st_bn S a)\<rparr>) S
                        in (True, bn_upd r (\<lambda>x. x\<lparr>bn_neg := False\<rparr>) S)))))"

definition BN_usub :: "allocator \<Rightarrow> nat \<Rightarrow> nat \<Rightarrow> nat \<Rightarrow> bn_store \<Rightarrow> bool \<times> bn_store" where
  "BN_usub A r a b S =
     (let (ok, S) = bn_usub_consttime A r a b S
      in if \<not> ok then (False, S) else (True, bn_set_minimal_width r S))"

definition set_neg :: "nat \<Rightarrow> bool \<Rightarrow> bn_store \<Rightarrow> bn_store" where
  "set_neg bn neg S = bn_upd bn (\<lambda>b. b\<lparr>bn_neg := neg\<rparr>) S"

text \<open>The difference of two absolute values, as \<open>BN_add\<close> and \<open>BN_sub\<close> end.\<close>

definition signed_usub :: "allocator \<Rightarrow> nat \<Rightarrow> nat \<Rightarrow> nat \<Rightarrow> bn_store \<Rightarrow> bool \<times> bn_store" where
  "signed_usub A r a b S =
     (if BN_ucmp S a b <s 0 then
        (let (ok, S) = BN_usub A r b a S in if \<not> ok then (False, S) else (True, set_neg r True S))
      else
        (let (ok, S) = BN_usub A r a b S in if \<not> ok then (False, S) else (True, set_neg r False S)))"

definition BN_add :: "allocator \<Rightarrow> nat \<Rightarrow> nat \<Rightarrow> nat \<Rightarrow> bn_store \<Rightarrow> bool \<times> bn_store" where
  "BN_add A r a b S =
     (let a_neg = bn_neg (st_bn S a)
      in if a_neg \<noteq> bn_neg (st_bn S b) then
           (let (a, b) = (if a_neg then (b, a) else (a, b)) in signed_usub A r a b S)
         else (let (ret, S) = BN_uadd A r a b S in (ret, set_neg r a_neg S)))"

definition BN_sub :: "allocator \<Rightarrow> nat \<Rightarrow> nat \<Rightarrow> nat \<Rightarrow> bn_store \<Rightarrow> bool \<times> bn_store" where
  "BN_sub A r a b S =
     (let a_neg = bn_neg (st_bn S a);
          b_neg = bn_neg (st_bn S b);
          (a, b) = (if a_neg \<and> b_neg then (b, a) else (a, b))
      in if a_neg \<noteq> b_neg then
           (let (ok, S) = BN_uadd A r a b S in if \<not> ok then (False, S) else (True, set_neg r a_neg S))
         else signed_usub A r a b S)"

fun add_word_loop :: "words \<Rightarrow> nat \<Rightarrow> nat \<Rightarrow> nat \<Rightarrow> u64 \<Rightarrow> words \<times> nat \<times> u64" where
  "add_word_loop m d i 0 w = (m, i, w)"
| "add_word_loop m d i (Suc n) w =
     (if w = 0 then (m, i, w)
      else
        (let l = m (d + i) + w
         in add_word_loop (m(d + i := l)) d (i + 1) n (if w > l then 1 else 0)))"

text \<open>The loop of \<open>BN_sub_word\<close> has no bound; it stops at the first word that does not borrow.\<close>

partial_function (option) sub_word_loop :: "words \<Rightarrow> nat \<Rightarrow> nat \<Rightarrow> u64 \<Rightarrow> (words \<times> nat) option" where
  "sub_word_loop m d i w =
     (if m (d + i) \<ge> w then Some (m(d + i := m (d + i) - w), i)
      else sub_word_loop (m(d + i := m (d + i) - w)) d (i + 1) 1)"

text \<open>\<open>BN_add_word\<close> and \<open>BN_sub_word\<close> call each other on negative numbers, after clearing the sign. \<open>None\<close> when the loop
  does not end.\<close>

function (sequential) BN_add_word :: "allocator \<Rightarrow> nat \<Rightarrow> u64 \<Rightarrow> bn_store \<Rightarrow> (bool \<times> bn_store) option"
  and BN_sub_word :: "allocator \<Rightarrow> nat \<Rightarrow> u64 \<Rightarrow> bn_store \<Rightarrow> (bool \<times> bn_store) option" where
  "BN_add_word A a w S =
     (if w = 0 then Some (True, S)
      else if BN_is_zero S a then Some (BN_set_word A a w S)
      else if bn_neg (st_bn S a) then
        (case BN_sub_word A a w (set_neg a False S) of
           None \<Rightarrow> None
         | Some (i, S) \<Rightarrow> Some (i, if \<not> BN_is_zero S a then set_neg a (\<not> bn_neg (st_bn S a)) S else S))
      else
        (let width = bn_width (st_bn S a);
             (m, i, w) = add_word_loop (st_words S) (bn_d (st_bn S a)) 0 width w;
             S = S\<lparr>st_words := m\<rparr>
         in if w \<noteq> 0 \<and> i = width then
              (let (ok, S) = bn_wexpand A a (width + 1) S
               in if \<not> ok then Some (False, S)
                  else Some (True, set_limb a i w (bn_upd a (\<lambda>b. b\<lparr>bn_width := bn_width b + 1\<rparr>) S)))
            else Some (True, S)))"
| "BN_sub_word A a w S =
     (if w = 0 then Some (True, S)
      else if BN_is_zero S a then
        (let (i, S) = BN_set_word A a w S in Some (i, if i then BN_set_negative a True S else S))
      else if bn_neg (st_bn S a) then
        (case BN_add_word A a w (set_neg a False S) of
           None \<Rightarrow> None
         | Some (i, S) \<Rightarrow> Some (i, set_neg a True S))
      else if bn_minimal_width S a = 1 \<and> limb S a 0 < w then
        Some (True, set_neg a True (set_limb a 0 (w - limb S a 0) S))
      else
        (case sub_word_loop (st_words S) (bn_d (st_bn S a)) 0 w of
           None \<Rightarrow> None
         | Some (m, i) \<Rightarrow>
             (let S = S\<lparr>st_words := m\<rparr>
              in Some (True,
                   if limb S a i = 0 \<and> i + 1 = bn_width (st_bn S a)
                   then bn_upd a (\<lambda>b. b\<lparr>bn_width := bn_width b - 1\<rparr>) S else S))))"
  by pat_completeness auto
termination
  by (relation "measure (case_sum (\<lambda>(_, a, _, S). if bn_neg (st_bn S a) then 1 else 0)
        (\<lambda>(_, a, _, S). if bn_neg (st_bn S a) then 1 else 0))")
    (auto simp: set_neg_def bn_upd_def)

declare BN_add_word.simps [simp del] BN_sub_word.simps [simp del]

end
