(* ===== verification/Bn_Words_Correct.thy ===== *)
theory Bn_Words_Correct
  imports Bn_Words
begin

unbundle bit_operations_syntax

text \<open>
  What the word arithmetic computes: each function of \<open>generic.c\<close> as an equation between the numbers in memory, with the words
  it leaves alone and the overlaps of operands it allows.
\<close>

section \<open>Carry primitives\<close>

text \<open>An equation of word values as an equation of integers.\<close>

lemmas word_int = arg_cong [where f = int]

lemma word_intI: "int a = int b \<Longrightarrow> a = b"
  by simp

lemma unat_minus_1: "unat (- 1 :: u64) = 2 ^ 64 - 1"
  by (simp add: unsigned_minus_1_eq_mask mask_eq_exp_minus_1)

lemma no_carry: "unat (0 :: u64) \<le> 1"
  by simp

lemma two_words: "unat (Lw t) + 2 ^ 64 * unat (Hw t) = unat t"
proof -
  have "unat t div 2 ^ 64 < 2 ^ 64" using unat_lt [of t] by (simp add: div_less_iff_less_mult)
  then have "unat (Hw t) = unat t div 2 ^ 64" by (simp add: Hw_def unat_ucast_mod unat_drop_bit)
  moreover have "unat (Lw t) = unat t mod 2 ^ 64" by (simp add: Lw_def unat_ucast_mod)
  ultimately show ?thesis by simp
qed

lemma unat_ucast_128: "unat (ucast (w :: u64) :: u128) = unat w"
  by (rule unat_ucast_up) simp

lemma unat_u64_le: "unat (w :: u64) \<le> 2 ^ 64 - 1"
  using unat_u64_less [of w] by simp

lemma u64_product: "unat (a :: u64) * unat (b :: u64) \<le> (2 ^ 64 - 1) * (2 ^ 64 - 1)"
  by (intro mult_mono unat_u64_le) simp_all

lemma unat_product_128:
  "unat (ucast (w :: u64) * ucast (a :: u64) + ucast (r :: u64) + ucast (c :: u64) :: u128) = unat w * unat a + unat r + unat c"
  "unat (ucast (w :: u64) * ucast (a :: u64) + ucast (r :: u64) :: u128) = unat w * unat a + unat r"
  "unat (ucast (w :: u64) * ucast (a :: u64) :: u128) = unat w * unat a"
proof -
  have b: "unat w * unat a + unat r + unat c < 2 ^ 128"
    using u64_product [of w a] unat_u64_le [of r] unat_u64_le [of c] by simp
  then show "unat (ucast w * ucast a + ucast r + ucast c :: u128) = unat w * unat a + unat r + unat c"
    by (simp add: unat_word_ariths unat_ucast_128)
  show "unat (ucast w * ucast a + ucast r :: u128) = unat w * unat a + unat r"
    using b by (simp add: unat_word_ariths unat_ucast_128)
  show "unat (ucast w * ucast a :: u128) = unat w * unat a"
    using b by (simp add: unat_word_ariths unat_ucast_128)
qed

lemma addc_w:
  assumes "CRYPTO_addc_w x y carry = (v, carry')"
  shows "unat v + 2 ^ 64 * unat carry' = unat x + unat y + unat carry" "unat carry \<le> 1 \<Longrightarrow> unat carry' \<le> 1"
proof -
  let ?t = "ucast carry + (ucast x + ucast y) :: u128"
  have "unat ?t = unat x + unat y + unat carry"
    using unat_u64_le [of x] unat_u64_le [of y] unat_u64_le [of carry]
    by (simp add: unat_word_ariths unat_ucast_128)
  moreover have "v = Lw ?t" "carry' = Hw ?t" using assms by (auto simp: CRYPTO_addc_w_def Lw_def Hw_def Let_def)
  ultimately show eq: "unat v + 2 ^ 64 * unat carry' = unat x + unat y + unat carry" using two_words [of ?t] by simp
  show "unat carry' \<le> 1" if "unat carry \<le> 1"
    using eq that unat_u64_le [of x] unat_u64_le [of y] by (cases "unat carry' \<ge> 2") auto
qed

lemma bit_carry: "unat (c :: u64) \<le> 1 \<Longrightarrow> c = 0 \<or> c = 1"
  by (metis le_SucE le_zero_eq One_nat_def unat_1 unat_0 word_unat_eq_iff)

lemma subc_w:
  assumes "CRYPTO_subc_w x y borrow = (v, borrow')" "unat borrow \<le> 1"
  shows "unat v + unat y + unat borrow = unat x + 2 ^ 64 * unat borrow'" "unat borrow' \<le> 1"
proof -
  have b: "borrow = 0 \<or> borrow = 1" using bit_carry [OF assms(2)] .
  have v: "v = x - y - borrow" "borrow' = (if x < y then 1 else 0) OR ((if x = y then 1 else 0) AND borrow)"
    using assms(1) by (auto simp: CRYPTO_subc_w_def Let_def)
  then show "unat borrow' \<le> 1" using b by auto
  show "unat v + unat y + unat borrow = unat x + 2 ^ 64 * unat borrow'"
  proof (cases "borrow = 0")
    case True
    then show ?thesis using v unat_u64_less [of y] by (auto simp: word_less_nat_alt unat_sub_if')
  next
    case False
    then have "borrow = 1" using b by simp
    then show ?thesis using v unat_u64_less [of y] unat_u64_less [of x]
      by (cases "x = y") (auto simp: word_less_nat_alt unat_sub_if' unat_minus_1 word_unat_eq_iff [of x y])
  qed
qed

lemma mul_add_value:
  assumes "mul_add r a w c = (v, c')"
  shows "unat v + 2 ^ 64 * unat c' = unat w * unat a + unat r + unat c"
  using assms two_words by (auto simp: mul_add_def Let_def unat_product_128)

lemma mul_value:
  assumes "mul a w c = (v, c')"
  shows "unat v + 2 ^ 64 * unat c' = unat w * unat a + unat c"
  using assms two_words by (auto simp: mul_def Let_def unat_product_128)

lemma sqr_value: "sqr a = (lo, hi) \<Longrightarrow> unat lo + 2 ^ 64 * unat hi = unat a * unat a"
  using two_words by (auto simp: sqr_def Let_def unat_product_128)

section \<open>Carry chains\<close>

text \<open>The loops of the file and of its callers write one word per step and pass on a carry. Each step turns its contribution and
  the carry into a word and the next carry, with sign \<open>s\<close>: 1 for a carry, -1 for a borrow.\<close>

locale carry_chain =
  fixes step :: "words \<Rightarrow> nat \<Rightarrow> u64 \<Rightarrow> u64 \<times> u64" and s :: int and contribution :: "words \<Rightarrow> nat \<Rightarrow> int" and
    carry_ok :: "u64 \<Rightarrow> bool"
  assumes step_value: "carry_ok c \<Longrightarrow> step m i c = (v, c') \<Longrightarrow>
      uint v + s * 2 ^ 64 * uint c' = contribution m i + s * uint c"
    and step_carry: "carry_ok c \<Longrightarrow> step m i c = (v, c') \<Longrightarrow> carry_ok c'"
begin

definition put :: "nat \<Rightarrow> words \<Rightarrow> nat \<Rightarrow> u64 \<Rightarrow> words \<times> u64" where
  "put r m i c = (let (v, c) = step m i c in (m(r + i := v), c))"

lemma chain_step:
  assumes "carry_ok c" "int (num_at m r k) + s * 2 ^ (64 * k) * uint c = T"
  shows "int (num_at (fst (put r m k c)) r (Suc k)) + s * 2 ^ (64 * Suc k) * uint (snd (put r m k c)) =
    T + contribution m k * 2 ^ (64 * k)" "carry_ok (snd (put r m k c))"
proof -
  obtain v c' where v: "step m k c = (v, c')" by fastforce
  then have p: "put r m k c = (m(r + k := v), c')" by (simp add: put_def)
  have "num_at (m(r + k := v)) r k = num_at m r k" by (rule num_at_cong) simp
  then have "int (num_at (m(r + k := v)) r (Suc k)) + s * 2 ^ (64 * Suc k) * uint c' =
      int (num_at m r k) + 2 ^ (64 * k) * (uint v + s * 2 ^ 64 * uint c')"
    by (simp add: num_simps algebra_simps power_add)
  also have "\<dots> = int (num_at m r k) + 2 ^ (64 * k) * (contribution m k + s * uint c)"
    by (simp only: step_value [OF assms(1) v])
  also have "\<dots> = T + contribution m k * 2 ^ (64 * k)" using assms(2) by (simp add: algebra_simps)
  finally show "int (num_at (fst (put r m k c)) r (Suc k)) + s * 2 ^ (64 * Suc k) * uint (snd (put r m k c)) =
    T + contribution m k * 2 ^ (64 * k)" using p by simp
  show "carry_ok (snd (put r m k c))" using p step_carry [OF assms(1) v] by simp
qed

lemma chain:
  assumes "words_rest (put r) m 0 n c = (m', c')" "carry_ok c"
    and "\<And>k m'. k < n \<Longrightarrow> same_but r k m m' \<Longrightarrow> contribution m' k = contribution m k"
  shows "int (num_at m' r n) + s * 2 ^ (64 * n) * uint c' = (\<Sum>k<n. contribution m k * 2 ^ (64 * k)) + s * uint c"
    "same_but r n m m'" "carry_ok c'"
proof -
  let ?P = "\<lambda>k m' c'. int (num_at m' r k) + s * 2 ^ (64 * k) * uint c' = (\<Sum>k<k. contribution m k * 2 ^ (64 * k)) + s * uint c \<and>
    same_but r k m m' \<and> carry_ok c'"
  have "?P n m' c'"
  proof (rule words_rest_invar [where P = ?P, OF _ _ assms(1)])
    fix k m1 c1
    assume "k < n" and inv: "?P k m1 c1"
    then have "contribution m1 k = contribution m k" using assms(3) by blast
    moreover have "same_but r (Suc k) m (fst (put r m1 k c1))"
      using inv by (auto simp: put_def same_but_def Let_def case_prod_beta)
    ultimately show "?P (Suc k) (fst (put r m1 (0 + k) c1)) (snd (put r m1 (0 + k) c1))"
      using chain_step [of c1 m1 r k] inv by (simp add: algebra_simps)
  qed (use assms in simp)
  then show "int (num_at m' r n) + s * 2 ^ (64 * n) * uint c' = (\<Sum>k<n. contribution m k * 2 ^ (64 * k)) + s * uint c"
    "same_but r n m m'" "carry_ok c'" by auto
qed

end

lemma num_at_int: "int (num_at m p n) = (\<Sum>k<n. uint (m (p + k)) * 2 ^ (64 * k))"
  by (simp add: num_at_def)

lemma num_at_sum:
  "(\<Sum>k<n. (uint (m (a + k)) + uint (m (b + k))) * 2 ^ (64 * k)) = int (num_at m a n) + int (num_at m b n)"
  "(\<Sum>k<n. (uint (m (a + k)) - uint (m (b + k))) * 2 ^ (64 * k)) = int (num_at m a n) - int (num_at m b n)"
  "(\<Sum>k<n. (w * uint (m (a + k))) * 2 ^ (64 * k)) = w * int (num_at m a n)"
  by (simp_all add: num_at_int sum.distrib sum_subtractf sum_distrib_left algebra_simps)

interpretation adder: carry_chain "\<lambda>m i. CRYPTO_addc_w (m (a + i)) (m (b + i))" 1
    "\<lambda>m i. uint (m (a + i)) + uint (m (b + i))" "\<lambda>c. unat c \<le> 1" for a b
proof
  show "uint v + 1 * 2 ^ 64 * uint c' = uint (m (a + i)) + uint (m (b + i)) + 1 * uint c"
    if "CRYPTO_addc_w (m (a + i)) (m (b + i)) c = (v, c')" for c m i v c' using word_int [OF addc_w(1) [OF that]] by simp
qed (rule addc_w(2))

interpretation subtractor: carry_chain "\<lambda>m i. CRYPTO_subc_w (m (a + i)) (m (b + i))" "- 1"
    "\<lambda>m i. uint (m (a + i)) - uint (m (b + i))" "\<lambda>c. unat c \<le> 1" for a b
proof
  show "uint v + - 1 * 2 ^ 64 * uint c' = uint (m (a + i)) - uint (m (b + i)) + - 1 * uint c"
    if "unat c \<le> 1" "CRYPTO_subc_w (m (a + i)) (m (b + i)) c = (v, c')" for c m i v c' using word_int [OF subc_w(1) [OF that(2,1)]] by simp
qed (rule subc_w(2))

interpretation multiplier: carry_chain "\<lambda>m i. mul (m (a + i)) w" 1
    "\<lambda>m i. uint w * uint (m (a + i))" "\<lambda>c. True" for a w
proof
  show "uint v + 1 * 2 ^ 64 * uint c' = uint w * uint (m (a + i)) + 1 * uint c"
    if "mul (m (a + i)) w c = (v, c')" for c m i v c' using word_int [OF mul_value [OF that]] by simp
qed

interpretation mul_adder: carry_chain "\<lambda>m i. mul_add (m (r + i)) (m (a + i)) w" 1
    "\<lambda>m i. uint (m (r + i)) + uint w * uint (m (a + i))" "\<lambda>c. True" for r a w
proof
  show "uint v + 1 * 2 ^ 64 * uint c' = uint (m (r + i)) + uint w * uint (m (a + i)) + 1 * uint c"
    if "mul_add (m (r + i)) (m (a + i)) w c = (v, c')" for c m i v c' using word_int [OF mul_add_value [OF that]] by simp
qed

text \<open>The loops that only pass a carry or a borrow on.\<close>

interpretation carrier: carry_chain "\<lambda>m i. CRYPTO_addc_w (m (a + i)) 0" 1 "\<lambda>m i. uint (m (a + i))" "\<lambda>c. unat c \<le> 1" for a
proof
  show "uint v + 1 * 2 ^ 64 * uint c' = uint (m (a + i)) + 1 * uint c"
    if "CRYPTO_addc_w (m (a + i)) 0 c = (v, c')" for c m i v c' using word_int [OF addc_w(1) [OF that]] by simp
qed (rule addc_w(2))

interpretation borrower: carry_chain "\<lambda>m i. CRYPTO_subc_w (m (a + i)) 0" "- 1" "\<lambda>m i. uint (m (a + i))" "\<lambda>c. unat c \<le> 1" for a
proof
  show "uint v + - 1 * 2 ^ 64 * uint c' = uint (m (a + i)) + - 1 * uint c"
    if "unat c \<le> 1" "CRYPTO_subc_w (m (a + i)) 0 c = (v, c')" for c m i v c' using word_int [OF subc_w(1) [OF that(2,1)]] by simp
qed (rule subc_w(2))

interpretation negator: carry_chain "\<lambda>m i. CRYPTO_subc_w 0 (m (b + i))" "- 1" "\<lambda>m i. - uint (m (b + i))" "\<lambda>c. unat c \<le> 1" for b
proof
  show "uint v + - 1 * 2 ^ 64 * uint c' = - uint (m (b + i)) + - 1 * uint c"
    if "unat c \<le> 1" "CRYPTO_subc_w 0 (m (b + i)) c = (v, c')" for c m i v c' using word_int [OF subc_w(1) [OF that(2,1)]] by simp
qed (rule subc_w(2))

section \<open>The functions on words\<close>

lemma bn_add_words:
  assumes "bn_add_words m r a b n = (m', c)" "may_read r a n" "may_read r b n"
  shows "num_at m' r n + 2 ^ (64 * n) * unat c = num_at m a n + num_at m b n" "same_but r n m m'" "unat c \<le> 1"
proof -
  have "words_rest (adder.put a b r) m 0 n 0 = (m', c)"
    using assms(1) by (simp add: bn_add_words_def words_loop_rest adder.put_def [abs_def])
  note w = this
  have rd: "k < n \<Longrightarrow> same_but r k m m1 \<Longrightarrow> uint (m1 (a + k)) + uint (m1 (b + k)) = uint (m (a + k)) + uint (m (b + k))" for k m1
    using assms(2,3) by (simp add: may_readD)
  note ch = adder.chain [OF w no_carry rd]
  show "num_at m' r n + 2 ^ (64 * n) * unat c = num_at m a n + num_at m b n"
    using ch(1) by (intro word_intI) (simp add: num_at_sum)
  show "same_but r n m m'" "unat c \<le> 1" using ch(2,3) by simp_all
qed

lemma bn_sub_words:
  assumes "bn_sub_words m r a b n = (m', c)" "may_read r a n" "may_read r b n"
  shows "num_at m' r n + num_at m b n = num_at m a n + 2 ^ (64 * n) * unat c" "same_but r n m m'" "unat c \<le> 1"
proof -
  have "words_rest (subtractor.put a b r) m 0 n 0 = (m', c)"
    using assms(1) by (simp add: bn_sub_words_def words_loop_rest subtractor.put_def [abs_def])
  note w = this
  have rd: "k < n \<Longrightarrow> same_but r k m m1 \<Longrightarrow> uint (m1 (a + k)) - uint (m1 (b + k)) = uint (m (a + k)) - uint (m (b + k))" for k m1
    using assms(2,3) by (simp add: may_readD)
  note ch = subtractor.chain [OF w no_carry rd]
  show "num_at m' r n + num_at m b n = num_at m a n + 2 ^ (64 * n) * unat c"
    using ch(1) by (intro word_intI) (simp add: num_at_sum)
  show "same_but r n m m'" "unat c \<le> 1" using ch(2,3) by simp_all
qed

lemma bn_mul_words:
  assumes "bn_mul_words m r a n w = (m', c)" "may_read r a n"
  shows "num_at m' r n + 2 ^ (64 * n) * unat c = unat w * num_at m a n" "same_but r n m m'"
proof -
  have "words_rest (multiplier.put a w r) m 0 n 0 = (m', c)"
    using assms(1) by (simp add: bn_mul_words_def words_loop_rest multiplier.put_def [abs_def])
  note w = this
  have rd: "k < n \<Longrightarrow> same_but r k m m1 \<Longrightarrow> m1 (a + k) = m (a + k)" for k m1
    using assms(2) by (simp add: may_readD)
  have ch: "int (num_at m' r n) + 1 * 2 ^ (64 * n) * uint c = (\<Sum>k<n. uint w * uint (m (a + k)) * 2 ^ (64 * k)) + 1 * uint 0"
    using multiplier.chain(1) [OF w] rd by simp
  show "num_at m' r n + 2 ^ (64 * n) * unat c = unat w * num_at m a n"
    using ch by (intro word_intI) (simp add: num_at_sum)
  show "same_but r n m m'" using multiplier.chain(2) [OF w] rd by simp
qed

lemma bn_mul_add_words:
  assumes "bn_mul_add_words m r a n w = (m', c)" "may_read r a n"
  shows "num_at m' r n + 2 ^ (64 * n) * unat c = num_at m r n + unat w * num_at m a n" "same_but r n m m'"
proof -
  have "words_rest (mul_adder.put r a w r) m 0 n 0 = (m', c)"
    using assms(1) by (simp add: bn_mul_add_words_def words_loop_rest mul_adder.put_def [abs_def])
  note w = this
  have rd: "k < n \<Longrightarrow> same_but r k m m1 \<Longrightarrow> uint (m1 (r + k)) + uint w * uint (m1 (a + k)) = uint (m (r + k)) + uint w * uint (m (a + k))"
    for k m1 using assms(2) by (simp add: may_readD [OF may_read_refl] may_readD)
  note ch = mul_adder.chain [OF w TrueI rd]
  have "(\<Sum>k<n. (uint (m (r + k)) + uint w * uint (m (a + k))) * 2 ^ (64 * k)) = int (num_at m r n) + uint w * int (num_at m a n)"
    by (simp add: num_at_int sum.distrib sum_distrib_left algebra_simps)
  then show "num_at m' r n + 2 ^ (64 * n) * unat c = num_at m r n + unat w * num_at m a n"
    using ch(1) by (intro word_intI) simp
  show "same_but r n m m'" using ch(2) by simp
qed

lemma bn_select_words:
  assumes "msk = 0 \<or> msk = - 1" "may_read r a n" "may_read r b n"
  shows "num_at (bn_select_words m r msk a b n) r n = num_at m (if msk = 0 then b else a) n"
    "same_but r n m (bn_select_words m r msk a b n)"
proof -
  let ?f = "\<lambda>m i c. (m(r + i := constant_time_select_w msk (m (a + i)) (m (b + i))), c)"
  let ?P = "\<lambda>k m' c :: u64. num_at m' r k = num_at m (if msk = 0 then b else a) k \<and> same_but r k m m'"
  obtain m' c' where w: "words_rest ?f m 0 n 0 = (m', c')" by fastforce
  have "?P n m' c'"
  proof (rule words_rest_invar [where P = ?P, OF _ _ w])
    fix k m1 and c :: u64
    assume "k < n" and inv: "?P k m1 c"
    then have "m1 (a + k) = m (a + k)" "m1 (b + k) = m (b + k)" using assms(2,3) may_readD by blast+
    moreover have "num_at (m1(r + k := v)) r k = num_at m1 r k" for v by (rule num_at_cong) simp
    ultimately show "?P (Suc k) (fst (?f m1 (0 + k) c)) (snd (?f m1 (0 + k) c))"
      using inv assms(1) by (auto simp: num_simps ct_simps same_but_def)
  qed simp
  then show "num_at (bn_select_words m r msk a b n) r n = num_at m (if msk = 0 then b else a) n"
    "same_but r n m (bn_select_words m r msk a b n)" using w by (simp_all add: bn_select_words_def)
qed

end
