(* ===== verification/Bn_Correct.thy ===== *)
theory Bn_Correct
  imports Bn Bn_Words_Correct
begin

unbundle bit_operations_syntax

text \<open>
  The store of big numbers: its invariant, what an operation on one number may change, the integers the numbers denote, and
  that the functions of \<open>bn.c\<close>, \<open>cmp.c\<close> and \<open>add.c\<close> compute on these integers, also when their arguments are the same object.
\<close>

section \<open>The store\<close>

definition bn_ok :: "bn_store \<Rightarrow> nat \<Rightarrow> bool" where
  "bn_ok S i \<longleftrightarrow> bn_width (st_bn S i) \<le> bn_dmax (st_bn S i) \<and> bn_dmax (st_bn S i) \<le> BN_MAX_WORDS \<and>
     bn_d (st_bn S i) + bn_dmax (st_bn S i) \<le> st_brk S"

definition apart :: "bn_store \<Rightarrow> nat \<Rightarrow> nat \<Rightarrow> bool" where
  "apart S i j \<longleftrightarrow> bn_d (st_bn S i) + bn_dmax (st_bn S i) \<le> bn_d (st_bn S j) \<or>
     bn_d (st_bn S j) + bn_dmax (st_bn S j) \<le> bn_d (st_bn S i)"

text \<open>The live numbers \<open>L\<close> have their words in memory that is theirs alone.\<close>

definition store_ok :: "nat set \<Rightarrow> bn_store \<Rightarrow> bool" where
  "store_ok L S \<longleftrightarrow> (\<forall>i \<in> L. bn_ok S i) \<and> (\<forall>i \<in> L. \<forall>j \<in> L. i \<noteq> j \<longrightarrow> apart S i j)"

definition bn_abs :: "bn_store \<Rightarrow> nat \<Rightarrow> nat" where
  "bn_abs S i = num_at (st_words S) (bn_d (st_bn S i)) (bn_width (st_bn S i))"

definition bn_val :: "bn_store \<Rightarrow> nat \<Rightarrow> int" where
  "bn_val S i = (if bn_neg (st_bn S i) then - int (bn_abs S i) else int (bn_abs S i))"

text \<open>An operation on \<open>r\<close> keeps the invariant and every other live number.\<close>

definition changes :: "nat set \<Rightarrow> nat \<Rightarrow> bn_store \<Rightarrow> bn_store \<Rightarrow> bool" where
  "changes L r S S' \<longleftrightarrow> store_ok L S' \<and> st_brk S \<le> st_brk S' \<and> st_bn_brk S' = st_bn_brk S \<and>
     (\<forall>i \<in> L. i \<noteq> r \<longrightarrow> st_bn S' i = st_bn S i \<and> (\<forall>k < bn_dmax (st_bn S i). limb S' i k = limb S i k))"

lemma changes_refl: "store_ok L S \<Longrightarrow> changes L r S S"
  by (simp add: changes_def)

lemma changes_trans [trans]: "changes L r S S' \<Longrightarrow> changes L r S' S'' \<Longrightarrow> changes L r S S''"
  by (auto simp: changes_def)

lemma changes_ok: "changes L r S S' \<Longrightarrow> store_ok L S'"
  by (simp add: changes_def)

lemma store_ok_width: "store_ok L S \<Longrightarrow> i \<in> L \<Longrightarrow> bn_width (st_bn S i) \<le> bn_dmax (st_bn S i)"
  "store_ok L S \<Longrightarrow> i \<in> L \<Longrightarrow> bn_width (st_bn S i) \<le> BN_MAX_WORDS"
  by (auto simp: store_ok_def bn_ok_def)

lemma bn_abs_cong:
  assumes "bn_width (st_bn S' i) = bn_width (st_bn S i)" "\<And>k. k < bn_width (st_bn S i) \<Longrightarrow> limb S' i k = limb S i k"
  shows "bn_abs S' i = bn_abs S i"
  using assms num_at_cong [of "bn_width (st_bn S i)" "st_words S'"] by (simp add: bn_abs_def limb_def)

lemma changes_others:
  assumes "changes L r S S'" "store_ok L S" "i \<in> L" "i \<noteq> r"
  shows "st_bn S' i = st_bn S i" "bn_abs S' i = bn_abs S i" "bn_val S' i = bn_val S i"
proof -
  show "st_bn S' i = st_bn S i" using assms by (simp add: changes_def)
  moreover have "bn_abs S' i = bn_abs S i"
    by (rule bn_abs_cong) (use assms store_ok_width(1) [OF assms(2,3)] in \<open>auto simp: changes_def\<close>)
  ultimately show "bn_abs S' i = bn_abs S i" "bn_val S' i = bn_val S i" by (simp_all add: bn_val_def)
qed

text \<open>Writing inside the memory of \<open>r\<close>, and updating the fields of \<open>r\<close>.\<close>

lemma changes_words:
  assumes "store_ok L S" "r \<in> L" "same_but (bn_d (st_bn S r)) n (st_words S) m" "n \<le> bn_dmax (st_bn S r)"
  shows "changes L r S (S\<lparr>st_words := m\<rparr>)"
proof -
  have "limb (S\<lparr>st_words := m\<rparr>) i k = limb S i k" if "i \<in> L" "i \<noteq> r" "k < bn_dmax (st_bn S i)" for i k
  proof -
    have "apart S r i" using assms(1,2) that by (auto simp: store_ok_def)
    then show ?thesis using assms(3,4) that(3) by (auto simp: apart_def limb_def same_but_def)
  qed
  then show ?thesis using assms(1) by (auto simp: changes_def store_ok_def bn_ok_def apart_def)
qed

lemma changes_fields:
  assumes "store_ok L S" "bn_d (f (st_bn S r)) = bn_d (st_bn S r)" "bn_dmax (f (st_bn S r)) = bn_dmax (st_bn S r)"
    "bn_width (f (st_bn S r)) \<le> bn_dmax (st_bn S r)"
  shows "changes L r S (bn_upd r f S)"
  using assms by (auto simp: changes_def store_ok_def bn_ok_def apart_def bn_upd_def limb_def)

lemma bn_upd_simps [simp]:
  "st_words (bn_upd i f S) = st_words S" "st_brk (bn_upd i f S) = st_brk S" "st_bn_brk (bn_upd i f S) = st_bn_brk S"
  "st_bn (bn_upd i f S) i = f (st_bn S i)" "j \<noteq> i \<Longrightarrow> st_bn (bn_upd i f S) j = st_bn S j"
  by (simp_all add: bn_upd_def)

lemma bn_upd_fields [simp]:
  "bn_d (st_bn (bn_upd r (bn_width_update f) S) i) = bn_d (st_bn S i)" "bn_d (st_bn (bn_upd r (bn_neg_update g) S) i) = bn_d (st_bn S i)"
  "bn_dmax (st_bn (bn_upd r (bn_width_update f) S) i) = bn_dmax (st_bn S i)" "bn_dmax (st_bn (bn_upd r (bn_neg_update g) S) i) = bn_dmax (st_bn S i)"
  "bn_width (st_bn (bn_upd r (bn_neg_update g) S) i) = bn_width (st_bn S i)" "bn_neg (st_bn (bn_upd r (bn_width_update f) S) i) = bn_neg (st_bn S i)"
  by (cases "i = r"; simp)+

lemma set_neg_simps [simp]:
  "st_words (set_neg r b S) = st_words S" "st_bn (set_neg r b S) r = (st_bn S r)\<lparr>bn_neg := b\<rparr>"
  "i \<noteq> r \<Longrightarrow> st_bn (set_neg r b S) i = st_bn S i" "bn_abs (set_neg r b S) i = bn_abs S i"
  by (simp_all add: set_neg_def bn_abs_def bn_upd_def)

lemma changes_set_neg: "store_ok L S \<Longrightarrow> r \<in> L \<Longrightarrow> changes L r S (set_neg r b S)"
  unfolding set_neg_def by (rule changes_fields) (auto simp: store_ok_width)

lemma may_read_limbs:
  assumes "store_ok L S" "r \<in> L" "a \<in> L" "n \<le> bn_dmax (st_bn S a)"
  shows "may_read (bn_d (st_bn S r)) (bn_d (st_bn S a)) n"
proof (cases "r = a")
  case False
  then have "apart S r a" using assms by (auto simp: store_ok_def)
  then show ?thesis using assms(4) by (auto simp: apart_def may_read_def)
qed simp

section \<open>Growing a number\<close>

definition can_grow :: "allocator \<Rightarrow> bn_store \<Rightarrow> nat \<Rightarrow> nat \<Rightarrow> bool" where
  "can_grow A S r n \<longleftrightarrow> n \<le> bn_dmax (st_bn S r) \<or>
     n \<le> BN_MAX_WORDS \<and> bn_flags (st_bn S r) AND BN_FLG_STATIC_DATA = 0 \<and> OPENSSL_calloc A n 8 \<noteq> None"

text \<open>Room for up to \<open>n\<close> words.\<close>

definition can_grow_to :: "allocator \<Rightarrow> bn_store \<Rightarrow> nat \<Rightarrow> nat \<Rightarrow> bool" where
  "can_grow_to A S r n \<longleftrightarrow> (\<forall>k \<le> n. can_grow A S r k)"

lemma wexpand_iff: "fst (bn_wexpand A r n S) \<longleftrightarrow> can_grow A S r n"
  by (auto simp: bn_wexpand_def can_grow_def Let_def)

lemma wexpand_fail: "bn_wexpand A r n S = (False, S') \<Longrightarrow> S' = S"
  by (auto simp: bn_wexpand_def Let_def split: if_splits)

lemma bn_wexpand:
  assumes "bn_wexpand A r n S = (True, S')" "store_ok L S" "r \<in> L"
  shows "changes L r S S'" "n \<le> bn_dmax (st_bn S' r)"
    "bn_width (st_bn S' i) = bn_width (st_bn S i)" "bn_neg (st_bn S' i) = bn_neg (st_bn S i)" "bn_flags (st_bn S' i) = bn_flags (st_bn S i)"
    "i \<in> L \<Longrightarrow> k < bn_width (st_bn S i) \<Longrightarrow> limb S' i k = limb S i k"
proof -
  have "changes L r S S' \<and> n \<le> bn_dmax (st_bn S' r) \<and> bn_width (st_bn S' i) = bn_width (st_bn S i) \<and>
    bn_neg (st_bn S' i) = bn_neg (st_bn S i) \<and> bn_flags (st_bn S' i) = bn_flags (st_bn S i) \<and>
    (i \<in> L \<longrightarrow> k < bn_width (st_bn S i) \<longrightarrow> limb S' i k = limb S i k)"
  proof (cases "n \<le> bn_dmax (st_bn S r)")
    case True
    then show ?thesis using assms by (auto simp: bn_wexpand_def Let_def changes_refl)
  next
    case False
    define m where "m = words_move (words_zero (st_words S) (st_brk S) n) (st_brk S) (bn_d (st_bn S r)) (bn_width (st_bn S r))"
    have n: "n \<le> BN_MAX_WORDS" and S': "S' = bn_upd r (\<lambda>b. b\<lparr>bn_d := st_brk S, bn_dmax := n\<rparr>) (S\<lparr>st_words := m, st_brk := st_brk S + n\<rparr>)"
      using assms(1) False by (auto simp: bn_wexpand_def Let_def m_def split: if_splits)
    have w: "bn_width (st_bn S r) \<le> bn_dmax (st_bn S r)" "bn_width (st_bn S r) < n"
      and top: "\<And>i. i \<in> L \<Longrightarrow> bn_d (st_bn S i) + bn_dmax (st_bn S i) \<le> st_brk S"
      using assms(2,3) False by (auto simp: store_ok_def bn_ok_def)
    have low: "x < st_brk S \<Longrightarrow> m x = st_words S x" for x by (simp add: m_def words_move_def words_zero_def)
    have new: "k < bn_width (st_bn S r) \<Longrightarrow> m (st_brk S + k) = st_words S (bn_d (st_bn S r) + k)" for k
      using top [OF assms(3)] w by (simp add: m_def words_move_def words_zero_def)
    have other: "i \<in> L \<Longrightarrow> i \<noteq> r \<Longrightarrow> k < bn_dmax (st_bn S i) \<Longrightarrow> limb S' i k = limb S i k" for i k
      using top [of i] by (simp add: S' limb_def low)
    have "store_ok L S'"
      using assms(2) n w top by (auto simp: S' store_ok_def bn_ok_def apart_def bn_upd_def) (fastforce dest: top)+
    then have "changes L r S S'" using other by (auto simp: changes_def S')
    moreover have "limb S' i k = limb S i k" if "i \<in> L" "k < bn_width (st_bn S i)"
    proof (cases "i = r")
      case True then show ?thesis using new that by (simp add: S' limb_def)
    next
      case False
      then show ?thesis using other that store_ok_width(1) [OF assms(2) that(1)] by simp
    qed
    ultimately show ?thesis by (cases "i = r") (auto simp: S')
  qed
  then show "changes L r S S'" "n \<le> bn_dmax (st_bn S' r)"
    "bn_width (st_bn S' i) = bn_width (st_bn S i)" "bn_neg (st_bn S' i) = bn_neg (st_bn S i)" "bn_flags (st_bn S' i) = bn_flags (st_bn S i)"
    "i \<in> L \<Longrightarrow> k < bn_width (st_bn S i) \<Longrightarrow> limb S' i k = limb S i k" by blast+
qed

lemma wexpand_abs:
  assumes "bn_wexpand A r n S = (True, S')" "store_ok L S" "r \<in> L" "i \<in> L"
  shows "bn_abs S' i = bn_abs S i"
  by (rule bn_abs_cong) (use bn_wexpand [OF assms(1-3)] assms(4) in auto)

section \<open>The minimal width\<close>

lemma min_width:
  "min_width m d n \<le> n" "num_at m d (min_width m d n) = num_at m d n"
  "min_width m d n > 0 \<Longrightarrow> m (d + (min_width m d n - 1)) \<noteq> 0"
  by (induction n) (auto simp: num_simps)

definition minimal :: "bn_store \<Rightarrow> nat \<Rightarrow> bool" where
  "minimal S i \<longleftrightarrow> (bn_width (st_bn S i) > 0 \<longrightarrow> limb S i (bn_width (st_bn S i) - 1) \<noteq> 0) \<and>
     (bn_width (st_bn S i) = 0 \<longrightarrow> \<not> bn_neg (st_bn S i))"

lemma bn_set_minimal_width:
  assumes "store_ok L S" "r \<in> L"
  shows "changes L r S (bn_set_minimal_width r S)" "bn_abs (bn_set_minimal_width r S) r = bn_abs S r"
    "minimal (bn_set_minimal_width r S) r" "bn_val (bn_set_minimal_width r S) r = bn_val S r"
proof -
  let ?w = "bn_minimal_width S r" and ?S1 = "bn_upd r (\<lambda>b. b\<lparr>bn_width := bn_minimal_width S r\<rparr>) S"
  have w: "?w \<le> bn_width (st_bn S r)" "num_at (st_words S) (bn_d (st_bn S r)) ?w = bn_abs S r"
    "?w > 0 \<Longrightarrow> limb S r (?w - 1) \<noteq> 0"
    using min_width [of "st_words S" "bn_d (st_bn S r)"] by (auto simp: bn_minimal_width_def bn_abs_def limb_def)
  have 1: "changes L r S ?S1" using w(1) store_ok_width(1) [OF assms] by (intro changes_fields assms(1)) auto
  have "changes L r ?S1 (bn_set_minimal_width r S)"
    using changes_set_neg [OF changes_ok [OF 1] assms(2)] changes_refl [OF changes_ok [OF 1]]
    by (auto simp only: bn_set_minimal_width_def Let_def set_neg_def split: if_split)
  with 1 show "changes L r S (bn_set_minimal_width r S)" by (rule changes_trans)
  show abs: "bn_abs (bn_set_minimal_width r S) r = bn_abs S r" using w(2)
    by (auto simp: bn_set_minimal_width_def Let_def bn_abs_def)
  show "minimal (bn_set_minimal_width r S) r" using w(3)
    by (auto simp: minimal_def bn_set_minimal_width_def Let_def limb_def)
  show "bn_val (bn_set_minimal_width r S) r = bn_val S r"
    using abs w(2) by (auto simp: bn_val_def bn_set_minimal_width_def Let_def)
qed

lemma num_at_zero_iff: "num_at m p n = 0 \<longleftrightarrow> (\<forall>i < n. m (p + i) = 0)"
  by (auto simp: num_at_def sum_eq_0_iff unat_eq_zero)

lemma minimal_zero: "minimal S i \<Longrightarrow> bn_abs S i = 0 \<longleftrightarrow> bn_width (st_bn S i) = 0"
  by (cases "bn_width (st_bn S i)") (auto simp: minimal_def bn_abs_def num_at_zero_iff limb_def)

text \<open>A number without negative zero, as all functions but one return it.\<close>

lemma minimal_val_zero: "minimal S i \<Longrightarrow> bn_val S i = 0 \<longleftrightarrow> bn_width (st_bn S i) = 0"
  by (simp add: bn_val_def minimal_zero)

lemma words_or_zero: "words_or m p n msk = 0 \<longleftrightarrow> msk = 0 \<and> num_at m p n = 0"
  by (induction n arbitrary: p msk) (auto simp: num_at_Cons or_eq_0_iff unat_eq_zero)

lemma fits_in_words:
  assumes "num \<le> bn_width (st_bn S i)"
  shows "bn_fits_in_words S i num \<longleftrightarrow> bn_abs S i = num_at (st_words S) (bn_d (st_bn S i)) num"
  using num_at_append [of "st_words S" "bn_d (st_bn S i)" num "bn_width (st_bn S i) - num"] assms
  by (simp add: bn_fits_in_words_def Let_def words_or_zero bn_abs_def)

lemma BN_is_zero: "BN_is_zero S i \<longleftrightarrow> bn_abs S i = 0"
  by (simp add: BN_is_zero_def fits_in_words)

section \<open>Addition and subtraction of words\<close>

lemma addc_rest:
  assumes "addc_rest m r a n c = (m', c')" "unat c \<le> 1" "may_read r a n"
  shows "num_at m' r n + 2 ^ (64 * n) * unat c' = num_at m a n + unat c" "same_but r n m m'" "unat c' \<le> 1"
proof -
  have w: "words_rest (carrier.put a r) m 0 n c = (m', c')"
    using assms(1) by (simp add: addc_rest_def carrier.put_def [abs_def])
  have rd: "k < n \<Longrightarrow> same_but r k m m1 \<Longrightarrow> m1 (a + k) = m (a + k)" for k m1
    using assms(3) by (simp add: may_readD)
  show "num_at m' r n + 2 ^ (64 * n) * unat c' = num_at m a n + unat c"
    using carrier.chain(1) [OF w assms(2)] rd by (intro word_intI) (simp add: num_at_int)
  show "same_but r n m m'" "unat c' \<le> 1" using carrier.chain(2,3) [OF w assms(2)] rd by simp_all
qed

lemma subc_rest:
  assumes "subc_rest m r a n c = (m', c')" "unat c \<le> 1" "may_read r a n"
  shows "num_at m' r n + unat c = num_at m a n + 2 ^ (64 * n) * unat c'" "same_but r n m m'" "unat c' \<le> 1"
proof -
  have w: "words_rest (borrower.put a r) m 0 n c = (m', c')"
    using assms(1) by (simp add: subc_rest_def borrower.put_def [abs_def])
  have rd: "k < n \<Longrightarrow> same_but r k m m1 \<Longrightarrow> m1 (a + k) = m (a + k)" for k m1
    using assms(3) by (simp add: may_readD)
  show "num_at m' r n + unat c = num_at m a n + 2 ^ (64 * n) * unat c'"
    using borrower.chain(1) [OF w assms(2)] rd by (intro word_intI) (simp add: num_at_int)
  show "same_but r n m m'" "unat c' \<le> 1" using borrower.chain(2,3) [OF w assms(2)] rd by simp_all
qed

lemma may_read_shorter: "may_read r a n \<Longrightarrow> k \<le> n \<Longrightarrow> may_read r a k"
  by (auto simp: may_read_def)

lemma may_read_tail: "may_read r a n \<Longrightarrow> k \<le> n \<Longrightarrow> may_read (r + k) (a + k) (n - k)"
  by (auto simp: may_read_def)

lemma same_but_tail: "same_but r k m m' \<Longrightarrow> may_read r a n \<Longrightarrow> k \<le> n \<Longrightarrow> num_at m' (a + k) (n - k) = num_at m (a + k) (n - k)"
  by (rule num_at_cong) (auto simp: same_but_def may_read_def)

lemma words_uadd:
  assumes "bn_add_words m r a b lo = (m1, c1)" "addc_rest m1 (r + lo) (a + lo) (hi - lo) c1 = (m2, c2)" "lo \<le> hi"
    "may_read r a hi" "may_read r b lo"
  shows "num_at (m2(r + hi := c2)) r (hi + 1) = num_at m a hi + num_at m b lo" "same_but r (hi + 1) m (m2(r + hi := c2))"
proof -
  note 1 = bn_add_words [OF assms(1) may_read_shorter [OF assms(4,3)] assms(5)]
  note 2 = addc_rest [OF assms(2) 1(3) may_read_tail [OF assms(4,3)]]
  let ?m = "m2(r + hi := c2)"
  have "num_at ?m r lo = num_at m1 r lo" "num_at ?m (r + lo) (hi - lo) = num_at m2 (r + lo) (hi - lo)"
    using 2(2) assms(3) by (auto intro!: num_at_cong simp: same_but_def)
  moreover have "num_at ?m r (hi + 1) = num_at ?m r lo + 2 ^ (64 * lo) * num_at ?m (r + lo) (hi - lo) + unat c2 * 2 ^ (64 * hi)"
    using assms(3) num_at_append [of ?m r lo "hi - lo"] by (simp add: num_simps)
  moreover have "(2 :: nat) ^ (64 * hi) = 2 ^ (64 * lo) * 2 ^ (64 * (hi - lo))" using assms(3) by (simp flip: power_add add: algebra_simps)
  ultimately have "num_at ?m r (hi + 1) = num_at m1 r lo + 2 ^ (64 * lo) * (num_at m2 (r + lo) (hi - lo) + 2 ^ (64 * (hi - lo)) * unat c2)"
    by (simp add: algebra_simps)
  also have "\<dots> = num_at m1 r lo + 2 ^ (64 * lo) * unat c1 + 2 ^ (64 * lo) * num_at m (a + lo) (hi - lo)"
    unfolding 2(1) same_but_tail [OF 1(2) assms(4,3)] by (simp add: algebra_simps)
  also have "\<dots> = num_at m a hi + num_at m b lo"
    using assms(3) num_at_append [of m a lo "hi - lo"] by (simp add: 1(1))
  finally show "num_at ?m r (hi + 1) = num_at m a hi + num_at m b lo" .
  show "same_but r (hi + 1) m ?m" using 1(2) 2(2) assms(3) by (auto simp: same_but_def)
qed

lemma words_usub:
  assumes "bn_sub_words m r a b lo = (m1, c1)" "subc_rest m1 (r + lo) (a + lo) (hi - lo) c1 = (m2, c2)" "lo \<le> hi"
    "may_read r a hi" "may_read r b lo"
  shows "num_at m2 r hi + num_at m b lo = num_at m a hi + 2 ^ (64 * hi) * unat c2" "same_but r hi m m2" "unat c2 \<le> 1"
proof -
  note 1 = bn_sub_words [OF assms(1) may_read_shorter [OF assms(4,3)] assms(5)]
  note 2 = subc_rest [OF assms(2) 1(3) may_read_tail [OF assms(4,3)]]
  have lo: "num_at m2 r lo = num_at m1 r lo" using 2(2) by (auto intro!: num_at_cong simp: same_but_def)
  have pw: "(2 :: nat) ^ (64 * hi) = 2 ^ (64 * lo) * 2 ^ (64 * (hi - lo))" using assms(3) by (simp flip: power_add add: algebra_simps)
  have "num_at m2 r hi + num_at m b lo = num_at m1 r lo + num_at m b lo + 2 ^ (64 * lo) * num_at m2 (r + lo) (hi - lo)"
    using num_at_append [of m2 r lo "hi - lo"] assms(3) by (simp add: lo)
  also have "\<dots> = num_at m a lo + 2 ^ (64 * lo) * (num_at m2 (r + lo) (hi - lo) + unat c1)"
    unfolding 1(1) by (simp add: algebra_simps)
  also have "\<dots> = num_at m a lo + 2 ^ (64 * lo) * num_at m (a + lo) (hi - lo) + 2 ^ (64 * hi) * unat c2"
    unfolding 2(1) same_but_tail [OF 1(2) assms(4,3)] pw by (simp add: algebra_simps)
  also have "\<dots> = num_at m a hi + 2 ^ (64 * hi) * unat c2"
    using num_at_append [of m a lo "hi - lo"] assms(3) by simp
  finally show "num_at m2 r hi + num_at m b lo = num_at m a hi + 2 ^ (64 * hi) * unat c2" .
  show "same_but r hi m m2" using 1(2) 2(2) assms(3) by (auto simp: same_but_def)
  show "unat c2 \<le> 1" by (rule 2(3))
qed

section \<open>Comparison\<close>

lemma cmp_words_loop:
  "cmp_words_loop m a b n ret =
     (if num_at m a n = num_at m b n then ret else if num_at m a n < num_at m b n then - 1 else 1)"
proof (induction n arbitrary: a b ret)
  case (Suc n)
  have "x + 2 ^ 64 * u < y + 2 ^ 64 * v" if "u < v" "x < 2 ^ 64" for x y u v :: nat
  proof -
    have "2 ^ 64 * (u + 1) \<le> 2 ^ 64 * v" using that(1) by (intro mult_left_mono) simp_all
    then show ?thesis using that(2) by simp
  qed
  note lt = this
  let ?u = "num_at m (a + 1) n" and ?v = "num_at m (b + 1) n"
  show ?case
  proof (cases ?u ?v rule: linorder_cases)
    case less
    then have "num_at m a (Suc n) < num_at m b (Suc n)" using lt unat_u64_less by (simp only: num_at_Cons)
    then show ?thesis using less Suc by simp
  next
    case equal
    then show ?thesis using Suc
      by (auto simp: num_at_Cons ct_simps word_less_nat_alt word_unat_eq_iff)
  next
    case greater
    then have "num_at m b (Suc n) < num_at m a (Suc n)" using lt unat_u64_less by (simp only: num_at_Cons)
    then show ?thesis using greater Suc by simp
  qed
qed simp

lemma bn_cmp_words:
  "bn_cmp_words_consttime m a n b k =
     (if num_at m a n < num_at m b k then - 1 else if num_at m a n = num_at m b k then 0 else 1)"
proof -
  have longer: "num_at m p x < num_at m q y" if "x \<le> y" "num_at m (q + x) (y - x) \<noteq> 0" for p q x y
  proof -
    have "2 ^ (64 * x) \<le> 2 ^ (64 * x) * num_at m (q + x) (y - x)" using that(2) by simp
    moreover have "num_at m q y = num_at m q x + 2 ^ (64 * x) * num_at m (q + x) (y - x)"
      using num_at_append [of m q x "y - x"] that(1) by simp
    ultimately show ?thesis using num_at_bound [of m p x] by linarith
  qed
  have same: "num_at m q y = num_at m q x" if "x \<le> y" "num_at m (q + x) (y - x) = 0" for q x y
    using num_at_append [of m q x "y - x"] that by simp
  show ?thesis
  proof (cases n k rule: linorder_cases)
    case less
    then show ?thesis using longer [of n k b a] same [of n k b]
      by (auto simp: bn_cmp_words_consttime_def Let_def ct_simps cmp_words_loop words_or_zero)
  next
    case equal
    then show ?thesis by (simp add: bn_cmp_words_consttime_def cmp_words_loop)
  next
    case greater
    then show ?thesis using longer [of k n a b] same [of k n a]
      by (auto simp: bn_cmp_words_consttime_def Let_def ct_simps cmp_words_loop words_or_zero)
  qed
qed

lemma BN_ucmp: "BN_ucmp S a b = (if bn_abs S a < bn_abs S b then - 1 else if bn_abs S a = bn_abs S b then 0 else 1)"
  by (simp add: BN_ucmp_def bn_cmp_words bn_abs_def)

lemma neg_one_less: "(- 1 :: u32) <s 0" "\<not> (1 :: u32) <s 0"
  by (simp_all add: word_sless_alt)

lemma BN_ucmp_less: "BN_ucmp S a b <s 0 \<longleftrightarrow> bn_abs S a < bn_abs S b"
  by (auto simp: BN_ucmp neg_one_less)

end
