(* ===== verification/Bn_Add.thy ===== *)
theory Bn_Add
  imports Bn_Correct
begin

unbundle bit_operations_syntax

text \<open>
  Addition and subtraction of big numbers compute on the integers, for every overlap of result and operands.
\<close>

section \<open>Absolute values\<close>

lemma bn_uadd_consttime:
  assumes "bn_uadd_consttime A r a b S = (True, S')" "store_ok L S" "r \<in> L" "a \<in> L" "b \<in> L"
  shows "changes L r S S'" "bn_abs S' r = bn_abs S a + bn_abs S b" "bn_neg (st_bn S' r) = bn_neg (st_bn S r)"
proof -
  define x where "x = (if bn_width (st_bn S a) < bn_width (st_bn S b) then b else a)"
  define y where "y = (if bn_width (st_bn S a) < bn_width (st_bn S b) then a else b)"
  have xy: "x \<in> L" "y \<in> L" "bn_width (st_bn S y) \<le> bn_width (st_bn S x)" "bn_abs S x + bn_abs S y = bn_abs S a + bn_abs S b"
    using assms(4,5) by (auto simp: x_def y_def)
  let ?hi = "bn_width (st_bn S x)" and ?lo = "bn_width (st_bn S y)"
  obtain S1 where w: "bn_wexpand A r (?hi + 1) S = (True, S1)"
    using assms(1) by (auto simp: bn_uadd_consttime_def Let_def x_def split: prod.splits if_splits)
  let ?S2 = "bn_upd r (\<lambda>x. x\<lparr>bn_width := ?hi + 1\<rparr>) S1"
  let ?rd = "bn_d (st_bn S1 r)" and ?ad = "bn_d (st_bn S1 x)" and ?bd = "bn_d (st_bn S1 y)"
  obtain m1 c1 where 1: "bn_add_words (st_words S1) ?rd ?ad ?bd ?lo = (m1, c1)" by fastforce
  obtain m2 c2 where 2: "addc_rest m1 (?rd + ?lo) (?ad + ?lo) (?hi - ?lo) c1 = (m2, c2)" by fastforce
  have ab: "(if bn_width (st_bn S a) < bn_width (st_bn S b) then (b, a) else (a, b)) = (x, y)" by (simp add: x_def y_def)
  have S': "S' = ?S2\<lparr>st_words := m2(?rd + ?hi := c2)\<rparr>"
    using assms(1) w 1 2 unfolding bn_uadd_consttime_def ab by (simp add: Let_def)
  note e = bn_wexpand [OF w assms(2,3)]
  have ok: "store_ok L S1" using e(1) by (rule changes_ok)
  have "?hi \<le> bn_dmax (st_bn S1 x)" "?lo \<le> bn_dmax (st_bn S1 y)"
    using store_ok_width(1) [OF ok xy(1)] store_ok_width(1) [OF ok xy(2)] e(3) by simp_all
  then have "may_read ?rd ?ad ?hi" "may_read ?rd ?bd ?lo" using may_read_limbs [OF ok assms(3)] xy by blast+
  note u = words_uadd [OF 1 2 xy(3) this]
  have abs: "num_at (st_words S1) ?ad ?hi = bn_abs S x" "num_at (st_words S1) ?bd ?lo = bn_abs S y"
    using wexpand_abs [OF w assms(2,3)] xy e(3) by (simp_all add: bn_abs_def)
  have "changes L r S1 ?S2" using e(2) by (intro changes_fields ok) simp_all
  moreover have "changes L r ?S2 S'"
    unfolding S' using u(2) e(2) by (intro changes_words [where n = "?hi + 1"] changes_ok [OF calculation] assms(3)) simp_all
  ultimately show "changes L r S S'" using e(1) changes_trans by blast
  show "bn_abs S' r = bn_abs S a + bn_abs S b" using u(1) abs xy(4) by (simp add: S' bn_abs_def)
  show "bn_neg (st_bn S' r) = bn_neg (st_bn S r)" using e(4) by (simp add: S')
qed

lemma BN_uadd_fail:
  assumes "BN_uadd A r a b S = (False, S')"
  shows "S' = S" "\<not> can_grow A S r (max (bn_width (st_bn S a)) (bn_width (st_bn S b)) + 1)"
proof -
  let ?w = "max (bn_width (st_bn S a)) (bn_width (st_bn S b)) + 1"
  obtain ok where "bn_wexpand A r ?w S = (ok, S')" "\<not> ok"
    using assms by (auto simp: BN_uadd_def bn_uadd_consttime_def Let_def max_def split: prod.splits if_splits)
  then show "S' = S" "\<not> can_grow A S r ?w" using wexpand_fail wexpand_iff [of A r ?w S] by auto
qed

lemma BN_uadd:
  assumes "BN_uadd A r a b S = (True, S')" "store_ok L S" "r \<in> L" "a \<in> L" "b \<in> L"
  shows "changes L r S S'" "bn_abs S' r = bn_abs S a + bn_abs S b" "minimal S' r"
    "bn_val S' r = (if bn_neg (st_bn S r) then - 1 else 1) * (int (bn_abs S a) + int (bn_abs S b))"
proof -
  obtain S1 where 1: "bn_uadd_consttime A r a b S = (True, S1)" and S': "S' = bn_set_minimal_width r S1"
    using assms(1) by (auto simp: BN_uadd_def Let_def split: prod.splits if_splits)
  note u = bn_uadd_consttime [OF 1 assms(2-5)]
  note s = bn_set_minimal_width [OF changes_ok [OF u(1)] assms(3)]
  show "changes L r S S'" using changes_trans [OF u(1) s(1)] by (simp add: S')
  show "bn_abs S' r = bn_abs S a + bn_abs S b" "minimal S' r" using s u(2) by (simp_all add: S')
  show "bn_val S' r = (if bn_neg (st_bn S r) then - 1 else 1) * (int (bn_abs S a) + int (bn_abs S b))"
    using s(4) u(2,3) by (simp add: S' bn_val_def [of S1])
qed

lemma fits_bound:
  "bn_fits_in_words S b n \<longleftrightarrow> bn_abs S b < 2 ^ (64 * n)"
proof (cases "n \<le> bn_width (st_bn S b)")
  case True
  let ?d = "bn_d (st_bn S b)" and ?m = "st_words S"
  have split: "bn_abs S b = num_at ?m ?d n + 2 ^ (64 * n) * num_at ?m (?d + n) (bn_width (st_bn S b) - n)"
    using num_at_append [of ?m ?d n "bn_width (st_bn S b) - n"] True by (simp add: bn_abs_def)
  have "2 ^ (64 * n) \<le> 2 ^ (64 * n) * num_at ?m (?d + n) (bn_width (st_bn S b) - n)"
    if "num_at ?m (?d + n) (bn_width (st_bn S b) - n) \<noteq> 0" using that by simp
  then show ?thesis using split fits_in_words [OF True] num_at_bound [of ?m ?d n] by fastforce
next
  case False
  have "bn_abs S b < 2 ^ (64 * bn_width (st_bn S b))" by (simp add: bn_abs_def num_at_bound)
  also have "\<dots> \<le> 2 ^ (64 * n)" using False by (intro power_increasing) simp_all
  finally show ?thesis using False by (simp add: bn_fits_in_words_def Let_def)
qed

lemma bn_usub_consttime:
  assumes "bn_usub_consttime A r a b S = (ok, S')" "store_ok L S" "r \<in> L" "a \<in> L" "b \<in> L"
  shows "changes L r S S' \<and> (ok \<longrightarrow> bn_abs S' r + bn_abs S b = bn_abs S a \<and> \<not> bn_neg (st_bn S' r)) \<and>
    (can_grow A S r (bn_width (st_bn S a)) \<longrightarrow> ok = (bn_abs S b \<le> bn_abs S a))"
proof -
  let ?hi = "bn_width (st_bn S a)"
  have a_bound: "bn_abs S a < 2 ^ (64 * ?hi)" by (simp add: bn_abs_def num_at_bound)
  define lo where "lo = (if bn_width (st_bn S b) > ?hi then ?hi else bn_width (st_bn S b))"
  have lo: "lo \<le> ?hi" "lo \<le> bn_width (st_bn S b)" by (auto simp: lo_def)
  show ?thesis
  proof (cases "bn_width (st_bn S b) > ?hi \<and> \<not> bn_fits_in_words S b ?hi")
    case True
    then show ?thesis using assms(1,2) a_bound by (auto simp: bn_usub_consttime_def Let_def changes_refl fits_bound)
  next
    case fits: False
    obtain g S1 where w: "bn_wexpand A r ?hi S = (g, S1)" by fastforce
    have grow: "g \<longleftrightarrow> can_grow A S r ?hi" using w wexpand_iff [of A r ?hi S] by simp
    show ?thesis
    proof (cases g)
      case False
      then show ?thesis using assms(1,2) fits w grow wexpand_fail [of A r ?hi S S1]
        by (auto simp: bn_usub_consttime_def Let_def changes_refl)
    next
      case True
      then have w: "bn_wexpand A r ?hi S = (True, S1)" using w by simp
      note e = bn_wexpand [OF w assms(2,3)]
      have ok: "store_ok L S1" using e(1) by (rule changes_ok)
      let ?rd = "bn_d (st_bn S1 r)" and ?ad = "bn_d (st_bn S1 a)" and ?bd = "bn_d (st_bn S1 b)"
      obtain m1 c1 where 1: "bn_sub_words (st_words S1) ?rd ?ad ?bd lo = (m1, c1)" by fastforce
      obtain m2 c2 where 2: "subc_rest m1 (?rd + lo) (?ad + lo) (?hi - lo) c1 = (m2, c2)" by fastforce
      let ?S2 = "S1\<lparr>st_words := m2\<rparr>"
      have res: "(ok, S') = (if c2 \<noteq> 0 then (False, ?S2)
          else (True, bn_upd r (\<lambda>x. x\<lparr>bn_neg := False\<rparr>) (bn_upd r (\<lambda>x. x\<lparr>bn_width := ?hi\<rparr>) ?S2)))"
        using assms(1) fits w 1 2 e(3) unfolding bn_usub_consttime_def lo_def [symmetric] Let_def by auto
      have "?hi \<le> bn_dmax (st_bn S1 a)" "lo \<le> bn_dmax (st_bn S1 b)"
        using store_ok_width(1) [OF ok assms(4)] store_ok_width(1) [OF ok assms(5)] e(3) lo(2) by (metis, metis le_trans)
      then have "may_read ?rd ?ad ?hi" "may_read ?rd ?bd lo" using may_read_limbs [OF ok assms(3)] assms(4,5) by blast+
      note u = words_usub [OF 1 2 lo(1) this]
      have S1: "bn_abs S1 i = bn_abs S i" if "i \<in> L" for i using wexpand_abs [OF w assms(2,3)] that by simp
      have "num_at (st_words S1) ?bd lo = bn_abs S1 b"
        using fits fits_in_words [of lo S1 b] fits_bound [of S b] fits_bound [of S1 b] S1 [OF assms(5)] e(3) lo
        by (auto simp: lo_def bn_abs_def)
      then have v: "num_at m2 ?rd ?hi + bn_abs S b = bn_abs S a + 2 ^ (64 * ?hi) * unat c2"
        using u(1) S1 assms(4,5) e(3) by (simp add: bn_abs_def)
      have ch2: "changes L r S ?S2"
        using e(1) changes_words [OF ok assms(3) u(2)] e(2) changes_trans by blast
      moreover have "changes L r ?S2 (bn_upd r (\<lambda>x. x\<lparr>bn_width := ?hi\<rparr>) ?S2)"
        using e(2) by (intro changes_fields changes_ok [OF ch2]) simp_all
      moreover have "changes L r (bn_upd r (\<lambda>x. x\<lparr>bn_width := ?hi\<rparr>) ?S2)
          (bn_upd r (\<lambda>x. x\<lparr>bn_neg := False\<rparr>) (bn_upd r (\<lambda>x. x\<lparr>bn_width := ?hi\<rparr>) ?S2))"
        using e(2) by (intro changes_fields changes_ok [OF calculation(2)]) simp_all
      ultimately have "changes L r S S'" using res by (metis Pair_inject changes_trans)
      moreover have "c2 = 0 \<longleftrightarrow> bn_abs S b \<le> bn_abs S a"
      proof
        assume "bn_abs S b \<le> bn_abs S a"
        then have "2 ^ (64 * ?hi) * unat c2 < 2 ^ (64 * ?hi)" using v num_at_bound [of m2 ?rd ?hi] by linarith
        then show "c2 = 0" by (simp add: unat_eq_zero)
      next
        assume "c2 = 0" then show "bn_abs S b \<le> bn_abs S a" using v by simp
      qed
      ultimately show ?thesis using res v by (auto simp: bn_abs_def split: if_splits)
    qed
  qed
qed

lemma BN_usub:
  assumes "BN_usub A r a b S = (ok, S')" "store_ok L S" "r \<in> L" "a \<in> L" "b \<in> L"
  shows "changes L r S S'" "ok \<Longrightarrow> bn_abs S' r + bn_abs S b = bn_abs S a" "ok \<Longrightarrow> minimal S' r"
    "ok \<Longrightarrow> \<not> bn_neg (st_bn S' r)"
    "can_grow A S r (bn_width (st_bn S a)) \<Longrightarrow> ok = (bn_abs S b \<le> bn_abs S a)"
proof -
  obtain S1 where 1: "bn_usub_consttime A r a b S = (ok, S1)" and S': "S' = (if ok then bn_set_minimal_width r S1 else S1)"
    using assms(1) by (auto simp: BN_usub_def Let_def split: prod.splits if_splits)
  note u = bn_usub_consttime [OF 1 assms(2-5)]
  then have ok1: "store_ok L S1" using changes_ok by blast
  note s = bn_set_minimal_width [OF ok1 assms(3)]
  show "changes L r S S'" using u s(1) changes_trans by (auto simp: S')
  show "ok \<Longrightarrow> bn_abs S' r + bn_abs S b = bn_abs S a" "ok \<Longrightarrow> minimal S' r"
    "can_grow A S r (bn_width (st_bn S a)) \<Longrightarrow> ok = (bn_abs S b \<le> bn_abs S a)"
    using u s by (simp_all add: S')
  show "ok \<Longrightarrow> \<not> bn_neg (st_bn S' r)" using u by (simp add: S' bn_set_minimal_width_def Let_def)
qed

section \<open>Signed numbers\<close>

text \<open>There is no negative zero.\<close>

definition signed_ok :: "bn_store \<Rightarrow> nat \<Rightarrow> bool" where
  "signed_ok S i \<longleftrightarrow> (bn_neg (st_bn S i) \<longrightarrow> bn_abs S i \<noteq> 0)"

lemma abs_bn_val: "int (bn_abs S i) = \<bar>bn_val S i\<bar>"
  by (simp add: bn_val_def)

lemma minimal_signed_ok: "minimal S i \<Longrightarrow> signed_ok S i"
  using minimal_zero [of S i] by (auto simp: signed_ok_def minimal_def)

lemma set_neg_minimal: "minimal S r \<Longrightarrow> (b \<Longrightarrow> bn_abs S r \<noteq> 0) \<Longrightarrow> minimal (set_neg r b S) r"
  using minimal_zero [of S r] by (auto simp: minimal_def limb_def)

lemma signed_usub:
  assumes "signed_usub A r a b S = (ok, S')" "store_ok L S" "r \<in> L" "a \<in> L" "b \<in> L"
  shows "changes L r S S' \<and> (ok \<longrightarrow> bn_val S' r = int (bn_abs S a) - int (bn_abs S b) \<and> minimal S' r) \<and>
    (can_grow_to A S r (max (bn_width (st_bn S a)) (bn_width (st_bn S b))) \<longrightarrow> ok)"
proof -
  define x where "x = (if bn_abs S a < bn_abs S b then b else a)"
  define y where "y = (if bn_abs S a < bn_abs S b then a else b)"
  let ?neg = "bn_abs S a < bn_abs S b"
  obtain S1 where 1: "BN_usub A r x y S = (ok, S1)" and S': "S' = (if ok then set_neg r ?neg S1 else S1)"
    using assms(1) by (auto simp: signed_usub_def Let_def BN_ucmp_less x_def y_def split: prod.splits if_splits)
  have xy: "x \<in> L" "y \<in> L" "bn_abs S y \<le> bn_abs S x" using assms(4,5) by (auto simp: x_def y_def)
  note u = BN_usub [OF 1 assms(2,3) xy(1,2)]
  have "changes L r S S'" using u(1) changes_set_neg [OF changes_ok [OF u(1)] assms(3)] changes_trans by (auto simp: S')
  moreover have "bn_val S' r = int (bn_abs S a) - int (bn_abs S b) \<and> minimal S' r" if ok
    using that u(2-4) set_neg_minimal [of S1 r ?neg] by (auto simp: S' bn_val_def x_def y_def)
  moreover have ok if "can_grow_to A S r (max (bn_width (st_bn S a)) (bn_width (st_bn S b)))"
    using that u(5) xy(3) by (simp add: can_grow_to_def x_def)
  ultimately show ?thesis by blast
qed

lemma BN_add:
  assumes "BN_add A r a b S = (ok, S')" "store_ok L S" "r \<in> L" "a \<in> L" "b \<in> L"
  shows "changes L r S S'" "ok \<Longrightarrow> bn_val S' r = bn_val S a + bn_val S b"
    "ok \<Longrightarrow> signed_ok S a \<Longrightarrow> signed_ok S b \<Longrightarrow> minimal S' r"
    "can_grow_to A S r (max (bn_width (st_bn S a)) (bn_width (st_bn S b)) + 1) \<Longrightarrow> ok"
proof -
  let ?neg = "bn_neg (st_bn S a)" and ?w = "max (bn_width (st_bn S a)) (bn_width (st_bn S b))"
  have "changes L r S S' \<and> (ok \<longrightarrow> bn_val S' r = bn_val S a + bn_val S b \<and> (signed_ok S a \<longrightarrow> signed_ok S b \<longrightarrow> minimal S' r)) \<and>
    (can_grow_to A S r (?w + 1) \<longrightarrow> ok)"
  proof (cases "?neg = bn_neg (st_bn S b)")
    case False
    then have "signed_usub A r (if ?neg then b else a) (if ?neg then a else b) S = (ok, S')"
      using assms(1) by (simp add: BN_add_def Let_def split: if_splits)
    from signed_usub [OF this assms(2,3)] show ?thesis
      using False assms(4,5) by (auto simp: bn_val_def can_grow_to_def max.commute split: if_splits)
  next
    case True
    then obtain S1 where 1: "BN_uadd A r a b S = (ok, S1)" and S': "S' = set_neg r ?neg S1"
      using assms(1) by (auto simp: BN_add_def Let_def split: prod.splits)
    show ?thesis
    proof (cases ok)
      case True
      then have 1: "BN_uadd A r a b S = (True, S1)" using 1 by simp
      note u = BN_uadd [OF this assms(2-5)]
      have "changes L r S S'" unfolding S' using u(1) changes_set_neg [OF changes_ok [OF u(1)] assms(3)] changes_trans by blast
      moreover have "bn_val S' r = bn_val S a + bn_val S b" using u(2) \<open>?neg = bn_neg (st_bn S b)\<close> by (simp add: S' bn_val_def)
      moreover have "minimal S' r" if "signed_ok S a"
        unfolding S' by (rule set_neg_minimal [OF u(3)]) (use that u(2) in \<open>simp add: signed_ok_def\<close>)
      ultimately show ?thesis using True by simp
    next
      case False
      then show ?thesis using BN_uadd_fail [of A r a b S S1] 1 changes_set_neg [OF assms(2,3)] by (auto simp: S' can_grow_to_def)
    qed
  qed
  then show "changes L r S S'" "ok \<Longrightarrow> bn_val S' r = bn_val S a + bn_val S b"
    "ok \<Longrightarrow> signed_ok S a \<Longrightarrow> signed_ok S b \<Longrightarrow> minimal S' r" "can_grow_to A S r (?w + 1) \<Longrightarrow> ok" by blast+
qed

lemma BN_sub:
  assumes "BN_sub A r a b S = (ok, S')" "store_ok L S" "r \<in> L" "a \<in> L" "b \<in> L"
  shows "changes L r S S'" "ok \<Longrightarrow> bn_val S' r = bn_val S a - bn_val S b"
    "ok \<Longrightarrow> signed_ok S a \<Longrightarrow> signed_ok S b \<Longrightarrow> minimal S' r"
    "can_grow_to A S r (max (bn_width (st_bn S a)) (bn_width (st_bn S b)) + 1) \<Longrightarrow> ok"
proof -
  let ?neg = "bn_neg (st_bn S a)" and ?w = "max (bn_width (st_bn S a)) (bn_width (st_bn S b))"
  have "changes L r S S' \<and> (ok \<longrightarrow> bn_val S' r = bn_val S a - bn_val S b \<and> (signed_ok S a \<longrightarrow> signed_ok S b \<longrightarrow> minimal S' r)) \<and>
    (can_grow_to A S r (?w + 1) \<longrightarrow> ok)"
  proof (cases "?neg = bn_neg (st_bn S b)")
    case True
    then have "signed_usub A r (if ?neg then b else a) (if ?neg then a else b) S = (ok, S')"
      using assms(1) by (simp add: BN_sub_def Let_def split: if_splits)
    from signed_usub [OF this assms(2,3)] show ?thesis
      using True assms(4,5) by (auto simp: bn_val_def can_grow_to_def max.commute split: if_splits)
  next
    case ne: False
    then obtain S1 where 1: "BN_uadd A r a b S = (ok, S1)" and S': "S' = (if ok then set_neg r ?neg S1 else S1)"
      using assms(1) by (auto simp: BN_sub_def Let_def split: prod.splits if_splits)
    show ?thesis
    proof (cases ok)
      case True
      then have 1: "BN_uadd A r a b S = (True, S1)" using 1 by simp
      note u = BN_uadd [OF this assms(2-5)]
      have "changes L r S (set_neg r ?neg S1)" using u(1) changes_set_neg [OF changes_ok [OF u(1)] assms(3)] changes_trans by blast
      moreover have "bn_val (set_neg r ?neg S1) r = bn_val S a - bn_val S b" using u(2) ne by (simp add: bn_val_def)
      moreover have "minimal (set_neg r ?neg S1) r" if "signed_ok S a"
        by (rule set_neg_minimal [OF u(3)]) (use that u(2) in \<open>simp add: signed_ok_def\<close>)
      ultimately show ?thesis using True by (simp add: S')
    next
      case False
      then show ?thesis using BN_uadd_fail [of A r a b S S1] 1 changes_refl [OF assms(2)] by (auto simp: S' can_grow_to_def)
    qed
  qed
  then show "changes L r S S'" "ok \<Longrightarrow> bn_val S' r = bn_val S a - bn_val S b"
    "ok \<Longrightarrow> signed_ok S a \<Longrightarrow> signed_ok S b \<Longrightarrow> minimal S' r" "can_grow_to A S r (?w + 1) \<Longrightarrow> ok" by blast+
qed

section \<open>Adding and subtracting a word\<close>

lemma add_word_loop:
  assumes "add_word_loop m d i n w = (m', j, w')"
  shows "num_at m' (d + i) n + 2 ^ (64 * n) * unat w' = num_at m (d + i) n + unat w" "same_but (d + i) n m m'"
    "w' \<noteq> 0 \<Longrightarrow> j = i + n"
proof -
  have "num_at m' (d + i) n + 2 ^ (64 * n) * unat w' = num_at m (d + i) n + unat w \<and> same_but (d + i) n m m' \<and> (w' \<noteq> 0 \<longrightarrow> j = i + n)"
    using assms
  proof (induction n arbitrary: m i w)
    case (Suc n)
    show ?case
    proof (cases "w = 0")
      case False
      let ?x = "m (d + i)" and ?c = "if w > m (d + i) + w then 1 else 0 :: u64"
      define m1 where "m1 = m(d + i := ?x + w)"
      have "add_word_loop m1 d (i + 1) n ?c = (m', j, w')"
        using Suc.prems False by (simp add: Let_def m1_def)
      note IH = Suc.IH [OF this]
      have s: "unat (?x + w) + 2 ^ 64 * unat ?c = unat ?x + unat w"
        using unat_u64_less [of ?x] unat_u64_less [of w] by (auto simp: word_less_nat_alt unat_plus_if' split: if_splits)
      have "num_at m1 (d + (i + 1)) n = num_at m (d + (i + 1)) n" by (rule num_at_cong) (simp add: m1_def)
      moreover have "m' (d + i) = ?x + w" using IH by (simp add: same_but_def m1_def)
      ultimately have "num_at m' (d + i) (Suc n) + 2 ^ (64 * Suc n) * unat w' = num_at m (d + i) (Suc n) + unat w"
        using IH s by (simp add: num_at_Cons algebra_simps power_add)
      moreover have "same_but (d + i) (Suc n) m m'" using IH by (auto simp: same_but_def m1_def)
      ultimately show ?thesis using IH by simp
    qed (use Suc in simp)
  qed simp
  then show "num_at m' (d + i) n + 2 ^ (64 * n) * unat w' = num_at m (d + i) n + unat w" "same_but (d + i) n m m'"
    "w' \<noteq> 0 \<Longrightarrow> j = i + n" by blast+
qed

text \<open>The loop of \<open>BN_sub_word\<close> ends inside a number that is large enough.\<close>

lemma sub_word_loop:
  assumes "unat w \<le> num_at m (d + i) n" "w \<noteq> 0"
  shows "\<exists>m' j. sub_word_loop m d i w = Some (m', j) \<and> num_at m' (d + i) n + unat w = num_at m (d + i) n \<and>
    same_but (d + i) n m m' \<and> i \<le> j \<and> j < i + n"
  using assms
proof (induction n arbitrary: m i w)
  case (Suc n)
  let ?x = "m (d + i)"
  define m1 where "m1 = m(d + i := m (d + i) - w)"
  have keep: "num_at m1 (d + (i + 1)) n = num_at m (d + (i + 1)) n" by (rule num_at_cong) (simp add: m1_def)
  show ?case
  proof (cases "?x \<ge> w")
    case True
    then have "unat (?x - w) + unat w = unat ?x" by (simp add: unat_sub word_le_nat_alt)
    then have "num_at m1 (d + i) (Suc n) + unat w = num_at m (d + i) (Suc n)" using keep by (simp add: num_at_Cons m1_def)
    then show ?thesis using True by (subst sub_word_loop.simps) (auto simp: same_but_def m1_def)
  next
    case False
    then have x: "unat ?x < unat w" by (simp add: word_le_nat_alt)
    then have "unat (1 :: u64) \<le> num_at m1 (d + (i + 1)) n" using Suc.prems keep by (simp add: num_at_Cons)
    from Suc.IH [OF this] obtain m' j where IH: "sub_word_loop m1 d (i + 1) 1 = Some (m', j)"
      "num_at m' (d + (i + 1)) n + 1 = num_at m1 (d + (i + 1)) n" "same_but (d + (i + 1)) n m1 m'" "i + 1 \<le> j" "j < i + 1 + n" by auto
    have "m' (d + i) = ?x - w" using IH(3) by (simp add: same_but_def m1_def)
    moreover have "unat (?x - w) + unat w = unat ?x + 2 ^ 64" using x unat_u64_less [of w] by (simp add: unat_sub_if')
    ultimately have "num_at m' (d + i) (Suc n) + unat w = num_at m (d + i) (Suc n)"
      using IH(2) keep by (simp add: num_at_Cons)
    moreover have "same_but (d + i) (Suc n) m m'" using IH(3) by (auto simp: same_but_def m1_def)
    ultimately show ?thesis using False IH(1,4,5) by (subst sub_word_loop.simps) (auto simp: m1_def)
  qed
qed (simp add: unat_eq_zero)

lemma BN_set_word:
  assumes "BN_set_word A a w S = (ok, S')" "store_ok L S" "a \<in> L"
  shows "changes L a S S'" "ok \<Longrightarrow> bn_val S' a = uint w \<and> minimal S' a" "can_grow_to A S a 1 \<Longrightarrow> ok"
proof -
  have "changes L a S S' \<and> (ok \<longrightarrow> bn_val S' a = uint w \<and> minimal S' a) \<and> (can_grow_to A S a 1 \<longrightarrow> ok)"
  proof (cases "w = 0")
    case True
    then show ?thesis using assms changes_fields [OF assms(2), of "\<lambda>b. b\<lparr>bn_width := 0, bn_neg := False\<rparr>" a]
      by (auto simp: BN_set_word_def BN_zero_def bn_val_def bn_abs_def minimal_def)
  next
    case False
    obtain g S1 where w: "bn_wexpand A a 1 S = (g, S1)" by fastforce
    have g: "g \<longleftrightarrow> can_grow A S a 1" using w wexpand_iff [of A a 1 S] by simp
    show ?thesis
    proof (cases g)
      case True
      then have w1: "bn_wexpand A a 1 S = (True, S1)" using w by simp
      note e = bn_wexpand [OF w1 assms(2,3)]
      let ?S2 = "bn_upd a (\<lambda>b. b\<lparr>bn_neg := False\<rparr>) S1" and ?m = "(st_words S1)(bn_d (st_bn S1 a) := w)"
      have S': "S' = bn_upd a (\<lambda>b. b\<lparr>bn_width := 1\<rparr>) (?S2\<lparr>st_words := ?m\<rparr>)" "ok"
        using assms(1) False w1 by (auto simp: BN_set_word_def Let_def set_limb_def)
      have 2: "changes L a S1 ?S2" using store_ok_width(1) [OF changes_ok [OF e(1)] assms(3)]
        by (intro changes_fields changes_ok [OF e(1)]) simp_all
      moreover have 3: "changes L a ?S2 (?S2\<lparr>st_words := ?m\<rparr>)" using e(2)
        by (intro changes_words [where n = 1] changes_ok [OF 2] assms(3)) (auto simp: same_but_def)
      moreover have "changes L a (?S2\<lparr>st_words := ?m\<rparr>) S'" unfolding S' using e(2)
        by (intro changes_fields changes_ok [OF 3]) simp_all
      ultimately have "changes L a S S'" using e(1) changes_trans by blast
      moreover have "bn_val S' a = uint w \<and> minimal S' a"
        using False by (simp add: S' bn_val_def bn_abs_def minimal_def num_simps limb_def)
      ultimately show ?thesis using S'(2) by simp
    next
      case False
      then have "S1 = S" using w wexpand_fail [of A a 1 S S1] by simp
      then show ?thesis using False \<open>w \<noteq> 0\<close> w g assms changes_refl [OF assms(2)] by (auto simp: BN_set_word_def Let_def can_grow_to_def)
    qed
  qed
  then show "changes L a S S'" "ok \<Longrightarrow> bn_val S' a = uint w \<and> minimal S' a" "can_grow_to A S a 1 \<Longrightarrow> ok" by blast+
qed

lemma add_word_positive:
  assumes "store_ok L S" "a \<in> L" "w \<noteq> 0" "bn_abs S a \<noteq> 0" "\<not> bn_neg (st_bn S a)"
  shows "\<exists>ok S'. BN_add_word A a w S = Some (ok, S') \<and> changes L a S S' \<and> (can_grow_to A S a (bn_width (st_bn S a) + 1) \<longrightarrow> ok) \<and>
    (ok \<longrightarrow> bn_abs S' a = bn_abs S a + unat w \<and> \<not> bn_neg (st_bn S' a))"
proof -
  let ?n = "bn_width (st_bn S a)" and ?d = "bn_d (st_bn S a)"
  obtain m i w' where lp: "add_word_loop (st_words S) ?d 0 ?n w = (m, i, w')" by (metis surj_pair)
  let ?S1 = "S\<lparr>st_words := m\<rparr>"
  note l = add_word_loop [OF lp]
  have S1: "changes L a S ?S1" using changes_words [OF assms(1,2), of ?n m] l(2) store_ok_width(1) [OF assms(1,2)] by simp
  have eq: "BN_add_word A a w S = (if w' \<noteq> 0 \<and> i = ?n then
      (let (ok, S) = bn_wexpand A a (?n + 1) ?S1 in if \<not> ok then Some (False, S)
       else Some (True, set_limb a i w' (bn_upd a (\<lambda>b. b\<lparr>bn_width := bn_width b + 1\<rparr>) S))) else Some (True, ?S1))"
    using assms lp by (simp add: BN_add_word.simps BN_is_zero Let_def)
  show ?thesis
  proof (cases "w' = 0")
    case True
    then show ?thesis using eq S1 l(1) assms(5) by (auto simp: bn_abs_def)
  next
    case False
    then have i: "i = ?n" using l(3) by simp
    obtain g S2 where g: "bn_wexpand A a (?n + 1) ?S1 = (g, S2)" by fastforce
    have grow: "g \<longleftrightarrow> can_grow A S a (?n + 1)" using wexpand_iff [of A a "?n + 1" ?S1] g by (simp add: can_grow_def)
    show ?thesis
    proof (cases g)
      case True
      then have w2: "bn_wexpand A a (?n + 1) ?S1 = (True, S2)" using g by simp
      note e = bn_wexpand [OF w2 changes_ok [OF S1] assms(2)]
      let ?S3 = "bn_upd a (\<lambda>b. b\<lparr>bn_width := bn_width b + 1\<rparr>) S2" and ?p = "bn_d (st_bn S2 a) + ?n"
      have wd: "bn_width (st_bn S2 a) = ?n" using e(3) by simp
      have 3: "changes L a S2 ?S3" using e(2) wd by (intro changes_fields changes_ok [OF e(1)]) simp_all
      have 4: "changes L a ?S3 (?S3\<lparr>st_words := (st_words S2)(?p := w')\<rparr>)"
        using e(2) by (intro changes_words [where n = "?n + 1"] changes_ok [OF 3] assms(2)) (auto simp: same_but_def)
      have "changes L a S (set_limb a i w' ?S3)"
        using changes_trans [OF changes_trans [OF changes_trans [OF S1 e(1)] 3] 4] by (simp add: set_limb_def i)
      moreover have "num_at ((st_words S2)(?p := w')) (bn_d (st_bn S2 a)) ?n = num_at m ?d ?n"
        using e(6) assms(2) by (intro num_at_cong) (auto simp: limb_def)
      then have "bn_abs (set_limb a i w' ?S3) a = bn_abs S a + unat w"
        using l(1) by (simp add: set_limb_def i bn_abs_def wd num_simps algebra_simps)
      moreover have "\<not> bn_neg (st_bn (set_limb a i w' ?S3) a)" using e(4) assms(5) by (simp add: set_limb_def)
      ultimately show ?thesis using eq False i w2 by auto
    next
      case False
      then have "S2 = ?S1" using g wexpand_fail [of A a "?n + 1" ?S1 S2] by simp
      then show ?thesis using eq i g False grow S1 \<open>w' \<noteq> 0\<close> by (auto simp: can_grow_to_def)
    qed
  qed
qed

lemma sub_word_positive:
  assumes "store_ok L S" "a \<in> L" "w \<noteq> 0" "bn_abs S a \<noteq> 0" "\<not> bn_neg (st_bn S a)"
  shows "\<exists>S'. BN_sub_word A a w S = Some (True, S') \<and> changes L a S S' \<and> bn_val S' a = int (bn_abs S a) - uint w \<and> signed_ok S' a"
proof -
  let ?n = "bn_width (st_bn S a)" and ?d = "bn_d (st_bn S a)" and ?m = "st_words S"
  have mw: "bn_minimal_width S a \<le> ?n" "num_at ?m ?d (bn_minimal_width S a) = bn_abs S a"
    "bn_minimal_width S a > 0 \<Longrightarrow> ?m (?d + (bn_minimal_width S a - 1)) \<noteq> 0"
    using min_width [of ?m ?d] by (auto simp: bn_minimal_width_def bn_abs_def)
  have pos: "?n > 0" using assms(4) by (cases ?n) (auto simp: bn_abs_def)
  have wd: "?n \<le> bn_dmax (st_bn S a)" using store_ok_width(1) [OF assms(1,2)] .
  show ?thesis
  proof (cases "bn_minimal_width S a = 1 \<and> limb S a 0 < w")
    case True
    let ?v = "w - limb S a 0"
    let ?S' = "set_neg a True (set_limb a 0 ?v S)"
    have one: "bn_abs S a = unat (limb S a 0)" using mw(2) True by (simp add: num_at_def limb_def)
    have v: "unat ?v + unat (limb S a 0) = unat w" using True by (simp add: unat_sub_if' word_less_nat_alt)
    have "changes L a S (set_limb a 0 ?v S)" unfolding set_limb_def using wd pos
      by (intro changes_words [where n = 1] assms(1,2)) (auto simp: same_but_def)
    then have "changes L a S ?S'" using changes_set_neg [OF changes_ok assms(2)] changes_trans by blast
    moreover have "bn_abs (set_limb a 0 ?v S) a = unat ?v"
    proof -
      have "num_at (?m(?d := ?v)) (?d + 1) (?n - 1) = num_at ?m (?d + 1) (?n - 1)" by (rule num_at_cong) simp
      moreover have "num_at ?m (?d + 1) (?n - 1) = 0" using one num_at_Cons [of ?m ?d "?n - 1"] pos by (simp add: bn_abs_def limb_def)
      ultimately show ?thesis using num_at_Cons [of "?m(?d := ?v)" ?d "?n - 1"] pos by (simp add: set_limb_def bn_abs_def)
    qed
    moreover have "unat ?v \<noteq> 0" using v True by (simp add: word_less_nat_alt)
    ultimately show ?thesis using assms True v one word_int [OF v]
      by (intro exI [of _ ?S']) (simp add: BN_sub_word.simps BN_is_zero bn_val_def signed_ok_def)
  next
    case False
    have "unat w \<le> bn_abs S a"
    proof (cases "bn_minimal_width S a = 1")
      case True
      then show ?thesis using False mw(2) by (simp add: num_at_def limb_def not_less word_le_nat_alt)
    next
      case False
      then obtain k where k: "bn_minimal_width S a = Suc (Suc k)"
        using mw(2) assms(4) by (cases "bn_minimal_width S a"; cases "bn_minimal_width S a - 1") auto
      then have "unat (?m (?d + Suc k)) \<noteq> 0" using mw(3) by (simp add: unat_eq_zero)
      then have "2 ^ (64 * Suc k) \<le> unat (?m (?d + Suc k)) * 2 ^ (64 * Suc k)" by simp
      then have "2 ^ (64 * Suc k) \<le> bn_abs S a" using mw(2) unfolding k num_at_snoc [of _ _ "Suc k"] by linarith
      moreover have "(2 :: nat) ^ 64 \<le> 2 ^ (64 * Suc k)" by (intro power_increasing) simp_all
      ultimately show ?thesis using unat_u64_less [of w] by linarith
    qed
    then obtain m j where lp: "sub_word_loop ?m ?d 0 w = Some (m, j)" "num_at m ?d ?n + unat w = bn_abs S a"
      "same_but ?d ?n ?m m" "j < ?n"
      using sub_word_loop [of w ?m ?d 0 ?n] assms(3) by (auto simp: bn_abs_def)
    let ?S1 = "S\<lparr>st_words := m\<rparr>"
    let ?S2 = "bn_upd a (\<lambda>b. b\<lparr>bn_width := bn_width b - 1\<rparr>) ?S1"
    let ?top = "limb ?S1 a j = 0 \<and> j + 1 = ?n"
    have 1: "changes L a S ?S1" using changes_words [OF assms(1,2) lp(3) wd] .
    moreover have "changes L a ?S1 ?S2" using wd by (intro changes_fields changes_ok [OF 1]) simp_all
    moreover have "num_at m ?d (?n - 1) = num_at m ?d ?n" if ?top
    proof -
      have "num_at m ?d j = num_at m ?d (Suc j)" using that unfolding num_at_snoc limb_def by simp
      moreover have "?n = Suc j" using that by simp
      ultimately show ?thesis by (simp only: diff_Suc_1)
    qed
    moreover define S' where "S' = (if ?top then ?S2 else ?S1)"
    ultimately have "changes L a S S'" "bn_val S' a = int (num_at m ?d ?n)" "signed_ok S' a"
      using changes_trans assms(5) by (auto simp: bn_val_def bn_abs_def signed_ok_def)
    moreover have "BN_sub_word A a w S = Some (True, S')"
      using assms False lp(1) unfolding BN_sub_word.simps [of A a w S] S'_def by (auto simp: BN_is_zero)
    ultimately show ?thesis using word_int [OF lp(2)] by (intro exI [of _ S']) simp
  qed
qed

text \<open>Both functions return, whatever the sign.\<close>

lemma BN_add_word:
  assumes "store_ok L S" "a \<in> L"
  shows "\<exists>ok S'. BN_add_word A a w S = Some (ok, S') \<and> changes L a S S' \<and> (can_grow_to A S a (bn_width (st_bn S a) + 1) \<longrightarrow> ok) \<and>
    (ok \<longrightarrow> bn_val S' a = bn_val S a + uint w \<and> (signed_ok S a \<longrightarrow> signed_ok S' a))"
proof -
  consider "w = 0" | "w \<noteq> 0" "bn_abs S a = 0" | "w \<noteq> 0" "bn_abs S a \<noteq> 0" "bn_neg (st_bn S a)" |
    "w \<noteq> 0" "bn_abs S a \<noteq> 0" "\<not> bn_neg (st_bn S a)" by blast
  then show ?thesis
  proof cases
    case 1 then show ?thesis using changes_refl [OF assms(1)] by (auto simp: BN_add_word.simps)
  next
    case 2
    obtain ok S' where s: "BN_set_word A a w S = (ok, S')" by fastforce
    note b = BN_set_word [OF s assms]
    have "can_grow_to A S a (bn_width (st_bn S a) + 1) \<Longrightarrow> can_grow_to A S a 1" by (simp add: can_grow_to_def)
    then show ?thesis using 2 s b minimal_signed_ok by (auto simp: BN_add_word.simps BN_is_zero bn_val_def)
  next
    case 3
    let ?S1 = "set_neg a False S"
    note ch = changes_set_neg [OF assms, of False]
    obtain S2 where S2: "BN_sub_word A a w ?S1 = Some (True, S2)" "changes L a ?S1 S2"
      "bn_val S2 a = int (bn_abs S a) - uint w" "signed_ok S2 a"
      using sub_word_positive [OF changes_ok [OF ch] assms(2) 3(1)] 3(2) by (auto)
    define S' where "S' = (if bn_abs S2 a \<noteq> 0 then set_neg a (\<not> bn_neg (st_bn S2 a)) S2 else S2)"
    have "changes L a S S'" using changes_trans [OF ch S2(2)]
        changes_trans [OF changes_trans [OF ch S2(2)] changes_set_neg [OF changes_ok [OF S2(2)] assms(2)]] by (simp add: S'_def)
    moreover have "bn_val S' a = - bn_val S2 a" "signed_ok S' a" using S2(4) by (auto simp: S'_def bn_val_def signed_ok_def)
    moreover have "bn_val S a = - int (bn_abs S a)" using 3 by (simp add: bn_val_def)
    moreover have "BN_add_word A a w S = Some (True, S')" using 3 S2(1) by (simp add: BN_add_word.simps BN_is_zero S'_def)
    ultimately have "changes L a S S'" "bn_val S' a = bn_val S a + uint w" "signed_ok S' a" "BN_add_word A a w S = Some (True, S')"
      using S2(3) by simp_all
    then show ?thesis by blast
  next
    case 4
    from add_word_positive [OF assms this, of A] obtain ok S' where "BN_add_word A a w S = Some (ok, S')" "changes L a S S'"
      "can_grow_to A S a (bn_width (st_bn S a) + 1) \<longrightarrow> ok" "ok \<longrightarrow> bn_abs S' a = bn_abs S a + unat w \<and> \<not> bn_neg (st_bn S' a)"
      by blast
    then show ?thesis using 4 by (simp add: bn_val_def signed_ok_def)
  qed
qed

lemma BN_sub_word:
  assumes "store_ok L S" "a \<in> L"
  shows "\<exists>ok S'. BN_sub_word A a w S = Some (ok, S') \<and> changes L a S S' \<and> (can_grow_to A S a (bn_width (st_bn S a) + 1) \<longrightarrow> ok) \<and>
    (ok \<longrightarrow> bn_val S' a = bn_val S a - uint w \<and> (signed_ok S a \<longrightarrow> signed_ok S' a))"
proof -
  consider "w = 0" | "w \<noteq> 0" "bn_abs S a = 0" | "w \<noteq> 0" "bn_abs S a \<noteq> 0" "bn_neg (st_bn S a)" |
    "w \<noteq> 0" "bn_abs S a \<noteq> 0" "\<not> bn_neg (st_bn S a)" by blast
  then show ?thesis
  proof cases
    case 1 then show ?thesis using changes_refl [OF assms(1)] by (auto simp: BN_sub_word.simps)
  next
    case 2
    obtain ok S1 where s: "BN_set_word A a w S = (ok, S1)" by fastforce
    note b = BN_set_word [OF s assms]
    let ?S' = "if ok then BN_set_negative a True S1 else S1"
    have grow: "can_grow_to A S a (bn_width (st_bn S a) + 1) \<Longrightarrow> can_grow_to A S a 1" by (simp add: can_grow_to_def)
    have neg: "BN_set_negative a True S1 = set_neg a True S1" if ok
      using b(2) [OF that] 2(1) by (auto simp: BN_set_negative_def BN_is_zero set_neg_def bn_val_def unsigned_eq_0_iff split: if_splits)
    have "changes L a S ?S'" using b(1) neg changes_set_neg [OF changes_ok [OF b(1)] assms(2)] changes_trans by (cases ok) auto
    moreover have "bn_abs S1 a = unat w" if ok using b(2) [OF that] abs_bn_val [of S1 a] by (intro word_intI) simp
    ultimately show ?thesis using 2 s b grow neg by (intro exI [of _ ok] exI [of _ ?S']) (auto simp: BN_sub_word.simps BN_is_zero bn_val_def signed_ok_def unat_gt_0)
  next
    case 3
    let ?S1 = "set_neg a False S"
    note ch = changes_set_neg [OF assms, of False]
    obtain ok S2 where S2: "BN_add_word A a w ?S1 = Some (ok, S2)" "changes L a ?S1 S2"
      "can_grow_to A ?S1 a (bn_width (st_bn S a) + 1) \<longrightarrow> ok" "ok \<longrightarrow> bn_abs S2 a = bn_abs S a + unat w"
      using add_word_positive [OF changes_ok [OF ch] assms(2) 3(1), of A] 3(2) by auto
    let ?S' = "set_neg a True S2"
    have "changes L a S ?S'" using ch S2(2) changes_set_neg [OF changes_ok [OF S2(2)] assms(2)] changes_trans by blast
    moreover have "BN_sub_word A a w S = Some (ok, ?S')" using 3 S2(1) by (simp add: BN_sub_word.simps BN_is_zero)
    moreover have "can_grow_to A ?S1 a n = can_grow_to A S a n" for n by (simp add: can_grow_to_def can_grow_def)
    ultimately show ?thesis using 3 S2(3,4) by (auto simp: bn_val_def signed_ok_def)
  next
    case 4
    from sub_word_positive [OF assms this, of A] obtain S' where "BN_sub_word A a w S = Some (True, S')" "changes L a S S'"
      "bn_val S' a = int (bn_abs S a) - uint w" "signed_ok S' a" by blast
    then show ?thesis using 4 by (auto simp: bn_val_def [of S])
  qed
qed

end
