(* ===== verification/Bn_Ctx.thy ===== *)
theory Bn_Ctx
  imports Bn_Correct Stack_Correct "HOL-Library.Monad_Syntax"
begin

unbundle bit_operations_syntax

text \<open>
  The pool of temporaries, \<open>crypto/fipsmodule/bn/ctx.c\<close>: a stack of big numbers, of which the first \<open>used\<close> are taken, and a stack
  of frames with the value of \<open>used\<close> at each \<open>BN_CTX_start\<close>. \<open>None\<close> is a failed assertion or a null pointer followed. The
  second half holds the invariant of the pool and what the operations do to it.
\<close>

section \<open>The code\<close>

record BN_STACK =
  bs_indexes :: "nat list"
  bs_depth :: nat
  bs_size :: nat

record BN_CTX =
  cx_bignums :: "(nat, unit) OPENSSL_STACK option"
  cx_stack :: BN_STACK
  cx_used :: nat
  cx_error :: bool
  cx_defer_error :: bool

definition BN_CTX_START_FRAMES :: nat where
  "BN_CTX_START_FRAMES = 32"

definition sizeof_BN_CTX :: nat where
  "sizeof_BN_CTX = 48"

text \<open>What uninitialised memory holds, read as a \<open>size_t\<close> and as a pointer.\<close>

definition fresh_size :: "allocator \<Rightarrow> nat \<Rightarrow> nat" where
  "fresh_size A i = (\<Sum>k\<leftarrow>[0..<8]. unat (fresh A (8 * i + k)) * 256 ^ k)"

definition fresh_ptr :: "allocator \<Rightarrow> nat \<Rightarrow> nat ptr" where
  "fresh_ptr A i = (if fresh_size A i = 0 then None else Some (fresh_size A i))"

definition BN_STACK_init :: BN_STACK where
  "BN_STACK_init = \<lparr>bs_indexes = [], bs_depth = 0, bs_size = 0\<rparr>"

definition BN_STACK_push :: "allocator \<Rightarrow> BN_STACK \<Rightarrow> nat \<Rightarrow> bool \<times> BN_STACK" where
  "BN_STACK_push A st idx =
     (let (ok, st) =
        (if bs_depth st = bs_size st then
           (let new_size = (if bs_size st \<noteq> 0 then size_mul (bs_size st) 3 div 2 else BN_CTX_START_FRAMES)
            in if new_size \<le> bs_size st \<or> new_size > (size_mod - 1) div 8 then (False, st)
               else if OPENSSL_malloc A (size_mul new_size 8) = None then (False, st)
               else (True, st\<lparr>bs_indexes := write_at 0 (bs_indexes st) (map (fresh_size A) [0..<new_size]), bs_size := new_size\<rparr>))
         else (True, st))
      in if \<not> ok then (False, st)
         else (True, st\<lparr>bs_indexes := (bs_indexes st)[bs_depth st := idx], bs_depth := bs_depth st + 1\<rparr>))"

definition BN_STACK_pop :: "BN_STACK \<Rightarrow> (nat \<times> BN_STACK) option" where
  "BN_STACK_pop st = do {
     c_assert (bs_depth st > 0);
     let depth = bs_depth st - 1;
     Some (bs_indexes st ! depth, st\<lparr>bs_depth := depth\<rparr>)
   }"

definition BN_CTX_new :: "allocator \<Rightarrow> BN_CTX option" where
  "BN_CTX_new A =
     (if OPENSSL_malloc A sizeof_BN_CTX = None then None
      else Some \<lparr>cx_bignums = None, cx_stack = BN_STACK_init, cx_used = 0, cx_error = False, cx_defer_error = False\<rparr>)"

definition BN_CTX_free :: "BN_CTX option \<Rightarrow> bn_store \<Rightarrow> bn_store option" where
  "BN_CTX_free ctx S =
     (case ctx of
        None \<Rightarrow> Some S
      | Some ctx \<Rightarrow> do {
          c_assert (cx_used ctx = 0 \<or> cx_error ctx);
          Some (OPENSSL_sk_pop_free_ex BN_free (cx_bignums ctx) S)
        })"

definition BN_CTX_start :: "allocator \<Rightarrow> BN_CTX \<Rightarrow> BN_CTX" where
  "BN_CTX_start A ctx =
     (if cx_error ctx then ctx
      else (let (ok, st) = BN_STACK_push A (cx_stack ctx) (cx_used ctx)
            in if \<not> ok then ctx\<lparr>cx_stack := st, cx_error := True, cx_defer_error := True\<rparr>
               else ctx\<lparr>cx_stack := st\<rparr>))"

definition BN_CTX_get :: "allocator \<Rightarrow> BN_CTX \<Rightarrow> bn_store \<Rightarrow> (nat option \<times> BN_CTX \<times> bn_store) option" where
  "BN_CTX_get A ctx S =
     (if cx_error ctx then
        Some (None, if cx_defer_error ctx then ctx\<lparr>cx_defer_error := False\<rparr> else ctx, S)
      else
        (case (if cx_bignums ctx = None then OPENSSL_sk_new_null A else cx_bignums ctx) of
           None \<Rightarrow> Some (None, ctx\<lparr>cx_error := True\<rparr>, S)
         | Some sk \<Rightarrow>
             (let ctx = ctx\<lparr>cx_bignums := Some sk\<rparr>;
                  (ok, ctx, S) =
                    (if cx_used ctx = OPENSSL_sk_num (Some sk) then
                       (case BN_new A S of
                          (None, S) \<Rightarrow> (False, ctx\<lparr>cx_error := True\<rparr>, S)
                        | (Some bn, S) \<Rightarrow>
                            (let (n, sk) = OPENSSL_sk_push A (fresh_ptr A) sk (Some bn);
                                 ctx = ctx\<lparr>cx_bignums := sk\<rparr>
                             in if n = 0 then (False, ctx\<lparr>cx_error := True\<rparr>, BN_free (Some bn) S) else (True, ctx, S)))
                     else (True, ctx, S))
              in if \<not> ok then Some (None, ctx, S)
                 else
                   (case OPENSSL_sk_value (cx_bignums ctx) (cx_used ctx) of
                      None \<Rightarrow> None
                    | Some ret \<Rightarrow> Some (Some ret, ctx\<lparr>cx_used := cx_used ctx + 1\<rparr>, BN_zero ret S)))))"

definition BN_CTX_end :: "BN_CTX \<Rightarrow> BN_CTX option" where
  "BN_CTX_end ctx =
     (if cx_error ctx then Some ctx
      else do {
        (used, st) \<leftarrow> BN_STACK_pop (cx_stack ctx);
        Some (ctx\<lparr>cx_stack := st, cx_used := used\<rparr>)
      })"

section \<open>The invariant\<close>

definition pool :: "BN_CTX \<Rightarrow> nat list" where
  "pool ctx = (case cx_bignums ctx of None \<Rightarrow> [] | Some sk \<Rightarrow> map the (sk_list sk))"

definition frames :: "BN_CTX \<Rightarrow> nat list" where
  "frames ctx = take (bs_depth (cx_stack ctx)) (bs_indexes (cx_stack ctx))"

text \<open>The numbers of the caller and the temporaries.\<close>

definition live :: "nat set \<Rightarrow> BN_CTX \<Rightarrow> nat set" where
  "live L ctx = L \<union> set (pool ctx)"

definition stack_ok :: "BN_STACK \<Rightarrow> bool" where
  "stack_ok st \<longleftrightarrow> bs_depth st \<le> bs_size st \<and> length (bs_indexes st) = bs_size st \<and> bs_size st \<noteq> 1"

definition ctx_ok :: "nat set \<Rightarrow> BN_CTX \<Rightarrow> bn_store \<Rightarrow> bool" where
  "ctx_ok L ctx S \<longleftrightarrow> store_ok (live L ctx) S \<and> distinct (pool ctx) \<and> L \<inter> set (pool ctx) = {} \<and>
     (\<forall>i \<in> live L ctx. i < st_bn_brk S) \<and>
     (case cx_bignums ctx of None \<Rightarrow> True | Some sk \<Rightarrow> sk_wf sk \<and> None \<notin> set (sk_list sk)) \<and>
     cx_used ctx \<le> length (pool ctx) \<and>
     stack_ok (cx_stack ctx)"

text \<open>Numbers that an operation leaves as they are.\<close>

definition kept :: "nat set \<Rightarrow> bn_store \<Rightarrow> bn_store \<Rightarrow> bool" where
  "kept K S S' \<longleftrightarrow> (\<forall>i \<in> K. st_bn S' i = st_bn S i \<and> (\<forall>k < bn_dmax (st_bn S i). limb S' i k = limb S i k))"

lemma kept_refl: "kept K S S"
  by (simp add: kept_def)

lemma kept_trans: "kept K S S' \<Longrightarrow> kept K S' S'' \<Longrightarrow> kept K S S''"
  by (simp add: kept_def)

lemma kept_mono: "kept K S S' \<Longrightarrow> K' \<subseteq> K \<Longrightarrow> kept K' S S'"
  by (auto simp: kept_def)

lemma changes_kept: "changes L r S S' \<Longrightarrow> K \<subseteq> L - {r} \<Longrightarrow> kept K S S'"
  by (auto simp: changes_def kept_def)

lemma kept_val: "kept K S S' \<Longrightarrow> store_ok L S \<Longrightarrow> i \<in> K \<Longrightarrow> i \<in> L \<Longrightarrow> bn_abs S' i = bn_abs S i \<and> bn_val S' i = bn_val S i"
  using bn_abs_cong [of S' i S] store_ok_width(1) [of L S i] by (auto simp: kept_def bn_val_def)

lemma ctx_ok_changes: "ctx_ok L ctx S \<Longrightarrow> changes (live L ctx) r S S' \<Longrightarrow> ctx_ok L ctx S'"
  by (simp add: ctx_ok_def changes_def)

section \<open>The operations\<close>

text \<open>All memory is granted, nothing has failed and \<open>n\<close> more temporaries fit in the pool.\<close>

definition ample :: "allocator \<Rightarrow> nat \<Rightarrow> BN_CTX \<Rightarrow> bn_store \<Rightarrow> bool" where
  "ample A n ctx S \<longleftrightarrow> (\<forall>k. malloc_ok A k) \<and> \<not> cx_error ctx \<and> length (pool ctx) + n \<le> INT_MAX \<and>
     (\<forall>i \<in> set (pool ctx). bn_flags (st_bn S i) AND BN_FLG_STATIC_DATA = 0)"

lemma granted: "\<forall>n. malloc_ok A n \<Longrightarrow> k \<le> INT_MAX * 100 \<Longrightarrow> OPENSSL_malloc A k \<noteq> None"
  by (simp add: OPENSSL_malloc_def size_add_exact OPENSSL_MALLOC_PREFIX_def INT_MAX_def size_mod_def)

lemma stack_push:
  assumes "BN_STACK_push A st u = (ok, st')" "stack_ok st"
  shows "stack_ok st'" "ok \<Longrightarrow> take (bs_depth st') (bs_indexes st') = take (bs_depth st) (bs_indexes st) @ [u]" "\<not> ok \<Longrightarrow> st' = st"
    "\<forall>n. malloc_ok A n \<Longrightarrow> bs_size st \<le> 2 ^ 32 \<Longrightarrow> ok"
proof -
  define n where "n = (if bs_size st \<noteq> 0 then size_mul (bs_size st) 3 div 2 else BN_CTX_START_FRAMES)"
  define bad where "bad = (n \<le> bs_size st \<or> n > (size_mod - 1) div 8 \<or> OPENSSL_malloc A (size_mul n 8) = None)"
  have "stack_ok st' \<and> (ok \<longrightarrow> take (bs_depth st') (bs_indexes st') = take (bs_depth st) (bs_indexes st) @ [u]) \<and>
      (\<not> ok \<longrightarrow> st' = st \<and> bad)"
  proof (cases "bs_depth st = bs_size st")
    case False
    then show ?thesis using assms by (auto simp: BN_STACK_push_def take_Suc_conv_app_nth stack_ok_def)
  next
    case full: True
    show ?thesis
    proof (cases bad)
      case True
      then have "st' = st" "\<not> ok" using assms(1) full
        unfolding BN_STACK_push_def n_def [symmetric] Let_def bad_def by (auto split: if_splits)
      then show ?thesis using assms(2) True by simp
    next
      case False
      let ?d = "write_at 0 (bs_indexes st) (map (fresh_size A) [0..<n])"
      have n: "bs_size st < n" "n \<noteq> 1" using False assms(2) by (auto simp: bad_def n_def BN_CTX_START_FRAMES_def stack_ok_def)
      have d: "length ?d = n" "take (bs_size st) ?d = bs_indexes st" using n assms(2) by (simp_all add: write_at_def stack_ok_def)
      have "ok" "st' = st\<lparr>bs_indexes := ?d[bs_depth st := u], bs_size := n, bs_depth := bs_depth st + 1\<rparr>"
        using assms(1) False full unfolding BN_STACK_push_def n_def [symmetric] Let_def bad_def by (auto split: if_splits)
      then show ?thesis using n d assms(2) full by (auto simp: take_Suc_conv_app_nth stack_ok_def)
    qed
  qed
  note main = this
  then show "stack_ok st'" "ok \<Longrightarrow> take (bs_depth st') (bs_indexes st') = take (bs_depth st) (bs_indexes st) @ [u]" "\<not> ok \<Longrightarrow> st' = st"
    by auto
  assume m: "\<forall>n. malloc_ok A n" "bs_size st \<le> 2 ^ 32"
  have n: "n = (if bs_size st \<noteq> 0 then bs_size st * 3 div 2 else 32)"
    using m(2) by (simp add: n_def size_mul_exact size_mod_def BN_CTX_START_FRAMES_def)
  have "bs_size st < n" using n assms(2) by (auto simp: stack_ok_def)
  moreover have "n \<le> 3 * 2 ^ 31" using n m(2) by (simp split: if_splits)
  moreover from this have "OPENSSL_malloc A (size_mul n 8) \<noteq> None"
    using granted [OF m(1)] by (simp add: size_mul_exact size_mod_def INT_MAX_def)
  ultimately show ok using main by (auto simp: bad_def size_mod_def)
qed

lemma pool_stack [simp]: "pool (ctx\<lparr>cx_stack := st\<rparr>) = pool ctx" "pool (ctx\<lparr>cx_used := u\<rparr>) = pool ctx"
    "pool (ctx\<lparr>cx_error := e\<rparr>) = pool ctx" "pool (ctx\<lparr>cx_defer_error := e\<rparr>) = pool ctx"
    "live L (ctx\<lparr>cx_stack := st\<rparr>) = live L ctx" "live L (ctx\<lparr>cx_used := u\<rparr>) = live L ctx"
    "live L (ctx\<lparr>cx_error := e\<rparr>) = live L ctx" "live L (ctx\<lparr>cx_defer_error := e\<rparr>) = live L ctx"
    "frames (ctx\<lparr>cx_error := e\<rparr>) = frames ctx" "frames (ctx\<lparr>cx_defer_error := e\<rparr>) = frames ctx"
    "frames (ctx\<lparr>cx_used := u\<rparr>) = frames ctx" "frames (ctx\<lparr>cx_bignums := b\<rparr>) = frames ctx"
  by (simp_all add: pool_def live_def frames_def)

lemma ctx_start:
  assumes "BN_CTX_start A ctx = ctx'" "ctx_ok L ctx S"
  shows "ctx_ok L ctx' S" "pool ctx' = pool ctx" "cx_used ctx' = cx_used ctx" "cx_error ctx \<Longrightarrow> cx_error ctx'"
    "\<not> cx_error ctx' \<Longrightarrow> frames ctx' = frames ctx @ [cx_used ctx]" "ample A n ctx S \<Longrightarrow> bs_size (cx_stack ctx) \<le> 2 ^ 32 \<Longrightarrow> ample A n ctx' S"
proof -
  obtain ok st' where p: "BN_STACK_push A (cx_stack ctx) (cx_used ctx) = (ok, st')" by fastforce
  have "stack_ok (cx_stack ctx)" using assms(2) by (simp add: ctx_ok_def)
  note v = stack_push [OF p this]
  have c: "ctx' = (if cx_error ctx then ctx else if ok then ctx\<lparr>cx_stack := st'\<rparr>
      else ctx\<lparr>cx_stack := st', cx_error := True, cx_defer_error := True\<rparr>)"
    using assms(1) p by (auto simp: BN_CTX_start_def)
  show "ctx_ok L ctx' S" "pool ctx' = pool ctx" "cx_used ctx' = cx_used ctx" "cx_error ctx \<Longrightarrow> cx_error ctx'"
    using assms(2) v(1,3) by (auto simp: c ctx_ok_def)
  show "\<not> cx_error ctx' \<Longrightarrow> frames ctx' = frames ctx @ [cx_used ctx]"
    using v(2) by (auto simp: c frames_def split: if_splits)
  show "ample A n ctx S \<Longrightarrow> bs_size (cx_stack ctx) \<le> 2 ^ 32 \<Longrightarrow> ample A n ctx' S" using v(4) by (auto simp: c ample_def)
qed

lemma ctx_end:
  assumes "ctx_ok L ctx S" "\<not> cx_error ctx \<Longrightarrow> frames ctx = fs @ [u] \<and> u \<le> length (pool ctx)"
  shows "\<exists>ctx'. BN_CTX_end ctx = Some ctx' \<and> ctx_ok L ctx' S \<and> pool ctx' = pool ctx \<and> cx_error ctx' = cx_error ctx \<and>
    (\<not> cx_error ctx \<longrightarrow> cx_used ctx' = u \<and> frames ctx' = fs)"
proof (cases "cx_error ctx")
  case True
  then show ?thesis using assms(1) by (simp add: BN_CTX_end_def)
next
  case False
  let ?st = "cx_stack ctx"
  have fs: "take (bs_depth ?st) (bs_indexes ?st) = fs @ [u]" "u \<le> length (pool ctx)" using assms(2) False by (simp_all add: frames_def)
  have l: "bs_depth ?st \<le> length (bs_indexes ?st)" using assms(1) by (simp add: ctx_ok_def stack_ok_def)
  then have d: "bs_depth ?st = Suc (length fs)" using arg_cong [OF fs(1), of length] by simp
  have "take (length fs) (bs_indexes ?st) = fs" "bs_indexes ?st ! length fs = u"
    using arg_cong [OF fs(1), of "take (length fs)"] arg_cong [OF fs(1), of "\<lambda>xs. xs ! length fs"] by (simp_all add: d min_def)
  then show ?thesis using False assms(1) fs(2) d
    by (auto simp: BN_CTX_end_def BN_STACK_pop_def c_assert_def ctx_ok_def frames_def stack_ok_def)
qed

lemma BN_new:
  assumes "BN_new A S = (Some t, S')" "store_ok K S" "\<forall>i \<in> K. i < st_bn_brk S"
  shows "store_ok (insert t K) S'" "\<forall>i \<in> insert t K. i < st_bn_brk S'" "kept K S S'" "t \<notin> K"
    "bn_flags (st_bn S' t) AND BN_FLG_STATIC_DATA = 0"
proof -
  have S': "S' = bn_upd t (\<lambda>_. zero_BIGNUM\<lparr>bn_flags := BN_FLG_MALLOCED\<rparr>) (S\<lparr>st_bn_brk := t + 1\<rparr>)" "t = st_bn_brk S"
    using assms(1) by (auto simp: BN_new_def Let_def split: if_splits)
  have old: "i \<in> K \<Longrightarrow> i \<noteq> t" for i using assms(3) S'(2) by auto
  show "t \<notin> K" using old by blast
  show "store_ok (insert t K) S'" using assms(2) old
    by (auto simp: S'(1) store_ok_def bn_ok_def apart_def bn_upd_def zero_BIGNUM_def)
  show "\<forall>i \<in> insert t K. i < st_bn_brk S'" using assms(3) S'(2) by (auto simp: S'(1) bn_upd_def)
  show "kept K S S'" using old by (auto simp: S'(1) kept_def limb_def bn_upd_def)
  show "bn_flags (st_bn S' t) AND BN_FLG_STATIC_DATA = 0" by (simp add: S'(1) BN_FLG_MALLOCED_def BN_FLG_STATIC_DATA_def)
qed

text \<open>Taking the next number of the pool.\<close>

lemma ctx_take:
  assumes "ctx_ok L ctx S" "cx_used ctx < length (pool ctx)"
  defines "t \<equiv> pool ctx ! cx_used ctx" and "ctx' \<equiv> ctx\<lparr>cx_used := cx_used ctx + 1\<rparr>"
  shows "OPENSSL_sk_value (cx_bignums ctx) (cx_used ctx) = Some t" "ctx_ok L ctx' (BN_zero t S)"
    "kept (L \<union> set (take (cx_used ctx) (pool ctx))) S (BN_zero t S)" "take (cx_used ctx') (pool ctx') = take (cx_used ctx) (pool ctx) @ [t]"
    "ample A n ctx S \<Longrightarrow> ample A n ctx' (BN_zero t S)"
proof -
  obtain sk where sk: "cx_bignums ctx = Some sk" "pool ctx = map the (sk_list sk)" "sk_wf sk" "None \<notin> set (sk_list sk)"
    using assms(1,2) by (auto simp: ctx_ok_def pool_def split: option.splits)
  have len: "cx_used ctx < length (sk_list sk)" using assms(2) by (simp add: sk(2))
  then have "sk_list sk ! cx_used ctx \<noteq> None" using sk(4) nth_mem by metis
  then show "OPENSSL_sk_value (cx_bignums ctx) (cx_used ctx) = Some t"
    using len sk by (auto simp: value_spec t_def)
  show "take (cx_used ctx') (pool ctx') = take (cx_used ctx) (pool ctx) @ [t]"
    using assms(2) by (simp add: ctx'_def t_def take_Suc_conv_app_nth)
  have t: "t \<in> set (pool ctx)" using assms(2) by (simp add: t_def)
  have "t \<notin> set (take (cx_used ctx) (pool ctx))"
    using assms(1,2) by (auto simp: ctx_ok_def t_def in_set_conv_nth nth_eq_iff_index_eq)
  moreover have "t \<notin> L" using assms(1) t by (auto simp: ctx_ok_def)
  moreover have ch: "changes (live L ctx) t S (BN_zero t S)"
    using assms(1) unfolding BN_zero_def by (intro changes_fields) (auto simp: ctx_ok_def)
  ultimately show "kept (L \<union> set (take (cx_used ctx) (pool ctx))) S (BN_zero t S)"
    by (intro changes_kept) (auto simp: live_def dest: in_set_takeD)
  show "ctx_ok L ctx' (BN_zero t S)" using ctx_ok_changes [OF assms(1) ch] assms(2) by (simp add: ctx_ok_def ctx'_def)
  show "ample A n ctx S \<Longrightarrow> ample A n ctx' (BN_zero t S)"
    by (auto simp: ample_def ctx'_def BN_zero_def bn_upd_def)
qed

lemma ctx_get:
  assumes "ctx_ok L ctx S"
  shows "\<exists>p ctx' S'. BN_CTX_get A ctx S = Some (p, ctx', S') \<and> ctx_ok L ctx' S' \<and> kept (L \<union> set (take (cx_used ctx) (pool ctx))) S S' \<and>
    take (cx_used ctx) (pool ctx') = take (cx_used ctx) (pool ctx) \<and> frames ctx' = frames ctx \<and>
    (p = None \<longrightarrow> cx_error ctx' \<and> cx_used ctx' = cx_used ctx) \<and>
    (\<forall>t. p = Some t \<longrightarrow> \<not> cx_error ctx \<and> \<not> cx_error ctx' \<and> cx_used ctx' = cx_used ctx + 1 \<and> take (cx_used ctx') (pool ctx') = take (cx_used ctx) (pool ctx) @ [t]) \<and>
    (ample A (Suc n) ctx S \<longrightarrow> p \<noteq> None \<and> ample A n ctx' S')"
proof (cases "cx_error ctx")
  case True
  then show ?thesis using assms by (auto simp: BN_CTX_get_def ctx_ok_def kept_refl ample_def)
next
  case False
  let ?u = "cx_used ctx" and ?K = "live L ctx"
  define sk where "sk = (if cx_bignums ctx = None then OPENSSL_sk_new_null A else cx_bignums ctx)"
  show ?thesis
  proof (cases sk)
    case None
    have "(OPENSSL_sk_new_null A :: (nat, unit) OPENSSL_STACK option) \<noteq> None" if m: "\<forall>k. malloc_ok A k"
      using granted [OF m, of 32] granted [OF m, of 40]
      by (auto simp: OPENSSL_sk_new_null_def OPENSSL_sk_new_def OPENSSL_zalloc_def OPENSSL_calloc_def
          sizeof_stack_def kMinSize_def sizeof_ptr_def INT_MAX_def size_mod_def size_mul_exact split: option.split)
    then have "(\<forall>k. malloc_ok A k) \<longrightarrow> (OPENSSL_sk_new_null A :: (nat, unit) OPENSSL_STACK option) \<noteq> None" by blast
    then have "\<not> (\<forall>k. malloc_ok A k)" using None by (cases "cx_bignums ctx") (auto simp: sk_def)
    then have "\<not> ample A (Suc n) ctx S" by (simp add: ample_def)
    moreover have "BN_CTX_get A ctx S = Some (None, ctx\<lparr>cx_error := True\<rparr>, S)" using None False by (simp add: BN_CTX_get_def sk_def)
    ultimately show ?thesis using assms by (simp add: ctx_ok_def kept_refl)
  next
    case (Some k)
    define c1 where "c1 = ctx\<lparr>cx_bignums := Some k\<rparr>"
    have k: "sk_wf k" "None \<notin> set (sk_list k)" "map the (sk_list k) = pool ctx"
      using Some assms new_becomes [of A None k]
      by (auto simp: sk_def ctx_ok_def pool_def OPENSSL_sk_new_null_def split: if_splits option.splits)
    have num_k: "st_num k = length (pool ctx)" unfolding k(3) [symmetric] length_map length_sk_list [OF k(1)] ..
    have c1: "ctx_ok L c1 S" "pool c1 = pool ctx" "frames c1 = frames ctx"
      using assms k by (simp_all add: c1_def ctx_ok_def pool_def live_def frames_def)
    have start: "BN_CTX_get A ctx S = (let (ok, ctx, S) =
        (if cx_used c1 = OPENSSL_sk_num (Some k) then
           (case BN_new A S of
              (None, S) \<Rightarrow> (False, c1\<lparr>cx_error := True\<rparr>, S)
            | (Some bn, S) \<Rightarrow>
                (let (n, sk) = OPENSSL_sk_push A (fresh_ptr A) k (Some bn);
                     ctx = c1\<lparr>cx_bignums := sk\<rparr>
                 in if n = 0 then (False, ctx\<lparr>cx_error := True\<rparr>, BN_free (Some bn) S) else (True, ctx, S)))
         else (True, c1, S))
      in if \<not> ok then Some (None, ctx, S)
         else (case OPENSSL_sk_value (cx_bignums ctx) (cx_used ctx) of
                 None \<Rightarrow> None
               | Some ret \<Rightarrow> Some (Some ret, ctx\<lparr>cx_used := cx_used ctx + 1\<rparr>, BN_zero ret S)))"
      using False Some by (simp only: BN_CTX_get_def sk_def c1_def Let_def if_False option.case)
    show ?thesis
    proof (cases "?u = length (pool ctx)")
      case False
      then have u: "cx_used c1 < length (pool c1)" using assms by (simp add: c1 ctx_ok_def) (simp add: c1_def)
      note t = ctx_take [OF c1(1) u]
      have "OPENSSL_sk_num (Some k) \<noteq> cx_used c1" using False num_k
        by (simp add: OPENSSL_sk_num_def c1_def)
      then have "BN_CTX_get A ctx S = Some (Some (pool c1 ! cx_used c1), c1\<lparr>cx_used := cx_used c1 + 1\<rparr>, BN_zero (pool c1 ! cx_used c1) S)"
        using t(1) by (simp add: start)
      moreover have "ample A (Suc n) ctx S \<Longrightarrow> ample A n c1 S" by (simp add: ample_def c1(2)) (simp add: c1_def)
      moreover have "cx_used c1 = ?u" "\<not> cx_error c1" using \<open>\<not> cx_error ctx\<close> by (simp_all add: c1_def)
      ultimately show ?thesis using t(2-5) c1(2,3) \<open>\<not> cx_error ctx\<close> by auto
    next
      case True
      then have num: "cx_used c1 = OPENSSL_sk_num (Some k)" using num_k
        by (simp add: OPENSSL_sk_num_def c1_def)
      have c1_fields: "cx_used c1 = ?u" "\<not> cx_error c1" using \<open>\<not> cx_error ctx\<close> by (simp_all add: c1_def)
      have all: "take ?u (pool ctx) = pool ctx" using True by simp
      obtain bn S1 where new: "BN_new A S = (bn, S1)" by fastforce
      show ?thesis
      proof (cases bn)
        case None
        then have S1: "S1 = S" using new by (auto simp: BN_new_def Let_def split: if_splits)
        then have "BN_CTX_get A ctx S = Some (None, c1\<lparr>cx_error := True\<rparr>, S)" using new None num by (simp add: start)
        moreover have "\<not> ample A (Suc n) ctx S"
          using new None granted [of A sizeof_BIGNUM] by (auto simp: ample_def BN_new_def Let_def sizeof_BIGNUM_def INT_MAX_def split: if_splits)
        ultimately show ?thesis using c1 c1_fields by (simp add: ctx_ok_def kept_refl)
      next
        case (Some t)
        note bn = BN_new [OF new [unfolded Some], of "live L ctx"]
        have ok: "store_ok (insert t (live L ctx)) S1" "\<forall>i \<in> insert t (live L ctx). i < st_bn_brk S1" "kept (live L ctx) S S1" "t \<notin> live L ctx"
          using assms bn(1-4) by (simp_all add: ctx_ok_def)
        then have S1: "store_ok (live L ctx) S1" by (auto simp: store_ok_def)
        consider "OPENSSL_sk_push A (fresh_ptr A) k (Some t) = (0, Some k)" |
          k' where "OPENSSL_sk_push A (fresh_ptr A) k (Some t) = (st_num k + 1, Some k')" "sk_wf k'" "sk_list k' = sk_list k @ [Some t]"
          using insert_becomes [OF k(1), of A "fresh_ptr A" "Some t" "st_num k"] length_sk_list [OF k(1)]
          by (auto simp: OPENSSL_sk_push_def sk_becomes_def list_insert_def)
        then show ?thesis
        proof cases
          case 1
          have free: "BN_free (Some t) S1 = S1" using new Some
            by (auto simp: BN_new_def BN_free_def Let_def BN_FLG_MALLOCED_def split: if_splits)
          have "BN_CTX_get A ctx S = Some (None, c1\<lparr>cx_bignums := Some k, cx_error := True\<rparr>, S1)" using new Some num 1 free by (simp add: start)
          moreover have "c1\<lparr>cx_bignums := Some k\<rparr> = c1" by (simp add: c1_def)
          moreover have "\<not> ample A (Suc n) ctx S"
          proof
            assume "ample A (Suc n) ctx S"
            then have "st_num k < INT_MAX" "\<forall>k. malloc_ok A k" using num_k by (simp_all add: ample_def)
            from insert_granted_sk [OF k(1) this] show False using 1 unfolding OPENSSL_sk_push_def by blast
          qed
          ultimately show ?thesis using c1 c1_fields S1 ok by (auto simp: ctx_ok_def live_def all)
        next
          case 2
          define c2 where "c2 = c1\<lparr>cx_bignums := Some k'\<rparr>"
          have c2: "pool c2 = pool ctx @ [t]" "frames c2 = frames ctx" "cx_used c2 = ?u" "\<not> cx_error c2"
            using k(3) 2(3) c1_fields c1(3) by (simp_all add: c2_def pool_def)
          have lv: "live L c2 = insert t (live L ctx)" by (auto simp: live_def c2(1))
          have c2_ok: "ctx_ok L c2 S1" unfolding ctx_ok_def lv using assms ok 2 k(2) c2 True
            by (auto simp: ctx_ok_def live_def c2_def c1_def)
          have u: "cx_used c2 < length (pool c2)" using c2 True by simp
          note tk = ctx_take [OF c2_ok u]
          have pt: "pool c2 ! cx_used c2 = t" by (simp add: c2 True)
          have "BN_CTX_get A ctx S = Some (Some t, c2\<lparr>cx_used := cx_used c2 + 1\<rparr>, BN_zero t S1)"
            using new Some num 2 tk(1) [unfolded pt] by (simp add: start c2_def)
          moreover have "kept (L \<union> set (take ?u (pool ctx))) S (BN_zero t S1)"
          proof (rule kept_trans [of _ _ S1])
            show "kept (L \<union> set (take ?u (pool ctx))) S S1" using ok(3) by (simp add: live_def all)
            show "kept (L \<union> set (take ?u (pool ctx))) S1 (BN_zero t S1)" using tk(3) unfolding pt by (simp add: c2 True)
          qed
          moreover have "ample A (Suc n) ctx S \<Longrightarrow> ample A n c2 S1"
            using ok(3) bn(5) c2 assms by (auto simp: ample_def kept_def live_def ctx_ok_def)
          ultimately show ?thesis using tk(2,4,5) c2 \<open>\<not> cx_error ctx\<close> True by (auto simp: pt)
        qed
      qed
    qed
  qed
qed

end
