(* ===== verification/Bn_Mul.thy ===== *)
theory Bn_Mul
  imports Bn Stack "HOL-Library.Monad_Syntax"
begin

unbundle bit_operations_syntax

text \<open>
  Multiplication of words, \<open>crypto/fipsmodule/bn/mul.c\<close>. The functions work in place, with scratch space in the same memory;
  sub-arrays are addresses inside an array. Functions with assertions are in the option monad. The lengths and length differences that the code keeps in an \<open>int\<close> are integers.
\<close>

section \<open>Products of words\<close>

definition BN_MUL_RECURSIVE_SIZE_NORMAL :: nat where
  "BN_MUL_RECURSIVE_SIZE_NORMAL = 16"

definition bn_abs_sub_words :: "words \<Rightarrow> nat \<Rightarrow> nat \<Rightarrow> nat \<Rightarrow> nat \<Rightarrow> nat \<Rightarrow> words" where
  "bn_abs_sub_words m r a b num tmp =
     (let (m, borrow) = bn_sub_words m tmp a b num;
          (m, _) = bn_sub_words m r b a num
      in bn_select_words m r (0 - borrow) r tmp num)"

text \<open>The loop of \<open>bn_mul_normal\<close>, unrolled in the code: row \<open>j\<close> adds \<open>a * b[j]\<close> at \<open>r[j]\<close>.\<close>

fun mul_normal_rows :: "words \<Rightarrow> nat \<Rightarrow> nat \<Rightarrow> nat \<Rightarrow> nat \<Rightarrow> nat \<Rightarrow> nat \<Rightarrow> words" where
  "mul_normal_rows m r a na b j 0 = m"
| "mul_normal_rows m r a na b j (Suc n) =
     (let (m, c) = bn_mul_add_words m (r + j) a na (m (b + j))
      in mul_normal_rows (m(r + na + j := c)) r a na b (j + 1) n)"

definition bn_mul_normal :: "words \<Rightarrow> nat \<Rightarrow> nat \<Rightarrow> nat \<Rightarrow> nat \<Rightarrow> nat \<Rightarrow> words" where
  "bn_mul_normal m r a na b nb =
     (let (a, na, b, nb) = (if na < nb then (b, nb, a, na) else (a, na, b, nb))
      in if nb = 0 then words_zero m r na
         else
           (let (m, c) = bn_mul_words m r a na (m b)
            in mul_normal_rows (m(r + na := c)) r a na b 1 (nb - 1)))"

text \<open>The common length \<open>cl\<close> is a number of words here, and the assertion that it is not negative has no counterpart: it is a minimum of
  widths in \<open>bn_abs_sub_consttime\<close>, and \<open>bn_mul_recursive\<close> and \<open>bn_mul_part_recursive\<close> pass lengths that their own assertions, which are
  modelled, keep from being negative.\<close>

definition bn_sub_part_words :: "words \<Rightarrow> nat \<Rightarrow> nat \<Rightarrow> nat \<Rightarrow> nat \<Rightarrow> int \<Rightarrow> words \<times> u64" where
  "bn_sub_part_words m r a b cl dl =
     (let (m, borrow) = bn_sub_words m r a b cl
      in if dl = 0 then (m, borrow)
         else if dl < 0 then
           words_rest (\<lambda>m i borrow. let (v, borrow) = CRYPTO_subc_w 0 (m (b + cl + i)) borrow in (m(r + cl + i := v), borrow)) m 0 (nat (- dl)) borrow
         else
           words_rest (\<lambda>m i borrow. let (v, borrow) = CRYPTO_subc_w (m (a + cl + i)) 0 borrow in (m(r + cl + i := v), borrow)) m 0 (nat dl) borrow)"

definition bn_abs_sub_part_words :: "words \<Rightarrow> nat \<Rightarrow> nat \<Rightarrow> nat \<Rightarrow> nat \<Rightarrow> int \<Rightarrow> nat \<Rightarrow> words \<times> u64" where
  "bn_abs_sub_part_words m r a b cl dl tmp =
     (let (m, borrow) = bn_sub_part_words m tmp a b cl dl;
          (m, _) = bn_sub_part_words m r b a cl (- dl);
          r_len = cl + nat \<bar>dl\<bar>;
          borrow = 0 - borrow
      in (bn_select_words m r borrow r tmp r_len, borrow))"

text \<open>The end of both Karatsuba functions: with \<open>a0 * b0\<close> and \<open>a1 * b1\<close> in the halves of \<open>r\<close> and
  \<open>|(a0 - a1) * (b1 - b0)|\<close> in \<open>t2,t3\<close>, add the middle term to \<open>r1,r2\<close>.\<close>

fun carry_on :: "words \<Rightarrow> nat \<Rightarrow> nat \<Rightarrow> u64 \<Rightarrow> words \<times> u64" where
  "carry_on m r 0 c = (m, c)"
| "carry_on m r (Suc n) c =
     (let old = m r;
          m = m(r := old + c)
      in carry_on m (r + 1) n (if m r < old then 1 else 0))"

definition karatsuba_middle :: "words \<Rightarrow> nat \<Rightarrow> nat \<Rightarrow> nat \<Rightarrow> nat \<Rightarrow> u64 \<Rightarrow> words option" where
  "karatsuba_middle m r t n n2 neg = do {
     let (m, c) = bn_add_words m t r (r + n2) n2;
     let (m, bw) = bn_sub_words m (t + n2 * 2) t (t + n2) n2;
     let c_neg = c - bw;
     let (m, cy) = bn_add_words m (t + n2) t (t + n2) n2;
     let c_pos = c + cy;
     let m = bn_select_words m (t + n2) neg (t + n2 * 2) (t + n2) n2;
     let c = constant_time_select_w neg c_neg c_pos;
     let (m, cy) = bn_add_words m (r + n) (r + n) (t + n2) n2;
     let c = c + cy;
     let (m, c) = carry_on m (r + n + n2) (n2 - n) c;
     c_assert (c = 0);
     Some m
   }"

function (sequential) bn_mul_recursive :: "words \<Rightarrow> nat \<Rightarrow> nat \<Rightarrow> nat \<Rightarrow> nat \<Rightarrow> int \<Rightarrow> int \<Rightarrow> nat \<Rightarrow> words option" where
  "bn_mul_recursive m r a b n2 dna dnb t = do {
     c_assert (n2 \<noteq> 0 \<and> n2 AND (n2 - 1) = 0);
     c_assert (- (int BN_MUL_RECURSIVE_SIZE_NORMAL div 2) \<le> dna \<and> dna \<le> 0);
     c_assert (- (int BN_MUL_RECURSIVE_SIZE_NORMAL div 2) \<le> dnb \<and> dnb \<le> 0);
     if n2 = 8 \<and> dna = 0 \<and> dnb = 0 then Some (bn_mul_comba8 m r a b)
     else if n2 < BN_MUL_RECURSIVE_SIZE_NORMAL then do {
       let m = bn_mul_normal m r a (nat (int n2 + dna)) b (nat (int n2 + dnb));
       Some (if dna + dnb < 0 then words_zero m (nat (int r + 2 * int n2 + dna + dnb)) (nat (- (dna + dnb))) else m)
     }
     else do {
       let n = n2 div 2;
       let tna = int n + dna;
       let tnb = int n + dnb;
       let (m, neg) = bn_abs_sub_part_words m t a (a + n) (nat tna) (int n - tna) (t + n2);
       let (m, neg') = bn_abs_sub_part_words m (t + n) (b + n) b (nat tnb) (tnb - int n) (t + n2);
       let neg = neg XOR neg';
       m \<leftarrow> (if n = 4 \<and> dna = 0 \<and> dnb = 0 then do {
               let m = bn_mul_comba4 m (t + n2) t (t + n);
               let m = bn_mul_comba4 m r a b;
               Some (bn_mul_comba4 m (r + n2) (a + n) (b + n))
             }
             else if n = 8 \<and> dna = 0 \<and> dnb = 0 then do {
               let m = bn_mul_comba8 m (t + n2) t (t + n);
               let m = bn_mul_comba8 m r a b;
               Some (bn_mul_comba8 m (r + n2) (a + n) (b + n))
             }
             else do {
               let p = t + n2 * 2;
               m \<leftarrow> bn_mul_recursive m (t + n2) t (t + n) n 0 0 p;
               m \<leftarrow> bn_mul_recursive m r a b n 0 0 p;
               bn_mul_recursive m (r + n2) (a + n) (b + n) n dna dnb p
             });
       karatsuba_middle m r t n n2 neg
     }
   }"
  by pat_completeness auto
termination
  by (relation "measure (\<lambda>(_, _, _, _, n2, _). n2)") (auto simp: BN_MUL_RECURSIVE_SIZE_NORMAL_def)

declare bn_mul_recursive.simps [simp del]

text \<open>The loop at the end of \<open>bn_mul_part_recursive\<close> that halves \<open>i\<close>: \<open>Inl\<close> the size of a partial, \<open>Inr\<close> that of a full product,
  \<open>None\<close> when it does not end.\<close>

function (sequential) part_split :: "nat \<Rightarrow> int \<Rightarrow> int \<Rightarrow> (nat + nat) option" where
  "part_split i tna tnb =
     (if i = 0 then None
      else
        (let i = i div 2
         in if int i < tna \<or> int i < tnb then Some (Inl i)
            else if int i = tna \<or> int i = tnb then Some (Inr i)
            else part_split i tna tnb))"
  by pat_completeness auto
termination by (relation "measure (\<lambda>(i, _). i)") auto

declare part_split.simps [simp del]

lemma part_split_less: "part_split i tna tnb = Some (Inl k) \<Longrightarrow> k < i"
proof (induction i tna tnb rule: part_split.induct)
  case (1 i tna tnb)
  show ?case
  proof (cases "i = 0")
    case False
    then have "i div 2 < i" by simp
    then show ?thesis using 1 False
      by (subst (asm) (2) part_split.simps) (auto simp: Let_def split: if_splits)
  qed (use 1 in \<open>simp add: part_split.simps\<close>)
qed

text \<open>\<open>memset\<close> of \<open>k\<close> bytes, on a little-endian machine.\<close>

definition bytes_zero :: "words \<Rightarrow> nat \<Rightarrow> nat \<Rightarrow> words" where
  "bytes_zero m p k =
     (let m = words_zero m p (k div 8); q = p + k div 8
      in m(q := m q AND NOT (mask (8 * (k mod 8)))))"

function (sequential) bn_mul_part_recursive :: "words \<Rightarrow> nat \<Rightarrow> nat \<Rightarrow> nat \<Rightarrow> nat \<Rightarrow> int \<Rightarrow> int \<Rightarrow> nat \<Rightarrow> words option" where
  "bn_mul_part_recursive m r a b n tna tnb t = do {
     c_assert (n \<noteq> 0 \<and> n AND (n - 1) = 0);
     c_assert (0 \<le> tna \<and> tna < int n);
     c_assert (0 \<le> tnb \<and> tnb < int n);
     c_assert (- 1 \<le> tna - tnb \<and> tna - tnb \<le> 1);
     let n2 = n * 2;
     if n < 8 then do {
       let m = bn_mul_normal m r a (nat (int n + tna)) b (nat (int n + tnb));
       Some (bytes_zero m (nat (int r + int n2 + tna + tnb)) (nat (int n2 - tna - tnb)))
     }
     else do {
       let (m, neg) = bn_abs_sub_part_words m t a (a + n) (nat tna) (int n - tna) (t + n2);
       let (m, neg') = bn_abs_sub_part_words m (t + n) (b + n) b (nat tnb) (tnb - int n) (t + n2);
       let neg = neg XOR neg';
       m \<leftarrow> (if n = 8 then do {
               let m = bn_mul_comba8 m (t + n2) t (t + n);
               let m = bn_mul_comba8 m r a b;
               let m = bn_mul_normal m (r + n2) (a + n) (nat tna) (b + n) (nat tnb);
               Some (words_zero m (nat (int r + int n2 + tna + tnb)) (nat (int n2 - tna - tnb)))
             }
             else do {
               let p = t + n2 * 2;
               m \<leftarrow> bn_mul_recursive m (t + n2) t (t + n) n 0 0 p;
               m \<leftarrow> bn_mul_recursive m r a b n 0 0 p;
               let m = words_zero m (r + n2) n2;
               if tna < int BN_MUL_RECURSIVE_SIZE_NORMAL \<and> tnb < int BN_MUL_RECURSIVE_SIZE_NORMAL
               then Some (bn_mul_normal m (r + n2) (a + n) (nat tna) (b + n) (nat tnb))
               else
                 (case part_split n tna tnb of
                    None \<Rightarrow> None
                  | Some (Inl i) \<Rightarrow> bn_mul_part_recursive m (r + n2) (a + n) (b + n) i (tna - int i) (tnb - int i) p
                  | Some (Inr i) \<Rightarrow> bn_mul_recursive m (r + n2) (a + n) (b + n) i (tna - int i) (tnb - int i) p)
             });
       karatsuba_middle m r t n n2 neg
     }
   }"
  by pat_completeness auto
termination
  by (relation "measure (\<lambda>(_, _, _, _, n, _). n)") (auto dest: part_split_less)

declare bn_mul_part_recursive.simps [simp del]

text \<open>\<open>bn_sqr_normal\<close>: the products of different words, doubled, and the squares.\<close>

fun sqr_normal_rows :: "words \<Rightarrow> nat \<Rightarrow> nat \<Rightarrow> nat \<Rightarrow> words" where
  "sqr_normal_rows m rp ap 0 = m"
| "sqr_normal_rows m rp ap (Suc i) =
     (let ap = ap + 1;
          (m, c) = bn_mul_add_words m rp ap (Suc i) (m (ap - 1));
          m = m(rp + Suc i := c)
      in sqr_normal_rows m (rp + 2) ap i)"

definition bn_sqr_normal :: "words \<Rightarrow> nat \<Rightarrow> nat \<Rightarrow> nat \<Rightarrow> nat \<Rightarrow> words" where
  "bn_sqr_normal m r a n tmp =
     (if n = 0 then m
      else
        (let maximum = n * 2;
             m = m(r := 0, r + (maximum - 1) := 0);
             rp = r + 1;
             (m, rp, ap) = (if n > 1 then
                              (let (m, c) = bn_mul_words m rp (a + 1) (n - 1) (m a)
                               in (m(rp + (n - 1) := c), rp + 2, a + 1))
                            else (m, rp, a));
             m = (if n > 2 then sqr_normal_rows m rp ap (n - 2) else m);
             (m, _) = bn_add_words m r r r maximum;
             m = bn_sqr_words m tmp a n;
             (m, _) = bn_add_words m r r tmp maximum
         in m))"

function (sequential) bn_sqr_recursive :: "words \<Rightarrow> nat \<Rightarrow> nat \<Rightarrow> nat \<Rightarrow> nat \<Rightarrow> words option" where
  "bn_sqr_recursive m r a n2 t = do {
     c_assert (n2 \<noteq> 0 \<and> n2 AND (n2 - 1) = 0);
     if n2 = 4 then Some (bn_sqr_comba4 m r a)
     else if n2 = 8 then Some (bn_sqr_comba8 m r a)
     else if n2 < BN_MUL_RECURSIVE_SIZE_NORMAL then Some (bn_sqr_normal m r a n2 t)
     else do {
       let n = n2 div 2;
       let t_recursive = t + n2 * 2;
       let m = bn_abs_sub_words m t a (a + n) n (t + n);
       m \<leftarrow> bn_sqr_recursive m (t + n2) t n t_recursive;
       m \<leftarrow> bn_sqr_recursive m r a n t_recursive;
       m \<leftarrow> bn_sqr_recursive m (r + n2) (a + n) n t_recursive;
       let (m, c) = bn_add_words m t r (r + n2) n2;
       let (m, bw) = bn_sub_words m (t + n2) t (t + n2) n2;
       let c = c - bw;
       let (m, cy) = bn_add_words m (r + n) (r + n) (t + n2) n2;
       let c = c + cy;
       let (m, c) = carry_on m (r + n + n2) (n2 - n) c;
       c_assert (c = 0);
       Some m
     }
   }"
  by pat_completeness auto
termination
  by (relation "measure (\<lambda>(_, _, _, n2, _). n2)") (auto simp: BN_MUL_RECURSIVE_SIZE_NORMAL_def)

declare bn_sqr_recursive.simps [simp del]

end
