(* ===== verification/Bn_Comba.thy ===== *)
theory Bn_Comba
  imports Bn_Words_Correct
begin

unbundle bit_operations_syntax

text \<open>
  The Comba multiplications of \<open>generic.c\<close> compute products: the three-word accumulator never overflows, and the columns
  list every pair of word indices once.
\<close>

section \<open>The accumulator\<close>

fun acc_val :: "acc3 \<Rightarrow> nat" where
  "acc_val (c0, c1, c2) = unat c0 + 2 ^ 64 * unat c1 + 2 ^ 128 * unat c2"

lemma add_overflows: "x + y < y \<longleftrightarrow> 2 ^ 64 \<le> unat x + unat y" "unat (x + y) = unat x + unat y - (if x + y < y then 2 ^ 64 else 0)"
  for x y :: u64
  using unat_u64_less [of x] unat_u64_less [of y] by (auto simp: word_less_nat_alt unat_plus_if')

lemma mul_add_c:
  assumes "acc_val acc + unat a * unat b < 2 ^ 192"
  shows "acc_val (mul_add_c a b acc) = acc_val acc + unat a * unat b"
proof -
  obtain c0 c1 c2 where acc: "acc = (c0, c1, c2)" by (metis surj_pair)
  let ?t = "ucast a * ucast b + ucast c0 :: u128"
  let ?o = "if c1 + Hw ?t < Hw ?t then 1 else 0 :: u64"
  have t: "unat (Lw ?t) + 2 ^ 64 * unat (Hw ?t) = unat a * unat b + unat c0" using two_words [of ?t] by (simp add: unat_product_128)
  have c1: "unat (c1 + Hw ?t) + 2 ^ 64 * unat ?o = unat c1 + unat (Hw ?t)"
    using add_overflows [of c1 "Hw ?t"] by auto
  have "unat c0 + 2 ^ 64 * unat c1 + 2 ^ 128 * unat c2 + unat a * unat b =
      unat (Lw ?t) + 2 ^ 64 * (unat c1 + unat (Hw ?t)) + 2 ^ 128 * unat c2" using t by (simp add: algebra_simps)
  also have "\<dots> = unat (Lw ?t) + 2 ^ 64 * unat (c1 + Hw ?t) + 2 ^ 128 * (unat c2 + unat ?o)"
    using c1 by (simp add: algebra_simps)
  finally have total: "acc_val acc + unat a * unat b =
      unat (Lw ?t) + 2 ^ 64 * unat (c1 + Hw ?t) + 2 ^ 128 * (unat c2 + unat ?o)" by (simp add: acc)
  then have "2 ^ 128 * (unat c2 + unat ?o) < 2 ^ 192" using assms by linarith
  then have "unat c2 + unat ?o < 2 ^ 64" by (cases "unat c2 + unat ?o < 2 ^ 64") auto
  then have "unat (c2 + ?o) = unat c2 + unat ?o" by (auto simp: unat_plus_if' split: if_splits)
  then show ?thesis using total by (simp add: acc mul_add_c_def Let_def)
qed

lemma mul_add_c2_twice: "mul_add_c2 a b acc = mul_add_c a b (mul_add_c a b acc)"
  by (cases acc) (simp add: mul_add_c2_def mul_add_c_def Let_def)

lemma sqr_add_c_mul: "sqr_add_c m a i = mul_add_c (m (a + i)) (m (a + i))"
  by (simp add: sqr_add_c_def mul_add_c_def)

section \<open>Columns\<close>

definition col_sum :: "words \<Rightarrow> nat \<Rightarrow> nat \<Rightarrow> (nat \<times> nat) list \<Rightarrow> nat" where
  "col_sum m a b col = (\<Sum>(i, j)\<leftarrow>col. unat (m (a + i)) * unat (m (b + j)))"

lemma mul_term_column:
  assumes "acc_val acc + length col * 2 ^ 128 \<le> 2 ^ 192"
  shows "acc_val (fold (mul_term a b m) col acc) = acc_val acc + col_sum m a b col"
  using assms
proof (induction col arbitrary: acc)
  case (Cons p col)
  obtain i j where p: "p = (i, j)" by fastforce
  have "unat (m (a + i)) * unat (m (b + j)) < 2 ^ 128"
    using u64_product [of "m (a + i)" "m (b + j)"] by simp
  then have "acc_val acc + unat (m (a + i)) * unat (m (b + j)) + length col * 2 ^ 128 \<le> 2 ^ 192"
    "acc_val acc + unat (m (a + i)) * unat (m (b + j)) < 2 ^ 192" using Cons.prems by simp_all
  then show ?case using Cons.IH [of "mul_add_c (m (a + i)) (m (b + j)) acc"]
    by (simp add: p mul_term_def col_sum_def mul_add_c)
qed (simp add: col_sum_def)

text \<open>A square adds the products off the diagonal twice.\<close>

definition mirror :: "(nat \<times> nat) list \<Rightarrow> (nat \<times> nat) list" where
  "mirror col = concat (map (\<lambda>(i, j). if i = j then [(i, j)] else [(i, j), (j, i)]) col)"

lemma mul_add_c_commute: "mul_add_c a b = mul_add_c b a"
  by (rule ext) (simp add: mul_add_c_def mult.commute)

lemma sqr_term_mirror: "fold (sqr_term a m) col acc = fold (mul_term a a m) (mirror col) acc"
  by (induction col arbitrary: acc)
    (auto simp: mirror_def sqr_term_def mul_term_def sqr_add_c_mul sqr_add_c2_def mul_add_c2_twice
      mul_add_c_commute [of "m (a + _)" "m (a + _)"])

fun cols_val :: "words \<Rightarrow> nat \<Rightarrow> nat \<Rightarrow> (nat \<times> nat) list list \<Rightarrow> nat" where
  "cols_val m a b [] = 0"
| "cols_val m a b (col # cols) = col_sum m a b col + 2 ^ 64 * cols_val m a b cols"

lemma col_sum_cong:
  assumes "\<And>i. i < n \<Longrightarrow> m' (a + i) = m (a + i) \<and> m' (b + i) = m (b + i)" "set col \<subseteq> {..<n} \<times> {..<n}"
  shows "col_sum m' a b col = col_sum m a b col"
proof -
  have "map (\<lambda>(i, j). unat (m' (a + i)) * unat (m' (b + j))) col = map (\<lambda>(i, j). unat (m (a + i)) * unat (m (b + j))) col"
    using assms by (auto simp: subset_iff)
  then show ?thesis by (simp only: col_sum_def)
qed

lemma cols_val_cong:
  assumes "\<And>i. i < n \<Longrightarrow> m' (a + i) = m (a + i) \<and> m' (b + i) = m (b + i)" "\<forall>col \<in> set cols. set col \<subseteq> {..<n} \<times> {..<n}"
  shows "cols_val m' a b cols = cols_val m a b cols"
  using assms(2) by (induction cols) (use col_sum_cong [OF assms(1)] in auto)

text \<open>The columns in memory, up to what is left in the accumulator.\<close>

lemma comba_columns_mul:
  assumes "\<forall>col \<in> set cols. length col \<le> 16 \<and> set col \<subseteq> {..<n} \<times> {..<n}" "acc_val acc \<le> 2 ^ 128"
    "r + length cols < a \<or> a + n \<le> r" "r + length cols < b \<or> b + n \<le> r"
  shows "(\<exists>X. num_at (comba_columns (mul_term a b) m r cols acc) r (Suc (length cols)) + 2 ^ (64 * Suc (length cols)) * X =
      acc_val acc + cols_val m a b cols) \<and>
    same_but r (Suc (length cols)) m (comba_columns (mul_term a b) m r cols acc)"
  using assms
proof (induction cols arbitrary: m r acc)
  case Nil
  obtain c0 c1 c2 where acc: "acc = (c0, c1, c2)" by (metis surj_pair)
  have "num_at (m(r := c0)) r 1 + 2 ^ 64 * (unat c1 + 2 ^ 64 * unat c2) = acc_val acc" by (simp add: acc num_at_def)
  then have "\<exists>X. num_at (m(r := c0)) r 1 + 2 ^ 64 * X = acc_val acc" by blast
  moreover have "same_but r 1 m (m(r := c0))" by (auto simp: same_but_def)
  ultimately show ?case by (simp add: acc fun_upd_def)
next
  case (Cons col cols)
  obtain c0 c1 c2 where fold: "fold (mul_term a b m) col acc = (c0, c1, c2)" by (metis surj_pair)
  define m1 where "m1 = m(r := c0)"
  define m2 where "m2 = comba_columns (mul_term a b) m1 (r + 1) cols (c1, c2, 0)"
  have "acc_val acc + length col * 2 ^ 128 \<le> 17 * 2 ^ 128" using Cons.prems(1,2) by simp
  then have v: "unat c0 + 2 ^ 64 * acc_val (c1, c2, 0) = acc_val acc + col_sum m a b col"
    using mul_term_column [of acc col a b m] fold by simp
  have "acc_val (c1, c2, 0) \<le> 2 ^ 128" using unat_u64_le [of c1] unat_u64_le [of c2] by simp
  then have IH: "\<exists>X. num_at m2 (r + 1) (Suc (length cols)) + 2 ^ (64 * Suc (length cols)) * X =
      acc_val (c1, c2, 0) + cols_val m1 a b cols" "same_but (r + 1) (Suc (length cols)) m1 m2"
    using Cons.IH [of "(c1, c2, 0)" "r + 1" m1] Cons.prems by (auto simp: m2_def)
  have res: "comba_columns (mul_term a b) m r (col # cols) acc = m2" by (simp add: fold m1_def m2_def)
  have "cols_val m1 a b cols = cols_val m a b cols"
    by (rule cols_val_cong [of n]) (use Cons.prems in \<open>auto simp: m1_def\<close>)
  moreover have "m2 r = c0" using IH(2) by (simp add: same_but_def m1_def)
  moreover obtain X where "num_at m2 (r + 1) (Suc (length cols)) + 2 ^ (64 * Suc (length cols)) * X =
      acc_val (c1, c2, 0) + cols_val m1 a b cols" using IH(1) by blast
  ultimately have "num_at m2 r (Suc (Suc (length cols))) + 2 ^ (64 * Suc (Suc (length cols))) * X =
      unat c0 + 2 ^ 64 * (acc_val (c1, c2, 0) + cols_val m a b cols)"
    using num_at_Cons [of m2 r "Suc (length cols)"] by (simp add: algebra_simps power_add)
  also have "\<dots> = acc_val acc + cols_val m a b (col # cols)" using v by (simp add: algebra_simps)
  finally have "\<exists>X. num_at m2 r (Suc (Suc (length cols))) + 2 ^ (64 * Suc (Suc (length cols))) * X =
      acc_val acc + cols_val m a b (col # cols)" ..
  moreover have "same_but r (Suc (Suc (length cols))) m m2" using IH(2) by (auto simp: same_but_def m1_def)
  ultimately show ?case unfolding res by simp
qed

section \<open>The tables\<close>

text \<open>Columns of a product of \<open>n\<close> words: every pair once, in the column of its weight.\<close>

definition product_columns :: "nat \<Rightarrow> (nat \<times> nat) list list \<Rightarrow> bool" where
  "product_columns n cols \<longleftrightarrow> list_all (list_all (\<lambda>(i, j). i < n \<and> j < n)) cols \<and>
     list_all (\<lambda>(k, col). list_all (\<lambda>(i, j). i + j = k) col) (zip [0..<length cols] cols) \<and>
     list_all (\<lambda>col. length col \<le> 16) cols \<and> length (concat cols) = n * n \<and>
     list_all (\<lambda>i. list_all (\<lambda>j. List.member (concat cols) (i, j)) [0..<n]) [0..<n]"

lemma cols_val_concat:
  assumes "\<And>k p. k < length cols \<Longrightarrow> p \<in> set (cols ! k) \<Longrightarrow> fst p + snd p = s + k"
  shows "2 ^ (64 * s) * cols_val m a b cols =
    (\<Sum>(i, j)\<leftarrow>concat cols. unat (m (a + i)) * 2 ^ (64 * i) * (unat (m (b + j)) * 2 ^ (64 * j)))"
  using assms
proof (induction cols arbitrary: s)
  case (Cons col cols)
  have "p \<in> set col \<Longrightarrow> fst p + snd p = s" for p using Cons.prems [of 0 p] by simp
  then have "2 ^ (64 * s) * col_sum m a b col =
      (\<Sum>(i, j)\<leftarrow>col. unat (m (a + i)) * 2 ^ (64 * i) * (unat (m (b + j)) * 2 ^ (64 * j)))"
    unfolding col_sum_def
  proof (induction col)
    case (Cons p col)
    then have "64 * s = 64 * fst p + 64 * snd p" by (metis add_mult_distrib2 list.set_intros(1))
    then have "2 ^ (64 * s) = 2 ^ (64 * fst p) * (2 ^ (64 * snd p) :: nat)" by (simp add: power_add)
    then show ?case using Cons by (simp add: case_prod_beta algebra_simps)
  qed simp
  moreover have "2 ^ (64 * Suc s) * cols_val m a b cols =
      (\<Sum>(i, j)\<leftarrow>concat cols. unat (m (a + i)) * 2 ^ (64 * i) * (unat (m (b + j)) * 2 ^ (64 * j)))"
    using Cons.IH [of "Suc s"] Cons.prems [of "Suc _"] by simp
  ultimately show ?case by (simp add: algebra_simps power_add)
qed simp

lemma cols_val_product:
  assumes "product_columns n cols"
  shows "cols_val m a b cols = num_at m a n * num_at m b n"
proof -
  let ?t = "\<lambda>(i, j). unat (m (a + i)) * 2 ^ (64 * i) * (unat (m (b + j)) * 2 ^ (64 * j))"
  have k: "fst p + snd p = 0 + k" if "k < length cols" "p \<in> set (cols ! k)" for k p
  proof -
    have "(k, cols ! k) \<in> set (zip [0..<length cols] cols)" using that(1) by (auto simp: set_zip intro!: exI [of _ k])
    then show ?thesis using assms that(2) by (cases p) (fastforce simp: product_columns_def list_all_iff)
  qed
  have set: "set (concat cols) = {..<n} \<times> {..<n}"
    using assms by (fastforce simp: product_columns_def list_all_iff)
  then have "card (set (concat cols)) = length (concat cols)" using assms by (simp add: product_columns_def)
  then have "distinct (concat cols)" by (rule card_distinct)
  then have "cols_val m a b cols = sum ?t ({..<n} \<times> {..<n})"
    using cols_val_concat [of cols 0 m a b, OF k] set by (simp add: sum_list_distinct_conv_sum_set)
  also have "\<dots> = num_at m a n * num_at m b n"
    by (simp add: num_at_def sum_product sum.cartesian_product)
  finally show ?thesis .
qed

lemma comba_product:
  assumes "product_columns n cols" "Suc (length cols) = 2 * n" "r + 2 * n \<le> a \<or> a + n \<le> r" "r + 2 * n \<le> b \<or> b + n \<le> r"
  shows "num_at (comba_columns (mul_term a b) m r cols (0, 0, 0)) r (2 * n) = num_at m a n * num_at m b n"
    "same_but r (2 * n) m (comba_columns (mul_term a b) m r cols (0, 0, 0))"
proof -
  have "\<forall>col \<in> set cols. length col \<le> 16 \<and> set col \<subseteq> {..<n} \<times> {..<n}"
    using assms(1) by (fastforce simp: product_columns_def list_all_iff)
  note c = comba_columns_mul [OF this, of "(0, 0, 0)" r a b m]
  then obtain X where X: "num_at (comba_columns (mul_term a b) m r cols (0, 0, 0)) r (2 * n) + 2 ^ (64 * (2 * n)) * X =
      num_at m a n * num_at m b n"
    using assms(2-4) by (auto simp: cols_val_product [OF assms(1)])
  have "num_at m a n * num_at m b n < 2 ^ (64 * n) * 2 ^ (64 * n)"
    using num_at_bound [of m a n] num_at_bound [of m b n] by (intro mult_strict_mono) simp_all
  also have "\<dots> = 2 ^ (64 * (2 * n))" by (simp flip: power_add)
  finally have "X = 0" using X by (cases X) auto
  then show "num_at (comba_columns (mul_term a b) m r cols (0, 0, 0)) r (2 * n) = num_at m a n * num_at m b n" using X by simp
  show "same_but r (2 * n) m (comba_columns (mul_term a b) m r cols (0, 0, 0))" using c assms(2-4) by auto
qed

lemma comba_sqr: "comba_columns (sqr_term a) m r cols acc = comba_columns (mul_term a a) m r (map mirror cols) acc"
  by (induction cols arbitrary: m r acc) (auto simp: sqr_term_mirror Let_def case_prod_beta)

lemma tables: "product_columns 8 mul_table8" "product_columns 4 mul_table4"
    "product_columns 8 (map mirror sqr_table8)" "product_columns 4 (map mirror sqr_table4)"
  by code_simp+

lemma table_lengths: "length mul_table8 = 15" "length mul_table4 = 7" "length sqr_table8 = 15" "length sqr_table4 = 7"
  by (simp_all add: mul_table8_def mul_table4_def sqr_table8_def sqr_table4_def)

lemma bn_mul_comba8:
  assumes "r + 16 \<le> a \<or> a + 8 \<le> r" "r + 16 \<le> b \<or> b + 8 \<le> r"
  shows "num_at (bn_mul_comba8 m r a b) r 16 = num_at m a 8 * num_at m b 8" "same_but r 16 m (bn_mul_comba8 m r a b)"
  using comba_product [OF tables(1), of r a b m] assms by (simp_all add: bn_mul_comba8_def table_lengths)

lemma bn_mul_comba4:
  assumes "r + 8 \<le> a \<or> a + 4 \<le> r" "r + 8 \<le> b \<or> b + 4 \<le> r"
  shows "num_at (bn_mul_comba4 m r a b) r 8 = num_at m a 4 * num_at m b 4" "same_but r 8 m (bn_mul_comba4 m r a b)"
  using comba_product [OF tables(2), of r a b m] assms by (simp_all add: bn_mul_comba4_def table_lengths)

lemma bn_sqr_comba8:
  assumes "r + 16 \<le> a \<or> a + 8 \<le> r"
  shows "num_at (bn_sqr_comba8 m r a) r 16 = num_at m a 8 * num_at m a 8" "same_but r 16 m (bn_sqr_comba8 m r a)"
  using comba_product [OF tables(3), of r a a m] assms by (simp_all add: bn_sqr_comba8_def comba_sqr table_lengths)

lemma bn_sqr_comba4:
  assumes "r + 8 \<le> a \<or> a + 4 \<le> r"
  shows "num_at (bn_sqr_comba4 m r a) r 8 = num_at m a 4 * num_at m a 4" "same_but r 8 m (bn_sqr_comba4 m r a)"
  using comba_product [OF tables(4), of r a a m] assms by (simp_all add: bn_sqr_comba4_def comba_sqr table_lengths)

end
