(* ===== verification/Bn_Mul_Words.thy ===== *)
theory Bn_Mul_Words
  imports Bn_Mul Bn_Add Bn_Comba
begin

unbundle bit_operations_syntax

text \<open>
  The multiplications of \<open>mul.c\<close> on words compute products: the schoolbook loops, the two Karatsuba recursions with their
  scratch space, and the squares. Every assertion of the code holds and every call returns.
\<close>

section \<open>Separate arrays\<close>

definition sep :: "nat \<Rightarrow> nat \<Rightarrow> nat \<Rightarrow> nat \<Rightarrow> bool" where
  "sep p n q k \<longleftrightarrow> p + n \<le> q \<or> q + k \<le> p"

lemma sep_sym: "sep p n q k \<Longrightarrow> sep q k p n"
  by (auto simp: sep_def)

lemma sep_part: "sep p n q k \<Longrightarrow> p \<le> p' \<Longrightarrow> p' + n' \<le> p + n \<Longrightarrow> q \<le> q' \<Longrightarrow> q' + k' \<le> q + k \<Longrightarrow> sep p' n' q' k'"
  by (auto simp: sep_def)

lemma sep_may_read: "sep r n a k \<Longrightarrow> k \<le> n \<Longrightarrow> may_read r a k"
  by (auto simp: sep_def may_read_def)

lemma sep_may_read': "sep r n a k \<Longrightarrow> k' \<le> k \<Longrightarrow> 0 < n \<Longrightarrow> may_read r a k'"
  by (auto simp: sep_def may_read_def)

lemma num_at_apart: "same_but r n m m' \<Longrightarrow> sep r n p k \<Longrightarrow> num_at m' p k = num_at m p k"
  using same_but_num [of r n m m' p k] by (auto simp: sep_def)

text \<open>Memory that agrees outside two arrays.\<close>

definition same_but2 :: "nat \<Rightarrow> nat \<Rightarrow> nat \<Rightarrow> nat \<Rightarrow> words \<Rightarrow> words \<Rightarrow> bool" where
  "same_but2 r n t k m m' \<longleftrightarrow> (\<forall>x. (x < r \<or> r + n \<le> x) \<and> (x < t \<or> t + k \<le> x) \<longrightarrow> m' x = m x)"

lemma same_but2_trans: "same_but2 r n t k m m' \<Longrightarrow> same_but2 r n t k m' m'' \<Longrightarrow> same_but2 r n t k m m''"
  by (simp add: same_but2_def)

lemma same_but2_left: "same_but p l m m' \<Longrightarrow> r \<le> p \<Longrightarrow> p + l \<le> r + n \<Longrightarrow> same_but2 r n t k m m'"
  by (auto simp: same_but_def same_but2_def)

lemma same_but2_same: "same_but r n m m' \<Longrightarrow> same_but2 r n t k m m'"
  by (auto simp: same_but_def same_but2_def)

lemma same_but2_right: "same_but p l m m' \<Longrightarrow> t \<le> p \<Longrightarrow> p + l \<le> t + k \<Longrightarrow> same_but2 r n t k m m'"
  by (auto simp: same_but_def same_but2_def)

lemma num_at_apart2: "same_but2 r n t k m m' \<Longrightarrow> sep r n p l \<Longrightarrow> sep t k p l \<Longrightarrow> num_at m' p l = num_at m p l"
  by (rule num_at_cong) (auto simp: same_but2_def sep_def)

lemma words_zero: "num_at (words_zero m p n) p n = 0" "same_but p n m (words_zero m p n)"
  by (auto simp: num_at_zero_iff words_zero_def same_but_def)

lemma words_zero_0: "words_zero m p 0 = m"
  by (rule ext) (auto simp: words_zero_def)

lemma num_at_less: "num_at m p n < 2 ^ (64 * k)" if "n \<le> k"
proof -
  have "(2 :: nat) ^ (64 * n) \<le> 2 ^ (64 * k)" using that by (intro power_increasing) simp_all
  then show ?thesis using num_at_bound [of m p n] by linarith
qed

section \<open>The schoolbook product\<close>

lemma mul_normal_rows:
  assumes "num_at m r (na + j) = num_at m a na * num_at m b j" "sep r (na + (j + n)) a na" "sep r (na + (j + n)) b (j + n)"
  shows "num_at (mul_normal_rows m r a na b j n) r (na + (j + n)) = num_at m a na * num_at m b (j + n) \<and>
    same_but r (na + (j + n)) m (mul_normal_rows m r a na b j n)"
  using assms
proof (induction n arbitrary: m j)
  case (Suc n)
  let ?w = "m (b + j)"
  obtain m1 c where 1: "bn_mul_add_words m (r + j) a na ?w = (m1, c)" by fastforce
  define m2 where "m2 = m1(r + na + j := c)"
  have "may_read (r + j) a na" using Suc.prems(2) by (auto simp: sep_def may_read_def)
  note v = bn_mul_add_words [OF 1 this]
  have s: "same_but r (na + Suc j) m m2" using v(2) by (auto simp: m2_def same_but_def)
  have keep: "num_at m2 a na = num_at m a na" "k \<le> j + Suc n \<Longrightarrow> num_at m2 b k = num_at m b k" for k
    using s Suc.prems(2,3) by (intro num_at_apart [OF s]; auto simp: sep_def)+
  have "num_at m2 r j = num_at m r j" using v(2) by (intro num_at_cong) (auto simp: m2_def same_but_def)
  moreover have "num_at m2 (r + j) na = num_at m1 (r + j) na" by (rule num_at_cong) (simp add: m2_def)
  moreover have "m2 (r + j + na) = c" by (simp add: m2_def add.commute add.left_commute)
  ultimately have "num_at m2 r (j + Suc na) = num_at m r j + 2 ^ (64 * j) * (num_at m1 (r + j) na + 2 ^ (64 * na) * unat c)"
    using num_at_append [of m2 r j "Suc na"] by (simp add: num_simps)
  also have "\<dots> = num_at m r (j + na) + 2 ^ (64 * j) * (unat ?w * num_at m a na)"
    unfolding v(1) num_at_append by (simp add: algebra_simps)
  also have "num_at m r (j + na) = num_at m a na * num_at m b j" using Suc.prems(1) by (simp only: add.commute)
  also have "num_at m a na * num_at m b j + 2 ^ (64 * j) * (unat ?w * num_at m a na) = num_at m a na * num_at m b (Suc j)"
    by (simp add: num_at_snoc algebra_simps)
  finally have "num_at m2 r (na + Suc j) = num_at m2 a na * num_at m2 b (Suc j)" using keep by (simp add: add.commute)
  moreover have "mul_normal_rows m r a na b j (Suc n) = mul_normal_rows m2 r a na b (Suc j) n" by (simp add: 1 m2_def)
  ultimately show ?case using Suc.IH [of m2 "Suc j"] Suc.prems(2,3) keep s by (auto simp: same_but_def)
qed simp

lemma bn_mul_normal:
  assumes "sep r (na + nb) a na" "sep r (na + nb) b nb"
  shows "num_at (bn_mul_normal m r a na b nb) r (na + nb) = num_at m a na * num_at m b nb"
    "same_but r (na + nb) m (bn_mul_normal m r a na b nb)"
proof -
  have main: "num_at (bn_mul_normal m r a na b nb) r (na + nb) = num_at m a na * num_at m b nb \<and>
      same_but r (na + nb) m (bn_mul_normal m r a na b nb)" if "nb \<le> na" "sep r (na + nb) a na" "sep r (na + nb) b nb" for a na b nb
  proof (cases nb)
    case 0
    then show ?thesis using words_zero by (simp add: bn_mul_normal_def)
  next
    case (Suc k)
    obtain m1 c where 1: "bn_mul_words m r a na (m b) = (m1, c)" by fastforce
    define m2 where "m2 = m1(r + na := c)"
    have "may_read r a na" using that(2) by (auto simp: sep_def may_read_def)
    note v = bn_mul_words [OF 1 this]
    have s: "same_but r (na + 1) m m2" using v(2) by (auto simp: m2_def same_but_def)
    have keep: "num_at m2 a na = num_at m a na" "l \<le> nb \<Longrightarrow> num_at m2 b l = num_at m b l" for l
      using s that Suc by (intro num_at_apart [OF s]; auto simp: sep_def)+
    have "num_at m2 r na = num_at m1 r na" by (rule num_at_cong) (simp add: m2_def)
    moreover have "num_at m2 b 1 = unat (m b)" using keep(2) [of 1] Suc by (simp add: num_at_def)
    ultimately have "num_at m2 r (na + 1) = num_at m2 a na * num_at m2 b 1"
      using v(1) keep(1) by (simp add: num_simps m2_def mult.commute)
    from mul_normal_rows [OF this, of k] have
      "num_at (mul_normal_rows m2 r a na b 1 k) r (na + nb) = num_at m a na * num_at m b nb"
      "same_but r (na + nb) m2 (mul_normal_rows m2 r a na b 1 k)" using that(2,3) keep Suc by simp_all
    moreover have "bn_mul_normal m r a na b nb = mul_normal_rows m2 r a na b 1 k"
      using that(1) Suc by (simp add: bn_mul_normal_def 1 m2_def)
    ultimately show ?thesis using s Suc by (auto simp: same_but_def)
  qed
  have swap: "bn_mul_normal m r a na b nb = bn_mul_normal m r b nb a na" if "na < nb"
    using that by (simp add: bn_mul_normal_def)
  show "num_at (bn_mul_normal m r a na b nb) r (na + nb) = num_at m a na * num_at m b nb"
    "same_but r (na + nb) m (bn_mul_normal m r a na b nb)"
    using main [of nb na a b] main [of na nb b a] swap assms
    by (cases "na < nb"; simp add: add.commute mult.commute)+
qed

section \<open>Absolute differences\<close>

lemma bn_sub_part_words:
  assumes "bn_sub_part_words m r a b cl dl = (m', c)" "la = cl + nat dl" "lb = cl + nat (- dl)" "len = cl + nat \<bar>dl\<bar>"
    "may_read r a la" "may_read r b lb"
  shows "num_at m' r len + num_at m b lb = num_at m a la + 2 ^ (64 * len) * unat c" "same_but r len m m'" "unat c \<le> 1"
proof -
  obtain m1 c1 where 1: "bn_sub_words m r a b cl = (m1, c1)" by fastforce
  have "num_at m' r len + num_at m b lb = num_at m a la + 2 ^ (64 * len) * unat c \<and> same_but r len m m' \<and> unat c \<le> 1"
  proof (cases "dl \<ge> 0")
    case True
    then have "subc_rest m1 (r + cl) (a + cl) (la - cl) c1 = (m', c)" 
      using assms(1,2) 1 by (auto simp: bn_sub_part_words_def subc_rest_def Let_def split: if_splits)
    from words_usub [OF 1 this] show ?thesis using True assms by simp
  next
    case False
    note s = bn_sub_words [OF 1]
    have rd: "may_read r a cl" "may_read r b cl" using assms(2,3,5,6) may_read_shorter [of r a la cl] may_read_shorter [of r b lb cl] by simp_all
    let ?k = "nat (- dl)"
    have w: "words_rest (negator.put (b + cl) (r + cl)) m1 0 ?k c1 = (m', c)"
      using assms(1) 1 False by (simp add: bn_sub_part_words_def negator.put_def [abs_def] split: if_splits)
    have tail: "may_read (r + cl) (b + cl) ?k" using may_read_tail [OF assms(6), of cl] assms(3) by simp
    have rd': "k < ?k \<Longrightarrow> same_but (r + cl) k m1 m2 \<Longrightarrow> m2 (b + cl + k) = m1 (b + cl + k)" for k m2
      using tail by (simp add: may_readD)
    have v: "num_at m' (r + cl) ?k + num_at m1 (b + cl) ?k + unat c1 = 2 ^ (64 * ?k) * unat c"
      using negator.chain(1) [OF w s(3) [OF rd]] rd'
      by (intro word_intI) (simp add: num_at_int sum_negf)
    have f: "same_but (r + cl) ?k m1 m'" "unat c \<le> 1" using negator.chain(2,3) [OF w s(3) [OF rd]] rd' by simp_all
    have b: "num_at m1 (b + cl) ?k = num_at m (b + cl) ?k"
      using same_but_tail [OF s(2) [OF rd] assms(6), of] assms(3) by simp
    have r: "num_at m' r cl = num_at m1 r cl" using f(1) by (auto intro!: num_at_cong simp: same_but_def)
    have len: "len = cl + ?k" "la = cl" "lb = cl + ?k" using assms(2-4) False by simp_all
    have "num_at m' r len + num_at m b lb = num_at m1 r cl + num_at m b cl + 2 ^ (64 * cl) * (num_at m' (r + cl) ?k + num_at m (b + cl) ?k)"
      unfolding len num_at_append r by (simp add: algebra_simps)
    also have "\<dots> = num_at m a cl + 2 ^ (64 * cl) * (num_at m' (r + cl) ?k + num_at m (b + cl) ?k + unat c1)"
      unfolding s(1) [OF rd] by (simp add: algebra_simps)
    also have "num_at m' (r + cl) ?k + num_at m (b + cl) ?k + unat c1 = 2 ^ (64 * ?k) * unat c" using v unfolding b .
    finally have "num_at m' r len + num_at m b lb = num_at m a la + 2 ^ (64 * len) * unat c"
      unfolding len by (simp add: power_add distrib_left mult.assoc)
    moreover have "same_but r len m m'" using s(2) [OF rd] f(1) len by (auto simp: same_but_def)
    ultimately show ?thesis using f(2) by blast
  qed
  then show "num_at m' r len + num_at m b lb = num_at m a la + 2 ^ (64 * len) * unat c" "same_but r len m m'" "unat c \<le> 1" by auto
qed

text \<open>A borrow says which number is larger.\<close>

lemma borrow_iff:
  assumes "x + b = a + 2 ^ (64 * n) * unat c" "unat (c :: u64) \<le> 1" "x < 2 ^ (64 * n)" "a < 2 ^ (64 * n)" "b < (2 :: nat) ^ (64 * n)"
  shows "c = (if a < b then 1 else 0)" "a < b \<Longrightarrow> x = a + 2 ^ (64 * n) - b" "b \<le> a \<Longrightarrow> x = a - b"
  using assms bit_carry [OF assms(2)] by auto

lemma abs_sub_part_words:
  assumes "bn_abs_sub_part_words m r a b cl dl tmp = (m', msk)" "la = cl + nat dl" "lb = cl + nat (- dl)" "len = cl + nat \<bar>dl\<bar>"
    "sep r len tmp len" "may_read r a la" "may_read r b lb" "sep tmp len a la" "sep tmp len b lb"
  shows "int (num_at m' r len) = \<bar>int (num_at m a la) - int (num_at m b lb)\<bar>"
    "msk = (if num_at m a la < num_at m b lb then - 1 else 0)" "same_but2 r len tmp len m m'"
proof -
  obtain m1 c where 1: "bn_sub_part_words m tmp a b cl dl = (m1, c)" by fastforce
  obtain m2 c2 where 2: "bn_sub_part_words m1 r b a cl (- dl) = (m2, c2)" by fastforce
  have m': "m' = bn_select_words m2 r (0 - c) r tmp len" "msk = 0 - c"
    using assms(1,4) 1 2 by (auto simp: bn_abs_sub_part_words_def Let_def)
  have ll: "la \<le> len" "lb \<le> len" using assms(2-4) by auto
  have small: "num_at m a la < 2 ^ (64 * len)" "num_at m b lb < 2 ^ (64 * len)" using num_at_less ll by blast+
  note s1 = bn_sub_part_words [OF 1 assms(2-4) sep_may_read [OF assms(8) ll(1)] sep_may_read [OF assms(9) ll(2)]]
  note b1 = borrow_iff [OF s1(1,3) num_at_bound small]
  have r2: "lb = cl + nat (- dl)" "la = cl + nat (- (- dl))" "len = cl + nat \<bar>- dl\<bar>" using assms(2-4) by simp_all
  note s2 = bn_sub_part_words [OF 2 r2 assms(7,6)]
  have keep: "num_at m1 a la = num_at m a la" "num_at m1 b lb = num_at m b lb"
    using num_at_apart [OF s1(2)] assms(8,9) by blast+
  note b2 = borrow_iff [OF s2(1,3) num_at_bound, unfolded keep, OF small(2,1)]
  have tmp: "num_at m2 tmp len = num_at m1 tmp len" by (rule num_at_apart [OF s2(2) assms(5)])
  have msk: "msk = 0 \<or> msk = - 1" "msk = 0 \<longleftrightarrow> num_at m b lb \<le> num_at m a la" using b1(1) by (auto simp: m'(2))
  note sel = bn_select_words [OF msk(1) may_read_refl sep_may_read [OF assms(5) order_refl], of m2, folded m'(2)]
  have v: "num_at m' r len = (if msk = 0 then num_at m1 tmp len else num_at m2 r len)"
    using sel(1) tmp by (simp add: m')
  show "int (num_at m' r len) = \<bar>int (num_at m a la) - int (num_at m b lb)\<bar>"
    unfolding v using b1(3) b2(3) msk(2) by auto
  show "msk = (if num_at m a la < num_at m b lb then - 1 else 0)" using b1(1) by (simp add: m'(2))
  show "same_but2 r len tmp len m m'" using s1(2) s2(2) sel(2) by (auto simp: m' same_but_def same_but2_def)
qed

lemma bn_abs_sub_part_words:
  assumes "bn_abs_sub_part_words m r a b cl dl tmp = (m', msk)" "la = cl + nat dl" "lb = cl + nat (- dl)" "len = cl + nat \<bar>dl\<bar>"
    "sep r len tmp len" "sep r len a la" "sep r len b lb" "sep tmp len a la" "sep tmp len b lb"
  shows "int (num_at m' r len) = \<bar>int (num_at m a la) - int (num_at m b lb)\<bar>"
    "msk = (if num_at m a la < num_at m b lb then - 1 else 0)" "same_but2 r len tmp len m m'"
proof -
  have "la \<le> len" "lb \<le> len" using assms(2-4) by auto
  note abs_sub_part_words [OF assms(1-5) sep_may_read [OF assms(6) this(1)] sep_may_read [OF assms(7) this(2)] assms(8,9)]
  then show "int (num_at m' r len) = \<bar>int (num_at m a la) - int (num_at m b lb)\<bar>"
    "msk = (if num_at m a la < num_at m b lb then - 1 else 0)" "same_but2 r len tmp len m m'" by blast+
qed

section \<open>Karatsuba's middle term\<close>

lemma carry_on:
  assumes "carry_on m r n c = (m', c')"
  shows "num_at m' r n + 2 ^ (64 * n) * unat c' = num_at m r n + unat c" "same_but r n m m'"
proof -
  have "num_at m' r n + 2 ^ (64 * n) * unat c' = num_at m r n + unat c \<and> same_but r n m m'"
    using assms
  proof (induction n arbitrary: m r c)
    case (Suc n)
    define m1 where "m1 = m(r := m r + c)"
    let ?c = "if m r + c < m r then 1 else 0 :: u64"
    have "carry_on m1 (r + 1) n ?c = (m', c')" using Suc.prems by (simp add: Let_def m1_def)
    note IH = Suc.IH [OF this]
    have s: "unat (m r + c) + 2 ^ 64 * unat ?c = unat (m r) + unat c"
      using unat_u64_less [of "m r"] unat_u64_less [of c] by (auto simp: word_less_nat_alt unat_plus_if' split: if_splits)
    have "num_at m1 (r + 1) n = num_at m (r + 1) n" by (rule num_at_cong) (simp add: m1_def)
    moreover have "m' r = m r + c" using IH by (simp add: same_but_def m1_def)
    ultimately have "num_at m' r (Suc n) + 2 ^ (64 * Suc n) * unat c' = unat (m r + c) + 2 ^ 64 * (num_at m (r + 1) n + unat ?c)"
      using IH by (simp add: num_at_Cons algebra_simps power_add)
    also have "\<dots> = num_at m r (Suc n) + unat c" using s unfolding num_at_Cons distrib_left by linarith
    finally show ?case using IH by (auto simp: same_but_def m1_def)
  qed simp
  then show "num_at m' r n + 2 ^ (64 * n) * unat c' = num_at m r n + unat c" "same_but r n m m'" by auto
qed

text \<open>Two carries and a borrow, as words.\<close>

lemma carry_sum: "unat (c :: u64) \<le> 2 \<Longrightarrow> unat (d :: u64) \<le> 2 \<Longrightarrow> unat (c + d) = unat c + unat d"
  by (simp add: unat_plus_if')

text \<open>Adding \<open>M\<close> in the middle of \<open>r\<close>: the common end of the recursive products and squares.\<close>

lemma add_middle:
  assumes "bn_add_words m (r + n) (r + n) p (2 * n) = (m1, cy)" "carry_on m1 (r + n + 2 * n) n (c + cy) = (m2, c')"
    "sep r (4 * n) p (2 * n)" "unat c \<le> 2" "num_at m p (2 * n) + 2 ^ (64 * (2 * n)) * unat c = M"
    "num_at m r (4 * n) + 2 ^ (64 * n) * M < 2 ^ (64 * (4 * n))"
  shows "c' = 0" "num_at m2 r (4 * n) = num_at m r (4 * n) + 2 ^ (64 * n) * M" "same_but r (4 * n) m m2"
proof -
  have rd: "may_read (r + n) p (2 * n)" using assms(3) by (auto simp: sep_def may_read_def)
  note a = bn_add_words [OF assms(1) may_read_refl rd]
  have cy: "unat (c + cy) = unat c + unat cy" using assms(4) a(3) by (intro carry_sum) simp_all
  note o = carry_on [OF assms(2), unfolded cy]
  have keep: "num_at m1 (r + n + 2 * n) n = num_at m (r + n + 2 * n) n" "num_at m2 (r + n) (2 * n) = num_at m1 (r + n) (2 * n)"
    "num_at m2 r n = num_at m r n"
    using num_at_apart [OF a(2), of "r + n + 2 * n" n] num_at_apart [OF o(2), of "r + n" "2 * n"]
      num_at_apart [OF o(2), of r n] num_at_apart [OF a(2), of r n] by (simp_all add: sep_def)
  have split: "num_at m' r (4 * n) = num_at m' r n + 2 ^ (64 * n) * (num_at m' (r + n) (2 * n) + 2 ^ (64 * (2 * n)) * num_at m' (r + n + 2 * n) n)" for m'
    using num_at_append [of m' r n "3 * n"] num_at_append [of m' "r + n" "2 * n" n] by simp
  have big: "(2 :: nat) ^ (64 * (4 * n)) = 2 ^ (64 * n) * (2 ^ (64 * (2 * n)) * 2 ^ (64 * n))" by (simp flip: power_add)
  have "num_at m2 r (4 * n) + 2 ^ (64 * (4 * n)) * unat c' = num_at m r n + 2 ^ (64 * n) * (num_at m1 (r + n) (2 * n) +
      2 ^ (64 * (2 * n)) * (num_at m2 (r + n + 2 * n) n + 2 ^ (64 * n) * unat c'))"
    unfolding split [of m2] keep(2,3) big by (simp add: algebra_simps)
  also have "\<dots> = num_at m r n + 2 ^ (64 * n) * (num_at m1 (r + n) (2 * n) + 2 ^ (64 * (2 * n)) * unat cy) +
      2 ^ (64 * n) * (2 ^ (64 * (2 * n)) * (num_at m (r + n + 2 * n) n + unat c))"
    unfolding o(1) keep(1) by (simp add: algebra_simps)
  also have "\<dots> = num_at m r (4 * n) + 2 ^ (64 * n) * M"
    unfolding a(1) split [of m] assms(5) [symmetric] by (simp add: algebra_simps)
  finally have v: "num_at m2 r (4 * n) + 2 ^ (64 * (4 * n)) * unat c' = num_at m r (4 * n) + 2 ^ (64 * n) * M" .
  then have "2 ^ (64 * (4 * n)) * unat c' < 2 ^ (64 * (4 * n))" using assms(6) by linarith
  then show c': "c' = 0" by (simp add: unat_eq_zero)
  show "num_at m2 r (4 * n) = num_at m r (4 * n) + 2 ^ (64 * n) * M" using v c' by simp
  show "same_but r (4 * n) m m2" using a(2) o(2) by (auto simp: same_but_def)
qed

lemma karatsuba_middle:
  assumes "sep r (4 * n) t (6 * n)" "neg = 0 \<or> neg = - 1"
    "int M = int (num_at m r (2 * n)) + int (num_at m (r + 2 * n) (2 * n)) +
      (if neg = 0 then int (num_at m (t + 2 * n) (2 * n)) else - int (num_at m (t + 2 * n) (2 * n)))"
    "num_at m r (4 * n) + 2 ^ (64 * n) * M < 2 ^ (64 * (4 * n))"
  shows "\<exists>m'. karatsuba_middle m r t n (2 * n) neg = Some m' \<and> num_at m' r (4 * n) = num_at m r (4 * n) + 2 ^ (64 * n) * M \<and>
    same_but2 r (4 * n) t (6 * n) m m'"
proof -
  let ?N = "2 ^ (64 * (2 * n)) :: nat" and ?q = "t + 2 * n" and ?s = "t + 2 * n * 2"
  let ?X = "num_at m r (2 * n)" and ?Y = "num_at m (r + 2 * n) (2 * n)" and ?Z = "num_at m ?q (2 * n)"
  obtain m1 c where 1: "bn_add_words m t r (r + 2 * n) (2 * n) = (m1, c)" by fastforce
  obtain m2 bw where 2: "bn_sub_words m1 ?s t ?q (2 * n) = (m2, bw)" by fastforce
  obtain m3 cy where 3: "bn_add_words m2 ?q t ?q (2 * n) = (m3, cy)" by fastforce
  define m4 where "m4 = bn_select_words m3 ?q neg ?s ?q (2 * n)"
  define cc where "cc = constant_time_select_w neg (c - bw) (c + cy)"
  obtain m5 cz where 5: "bn_add_words m4 (r + n) (r + n) ?q (2 * n) = (m5, cz)" by fastforce
  obtain m6 c' where 6: "carry_on m5 (r + n + 2 * n) n (cc + cz) = (m6, c')" by fastforce
  have dis: "sep r (4 * n) p k" if "t \<le> p" "p + k \<le> t + 6 * n" for p k using sep_part [OF assms(1), of r "4 * n" p k] that by simp
  have rd: "may_read t r (2 * n)" "may_read t (r + 2 * n) (2 * n)" "may_read ?s t (2 * n)" "may_read ?s ?q (2 * n)" "may_read ?q t (2 * n)"
    using assms(1) by (auto simp: sep_def may_read_def)
  note a1 = bn_add_words [OF 1 rd(1,2)]
  note a2 = bn_sub_words [OF 2 rd(3,4)]
  note a3 = bn_add_words [OF 3 rd(5) may_read_refl]
  note a4 = bn_select_words [OF assms(2) _ may_read_refl, of ?q ?s "2 * n" m3, folded m4_def]
  have sel_rd: "may_read ?q ?s (2 * n)" by (simp add: may_read_def)
  have k1: "num_at m1 ?q (2 * n) = ?Z" by (rule num_at_apart [OF a1(2)]) (simp add: sep_def)
  have k2: "num_at m2 t (2 * n) = num_at m1 t (2 * n)" "num_at m2 ?q (2 * n) = ?Z"
    using num_at_apart [OF a2(2)] k1 by (auto simp: sep_def)
  have k3: "num_at m3 ?s (2 * n) = num_at m2 ?s (2 * n)" by (rule num_at_apart [OF a3(2)]) (simp add: sep_def)
  have middle: "num_at m4 ?q (2 * n) + ?N * unat cc = M \<and> unat cc \<le> 2"
  proof (cases "neg = 0")
    case True
    have "unat (c + cy) = unat c + unat cy" using a1(3) a3(3) by (intro carry_sum) simp_all
    moreover have "M = ?X + ?Y + ?Z" using assms(3) True by simp
    moreover have "num_at m4 ?q (2 * n) = num_at m3 ?q (2 * n)" using a4(1) [OF sel_rd] True by simp
    ultimately show ?thesis using a1(1,3) a3(1,3) k2 True by (simp add: cc_def ct_simps distrib_left)
  next
    case False
    then have neg: "neg = - 1" using assms(2) by simp
    have v: "num_at m4 ?q (2 * n) = num_at m2 ?s (2 * n)" using a4(1) [OF sel_rd] neg k3 by simp
    have M: "M + ?Z = ?X + ?Y" using assms(3) neg by simp
    have "num_at m2 ?s (2 * n) + ?N * unat c = M + ?N * unat bw" using a1(1) a2(1) M k1 by simp
    moreover have "num_at m2 ?s (2 * n) < ?N" by (rule num_at_bound)
    ultimately have "unat bw \<le> unat c" using bit_carry [OF a1(3)] bit_carry [OF a2(3)] by auto
    then have "unat (c - bw) = unat c - unat bw" by (simp add: unat_sub word_le_nat_alt)
    then show ?thesis using \<open>num_at m2 ?s (2 * n) + ?N * unat c = M + ?N * unat bw\<close> \<open>unat bw \<le> unat c\<close> a1(3) neg v
      by (simp add: cc_def ct_simps diff_mult_distrib2 add_diff_assoc)
  qed
  have f4: "same_but t (6 * n) m m4" using a1(2) a2(2) a3(2) a4(2) [OF sel_rd] by (auto simp: same_but_def)
  have r4: "num_at m4 r (4 * n) = num_at m r (4 * n)" by (rule num_at_apart [OF f4 sep_sym [OF assms(1)]])
  note e = add_middle [OF 5 6 dis, of M]
  have fin: "c' = 0" "num_at m6 r (4 * n) = num_at m r (4 * n) + 2 ^ (64 * n) * M" "same_but r (4 * n) m4 m6"
    using e middle assms(4) r4 by simp_all
  have nn: "2 * n - n = n" by simp
  have "karatsuba_middle m r t n (2 * n) neg = Some m6"
    unfolding karatsuba_middle_def Let_def 1 2 3 prod.case m4_def [symmetric] cc_def [symmetric] 5 nn 6
    by (simp add: c_assert_def fin(1))
  moreover have "same_but2 r (4 * n) t (6 * n) m m6" using f4 fin(3) by (auto simp: same_but_def same_but2_def)
  ultimately show ?thesis using fin(2) by blast
qed

section \<open>Karatsuba's recursion\<close>

text \<open>A routine that multiplies \<open>la\<close> words by \<open>lb\<close> words into \<open>len\<close> words, with scratch space \<open>p\<close> of \<open>s\<close> words.\<close>

definition multiplies :: "(words \<Rightarrow> nat \<Rightarrow> nat \<Rightarrow> nat \<Rightarrow> words option) \<Rightarrow> nat \<Rightarrow> nat \<Rightarrow> nat \<Rightarrow> nat \<Rightarrow> nat \<Rightarrow> bool" where
  "multiplies f len la lb p s \<longleftrightarrow> (\<forall>m r a b. sep r len a la \<longrightarrow> sep r len b lb \<longrightarrow>
     sep r len p s \<longrightarrow> sep p s a la \<longrightarrow> sep p s b lb \<longrightarrow>
     (\<exists>m'. f m r a b = Some m' \<and> num_at m' r len = num_at m a la * num_at m b lb \<and> same_but2 r len p s m m'))"

lemma multipliesD:
  assumes "multiplies f len la lb p s" "sep r len a la" "sep r len b lb" "sep r len p s" "sep p s a la" "sep p s b lb"
  obtains m' where "f m r a b = Some m'" "num_at m' r len = num_at m a la * num_at m b lb" "same_but2 r len p s m m'"
  using assms unfolding multiplies_def by blast

lemma karatsuba_algebra:
  fixes a0 a1 b0 b1 :: nat
  shows "int (a0 * b1 + a1 * b0) = int (a0 * b0) + int (a1 * b1) +
    (if (a0 < a1) = (b1 < b0) then \<bar>int a0 - int a1\<bar> * \<bar>int b1 - int b0\<bar> else - (\<bar>int a0 - int a1\<bar> * \<bar>int b1 - int b0\<bar>))"
proof -
  have "(if (a0 < a1) = (b1 < b0) then \<bar>int a0 - int a1\<bar> * \<bar>int b1 - int b0\<bar> else - (\<bar>int a0 - int a1\<bar> * \<bar>int b1 - int b0\<bar>)) =
      (int a0 - int a1) * (int b1 - int b0)"
    by (cases "a0 < a1"; cases "b1 < b0"; simp add: algebra_simps)
  then show ?thesis by (simp only:) (simp add: algebra_simps)
qed

lemma karatsuba_step:
  assumes f0: "multiplies f0 (2 * n) n n (t + 4 * n) (4 * n)" and f1: "multiplies f1 (2 * n) tna tnb (t + 4 * n) (4 * n)"
    and le: "tna \<le> n" "tnb \<le> n"
    and dis: "sep r (4 * n) a (n + tna)" "sep r (4 * n) b (n + tnb)" "sep r (4 * n) t (8 * n)" "sep t (8 * n) a (n + tna)" "sep t (8 * n) b (n + tnb)"
    and s1: "bn_abs_sub_part_words m t a (a + n) tna (int n - int tna) (t + 2 * n) = (m1, neg1)"
    and s2: "bn_abs_sub_part_words m1 (t + n) (b + n) b tnb (int tnb - int n) (t + 2 * n) = (m2, neg2)"
  shows "\<exists>m3 m4 m5 m6. f0 m2 (t + 2 * n) t (t + n) = Some m3 \<and> f0 m3 r a b = Some m4 \<and> f1 m4 (r + 2 * n) (a + n) (b + n) = Some m5 \<and>
    karatsuba_middle m5 r t n (2 * n) (neg1 XOR neg2) = Some m6 \<and>
    num_at m6 r (4 * n) = num_at m a (n + tna) * num_at m b (n + tnb) \<and> same_but2 r (4 * n) t (8 * n) m m6"
proof -
  let ?a0 = "num_at m a n" and ?a1 = "num_at m (a + n) tna" and ?b0 = "num_at m b n" and ?b1 = "num_at m (b + n) tnb"
  have inT: "sep t (8 * n) p k \<Longrightarrow> t \<le> q \<Longrightarrow> q + l \<le> t + 8 * n \<Longrightarrow> sep q l p k" for p k q l
    by (rule sep_part) auto
  have inR: "sep r (4 * n) p k \<Longrightarrow> r \<le> q \<Longrightarrow> q + l \<le> r + 4 * n \<Longrightarrow> sep q l p k" for p k q l
    by (rule sep_part) auto
  have parts: "sep q l a (n + tna) \<Longrightarrow> sep q l a n \<and> sep q l (a + n) tna" "sep q l b (n + tnb) \<Longrightarrow> sep q l b n \<and> sep q l (b + n) tnb"
    for q l by (auto simp: sep_def)
  have "n = tna + nat (int n - int tna)" "tna = tna + nat (- (int n - int tna))" "n = tna + nat \<bar>int n - int tna\<bar>"
    "tnb = tnb + nat (int tnb - int n)" "n = tnb + nat (- (int tnb - int n))" "n = tnb + nat \<bar>int tnb - int n\<bar>"
    using le by simp_all
  note lens = this
  have in_a: "t \<le> q \<Longrightarrow> q + l \<le> t + 8 * n \<Longrightarrow> sep q l a n \<and> sep q l (a + n) tna"
    and in_b: "t \<le> q \<Longrightarrow> q + l \<le> t + 8 * n \<Longrightarrow> sep q l b n \<and> sep q l (b + n) tnb" for q l
    using parts inT [OF dis(4)] inT [OF dis(5)] by blast+
  note v1 = bn_abs_sub_part_words [OF s1 lens(1-3)]
  have v1: "int (num_at m1 t n) = \<bar>int ?a0 - int ?a1\<bar>" "neg1 = (if ?a0 < ?a1 then - 1 else 0)" "same_but2 t n (t + 2 * n) n m m1"
    using v1 in_a [of t n] in_a [of "t + 2 * n" n] by (auto simp: sep_def [of t])
  have k1: "num_at m1 (b + n) tnb = ?b1" "num_at m1 b n = ?b0"
    using in_b [of t n] in_b [of "t + 2 * n" n] num_at_apart2 [OF v1(3)] by auto
  note v2 = bn_abs_sub_part_words [OF s2 lens(4-6), unfolded k1]
  have v2: "int (num_at m2 (t + n) n) = \<bar>int ?b1 - int ?b0\<bar>" "neg2 = (if ?b1 < ?b0 then - 1 else 0)" "same_but2 (t + n) n (t + 2 * n) n m1 m2"
    using v2 in_b [of "t + n" n] in_b [of "t + 2 * n" n] by (auto simp: sep_def [of "t + n"])
  have "num_at m2 t n = num_at m1 t n" by (rule num_at_apart2 [OF v2(3)]) (auto simp: sep_def)
  then have t0: "int (num_at m2 t n) = \<bar>int ?a0 - int ?a1\<bar>" using v1(1) by simp
  have f2: "same_but t (3 * n) m m2" using v1(3) v2(3) by (auto simp: same_but_def same_but2_def)
  obtain m3 where m3: "f0 m2 (t + 2 * n) t (t + n) = Some m3" "num_at m3 (t + 2 * n) (2 * n) = num_at m2 t n * num_at m2 (t + n) n"
    "same_but2 (t + 2 * n) (2 * n) (t + 4 * n) (4 * n) m2 m3"
    using multipliesD [OF f0, of "t + 2 * n" t "t + n" m2] by (auto simp: sep_def)
  have f3: "same_but t (8 * n) m m3" using f2 m3(3) by (auto simp: same_but_def same_but2_def)
  have rt: "sep r (2 * n) (t + 4 * n) (4 * n)" "sep (r + 2 * n) (2 * n) (t + 4 * n) (4 * n)" using dis(3) by (auto simp: sep_def)
  have r: "r \<le> q \<Longrightarrow> q + l \<le> r + 4 * n \<Longrightarrow> sep q l a n \<and> sep q l (a + n) tna \<and> sep q l b n \<and> sep q l (b + n) tnb" for q l
    using parts inR [OF dis(1)] inR [OF dis(2)] by blast
  obtain m4 where m4: "f0 m3 r a b = Some m4" "num_at m4 r (2 * n) = num_at m3 a n * num_at m3 b n"
    "same_but2 r (2 * n) (t + 4 * n) (4 * n) m3 m4"
    using multipliesD [OF f0, of r a b m3] r [of r "2 * n"] rt in_a [of "t + 4 * n" "4 * n"] in_b [of "t + 4 * n" "4 * n"] by auto
  have f4: "same_but2 r (2 * n) t (8 * n) m m4" using f3 m4(3) by (auto simp: same_but_def same_but2_def)
  obtain m5 where m5: "f1 m4 (r + 2 * n) (a + n) (b + n) = Some m5"
    "num_at m5 (r + 2 * n) (2 * n) = num_at m4 (a + n) tna * num_at m4 (b + n) tnb" "same_but2 (r + 2 * n) (2 * n) (t + 4 * n) (4 * n) m4 m5"
    using multipliesD [OF f1, of "r + 2 * n" "a + n" "b + n" m4] r [of "r + 2 * n" "2 * n"] rt in_a [of "t + 4 * n" "4 * n"]
      in_b [of "t + 4 * n" "4 * n"] by auto
  have f5: "same_but2 r (4 * n) t (8 * n) m m5" using f4 m5(3) by (auto simp: same_but2_def)
  have ab3: "num_at m3 a n = ?a0" "num_at m3 b n = ?b0" using num_at_apart [OF f3] in_a [of t "8 * n"] in_b [of t "8 * n"] by auto
  have ab4: "num_at m4 (a + n) tna = ?a1" "num_at m4 (b + n) tnb = ?b1"
    using num_at_apart2 [OF f4] r [of r "2 * n"] in_a [of t "8 * n"] in_b [of t "8 * n"] by auto
  have X: "num_at m5 r (2 * n) = ?a0 * ?b0"
    using num_at_apart2 [OF m5(3), of r "2 * n"] rt m4(2) ab3 sep_sym [OF rt(1)] by (simp add: sep_def)
  have Y: "num_at m5 (r + 2 * n) (2 * n) = ?a1 * ?b1" using m5(2) ab4 by simp
  have tr: "sep r (2 * n) (t + 2 * n) (2 * n)" "sep (r + 2 * n) (2 * n) (t + 2 * n) (2 * n)" using dis(3) by (auto simp: sep_def)
  have "num_at m5 (t + 2 * n) (2 * n) = num_at m3 (t + 2 * n) (2 * n)"
    using num_at_apart2 [OF m5(3) tr(2)] num_at_apart2 [OF m4(3) tr(1)] by (simp add: sep_def)
  then have Z: "int (num_at m5 (t + 2 * n) (2 * n)) = \<bar>int ?a0 - int ?a1\<bar> * \<bar>int ?b1 - int ?b0\<bar>" using m3(2) t0 v2(1) by simp
  have neg: "neg1 XOR neg2 = (if (?a0 < ?a1) = (?b1 < ?b0) then 0 else - 1)" using v1(2) v2(2) by simp
  have XY: "num_at m5 r (4 * n) = ?a0 * ?b0 + 2 ^ (64 * (2 * n)) * (?a1 * ?b1)"
    using num_at_append [of m5 r "2 * n" "2 * n"] X Y by simp
  have pw: "(2 :: nat) ^ (64 * (2 * n)) = 2 ^ (64 * n) * 2 ^ (64 * n)" by (simp flip: power_add)
  have prod: "num_at m5 r (4 * n) + 2 ^ (64 * n) * (?a0 * ?b1 + ?a1 * ?b0) = num_at m a (n + tna) * num_at m b (n + tnb)"
    unfolding XY num_at_append pw by (simp add: algebra_simps)
  have "num_at m a (n + tna) * num_at m b (n + tnb) < 2 ^ (64 * (2 * n)) * 2 ^ (64 * (2 * n))"
    using num_at_less [of "n + tna" "2 * n" m a] num_at_less [of "n + tnb" "2 * n" m b] le by (intro mult_strict_mono) simp_all
  also have "\<dots> = 2 ^ (64 * (4 * n))" by (simp flip: power_add)
  finally have small: "num_at m5 r (4 * n) + 2 ^ (64 * n) * (?a0 * ?b1 + ?a1 * ?b0) < 2 ^ (64 * (4 * n))" unfolding prod .
  have "sep r (4 * n) t (6 * n)" using dis(3) by (auto simp: sep_def)
  from karatsuba_middle [OF this _ _ small, of "neg1 XOR neg2"] obtain m6 where
    m6: "karatsuba_middle m5 r t n (2 * n) (neg1 XOR neg2) = Some m6" "num_at m6 r (4 * n) = num_at m a (n + tna) * num_at m b (n + tnb)"
    "same_but2 r (4 * n) t (6 * n) m5 m6"
    using karatsuba_algebra [of ?a0 ?b1 ?a1 ?b0] X Y Z prod unfolding neg by (auto split: if_splits)
  have "same_but2 r (4 * n) t (8 * n) m m6" using f5 m6(3) by (auto simp: same_but2_def)
  then show ?thesis using m3(1) m4(1) m5(1) m6 by blast
qed

lemma multiplies_comba8: "multiplies (\<lambda>m r a b. Some (bn_mul_comba8 m r a b)) 16 8 8 p s"
  unfolding multiplies_def
proof (intro allI impI)
  fix m r a b
  assume "sep r 16 a 8" "sep r 16 b 8"
  then have "r + 16 \<le> a \<or> a + 8 \<le> r" "r + 16 \<le> b \<or> b + 8 \<le> r" by (auto simp: sep_def)
  from bn_mul_comba8 [OF this, of m] show "\<exists>m'. Some (bn_mul_comba8 m r a b) = Some m' \<and>
      num_at m' r 16 = num_at m a 8 * num_at m b 8 \<and> same_but2 r 16 p s m m'"
    by (auto intro: same_but2_same)
qed

text \<open>A product of fewer words, with the rest of the result cleared.\<close>

lemma mul_normal_zero:
  assumes "sep r (2 * n) a la" "sep r (2 * n) b lb" "la + lb \<le> 2 * n"
  shows "num_at (words_zero (bn_mul_normal m r a la b lb) (r + (la + lb)) (2 * n - (la + lb))) r (2 * n) = num_at m a la * num_at m b lb"
    "same_but r (2 * n) m (words_zero (bn_mul_normal m r a la b lb) (r + (la + lb)) (2 * n - (la + lb)))"
proof -
  let ?m = "bn_mul_normal m r a la b lb" and ?k = "la + lb"
  let ?z = "words_zero ?m (r + ?k) (2 * n - ?k)"
  have "sep r ?k a la" "sep r ?k b lb" using assms by (auto simp: sep_def)
  note p = bn_mul_normal [OF this, of m]
  note z = words_zero(1) [of ?m "r + ?k" "2 * n - ?k"] words_zero(2) [of "r + ?k" "2 * n - ?k" ?m]
  have "num_at ?z r ?k = num_at ?m r ?k" by (rule num_at_apart [OF z(2)]) (simp add: sep_def)
  then show "num_at ?z r (2 * n) = num_at m a la * num_at m b lb"
    using num_at_append [of ?z r ?k "2 * n - ?k"] z(1) p(1) assms(3) by simp
  show "same_but r (2 * n) m ?z" using p(2) z(2) assms(3) by (auto simp: same_but_def)
qed

lemma power_two_and: "(2 :: nat) ^ k AND (2 ^ k - 1) = 0"
proof -
  have "(2 :: nat) ^ k AND mask k = take_bit k (2 ^ k)" by (simp add: take_bit_eq_mask)
  then show ?thesis by (simp add: mask_eq_exp_minus_1 take_bit_eq_mod)
qed

lemma bn_mul_recursive_small:
  assumes "n2 = 2 ^ k" "n2 < 16" "- 8 \<le> dna" "dna \<le> 0" "- 8 \<le> dnb" "dnb \<le> 0" "0 \<le> int n2 + dna" "0 \<le> int n2 + dnb"
  shows "multiplies (\<lambda>m r a b. bn_mul_recursive m r a b n2 dna dnb t) (2 * n2) (nat (int n2 + dna)) (nat (int n2 + dnb)) p s"
proof (cases "n2 = 8 \<and> dna = 0 \<and> dnb = 0")
  case True
  then have "(\<lambda>m r a b. bn_mul_recursive m r a b n2 dna dnb t) = (\<lambda>m r a b. Some (bn_mul_comba8 m r a b))"
    by (intro ext) (simp add: bn_mul_recursive.simps c_assert_def BN_MUL_RECURSIVE_SIZE_NORMAL_def)
  then show ?thesis using True multiplies_comba8 by simp
next
  case False
  let ?la = "nat (int n2 + dna)" and ?lb = "nat (int n2 + dnb)"
  have len: "?la + ?lb \<le> 2 * n2" "nat (int r + 2 * int n2 + dna + dnb) = r + (?la + ?lb)" "nat (- (dna + dnb)) = 2 * n2 - (?la + ?lb)" for r
    using assms(3-8) by linarith+
  have pw: "n2 \<noteq> 0 \<and> n2 AND (n2 - 1) = 0" unfolding assms(1) using power_two_and by simp
  have none: "\<not> dna + dnb < 0 \<Longrightarrow> words_zero m (r + (?la + ?lb)) (2 * n2 - (?la + ?lb)) = m" for m r
  proof -
    assume "\<not> dna + dnb < 0"
    then have "2 * n2 - (?la + ?lb) = 0" using len(3) by simp
    then show "words_zero m (r + (?la + ?lb)) (2 * n2 - (?la + ?lb)) = m" by (simp only: words_zero_0)
  qed
  have "bn_mul_recursive m r a b n2 dna dnb t =
      Some (words_zero (bn_mul_normal m r a ?la b ?lb) (r + (?la + ?lb)) (2 * n2 - (?la + ?lb)))" for m r a b
    using False assms(2-6) none pw unfolding bn_mul_recursive.simps [of m r a b n2 dna dnb t] Let_def len
    by (auto simp: c_assert_def BN_MUL_RECURSIVE_SIZE_NORMAL_def)
  then show ?thesis unfolding multiplies_def
    using mul_normal_zero(1) [OF _ _ len(1)] mul_normal_zero(2) [OF _ _ len(1)] by (auto intro: same_but2_same)
qed

lemma bn_mul_recursive_multiplies:
  assumes "n2 = 2 ^ k" "- 8 \<le> dna" "dna \<le> 0" "- 8 \<le> dnb" "dnb \<le> 0" "0 \<le> int n2 + dna" "0 \<le> int n2 + dnb"
  shows "multiplies (\<lambda>m r a b. bn_mul_recursive m r a b n2 dna dnb t) (2 * n2) (nat (int n2 + dna)) (nat (int n2 + dnb)) t (4 * n2)"
  using assms
proof (induction k arbitrary: n2 dna dnb t)
  case 0
  then show ?case by (intro bn_mul_recursive_small [of _ 0]) simp_all
next
  case (Suc k)
  show ?case
  proof (cases "n2 < 16")
    case True
    then show ?thesis using bn_mul_recursive_small [OF Suc.prems(1)] Suc.prems by simp
  next
    case False
    define n where "n = n2 div 2"
    have n: "n2 = 2 * n" "n = 2 ^ k" "8 \<le> n" using False Suc.prems(1) by (auto simp: n_def)
    have pw: "n2 AND (n2 - 1) = 0" unfolding Suc.prems(1) by (rule power_two_and)
    let ?c = "n = 8 \<and> dna = 0 \<and> dnb = 0" and ?p = "t + 4 * n"
    define f0 where "f0 = (\<lambda>m r a b. if ?c then Some (bn_mul_comba8 m r a b) else bn_mul_recursive m r a b n 0 0 ?p)"
    define f1 where "f1 = (\<lambda>m r a b. if ?c then Some (bn_mul_comba8 m r a b) else bn_mul_recursive m r a b n dna dnb ?p)"
    have f0: "multiplies f0 (2 * n) n n ?p (4 * n)"
      using multiplies_comba8 Suc.IH [OF n(2), of 0 0 ?p] by (cases ?c) (auto simp: f0_def)
    have f1: "multiplies f1 (2 * n) (nat (int n + dna)) (nat (int n + dnb)) ?p (4 * n)"
      using multiplies_comba8 Suc.IH [OF n(2), of dna dnb ?p] Suc.prems n(3) by (cases ?c) (auto simp: f1_def)
    have len: "nat (int n2 + dna) = n + nat (int n + dna)" "nat (int n2 + dnb) = n + nat (int n + dnb)"
      "nat (int n + dna) \<le> n" "nat (int n + dnb) \<le> n" "int (nat (int n + dna)) = int n + dna" "int (nat (int n + dnb)) = int n + dnb"
      using Suc.prems(2-7) n(1,3) by linarith+
    show ?thesis unfolding multiplies_def
    proof (intro allI impI)
      fix m r a b
      assume dis: "sep r (2 * n2) a (nat (int n2 + dna))" "sep r (2 * n2) b (nat (int n2 + dnb))" "sep r (2 * n2) t (4 * n2)"
        "sep t (4 * n2) a (nat (int n2 + dna))" "sep t (4 * n2) b (nat (int n2 + dnb))"
      obtain m1 neg1 where s1: "bn_abs_sub_part_words m t a (a + n) (nat (int n + dna)) (int n - (int n + dna)) (t + 2 * n) = (m1, neg1)"
        by fastforce
      obtain m2 neg2 where s2: "bn_abs_sub_part_words m1 (t + n) (b + n) b (nat (int n + dnb)) (int n + dnb - int n) (t + 2 * n) = (m2, neg2)"
        by fastforce
      have dis': "sep r (4 * n) a (n + nat (int n + dna))" "sep r (4 * n) b (n + nat (int n + dnb))" "sep r (4 * n) t (8 * n)"
        "sep t (8 * n) a (n + nat (int n + dna))" "sep t (8 * n) b (n + nat (int n + dnb))"
        using dis [unfolded len(1,2)] by (simp_all add: n(1))
      from karatsuba_step [OF f0 f1 len(3,4) dis', unfolded len(5,6), OF s1 s2] obtain m3 m4 m5 m6 where k:
        "f0 m2 (t + 2 * n) t (t + n) = Some m3" "f0 m3 r a b = Some m4" "f1 m4 (r + 2 * n) (a + n) (b + n) = Some m5"
        "karatsuba_middle m5 r t n (2 * n) (neg1 XOR neg2) = Some m6"
        "num_at m6 r (4 * n) = num_at m a (n + nat (int n + dna)) * num_at m b (n + nat (int n + dnb))" "same_but2 r (4 * n) t (8 * n) m m6"
        by blast
      have "bn_mul_recursive m r a b n2 dna dnb t = Some m6"
        using k(1-4) s1 s2 Suc.prems(2-5) n(3) pw unfolding n(1) bn_mul_recursive.simps [of m r a b "2 * n" dna dnb t]
        by (cases ?c) (auto simp: c_assert_def BN_MUL_RECURSIVE_SIZE_NORMAL_def f0_def f1_def)
      then show "\<exists>m'. bn_mul_recursive m r a b n2 dna dnb t = Some m' \<and>
          num_at m' r (2 * n2) = num_at m a (nat (int n2 + dna)) * num_at m b (nat (int n2 + dnb)) \<and> same_but2 r (2 * n2) t (4 * n2) m m'"
        using k(5,6) unfolding len(1,2) by (simp add: n(1))
    qed
  qed
qed

section \<open>Unbalanced products\<close>

lemma multiplies_normal: "multiplies (\<lambda>m r a b. Some (bn_mul_normal m r a la b lb)) (la + lb) la lb p s"
  unfolding multiplies_def using bn_mul_normal by (auto intro: same_but2_same)

text \<open>A routine for a shorter result, after clearing the result.\<close>

lemma multiplies_widen:
  assumes "multiplies f k la lb p s" "k \<le> len" "s \<le> s'"
  shows "multiplies (\<lambda>m r a b. f (words_zero m r len) r a b) len la lb p s'"
  unfolding multiplies_def
proof (intro allI impI)
  fix m r a b
  assume dis: "sep r len a la" "sep r len b lb" "sep r len p s'" "sep p s' a la" "sep p s' b lb"
  let ?z = "words_zero m r len"
  have z: "num_at ?z a la = num_at m a la" "num_at ?z b lb = num_at m b lb"
    using num_at_apart [OF words_zero(2)] dis by blast+
  have k: "sep r k a la" "sep r k b lb" "sep r k p s" "sep p s a la" "sep p s b lb" using dis assms(2,3) by (auto simp: sep_def)
  obtain m' where m': "f ?z r a b = Some m'" "num_at m' r k = num_at m a la * num_at m b lb" "same_but2 r k p s ?z m'"
    using multipliesD [OF assms(1) k, of ?z] z by metis
  have "num_at m' (r + k) (len - k) = num_at ?z (r + k) (len - k)"
    using dis(3) assms(2,3) by (intro num_at_apart2 [OF m'(3)]) (auto simp: sep_def)
  also have "\<dots> = 0" using assms(2) by (auto simp: num_at_zero_iff words_zero_def)
  finally have "num_at m' r len = num_at m a la * num_at m b lb"
    using num_at_append [of m' r k "len - k"] m'(2) assms(2) by simp
  moreover have "same_but2 r len p s' m m'"
    using m'(3) words_zero(2) [of r len m] assms(2,3) by (auto simp: same_but_def same_but2_def)
  ultimately show "\<exists>m'. f ?z r a b = Some m' \<and> num_at m' r len = num_at m a la * num_at m b lb \<and> same_but2 r len p s' m m'"
    using m'(1) by blast
qed

lemma part_split:
  assumes "n = 2 ^ k" "tna < int n" "tnb < int n" "0 < tna \<or> 0 < tnb"
  shows "\<exists>j. j < k \<and> (2 ^ Suc j :: int) > max tna tnb \<and>
    (part_split n tna tnb = Some (Inl (2 ^ j)) \<and> 2 ^ j < max tna tnb \<or> part_split n tna tnb = Some (Inr (2 ^ j)) \<and> 2 ^ j = max tna tnb)"
  using assms
proof (induction k arbitrary: n)
  case (Suc k)
  have n: "n \<noteq> 0" "n div 2 = 2 ^ k" using Suc.prems(1) by simp_all
  show ?case
  proof (cases "int (2 ^ k) \<le> max tna tnb")
    case True
    then show ?thesis using Suc.prems n unfolding part_split.simps [of n]
      by (intro exI [of _ k]) (auto simp: Let_def max_def split: if_splits)
  next
    case False
    then have "part_split n tna tnb = part_split (2 ^ k) tna tnb" using n by (simp add: part_split.simps [of n] Let_def max_def split: if_splits)
    then show ?thesis using Suc.IH [of "2 ^ k"] Suc.prems False by (auto simp: max_def less_Suc_eq split: if_splits)
  qed
qed auto

lemma multiplies_cong:
  assumes "multiplies f len la lb p s" "\<And>m r a b. g m r a b = f m r a b"
  shows "multiplies g len la lb p s"
  using assms by (simp add: multiplies_def)

text \<open>The product of the upper parts inside \<open>bn_mul_part_recursive\<close>.\<close>

definition part_high :: "nat \<Rightarrow> int \<Rightarrow> int \<Rightarrow> nat \<Rightarrow> words \<Rightarrow> nat \<Rightarrow> nat \<Rightarrow> nat \<Rightarrow> words option" where
  "part_high n tna tnb p m r a b =
     (if n = 8 then Some (words_zero (bn_mul_normal m r a (nat tna) b (nat tnb)) (r + (nat tna + nat tnb)) (2 * n - (nat tna + nat tnb)))
      else
        (let m = words_zero m r (2 * n)
         in if tna < int BN_MUL_RECURSIVE_SIZE_NORMAL \<and> tnb < int BN_MUL_RECURSIVE_SIZE_NORMAL
            then Some (bn_mul_normal m r a (nat tna) b (nat tnb))
            else
              (case part_split n tna tnb of
                 None \<Rightarrow> None
               | Some (Inl i) \<Rightarrow> bn_mul_part_recursive m r a b i (tna - int i) (tnb - int i) p
               | Some (Inr i) \<Rightarrow> bn_mul_recursive m r a b i (tna - int i) (tnb - int i) p)))"

lemma part_high:
  assumes "n = 2 ^ k" "8 \<le> n" "0 \<le> tna" "tna < int n" "0 \<le> tnb" "tnb < int n" "\<bar>tna - tnb\<bar> \<le> 1"
    and IH: "\<And>j tna tnb t. j < k \<Longrightarrow> 8 \<le> (2 :: nat) ^ j \<Longrightarrow> 0 \<le> tna \<Longrightarrow> tna < int (2 ^ j) \<Longrightarrow> 0 \<le> tnb \<Longrightarrow> tnb < int (2 ^ j) \<Longrightarrow>
        \<bar>tna - tnb\<bar> \<le> 1 \<Longrightarrow>
        multiplies (\<lambda>m r a b. bn_mul_part_recursive m r a b (2 ^ j) tna tnb t) (4 * 2 ^ j) (2 ^ j + nat tna) (2 ^ j + nat tnb) t (8 * 2 ^ j)"
  shows "multiplies (part_high n tna tnb p) (2 * n) (nat tna) (nat tnb) p (4 * n)"
proof -
  have len: "nat tna + nat tnb \<le> 2 * n" using assms(3-6) by linarith
  consider "n = 8" | "n \<noteq> 8" "tna < 16 \<and> tnb < 16" | "n \<noteq> 8" "16 \<le> max tna tnb" by linarith
  then show ?thesis
  proof cases
    case 1
    then show ?thesis unfolding multiplies_def part_high_def
      using mul_normal_zero(1) [OF _ _ len] mul_normal_zero(2) [OF _ _ len] by (auto intro: same_but2_same)
  next
    case 2
    show ?thesis
      by (rule multiplies_cong [OF multiplies_widen [OF multiplies_normal len order_refl]])
        (use 2 in \<open>simp add: part_high_def BN_MUL_RECURSIVE_SIZE_NORMAL_def\<close>)
  next
    case 3
    then obtain j where j: "j < k" "(2 ^ Suc j :: int) > max tna tnb"
      "part_split n tna tnb = Some (Inl (2 ^ j)) \<and> 2 ^ j < max tna tnb \<or> part_split n tna tnb = Some (Inr (2 ^ j)) \<and> 2 ^ j = max tna tnb"
      using part_split [OF assms(1,4,6)] by (auto simp: max_def split: if_splits)
    have small: "\<not> (tna < int BN_MUL_RECURSIVE_SIZE_NORMAL \<and> tnb < int BN_MUL_RECURSIVE_SIZE_NORMAL)"
      using 3(2) by (simp add: BN_MUL_RECURSIVE_SIZE_NORMAL_def max_def split: if_splits)
    have jn: "2 * 2 ^ j \<le> n" using power_increasing [of "Suc j" k "2 :: nat"] j(1) assms(1) by simp
    from j(3) show ?thesis
    proof
      assume s: "part_split n tna tnb = Some (Inl (2 ^ j)) \<and> 2 ^ j < max tna tnb"
      have ij: "int (2 ^ j) \<le> tna" "int (2 ^ j) \<le> tnb" "tna - int (2 ^ j) < int (2 ^ j)" "tnb - int (2 ^ j) < int (2 ^ j)" "8 < int (2 ^ j)"
        using s j(2) assms(7) 3(2) by (auto simp: max_def split: if_splits)
      then have e8: "8 \<le> (2 :: nat) ^ j" by linarith
      have "multiplies (\<lambda>m r a b. bn_mul_part_recursive m r a b (2 ^ j) (tna - int (2 ^ j)) (tnb - int (2 ^ j)) p) (4 * 2 ^ j)
          (2 ^ j + nat (tna - int (2 ^ j))) (2 ^ j + nat (tnb - int (2 ^ j))) p (8 * 2 ^ j)"
        using ij assms(7) by (intro IH j(1) e8) simp_all
      moreover have "2 ^ j + nat (tna - int (2 ^ j)) = nat tna" "2 ^ j + nat (tnb - int (2 ^ j)) = nat tnb" using ij by linarith+
      ultimately have "multiplies (\<lambda>m r a b. bn_mul_part_recursive m r a b (2 ^ j) (tna - int (2 ^ j)) (tnb - int (2 ^ j)) p) (4 * 2 ^ j)
          (nat tna) (nat tnb) p (8 * 2 ^ j)" by simp
      then show ?thesis
        by (rule multiplies_cong [OF multiplies_widen]) (use jn s small 3(1) in \<open>auto simp: part_high_def Let_def\<close>)
    next
      assume s: "part_split n tna tnb = Some (Inr (2 ^ j)) \<and> 2 ^ j = max tna tnb"
      have ij: "- 8 \<le> tna - int (2 ^ j)" "tna - int (2 ^ j) \<le> 0" "- 8 \<le> tnb - int (2 ^ j)" "tnb - int (2 ^ j) \<le> 0"
        using s assms(7) by (auto simp: max_def split: if_splits)
      have "multiplies (\<lambda>m r a b. bn_mul_recursive m r a b (2 ^ j) (tna - int (2 ^ j)) (tnb - int (2 ^ j)) p) (2 * 2 ^ j)
          (nat (int (2 ^ j) + (tna - int (2 ^ j)))) (nat (int (2 ^ j) + (tnb - int (2 ^ j)))) p (4 * 2 ^ j)"
        using assms(3,5) by (intro bn_mul_recursive_multiplies [where k = j] ij) simp_all
      then have "multiplies (\<lambda>m r a b. bn_mul_recursive m r a b (2 ^ j) (tna - int (2 ^ j)) (tnb - int (2 ^ j)) p) (2 * 2 ^ j)
          (nat tna) (nat tnb) p (4 * 2 ^ j)" by simp
      then show ?thesis
        by (rule multiplies_cong [OF multiplies_widen]) (use jn s small 3(1) in \<open>auto simp: part_high_def Let_def\<close>)
    qed
  qed
qed

lemma bn_mul_part_recursive_multiplies:
  assumes "8 \<le> (2 :: nat) ^ k" "0 \<le> tna" "tna < int (2 ^ k)" "0 \<le> tnb" "tnb < int (2 ^ k)" "\<bar>tna - tnb\<bar> \<le> 1"
  shows "multiplies (\<lambda>m r a b. bn_mul_part_recursive m r a b (2 ^ k) tna tnb t) (4 * 2 ^ k) (2 ^ k + nat tna) (2 ^ k + nat tnb) t (8 * 2 ^ k)"
  using assms
proof (induction k arbitrary: tna tnb t rule: less_induct)
  case (less k)
  define n where "n = (2 :: nat) ^ k"
  let ?p = "t + 4 * n"
  define f0 where "f0 = (\<lambda>m r a b. if n = 8 then Some (bn_mul_comba8 m r a b) else bn_mul_recursive m r a b n 0 0 ?p)"
  have f0: "multiplies f0 (2 * n) n n ?p (4 * n)"
    using multiplies_comba8 bn_mul_recursive_multiplies [OF n_def, of 0 0 ?p] by (cases "n = 8") (auto simp: f0_def)
  have f1: "multiplies (part_high n tna tnb ?p) (2 * n) (nat tna) (nat tnb) ?p (4 * n)"
    using less.prems by (intro part_high [OF n_def] less.IH) (simp_all add: n_def)
  have n8: "8 \<le> n" "nat tna \<le> n" "nat tnb \<le> n" "int (nat tna) = tna" "int (nat tnb) = tnb" using less.prems by (simp_all add: n_def)
  have pw: "n \<noteq> 0 \<and> n AND (n - 1) = 0" using power_two_and by (simp add: n_def)
  have bnd: "tna < int n" "tnb < int n" using less.prems by (simp_all add: n_def)
  have nn: "n * 2 = 2 * n" "2 * n * 2 = 4 * n" by simp_all
  have idx: "nat (int r + int (2 * n) + tna + tnb) = r + 2 * n + (nat tna + nat tnb)" "nat (int (2 * n) - tna - tnb) = 2 * n - (nat tna + nat tnb)" for r
    using less.prems by linarith+
  show ?case unfolding multiplies_def n_def [symmetric]
  proof (intro allI impI)
    fix m r a b
    assume dis: "sep r (4 * n) a (n + nat tna)" "sep r (4 * n) b (n + nat tnb)" "sep r (4 * n) t (8 * n)"
      "sep t (8 * n) a (n + nat tna)" "sep t (8 * n) b (n + nat tnb)"
    obtain m1 neg1 where s1: "bn_abs_sub_part_words m t a (a + n) (nat tna) (int n - tna) (t + 2 * n) = (m1, neg1)" by fastforce
    obtain m2 neg2 where s2: "bn_abs_sub_part_words m1 (t + n) (b + n) b (nat tnb) (tnb - int n) (t + 2 * n) = (m2, neg2)" by fastforce
    from karatsuba_step [OF f0 f1 n8(2,3) dis, unfolded n8(4,5), OF s1 s2] obtain m3 m4 m5 m6 where k:
      "f0 m2 (t + 2 * n) t (t + n) = Some m3" "f0 m3 r a b = Some m4" "part_high n tna tnb ?p m4 (r + 2 * n) (a + n) (b + n) = Some m5"
      "karatsuba_middle m5 r t n (2 * n) (neg1 XOR neg2) = Some m6"
      "num_at m6 r (4 * n) = num_at m a (n + nat tna) * num_at m b (n + nat tnb)" "same_but2 r (4 * n) t (8 * n) m m6"
      by blast
    have "bn_mul_part_recursive m r a b n tna tnb t = Some m6"
      using k(1-4) s1 s2 less.prems(2,4,6) bnd n8(1) pw
      unfolding bn_mul_part_recursive.simps [of m r a b n tna tnb t] Let_def idx nn
      by (cases "n = 8") (auto simp: c_assert_def f0_def part_high_def Let_def)
    then show "\<exists>m'. bn_mul_part_recursive m r a b n tna tnb t = Some m' \<and>
        num_at m' r (4 * n) = num_at m a (n + nat tna) * num_at m b (n + nat tnb) \<and> same_but2 r (4 * n) t (8 * n) m m'"
      using k(5,6) by blast
  qed
qed

end
