(* ===== verification/Bn_Sqr_Words.thy ===== *)
theory Bn_Sqr_Words
  imports Bn_Mul_Words
begin

unbundle bit_operations_syntax

text \<open>
  The squares of \<open>mul.c\<close> on words: \<open>bn_sqr_normal\<close> doubles the products of different words and adds the squares, and
  \<open>bn_sqr_recursive\<close> is Karatsuba's recursion for a square.
\<close>

section \<open>The square of a sum of words\<close>

fun word_squares :: "words \<Rightarrow> nat \<Rightarrow> nat \<Rightarrow> nat" where
  "word_squares m a 0 = 0"
| "word_squares m a (Suc n) = unat (m a) * unat (m a) + 2 ^ 128 * word_squares m (a + 1) n"

text \<open>The products of two different words, without the factor of the lowest weight.\<close>

fun mixed_products :: "words \<Rightarrow> nat \<Rightarrow> nat \<Rightarrow> nat" where
  "mixed_products m a 0 = 0"
| "mixed_products m a (Suc n) = unat (m a) * num_at m (a + 1) n + 2 ^ 128 * mixed_products m (a + 1) n"

lemma square_split: "num_at m a n * num_at m a n = 2 * (2 ^ 64 * mixed_products m a n) + word_squares m a n"
proof (induction n arbitrary: a)
  case (Suc n)
  have "num_at m a (Suc n) * num_at m a (Suc n) = unat (m a) * unat (m a) + 2 * (2 ^ 64 * (unat (m a) * num_at m (a + 1) n)) +
      2 ^ 128 * (num_at m (a + 1) n * num_at m (a + 1) n)" by (simp add: num_at_Cons algebra_simps)
  then show ?case unfolding Suc by (simp add: algebra_simps)
qed simp

lemma mixed_products_cong: "(\<And>i. i < n \<Longrightarrow> m' (a + i) = m (a + i)) \<Longrightarrow> mixed_products m' a n = mixed_products m a n"
proof (induction n arbitrary: a)
  case (Suc n)
  have "m' (a + 1 + i) = m (a + 1 + i)" if "i < n" for i using Suc.prems [of "Suc i"] that by simp
  then have "mixed_products m' (a + 1) n = mixed_products m (a + 1) n" "num_at m' (a + 1) n = num_at m (a + 1) n"
    using Suc.IH by (simp_all add: num_at_def)
  then show ?case using Suc.prems [of 0] by simp
qed simp

lemma word_squares_cong: "(\<And>i. i < n \<Longrightarrow> m' (a + i) = m (a + i)) \<Longrightarrow> word_squares m' a n = word_squares m a n"
proof (induction n arbitrary: a)
  case (Suc n)
  have "m' (a + 1 + i) = m (a + 1 + i)" if "i < n" for i using Suc.prems [of "Suc i"] that by simp
  then show ?case using Suc.IH Suc.prems [of 0] by simp
qed simp

lemma word_squares_snoc: "word_squares m a (Suc n) = word_squares m a n + 2 ^ (128 * n) * (unat (m (a + n)) * unat (m (a + n)))"
  by (induction n arbitrary: a) (simp_all add: algebra_simps power_add)

lemma same_but_at: "same_but r n m m' \<Longrightarrow> sep r n a k \<Longrightarrow> i < k \<Longrightarrow> m' (a + i) = m (a + i)"
  by (auto simp: same_but_def sep_def)

lemma bn_sqr_words:
  assumes "sep r (2 * n) a n"
  shows "num_at (bn_sqr_words m r a n) r (2 * n) = word_squares m a n" "same_but r (2 * n) m (bn_sqr_words m r a n)"
proof -
  let ?f = "\<lambda>m i c :: u64. let (lo, hi) = sqr (m (a + i)) in (m(r + 2 * i := lo, r + 2 * i + 1 := hi), c)"
  let ?P = "\<lambda>k m' c :: u64. num_at m' r (2 * k) = word_squares m a k \<and> same_but r (2 * k) m m'"
  obtain m' c' where w: "words_rest ?f m 0 n 0 = (m', c')" by fastforce
  have "?P n m' c'"
  proof (rule words_rest_invar [where P = ?P, OF _ _ w])
    fix k m1 and c :: u64
    assume k: "k < n" and inv: "?P k m1 c"
    have "sep r (2 * k) a n" using assms k by (auto simp: sep_def)
    then have a: "m1 (a + k) = m (a + k)" using same_but_at inv k by blast
    obtain lo hi where s: "sqr (m (a + k)) = (lo, hi)" by fastforce
    let ?m = "m1(r + 2 * k := lo, r + 2 * k + 1 := hi)"
    have "num_at ?m r (2 * k) = num_at m1 r (2 * k)" by (rule num_at_cong) simp
    moreover have "num_at ?m (r + 2 * k) 2 = unat lo + 2 ^ 64 * unat hi"
      using num_at_Cons [of ?m "r + 2 * k" 1] by (simp add: num_at_def numeral_2_eq_2)
    ultimately have "num_at ?m r (2 * k + 2) = word_squares m a (Suc k)"
      unfolding num_at_append word_squares_snoc using inv sqr_value [OF s] by (simp add: mult.assoc [symmetric])
    moreover have "same_but r (2 * Suc k) m ?m" using inv by (auto simp: same_but_def)
    ultimately show "?P (Suc k) (fst (?f m1 (0 + k) c)) (snd (?f m1 (0 + k) c))" using a s by simp
  qed simp
  then show "num_at (bn_sqr_words m r a n) r (2 * n) = word_squares m a n" "same_but r (2 * n) m (bn_sqr_words m r a n)"
    using w by (simp_all add: bn_sqr_words_def words_loop_rest)
qed

section \<open>The schoolbook square\<close>

lemma sqr_normal_rows:
  assumes "sep rp (2 * i) ap (Suc i)"
  shows "num_at (sqr_normal_rows m rp ap i) rp (2 * i) = num_at m rp i + mixed_products m ap (Suc i) \<and>
    same_but rp (2 * i) m (sqr_normal_rows m rp ap i)"
  using assms
proof (induction i arbitrary: m rp ap)
  case (Suc i)
  obtain m1 c where 1: "bn_mul_add_words m rp (ap + 1) (Suc i) (m ap) = (m1, c)" by fastforce
  define m2 where "m2 = m1(rp + Suc i := c)"
  have "may_read rp (ap + 1) (Suc i)" using Suc.prems by (auto simp: sep_def may_read_def)
  note v = bn_mul_add_words [OF 1 this]
  have f2: "same_but rp (Suc (Suc i)) m m2" using v(2) by (auto simp: m2_def same_but_def)
  have "num_at m2 rp (Suc i) = num_at m1 rp (Suc i)" by (rule num_at_cong) (simp add: m2_def)
  then have row: "num_at m2 rp (Suc (Suc i)) = num_at m rp (Suc i) + unat (m ap) * num_at m (ap + 1) (Suc i)"
    unfolding num_at_snoc [of m2 rp "Suc i"] using v(1) by (simp add: m2_def algebra_simps)
  let ?r = "sqr_normal_rows m2 (rp + 2) (ap + 1) i"
  have IH: "num_at ?r (rp + 2) (2 * i) = num_at m2 (rp + 2) i + mixed_products m2 (ap + 1) (Suc i)" "same_but (rp + 2) (2 * i) m2 ?r"
    using Suc.IH [of "rp + 2" "ap + 1" m2] Suc.prems by (auto simp: sep_def)
  have "sep rp (Suc (Suc i)) (ap + 1) (Suc i)" using Suc.prems by (auto simp: sep_def)
  then have keep: "mixed_products m2 (ap + 1) (Suc i) = mixed_products m (ap + 1) (Suc i)"
    by (intro mixed_products_cong same_but_at [OF f2])
  have low: "num_at ?r rp 2 = num_at m2 rp 2" by (rule num_at_apart [OF IH(2)]) (simp add: sep_def)
  have "num_at ?r rp (2 + 2 * i) = num_at m2 rp (2 + i) + 2 ^ 128 * mixed_products m (ap + 1) (Suc i)"
    unfolding num_at_append low IH(1) keep by (simp add: algebra_simps)
  then have "num_at ?r rp (2 * Suc i) = num_at m rp (Suc i) + mixed_products m ap (Suc (Suc i))"
    using row by simp
  moreover have "same_but rp (2 * Suc i) m ?r" using f2 IH(2) by (auto simp: same_but_def)
  moreover have "sqr_normal_rows m rp ap (Suc i) = ?r" using 1 by (simp add: m2_def)
  ultimately show ?case by simp
qed simp

text \<open>The state of \<open>bn_sqr_normal\<close> before the doubling.\<close>

lemma sqr_triangle:
  fixes m :: words
  assumes "sep r (2 * n) a n" "0 < n"
  defines "m0 \<equiv> m(r := 0, r + (n * 2 - 1) := 0)"
  defines "m3 \<equiv> (if n > 1 then
      (let (m1, c) = bn_mul_words m0 (r + 1) (a + 1) (n - 1) (m0 a);
           m2 = m1(r + 1 + (n - 1) := c)
       in if n > 2 then sqr_normal_rows m2 (r + 1 + 2) (a + 1) (n - 2) else m2) else m0)"
  shows "num_at m3 r (2 * n) = 2 ^ 64 * mixed_products m a n \<and> same_but r (2 * n) m m3"
proof (cases "n > 1")
  case False
  then have [simp]: "n = 1" using assms(2) by simp
  have "num_at m0 r (2 * n) = 0" by (auto simp: num_at_zero_iff m0_def)
  then show ?thesis by (auto simp: m3_def m0_def num_at_def same_but_def)
next
  case True
  then obtain i where n: "n = Suc (Suc i)" using that [of "n - 2"] by simp
  have z: "same_but r (2 * n) m m0" using n by (auto simp: m0_def same_but_def)
  have a0: "m0 (a + j) = m (a + j)" if "j < n" for j using same_but_at [OF z assms(1) that] .
  obtain m1 c where 1: "bn_mul_words m0 (r + 1) (a + 1) (Suc i) (m0 a) = (m1, c)" by fastforce
  define m2 where "m2 = m1(r + 1 + Suc i := c)"
  have "may_read (r + 1) (a + 1) (Suc i)" using assms(1) n by (auto simp: sep_def may_read_def)
  note v = bn_mul_words [OF 1 this]
  have f2: "same_but (r + 1) (Suc (Suc i)) m0 m2" using v(2) by (auto simp: m2_def same_but_def)
  have g2: "same_but r (2 * n) m m2" using z f2 n by (auto simp: same_but_def)
  have "num_at m2 (r + 1) (Suc i) = num_at m1 (r + 1) (Suc i)" by (rule num_at_cong) (simp add: m2_def)
  moreover have "num_at m0 (a + 1) (Suc i) = num_at m (a + 1) (Suc i)"
    using num_at_apart [OF z, of "a + 1" "Suc i"] assms(1) n by (auto simp: sep_def)
  ultimately have row: "num_at m2 (r + 1) (Suc (Suc i)) = unat (m a) * num_at m (a + 1) (Suc i)"
    unfolding num_at_snoc [of m2 "r + 1" "Suc i"] using v(1) a0 [of 0] n by (simp add: m2_def algebra_simps)
  define m4 where "m4 = sqr_normal_rows m2 (r + 3) (a + 1) i"
  have "sep (r + 3) (2 * i) (a + 1) (Suc i)" using assms(1) n by (auto simp: sep_def)
  note w = sqr_normal_rows [OF this, of m2, folded m4_def]
  have f4: "same_but (r + 3) (2 * i) m2 m4" using w by blast
  have keep: "mixed_products m2 (a + 1) (Suc i) = mixed_products m (a + 1) (Suc i)"
    using same_but_at [OF g2 assms(1)] n by (intro mixed_products_cong) (metis Suc_eq_plus1 Suc_less_eq add.assoc add.commute)
  have low: "num_at m4 (r + 1) 2 = num_at m2 (r + 1) 2" by (rule num_at_apart [OF f4]) (simp add: sep_def)
  have "num_at m4 (r + 1) (2 + 2 * i) = num_at m2 (r + 1) (2 + i) + 2 ^ 128 * mixed_products m (a + 1) (Suc i)"
    using w keep low unfolding num_at_append by (simp add: algebra_simps numeral_3_eq_3)
  then have mid: "num_at m4 (r + 1) (2 + 2 * i) = mixed_products m a n" using row n by simp
  have "m4 r = 0" "m4 (r + (2 * i + 3)) = 0"
    using f4 f2 n by (auto simp: same_but_def m0_def)
  then have "num_at m4 r (2 * n) = 2 ^ 64 * mixed_products m a n"
    using mid num_at_Cons [of m4 r "2 * i + 3"] num_at_snoc [of m4 "r + 1" "2 + 2 * i"] n by (simp add: numeral_3_eq_3)
  moreover have "same_but r (2 * n) m m4" using f4 g2 n by (auto simp: same_but_def)
  moreover have "m3 = m4"
    using 1 n unfolding m3_def m4_def by (cases i) (simp_all add: m2_def numeral_3_eq_3)
  ultimately show ?thesis by simp
qed

lemma bn_sqr_normal:
  assumes "sep r (2 * n) a n" "sep r (2 * n) t (2 * n)" "sep t (2 * n) a n" "0 < n"
  shows "num_at (bn_sqr_normal m r a n t) r (2 * n) = num_at m a n * num_at m a n"
    "same_but2 r (2 * n) t (2 * n) m (bn_sqr_normal m r a n t)"
proof -
  let ?N = "2 ^ (64 * (2 * n)) :: nat"
  obtain m3 where t3: "num_at m3 r (2 * n) = 2 ^ 64 * mixed_products m a n" "same_but r (2 * n) m m3"
    and run: "bn_sqr_normal m r a n t = (let (m4, c) = bn_add_words m3 r r r (2 * n); m5 = bn_sqr_words m4 t a n;
        (m6, d) = bn_add_words m5 r r t (2 * n) in m6)"
  proof (rule that [OF conjunct1 [OF sqr_triangle [OF assms(1,4), of m]] conjunct2 [OF sqr_triangle [OF assms(1,4), of m]]])
    show "bn_sqr_normal m r a n t = (let (m4, c) = bn_add_words
       (if n > 1 then
         (let (m1, c) = bn_mul_words (m(r := 0, r + (n * 2 - 1) := 0)) (r + 1) (a + 1) (n - 1) ((m(r := 0, r + (n * 2 - 1) := 0)) a);
              m2 = m1(r + 1 + (n - 1) := c)
          in if n > 2 then sqr_normal_rows m2 (r + 1 + 2) (a + 1) (n - 2) else m2) else m(r := 0, r + (n * 2 - 1) := 0))
       r r r (2 * n); m5 = bn_sqr_words m4 t a n; (m6, d) = bn_add_words m5 r r t (2 * n) in m6)"
      using assms(4) by (auto simp: bn_sqr_normal_def Let_def mult.commute split: prod.split)
  qed
  obtain m4 c where 4: "bn_add_words m3 r r r (2 * n) = (m4, c)" by fastforce
  define m5 where "m5 = bn_sqr_words m4 t a n"
  obtain m6 d where 6: "bn_add_words m5 r r t (2 * n) = (m6, d)" by fastforce
  note v4 = bn_add_words [OF 4 may_read_refl may_read_refl]
  note v5 = bn_sqr_words [OF assms(3), of m4, folded m5_def]
  have "may_read r t (2 * n)" using assms(2) by (auto simp: sep_def may_read_def)
  note v6 = bn_add_words [OF 6 may_read_refl this]
  have g4: "same_but r (2 * n) m m4" using t3(2) v4(2) by (auto simp: same_but_def)
  have sq: "word_squares m4 a n = word_squares m a n" by (intro word_squares_cong same_but_at [OF g4 assms(1)])
  have k5: "num_at m5 r (2 * n) = num_at m4 r (2 * n)" by (rule num_at_apart [OF v5(2) sep_sym [OF assms(2)]])
  have "num_at m a n * num_at m a n < 2 ^ (64 * n) * 2 ^ (64 * n)"
    using num_at_bound by (intro mult_strict_mono) simp_all
  then have bound: "2 * (2 ^ 64 * mixed_products m a n) + word_squares m a n < ?N"
    unfolding square_split [symmetric] by (simp flip: power_add add: mult_2 distrib_left)
  have "unat c = 0"
    using v4(1,3) t3(1) bound bit_carry [OF v4(3)] by auto
  then have "num_at m5 r (2 * n) = 2 * (2 ^ 64 * mixed_products m a n)" using k5 v4(1) t3(1) by simp
  then have sum: "num_at m6 r (2 * n) + ?N * unat d = num_at m a n * num_at m a n"
    using v6(1) v5(1) sq square_split [of m a n] by simp
  then have "unat d = 0" using bound bit_carry [OF v6(3)] square_split [of m a n] by auto
  then show "num_at (bn_sqr_normal m r a n t) r (2 * n) = num_at m a n * num_at m a n"
    using sum 4 6 by (simp add: run m5_def)
  have "same_but2 r (2 * n) t (2 * n) m m6" using g4 v5(2) v6(2) by (auto simp: same_but_def same_but2_def)
  then show "same_but2 r (2 * n) t (2 * n) m (bn_sqr_normal m r a n t)" using 4 6 by (simp add: run m5_def)
qed

section \<open>The recursive square\<close>

lemma abs_sub_words:
  assumes "sep r n t n" "sep r n a n" "sep r n b n" "sep t n a n" "sep t n b n"
  shows "int (num_at (bn_abs_sub_words m r a b n t) r n) = \<bar>int (num_at m a n) - int (num_at m b n)\<bar>"
    "same_but2 r n t n m (bn_abs_sub_words m r a b n t)"
proof -
  obtain m' msk where 1: "bn_abs_sub_part_words m r a b n 0 t = (m', msk)" by fastforce
  have "bn_abs_sub_words m r a b n t = m'"
    using 1 by (auto simp: bn_abs_sub_words_def bn_abs_sub_part_words_def bn_sub_part_words_def Let_def split: prod.splits)
  then show "int (num_at (bn_abs_sub_words m r a b n t) r n) = \<bar>int (num_at m a n) - int (num_at m b n)\<bar>"
    "same_but2 r n t n m (bn_abs_sub_words m r a b n t)"
    using bn_abs_sub_part_words [OF 1, of n n n] assms by simp_all
qed

text \<open>The end of the recursion: the middle term of a square is never negative.\<close>

lemma sqr_middle:
  assumes "sep r (4 * n) t (4 * n)"
    and X: "num_at m r (2 * n) = x * x" and Y: "num_at m (r + 2 * n) (2 * n) = y * y"
    and Z: "int (num_at m (t + 2 * n) (2 * n)) = (int x - int y) * (int x - int y)"
    and xy: "x < 2 ^ (64 * n)" "y < 2 ^ (64 * n)"
    and s1: "bn_add_words m t r (r + 2 * n) (2 * n) = (m1, c)"
    and s2: "bn_sub_words m1 (t + 2 * n) t (t + 2 * n) (2 * n) = (m2, bw)"
    and s3: "bn_add_words m2 (r + n) (r + n) (t + 2 * n) (2 * n) = (m3, cy)"
    and s4: "carry_on m3 (r + n + 2 * n) n (c - bw + cy) = (m4, c')"
  shows "c' = 0" "num_at m4 r (4 * n) = (x + 2 ^ (64 * n) * y) * (x + 2 ^ (64 * n) * y)" "same_but2 r (4 * n) t (4 * n) m m4"
proof -
  let ?N = "2 ^ (64 * (2 * n)) :: nat" and ?W = "2 ^ (64 * n) :: nat"
  have rd: "may_read t r (2 * n)" "may_read t (r + 2 * n) (2 * n)" "may_read (t + 2 * n) t (2 * n)"
    using assms(1) by (auto simp: sep_def may_read_def)
  note a1 = bn_add_words [OF s1 rd(1,2)]
  note a2 = bn_sub_words [OF s2 rd(3) may_read_refl]
  have k1: "num_at m1 (t + 2 * n) (2 * n) = num_at m (t + 2 * n) (2 * n)" by (rule num_at_apart [OF a1(2)]) (simp add: sep_def)
  have "int (2 * (x * y) + num_at m (t + 2 * n) (2 * n)) = int (x * x + y * y)"
    unfolding of_nat_add Z by (simp add: algebra_simps)
  then have M: "2 * (x * y) + num_at m (t + 2 * n) (2 * n) = x * x + y * y" by linarith
  have e: "num_at m2 (t + 2 * n) (2 * n) + ?N * unat c = 2 * (x * y) + ?N * unat bw"
    using a1(1) a2(1) k1 M by (simp add: X Y)
  moreover have "num_at m2 (t + 2 * n) (2 * n) < ?N" by (rule num_at_bound)
  ultimately have le: "unat bw \<le> unat c" using bit_carry [OF a1(3)] bit_carry [OF a2(3)] by auto
  then have cb: "unat (c - bw) = unat c - unat bw" by (simp add: unat_sub word_le_nat_alt)
  have mid: "num_at m2 (t + 2 * n) (2 * n) + ?N * unat (c - bw) = 2 * (x * y)" "unat (c - bw) \<le> 2"
    using e le a1(3) by (simp_all add: cb diff_mult_distrib2 add_diff_assoc)
  have f2: "same_but t (4 * n) m m2" using a1(2) a2(2) by (auto simp: same_but_def)
  have keep: "num_at m2 r (4 * n) = num_at m r (4 * n)" by (rule num_at_apart [OF f2 sep_sym [OF assms(1)]])
  have W: "?N = ?W * ?W" by (simp flip: power_add)
  have prod: "num_at m2 r (4 * n) + ?W * (2 * (x * y)) = (x + ?W * y) * (x + ?W * y)"
  proof -
    have "num_at m r (4 * n) = x * x + ?W * ?W * (y * y)"
      using num_at_append [of m r "2 * n" "2 * n"] unfolding X Y W by simp
    then show ?thesis unfolding keep by (simp add: algebra_simps)
  qed
  have "x + ?W * y < ?W * ?W"
  proof -
    have "?W * (y + 1) \<le> ?W * ?W" using xy(2) by (intro mult_le_mono2) simp
    then show ?thesis using xy(1) by (simp add: algebra_simps)
  qed
  then have "(x + ?W * y) * (x + ?W * y) < (?W * ?W) * (?W * ?W)" by (intro mult_strict_mono) simp_all
  then have small: "num_at m2 r (4 * n) + ?W * (2 * (x * y)) < 2 ^ (64 * (4 * n))" unfolding prod by (simp flip: power_add)
  have "sep r (4 * n) (t + 2 * n) (2 * n)" using assms(1) by (auto simp: sep_def)
  note fin = add_middle [OF s3 s4 this mid(2,1) small]
  show "c' = 0" "num_at m4 r (4 * n) = (x + ?W * y) * (x + ?W * y)" using fin(1,2) prod by simp_all
  show "same_but2 r (4 * n) t (4 * n) m m4" using f2 fin(3) by (auto simp: same_but_def same_but2_def)
qed

lemma bn_sqr_recursive:
  assumes "n2 = 2 ^ k" "sep r (2 * n2) a n2" "sep r (2 * n2) t (4 * n2)" "sep t (4 * n2) a n2"
  shows "\<exists>m'. bn_sqr_recursive m r a n2 t = Some m' \<and> num_at m' r (2 * n2) = num_at m a n2 * num_at m a n2 \<and>
    same_but2 r (2 * n2) t (4 * n2) m m'"
  using assms
proof (induction k arbitrary: n2 m r a t)
  case 0
  have "sep r (2 * n2) t (2 * n2)" "sep t (2 * n2) a n2" using 0 by (auto simp: sep_def)
  note v = bn_sqr_normal [OF 0(2) this, of m]
  have "bn_sqr_recursive m r a n2 t = Some (bn_sqr_normal m r a n2 t)"
    using 0(1) by (simp add: bn_sqr_recursive.simps c_assert_def BN_MUL_RECURSIVE_SIZE_NORMAL_def)
  then show ?case using v 0(1) by (auto simp: same_but2_def)
next
  case (Suc k)
  have pw: "n2 \<noteq> 0" "n2 AND (n2 - 1) = 0" using power_two_and by (simp_all only: Suc.prems(1)) simp
  consider "n2 = 4" | "n2 = 8" | "n2 < 16" "n2 \<noteq> 4" "n2 \<noteq> 8" | "16 \<le> n2" by linarith
  then show ?case
  proof cases
    case 1
    then have "bn_sqr_recursive m r a n2 t = Some (bn_sqr_comba4 m r a)"
      using pw unfolding bn_sqr_recursive.simps [of m r a n2] by (simp add: c_assert_def)
    then show ?thesis using bn_sqr_comba4 [of r a m] Suc.prems(2) 1 by (auto simp: sep_def intro: same_but2_same)
  next
    case 2
    then have "bn_sqr_recursive m r a n2 t = Some (bn_sqr_comba8 m r a)"
      using pw unfolding bn_sqr_recursive.simps [of m r a n2] by (simp add: c_assert_def)
    then show ?thesis using bn_sqr_comba8 [of r a m] Suc.prems(2) 2 by (auto simp: sep_def intro: same_but2_same)
  next
    case 3
    have "sep r (2 * n2) t (2 * n2)" "sep t (2 * n2) a n2" using Suc.prems by (auto simp: sep_def)
    note v = bn_sqr_normal [OF Suc.prems(2) this, of m]
    have "bn_sqr_recursive m r a n2 t = Some (bn_sqr_normal m r a n2 t)"
      using 3 pw by (simp add: bn_sqr_recursive.simps [of m r a n2] c_assert_def BN_MUL_RECURSIVE_SIZE_NORMAL_def)
    then show ?thesis using v pw by (auto simp: same_but2_def)
  next
    case 4
    define n where "n = n2 div 2"
    have n: "n2 = 2 * n" "n = 2 ^ k" using Suc.prems(1) by (simp_all add: n_def)
    let ?p = "t + 4 * n" and ?x = "num_at m a n" and ?y = "num_at m (a + n) n"
    define m1 where "m1 = bn_abs_sub_words m t a (a + n) n (t + n)"
    have dis: "sep r (4 * n) a (2 * n)" "sep r (4 * n) t (8 * n)" "sep t (8 * n) a (2 * n)" using Suc.prems(2-4) by (simp_all add: n(1))
    have in_t: "t \<le> q \<Longrightarrow> q + l \<le> t + 8 * n \<Longrightarrow> sep q l a n \<and> sep q l (a + n) n" for q l using dis(3) by (auto simp: sep_def)
    have in_r: "r \<le> q \<Longrightarrow> q + l \<le> r + 4 * n \<Longrightarrow> sep q l a n \<and> sep q l (a + n) n" for q l using dis(1) by (auto simp: sep_def)
    have rt: "r \<le> q \<Longrightarrow> q + l \<le> r + 4 * n \<Longrightarrow> t \<le> p \<Longrightarrow> p + i \<le> t + 8 * n \<Longrightarrow> sep q l p i" for q l p i
      using dis(2) by (rule sep_part)
    have v1: "int (num_at m1 t n) = \<bar>int ?x - int ?y\<bar>" "same_but2 t n (t + n) n m m1"
      unfolding m1_def using in_t [of t n] in_t [of "t + n" n] by (auto intro!: abs_sub_words simp: sep_def [of t n "t + n"])
    obtain m2 where m2: "bn_sqr_recursive m1 (t + 2 * n) t n ?p = Some m2" "num_at m2 (t + 2 * n) (2 * n) = num_at m1 t n * num_at m1 t n"
      "same_but2 (t + 2 * n) (2 * n) ?p (4 * n) m1 m2"
      using Suc.IH [OF n(2), of "t + 2 * n" t ?p m1] by (auto simp: sep_def)
    have f2: "same_but t (8 * n) m m2" using v1(2) m2(3) by (auto simp: same_but_def same_but2_def)
    have r1: "sep r (2 * n) ?p (4 * n)" "sep (r + 2 * n) (2 * n) ?p (4 * n)" using dis(2) by (auto simp: sep_def)
    obtain m3 where m3: "bn_sqr_recursive m2 r a n ?p = Some m3" "num_at m3 r (2 * n) = num_at m2 a n * num_at m2 a n"
      "same_but2 r (2 * n) ?p (4 * n) m2 m3"
      using Suc.IH [OF n(2) _ r1(1), of a m2] in_r [of r "2 * n"] in_t [of ?p "4 * n"] by auto
    obtain m4 where m4: "bn_sqr_recursive m3 (r + 2 * n) (a + n) n ?p = Some m4"
      "num_at m4 (r + 2 * n) (2 * n) = num_at m3 (a + n) n * num_at m3 (a + n) n" "same_but2 (r + 2 * n) (2 * n) ?p (4 * n) m3 m4"
      using Suc.IH [OF n(2) _ r1(2), of "a + n" m3] in_r [of "r + 2 * n" "2 * n"] in_t [of ?p "4 * n"] by auto
    have f3: "same_but2 r (2 * n) t (8 * n) m m3" using f2 m3(3) by (auto simp: same_but_def same_but2_def)
    have f4: "same_but2 r (4 * n) t (8 * n) m m4" using f3 m4(3) by (auto simp: same_but2_def)
    have ka: "num_at m2 a n = ?x" using num_at_apart [OF f2] in_t [of t "8 * n"] by blast
    have kb: "num_at m3 (a + n) n = ?y" using num_at_apart2 [OF f3] in_t [of t "8 * n"] in_r [of r "2 * n"] by simp
    have kr: "num_at m4 r (2 * n) = num_at m3 r (2 * n)" by (rule num_at_apart2 [OF m4(3)]) (use r1 sep_sym in \<open>auto simp: sep_def\<close>)
    have "num_at m4 (t + 2 * n) (2 * n) = num_at m3 (t + 2 * n) (2 * n)"
      by (rule num_at_apart2 [OF m4(3) rt]) (simp_all add: sep_def)
    also have "\<dots> = num_at m2 (t + 2 * n) (2 * n)" by (rule num_at_apart2 [OF m3(3) rt]) (simp_all add: sep_def)
    finally have "int (num_at m4 (t + 2 * n) (2 * n)) = (int ?x - int ?y) * (int ?x - int ?y)"
      using m2(2) v1(1) by (simp flip: abs_mult)
    note Z = this
    obtain m5 c where 5: "bn_add_words m4 t r (r + 2 * n) (2 * n) = (m5, c)" by fastforce
    obtain m6 bw where 6: "bn_sub_words m5 (t + 2 * n) t (t + 2 * n) (2 * n) = (m6, bw)" by fastforce
    obtain m7 cy where 7: "bn_add_words m6 (r + n) (r + n) (t + 2 * n) (2 * n) = (m7, cy)" by fastforce
    obtain m8 c' where 8: "carry_on m7 (r + n + 2 * n) n (c - bw + cy) = (m8, c')" by fastforce
    have "sep r (4 * n) t (4 * n)" using dis(2) by (auto simp: sep_def)
    note fin = sqr_middle [OF this _ _ Z num_at_bound num_at_bound 5 6 7 8, unfolded kr m3(2) m4(2) ka kb, OF refl refl]
    have "num_at m8 r (2 * n2) = num_at m a n2 * num_at m a n2"
      using fin(2) num_at_append [of m a n n, folded mult_2] by (simp add: n(1))
    moreover have "same_but2 r (2 * n2) t (4 * n2) m m8" using f4 fin(3) by (auto simp: same_but2_def n(1))
    moreover have "bn_sqr_recursive m r a n2 t = Some m8"
    proof -
      have "2 * n * 2 = 4 * n" "2 * n - n = n" "2 * n div 2 = n" by simp_all
      note nn = this
      show ?thesis using 4 pw m2(1) m3(1) m4(1) 8 fin(1)
        unfolding n(1) bn_sqr_recursive.simps [of m r a "2 * n"] Let_def nn m1_def [symmetric]
        by (simp add: c_assert_def BN_MUL_RECURSIVE_SIZE_NORMAL_def 5 6 7)
    qed
    ultimately show ?thesis by blast
  qed
qed

end
