(* ===== verification/Bn_Product.thy ===== *)
theory Bn_Product
  imports Bn_Ctx Bn_Sqr_Words
begin

unbundle bit_operations_syntax

text \<open>
  The products of big numbers, \<open>crypto/fipsmodule/bn/mul.c\<close>, over the functions on words and the pool of temporaries. The
  functions return their result with the pool and the store; \<open>None\<close> is a failed assertion, a call of \<open>abort\<close> or a null
  pointer followed. An array on the stack lies in the fresh memory above \<open>st_brk\<close>.
\<close>

definition set_width :: "nat \<Rightarrow> nat \<Rightarrow> bn_store \<Rightarrow> bn_store" where
  "set_width bn width S = bn_upd bn (\<lambda>b. b\<lparr>bn_width := width\<rparr>) S"

definition bn_abs_sub_consttime :: "allocator \<Rightarrow> nat \<Rightarrow> nat \<Rightarrow> nat \<Rightarrow> BN_CTX \<Rightarrow> bn_store \<Rightarrow> (bool \<times> BN_CTX \<times> bn_store) option" where
  "bn_abs_sub_consttime A r a b ctx S = do {
     let aw = bn_width (st_bn S a);
     let bw = bn_width (st_bn S b);
     let cl = (if aw < bw then aw else bw);
     let dl = int aw - int bw;
     let r_len = (if aw < bw then bw else aw);
     let ctx = BN_CTX_start A ctx;
     (tmp, ctx, S) \<leftarrow> BN_CTX_get A ctx S;
     (ok, S) \<leftarrow> (case tmp of
         None \<Rightarrow> Some (False, S)
       | Some tmp \<Rightarrow>
           (let (ok, S) = bn_wexpand A r r_len S
            in if \<not> ok then Some (False, S)
               else
                 (let (ok, S) = bn_wexpand A tmp r_len S
                  in if \<not> ok then Some (False, S)
                     else
                       (let (m, _) = bn_abs_sub_part_words (st_words S) (bn_d (st_bn S r)) (bn_d (st_bn S a)) (bn_d (st_bn S b)) cl dl
                                       (bn_d (st_bn S tmp))
                        in Some (True, set_width r r_len (S\<lparr>st_words := m\<rparr>))))));
     ctx \<leftarrow> BN_CTX_end ctx;
     Some (ok, ctx, S)
   }"

text \<open>The largest power of two up to the larger length, as \<open>bn_mul_impl\<close> computes it.\<close>

definition karatsuba_size :: "nat \<Rightarrow> nat \<Rightarrow> nat" where
  "karatsuba_size al bl = 2 ^ (unat (BN_num_bits_word (word_of_nat (if int al - int bl \<ge> 0 then al else bl))) - 1)"

text \<open>The product into \<open>rr\<close>, which is neither \<open>a\<close> nor \<open>b\<close>: \<open>bn_mul_impl\<close> up to the label \<open>end\<close>.\<close>

definition mul_into :: "allocator \<Rightarrow> nat \<Rightarrow> nat \<Rightarrow> nat \<Rightarrow> BN_CTX \<Rightarrow> bn_store \<Rightarrow> (bool \<times> BN_CTX \<times> bn_store) option" where
  "mul_into A rr a b ctx S =
     (let al = bn_width (st_bn S a); bl = bn_width (st_bn S b); i = int al - int bl; top = al + bl;
          ad = bn_d (st_bn S a); bd = bn_d (st_bn S b)
      in if i = 0 \<and> al = 8 then
           (let (ok, S) = bn_wexpand A rr 16 S
            in if \<not> ok then Some (False, ctx, S)
               else (let S = set_width rr 16 S
                     in Some (True, ctx, S\<lparr>st_words := bn_mul_comba8 (st_words S) (bn_d (st_bn S rr)) ad bd\<rparr>)))
         else if al \<ge> 16 \<and> bl \<ge> 16 \<and> - 1 \<le> i \<and> i \<le> 1 then do {
           let j = karatsuba_size al bl;
           c_assert (j \<le> al \<or> j \<le> bl);
           (t, ctx, S) \<leftarrow> BN_CTX_get A ctx S;
           (case t of
              None \<Rightarrow> Some (False, ctx, S)
            | Some t \<Rightarrow>
                if al > j \<or> bl > j then do {
                  c_assert (al \<ge> j \<and> bl \<ge> j);
                  let (ok, S) = bn_wexpand A t (j * 8) S;
                  if \<not> ok then Some (False, ctx, S)
                  else do {
                    let (ok, S) = bn_wexpand A rr (j * 4) S;
                    if \<not> ok then Some (False, ctx, S)
                    else do {
                      m \<leftarrow> bn_mul_part_recursive (st_words S) (bn_d (st_bn S rr)) ad bd j (int al - int j) (int bl - int j) (bn_d (st_bn S t));
                      Some (True, ctx, set_width rr top (S\<lparr>st_words := m\<rparr>))
                    }
                  }
                }
                else do {
                  let (ok, S) = bn_wexpand A t (j * 4) S;
                  if \<not> ok then Some (False, ctx, S)
                  else do {
                    let (ok, S) = bn_wexpand A rr (j * 2) S;
                    if \<not> ok then Some (False, ctx, S)
                    else do {
                      m \<leftarrow> bn_mul_recursive (st_words S) (bn_d (st_bn S rr)) ad bd j (int al - int j) (int bl - int j) (bn_d (st_bn S t));
                      Some (True, ctx, set_width rr top (S\<lparr>st_words := m\<rparr>))
                    }
                  }
                })
         }
         else
           (let (ok, S) = bn_wexpand A rr top S
            in if \<not> ok then Some (False, ctx, S)
               else (let S = set_width rr top S
                     in Some (True, ctx, S\<lparr>st_words := bn_mul_normal (st_words S) (bn_d (st_bn S rr)) ad al bd bl\<rparr>))))"

definition bn_mul_impl :: "allocator \<Rightarrow> nat \<Rightarrow> nat \<Rightarrow> nat \<Rightarrow> BN_CTX \<Rightarrow> bn_store \<Rightarrow> (bool \<times> BN_CTX \<times> bn_store) option" where
  "bn_mul_impl A r a b ctx S =
     (if bn_width (st_bn S a) = 0 \<or> bn_width (st_bn S b) = 0 then Some (True, ctx, BN_zero r S)
      else do {
        let ctx = BN_CTX_start A ctx;
        (rr, ctx, S) \<leftarrow> (if r = a \<or> r = b then BN_CTX_get A ctx S else Some (Some r, ctx, S));
        (ret, ctx, S) \<leftarrow> (case rr of
            None \<Rightarrow> Some (False, ctx, S)
          | Some rr \<Rightarrow> do {
              let S = set_neg rr (bn_neg (st_bn S a) \<noteq> bn_neg (st_bn S b)) S;
              (ok, ctx, S) \<leftarrow> mul_into A rr a b ctx S;
              (if \<not> ok then Some (False, ctx, S)
               else if r \<noteq> rr then (let (ok, S) = BN_copy A r rr S in Some (ok, ctx, S))
               else Some (True, ctx, S))
            });
        ctx \<leftarrow> BN_CTX_end ctx;
        Some (ret, ctx, S)
      })"

definition BN_mul :: "allocator \<Rightarrow> nat \<Rightarrow> nat \<Rightarrow> nat \<Rightarrow> BN_CTX \<Rightarrow> bn_store \<Rightarrow> (bool \<times> BN_CTX \<times> bn_store) option" where
  "BN_mul A r a b ctx S = do {
     (ok, ctx, S) \<leftarrow> bn_mul_impl A r a b ctx S;
     Some (if \<not> ok then (False, ctx, S) else (True, ctx, bn_set_minimal_width r S))
   }"

definition bn_mul_consttime :: "allocator \<Rightarrow> nat \<Rightarrow> nat \<Rightarrow> nat \<Rightarrow> BN_CTX \<Rightarrow> bn_store \<Rightarrow> (bool \<times> BN_CTX \<times> bn_store) option" where
  "bn_mul_consttime A r a b ctx S =
     (if bn_neg (st_bn S a) \<or> bn_neg (st_bn S b) then Some (False, ctx, S) else bn_mul_impl A r a b ctx S)"

definition bn_mul_small :: "words \<Rightarrow> nat \<Rightarrow> nat \<Rightarrow> nat \<Rightarrow> nat \<Rightarrow> nat \<Rightarrow> nat \<Rightarrow> words option" where
  "bn_mul_small m r num_r a num_a b num_b =
     (if num_r \<noteq> num_a + num_b then None
      else if num_a = 8 \<and> num_b = 8 then Some (bn_mul_comba8 m r a b)
      else Some (bn_mul_normal m r a num_a b num_b))"

definition BN_mul_word :: "allocator \<Rightarrow> nat \<Rightarrow> u64 \<Rightarrow> bn_store \<Rightarrow> bool \<times> bn_store" where
  "BN_mul_word A bn w S =
     (let width = bn_width (st_bn S bn); d = bn_d (st_bn S bn)
      in if width = 0 then (True, S)
         else if w = 0 then (True, BN_zero bn S)
         else
           (let (m, ll) = bn_mul_words (st_words S) d d width w;
                S = S\<lparr>st_words := m\<rparr>
            in if ll \<noteq> 0 then
                 (let (ok, S) = bn_wexpand A bn (width + 1) S
                  in if \<not> ok then (False, S) else (True, set_width bn (width + 1) (set_limb bn width ll S)))
               else (True, S)))"

text \<open>The square of the words of \<open>a\<close> into \<open>rr\<close>, with scratch space in \<open>tmp\<close> or on the stack.\<close>

definition sqr_into :: "allocator \<Rightarrow> nat \<Rightarrow> nat \<Rightarrow> nat \<Rightarrow> bn_store \<Rightarrow> (bool \<times> bn_store) option" where
  "sqr_into A rr a tmp S =
     (let al = bn_width (st_bn S a); m = st_words S; rd = bn_d (st_bn S rr); ad = bn_d (st_bn S a)
      in if al = 4 then Some (True, S\<lparr>st_words := bn_sqr_comba4 m rd ad\<rparr>)
         else if al = 8 then Some (True, S\<lparr>st_words := bn_sqr_comba8 m rd ad\<rparr>)
         else if al < BN_MUL_RECURSIVE_SIZE_NORMAL then Some (True, S\<lparr>st_words := bn_sqr_normal m rd ad al (st_brk S)\<rparr>)
         else if al \<noteq> 0 \<and> al AND (al - 1) = 0 then
           (let (ok, S) = bn_wexpand A tmp (al * 4) S
            in if \<not> ok then Some (False, S)
               else do {
                 m \<leftarrow> bn_sqr_recursive (st_words S) rd ad al (bn_d (st_bn S tmp));
                 Some (True, S\<lparr>st_words := m\<rparr>)
               })
         else
           (let (ok, S) = bn_wexpand A tmp (2 * al) S
            in if \<not> ok then Some (False, S)
               else Some (True, S\<lparr>st_words := bn_sqr_normal (st_words S) rd ad al (bn_d (st_bn S tmp))\<rparr>)))"

definition bn_sqr_consttime :: "allocator \<Rightarrow> nat \<Rightarrow> nat \<Rightarrow> BN_CTX \<Rightarrow> bn_store \<Rightarrow> (bool \<times> BN_CTX \<times> bn_store) option" where
  "bn_sqr_consttime A r a ctx S =
     (let al = bn_width (st_bn S a)
      in if al = 0 then Some (True, ctx, BN_zero r S)
         else do {
           let ctx = BN_CTX_start A ctx;
           (rr, ctx, S) \<leftarrow> (if a \<noteq> r then Some (Some r, ctx, S) else BN_CTX_get A ctx S);
           (tmp, ctx, S) \<leftarrow> BN_CTX_get A ctx S;
           (ret, S) \<leftarrow> (case (rr, tmp) of
               (Some rr, Some tmp) \<Rightarrow>
                 (let (ok, S) = bn_wexpand A rr (2 * al) S
                  in if \<not> ok then Some (False, S)
                     else do {
                       (ok, S) \<leftarrow> sqr_into A rr a tmp S;
                       (if \<not> ok then Some (False, S)
                        else
                          (let S = set_width rr (2 * al) (set_neg rr False S)
                           in Some (if rr \<noteq> r then BN_copy A r rr S else (True, S))))
                     })
             | _ \<Rightarrow> Some (False, S));
           ctx \<leftarrow> BN_CTX_end ctx;
           Some (ret, ctx, S)
         })"

definition BN_sqr :: "allocator \<Rightarrow> nat \<Rightarrow> nat \<Rightarrow> BN_CTX \<Rightarrow> bn_store \<Rightarrow> (bool \<times> BN_CTX \<times> bn_store) option" where
  "BN_sqr A r a ctx S = do {
     (ok, ctx, S) \<leftarrow> bn_sqr_consttime A r a ctx S;
     Some (if \<not> ok then (False, ctx, S) else (True, ctx, bn_set_minimal_width r S))
   }"

definition BN_SMALL_MAX_WORDS :: nat where
  "BN_SMALL_MAX_WORDS = 9"

text \<open>The array on the stack is \<open>tmp\<close>, cleared at the end.\<close>

definition bn_sqr_small :: "words \<Rightarrow> nat \<Rightarrow> nat \<Rightarrow> nat \<Rightarrow> nat \<Rightarrow> nat \<Rightarrow> words option" where
  "bn_sqr_small m r num_r a num_a tmp =
     (if num_r \<noteq> 2 * num_a \<or> num_a > BN_SMALL_MAX_WORDS then None
      else if num_a = 4 then Some (bn_sqr_comba4 m r a)
      else if num_a = 8 then Some (bn_sqr_comba8 m r a)
      else Some (words_zero (bn_sqr_normal m r a num_a tmp) tmp (2 * num_a)))"

end
