(* ===== verification/Bn_Product_Correct.thy ===== *)
theory Bn_Product_Correct
  imports Bn_Product
begin

unbundle bit_operations_syntax

text \<open>
  The products of big numbers compute products of integers, for every overlap of result and operands, and give back the
  temporaries they took from the pool. Every assertion holds; with memory granted the functions succeed.
\<close>

section \<open>The size of a word in bits\<close>

text \<open>The high bits of \<open>w\<close> are \<open>l\<close>, and \<open>bits\<close> counts the others and one more.\<close>

definition bits_split :: "u64 \<Rightarrow> u64 \<times> u32 \<Rightarrow> nat \<Rightarrow> bool" where
  "bits_split w = (\<lambda>(l, bits) k. 0 < unat bits \<and> unat bits + k \<le> 65 \<and> l \<noteq> 0 \<and> unat l < 2 ^ k \<and> unat w div 2 ^ (unat bits - 1) = unat l)"

lemma top_mask: "0 - drop_bit 63 (0 - drop_bit k l) = (if drop_bit k l = (0 :: u64) then 0 else - 1 :: u64)" if "0 < k"
proof (cases "drop_bit k l = 0")
  case False
  define x where "x = drop_bit k l"
  have "unat x \<le> unat l div 2" using that by (auto simp: x_def unat_drop_bit intro!: div_le_mono2 self_le_power)
  then have x: "0 < unat x" "unat x < 2 ^ 63" using False unat_u64_less [of l] by (auto simp: x_def unat_gt_0)
  then have "unat (- x) = 2 ^ 64 - unat x" using unat_sub_if' [of 0 x] by simp
  then have "unat (drop_bit 63 (- x)) = 1" using x by (simp add: unat_drop_bit)
  then have "drop_bit 63 (- x) = 1" by (metis unat_1 word_unat_eq_iff)
  then show ?thesis using False by (simp add: x_def)
qed simp

lemma num_bits_step:
  assumes "bits_split w (l, bits) (2 * k)" "0 < k" "k \<le> 32"
  shows "bits_split w (num_bits_step k (l, bits)) k"
proof (cases "drop_bit k l = 0")
  case True
  then have "num_bits_step k (l, bits) = (l, bits)" using top_mask [OF assms(2), of l] by (simp add: num_bits_step_def Let_def)
  moreover have "unat l < 2 ^ k" using True by (metis div_eq_0_iff power_not_zero unat_0 unat_drop_bit zero_neq_numeral)
  ultimately show ?thesis using assms(1) by (simp add: bits_split_def)
next
  case False
  define x where "x = drop_bit k l"
  have kw: "unat (word_of_nat k :: u32) = k" "ucast (word_of_nat k :: u64) = (word_of_nat k :: u32)"
    using assms(3) by (simp_all add: unat_of_nat word_unat_eq_iff unsigned_ucast_eq unsigned_of_nat take_bit_nat_eq_self)
  have b: "unat bits + 2 * k \<le> 65" "0 < unat bits" using assms(1) by (simp_all add: bits_split_def)
  have xx: "l XOR (x XOR l) = x" by (rule bit_word_eqI) (auto simp: bit_xor_iff)
  have "num_bits_step k (l, bits) = (x, bits + word_of_nat k)"
    using top_mask [OF assms(2), of l] False kw(2) xx [unfolded x_def] by (simp add: num_bits_step_def Let_def x_def)
  moreover have "unat (bits + word_of_nat k) = unat bits + k"
    using b assms(3) kw(1) by (simp add: unat_plus_if')
  moreover have "unat x = unat l div 2 ^ k" by (simp add: x_def unat_drop_bit)
  moreover have "unat l div 2 ^ k < 2 ^ k" using assms(1) by (auto simp: bits_split_def less_mult_imp_div_less power_add [symmetric] mult_2)
  moreover have "unat w div 2 ^ (unat bits + k - 1) = unat l div 2 ^ k"
  proof -
    have e: "unat bits + k - 1 = (unat bits - 1) + k" using b by simp
    have "unat w div 2 ^ (unat bits - 1) = unat l" using assms(1) by (simp add: bits_split_def)
    then show ?thesis unfolding e power_add div_mult2_eq by (rule arg_cong)
  qed
  ultimately show ?thesis using b False by (simp add: bits_split_def x_def)
qed

lemma BN_num_bits_word:
  assumes "w \<noteq> 0"
  shows "0 < unat (BN_num_bits_word w)" "2 ^ (unat (BN_num_bits_word w) - 1) \<le> unat w" "unat w < 2 ^ unat (BN_num_bits_word w)"
proof -
  have "bits_split w (w, 1) (2 * 32)" using assms unat_u64_less [of w] by (simp add: bits_split_def)
  then have "bits_split w (num_bits_step 32 (w, 1)) (2 * 16)" using num_bits_step [of w w 1 32] by simp
  then have "bits_split w (num_bits_step 16 (num_bits_step 32 (w, 1))) (2 * 8)"
    by (cases "num_bits_step 32 (w, 1)") (use num_bits_step [of w _ _ 16] in simp)
  then have "bits_split w (num_bits_step 8 (num_bits_step 16 (num_bits_step 32 (w, 1)))) (2 * 4)"
    by (cases "num_bits_step 16 (num_bits_step 32 (w, 1))") (use num_bits_step [of w _ _ 8] in simp)
  then have "bits_split w (num_bits_step 4 (num_bits_step 8 (num_bits_step 16 (num_bits_step 32 (w, 1))))) (2 * 2)"
    by (cases "num_bits_step 8 (num_bits_step 16 (num_bits_step 32 (w, 1)))") (use num_bits_step [of w _ _ 4] in simp)
  moreover obtain l bits where lb: "num_bits_step 2 (num_bits_step 4 (num_bits_step 8 (num_bits_step 16 (num_bits_step 32 (w, 1))))) = (l, bits)"
    by fastforce
  ultimately have "bits_split w (l, bits) (2 * 1)"
    by (cases "num_bits_step 4 (num_bits_step 8 (num_bits_step 16 (num_bits_step 32 (w, 1))))") (use num_bits_step [of w _ _ 2] in \<open>simp flip: lb\<close>)
  from num_bits_step [OF this] have last: "bits_split w (num_bits_step 1 (l, bits)) 1" by simp
  have r: "BN_num_bits_word w = snd (num_bits_step 1 (l, bits))"
    using assms lb by (simp add: BN_num_bits_word_def Let_def split_beta) (simp add: num_bits_step_def Let_def)
  obtain l' where l': "num_bits_step 1 (l, bits) = (l', BN_num_bits_word w)" using r by (metis prod.collapse)
  let ?b = "unat (BN_num_bits_word w)"
  have v: "0 < ?b" "unat l' = 1" "unat w div 2 ^ (?b - 1) = unat l'"
    using last unfolding l' bits_split_def by (auto simp: less_2_cases_iff unat_eq_zero)
  then have "2 ^ (?b - 1) + unat w mod 2 ^ (?b - 1) = unat w" using div_mult_mod_eq [of "unat w" "2 ^ (?b - 1)"] by simp
  moreover have "unat w mod 2 ^ (?b - 1) < 2 ^ (?b - 1)" by simp
  ultimately have "2 ^ (?b - 1) \<le> unat w" "unat w < 2 * 2 ^ (?b - 1)" by linarith+
  then show "0 < ?b" "2 ^ (?b - 1) \<le> unat w" "unat w < 2 ^ ?b" using v(1) by (simp_all flip: power_Suc)
qed

lemma karatsuba_size:
  assumes "0 < max al bl" "max al bl < 2 ^ 64"
  shows "\<exists>k. karatsuba_size al bl = 2 ^ k \<and> 2 ^ k \<le> max al bl \<and> max al bl < 2 * 2 ^ k"
proof -
  have m: "(if int al - int bl \<ge> 0 then al else bl) = max al bl" by (simp add: max_def)
  define w where "w = (word_of_nat (max al bl) :: u64)"
  have w: "unat w = max al bl" using assms(2) by (simp add: w_def unat_of_nat)
  then have "w \<noteq> 0" using assms(1) by auto
  note b = BN_num_bits_word [OF this, unfolded w]
  have "max al bl < 2 * 2 ^ (unat (BN_num_bits_word w) - 1)" using b(1,3) by (simp flip: power_Suc)
  then show ?thesis using b(2) unfolding karatsuba_size_def m w_def [symmetric] by blast
qed

section \<open>Operations that alter some numbers\<close>

definition alters :: "nat set \<Rightarrow> nat set \<Rightarrow> bn_store \<Rightarrow> bn_store \<Rightarrow> bool" where
  "alters K R S S' \<longleftrightarrow> store_ok K S' \<and> st_bn_brk S' = st_bn_brk S \<and> kept (K - R) S S' \<and>
     (\<forall>i. bn_flags (st_bn S' i) = bn_flags (st_bn S i))"

lemma alters_refl: "store_ok K S \<Longrightarrow> alters K R S S"
  by (simp add: alters_def kept_refl)

lemma alters_trans [trans]: "alters K R S S' \<Longrightarrow> alters K R S' S'' \<Longrightarrow> alters K R S S''"
  by (auto simp: alters_def intro: kept_trans)

lemma alters_mono: "alters K R S S' \<Longrightarrow> R \<subseteq> R' \<Longrightarrow> alters K R' S S'"
  by (auto simp: alters_def intro: kept_mono)

lemma alters_ok: "alters K R S S' \<Longrightarrow> store_ok K S'"
  by (simp add: alters_def)

lemma alters_val:
  assumes "alters K R S S'" "store_ok K S" "i \<in> K" "i \<notin> R"
  shows "st_bn S' i = st_bn S i" "bn_abs S' i = bn_abs S i" "bn_val S' i = bn_val S i"
  using assms kept_val [of "K - R" S S' K i] by (auto simp: alters_def kept_def)

lemma changes_alters: "changes K r S S' \<Longrightarrow> \<forall>i. bn_flags (st_bn S' i) = bn_flags (st_bn S i) \<Longrightarrow> alters K {r} S S'"
  using changes_kept [of K r S S' "K - {r}"] by (auto simp: alters_def changes_def)

lemma ctx_ok_alters: "ctx_ok L ctx S \<Longrightarrow> alters (live L ctx) R S S' \<Longrightarrow> ctx_ok L ctx S'"
  by (simp add: ctx_ok_def alters_def)

lemma ample_alters: "ample A n ctx S \<Longrightarrow> alters K R S S' \<Longrightarrow> ample A n ctx S'"
  by (simp add: ample_def alters_def)

text \<open>A number that can grow to \<open>n\<close> words when memory is granted.\<close>

definition growable :: "allocator \<Rightarrow> bn_store \<Rightarrow> nat \<Rightarrow> nat \<Rightarrow> bool" where
  "growable A S r n \<longleftrightarrow> (\<forall>k. malloc_ok A k) \<and> bn_flags (st_bn S r) AND BN_FLG_STATIC_DATA = 0 \<and> n \<le> BN_MAX_WORDS"

lemma growable_can: "growable A S r n \<Longrightarrow> k \<le> n \<Longrightarrow> can_grow A S r k"
  using granted [of A "k * 8"]
  by (auto simp: growable_def can_grow_def OPENSSL_calloc_def OPENSSL_zalloc_def BN_MAX_WORDS_def INT_MAX_def size_mod_def size_mul_exact
      split: option.split)

lemma growable_to: "growable A S r n \<Longrightarrow> can_grow_to A S r n"
  by (simp add: can_grow_to_def growable_can)

lemma growable_alters: "growable A S r n \<Longrightarrow> alters K R S S' \<Longrightarrow> growable A S' r n"
  by (simp add: growable_def alters_def)

lemma ample_growable: "ample A n ctx S \<Longrightarrow> i \<in> set (pool ctx) \<Longrightarrow> k \<le> BN_MAX_WORDS \<Longrightarrow> growable A S i k"
  by (simp add: ample_def growable_def)

lemma alters_wexpand:
  assumes "bn_wexpand A r n S = (ok, S')" "store_ok K S" "r \<in> K"
  shows "alters K {r} S S'" "ok \<Longrightarrow> n \<le> bn_dmax (st_bn S' r)" "growable A S r k \<Longrightarrow> n \<le> k \<Longrightarrow> ok"
    "bn_width (st_bn S' i) = bn_width (st_bn S i)" "bn_neg (st_bn S' i) = bn_neg (st_bn S i)" "i \<in> K \<Longrightarrow> bn_abs S' i = bn_abs S i"
proof -
  have "alters K {r} S S' \<and> (ok \<longrightarrow> n \<le> bn_dmax (st_bn S' r)) \<and> bn_width (st_bn S' i) = bn_width (st_bn S i) \<and>
      bn_neg (st_bn S' i) = bn_neg (st_bn S i) \<and> (i \<in> K \<longrightarrow> bn_abs S' i = bn_abs S i)"
  proof (cases ok)
    case True
    note w = bn_wexpand [OF assms(1) [unfolded True iffD2 [OF eq_True True]] assms(2,3)]
    then show ?thesis using wexpand_abs [OF _ assms(2,3)] assms(1) True by (auto intro: changes_alters)
  next
    case False
    then show ?thesis using wexpand_fail [of A r n S S'] assms alters_refl by auto
  qed
  then show "alters K {r} S S'" "ok \<Longrightarrow> n \<le> bn_dmax (st_bn S' r)"
    "bn_width (st_bn S' i) = bn_width (st_bn S i)" "bn_neg (st_bn S' i) = bn_neg (st_bn S i)" "i \<in> K \<Longrightarrow> bn_abs S' i = bn_abs S i" by auto
  show "growable A S r k \<Longrightarrow> n \<le> k \<Longrightarrow> ok" using wexpand_iff [of A r n S] growable_can assms(1) by auto
qed

lemma alters_fields:
  assumes "store_ok K S" "bn_d (f (st_bn S r)) = bn_d (st_bn S r)" "bn_dmax (f (st_bn S r)) = bn_dmax (st_bn S r)"
    "bn_width (f (st_bn S r)) \<le> bn_dmax (st_bn S r)" "bn_flags (f (st_bn S r)) = bn_flags (st_bn S r)"
  shows "alters K {r} S (bn_upd r f S)"
  using assms by (intro changes_alters changes_fields) (auto simp: bn_upd_def)

lemma alters_set_neg: "store_ok K S \<Longrightarrow> r \<in> K \<Longrightarrow> alters K {r} S (set_neg r b S)"
  unfolding set_neg_def by (rule alters_fields) (auto simp: store_ok_width)

lemma alters_zero: "store_ok K S \<Longrightarrow> alters K {r} S (BN_zero r S)"
  unfolding BN_zero_def by (rule alters_fields) auto

lemma alters_minimal: "store_ok K S \<Longrightarrow> r \<in> K \<Longrightarrow> alters K {r} S (bn_set_minimal_width r S)"
  using bn_set_minimal_width(1) by (intro changes_alters) (auto simp: bn_set_minimal_width_def Let_def bn_upd_def)

text \<open>Writing into the memory of two numbers, or of one number and fresh memory.\<close>

lemma alters_words2:
  assumes "store_ok K S" "r \<in> K" "t \<in> K" "same_but2 (bn_d (st_bn S r)) n (bn_d (st_bn S t)) k (st_words S) m"
    "n \<le> bn_dmax (st_bn S r)" "k \<le> bn_dmax (st_bn S t)"
  shows "alters K {r, t} S (S\<lparr>st_words := m\<rparr>)"
proof -
  have "limb (S\<lparr>st_words := m\<rparr>) i j = limb S i j" if "i \<in> K" "i \<noteq> r" "i \<noteq> t" "j < bn_dmax (st_bn S i)" for i j
  proof -
    have "apart S r i" "apart S t i" using assms(1-3) that by (auto simp: store_ok_def)
    then show ?thesis using assms(4-6) that(4) by (auto simp: apart_def limb_def same_but2_def)
  qed
  then show ?thesis using assms(1) by (auto simp: alters_def kept_def store_ok_def bn_ok_def apart_def)
qed

lemma alters_words_fresh:
  assumes "store_ok K S" "r \<in> K" "same_but2 (bn_d (st_bn S r)) n (st_brk S) k (st_words S) m" "n \<le> bn_dmax (st_bn S r)"
  shows "alters K {r} S (S\<lparr>st_words := m\<rparr>)"
proof -
  have "limb (S\<lparr>st_words := m\<rparr>) i j = limb S i j" if "i \<in> K" "i \<noteq> r" "j < bn_dmax (st_bn S i)" for i j
  proof -
    have "apart S r i" "bn_ok S i" using assms(1,2) that by (auto simp: store_ok_def)
    then show ?thesis using assms(3,4) that(3) by (auto simp: apart_def bn_ok_def limb_def same_but2_def)
  qed
  then show ?thesis using assms(1) by (auto simp: alters_def kept_def store_ok_def bn_ok_def apart_def)
qed

lemma alters_words:
  assumes "store_ok K S" "r \<in> K" "same_but (bn_d (st_bn S r)) n (st_words S) m" "n \<le> bn_dmax (st_bn S r)"
  shows "alters K {r} S (S\<lparr>st_words := m\<rparr>)"
  using changes_words [OF assms] by (intro changes_alters) auto

lemma alters_set_width: "store_ok K S \<Longrightarrow> w \<le> bn_dmax (st_bn S r) \<Longrightarrow> alters K {r} S (set_width r w S)"
  unfolding set_width_def by (rule alters_fields) auto

lemma store_apart: "store_ok K S \<Longrightarrow> i \<in> K \<Longrightarrow> j \<in> K \<Longrightarrow> i \<noteq> j \<Longrightarrow> apart S i j"
  by (simp add: store_ok_def)

lemma apart_sep: "store_ok K S \<Longrightarrow> i \<in> K \<Longrightarrow> j \<in> K \<Longrightarrow> i \<noteq> j \<Longrightarrow> n \<le> bn_dmax (st_bn S i) \<Longrightarrow> k \<le> bn_dmax (st_bn S j) \<Longrightarrow>
    sep (bn_d (st_bn S i)) n (bn_d (st_bn S j)) k"
  by (drule (3) store_apart) (auto simp: apart_def sep_def)

lemma num_at_shorten:
  assumes "num_at m p n < 2 ^ (64 * k)" "k \<le> n"
  shows "num_at m p k = num_at m p n"
proof (rule ccontr)
  assume "num_at m p k \<noteq> num_at m p n"
  moreover have s: "num_at m p n = num_at m p k + 2 ^ (64 * k) * num_at m (p + k) (n - k)"
    using num_at_append [of m p k "n - k"] assms(2) by simp
  ultimately have "1 \<le> num_at m (p + k) (n - k)" by (cases "num_at m (p + k) (n - k)") auto
  then have "2 ^ (64 * k) * 1 \<le> 2 ^ (64 * k) * num_at m (p + k) (n - k)" by (rule mult_le_mono2)
  then show False using s assms(1) by linarith
qed

lemma abs_bound: "bn_abs S i < 2 ^ (64 * bn_width (st_bn S i))"
  by (simp add: bn_abs_def num_at_bound)

lemma product_bound: "bn_abs S a * bn_abs S b < 2 ^ (64 * (bn_width (st_bn S a) + bn_width (st_bn S b)))"
  using mult_strict_mono [OF abs_bound abs_bound, of S a S b] by (simp add: power_add distrib_left)

text \<open>A result of \<open>tw\<close> words, stored with scratch space in another number.\<close>

lemma store_result:
  assumes "store_ok K S" "r \<in> K" "t \<in> K" "same_but2 (bn_d (st_bn S r)) n (bn_d (st_bn S t)) k (st_words S) m"
    "n \<le> bn_dmax (st_bn S r)" "k \<le> bn_dmax (st_bn S t)" "num_at m (bn_d (st_bn S r)) n = P" "P < 2 ^ (64 * tw)" "tw \<le> n"
  defines "S' \<equiv> set_width r tw (S\<lparr>st_words := m\<rparr>)"
  shows "alters K {r, t} S S'" "bn_abs S' r = P" "bn_neg (st_bn S' r) = bn_neg (st_bn S r)"
proof -
  note 1 = alters_words2 [OF assms(1-6)]
  have "alters K {r} (S\<lparr>st_words := m\<rparr>) S'" unfolding S'_def
    by (rule alters_set_width [OF alters_ok [OF 1]]) (use assms(5,9) in simp)
  then have "alters K {r, t} (S\<lparr>st_words := m\<rparr>) S'" by (rule alters_mono) simp
  with 1 show "alters K {r, t} S S'" by (rule alters_trans)
  show "bn_abs S' r = P" using num_at_shorten [of m "bn_d (st_bn S r)" n tw] assms(7-9) by (simp add: S'_def set_width_def bn_abs_def)
  show "bn_neg (st_bn S' r) = bn_neg (st_bn S r)" by (simp add: S'_def set_width_def)
qed

lemma alters_copy:
  assumes "BN_copy A r s S = (ok, S')" "store_ok K S" "r \<in> K" "s \<in> K"
  shows "alters K {r} S S'" "ok \<Longrightarrow> bn_abs S' r = bn_abs S s" "ok \<Longrightarrow> bn_neg (st_bn S' r) = bn_neg (st_bn S s)"
    "growable A S r k \<Longrightarrow> bn_width (st_bn S s) \<le> k \<Longrightarrow> ok"
proof -
  let ?n = "bn_width (st_bn S s)"
  have "alters K {r} S S' \<and> (ok \<longrightarrow> bn_abs S' r = bn_abs S s \<and> bn_neg (st_bn S' r) = bn_neg (st_bn S s)) \<and>
      (growable A S r k \<longrightarrow> ?n \<le> k \<longrightarrow> ok)"
  proof (cases "s = r")
    case True
    then show ?thesis using assms by (auto simp: BN_copy_def alters_refl)
  next
    case False
    obtain g S1 where w: "bn_wexpand A r ?n S = (g, S1)" by fastforce
    note v = alters_wexpand [OF w assms(2,3)]
    show ?thesis
    proof (cases g)
      case True
      let ?m = "words_move (st_words S1) (bn_d (st_bn S1 r)) (bn_d (st_bn S1 s)) ?n"
      let ?S2 = "S1\<lparr>st_words := ?m\<rparr>"
      have S': "ok" "S' = bn_upd r (\<lambda>b. b\<lparr>bn_width := ?n, bn_neg := bn_neg (st_bn S1 s)\<rparr>) ?S2"
        using assms(1) w True False v(4) [of s] by (auto simp: BN_copy_def Let_def)
      have mv: "same_but (bn_d (st_bn S1 r)) ?n (st_words S1) ?m" by (auto simp: same_but_def words_move_def)
      have 2: "alters K {r} S1 ?S2" by (rule alters_words [OF alters_ok [OF v(1)] assms(3) mv v(2) [OF True]])
      have "alters K {r} ?S2 S'" unfolding S'(2)
        by (rule alters_fields [OF alters_ok [OF 2]]) (use v(2) [OF True] in simp_all)
      then have "alters K {r} S S'" using v(1) 2 alters_trans by blast
      moreover have "bn_abs S' r = bn_abs S1 s"
        using v(4) [of s] by (auto simp: S'(2) bn_abs_def words_move_def intro!: num_at_cong)
      ultimately show ?thesis using v(5) [of s] v(6) [of s] assms(4) S' by simp
    next
      case g: False
      then have "ok = False" "S' = S1" using assms(1) w False by (auto simp: BN_copy_def)
      then show ?thesis using v(1,3) g by auto
    qed
  qed
  then show "alters K {r} S S'" "ok \<Longrightarrow> bn_abs S' r = bn_abs S s" "ok \<Longrightarrow> bn_neg (st_bn S' r) = bn_neg (st_bn S s)"
    "growable A S r k \<Longrightarrow> bn_width (st_bn S s) \<le> k \<Longrightarrow> ok" by auto
qed

section \<open>Steps of a function with temporaries\<close>

text \<open>The numbers of the caller, and the temporaries taken so far.\<close>

definition mine :: "nat set \<Rightarrow> BN_CTX \<Rightarrow> nat set" where
  "mine L ctx = L \<union> set (take (cx_used ctx) (pool ctx))"

definition advances :: "nat set \<Rightarrow> nat set \<Rightarrow> BN_CTX \<Rightarrow> bn_store \<Rightarrow> BN_CTX \<Rightarrow> bn_store \<Rightarrow> bool" where
  "advances L R ctx S ctx' S' \<longleftrightarrow> ctx_ok L ctx' S' \<and> kept (mine L ctx - R) S S' \<and>
     (\<forall>i \<in> mine L ctx. bn_flags (st_bn S' i) = bn_flags (st_bn S i)) \<and>
     take (cx_used ctx) (pool ctx') = take (cx_used ctx) (pool ctx) \<and> frames ctx' = frames ctx \<and> cx_used ctx \<le> cx_used ctx' \<and>
     (cx_error ctx \<longrightarrow> cx_error ctx')"

lemma mine_live: "mine L ctx \<subseteq> live L ctx"
  by (auto simp: mine_def live_def dest: in_set_takeD)

lemma mine_advances: "advances L R ctx S ctx' S' \<Longrightarrow> mine L ctx \<subseteq> mine L ctx'"
proof -
  assume "advances L R ctx S ctx' S'"
  then have eq: "take (cx_used ctx) (pool ctx) = take (cx_used ctx) (pool ctx')" "cx_used ctx \<le> cx_used ctx'" by (simp_all add: advances_def)
  have "set (take (cx_used ctx) (pool ctx)) \<subseteq> set (take (cx_used ctx') (pool ctx'))"
    unfolding eq(1) by (rule set_take_subset_set_take [OF eq(2)])
  then show ?thesis unfolding mine_def by blast
qed

lemma advances_refl: "ctx_ok L ctx S \<Longrightarrow> advances L R ctx S ctx S"
  by (simp add: advances_def kept_refl)

lemma advances_trans:
  assumes "advances L R ctx S ctx' S'" "advances L R' ctx' S' ctx'' S''" "R \<inter> mine L ctx \<subseteq> R''" "R' \<inter> mine L ctx \<subseteq> R''"
  shows "advances L R'' ctx S ctx'' S''"
proof -
  note m = mine_advances [OF assms(1)]
  have "kept (mine L ctx - R'') S S'" using assms(1,3) by (auto simp: advances_def intro: kept_mono)
  moreover have "kept (mine L ctx - R'') S' S''"
    by (rule kept_mono [of "mine L ctx' - R'"]) (use assms(2,4) m in \<open>auto simp: advances_def\<close>)
  ultimately have "kept (mine L ctx - R'') S S''" by (rule kept_trans)
  moreover have "take (cx_used ctx) (pool ctx'') = take (cx_used ctx) (pool ctx)"
    using assms(1,2) unfolding advances_def by (metis min.absorb1 take_take)
  ultimately show ?thesis using assms(1,2) m by (auto simp: advances_def)
qed

lemma alters_advances:
  assumes "alters (live L ctx) R S S'" "ctx_ok L ctx S" "R \<inter> mine L ctx \<subseteq> R'"
  shows "advances L R' ctx S ctx S'"
  using assms ctx_ok_alters [OF assms(2,1)] mine_live [of L ctx] by (auto simp: advances_def alters_def intro: kept_mono)

lemma get_advances:
  assumes "ctx_ok L ctx S"
  shows "\<exists>p ctx' S'. BN_CTX_get A ctx S = Some (p, ctx', S') \<and> advances L {} ctx S ctx' S' \<and>
    (\<forall>n. ample A (Suc n) ctx S \<longrightarrow> p \<noteq> None \<and> ample A n ctx' S') \<and>
    (\<forall>t. p = Some t \<longrightarrow> \<not> cx_error ctx' \<and> t \<in> mine L ctx' \<and> t \<notin> mine L ctx)"
proof -
  obtain p ctx' S' where g: "BN_CTX_get A ctx S = Some (p, ctx', S')" "ctx_ok L ctx' S'" "kept (mine L ctx) S S'"
    "take (cx_used ctx) (pool ctx') = take (cx_used ctx) (pool ctx)" "frames ctx' = frames ctx" "p = None \<longrightarrow> cx_error ctx' \<and> cx_used ctx' = cx_used ctx"
    "\<forall>t. p = Some t \<longrightarrow> \<not> cx_error ctx \<and> \<not> cx_error ctx' \<and> cx_used ctx' = cx_used ctx + 1 \<and> take (cx_used ctx') (pool ctx') = take (cx_used ctx) (pool ctx) @ [t]"
    using ctx_get [OF assms, of A] unfolding mine_def by blast
  have adv: "advances L {} ctx S ctx' S'" using g by (cases p) (auto simp: advances_def kept_def)
  have tmp: "\<not> cx_error ctx' \<and> t \<in> mine L ctx' \<and> t \<notin> mine L ctx" if "p = Some t" for t
  proof -
    have p: "\<not> cx_error ctx'" "take (cx_used ctx') (pool ctx') = take (cx_used ctx) (pool ctx) @ [t]" using g(7) that by auto
    then have "distinct (take (cx_used ctx) (pool ctx) @ [t])" using g(2) by (metis ctx_ok_def distinct_take)
    moreover have "t \<in> set (pool ctx')" using p(2) by (metis in_set_conv_decomp in_set_takeD)
    moreover have "L \<inter> set (pool ctx') = {}" using g(2) by (simp add: ctx_ok_def)
    ultimately show ?thesis using p by (auto simp: mine_def)
  qed
  have am: "p \<noteq> None \<and> ample A n ctx' S'" if "ample A (Suc n) ctx S" for n
    using ctx_get [OF assms, of A n] g(1) that by auto
  show ?thesis using g(1) adv am tmp by blast
qed

section \<open>The product into another number\<close>

lemma live_val:
  assumes "alters K R S S'" "store_ok K S" "i \<in> K - R"
  shows "st_bn S' i = st_bn S i" "bn_abs S' i = bn_abs S i"
  using alters_val [OF assms(1,2)] assms(3) by auto

lemma mul_direct:
  assumes "store_ok K S" "r \<in> K" "a \<in> K" "b \<in> K" "r \<noteq> a" "r \<noteq> b" "bn_wexpand A r n S = (g, S1)"
    and n: "n = bn_width (st_bn S a) + bn_width (st_bn S b)"
    and f: "\<forall>m p. sep p n (bn_d (st_bn S a)) (bn_width (st_bn S a)) \<longrightarrow> sep p n (bn_d (st_bn S b)) (bn_width (st_bn S b)) \<longrightarrow>
      num_at (f m p) p n = num_at m (bn_d (st_bn S a)) (bn_width (st_bn S a)) * num_at m (bn_d (st_bn S b)) (bn_width (st_bn S b)) \<and>
      same_but p n m (f m p)"
  defines "S2 \<equiv> set_width r n S1"
  defines "S3 \<equiv> S2\<lparr>st_words := f (st_words S2) (bn_d (st_bn S2 r))\<rparr>"
  shows "alters K {r} S (if g then S3 else S1)" "g \<Longrightarrow> bn_abs S3 r = bn_abs S a * bn_abs S b \<and> bn_neg (st_bn S3 r) = bn_neg (st_bn S r)"
    "growable A S r k \<Longrightarrow> n \<le> k \<Longrightarrow> g"
proof -
  note w = alters_wexpand [OF assms(7,1,2)]
  show "growable A S r k \<Longrightarrow> n \<le> k \<Longrightarrow> g" by (rule w(3))
  have main: "alters K {r} S S3 \<and> bn_abs S3 r = bn_abs S a * bn_abs S b \<and> bn_neg (st_bn S3 r) = bn_neg (st_bn S r)" if g
  proof -
    note ok1 = alters_ok [OF w(1)]
    have ab: "st_bn S1 a = st_bn S a" "st_bn S1 b = st_bn S b" "bn_abs S1 a = bn_abs S a" "bn_abs S1 b = bn_abs S b"
      using live_val [OF w(1) assms(1)] assms(3-6) by auto
    have sep: "sep (bn_d (st_bn S1 r)) n (bn_d (st_bn S1 a)) (bn_width (st_bn S1 a))"
      "sep (bn_d (st_bn S1 r)) n (bn_d (st_bn S1 b)) (bn_width (st_bn S1 b))"
      using apart_sep [OF ok1 assms(2,3,5) w(2) [OF that] store_ok_width(1) [OF ok1 assms(3)]]
        apart_sep [OF ok1 assms(2,4,6) w(2) [OF that] store_ok_width(1) [OF ok1 assms(4)]] by blast+
    let ?m = "f (st_words S1) (bn_d (st_bn S1 r))"
    note v = f [rule_format, OF sep [unfolded ab(1,2)], of "st_words S1"]
    have S3: "S3 = set_width r n (S1\<lparr>st_words := ?m\<rparr>)" by (simp add: S3_def S2_def set_width_def bn_upd_def)
    have p: "num_at ?m (bn_d (st_bn S1 r)) n = bn_abs S a * bn_abs S b" using v ab by (simp add: bn_abs_def)
    note st = store_result [OF ok1 assms(2,2) same_but2_same [OF conjunct2 [OF v]] w(2) [OF that] le0 p _ order_refl, folded S3]
    have small: "bn_abs S a * bn_abs S b < 2 ^ (64 * n)" unfolding n by (rule product_bound)
    then have "alters K {r} S1 S3" "bn_abs S3 r = bn_abs S a * bn_abs S b" "bn_neg (st_bn S3 r) = bn_neg (st_bn S1 r)"
      using st by simp_all
    then show ?thesis using w(1,5) alters_trans by auto
  qed
  show "alters K {r} S (if g then S3 else S1)" using main w(1) by simp
  show "g \<Longrightarrow> bn_abs S3 r = bn_abs S a * bn_abs S b \<and> bn_neg (st_bn S3 r) = bn_neg (st_bn S r)" using main by blast
qed

lemma mul_scratch:
  assumes "store_ok K S" "r \<in> K" "t \<in> K" "a \<in> K" "b \<in> K" "distinct [r, t, a]" "distinct [r, t, b]"
    and w: "bn_wexpand A t k S = (True, S1)" "bn_wexpand A r n S1 = (True, S2)"
    and f: "multiplies f n (bn_width (st_bn S a)) (bn_width (st_bn S b)) (bn_d (st_bn S2 t)) k"
    and tw: "tw = bn_width (st_bn S a) + bn_width (st_bn S b)" "tw \<le> n"
  shows "\<exists>m. f (st_words S2) (bn_d (st_bn S2 r)) (bn_d (st_bn S a)) (bn_d (st_bn S b)) = Some m \<and>
    alters K {r, t} S (set_width r tw (S2\<lparr>st_words := m\<rparr>)) \<and>
    bn_abs (set_width r tw (S2\<lparr>st_words := m\<rparr>)) r = bn_abs S a * bn_abs S b \<and>
    bn_neg (st_bn (set_width r tw (S2\<lparr>st_words := m\<rparr>)) r) = bn_neg (st_bn S r)"
proof -
  note w1 = alters_wexpand [OF w(1) assms(1,3)]
  note w2 = alters_wexpand [OF w(2) alters_ok [OF w1(1)] assms(2)]
  note ok2 = alters_ok [OF w2(1)]
  have al: "alters K {r, t} S S2" using alters_mono [OF w1(1), of "{r, t}"] alters_mono [OF w2(1), of "{r, t}"] alters_trans by blast
  have t: "k \<le> bn_dmax (st_bn S2 t)" using live_val [OF w2(1) alters_ok [OF w1(1)], of t] w1(2) assms(3,6) by auto
  have r: "n \<le> bn_dmax (st_bn S2 r)" using w2(2) by simp
  have ab: "st_bn S2 a = st_bn S a" "st_bn S2 b = st_bn S b" "bn_abs S2 a = bn_abs S a" "bn_abs S2 b = bn_abs S b"
    using live_val [OF al assms(1)] assms(4-7) by auto
  have wd: "bn_width (st_bn S a) \<le> bn_dmax (st_bn S a)" "bn_width (st_bn S b) \<le> bn_dmax (st_bn S b)"
    using store_ok_width(1) [OF assms(1)] assms(4,5) by blast+
  have sep: "sep (bn_d (st_bn S2 r)) n (bn_d (st_bn S a)) (bn_width (st_bn S a))"
    "sep (bn_d (st_bn S2 r)) n (bn_d (st_bn S b)) (bn_width (st_bn S b))"
    "sep (bn_d (st_bn S2 r)) n (bn_d (st_bn S2 t)) k"
    "sep (bn_d (st_bn S2 t)) k (bn_d (st_bn S a)) (bn_width (st_bn S a))"
    "sep (bn_d (st_bn S2 t)) k (bn_d (st_bn S b)) (bn_width (st_bn S b))"
    using apart_sep [OF ok2 assms(2,4), of n] apart_sep [OF ok2 assms(2,5), of n] apart_sep [OF ok2 assms(2,3), of n k]
      apart_sep [OF ok2 assms(3,4), of k] apart_sep [OF ok2 assms(3,5), of k] assms(6,7) r t wd by (auto simp: ab)
  obtain m where m: "f (st_words S2) (bn_d (st_bn S2 r)) (bn_d (st_bn S a)) (bn_d (st_bn S b)) = Some m"
    "num_at m (bn_d (st_bn S2 r)) n = bn_abs S a * bn_abs S b"
    "same_but2 (bn_d (st_bn S2 r)) n (bn_d (st_bn S2 t)) k (st_words S2) m"
    using multipliesD [OF f sep, of "st_words S2"] ab by (auto simp: bn_abs_def)
  note st = store_result [OF ok2 assms(2,3) m(3) r t m(2) product_bound tw(2) [unfolded tw(1)], folded tw(1)]
  have "bn_neg (st_bn S2 r) = bn_neg (st_bn S r)" using w1(5) w2(5) by simp
  then show ?thesis using m(1) st alters_trans [OF al st(1)] by auto
qed

text \<open>What \<open>mul_into\<close> promises.\<close>

definition product_done :: "nat set \<Rightarrow> allocator \<Rightarrow> nat \<Rightarrow> nat \<Rightarrow> nat \<Rightarrow> BN_CTX \<Rightarrow> bn_store \<Rightarrow> bool \<Rightarrow> BN_CTX \<Rightarrow> bn_store \<Rightarrow> bool" where
  "product_done L A r a b ctx S ok ctx' S' \<longleftrightarrow> advances L {r} ctx S ctx' S' \<and>
     (ok \<longrightarrow> bn_abs S' r = bn_abs S a * bn_abs S b \<and> bn_neg (st_bn S' r) = bn_neg (st_bn S r) \<and>
        bn_width (st_bn S' r) = bn_width (st_bn S a) + bn_width (st_bn S b) \<and> cx_error ctx' = cx_error ctx) \<and>
     (\<forall>n. ample A (Suc n) ctx S \<longrightarrow> growable A S r (4 * (bn_width (st_bn S a) + bn_width (st_bn S b) + 1)) \<longrightarrow> ok \<and> ample A n ctx' S')"

lemma width_set_width [simp]: "bn_width (st_bn (set_width r w S) r) = w"
  by (simp add: set_width_def)

lemma mul_into_direct:
  assumes ok: "ctx_ok L ctx S" and mem: "r \<in> mine L ctx" "a \<in> mine L ctx" "b \<in> mine L ctx" "r \<noteq> a" "r \<noteq> b"
    and w: "bn_wexpand A r n S = (g, S1)" and n: "n = bn_width (st_bn S a) + bn_width (st_bn S b)"
    and f: "\<forall>m p. sep p n (bn_d (st_bn S a)) (bn_width (st_bn S a)) \<longrightarrow> sep p n (bn_d (st_bn S b)) (bn_width (st_bn S b)) \<longrightarrow>
      num_at (f m p) p n = num_at m (bn_d (st_bn S a)) (bn_width (st_bn S a)) * num_at m (bn_d (st_bn S b)) (bn_width (st_bn S b)) \<and>
      same_but p n m (f m p)"
  shows "product_done L A r a b ctx S g ctx (if g then (set_width r n S1)\<lparr>st_words := f (st_words (set_width r n S1)) (bn_d (st_bn (set_width r n S1) r))\<rparr> else S1)"
    (is "product_done L A r a b ctx S g ctx ?S'")
proof -
  have K: "r \<in> live L ctx" "a \<in> live L ctx" "b \<in> live L ctx" "store_ok (live L ctx) S" using mem mine_live ok by (auto simp: ctx_ok_def)
  note d = mul_direct [OF K(4) K(1-3) mem(4,5) w n f]
  obtain S' where S': "S' = ?S'" by blast
  have 1: "advances L {r} ctx S ctx S'" unfolding S' using alters_advances [OF d(1) ok] by blast
  have 2: "bn_abs S' r = bn_abs S a * bn_abs S b" "bn_neg (st_bn S' r) = bn_neg (st_bn S r)" "bn_width (st_bn S' r) = n" if g
    using d(2) that unfolding S' by (auto simp: set_width_def)
  have 3: "g \<and> ample A k ctx S'"
    if "ample A (Suc k) ctx S" "growable A S r (4 * (bn_width (st_bn S a) + bn_width (st_bn S b) + 1))" for k
    using d(3) [OF that(2)] n ample_alters [OF that(1) d(1)] unfolding S' by (simp add: ample_def)
  show ?thesis unfolding product_done_def S' [symmetric] using 1 2 3 n by blast
qed

lemma mul_into_scratch:
  assumes ok: "ctx_ok L ctx S" and mem: "r \<in> mine L ctx" "a \<in> mine L ctx" "b \<in> mine L ctx" "r \<noteq> a" "r \<noteq> b"
    and get: "advances L {} ctx S ctx1 S1" "\<not> cx_error ctx1" "t \<in> mine L ctx1" "t \<notin> mine L ctx" "\<And>n. ample A (Suc n) ctx S \<Longrightarrow> ample A n ctx1 S1"
    and f: "\<And>p. multiplies (\<lambda>m r a b. f m r a b p) n (bn_width (st_bn S a)) (bn_width (st_bn S b)) p k"
    and tw: "tw = bn_width (st_bn S a) + bn_width (st_bn S b)" "tw \<le> n" "n \<le> 4 * (tw + 1)" "k \<le> 4 * (tw + 1)"
  shows "\<exists>ok S'. do {
      let (ok, S) = bn_wexpand A t k S1;
      if \<not> ok then Some (False, ctx1, S)
      else do {
        let (ok, S) = bn_wexpand A r n S;
        if \<not> ok then Some (False, ctx1, S)
        else do {
          m \<leftarrow> f (st_words S) (bn_d (st_bn S r)) (bn_d (st_bn S1 a)) (bn_d (st_bn S1 b)) (bn_d (st_bn S t));
          Some (True, ctx1, set_width r tw (S\<lparr>st_words := m\<rparr>))
        }
      }
    } = Some (ok, ctx1, S') \<and> product_done L A r a b ctx S ok ctx1 S'"
proof -
  let ?K = "live L ctx1"
  have m1: "i \<in> ?K" if "i \<in> mine L ctx" for i using mine_advances [OF get(1)] mine_live [of L ctx1] that by blast
  have K: "r \<in> ?K" "a \<in> ?K" "b \<in> ?K" "t \<in> ?K" "distinct [r, t, a]" "distinct [r, t, b]"
    using m1 [OF mem(1)] m1 [OF mem(2)] m1 [OF mem(3)] get(3,4) mine_live [of L ctx1] mem by auto
  have ok1: "ctx_ok L ctx1 S1" "store_ok ?K S1" using get(1) by (simp_all add: advances_def ctx_ok_def)
  have same: "st_bn S1 i = st_bn S i" "bn_abs S1 i = bn_abs S i" if "i \<in> mine L ctx" for i
    using get(1) that kept_val [of "mine L ctx" S S1 "live L ctx" i] ok mine_live [of L ctx]
    by (auto simp: advances_def kept_def ctx_ok_def)
  obtain g1 S2 where w1: "bn_wexpand A t k S1 = (g1, S2)" by fastforce
  obtain g2 S3 where w2: "bn_wexpand A r n S2 = (g2, S3)" by fastforce
  note x1 = alters_wexpand [OF w1 ok1(2) K(4)]
  note x2 = alters_wexpand [OF w2 alters_ok [OF x1(1)] K(1)]
  have al: "alters ?K {r, t} S1 S2" "alters ?K {r, t} S1 S3"
    using alters_mono [OF x1(1), of "{r, t}"] alters_mono [OF x2(1), of "{r, t}"] alters_trans by blast+
  have adv: "advances L {r} ctx S ctx1 S'" if "alters ?K {r, t} S1 S'" for S'
    using advances_trans [OF get(1) alters_advances [OF that ok1(1) order_refl]] get(4) by blast
  have err: "cx_error ctx = cx_error ctx1" using get(1,2) by (auto simp: advances_def)
  have fits: "g1 \<and> g2" if "ample A (Suc i) ctx S" "growable A S r (4 * (tw + 1))" for i
  proof
    have am: "ample A i ctx1 S1" using get(5) that(1) .
    have tp: "t \<in> set (pool ctx1)" using get(3,4) by (auto simp: mine_def dest: in_set_takeD)
    have gr: "growable A S1 r (4 * (tw + 1))" using that(2) same(1) [OF mem(1)] by (simp add: growable_def)
    then show g1 using x1(3) [OF ample_growable [OF am tp, of "4 * (tw + 1)"] tw(4)] by (simp add: growable_def)
    show g2 using x2(3) [OF growable_alters [OF gr x1(1)] tw(3)] .
  qed
  have am: "ample A i ctx1 S'" if "ample A (Suc i) ctx S" "alters ?K {r, t} S1 S'" for i S'
    using get(5) that ample_alters by blast
  show ?thesis
  proof (cases "g1 \<and> g2")
    case False
    let ?S' = "if g1 then S3 else S2"
    have "product_done L A r a b ctx S False ctx1 ?S'"
      using adv al fits False unfolding product_done_def tw(1) by (cases g1) auto
    then show ?thesis using w1 w2 False by (cases g1) auto
  next
    case True
    have w: "bn_wexpand A t k S1 = (True, S2)" "bn_wexpand A r n S2 = (True, S3)" using w1 w2 True by auto
    obtain m where m: "f (st_words S3) (bn_d (st_bn S3 r)) (bn_d (st_bn S1 a)) (bn_d (st_bn S1 b)) (bn_d (st_bn S3 t)) = Some m"
      "alters ?K {r, t} S1 (set_width r tw (S3\<lparr>st_words := m\<rparr>))"
      "bn_abs (set_width r tw (S3\<lparr>st_words := m\<rparr>)) r = bn_abs S1 a * bn_abs S1 b"
      "bn_neg (st_bn (set_width r tw (S3\<lparr>st_words := m\<rparr>)) r) = bn_neg (st_bn S1 r)"
      using mul_scratch [OF ok1(2) K(1,4,2,3,5,6) w, of "\<lambda>m r a b. f m r a b (bn_d (st_bn S3 t))" tw] f tw(1,2) same(1) mem by auto
    have "product_done L A r a b ctx S True ctx1 (set_width r tw (S3\<lparr>st_words := m\<rparr>))"
      unfolding product_done_def using adv [OF m(2)] am m(2-4) same mem err tw(1) by simp
    then show ?thesis using w m(1) by auto
  qed
qed

lemma advances_more: "advances L R ctx S ctx' S' \<Longrightarrow> R \<subseteq> R' \<Longrightarrow> advances L R' ctx S ctx' S'"
  by (auto simp: advances_def intro: kept_mono)

lemma mul_into:
  assumes ok: "ctx_ok L ctx S" and mem: "r \<in> mine L ctx" "a \<in> mine L ctx" "b \<in> mine L ctx" "r \<noteq> a" "r \<noteq> b"
  shows "\<exists>ok ctx' S'. mul_into A r a b ctx S = Some (ok, ctx', S') \<and> product_done L A r a b ctx S ok ctx' S'"
proof -
  define al where "al = bn_width (st_bn S a)"
  define bl where "bl = bn_width (st_bn S b)"
  let ?ad = "bn_d (st_bn S a)" and ?bd = "bn_d (st_bn S b)"
  consider "al = 8" "bl = 8" | "16 \<le> al" "16 \<le> bl" "\<bar>int al - int bl\<bar> \<le> 1" |
    "\<not> (int al - int bl = 0 \<and> al = 8)" "\<not> (al \<ge> 16 \<and> bl \<ge> 16 \<and> - 1 \<le> int al - int bl \<and> int al - int bl \<le> 1)" by linarith
  then show ?thesis
  proof cases
    case 1
    obtain g S1 where w: "bn_wexpand A r 16 S = (g, S1)" by fastforce
    have "\<forall>m p. sep p 16 ?ad al \<longrightarrow> sep p 16 ?bd bl \<longrightarrow>
        num_at (bn_mul_comba8 m p ?ad ?bd) p 16 = num_at m ?ad al * num_at m ?bd bl \<and> same_but p 16 m (bn_mul_comba8 m p ?ad ?bd)"
      using bn_mul_comba8 1 by (simp add: sep_def)
    note d = mul_into_direct [OF ok mem w _ this [unfolded al_def bl_def], folded al_def bl_def]
    have c: "int al - int bl = 0 \<and> al = 8" using 1 by simp
    have "mul_into A r a b ctx S = Some (g, ctx, if g then (set_width r 16 S1)\<lparr>st_words :=
        bn_mul_comba8 (st_words (set_width r 16 S1)) (bn_d (st_bn (set_width r 16 S1) r)) ?ad ?bd\<rparr> else S1)"
      unfolding mul_into_def Let_def al_def [symmetric] bl_def [symmetric] if_P [OF c] w by simp
    moreover have "16 = al + bl" using 1 by simp
    ultimately show ?thesis using d by auto
  next
    case 3
    obtain g S1 where w: "bn_wexpand A r (al + bl) S = (g, S1)" by fastforce
    have "\<forall>m p. sep p (al + bl) ?ad al \<longrightarrow> sep p (al + bl) ?bd bl \<longrightarrow>
        num_at (bn_mul_normal m p ?ad al ?bd bl) p (al + bl) = num_at m ?ad al * num_at m ?bd bl \<and>
        same_but p (al + bl) m (bn_mul_normal m p ?ad al ?bd bl)"
      using bn_mul_normal by blast
    note d = mul_into_direct [OF ok mem w [unfolded al_def bl_def] refl this [unfolded al_def bl_def], folded al_def bl_def]
    have "mul_into A r a b ctx S = Some (g, ctx, if g then (set_width r (al + bl) S1)\<lparr>st_words :=
        bn_mul_normal (st_words (set_width r (al + bl) S1)) (bn_d (st_bn (set_width r (al + bl) S1) r)) ?ad al ?bd bl\<rparr> else S1)"
      unfolding mul_into_def Let_def al_def [symmetric] bl_def [symmetric] if_not_P [OF 3(1)] if_not_P [OF 3(2)] w by simp
    then show ?thesis using d by auto
  next
    case 2
    define j where "j = karatsuba_size al bl"
    have "store_ok (live L ctx) S" "a \<in> live L ctx" "b \<in> live L ctx" using ok mem mine_live [of L ctx] by (auto simp: ctx_ok_def)
    then have "al \<le> BN_MAX_WORDS" "bl \<le> BN_MAX_WORDS" using store_ok_width(2) by (simp_all add: al_def bl_def)
    then have big: "max al bl < 2 ^ 64" "0 < max al bl" using 2 by (simp_all add: BN_MAX_WORDS_def INT_MAX_def)
    obtain k where j: "j = 2 ^ k" "j \<le> max al bl" "max al bl < 2 * j" using karatsuba_size [OF big(2,1)] by (auto simp: j_def)
    have j8: "8 < j" using j(3) 2 by (simp add: max_def split: if_splits)
    obtain t ctx1 S1 where get: "BN_CTX_get A ctx S = Some (t, ctx1, S1)" "advances L {} ctx S ctx1 S1"
      "\<forall>n. ample A (Suc n) ctx S \<longrightarrow> t \<noteq> None \<and> ample A n ctx1 S1"
      "\<forall>t'. t = Some t' \<longrightarrow> \<not> cx_error ctx1 \<and> t' \<in> mine L ctx1 \<and> t' \<notin> mine L ctx"
      using get_advances [OF ok, of A] by (elim exE conjE) (rule that)
    have ab: "st_bn S1 a = st_bn S a" "st_bn S1 b = st_bn S b" using get(2) mem by (auto simp: advances_def kept_def)
    have take_it: "mul_into A r a b ctx S = (case t of None \<Rightarrow> Some (False, ctx1, S1)
        | Some t \<Rightarrow>
            if al > j \<or> bl > j then do {
              c_assert (al \<ge> j \<and> bl \<ge> j);
              let (ok, S) = bn_wexpand A t (j * 8) S1;
              if \<not> ok then Some (False, ctx1, S)
              else do {
                let (ok, S) = bn_wexpand A r (j * 4) S;
                if \<not> ok then Some (False, ctx1, S)
                else do {
                  m \<leftarrow> bn_mul_part_recursive (st_words S) (bn_d (st_bn S r)) (bn_d (st_bn S1 a)) (bn_d (st_bn S1 b)) j (int al - int j) (int bl - int j) (bn_d (st_bn S t));
                  Some (True, ctx1, set_width r (al + bl) (S\<lparr>st_words := m\<rparr>))
                }
              }
            }
            else do {
              let (ok, S) = bn_wexpand A t (j * 4) S1;
              if \<not> ok then Some (False, ctx1, S)
              else do {
                let (ok, S) = bn_wexpand A r (j * 2) S;
                if \<not> ok then Some (False, ctx1, S)
                else do {
                  m \<leftarrow> bn_mul_recursive (st_words S) (bn_d (st_bn S r)) (bn_d (st_bn S1 a)) (bn_d (st_bn S1 b)) j (int al - int j) (int bl - int j) (bn_d (st_bn S t));
                  Some (True, ctx1, set_width r (al + bl) (S\<lparr>st_words := m\<rparr>))
                }
              }
            })"
    proof -
      have c: "\<not> (int al - int bl = 0 \<and> al = 8)" "al \<ge> 16 \<and> bl \<ge> 16 \<and> - 1 \<le> int al - int bl \<and> int al - int bl \<le> 1" "j \<le> al \<or> j \<le> bl"
        using 2 j(2) by auto
      have a: "c_assert (j \<le> al \<or> j \<le> bl) = Some ()" using c(3) by (simp only: c_assert_def if_True)
      show ?thesis unfolding mul_into_def Let_def al_def [symmetric] bl_def [symmetric] if_not_P [OF c(1)] if_P [OF c(2)] j_def [symmetric] a
        by (simp only: get(1) Option.bind.simps prod.case ab)
    qed
    show ?thesis
    proof (cases t)
      case None
      have "advances L {r} ctx S ctx1 S1" using advances_more [OF get(2)] by simp
      then have "product_done L A r a b ctx S False ctx1 S1" using get(3) None by (auto simp: product_done_def)
      then show ?thesis using take_it None by auto
    next
      case (Some t')
      note t = get(4) [rule_format, OF Some]
      show ?thesis
      proof (cases "al > j \<or> bl > j")
        case True
        have le: "j \<le> al" "j \<le> bl" "\<bar>(int al - int j) - (int bl - int j)\<bar> \<le> 1" "int al - int j < int j" "int bl - int j < int j"
          using True 2 j(3) by auto
        have f: "multiplies (\<lambda>m r a b. bn_mul_part_recursive m r a b j (int al - int j) (int bl - int j) p) (j * 4)
            (bn_width (st_bn S a)) (bn_width (st_bn S b)) p (j * 8)" for p
        proof -
          have "multiplies (\<lambda>m r a b. bn_mul_part_recursive m r a b j (int al - int j) (int bl - int j) p) (4 * j)
              (j + nat (int al - int j)) (j + nat (int bl - int j)) p (8 * j)"
            using bn_mul_part_recursive_multiplies [of k "int al - int j" "int bl - int j" p] le j8 unfolding j(1) [symmetric] by simp
          moreover have "j + nat (int al - int j) = al" "j + nat (int bl - int j) = bl" using le by linarith+
          ultimately show ?thesis unfolding al_def [symmetric] bl_def [symmetric] by (simp only: mult.commute)
        qed
        show ?thesis
          using mul_into_scratch [OF ok mem get(2) _ _ _ _ f, of t' A "al + bl"] t get(3) le Some True
          unfolding take_it by (auto simp: al_def bl_def c_assert_def)
      next
        case False
        have le: "al \<le> j" "bl \<le> j" "- 8 \<le> int al - int j" "- 8 \<le> int bl - int j" "j \<le> max al bl" using False 2 j(2) by auto
        have f: "multiplies (\<lambda>m r a b. bn_mul_recursive m r a b j (int al - int j) (int bl - int j) p) (j * 2)
            (bn_width (st_bn S a)) (bn_width (st_bn S b)) p (j * 4)" for p
          using bn_mul_recursive_multiplies [OF j(1), of "int al - int j" "int bl - int j" p] le
          by (simp add: al_def bl_def mult.commute)
        show ?thesis
          using mul_into_scratch [OF ok mem get(2) _ _ _ _ f, of t' A "al + bl"] t get(3) le Some False 2
          unfolding take_it by (auto simp: al_def bl_def)
      qed
    qed
  qed
qed

section \<open>Functions between start and end\<close>

definition call_done :: "nat set \<Rightarrow> nat set \<Rightarrow> BN_CTX \<Rightarrow> bn_store \<Rightarrow> BN_CTX \<Rightarrow> bn_store \<Rightarrow> bool" where
  "call_done L R ctx S ctx' S' \<longleftrightarrow> ctx_ok L ctx' S' \<and> kept (mine L ctx - R) S S' \<and>
     (\<forall>i \<in> mine L ctx. bn_flags (st_bn S' i) = bn_flags (st_bn S i)) \<and>
     take (cx_used ctx) (pool ctx') = take (cx_used ctx) (pool ctx) \<and>
     (cx_error ctx' \<or> cx_used ctx' = cx_used ctx \<and> frames ctx' = frames ctx)"

lemma mine_start: "BN_CTX_start A ctx = ctx' \<Longrightarrow> ctx_ok L ctx S \<Longrightarrow> mine L ctx' = mine L ctx"
  using ctx_start(2,3) by (simp add: mine_def)

lemma alters_call: "alters (live L ctx) R S S' \<Longrightarrow> ctx_ok L ctx S \<Longrightarrow> call_done L R ctx S ctx S'"
  using ctx_ok_alters mine_live [of L ctx] by (auto simp: call_done_def alters_def intro: kept_mono)

lemma framed:
  assumes "BN_CTX_start A ctx = ctx1" "ctx_ok L ctx S" "advances L R ctx1 S ctx2 S'"
  shows "\<exists>ctx3. BN_CTX_end ctx2 = Some ctx3 \<and> call_done L R ctx S ctx3 S' \<and> cx_error ctx3 = cx_error ctx2 \<and> pool ctx3 = pool ctx2"
proof -
  note s = ctx_start [OF assms(1,2)]
  have fr: "frames ctx2 = frames ctx @ [cx_used ctx] \<and> cx_used ctx \<le> length (pool ctx2)" if "\<not> cx_error ctx2"
    using that s assms(3) by (auto simp: advances_def ctx_ok_def)
  have "ctx_ok L ctx2 S'" using assms(3) by (simp add: advances_def)
  from ctx_end [OF this fr] obtain ctx3 where e: "BN_CTX_end ctx2 = Some ctx3" "ctx_ok L ctx3 S'" "pool ctx3 = pool ctx2"
    "cx_error ctx3 = cx_error ctx2" "\<not> cx_error ctx2 \<longrightarrow> cx_used ctx3 = cx_used ctx \<and> frames ctx3 = frames ctx" by blast
  have "call_done L R ctx S ctx3 S'"
    using e assms(3) s(2,3) mine_start [OF assms(1,2)] by (auto simp: call_done_def advances_def)
  then show ?thesis using e by blast
qed

text \<open>Enough memory for a function that takes up to two temporaries and stores \<open>n\<close> words in \<open>r\<close>.\<close>

definition roomy :: "allocator \<Rightarrow> BN_CTX \<Rightarrow> bn_store \<Rightarrow> nat \<Rightarrow> nat \<Rightarrow> bool" where
  "roomy A ctx S r n \<longleftrightarrow> ample A 2 ctx S \<and> bs_size (cx_stack ctx) \<le> 2 ^ 32 \<and> growable A S r n"

lemma bn_val_product:
  assumes "bn_abs S' r = bn_abs S a * bn_abs S b" "bn_neg (st_bn S' r) = (bn_neg (st_bn S a) \<noteq> bn_neg (st_bn S b))"
  shows "bn_val S' r = bn_val S a * bn_val S b"
  using assms by (simp add: bn_val_def)

lemma zero_val: "bn_val (BN_zero r S) r = 0" "bn_abs (BN_zero r S) r = 0"
  by (simp_all add: BN_zero_def bn_val_def bn_abs_def)

lemma width_zero: "bn_width (st_bn S a) = 0 \<Longrightarrow> bn_val S a = 0"
  by (simp add: bn_val_def bn_abs_def)

lemma advances_same: "advances L {} ctx S ctx' S' \<Longrightarrow> ctx_ok L ctx S \<Longrightarrow> i \<in> mine L ctx \<Longrightarrow>
    st_bn S' i = st_bn S i \<and> bn_abs S' i = bn_abs S i"
  using kept_val [of "mine L ctx" S S' "live L ctx" i] mine_live [of L ctx] by (auto simp: advances_def kept_def ctx_ok_def)

lemma bn_mul_impl:
  assumes ok: "ctx_ok L ctx S" and mem: "r \<in> mine L ctx" "a \<in> mine L ctx" "b \<in> mine L ctx"
  shows "\<exists>ok ctx' S'. bn_mul_impl A r a b ctx S = Some (ok, ctx', S') \<and> call_done L {r} ctx S ctx' S' \<and>
    (ok \<longrightarrow> bn_val S' r = bn_val S a * bn_val S b) \<and>
    (roomy A ctx S r (4 * (bn_width (st_bn S a) + bn_width (st_bn S b) + 1)) \<longrightarrow> ok \<and> \<not> cx_error ctx')"
proof (cases "bn_width (st_bn S a) = 0 \<or> bn_width (st_bn S b) = 0")
  case True
  have "call_done L {r} ctx S ctx (BN_zero r S)" by (rule alters_call [OF alters_zero ok]) (use ok in \<open>simp add: ctx_ok_def\<close>)
  then show ?thesis using True width_zero zero_val by (auto simp: bn_mul_impl_def roomy_def ample_def)
next
  case False
  let ?n = "4 * (bn_width (st_bn S a) + bn_width (st_bn S b) + 1)"
  let ?neg = "bn_neg (st_bn S a) \<noteq> bn_neg (st_bn S b)"
  obtain ctx1 where st: "BN_CTX_start A ctx = ctx1" by blast
  note s = ctx_start [OF st ok]
  note m1 = mine_start [OF st ok]
  have am1: "ample A 2 ctx1 S" if "roomy A ctx S r ?n" using s(6) that by (auto simp: roomy_def)
  obtain rr ctx2 S2 where get: "(if r = a \<or> r = b then BN_CTX_get A ctx1 S else Some (Some r, ctx1, S)) = Some (rr, ctx2, S2)"
    "advances L {} ctx1 S ctx2 S2" "ample A 2 ctx1 S \<Longrightarrow> rr \<noteq> None \<and> ample A 1 ctx2 S2"
    "\<And>t. rr = Some t \<Longrightarrow> t \<in> mine L ctx2 \<and> t \<noteq> a \<and> t \<noteq> b \<and> (t = r \<or> t \<notin> mine L ctx1)"
    "\<And>t. rr = Some t \<Longrightarrow> ample A 1 ctx2 S2 \<Longrightarrow> growable A S r ?n \<Longrightarrow> growable A S2 t ?n"
  proof (cases "r = a \<or> r = b")
    case True
    obtain t ctx2 S2 where g: "BN_CTX_get A ctx1 S = Some (t, ctx2, S2)" "advances L {} ctx1 S ctx2 S2"
      "\<forall>n. ample A (Suc n) ctx1 S \<longrightarrow> t \<noteq> None \<and> ample A n ctx2 S2"
      "\<forall>t'. t = Some t' \<longrightarrow> \<not> cx_error ctx2 \<and> t' \<in> mine L ctx2 \<and> t' \<notin> mine L ctx1"
      using get_advances [OF s(1), of A] by (elim exE conjE) (rule that)
    show thesis
    proof (rule that [of t ctx2 S2])
      show "growable A S2 t' ?n" if "t = Some t'" "ample A 1 ctx2 S2" "growable A S r ?n" for t'
        using ample_growable [OF that(2), of t'] g(4) [rule_format, OF that(1)] that(3) s(2,3) mine_def [of L ctx1]
        by (auto simp: mine_def growable_def dest: in_set_takeD)
      show "t' \<in> mine L ctx2 \<and> t' \<noteq> a \<and> t' \<noteq> b \<and> (t' = r \<or> t' \<notin> mine L ctx1)" if "t = Some t'" for t'
        using g(4) [rule_format, OF that] mem m1 by auto
    qed (use g(1,2) g(3) [rule_format, of 1] True in \<open>simp_all add: numeral_2_eq_2\<close>)
  next
    case False
    have "ample A 1 ctx1 S" if "ample A 2 ctx1 S" using that by (simp add: ample_def)
    then show thesis using advances_refl [OF s(1)] mem m1 False by (intro that [of "Some r" ctx1 S]) auto
  qed
  note m2 = mine_advances [OF get(2)]
  have same: "st_bn S2 i = st_bn S i \<and> bn_abs S2 i = bn_abs S i" if "i \<in> mine L ctx" for i
    using advances_same [OF get(2) s(1)] that m1 by blast
  show ?thesis
  proof (cases rr)
    case None
    obtain ctx3 where e: "BN_CTX_end ctx2 = Some ctx3" "call_done L {r} ctx S ctx3 S2"
      using framed [OF st ok advances_more [OF get(2)], of "{r}"] by auto
    have "bn_mul_impl A r a b ctx S = Some (False, ctx3, S2)" using get(1) None e(1) False st by (simp add: bn_mul_impl_def)
    then show ?thesis using e(2) am1 get(3) None by auto
  next
    case (Some t)
    define S3 where "S3 = set_neg t ?neg S2"
    have ok2: "ctx_ok L ctx2 S2" "store_ok (live L ctx2) S2" using get(2) by (simp_all add: advances_def ctx_ok_def)
    have t: "t \<in> mine L ctx2" "t \<noteq> a" "t \<noteq> b" "t = r \<or> t \<notin> mine L ctx1" using get(4) [OF Some] by auto
    have al3: "alters (live L ctx2) {t} S2 S3" unfolding S3_def
      using t(1) mine_live [of L ctx2] by (intro alters_set_neg [OF ok2(2)]) auto
    have ok3: "ctx_ok L ctx2 S3" by (rule ctx_ok_alters [OF ok2(1) al3])
    have ab: "a \<in> mine L ctx2" "b \<in> mine L ctx2" "r \<in> mine L ctx2" using mem m1 m2 by auto
    have same3: "st_bn S3 i = st_bn S i \<and> bn_abs S3 i = bn_abs S i" if "i \<in> {a, b}" for i
      using same [of i] that t mem by (auto simp: S3_def)
    obtain g ctx4 S4 where mi: "mul_into A t a b ctx2 S3 = Some (g, ctx4, S4)" "product_done L A t a b ctx2 S3 g ctx4 S4"
      using mul_into [OF ok3 t(1) ab(1,2) t(2,3), of A] by blast
    have adv4: "advances L {t} ctx2 S3 ctx4 S4" using mi(2) by (simp add: product_done_def)
    have adv14: "advances L {r} ctx1 S ctx4 S4"
    proof (rule advances_trans [OF get(2)])
      show "advances L {t} ctx2 S2 ctx4 S4"
        by (rule advances_trans [OF alters_advances [OF al3 ok2(1), of "{t}"] adv4]) auto
    qed (use t(4) in auto)
    have v4: "bn_abs S4 t = bn_abs S a * bn_abs S b" "bn_neg (st_bn S4 t) = ?neg"
        "bn_width (st_bn S4 t) = bn_width (st_bn S a) + bn_width (st_bn S b)" if g
      using mi(2) that same3 by (auto simp: product_done_def) (simp_all add: S3_def)
    have live4: "g \<and> ample A 0 ctx4 S4 \<and> growable A S4 r ?n" if "roomy A ctx S r ?n"
    proof -
      have "ample A (Suc 0) ctx2 S2" using get(3) am1 [OF that] by simp
      then have am3: "ample A (Suc 0) ctx2 S3" by (rule ample_alters [OF _ al3])
      have "growable A S2 t ?n" using get(3,5) Some am1 [OF that] that by (auto simp: roomy_def)
      then have "growable A S3 t ?n" by (rule growable_alters [OF _ al3])
      then have "g \<and> ample A 0 ctx4 S4" using mi(2) am3 same3 unfolding product_done_def by auto
      moreover have "growable A S4 r ?n" using that adv14 mem m1 by (auto simp: roomy_def growable_def advances_def)
      ultimately show ?thesis by simp
    qed
    show ?thesis
    proof (cases "\<not> g \<or> r = t")
      case True
      obtain ctx5 where e: "BN_CTX_end ctx4 = Some ctx5" "call_done L {r} ctx S ctx5 S4" "cx_error ctx5 = cx_error ctx4"
        using framed [OF st ok adv14] by auto
      have "bn_mul_impl A r a b ctx S = Some (g, ctx5, S4)"
        using get(1) Some e(1) False st mi(1) True same mem by (auto simp: bn_mul_impl_def S3_def)
      moreover have "g \<Longrightarrow> bn_val S4 r = bn_val S a * bn_val S b" using bn_val_product v4 True by blast
      ultimately show ?thesis using e(2,3) live4 by (auto simp: ample_def)
    next
      case cp: False
      obtain h S5 where cpy: "BN_copy A r t S4 = (h, S5)" by fastforce
      have ok4: "ctx_ok L ctx4 S4" "store_ok (live L ctx4) S4" using adv4 by (simp_all add: advances_def ctx_ok_def)
      have in4: "r \<in> live L ctx4" "t \<in> live L ctx4" using mine_advances [OF adv4] mine_live [of L ctx4] ab(3) t(1) by auto
      note c = alters_copy [OF cpy ok4(2) in4]
      have "advances L {r} ctx1 S ctx4 S5"
        by (rule advances_trans [OF adv14 alters_advances [OF c(1) ok4(1), of "{r}"]]) auto
      from framed [OF st ok this] obtain ctx5 where e: "BN_CTX_end ctx4 = Some ctx5" "call_done L {r} ctx S ctx5 S5" "cx_error ctx5 = cx_error ctx4"
        by auto
      have "bn_mul_impl A r a b ctx S = Some (h, ctx5, S5)"
        using get(1) Some e(1) False st mi(1) cp cpy same mem by (auto simp: bn_mul_impl_def S3_def)
      moreover have "h \<Longrightarrow> bn_val S5 r = bn_val S a * bn_val S b" using bn_val_product c(2,3) v4 cp by simp
      moreover have "h" if "roomy A ctx S r ?n" using c(4) [of ?n] live4 [OF that] v4(3) cp by simp
      ultimately show ?thesis using e(2,3) live4 by (auto simp: ample_def)
    qed
  qed
qed

end
