(* ===== verification/Bn_Arith.thy ===== *)
theory Bn_Arith
  imports Bn_Product_Correct
begin

unbundle bit_operations_syntax

text \<open>
  The functions of \<open>mul.c\<close> as their callers see them: products, squares, products with a word and absolute differences.
\<close>

lemma mine_after: "call_done L R ctx S ctx' S' \<Longrightarrow> mine L ctx \<subseteq> live L ctx'"
proof -
  assume "call_done L R ctx S ctx' S'"
  then have "take (cx_used ctx) (pool ctx) = take (cx_used ctx) (pool ctx')" by (simp add: call_done_def)
  then have "mine L ctx = L \<union> set (take (cx_used ctx) (pool ctx'))" by (simp only: mine_def)
  then show ?thesis by (auto simp: live_def dest: in_set_takeD)
qed

lemma call_alters:
  assumes "call_done L R ctx S ctx' S'" "alters (live L ctx') R S' S''"
  shows "call_done L R ctx S ctx' S''"
proof -
  have "kept (mine L ctx - R) S' S''" using assms(2) mine_after [OF assms(1)] by (auto simp: alters_def intro: kept_mono)
  moreover have "ctx_ok L ctx' S''" using ctx_ok_alters [OF _ assms(2)] assms(1) by (simp add: call_done_def)
  ultimately show ?thesis using assms by (auto simp: call_done_def alters_def intro: kept_trans)
qed

lemma BN_mul:
  assumes ok: "ctx_ok L ctx S" and mem: "r \<in> mine L ctx" "a \<in> mine L ctx" "b \<in> mine L ctx"
  shows "\<exists>ok ctx' S'. BN_mul A r a b ctx S = Some (ok, ctx', S') \<and> call_done L {r} ctx S ctx' S' \<and>
    (ok \<longrightarrow> bn_val S' r = bn_val S a * bn_val S b \<and> minimal S' r) \<and>
    (roomy A ctx S r (4 * (bn_width (st_bn S a) + bn_width (st_bn S b) + 1)) \<longrightarrow> ok \<and> \<not> cx_error ctx')"
proof -
  obtain g ctx' S1 where 1: "bn_mul_impl A r a b ctx S = Some (g, ctx', S1)" "call_done L {r} ctx S ctx' S1"
    "g \<longrightarrow> bn_val S1 r = bn_val S a * bn_val S b"
    "roomy A ctx S r (4 * (bn_width (st_bn S a) + bn_width (st_bn S b) + 1)) \<longrightarrow> g \<and> \<not> cx_error ctx'"
    using bn_mul_impl [OF ok mem, of A] by (elim exE conjE) (rule that)
  define S' where "S' = (if g then bn_set_minimal_width r S1 else S1)"
  have st: "store_ok (live L ctx') S1" "r \<in> live L ctx'" using 1(2) mine_after [OF 1(2)] mem(1) by (auto simp: call_done_def ctx_ok_def)
  have "call_done L {r} ctx S ctx' S'" unfolding S'_def using 1(2) call_alters [OF 1(2) alters_minimal [OF st]] by simp
  moreover have "g \<longrightarrow> bn_val S' r = bn_val S a * bn_val S b \<and> minimal S' r"
    using bn_set_minimal_width(3,4) [OF st] 1(3) by (simp add: S'_def)
  moreover have "BN_mul A r a b ctx S = Some (g, ctx', S')" using 1(1) by (simp add: BN_mul_def S'_def)
  ultimately show ?thesis using 1(4) by blast
qed

section \<open>Squares\<close>

lemma power_two_test:
  assumes "0 < n" "n AND (n - 1) = (0 :: nat)"
  shows "\<exists>k. n = 2 ^ k"
proof -
  obtain k where k: "2 ^ k \<le> n" "n < 2 ^ (k + 1)" using ex_power_ivl1 [of 2 n] assms(1) by auto
  have "bit x k" if "2 ^ k \<le> x" "x < 2 ^ (k + 1)" for x :: nat
  proof -
    have "x div 2 ^ k = 1" using that by (intro div_nat_eqI) simp_all
    then show ?thesis by (simp add: bit_iff_odd)
  qed
  note b = this
  have "n = 2 ^ k"
  proof (rule ccontr)
    assume "n \<noteq> 2 ^ k"
    then have "bit (n AND (n - 1)) k" using b [OF k] b [of "n - 1"] k by (simp add: bit_and_iff)
    then show False using assms(2) by simp
  qed
  then show ?thesis ..
qed

lemma sqr_into:
  assumes "store_ok K S" "r \<in> K" "t \<in> K" "a \<in> K" "distinct [r, t, a]" "2 * bn_width (st_bn S a) \<le> bn_dmax (st_bn S r)"
    "0 < bn_width (st_bn S a)"
  shows "\<exists>ok S'. sqr_into A r a t S = Some (ok, S') \<and> alters K {r, t} S S' \<and> bn_dmax (st_bn S' r) = bn_dmax (st_bn S r) \<and>
    (ok \<longrightarrow> num_at (st_words S') (bn_d (st_bn S' r)) (2 * bn_width (st_bn S a)) = bn_abs S a * bn_abs S a) \<and>
    (growable A S t (4 * bn_width (st_bn S a)) \<longrightarrow> ok)"
proof -
  define al where "al = bn_width (st_bn S a)"
  let ?rd = "bn_d (st_bn S r)" and ?ad = "bn_d (st_bn S a)" and ?m = "st_words S"
  have wd: "al \<le> bn_dmax (st_bn S a)" using store_ok_width(1) [OF assms(1,4)] by (simp add: al_def)
  have ra: "sep ?rd (2 * al) ?ad al" using apart_sep [OF assms(1,2,4), of "2 * al" al] assms(5,6) wd by (simp add: al_def)
  have abs: "num_at ?m ?ad al = bn_abs S a" by (simp add: bn_abs_def al_def)
  have in_place: ?thesis if "sqr_into A r a t S = Some (True, S\<lparr>st_words := m\<rparr>)" "same_but ?rd (2 * al) ?m m"
      "num_at m ?rd (2 * al) = num_at ?m ?ad al * num_at ?m ?ad al" for m
  proof -
    have "alters K {r} S (S\<lparr>st_words := m\<rparr>)" using alters_words [OF assms(1,2) that(2)] assms(6) by (simp add: al_def)
    then have "alters K {r, t} S (S\<lparr>st_words := m\<rparr>)" by (rule alters_mono) simp
    then show ?thesis using that abs by (auto simp: al_def)
  qed
  have scratch: ?thesis if "k \<le> 4 * al"
      "sqr_into A r a t S = (let (ok, S) = bn_wexpand A t k S
        in if \<not> ok then Some (False, S) else do { m \<leftarrow> f (st_words S) ?rd ?ad (bn_d (st_bn S t)); Some (True, S\<lparr>st_words := m\<rparr>) })"
      "\<And>m p. sep ?rd (2 * al) p k \<Longrightarrow> sep p k ?ad al \<Longrightarrow> \<exists>m'. f m ?rd ?ad p = Some m' \<and>
        num_at m' ?rd (2 * al) = num_at m ?ad al * num_at m ?ad al \<and> same_but2 ?rd (2 * al) p k m m'" for f k
  proof -
    obtain g S1 where w: "bn_wexpand A t k S = (g, S1)" by fastforce
    note x = alters_wexpand [OF w assms(1,3)]
    have same: "st_bn S1 r = st_bn S r" "st_bn S1 a = st_bn S a" "bn_abs S1 a = bn_abs S a"
      using live_val [OF x(1) assms(1)] assms(2,4,5) by auto
    show ?thesis
    proof (cases g)
      case False
      have "alters K {r, t} S S1" using x(1) by (rule alters_mono) simp
      then show ?thesis using that(2) w False same x(3) [OF _ that(1)] by (auto simp: al_def)
    next
      case True
      note ok1 = alters_ok [OF x(1)]
      have "sep ?rd (2 * al) (bn_d (st_bn S1 t)) k" "sep (bn_d (st_bn S1 t)) k ?ad al"
        using apart_sep [OF ok1 assms(2,3), of "2 * al" k] apart_sep [OF ok1 assms(3,4), of k al] same assms(5,6) x(2) [OF True] wd
        by (auto simp: al_def)
      from that(3) [OF this, of "st_words S1"] obtain m' where m: "f (st_words S1) ?rd ?ad (bn_d (st_bn S1 t)) = Some m'"
        "num_at m' ?rd (2 * al) = num_at (st_words S1) ?ad al * num_at (st_words S1) ?ad al"
        "same_but2 ?rd (2 * al) (bn_d (st_bn S1 t)) k (st_words S1) m'" by blast
      have "num_at (st_words S1) ?ad al = bn_abs S a" using same by (simp add: bn_abs_def al_def)
      moreover have "alters K {r, t} S1 (S1\<lparr>st_words := m'\<rparr>)"
        using alters_words2 [OF ok1 assms(2,3), of "2 * al" k m'] m(3) same assms(6) x(2) [OF True] by (simp add: al_def)
      then have "alters K {r, t} S (S1\<lparr>st_words := m'\<rparr>)" using alters_mono [OF x(1), of "{r, t}"] alters_trans by blast
      ultimately show ?thesis using that(2) w True m(1,2) same by (auto simp: al_def)
    qed
  qed
  consider "al = 4" | "al = 8" | "al < 16" "al \<noteq> 4" "al \<noteq> 8" | "16 \<le> al" "al AND (al - 1) = 0" | "16 \<le> al" "al AND (al - 1) \<noteq> 0" by linarith
  then show ?thesis
  proof cases
    case 1
    then show ?thesis using in_place [of "bn_sqr_comba4 ?m ?rd ?ad"] bn_sqr_comba4 [of ?rd ?ad ?m] ra
      by (simp add: sqr_into_def Let_def al_def [symmetric] sep_def)
  next
    case 2
    then show ?thesis using in_place [of "bn_sqr_comba8 ?m ?rd ?ad"] bn_sqr_comba8 [of ?rd ?ad ?m] ra
      by (simp add: sqr_into_def Let_def al_def [symmetric] sep_def)
  next
    case 3
    have fresh: "sep ?rd (2 * al) (st_brk S) (2 * al)" "sep (st_brk S) (2 * al) ?ad al"
      using assms(1,2,4,6) wd by (auto simp: store_ok_def bn_ok_def sep_def al_def)
    note v = bn_sqr_normal [OF ra fresh, of ?m] assms(7)
    have "alters K {r} S (S\<lparr>st_words := bn_sqr_normal ?m ?rd ?ad al (st_brk S)\<rparr>)"
      using alters_words_fresh [OF assms(1,2) v(2)] assms(6,7) by (simp add: al_def)
    then have "alters K {r, t} S (S\<lparr>st_words := bn_sqr_normal ?m ?rd ?ad al (st_brk S)\<rparr>)" by (rule alters_mono) simp
    then show ?thesis using 3 v(1) assms(7) abs
      by (auto simp: sqr_into_def Let_def al_def [symmetric] BN_MUL_RECURSIVE_SIZE_NORMAL_def)
  next
    case 4
    obtain k where k: "al = 2 ^ k" using power_two_test [of al] 4 by auto
    show ?thesis
      by (rule scratch [of "al * 4" "\<lambda>m r a p. bn_sqr_recursive m r a al p"])
        (use 4 bn_sqr_recursive [OF k ra] in \<open>auto simp: sqr_into_def Let_def al_def [symmetric] BN_MUL_RECURSIVE_SIZE_NORMAL_def mult.commute\<close>)
  next
    case 5
    show ?thesis
      by (rule scratch [of "2 * al" "\<lambda>m r a p. Some (bn_sqr_normal m r a al p)"])
        (use 5 bn_sqr_normal [OF ra] in \<open>auto simp: sqr_into_def Let_def al_def [symmetric] BN_MUL_RECURSIVE_SIZE_NORMAL_def split: prod.split\<close>)
  qed
qed

text \<open>A number given by the caller, or else a temporary.\<close>

lemma given_or_taken:
  assumes "ctx_ok L ctx S" "r \<in> mine L ctx" "G = (if c then Some (Some r, ctx, S) else BN_CTX_get A ctx S)"
  shows "\<exists>t ctx' S'. G = Some (t, ctx', S') \<and> advances L {} ctx S ctx' S' \<and>
    (\<forall>n. ample A (Suc n) ctx S \<longrightarrow> t \<noteq> None \<and> ample A n ctx' S') \<and>
    (\<forall>i. t = Some i \<longrightarrow> i \<in> mine L ctx' \<and> (if c then i = r else i \<notin> mine L ctx))"
proof (cases c)
  case True
  have "ample A n ctx S" if "ample A (Suc n) ctx S" for n using that by (simp add: ample_def)
  then show ?thesis using True assms advances_refl by auto
next
  case False
  then show ?thesis using get_advances [OF assms(1), of A] assms(3) by (elim exE conjE) auto
qed

lemma bn_sqr_consttime:
  assumes ok: "ctx_ok L ctx S" and mem: "r \<in> mine L ctx" "a \<in> mine L ctx"
  shows "\<exists>ok ctx' S'. bn_sqr_consttime A r a ctx S = Some (ok, ctx', S') \<and> call_done L {r} ctx S ctx' S' \<and>
    (ok \<longrightarrow> bn_val S' r = bn_val S a * bn_val S a) \<and>
    (roomy A ctx S r (4 * bn_width (st_bn S a)) \<longrightarrow> ok \<and> \<not> cx_error ctx')"
proof (cases "bn_width (st_bn S a) = 0")
  case True
  have "call_done L {r} ctx S ctx (BN_zero r S)" by (rule alters_call [OF alters_zero ok]) (use ok in \<open>simp add: ctx_ok_def\<close>)
  then show ?thesis using True width_zero zero_val by (auto simp: bn_sqr_consttime_def roomy_def ample_def)
next
  case False
  define al where "al = bn_width (st_bn S a)"
  obtain ctx1 where st: "BN_CTX_start A ctx = ctx1" by blast
  note s = ctx_start [OF st ok]
  note m1 = mine_start [OF st ok]
  have r1: "r \<in> mine L ctx1" using mem m1 by simp
  have am1: "ample A (Suc (Suc 0)) ctx1 S" if "roomy A ctx S r (4 * al)" using s(6) that by (auto simp: roomy_def numeral_2_eq_2)
  obtain rr ctx2 S2 where g1: "(if a \<noteq> r then Some (Some r, ctx1, S) else BN_CTX_get A ctx1 S) = Some (rr, ctx2, S2)"
    "advances L {} ctx1 S ctx2 S2" "\<forall>n. ample A (Suc n) ctx1 S \<longrightarrow> rr \<noteq> None \<and> ample A n ctx2 S2"
    "\<forall>i. rr = Some i \<longrightarrow> i \<in> mine L ctx2 \<and> (if a \<noteq> r then i = r else i \<notin> mine L ctx1)"
    using given_or_taken [OF s(1) r1 refl, of "a \<noteq> r" A] by (elim exE conjE) (rule that)
  have ok2: "ctx_ok L ctx2 S2" using g1(2) by (simp add: advances_def)
  obtain tmp ctx3 S3 where g2: "BN_CTX_get A ctx2 S2 = Some (tmp, ctx3, S3)" "advances L {} ctx2 S2 ctx3 S3"
    "\<forall>n. ample A (Suc n) ctx2 S2 \<longrightarrow> tmp \<noteq> None \<and> ample A n ctx3 S3"
    "\<forall>i. tmp = Some i \<longrightarrow> \<not> cx_error ctx3 \<and> i \<in> mine L ctx3 \<and> i \<notin> mine L ctx2"
    using get_advances [OF ok2, of A] by (elim exE conjE) (rule that)
  have adv: "advances L {} ctx1 S ctx3 S3" by (rule advances_trans [OF g1(2) g2(2)]) auto
  have ok3: "ctx_ok L ctx3 S3" "store_ok (live L ctx3) S3" using g2(2) by (simp_all add: advances_def ctx_ok_def)
  note m3 = mine_advances [OF g1(2)] mine_advances [OF g2(2)] mine_live [of L ctx3]
  have same: "st_bn S3 a = st_bn S a" "bn_abs S3 a = bn_abs S a" using advances_same [OF adv s(1)] mem m1 by auto
  have run: "bn_sqr_consttime A r a ctx S = do {
      (ret, S) \<leftarrow> (case (rr, tmp) of
          (Some rr, Some tmp) \<Rightarrow>
            (let (ok, S) = bn_wexpand A rr (2 * al) S3
             in if \<not> ok then Some (False, S)
                else do {
                  (ok, S) \<leftarrow> sqr_into A rr a tmp S;
                  (if \<not> ok then Some (False, S)
                   else
                     (let S = set_width rr (2 * al) (set_neg rr False S)
                      in Some (if rr \<noteq> r then BN_copy A r rr S else (True, S))))
                })
        | _ \<Rightarrow> Some (False, S3));
      ctx \<leftarrow> BN_CTX_end ctx3;
      Some (ret, ctx, S)
    }"
    unfolding bn_sqr_consttime_def Let_def st if_not_P [OF False] g1(1) g2(1) al_def by (simp add: g1(1) g2(1))
  have fin: ?thesis
    if S': "(case (rr, tmp) of
          (Some rr, Some tmp) \<Rightarrow>
            (let (ok, S) = bn_wexpand A rr (2 * al) S3
             in if \<not> ok then Some (False, S)
                else do {
                  (ok, S) \<leftarrow> sqr_into A rr a tmp S;
                  (if \<not> ok then Some (False, S)
                   else
                     (let S = set_width rr (2 * al) (set_neg rr False S)
                      in Some (if rr \<noteq> r then BN_copy A r rr S else (True, S))))
                })
        | _ \<Rightarrow> Some (False, S3)) = Some (g, S')"
      and adv_r: "advances L {r} ctx1 S ctx3 S'" and val: "g \<longrightarrow> bn_abs S' r = bn_abs S a * bn_abs S a \<and> \<not> bn_neg (st_bn S' r)"
      and room: "roomy A ctx S r (4 * al) \<longrightarrow> g \<and> \<not> cx_error ctx3" for g S'
  proof -
    obtain ctx4 where e: "BN_CTX_end ctx3 = Some ctx4" "call_done L {r} ctx S ctx4 S'" "cx_error ctx4 = cx_error ctx3"
      using framed [OF st ok adv_r] by auto
    have "bn_sqr_consttime A r a ctx S = Some (g, ctx4, S')" unfolding run S' by (simp add: e(1))
    moreover have "g \<longrightarrow> bn_val S' r = bn_val S a * bn_val S a" using val by (simp add: bn_val_def)
    ultimately show ?thesis using e(2,3) room al_def by auto
  qed
  have am3: "rr \<noteq> None \<and> tmp \<noteq> None \<and> ample A 0 ctx3 S3" if "roomy A ctx S r (4 * al)" using am1 [OF that] g1(3) g2(3) by auto
  show ?thesis
  proof (cases "rr = None \<or> tmp = None")
    case True
    show ?thesis
      by (rule fin [of False S3]) (use True am3 advances_more [OF adv] in \<open>auto split: option.split\<close>)
  next
    case False
    then obtain i t where it: "rr = Some i" "tmp = Some t" by auto
    have i: "i \<in> mine L ctx2" "i \<noteq> a" "i = r \<or> i \<notin> mine L ctx1" using g1(4) it mem m1 by (auto split: if_splits)
    have t: "t \<in> mine L ctx3" "t \<notin> mine L ctx2" "t \<notin> mine L ctx1" "\<not> cx_error ctx3" using g2(4) it m3 by auto
    have K: "i \<in> live L ctx3" "t \<in> live L ctx3" "a \<in> live L ctx3" "r \<in> live L ctx3" "distinct [i, t, a]"
      using i t m3 mem m1 r1 by auto
    have grow: "growable A S3 r (4 * al) \<and> growable A S3 i (4 * al) \<and> growable A S3 t (4 * al)" if "roomy A ctx S r (4 * al)"
    proof -
      have r: "growable A S3 r (4 * al)" using that adv r1 by (auto simp: roomy_def growable_def advances_def)
      have "growable A S3 j (4 * al)" if "j \<in> mine L ctx3" "j = r \<or> j \<notin> mine L ctx1" for j
      proof (cases "j = r")
        case False
        then have "j \<in> set (pool ctx3)" using that by (auto simp: mine_def dest: in_set_takeD)
        then show ?thesis using ample_growable am3 [OF \<open>roomy A ctx S r (4 * al)\<close>] r by (auto simp: growable_def)
      qed (use r in simp)
      then show ?thesis using r i t m3 by auto
    qed
    obtain g S4 where w: "bn_wexpand A i (2 * al) S3 = (g, S4)" by fastforce
    note x = alters_wexpand [OF w ok3(2) K(1)]
    have g': g if "roomy A ctx S r (4 * al)" by (rule x(3) [of "4 * al"]) (use grow [OF that] in simp_all)
    have adv': "advances L {r} ctx1 S ctx3 S'" if "alters (live L ctx3) {i, t} S3 S'" for S'
      by (rule advances_trans [OF adv alters_advances [OF that ok3(1) order_refl]]) (use i t in auto)
    show ?thesis
    proof (cases g)
      case False
      have "alters (live L ctx3) {i, t} S3 S4" using x(1) by (rule alters_mono) simp
      then show ?thesis using it w False adv' g' t(4) by (intro fin [of False S4]) auto
    next
      case True
      have sa: "st_bn S4 a = st_bn S a" "bn_abs S4 a = bn_abs S a" using live_val [OF x(1) ok3(2), of a] K same by auto
      have al: "al = bn_width (st_bn S4 a)" "0 < al" using sa False \<open>bn_width (st_bn S a) \<noteq> 0\<close> by (simp_all add: al_def)
      obtain h S5 where q: "sqr_into A i a t S4 = Some (h, S5)" "alters (live L ctx3) {i, t} S4 S5" "bn_dmax (st_bn S5 i) = bn_dmax (st_bn S4 i)"
        "h \<longrightarrow> num_at (st_words S5) (bn_d (st_bn S5 i)) (2 * al) = bn_abs S a * bn_abs S a" "growable A S4 t (4 * al) \<longrightarrow> h"
        using sqr_into [OF alters_ok [OF x(1)] K(1,2,3,5), of A] x(2) [OF True] al sa by auto
      have al5: "alters (live L ctx3) {i, t} S3 S5" using alters_mono [OF x(1), of "{i, t}"] q(2) alters_trans by blast
      have h: h if "roomy A ctx S r (4 * al)" using q(5) growable_alters [OF _ x(1)] grow [OF that] by blast
      show ?thesis
      proof (cases h)
        case False
        then show ?thesis using it w True q(1) adv' [OF al5] h by (intro fin [of False S5]) auto
      next
        case h': True
        define S6 where "S6 = set_width i (2 * al) (set_neg i False S5)"
        have n5: "alters (live L ctx3) {i} S5 (set_neg i False S5)" by (rule alters_set_neg [OF alters_ok [OF al5] K(1)])
        have "alters (live L ctx3) {i} (set_neg i False S5) S6" unfolding S6_def
          by (rule alters_set_width [OF alters_ok [OF n5]]) (use x(2) [OF True] q(3) in simp)
        with n5 have 6: "alters (live L ctx3) {i} S5 S6" by (rule alters_trans)
        have al6: "alters (live L ctx3) {i, t} S3 S6" using al5 alters_mono [OF 6, of "{i, t}"] alters_trans by blast
        have v6: "bn_abs S6 i = bn_abs S a * bn_abs S a" "\<not> bn_neg (st_bn S6 i)" "bn_width (st_bn S6 i) = 2 * al"
          using q(4) h' by (simp_all add: S6_def set_width_def bn_abs_def)
        show ?thesis
        proof (cases "i = r")
          case True
          then show ?thesis using it w \<open>g\<close> q(1) h' adv' [OF al6] v6 t(4) S6_def
            by (intro fin [of True S6]) auto
        next
          case False
          obtain c S7 where cp: "BN_copy A r i S6 = (c, S7)" by fastforce
          note y = alters_copy [OF cp alters_ok [OF al6] K(4,1)]
          have "advances L {r} ctx1 S ctx3 S7"
            by (rule advances_trans [OF adv' [OF al6] alters_advances [OF y(1) _ order_refl]])
              (use adv' [OF al6] in \<open>auto simp: advances_def\<close>)
          moreover have "c" if "roomy A ctx S r (4 * al)"
            using y(4) [OF growable_alters [OF _ al6]] grow [OF that] v6(3) by auto
          ultimately show ?thesis using it w \<open>g\<close> q(1) h' cp y(2,3) v6 t(4) False S6_def
            by (intro fin [of c S7]) auto
        qed
      qed
    qed
  qed
qed

lemma BN_sqr:
  assumes ok: "ctx_ok L ctx S" and mem: "r \<in> mine L ctx" "a \<in> mine L ctx"
  shows "\<exists>ok ctx' S'. BN_sqr A r a ctx S = Some (ok, ctx', S') \<and> call_done L {r} ctx S ctx' S' \<and>
    (ok \<longrightarrow> bn_val S' r = bn_val S a * bn_val S a \<and> minimal S' r) \<and>
    (roomy A ctx S r (4 * bn_width (st_bn S a)) \<longrightarrow> ok \<and> \<not> cx_error ctx')"
proof -
  obtain g ctx' S1 where 1: "bn_sqr_consttime A r a ctx S = Some (g, ctx', S1)" "call_done L {r} ctx S ctx' S1"
    "g \<longrightarrow> bn_val S1 r = bn_val S a * bn_val S a" "roomy A ctx S r (4 * bn_width (st_bn S a)) \<longrightarrow> g \<and> \<not> cx_error ctx'"
    using bn_sqr_consttime [OF ok mem, of A] by (elim exE conjE) (rule that)
  define S' where "S' = (if g then bn_set_minimal_width r S1 else S1)"
  have st: "store_ok (live L ctx') S1" "r \<in> live L ctx'" using 1(2) mine_after [OF 1(2)] mem(1) by (auto simp: call_done_def ctx_ok_def)
  have "call_done L {r} ctx S ctx' S'" unfolding S'_def using 1(2) call_alters [OF 1(2) alters_minimal [OF st]] by simp
  moreover have "g \<longrightarrow> bn_val S' r = bn_val S a * bn_val S a \<and> minimal S' r"
    using bn_set_minimal_width(3,4) [OF st] 1(3) by (simp add: S'_def)
  moreover have "BN_sqr A r a ctx S = Some (g, ctx', S')" using 1(1) by (simp add: BN_sqr_def S'_def)
  ultimately show ?thesis using 1(4) by blast
qed

section \<open>The other products\<close>

text \<open>The functions for numbers of fixed width refuse negative numbers, and abort on wrong lengths.\<close>

lemma bn_mul_consttime:
  assumes ok: "ctx_ok L ctx S" and mem: "r \<in> mine L ctx" "a \<in> mine L ctx" "b \<in> mine L ctx"
  shows "\<exists>ok ctx' S'. bn_mul_consttime A r a b ctx S = Some (ok, ctx', S') \<and> call_done L {r} ctx S ctx' S' \<and>
    (ok \<longrightarrow> \<not> bn_neg (st_bn S a) \<and> \<not> bn_neg (st_bn S b) \<and> bn_val S' r = bn_val S a * bn_val S b)"
proof (cases "bn_neg (st_bn S a) \<or> bn_neg (st_bn S b)")
  case True
  have "call_done L {r} ctx S ctx S" using ok by (intro alters_call [OF alters_refl ok]) (simp add: ctx_ok_def)
  then show ?thesis using True by (auto simp: bn_mul_consttime_def)
next
  case False
  then show ?thesis using bn_mul_impl [OF ok mem, of A] unfolding bn_mul_consttime_def by (simp only: if_False) blast
qed

lemma bn_mul_small:
  assumes "sep r (na + nb) a na" "sep r (na + nb) b nb"
  shows "\<exists>m'. bn_mul_small m r (na + nb) a na b nb = Some m' \<and> num_at m' r (na + nb) = num_at m a na * num_at m b nb \<and> same_but r (na + nb) m m'"
  using bn_mul_normal [OF assms, of m] bn_mul_comba8 [of r a b m] assms by (auto simp: bn_mul_small_def sep_def)

lemma bn_sqr_small:
  assumes "sep r (2 * n) a n" "sep r (2 * n) t (2 * n)" "sep t (2 * n) a n" "0 < n" "n \<le> BN_SMALL_MAX_WORDS"
  shows "\<exists>m'. bn_sqr_small m r (2 * n) a n t = Some m' \<and> num_at m' r (2 * n) = num_at m a n * num_at m a n \<and> same_but2 r (2 * n) t (2 * n) m m'"
proof -
  consider "n = 4" | "n = 8" | "n \<noteq> 4" "n \<noteq> 8" by blast
  then show ?thesis
  proof cases
    case 3
    let ?m = "bn_sqr_normal m r a n t"
    note v = bn_sqr_normal [OF assms(1-4), of m]
    have z: "same_but t (2 * n) ?m (words_zero ?m t (2 * n))" by (rule words_zero(2))
    then have "num_at (words_zero ?m t (2 * n)) r (2 * n) = num_at ?m r (2 * n)" by (rule num_at_apart [OF _ sep_sym [OF assms(2)]])
    moreover have "same_but2 r (2 * n) t (2 * n) m (words_zero ?m t (2 * n))" using v(2) same_but2_right [OF z] same_but2_trans by blast
    ultimately show ?thesis using 3 v(1) assms(5) by (auto simp: bn_sqr_small_def)
  qed (use bn_sqr_comba4 [of r a m] bn_sqr_comba8 [of r a m] assms in \<open>auto simp: bn_sqr_small_def sep_def intro: same_but2_same\<close>)
qed

lemma BN_mul_word:
  assumes "BN_mul_word A a w S = (ok, S')" "store_ok K S" "a \<in> K"
  shows "alters K {a} S S'" "ok \<Longrightarrow> bn_val S' a = bn_val S a * uint w" "growable A S a (bn_width (st_bn S a) + 1) \<Longrightarrow> ok"
proof -
  let ?n = "bn_width (st_bn S a)" and ?d = "bn_d (st_bn S a)"
  have "alters K {a} S S' \<and> (ok \<longrightarrow> bn_val S' a = bn_val S a * uint w) \<and> (growable A S a (?n + 1) \<longrightarrow> ok)"
  proof (cases "?n = 0 \<or> w = 0")
    case True
    have "ok" "S' = (if ?n = 0 then S else BN_zero a S)" using assms(1) True unfolding BN_mul_word_def Let_def
      by (cases "?n = 0"; simp)+
    then show ?thesis using True alters_zero [OF assms(2)] alters_refl [OF assms(2)] zero_val(1) [of a S] width_zero [of S a] by auto
  next
    case False
    obtain m ll where m: "bn_mul_words (st_words S) ?d ?d ?n w = (m, ll)" by fastforce
    let ?S1 = "S\<lparr>st_words := m\<rparr>"
    note v = bn_mul_words [OF m may_read_refl]
    have 1: "alters K {a} S ?S1" using alters_words [OF assms(2,3) v(2)] store_ok_width(1) [OF assms(2,3)] by simp
    have abs1: "bn_abs ?S1 a + 2 ^ (64 * ?n) * unat ll = unat w * bn_abs S a" using v(1) by (simp add: bn_abs_def)
    have val: "bn_val S' a = bn_val S a * uint w" if "bn_abs S' a = unat w * bn_abs S a" "bn_neg (st_bn S' a) = bn_neg (st_bn S a)" for S'
      using that by (simp add: bn_val_def mult.commute)
    show ?thesis
    proof (cases "ll = 0")
      case True
      then have "ok" "S' = ?S1" using assms(1) False m by (auto simp: BN_mul_word_def)
      then show ?thesis using 1 abs1 True val [of ?S1] by simp
    next
      case ll: False
      obtain g S2 where w: "bn_wexpand A a (?n + 1) ?S1 = (g, S2)" by fastforce
      note x = alters_wexpand [OF w alters_ok [OF 1] assms(3)]
      have al2: "alters K {a} S S2" using 1 x(1) by (rule alters_trans)
      have g: "growable A S a (?n + 1) \<longrightarrow> g" using x(3) [OF growable_alters [OF _ 1] order_refl] by blast
      show ?thesis
      proof (cases g)
        case False
        then have "\<not> ok" "S' = S2" using assms(1) \<open>\<not> (?n = 0 \<or> w = 0)\<close> m ll w by (auto simp: BN_mul_word_def)
        then show ?thesis using al2 g False by simp
      next
        case True
        let ?m3 = "(st_words S2)(bn_d (st_bn S2 a) + ?n := ll)"
        have S': "ok" "S' = set_width a (?n + 1) (S2\<lparr>st_words := ?m3\<rparr>)"
          using assms(1) False m ll w True by (auto simp: BN_mul_word_def set_limb_def Let_def)
        have 3: "alters K {a} S2 (S2\<lparr>st_words := ?m3\<rparr>)"
          by (rule alters_words [OF alters_ok [OF al2] assms(3) _ x(2) [OF True]]) (simp add: same_but_def)
        have "alters K {a} (S2\<lparr>st_words := ?m3\<rparr>) S'" unfolding S'(2)
          by (rule alters_set_width [OF alters_ok [OF 3]]) (use x(2) [OF True] in simp)
        then have "alters K {a} S S'" using al2 3 alters_trans by blast
        moreover have "bn_abs S' a = unat w * bn_abs S a"
        proof -
          have "num_at ?m3 (bn_d (st_bn S2 a)) ?n = num_at (st_words S2) (bn_d (st_bn S2 a)) ?n" by (rule num_at_cong) simp
          also have "\<dots> = bn_abs ?S1 a" using x(4) [of a] x(6) [of a] assms(3) by (simp add: bn_abs_def)
          finally have "num_at ?m3 (bn_d (st_bn S2 a)) (?n + 1) = bn_abs ?S1 a + 2 ^ (64 * ?n) * unat ll" by (simp add: num_simps)
          then show ?thesis using abs1 by (simp add: S'(2) set_width_def bn_abs_def)
        qed
        moreover have "bn_neg (st_bn S' a) = bn_neg (st_bn S a)" using x(5) [of a] by (simp add: S'(2) set_width_def)
        ultimately show ?thesis using S'(1) val by blast
      qed
    qed
  qed
  then show "alters K {a} S S'" "ok \<Longrightarrow> bn_val S' a = bn_val S a * uint w" "growable A S a (?n + 1) \<Longrightarrow> ok" by auto
qed

text \<open>The absolute difference; the sign of \<open>r\<close> stays what it was.\<close>

lemma bn_abs_sub_consttime:
  assumes ok: "ctx_ok L ctx S" and mem: "r \<in> mine L ctx" "a \<in> mine L ctx" "b \<in> mine L ctx"
  shows "\<exists>ok ctx' S'. bn_abs_sub_consttime A r a b ctx S = Some (ok, ctx', S') \<and> call_done L {r} ctx S ctx' S' \<and>
    (ok \<longrightarrow> int (bn_abs S' r) = \<bar>int (bn_abs S a) - int (bn_abs S b)\<bar> \<and> bn_neg (st_bn S' r) = bn_neg (st_bn S r)) \<and>
    (roomy A ctx S r (max (bn_width (st_bn S a)) (bn_width (st_bn S b))) \<longrightarrow> ok \<and> \<not> cx_error ctx')"
proof -
  define aw where "aw = bn_width (st_bn S a)"
  define bw where "bw = bn_width (st_bn S b)"
  let ?n = "max aw bw"
  have n: "(if aw < bw then bw else aw) = ?n" "(if aw < bw then aw else bw) = min aw bw" by (simp_all add: max_def min_def)
  obtain ctx1 where st: "BN_CTX_start A ctx = ctx1" by blast
  note s = ctx_start [OF st ok]
  note m1 = mine_start [OF st ok]
  obtain t ctx2 S1 where get: "BN_CTX_get A ctx1 S = Some (t, ctx2, S1)" "advances L {} ctx1 S ctx2 S1"
    "\<forall>n. ample A (Suc n) ctx1 S \<longrightarrow> t \<noteq> None \<and> ample A n ctx2 S1"
    "\<forall>i. t = Some i \<longrightarrow> \<not> cx_error ctx2 \<and> i \<in> mine L ctx2 \<and> i \<notin> mine L ctx1"
    using get_advances [OF s(1), of A] by (elim exE conjE) (rule that)
  have ok1: "ctx_ok L ctx2 S1" "store_ok (live L ctx2) S1" using get(2) by (simp_all add: advances_def ctx_ok_def)
  have fin: ?thesis
    if step: "(case t of
         None \<Rightarrow> Some (False, S1)
       | Some tmp \<Rightarrow>
           (let (ok, S) = bn_wexpand A r ?n S1
            in if \<not> ok then Some (False, S)
               else
                 (let (ok, S) = bn_wexpand A tmp ?n S
                  in if \<not> ok then Some (False, S)
                     else
                       (let (m, _) = bn_abs_sub_part_words (st_words S) (bn_d (st_bn S r)) (bn_d (st_bn S a)) (bn_d (st_bn S b)) (min aw bw)
                                       (int aw - int bw) (bn_d (st_bn S tmp))
                        in Some (True, set_width r ?n (S\<lparr>st_words := m\<rparr>)))))) = Some (g, S')"
      and adv: "advances L {r} ctx1 S ctx2 S'"
      and val: "g \<longrightarrow> int (bn_abs S' r) = \<bar>int (bn_abs S a) - int (bn_abs S b)\<bar> \<and> bn_neg (st_bn S' r) = bn_neg (st_bn S r)"
      and room: "roomy A ctx S r ?n \<longrightarrow> g \<and> \<not> cx_error ctx2" for g S'
  proof -
    obtain ctx3 where e: "BN_CTX_end ctx2 = Some ctx3" "call_done L {r} ctx S ctx3 S'" "cx_error ctx3 = cx_error ctx2"
      using framed [OF st ok adv] by auto
    have "bn_abs_sub_consttime A r a b ctx S = Some (g, ctx3, S')"
      unfolding bn_abs_sub_consttime_def Let_def st aw_def [symmetric] bw_def [symmetric] n get(1)
      by (simp only: step [unfolded Let_def] get(1) Option.bind.simps prod.case e(1))
    then show ?thesis using e(2,3) val room aw_def bw_def by auto
  qed
  have am: "t \<noteq> None \<and> ample A 0 ctx2 S1" if "roomy A ctx S r ?n"
  proof -
    have "ample A 2 ctx1 S" using s(6) that by (auto simp: roomy_def)
    then have "ample A (Suc 0) ctx1 S" by (simp add: ample_def)
    then show ?thesis using get(3) by blast
  qed
  show ?thesis
  proof (cases t)
    case None
    show ?thesis by (rule fin [of False S1]) (use None am advances_more [OF get(2)] in auto)
  next
    case (Some i)
    note m2 = mine_advances [OF get(2)] mine_live [of L ctx2]
    have i: "i \<in> live L ctx2" "i \<noteq> r" "i \<noteq> a" "i \<noteq> b" "\<not> cx_error ctx2" "i \<notin> mine L ctx1" using get(4) Some mem m1 m2 by auto
    have K: "r \<in> live L ctx2" "a \<in> live L ctx2" "b \<in> live L ctx2" using mem m1 m2 by auto
    have same: "st_bn S1 j = st_bn S j \<and> bn_abs S1 j = bn_abs S j" if "j \<in> {r, a, b}" for j
      using advances_same [OF get(2) s(1), of j] that mem m1 by auto
    obtain g S2 where w: "bn_wexpand A r ?n S1 = (g, S2)" by fastforce
    note x = alters_wexpand [OF w ok1(2) K(1)]
    obtain h S3 where w': "bn_wexpand A i ?n S2 = (h, S3)" by fastforce
    note y = alters_wexpand [OF w' alters_ok [OF x(1)] i(1)]
    have al: "alters (live L ctx2) {r, i} S1 S2" "alters (live L ctx2) {r, i} S1 S3"
      using alters_mono [OF x(1), of "{r, i}"] alters_mono [OF y(1), of "{r, i}"] alters_trans by blast+
    have adv: "advances L {r} ctx1 S ctx2 S'" if "alters (live L ctx2) {r, i} S1 S'" for S'
      by (rule advances_trans [OF get(2) alters_advances [OF that ok1(1) order_refl]]) (use i(6) in auto)
    have fits: "g \<and> h" if "roomy A ctx S r ?n"
    proof
      have r: "growable A S1 r ?n" using that same [of r] by (auto simp: roomy_def growable_def)
      then show g by (rule x(3)) simp
      have "i \<in> set (pool ctx2)" using i(1,6) m1 by (auto simp: live_def mine_def)
      then have "growable A S1 i ?n" using ample_growable am [OF that] r by (auto simp: growable_def)
      then show h by (intro y(3) [OF growable_alters [OF _ x(1)]]) auto
    qed
    show ?thesis
    proof (cases "g \<and> h")
      case False
      then show ?thesis using Some w w' al adv fits by (intro fin [of False "if g then S3 else S2"]) auto
    next
      case True
      note ok3 = alters_ok [OF al(2)]
      have wd: "bn_width (st_bn S3 j) = bn_width (st_bn S j)" "bn_abs S3 j = bn_abs S j" if "j \<in> {r, a, b}" for j
        using x(4) [of j] y(4) [of j] x(6) [of j] y(6) [of j] K same [OF that] that by auto
      have room: "?n \<le> bn_dmax (st_bn S3 r)" "?n \<le> bn_dmax (st_bn S3 i)"
        using x(2) y(2) True live_val [OF y(1) alters_ok [OF x(1)], of r] K(1) i(2) by auto
      have wds: "aw \<le> bn_dmax (st_bn S3 a)" "bw \<le> bn_dmax (st_bn S3 b)"
        using store_ok_width(1) [OF ok3 K(2)] store_ok_width(1) [OF ok3 K(3)] wd(1) [of a] wd(1) [of b] by (simp_all add: aw_def bw_def)
      obtain m msk where m: "bn_abs_sub_part_words (st_words S3) (bn_d (st_bn S3 r)) (bn_d (st_bn S3 a)) (bn_d (st_bn S3 b)) (min aw bw)
          (int aw - int bw) (bn_d (st_bn S3 i)) = (m, msk)" by fastforce
      have lens: "aw = min aw bw + nat (int aw - int bw)" "bw = min aw bw + nat (- (int aw - int bw))" "?n = min aw bw + nat \<bar>int aw - int bw\<bar>"
        by (auto simp: min_def max_def)
      have sep: "sep (bn_d (st_bn S3 r)) ?n (bn_d (st_bn S3 i)) ?n" "sep (bn_d (st_bn S3 i)) ?n (bn_d (st_bn S3 a)) aw"
        "sep (bn_d (st_bn S3 i)) ?n (bn_d (st_bn S3 b)) bw"
        using apart_sep [OF ok3 K(1) i(1)] apart_sep [OF ok3 i(1) K(2)] apart_sep [OF ok3 i(1) K(3)] i(2-4) room wds by auto
      note v = abs_sub_part_words [OF m lens sep(1) may_read_limbs [OF ok3 K(1,2) wds(1)] may_read_limbs [OF ok3 K(1,3) wds(2)] sep(2,3)]
      have ab: "num_at (st_words S3) (bn_d (st_bn S3 a)) aw = bn_abs S a" "num_at (st_words S3) (bn_d (st_bn S3 b)) bw = bn_abs S b"
        using wd [of a] wd [of b] by (simp_all add: bn_abs_def aw_def bw_def)
      let ?S' = "set_width r ?n (S3\<lparr>st_words := m\<rparr>)"
      note st = store_result [OF ok3 K(1) i(1) v(3) room refl num_at_bound order_refl]
      have "alters (live L ctx2) {r, i} S1 ?S'" using al(2) st(1) by (rule alters_trans)
      moreover have "int (bn_abs ?S' r) = \<bar>int (bn_abs S a) - int (bn_abs S b)\<bar>" using v(1) ab st(2) by simp
      moreover have "bn_neg (st_bn ?S' r) = bn_neg (st_bn S r)" using st(3) x(5) [of r] y(5) [of r] same [of r] by simp
      ultimately show ?thesis using Some w w' True m adv i(5) by (intro fin [of True ?S']) auto
    qed
  qed
qed

end
