(* ===== verification/Bn_Compare.thy ===== *)
theory Bn_Compare
  imports Bn_Add Bn_Arith
begin

unbundle bit_operations_syntax

text \<open>
  Comparisons and tests of \<open>cmp.c\<close> and the sizes of \<open>bn.c\<close>, against the integers the numbers denote.
\<close>

section \<open>Order and equality\<close>

lemma BN_cmp:
  assumes "signed_ok S a" "signed_ok S b"
  shows "BN_cmp S (Some a) (Some b) = (if bn_val S a < bn_val S b then - 1 else if bn_val S a = bn_val S b then 0 else 1)"
  using assms by (auto simp: BN_cmp_def BN_ucmp bn_val_def signed_ok_def)

lemma bn_less_than_words: "bn_less_than_words m a b n \<longleftrightarrow> num_at m a n < num_at m b n"
  by (auto simp: bn_less_than_words_def bn_cmp_words neg_one_less)

lemma xor_words_or: "xor_words_or m a b n msk = 0 \<longleftrightarrow> msk = 0 \<and> (\<forall>i < n. m (a + i) = m (b + i))"
proof (induction n arbitrary: a b msk)
  case (Suc n)
  have x: "msk OR (m a XOR m b) = 0 \<longleftrightarrow> msk = 0 \<and> m a = m b" using xor_zero_iff [of "m a" "m b"] by (simp add: or_eq_0_iff)
  show ?case by (simp add: Suc x All_less_Suc2)
qed simp

lemma num_at_inject: "num_at m p n = num_at m' q n \<longleftrightarrow> (\<forall>i < n. m (p + i) = m' (q + i))"
proof (induction n arbitrary: p q)
  case (Suc n)
  have "num_at m p (Suc n) = num_at m' q (Suc n) \<longleftrightarrow> m p = m' q \<and> num_at m (p + 1) n = num_at m' (q + 1) n"
  proof
    assume e: "num_at m p (Suc n) = num_at m' q (Suc n)"
    then have "num_at m p (Suc n) mod 2 ^ 64 = num_at m' q (Suc n) mod 2 ^ 64" "num_at m p (Suc n) div 2 ^ 64 = num_at m' q (Suc n) div 2 ^ 64" by simp_all
    then show "m p = m' q \<and> num_at m (p + 1) n = num_at m' (q + 1) n"
      using unat_u64_less [of "m p"] unat_u64_less [of "m' q"] unfolding num_at_Cons by (simp add: word_unat_eq_iff)
  qed (simp add: num_at_Cons)
  then show ?case by (simp add: Suc All_less_Suc2)
qed simp

lemma words_or_msk: "words_or m p n msk = 0 \<longleftrightarrow> msk = 0 \<and> num_at m p n = 0"
  by (rule words_or_zero)

lemma BN_equal_consttime:
  "BN_equal_consttime S a b \<longleftrightarrow> bn_abs S a = bn_abs S b \<and> bn_neg (st_bn S a) = bn_neg (st_bn S b)"
proof -
  define x where "x = bn_width (st_bn S a)"
  define y where "y = bn_width (st_bn S b)"
  let ?m = "st_words S" and ?p = "bn_d (st_bn S a)" and ?q = "bn_d (st_bn S b)"
  have "BN_equal_consttime S a b \<longleftrightarrow> num_at ?m (?q + x) (y - x) = 0 \<and> num_at ?m (?p + y) (x - y) = 0 \<and>
      num_at ?m ?p (min x y) = num_at ?m ?q (min x y) \<and> bn_neg (st_bn S a) = bn_neg (st_bn S b)"
    by (auto simp: BN_equal_consttime_def Let_def x_def [symmetric] y_def [symmetric] or_eq_0_iff xor_words_or words_or_zero num_at_inject
        min_def)
  also have "\<dots> \<longleftrightarrow> num_at ?m ?p x = num_at ?m ?q y \<and> bn_neg (st_bn S a) = bn_neg (st_bn S b)"
  proof -
    have longer: "num_at ?m u k = num_at ?m v n \<longleftrightarrow> num_at ?m (u + n) (k - n) = 0 \<and> num_at ?m u n = num_at ?m v n" if "n \<le> k" for u v k n
    proof -
      have e: "num_at ?m u k = num_at ?m u n + 2 ^ (64 * n) * num_at ?m (u + n) (k - n)" using num_at_append [of ?m u n "k - n"] that by simp
      have "num_at ?m (u + n) (k - n) = 0" if "num_at ?m u k = num_at ?m v n"
      proof (rule ccontr)
        assume "num_at ?m (u + n) (k - n) \<noteq> 0"
        then have "2 ^ (64 * n) * 1 \<le> 2 ^ (64 * n) * num_at ?m (u + n) (k - n)" by (intro mult_le_mono2) simp
        then show False using e that num_at_bound [of ?m v n] by linarith
      qed
      then show ?thesis using e by auto
    qed
    show ?thesis
    proof (cases "x \<le> y")
      case True
      then have z: "x - y = 0" "min x y = x" by simp_all
      show ?thesis unfolding z num_at_0 using longer [OF True, of ?q ?p] by metis
    next
      case False
      then have z: "y - x = 0" "min x y = y" "y \<le> x" by simp_all
      show ?thesis unfolding z(1,2) num_at_0 using longer [OF z(3), of ?p ?q] by metis
    qed
  qed
  finally show ?thesis by (simp add: bn_abs_def x_def y_def)
qed

section \<open>Tests\<close>

lemma BN_abs_is_word: "BN_abs_is_word S a w \<longleftrightarrow> bn_abs S a = unat w"
proof (cases "bn_width (st_bn S a)")
  case 0
  then show ?thesis by (auto simp: BN_abs_is_word_def bn_abs_def unat_eq_zero)
next
  case (Suc n)
  let ?m = "st_words S" and ?d = "bn_d (st_bn S a)"
  have x: "?m ?d XOR w = 0 \<longleftrightarrow> ?m ?d = w" by (auto simp: bit_eq_iff bit_xor_iff)
  have "bn_abs S a = unat w \<longleftrightarrow> num_at ?m (?d + 1) n = 0 \<and> ?m ?d = w"
    using unat_u64_less [of w] unfolding bn_abs_def Suc num_at_Cons by (cases "num_at ?m (?d + 1) n") (auto simp: word_unat_eq_iff)
  then show ?thesis using Suc x by (auto simp: BN_abs_is_word_def Let_def words_or_zero)
qed

lemma BN_is_word: "BN_is_word S a w \<longleftrightarrow> bn_val S a = uint w"
proof -
  have "int (bn_abs S a) = uint w \<longleftrightarrow> bn_abs S a = unat w" by (metis of_nat_eq_iff uint_nat)
  moreover have "- int (bn_abs S a) = uint w \<longleftrightarrow> bn_abs S a = unat w \<and> w = 0"
  proof
    assume "- int (bn_abs S a) = uint w"
    then have "int (bn_abs S a) = 0" "uint w = 0" using uint_ge_0 [of w] by linarith+
    then show "bn_abs S a = unat w \<and> w = 0" by (simp add: uint_0_iff)
  qed simp
  ultimately show ?thesis by (auto simp: BN_is_word_def BN_abs_is_word bn_val_def)
qed

lemma BN_is_one: "BN_is_one S a \<longleftrightarrow> bn_val S a = 1"
  by (auto simp: BN_is_one_def BN_abs_is_word bn_val_def)

lemma BN_is_odd: "BN_is_odd S a \<longleftrightarrow> odd (bn_val S a)"
proof (cases "bn_width (st_bn S a)")
  case 0
  then show ?thesis by (simp add: BN_is_odd_def bn_val_def bn_abs_def)
next
  case (Suc n)
  have "odd (bn_abs S a) \<longleftrightarrow> unat (limb S a 0) mod 2 = 1"
    unfolding bn_abs_def Suc num_at_Cons limb_def by (simp add: odd_iff_mod_2_eq_one)
  also have "\<dots> \<longleftrightarrow> unat (limb S a 0 AND 1) = 1" by (subst unsigned_and_eq) (simp add: and_one_eq)
  also have "\<dots> \<longleftrightarrow> limb S a 0 AND 1 = 1" by (metis unat_1 word_unat_eq_iff)
  finally show ?thesis using Suc by (simp add: BN_is_odd_def bn_val_def)
qed

section \<open>The size of a number\<close>

lemma minimal_width:
  fixes S :: bn_store and a :: nat
  defines "n \<equiv> bn_minimal_width S a"
  shows "num_at (st_words S) (bn_d (st_bn S a)) n = bn_abs S a" "0 < n \<Longrightarrow> limb S a (n - 1) \<noteq> 0"
  using min_width [of "st_words S" "bn_d (st_bn S a)" "bn_width (st_bn S a)"] by (auto simp: n_def bn_minimal_width_def bn_abs_def limb_def)

lemma minimal_width_zero: "bn_abs S a = 0 \<Longrightarrow> bn_minimal_width S a = 0"
  using minimal_width [of S a] by (cases "bn_minimal_width S a") (auto simp: num_at_zero_iff limb_def)

lemma BN_num_bits:
  "bn_abs S a < 2 ^ BN_num_bits S a" "bn_abs S a \<noteq> 0 \<Longrightarrow> 0 < BN_num_bits S a \<and> 2 ^ (BN_num_bits S a - 1) \<le> bn_abs S a"
proof -
  define n where "n = bn_minimal_width S a"
  have "bn_abs S a < 2 ^ BN_num_bits S a \<and> (bn_abs S a \<noteq> 0 \<longrightarrow> 0 < BN_num_bits S a \<and> 2 ^ (BN_num_bits S a - 1) \<le> bn_abs S a)"
  proof (cases n)
    case 0
    then show ?thesis using minimal_width(1) [of S a] by (simp add: n_def [symmetric] BN_num_bits_def)
  next
    case (Suc k)
    define w where "w = limb S a k"
    have w: "w \<noteq> 0" using minimal_width(2) [of S a] Suc by (simp add: n_def w_def)
    let ?b = "unat (BN_num_bits_word w)" and ?low = "num_at (st_words S) (bn_d (st_bn S a)) k"
    note b = BN_num_bits_word [OF w]
    have abs: "bn_abs S a = ?low + unat w * 2 ^ (64 * k)"
      using minimal_width(1) [of S a] Suc by (simp add: n_def [symmetric] w_def limb_def num_at_snoc)
    have bits: "BN_num_bits S a = k * 64 + ?b" using Suc by (simp add: BN_num_bits_def n_def [symmetric] w_def)
    have "(unat w + 1) * 2 ^ (64 * k) \<le> 2 ^ ?b * 2 ^ (64 * k)" using b(3) by (intro mult_le_mono1) simp
    then have "bn_abs S a < 2 ^ (k * 64 + ?b)"
      using num_at_bound [of "st_words S" "bn_d (st_bn S a)" k] abs by (simp add: power_add mult.commute)
    moreover have "2 ^ (k * 64 + ?b - 1) \<le> bn_abs S a"
    proof -
      have "k * 64 + ?b - 1 = 64 * k + (?b - 1)" using b(1) by simp
      then have "2 ^ (k * 64 + ?b - 1) = 2 ^ (?b - 1) * (2 :: nat) ^ (64 * k)" by (simp only: power_add mult.commute)
      also have "\<dots> \<le> unat w * 2 ^ (64 * k)" using b(2) by (rule mult_le_mono1)
      finally show ?thesis using abs by simp
    qed
    ultimately show ?thesis using bits b(1) by simp
  qed
  then show "bn_abs S a < 2 ^ BN_num_bits S a" "bn_abs S a \<noteq> 0 \<Longrightarrow> 0 < BN_num_bits S a \<and> 2 ^ (BN_num_bits S a - 1) \<le> bn_abs S a"
    by blast+
qed

lemma all_zero_words: "all_zero_words m d n \<longleftrightarrow> num_at m d n = 0"
  by (induction n arbitrary: d) (auto simp: num_at_Cons unat_eq_zero)

text \<open>A power of two has one bit: its highest word is one and the other words are zero.\<close>

lemma BN_is_pow2: "BN_is_pow2 S a \<longleftrightarrow> (\<exists>k. bn_val S a = 2 ^ k)"
proof -
  define n where "n = bn_minimal_width S a"
  let ?d = "bn_d (st_bn S a)" and ?m = "st_words S"
  show ?thesis
  proof (cases "n = 0 \<or> bn_neg (st_bn S a)")
    case True
    have "bn_val S a \<le> 0" using True minimal_width(1) [of S a] by (auto simp: n_def bn_val_def)
    then have "bn_val S a \<noteq> 2 ^ k" for k by (metis not_le zero_less_numeral zero_less_power)
    then show ?thesis using True by (simp add: BN_is_pow2_def n_def)
  next
    case False
    then obtain k where k: "n = Suc k" by (cases n) auto
    define w where "w = limb S a k"
    have w: "w \<noteq> 0" using minimal_width(2) [of S a] k by (simp add: n_def w_def)
    have abs: "bn_abs S a = num_at ?m ?d k + 2 ^ (64 * k) * unat w"
      using minimal_width(1) [of S a] k by (simp add: n_def [symmetric] w_def limb_def num_at_snoc mult.commute)
    have pow: "0 = w AND (w - 1) \<longleftrightarrow> (\<exists>j. unat w = 2 ^ j)"
    proof
      assume "0 = w AND (w - 1)"
      then have "unat w AND unat (w - 1) = 0" by (metis unat_0 unsigned_and_eq)
      moreover have "unat (w - 1) = unat w - 1" using w by (simp add: unat_minus_one)
      ultimately show "\<exists>j. unat w = 2 ^ j" using power_two_test [of "unat w"] w by (simp add: unat_gt_0)
    next
      assume "\<exists>j. unat w = 2 ^ j"
      then have "unat w AND (unat w - 1) = 0" using power_two_and by auto
      then have "unat (w AND (w - 1)) = 0" using w by (simp add: unsigned_and_eq unat_minus_one)
      then show "0 = w AND (w - 1)" by (simp add: unat_eq_zero)
    qed
    have "(\<exists>j. bn_abs S a = 2 ^ j) \<longleftrightarrow> num_at ?m ?d k = 0 \<and> (\<exists>j. unat w = 2 ^ j)"
    proof
      assume "num_at ?m ?d k = 0 \<and> (\<exists>j. unat w = 2 ^ j)"
      then obtain j where "bn_abs S a = 2 ^ (64 * k + j)" using abs by (auto simp: power_add)
      then show "\<exists>j. bn_abs S a = 2 ^ j" ..
    next
      assume "\<exists>j. bn_abs S a = 2 ^ j"
      then obtain j where j: "bn_abs S a = 2 ^ j" ..
      have "2 ^ (64 * k) * 1 \<le> 2 ^ (64 * k) * unat w" using w by (intro mult_le_mono2) (simp add: Suc_le_eq unat_gt_0)
      then have "2 ^ (64 * k) \<le> (2 :: nat) ^ j" using abs j by linarith
      then have "64 * k \<le> j" by simp
      then obtain i where i: "j = 64 * k + i" using le_Suc_ex by blast
      have low: "num_at ?m ?d k < 2 ^ (64 * k)" by (rule num_at_bound)
      have e: "num_at ?m ?d k + 2 ^ (64 * k) * unat w = 2 ^ (64 * k) * 2 ^ i" using abs j i by (simp add: power_add)
      then have "(num_at ?m ?d k + 2 ^ (64 * k) * unat w) mod 2 ^ (64 * k) = 0" by simp
      then have "num_at ?m ?d k = 0" using low by simp
      then show "num_at ?m ?d k = 0 \<and> (\<exists>j. unat w = 2 ^ j)" using e by auto
    qed
    moreover have "bn_val S a = 2 ^ j \<longleftrightarrow> bn_abs S a = 2 ^ j" for j using False by (simp add: bn_val_def flip: of_nat_power) 
    ultimately show ?thesis using False k pow
      by (simp add: BN_is_pow2_def Let_def n_def [symmetric] all_zero_words w_def)
  qed
qed

text \<open>A number has one representation of minimal width without negative zero.\<close>

lemma minimal_bounds:
  assumes "minimal S a" "bn_width (st_bn S a) = Suc k"
  shows "2 ^ (64 * k) \<le> bn_abs S a"
proof -
  have "limb S a k \<noteq> 0" using assms by (simp add: minimal_def)
  then have "1 * 2 ^ (64 * k) \<le> unat (limb S a k) * 2 ^ (64 * k)" by (intro mult_le_mono1) (simp add: Suc_le_eq unat_gt_0)
  then show ?thesis unfolding bn_abs_def assms(2) num_at_snoc limb_def by linarith
qed

lemma minimal_shorter:
  assumes "minimal S a" "bn_width (st_bn S' b) < bn_width (st_bn S a)"
  shows "bn_abs S' b < bn_abs S a"
proof -
  obtain k where k: "bn_width (st_bn S a) = Suc k" using assms(2) by (cases "bn_width (st_bn S a)") auto
  have "(2 :: nat) ^ (64 * bn_width (st_bn S' b)) \<le> 2 ^ (64 * k)" using assms(2) k by (intro power_increasing) simp_all
  then show ?thesis using minimal_bounds [OF assms(1) k] abs_bound [of S' b] by linarith
qed

lemma minimal_unique:
  assumes "minimal S a" "minimal S' b" "bn_val S a = bn_val S' b"
  shows "bn_neg (st_bn S a) = bn_neg (st_bn S' b)" "bn_width (st_bn S a) = bn_width (st_bn S' b)"
    "\<forall>k < bn_width (st_bn S a). limb S a k = limb S' b k"
proof -
  have abs: "bn_abs S a = bn_abs S' b" using arg_cong [OF assms(3), of abs] by (simp flip: abs_bn_val)
  show w: "bn_width (st_bn S a) = bn_width (st_bn S' b)"
    using minimal_shorter [OF assms(1), of S' b] minimal_shorter [OF assms(2), of S a] abs by linarith
  show "\<forall>k < bn_width (st_bn S a). limb S a k = limb S' b k"
    using abs w num_at_inject [of "st_words S" _ "bn_width (st_bn S a)" "st_words S'"] by (simp add: bn_abs_def limb_def)
  show "bn_neg (st_bn S a) = bn_neg (st_bn S' b)"
    using assms abs minimal_zero [OF assms(1)] minimal_zero [OF assms(2)] by (auto simp: bn_val_def minimal_def split: if_splits)
qed

end
