(* ===== verification/Bn_Machine.thy ===== *)
theory Bn_Machine
  imports Bn_Compare
begin

text \<open>
  Programs over big numbers. A function that computes with the library is a sequence of calls on numbers of its own, each
  checked for failure. The interface \<open>number_machine\<close> states what such a call promises; from it follows that a whole program
  computes with integers. The interpretation proves the promise for the functions of the code.
\<close>

section \<open>The interface\<close>

primrec run_program :: "('i \<Rightarrow> 's \<Rightarrow> (bool \<times> 's) option) \<Rightarrow> 'i list \<Rightarrow> 's \<Rightarrow> (bool \<times> 's) option" where
  "run_program exec [] s = Some (True, s)"
| "run_program exec (i # is) s =
     (case exec i s of
        None \<Rightarrow> None
      | Some (ok, s) \<Rightarrow> if \<not> ok then Some (False, s) else run_program exec is s)"

locale number_machine =
  fixes exec :: "'i \<Rightarrow> 's \<Rightarrow> (bool \<times> 's) option" and val :: "'s \<Rightarrow> nat \<Rightarrow> int" and inv :: "'s \<Rightarrow> bool" and regs :: "nat set"
    and wf :: "'i \<Rightarrow> bool" and dest :: "'i \<Rightarrow> nat" and result :: "'i \<Rightarrow> (nat \<Rightarrow> int) \<Rightarrow> int"
  assumes step: "inv s \<Longrightarrow> wf i \<Longrightarrow> \<exists>ok s'. exec i s = Some (ok, s') \<and> inv s' \<and> (\<forall>x \<in> regs. x \<noteq> dest i \<longrightarrow> val s' x = val s x) \<and>
      (ok \<longrightarrow> val s' (dest i) = result i (val s))"
    and operands: "wf i \<Longrightarrow> \<forall>x \<in> regs. f x = g x \<Longrightarrow> result i f = result i g"
begin

lemma program:
  assumes "inv s" "list_all wf is" "\<forall>x \<in> regs. f x = val s x"
  shows "\<exists>ok s'. run_program exec is s = Some (ok, s') \<and> inv s' \<and>
    (ok \<longrightarrow> (\<forall>x \<in> regs. val s' x = fold (\<lambda>i f. f(dest i := result i f)) is f x))"
  using assms
proof (induction "is" arbitrary: s f)
  case (Cons i "is")
  then obtain ok s1 where 1: "exec i s = Some (ok, s1)" "inv s1" "\<forall>x \<in> regs. x \<noteq> dest i \<longrightarrow> val s1 x = val s x"
    "ok \<longrightarrow> val s1 (dest i) = result i (val s)"
    using step [of s i] by auto
  show ?case
  proof (cases ok)
    case True
    have "result i (val s) = result i f" using Cons.prems operands [of i f "val s"] by simp
    then have "\<forall>x \<in> regs. (f(dest i := result i f)) x = val s1 x" using 1(3,4) True Cons.prems(3) by auto
    then show ?thesis using Cons.IH [OF 1(2), of "f(dest i := result i f)"] Cons.prems(2) 1(1) True by simp
  qed (use 1 in auto)
qed auto

end

section \<open>The calls of the code\<close>

datatype bn_call =
    Add nat nat nat
  | Sub nat nat nat
  | Mul nat nat nat
  | Sqr nat nat
  | Copy nat nat
  | Set_word nat u64
  | Add_word nat u64
  | Sub_word nat u64
  | Mul_word nat u64

fun bn_exec :: "allocator \<Rightarrow> bn_call \<Rightarrow> BN_CTX \<times> bn_store \<Rightarrow> (bool \<times> BN_CTX \<times> bn_store) option" where
  "bn_exec A (Add r a b) (ctx, S) = (let (ok, S) = BN_add A r a b S in Some (ok, ctx, S))"
| "bn_exec A (Sub r a b) (ctx, S) = (let (ok, S) = BN_sub A r a b S in Some (ok, ctx, S))"
| "bn_exec A (Mul r a b) (ctx, S) = BN_mul A r a b ctx S"
| "bn_exec A (Sqr r a) (ctx, S) = BN_sqr A r a ctx S"
| "bn_exec A (Copy r a) (ctx, S) = (let (ok, S) = BN_copy A r a S in Some (ok, ctx, S))"
| "bn_exec A (Set_word r w) (ctx, S) = (let (ok, S) = BN_set_word A r w S in Some (ok, ctx, S))"
| "bn_exec A (Add_word r w) (ctx, S) = map_option (\<lambda>(ok, S). (ok, ctx, S)) (BN_add_word A r w S)"
| "bn_exec A (Sub_word r w) (ctx, S) = map_option (\<lambda>(ok, S). (ok, ctx, S)) (BN_sub_word A r w S)"
| "bn_exec A (Mul_word r w) (ctx, S) = (let (ok, S) = BN_mul_word A r w S in Some (ok, ctx, S))"

fun call_dest :: "bn_call \<Rightarrow> nat" where
  "call_dest (Add r a b) = r"
| "call_dest (Sub r a b) = r"
| "call_dest (Mul r a b) = r"
| "call_dest (Sqr r a) = r"
| "call_dest (Copy r a) = r"
| "call_dest (Set_word r w) = r"
| "call_dest (Add_word r w) = r"
| "call_dest (Sub_word r w) = r"
| "call_dest (Mul_word r w) = r"

fun call_result :: "bn_call \<Rightarrow> (nat \<Rightarrow> int) \<Rightarrow> int" where
  "call_result (Add r a b) f = f a + f b"
| "call_result (Sub r a b) f = f a - f b"
| "call_result (Mul r a b) f = f a * f b"
| "call_result (Sqr r a) f = f a * f a"
| "call_result (Copy r a) f = f a"
| "call_result (Set_word r w) f = uint w"
| "call_result (Add_word r w) f = f r + uint w"
| "call_result (Sub_word r w) f = f r - uint w"
| "call_result (Mul_word r w) f = f r * uint w"

fun call_regs :: "bn_call \<Rightarrow> nat set" where
  "call_regs (Add r a b) = {r, a, b}"
| "call_regs (Sub r a b) = {r, a, b}"
| "call_regs (Mul r a b) = {r, a, b}"
| "call_regs (Sqr r a) = {r, a}"
| "call_regs (Copy r a) = {r, a}"
| "call_regs (Set_word r w) = {r}"
| "call_regs (Add_word r w) = {r}"
| "call_regs (Sub_word r w) = {r}"
| "call_regs (Mul_word r w) = {r}"

lemma changes_step:
  assumes "changes (live L ctx) r S S'" "ctx_ok L ctx S"
  shows "ctx_ok L ctx S'" "\<forall>x \<in> L. x \<noteq> r \<longrightarrow> bn_val S' x = bn_val S x"
  using ctx_ok_changes [OF assms(2,1)] changes_others [OF assms(1)] assms(2) by (auto simp: ctx_ok_def live_def)

lemma alters_step:
  assumes "alters (live L ctx) {r} S S'" "ctx_ok L ctx S"
  shows "ctx_ok L ctx S'" "\<forall>x \<in> L. x \<noteq> r \<longrightarrow> bn_val S' x = bn_val S x"
  using ctx_ok_alters [OF assms(2,1)] alters_val(3) [OF assms(1)] assms(2) by (auto simp: ctx_ok_def live_def)

lemma call_step:
  assumes "call_done L {r} ctx S ctx' S'" "ctx_ok L ctx S"
  shows "ctx_ok L ctx' S'" "\<forall>x \<in> L. x \<noteq> r \<longrightarrow> bn_val S' x = bn_val S x"
proof -
  show "ctx_ok L ctx' S'" using assms(1) by (simp add: call_done_def)
  have "kept (L - {r}) S S'" using assms(1) by (auto simp: call_done_def mine_def intro: kept_mono)
  then show "\<forall>x \<in> L. x \<noteq> r \<longrightarrow> bn_val S' x = bn_val S x"
    using kept_val [of "L - {r}" S S' "live L ctx"] assms(2) by (auto simp: ctx_ok_def live_def)
qed

lemma exec_step:
  assumes "ctx_ok L ctx S" "call_regs i \<subseteq> L"
  shows "\<exists>ok ctx' S'. bn_exec A i (ctx, S) = Some (ok, ctx', S') \<and> ctx_ok L ctx' S' \<and>
    (\<forall>x \<in> L. x \<noteq> call_dest i \<longrightarrow> bn_val S' x = bn_val S x) \<and> (ok \<longrightarrow> bn_val S' (call_dest i) = call_result i (bn_val S))"
proof -
  let ?K = "live L ctx"
  have K: "store_ok ?K S" and sub: "x \<in> L \<Longrightarrow> x \<in> ?K" "x \<in> L \<Longrightarrow> x \<in> mine L ctx" for x
    using assms(1) by (auto simp: ctx_ok_def live_def mine_def)
  show ?thesis
  proof (cases i)
    case (Add r a b)
    obtain ok S' where e: "BN_add A r a b S = (ok, S')" by fastforce
    note v = BN_add [OF e K]
    then show ?thesis using Add e assms sub changes_step [OF _ assms(1), of r S'] by simp
  next
    case (Sub r a b)
    obtain ok S' where e: "BN_sub A r a b S = (ok, S')" by fastforce
    note v = BN_sub [OF e K]
    then show ?thesis using Sub e assms sub changes_step [OF _ assms(1), of r S'] by simp
  next
    case (Mul r a b)
    have "r \<in> mine L ctx" "a \<in> mine L ctx" "b \<in> mine L ctx" using Mul assms(2) sub by auto
    from BN_mul [OF assms(1) this, of A] show ?thesis using call_step [OF _ assms(1), of r] Mul by fastforce
  next
    case (Sqr r a)
    have "r \<in> mine L ctx" "a \<in> mine L ctx" using Sqr assms(2) sub by auto
    from BN_sqr [OF assms(1) this, of A] show ?thesis using call_step [OF _ assms(1), of r] Sqr by fastforce
  next
    case (Copy r a)
    obtain ok S' where e: "BN_copy A r a S = (ok, S')" by fastforce
    note v = alters_copy [OF e K]
    then show ?thesis using Copy e assms sub alters_step [OF _ assms(1), of r S'] by (simp add: bn_val_def)
  next
    case (Set_word r w)
    obtain ok S' where e: "BN_set_word A r w S = (ok, S')" by fastforce
    note v = BN_set_word [OF e K]
    then show ?thesis using Set_word e assms sub changes_step [OF _ assms(1), of r S'] by simp
  next
    case (Add_word r w)
    have "r \<in> ?K" using Add_word assms(2) sub by auto
    from BN_add_word [OF K this, of A w] show ?thesis using Add_word changes_step [OF _ assms(1), of r] by fastforce
  next
    case (Sub_word r w)
    have "r \<in> ?K" using Sub_word assms(2) sub by auto
    from BN_sub_word [OF K this, of A w] show ?thesis using Sub_word changes_step [OF _ assms(1), of r] by fastforce
  next
    case (Mul_word r w)
    obtain ok S' where e: "BN_mul_word A r w S = (ok, S')" by fastforce
    note v = BN_mul_word [OF e K]
    then show ?thesis using Mul_word e assms sub alters_step [OF _ assms(1), of r S'] by simp
  qed
qed

interpretation bn: number_machine "bn_exec A" "\<lambda>s. bn_val (snd s)" "\<lambda>s. ctx_ok L (fst s) (snd s)" L
    "\<lambda>i. call_regs i \<subseteq> L" call_dest call_result for A L
proof
  show "\<exists>ok s'. bn_exec A i s = Some (ok, s') \<and> ctx_ok L (fst s') (snd s') \<and>
      (\<forall>x \<in> L. x \<noteq> call_dest i \<longrightarrow> bn_val (snd s') x = bn_val (snd s) x) \<and> (ok \<longrightarrow> bn_val (snd s') (call_dest i) = call_result i (bn_val (snd s)))"
    if "ctx_ok L (fst s) (snd s)" "call_regs i \<subseteq> L" for s i
    using exec_step [OF that, of A] by (cases s) fastforce
  show "call_result i f = call_result i g" if "call_regs i \<subseteq> L" "\<forall>x \<in> L. f x = g x" for i f g
    using that by (cases i) auto
qed

end
