(* ===== verification/Bn_Props.thy ===== *)
theory Bn_Props
  imports Bn_Machine
begin

unbundle bit_operations_syntax

text \<open>
  The properties of the big numbers, with witnesses.
\<close>

section \<open>Programs\<close>

text \<open>C13: programs over big numbers compute with integers. A sequence of the nine calls of \<open>Bn_Machine\<close> (\<open>BN_add\<close>, \<open>BN_sub\<close>,
  \<open>BN_mul\<close>, \<open>BN_sqr\<close>, \<open>BN_copy\<close>, \<open>BN_set_word\<close>, \<open>BN_add_word\<close>, \<open>BN_sub_word\<close>, \<open>BN_mul_word\<close>) on numbers of the caller, in any
  order and with any overlap of results and operands, fails no modelled assertion and always returns; whether it succeeds or
  stops at a failed allocation, the numbers stay well formed and apart, and when it succeeds every number holds the integer
  that the same program computes on a register file of integers.\<close>

theorem bn_program_computes:
  assumes "ctx_ok L ctx S" "list_all (\<lambda>i. call_regs i \<subseteq> L) program"
  shows "\<exists>ok ctx' S'. run_program (bn_exec A) program (ctx, S) = Some (ok, ctx', S') \<and> ctx_ok L ctx' S' \<and>
    (ok \<longrightarrow> (\<forall>x \<in> L. bn_val S' x = fold (\<lambda>i f. f(call_dest i := call_result i f)) program (bn_val S) x))"
  using bn.program [of L "(ctx, S)" program "bn_val S" A] assms by simp

definition demo_store :: bn_store where
  "demo_store = \<lparr>st_words = (\<lambda>a. if a = 10 then 5 else if a = 20 then 7 else 0),
     st_bn = (\<lambda>i. if i = 2 then \<lparr>bn_d = 10, bn_width = 1, bn_dmax = 1, bn_neg = False, bn_flags = 0\<rparr>
                  else if i = 3 then \<lparr>bn_d = 20, bn_width = 1, bn_dmax = 1, bn_neg = True, bn_flags = 0\<rparr>
                  else \<lparr>bn_d = 30, bn_width = 0, bn_dmax = 5, bn_neg = False, bn_flags = 0\<rparr>),
     st_brk = 100, st_bn_brk = 10\<rparr>"

definition demo_bn_ctx :: BN_CTX where
  "demo_bn_ctx = \<lparr>cx_bignums = None, cx_stack = BN_STACK_init, cx_used = 0, cx_error = False, cx_defer_error = False\<rparr>"

definition generous :: allocator where
  "generous = \<lparr>malloc_ok = (\<lambda>_. True), fresh = (\<lambda>_. 165)\<rparr>"

lemma demo_bn_facts:
  "store_ok {2, 3, 4} demo_store" "ctx_ok {2, 3, 4} demo_bn_ctx demo_store" "bn_val demo_store 2 = 5" "bn_val demo_store 3 = - 7"
  "bn_abs demo_store 2 = 5" "bn_abs demo_store 3 = 7" "signed_ok demo_store 2" "signed_ok demo_store 3"
  "growable generous demo_store 4 100" "roomy generous demo_bn_ctx demo_store 4 100" "bn_width (st_bn demo_store 2) = 1"
  "bn_width (st_bn demo_store 3) = 1" "BN_CTX_new generous = Some demo_bn_ctx"
proof -
  show s: "store_ok {2, 3, 4} demo_store"
    by (simp add: store_ok_def bn_ok_def apart_def demo_store_def BN_MAX_WORDS_def INT_MAX_def)
  show "ctx_ok {2, 3, 4} demo_bn_ctx demo_store"
    using s by (simp add: ctx_ok_def live_def pool_def demo_bn_ctx_def stack_ok_def BN_STACK_init_def) (simp add: demo_store_def)
  show a: "bn_abs demo_store 2 = 5" "bn_abs demo_store 3 = 7" by (simp_all add: bn_abs_def demo_store_def num_simps)
  show "bn_val demo_store 2 = 5" "bn_val demo_store 3 = - 7" using a by (simp_all add: bn_val_def) (simp_all add: demo_store_def)
  show "signed_ok demo_store 2" "signed_ok demo_store 3" using a by (simp_all add: signed_ok_def)
  show g: "growable generous demo_store 4 100" by (simp add: growable_def generous_def demo_store_def BN_MAX_WORDS_def INT_MAX_def)
  then show "roomy generous demo_bn_ctx demo_store 4 100"
    by (simp add: roomy_def ample_def generous_def demo_bn_ctx_def pool_def BN_STACK_init_def INT_MAX_def)
  show "bn_width (st_bn demo_store 2) = 1" "bn_width (st_bn demo_store 3) = 1" by (simp_all add: demo_store_def)
  show "BN_CTX_new generous = Some demo_bn_ctx"
    by (simp add: BN_CTX_new_def OPENSSL_malloc_def generous_def sizeof_BN_CTX_def size_add_def OPENSSL_MALLOC_PREFIX_def size_mod_def demo_bn_ctx_def)
qed

theorem bn_program_computes_witness:
  "\<exists>ok ctx' S'. run_program (bn_exec generous) [Mul 4 2 3, Sub 4 4 2, Sqr 4 4, Add_word 4 1] (demo_bn_ctx, demo_store) = Some (ok, ctx', S') \<and>
     (ok \<longrightarrow> bn_val S' 4 = 1601 \<and> bn_val S' 3 = - 7)"
  using bn_program_computes [OF demo_bn_facts(2), of "[Mul 4 2 3, Sub 4 4 2, Sqr 4 4, Add_word 4 1]" generous] demo_bn_facts(3,4)
  by auto

section \<open>Sums and products\<close>

text \<open>C15: \<open>BN_add\<close> and \<open>BN_sub\<close> set the result to the sum and the difference of the integers, with the minimal number of words,
  also when the result is one of the operands or all three are the same; they change no other number, and they fail only when
  the result cannot grow.\<close>

theorem add_sub_exact:
  assumes "store_ok L S" "{r, a, b} \<subseteq> L"
  shows "(\<exists>ok S'. BN_add A r a b S = (ok, S') \<and> changes L r S S' \<and>
      (ok \<longrightarrow> bn_val S' r = bn_val S a + bn_val S b \<and> (signed_ok S a \<and> signed_ok S b \<longrightarrow> minimal S' r)) \<and>
      (can_grow_to A S r (max (bn_width (st_bn S a)) (bn_width (st_bn S b)) + 1) \<longrightarrow> ok)) \<and>
    (\<exists>ok S'. BN_sub A r a b S = (ok, S') \<and> changes L r S S' \<and>
      (ok \<longrightarrow> bn_val S' r = bn_val S a - bn_val S b \<and> (signed_ok S a \<and> signed_ok S b \<longrightarrow> minimal S' r)) \<and>
      (can_grow_to A S r (max (bn_width (st_bn S a)) (bn_width (st_bn S b)) + 1) \<longrightarrow> ok))"
proof -
  have L: "r \<in> L" "a \<in> L" "b \<in> L" using assms(2) by simp_all
  obtain ok1 S1 ok2 S2 where e: "BN_add A r a b S = (ok1, S1)" "BN_sub A r a b S = (ok2, S2)" by fastforce
  show ?thesis using e BN_add [OF e(1) assms(1) L] BN_sub [OF e(2) assms(1) L] by auto
qed

theorem add_sub_exact_witness:
  "(\<exists>S'. BN_add generous 4 2 3 demo_store = (True, S') \<and> bn_val S' 4 = - 2) \<and>
   (\<exists>S'. BN_sub generous 4 2 3 demo_store = (True, S') \<and> bn_val S' 4 = 12)"
proof -
  have "can_grow_to generous demo_store 4 2" using growable_to [OF demo_bn_facts(9)] by (simp add: can_grow_to_def)
  then show ?thesis using add_sub_exact [OF demo_bn_facts(1), of 4 2 3 generous] demo_bn_facts(3,4,11,12) by (auto simp: numeral_2_eq_2)
qed

text \<open>C14: \<open>BN_mul\<close> sets the result to the product of the integers, through the unrolled products, Karatsuba's recursions or the
  schoolbook loops, for every overlap of result and operands. No assertion of these routines fails, it changes no other number
  of the caller nor a temporary in use, it gives back the temporaries it took, and it succeeds when memory is granted and
  the sizes are within the limit.\<close>

theorem mul_exact:
  assumes "ctx_ok L ctx S" "{r, a, b} \<subseteq> mine L ctx"
  shows "\<exists>ok ctx' S'. BN_mul A r a b ctx S = Some (ok, ctx', S') \<and> ctx_ok L ctx' S' \<and> kept (mine L ctx - {r}) S S' \<and>
    (ok \<longrightarrow> bn_val S' r = bn_val S a * bn_val S b \<and> minimal S' r) \<and>
    (cx_error ctx' \<or> cx_used ctx' = cx_used ctx \<and> frames ctx' = frames ctx) \<and>
    (roomy A ctx S r (4 * (bn_width (st_bn S a) + bn_width (st_bn S b) + 1)) \<longrightarrow> ok \<and> \<not> cx_error ctx')"
proof -
  have "r \<in> mine L ctx" "a \<in> mine L ctx" "b \<in> mine L ctx" using assms(2) by simp_all
  from BN_mul [OF assms(1) this, of A] show ?thesis unfolding call_done_def by blast
qed

theorem mul_exact_witness:
  "\<exists>ctx' S'. BN_mul generous 4 2 3 demo_bn_ctx demo_store = Some (True, ctx', S') \<and> bn_val S' 4 = - 35"
proof -
  have "{4, 2, 3} \<subseteq> mine {2, 3, 4} demo_bn_ctx" by (simp add: mine_def)
  moreover have "roomy generous demo_bn_ctx demo_store 4 12" using demo_bn_facts(10) by (simp add: roomy_def growable_def)
  ultimately show ?thesis using mul_exact [OF demo_bn_facts(2), of 4 2 3 generous] demo_bn_facts(3,4,11,12) by auto
qed

text \<open>C31: \<open>BN_sqr\<close> is \<open>BN_mul\<close> of a number with itself: both return, and when both have the
  memory they need, they set the result to the same number, word for word.\<close>

theorem sqr_is_mul:
  assumes "ctx_ok L ctx S" "{r, a} \<subseteq> mine L ctx"
  shows "\<exists>ok ctx1 S1 ok' ctx2 S2. BN_sqr A r a ctx S = Some (ok, ctx1, S1) \<and> BN_mul A r a a ctx S = Some (ok', ctx2, S2) \<and>
    (ok \<and> ok' \<longrightarrow> bn_neg (st_bn S1 r) = bn_neg (st_bn S2 r) \<and> bn_width (st_bn S1 r) = bn_width (st_bn S2 r) \<and>
      (\<forall>k < bn_width (st_bn S1 r). limb S1 r k = limb S2 r k))"
proof -
  have mem: "r \<in> mine L ctx" "a \<in> mine L ctx" using assms(2) by simp_all
  obtain ok ctx1 S1 where 1: "BN_sqr A r a ctx S = Some (ok, ctx1, S1)" "ok \<longrightarrow> bn_val S1 r = bn_val S a * bn_val S a \<and> minimal S1 r"
    using BN_sqr [OF assms(1) mem, of A] by blast
  obtain ok' ctx2 S2 where 2: "BN_mul A r a a ctx S = Some (ok', ctx2, S2)" "ok' \<longrightarrow> bn_val S2 r = bn_val S a * bn_val S a \<and> minimal S2 r"
    using BN_mul [OF assms(1) mem mem(2), of A] by blast
  show ?thesis using 1 2 minimal_unique [of S1 r S2 r] by auto
qed

theorem sqr_is_mul_witness:
  "\<exists>ok ctx1 S1 ok' ctx2 S2. BN_sqr generous 4 3 demo_bn_ctx demo_store = Some (ok, ctx1, S1) \<and>
     BN_mul generous 4 3 3 demo_bn_ctx demo_store = Some (ok', ctx2, S2) \<and> (ok \<and> ok' \<longrightarrow> bn_width (st_bn S1 4) = bn_width (st_bn S2 4))"
proof -
  have "{4, 3} \<subseteq> mine {2, 3, 4} demo_bn_ctx" by (simp add: mine_def)
  then show ?thesis using sqr_is_mul [OF demo_bn_facts(2), of 4 3 generous] by blast
qed

section \<open>Karatsuba\<close>

lemma same_words: "num_at m p n = num_at m' q k \<Longrightarrow> k \<le> n \<Longrightarrow> (\<forall>i < k. m (p + i) = m' (q + i)) \<and> (\<forall>i. k \<le> i \<and> i < n \<longrightarrow> m (p + i) = 0)"
proof -
  assume e: "num_at m p n = num_at m' q k" and k: "k \<le> n"
  have "num_at m p k = num_at m' q k" using num_at_shorten [of m p n k] e k num_at_bound by metis
  moreover from this have "num_at m (p + k) (n - k) = 0" using num_at_append [of m p k "n - k"] e k by simp
  then have "\<forall>i < n - k. m (p + k + i) = 0" by (simp add: num_at_zero_iff)
  then have "m (p + i) = 0" if "k \<le> i" "i < n" for i using that by (metis add.assoc diff_less_mono le_add_diff_inverse)
  ultimately show ?thesis by (simp add: num_at_inject)
qed

text \<open>C16: Karatsuba's recursions are the schoolbook product. On arrays that do not overlap, \<open>bn_mul_recursive\<close> and
  \<open>bn_mul_part_recursive\<close> return, no assertion fails on the way, the words of the result are those of \<open>bn_mul_normal\<close> and the
  words above are zero.\<close>

theorem karatsuba_is_schoolbook:
  assumes "n = 2 ^ k" "8 \<le> n" "sep r (4 * n) a (2 * n)" "sep r (4 * n) b (2 * n)" "sep r (4 * n) t (8 * n)"
    "sep t (8 * n) a (2 * n)" "sep t (8 * n) b (2 * n)"
  shows "(\<forall>la lb. la \<le> n \<and> lb \<le> n \<and> n \<le> la + 8 \<and> n \<le> lb + 8 \<longrightarrow>
      (\<exists>m'. bn_mul_recursive m r a b n (int la - int n) (int lb - int n) t = Some m' \<and>
        (\<forall>i < la + lb. m' (r + i) = bn_mul_normal m r a la b lb (r + i)) \<and> (\<forall>i. la + lb \<le> i \<and> i < 2 * n \<longrightarrow> m' (r + i) = 0))) \<and>
    (\<forall>la lb. la < n \<and> lb < n \<and> la \<le> lb + 1 \<and> lb \<le> la + 1 \<longrightarrow>
      (\<exists>m'. bn_mul_part_recursive m r a b n (int la) (int lb) t = Some m' \<and>
        (\<forall>i < 2 * n + la + lb. m' (r + i) = bn_mul_normal m r a (n + la) b (n + lb) (r + i)) \<and>
        (\<forall>i. 2 * n + la + lb \<le> i \<and> i < 4 * n \<longrightarrow> m' (r + i) = 0)))"
proof (intro conjI allI impI)
  fix la lb
  assume l: "la \<le> n \<and> lb \<le> n \<and> n \<le> la + 8 \<and> n \<le> lb + 8"
  have lens: "nat (int n + (int la - int n)) = la" "nat (int n + (int lb - int n)) = lb" using l by auto
  have "multiplies (\<lambda>m r a b. bn_mul_recursive m r a b n (int la - int n) (int lb - int n) t) (2 * n) la lb t (4 * n)"
    using bn_mul_recursive_multiplies [OF assms(1), of "int la - int n" "int lb - int n" t] l unfolding lens by auto
  note mult = this
  have sp: "sep r (2 * n) a la" "sep r (2 * n) b lb" "sep r (2 * n) t (4 * n)" "sep t (4 * n) a la" "sep t (4 * n) b lb"
    using l by (auto intro: sep_part [OF assms(3)] sep_part [OF assms(4)] sep_part [OF assms(5)] sep_part [OF assms(6)] sep_part [OF assms(7)])
  obtain m' where m': "bn_mul_recursive m r a b n (int la - int n) (int lb - int n) t = Some m'"
    "num_at m' r (2 * n) = num_at m a la * num_at m b lb" by (rule multipliesD [OF mult sp]) (rule that)
  have "sep r (la + lb) a la" "sep r (la + lb) b lb" using assms(3,4) l by (auto simp: sep_def)
  then show "\<exists>m'. bn_mul_recursive m r a b n (int la - int n) (int lb - int n) t = Some m' \<and>
      (\<forall>i < la + lb. m' (r + i) = bn_mul_normal m r a la b lb (r + i)) \<and> (\<forall>i. la + lb \<le> i \<and> i < 2 * n \<longrightarrow> m' (r + i) = 0)"
    using m' bn_mul_normal(1) [of r la lb a b m] same_words [of m' r "2 * n" "bn_mul_normal m r a la b lb" r "la + lb"] l by auto
next
  fix la lb
  assume l: "la < n \<and> lb < n \<and> la \<le> lb + 1 \<and> lb \<le> la + 1"
  have "multiplies (\<lambda>m r a b. bn_mul_part_recursive m r a b n (int la) (int lb) t) (4 * n) (n + la) (n + lb) t (8 * n)"
    using bn_mul_part_recursive_multiplies [of k "int la" "int lb" t] assms(2) l unfolding assms(1) [symmetric] by auto
  note mult = this
  have sp: "sep r (4 * n) a (n + la)" "sep r (4 * n) b (n + lb)" "sep t (8 * n) a (n + la)" "sep t (8 * n) b (n + lb)"
    using l by (auto intro: sep_part [OF assms(3)] sep_part [OF assms(4)] sep_part [OF assms(6)] sep_part [OF assms(7)])
  obtain m' where m': "bn_mul_part_recursive m r a b n (int la) (int lb) t = Some m'"
    "num_at m' r (4 * n) = num_at m a (n + la) * num_at m b (n + lb)" by (rule multipliesD [OF mult sp(1,2) assms(5) sp(3,4)]) (rule that)
  have len: "n + la + (n + lb) = 2 * n + la + lb" by simp
  have "sep r (n + la + (n + lb)) a (n + la)" "sep r (n + la + (n + lb)) b (n + lb)" using assms(3,4) l by (auto simp: sep_def)
  from m' bn_mul_normal(1) [OF this, of m, unfolded len] same_words [of m' r "4 * n" "bn_mul_normal m r a (n + la) b (n + lb)" r "2 * n + la + lb"] l
  show "\<exists>m'. bn_mul_part_recursive m r a b n (int la) (int lb) t = Some m' \<and>
      (\<forall>i < 2 * n + la + lb. m' (r + i) = bn_mul_normal m r a (n + la) b (n + lb) (r + i)) \<and>
      (\<forall>i. 2 * n + la + lb \<le> i \<and> i < 4 * n \<longrightarrow> m' (r + i) = 0)" by auto
qed

theorem karatsuba_is_schoolbook_witness:
  "\<exists>m'. bn_mul_part_recursive (\<lambda>a. word_of_nat (a * a)) 0 200 300 16 8 7 400 = Some m' \<and>
     m' 3 = bn_mul_normal (\<lambda>a. word_of_nat (a * a)) 0 200 24 300 23 3 \<and> m' 50 = 0"
proof -
  have "sep 0 (4 * 16) 200 (2 * 16)" "sep 0 (4 * 16) 300 (2 * 16)" "sep 0 (4 * 16) 400 (8 * 16)" "sep 400 (8 * 16) 200 (2 * 16)"
    "sep 400 (8 * 16) 300 (2 * 16)" "(16 :: nat) = 2 ^ 4" "8 \<le> (16 :: nat)" by (simp_all add: sep_def)
  note k = karatsuba_is_schoolbook [OF this(6,7,1-5), of "\<lambda>a. word_of_nat (a * a)", THEN conjunct2, rule_format, of 8 7]
  from k obtain m' where "bn_mul_part_recursive (\<lambda>a. word_of_nat (a * a)) 0 200 300 16 8 7 400 = Some m'"
    "\<forall>i < 47. m' i = bn_mul_normal (\<lambda>a. word_of_nat (a * a)) 0 200 24 300 23 i" "\<forall>i. 47 \<le> i \<and> i < 64 \<longrightarrow> m' i = 0" by auto
  then show ?thesis by (intro exI [of _ m']) simp
qed

section \<open>Words, order and size\<close>

text \<open>C32: \<open>BN_add_word\<close> and \<open>BN_sub_word\<close>, which call each other on negative numbers and scan words without a bound, return on
  every number and every word, and add and subtract the word.\<close>

theorem word_sums_return:
  assumes "store_ok L S" "a \<in> L"
  shows "(\<exists>ok S'. BN_add_word A a w S = Some (ok, S') \<and> changes L a S S' \<and> (ok \<longrightarrow> bn_val S' a = bn_val S a + uint w) \<and>
      (can_grow_to A S a (bn_width (st_bn S a) + 1) \<longrightarrow> ok)) \<and>
    (\<exists>ok S'. BN_sub_word A a w S = Some (ok, S') \<and> changes L a S S' \<and> (ok \<longrightarrow> bn_val S' a = bn_val S a - uint w) \<and>
      (can_grow_to A S a (bn_width (st_bn S a) + 1) \<longrightarrow> ok))"
  using BN_add_word [OF assms, of A w] BN_sub_word [OF assms, of A w] by auto

theorem word_sums_return_witness:
  "(\<exists>S'. BN_add_word generous 3 9 demo_store = Some (True, S') \<and> bn_val S' 3 = 2) \<and>
   (\<exists>S'. BN_sub_word generous 3 9 demo_store = Some (True, S') \<and> bn_val S' 3 = - 16)"
proof -
  have "growable generous demo_store 3 2" by (simp add: growable_def generous_def demo_store_def BN_MAX_WORDS_def INT_MAX_def)
  then have "can_grow_to generous demo_store 3 2" by (rule growable_to)
  then have "can_grow_to generous demo_store 3 (bn_width (st_bn demo_store 3) + 1)" unfolding demo_bn_facts(12) by (simp only: one_add_one)
  then show ?thesis using word_sums_return [OF demo_bn_facts(1), of 3 generous 9] demo_bn_facts(4) by auto
qed

text \<open>C33: the comparisons decide the order of the integers. \<open>BN_cmp\<close> compares signed values, \<open>BN_ucmp\<close> absolute values,
  \<open>BN_equal_consttime\<close> tests equality, whatever leading zero words the numbers have.\<close>

theorem comparisons_decide:
  assumes "signed_ok S a" "signed_ok S b"
  shows "BN_cmp S (Some a) (Some b) = (if bn_val S a < bn_val S b then - 1 else if bn_val S a = bn_val S b then 0 else 1) \<and>
    BN_ucmp S a b = (if \<bar>bn_val S a\<bar> < \<bar>bn_val S b\<bar> then - 1 else if \<bar>bn_val S a\<bar> = \<bar>bn_val S b\<bar> then 0 else 1) \<and>
    (BN_equal_consttime S a b \<longleftrightarrow> bn_val S a = bn_val S b) \<and> (BN_is_word S a w \<longleftrightarrow> bn_val S a = uint w) \<and>
    (BN_is_odd S a \<longleftrightarrow> odd (bn_val S a)) \<and> (BN_is_pow2 S a \<longleftrightarrow> (\<exists>k. bn_val S a = 2 ^ k))"
proof -
  have "BN_equal_consttime S a b \<longleftrightarrow> bn_val S a = bn_val S b"
    using assms by (auto simp: BN_equal_consttime bn_val_def signed_ok_def)
  moreover have "BN_ucmp S a b = (if \<bar>bn_val S a\<bar> < \<bar>bn_val S b\<bar> then - 1 else if \<bar>bn_val S a\<bar> = \<bar>bn_val S b\<bar> then 0 else 1)"
    by (simp add: BN_ucmp flip: abs_bn_val)
  ultimately show ?thesis using BN_cmp [OF assms] BN_is_word BN_is_odd BN_is_pow2 by blast
qed

theorem comparisons_decide_witness:
  "BN_cmp demo_store (Some 2) (Some 3) = 1 \<and> BN_ucmp demo_store 2 3 = - 1 \<and> BN_is_odd demo_store 2 \<and> BN_is_word demo_store 2 5"
  using comparisons_decide [OF demo_bn_facts(7,8), of 5] demo_bn_facts(3,4) by simp

text \<open>\<open>BN_num_bits\<close> is the length of the absolute value in binary, and \<open>BN_num_bytes\<close> that in bytes.\<close>

theorem num_bits_bounds:
  "\<bar>bn_val S a\<bar> < 2 ^ BN_num_bits S a \<and> (bn_val S a \<noteq> 0 \<longrightarrow> 2 ^ (BN_num_bits S a - 1) \<le> \<bar>bn_val S a\<bar>) \<and>
   (bn_val S a = 0 \<longrightarrow> BN_num_bits S a = 0) \<and> \<bar>bn_val S a\<bar> < 256 ^ BN_num_bytes S a"
proof -
  have b: "bn_abs S a < 2 ^ BN_num_bits S a" by (rule BN_num_bits(1))
  have z: "bn_abs S a = 0 \<Longrightarrow> BN_num_bits S a = 0"
    using minimal_width [of S a] minimal_width_zero [of S a] by (simp add: BN_num_bits_def)
  have "(2 :: nat) ^ BN_num_bits S a \<le> 2 ^ (8 * BN_num_bytes S a)" by (intro power_increasing) (simp_all add: BN_num_bytes_def)
  then have "bn_abs S a < 256 ^ BN_num_bytes S a" using b by (simp add: power_mult)
  then have "int (bn_abs S a) < 256 ^ BN_num_bytes S a" "int (bn_abs S a) < 2 ^ BN_num_bits S a"
    using b by (metis of_nat_less_iff of_nat_numeral of_nat_power)+
  moreover have "2 ^ (BN_num_bits S a - 1) \<le> int (bn_abs S a)" if "bn_abs S a \<noteq> 0"
    using BN_num_bits(2) [OF that] by (metis of_nat_le_iff of_nat_numeral of_nat_power)
  moreover have "bn_val S a = 0 \<longleftrightarrow> bn_abs S a = 0" by (simp add: bn_val_def)
  ultimately show ?thesis unfolding abs_bn_val [symmetric] by (simp add: z)
qed

theorem num_bits_bounds_witness: "7 < (2 :: int) ^ BN_num_bits demo_store 3 \<and> (2 :: int) ^ (BN_num_bits demo_store 3 - 1) \<le> 7"
  using num_bits_bounds [of demo_store 3] demo_bn_facts(4) by simp

end
