(* ===== verification/Bn_Shift.thy ===== *)
theory Bn_Shift
  imports Bn_Product
begin

unbundle bit_operations_syntax

text \<open>
  Shifts and bits of big numbers, \<open>crypto/fipsmodule/bn/shift.c\<close>. Shift counts and bit numbers that the code keeps in an \<open>int\<close>
  are integers, those in an \<open>unsigned\<close> 32-bit words.
\<close>

section \<open>Shifts to the left\<close>

text \<open>The loops of \<open>BN_lshift\<close> from the top word down, from \<open>f\<close> to \<open>t\<close>.\<close>

fun copy_down :: "words \<Rightarrow> nat \<Rightarrow> nat \<Rightarrow> nat \<Rightarrow> words" where
  "copy_down m t f 0 = m"
| "copy_down m t f (Suc i) = copy_down (m(t + i := m (f + i))) t f i"

fun lshift_loop :: "words \<Rightarrow> nat \<Rightarrow> nat \<Rightarrow> nat \<Rightarrow> nat \<Rightarrow> words" where
  "lshift_loop m t f lb 0 = m"
| "lshift_loop m t f lb (Suc i) =
     (let l = m (f + i);
          rb = 64 - lb;
          m = m(t + i + 1 := m (t + i + 1) OR drop_bit rb l);
          m = m(t + i := push_bit lb l)
      in lshift_loop m t f lb i)"

definition BN_lshift :: "allocator \<Rightarrow> nat \<Rightarrow> nat \<Rightarrow> int \<Rightarrow> bn_store \<Rightarrow> bool \<times> bn_store" where
  "BN_lshift A r a n S =
     (if n < 0 then (False, S)
      else
        (let S = set_neg r (bn_neg (st_bn S a)) S;
             nw = nat n div 64;
             (ok, S) = bn_wexpand A r (bn_width (st_bn S a) + nw + 1) S
         in if \<not> ok then (False, S)
            else
              (let lb = nat n mod 64;
                   aw = bn_width (st_bn S a); f = bn_d (st_bn S a); t = bn_d (st_bn S r);
                   m = (st_words S)(t + (aw + nw) := 0);
                   m = (if lb = 0 then copy_down m (t + nw) f aw else lshift_loop m (t + nw) f lb aw);
                   m = words_zero m t nw;
                   S = set_width r (aw + nw + 1) (S\<lparr>st_words := m\<rparr>)
               in (True, bn_set_minimal_width r S))))"

fun lshift1_loop :: "words \<Rightarrow> nat \<Rightarrow> nat \<Rightarrow> nat \<Rightarrow> u64 \<Rightarrow> words \<times> u64" where
  "lshift1_loop m rp ap 0 c = (m, c)"
| "lshift1_loop m rp ap (Suc n) c =
     (let t = m ap in lshift1_loop (m(rp := push_bit 1 t OR c)) (rp + 1) (ap + 1) n (drop_bit 63 t))"

definition BN_lshift1 :: "allocator \<Rightarrow> nat \<Rightarrow> nat \<Rightarrow> bn_store \<Rightarrow> bool \<times> bn_store" where
  "BN_lshift1 A r a S =
     (let (ok, S) =
        (if r \<noteq> a then
           (let S = set_neg r (bn_neg (st_bn S a)) S;
                (ok, S) = bn_wexpand A r (bn_width (st_bn S a) + 1) S
            in if \<not> ok then (False, S) else (True, set_width r (bn_width (st_bn S a)) S))
         else bn_wexpand A r (bn_width (st_bn S a) + 1) S)
      in if \<not> ok then (False, S)
         else
           (let aw = bn_width (st_bn S a); ap = bn_d (st_bn S a); rp = bn_d (st_bn S r);
                (m, c) = lshift1_loop (st_words S) rp ap aw 0
            in if c \<noteq> 0 then (True, set_width r (bn_width (st_bn S r) + 1) (S\<lparr>st_words := m(rp + aw := 1)\<rparr>))
               else (True, S\<lparr>st_words := m\<rparr>)))"

section \<open>Shifts to the right\<close>

fun rshift_loop :: "words \<Rightarrow> nat \<Rightarrow> nat \<Rightarrow> nat \<Rightarrow> nat \<Rightarrow> words" where
  "rshift_loop m r a bits 0 = m"
| "rshift_loop m r a bits (Suc n) =
     rshift_loop (m(r := drop_bit bits (m a) OR push_bit (64 - bits) (m (a + 1)))) (r + 1) (a + 1) bits n"

definition bn_rshift_words :: "words \<Rightarrow> nat \<Rightarrow> nat \<Rightarrow> u32 \<Rightarrow> nat \<Rightarrow> words" where
  "bn_rshift_words m r a shift num =
     (let shift_bits = unat shift mod 64; shift_words = unat shift div 64
      in if shift_words \<ge> num then words_zero m r num
         else
           (let m = (if shift_bits = 0 then words_move m r (a + shift_words) (num - shift_words)
                     else
                       (let m = rshift_loop m r (a + shift_words) shift_bits (num - 1 - shift_words)
                        in m(r + (num - 1 - shift_words) := drop_bit shift_bits (m (a + (num - 1))))))
            in words_zero m (r + (num - shift_words)) shift_words))"

definition BN_rshift :: "allocator \<Rightarrow> nat \<Rightarrow> nat \<Rightarrow> int \<Rightarrow> bn_store \<Rightarrow> bool \<times> bn_store" where
  "BN_rshift A r a n S =
     (if n < 0 then (False, S)
      else
        (let (ok, S) = bn_wexpand A r (bn_width (st_bn S a)) S
         in if \<not> ok then (False, S)
            else
              (let aw = bn_width (st_bn S a);
                   m = bn_rshift_words (st_words S) (bn_d (st_bn S r)) (bn_d (st_bn S a)) (word_of_int n) aw;
                   S = set_neg r (bn_neg (st_bn S a)) (S\<lparr>st_words := m\<rparr>);
                   S = set_width r aw S
               in (True, bn_set_minimal_width r S))))"

text \<open>The loop of \<open>bn_rshift_secret_shift\<close> over the bits of the shift count.\<close>

function (sequential) secret_shift_loop :: "words \<Rightarrow> nat \<Rightarrow> nat \<Rightarrow> nat \<Rightarrow> u32 \<Rightarrow> nat \<Rightarrow> nat \<Rightarrow> words" where
  "secret_shift_loop m tmp r width n max_bits i =
     (if max_bits div 2 ^ i \<noteq> 0 then
        (let msk = ucast (drop_bit i n AND 1);
             msk = 0 - msk;
             m = bn_rshift_words m tmp r (push_bit i 1) width;
             m = bn_select_words m r msk tmp r width
         in secret_shift_loop m tmp r width n max_bits (i + 1))
      else m)"
  by pat_completeness auto
termination
  by (relation "measure (\<lambda>(_, _, _, _, _, max_bits, i). max_bits div 2 ^ i)") (auto simp: div_mult2_eq power_Suc2 simp del: power_Suc)

declare secret_shift_loop.simps [simp del]

definition bn_rshift_secret_shift :: "allocator \<Rightarrow> nat \<Rightarrow> nat \<Rightarrow> u32 \<Rightarrow> BN_CTX \<Rightarrow> bn_store \<Rightarrow> (bool \<times> BN_CTX \<times> bn_store) option" where
  "bn_rshift_secret_shift A r a n ctx S = do {
     let ctx = BN_CTX_start A ctx;
     (tmp, ctx, S) \<leftarrow> BN_CTX_get A ctx S;
     let (ret, S) = (case tmp of
         None \<Rightarrow> (False, S)
       | Some tmp \<Rightarrow>
           (let (ok, S) = BN_copy A r a S
            in if \<not> ok then (False, S)
               else
                 (let (ok, S) = bn_wexpand A tmp (bn_width (st_bn S r)) S
                  in if \<not> ok then (False, S)
                     else
                       (let width = bn_width (st_bn S r)
                        in (True, S\<lparr>st_words := secret_shift_loop (st_words S) (bn_d (st_bn S tmp)) (bn_d (st_bn S r)) width n (64 * width) 0\<rparr>)))));
     ctx \<leftarrow> BN_CTX_end ctx;
     Some (ret, ctx, S)
   }"

definition bn_rshift1_words :: "words \<Rightarrow> nat \<Rightarrow> nat \<Rightarrow> nat \<Rightarrow> words" where
  "bn_rshift1_words m r a num =
     (if num = 0 then m
      else (let m = rshift_loop m r a 1 (num - 1) in m(r + (num - 1) := drop_bit 1 (m (a + (num - 1))))))"

definition BN_rshift1 :: "allocator \<Rightarrow> nat \<Rightarrow> nat \<Rightarrow> bn_store \<Rightarrow> bool \<times> bn_store" where
  "BN_rshift1 A r a S =
     (let (ok, S) = bn_wexpand A r (bn_width (st_bn S a)) S
      in if \<not> ok then (False, S)
         else
           (let aw = bn_width (st_bn S a);
                m = bn_rshift1_words (st_words S) (bn_d (st_bn S r)) (bn_d (st_bn S a)) aw;
                S = set_width r aw (S\<lparr>st_words := m\<rparr>);
                S = set_neg r (bn_neg (st_bn S a)) S
            in (True, bn_set_minimal_width r S)))"

section \<open>Bits\<close>

definition BN_set_bit :: "allocator \<Rightarrow> nat \<Rightarrow> int \<Rightarrow> bn_store \<Rightarrow> bool \<times> bn_store" where
  "BN_set_bit A a n S =
     (if n < 0 then (False, S)
      else
        (let i = nat n div 64; j = nat n mod 64;
             (ok, S) =
               (if bn_width (st_bn S a) \<le> i then
                  (let (ok, S) = bn_wexpand A a (i + 1) S
                   in if \<not> ok then (False, S)
                      else
                        (let w = bn_width (st_bn S a);
                             S = S\<lparr>st_words := words_zero (st_words S) (bn_d (st_bn S a) + w) (i + 1 - w)\<rparr>
                         in (True, set_width a (i + 1) S)))
                else (True, S))
         in if \<not> ok then (False, S) else (True, set_limb a i (limb S a i OR push_bit j 1) S)))"

definition BN_clear_bit :: "nat \<Rightarrow> int \<Rightarrow> bn_store \<Rightarrow> bool \<times> bn_store" where
  "BN_clear_bit a n S =
     (if n < 0 then (False, S)
      else
        (let i = nat n div 64; j = nat n mod 64
         in if bn_width (st_bn S a) \<le> i then (False, S)
            else (True, bn_set_minimal_width a (set_limb a i (limb S a i AND NOT (push_bit j 1)) S))))"

definition bn_is_bit_set_words :: "words \<Rightarrow> nat \<Rightarrow> nat \<Rightarrow> nat \<Rightarrow> bool" where
  "bn_is_bit_set_words m a num n =
     (let i = n div 64; j = n mod 64
      in if i \<ge> num then False else drop_bit j (m (a + i)) AND 1 \<noteq> 0)"

definition BN_is_bit_set :: "bn_store \<Rightarrow> nat \<Rightarrow> int \<Rightarrow> bool" where
  "BN_is_bit_set S a n =
     (if n < 0 then False else bn_is_bit_set_words (st_words S) (bn_d (st_bn S a)) (bn_width (st_bn S a)) (nat n))"

definition BN_mask_bits :: "nat \<Rightarrow> int \<Rightarrow> bn_store \<Rightarrow> bool \<times> bn_store" where
  "BN_mask_bits a n S =
     (if n < 0 then (False, S)
      else
        (let w = nat n div 64; b = nat n mod 64
         in if w \<ge> bn_width (st_bn S a) then (True, S)
            else
              (let S = (if b = 0 then set_width a w S
                        else
                          (let S = set_width a (w + 1) S
                           in set_limb a w (limb S a w AND NOT (push_bit b (- 1))) S))
               in (True, bn_set_minimal_width a S))))"

text \<open>One halving step of \<open>bn_count_low_zero_bits_word\<close>: when the low \<open>k\<close> bits are all zero, count them and look at the others.\<close>

definition low_zero_step :: "nat \<Rightarrow> u64 \<times> u32 \<Rightarrow> u64 \<times> u32" where
  "low_zero_step k = (\<lambda>(l, bits).
     let msk = constant_time_is_zero_w (push_bit (64 - k) l);
         bits = bits + ucast (word_of_nat k AND msk);
         l = constant_time_select_w msk (drop_bit k l) l
     in (l, bits))"

definition bn_count_low_zero_bits_word :: "u64 \<Rightarrow> u32" where
  "bn_count_low_zero_bits_word l =
     (let bits = 0;
          (l, bits) = low_zero_step 32 (l, bits);
          (l, bits) = low_zero_step 16 (l, bits);
          (l, bits) = low_zero_step 8 (l, bits);
          (l, bits) = low_zero_step 4 (l, bits);
          (l, bits) = low_zero_step 2 (l, bits);
          msk = constant_time_is_zero_w (push_bit 63 l)
      in bits + ucast (1 AND msk))"

fun low_zero_loop :: "words \<Rightarrow> nat \<Rightarrow> nat \<Rightarrow> nat \<Rightarrow> u64 \<Rightarrow> u32 \<Rightarrow> u32" where
  "low_zero_loop m d i 0 saw_nonzero ret = ret"
| "low_zero_loop m d i (Suc n) saw_nonzero ret =
     (let nonzero = NOT (constant_time_is_zero_w (m (d + i)));
          first_nonzero = NOT saw_nonzero AND nonzero;
          saw_nonzero = saw_nonzero OR nonzero;
          bits = bn_count_low_zero_bits_word (m (d + i));
          ret = ret OR ucast (first_nonzero AND ucast (word_of_nat (i * 64) + bits))
      in low_zero_loop m d (i + 1) n saw_nonzero ret)"

definition BN_count_low_zero_bits :: "bn_store \<Rightarrow> nat \<Rightarrow> u32" where
  "BN_count_low_zero_bits S bn = low_zero_loop (st_words S) (bn_d (st_bn S bn)) 0 (bn_width (st_bn S bn)) 0 0"

end
