(* ===== verification/Bn_Shift_Correct.thy ===== *)
theory Bn_Shift_Correct
  imports Bn_Shift Bn_Compare
begin

unbundle bit_operations_syntax

text \<open>
  The shifts of \<open>shift.c\<close> multiply and divide by powers of two, and the functions on bits change the bits of the absolute value.
\<close>

section \<open>Words\<close>

lemma bit_append:
  assumes "(a :: nat) < 2 ^ k"
  shows "bit (a + b * 2 ^ k) j \<longleftrightarrow> (if j < k then bit a j else bit b (j - k))"
proof (cases "j < k")
  case True
  then obtain i where k: "k = j + Suc i" by (auto dest: less_imp_Suc_add)
  then have "a + b * 2 ^ k = a + (2 * (b * 2 ^ i)) * 2 ^ j" by (simp add: power_add)
  also have "\<dots> div 2 ^ j = 2 * (b * 2 ^ i) + a div 2 ^ j" by (rule div_mult_self1) simp
  finally have "(a + b * 2 ^ k) div 2 ^ j = 2 * (b * 2 ^ i) + a div 2 ^ j" .
  then show ?thesis using True by (simp add: bit_iff_odd)
next
  case False
  then obtain i where j: "j = k + i" using le_Suc_ex by (metis not_less)
  have "(a + b * 2 ^ k) div 2 ^ k = b + a div 2 ^ k" by (rule div_mult_self1) simp
  then have "(a + b * 2 ^ k) div 2 ^ j = b div 2 ^ i" using assms by (simp only: j power_add div_mult2_eq div_less add_0_right)
  then show ?thesis using False by (simp add: bit_iff_odd j)
qed

lemma bit_num_at: "bit (num_at m p n) k \<longleftrightarrow> k div 64 < n \<and> bit (m (p + k div 64)) (k mod 64)"
proof (induction n)
  case (Suc n)
  show ?case
  proof (cases "k < 64 * n")
    case True
    then have "k div 64 < n" by (simp add: div_less_iff_less_mult mult.commute)
    then show ?thesis using Suc True by (simp add: num_at_snoc bit_append num_at_bound)
  next
    case False
    then have ge: "n \<le> k div 64" by (simp add: less_eq_div_iff_mult_less_eq mult.commute)
    show ?thesis
    proof (cases "k div 64 = n")
      case True
      then have "k - 64 * n = k mod 64" using minus_mult_div_eq_mod [of k 64] by (simp only:)
      then show ?thesis using False True by (simp add: num_at_snoc bit_append num_at_bound bit_unsigned_iff)
    next
      case neq: False
      then have "64 * n + 64 \<le> k" using ge by (simp add: mult.commute less_eq_div_iff_mult_less_eq [symmetric])
      then have "64 \<le> k - 64 * n" by simp
      then have "\<not> bit (m (p + n)) (k - 64 * n)" using bit_imp_le_length [of "m (p + n)"] by fastforce
      then have "\<not> bit (unat (m (p + n))) (k - 64 * n)" by (simp add: bit_unsigned_iff)
      then show ?thesis using False neq ge by (simp add: num_at_snoc bit_append num_at_bound)
    qed
  qed
qed simp

lemma unat_push_bit_u64: "unat (push_bit b (l :: u64)) = unat l * 2 ^ b mod 2 ^ 64"
proof -
  have "unat (push_bit b l) = take_bit 64 (push_bit b (unat l))" by (simp add: unsigned_push_bit_eq)
  then show ?thesis by (simp only: take_bit_eq_mod push_bit_eq_mult)
qed

lemma unat_push_drop:
  assumes "b < 64"
  shows "unat (push_bit b (l :: u64)) + 2 ^ 64 * unat (drop_bit (64 - b) l) = unat l * 2 ^ b"
proof -
  have "(2 :: nat) ^ 64 = 2 ^ (64 - b) * 2 ^ b" using assms by (simp flip: power_add)
  then have "unat l * 2 ^ b div 2 ^ 64 = unat l div 2 ^ (64 - b)" using div_mult_mult2 [of "2 ^ b" "unat l" "2 ^ (64 - b)"] by (simp only:) simp
  then have "unat (drop_bit (64 - b) l) = unat l * 2 ^ b div 2 ^ 64" by (simp add: unat_drop_bit)
  then show ?thesis using mod_mult_div_eq [of "unat l * 2 ^ b" "2 ^ 64"] by (simp only: unat_push_bit_u64)
qed

lemma unat_or_low:
  assumes "take_bit b x = 0" "unat (y :: u64) < 2 ^ b"
  shows "unat (x OR y) = unat x + unat y"
proof -
  have "x AND y = 0"
  proof (rule bit_word_eqI)
    fix i
    have "\<not> bit x i" if "i < b" using arg_cong [OF assms(1), of "\<lambda>w. bit w i"] that by (simp add: bit_take_bit_iff)
    moreover have "\<not> bit y i" if "b \<le> i"
    proof -
      have "unat y div 2 ^ i = 0" using assms(2) that by (metis div_less order_less_le_trans one_le_numeral power_increasing)
      then have "\<not> bit (unat y) i" by (simp add: bit_iff_odd)
      then show ?thesis by (simp add: bit_unsigned_iff bit_imp_possible_bit)
    qed
    ultimately show "bit (x AND y) i \<longleftrightarrow> bit (0 :: u64) i" by (cases "i < b") (auto simp: bit_and_iff)
  qed
  then have "unat x AND unat y = 0" by (metis unsigned_and_eq unsigned_0)
  then show ?thesis by (simp add: unsigned_or_eq disjunctive_add_eq_or)
qed

section \<open>The loops\<close>

text \<open>A loop that goes down may write at or above its source.\<close>

lemma copy_down:
  assumes "f \<le> t \<or> t + n \<le> f"
  shows "num_at (copy_down m t f n) t n = num_at m f n" "same_but t n m (copy_down m t f n)"
proof -
  have "(\<forall>i < n. copy_down m t f n (t + i) = m (f + i)) \<and> same_but t n m (copy_down m t f n)"
    using assms
  proof (induction n arbitrary: m)
    case (Suc n)
    define m1 where "m1 = m(t + n := m (f + n))"
    have m1: "m1 x = (if x = t + n then m (f + n) else m x)" for x by (simp add: m1_def)
    have "f \<le> t \<or> t + n \<le> f" using Suc.prems by auto
    note ih = Suc.IH [OF this, of m1]
    let ?r = "copy_down m1 t f n"
    have step: "copy_down m t f (Suc n) = ?r" by (simp add: m1_def)
    have low: "?r (t + i) = m (f + i)" if "i < n" for i
    proof -
      have "?r (t + i) = m1 (f + i)" using conjunct1 [OF ih] that by blast
      also have "\<dots> = m (f + i)" using Suc.prems that by (auto simp: m1)
      finally show ?thesis .
    qed
    have out: "?r x = (if x = t + n then m (f + n) else m x)" if "x < t \<or> t + n \<le> x" for x
    proof -
      have "?r x = m1 x" using conjunct2 [OF ih] that unfolding same_but_def by blast
      then show ?thesis by (simp only: m1)
    qed
    show ?case unfolding step using low out by (auto simp: less_Suc_eq same_but_def)
  qed simp
  then show "num_at (copy_down m t f n) t n = num_at m f n" "same_but t n m (copy_down m t f n)"
    using num_at_cong [of n "copy_down m t f n" t m f] by blast+
qed

lemma take_push: "take_bit b (push_bit b (l :: u64)) = 0"
  by (rule bit_word_eqI) (simp add: bit_simps)

lemma lshift_loop:
  assumes "0 < b" "b < 64" "take_bit b (m (t + n)) = 0" "f \<le> t \<or> t + n + 1 \<le> f"
  shows "num_at (lshift_loop m t f b n) t (n + 1) = num_at m f n * 2 ^ b + 2 ^ (64 * n) * unat (m (t + n)) \<and>
    same_but t (n + 1) m (lshift_loop m t f b n)"
  using assms(3,4)
proof (induction n arbitrary: m)
  case (Suc n)
  let ?l = "m (f + n)" and ?hi = "drop_bit (64 - b) (m (f + n))"
  let ?m1 = "m(t + n + 1 := m (t + n + 1) OR ?hi)"
  let ?m2 = "?m1(t + n := push_bit b ?l)"
  have step: "lshift_loop m t f b (Suc n) = lshift_loop ?m2 t f b n" by (simp add: Let_def)
  have "f \<le> t \<or> t + n + 1 \<le> f" using Suc.prems(2) by auto
  moreover have "take_bit b (?m2 (t + n)) = 0" by (simp add: take_push)
  ultimately have ih: "num_at (lshift_loop ?m2 t f b n) t (n + 1) = num_at ?m2 f n * 2 ^ b + 2 ^ (64 * n) * unat (?m2 (t + n))"
    "same_but t (n + 1) ?m2 (lshift_loop ?m2 t f b n)" using Suc.IH [of ?m2] by blast+
  have top: "lshift_loop ?m2 t f b n (t + Suc n) = m (t + Suc n) OR ?hi" using ih(2) by (simp add: same_but_def)
  have "unat ?l < 2 ^ (64 - b) * 2 ^ b" using unat_u64_less [of ?l] assms(2) by (simp flip: power_add)
  then have "unat ?hi < 2 ^ b" by (simp add: unat_drop_bit less_mult_imp_div_less mult.commute)
  then have or: "unat (m (t + Suc n) OR ?hi) = unat (m (t + Suc n)) + unat ?hi" using Suc.prems(1) by (intro unat_or_low)
  have f: "num_at ?m2 f n = num_at m f n" using Suc.prems(2) by (intro num_at_cong) auto
  have ix: "Suc n + 1 = Suc (Suc n)" "n + 1 = Suc n" "?m2 (t + n) = push_bit b ?l" by simp_all
  have "num_at (lshift_loop ?m2 t f b n) t (Suc n + 1) =
      num_at m f n * 2 ^ b + 2 ^ (64 * n) * unat (push_bit b ?l) + (unat (m (t + Suc n)) + unat ?hi) * 2 ^ (64 * Suc n)"
    using ih(1) by (simp only: ix num_at_snoc [of _ _ "Suc n"] top or f)
  also have "\<dots> = num_at m f n * 2 ^ b + 2 ^ (64 * n) * (unat (push_bit b ?l) + 2 ^ 64 * unat ?hi) + 2 ^ (64 * Suc n) * unat (m (t + Suc n))"
    by (simp add: algebra_simps power_add)
  also have "\<dots> = num_at m f (Suc n) * 2 ^ b + 2 ^ (64 * Suc n) * unat (m (t + Suc n))"
    unfolding unat_push_drop [OF assms(2)] by (simp add: num_at_snoc algebra_simps)
  finally have v: "num_at (lshift_loop ?m2 t f b n) t (Suc n + 1) = num_at m f (Suc n) * 2 ^ b + 2 ^ (64 * Suc n) * unat (m (t + Suc n))" .
  have "same_but t (Suc n + 1) m (lshift_loop ?m2 t f b n)" using ih(2) by (auto simp: same_but_def)
  with v show ?case unfolding step by (rule conjI)
qed (simp add: num_at_snoc)

lemma lshift1_loop:
  assumes "lshift1_loop m r a n c = (m', c')" "unat c \<le> 1" "may_read r a n"
  shows "num_at m' r n + 2 ^ (64 * n) * unat c' = 2 * num_at m a n + unat c \<and> same_but r n m m' \<and> unat c' \<le> 1"
  using assms
proof (induction n arbitrary: m r a c)
  case (Suc n)
  let ?v = "push_bit 1 (m a) OR c" and ?c = "drop_bit 63 (m a)"
  have l: "lshift1_loop (m(r := ?v)) (r + 1) (a + 1) n ?c = (m', c')" using Suc.prems(1) by (simp add: Let_def)
  have c: "unat ?c \<le> 1" using unat_u64_less [of "m a"] by (simp add: unat_drop_bit)
  have "may_read (r + 1) (a + 1) n" using Suc.prems(3) by (auto simp: may_read_def)
  note ih = Suc.IH [OF l c this]
  have a: "num_at (m(r := ?v)) (a + 1) n = num_at m (a + 1) n" using Suc.prems(3) by (intro num_at_cong) (auto simp: may_read_def)
  have v: "unat ?v = unat (push_bit 1 (m a)) + unat c" using Suc.prems(2) by (intro unat_or_low [where b = 1] take_push) simp
  have "m' r = (m(r := ?v)) r" using conjunct1 [OF conjunct2 [OF ih]] unfolding same_but_def by (metis less_add_one)
  then have "m' r = ?v" by simp
  then have "num_at m' r (Suc n) + 2 ^ (64 * Suc n) * unat c' = unat ?v + 2 ^ 64 * (num_at m' (r + 1) n + 2 ^ (64 * n) * unat c')"
    by (simp add: num_at_Cons algebra_simps power_add)
  also have "\<dots> = unat c + (unat (push_bit 1 (m a)) + 2 ^ 64 * unat ?c) + 2 ^ 64 * (2 * num_at m (a + 1) n)"
    unfolding conjunct1 [OF ih] a v by (simp add: algebra_simps)
  also have "\<dots> = 2 * num_at m a (Suc n) + unat c" using unat_push_drop [of 1 "m a"] by (simp add: num_at_Cons algebra_simps)
  finally show ?case using ih by (auto simp: same_but_def)
qed simp

lemma same_but_first: "same_but (r + 1) n (m(r := v)) m' \<Longrightarrow> same_but r (Suc n) m m'"
  by (auto simp: same_but_def)

text \<open>The words of a shift to the right, with the last word written apart.\<close>

lemma rshift_loop:
  fixes m :: words
  assumes "0 < b" "b < 64" "may_read r a (n + 1)"
  defines "m' \<equiv> rshift_loop m r a b n"
  shows "num_at (m'(r + n := drop_bit b (m' (a + n)))) r (n + 1) = num_at m a (n + 1) div 2 ^ b" "same_but r n m m'"
proof -
  have "num_at ((rshift_loop m r a b n)(r + n := drop_bit b (rshift_loop m r a b n (a + n)))) r (n + 1) = num_at m a (n + 1) div 2 ^ b \<and>
      same_but r n m (rshift_loop m r a b n)"
    using assms(3)
  proof (induction n arbitrary: m r a)
    case 0
    then show ?case by (simp add: num_at_Cons unat_drop_bit)
  next
    case (Suc n)
    let ?v = "drop_bit b (m a) OR push_bit (64 - b) (m (a + 1))"
    let ?m1 = "m(r := ?v)"
    let ?m2 = "rshift_loop ?m1 (r + 1) (a + 1) b n"
    let ?m3 = "?m2(r + Suc n := drop_bit b (?m2 (a + Suc n)))"
    have "may_read (r + 1) (a + 1) (n + 1)" using Suc.prems by (auto simp: may_read_def)
    note ih = Suc.IH [OF this, of ?m1]
    have a: "num_at ?m1 (a + 1) (n + 1) = num_at m (a + 1) (n + 1)" using Suc.prems by (intro num_at_cong) (auto simp: may_read_def)
    let ?x = "num_at m (a + 1) (n + 1)"
    have "?m2 r = ?m1 r" using conjunct2 [OF ih] unfolding same_but_def by (metis less_add_one)
    then have v0: "?m3 r = ?v" by simp
    have "unat (m a) < 2 ^ b * 2 ^ (64 - b)" using unat_u64_less [of "m a"] assms(2) by (simp flip: power_add)
    then have "unat (drop_bit b (m a)) < 2 ^ (64 - b)" by (simp add: unat_drop_bit less_mult_imp_div_less mult.commute)
    then have "unat ?v = unat (drop_bit b (m a)) + unat (push_bit (64 - b) (m (a + 1)))"
      unfolding or.commute [of "drop_bit b (m a)"] using take_push by (subst unat_or_low [where b = "64 - b"]) simp_all
    also have "unat (push_bit (64 - b) (m (a + 1))) = 2 ^ (64 - b) * (?x mod 2 ^ b)"
    proof -
      have p: "(2 :: nat) ^ 64 = 2 ^ b * 2 ^ (64 - b)" using assms(2) by (simp flip: power_add)
      have "?x mod 2 ^ b = unat (m (a + 1)) mod 2 ^ b"
        using num_at_Cons [of m "a + 1" n] by (simp only: p Suc_eq_plus1 mult.assoc mod_mult_self2)
      then show ?thesis by (simp only: unat_push_bit_u64 p mult_mod_left mult.commute [of "2 ^ (64 - b)"])
    qed
    finally have v: "unat ?v = unat (m a) div 2 ^ b + 2 ^ (64 - b) * (?x mod 2 ^ b)" by (simp add: unat_drop_bit)
    have ix: "r + 1 + n = r + Suc n" "a + 1 + n = a + Suc n" "Suc n + 1 = Suc (n + 1)" by simp_all
    have "num_at ?m3 (r + 1) (n + 1) = ?x div 2 ^ b" using conjunct1 [OF ih] by (simp only: ix a)
    then have "num_at ?m3 r (Suc n + 1) = unat ?v + 2 ^ 64 * (?x div 2 ^ b)"
      using num_at_Cons [of ?m3 r "n + 1"] by (simp only: ix v0)
    also have "\<dots> = unat (m a) div 2 ^ b + 2 ^ (64 - b) * ?x"
    proof -
      have p: "(2 :: nat) ^ 64 = 2 ^ (64 - b) * 2 ^ b" using assms(2) by (simp flip: power_add)
      have "2 ^ (64 - b) * (?x mod 2 ^ b) + 2 ^ 64 * (?x div 2 ^ b) = 2 ^ (64 - b) * (?x mod 2 ^ b + 2 ^ b * (?x div 2 ^ b))"
        unfolding p by (simp only: distrib_left mult.assoc)
      then show ?thesis unfolding v by simp
    qed
    also have "\<dots> = (unat (m a) + (2 ^ (64 - b) * ?x) * 2 ^ b) div 2 ^ b" by simp
    also have "unat (m a) + (2 ^ (64 - b) * ?x) * 2 ^ b = num_at m a (Suc n + 1)"
    proof -
      have p: "(2 :: nat) ^ 64 = 2 ^ (64 - b) * 2 ^ b" using assms(2) by (simp flip: power_add)
      show ?thesis using num_at_Cons [of m a "n + 1"] unfolding p by (simp add: algebra_simps)
    qed
    finally have v3: "num_at ?m3 r (Suc n + 1) = num_at m a (Suc n + 1) div 2 ^ b" .
    show ?case unfolding rshift_loop.simps(2) by (rule conjI [OF v3 same_but_first [OF conjunct2 [OF ih]]])
  qed
  then show "num_at (m'(r + n := drop_bit b (m' (a + n)))) r (n + 1) = num_at m a (n + 1) div 2 ^ b" "same_but r n m m'"
    unfolding m'_def by blast+
qed

lemma num_at_words_zero:
  "num_at (words_zero m p n) p n = 0" "p + n \<le> q \<Longrightarrow> num_at (words_zero m p n) q k = num_at m q k"
  "q + k \<le> p \<Longrightarrow> num_at (words_zero m p n) q k = num_at m q k" "same_but p n m (words_zero m p n)"
  by (simp add: num_at_zero_iff words_zero_def) (auto intro!: num_at_cong simp: words_zero_def same_but_def)

lemma lshift_words:
  fixes m :: words
  assumes "f = t \<or> f + n \<le> t \<or> t + n + nw + 1 \<le> f" "b < 64"
  defines "m1 \<equiv> m(t + (n + nw) := 0)"
  defines "m2 \<equiv> (if b = 0 then copy_down m1 (t + nw) f n else lshift_loop m1 (t + nw) f b n)"
  shows "num_at (words_zero m2 t nw) t (n + nw + 1) = num_at m f n * 2 ^ (64 * nw + b)"
    "same_but t (n + nw + 1) m (words_zero m2 t nw)"
proof -
  have z: "m1 (t + nw + n) = 0" by (simp add: m1_def add.commute add.left_commute)
  have f: "num_at m1 f n = num_at m f n" unfolding m1_def using assms(1) by (intro num_at_cong) auto
  have m2: "num_at m2 (t + nw) (n + 1) = num_at m f n * 2 ^ b \<and> same_but (t + nw) (n + 1) m1 m2"
  proof (cases "b = 0")
    case True
    have "f \<le> t + nw \<or> t + nw + n \<le> f" using assms(1) by auto
    note c = copy_down [OF this, of m1]
    have "m2 = copy_down m1 (t + nw) f n" using True by (simp add: m2_def)
    moreover from this have "m2 (t + nw + n) = 0" using c(2) z by (simp add: same_but_def)
    ultimately show ?thesis using c f True by (simp add: num_at_snoc) (simp add: same_but_def)
  next
    case False
    have "f \<le> t + nw \<or> t + nw + n + 1 \<le> f" using assms(1) by auto
    from lshift_loop [OF _ assms(2) _ this, of m1] show ?thesis using False z f by (simp add: m2_def)
  qed
  have "num_at (words_zero m2 t nw) t (nw + (n + 1)) = num_at m2 (t + nw) (n + 1) * 2 ^ (64 * nw)"
    unfolding num_at_append by (simp add: num_at_words_zero)
  then show "num_at (words_zero m2 t nw) t (n + nw + 1) = num_at m f n * 2 ^ (64 * nw + b)"
    using m2 by (simp add: power_add algebra_simps)
  show "same_but t (n + nw + 1) m (words_zero m2 t nw)" using conjunct2 [OF m2] by (auto simp: same_but_def words_zero_def m1_def)
qed

lemma bn_rshift_words:
  assumes "may_read r a num"
  shows "num_at (bn_rshift_words m r a shift num) r num = num_at m a num div 2 ^ unat shift"
    "same_but r num m (bn_rshift_words m r a shift num)"
proof -
  define sw where "sw = unat shift div 64"
  define sb where "sb = unat shift mod 64"
  have sh: "unat shift = 64 * sw + sb" "sb < 64" by (simp_all add: sw_def sb_def)
  have "num_at (bn_rshift_words m r a shift num) r num = num_at m a num div 2 ^ unat shift \<and> same_but r num m (bn_rshift_words m r a shift num)"
  proof (cases "num \<le> sw")
    case True
    have "num_at m a num < 2 ^ (64 * num)" by (rule num_at_bound)
    also have "(2 :: nat) ^ (64 * num) \<le> 2 ^ unat shift" using True sh by (intro power_increasing) simp_all
    finally show ?thesis using True by (simp add: bn_rshift_words_def Let_def sw_def num_at_words_zero)
  next
    case False
    define n where "n = num - sw"
    have n: "0 < n" "num = n + sw" "num - 1 - sw = n - 1" "a + (num - 1) = a + sw + (n - 1)" using False by (simp_all add: n_def)
    define m1 where "m1 = (if sb = 0 then words_move m r (a + sw) n
        else (rshift_loop m r (a + sw) sb (n - 1))(r + (n - 1) := drop_bit sb (rshift_loop m r (a + sw) sb (n - 1) (a + sw + (n - 1)))))"
    have res: "bn_rshift_words m r a shift num = words_zero m1 (r + n) sw"
      using False n by (simp add: bn_rshift_words_def Let_def m1_def flip: sw_def sb_def)
    have rd: "may_read r (a + sw) (n - 1 + 1)" using assms n(1,2) by (auto simp: may_read_def)
    have m1: "num_at m1 r n = num_at m (a + sw) n div 2 ^ sb \<and> same_but r n m m1"
    proof (cases "sb = 0")
      case True
      have "num_at (words_move m r (a + sw) n) r n = num_at m (a + sw) n" by (rule num_at_cong) (simp add: words_move_def)
      then show ?thesis using True by (simp add: m1_def) (simp add: same_but_def words_move_def)
    next
      case False
      then have "0 < sb" by simp
      note l = rshift_loop [OF this sh(2) rd, of m]
      have e: "n - 1 + 1 = n" using n(1) by simp
      have "same_but r n m m1" using l(2) n(1) False by (auto simp: m1_def same_but_def)
      moreover have "num_at m1 r n = num_at m (a + sw) n div 2 ^ sb" using l(1) False by (simp only: e m1_def if_False)
      ultimately show ?thesis by blast
    qed
    have "num_at (words_zero m1 (r + n) sw) r num = num_at m1 r n"
      unfolding n(2) num_at_append by (simp add: num_at_words_zero)
    moreover have "num_at m a num div 2 ^ unat shift = num_at m (a + sw) n div 2 ^ sb"
    proof -
      have "num_at m a num = num_at m a sw + 2 ^ (64 * sw) * num_at m (a + sw) n" using num_at_append [of m a sw n] n(2) by (simp add: add.commute)
      then have "num_at m a num div 2 ^ (64 * sw) = num_at m (a + sw) n" using num_at_bound [of m a sw] by simp
      then show ?thesis by (simp add: sh power_add div_mult2_eq)
    qed
    moreover have "same_but r num m (words_zero m1 (r + n) sw)" using m1 n by (auto simp: same_but_def words_zero_def)
    ultimately show ?thesis using m1 by (simp add: res)
  qed
  then show "num_at (bn_rshift_words m r a shift num) r num = num_at m a num div 2 ^ unat shift"
    "same_but r num m (bn_rshift_words m r a shift num)" by blast+
qed

lemma bn_rshift1_words:
  assumes "may_read r a num"
  shows "num_at (bn_rshift1_words m r a num) r num = num_at m a num div 2" "same_but r num m (bn_rshift1_words m r a num)"
proof -
  have "num_at (bn_rshift1_words m r a num) r num = num_at m a num div 2 \<and> same_but r num m (bn_rshift1_words m r a num)"
  proof (cases num)
    case (Suc n)
    have rd: "may_read r a (n + 1)" using assms Suc by simp
    have e: "n + 1 = Suc n" "Suc n - 1 = n" "(2 :: nat) ^ 1 = 2" by simp_all
    note l = rshift_loop [OF zero_less_one _ rd, of m, unfolded e]
    show ?thesis using l by (simp add: bn_rshift1_words_def Let_def Suc) (simp add: same_but_def)
  qed (simp add: bn_rshift1_words_def)
  then show "num_at (bn_rshift1_words m r a num) r num = num_at m a num div 2" "same_but r num m (bn_rshift1_words m r a num)" by blast+
qed

section \<open>Shifts of numbers\<close>

lemma set_neg_words: "set_neg r b (S\<lparr>st_words := m\<rparr>) = (set_neg r b S)\<lparr>st_words := m\<rparr>"
  by (simp add: set_neg_def bn_upd_def)

lemma set_neg_set_width: "set_neg r b (set_width r w S) = set_width r w (set_neg r b S)"
  by (cases "st_bn S r") (simp add: set_neg_def set_width_def bn_upd_def)

text \<open>A function that writes the words of \<open>r\<close>, sets the width and drops leading zero words.\<close>

lemma alters_store:
  assumes "store_ok K S" "r \<in> K" "same_but (bn_d (st_bn S r)) w (st_words S) m" "w \<le> bn_dmax (st_bn S r)"
  defines "S' \<equiv> bn_set_minimal_width r (set_width r w (S\<lparr>st_words := m\<rparr>))"
  shows "alters K {r} S S'" "bn_abs S' r = num_at m (bn_d (st_bn S r)) w" "minimal S' r"
    "bn_val S' r = (if bn_neg (st_bn S r) then - int (num_at m (bn_d (st_bn S r)) w) else int (num_at m (bn_d (st_bn S r)) w))"
proof -
  let ?S1 = "S\<lparr>st_words := m\<rparr>" and ?S2 = "set_width r w (S\<lparr>st_words := m\<rparr>)"
  have 1: "alters K {r} S ?S1" by (rule alters_words [OF assms(1-4)])
  have 2: "alters K {r} ?S1 ?S2" by (rule alters_set_width [OF alters_ok [OF 1]]) (use assms(4) in simp)
  note ok2 = alters_ok [OF 2]
  note s = bn_set_minimal_width [OF ok2 assms(2)]
  show "alters K {r} S S'" unfolding S'_def
    by (rule alters_trans [OF 1 alters_trans [OF 2 alters_minimal [OF ok2 assms(2)]]])
  show "bn_abs S' r = num_at m (bn_d (st_bn S r)) w" "minimal S' r"
    using s by (simp_all add: S'_def) (simp_all add: bn_abs_def set_width_def)
  show "bn_val S' r = (if bn_neg (st_bn S r) then - int (num_at m (bn_d (st_bn S r)) w) else int (num_at m (bn_d (st_bn S r)) w))"
    using s(4) by (simp add: S'_def) (simp add: bn_val_def bn_abs_def set_width_def)
qed

lemma bn_val_abs: "bn_val S i = (if bn_neg (st_bn S i) then - 1 else 1) * int (bn_abs S i)"
  by (simp add: bn_val_def)

lemma BN_lshift:
  assumes "BN_lshift A r a n S = (ok, S')" "store_ok K S" "r \<in> K" "a \<in> K"
  shows "alters K {r} S S'" "ok \<Longrightarrow> bn_val S' r = bn_val S a * 2 ^ nat n \<and> bn_abs S' r = bn_abs S a * 2 ^ nat n \<and> minimal S' r"
    "0 \<le> n \<Longrightarrow> growable A S r k \<Longrightarrow> bn_width (st_bn S a) + nat n div 64 + 1 \<le> k \<Longrightarrow> ok"
proof -
  let ?aw = "bn_width (st_bn S a)" and ?nw = "nat n div 64"
  have "alters K {r} S S' \<and> (ok \<longrightarrow> bn_val S' r = bn_val S a * 2 ^ nat n \<and> bn_abs S' r = bn_abs S a * 2 ^ nat n \<and> minimal S' r) \<and>
    (0 \<le> n \<longrightarrow> growable A S r k \<longrightarrow> ?aw + ?nw + 1 \<le> k \<longrightarrow> ok)"
  proof (cases "n < 0")
    case True
    then show ?thesis using assms(1,2) by (auto simp: BN_lshift_def intro: alters_refl)
  next
    case n: False
    let ?S1 = "set_neg r (bn_neg (st_bn S a)) S"
    note 1 = alters_set_neg [OF assms(2,3), of "bn_neg (st_bn S a)"]
    have w1: "bn_width (st_bn ?S1 a) = ?aw" by (cases "a = r") simp_all
    obtain g S2 where g: "bn_wexpand A r (?aw + ?nw + 1) ?S1 = (g, S2)" by fastforce
    note e = alters_wexpand [OF g alters_ok [OF 1] assms(3)]
    have grow: "growable A S r k \<Longrightarrow> ?aw + ?nw + 1 \<le> k \<Longrightarrow> g" using e(3) growable_alters [OF _ 1] by blast
    show ?thesis
    proof (cases g)
      case False
      then have "ok = False" "S' = S2" using assms(1) g n by (auto simp: BN_lshift_def Let_def w1)
      then show ?thesis using alters_trans [OF 1 e(1)] grow False by auto
    next
      case True
      note ok2 = alters_ok [OF e(1)]
      let ?f = "bn_d (st_bn S2 a)" and ?t = "bn_d (st_bn S2 r)" and ?b = "nat n mod 64"
      have w2: "bn_width (st_bn S2 a) = ?aw" using e(4) w1 by simp
      define m where "m = words_zero (if ?b = 0 then copy_down ((st_words S2)(?t + (?aw + ?nw) := 0)) (?t + ?nw) ?f ?aw
          else lshift_loop ((st_words S2)(?t + (?aw + ?nw) := 0)) (?t + ?nw) ?f ?b ?aw) ?t ?nw"
      have "?f = ?t \<or> ?f + ?aw \<le> ?t \<or> ?t + ?aw + ?nw + 1 \<le> ?f"
      proof (cases "a = r")
        case False
        then have "apart S2 r a" using store_apart [OF ok2] assms(3,4) by simp
        moreover have "?aw \<le> bn_dmax (st_bn S2 a)" using store_ok_width(1) [OF ok2 assms(4)] w2 by simp
        ultimately show ?thesis using e(2) [OF True] by (auto simp: apart_def)
      qed simp
      note w = lshift_words [OF this, of ?b "st_words S2", folded m_def]
      have res: "ok" "S' = bn_set_minimal_width r (set_width r (?aw + ?nw + 1) (S2\<lparr>st_words := m\<rparr>))"
        using assms(1) g n True by (auto simp: BN_lshift_def Let_def w1 w2 m_def)
      have d: "?aw + ?nw + 1 \<le> bn_dmax (st_bn S2 r)" by (rule e(2) [OF True])
      note st = alters_store [OF ok2 assms(3) w(2) d, folded res(2)]
      have abs: "num_at (st_words S2) ?f ?aw = bn_abs S a" using e(6) [OF assms(4)] by (simp add: bn_abs_def [of S2] w2)
      have neg: "bn_neg (st_bn S2 r) = bn_neg (st_bn S a)" using e(5) [of r] by simp
      have "num_at m ?t (?aw + ?nw + 1) = bn_abs S a * 2 ^ nat n" using w(1) abs by simp
      then have "bn_abs S' r = bn_abs S a * 2 ^ nat n" "bn_val S' r = bn_val S a * 2 ^ nat n"
        using st(2,4) neg by (simp_all add: bn_val_abs [of S])
      moreover have "alters K {r} S2 S'" "minimal S' r" using st(1,3) by simp_all
      ultimately show ?thesis using alters_trans [OF 1 e(1)] alters_trans res(1) by blast
    qed
  qed
  then show "alters K {r} S S'" "ok \<Longrightarrow> bn_val S' r = bn_val S a * 2 ^ nat n \<and> bn_abs S' r = bn_abs S a * 2 ^ nat n \<and> minimal S' r"
    "0 \<le> n \<Longrightarrow> growable A S r k \<Longrightarrow> ?aw + ?nw + 1 \<le> k \<Longrightarrow> ok" by blast+
qed

lemma BN_lshift1:
  assumes "BN_lshift1 A r a S = (ok, S')" "store_ok K S" "r \<in> K" "a \<in> K"
  shows "alters K {r} S S'" "ok \<Longrightarrow> bn_val S' r = 2 * bn_val S a"
    "growable A S r k \<Longrightarrow> bn_width (st_bn S a) + 1 \<le> k \<Longrightarrow> ok"
proof -
  let ?aw = "bn_width (st_bn S a)"
  let ?S1 = "if r = a then S else set_neg r (bn_neg (st_bn S a)) S"
  have 1: "alters K {r} S ?S1" using alters_set_neg [OF assms(2,3)] alters_refl [OF assms(2)] by simp
  have w1: "bn_width (st_bn ?S1 a) = ?aw" "bn_neg (st_bn ?S1 r) = bn_neg (st_bn S a)" by (cases "r = a"; simp)+
  obtain g S2 where g: "bn_wexpand A r (?aw + 1) ?S1 = (g, S2)" by fastforce
  note e = alters_wexpand [OF g alters_ok [OF 1] assms(3)]
  have grow: "growable A S r k \<Longrightarrow> ?aw + 1 \<le> k \<Longrightarrow> g" using e(3) growable_alters [OF _ 1] by blast
  have "alters K {r} S S' \<and> (ok \<longrightarrow> bn_val S' r = 2 * bn_val S a) \<and> (growable A S r k \<longrightarrow> ?aw + 1 \<le> k \<longrightarrow> ok)"
  proof (cases g)
    case False
    then have "ok = False" "S' = S2" using assms(1) g w1 by (auto simp: BN_lshift1_def Let_def split: if_splits)
    then show ?thesis using alters_trans [OF 1 e(1)] grow False by auto
  next
    case True
    define S3 where "S3 = (if r = a then S2 else set_width r ?aw S2)"
    have d: "?aw + 1 \<le> bn_dmax (st_bn S2 r)" by (rule e(2) [OF True])
    have 3: "alters K {r} S2 S3" unfolding S3_def using alters_set_width [OF alters_ok [OF e(1)], of ?aw r] alters_refl [OF alters_ok [OF e(1)]] d by simp
    have f3: "bn_d (st_bn S3 i) = bn_d (st_bn S2 i)" "bn_dmax (st_bn S3 i) = bn_dmax (st_bn S2 i)" "bn_neg (st_bn S3 i) = bn_neg (st_bn S2 i)"
        "st_words S3 = st_words S2" for i by (simp_all add: S3_def set_width_def)
    have w3: "bn_width (st_bn S3 a) = ?aw" "bn_width (st_bn S3 r) = ?aw" using e(4) w1 by (simp_all add: S3_def set_width_def)
    let ?rp = "bn_d (st_bn S3 r)" and ?ap = "bn_d (st_bn S3 a)"
    obtain m c where l: "lshift1_loop (st_words S3) ?rp ?ap ?aw 0 = (m, c)" by fastforce
    note ok3 = alters_ok [OF 3]
    have "may_read ?rp ?ap ?aw" using may_read_limbs [OF ok3 assms(3,4)] store_ok_width(1) [OF ok3 assms(4)] w3 by simp
    note v = lshift1_loop [OF l _ this]
    have abs: "num_at (st_words S3) ?ap ?aw = bn_abs S a" using e(6) [OF assms(4)] e(4) w1 by (cases "r = a") (simp_all add: bn_abs_def [of S2] f3)
    have start: "(if r \<noteq> a then
           (let S = set_neg r (bn_neg (st_bn S a)) S;
                (ok, S) = bn_wexpand A r (bn_width (st_bn S a) + 1) S
            in if \<not> ok then (False, S) else (True, set_width r (bn_width (st_bn S a)) S))
         else bn_wexpand A r (?aw + 1) S) = (True, S3)"
      using g True w1 e(4) [of a] by (auto simp: S3_def Let_def)
    have res: "ok" "S' = (if c \<noteq> 0 then set_width r (?aw + 1) (S3\<lparr>st_words := m(?rp + ?aw := 1)\<rparr>) else S3\<lparr>st_words := m\<rparr>)"
      using assms(1) l w3 unfolding BN_lshift1_def start by (auto simp: Let_def split: if_splits)
    have m: "num_at m ?rp ?aw + 2 ^ (64 * ?aw) * unat c = 2 * bn_abs S a" "same_but ?rp ?aw (st_words S3) m" "unat c \<le> 1" using v abs by simp_all
    have "alters K {r} S3 S' \<and> bn_abs S' r = 2 * bn_abs S a \<and> bn_neg (st_bn S' r) = bn_neg (st_bn S3 r)"
    proof (cases "c = 0")
      case True
      then show ?thesis using alters_words [OF ok3 assms(3) m(2)] d m(1) res(2) w3 by (simp add: f3 bn_abs_def)
    next
      case False
      then have c: "c = 1" using bit_carry [OF m(3)] by simp
      let ?m = "m(?rp + ?aw := 1)"
      have sb: "same_but ?rp (?aw + 1) (st_words S3) ?m" using m(2) by (auto simp: same_but_def)
      have 4: "alters K {r} S3 (S3\<lparr>st_words := ?m\<rparr>)" by (rule alters_words [OF ok3 assms(3) sb]) (use d in \<open>simp add: f3\<close>)
      have 5: "alters K {r} (S3\<lparr>st_words := ?m\<rparr>) S'" using res(2) False alters_set_width [OF alters_ok [OF 4], of "?aw + 1" r] d by (simp add: f3)
      have "num_at ?m ?rp ?aw = num_at m ?rp ?aw" by (rule num_at_cong) simp
      then have "num_at ?m ?rp (Suc ?aw) = 2 * bn_abs S a" unfolding num_at_snoc using m(1) c by simp
      then show ?thesis using alters_trans [OF 4 5] res(2) False by (simp add: set_width_def bn_abs_def)
    qed
    moreover have "bn_neg (st_bn S3 r) = bn_neg (st_bn S a)" using e(5) [of r] w1(2) by (simp add: f3)
    ultimately have "alters K {r} S3 S'" "bn_val S' r = 2 * bn_val S a" by (simp_all add: bn_val_abs)
    then show ?thesis using alters_trans [OF 1 alters_trans [OF e(1) 3]] alters_trans res(1) by blast
  qed
  then show "alters K {r} S S'" "ok \<Longrightarrow> bn_val S' r = 2 * bn_val S a" "growable A S r k \<Longrightarrow> ?aw + 1 \<le> k \<Longrightarrow> ok" by blast+
qed

text \<open>A result as wide as the operand, computed from its words.\<close>

lemma shrink_result:
  assumes "store_ok K S" "r \<in> K" "a \<in> K" "bn_wexpand A r (bn_width (st_bn S a)) S = (g, S1)"
    and f: "\<forall>m p. may_read p (bn_d (st_bn S1 a)) (bn_width (st_bn S a)) \<longrightarrow>
      num_at (f m p) p (bn_width (st_bn S a)) = F (num_at m (bn_d (st_bn S1 a)) (bn_width (st_bn S a))) \<and>
      same_but p (bn_width (st_bn S a)) m (f m p)"
  defines "S' \<equiv> bn_set_minimal_width r (set_width r (bn_width (st_bn S a)) (set_neg r (bn_neg (st_bn S1 a))
      (S1\<lparr>st_words := f (st_words S1) (bn_d (st_bn S1 r))\<rparr>)))"
  shows "alters K {r} S (if g then S' else S1)"
    "g \<Longrightarrow> bn_val S' r = (if bn_neg (st_bn S a) then - 1 else 1) * int (F (bn_abs S a)) \<and> bn_abs S' r = F (bn_abs S a) \<and> minimal S' r"
    "growable A S r k \<Longrightarrow> bn_width (st_bn S a) \<le> k \<Longrightarrow> g"
proof -
  let ?aw = "bn_width (st_bn S a)"
  note e = alters_wexpand [OF assms(4,1,2)]
  show "growable A S r k \<Longrightarrow> ?aw \<le> k \<Longrightarrow> g" by (rule e(3))
  have main: "alters K {r} S S' \<and> bn_val S' r = (if bn_neg (st_bn S a) then - 1 else 1) * int (F (bn_abs S a)) \<and> bn_abs S' r = F (bn_abs S a) \<and> minimal S' r" if g
  proof -
    note ok1 = alters_ok [OF e(1)]
    let ?S2 = "set_neg r (bn_neg (st_bn S1 a)) S1" and ?m = "f (st_words S1) (bn_d (st_bn S1 r))"
    have 2: "alters K {r} S1 ?S2" by (rule alters_set_neg [OF ok1 assms(2)])
    have "may_read (bn_d (st_bn S1 r)) (bn_d (st_bn S1 a)) ?aw" using may_read_limbs [OF ok1 assms(2,3)] store_ok_width(1) [OF ok1 assms(3)] e(4) by simp
    note v = f [rule_format, OF this, of "st_words S1"]
    have sb: "same_but (bn_d (st_bn ?S2 r)) ?aw (st_words ?S2) ?m" and d: "?aw \<le> bn_dmax (st_bn ?S2 r)" using v e(2) [OF that] by simp_all
    have S': "S' = bn_set_minimal_width r (set_width r ?aw (?S2\<lparr>st_words := ?m\<rparr>))" by (simp add: S'_def set_neg_words)
    note st = alters_store [OF alters_ok [OF 2] assms(2) sb d, folded S']
    have "num_at ?m (bn_d (st_bn ?S2 r)) ?aw = F (bn_abs S a)" using v e(6) [OF assms(3)] e(4) by (simp add: bn_abs_def)
    then show ?thesis using alters_trans [OF e(1) alters_trans [OF 2 st(1)]] st(2-4) e(5) [of a] by (simp)
  qed
  then show "alters K {r} S (if g then S' else S1)"
    "g \<Longrightarrow> bn_val S' r = (if bn_neg (st_bn S a) then - 1 else 1) * int (F (bn_abs S a)) \<and> bn_abs S' r = F (bn_abs S a) \<and> minimal S' r"
    using e(1) by auto
qed

lemma BN_rshift:
  assumes "BN_rshift A r a n S = (ok, S')" "store_ok K S" "r \<in> K" "a \<in> K" "n < 2 ^ 32"
  shows "alters K {r} S S'" "ok \<Longrightarrow> bn_abs S' r = bn_abs S a div 2 ^ nat n \<and> minimal S' r \<and>
      bn_val S' r = (if bn_neg (st_bn S a) then - 1 else 1) * int (bn_abs S a div 2 ^ nat n)"
    "0 \<le> n \<Longrightarrow> growable A S r k \<Longrightarrow> bn_width (st_bn S a) \<le> k \<Longrightarrow> ok"
proof -
  let ?aw = "bn_width (st_bn S a)"
  have "alters K {r} S S' \<and> (ok \<longrightarrow> bn_abs S' r = bn_abs S a div 2 ^ nat n \<and> minimal S' r \<and>
      bn_val S' r = (if bn_neg (st_bn S a) then - 1 else 1) * int (bn_abs S a div 2 ^ nat n)) \<and>
    (0 \<le> n \<longrightarrow> growable A S r k \<longrightarrow> ?aw \<le> k \<longrightarrow> ok)"
  proof (cases "n < 0")
    case True
    then show ?thesis using assms(1,2) by (auto simp: BN_rshift_def intro: alters_refl)
  next
    case n: False
    obtain g S1 where g: "bn_wexpand A r ?aw S = (g, S1)" by fastforce
    have sh: "unat (word_of_int n :: u32) = nat n" using assms(5) n by (simp add: unsigned_of_int take_bit_int_eq_self)
    have f: "\<forall>m p. may_read p (bn_d (st_bn S1 a)) ?aw \<longrightarrow>
        num_at (bn_rshift_words m p (bn_d (st_bn S1 a)) (word_of_int n) ?aw) p ?aw = num_at m (bn_d (st_bn S1 a)) ?aw div 2 ^ nat n \<and>
        same_but p ?aw m (bn_rshift_words m p (bn_d (st_bn S1 a)) (word_of_int n) ?aw)"
      using bn_rshift_words [where shift = "word_of_int n"] unfolding sh by blast
    note s = shrink_result [OF assms(2-4) g f]
    have w: "bn_width (st_bn S1 a) = ?aw" using alters_wexpand(4) [OF g assms(2,3)] .
    have "ok = g" "S' = (if g then bn_set_minimal_width r (set_width r ?aw (set_neg r (bn_neg (st_bn S1 a))
      (S1\<lparr>st_words := bn_rshift_words (st_words S1) (bn_d (st_bn S1 r)) (bn_d (st_bn S1 a)) (word_of_int n) ?aw\<rparr>))) else S1)"
      using assms(1) g n w by (auto simp: BN_rshift_def Let_def split: if_splits)
    then show ?thesis using s by auto
  qed
  then show "alters K {r} S S'" "ok \<Longrightarrow> bn_abs S' r = bn_abs S a div 2 ^ nat n \<and> minimal S' r \<and>
      bn_val S' r = (if bn_neg (st_bn S a) then - 1 else 1) * int (bn_abs S a div 2 ^ nat n)"
    "0 \<le> n \<Longrightarrow> growable A S r k \<Longrightarrow> ?aw \<le> k \<Longrightarrow> ok" by blast+
qed

lemma BN_rshift1:
  assumes "BN_rshift1 A r a S = (ok, S')" "store_ok K S" "r \<in> K" "a \<in> K"
  shows "alters K {r} S S'" "ok \<Longrightarrow> bn_abs S' r = bn_abs S a div 2 \<and> minimal S' r \<and>
      bn_val S' r = (if bn_neg (st_bn S a) then - 1 else 1) * int (bn_abs S a div 2)"
    "growable A S r k \<Longrightarrow> bn_width (st_bn S a) \<le> k \<Longrightarrow> ok"
proof -
  let ?aw = "bn_width (st_bn S a)"
  obtain g S1 where g: "bn_wexpand A r ?aw S = (g, S1)" by fastforce
  have f: "\<forall>m p. may_read p (bn_d (st_bn S1 a)) ?aw \<longrightarrow>
      num_at (bn_rshift1_words m p (bn_d (st_bn S1 a)) ?aw) p ?aw = num_at m (bn_d (st_bn S1 a)) ?aw div 2 \<and>
      same_but p ?aw m (bn_rshift1_words m p (bn_d (st_bn S1 a)) ?aw)"
    using bn_rshift1_words by blast
  note s = shrink_result [OF assms(2-4) g f]
  have w: "bn_width (st_bn S1 a) = ?aw" using alters_wexpand(4) [OF g assms(2,3)] .
  have neg: "bn_neg (st_bn (set_width r w (S1\<lparr>st_words := m\<rparr>)) a) = bn_neg (st_bn S1 a)" for w m by (simp add: set_width_def)
  have "ok = g" "S' = (if g then bn_set_minimal_width r (set_width r ?aw (set_neg r (bn_neg (st_bn S1 a))
      (S1\<lparr>st_words := bn_rshift1_words (st_words S1) (bn_d (st_bn S1 r)) (bn_d (st_bn S1 a)) ?aw\<rparr>))) else S1)"
    using assms(1) g w by (auto simp: BN_rshift1_def Let_def neg set_neg_set_width split: if_splits)
  then show "alters K {r} S S'" "ok \<Longrightarrow> bn_abs S' r = bn_abs S a div 2 \<and> minimal S' r \<and>
      bn_val S' r = (if bn_neg (st_bn S a) then - 1 else 1) * int (bn_abs S a div 2)"
    "growable A S r k \<Longrightarrow> ?aw \<le> k \<Longrightarrow> ok" using s by auto
qed

section \<open>The shift by a secret count\<close>

lemma unat_push_bit_u32: "unat (push_bit b (l :: u32)) = unat l * 2 ^ b mod 2 ^ 32"
proof -
  have "unat (push_bit b l) = take_bit 32 (push_bit b (unat l))" by (simp add: unsigned_push_bit_eq)
  then show ?thesis by (simp only: take_bit_eq_mod push_bit_eq_mult)
qed

lemma unat_push_bit_1: "i < 32 \<Longrightarrow> unat (push_bit i 1 :: u32) = 2 ^ i"
proof -
  assume "i < 32"
  then have "(2 :: nat) ^ i < 2 ^ 32" by (intro power_strict_increasing) simp_all
  then show ?thesis by (simp only: unat_push_bit_u32 unat_1 mult_1 mod_less)
qed

lemma low_bit_mask: "0 - ucast (drop_bit i (n :: u32) AND 1) = (if bit n i then - 1 else 0 :: u64)"
proof -
  have "drop_bit i n AND 1 = (if bit n i then 1 else 0)" by (simp add: and_one_eq bit_iff_odd_drop_bit mod_2_eq_odd)
  then show ?thesis by simp
qed

text \<open>Only the bits of the count below the length of \<open>max_bits\<close> are used.\<close>

lemma secret_shift_loop:
  assumes "sep r w t w" "max_bits < 2 ^ B" "B = 0 \<or> 2 ^ (B - 1) \<le> max_bits" "B \<le> 32" "i \<le> B"
  shows "num_at (secret_shift_loop m t r w n max_bits i) r w = num_at m r w div 2 ^ (unat n mod 2 ^ B div 2 ^ i * 2 ^ i) \<and>
    same_but2 r w t w m (secret_shift_loop m t r w n max_bits i)"
  using assms(5)
proof (induction "B - i" arbitrary: m i)
  case 0
  then have "max_bits div 2 ^ i = 0" "unat n mod 2 ^ B div 2 ^ i = 0" using assms(2) by simp_all
  then show ?case by (simp add: secret_shift_loop.simps [of m] same_but2_def)
next
  case (Suc k)
  then have i: "i < B" by simp
  have "(2 :: nat) ^ i \<le> 2 ^ (B - 1)" using i by (intro power_increasing) simp_all
  also have "\<dots> \<le> max_bits" using assms(3) i by auto
  finally have "2 ^ i \<le> max_bits" .
  then have go: "max_bits div 2 ^ i \<noteq> 0" by (simp add: div_eq_0_iff)
  define m1 where "m1 = bn_rshift_words m t r (push_bit i 1) w"
  define m2 where "m2 = bn_select_words m1 r (if bit n i then - 1 else 0) t r w"
  have step: "secret_shift_loop m t r w n max_bits i = secret_shift_loop m2 t r w n max_bits (i + 1)"
    by (simp only: secret_shift_loop.simps [of m] go not_False_eq_True if_True Let_def low_bit_mask m1_def m2_def)
  have rd: "may_read t r w" "may_read r t w" using assms(1) by (auto simp: sep_def may_read_def)
  have "unat (push_bit i 1 :: u32) = 2 ^ i" by (rule unat_push_bit_1) (use i assms(4) in simp)
  then have 1: "num_at m1 t w = num_at m r w div 2 ^ 2 ^ i" "same_but t w m m1"
    using bn_rshift_words [OF rd(1), of m "push_bit i 1"] by (simp_all add: m1_def)
  have r1: "num_at m1 r w = num_at m r w" using same_but_num [OF 1(2)] assms(1) by (auto simp: sep_def)
  note sel = bn_select_words [OF _ rd(2) may_read_refl, where msk = "if bit n i then - 1 else 0" and m = m1, folded m2_def]
  have 2: "num_at m2 r w = num_at m r w div 2 ^ (of_bool (bit n i) * 2 ^ i)" "same_but2 r w t w m m2"
    using sel 1 r1 by (auto simp: same_but_def same_but2_def)
  have ih: "num_at (secret_shift_loop m2 t r w n max_bits (i + 1)) r w = num_at m2 r w div 2 ^ (unat n mod 2 ^ B div 2 ^ (i + 1) * 2 ^ (i + 1))"
    "same_but2 r w t w m2 (secret_shift_loop m2 t r w n max_bits (i + 1))"
    using Suc.hyps(1) [of "i + 1" m2] Suc.hyps(2) i by auto
  have "unat n mod 2 ^ B div 2 ^ i * 2 ^ i = of_bool (bit n i) * 2 ^ i + unat n mod 2 ^ B div 2 ^ (i + 1) * 2 ^ (i + 1)"
  proof -
    let ?x = "unat n mod 2 ^ B"
    have "bit ?x i = bit (unat n) i" using i by (simp add: bit_take_bit_iff flip: take_bit_eq_mod)
    then have "?x div 2 ^ i mod 2 = of_bool (bit n i)" by (simp add: bit_unsigned_iff bit_imp_possible_bit mod_2_eq_odd flip: bit_iff_odd)
    then have "?x div 2 ^ i = of_bool (bit n i) + 2 * (?x div 2 ^ (i + 1))"
      using mod_mult_div_eq [of "?x div 2 ^ i" 2] by (simp add: div_mult2_eq [symmetric] mult.commute)
    then have "?x div 2 ^ i * 2 ^ i = (of_bool (bit n i) + 2 * (?x div 2 ^ (i + 1))) * 2 ^ i" by (rule arg_cong)
    then show ?thesis by (simp add: algebra_simps)
  qed
  then have "num_at (secret_shift_loop m2 t r w n max_bits (i + 1)) r w = num_at m r w div 2 ^ (unat n mod 2 ^ B div 2 ^ i * 2 ^ i)"
    unfolding ih(1) 2(1) by (simp add: power_add div_mult2_eq)
  moreover have "same_but2 r w t w m (secret_shift_loop m2 t r w n max_bits (i + 1))" by (rule same_but2_trans [OF 2(2) ih(2)])
  ultimately show ?case unfolding step by (rule conjI)
qed

lemma copy_width: "BN_copy A r s S = (True, S') \<Longrightarrow> bn_width (st_bn S' r) = bn_width (st_bn S s)"
proof -
  have w: "bn_width (st_bn S2 i) = bn_width (st_bn S i)" if "bn_wexpand A r n S = (g, S2)" for g S2 n i
    using that by (auto simp: bn_wexpand_def Let_def bn_upd_def split: if_splits)
  assume "BN_copy A r s S = (True, S')"
  then show ?thesis by (auto simp: BN_copy_def Let_def dest: w [of _ _ _ s] split: if_splits prod.splits)
qed

text \<open>The count is taken modulo a power of two above the number of bits of the operand.\<close>

lemma bn_rshift_secret_shift:
  assumes ok: "ctx_ok L ctx S" and mem: "r \<in> mine L ctx" "a \<in> mine L ctx"
    and B: "64 * bn_width (st_bn S a) < 2 ^ B" "B = 0 \<or> 2 ^ (B - 1) \<le> 64 * bn_width (st_bn S a)"
  shows "\<exists>ok ctx' S'. bn_rshift_secret_shift A r a n ctx S = Some (ok, ctx', S') \<and> call_done L {r} ctx S ctx' S' \<and>
    (ok \<longrightarrow> bn_abs S' r = bn_abs S a div 2 ^ (unat n mod 2 ^ B) \<and> bn_neg (st_bn S' r) = bn_neg (st_bn S a)) \<and>
    (roomy A ctx S r (bn_width (st_bn S a)) \<longrightarrow> ok \<and> \<not> cx_error ctx')"
proof -
  let ?aw = "bn_width (st_bn S a)"
  obtain ctx1 where st: "BN_CTX_start A ctx = ctx1" by blast
  note s = ctx_start [OF st ok]
  note m1 = mine_start [OF st ok]
  obtain t ctx2 S1 where get: "BN_CTX_get A ctx1 S = Some (t, ctx2, S1)" "advances L {} ctx1 S ctx2 S1"
    "\<forall>n. ample A (Suc n) ctx1 S \<longrightarrow> t \<noteq> None \<and> ample A n ctx2 S1"
    "\<forall>t'. t = Some t' \<longrightarrow> \<not> cx_error ctx2 \<and> t' \<in> mine L ctx2 \<and> t' \<notin> mine L ctx1"
    using get_advances [OF s(1), of A] by (elim exE conjE) (rule that)
  have ok1: "ctx_ok L ctx2 S1" "store_ok (live L ctx2) S1" using get(2) by (simp_all add: advances_def ctx_ok_def)
  have am: "t \<noteq> None \<and> ample A 0 ctx2 S1" if "roomy A ctx S r ?aw"
  proof -
    have "ample A 2 ctx1 S" using s(6) that by (auto simp: roomy_def)
    then have "ample A (Suc 0) ctx1 S" by (simp add: ample_def)
    then show ?thesis using get(3) by blast
  qed
  have fin: ?thesis if step: "(case t of
         None \<Rightarrow> (False, S1)
       | Some tmp \<Rightarrow>
           (let (ok, S) = BN_copy A r a S1
            in if \<not> ok then (False, S)
               else
                 (let (ok, S) = bn_wexpand A tmp (bn_width (st_bn S r)) S
                  in if \<not> ok then (False, S)
                     else
                       (let width = bn_width (st_bn S r)
                        in (True, S\<lparr>st_words := secret_shift_loop (st_words S) (bn_d (st_bn S tmp)) (bn_d (st_bn S r)) width n (64 * width) 0\<rparr>))))) = (g, S')"
      and adv: "advances L {r} ctx1 S ctx2 S'"
      and val: "g \<longrightarrow> bn_abs S' r = bn_abs S a div 2 ^ (unat n mod 2 ^ B) \<and> bn_neg (st_bn S' r) = bn_neg (st_bn S a)"
      and room: "roomy A ctx S r ?aw \<longrightarrow> g \<and> \<not> cx_error ctx2" for g S'
  proof -
    obtain ctx3 where e: "BN_CTX_end ctx2 = Some ctx3" "call_done L {r} ctx S ctx3 S'" "cx_error ctx3 = cx_error ctx2"
      using framed [OF st ok adv] by auto
    have "bn_rshift_secret_shift A r a n ctx S = Some (g, ctx3, S')"
      unfolding bn_rshift_secret_shift_def Let_def st get(1)
      by (simp only: step [unfolded Let_def] Option.bind.simps prod.case e(1))
    then show ?thesis using e(2,3) val room by auto
  qed
  show ?thesis
  proof (cases t)
    case None
    show ?thesis by (rule fin [of False S1]) (use None am advances_more [OF get(2)] in auto)
  next
    case (Some i)
    note m2 = mine_advances [OF get(2)] mine_live [of L ctx2]
    have i: "i \<in> live L ctx2" "i \<noteq> r" "i \<noteq> a" "\<not> cx_error ctx2" "i \<notin> mine L ctx1" using get(4) Some mem m1 m2 by auto
    have K: "r \<in> live L ctx2" "a \<in> live L ctx2" using mem m1 m2 by auto
    have same: "st_bn S1 j = st_bn S j \<and> bn_abs S1 j = bn_abs S j" if "j \<in> {r, a}" for j
      using advances_same [OF get(2) s(1), of j] that mem m1 by auto
    obtain g S2 where w: "BN_copy A r a S1 = (g, S2)" by fastforce
    note x = alters_copy [OF w ok1(2) K]
    obtain h S3 where w': "bn_wexpand A i (bn_width (st_bn S2 r)) S2 = (h, S3)" by fastforce
    note y = alters_wexpand [OF w' alters_ok [OF x(1)] i(1)]
    have al: "alters (live L ctx2) {r, i} S1 S2" "alters (live L ctx2) {r, i} S1 S3"
      using alters_mono [OF x(1), of "{r, i}"] alters_mono [OF y(1), of "{r, i}"] alters_trans by blast+
    have adv: "advances L {r} ctx1 S ctx2 S'" if "alters (live L ctx2) {r, i} S1 S'" for S'
      by (rule advances_trans [OF get(2) alters_advances [OF that ok1(1) order_refl]]) (use i(5) in auto)
    have tp: "i \<in> set (pool ctx2)" using i(1,5) m1 by (auto simp: live_def mine_def)
    have fits: "g \<and> h" if "roomy A ctx S r ?aw"
    proof
      have r: "growable A S1 r ?aw" using that same [of r] by (auto simp: roomy_def growable_def)
      then show g using x(4) same [of a] by simp
      then have "BN_copy A r a S1 = (True, S2)" using w by simp
      from copy_width [OF this] have "bn_width (st_bn S2 r) = ?aw" using same [of a] by simp
      moreover have "growable A S1 i ?aw" using ample_growable am [OF that] tp r by (auto simp: growable_def)
      ultimately show h using y(3) [OF growable_alters [OF _ x(1)]] by simp
    qed
    show ?thesis
    proof (cases "g \<and> h")
      case False
      then show ?thesis using Some w w' al adv fits by (intro fin [of False "if g then S3 else S2"]) auto
    next
      case True
      then have g: "BN_copy A r a S1 = (True, S2)" and h: "bn_wexpand A i (bn_width (st_bn S2 r)) S2 = (True, S3)" using w w' by simp_all
      note ok3 = alters_ok [OF al(2)]
      have wd: "bn_width (st_bn S2 r) = ?aw" "bn_width (st_bn S3 r) = ?aw" "?aw \<le> bn_dmax (st_bn S3 i)"
        using copy_width [OF g] same [of a] y(4) [of r] y(2) True by simp_all
      have d: "?aw \<le> bn_dmax (st_bn S3 r)" using store_ok_width(1) [OF ok3 K(1)] wd by simp
      let ?rd = "bn_d (st_bn S3 r)" and ?td = "bn_d (st_bn S3 i)"
      have sp: "sep ?rd ?aw ?td ?aw" using apart_sep [OF ok3 K(1) i(1) _ d wd(3)] i(2) by simp
      have b32: "B \<le> 32"
      proof (rule ccontr)
        assume b: "\<not> B \<le> 32"
        then have "(2 :: nat) ^ 32 \<le> 2 ^ (B - 1)" by (intro power_increasing) simp_all
        moreover have "2 ^ (B - 1) \<le> 64 * ?aw" using B(2) b by auto
        moreover have "?aw \<le> BN_MAX_WORDS" using store_ok_width(2) [OF ok1(2) K(2)] same [of a] by simp
        ultimately show False by (simp add: BN_MAX_WORDS_def INT_MAX_def)
      qed
      define m where "m = secret_shift_loop (st_words S3) ?td ?rd ?aw n (64 * ?aw) 0"
      note v = secret_shift_loop [OF sp B b32 le0, of "st_words S3" n, folded m_def]
      have "alters (live L ctx2) {r, i} S3 (S3\<lparr>st_words := m\<rparr>)" by (rule alters_words2 [OF ok3 K(1) i(1) conjunct2 [OF v] d wd(3)])
      then have al4: "alters (live L ctx2) {r, i} S1 (S3\<lparr>st_words := m\<rparr>)" using al(2) alters_trans by blast
      have "bn_abs S3 r = bn_abs S a" using y(6) [OF K(1)] x(2) True same [of a] by simp
      then have "num_at (st_words S3) ?rd ?aw = bn_abs S a" using wd by (simp add: bn_abs_def [of S3])
      then have abs: "bn_abs (S3\<lparr>st_words := m\<rparr>) r = bn_abs S a div 2 ^ (unat n mod 2 ^ B)" using v wd by (simp add: bn_abs_def)
      have neg: "bn_neg (st_bn S3 r) = bn_neg (st_bn S a)" using y(5) [of r] x(3) True same [of a] by simp
      show ?thesis using Some g h wd abs neg adv [OF al4] i(4) by (intro fin [of True "S3\<lparr>st_words := m\<rparr>"]) (simp_all add: m_def Let_def)
    qed
  qed
qed

section \<open>Bits of numbers\<close>

lemma bit_abs: "bit (bn_abs S a) k \<longleftrightarrow> k div 64 < bn_width (st_bn S a) \<and> bit (limb S a (k div 64)) (k mod 64)"
  by (simp add: bn_abs_def bit_num_at limb_def)

lemma limb_set_limb: "limb (set_limb a i w S) a k = (if k = i then w else limb S a k)"
  by (simp add: limb_def set_limb_def)

lemma width_set_limb [simp]: "bn_width (st_bn (set_limb a i w S) b) = bn_width (st_bn S b)" "bn_neg (st_bn (set_limb a i w S) b) = bn_neg (st_bn S b)"
  by (simp_all add: set_limb_def)

lemma alters_set_limb: "store_ok K S \<Longrightarrow> a \<in> K \<Longrightarrow> i < bn_dmax (st_bn S a) \<Longrightarrow> alters K {a} S (set_limb a i w S)"
  unfolding set_limb_def by (rule alters_words [where n = "i + 1"]) (auto simp: same_but_def)

lemma bit_index: "k = n \<longleftrightarrow> k div 64 = n div 64 \<and> k mod 64 = n mod (64 :: nat)"
  by (metis div_mult_mod_eq)

lemma bit_single: "j < 64 \<Longrightarrow> bit (2 ^ j :: u64) i \<longleftrightarrow> i = j"
  by (auto simp: bit_exp_iff)

lemma BN_set_bit:
  assumes "BN_set_bit A a n S = (ok, S')" "store_ok K S" "a \<in> K"
  shows "alters K {a} S S'" "ok \<Longrightarrow> bn_abs S' a = set_bit (nat n) (bn_abs S a) \<and> bn_neg (st_bn S' a) = bn_neg (st_bn S a)"
    "0 \<le> n \<Longrightarrow> growable A S a k \<Longrightarrow> nat n div 64 + 1 \<le> k \<Longrightarrow> ok"
proof -
  let ?i = "nat n div 64" and ?j = "nat n mod 64" and ?w = "bn_width (st_bn S a)"
  have set: "alters K {a} S (set_limb a ?i (limb S1 a ?i OR push_bit ?j 1) S1) \<and>
      bn_abs (set_limb a ?i (limb S1 a ?i OR push_bit ?j 1) S1) a = set_bit (nat n) (bn_abs S a) \<and>
      bn_neg (st_bn (set_limb a ?i (limb S1 a ?i OR push_bit ?j 1) S1) a) = bn_neg (st_bn S a)"
    if "alters K {a} S S1" "bn_abs S1 a = bn_abs S a" "bn_neg (st_bn S1 a) = bn_neg (st_bn S a)" "?i < bn_width (st_bn S1 a)" for S1
  proof -
    let ?S2 = "set_limb a ?i (limb S1 a ?i OR push_bit ?j 1) S1"
    have "?i < bn_dmax (st_bn S1 a)" using store_ok_width(1) [OF alters_ok [OF that(1)] assms(3)] that(4) by simp
    then have "alters K {a} S ?S2" using alters_trans [OF that(1) alters_set_limb [OF alters_ok [OF that(1)] assms(3)]] by blast
    moreover have "bn_abs ?S2 a = set_bit (nat n) (bn_abs S1 a)"
    proof (rule bit_eqI)
      fix k
      show "bit (bn_abs ?S2 a) k \<longleftrightarrow> bit (set_bit (nat n) (bn_abs S1 a)) k"
        using that(4) bit_index [of k "nat n"]
        by (auto simp: bit_abs limb_set_limb bit_or_iff bit_single bit_set_bit_iff)
    qed
    ultimately show ?thesis using that(2,3) by simp
  qed
  consider "n < 0" | "0 \<le> n" "?i < ?w" | "0 \<le> n" "?w \<le> ?i" by linarith
  then have "alters K {a} S S' \<and> (ok \<longrightarrow> bn_abs S' a = set_bit (nat n) (bn_abs S a) \<and> bn_neg (st_bn S' a) = bn_neg (st_bn S a)) \<and>
    (0 \<le> n \<longrightarrow> growable A S a k \<longrightarrow> ?i + 1 \<le> k \<longrightarrow> ok)"
  proof cases
    case 1
    then show ?thesis using assms(1,2) by (auto simp: BN_set_bit_def intro: alters_refl)
  next
    case 2
    then show ?thesis using set [OF alters_refl [OF assms(2)]] assms(1) by (auto simp: BN_set_bit_def Let_def)
  next
    case 3
    obtain g S1 where g: "bn_wexpand A a (?i + 1) S = (g, S1)" by fastforce
    note e = alters_wexpand [OF g assms(2,3)]
    show ?thesis
    proof (cases g)
      case False
      then show ?thesis using assms(1) 3 g e(1,3) by (auto simp: BN_set_bit_def Let_def)
    next
      case True
      let ?d = "bn_d (st_bn S1 a)"
      define m where "m = words_zero (st_words S1) (?d + ?w) (?i + 1 - ?w)"
      define S2 where "S2 = set_width a (?i + 1) (S1\<lparr>st_words := m\<rparr>)"
      note ok1 = alters_ok [OF e(1)]
      have d: "?i + 1 \<le> bn_dmax (st_bn S1 a)" by (rule e(2) [OF True])
      have "same_but ?d (?i + 1) (st_words S1) m" using 3(2) by (auto simp: m_def same_but_def words_zero_def)
      from alters_words [OF ok1 assms(3) this d] have al: "alters K {a} S1 (S1\<lparr>st_words := m\<rparr>)" .
      have "alters K {a} (S1\<lparr>st_words := m\<rparr>) S2" unfolding S2_def by (rule alters_set_width [OF alters_ok [OF al]]) (use d in simp)
      then have S2: "alters K {a} S S2" using e(1) al alters_trans by blast
      have "num_at m ?d (?w + (?i + 1 - ?w)) = num_at (st_words S1) ?d ?w"
        unfolding num_at_append m_def by (simp add: num_at_words_zero)
      moreover have "?w + (?i + 1 - ?w) = ?i + 1" using 3(2) by simp
      ultimately have "num_at m ?d (?i + 1) = bn_abs S1 a" using e(4) [of a] by (simp only: bn_abs_def)
      then have "bn_abs S2 a = bn_abs S a" using e(6) [OF assms(3)] by (simp add: S2_def set_width_def bn_abs_def [of "bn_upd _ _ _"])
      moreover have "bn_neg (st_bn S2 a) = bn_neg (st_bn S a)" "?i < bn_width (st_bn S2 a)" using e(5) [of a] by (simp_all add: S2_def set_width_def)
      moreover have "ok" "S' = set_limb a ?i (limb S2 a ?i OR push_bit ?j 1) S2"
        using assms(1) 3 g True e(4) [of a] by (auto simp: BN_set_bit_def Let_def S2_def m_def)
      ultimately show ?thesis using set [OF S2] by simp
    qed
  qed
  then show "alters K {a} S S'" "ok \<Longrightarrow> bn_abs S' a = set_bit (nat n) (bn_abs S a) \<and> bn_neg (st_bn S' a) = bn_neg (st_bn S a)"
    "0 \<le> n \<Longrightarrow> growable A S a k \<Longrightarrow> ?i + 1 \<le> k \<Longrightarrow> ok" by blast+
qed

lemma BN_is_bit_set: "BN_is_bit_set S a n \<longleftrightarrow> 0 \<le> n \<and> bit (bn_abs S a) (nat n)"
proof -
  have "drop_bit j x AND 1 \<noteq> 0 \<longleftrightarrow> bit x j" for x :: u64 and j by (simp add: and_one_eq bit_iff_odd_drop_bit mod_2_eq_odd)
  then show ?thesis by (auto simp: BN_is_bit_set_def bn_is_bit_set_words_def Let_def bit_abs limb_def)
qed

text \<open>Changing the words of \<open>a\<close> below \<open>w\<close> and cutting the width to \<open>w\<close>.\<close>

lemma alters_minimal_val:
  assumes "alters K {a} S S1" "a \<in> K" "bn_abs S1 a = v" "bn_neg (st_bn S1 a) = bn_neg (st_bn S a)"
  shows "alters K {a} S (bn_set_minimal_width a S1)" "bn_abs (bn_set_minimal_width a S1) a = v" "minimal (bn_set_minimal_width a S1) a"
    "bn_val (bn_set_minimal_width a S1) a = (if bn_neg (st_bn S a) then - int v else int v)"
proof -
  note ok1 = alters_ok [OF assms(1)]
  note s = bn_set_minimal_width [OF ok1 assms(2)]
  show "alters K {a} S (bn_set_minimal_width a S1)" by (rule alters_trans [OF assms(1) alters_minimal [OF ok1 assms(2)]])
  show "bn_abs (bn_set_minimal_width a S1) a = v" "minimal (bn_set_minimal_width a S1) a"
    "bn_val (bn_set_minimal_width a S1) a = (if bn_neg (st_bn S a) then - int v else int v)"
    using s assms(3,4) by (simp_all add: bn_val_def [of S1])
qed

lemma BN_clear_bit:
  assumes "BN_clear_bit a n S = (ok, S')" "store_ok K S" "a \<in> K"
  shows "alters K {a} S S'" "ok \<longleftrightarrow> 0 \<le> n \<and> nat n div 64 < bn_width (st_bn S a)"
    "ok \<Longrightarrow> bn_abs S' a = unset_bit (nat n) (bn_abs S a) \<and> minimal S' a" "\<not> ok \<Longrightarrow> S' = S"
proof -
  let ?i = "nat n div 64" and ?j = "nat n mod 64"
  show ok: "ok \<longleftrightarrow> 0 \<le> n \<and> ?i < bn_width (st_bn S a)" and "\<not> ok \<Longrightarrow> S' = S"
    using assms(1) by (auto simp: BN_clear_bit_def Let_def split: if_splits)
  let ?S1 = "set_limb a ?i (limb S a ?i AND NOT (push_bit ?j 1)) S"
  have main: "alters K {a} S S' \<and> bn_abs S' a = unset_bit (nat n) (bn_abs S a) \<and> minimal S' a" if ok
  proof -
    have i: "0 \<le> n" "?i < bn_width (st_bn S a)" "?i < bn_dmax (st_bn S a)" using ok that store_ok_width(1) [OF assms(2,3)] by auto
    have 1: "alters K {a} S ?S1" by (rule alters_set_limb [OF assms(2,3) i(3)])
    have "bn_abs ?S1 a = unset_bit (nat n) (bn_abs S a)"
    proof (rule bit_eqI)
      fix k
      show "bit (bn_abs ?S1 a) k \<longleftrightarrow> bit (unset_bit (nat n) (bn_abs S a)) k"
        using i(2) bit_index [of k "nat n"]
        by (auto simp: bit_abs limb_set_limb bit_and_iff bit_not_iff bit_single bit_unset_bit_iff bit_imp_possible_bit)
    qed
    note r = alters_minimal_val [OF 1 assms(3) this]
    have "S' = bn_set_minimal_width a ?S1" using assms(1) i by (auto simp: BN_clear_bit_def Let_def split: if_splits)
    then show ?thesis using r by simp
  qed
  show "alters K {a} S S'" using main \<open>\<not> ok \<Longrightarrow> S' = S\<close> alters_refl [OF assms(2)] by (cases ok) auto
  show "ok \<Longrightarrow> bn_abs S' a = unset_bit (nat n) (bn_abs S a) \<and> minimal S' a" using main by blast
qed

lemma BN_mask_bits:
  assumes "BN_mask_bits a n S = (ok, S')" "store_ok K S" "a \<in> K"
  shows "alters K {a} S S'" "ok \<longleftrightarrow> 0 \<le> n" "ok \<Longrightarrow> bn_abs S' a = bn_abs S a mod 2 ^ nat n"
proof -
  let ?w = "nat n div 64" and ?b = "nat n mod 64"
  show ok: "ok \<longleftrightarrow> 0 \<le> n" using assms(1) by (auto simp: BN_mask_bits_def Let_def split: if_splits)
  have "alters K {a} S S' \<and> (ok \<longrightarrow> bn_abs S' a = take_bit (nat n) (bn_abs S a))"
  proof (cases "n < 0 \<or> bn_width (st_bn S a) \<le> ?w")
    case True
    have "take_bit (nat n) (bn_abs S a) = bn_abs S a" if "bn_width (st_bn S a) \<le> ?w"
    proof -
      have "bn_abs S a < 2 ^ (64 * bn_width (st_bn S a))" by (rule abs_bound)
      also have "(2 :: nat) ^ (64 * bn_width (st_bn S a)) \<le> 2 ^ nat n"
      proof (intro power_increasing)
        have "64 * ?w \<le> nat n" by simp
        then show "64 * bn_width (st_bn S a) \<le> nat n" using that by linarith
      qed simp
      finally show ?thesis by (simp add: take_bit_nat_eq_self)
    qed
    then show ?thesis using True assms(1,2) ok by (auto simp: BN_mask_bits_def Let_def intro: alters_refl split: if_splits)
  next
    case False
    then have n: "0 \<le> n" "?w < bn_width (st_bn S a)" by auto
    let ?S0 = "set_width a (?w + 1) S"
    define S1 where "S1 = (if ?b = 0 then set_width a ?w S else set_limb a ?w (limb ?S0 a ?w AND NOT (push_bit ?b (- 1))) ?S0)"
    have wd: "?w + 1 \<le> bn_dmax (st_bn S a)" using store_ok_width(1) [OF assms(2,3)] n(2) by simp
    have 0: "alters K {a} S ?S0" using alters_set_width [OF assms(2) wd] .
    have "alters K {a} S S1"
    proof (cases "?b = 0")
      case True then show ?thesis using alters_set_width [OF assms(2), of ?w a] wd by (simp add: S1_def)
    next
      case False
      have "?w < bn_dmax (st_bn ?S0 a)" using wd by (simp add: set_width_def)
      then show ?thesis using False alters_trans [OF 0 alters_set_limb [OF alters_ok [OF 0] assms(3)]] by (simp add: S1_def)
    qed
    note al = this
    have "bn_abs S1 a = take_bit (nat n) (bn_abs S a)"
    proof (rule bit_eqI)
      fix k
      have lim: "limb (set_width a v S) a = limb S a" "bn_width (st_bn (set_width a v S) a) = v" for v by (rule ext) (simp_all add: set_width_def limb_def)
      have lt: "k < nat n \<longleftrightarrow> k div 64 < ?w \<or> k div 64 = ?w \<and> k mod 64 < ?b"
      proof -
        have "k = 64 * (k div 64) + k mod 64" "nat n = 64 * ?w + ?b" "k mod 64 < 64" "?b < 64" by simp_all
        then show ?thesis by linarith
      qed
      show "bit (bn_abs S1 a) k \<longleftrightarrow> bit (take_bit (nat n) (bn_abs S a)) k"
      proof (cases "?b = 0")
        case True
        then show ?thesis using n(2) lt by (auto simp: S1_def bit_abs lim bit_take_bit_iff)
      next
        case False
        then show ?thesis using n(2) lt
          by (auto simp: S1_def bit_abs lim limb_set_limb bit_and_iff bit_not_iff bit_push_bit_iff bit_minus_1_iff bit_mask_iff bit_take_bit_iff)
      qed
    qed
    note r = alters_minimal_val [OF al assms(3) this]
    have "S' = bn_set_minimal_width a S1" using assms(1) n by (auto simp: BN_mask_bits_def Let_def S1_def split: if_splits)
    moreover have "bn_neg (st_bn S1 a) = bn_neg (st_bn S a)" by (simp add: S1_def) (simp add: set_width_def)
    ultimately show ?thesis using r by simp
  qed
  then show "alters K {a} S S'" "ok \<Longrightarrow> bn_abs S' a = bn_abs S a mod 2 ^ nat n" by (auto simp: take_bit_eq_mod)
qed

section \<open>Low zero bits\<close>

text \<open>The low \<open>bits\<close> bits of \<open>w\<close> are zero, and the next \<open>k\<close>, not all zero, are those of \<open>l\<close>.\<close>

definition low_split :: "u64 \<Rightarrow> u64 \<times> u32 \<Rightarrow> nat \<Rightarrow> bool" where
  "low_split w = (\<lambda>(l, bits) k. unat bits + k \<le> 64 \<and> 2 ^ unat bits dvd unat w \<and>
     unat w div 2 ^ unat bits mod 2 ^ k = unat l mod 2 ^ k \<and> unat l mod 2 ^ k \<noteq> 0)"

lemma low_zero_step:
  assumes "low_split w (l, bits) (2 * k)" "0 < k" "k \<le> 32"
  shows "low_split w (low_zero_step k (l, bits)) k"
proof -
  let ?x = "unat w div 2 ^ unat bits"
  have inv: "unat bits + 2 * k \<le> 64" "2 ^ unat bits dvd unat w" "?x mod 2 ^ (2 * k) = unat l mod 2 ^ (2 * k)" "unat l mod 2 ^ (2 * k) \<noteq> 0"
    using assms(1) by (simp_all add: low_split_def)
  have two: "(2 :: nat) ^ (2 * k) = 2 ^ k * 2 ^ k" by (simp add: mult_2 power_add)
  have low: "?x mod 2 ^ k = unat l mod 2 ^ k"
    using arg_cong [OF inv(3), of "\<lambda>y. y mod 2 ^ k"] by (simp add: two mod_mult_right_eq [symmetric] mod_mod_cancel)
  have z: "push_bit (64 - k) l = 0 \<longleftrightarrow> unat l mod 2 ^ k = 0"
  proof -
    have "(2 :: nat) ^ 64 = 2 ^ k * 2 ^ (64 - k)" using assms(3) by (simp flip: power_add)
    then have "unat (push_bit (64 - k) l) = unat l mod 2 ^ k * 2 ^ (64 - k)" by (simp only: unat_push_bit_u64 mult_mod_left)
    then show ?thesis by (simp add: unat_eq_zero [symmetric])
  qed
  show ?thesis
  proof (cases "unat l mod 2 ^ k = 0")
    case False
    then have "low_zero_step k (l, bits) = (l, bits)" using z by (simp add: low_zero_step_def Let_def ct_simps)
    then show ?thesis using False inv low by (simp add: low_split_def)
  next
    case True
    have kw: "ucast (word_of_nat k :: u64) = (word_of_nat k :: u32)" "unat (word_of_nat k :: u32) = k"
      using assms(3) by (simp_all add: unat_of_nat word_unat_eq_iff unsigned_ucast_eq unsigned_of_nat take_bit_nat_eq_self)
    have "low_zero_step k (l, bits) = (drop_bit k l, bits + word_of_nat k)" using z True kw(1) by (simp add: low_zero_step_def Let_def ct_simps)
    moreover have b: "unat (bits + word_of_nat k) = unat bits + k" using inv(1) kw(2) by (simp add: unat_plus_if')
    moreover have "2 ^ (unat bits + k) dvd unat w"
    proof -
      have "2 ^ k dvd ?x" using low True by (simp add: dvd_eq_mod_eq_0)
      then have "2 ^ unat bits * 2 ^ k dvd 2 ^ unat bits * ?x" by (rule mult_dvd_mono [OF dvd_refl])
      then show ?thesis using inv(2) by (simp add: power_add)
    qed
    moreover have "unat w div 2 ^ (unat bits + k) mod 2 ^ k = unat (drop_bit k l) mod 2 ^ k"
      using arg_cong [OF inv(3), of "\<lambda>y. y div 2 ^ k"] by (simp add: two mod_mult2_eq power_add div_mult2_eq unat_drop_bit)
    moreover have "unat (drop_bit k l) mod 2 ^ k \<noteq> 0"
      using inv(4) True by (simp add: two mod_mult2_eq unat_drop_bit)
    ultimately show ?thesis using inv(1) by (simp add: low_split_def)
  qed
qed

lemma count_low_zero_word:
  assumes "w \<noteq> 0"
  shows "2 ^ unat (bn_count_low_zero_bits_word w) dvd unat w" "odd (unat w div 2 ^ unat (bn_count_low_zero_bits_word w))"
    "unat (bn_count_low_zero_bits_word w) < 64"
proof -
  have step: "low_split w p (2 * k) \<Longrightarrow> 0 < k \<Longrightarrow> k \<le> 32 \<Longrightarrow> low_split w (low_zero_step k p) k" for p k
    by (cases p) (simp add: low_zero_step)
  have "unat w mod 2 ^ 64 = unat w" using unat_u64_less [of w] by simp
  then have "low_split w (w, 0) (2 * 32)" using assms by (simp add: low_split_def unat_gt_0)
  then have "low_split w (low_zero_step 32 (w, 0)) (2 * 16)" using step by simp
  then have "low_split w (low_zero_step 16 (low_zero_step 32 (w, 0))) (2 * 8)" using step by simp
  then have "low_split w (low_zero_step 8 (low_zero_step 16 (low_zero_step 32 (w, 0)))) (2 * 4)" using step by simp
  then have "low_split w (low_zero_step 4 (low_zero_step 8 (low_zero_step 16 (low_zero_step 32 (w, 0))))) (2 * 2)" using step by simp
  then have "low_split w (low_zero_step 2 (low_zero_step 4 (low_zero_step 8 (low_zero_step 16 (low_zero_step 32 (w, 0)))))) (2 * 1)" using step by simp
  then have last: "low_split w (low_zero_step 1 (low_zero_step 2 (low_zero_step 4 (low_zero_step 8 (low_zero_step 16 (low_zero_step 32 (w, 0))))))) 1"
    using step by simp
  have "bn_count_low_zero_bits_word w = snd (low_zero_step 1 (low_zero_step 2 (low_zero_step 4 (low_zero_step 8 (low_zero_step 16 (low_zero_step 32 (w, 0)))))))"
    by (simp add: bn_count_low_zero_bits_word_def Let_def split_beta) (simp add: low_zero_step_def Let_def split_beta)
  then obtain l where l: "low_split w (l, bn_count_low_zero_bits_word w) 1" using last by (metis prod.collapse)
  show "2 ^ unat (bn_count_low_zero_bits_word w) dvd unat w" "unat (bn_count_low_zero_bits_word w) < 64" using l by (simp_all add: low_split_def)
  show "odd (unat w div 2 ^ unat (bn_count_low_zero_bits_word w))" using l by (simp add: low_split_def odd_iff_mod_2_eq_one)
qed

lemma low_zero_loop_seen: "low_zero_loop m d i n (- 1) ret = ret"
  by (induction n arbitrary: i) simp_all

lemma low_zero_loop:
  "if num_at m (d + i) n = 0 then low_zero_loop m d i n 0 0 = 0
   else \<exists>j. low_zero_loop m d i n 0 0 = word_of_nat (64 * i + j) \<and> 2 ^ j dvd num_at m (d + i) n \<and> odd (num_at m (d + i) n div 2 ^ j)"
proof (induction n arbitrary: i)
  case (Suc n)
  let ?w = "m (d + i)" and ?x = "num_at m (d + (i + 1)) n"
  have num: "num_at m (d + i) (Suc n) = unat ?w + 2 ^ 64 * ?x" by (simp add: num_at_Cons add.assoc)
  show ?case
  proof (cases "?w = 0")
    case True
    then have step: "low_zero_loop m d i (Suc n) 0 0 = low_zero_loop m d (i + 1) n 0 0" by (simp add: Let_def ct_simps)
    show ?thesis
    proof (cases "?x = 0")
      case True
      then show ?thesis using Suc [of "i + 1"] step num \<open>?w = 0\<close> by simp
    next
      case False
      then obtain j where j: "low_zero_loop m d (i + 1) n 0 0 = word_of_nat (64 * (i + 1) + j)" "2 ^ j dvd ?x" "odd (?x div 2 ^ j)"
        using Suc [of "i + 1"] by auto
      have e: "2 ^ (64 + j) = 2 ^ 64 * (2 :: nat) ^ j" by (rule power_add)
      have "2 ^ (64 + j) dvd 2 ^ 64 * ?x" unfolding e by (rule mult_dvd_mono [OF dvd_refl j(2)])
      moreover have "2 ^ 64 * ?x div 2 ^ (64 + j) = ?x div 2 ^ j" unfolding e by (rule div_mult_mult1) simp
      moreover have "64 * (i + 1) + j = 64 * i + (64 + j)" by simp
      ultimately show ?thesis using j False num \<open>?w = 0\<close> step by (metis add_0 mult_eq_0_iff power_not_zero unat_0 zero_neq_numeral)
    qed
  next
    case False
    let ?j = "unat (bn_count_low_zero_bits_word ?w)"
    note c = count_low_zero_word [OF False]
    have id: "ucast (ucast (y :: u32) :: u64) = y" for y by (rule bit_word_eqI) (simp add: bit_simps)
    have "low_zero_loop m d i (Suc n) 0 0 = word_of_nat (i * 64) + bn_count_low_zero_bits_word ?w"
      using False by (simp add: Let_def ct_simps low_zero_loop_seen id)
    also have "\<dots> = word_of_nat (64 * i + ?j)" by (simp add: mult.commute)
    finally have r: "low_zero_loop m d i (Suc n) 0 0 = word_of_nat (64 * i + ?j)" .
    have p: "(2 :: nat) ^ 64 = 2 ^ ?j * (2 * 2 ^ (63 - ?j))" using c(3) by (simp flip: power_Suc power_add)
    have num': "num_at m (d + i) (Suc n) = unat ?w + 2 ^ ?j * (2 * (2 ^ (63 - ?j) * ?x))" unfolding num p by (simp add: mult.assoc)
    have "2 ^ ?j dvd num_at m (d + i) (Suc n)" unfolding num' using c(1) by (intro dvd_add) simp_all
    moreover have "num_at m (d + i) (Suc n) div 2 ^ ?j = 2 * (2 ^ (63 - ?j) * ?x) + unat ?w div 2 ^ ?j"
      unfolding num' by (rule div_mult_self2) simp
    then have "odd (num_at m (d + i) (Suc n) div 2 ^ ?j)" using c(2) by simp
    moreover have nz: "num_at m (d + i) (Suc n) \<noteq> 0" using num False by (simp add: unat_eq_zero)
    ultimately show ?thesis unfolding r if_not_P [OF nz] by blast
  qed
qed simp

lemma BN_count_low_zero_bits:
  assumes "store_ok K S" "a \<in> K"
  shows "bn_abs S a = 0 \<Longrightarrow> BN_count_low_zero_bits S a = 0"
    "bn_abs S a \<noteq> 0 \<Longrightarrow> 2 ^ unat (BN_count_low_zero_bits S a) dvd bn_abs S a \<and> odd (bn_abs S a div 2 ^ unat (BN_count_low_zero_bits S a))"
proof -
  note l = low_zero_loop [of "st_words S" "bn_d (st_bn S a)" 0 "bn_width (st_bn S a)", unfolded mult_0_right add_0_left add_0_right,
      folded bn_abs_def BN_count_low_zero_bits_def]
  show "bn_abs S a = 0 \<Longrightarrow> BN_count_low_zero_bits S a = 0" using l by simp
  assume nz: "bn_abs S a \<noteq> 0"
  then obtain j where j: "BN_count_low_zero_bits S a = word_of_nat j" "2 ^ j dvd bn_abs S a" "odd (bn_abs S a div 2 ^ j)" using l by auto
  have "(2 :: nat) ^ j \<le> bn_abs S a" using j(2) nz by (simp add: dvd_imp_le)
  also have "\<dots> < 2 ^ (64 * bn_width (st_bn S a))" by (rule abs_bound)
  finally have "j < 64 * bn_width (st_bn S a)" by simp
  then have "j < 2 ^ 32" using store_ok_width(2) [OF assms] by (simp add: BN_MAX_WORDS_def INT_MAX_def)
  then have "unat (BN_count_low_zero_bits S a) = j" using j(1) by (simp add: unat_of_nat)
  then show "2 ^ unat (BN_count_low_zero_bits S a) dvd bn_abs S a \<and> odd (bn_abs S a div 2 ^ unat (BN_count_low_zero_bits S a))" using j by simp
qed

end
