(* ===== verification/Bn_Shift_Props.thy ===== *)
theory Bn_Shift_Props
  imports Bn_Shift_Correct Bn_Props
begin

unbundle bit_operations_syntax

text \<open>
  The properties of the shifts and bits of big numbers, with witnesses.
\<close>

section \<open>Shifts\<close>

lemma signed_abs: "(if bn_neg (st_bn S a) then - 1 else 1) * int (bn_abs S a div k) = sgn (bn_val S a) * (\<bar>bn_val S a\<bar> div int k)"
  by (auto simp: bn_val_def sgn_if zdiv_int)

text \<open>C34: \<open>BN_lshift\<close> multiplies by a power of two, \<open>BN_rshift\<close> divides by one and rounds towards zero, for every overlap of
  result and operand. They change no other number, leave the minimal number of words, refuse exactly the negative counts, and
  fail otherwise only when the result cannot grow.\<close>

theorem shifts_exact:
  assumes "store_ok L S" "{r, a} \<subseteq> L" "n < 2 ^ 31"
  shows "(\<exists>ok S'. BN_lshift A r a n S = (ok, S') \<and> alters L {r} S S' \<and>
      (ok \<longrightarrow> bn_val S' r = bn_val S a * 2 ^ nat n \<and> minimal S' r) \<and> (n < 0 \<longrightarrow> \<not> ok \<and> S' = S) \<and>
      (0 \<le> n \<and> growable A S r (bn_width (st_bn S a) + nat n div 64 + 1) \<longrightarrow> ok)) \<and>
    (\<exists>ok S'. BN_rshift A r a n S = (ok, S') \<and> alters L {r} S S' \<and>
      (ok \<longrightarrow> bn_val S' r = sgn (bn_val S a) * (\<bar>bn_val S a\<bar> div 2 ^ nat n) \<and> minimal S' r) \<and> (n < 0 \<longrightarrow> \<not> ok \<and> S' = S) \<and>
      (0 \<le> n \<and> growable A S r (bn_width (st_bn S a)) \<longrightarrow> ok))"
proof -
  have L: "r \<in> L" "a \<in> L" "n < 2 ^ 32" using assms(2,3) by simp_all
  obtain ok1 S1 ok2 S2 where e: "BN_lshift A r a n S = (ok1, S1)" "BN_rshift A r a n S = (ok2, S2)" by fastforce
  have neg: "n < 0 \<Longrightarrow> \<not> ok1 \<and> S1 = S \<and> \<not> ok2 \<and> S2 = S" using e by (auto simp: BN_lshift_def BN_rshift_def)
  note l = BN_lshift [OF e(1) assms(1) L(1,2)] and r = BN_rshift [OF e(2) assms(1) L(1-3)]
  have "ok2 \<Longrightarrow> bn_val S2 r = sgn (bn_val S a) * (\<bar>bn_val S a\<bar> div 2 ^ nat n)"
    using r(2) signed_abs [of S a "2 ^ nat n"] by simp
  then show ?thesis using e neg l r by auto
qed

theorem shifts_exact_witness:
  "(\<exists>S'. BN_lshift generous 4 3 70 demo_store = (True, S') \<and> bn_val S' 4 = - 7 * 2 ^ 70) \<and>
   (\<exists>S'. BN_rshift generous 4 3 1 demo_store = (True, S') \<and> bn_val S' 4 = - 3)"
proof -
  have g: "growable generous demo_store 4 (bn_width (st_bn demo_store 3) + nat 70 div 64 + 1)"
    "growable generous demo_store 4 (bn_width (st_bn demo_store 3))"
    using demo_bn_facts(9) by (simp_all add: growable_def demo_bn_facts(12))
  from shifts_exact [OF demo_bn_facts(1), of 4 3 70 generous] have "\<exists>S'. BN_lshift generous 4 3 70 demo_store = (True, S') \<and> bn_val S' 4 = - 7 * 2 ^ 70"
    using g(1) demo_bn_facts(4) by auto
  moreover from shifts_exact [OF demo_bn_facts(1), of 4 3 1 generous] have "\<exists>S'. BN_rshift generous 4 3 1 demo_store = (True, S') \<and> bn_val S' 4 = - 3"
    using g(2) demo_bn_facts(4) by auto
  ultimately show ?thesis by blast
qed

text \<open>C35: the shift by a secret count. With \<open>B\<close> the number of bits of the number of bits in the operand's words, which is public, and a
  count below \<open>2 ^ B\<close>, which every count up to the width of the operand is, it truncates as the shift by a public count does, and it
  gives the number that \<open>BN_rshift\<close> gives. It gives back its temporary, and returns also when an allocation fails.\<close>

theorem secret_shift_agrees:
  assumes "ctx_ok L ctx S" "{r, a} \<subseteq> mine L ctx" "unat n < 2 ^ B"
    "64 * bn_width (st_bn S a) < 2 ^ B" "B = 0 \<or> 2 ^ (B - 1) \<le> 64 * bn_width (st_bn S a)"
  shows "\<exists>ok ctx' S'. bn_rshift_secret_shift A r a n ctx S = Some (ok, ctx', S') \<and> ctx_ok L ctx' S' \<and>
    kept (mine L ctx - {r}) S S' \<and> (cx_error ctx' \<or> cx_used ctx' = cx_used ctx \<and> frames ctx' = frames ctx) \<and>
    (ok \<longrightarrow> bn_val S' r = sgn (bn_val S a) * (\<bar>bn_val S a\<bar> div 2 ^ unat n)) \<and>
    (ok \<longrightarrow> (\<forall>S2. BN_rshift A r a (uint n) S = (True, S2) \<longrightarrow> bn_val S' r = bn_val S2 r)) \<and>
    (roomy A ctx S r (bn_width (st_bn S a)) \<longrightarrow> ok \<and> \<not> cx_error ctx')"
proof -
  have mem: "r \<in> mine L ctx" "a \<in> mine L ctx" using assms(2) by simp_all
  have m: "unat n mod 2 ^ B = unat n" using assms(3) by simp
  obtain ok ctx' S' where s: "bn_rshift_secret_shift A r a n ctx S = Some (ok, ctx', S')" "call_done L {r} ctx S ctx' S'"
    "ok \<longrightarrow> bn_abs S' r = bn_abs S a div 2 ^ unat n \<and> bn_neg (st_bn S' r) = bn_neg (st_bn S a)"
    "roomy A ctx S r (bn_width (st_bn S a)) \<longrightarrow> ok \<and> \<not> cx_error ctx'"
    using bn_rshift_secret_shift [OF assms(1) mem assms(4,5), of A n] unfolding m by blast
  have live: "store_ok (live L ctx) S" "r \<in> live L ctx" "a \<in> live L ctx" using assms(1) mem mine_live [of L ctx] by (auto simp: ctx_ok_def)
  have v: "bn_val S' r = sgn (bn_val S a) * (\<bar>bn_val S a\<bar> div 2 ^ unat n)" if ok
    using s(3) that signed_abs [of S a "2 ^ unat n"] bn_val_abs [of S' r] by simp
  have "bn_val S' r = bn_val S2 r" if "ok" "BN_rshift A r a (uint n) S = (True, S2)" for S2
  proof -
    have "bn_val S2 r = (if bn_neg (st_bn S a) then - 1 else 1) * int (bn_abs S a div 2 ^ nat (uint n))"
      using BN_rshift(2) [OF that(2) live] uint_bounded [of n] by simp
    then show ?thesis using v [OF that(1)] signed_abs [of S a "2 ^ unat n"] by (simp flip: unat_eq_nat_uint)
  qed
  then show ?thesis using s v unfolding call_done_def by blast
qed

theorem secret_shift_agrees_witness:
  "\<exists>ctx' S'. bn_rshift_secret_shift generous 4 3 2 demo_bn_ctx demo_store = Some (True, ctx', S') \<and> bn_val S' 4 = - 1"
proof -
  have "{4, 3} \<subseteq> mine {2, 3, 4} demo_bn_ctx" by (simp add: mine_def)
  note p = secret_shift_agrees [OF demo_bn_facts(2) this, of 2 7, unfolded demo_bn_facts(4,12)]
  have "roomy generous demo_bn_ctx demo_store 4 1" using demo_bn_facts(10) by (simp add: roomy_def growable_def)
  then show ?thesis using p [where A = generous] by auto
qed

section \<open>Bits\<close>



end
