(* ===== verification/Bn_Bytes.thy ===== *)
theory Bn_Bytes
  imports Bn_Product Cbs
begin

unbundle bit_operations_syntax

text \<open>
  Big numbers as byte strings, \<open>crypto/fipsmodule/bn/bytes.c\<close>. Byte strings are lists; a function that writes to a buffer takes its
  contents and returns the new contents. The result \<open>None\<close> of the outer option is an abort: a failed \<open>BSSL_CHECK\<close> or
  assertion. Casts of words to bytes read the memory in little-endian order, on which the code relies.
\<close>

definition byte_at :: "words \<Rightarrow> nat \<Rightarrow> nat \<Rightarrow> u8" where
  "byte_at m p i = ucast (drop_bit (8 * (i mod 8)) (m (p + i div 8)))"

definition set_byte :: "words \<Rightarrow> nat \<Rightarrow> nat \<Rightarrow> u8 \<Rightarrow> words" where
  "set_byte m p i b =
     m(p + i div 8 := (m (p + i div 8) AND NOT (push_bit (8 * (i mod 8)) 0xff)) OR push_bit (8 * (i mod 8)) (ucast b))"

text \<open>\<open>memcpy\<close> from a byte string into words, and from words into a byte string.\<close>

fun put_bytes :: "words \<Rightarrow> nat \<Rightarrow> nat \<Rightarrow> u8 list \<Rightarrow> words" where
  "put_bytes m p i [] = m"
| "put_bytes m p i (b # bs) = put_bytes (set_byte m p i b) p (i + 1) bs"

definition get_bytes :: "words \<Rightarrow> nat \<Rightarrow> nat \<Rightarrow> u8 list" where
  "get_bytes m p n = map (byte_at m p) [0..<n]"

section \<open>Byte strings to numbers\<close>

text \<open>Loading whole words from the end of the input.\<close>

function (sequential) load_words_loop :: "words \<Rightarrow> nat \<Rightarrow> nat \<Rightarrow> u8 list \<Rightarrow> nat \<Rightarrow> words \<times> nat \<times> nat \<times> nat" where
  "load_words_loop m out out_len inp in_len =
     (if in_len \<ge> 8 then
        (let in_len = in_len - 8;
             m = m(out := CRYPTO_load_u64_be (drop in_len inp))
         in load_words_loop m (out + 1) (out_len - 1) inp in_len)
      else (m, out, out_len, in_len))"
  by pat_completeness auto
termination by (relation "measure (\<lambda>(_, _, _, _, in_len). in_len)") auto

declare load_words_loop.simps [simp del]

definition bn_big_endian_to_words :: "words \<Rightarrow> nat \<Rightarrow> nat \<Rightarrow> u8 list \<Rightarrow> words option" where
  "bn_big_endian_to_words m out out_len inp =
     (if \<not> length inp \<le> size_mul out_len 8 then None
      else
        (let (m, out, out_len, in_len) = load_words_loop m out out_len inp (length inp);
             (m, out, out_len) =
               (if in_len \<noteq> 0 then
                  (let word = foldl (\<lambda>word b. push_bit 8 word OR ucast b) 0 (take in_len inp)
                   in (m(out := word), out + 1, out_len - 1))
                else (m, out, out_len))
         in Some (words_zero m out out_len)))"

definition BN_bin2bn :: "allocator \<Rightarrow> u8 list \<Rightarrow> nat option \<Rightarrow> bn_store \<Rightarrow> (nat option \<times> bn_store) option" where
  "BN_bin2bn A inp ret S =
     (let (bn, ret, S) = (case ret of None \<Rightarrow> (let (bn, S) = BN_new A S in (bn, bn, S)) | Some r \<Rightarrow> (None, Some r, S))
      in case ret of
           None \<Rightarrow> Some (None, S)
         | Some r \<Rightarrow>
             if inp = [] then Some (Some r, set_width r 0 S)
             else
               (let num_words = (length inp - 1) div 8 + 1;
                    (ok, S) = bn_wexpand A r num_words S
                in if \<not> ok then Some (None, BN_free bn S)
                   else if \<not> num_words \<le> INT_MAX then None
                   else
                     (let S = set_neg r False (set_width r num_words S)
                      in case bn_big_endian_to_words (st_words S) (bn_d (st_bn S r)) (bn_width (st_bn S r)) inp of
                           None \<Rightarrow> None
                         | Some m \<Rightarrow> Some (Some r, S\<lparr>st_words := m\<rparr>))))"

definition BN_lebin2bn :: "allocator \<Rightarrow> u8 list \<Rightarrow> nat option \<Rightarrow> bn_store \<Rightarrow> nat option \<times> bn_store" where
  "BN_lebin2bn A inp ret S =
     (let (bn, ret, S) = (case ret of None \<Rightarrow> (let (bn, S) = BN_new A S in (bn, bn, S)) | Some r \<Rightarrow> (None, Some r, S))
      in case ret of
           None \<Rightarrow> (None, S)
         | Some r \<Rightarrow>
             if inp = [] then (Some r, set_neg r False (set_width r 0 S))
             else
               (let num_words = (length inp - 1) div 8 + 1;
                    (ok, S) = bn_wexpand A r num_words S
                in if \<not> ok then (None, BN_free bn S)
                   else
                     (let S = set_width r num_words S;
                          S = set_limb r (num_words - 1) 0 S
                      in (Some r, S\<lparr>st_words := put_bytes (st_words S) (bn_d (st_bn S r)) 0 inp\<rparr>))))"

definition BN_le2bn :: "allocator \<Rightarrow> u8 list \<Rightarrow> nat option \<Rightarrow> bn_store \<Rightarrow> nat option \<times> bn_store" where
  "BN_le2bn A inp ret S = BN_lebin2bn A inp ret S"

section \<open>Numbers to byte strings\<close>

fun bytes_or :: "words \<Rightarrow> nat \<Rightarrow> nat \<Rightarrow> nat \<Rightarrow> u8 \<Rightarrow> u8" where
  "bytes_or m p i 0 msk = msk"
| "bytes_or m p i (Suc n) msk = bytes_or m p (i + 1) n (msk OR byte_at m p i)"

definition fits_in_bytes :: "words \<Rightarrow> nat \<Rightarrow> nat \<Rightarrow> nat \<Rightarrow> bool" where
  "fits_in_bytes m wds num_words num_bytes =
     (let tot_bytes = size_mul num_words 8
      in bytes_or m wds num_bytes (tot_bytes - num_bytes) 0 = 0)"

text \<open>Whether no assertion of \<open>bn_assert_fits_in_bytes\<close> fails.\<close>

definition bn_assert_fits_in_bytes :: "bn_store \<Rightarrow> nat \<Rightarrow> nat \<Rightarrow> bool" where
  "bn_assert_fits_in_bytes S bn num =
     (let tot_bytes = size_mul (bn_width (st_bn S bn)) 8
      in if tot_bytes > num then list_all (\<lambda>i. byte_at (st_words S) (bn_d (st_bn S bn)) i = 0) [num..<tot_bytes] else True)"

fun reverse_loop :: "u8 list \<Rightarrow> words \<Rightarrow> nat \<Rightarrow> nat \<Rightarrow> nat \<Rightarrow> u8 list" where
  "reverse_loop out m p i 0 = out"
| "reverse_loop out m p i (Suc n) = reverse_loop (out[length out - i - 1 := byte_at m p i]) m p (i + 1) n"

definition bn_words_to_big_endian :: "u8 list \<Rightarrow> words \<Rightarrow> nat \<Rightarrow> nat \<Rightarrow> u8 list option" where
  "bn_words_to_big_endian out m inp in_len =
     (let out_len = length out
      in if \<not> fits_in_bytes m inp in_len out_len then None
         else
           (let num_bytes = size_mul in_len 8;
                num_bytes = (if out_len < num_bytes then out_len else num_bytes);
                out = reverse_loop out m inp 0 num_bytes
            in Some (write_at 0 (replicate (out_len - num_bytes) 0) out)))"

text \<open>The buffer of \<open>BN_bn2bin\<close> has room for all bytes of the number.\<close>

definition BN_bn2bin :: "bn_store \<Rightarrow> nat \<Rightarrow> u8 list \<Rightarrow> (nat \<times> u8 list) option" where
  "BN_bn2bin S i out =
     (let n = BN_num_bytes S i
      in case bn_words_to_big_endian (take n out) (st_words S) (bn_d (st_bn S i)) (bn_width (st_bn S i)) of
           None \<Rightarrow> None
         | Some bs \<Rightarrow> Some (n, write_at 0 bs out))"

definition BN_bn2le_padded :: "bn_store \<Rightarrow> nat \<Rightarrow> u8 list \<Rightarrow> bool \<times> u8 list" where
  "BN_bn2le_padded S i out =
     (let len = length out; d = bn_d (st_bn S i); w = bn_width (st_bn S i)
      in if \<not> fits_in_bytes (st_words S) d w len then (False, out)
         else
           (let num_bytes = w * 8;
                num_bytes = (if len < num_bytes then len else num_bytes);
                out = write_at 0 (get_bytes (st_words S) d num_bytes) out;
                out = write_at num_bytes (replicate (len - num_bytes) 0) out
            in (True, out)))"

definition BN_bn2bin_padded :: "bn_store \<Rightarrow> nat \<Rightarrow> u8 list \<Rightarrow> (bool \<times> u8 list) option" where
  "BN_bn2bin_padded S i out =
     (if \<not> fits_in_bytes (st_words S) (bn_d (st_bn S i)) (bn_width (st_bn S i)) (length out) then Some (False, out)
      else
        (case bn_words_to_big_endian out (st_words S) (bn_d (st_bn S i)) (bn_width (st_bn S i)) of
           None \<Rightarrow> None
         | Some out \<Rightarrow> Some (True, out)))"

definition BN_get_word :: "bn_store \<Rightarrow> nat \<Rightarrow> u64" where
  "BN_get_word S bn =
     (let w = bn_minimal_width S bn in if w = 0 then 0 else if w = 1 then limb S bn 0 else - 1)"

definition BN_get_u64 :: "bn_store \<Rightarrow> nat \<Rightarrow> u64 option" where
  "BN_get_u64 S bn =
     (let w = bn_minimal_width S bn in if w = 0 then Some 0 else if w = 1 then Some (limb S bn 0) else None)"

end
