(* ===== verification/Bn_Bytes_Correct.thy ===== *)
theory Bn_Bytes_Correct
  imports Bn_Bytes Bn_Shift_Correct Der_Values
begin

unbundle bit_operations_syntax

text \<open>
  The byte strings of \<open>bytes.c\<close> are the digits of the absolute value to the base 256, in either order.
\<close>

section \<open>Bytes of words\<close>

lemma bit_byte_at: "bit (byte_at m p i) j \<longleftrightarrow> j < 8 \<and> bit (m (p + i div 8)) (8 * (i mod 8) + j)"
  by (auto simp: byte_at_def bit_ucast_iff bit_drop_bit_eq)

lemma byte_index:
  assumes "j < 8"
  shows "(8 * i + j) div 64 = i div (8 :: nat)" "(8 * i + j) mod 64 = 8 * (i mod 8) + j"
proof -
  have split: "x = 64 * q + r \<Longrightarrow> r < 64 \<Longrightarrow> x div 64 = q \<and> x mod 64 = r" for x q r :: nat by simp
  have "8 * i + j = 64 * (i div 8) + (8 * (i mod 8) + j)" using div_mult_mod_eq [of i 8] by linarith
  moreover have "8 * (i mod 8) + j < 64" using assms mod_less_divisor [of 8 i] by simp
  ultimately show "(8 * i + j) div 64 = i div 8" "(8 * i + j) mod 64 = 8 * (i mod 8) + j" using split by blast+
qed

lemma byte_digit:
  assumes "i < 8 * n"
  shows "unat (byte_at m p i) = num_at m p n div 256 ^ i mod 256"
proof -
  have "bit (unat (byte_at m p i)) j \<longleftrightarrow> bit (take_bit 8 (drop_bit (8 * i) (num_at m p n))) j" for j
  proof (cases "j < 8")
    case True
    have "i div 8 < n" using assms by (simp add: div_less_iff_less_mult mult.commute)
    then show ?thesis using True by (simp add: bit_unsigned_iff bit_byte_at bit_take_bit_iff bit_drop_bit_eq bit_num_at byte_index)
  next
    case False
    then show ?thesis by (simp add: bit_unsigned_iff bit_byte_at bit_take_bit_iff)
  qed
  then have "unat (byte_at m p i) = take_bit 8 (drop_bit (8 * i) (num_at m p n))" by (rule bit_eqI)
  then show ?thesis by (simp add: take_bit_eq_mod drop_bit_eq_div power_mult)
qed

text \<open>The low \<open>k\<close> bytes of a number in memory.\<close>

lemma get_bytes_Suc: "get_bytes m p (Suc k) = get_bytes m p k @ [byte_at m p k]"
  by (simp add: get_bytes_def)

lemma length_get_bytes [simp]: "length (get_bytes m p k) = k"
  by (simp add: get_bytes_def)

lemma div_mod_digit: "x mod (b * c) = c' * b + x mod b" if "x div b mod c = c'" for x b c c' :: nat
  using mod_mult2_eq [of x b c] that by (simp add: mult.commute)

lemma get_bytes_num:
  assumes "k \<le> 8 * n"
  shows "be_nat (rev (get_bytes m p k)) = num_at m p n mod 256 ^ k"
  using assms
proof (induction k)
  case (Suc k)
  have "num_at m p n mod 256 ^ Suc k = unat (byte_at m p k) * 256 ^ k + num_at m p n mod 256 ^ k"
    using div_mod_digit [of "num_at m p n" "256 ^ k" 256] byte_digit [of k n m p] Suc(2) by (simp add: mult.commute)
  then show ?case using Suc by (simp add: get_bytes_Suc be_nat_Cons)
qed (simp add: get_bytes_def)

lemma get_bytes_be:
  assumes "k \<le> 8 * n"
  shows "rev (get_bytes m p k) = be_bytes k (num_at m p n)"
  using assms get_bytes_num [OF assms, of m p] be_nat_be_bytes [of k "num_at m p n"] by (intro be_nat_inject) simp_all

lemma num_at_256: "num_at m p n < 256 ^ (8 * n)"
  using num_at_bound [of m p n] by (simp add: power_mult)

section \<open>Writing bytes\<close>

lemma byte_set_byte: "byte_at (set_byte m p i b) p k = (if k = i then b else byte_at m p k)"
proof (rule bit_word_eqI)
  fix j
  assume "j < LENGTH(8)"
  then have j: "j < 8" by simp
  have "(8 :: nat) * (k mod 8) + j < 64" using j mod_less_divisor [of 8 k] by simp
  note bd = this
  show "bit (byte_at (set_byte m p i b) p k) j = bit (if k = i then b else byte_at m p k) j"
  proof (cases "k div 8 = i div 8")
    case True
    have eq: "k = i \<longleftrightarrow> k mod 8 = i mod 8" using True by (metis div_mult_mod_eq)
    have ff: "bit (0xff :: u64) l \<longleftrightarrow> l < 8" for l
    proof -
      have "(0xff :: u64) = mask 8" by (simp add: mask_eq_exp_minus_1)
      then show ?thesis by (simp only: bit_mask_iff) auto
    qed
    consider "k mod 8 = i mod 8" | "k mod 8 < i mod 8" | "i mod 8 < k mod 8" by linarith
    then show ?thesis
    proof cases
      case 1
      then show ?thesis using True eq j bd ff [of j]
        by (simp add: set_byte_def bit_byte_at bit_or_iff bit_and_iff bit_not_iff bit_push_bit_iff bit_ucast_iff)
    next
      case 2
      then have "8 * (k mod 8) + j < 8 * (i mod 8)" using j by linarith
      then show ?thesis using True eq j bd 2 by (simp add: set_byte_def bit_byte_at bit_or_iff bit_and_iff bit_not_iff bit_push_bit_iff ff bit_ucast_iff)
    next
      case 3
      then obtain d where d: "k mod 8 = i mod 8 + Suc d" using less_imp_Suc_add by fastforce
      have "\<not> bit b (8 + (8 * d + j))" using bit_imp_le_length [of b] by fastforce
      then show ?thesis using True eq j bd 3 ff [of "8 + (8 * d + j)"] unfolding d
        by (simp add: set_byte_def bit_byte_at bit_or_iff bit_and_iff bit_not_iff bit_push_bit_iff bit_ucast_iff d add.assoc)
    qed
  next
    case False
    then show ?thesis by (auto simp: set_byte_def byte_at_def)
  qed
qed

lemma byte_put_bytes: "byte_at (put_bytes m p i bs) p k = (if i \<le> k \<and> k < i + length bs then bs ! (k - i) else byte_at m p k)"
proof (induction bs arbitrary: m i)
  case (Cons b bs)
  show ?case using Cons [of "set_byte m p i b" "i + 1"] by (auto simp: byte_set_byte nth_Cons')
qed auto

lemma same_but_put_bytes: "i + length bs \<le> 8 * n \<Longrightarrow> same_but p n m (put_bytes m p i bs)"
proof (induction bs arbitrary: m i)
  case (Cons b bs)
  have "i div 8 < n" using Cons(2) by (simp add: div_less_iff_less_mult mult.commute)
  then have "same_but p n m (set_byte m p i b)" by (auto simp: same_but_def set_byte_def)
  moreover have "same_but p n (set_byte m p i b) (put_bytes (set_byte m p i b) p (i + 1) bs)" using Cons by simp
  ultimately show ?case by (auto simp: same_but_def)
qed (simp add: same_but_def)

section \<open>Byte strings to numbers\<close>

lemma load_words_loop:
  assumes "load_words_loop m out out_len inp in_len = (m', out', out_len', in_len')" "in_len \<le> 8 * out_len" "in_len \<le> length inp"
  shows "in_len' = in_len mod 8 \<and> out' = out + in_len div 8 \<and> out_len' = out_len - in_len div 8 \<and>
    num_at m' out (in_len div 8) = be_nat (take (in_len - in_len mod 8) (drop (in_len mod 8) inp)) \<and> same_but out (in_len div 8) m m'"
  using assms
proof (induction m out out_len inp in_len rule: load_words_loop.induct)
  case (1 m out out_len inp in_len)
  show ?case
  proof (cases "8 \<le> in_len")
    case False
    then show ?thesis using 1(2) by (auto simp: load_words_loop.simps [of m] same_but_def)
  next
    case True
    define k where "k = in_len - 8"
    have in_len: "in_len = k + 8" using True by (simp add: k_def)
    let ?w = "CRYPTO_load_u64_be (drop k inp)"
    have e: "load_words_loop (m(out := ?w)) (out + 1) (out_len - 1) inp k = (m', out', out_len', in_len')"
      using 1(2) True by (simp add: load_words_loop.simps [of m] Let_def in_len)
    have h: "k \<le> 8 * (out_len - 1)" "k \<le> length inp" using 1(3,4) in_len by simp_all
    have IH: "in_len' = k mod 8 \<and> out' = out + 1 + k div 8 \<and> out_len' = out_len - 1 - k div 8 \<and>
        num_at m' (out + 1) (k div 8) = be_nat (take (k - k mod 8) (drop (k mod 8) inp)) \<and> same_but (out + 1) (k div 8) (m(out := ?w)) m'"
      by (rule 1(1) [OF True k_def refl e h])
    have w: "unat ?w = be_nat (take 8 (drop k inp))"
      using 1(4) in_len unat_load_u64_be [of "take 8 (drop k inp)"] by (simp add: CRYPTO_load_u64_be_def)
    have "num_at m' out (Suc (k div 8)) = be_nat (take 8 (drop k inp)) + 2 ^ 64 * be_nat (take (k - k mod 8) (drop (k mod 8) inp))"
      using IH w by (simp add: num_at_Cons) (simp add: same_but_def)
    also have "\<dots> = be_nat (take (k - k mod 8) (drop (k mod 8) inp) @ take 8 (drop k inp))"
      using 1(4) in_len by (simp add: be_nat_append)
    also have "take (k - k mod 8) (drop (k mod 8) inp) @ take 8 (drop k inp) = take (k + 8 - k mod 8) (drop (k mod 8) inp)"
      using take_add [of "k - k mod 8" 8 "drop (k mod 8) inp"] by simp
    finally have n: "num_at m' out (Suc (k div 8)) = be_nat (take (k + 8 - k mod 8) (drop (k mod 8) inp))" .
    have b: "same_but out (Suc (k div 8)) m m'" by (rule same_but_first) (use IH in blast)
    have d: "in_len mod 8 = k mod 8" "in_len div 8 = Suc (k div 8)" by (simp_all add: in_len)
    show ?thesis unfolding d using IH n b in_len by simp
  qed
qed

lemma partial_word:
  assumes "length bs < 8"
  shows "unat (foldl (\<lambda>word b. push_bit 8 word OR ucast b) (0 :: u64) bs) = be_nat bs"
  using assms
proof (induction bs rule: rev_induct)
  case (snoc b bs)
  let ?w = "foldl (\<lambda>word b. push_bit 8 word OR ucast b) (0 :: u64) bs"
  have w: "unat ?w < 256 ^ length bs" using snoc be_nat_bound [of bs] by simp
  have "(256 :: nat) ^ length bs \<le> 256 ^ 6" using snoc(2) by (intro power_increasing) simp_all
  with w have "unat ?w * 2 ^ 8 < 2 ^ 64" by simp
  then have "unat (push_bit 8 ?w) = unat ?w * 2 ^ 8" by (subst unat_push_bit_u64) (simp only: mod_less)
  moreover have "unat (ucast b :: u64) = unat b" by (simp add: unat_ucast_up)
  moreover have "unat (push_bit 8 ?w OR ucast b) = unat (push_bit 8 ?w) + unat (ucast b :: u64)"
    using unat_u8_less [of b] calculation(2) by (intro unat_or_low [of 8]) (simp_all add: take_push)
  ultimately show ?case using snoc by (simp add: be_nat_snoc)
qed simp

lemma bn_big_endian_to_words:
  assumes "length inp \<le> 8 * out_len" "out_len * 8 < size_mod"
  shows "\<exists>m'. bn_big_endian_to_words m out out_len inp = Some m' \<and> num_at m' out out_len = be_nat inp \<and> same_but out out_len m m'"
proof -
  let ?k = "length inp div 8" and ?r = "length inp mod 8"
  obtain m1 out1 len1 in1 where l: "load_words_loop m out out_len inp (length inp) = (m1, out1, len1, in1)" by (metis prod.collapse)
  note lw = load_words_loop [OF l assms(1) order_refl]
  define w where "w = foldl (\<lambda>word b. push_bit 8 word OR ucast b) (0 :: u64) (take ?r inp)"
  define j where "j = (if ?r = 0 then ?k else ?k + 1)"
  define m2 where "m2 = (if ?r = 0 then m1 else m1(out + ?k := w))"
  have "8 * ?k + ?r = length inp" by simp
  then have "?r = 0 \<Longrightarrow> ?k \<le> out_len" "?r \<noteq> 0 \<Longrightarrow> ?k + 1 \<le> out_len" using assms(1) by linarith+
  then have j: "j \<le> out_len" by (simp add: j_def)
  have e: "bn_big_endian_to_words m out out_len inp = Some (words_zero m2 (out + j) (out_len - j))"
    using assms lw by (simp add: bn_big_endian_to_words_def l size_mul_exact mult.commute j_def m2_def w_def)
  have w: "unat w = be_nat (take ?r inp)" unfolding w_def by (rule partial_word) simp
  have "be_nat inp = be_nat (take ?r inp @ drop ?r inp)" by simp
  also have "\<dots> = be_nat (take ?r inp) * 256 ^ (8 * ?k) + be_nat (drop ?r inp)"
    unfolding be_nat_append by (simp add: minus_mod_eq_mult_div)
  also have "\<dots> = num_at m2 out j"
  proof (cases "?r = 0")
    case False
    then have "num_at m2 out j = num_at m1 out ?k + unat w * 2 ^ (64 * ?k)"
      using num_at_cong [of ?k m2 out m1 out] by (simp add: j_def m2_def num_at_snoc)
    then show ?thesis using lw w by (simp add: power_mult)
  qed (use lw in \<open>simp add: j_def m2_def\<close>)
  finally have n: "be_nat inp = num_at m2 out j" .
  have "num_at (words_zero m2 (out + j) (out_len - j)) out (j + (out_len - j)) = num_at m2 out j"
    unfolding num_at_append num_at_words_zero using num_at_cong [of j "words_zero m2 (out + j) (out_len - j)" out m2 out]
    by (simp add: words_zero_def)
  then have "num_at (words_zero m2 (out + j) (out_len - j)) out out_len = be_nat inp" using j n by simp
  moreover have "same_but out out_len m (words_zero m2 (out + j) (out_len - j))"
    using lw j by (auto simp: same_but_def words_zero_def m2_def j_def split: if_splits)
  ultimately show ?thesis using e by blast
qed

lemma words_for_bytes: "inp \<noteq> [] \<Longrightarrow> Suc ((length inp - Suc 0) div 8) = (length inp + 7) div 8"
  by (cases inp) simp_all

lemma BN_bin2bn:
  assumes "store_ok K S" "r \<in> K"
  shows "\<exists>ok S'. BN_bin2bn A inp (Some r) S = Some (if ok then Some r else None, S') \<and> alters K {r} S S' \<and>
    (ok \<longrightarrow> bn_abs S' r = be_nat inp \<and> bn_neg (st_bn S' r) = (inp = [] \<and> bn_neg (st_bn S r)) \<and>
      bn_width (st_bn S' r) = (length inp + 7) div 8) \<and> (\<not> ok \<longrightarrow> S' = S) \<and>
    (growable A S r ((length inp + 7) div 8) \<longrightarrow> ok)"
proof (cases "inp = []")
  case True
  have "alters K {r} S (set_width r 0 S)" by (rule alters_set_width [OF assms(1)]) simp
  moreover have "bn_abs (set_width r 0 S) r = 0" by (simp add: bn_abs_def set_width_def)
  ultimately show ?thesis using True
    by (intro exI [of _ True] exI [of _ "set_width r 0 S"]) (simp add: BN_bin2bn_def, simp add: set_width_def)
next
  case False
  let ?n = "(length inp + 7) div 8"
  obtain g S1 where g: "bn_wexpand A r ?n S = (g, S1)" by fastforce
  note w = alters_wexpand [OF g assms]
  show ?thesis
  proof (cases g)
    case False
    then show ?thesis using w(3) g \<open>inp \<noteq> []\<close> wexpand_fail [of A r ?n S S1] alters_refl [OF assms(1)]
      by (intro exI [of _ False] exI [of _ S]) (auto simp: BN_bin2bn_def words_for_bytes BN_free_def)
  next
    case True
    note ok1 = alters_ok [OF w(1)]
    let ?S2 = "set_neg r False (set_width r ?n S1)"
    have wd: "?n \<le> bn_dmax (st_bn S1 r)" by (rule w(2) [OF True])
    then have big: "?n \<le> BN_MAX_WORDS" using ok1 assms(2) by (auto simp: store_ok_def bn_ok_def)
    then have int: "?n \<le> INT_MAX" "?n * 8 < size_mod" by (simp_all add: BN_MAX_WORDS_def INT_MAX_def size_mod_def)
    have 2: "alters K {r} S1 ?S2"
      by (rule alters_trans [OF alters_set_width [OF ok1 wd]]) (rule alters_set_neg [OF alters_ok [OF alters_set_width [OF ok1 wd]] assms(2)])
    have f: "bn_d (st_bn ?S2 r) = bn_d (st_bn S1 r)" "bn_width (st_bn ?S2 r) = ?n" "bn_dmax (st_bn ?S2 r) = bn_dmax (st_bn S1 r)"
      "st_words ?S2 = st_words S1" "bn_neg (st_bn ?S2 r) = False" by (simp_all add: set_width_def)
    have "length inp \<le> 8 * ?n" using div_mult_mod_eq [of "length inp + 7" 8] mod_less_divisor [of 8 "length inp + 7"] by linarith
    from bn_big_endian_to_words [OF this int(2), of "st_words S1" "bn_d (st_bn S1 r)"] obtain m where
      m: "bn_big_endian_to_words (st_words S1) (bn_d (st_bn S1 r)) ?n inp = Some m" "num_at m (bn_d (st_bn S1 r)) ?n = be_nat inp"
        "same_but (bn_d (st_bn S1 r)) ?n (st_words S1) m" by blast
    have 3: "alters K {r} ?S2 (?S2\<lparr>st_words := m\<rparr>)"
      by (rule alters_words [OF alters_ok [OF 2] assms(2), of ?n]) (use m(3) wd f in simp_all)
    have "BN_bin2bn A inp (Some r) S = Some (Some r, ?S2\<lparr>st_words := m\<rparr>)"
      using g True int(1) \<open>inp \<noteq> []\<close> m(1) f by (simp add: BN_bin2bn_def words_for_bytes Let_def)
    moreover have "bn_abs (?S2\<lparr>st_words := m\<rparr>) r = be_nat inp" using m(2) f by (simp add: bn_abs_def)
    moreover have "alters K {r} S (?S2\<lparr>st_words := m\<rparr>)" by (rule alters_trans [OF w(1) alters_trans [OF 2 3]])
    ultimately show ?thesis using f \<open>inp \<noteq> []\<close> by (intro exI [of _ True] exI [of _ "?S2\<lparr>st_words := m\<rparr>"]) simp
  qed
qed

lemma BN_bin2bn_new:
  "BN_bin2bn A inp None S =
     (case BN_new A S of
        (None, S) \<Rightarrow> Some (None, S)
      | (Some t, S) \<Rightarrow>
          (case BN_bin2bn A inp (Some t) S of
             Some (None, S) \<Rightarrow> Some (None, BN_free (Some t) S)
           | res \<Rightarrow> res))"
  by (auto simp: BN_bin2bn_def Let_def BN_free_def split: option.splits prod.splits)

lemma BN_lebin2bn:
  assumes "store_ok K S" "r \<in> K"
  shows "\<exists>ok S'. BN_lebin2bn A inp (Some r) S = (if ok then Some r else None, S') \<and> alters K {r} S S' \<and>
    (ok \<longrightarrow> bn_abs S' r = be_nat (rev inp) \<and> bn_neg (st_bn S' r) = (inp \<noteq> [] \<and> bn_neg (st_bn S r)) \<and>
      bn_width (st_bn S' r) = (length inp + 7) div 8) \<and> (\<not> ok \<longrightarrow> S' = S) \<and>
    (growable A S r ((length inp + 7) div 8) \<longrightarrow> ok)"
proof (cases "inp = []")
  case True
  let ?S' = "set_neg r False (set_width r 0 S)"
  have 1: "alters K {r} S (set_width r 0 S)" by (rule alters_set_width [OF assms(1)]) simp
  have "alters K {r} S ?S'" by (rule alters_trans [OF 1 alters_set_neg [OF alters_ok [OF 1] assms(2)]])
  moreover have "bn_abs ?S' r = 0" by (simp add: bn_abs_def set_width_def)
  ultimately show ?thesis using True
    by (intro exI [of _ True] exI [of _ ?S']) (simp add: BN_lebin2bn_def)
next
  case False
  let ?n = "(length inp + 7) div 8"
  obtain g S1 where g: "bn_wexpand A r ?n S = (g, S1)" by fastforce
  note w = alters_wexpand [OF g assms]
  show ?thesis
  proof (cases g)
    case False
    then show ?thesis using w(3) g \<open>inp \<noteq> []\<close> wexpand_fail [of A r ?n S S1] alters_refl [OF assms(1)]
      by (intro exI [of _ False] exI [of _ S]) (auto simp: BN_lebin2bn_def words_for_bytes BN_free_def)
  next
    case True
    note ok1 = alters_ok [OF w(1)]
    define d where "d = bn_d (st_bn S1 r)"
    define m1 where "m1 = (st_words S1)(d + (?n - 1) := 0)"
    define m where "m = put_bytes m1 d 0 inp"
    let ?S2 = "set_width r ?n S1"
    have wd: "?n \<le> bn_dmax (st_bn S1 r)" by (rule w(2) [OF True])
    have n: "0 < ?n" "length inp \<le> 8 * ?n" "8 * (?n - 1) < length inp"
      using False words_for_bytes [OF False] div_mult_mod_eq [of "length inp + 7" 8] mod_less_divisor [of 8 "length inp + 7"]
      by (cases inp; simp)+
    have sb: "same_but d ?n (st_words S1) m"
      using same_but_put_bytes [of 0 inp ?n d m1] n by (auto simp: m_def m1_def same_but_def)
    have byte: "byte_at m d k = (if k < length inp then inp ! k else 0)" if "k < 8 * ?n" for k
    proof -
      have "byte_at m1 d k = 0" if "\<not> k < length inp"
      proof -
        have "8 * (?n - 1) \<le> k" "k < 8 * (?n - 1 + 1)" using that n \<open>k < 8 * ?n\<close> by auto
        then have "k div 8 = ?n - 1" by (intro div_nat_eqI) (simp_all add: mult.commute)
        then show ?thesis by (simp add: byte_at_def m1_def)
      qed
      then show ?thesis by (auto simp: m_def byte_put_bytes)
    qed
    have gb: "get_bytes m d (8 * ?n) = inp @ replicate (8 * ?n - length inp) 0"
      by (rule nth_equalityI) (use n byte in \<open>auto simp: get_bytes_def nth_append\<close>)
    have "num_at m d ?n = be_nat (rev (get_bytes m d (8 * ?n)))"
      using get_bytes_num [of "8 * ?n" ?n m d] num_at_256 [of m d ?n] by simp
    also have "\<dots> = be_nat (rev inp)" by (simp add: gb be_nat_append be_nat_replicate_0)
    finally have num: "num_at m d ?n = be_nat (rev inp)" .
    have 2: "alters K {r} S1 ?S2" by (rule alters_set_width [OF ok1 wd])
    have f: "bn_d (st_bn ?S2 r) = d" "bn_width (st_bn ?S2 r) = ?n" "bn_dmax (st_bn ?S2 r) = bn_dmax (st_bn S1 r)"
      "st_words ?S2 = st_words S1" "bn_neg (st_bn ?S2 r) = bn_neg (st_bn S r)" using w(5) [of r] by (simp_all add: set_width_def d_def)
    have 3: "alters K {r} ?S2 (?S2\<lparr>st_words := m\<rparr>)"
      by (rule alters_words [OF alters_ok [OF 2] assms(2), of ?n]) (use sb wd f in simp_all)
    have "set_limb r (?n - 1) 0 ?S2 = ?S2\<lparr>st_words := m1\<rparr>" using f by (simp add: set_limb_def m1_def)
    then have "BN_lebin2bn A inp (Some r) S = (Some r, ?S2\<lparr>st_words := m\<rparr>)"
      using g True False f by (simp add: BN_lebin2bn_def words_for_bytes Let_def m_def)
    moreover have "bn_abs (?S2\<lparr>st_words := m\<rparr>) r = be_nat (rev inp)" using num f by (simp add: bn_abs_def)
    moreover have "alters K {r} S (?S2\<lparr>st_words := m\<rparr>)" by (rule alters_trans [OF w(1) alters_trans [OF 2 3]])
    ultimately show ?thesis using f False by (intro exI [of _ True] exI [of _ "?S2\<lparr>st_words := m\<rparr>"]) simp
  qed
qed

section \<open>Numbers to byte strings\<close>

lemma bytes_or_zero: "bytes_or m p i n msk = 0 \<longleftrightarrow> msk = 0 \<and> (\<forall>k. i \<le> k \<and> k < i + n \<longrightarrow> byte_at m p k = 0)"
proof (induction n arbitrary: i msk)
  case (Suc n)
  have "i \<le> k \<and> k < i + Suc n \<longleftrightarrow> k = i \<or> (i + 1 \<le> k \<and> k < i + 1 + n)" for k by auto
  then have "(\<forall>k. i \<le> k \<and> k < i + Suc n \<longrightarrow> byte_at m p k = 0) \<longleftrightarrow>
      byte_at m p i = 0 \<and> (\<forall>k. i + 1 \<le> k \<and> k < i + 1 + n \<longrightarrow> byte_at m p k = 0)"
    by (simp only: imp_disjL all_conj_distrib simp_thms)
  then show ?case by (simp only: bytes_or.simps Suc or_eq_0_iff conj_assoc)
qed auto

lemma high_bytes_zero:
  assumes "k \<le> 8 * n"
  shows "(\<forall>i. k \<le> i \<and> i < 8 * n \<longrightarrow> byte_at m p i = 0) \<longleftrightarrow> num_at m p n < 256 ^ k"
proof
  assume z: "\<forall>i. k \<le> i \<and> i < 8 * n \<longrightarrow> byte_at m p i = 0"
  have "get_bytes m p (8 * n) = get_bytes m p k @ replicate (8 * n - k) 0"
    by (rule nth_equalityI) (use assms z in \<open>auto simp: get_bytes_def nth_append\<close>)
  then have "num_at m p n = be_nat (rev (get_bytes m p k))"
    using get_bytes_num [of "8 * n" n m p] num_at_256 [of m p n] by (simp add: be_nat_append be_nat_replicate_0)
  then show "num_at m p n < 256 ^ k" using be_nat_bound [of "rev (get_bytes m p k)"] by simp
next
  assume lt: "num_at m p n < 256 ^ k"
  show "\<forall>i. k \<le> i \<and> i < 8 * n \<longrightarrow> byte_at m p i = 0"
  proof (intro allI impI)
    fix i
    assume i: "k \<le> i \<and> i < 8 * n"
    have "(256 :: nat) ^ k \<le> 256 ^ i" using i by (intro power_increasing) simp_all
    then have "num_at m p n < 256 ^ i" using lt by (rule less_le_trans [rotated])
    then have "unat (byte_at m p i) = 0" using i byte_digit [of i n m p] by simp
    then show "byte_at m p i = 0" by (simp add: unat_eq_zero)
  qed
qed

lemma fits_in_bytes:
  assumes "8 * n < size_mod"
  shows "fits_in_bytes m p n k \<longleftrightarrow> num_at m p n < 256 ^ k"
proof (cases "k \<le> 8 * n")
  case True
  then show ?thesis using assms high_bytes_zero [OF True, of m p] by (simp add: fits_in_bytes_def bytes_or_zero size_mul_exact mult.commute)
next
  case False
  have "(256 :: nat) ^ (8 * n) \<le> 256 ^ k" using False by (intro power_increasing) simp_all
  then have "num_at m p n < 256 ^ k" using num_at_256 [of m p n] by (rule less_le_trans [rotated])
  then show ?thesis using assms False by (simp add: fits_in_bytes_def size_mul_exact mult.commute)
qed

lemma reverse_loop:
  assumes "i + n \<le> length out"
  shows "reverse_loop out m p i n = take (length out - i - n) out @ rev (map (byte_at m p) [i..<i + n]) @ drop (length out - i) out"
  using assms
proof (induction n arbitrary: out i)
  case (Suc n)
  let ?j = "length out - i - 1"
  have j: "?j < length out" "Suc ?j = length out - i" using Suc(2) by simp_all
  have "reverse_loop out m p i (Suc n) = take (length out - (i + 1) - n) out @ rev (map (byte_at m p) [i + 1..<i + 1 + n]) @ drop ?j (out[?j := byte_at m p i])"
    using Suc(1) [of "i + 1" "out[?j := byte_at m p i]"] Suc(2) by simp
  also have "drop ?j (out[?j := byte_at m p i]) = byte_at m p i # drop (length out - i) out"
    using j by (simp add: drop_update_swap Cons_nth_drop_Suc [symmetric])
  finally show ?case using upt_conv_Cons [of i "i + Suc n"] by (simp del: upt_Suc)
qed simp

lemma bn_words_to_big_endian:
  assumes "8 * n < size_mod" "num_at m p n < 256 ^ length out"
  shows "bn_words_to_big_endian out m p n = Some (be_bytes (length out) (num_at m p n))"
proof -
  let ?l = "length out" and ?k = "min (length out) (8 * n)"
  have k: "(if ?l < 8 * n then ?l else 8 * n) = ?k" by simp
  have "bn_words_to_big_endian out m p n = Some (replicate (?l - ?k) 0 @ rev (get_bytes m p ?k))"
    using assms by (simp add: bn_words_to_big_endian_def Let_def fits_in_bytes size_mul_exact mult.commute [of n] k reverse_loop write_at_def get_bytes_def)
  also have "replicate (?l - ?k) 0 @ rev (get_bytes m p ?k) = be_bytes ?l (num_at m p n)"
  proof (rule be_nat_inject)
    have "num_at m p n < 256 ^ ?k" using assms(2) num_at_256 [of m p n] by (simp add: min_def)
    then show "be_nat (replicate (?l - ?k) 0 @ rev (get_bytes m p ?k)) = be_nat (be_bytes ?l (num_at m p n))"
      using assms(2) by (simp add: be_nat_append be_nat_replicate_0 get_bytes_num [of ?k n] be_nat_be_bytes)
  qed simp
  finally show ?thesis .
qed

lemma store_sizes: "store_ok K S \<Longrightarrow> i \<in> K \<Longrightarrow> 8 * bn_width (st_bn S i) < size_mod"
  using store_ok_width(2) [of K S i] by (simp add: BN_MAX_WORDS_def INT_MAX_def size_mod_def)

lemma bn_assert_fits_in_bytes:
  assumes "store_ok K S" "i \<in> K"
  shows "bn_assert_fits_in_bytes S i k \<longleftrightarrow> bn_abs S i < 256 ^ k"
proof (cases "k < 8 * bn_width (st_bn S i)")
  case True
  then show ?thesis using store_sizes [OF assms] high_bytes_zero [of k "bn_width (st_bn S i)" "st_words S" "bn_d (st_bn S i)"]
    by (auto simp: bn_assert_fits_in_bytes_def size_mul_exact mult.commute list_all_iff bn_abs_def)
next
  case False
  then have "bn_assert_fits_in_bytes S i k" using store_sizes [OF assms] by (simp add: bn_assert_fits_in_bytes_def size_mul_exact mult.commute)
  moreover have "(256 :: nat) ^ (8 * bn_width (st_bn S i)) \<le> 256 ^ k" using False by (intro power_increasing) simp_all
  ultimately show ?thesis
    using less_le_trans [OF num_at_256 [of "st_words S" "bn_d (st_bn S i)" "bn_width (st_bn S i)"]] by (simp add: bn_abs_def)
qed

lemma BN_bn2bin_padded:
  assumes "store_ok K S" "i \<in> K"
  shows "BN_bn2bin_padded S i out =
    Some (if bn_abs S i < 256 ^ length out then (True, be_bytes (length out) (bn_abs S i)) else (False, out))"
  using store_sizes [OF assms] by (simp add: BN_bn2bin_padded_def fits_in_bytes bn_words_to_big_endian bn_abs_def)

lemma BN_bn2le_padded:
  assumes "store_ok K S" "i \<in> K"
  shows "BN_bn2le_padded S i out =
    (if bn_abs S i < 256 ^ length out then (True, rev (be_bytes (length out) (bn_abs S i))) else (False, out))"
proof (cases "bn_abs S i < 256 ^ length out")
  case False
  then show ?thesis using store_sizes [OF assms] by (simp add: BN_bn2le_padded_def Let_def fits_in_bytes bn_abs_def)
next
  case True
  define n where "n = bn_width (st_bn S i)"
  define d where "d = bn_d (st_bn S i)"
  let ?m = "st_words S" and ?l = "length out" and ?k = "min (length out) (8 * n)"
  have a: "bn_abs S i = num_at ?m d n" by (simp add: bn_abs_def n_def d_def)
  have k: "(if ?l < n * 8 then ?l else n * 8) = ?k" by simp
  have f: "fits_in_bytes ?m d n ?l" using store_sizes [OF assms] True a by (simp add: fits_in_bytes n_def)
  have "BN_bn2le_padded S i out = (True, get_bytes ?m d ?k @ replicate (?l - ?k) 0)"
    using f by (simp add: BN_bn2le_padded_def Let_def n_def [symmetric] d_def [symmetric] k write_at_def)
  also have "get_bytes ?m d ?k @ replicate (?l - ?k) 0 = rev (be_bytes ?l (bn_abs S i))"
  proof -
    have "rev (get_bytes ?m d ?k @ replicate (?l - ?k) 0) = be_bytes ?l (bn_abs S i)"
    proof (rule be_nat_inject)
      have "num_at ?m d n < 256 ^ ?k" using True num_at_256 [of ?m d n] by (simp add: min_def a)
      then show "be_nat (rev (get_bytes ?m d ?k @ replicate (?l - ?k) 0)) = be_nat (be_bytes ?l (bn_abs S i))"
        using True by (simp add: a be_nat_append be_nat_replicate_0 get_bytes_num [of ?k n] be_nat_be_bytes)
    qed simp
    then show ?thesis by (metis rev_rev_ident)
  qed
  finally show ?thesis using True by simp
qed

lemma BN_num_bytes_bound: "bn_abs S a < 256 ^ BN_num_bytes S a" "bn_abs S a \<noteq> 0 \<Longrightarrow> 256 ^ (BN_num_bytes S a - 1) \<le> bn_abs S a"
  "bn_abs S a = 0 \<Longrightarrow> BN_num_bytes S a = 0"
proof -
  let ?n = "BN_num_bytes S a" and ?b = "BN_num_bits S a"
  have "?b \<le> 8 * ?n" by (simp add: BN_num_bytes_def)
  then have "(2 :: nat) ^ ?b \<le> 2 ^ (8 * ?n)" by (intro power_increasing) simp_all
  then show "bn_abs S a < 256 ^ ?n" using BN_num_bits(1) [of S a] by (simp add: power_mult)
  show "256 ^ (?n - 1) \<le> bn_abs S a" if "bn_abs S a \<noteq> 0"
  proof -
    note b = BN_num_bits(2) [OF that]
    then have "8 * (?n - 1) \<le> ?b - 1" by (simp add: BN_num_bytes_def)
    then have "(2 :: nat) ^ (8 * (?n - 1)) \<le> 2 ^ (?b - 1)" by (intro power_increasing) simp_all
    then show ?thesis using b by (simp add: power_mult)
  qed
  show "?n = 0" if "bn_abs S a = 0"
    using that minimal_width [of S a] minimal_width_zero [of S a] by (simp add: BN_num_bytes_def BN_num_bits_def)
qed

lemma BN_num_bytes_unique:
  assumes "256 ^ k \<le> bn_abs S a" "bn_abs S a < 256 ^ Suc k"
  shows "BN_num_bytes S a = Suc k"
proof -
  let ?n = "BN_num_bytes S a"
  have nz: "bn_abs S a \<noteq> 0" using assms(1) by (cases "bn_abs S a") simp_all
  have "(256 :: nat) ^ k < 256 ^ ?n" using assms(1) BN_num_bytes_bound(1) by (rule le_less_trans)
  then have "k < ?n" by (rule power_less_imp_less_exp [rotated]) simp
  moreover have "(256 :: nat) ^ (?n - 1) < 256 ^ Suc k" using BN_num_bytes_bound(2) [OF nz] assms(2) by (rule le_less_trans)
  then have "?n - 1 < Suc k" by (rule power_less_imp_less_exp [rotated]) simp
  ultimately show ?thesis by simp
qed

lemma BN_bn2bin:
  assumes "store_ok K S" "i \<in> K" "BN_num_bytes S i \<le> length out"
  shows "BN_bn2bin S i out =
    Some (BN_num_bytes S i, be_bytes (BN_num_bytes S i) (bn_abs S i) @ drop (BN_num_bytes S i) out)"
  using assms(3) store_sizes [OF assms(1,2)] BN_num_bytes_bound(1) [of S i]
  by (simp add: BN_bn2bin_def Let_def bn_words_to_big_endian write_at_def min_def flip: bn_abs_def)

lemma one_word_cases:
  obtains "bn_minimal_width S a = 0" "bn_abs S a = 0" | "bn_minimal_width S a = 1" "bn_abs S a = unat (limb S a 0)"
  | "1 < bn_minimal_width S a" "2 ^ 64 \<le> bn_abs S a"
proof -
  let ?n = "bn_minimal_width S a"
  note w = minimal_width [of S a]
  consider "?n = 0" | "?n = 1" | k where "?n = Suc (Suc k)" by (metis One_nat_def not0_implies_Suc)
  then show thesis
  proof cases
    case 1
    then show ?thesis using w(1) by (intro that(1)) simp_all
  next
    case 2
    then show ?thesis using w(1) by (intro that(2)) (simp_all add: num_at_Cons limb_def)
  next
    case 3
    have "unat (limb S a (Suc k)) * 2 ^ (64 * Suc k) \<le> bn_abs S a"
      using w(1) by (simp add: 3 num_at_snoc [of _ _ "Suc k"] limb_def)
    moreover have "0 < unat (limb S a (Suc k))" using w(2) by (simp add: 3 unat_gt_0)
    moreover have "(2 :: nat) ^ 64 \<le> 2 ^ (64 * Suc k)" by (intro power_increasing) simp_all
    ultimately have "2 ^ 64 \<le> bn_abs S a"
      using mult_le_mono [of 1 "unat (limb S a (Suc k))" "2 ^ 64" "2 ^ (64 * Suc k)"] by linarith
    then show ?thesis using 3 by (intro that(3)) simp_all
  qed
qed

lemma BN_get_word: "BN_get_word S a = (if bn_abs S a < 2 ^ 64 then word_of_nat (bn_abs S a) else - 1)"
  using unsigned_less [of "limb S a 0", where 'a = nat] by (cases rule: one_word_cases [of S a]) (simp_all add: BN_get_word_def)

lemma BN_get_u64: "BN_get_u64 S a = (if bn_abs S a < 2 ^ 64 then Some (word_of_nat (bn_abs S a)) else None)"
  using unsigned_less [of "limb S a 0", where 'a = nat] by (cases rule: one_word_cases [of S a]) (simp_all add: BN_get_u64_def)

end
