(* ===== verification/Bn_Asn1.thy ===== *)
theory Bn_Asn1
  imports Bn_Bytes_Correct Cbb_Asn1
begin

unbundle bit_operations_syntax

text \<open>
  Big numbers as ASN.1 integers, \<open>crypto/bn_extra/bn_asn1.c\<close> and \<open>BN_bn2cbb_padded\<close> of \<open>crypto/bn_extra/convert.c\<close>. The value \<open>None\<close> of the
  outer option is a failed assertion. The writer appends the DER encoding of the number, the parser accepts exactly these.
\<close>

section \<open>The code\<close>

definition BN_bn2cbb_padded :: "allocator \<Rightarrow> nat \<Rightarrow> nat \<Rightarrow> bn_store \<Rightarrow> nat \<Rightarrow> CBB \<Rightarrow> (bool \<times> CBB) option" where
  "BN_bn2cbb_padded A d len S i cbb =
     (case CBB_add_space A d len cbb of
        (None, cbb) \<Rightarrow> Some (False, cbb)
      | (Some ptr, cbb) \<Rightarrow>
          (case BN_bn2bin_padded S i (take len (drop ptr (cb_buf (cbb_base cbb)))) of
             None \<Rightarrow> None
           | Some (ok, out) \<Rightarrow> Some (ok, cbb_write ptr out cbb)))"

definition BN_marshal_asn1 :: "allocator \<Rightarrow> nat \<Rightarrow> bn_store \<Rightarrow> nat \<Rightarrow> CBB \<Rightarrow> (bool \<times> CBB) option" where
  "BN_marshal_asn1 A d S bn cbb =
     (if BN_is_negative S bn then Some (False, cbb)
      else
        (case CBB_add_asn1 A d CBS_ASN1_INTEGER cbb of
           (False, cbb) \<Rightarrow> Some (False, cbb)
         | (True, cbb) \<Rightarrow>
             (case (if BN_num_bits S bn mod 8 = 0 then CBB_add_u8 A (d + 1) 0 cbb else (True, cbb)) of
                (False, cbb) \<Rightarrow> Some (False, cbb)
              | (True, cbb) \<Rightarrow>
                  (case BN_bn2cbb_padded A (d + 1) (BN_num_bytes S bn) S bn cbb of
                     None \<Rightarrow> None
                   | Some (False, cbb) \<Rightarrow> Some (False, cbb)
                   | Some (True, cbb) \<Rightarrow> Some (CBB_flush A d cbb)))))"

definition BN_parse_asn1_unsigned :: "allocator \<Rightarrow> CBS \<Rightarrow> nat \<Rightarrow> bn_store \<Rightarrow> (bool \<times> CBS \<times> bn_store) option" where
  "BN_parse_asn1_unsigned A cbs ret S =
     (case CBS_get_asn1 CBS_ASN1_INTEGER cbs of
        (None, cbs) \<Rightarrow> Some (False, cbs, S)
      | (Some child, cbs) \<Rightarrow>
          (case CBS_is_valid_asn1_integer child of
             None \<Rightarrow> Some (False, cbs, S)
           | Some is_negative \<Rightarrow>
               if is_negative then Some (False, cbs, S)
               else
                 (case BN_bin2bn A child (Some ret) S of
                    None \<Rightarrow> None
                  | Some (bn, S) \<Rightarrow> Some (bn \<noteq> None, cbs, S))))"

section \<open>Writing\<close>

text \<open>What is appended when nothing fails.\<close>

definition put_number :: "allocator \<Rightarrow> nat \<Rightarrow> nat \<Rightarrow> bn_store \<Rightarrow> nat \<Rightarrow> CBB \<Rightarrow> bool \<times> CBB" where
  "put_number A d len S i cbb = the (BN_bn2cbb_padded A d len S i cbb)"

lemma bn2cbb_defined:
  assumes "store_ok K S" "i \<in> K"
  shows "BN_bn2cbb_padded A d len S i cbb = Some (put_number A d len S i cbb)"
  using BN_bn2bin_padded [OF assms] by (auto simp: put_number_def BN_bn2cbb_padded_def split: prod.split option.split)

lemma appends_put_number:
  assumes "store_ok K S" "i \<in> K" "bn_abs S i < 256 ^ len" "len < size_mod"
  shows "appends A d (put_number A d len S i) (be_bytes len (bn_abs S i))"
proof -
  have "put_number A d len S i cbb = CBB_add_bytes A d (be_bytes len (bn_abs S i)) cbb" if inv: "cbb_inv cbb" for cbb
  proof (cases "CBB_add_space A d len cbb")
    case (Pair p c)
    show ?thesis
    proof (cases p)
      case None
      then show ?thesis using Pair by (simp add: put_number_def BN_bn2cbb_padded_def CBB_add_bytes_def)
    next
      case (Some out)
      have "append_post A d (replicate len 0) cbb (cbb_write out (replicate len 0) c)"
        using add_space_ok [OF inv assms(4), of A d out c "replicate len 0"] Pair Some by simp
      note post = this
      obtain c0 where f: "CBB_flush A d cbb = (True, c0)" "cbb_buffer_add A (cbb_base c0) len = (Some out, cbb_base c)"
        using Pair Some by (auto simp: CBB_add_space_def split: prod.splits bool.splits)
      have "buf_inv (cbb_base c0)" using flush_ok [OF inv f(1)] by (simp add: cbb_inv_def)
      note ad = buffer_add_ok [OF this assms(4) f(2)]
      have "length (take len (drop out (cb_buf (cbb_base c)))) = len" using ad by (auto simp: buf_inv_def)
      then show ?thesis using Pair Some assms(3) BN_bn2bin_padded [OF assms(1,2)]
        by (simp add: put_number_def BN_bn2cbb_padded_def CBB_add_bytes_def)
    qed
  qed
  then show ?thesis using appends_add_bytes [of "be_bytes len (bn_abs S i)" A d] assms(4)
    by (auto simp: appends_def ready_def)
qed

lemma der_uint_bytes:
  "der_uint (bn_abs S a) = (if BN_num_bits S a mod 8 = 0 then [0] else []) @ be_bytes (BN_num_bytes S a) (bn_abs S a)"
proof (cases "bn_abs S a = 0")
  case True
  then have "BN_num_bits S a = 0" "BN_num_bytes S a = 0"
    using minimal_width_zero [OF True] by (simp_all add: BN_num_bits_def BN_num_bytes_def)
  then show ?thesis by (simp add: True der_uint_def)
next
  case False
  let ?v = "bn_abs S a" and ?b = "BN_num_bits S a"
  note b = BN_num_bits(1) [of S a] BN_num_bits(2) [OF False]
  obtain k where k: "BN_num_bytes S a = Suc k" using BN_num_bytes_bound(1) [of S a] False by (cases "BN_num_bytes S a") simp_all
  have v: "256 ^ k \<le> ?v" "?v < 256 ^ Suc k"
    using BN_num_bytes_bound(1) [of S a] BN_num_bytes_bound(2) [OF False] unfolding k by simp_all
  have range: "8 * Suc k + r = b + 7 \<Longrightarrow> r < 8 \<Longrightarrow> b \<le> 8 * k + 8 \<and> 8 * k < b" for r b :: nat by auto
  have "8 * Suc k + (?b + 7) mod 8 = ?b + 7" using div_mult_mod_eq [of "?b + 7" 8] k unfolding BN_num_bytes_def by (simp only: mult.commute)
  moreover have "(?b + 7) mod 8 < 8" by simp
  ultimately have bk: "?b \<le> 8 * k + 8" "8 * k < ?b" using range by blast+
  have p: "(2 :: nat) ^ (8 * k + 7) = 128 * 256 ^ k" by (simp add: power_add power_mult)
  have "128 \<le> ?v div 256 ^ k \<longleftrightarrow> 2 ^ (8 * k + 7) \<le> ?v"
    unfolding p by (simp add: less_eq_div_iff_mult_less_eq)
  also have "\<dots> \<longleftrightarrow> ?b mod 8 = 0"
  proof
    assume "2 ^ (8 * k + 7) \<le> ?v"
    then have "(2 :: nat) ^ (8 * k + 7) < 2 ^ ?b" using b(1) by (rule le_less_trans)
    then have "8 * k + 7 < ?b" by (rule power_less_imp_less_exp [rotated]) simp
    then have "?b = 8 * Suc k" using bk by simp
    then show "?b mod 8 = 0" by (simp only: mod_mult_self1_is_0)
  next
    assume "?b mod 8 = 0"
    then obtain j where "?b = 8 * j" by (metis mod_0_imp_dvd dvd_def)
    then have "?b - 1 = 8 * k + 7" using bk by simp
    then show "2 ^ (8 * k + 7) \<le> ?v" using b(2) by simp
  qed
  finally show ?thesis using der_uint_lead [OF v] be_bytes_Cons [of k ?v] by (simp add: k del: be_bytes.simps)
qed

lemma num_bytes_limit:
  assumes "store_ok K S" "i \<in> K"
  shows "BN_num_bytes S i \<le> 2 ^ 26"
proof -
  let ?w = "bn_width (st_bn S i)"
  have w: "?w \<le> 8388607" using store_ok_width(2) [OF assms] by (simp add: BN_MAX_WORDS_def INT_MAX_def)
  have "BN_num_bytes S i \<le> 8 * ?w"
  proof (cases "bn_abs S i = 0")
    case False
    have "256 ^ (BN_num_bytes S i - 1) \<le> bn_abs S i" by (rule BN_num_bytes_bound(2) [OF False])
    also have "\<dots> < 256 ^ (8 * ?w)" using num_at_256 [of "st_words S" _ ?w] by (simp add: bn_abs_def)
    finally have "BN_num_bytes S i - 1 < 8 * ?w" by (rule power_less_imp_less_exp [rotated]) simp
    then show ?thesis by simp
  qed (simp add: BN_num_bytes_bound(3))
  then show ?thesis using w by simp
qed

lemma marshal_defined:
  assumes "store_ok K S" "i \<in> K" "\<not> bn_neg (st_bn S i)"
  shows "BN_marshal_asn1 A d S i = (\<lambda>cbb. Some (cbb_then (CBB_add_asn1 A d CBS_ASN1_INTEGER cbb) (\<lambda>cbb.
     cbb_then (cbb_then (if BN_num_bits S i mod 8 = 0 then CBB_add_u8 A (d + 1) 0 cbb else (True, cbb))
       (put_number A (d + 1) (BN_num_bytes S i) S i)) (CBB_flush A d))))"
  using assms(3) bn2cbb_defined [OF assms(1,2)]
  by (auto simp: BN_marshal_asn1_def BN_is_negative_def cbb_then_def fun_eq_iff split: prod.splits bool.splits)

lemma BN_marshal_asn1:
  assumes "store_ok K S" "i \<in> K" "\<not> bn_neg (st_bn S i)"
  shows "\<exists>f. BN_marshal_asn1 A d S i = (\<lambda>cbb. Some (f cbb)) \<and> appends A d f (der_tlv CBS_ASN1_INTEGER (der_uint (bn_abs S i)))"
proof -
  have n: "BN_num_bytes S i \<le> 2 ^ 26" by (rule num_bytes_limit [OF assms(1,2)])
  have put: "appends A (d + 1) (put_number A (d + 1) (BN_num_bytes S i) S i) (be_bytes (BN_num_bytes S i) (bn_abs S i))"
    using n BN_num_bytes_bound(1) [of S i] by (intro appends_put_number [OF assms(1,2)]) (simp_all add: size_mod_def)
  have "appends A (d + 1) (\<lambda>cbb. cbb_then (if BN_num_bits S i mod 8 = 0 then CBB_add_u8 A (d + 1) 0 cbb else (True, cbb))
      (put_number A (d + 1) (BN_num_bytes S i) S i)) (der_uint (bn_abs S i))"
    using appends_then [OF appends_add_u8 [of A "d + 1" 0] put] put by (simp add: der_uint_bytes cbb_then_def)
  then have "appends A d (\<lambda>cbb. cbb_then (CBB_add_asn1 A d CBS_ASN1_INTEGER cbb) (\<lambda>cbb.
      cbb_then (cbb_then (if BN_num_bits S i mod 8 = 0 then CBB_add_u8 A (d + 1) 0 cbb else (True, cbb))
        (put_number A (d + 1) (BN_num_bytes S i) S i)) (CBB_flush A d))) (der_tlv CBS_ASN1_INTEGER (der_uint (bn_abs S i)))"
    using n by (intro appends_asn1) (simp_all add: der_uint_bytes)
  with marshal_defined [OF assms, of A d] show ?thesis by (intro exI conjI)
qed

section \<open>Parsing\<close>

lemma BN_parse_asn1_unsigned:
  assumes "store_ok K S" "r \<in> K"
  shows "\<exists>ok rest S'. BN_parse_asn1_unsigned A cbs r S = Some (ok, rest, S') \<and> alters K {r} S S' \<and> (\<not> ok \<longrightarrow> S' = S) \<and>
    (ok \<longrightarrow> cbs = der_tlv CBS_ASN1_INTEGER (der_uint (bn_abs S' r)) @ rest \<and> \<not> bn_neg (st_bn S' r) \<and>
      length (der_uint (bn_abs S' r)) \<le> 8 * BN_MAX_WORDS) \<and>
    (\<forall>n rest'. cbs = der_tlv CBS_ASN1_INTEGER (der_uint n) @ rest' \<and> length (der_uint n) \<le> 8 * BN_MAX_WORDS \<and>
      growable A S r BN_MAX_WORDS \<longrightarrow> ok \<and> rest = rest' \<and> bn_abs S' r = n)"
proof -
  have none: "\<not> cbs = der_tlv CBS_ASN1_INTEGER (der_uint n) @ rest'" if "CBS_get_asn1 CBS_ASN1_INTEGER cbs = (None, rest)"
    "length (der_uint n) \<le> 8 * BN_MAX_WORDS" for n rest rest'
    using that get_asn1_iff [of CBS_ASN1_INTEGER cbs "der_uint n" rest'] by (auto simp: BN_MAX_WORDS_def INT_MAX_def)
  have val: "CBS_is_valid_asn1_integer (der_uint n) = Some False" for n by (simp add: is_valid_integer_iff)
  obtain c rest where g: "CBS_get_asn1 CBS_ASN1_INTEGER cbs = (c, rest)" by fastforce
  show ?thesis
  proof (cases c)
    case None
    then show ?thesis using g none [of rest] alters_refl [OF assms(1)]
      by (intro exI [of _ False] exI [of _ rest] exI [of _ S]) (auto simp: BN_parse_asn1_unsigned_def)
  next
    case (Some child)
    have cbs: "cbs = der_tlv CBS_ASN1_INTEGER child @ rest" "length child < 2 ^ 32"
      using g Some by (simp_all add: get_asn1_iff)
    have same: "child = der_uint n \<and> rest = rest'" if "cbs = der_tlv CBS_ASN1_INTEGER (der_uint n) @ rest'"
      "length (der_uint n) \<le> 8 * BN_MAX_WORDS" for n rest'
      using that cbs g Some get_asn1_iff [of CBS_ASN1_INTEGER cbs "der_uint n" rest'] by (auto simp: BN_MAX_WORDS_def INT_MAX_def)
    show ?thesis
    proof (cases "CBS_is_valid_asn1_integer child = Some False")
      case False
      have "\<not> cbs = der_tlv CBS_ASN1_INTEGER (der_uint n) @ rest'" if "length (der_uint n) \<le> 8 * BN_MAX_WORDS" for n rest'
        using same that val False by blast
      moreover have "BN_parse_asn1_unsigned A cbs r S = Some (False, rest, S)"
        using g Some False by (auto simp: BN_parse_asn1_unsigned_def split: option.split)
      ultimately show ?thesis using alters_refl [OF assms(1)] by blast
    next
      case True
      then have d: "child = der_uint (be_nat child)" by (simp add: is_valid_integer_iff)
      then have ne: "child \<noteq> []" by (metis der_uint_nonempty)
      obtain ok S' where b: "BN_bin2bn A child (Some r) S = Some (if ok then Some r else None, S')" "alters K {r} S S'"
        "ok \<longrightarrow> bn_abs S' r = be_nat child \<and> bn_neg (st_bn S' r) = (child = [] \<and> bn_neg (st_bn S r)) \<and>
          bn_width (st_bn S' r) = (length child + 7) div 8" "\<not> ok \<longrightarrow> S' = S"
        "growable A S r ((length child + 7) div 8) \<longrightarrow> ok"
        using BN_bin2bn [OF assms, of A child] by blast
      have "BN_parse_asn1_unsigned A cbs r S = Some (ok, rest, S')"
        using g Some True b(1) by (simp add: BN_parse_asn1_unsigned_def)
      moreover have "ok \<and> rest = rest' \<and> bn_abs S' r = n" if n: "cbs = der_tlv CBS_ASN1_INTEGER (der_uint n) @ rest'"
        "length (der_uint n) \<le> 8 * BN_MAX_WORDS" "growable A S r BN_MAX_WORDS" for n rest'
      proof -
        note sm = same [OF n(1,2)]
        have "(length child + 7) div 8 \<le> BN_MAX_WORDS" using n(2) sm by (simp add: BN_MAX_WORDS_def INT_MAX_def)
        then have ok using b(5) n(3) by (simp add: growable_def)
        then show ?thesis using b(3) sm by simp
      qed
      moreover have "cbs = der_tlv CBS_ASN1_INTEGER (der_uint (bn_abs S' r)) @ rest \<and> \<not> bn_neg (st_bn S' r) \<and>
          length (der_uint (bn_abs S' r)) \<le> 8 * BN_MAX_WORDS" if ok
      proof -
        have "(length child + 7) div 8 \<le> BN_MAX_WORDS" using b(3) that store_ok_width(2) [OF alters_ok [OF b(2)] assms(2)] by simp
        then have "length child \<le> 8 * BN_MAX_WORDS" using div_le_mono2 [of 8] by simp
        then show ?thesis using b(3) that ne cbs(1) d by auto
      qed
      ultimately show ?thesis using b(2,4) by blast
    qed
  qed
qed

end
