(* ===== verification/Bn_Bytes_Props.thy ===== *)
theory Bn_Bytes_Props
  imports Bn_Asn1 Bn_Props Bytestring_Props
begin

text \<open>
  The properties of big numbers as byte strings and ASN.1 integers, with witnesses.
\<close>

section \<open>Byte strings\<close>

lemma be_bytes_lead: "256 ^ k \<le> v \<Longrightarrow> v < 256 ^ Suc k \<Longrightarrow> hd (be_bytes (Suc k) v) \<noteq> 0"
  unfolding be_bytes_Cons using less_mult_imp_div_less [of v 256 "256 ^ k"] div_greater_zero_iff [of v "256 ^ k"]
  by (auto simp: word_unat_eq_iff unat_word_of_nat_u8 mult.commute)

lemma minimal_bytes_lead:
  "be_bytes (BN_num_bytes S i) (bn_abs S i) \<noteq> [] \<longrightarrow> hd (be_bytes (BN_num_bytes S i) (bn_abs S i)) \<noteq> 0" (is "?bs \<noteq> [] \<longrightarrow> _")
proof
  assume "?bs \<noteq> []"
  then obtain k where k: "BN_num_bytes S i = Suc k" by (cases "BN_num_bytes S i") simp_all
  note b = BN_num_bytes_bound [of S i]
  have "bn_abs S i \<noteq> 0" using b(3) k by auto
  then show "hd ?bs \<noteq> 0" using b(1,2) be_bytes_lead [of k "bn_abs S i"] unfolding k by simp
qed

lemma bin2bn_val:
  assumes "store_ok L S" "r \<in> L"
  shows "\<exists>ok S'. BN_bin2bn A bs (Some r) S = Some (if ok then Some r else None, S') \<and> alters L {r} S S' \<and>
    (ok \<longrightarrow> bn_val S' r = int (be_nat bs)) \<and> (growable A S r BN_MAX_WORDS \<and> length bs \<le> 8 * BN_MAX_WORDS \<longrightarrow> ok)"
    "\<exists>ok S'. BN_lebin2bn A bs (Some r) S = (if ok then Some r else None, S') \<and> alters L {r} S S' \<and>
    (ok \<and> \<not> bn_neg (st_bn S r) \<longrightarrow> bn_val S' r = int (be_nat (rev bs))) \<and>
    (growable A S r BN_MAX_WORDS \<and> length bs \<le> 8 * BN_MAX_WORDS \<longrightarrow> ok)"
proof -
  have g: "growable A S r ((length bs + 7) div 8)" if "growable A S r BN_MAX_WORDS" "length bs \<le> 8 * BN_MAX_WORDS"
    using that by (simp add: growable_def BN_MAX_WORDS_def INT_MAX_def)
  have val: "bn_val S' r = int v" if "bn_abs S' r = v" "bn_neg (st_bn S' r) \<longrightarrow> v = 0" for S' v
    using that by (auto simp: bn_val_abs)
  obtain ok S' where "BN_bin2bn A bs (Some r) S = Some (if ok then Some r else None, S')" "alters L {r} S S'"
    "ok \<longrightarrow> bn_abs S' r = be_nat bs \<and> bn_neg (st_bn S' r) = (bs = [] \<and> bn_neg (st_bn S r))"
    "growable A S r ((length bs + 7) div 8) \<longrightarrow> ok"
    using BN_bin2bn [OF assms, of A bs] by blast
  then show "\<exists>ok S'. BN_bin2bn A bs (Some r) S = Some (if ok then Some r else None, S') \<and> alters L {r} S S' \<and>
    (ok \<longrightarrow> bn_val S' r = int (be_nat bs)) \<and> (growable A S r BN_MAX_WORDS \<and> length bs \<le> 8 * BN_MAX_WORDS \<longrightarrow> ok)"
    using g val [of S' "be_nat bs"] by (intro exI [of _ ok] exI [of _ S']) auto
  obtain ok S' where "BN_lebin2bn A bs (Some r) S = (if ok then Some r else None, S')" "alters L {r} S S'"
    "ok \<longrightarrow> bn_abs S' r = be_nat (rev bs) \<and> bn_neg (st_bn S' r) = (bs \<noteq> [] \<and> bn_neg (st_bn S r))"
    "growable A S r ((length bs + 7) div 8) \<longrightarrow> ok"
    using BN_lebin2bn [OF assms, of A bs] by blast
  then show "\<exists>ok S'. BN_lebin2bn A bs (Some r) S = (if ok then Some r else None, S') \<and> alters L {r} S S' \<and>
    (ok \<and> \<not> bn_neg (st_bn S r) \<longrightarrow> bn_val S' r = int (be_nat (rev bs))) \<and>
    (growable A S r BN_MAX_WORDS \<and> length bs \<le> 8 * BN_MAX_WORDS \<longrightarrow> ok)"
    using g val [of S' "be_nat (rev bs)"] by (intro exI [of _ ok] exI [of _ S']) auto
qed

text \<open>C37: numbers survive the byte strings. \<open>BN_bn2bin\<close> fails no assertion and writes the absolute value without a leading zero
  byte, and \<open>BN_bin2bn\<close> reads these bytes as the absolute value, whatever the number it reads into was before; \<open>BN_bn2bin_padded\<close> and
  \<open>BN_bn2le_padded\<close> fail exactly when the absolute value does not fit the buffer, and otherwise fill it so that \<open>BN_bin2bn\<close> reads
  the absolute value back, and \<open>BN_lebin2bn\<close> does when the number it reads into was not negative before. The readers succeed when
  the number can grow, and the two padded writers agree on whether the number fits.\<close>

theorem number_bytes_roundtrip:
  assumes "store_ok L S" "{r, i} \<subseteq> L" "BN_num_bytes S i \<le> length out"
  shows "(\<exists>bs. BN_bn2bin S i out = Some (length bs, bs @ drop (length bs) out) \<and> (bs \<noteq> [] \<longrightarrow> hd bs \<noteq> 0) \<and>
      (\<exists>ok S'. BN_bin2bn A bs (Some r) S = Some (if ok then Some r else None, S') \<and> alters L {r} S S' \<and>
        (ok \<longrightarrow> bn_val S' r = \<bar>bn_val S i\<bar>) \<and> (growable A S r BN_MAX_WORDS \<and> length bs \<le> 8 * BN_MAX_WORDS \<longrightarrow> ok))) \<and>
    (\<exists>ok bs. BN_bn2bin_padded S i buf = Some (ok, bs) \<and> (ok \<longleftrightarrow> \<bar>bn_val S i\<bar> < 256 ^ length buf) \<and>
      length bs = length buf \<and> (\<not> ok \<longrightarrow> bs = buf) \<and>
      (\<exists>ok' S'. BN_bin2bn A bs (Some r) S = Some (if ok' then Some r else None, S') \<and> alters L {r} S S' \<and>
        (ok \<and> ok' \<longrightarrow> bn_val S' r = \<bar>bn_val S i\<bar>) \<and> (growable A S r BN_MAX_WORDS \<and> length bs \<le> 8 * BN_MAX_WORDS \<longrightarrow> ok'))) \<and>
    (\<exists>ok bs. BN_bn2le_padded S i buf = (ok, bs) \<and> (ok \<longleftrightarrow> \<bar>bn_val S i\<bar> < 256 ^ length buf) \<and>
      length bs = length buf \<and> (\<not> ok \<longrightarrow> bs = buf) \<and>
      (\<exists>ok' S'. BN_lebin2bn A bs (Some r) S = (if ok' then Some r else None, S') \<and> alters L {r} S S' \<and>
        (ok \<and> ok' \<and> \<not> bn_neg (st_bn S r) \<longrightarrow> bn_val S' r = \<bar>bn_val S i\<bar>) \<and>
        (growable A S r BN_MAX_WORDS \<and> length bs \<le> 8 * BN_MAX_WORDS \<longrightarrow> ok')))"
proof -
  have L: "r \<in> L" "i \<in> L" using assms(2) by simp_all
  let ?n = "BN_num_bytes S i" and ?v = "bn_abs S i"
  let ?bs = "be_bytes ?n ?v" and ?pad = "be_bytes (length buf) ?v"
  define f where "f = (?v < 256 ^ length buf)"
  have val: "\<bar>bn_val S i\<bar> = int ?v" by (simp only: abs_bn_val)
  have fits: "f \<longleftrightarrow> int ?v < 256 ^ length buf"
    unfolding f_def by (metis of_nat_less_iff of_nat_numeral of_nat_power)
  have lead: "?bs \<noteq> [] \<longrightarrow> hd ?bs \<noteq> 0" by (rule minimal_bytes_lead)
  have reread: "be_nat ?bs = ?v" "f \<Longrightarrow> be_nat ?pad = ?v"
    using BN_num_bytes_bound(1) [of S i] by (simp_all add: be_nat_be_bytes f_def)
  have 1: "BN_bn2bin S i out = Some (length ?bs, ?bs @ drop (length ?bs) out)" using BN_bn2bin [OF assms(1) L(2) assms(3)] by simp
  have 2: "BN_bn2bin_padded S i buf = Some (f, if f then ?pad else buf)"
    using BN_bn2bin_padded [OF assms(1) L(2), of buf] by (simp add: f_def)
  have 3: "BN_bn2le_padded S i buf = (f, if f then rev ?pad else buf)"
    using BN_bn2le_padded [OF assms(1) L(2), of buf] by (simp add: f_def)
  define P Q where "P = (if f then ?pad else buf)" and "Q = (if f then rev ?pad else buf)"
  have n: "f \<Longrightarrow> int (be_nat P) = int ?v" "f \<Longrightarrow> int (be_nat (rev Q)) = int ?v" "length P = length buf" "length Q = length buf"
    "\<not> f \<longrightarrow> P = buf" "\<not> f \<longrightarrow> Q = buf" using reread(2) by (simp_all add: P_def Q_def)
  note r1 = bin2bn_val(1) [OF assms(1) L(1), of A ?bs, unfolded reread(1)]
  have r2: "\<exists>ok' S'. BN_bin2bn A P (Some r) S = Some (if ok' then Some r else None, S') \<and> alters L {r} S S' \<and>
        (f \<and> ok' \<longrightarrow> bn_val S' r = int ?v) \<and> (growable A S r BN_MAX_WORDS \<and> length P \<le> 8 * BN_MAX_WORDS \<longrightarrow> ok')"
    using bin2bn_val(1) [OF assms(1) L(1), of A P] n(1) by metis
  have r3: "\<exists>ok' S'. BN_lebin2bn A Q (Some r) S = (if ok' then Some r else None, S') \<and> alters L {r} S S' \<and>
        (f \<and> ok' \<and> \<not> bn_neg (st_bn S r) \<longrightarrow> bn_val S' r = int ?v) \<and>
        (growable A S r BN_MAX_WORDS \<and> length Q \<le> 8 * BN_MAX_WORDS \<longrightarrow> ok')"
    using bin2bn_val(2) [OF assms(1) L(1), of A Q] n(2) by metis
  show ?thesis unfolding val fits [symmetric]
  proof (intro conjI)
    show "\<exists>bs. BN_bn2bin S i out = Some (length bs, bs @ drop (length bs) out) \<and> (bs \<noteq> [] \<longrightarrow> hd bs \<noteq> 0) \<and>
      (\<exists>ok S'. BN_bin2bn A bs (Some r) S = Some (if ok then Some r else None, S') \<and> alters L {r} S S' \<and>
        (ok \<longrightarrow> bn_val S' r = int ?v) \<and> (growable A S r BN_MAX_WORDS \<and> length bs \<le> 8 * BN_MAX_WORDS \<longrightarrow> ok))"
      using 1 lead r1 by blast
    show "\<exists>ok bs. BN_bn2bin_padded S i buf = Some (ok, bs) \<and> (ok \<longleftrightarrow> f) \<and> length bs = length buf \<and> (\<not> ok \<longrightarrow> bs = buf) \<and>
      (\<exists>ok' S'. BN_bin2bn A bs (Some r) S = Some (if ok' then Some r else None, S') \<and> alters L {r} S S' \<and>
        (ok \<and> ok' \<longrightarrow> bn_val S' r = int ?v) \<and> (growable A S r BN_MAX_WORDS \<and> length bs \<le> 8 * BN_MAX_WORDS \<longrightarrow> ok'))"
      by (rule exI [of _ f], rule exI [of _ P], intro conjI) (use r2 n(3,5) 2 [folded P_def] in simp_all)
    show "\<exists>ok bs. BN_bn2le_padded S i buf = (ok, bs) \<and> (ok \<longleftrightarrow> f) \<and> length bs = length buf \<and> (\<not> ok \<longrightarrow> bs = buf) \<and>
      (\<exists>ok' S'. BN_lebin2bn A bs (Some r) S = (if ok' then Some r else None, S') \<and> alters L {r} S S' \<and>
        (ok \<and> ok' \<and> \<not> bn_neg (st_bn S r) \<longrightarrow> bn_val S' r = int ?v) \<and>
        (growable A S r BN_MAX_WORDS \<and> length bs \<le> 8 * BN_MAX_WORDS \<longrightarrow> ok'))"
      by (rule exI [of _ f], rule exI [of _ Q], intro conjI) (use r3 n(4,6) 3 [folded Q_def] in simp_all)
  qed
qed

theorem number_bytes_roundtrip_witness:
  "(\<exists>bs. BN_bn2bin demo_store 3 [9, 9] = Some (length bs, bs @ drop (length bs) [9, 9]) \<and>
      (\<exists>ok S'. BN_bin2bn generous bs (Some 3) demo_store = Some (if ok then Some 3 else None, S') \<and> (ok \<longrightarrow> bn_val S' 3 = 7))) \<and>
   (\<exists>bs. BN_bn2le_padded demo_store 3 [9, 9, 9] = (True, bs) \<and> length bs = 3)"
proof -
  have "BN_num_bytes demo_store 3 \<le> length [9, 9 :: u8]"
  proof (rule ccontr)
    assume "\<not> ?thesis"
    then have "2 \<le> BN_num_bytes demo_store 3 - 1" by simp
    then have "(256 :: nat) ^ 2 \<le> 256 ^ (BN_num_bytes demo_store 3 - 1)" by (intro power_increasing) simp_all
    then show False using BN_num_bytes_bound(2) [of demo_store 3] demo_bn_facts(6) by simp
  qed
  note p = number_bytes_roundtrip [OF demo_bn_facts(1) _ this, of 3 generous "[9, 9, 9]", unfolded demo_bn_facts(4)]
  have "{3, 3} \<subseteq> {2, 3, 4 :: nat}" by simp
  note p = p [OF this]
  from p have "\<exists>bs. BN_bn2bin demo_store 3 [9, 9] = Some (length bs, bs @ drop (length bs) [9, 9]) \<and>
      (\<exists>ok S'. BN_bin2bn generous bs (Some 3) demo_store = Some (if ok then Some 3 else None, S') \<and> (ok \<longrightarrow> bn_val S' 3 = 7))"
    by (simp only: abs_minus abs_numeral) blast
  moreover from p obtain ok bs where "BN_bn2le_padded demo_store 3 [9, 9, 9] = (ok, bs)" "ok \<longleftrightarrow> \<bar>- 7\<bar> < (256 :: int) ^ length [9, 9, 9 :: u8]"
    "length bs = length [9, 9, 9 :: u8]" by blast
  ultimately show ?thesis by simp
qed

lemma dropWhile_be: "dropWhile (\<lambda>b. b = 0) bs = be_bytes (length (dropWhile (\<lambda>b. b = 0) bs)) (be_nat bs)"
proof (induction bs)
  case (Cons b bs)
  show ?case
  proof (cases "b = 0")
    case True
    then show ?thesis using Cons by (simp add: be_nat_Cons)
  next
    case False
    then show ?thesis using be_bytes_be_nat [of "b # bs"] by simp
  qed
qed simp

text \<open>C38: byte strings survive the numbers. After \<open>BN_bin2bn\<close> has read a string, \<open>BN_bn2bin_padded\<close> into a buffer of its length
  writes the same string, \<open>BN_bn2bin\<close> writes it without its leading zeros, and the sign is unchanged only for the empty
  string. \<open>BN_lebin2bn\<close> and \<open>BN_bn2le_padded\<close> do the same for little-endian strings.\<close>

theorem bytes_number_roundtrip:
  assumes "store_ok L S" "r \<in> L" "length out = length bs" "length bs \<le> length buf"
  shows "(\<exists>ok S'. BN_bin2bn A bs (Some r) S = Some (if ok then Some r else None, S') \<and> alters L {r} S S' \<and>
      (ok \<longrightarrow> bn_abs S' r = be_nat bs \<and> (bs \<noteq> [] \<longrightarrow> \<not> bn_neg (st_bn S' r)) \<and> BN_bn2bin_padded S' r out = Some (True, bs) \<and>
        BN_bn2bin S' r buf = Some (let z = dropWhile (\<lambda>b. b = 0) bs in (length z, z @ drop (length z) buf))) \<and>
      (growable A S r BN_MAX_WORDS \<and> length bs \<le> 8 * BN_MAX_WORDS \<longrightarrow> ok)) \<and>
    (\<exists>ok S'. BN_lebin2bn A bs (Some r) S = (if ok then Some r else None, S') \<and> alters L {r} S S' \<and>
      (ok \<longrightarrow> BN_bn2le_padded S' r out = (True, bs)) \<and> (growable A S r BN_MAX_WORDS \<and> length bs \<le> 8 * BN_MAX_WORDS \<longrightarrow> ok))"
proof
  have g: "growable A S r ((length bs + 7) div 8)" if "growable A S r BN_MAX_WORDS" "length bs \<le> 8 * BN_MAX_WORDS"
    using that by (simp add: growable_def BN_MAX_WORDS_def INT_MAX_def)
  obtain ok S' where b: "BN_bin2bn A bs (Some r) S = Some (if ok then Some r else None, S')" "alters L {r} S S'"
    "ok \<longrightarrow> bn_abs S' r = be_nat bs \<and> bn_neg (st_bn S' r) = (bs = [] \<and> bn_neg (st_bn S r))" "growable A S r ((length bs + 7) div 8) \<longrightarrow> ok"
    using BN_bin2bn [OF assms(1,2), of A bs] by blast
  note ok' = alters_ok [OF b(2)]
  let ?z = "dropWhile (\<lambda>b. b = 0) bs"
  have pad: "BN_bn2bin_padded S' r out = Some (True, bs)" if ok
    using b(3) that BN_bn2bin_padded [OF ok' assms(2), of out] assms(3) be_nat_bound [of bs] be_bytes_be_nat [of bs] by simp
  have min: "BN_bn2bin S' r buf = Some (length ?z, ?z @ drop (length ?z) buf)" if ok
  proof -
    have v: "bn_abs S' r = be_nat bs" using b(3) that by blast
    have zn: "be_nat ?z = be_nat bs" by (induction bs) (simp_all add: be_nat_Cons)
    have n: "BN_num_bytes S' r = length ?z"
    proof (cases "?z = []")
      case True
      then have "be_nat bs = 0" using zn by (simp only: be_nat_Nil)
      then show ?thesis using BN_num_bytes_bound(3) [of S' r] v True by simp
    next
      case False
      then obtain z zs where z: "?z = z # zs" "z \<noteq> 0" using hd_dropWhile [OF False] by (cases ?z) auto
      have "1 * 256 ^ length zs \<le> unat z * (256 :: nat) ^ length zs" using z(2) by (intro mult_le_mono1) (simp add: Suc_le_eq unat_gt_0)
      then have "256 ^ length zs \<le> be_nat bs" "be_nat bs < 256 ^ Suc (length zs)"
        using z be_nat_bound [of "?z"] unfolding zn [symmetric] by (simp_all add: be_nat_Cons unat_gt_0 trans_le_add1)
      then show ?thesis using BN_num_bytes_unique [of "length zs" S' r] v z by simp
    qed
    have "length ?z \<le> length buf" using length_dropWhile_le [of "\<lambda>b. b = 0" bs] assms(4) by linarith
    then show ?thesis using BN_bn2bin [OF ok' assms(2), of buf] n dropWhile_be [of bs] by (simp add: v)
  qed
  show "\<exists>ok S'. BN_bin2bn A bs (Some r) S = Some (if ok then Some r else None, S') \<and> alters L {r} S S' \<and>
      (ok \<longrightarrow> bn_abs S' r = be_nat bs \<and> (bs \<noteq> [] \<longrightarrow> \<not> bn_neg (st_bn S' r)) \<and> BN_bn2bin_padded S' r out = Some (True, bs) \<and>
        BN_bn2bin S' r buf = Some (let z = dropWhile (\<lambda>b. b = 0) bs in (length z, z @ drop (length z) buf))) \<and>
      (growable A S r BN_MAX_WORDS \<and> length bs \<le> 8 * BN_MAX_WORDS \<longrightarrow> ok)"
    using b pad min g unfolding Let_def by (intro exI [of _ ok] exI [of _ S']) blast
  obtain ok S' where b: "BN_lebin2bn A bs (Some r) S = (if ok then Some r else None, S')" "alters L {r} S S'"
    "ok \<longrightarrow> bn_abs S' r = be_nat (rev bs)" "growable A S r ((length bs + 7) div 8) \<longrightarrow> ok"
    using BN_lebin2bn [OF assms(1,2), of A bs] by blast
  have "BN_bn2le_padded S' r out = (True, bs)" if ok
    using b(3) that BN_bn2le_padded [OF alters_ok [OF b(2)] assms(2), of out] assms(3) be_nat_bound [of "rev bs"] be_bytes_be_nat [of "rev bs"] by simp
  then show "\<exists>ok S'. BN_lebin2bn A bs (Some r) S = (if ok then Some r else None, S') \<and> alters L {r} S S' \<and>
      (ok \<longrightarrow> BN_bn2le_padded S' r out = (True, bs)) \<and> (growable A S r BN_MAX_WORDS \<and> length bs \<le> 8 * BN_MAX_WORDS \<longrightarrow> ok)"
    using b g by (intro exI [of _ ok] exI [of _ S']) blast
qed

theorem bytes_number_roundtrip_witness:
  "(\<exists>S'. BN_bin2bn generous [0, 1, 2] (Some 4) demo_store = Some (Some 4, S') \<and> BN_bn2bin S' 4 [9, 9, 9] = Some (2, [1, 2, 9])) \<and>
   (\<exists>S'. BN_lebin2bn generous [0, 1, 2] (Some 4) demo_store = (Some 4, S') \<and> BN_bn2le_padded S' 4 [9, 9, 9] = (True, [0, 1, 2]))"
proof -
  have g: "growable generous demo_store 4 BN_MAX_WORDS \<and> length [0, 1, 2 :: u8] \<le> 8 * BN_MAX_WORDS"
    by (simp add: growable_def generous_def demo_store_def BN_MAX_WORDS_def INT_MAX_def)
  have "(4 :: nat) \<in> {2, 3, 4}" "length [9, 9, 9 :: u8] = length [0, 1, 2 :: u8]" "length [0, 1, 2 :: u8] \<le> length [9, 9, 9 :: u8]" by simp_all
  note p = bytes_number_roundtrip [OF demo_bn_facts(1) this, of generous]
  from conjunct1 [OF p] g obtain S' where "BN_bin2bn generous [0, 1, 2] (Some 4) demo_store = Some (Some 4, S')"
    "BN_bn2bin S' 4 [9, 9, 9] = Some (let z = dropWhile (\<lambda>b. b = 0) [0, 1, 2 :: u8] in (length z, z @ drop (length z) [9, 9, 9]))" by auto
  moreover from conjunct2 [OF p] g obtain S' where "BN_lebin2bn generous [0, 1, 2] (Some 4) demo_store = (Some 4, S')"
    "BN_bn2le_padded S' 4 [9, 9, 9] = (True, [0, 1, 2])" by auto
  ultimately show ?thesis by simp
qed

section \<open>ASN.1\<close>

lemma der_uint_length:
  assumes "store_ok L S" "i \<in> L"
  shows "length (der_uint (bn_abs S i)) < 2 ^ 32"
  using num_bytes_limit [OF assms] by (simp add: der_uint_bytes)

text \<open>C39: numbers survive DER. \<open>BN_marshal_asn1\<close> refuses negative numbers, fails no assertion and, given room, appends a DER
  \<open>INTEGER\<close> to whatever the buffer holds; \<open>BN_parse_asn1_unsigned\<close> reads the same number from it and stops behind it.\<close>

theorem number_asn1_roundtrip:
  assumes "store_ok L S" "{r, i} \<subseteq> L" "0 \<le> bn_val S i" "\<not> bn_neg (st_bn S i)"
    "ready A d (length (der_tlv CBS_ASN1_INTEGER (der_uint (nat (bn_val S i))))) cbb"
  shows "\<exists>c. BN_marshal_asn1 A d S i cbb = Some (True, c) \<and> cbb_inv c \<and> cbb_kids c = cbb_kids cbb \<and>
    take (cb_len (cbb_base cbb)) (cb_bytes (cbb_base c)) = cb_bytes (cbb_base cbb) \<and>
    (\<exists>ok rest' S'. BN_parse_asn1_unsigned B (drop (cb_len (cbb_base cbb)) (cb_bytes (cbb_base c)) @ rest) r S = Some (ok, rest', S') \<and>
      alters L {r} S S' \<and> (ok \<longrightarrow> rest' = rest \<and> bn_val S' r = bn_val S i) \<and>
      (growable B S r BN_MAX_WORDS \<and> BN_num_bytes S i < 8 * BN_MAX_WORDS \<longrightarrow> ok))"
proof -
  have L: "r \<in> L" "i \<in> L" using assms(2) by simp_all
  have v: "nat (bn_val S i) = bn_abs S i" "bn_val S i = int (bn_abs S i)" using assms(4) by (simp_all add: bn_val_def)
  let ?tlv = "der_tlv CBS_ASN1_INTEGER (der_uint (bn_abs S i))"
  obtain f where f: "BN_marshal_asn1 A d S i = (\<lambda>cbb. Some (f cbb))" "appends A d f ?tlv"
    using BN_marshal_asn1 [OF assms(1) L(2) assms(4), of A d] by blast
  obtain c where c: "f cbb = (True, c)" "append_post A d ?tlv cbb c" using appendsD' [OF f(2)] assms(5) unfolding v(1) by blast
  have d: "d = length (cbb_kids cbb)" "length (cb_bytes (cbb_base cbb)) = cb_len (cbb_base cbb)"
    using assms(5) by (simp_all add: ready_def cbb_inv_def)
  have bytes: "cb_bytes (cbb_base c) = cb_bytes (cbb_base cbb) @ ?tlv" "cbb_inv c" "cbb_kids c = cbb_kids cbb"
    using c(2) d by (simp_all add: append_post_def)
  obtain ok rest' S' where p: "BN_parse_asn1_unsigned B (?tlv @ rest) r S = Some (ok, rest', S')" "alters L {r} S S'"
    "ok \<longrightarrow> ?tlv @ rest = der_tlv CBS_ASN1_INTEGER (der_uint (bn_abs S' r)) @ rest' \<and> \<not> bn_neg (st_bn S' r)"
    "\<And>n rest1. ?tlv @ rest = der_tlv CBS_ASN1_INTEGER (der_uint n) @ rest1 \<Longrightarrow> length (der_uint n) \<le> 8 * BN_MAX_WORDS \<Longrightarrow>
      growable B S r BN_MAX_WORDS \<Longrightarrow> ok"
    using BN_parse_asn1_unsigned [OF assms(1) L(1), of B "?tlv @ rest"] by blast
  have "rest' = rest \<and> bn_val S' r = bn_val S i" if ok
  proof -
    have p3: "?tlv @ rest = der_tlv CBS_ASN1_INTEGER (der_uint (bn_abs S' r)) @ rest'" "\<not> bn_neg (st_bn S' r)"
      using p(3) that by blast+
    then have e: "der_uint (bn_abs S i) = der_uint (bn_abs S' r)" "rest = rest'"
      using der_tlv_append_eq [of CBS_ASN1_INTEGER "der_uint (bn_abs S i)" CBS_ASN1_INTEGER "der_uint (bn_abs S' r)" rest rest']
        der_uint_length [OF assms(1) L(2)] der_uint_length [OF alters_ok [OF p(2)] L(1)] by simp_all
    have "bn_abs S' r = bn_abs S i" using arg_cong [OF e(1), of be_nat] by simp
    then show ?thesis using p3(2) v(2) e(2) by (simp add: bn_val_def)
  qed
  moreover have ok if "growable B S r BN_MAX_WORDS" "BN_num_bytes S i < 8 * BN_MAX_WORDS"
    using p(4) [of "bn_abs S i" rest] that by (simp add: der_uint_bytes)
  ultimately have "alters L {r} S S' \<and> (ok \<longrightarrow> rest' = rest \<and> bn_val S' r = bn_val S i) \<and>
      (growable B S r BN_MAX_WORDS \<and> BN_num_bytes S i < 8 * BN_MAX_WORDS \<longrightarrow> ok)" using p(2) by blast
  moreover have "drop (cb_len (cbb_base cbb)) (cb_bytes (cbb_base c)) @ rest = ?tlv @ rest"
    "take (cb_len (cbb_base cbb)) (cb_bytes (cbb_base c)) = cb_bytes (cbb_base cbb)" using bytes(1) d(2) by simp_all
  ultimately show ?thesis using f(1) c(1) bytes(2,3) p(1) by auto
qed

theorem number_asn1_roundtrip_witness:
  "\<exists>c. BN_marshal_asn1 generous 0 demo_store 2 (CBB_init_fixed (replicate 20 0)) = Some (True, c) \<and>
     (\<exists>S'. BN_parse_asn1_unsigned generous (drop 0 (cb_bytes (cbb_base c)) @ [1, 2]) 4 demo_store = Some (True, [1, 2], S') \<and> bn_val S' 4 = 5)"
proof -
  have "length (der_tlv CBS_ASN1_INTEGER (der_uint (nat (bn_val demo_store 2)))) \<le> 20"
    using length_der_tag [of CBS_ASN1_INTEGER] length_der_uint [of 5 1] by (simp add: demo_bn_facts(3) der_tlv_def der_length_def)
  then have r: "ready generous 0 (length (der_tlv CBS_ASN1_INTEGER (der_uint (nat (bn_val demo_store 2))))) (CBB_init_fixed (replicate 20 0))"
    by (intro ready_fixed) (simp_all add: size_mod_def)
  have "BN_num_bytes demo_store 2 = 1" using BN_num_bytes_unique [of 0 demo_store 2] by (simp add: demo_bn_facts(5))
  then have b: "growable generous demo_store 4 BN_MAX_WORDS" "BN_num_bytes demo_store 2 < 8 * BN_MAX_WORDS"
    by (simp_all add: growable_def generous_def demo_store_def BN_MAX_WORDS_def INT_MAX_def)
  have "{4, 2} \<subseteq> {2, 3, 4 :: nat}" "0 \<le> bn_val demo_store 2" "\<not> bn_neg (st_bn demo_store 2)"
    by (simp_all add: demo_bn_facts(3)) (simp add: demo_store_def)
  note p = number_asn1_roundtrip [OF demo_bn_facts(1) this r, of generous "[1, 2]", unfolded demo_bn_facts(3)]
  have "cb_len (cbb_base (CBB_init_fixed (replicate 20 0))) = 0" by (simp add: CBB_init_fixed_def cbb_init_def)
  with p show ?thesis using b by metis
qed

text \<open>C40: \<open>BN_parse_asn1_unsigned\<close> accepts exactly the DER encodings of the non-negative integers that fit the largest big
  number; it fails no assertion, a failure leaves every number as it was, and the element it accepted is the encoding of
  the number it set.\<close>

theorem number_asn1_exact:
  assumes "store_ok L S" "r \<in> L" "growable A S r BN_MAX_WORDS"
  shows "\<exists>ok rest S'. BN_parse_asn1_unsigned A cbs r S = Some (ok, rest, S') \<and> alters L {r} S S' \<and> (\<not> ok \<longrightarrow> S' = S) \<and>
    (ok \<longleftrightarrow> (\<exists>n rest. cbs = der_tlv CBS_ASN1_INTEGER (der_uint n) @ rest \<and> length (der_uint n) \<le> 8 * BN_MAX_WORDS)) \<and>
    (ok \<longrightarrow> 0 \<le> bn_val S' r \<and> cbs = der_tlv CBS_ASN1_INTEGER (der_uint (nat (bn_val S' r))) @ rest)"
proof -
  obtain ok rest S' where p: "BN_parse_asn1_unsigned A cbs r S = Some (ok, rest, S')" "alters L {r} S S'" "\<not> ok \<longrightarrow> S' = S"
    "ok \<longrightarrow> cbs = der_tlv CBS_ASN1_INTEGER (der_uint (bn_abs S' r)) @ rest \<and> \<not> bn_neg (st_bn S' r) \<and>
      length (der_uint (bn_abs S' r)) \<le> 8 * BN_MAX_WORDS"
    "\<And>n rest'. cbs = der_tlv CBS_ASN1_INTEGER (der_uint n) @ rest' \<Longrightarrow> length (der_uint n) \<le> 8 * BN_MAX_WORDS \<Longrightarrow> ok"
    using BN_parse_asn1_unsigned [OF assms(1,2), of A cbs] assms(3) by blast
  have v: "nat (bn_val S' r) = bn_abs S' r \<and> 0 \<le> bn_val S' r" if ok
  proof -
    have "\<not> bn_neg (st_bn S' r)" using p(4) that by blast
    then show ?thesis by (simp add: bn_val_def)
  qed
  show ?thesis
  proof (intro exI [of _ ok] exI [of _ rest] exI [of _ S'] conjI)
    show "ok \<longleftrightarrow> (\<exists>n rest. cbs = der_tlv CBS_ASN1_INTEGER (der_uint n) @ rest \<and> length (der_uint n) \<le> 8 * BN_MAX_WORDS)"
      using p(4,5) by blast
    show "ok \<longrightarrow> 0 \<le> bn_val S' r \<and> cbs = der_tlv CBS_ASN1_INTEGER (der_uint (nat (bn_val S' r))) @ rest" using p(4) v by auto
  qed (use p(1-3) in auto)
qed

theorem number_asn1_exact_witness:
  "\<exists>S'. BN_parse_asn1_unsigned generous [2, 1, 7, 9] 4 demo_store = Some (True, [9], S') \<and> bn_val S' 4 = 7"
proof -
  have e: "[2, 1, 7, 9] = der_tlv CBS_ASN1_INTEGER (der_uint 7) @ [9]"
    by (simp add: der_tlv_def der_tag_def tag_num_def tag_class_def der_length_def der_uint_def be_min.simps CBS_ASN1_INTEGER_def)
  have l: "length (der_uint 7) \<le> 8 * BN_MAX_WORDS" by (simp add: der_uint_def be_min.simps BN_MAX_WORDS_def INT_MAX_def)
  have "growable generous demo_store 4 BN_MAX_WORDS" by (simp add: growable_def generous_def demo_store_def BN_MAX_WORDS_def INT_MAX_def)
  note q = number_asn1_exact [OF demo_bn_facts(1) _ this, of "[2, 1, 7, 9]"]
  have ex: "\<exists>n rest. [2, 1, 7, 9] = der_tlv CBS_ASN1_INTEGER (der_uint n) @ rest \<and> length (der_uint n) \<le> 8 * BN_MAX_WORDS"
    using e l by blast
  obtain ok rest S' where
    p: "BN_parse_asn1_unsigned generous [2, 1, 7, 9] 4 demo_store = Some (ok, rest, S')" "alters {2, 3, 4} {4} demo_store S'" ok
      "0 \<le> bn_val S' 4" "[2, 1, 7, 9] = der_tlv CBS_ASN1_INTEGER (der_uint (nat (bn_val S' 4))) @ rest"
    using q ex by blast
  have "length (der_uint (nat (bn_val S' 4))) < 2 ^ 32"
    using der_uint_length [OF alters_ok [OF p(2)], of 4] p(4) by (simp add: bn_val_def split: if_splits)
  moreover have "length (der_uint 7) < 2 ^ 32" using l by (simp add: BN_MAX_WORDS_def INT_MAX_def)
  ultimately have d: "der_uint 7 = der_uint (nat (bn_val S' 4))" "[9] = rest"
    using p(5) unfolding e by (simp_all add: der_tlv_append_eq)
  have "7 = nat (bn_val S' 4)" using arg_cong [OF d(1), of be_nat] by (simp only: be_nat_der_uint)
  then show ?thesis using p(1,3,4) d(2) by auto
qed

end
