(* ===== verification/Spec2Isabelle.thy ===== *)
theory Spec2Isabelle
  imports Bytestring_Props Ber_Props Container_Props Encoding_Props Stream_Props Err_Props Bn_Props Bn_Shift_Props Bn_Bytes_Props
begin

text \<open>
  Verification library for the C code the application ships.

  \<^bold>\<open>The program.\<close> The repository is a Flutter application; its C code is the BoringSSL under
  \<open>src/ios/Pods/BoringSSL-GRPC/src/crypto\<close>, which gRPC and Firestore use for TLS. This development models the layer
  every other part of BoringSSL stands on: allocation and strings (\<open>mem.c\<close>, \<open>buf/buf.c\<close>), the byte-string parser
  and builder with their ASN.1 functions (\<open>bytestring/\<close>), calendar time (\<open>asn1/posix_time.c\<close>), the pointer stack
  and the hash table (\<open>stack/stack.c\<close>, \<open>lhash/lhash.c\<close>), the object-identifier registry built from them
  (\<open>obj/obj.c\<close>), base64 with the constant-time primitives it uses (\<open>base64/base64.c\<close>, \<open>internal.h\<close>), the byte streams with
  their memory buffers and connected pairs (\<open>bio/bio.c\<close>, \<open>bio/bio_mem.c\<close>, \<open>bio/pair.c\<close>), the error queue with its
  texts (\<open>err/err.c\<close>), and the big numbers under the public-key code, with their word kernels, sums, products, comparisons
  and pool of temporaries (\<open>fipsmodule/bn/generic.c\<close>, \<open>bn.c\<close>, \<open>add.c\<close>, \<open>mul.c\<close>, \<open>cmp.c\<close>, \<open>ctx.c\<close>),
  their shifts and bits (\<open>shift.c\<close>) and their forms as byte strings and ASN.1 integers (\<open>bytes.c\<close>, \<open>bn_extra/bn_asn1.c\<close>).

  \<^bold>\<open>How the parts interact.\<close> \<open>CBS_parse_rfc5280_time_internal\<close> calls the time functions. \<open>CBB_add_asn1_oid_from_text\<close>
  parses its text with \<open>CBS_get_u64_decimal\<close>, and \<open>CBS_asn1_oid_to_text\<close> prints through a \<open>CBB\<close>. \<open>CBS_asn1_ber_to_der\<close>
  reads with a \<open>CBS\<close> and writes nested children of a \<open>CBB\<close>. \<open>OBJ_create\<close> encodes its text with a \<open>CBB\<close>, copies names with
  the strings of \<open>mem.c\<close> and inserts the object into four hash tables; the lookups read them. The functions of \<open>bio.c\<close> call
  the stream behind a \<open>BIO\<close> through its method table; a memory stream keeps its bytes in a \<open>BUF_MEM\<close>, and \<open>BIO_read_asn1\<close> reads one DER element
  from any stream. \<open>ERR_print_errors_cb\<close> empties the error queue and prints each entry. The products of big numbers
  take temporaries from a \<open>BN_CTX\<close>, which keeps them in a stack of \<open>stack.c\<close>, and work on words through \<open>generic.c\<close>.

  \<^bold>\<open>Conventions.\<close> A C function is a HOL function of the same name. Bytes are \<open>8 word\<close>, other fixed-width values
  are words of their width, \<open>size_t\<close> is \<open>nat\<close> with wrap-around at \<open>2 ^ 64\<close> written out (\<open>size_add\<close>, \<open>size_mul\<close>), and \<open>int\<close> is
  \<open>int\<close> with the checks against \<open>INT_MAX\<close> of the code. Memory is granted or refused by an argument \<open>A\<close> of
  type \<open>allocator\<close>, an arbitrary function that also chooses the bytes of fresh memory. A \<open>CBS\<close> is the list of bytes left;
  a parser returns \<open>None\<close> or a value, with the input after the call. A \<open>CBB\<close> is its buffer and the chain of
  open children; an operation on the child at depth \<open>d\<close> takes \<open>d\<close> and returns success and the new state.
  Null pointers are \<open>None\<close>. A \<open>BIO\<close> is an address in a heap of records, since the two ends of a pair reach each other and
  chains are linked; the implementation's private data is a type parameter. Functions of streams return \<open>None\<close> when an assertion fails
  or a loop does not end, and the properties show that they return. The error state of the thread is an
  optional record that the functions take and return. Big numbers live in a store, the memory of words together with the
  \<open>BIGNUM\<close> structures by address, so that results and operands may be the same object; an array on the stack is memory above
  \<open>st_brk\<close>, and \<open>None\<close> is a failed assertion, a call of \<open>abort\<close> or a null pointer followed. Three assertions have no such branch:
  those of \<open>CRYPTO_addc_w\<close> and \<open>CRYPTO_subc_w\<close> on the carry, which the loops keep at most one, and that of \<open>bn_sub_part_words\<close> on
  its length, which is a number of words in the model and comes from values the modelled assertions of its callers bound.

  \<^bold>\<open>Theories.\<close>
  \<^item> \<open>Prelude\<close>: types, \<open>size_t\<close> arithmetic, big-endian bytes, and the interfaces \<open>prefix_codec\<close> and \<open>canonical_codec\<close> of
    a parser and the encoding it inverts. \<open>Word_Facts\<close>: facts on words.
  \<^item> \<open>Mem\<close>: \<open>mem.c\<close>. \<open>Buf\<close>: \<open>buf.c\<close> with its invariant and refinement to a byte list.
  \<^item> \<open>Posix_Time\<close>: \<open>posix_time.c\<close> and the Gregorian calendar as its specification.
  \<^item> \<open>Cbs\<close>: \<open>cbs.c\<close>. \<open>Der\<close> and \<open>Der_Values\<close>: DER tags, lengths, elements, base-128 numbers, integers, decimals and object
    identifiers as functions, and that the parsers accept exactly these encodings (interpretations \<open>b128\<close>,
    \<open>tagc\<close>, \<open>tlv\<close>, and others, of \<open>canonical_codec\<close>). \<open>Times\<close>: the time formats.
  \<^item> \<open>Cbb\<close>: \<open>cbb.c\<close>. \<open>Cbb_Correct\<close>: the buffer and child-chain invariants, the contents \<open>cbb_view\<close> a flush
    leaves, and \<open>appends\<close>, the contract of every writer. \<open>Cbb_Asn1\<close>: the ASN.1 writers and \<open>SET OF\<close> sorting,
    with the interface \<open>comparison\<close> of a sort.
  \<^item> \<open>Unicode\<close>: \<open>unicode.c\<close> and its encodings. \<open>Ber\<close>: \<open>ber.c\<close> and \<open>asn1_compat.c\<close>. \<open>Ber_Correct\<close>: termination, DER at
    every level (\<open>der_forest\<close>), and the relation \<open>ber_der\<close> between BER input and the DER it denotes, which the conversion
    respects; \<open>Ber_Complete\<close>: every input in that relation is converted, given memory.
  \<^item> \<open>Stack\<close>, \<open>Stack_Correct\<close>: \<open>stack.c\<close>; heap sort, binary search, the step relation \<open>sk_step\<close>, the
    stacks it reaches from a new one (\<open>sk_reach\<close>) with their invariant, and deep copies through the interface \<open>copier\<close>.
  \<^item> \<open>Lhash\<close>, \<open>Lhash_Correct\<close>: \<open>lhash.c\<close>; chains, resizing, and the refinement to a map under the interface \<open>hashed_key\<close>.
  \<^item> \<open>Obj\<close>, \<open>Obj_Correct\<close>: \<open>obj.c\<close> and two functions of \<open>asn1/a_object.c\<close>; the four tables interpret \<open>hashed_key\<close>.
  \<^item> \<open>Constant_Time\<close>, \<open>Base64\<close>, \<open>Base64_Correct\<close>: \<open>internal.h\<close> and \<open>base64.c\<close>.
  \<^item> \<open>Bio\<close>: \<open>bio.c\<close>. \<open>Bio_Source\<close>: the interfaces \<open>byte_source\<close>, \<open>eof_source\<close> and \<open>byte_sink\<close> of a method table, and what the loops
    of \<open>bio.c\<close> do on every stream that meets them.
  \<^item> \<open>Bio_Pair\<close>: \<open>pair.c\<close>. \<open>Bio_Pair_Correct\<close>: the ring buffer is a queue. \<open>Bio_Channel\<close>: a pair refines two bounded
    channels; it interprets the interfaces (\<open>pair_source\<close>, \<open>closed_pair\<close>, \<open>pair_sink\<close>).
  \<^item> \<open>Bio_Mem\<close>, \<open>Bio_Mem_Correct\<close>: \<open>bio_mem.c\<close>; it interprets the interfaces too (\<open>mem_source\<close>, \<open>mem_eof\<close>, \<open>mem_sink\<close>).
  \<^item> \<open>Err\<close>, \<open>Err_Correct\<close>: the error queue of \<open>err.c\<close>, refined to a list of at most fifteen errors with marks.
    \<open>Err_Text\<close>, \<open>Err_Text_Correct\<close>: the texts of errors, \<open>ERR_error_string_n\<close> and the printing functions.
  \<^item> \<open>Bn_Words\<close>: \<open>generic.c\<close> and the number \<open>num_at\<close> that words in memory hold. \<open>Bn_Words_Correct\<close>: the loops, through the interface
    \<open>carry_chain\<close> of a loop that passes a carry on. \<open>Bn_Comba\<close>: the unrolled products.
  \<^item> \<open>Bn\<close>: \<open>bn.c\<close>, \<open>cmp.c\<close>, \<open>add.c\<close>. \<open>Bn_Correct\<close>: the invariant \<open>store_ok\<close>, the frame \<open>changes\<close> of an operation, and the integer
    \<open>bn_val\<close> a number denotes. \<open>Bn_Add\<close>: sums and differences. \<open>Bn_Compare\<close>: comparisons and sizes.
  \<^item> \<open>Bn_Mul\<close>: \<open>mul.c\<close> on words. \<open>Bn_Mul_Words\<close>, \<open>Bn_Sqr_Words\<close>: schoolbook and Karatsuba products and squares in place, with their
    scratch space. \<open>Bn_Ctx\<close>: \<open>ctx.c\<close> with its invariant \<open>ctx_ok\<close>. \<open>Bn_Product\<close>: \<open>mul.c\<close> on numbers; \<open>Bn_Product_Correct\<close>, \<open>Bn_Arith\<close>:
    what its functions compute.
  \<^item> \<open>Bn_Shift\<close>: \<open>shift.c\<close>. \<open>Bn_Shift_Correct\<close>: shifts as products and quotients by powers of two, bits as those of the absolute value.
  \<^item> \<open>Bn_Bytes\<close>: \<open>bytes.c\<close>. \<open>Bn_Bytes_Correct\<close>: byte strings as digits to the base 256, in both orders. \<open>Bn_Asn1\<close>: \<open>bn_asn1.c\<close>, which
    joins the numbers to the readers and writers of DER.
  \<^item> \<open>Bn_Machine\<close>: the interface \<open>number_machine\<close> of a library of calls on numbers, under which a program refines the same
    program on integers; the calls of the code interpret it.
  \<^item> \<open>Bytestring_Props\<close>, \<open>Ber_Props\<close>, \<open>Container_Props\<close>, \<open>Encoding_Props\<close>, \<open>Stream_Props\<close>, \<open>Err_Props\<close>, \<open>Bn_Props\<close>,
    \<open>Bn_Shift_Props\<close>, \<open>Bn_Bytes_Props\<close>: the properties with their witnesses.

  \<^bold>\<open>Fuel and bounds.\<close> \<open>cbs_convert_ber\<close> is the only function with fuel: nested calls and loop rounds both consume
  input, so the length of the input plus one suffices, which is proved. The loops of the streams are partial functions, because
  they call method tables that may do anything; they are proved to return on memory streams and pairs. The loop
  of \<open>BN_sub_word\<close> is one too and is proved to return on every number. All other loops are
  structural or have a measure. Properties about writers assume room: a fixed buffer large enough, or an allocator that grants
  everything and less than \<open>2 ^ 62\<close> bytes. For big numbers, success is proved when the allocator grants everything and the sizes stay below the
  limit of \<open>BN_MAX_WORDS\<close>; what a successful call computes is proved for every allocator.

  \<^bold>\<open>Parameters.\<close> The allocator; the generated tables of \<open>obj_dat.h\<close> and of the error reasons; \<open>errno\<close>, \<open>strerror\<close> and thread-local storage;
  the callback that receives printed errors; the comparison, hash, copy and free callbacks of the
  containers, constrained by the interfaces. \<open>qsort\<close> is an insertion sort and \<open>bsearch\<close> a binary search, as
  the C library specifies them.

  \<^bold>\<open>Limits of the properties.\<close> Where the code and a header of the repository disagree, the properties are about the inputs on which
  they agree: one BER element for \<open>CBS_asn1_ber_to_der\<close>, which converts all of a longer input; times in UTC, since a time with an offset
  has the offset added; counts below a power of two for \<open>bn_rshift_secret_shift\<close>, which drops higher bits of the count; a number that
  was not negative for \<open>BN_lebin2bn\<close>, which keeps the sign; and the order of a flagged stack as long as \<open>OPENSSL_sk_set\<close>, which
  keeps the flag, has not overwritten an element. Lemmas next to them state what the code does beyond these.

  \<^bold>\<open>Not modelled.\<close> Freeing and cleansing memory, printf wrappers, locks and threads, and the errors other modules push; file, socket and
  connection streams, which are system calls. Of BoringSSL, the
  ciphers, digests, the rest of the big numbers (division, modular arithmetic, primes), public-key code, the ASN.1 template interpreter, X.509, EVP, PEM and
  the C++ \<open>ssl\<close> directory; \<open>nanopb\<close>; the C++ and Objective-C pods and the Dart application.
\<close>

end
